(* ===== verification/Prelude.thy ===== *)
theory Prelude
  imports Main "HOL-Library.Word" "HOL-Library.Monad_Syntax" "HOL-Library.AList"
begin

text \<open>
  Shared vocabulary of the development: machine integers, byte strings, the Rust slice
  operations the code uses (\<open>position\<close>, \<open>windows\<close>, \<open>split\<close>, \<open>chunks\<close>, \<open>copy_from_slice\<close>)
  and generic lemmas on lists, options and words.

  A Rust function that can panic (slice index, slice range, arithmetic) is a function into
  \<open>'a option\<close> whose \<open>None\<close> is the panic; a Rust \<open>Result\<close> is a sum with \<open>Inl\<close> the
  error; a Rust \<open>Option\<close> is an \<open>option\<close>. \<open>usize\<close> is \<open>nat\<close> with the 64-bit bound
  written out wherever the code checks it.
\<close>

unbundle bit_operations_syntax

section \<open>Types\<close>

type_synonym u8 = "8 word"
type_synonym u16 = "16 word"
type_synonym u32 = "32 word"
type_synonym u64 = "64 word"
type_synonym bytes = "8 word list"

named_theorems no_panic \<open>rules that rewrite a possibly panicking operation to its value\<close>
named_theorems byte_simps \<open>big-endian encoding and decoding\<close>

definition U32_MAX :: nat where
  "U32_MAX = 4294967295"

definition USIZE_MAX :: nat where
  "USIZE_MAX = 18446744073709551615"

lemma unat_of_nat_u32: "n \<le> U32_MAX \<Longrightarrow> unat (of_nat n :: u32) = n"
  by (simp add: U32_MAX_def unsigned_of_nat take_bit_nat_eq_self)

definition ascii :: "string \<Rightarrow> bytes" where
  "ascii s = map (\<lambda>c. of_char c) s"

lemma length_ascii [simp]: "length (ascii s) = length s"
  by (simp add: ascii_def)

section \<open>Checked machine arithmetic on usize\<close>

definition checked_add_usize :: "nat \<Rightarrow> nat \<Rightarrow> nat option" where
  "checked_add_usize a b = (if a + b \<le> USIZE_MAX then Some (a + b) else None)"

definition checked_mul_usize :: "nat \<Rightarrow> nat \<Rightarrow> nat option" where
  "checked_mul_usize a b = (if a * b \<le> USIZE_MAX then Some (a * b) else None)"

definition saturating_mul_usize :: "nat \<Rightarrow> nat \<Rightarrow> nat" where
  "saturating_mul_usize a b = min (a * b) USIZE_MAX"

definition div_ceil :: "nat \<Rightarrow> nat \<Rightarrow> nat" where
  "div_ceil a b = (if a mod b = 0 then a div b else a div b + 1)"

lemma div_ceil_4_bound: "length xs \<le> 4 * div_ceil (length xs) 4"
  by (simp add: div_ceil_def) presburger

lemma div_ceil_4_le: "a \<le> 1536 \<Longrightarrow> div_ceil a 4 \<le> 384"
  by (simp add: div_ceil_def) presburger

lemma div_ceil_4_pos: "0 < a \<Longrightarrow> 0 < div_ceil a 4"
  by (simp add: div_ceil_def) presburger

section \<open>Fallible computations that may also panic\<close>

text \<open>\<open>Some (Inr x)\<close> is \<open>Ok(x)\<close>, \<open>Some (Inl e)\<close> is \<open>Err(e)\<close> and \<open>None\<close> a panic; \<open>and_then\<close> is the \<open>?\<close> operator.\<close>

type_synonym ('e, 'a) outcome = "('e + 'a) option"

definition ok :: "'a \<Rightarrow> ('e, 'a) outcome" where
  "ok x = Some (Inr x)"

definition fail :: "'e \<Rightarrow> ('e, 'a) outcome" where
  "fail e = Some (Inl e)"

definition or_panic :: "'a option \<Rightarrow> ('e, 'a) outcome" where
  "or_panic x = map_option Inr x"

definition and_then :: "('e, 'a) outcome \<Rightarrow> ('a \<Rightarrow> ('e, 'b) outcome) \<Rightarrow> ('e, 'b) outcome" where
  "and_then m k = (case m of None \<Rightarrow> None | Some (Inl e) \<Rightarrow> Some (Inl e) | Some (Inr x) \<Rightarrow> k x)"

lemma and_then_simps [simp]:
  "and_then (ok x) k = k x" "and_then (fail e) k = fail e" "and_then (or_panic (Some x)) k = k x"
  by (simp_all add: and_then_def ok_def fail_def or_panic_def)

lemma and_then_ok_iff: "and_then m k = ok y \<longleftrightarrow> (\<exists>x. m = ok x \<and> k x = ok y)"
  by (auto simp: and_then_def ok_def split: option.splits sum.splits)

lemma ok_inject [simp]: "ok x = ok y \<longleftrightarrow> x = y"
  by (simp add: ok_def)

lemma ok_not_fail [simp]: "fail e \<noteq> ok x" "ok x \<noteq> fail e"
  by (simp_all add: ok_def fail_def)

lemma or_panic_ok_iff [simp]: "or_panic m = ok x \<longleftrightarrow> m = Some x"
  by (auto simp: or_panic_def ok_def)

lemma and_then_fail_cong [fundef_cong]:
  "m = m' \<Longrightarrow> (\<And>x. m' = ok x \<Longrightarrow> k x = k' x) \<Longrightarrow> and_then m k = and_then m' k'"
  by (auto simp: and_then_def ok_def split: option.splits sum.splits)

section \<open>Slices\<close>

definition index :: "'a list \<Rightarrow> nat \<Rightarrow> 'a option" where
  "index xs i = (if i < length xs then Some (xs ! i) else None)"

definition slice :: "'a list \<Rightarrow> nat \<Rightarrow> nat \<Rightarrow> 'a list option" where
  "slice xs a b = (if a \<le> b \<and> b \<le> length xs then Some (take (b - a) (drop a xs)) else None)"

definition set_at :: "'a list \<Rightarrow> nat \<Rightarrow> 'a \<Rightarrow> 'a list option" where
  "set_at xs i v = (if i < length xs then Some (take i xs @ v # drop (Suc i) xs) else None)"

definition copy_into :: "'a list \<Rightarrow> nat \<Rightarrow> 'a list \<Rightarrow> 'a list option" where
  "copy_into xs off ys =
     (if off + length ys \<le> length xs
      then Some (take off xs @ ys @ drop (off + length ys) xs) else None)"

lemma index_Some [no_panic]: "i < length xs \<Longrightarrow> index xs i = Some (xs ! i)"
  by (simp add: index_def)

lemma slice_Some [no_panic]:
  "a \<le> b \<Longrightarrow> b \<le> length xs \<Longrightarrow> slice xs a b = Some (take (b - a) (drop a xs))"
  by (simp add: slice_def)

lemma set_at_list_update: "i < length xs \<Longrightarrow> set_at xs i v = Some (xs[i := v])"
  by (simp add: set_at_def upd_conv_take_nth_drop)

lemma set_at_length: "set_at xs i v = Some ys \<Longrightarrow> length ys = length xs"
  by (auto simp: set_at_def split: if_splits)

lemma copy_into_length: "copy_into xs off ys = Some zs \<Longrightarrow> length zs = length xs"
  by (auto simp: copy_into_def split: if_splits)

section \<open>Searching: position, windows, split\<close>

fun position :: "('a \<Rightarrow> bool) \<Rightarrow> 'a list \<Rightarrow> nat option" where
  "position p [] = None"
| "position p (x # xs) = (if p x then Some 0 else map_option Suc (position p xs))"

text \<open>
  \<open>xs.windows(n).position(|w| w == pat)\<close> with \<open>n = pat.len()\<close>: the first offset at which
  \<open>pat\<close> occurs. Windows shorter than \<open>n\<close> are never produced.
\<close>

fun find_window :: "'a list \<Rightarrow> 'a list \<Rightarrow> nat option" where
  "find_window pat [] = (if pat = [] then Some 0 else None)"
| "find_window pat (x # xs) =
     (if take (length pat) (x # xs) = pat then Some 0
      else map_option Suc (find_window pat xs))"

text \<open>\<open>xs.split(|b| b == sep)\<close>: always at least one part.\<close>

fun split_on :: "'a \<Rightarrow> 'a list \<Rightarrow> 'a list list" where
  "split_on sep [] = [[]]"
| "split_on sep (x # xs) =
     (if x = sep then [] # split_on sep xs
      else (case split_on sep xs of [] \<Rightarrow> [[x]] | p # ps \<Rightarrow> (x # p) # ps))"

fun strip_suffix :: "'a \<Rightarrow> 'a list \<Rightarrow> 'a list" where
  "strip_suffix c xs = (if xs \<noteq> [] \<and> last xs = c then butlast xs else xs)"

lemma position_Some_iff:
  "position p xs = Some i \<longleftrightarrow> i < length xs \<and> p (xs ! i) \<and> (\<forall>j<i. \<not> p (xs ! j))"
proof (induction xs arbitrary: i)
  case Nil
  then show ?case by simp
next
  case (Cons x xs)
  show ?case by (cases i) (auto simp: Cons.IH less_Suc_eq_0_disj)
qed

lemma position_None_iff: "position p xs = None \<longleftrightarrow> (\<forall>x\<in>set xs. \<not> p x)"
  by (induction xs) auto

lemma position_less: "position p xs = Some i \<Longrightarrow> i < length xs"
  by (simp add: position_Some_iff)

lemma split_on_not_Nil [simp]: "split_on sep xs \<noteq> []"
  by (cases xs) (auto split: list.split)

lemma split_on_no_sep: "sep \<notin> set xs \<Longrightarrow> split_on sep xs = [xs]"
  by (induction xs) auto

lemma split_on_append:
  "sep \<notin> set xs \<Longrightarrow> split_on sep (xs @ sep # ys) = xs # split_on sep ys"
  by (induction xs) auto

lemma split_on_parts: "p \<in> set (split_on sep xs) \<Longrightarrow> sep \<notin> set p"
proof (induction xs arbitrary: p)
  case Nil
  then show ?case by simp
next
  case (Cons x xs)
  then show ?case by (cases "split_on sep xs") (auto split: if_splits)
qed

lemma find_window_less:
  "find_window pat xs = Some i \<Longrightarrow> i + length pat \<le> length xs \<and> take (length pat) (drop i xs) = pat"
proof (induction xs arbitrary: i)
  case Nil
  then show ?case by (auto split: if_splits)
next
  case (Cons x xs)
  show ?case
  proof (cases i)
    case 0
    with Cons.prems have "take (length pat) (x # xs) = pat" by (auto split: if_splits)
    then show ?thesis using 0 by (metis add_0 drop0 length_take min.cobounded1)
  next
    case (Suc k)
    with Cons show ?thesis by (auto split: if_splits)
  qed
qed

lemma find_window_first:
  "find_window pat xs = Some i \<Longrightarrow> j < i \<Longrightarrow> take (length pat) (drop j xs) \<noteq> pat"
proof (induction xs arbitrary: i j)
  case Nil
  then show ?case by (auto split: if_splits)
next
  case (Cons x xs)
  then show ?case by (cases j) (auto split: if_splits)
qed

lemma find_window_None:
  "find_window pat xs = None \<Longrightarrow> take (length pat) (drop j xs) \<noteq> pat"
proof (induction xs arbitrary: j)
  case Nil
  then show ?case by (auto split: if_splits)
next
  case (Cons x xs)
  then show ?case by (cases j) (auto split: if_splits)
qed

lemma find_window_first_occurrence:
  assumes "take (length pat) (drop i xs) = pat" "i \<le> length xs"
    and "\<And>j. j < i \<Longrightarrow> take (length pat) (drop j xs) \<noteq> pat"
  shows "find_window pat xs = Some i"
proof (cases "find_window pat xs")
  case None
  with assms(1) find_window_None show ?thesis by blast
next
  case (Some k)
  then have "take (length pat) (drop k xs) = pat" using find_window_less by blast
  moreover have "\<not> i < k" using find_window_first [OF Some] assms(1) by blast
  ultimately show ?thesis using assms(3) Some by (metis linorder_neqE_nat)
qed

section \<open>Big-endian bytes\<close>

definition u16_from_be :: "u8 \<Rightarrow> u8 \<Rightarrow> u16" where
  "u16_from_be a b = push_bit 8 (ucast a) OR ucast b"

definition u32_from_be :: "u8 \<Rightarrow> u8 \<Rightarrow> u8 \<Rightarrow> u8 \<Rightarrow> u32" where
  "u32_from_be a b c d =
     push_bit 24 (ucast a) OR push_bit 16 (ucast b) OR push_bit 8 (ucast c) OR ucast d"

definition u16_to_be :: "u16 \<Rightarrow> bytes" where
  "u16_to_be v = [ucast (drop_bit 8 v), ucast v]"

definition u32_to_be :: "u32 \<Rightarrow> bytes" where
  "u32_to_be v = [ucast (drop_bit 24 v), ucast (drop_bit 16 v), ucast (drop_bit 8 v), ucast v]"

lemma u16_be_roundtrip [byte_simps]: "u16_from_be (ucast (drop_bit 8 v)) (ucast v) = v"
  by (rule bit_word_eqI) (auto simp: u16_from_be_def bit_simps)

lemma u32_be_roundtrip [byte_simps]:
  "u32_from_be (ucast (drop_bit 24 v)) (ucast (drop_bit 16 v)) (ucast (drop_bit 8 v)) (ucast v) = v"
proof (rule bit_word_eqI)
  fix n
  assume "n < LENGTH(32)"
  then consider "24 \<le> n" "n < 32" | "16 \<le> n" "n < 24" | "8 \<le> n" "n < 16" | "n < 8"
    by fastforce
  then show "bit (u32_from_be (ucast (drop_bit 24 v)) (ucast (drop_bit 16 v))
      (ucast (drop_bit 8 v)) (ucast v)) n = bit v n"
    by cases (auto simp: u32_from_be_def bit_simps)
qed

lemma length_u16_to_be [simp]: "length (u16_to_be v) = 2"
  by (simp add: u16_to_be_def)

lemma length_u32_to_be [simp]: "length (u32_to_be v) = 4"
  by (simp add: u32_to_be_def)

end
