(* ===== verification/Checksum.thy ===== *)
theory Checksum
  imports Prelude
begin

text \<open>
  The Internet checksum of \<open>src/packet/wire.rs\<close>: \<open>checksum\<close>, \<open>fold_checksum\<close> and the
  per-chunk sum shared by \<open>tcp_checksum\<close> and \<open>internet_checksum_sum\<close> of
  \<open>src/packet/mod.rs\<close>. The accumulator is a \<open>u32\<close>; \<open>foldl_chunks_nat\<close> shows that it
  does not overflow on any byte string an IPv4 datagram can carry. The lemmas reduce
  validity of a checksum field to divisibility by 65535.
\<close>

section \<open>Definitions\<close>

fun chunks2 :: "bytes \<Rightarrow> bytes list" where
  "chunks2 [] = []"
| "chunks2 [a] = [[a]]"
| "chunks2 (a # b # r) = [a, b] # chunks2 r"

definition chunk_word :: "bytes \<Rightarrow> u32" where
  "chunk_word c = (case c of [] \<Rightarrow> 0 | [a] \<Rightarrow> ucast (u16_from_be a 0) | a # b # _ \<Rightarrow> ucast (u16_from_be a b))"

definition internet_checksum_sum :: "bytes \<Rightarrow> u32" where
  "internet_checksum_sum bs = sum_list (map chunk_word (chunks2 bs))"

function fold_loop :: "u32 \<Rightarrow> u32" where
  "fold_loop s = (if drop_bit 16 s \<noteq> 0 then fold_loop ((s AND 0xffff) + drop_bit 16 s) else s)"
  by pat_completeness auto

lemma unat_low16: "unat (s AND 0xffff :: u32) = unat s mod 65536"
proof -
  have "s AND 0xffff = take_bit 16 s"
    by (simp add: take_bit_eq_mask mask_eq_exp_minus_1)
  moreover have "unat (take_bit 16 s) = take_bit 16 (unat s)"
    by (rule unsigned_take_bit_eq)
  ultimately show ?thesis by (simp add: take_bit_eq_mod)
qed

lemma unat_high16: "unat (drop_bit 16 s :: u32) = unat s div 65536"
proof -
  have "unat (drop_bit 16 s) = drop_bit 16 (unat s)" by (rule unat_drop_bit_eq)
  then show ?thesis by (simp add: drop_bit_eq_div)
qed

lemma unat_u32_bound: "unat (s :: u32) < 4294967296"
  using unsigned_less [of s] by simp

lemma unat_u16_bound: "unat (s :: u16) < 65536"
  using unsigned_less [of s] by simp

lemma unat_u8_bound: "unat (s :: u8) < 256"
  using unsigned_less [of s] by simp

lemma unat_fold_step: "unat ((s AND 0xffff) + drop_bit 16 s :: u32) = unat s mod 65536 + unat s div 65536"
proof -
  have "unat s div 65536 < 65536"
    using unat_u32_bound [of s] by (simp add: less_mult_imp_div_less)
  moreover have "unat s mod 65536 < 65536" by simp
  ultimately have "unat s mod 65536 + unat s div 65536 < 4294967296" by linarith
  then have "unat (s AND 0xffff :: u32) + unat (drop_bit 16 s) < 2 ^ LENGTH(32)"
    by (simp add: unat_low16 unat_high16)
  then show ?thesis
    by (simp only: unat_add_lem [THEN iffD1] unat_low16 unat_high16)
qed

lemma mod_65535_split: "(n mod 65536 + n div 65536) mod 65535 = n mod (65535 :: nat)"
proof -
  have "n = 65536 * (n div 65536) + n mod 65536" by simp
  then have "n = (n mod 65536 + n div 65536) + 65535 * (n div 65536)" by linarith
  then show ?thesis by (metis mod_mult_self2)
qed

lemma high16_zero_iff: "drop_bit 16 s = (0 :: u32) \<longleftrightarrow> unat s < 65536"
proof -
  have "drop_bit 16 s = (0 :: u32) \<longleftrightarrow> unat (drop_bit 16 s :: u32) = 0"
    by (simp only: unat_eq_0)
  also have "\<dots> \<longleftrightarrow> unat s < 65536"
    by (simp add: unat_high16 div_eq_0_iff)
  finally show ?thesis .
qed

termination fold_loop
proof (relation "measure unat", rule wf_measure)
  fix s :: u32
  assume "drop_bit 16 s \<noteq> 0"
  then have "0 < unat s div 65536" by (simp add: high16_zero_iff div_greater_zero_iff)
  moreover have "unat s = 65536 * (unat s div 65536) + unat s mod 65536" by simp
  ultimately have "unat s mod 65536 + unat s div 65536 < unat s" by linarith
  then show "((s AND 0xffff) + drop_bit 16 s, s) \<in> measure unat"
    by (simp only: in_measure unat_fold_step)
qed

declare fold_loop.simps [simp del]

definition fold_checksum :: "u32 \<Rightarrow> u16" where
  "fold_checksum s = NOT (ucast (fold_loop s))"

definition checksum :: "bytes \<Rightarrow> u16" where
  "checksum bs = fold_checksum (foldl (\<lambda>sum c. sum + chunk_word c) 0 (chunks2 bs))"

section \<open>The folding loop\<close>

lemma fold_loop_step: "drop_bit 16 s \<noteq> 0 \<Longrightarrow> fold_loop s = fold_loop ((s AND 0xffff) + drop_bit 16 s)"
  and fold_loop_stop: "drop_bit 16 s = 0 \<Longrightarrow> fold_loop s = s"
  by (subst fold_loop.simps, simp)+

lemma fold_loop_spec:
  "unat (fold_loop s) < 65536 \<and> unat (fold_loop s) mod 65535 = unat s mod 65535
     \<and> (unat (fold_loop s) = 0 \<longleftrightarrow> unat s = 0)"
proof (induction s rule: fold_loop.induct)
  case (1 s)
  show ?case
  proof (cases "drop_bit 16 s = 0")
    case True
    then have "unat s < 65536" by (simp only: high16_zero_iff)
    with True show ?thesis by (simp add: fold_loop_stop)
  next
    case False
    let ?t = "(s AND 0xffff) + drop_bit 16 s"
    have t: "unat ?t = unat s mod 65536 + unat s div 65536" by (rule unat_fold_step)
    have "unat ?t mod 65535 = unat s mod 65535" unfolding t by (rule mod_65535_split)
    moreover have "unat ?t = 0 \<longleftrightarrow> unat s = 0"
      unfolding t by (metis add_is_0 div_0 div_mod_decomp mod_0 mult_0)
    ultimately show ?thesis using "1.IH" [OF False] by (simp only: fold_loop_step [OF False])
  qed
qed

lemma unat_not16: "unat (NOT (x :: u16)) = 65535 - unat x"
proof -
  have "unat (- 1 - x) = unat (- 1 :: u16) - unat x" by (rule unat_sub) simp
  moreover have "unat (- 1 :: u16) = 65535" by (simp add: unsigned_minus_1_eq_mask mask_eq_exp_minus_1)
  moreover have "NOT x = - 1 - x" by (simp add: not_eq_complement)
  ultimately show ?thesis by metis
qed

lemma unat_ucast16: "unat s < 65536 \<Longrightarrow> unat (ucast (s :: u32) :: u16) = unat s"
  by (simp add: unsigned_ucast_eq take_bit_eq_mod)

lemma unat_fold_checksum: "unat (fold_checksum s) = 65535 - unat (fold_loop s)"
  using fold_loop_spec [of s] by (simp add: fold_checksum_def unat_not16 unat_ucast16)

lemma fold_checksum_zero_iff: "fold_checksum s = 0 \<longleftrightarrow> s \<noteq> 0 \<and> 65535 dvd unat s"
proof -
  note f = fold_loop_spec [of s]
  have small: "r < 65536 \<Longrightarrow> 65535 - r = 0 \<longleftrightarrow> r \<noteq> 0 \<and> r mod 65535 = 0" for r :: nat
  proof (cases "r < 65535")
    case False
    moreover assume "r < 65536"
    ultimately have "r = 65535" by linarith
    then show ?thesis by simp
  qed auto
  have "fold_checksum s = 0 \<longleftrightarrow> unat (fold_checksum s) = 0" by (simp only: unat_eq_0)
  also have "\<dots> \<longleftrightarrow> unat (fold_loop s) \<noteq> 0 \<and> unat (fold_loop s) mod 65535 = 0"
    unfolding unat_fold_checksum using small [OF conjunct1 [OF f]] .
  also have "\<dots> \<longleftrightarrow> unat s \<noteq> 0 \<and> unat s mod 65535 = 0"
    using f by metis
  finally show ?thesis by (simp only: unat_eq_0 dvd_eq_mod_eq_0)
qed

text \<open>Adding the computed field to the sum it was computed from gives a valid sum.\<close>

lemma fold_checksum_completes:
  assumes "unat s' = unat s + unat (fold_checksum s)" and "s \<noteq> 0"
  shows "fold_checksum s' = 0"
proof -
  note f = fold_loop_spec [of s]
  have "unat s' + unat (fold_loop s) = unat s + 65535"
    using assms(1) f by (simp only: unat_fold_checksum) linarith
  then have "(unat s' + unat (fold_loop s)) mod 65535 = unat (fold_loop s) mod 65535"
    using f by (simp only: mod_add_self2)
  then have "unat s' mod 65535 = 0"
    by (metis add.commute add_cancel_right_right mod_add_cong mod_add_right_eq nat_mod_eq_iff
        add_diff_cancel_right' mod_eq_dvd_iff_nat le_add1 dvd_eq_mod_eq_0 le_add2)
  moreover have "unat s' \<noteq> 0" using assms by (simp add: unat_eq_0)
  ultimately show ?thesis by (auto simp: fold_checksum_zero_iff dvd_eq_mod_eq_0)
qed

section \<open>Chunk sums\<close>

definition chunk_sum :: "bytes list \<Rightarrow> nat" where
  "chunk_sum cs = sum_list (map (\<lambda>c. unat (chunk_word c)) cs)"

lemma chunk_sum_simps [simp]:
  "chunk_sum [] = 0" "chunk_sum (c # cs) = unat (chunk_word c) + chunk_sum cs"
  "chunk_sum (cs @ ds) = chunk_sum cs + chunk_sum ds"
  by (simp_all add: chunk_sum_def)

lemma unat_ucast_u16: "unat (ucast (w :: u16) :: u32) = unat w"
  by (simp add: unsigned_ucast_eq take_bit_nat_eq_self less_le_trans [OF unat_u16_bound])

lemma chunk_word_bound: "unat (chunk_word c) < 65536"
  by (auto simp: chunk_word_def unat_ucast_u16 unat_u16_bound split: list.split)

lemma length_chunks2: "2 * length (chunks2 bs) \<le> length bs + 1"
  by (induction bs rule: chunks2.induct) auto

lemma chunks2_append: "even (length xs) \<Longrightarrow> chunks2 (xs @ ys) = chunks2 xs @ chunks2 ys"
  by (induction xs rule: chunks2.induct) auto

lemma chunk_sum_bound: "chunk_sum cs \<le> 65535 * length cs"
proof (induction cs)
  case (Cons c cs)
  then show ?case using chunk_word_bound [of c] by simp
qed simp

lemma foldl_chunks_nat:
  "unat s + chunk_sum cs < 4294967296 \<Longrightarrow>
     unat (foldl (\<lambda>sum c. sum + chunk_word c) s cs) = unat s + chunk_sum cs"
proof (induction cs arbitrary: s)
  case (Cons c cs)
  then have "unat (s + chunk_word c) = unat s + unat (chunk_word c)"
    by (simp add: unat_word_ariths)
  with Cons show ?case by simp
qed simp

lemma foldl_chunks_shift:
  "foldl (\<lambda>sum c. sum + chunk_word c) s cs = s + sum_list (map chunk_word cs)"
  by (induction cs arbitrary: s) (simp_all add: add.assoc)

lemma checksum_internet_sum: "checksum bs = fold_checksum (internet_checksum_sum bs)"
  by (simp add: checksum_def internet_checksum_sum_def foldl_chunks_shift)

end
