(* ===== verification/RawPacket.thy ===== *)
theory RawPacket
  imports Prelude
begin

text \<open>
  \<open>RawPacket\<close> of \<open>src/packet/mod.rs\<close>: a packet of 1 to \<open>MAX_RAW_PACKET_BYTES\<close> bytes, and the
  receive pool of \<open>src/bin/gput-packetd.rs\<close> that recycles packets. The datatype
  \<open>packet_error\<close> has one constructor per \<open>ensure!\<close> of the packet modules and of the daemon's sink.
\<close>

definition MAX_RAW_PACKET_BYTES :: nat where
  "MAX_RAW_PACKET_BYTES = 1536"

datatype packet_error =
    EmptyPacket
  | OversizedPacket nat
  | OversizedTcpPacket nat
  | LengthExceedsIpv4
  | PacketTooSmall
  | InvalidHeaderLength
  | TotalLengthExceedsBytes
  | InvalidIpChecksum
  | InvalidTcpChecksum
  | OutputLengthOutOfBounds nat
  | InputWordCountOverflow
  | LengthDoesNotFitU32
  | OutsideResponseSlot nat
  | EmptyUpload
  | UploadFailed
  | DeviceFailed string
  | SinkFailed string
  | TunSendFailed
  | TunShortWrite nat nat

datatype raw_packet = RawPacket (as_bytes: bytes)

text \<open>\<open>PacketSink\<close>: a state transformer that may fail or panic; it is given the source index and the packet.\<close>

type_synonym 's sink = "'s \<Rightarrow> nat \<Rightarrow> bytes option \<Rightarrow> ('s \<times> (packet_error + unit)) option"

definition raw_packet_new :: "bytes \<Rightarrow> packet_error + raw_packet" where
  "raw_packet_new bs =
     (if bs = [] then Inl EmptyPacket
      else if \<not> length bs \<le> MAX_RAW_PACKET_BYTES then Inl (OversizedPacket (length bs))
      else Inr (RawPacket bs))"

definition copy_from_slice :: "bytes \<Rightarrow> packet_error + raw_packet" where
  "copy_from_slice bs = raw_packet_new bs"

text \<open>\<open>clear\<close> then \<open>extend_from_slice\<close> on the packet's own buffer.\<close>

definition replace_from_slice :: "raw_packet \<Rightarrow> bytes \<Rightarrow> packet_error + raw_packet" where
  "replace_from_slice p bs =
     (if bs = [] then Inl EmptyPacket
      else if \<not> length bs \<le> MAX_RAW_PACKET_BYTES then Inl (OversizedPacket (length bs))
      else Inr (RawPacket ((take 0 (as_bytes p)) @ bs)))"

text \<open>The contract every constructor establishes and every consumer may assume.\<close>

definition wf_packet :: "raw_packet \<Rightarrow> bool" where
  "wf_packet p \<longleftrightarrow> as_bytes p \<noteq> [] \<and> length (as_bytes p) \<le> MAX_RAW_PACKET_BYTES"

lemma raw_packet_new_Inr_iff:
  "raw_packet_new bs = Inr p \<longleftrightarrow> p = RawPacket bs \<and> wf_packet p"
  by (auto simp: raw_packet_new_def wf_packet_def)

lemma replace_from_slice_eq_new: "replace_from_slice p bs = raw_packet_new bs"
  by (simp add: replace_from_slice_def raw_packet_new_def)

text \<open>
  \<open>push_received_packet\<close>: a received datagram is stored in a spare packet when there is one.
  The result is the batch, the pool and whether a packet was reused; an error leaves the
  popped spare packet dropped, as the early return of the code does.
\<close>

definition push_received_packet ::
  "raw_packet list \<Rightarrow> raw_packet list \<Rightarrow> bytes
     \<Rightarrow> raw_packet list \<times> raw_packet list \<times> (packet_error + bool)" where
  "push_received_packet batch spare bs =
     (if spare \<noteq> [] then
        (case replace_from_slice (last spare) bs of
           Inl e \<Rightarrow> (batch, butlast spare, Inl e)
         | Inr p \<Rightarrow> (batch @ [p], butlast spare, Inr True))
      else
        (case copy_from_slice bs of
           Inl e \<Rightarrow> (batch, spare, Inl e)
         | Inr p \<Rightarrow> (batch @ [p], spare, Inr False)))"

lemma push_received_packet_batch:
  "push_received_packet batch spare bs = (batch', spare', Inr b) \<Longrightarrow>
     batch' = batch @ [RawPacket bs] \<and> wf_packet (RawPacket bs)
     \<and> length spare' = length spare - (if b then 1 else 0)"
  by (auto simp: push_received_packet_def replace_from_slice_eq_new copy_from_slice_def
      raw_packet_new_Inr_iff split: if_splits sum.splits)

lemma push_received_packet_error_iff:
  "(\<exists>e. snd (snd (push_received_packet batch spare bs)) = Inl e)
     \<longleftrightarrow> bs = [] \<or> MAX_RAW_PACKET_BYTES < length bs"
  by (auto simp: push_received_packet_def replace_from_slice_eq_new copy_from_slice_def
      raw_packet_new_def split: if_splits sum.splits)

end
