(* ===== verification/PacketHttp.thy ===== *)
theory PacketHttp
  imports Prelude
begin

text \<open>
  The fixed HTTP responses of the packet path and the request classifier of
  \<open>src/packet/mod.rs\<close>, with the CPU engine's variant of the responses from
  \<open>src/packet/cpu.rs\<close>. \<open>classify_cases\<close> gives the classifier's result on every
  branch; \<open>classify_request\<close> its result on a rendered request line.
\<close>

section \<open>Responses\<close>

definition crlf :: bytes where "crlf = [13, 10]"

definition RESPONSE_PLAINTEXT :: u32 where "RESPONSE_PLAINTEXT = 0"
definition RESPONSE_HEALTH :: u32 where "RESPONSE_HEALTH = 1"
definition RESPONSE_BAD_REQUEST :: u32 where "RESPONSE_BAD_REQUEST = 2"
definition RESPONSE_NOT_FOUND :: u32 where "RESPONSE_NOT_FOUND = 3"
definition RESPONSE_METHOD_NOT_ALLOWED :: u32 where "RESPONSE_METHOD_NOT_ALLOWED = 4"

lemmas response_id_defs = RESPONSE_PLAINTEXT_def RESPONSE_HEALTH_def RESPONSE_BAD_REQUEST_def
  RESPONSE_NOT_FOUND_def RESPONSE_METHOD_NOT_ALLOWED_def

definition PACKET_RESPONSES :: "bytes list" where
  "PACKET_RESPONSES = [
     ascii ''HTTP/1.1 200 OK'' @ crlf @ ascii ''Content-Type: text/plain'' @ crlf
       @ ascii ''Content-Length: 14'' @ crlf @ ascii ''Connection: keep-alive'' @ crlf
       @ ascii ''X-Gput-Backend: gpu-packet'' @ crlf @ crlf @ ascii ''Hello, World!'' @ [10],
     ascii ''HTTP/1.1 200 OK'' @ crlf @ ascii ''Content-Type: text/plain'' @ crlf
       @ ascii ''Content-Length: 3'' @ crlf @ ascii ''Connection: keep-alive'' @ crlf
       @ ascii ''X-Gput-Backend: gpu-packet'' @ crlf @ crlf @ ascii ''ok'' @ [10],
     ascii ''HTTP/1.1 400 Bad Request'' @ crlf @ ascii ''Content-Type: text/plain'' @ crlf
       @ ascii ''Content-Length: 12'' @ crlf @ ascii ''Connection: keep-alive'' @ crlf
       @ ascii ''X-Gput-Backend: gpu-packet'' @ crlf @ crlf @ ascii ''bad request'' @ [10],
     ascii ''HTTP/1.1 404 Not Found'' @ crlf @ ascii ''Content-Type: text/plain'' @ crlf
       @ ascii ''Content-Length: 10'' @ crlf @ ascii ''Connection: keep-alive'' @ crlf
       @ ascii ''X-Gput-Backend: gpu-packet'' @ crlf @ crlf @ ascii ''not found'' @ [10],
     ascii ''HTTP/1.1 405 Method Not Allowed'' @ crlf @ ascii ''Content-Type: text/plain'' @ crlf
       @ ascii ''Content-Length: 19'' @ crlf @ ascii ''Connection: keep-alive'' @ crlf
       @ ascii ''X-Gput-Backend: gpu-packet'' @ crlf @ crlf @ ascii ''method not allowed'' @ [10]]"

definition packet_response :: "u32 \<Rightarrow> bytes" where
  "packet_response response_id =
     (if unat response_id < length PACKET_RESPONSES then PACKET_RESPONSES ! unat response_id
      else PACKET_RESPONSES ! unat RESPONSE_BAD_REQUEST)"

definition max_response_packet_bytes :: nat where
  "max_response_packet_bytes = 40 + foldl max 0 (map length PACKET_RESPONSES)"

text \<open>
  \<open>cpu_response\<close>: the cached table in which the first occurrence of \<open>gpu-packet\<close> is
  overwritten by \<open>cpu-packet\<close>.
\<close>

definition rename_backend :: "bytes \<Rightarrow> bytes" where
  "rename_backend response =
     (case find_window (ascii ''gpu-packet'') response of
        None \<Rightarrow> response
      | Some offset \<Rightarrow> take offset response @ ascii ''cpu-packet'' @ drop (offset + 10) response)"

definition cpu_responses :: "bytes list" where
  "cpu_responses = map (\<lambda>index. rename_backend (packet_response (of_nat index))) [0..<length PACKET_RESPONSES]"

definition cpu_response :: "u32 \<Rightarrow> bytes" where
  "cpu_response response_id =
     (if unat response_id < length cpu_responses then cpu_responses ! unat response_id
      else cpu_responses ! unat RESPONSE_BAD_REQUEST)"

section \<open>The classifier\<close>

definition classify_http_request :: "bytes \<Rightarrow> u32" where
  "classify_http_request payload =
     (case find_window crlf payload of
        None \<Rightarrow> RESPONSE_BAD_REQUEST
      | Some line_end \<Rightarrow>
          (let line = take line_end payload in
           case split_on 32 line of
             method # target # version # rest \<Rightarrow>
               if rest \<noteq> [] \<or> target = []
                  \<or> (version \<noteq> ascii ''HTTP/1.1'' \<and> version \<noteq> ascii ''HTTP/1.0'')
               then RESPONSE_BAD_REQUEST
               else if method \<noteq> ascii ''GET'' then RESPONSE_METHOD_NOT_ALLOWED
               else (let path = hd (split_on 63 target) in
                     if path = ascii ''/plaintext'' then RESPONSE_PLAINTEXT
                     else if path = ascii ''/health'' then RESPONSE_HEALTH
                     else RESPONSE_NOT_FOUND)
           | _ \<Rightarrow> RESPONSE_BAD_REQUEST))"

section \<open>Facts\<close>

lemma length_PACKET_RESPONSES [simp]: "length PACKET_RESPONSES = 5"
  by (simp add: PACKET_RESPONSES_def)

lemma length_cpu_responses [simp]: "length cpu_responses = 5"
  by (simp add: cpu_responses_def)

lemma max_response_packet_bytes_value: "max_response_packet_bytes = 192"
  by (simp add: max_response_packet_bytes_def PACKET_RESPONSES_def crlf_def)

lemma length_rename_backend [simp]: "length (rename_backend r) = length r"
proof (cases "find_window (ascii ''gpu-packet'') r")
  case (Some offset)
  then have "offset + 10 \<le> length r" using find_window_less by fastforce
  with Some show ?thesis by (simp add: rename_backend_def)
qed (simp add: rename_backend_def)

lemma length_PACKET_RESPONSES_elems: "map length PACKET_RESPONSES = [131, 119, 138, 134, 152]"
  by (simp add: PACKET_RESPONSES_def crlf_def)

lemma packet_response_in: "packet_response r \<in> set PACKET_RESPONSES"
  by (auto simp: packet_response_def RESPONSE_BAD_REQUEST_def)

lemma length_packet_response: "0 < length (packet_response r)" "length (packet_response r) \<le> 152"
proof -
  have "length (packet_response r) \<in> set (map length PACKET_RESPONSES)"
    using packet_response_in [of r] by simp
  then have "length (packet_response r) \<in> {131, 119, 138, 134, 152}"
    unfolding length_PACKET_RESPONSES_elems by simp
  then show "0 < length (packet_response r)" "length (packet_response r) \<le> 152" by auto
qed

lemma cpu_response_rename: "cpu_response r = rename_backend (packet_response r)"
proof (cases "unat r < 5")
  case True
  then show ?thesis by (simp add: cpu_response_def cpu_responses_def)
next
  case False
  then show ?thesis by (simp add: cpu_response_def cpu_responses_def packet_response_def RESPONSE_BAD_REQUEST_def)
qed

lemma length_cpu_response: "length (cpu_response r) = length (packet_response r)"
  by (simp add: cpu_response_rename)

lemma cpu_response_bounds: "0 < length (cpu_response r)" "length (cpu_response r) \<le> 152"
  using length_packet_response [of r] by (simp_all add: length_cpu_response)

lemma classify_bound: "unat (classify_http_request p) < 5"
  by (simp add: classify_http_request_def response_id_defs Let_def split: option.split list.split)

section \<open>The classifier on every branch\<close>

definition supported_version :: "bytes \<Rightarrow> bool" where
  "supported_version v \<longleftrightarrow> v = ascii ''HTTP/1.1'' \<or> v = ascii ''HTTP/1.0''"

definition route_id :: "bytes \<Rightarrow> u32" where
  "route_id path = (if path = ascii ''/plaintext'' then RESPONSE_PLAINTEXT
     else if path = ascii ''/health'' then RESPONSE_HEALTH else RESPONSE_NOT_FOUND)"

text \<open>The request line \<open>method SP target SP version\<close>.\<close>

definition request_line :: "bytes \<Rightarrow> bytes \<Rightarrow> bytes \<Rightarrow> bytes" where
  "request_line m t v = m @ 32 # t @ 32 # v"

lemma split_request_line:
  assumes "32 \<notin> set m" "32 \<notin> set t" "32 \<notin> set v"
  shows "split_on 32 (request_line m t v) = [m, t, v]"
  using assms by (simp add: request_line_def split_on_append split_on_no_sep)

lemma split_on_concat: "sep # xs = concat (map (\<lambda>p. sep # p) (split_on sep xs))"
proof (induction xs)
  case (Cons x xs)
  then show ?case by (cases "split_on sep xs") auto
qed simp

lemma split_on_join3: "split_on sep xs = [a, b, c] \<longleftrightarrow>
  xs = a @ sep # b @ sep # c \<and> sep \<notin> set a \<and> sep \<notin> set b \<and> sep \<notin> set c"
proof
  assume *: "split_on sep xs = [a, b, c]"
  with split_on_concat [of sep xs] have "xs = a @ sep # b @ sep # c" by simp
  moreover have "sep \<notin> set a \<and> sep \<notin> set b \<and> sep \<notin> set c"
    using split_on_parts [of _ sep xs] * by simp
  ultimately show "xs = a @ sep # b @ sep # c \<and> sep \<notin> set a \<and> sep \<notin> set b \<and> sep \<notin> set c" by simp
qed (simp add: split_on_append split_on_no_sep)

lemma classify_request:
  assumes "32 \<notin> set m" "32 \<notin> set t" "32 \<notin> set v"
    and "find_window crlf payload = Some n" "take n payload = request_line m t v"
  shows "classify_http_request payload =
    (if t = [] \<or> \<not> supported_version v then RESPONSE_BAD_REQUEST
     else if m \<noteq> ascii ''GET'' then RESPONSE_METHOD_NOT_ALLOWED
     else route_id (hd (split_on 63 t)))"
  using assms by (simp add: classify_http_request_def split_request_line supported_version_def
      route_id_def Let_def)

lemma classify_bad:
  assumes "\<nexists>n m t v. find_window crlf payload = Some n \<and> take n payload = request_line m t v
      \<and> 32 \<notin> set m \<and> 32 \<notin> set t \<and> 32 \<notin> set v"
  shows "classify_http_request payload = RESPONSE_BAD_REQUEST"
proof (cases "find_window crlf payload")
  case (Some n)
  have "split_on 32 (take n payload) \<noteq> [m, t, v]" for m t v
    using assms Some by (simp add: split_on_join3 request_line_def)
  with Some show ?thesis
    by (simp add: classify_http_request_def Let_def split: list.split)
qed (simp add: classify_http_request_def)

text \<open>The response a request deserves, read off its request line.\<close>

definition expected_response :: "bytes \<Rightarrow> bytes \<Rightarrow> bytes \<Rightarrow> u32" where
  "expected_response m t v =
     (if t = [] \<or> \<not> supported_version v then RESPONSE_BAD_REQUEST
      else if m \<noteq> ascii ''GET'' then RESPONSE_METHOD_NOT_ALLOWED
      else route_id (hd (split_on 63 t)))"

definition request_line_of :: "bytes \<Rightarrow> bytes \<Rightarrow> bytes \<Rightarrow> bytes \<Rightarrow> bool" where
  "request_line_of payload m t v \<longleftrightarrow> (\<exists>n. find_window crlf payload = Some n \<and> take n payload = request_line m t v)
     \<and> 32 \<notin> set m \<and> 32 \<notin> set t \<and> 32 \<notin> set v"

text \<open>The CPU classifier on every byte string. A payload whose first line (up to the first CRLF) has exactly
  three space-separated parts gets the response of its method, target without query, and version; every other
  payload gets 400. The chosen id is always one of the five responses.\<close>

theorem classify_total:
  "(\<exists>m t v. request_line_of payload m t v \<and> classify_http_request payload = expected_response m t v)
   \<or> ((\<nexists>m t v. request_line_of payload m t v) \<and> classify_http_request payload = RESPONSE_BAD_REQUEST)"
proof (cases "\<exists>m t v. request_line_of payload m t v")
  case True
  then obtain m t v n where *: "request_line_of payload m t v" "find_window crlf payload = Some n"
    "take n payload = request_line m t v" "32 \<notin> set m" "32 \<notin> set t" "32 \<notin> set v"
    by (auto simp: request_line_of_def)
  from classify_request [OF *(4-6,2,3)] have "classify_http_request payload = expected_response m t v"
    by (simp only: expected_response_def)
  with *(1) show ?thesis by blast
next
  case False
  then have "classify_http_request payload = RESPONSE_BAD_REQUEST"
    by (intro classify_bad) (auto simp: request_line_of_def)
  with False show ?thesis by blast
qed

end
