(* ===== verification/EngineConfig.thy ===== *)
theory EngineConfig
  imports PacketHttp RawPacket
begin

text \<open>
  Configuration and counters of the packet engines (\<open>src/packet/mod.rs\<close>):
  \<open>PacketEngineConfig\<close>, \<open>validate_config\<close>, \<open>PacketEngineMetrics\<close> and the power-of-two
  operations of the standard library they use.
\<close>

section \<open>Powers of two on usize\<close>

fun is_power_of_two :: "nat \<Rightarrow> bool" where
  "is_power_of_two n = (if n = 0 then False else if n = 1 then True
     else n mod 2 = 0 \<and> is_power_of_two (n div 2))"

declare is_power_of_two.simps [simp del]

lemma is_power_of_two_iff: "is_power_of_two n \<longleftrightarrow> (\<exists>k. n = 2 ^ k)"
proof (induction n rule: is_power_of_two.induct)
  case (1 n)
  consider "n = 0" | "n = 1" | "n \<noteq> 0" "n \<noteq> 1" by blast
  then show ?case
  proof cases
    case 2
    then have "n = 2 ^ 0" by simp
    moreover have "is_power_of_two n" using 2 by (simp add: is_power_of_two.simps)
    ultimately show ?thesis by blast
  next
    case 3
    have "(\<exists>k. n = 2 ^ k) \<longleftrightarrow> n mod 2 = 0 \<and> (\<exists>k. n div 2 = 2 ^ k)"
    proof
      assume "\<exists>k. n = 2 ^ k"
      then obtain k where "n = 2 ^ k" by blast
      with 3 show "n mod 2 = 0 \<and> (\<exists>k. n div 2 = 2 ^ k)" by (cases k) auto
    next
      assume "n mod 2 = 0 \<and> (\<exists>k. n div 2 = 2 ^ k)"
      then obtain k where "n mod 2 = 0" "n div 2 = 2 ^ k" by (elim conjE exE)
      then have "n = 2 ^ Suc k" by (metis div_mult_mod_eq add_0_right mult.commute power_Suc)
      then show "\<exists>k. n = 2 ^ k" by blast
    qed
    with 3 1 show ?thesis by (simp add: is_power_of_two.simps [of n])
  qed (simp add: is_power_of_two.simps)
qed

text \<open>The smallest power of two that is at least \<open>n\<close>, searched from \<open>p\<close>.\<close>

function pow2_from :: "nat \<Rightarrow> nat \<Rightarrow> nat" where
  "pow2_from p n = (if p < n \<and> 0 < p then pow2_from (2 * p) n else p)"
  by pat_completeness auto
termination by (relation "measure (\<lambda>(p, n). n - p)") auto

declare pow2_from.simps [simp del]

text \<open>\<open>next_power_of_two\<close>; \<open>None\<close> where the result does not fit \<open>usize\<close>.\<close>

definition next_power_of_two :: "nat \<Rightarrow> nat option" where
  "next_power_of_two n = (let p = pow2_from 1 n in if p \<le> USIZE_MAX then Some p else None)"

lemma pow2_from_props:
  "0 < p \<Longrightarrow> n \<le> pow2_from p n \<and> (\<exists>k. pow2_from p n = p * 2 ^ k) \<and> (p < n \<longrightarrow> pow2_from p n < 2 * n)
     \<and> (n \<le> p \<longrightarrow> pow2_from p n = p)"
proof (induction p n rule: pow2_from.induct)
  case (1 p n)
  show ?case
  proof (cases "p < n")
    case True
    with 1 have IH: "n \<le> pow2_from (2 * p) n" "\<exists>k. pow2_from (2 * p) n = 2 * p * 2 ^ k"
      "2 * p < n \<longrightarrow> pow2_from (2 * p) n < 2 * n" "n \<le> 2 * p \<longrightarrow> pow2_from (2 * p) n = 2 * p"
      by simp_all
    from IH(2) obtain k where "pow2_from (2 * p) n = 2 * p * 2 ^ k" by blast
    then have "pow2_from (2 * p) n = p * 2 ^ Suc k" by simp
    moreover have "pow2_from (2 * p) n < 2 * n" using IH(3,4) True by (cases "2 * p < n") auto
    moreover have "pow2_from p n = pow2_from (2 * p) n"
      using True "1.prems" by (subst pow2_from.simps) simp
    ultimately show ?thesis using True IH(1) by (metis linorder_not_less)
  next
    case False
    then have "pow2_from p n = p" by (subst pow2_from.simps) simp
    with False show ?thesis by (auto intro: exI [of _ 0])
  qed
qed

lemma next_power_of_two_Some:
  assumes "next_power_of_two n = Some p"
  shows "n \<le> p \<and> (\<exists>k. p = 2 ^ k)"
proof -
  have "p = pow2_from 1 n" using assms by (simp add: next_power_of_two_def Let_def split: if_splits)
  then show ?thesis using pow2_from_props [of 1 n] by simp
qed

lemma next_power_of_two_defined: "1 \<le> n \<Longrightarrow> 2 * n \<le> USIZE_MAX \<Longrightarrow> next_power_of_two n \<noteq> None"
  using pow2_from_props [of 1 n] by (cases "n = 1") (auto simp: next_power_of_two_def Let_def)

section \<open>Configuration\<close>

record packet_engine_config =
  max_batch_size :: nat
  flow_capacity :: nat
  flow_probe_limit :: nat
  listen_port :: u16

definition DEFAULT_FLOW_CAPACITY :: nat where "DEFAULT_FLOW_CAPACITY = 4096"
definition DEFAULT_FLOW_PROBE_LIMIT :: nat where "DEFAULT_FLOW_PROBE_LIMIT = 32"

definition default_packet_engine_config :: packet_engine_config where
  "default_packet_engine_config = \<lparr>max_batch_size = 256, flow_capacity = DEFAULT_FLOW_CAPACITY,
     flow_probe_limit = DEFAULT_FLOW_PROBE_LIMIT, listen_port = 8080\<rparr>"

datatype config_error =
    BatchSizeNotPositive
  | FlowCapacityNotPositive
  | FlowCapacityNotPowerOfTwo
  | ProbeLimitNotPositive
  | ProbeLimitAboveCapacity
  | BatchSizeNotU32
  | FlowCapacityNotU32
  | ResponseDoesNotFitSlot

definition validate_config :: "packet_engine_config \<Rightarrow> config_error + unit" where
  "validate_config config =
     (if \<not> max_batch_size config > 0 then Inl BatchSizeNotPositive
      else if \<not> flow_capacity config > 0 then Inl FlowCapacityNotPositive
      else if \<not> is_power_of_two (flow_capacity config) then Inl FlowCapacityNotPowerOfTwo
      else if \<not> flow_probe_limit config > 0 then Inl ProbeLimitNotPositive
      else if \<not> flow_probe_limit config \<le> flow_capacity config then Inl ProbeLimitAboveCapacity
      else if \<not> max_batch_size config \<le> U32_MAX then Inl BatchSizeNotU32
      else if \<not> flow_capacity config \<le> U32_MAX then Inl FlowCapacityNotU32
      else if \<not> max_response_packet_bytes \<le> MAX_RAW_PACKET_BYTES then Inl ResponseDoesNotFitSlot
      else Inr ())"

definition valid_config :: "packet_engine_config \<Rightarrow> bool" where
  "valid_config c \<longleftrightarrow> 0 < max_batch_size c \<and> max_batch_size c \<le> U32_MAX
     \<and> (\<exists>k. flow_capacity c = 2 ^ k) \<and> flow_capacity c \<le> U32_MAX
     \<and> 0 < flow_probe_limit c \<and> flow_probe_limit c \<le> flow_capacity c"

lemma validate_config_iff: "validate_config c = Inr () \<longleftrightarrow> valid_config c"
  by (auto simp: validate_config_def valid_config_def is_power_of_two_iff
      max_response_packet_bytes_value MAX_RAW_PACKET_BYTES_def)

lemma default_config_valid [simp]: "validate_config default_packet_engine_config = Inr ()"
  by (auto simp: validate_config_iff valid_config_def default_packet_engine_config_def U32_MAX_def
      DEFAULT_FLOW_CAPACITY_def DEFAULT_FLOW_PROBE_LIMIT_def intro: exI [of _ 12])

section \<open>Metrics\<close>

record packet_engine_metrics =
  dispatches :: u64
  packets :: u64
  schedule_nanos :: u64
  pack_nanos :: u64
  upload_nanos :: u64
  submit_nanos :: u64
  readback_nanos :: u64
  decode_nanos :: u64

definition default_metrics :: packet_engine_metrics where
  "default_metrics = \<lparr>dispatches = 0, packets = 0, schedule_nanos = 0, pack_nanos = 0,
     upload_nanos = 0, submit_nanos = 0, readback_nanos = 0, decode_nanos = 0\<rparr>"

definition saturating_sub_u64 :: "u64 \<Rightarrow> u64 \<Rightarrow> u64" where
  "saturating_sub_u64 a b = (if b \<le> a then a - b else 0)"

definition metrics_saturating_sub :: "packet_engine_metrics \<Rightarrow> packet_engine_metrics \<Rightarrow> packet_engine_metrics" where
  "metrics_saturating_sub now earlier = \<lparr>
     dispatches = saturating_sub_u64 (dispatches now) (dispatches earlier),
     packets = saturating_sub_u64 (packets now) (packets earlier),
     schedule_nanos = saturating_sub_u64 (schedule_nanos now) (schedule_nanos earlier),
     pack_nanos = saturating_sub_u64 (pack_nanos now) (pack_nanos earlier),
     upload_nanos = saturating_sub_u64 (upload_nanos now) (upload_nanos earlier),
     submit_nanos = saturating_sub_u64 (submit_nanos now) (submit_nanos earlier),
     readback_nanos = saturating_sub_u64 (readback_nanos now) (readback_nanos earlier),
     decode_nanos = saturating_sub_u64 (decode_nanos now) (decode_nanos earlier)\<rparr>"

end
