(* ===== verification/FlowSet.thy ===== *)
theory FlowSet
  imports Wire EngineConfig
begin

text \<open>
  \<open>FlowSet\<close> of \<open>src/packet/mod.rs\<close>: the set of connections already placed in the current
  wave. It is an open-addressing hash table whose slots carry a generation number, so that
  \<open>begin\<close> empties it without touching the slots. The locale \<open>generation_set\<close> is the contract
  the wave scheduler relies on; the interpretation at the end shows that the table meets it,
  including that every probe ends.
\<close>

section \<open>The contract\<close>

locale generation_set =
  fixes fresh :: "nat \<Rightarrow> 't \<Rightarrow> 't option"
    and insert_new :: "'t \<Rightarrow> 'k \<Rightarrow> ('t \<times> bool) option"
    and members :: "'t \<Rightarrow> 'k set"
    and budget :: "'t \<Rightarrow> nat"
    and ready :: "'t \<Rightarrow> bool"
    and limit :: nat
  assumes fresh_law: "ready t \<Longrightarrow> n \<le> limit \<Longrightarrow>
      \<exists>t'. fresh n t = Some t' \<and> ready t' \<and> members t' = {} \<and> n \<le> budget t'"
    and insert_law: "ready t \<Longrightarrow> 0 < budget t \<Longrightarrow>
      \<exists>t'. insert_new t k = Some (t', k \<notin> members t) \<and> ready t' \<and> members t' = insert k (members t)
        \<and> budget t \<le> Suc (budget t')"
begin

lemma insert_law_obtain:
  assumes "ready t" "Suc n \<le> budget t"
  obtains t' where "insert_new t k = Some (t', k \<notin> members t)" "ready t'"
    "members t' = insert k (members t)" "n \<le> budget t'"
proof -
  obtain t' where t': "insert_new t k = Some (t', k \<notin> members t)" "ready t'"
    "members t' = insert k (members t)" "budget t \<le> Suc (budget t')"
    using insert_law [OF assms(1)] assms(2) by (metis Suc_le_eq less_le_trans zero_less_Suc)
  from that [OF t'(1-3)] t'(4) assms(2) show thesis by simp
qed

text \<open>A run of insertions reports, for each key, whether it occurs for the first time.\<close>

fun insert_run :: "'t \<Rightarrow> 'k list \<Rightarrow> ('t \<times> bool list) option" where
  "insert_run t [] = Some (t, [])"
| "insert_run t (k # ks) = do {
     (t', b) \<leftarrow> insert_new t k;
     (t'', bs) \<leftarrow> insert_run t' ks;
     Some (t'', b # bs) }"

lemma insert_run_spec:
  "ready t \<Longrightarrow> length ks \<le> budget t \<Longrightarrow>
     \<exists>t'. insert_run t ks = Some (t', map (\<lambda>i. ks ! i \<notin> members t \<union> set (take i ks)) [0..<length ks])
       \<and> ready t' \<and> members t' = members t \<union> set ks"
proof (induction ks arbitrary: t)
  case Nil
  then show ?case by simp
next
  case (Cons k ks)
  from Cons.prems obtain t1 where t1: "insert_new t k = Some (t1, k \<notin> members t)" "ready t1"
    "members t1 = insert k (members t)" "length ks \<le> budget t1"
    by (elim insert_law_obtain [of t "length ks" k]) simp_all
  from Cons.IH [OF t1(2,4)] obtain t2 where t2: "insert_run t1 ks =
      Some (t2, map (\<lambda>i. ks ! i \<notin> members t1 \<union> set (take i ks)) [0..<length ks])"
    "ready t2" "members t2 = members t1 \<union> set ks" by blast
  have "[0..<length (k # ks)] = 0 # map Suc [0..<length ks]" by (simp add: upt_conv_Cons map_Suc_upt del: upt_Suc)
  then show ?case using t1 t2 by (auto simp: comp_def simp del: upt_Suc)
qed

end

section \<open>The table\<close>

record flow_set =
  fs_keys :: "flow_key list"
  fs_generations :: "u32 list"
  fs_generation :: u32

definition flow_set_default :: flow_set where
  "flow_set_default = \<lparr>fs_keys = [], fs_generations = [], fs_generation = 0\<rparr>"

definition zero_key :: flow_key where
  "zero_key = \<lparr>src_ip = 0, dst_ip = 0, src_port = 0, dst_port = 0\<rparr>"

text \<open>\<open>Vec::resize\<close>.\<close>

definition resize :: "'a list \<Rightarrow> nat \<Rightarrow> 'a \<Rightarrow> 'a list" where
  "resize xs n x = take n xs @ replicate (n - length xs) x"

definition fs_begin :: "nat \<Rightarrow> flow_set \<Rightarrow> flow_set option" where
  "fs_begin expected_keys fs = do {
     capacity \<leftarrow> next_power_of_two (saturating_mul_usize (max expected_keys 1) 2);
     let fs = (if length (fs_keys fs) < capacity
               then fs\<lparr>fs_keys := resize (fs_keys fs) capacity zero_key,
                       fs_generations := resize (fs_generations fs) capacity 0\<rparr>
               else fs);
     let fs = fs\<lparr>fs_generation := fs_generation fs + 1\<rparr>;
     Some (if fs_generation fs = 0
           then fs\<lparr>fs_generations := replicate (length (fs_generations fs)) 0, fs_generation := 1\<rparr>
           else fs) }"

text \<open>The probe loop: it returns when it meets a stale slot or the key; \<open>None\<close> is a panic or no end.\<close>

partial_function (option) fs_probe :: "flow_set \<Rightarrow> flow_key \<Rightarrow> nat \<Rightarrow> nat \<Rightarrow> (flow_set \<times> bool) option" where
  "fs_probe fs key pmask i = do {
     g \<leftarrow> index (fs_generations fs) i;
     if g \<noteq> fs_generation fs then do {
       keys \<leftarrow> set_at (fs_keys fs) i key;
       gens \<leftarrow> set_at (fs_generations fs) i (fs_generation fs);
       Some (fs\<lparr>fs_keys := keys, fs_generations := gens\<rparr>, True) }
     else do {
       k \<leftarrow> index (fs_keys fs) i;
       if k = key then Some (fs, False)
       else fs_probe fs key pmask ((i + 1) AND pmask) } }"

definition fs_insert :: "flow_set \<Rightarrow> flow_key \<Rightarrow> (flow_set \<times> bool) option" where
  "fs_insert fs key =
     (if fs_keys fs = [] then None
      else let pmask = length (fs_keys fs) - 1 in fs_probe fs key pmask (unat (flow_hash key) AND pmask))"

section \<open>The table meets the contract\<close>

definition slot :: "flow_set \<Rightarrow> flow_key \<Rightarrow> nat \<Rightarrow> nat" where
  "slot fs key d = (unat (flow_hash key) + d) mod length (fs_keys fs)"

definition live :: "flow_set \<Rightarrow> nat \<Rightarrow> bool" where
  "live fs i \<longleftrightarrow> fs_generations fs ! i = fs_generation fs"

definition live_slots :: "flow_set \<Rightarrow> nat set" where
  "live_slots fs = {i. i < length (fs_keys fs) \<and> live fs i}"

definition fs_members :: "flow_set \<Rightarrow> flow_key set" where
  "fs_members fs = (\<lambda>i. fs_keys fs ! i) ` live_slots fs"

definition fs_shape :: "flow_set \<Rightarrow> bool" where
  "fs_shape fs \<longleftrightarrow> length (fs_generations fs) = length (fs_keys fs)
     \<and> (fs_keys fs = [] \<or> (\<exists>k. length (fs_keys fs) = 2 ^ k))
     \<and> (\<forall>i<length (fs_keys fs). fs_generations fs ! i \<le> fs_generation fs)"

text \<open>Every live key is reachable from its home slot over live slots.\<close>

definition fs_paths :: "flow_set \<Rightarrow> bool" where
  "fs_paths fs \<longleftrightarrow> (\<forall>i\<in>live_slots fs. \<exists>d. i = slot fs (fs_keys fs ! i) d \<and> (\<forall>e<d. live fs (slot fs (fs_keys fs ! i) e)))"

definition fs_ready :: "flow_set \<Rightarrow> bool" where
  "fs_ready fs \<longleftrightarrow> fs_shape fs \<and> fs_paths fs"

definition fs_budget :: "flow_set \<Rightarrow> nat" where
  "fs_budget fs = length (fs_keys fs) - card (live_slots fs)"

definition FS_LIMIT :: nat where
  "FS_LIMIT = 2 ^ 60"

lemma finite_live_slots [simp]: "finite (live_slots fs)"
  by (simp add: live_slots_def)

lemma fs_budget_free:
  assumes "0 < fs_budget fs"
  obtains i where "i < length (fs_keys fs)" "\<not> live fs i"
proof -
  have "\<exists>i<length (fs_keys fs). \<not> live fs i"
  proof (rule ccontr)
    assume "\<not> ?thesis"
    then have "live_slots fs = {..<length (fs_keys fs)}" by (auto simp: live_slots_def)
    then show False using assms by (simp add: fs_budget_def)
  qed
  then show thesis using that by blast
qed

lemma pow2_mask:
  assumes "n = 2 ^ k"
  shows "(x :: nat) AND (n - 1) = x mod n"
  using take_bit_eq_mask [of k x] by (simp add: assms take_bit_eq_mod mask_eq_exp_minus_1)

lemma slot_less: "fs_keys fs \<noteq> [] \<Longrightarrow> slot fs key d < length (fs_keys fs)"
  by (simp add: slot_def)

lemma slot_covers:
  assumes "i < length (fs_keys fs)"
  shows "\<exists>d. slot fs key d = i"
proof -
  let ?n = "length (fs_keys fs)" and ?h = "unat (flow_hash key)"
  have "(?h + (?n * (?h + 1) - ?h + i)) mod ?n = (?n * (?h + 1) + i) mod ?n"
  proof -
    have "?h \<le> ?n * (?h + 1)" using assms by (cases ?n) auto
    then show ?thesis by simp
  qed
  also have "\<dots> = i mod ?n" by (rule mod_mult_self4)
  also have "\<dots> = i" using assms by simp
  finally show ?thesis by (auto simp: slot_def)
qed

definition stops :: "flow_set \<Rightarrow> flow_key \<Rightarrow> nat \<Rightarrow> bool" where
  "stops fs key d \<longleftrightarrow> \<not> live fs (slot fs key d) \<or> fs_keys fs ! slot fs key d = key"

lemma probe_to_stop:
  assumes "fs_shape fs" "fs_keys fs \<noteq> []" "stops fs key d0" "\<forall>d<d0. \<not> stops fs key d" "d \<le> d0"
  shows "fs_probe fs key (length (fs_keys fs) - 1) (slot fs key d) =
    Some (if live fs (slot fs key d0) then (fs, False)
          else (fs\<lparr>fs_keys := (fs_keys fs)[slot fs key d0 := key],
                   fs_generations := (fs_generations fs)[slot fs key d0 := fs_generation fs]\<rparr>, True))"
  using assms(5)
proof (induction "d0 - d" arbitrary: d)
  case 0
  then have d: "d = d0" by simp
  have len: "length (fs_generations fs) = length (fs_keys fs)" using assms(1) by (simp add: fs_shape_def)
  show ?case using assms(3) slot_less [OF assms(2), of key d0]
    by (subst fs_probe.simps) (auto simp: d index_def len live_def stops_def set_at_list_update)
next
  case (Suc m)
  then have d: "d < d0" by simp
  then have go: "live fs (slot fs key d)" "fs_keys fs ! slot fs key d \<noteq> key"
    using assms(4) by (auto simp: stops_def)
  have len: "length (fs_generations fs) = length (fs_keys fs)" using assms(1) by (simp add: fs_shape_def)
  obtain k where k: "length (fs_keys fs) = 2 ^ k" using assms(1,2) by (auto simp: fs_shape_def)
  have next_slot: "(slot fs key d + 1) AND (length (fs_keys fs) - 1) = slot fs key (Suc d)"
    using pow2_mask [OF k] by (simp add: slot_def mod_Suc_eq)
  have "fs_probe fs key (length (fs_keys fs) - 1) (slot fs key d) =
      fs_probe fs key (length (fs_keys fs) - 1) (slot fs key (Suc d))"
    using go slot_less [OF assms(2), of key d] next_slot
    by (subst fs_probe.simps) (simp add: index_def len live_def)
  also have "\<dots> = Some (if live fs (slot fs key d0) then (fs, False)
          else (fs\<lparr>fs_keys := (fs_keys fs)[slot fs key d0 := key],
                   fs_generations := (fs_generations fs)[slot fs key d0 := fs_generation fs]\<rparr>, True))"
    using Suc d by (intro Suc.hyps(1)) simp_all
  finally show ?case .
qed

lemma first_stop:
  assumes "0 < fs_budget fs"
  obtains d0 where "stops fs key d0" "\<forall>d<d0. \<not> stops fs key d"
proof -
  obtain i where i: "i < length (fs_keys fs)" "\<not> live fs i" using fs_budget_free [OF assms] .
  obtain d where "slot fs key d = i" using slot_covers [OF i(1)] by blast
  then have "stops fs key d" using i(2) by (simp add: stops_def)
  from that [OF LeastI [of "stops fs key", OF this]] show thesis by (metis not_less_Least)
qed

text \<open>At the first stop, the key is in the set iff the slot is live.\<close>

lemma stop_member:
  assumes "fs_paths fs" "fs_keys fs \<noteq> []" "stops fs key d0" "\<forall>d<d0. \<not> stops fs key d"
  shows "live fs (slot fs key d0) \<longleftrightarrow> key \<in> fs_members fs"
proof
  assume "live fs (slot fs key d0)"
  then show "key \<in> fs_members fs" using assms(3) slot_less [OF assms(2)]
    by (force simp: fs_members_def live_slots_def stops_def)
next
  assume "key \<in> fs_members fs"
  then obtain i where i: "i \<in> live_slots fs" "fs_keys fs ! i = key" by (auto simp: fs_members_def)
  then obtain d where d: "i = slot fs key d" "\<forall>e<d. live fs (slot fs key e)" using assms(1) by (auto simp: fs_paths_def)
  have stop: "stops fs key d" using i d(1) by (simp add: stops_def)
  have "d0 \<le> d" using assms(4) stop by (meson linorder_not_le)
  then show "live fs (slot fs key d0)" using d i(1) by (cases "d0 = d") (auto simp: live_slots_def)
qed

abbreviation fs_put :: "flow_set \<Rightarrow> flow_key \<Rightarrow> nat \<Rightarrow> flow_set" where
  "fs_put fs key i \<equiv> fs\<lparr>fs_keys := (fs_keys fs)[i := key], fs_generations := (fs_generations fs)[i := fs_generation fs]\<rparr>"

lemma fs_put_live:
  assumes "fs_shape fs" "i < length (fs_keys fs)" "\<not> live fs i"
  shows "live_slots (fs_put fs key i) = insert i (live_slots fs)"
    and "live (fs_put fs key i) j \<longleftrightarrow> j = i \<or> live fs j"
    and "slot (fs_put fs key i) k d = slot fs k d"
  using assms by (auto simp: live_slots_def live_def slot_def fs_shape_def nth_list_update)

lemma fs_put_ready:
  assumes "fs_ready fs" "fs_keys fs \<noteq> []" "\<not> live fs (slot fs key d0)" "\<forall>d<d0. \<not> stops fs key d"
  shows "fs_ready (fs_put fs key (slot fs key d0))"
    and "fs_members (fs_put fs key (slot fs key d0)) = insert key (fs_members fs)"
    and "fs_budget fs \<le> Suc (fs_budget (fs_put fs key (slot fs key d0)))"
proof -
  let ?i = "slot fs key d0"
  have sh: "fs_shape fs" and pa: "fs_paths fs" using assms(1) by (auto simp: fs_ready_def)
  have i: "?i < length (fs_keys fs)" by (rule slot_less [OF assms(2)])
  note put = fs_put_live [OF sh i assms(3)]
  have keys: "(fs_keys fs)[?i := key] ! j = (if j = ?i then key else fs_keys fs ! j)" for j
    using i by (simp add: nth_list_update)
  have ni: "?i \<notin> live_slots fs" using assms(3) by (simp add: live_slots_def)
  have gens: "(fs_generations fs)[?i := g] ! j = (if j = ?i then g else fs_generations fs ! j)" for j g
    using i sh by (simp add: nth_list_update fs_shape_def)
  have "fs_shape (fs_put fs key ?i)" using sh by (simp add: fs_shape_def gens)
  moreover have "fs_paths (fs_put fs key ?i)"
    unfolding fs_paths_def put
  proof
    fix j assume j: "j \<in> insert ?i (live_slots fs)"
    show "\<exists>d. j = slot fs (fs_keys (fs_put fs key ?i) ! j) d \<and>
        (\<forall>e<d. slot fs (fs_keys (fs_put fs key ?i) ! j) e = ?i \<or> live fs (slot fs (fs_keys (fs_put fs key ?i) ! j) e))"
    proof (cases "j = ?i")
      case True
      then show ?thesis using assms(4) by (intro exI [of _ d0]) (auto simp: keys stops_def)
    next
      case False
      then obtain d where "j = slot fs (fs_keys fs ! j) d" "\<forall>e<d. live fs (slot fs (fs_keys fs ! j) e)"
        using pa j by (auto simp: fs_paths_def)
      then show ?thesis using False by (intro exI [of _ d]) (simp add: keys)
    qed
  qed
  ultimately show "fs_ready (fs_put fs key ?i)" by (simp add: fs_ready_def)
  show "fs_members (fs_put fs key ?i) = insert key (fs_members fs)"
    using ni by (auto simp: fs_members_def put keys image_iff)
  show "fs_budget fs \<le> Suc (fs_budget (fs_put fs key ?i))"
    using ni by (simp add: fs_budget_def put)
qed

lemma fs_insert_law:
  assumes "fs_ready fs" "0 < fs_budget fs"
  shows "\<exists>fs'. fs_insert fs key = Some (fs', key \<notin> fs_members fs) \<and> fs_ready fs'
    \<and> fs_members fs' = insert key (fs_members fs) \<and> fs_budget fs \<le> Suc (fs_budget fs')"
proof -
  have sh: "fs_shape fs" and pa: "fs_paths fs" using assms(1) by (auto simp: fs_ready_def)
  have ne: "fs_keys fs \<noteq> []" using assms(2) by (auto simp: fs_budget_def)
  obtain d0 where d0: "stops fs key d0" "\<forall>d<d0. \<not> stops fs key d" by (rule first_stop [OF assms(2)])
  obtain k where k: "length (fs_keys fs) = 2 ^ k" using sh ne by (auto simp: fs_shape_def)
  have start: "unat (flow_hash key) AND (length (fs_keys fs) - 1) = slot fs key 0"
    using pow2_mask [OF k] by (simp add: slot_def)
  have run: "fs_insert fs key = Some (if live fs (slot fs key d0) then (fs, False) else (fs_put fs key (slot fs key d0), True))"
    unfolding fs_insert_def Let_def if_not_P [OF ne] start by (rule probe_to_stop [OF sh ne d0 le0])
  note mem = stop_member [OF pa ne d0]
  show ?thesis
  proof (cases "live fs (slot fs key d0)")
    case True
    then show ?thesis using assms run mem by (auto simp: insert_absorb)
  next
    case False
    from fs_put_ready [OF assms(1) ne False d0(2)] show ?thesis using False run mem by auto
  qed
qed

lemma resize_grow: "length xs \<le> n \<Longrightarrow> resize xs n x = xs @ replicate (n - length xs) x"
  by (simp add: resize_def)

lemma word_less_Suc: "a \<le> g \<Longrightarrow> g + 1 \<noteq> 0 \<Longrightarrow> a < g + 1" for a g :: u32
  by (simp add: word_less_nat_alt word_le_nat_alt unatSuc add.commute)

lemma fs_begin_law:
  assumes "fs_ready fs" "n \<le> FS_LIMIT"
  shows "\<exists>fs'. fs_begin n fs = Some fs' \<and> fs_ready fs' \<and> fs_members fs' = {} \<and> n \<le> fs_budget fs'"
proof -
  let ?want = "saturating_mul_usize (max n 1) 2"
  have want: "?want = max n 1 * 2"
    using assms(2) by (simp add: saturating_mul_usize_def USIZE_MAX_def FS_LIMIT_def)
  have "2 * ?want \<le> USIZE_MAX" using assms(2) unfolding want by (simp add: USIZE_MAX_def FS_LIMIT_def)
  then obtain cap where cap: "next_power_of_two ?want = Some cap"
    using next_power_of_two_defined [of ?want] want by auto
  then have cap_ge: "max n 1 * 2 \<le> cap" and "\<exists>k. cap = 2 ^ k"
    using next_power_of_two_Some [OF cap] want by auto
  then obtain k where k: "cap = 2 ^ k" by blast
  define fs1 where "fs1 = (if length (fs_keys fs) < cap
      then fs\<lparr>fs_keys := resize (fs_keys fs) cap zero_key, fs_generations := resize (fs_generations fs) cap 0\<rparr> else fs)"
  have sh: "length (fs_generations fs) = length (fs_keys fs)" "fs_keys fs = [] \<or> (\<exists>k. length (fs_keys fs) = 2 ^ k)"
    "\<forall>i<length (fs_keys fs). fs_generations fs ! i \<le> fs_generation fs"
    using assms(1) by (auto simp: fs_ready_def fs_shape_def)
  have len: "length (fs_keys fs1) = max cap (length (fs_keys fs))" "length (fs_generations fs1) = length (fs_keys fs1)"
    using sh(1) by (auto simp: fs1_def resize_grow)
  have pow: "\<exists>k. length (fs_keys fs1) = 2 ^ k"
    using sh(2) k len(1) by (cases "length (fs_keys fs) < cap") (auto simp: max_def)
  have gens: "fs_generations fs1 ! i \<le> fs_generation fs1" if "i < length (fs_keys fs1)" for i
    using that sh(1,3) by (auto simp: fs1_def resize_grow nth_append split: if_splits)
  define fs2 where "fs2 = fs1\<lparr>fs_generation := fs_generation fs1 + 1\<rparr>"
  define fs3 where "fs3 = (if fs_generation fs2 = 0
      then fs2\<lparr>fs_generations := replicate (length (fs_generations fs2)) 0, fs_generation := 1\<rparr> else fs2)"
  have run: "fs_begin n fs = Some fs3"
    unfolding fs_begin_def cap Let_def fs3_def fs2_def fs1_def by simp
  have stale: "fs_generations fs3 ! i \<noteq> fs_generation fs3 \<and> fs_generations fs3 ! i \<le> fs_generation fs3"
    if "i < length (fs_keys fs3)" for i
  proof (cases "fs_generation fs2 = 0")
    case True
    then show ?thesis using that len(2) by (simp add: fs3_def fs2_def)
  next
    case False
    then have nz: "fs_generation fs1 + 1 \<noteq> 0" by (simp add: fs2_def)
    have "fs_generations fs1 ! i \<le> fs_generation fs1" using gens that False by (simp add: fs3_def fs2_def)
    from word_less_Suc [OF this nz] show ?thesis using False by (auto simp: fs3_def fs2_def)
  qed
  have none: "live_slots fs3 = {}" using stale by (auto simp: live_slots_def live_def)
  have len3: "length (fs_keys fs3) = length (fs_keys fs1)" "length (fs_generations fs3) = length (fs_keys fs3)"
    using len(2) by (simp_all add: fs3_def fs2_def)
  have "fs_ready fs3" using pow len3 stale none by (simp add: fs_ready_def fs_shape_def fs_paths_def)
  moreover have "fs_members fs3 = {}" by (simp add: fs_members_def none)
  moreover have "n \<le> fs_budget fs3" using cap_ge len(1) len3(1) by (simp add: fs_budget_def none)
  ultimately show ?thesis using run by blast
qed

lemma fs_ready_default: "fs_ready flow_set_default"
  by (simp add: fs_ready_def fs_shape_def fs_paths_def live_slots_def flow_set_default_def)

interpretation fs: generation_set fs_begin fs_insert fs_members fs_budget fs_ready FS_LIMIT
  by unfold_locales (rule fs_begin_law fs_insert_law; assumption)+

section \<open>Runs of insertions\<close>

fun fs_insert_all :: "flow_set \<Rightarrow> flow_key list \<Rightarrow> (flow_set \<times> bool list) option" where
  "fs_insert_all fs [] = Some (fs, [])"
| "fs_insert_all fs (k # ks) = do {
     (fs', b) \<leftarrow> fs_insert fs k;
     (fs'', bs) \<leftarrow> fs_insert_all fs' ks;
     Some (fs'', b # bs) }"

lemma fs_insert_all_run: "fs_insert_all fs ks = fs.insert_run fs ks"
  by (induction ks arbitrary: fs) simp_all

text \<open>The wave's key set. Whatever generations and stale keys earlier waves left in the table (the
  32-bit generation may wrap), \<open>begin(n)\<close> followed by up to \<open>n\<close> insertions never panics, every probe
  ends, and \<open>insert\<close> answers \<open>true\<close> exactly for the first occurrence of a key since \<open>begin\<close>.\<close>

theorem flow_set_first_occurrences:
  assumes "fs_ready fs" "length ks \<le> n" "n \<le> FS_LIMIT"
  shows "\<exists>fs0 fs1. fs_begin n fs = Some fs0
    \<and> fs_insert_all fs0 ks = Some (fs1, map (\<lambda>i. ks ! i \<notin> set (take i ks)) [0..<length ks]) \<and> fs_ready fs1"
proof -
  obtain fs0 where fs0: "fs_begin n fs = Some fs0" "fs_ready fs0" "fs_members fs0 = {}" "n \<le> fs_budget fs0"
    using fs.fresh_law [OF assms(1,3)] by blast
  then have "length ks \<le> fs_budget fs0" using assms(2) by simp
  from fs.insert_run_spec [OF fs0(2) this] show ?thesis using fs0 by (auto simp: fs_insert_all_run)
qed

theorem flow_set_first_occurrences_witness:
  "\<exists>fs0 fs1. fs_begin 3 flow_set_default = Some fs0
    \<and> fs_insert_all fs0 [zero_key, zero_key] = Some (fs1, map (\<lambda>i. [zero_key, zero_key] ! i \<notin> set (take i [zero_key, zero_key]))
        [0..<length [zero_key, zero_key]]) \<and> fs_ready fs1"
  by (rule flow_set_first_occurrences [OF fs_ready_default]) (simp_all add: FS_LIMIT_def)

end
