(* ===== verification/WireProofs.thy ===== *)
theory WireProofs
  imports Wire
begin

text \<open>
  Correctness of the wire format of \<open>Wire\<close>: panic freedom of the parser, the explicit
  bytes of a built packet, the round trip through the parser and the scheduler's key
  extraction, and the validity of both checksums of a built packet.
\<close>

section \<open>The parser in closed form\<close>

definition ihl :: "bytes \<Rightarrow> nat" where
  "ihl bs = unat (bs ! 0 AND 0x0f) * 4"

definition data_offset :: "bytes \<Rightarrow> nat" where
  "data_offset bs = unat (drop_bit 4 (bs ! (ihl bs + 12))) * 4"

definition key_at :: "bytes \<Rightarrow> flow_key" where
  "key_at bs = \<lparr>src_ip = be32_at bs 12, dst_ip = be32_at bs 16,
     src_port = be16_at bs (ihl bs), dst_port = be16_at bs (ihl bs + 2)\<rparr>"

definition well_formed_ipv4_tcp :: "bytes \<Rightarrow> bool" where
  "well_formed_ipv4_tcp bs \<longleftrightarrow>
     40 \<le> length bs \<and> drop_bit 4 (bs ! 0) = 4 \<and> bs ! 9 = 6
     \<and> 20 \<le> ihl bs \<and> ihl bs + 20 \<le> length bs
     \<and> be16_at bs 6 AND 0x3fff = 0
     \<and> ihl bs + 20 \<le> unat (be16_at bs 2) \<and> unat (be16_at bs 2) \<le> length bs
     \<and> 20 \<le> data_offset bs \<and> ihl bs + data_offset bs \<le> unat (be16_at bs 2)"

definition view_at :: "bytes \<Rightarrow> tcp_view" where
  "view_at bs = \<lparr>v_key = key_at bs, v_seq = be32_at bs (ihl bs + 4), v_ack = be32_at bs (ihl bs + 8),
     v_flags = bs ! (ihl bs + 13),
     v_payload = take (unat (be16_at bs 2) - (ihl bs + data_offset bs)) (drop (ihl bs + data_offset bs) bs)\<rparr>"

lemma parse_bytes_closed:
  "parse_ipv4_tcp_bytes bs = Some (if well_formed_ipv4_tcp bs then Some (view_at bs) else None)"
proof (cases "length bs < 40")
  case True
  then show ?thesis by (simp add: parse_ipv4_tcp_bytes_def well_formed_ipv4_tcp_def)
next
  case False
  then have "bs \<noteq> []" by auto
  with False show ?thesis
    by (simp add: parse_ipv4_tcp_bytes_def well_formed_ipv4_tcp_def view_at_def key_at_def
        ihl_def data_offset_def no_panic Let_def not_le not_less)
qed

lemma parse_closed:
  "parse_ipv4_tcp p = Some (if well_formed_ipv4_tcp (as_bytes p) then Some (view_at (as_bytes p)) else None)"
  by (simp add: parse_ipv4_tcp_def parse_bytes_closed)

definition schedulable :: "bytes \<Rightarrow> bool" where
  "schedulable bs \<longleftrightarrow> 24 \<le> length bs \<and> drop_bit 4 (bs ! 0) = 4 \<and> bs ! 9 = 6
     \<and> 20 \<le> ihl bs \<and> ihl bs + 4 \<le> length bs"

lemma scheduling_flow_key_closed:
  "scheduling_flow_key p = Some (if schedulable (as_bytes p) then Some (key_at (as_bytes p)) else None)"
proof (cases "length (as_bytes p) < 24")
  case True
  then show ?thesis by (simp add: scheduling_flow_key_def schedulable_def Let_def)
next
  case False
  then have "as_bytes p \<noteq> []" by auto
  with False show ?thesis
    by (simp add: scheduling_flow_key_def schedulable_def key_at_def ihl_def
        no_panic Let_def not_le not_less)
qed

text \<open>Whatever the parser accepts is scheduled under the key it is processed under.\<close>

lemma well_formed_schedulable: "well_formed_ipv4_tcp bs \<Longrightarrow> schedulable bs"
  by (simp add: well_formed_ipv4_tcp_def schedulable_def)

lemma parse_scheduling_agree:
  "parse_ipv4_tcp p = Some (Some v) \<Longrightarrow> scheduling_flow_key p = Some (Some (v_key v))"
  by (auto simp: parse_closed scheduling_flow_key_closed view_at_def
      dest: well_formed_schedulable split: if_splits)

section \<open>The bytes of a built packet\<close>

definition ip_header :: "nat \<Rightarrow> flow_key \<Rightarrow> u16 \<Rightarrow> bytes" where
  "ip_header total_len k ck =
     0x45 # 0 # u16_to_be (of_nat total_len) @ 0 # 0 # u16_to_be 0x4000 @ 64 # 6 # u16_to_be ck
       @ u32_to_be (src_ip k) @ u32_to_be (dst_ip k)"

definition tcp_header_front :: "tcp_spec \<Rightarrow> bytes" where
  "tcp_header_front spec =
     u16_to_be (src_port (s_key spec)) @ u16_to_be (dst_port (s_key spec)) @ u32_to_be (s_seq spec)
       @ u32_to_be (s_ack spec) @ 0x50 # s_flags spec # u16_to_be 0xffff"

definition packet_bytes :: "tcp_spec \<Rightarrow> u16 \<Rightarrow> u16 \<Rightarrow> bytes" where
  "packet_bytes spec ck tck =
     ip_header (40 + length (s_payload spec)) (s_key spec) ck
       @ tcp_header_front spec @ u16_to_be tck @ 0 # 0 # s_payload spec"

lemmas packet_layout = ip_header_def tcp_header_front_def packet_bytes_def u16_to_be_def u32_to_be_def

lemma length_packet_bytes [simp]: "length (packet_bytes spec ck tck) = 40 + length (s_payload spec)"
  by (simp add: packet_layout)

lemma length_ip_header [simp]: "length (ip_header n k ck) = 20"
  by (simp add: packet_layout)

lemma packet_bytes_ip: "take 20 (packet_bytes spec ck tck) = ip_header (40 + length (s_payload spec)) (s_key spec) ck"
  by (simp add: packet_bytes_def)

lemma packet_bytes_tcp:
  "drop 20 (packet_bytes spec ck tck) = tcp_header_front spec @ u16_to_be tck @ 0 # 0 # s_payload spec"
  by (simp add: packet_bytes_def)

definition ip_ck :: "tcp_spec \<Rightarrow> u16" where
  "ip_ck spec = checksum (ip_header (40 + length (s_payload spec)) (s_key spec) 0)"

definition tcp_ck :: "tcp_spec \<Rightarrow> u16" where
  "tcp_ck spec = the (tcp_checksum (packet_bytes spec (ip_ck spec) 0) 20 True)"

lemma tcp_checksum_Some:
  "20 \<le> length p \<Longrightarrow> h \<le> length p \<Longrightarrow> tcp_checksum p h c \<noteq> None"
  by (simp add: tcp_checksum_def no_panic Let_def)

definition built :: "tcp_spec \<Rightarrow> bytes" where
  "built spec = packet_bytes spec (ip_ck spec) (tcp_ck spec)"

lemma zeros40: "replicate (40 + n) (0 :: u8) =
  [0,0,0,0,0,0,0,0,0,0, 0,0,0,0,0,0,0,0,0,0, 0,0,0,0,0,0,0,0,0,0, 0,0,0,0,0,0,0,0,0,0] @ replicate n 0"
  by (simp add: replicate_add numeral_eq_Suc)

lemma build_closed:
  assumes "40 + length (s_payload spec) \<le> MAX_RAW_PACKET_BYTES"
  shows "build_ipv4_tcp_packet spec = Some (Inr (RawPacket (built spec)))"
proof -
  let ?n = "length (s_payload spec)"
  have fits: "40 + ?n \<le> USIZE_MAX" "40 + ?n \<le> 65535"
    using assms by (simp_all add: MAX_RAW_PACKET_BYTES_def USIZE_MAX_def)
  obtain t where t: "tcp_checksum (packet_bytes spec (ip_ck spec) 0) 20 True = Some t"
    using tcp_checksum_Some [of "packet_bytes spec (ip_ck spec) 0" 20 True] by auto
  have front: "69 # 0 # u16_to_be (40 + word_of_nat ?n) @ 0 # 0 # u16_to_be 16384 @ 64 # 6 # 0 # 0 #
      u32_to_be (src_ip (s_key spec)) @ u32_to_be (dst_ip (s_key spec)) @
      u16_to_be (src_port (s_key spec)) @ u16_to_be (dst_port (s_key spec)) @
      u32_to_be (s_seq spec) @ u32_to_be (s_ack spec) @
      80 # s_flags spec # u16_to_be 65535 @ 0 # 0 # 0 # 0 # s_payload spec = packet_bytes spec 0 0"
    by (simp add: packet_layout)
  have slice20: "slice (packet_bytes spec 0 0) 0 20 = Some (ip_header (40 + ?n) (s_key spec) 0)"
    by (simp add: slice_def packet_bytes_ip)
  have w10: "take 10 (packet_bytes spec 0 0) @ u16_to_be ck @ drop 12 (packet_bytes spec 0 0)
      = packet_bytes spec ck 0" for ck
    by (simp add: packet_layout)
  have w36: "take 36 (packet_bytes spec ck 0) @ u16_to_be tck @ drop 38 (packet_bytes spec ck 0)
      = packet_bytes spec ck tck" for ck tck
    by (simp add: packet_layout)
  have new: "raw_packet_new (built spec) = Inr (RawPacket (built spec))"
    using assms by (simp add: raw_packet_new_Inr_iff wf_packet_def built_def flip: length_0_conv)
  show ?thesis
    using assms fits t new
    by (simp add: build_ipv4_tcp_packet_def checked_add_usize_def zeros40 set_at_def write_u16_def
        write_u32_def copy_into_def Let_def front slice20 w10 w36 ip_ck_def [symmetric]
        tcp_ck_def built_def)
qed

lemma unat_of_nat_small16: "n < 65536 \<Longrightarrow> unat (of_nat n :: u16) = n"
  by (simp add: unsigned_of_nat take_bit_nat_eq_self)

lemma unat_of_nat_small32: "n < 4294967296 \<Longrightarrow> unat (of_nat n :: u32) = n"
  by (simp add: unsigned_of_nat take_bit_nat_eq_self)

section \<open>Round trip through the parser\<close>

definition view_of_spec :: "tcp_spec \<Rightarrow> tcp_view" where
  "view_of_spec spec = \<lparr>v_key = s_key spec, v_seq = s_seq spec, v_ack = s_ack spec,
     v_flags = s_flags spec, v_payload = s_payload spec\<rparr>"

lemma built_layout: "built spec = packet_bytes spec (ip_ck spec) (tcp_ck spec)"
  by (simp add: built_def)

lemma length_built [simp]: "length (built spec) = 40 + length (s_payload spec)"
  by (simp add: built_def)

lemma built_fields:
  assumes "40 + length (s_payload spec) \<le> MAX_RAW_PACKET_BYTES"
  shows "ihl (built spec) = 20" "data_offset (built spec) = 20"
    "unat (be16_at (built spec) 2) = 40 + length (s_payload spec)"
    "be16_at (built spec) 6 = 0x4000"
    "built spec ! 0 = 0x45" "built spec ! 9 = 6"
    "key_at (built spec) = s_key spec"
    "be32_at (built spec) 24 = s_seq spec" "be32_at (built spec) 28 = s_ack spec"
    "built spec ! 33 = s_flags spec"
    "drop 40 (built spec) = s_payload spec"
proof -
  show h: "ihl (built spec) = 20" by (simp add: ihl_def built_layout packet_layout)
  show "data_offset (built spec) = 20" by (simp add: data_offset_def h) (simp add: built_layout packet_layout)
  have "be16_at (built spec) 2 = of_nat (40 + length (s_payload spec))"
    by (simp add: be16_at_def built_layout packet_layout byte_simps)
  moreover have "40 + length (s_payload spec) < 65536" using assms by (simp add: MAX_RAW_PACKET_BYTES_def)
  ultimately show "unat (be16_at (built spec) 2) = 40 + length (s_payload spec)"
    by (metis unat_of_nat_small16)
  show "be16_at (built spec) 6 = 0x4000"
    by (simp add: be16_at_def built_layout packet_layout byte_simps u16_from_be_def)
  show "built spec ! 0 = 0x45" "built spec ! 9 = 6" "built spec ! 33 = s_flags spec"
    "drop 40 (built spec) = s_payload spec"
    by (simp_all add: built_layout packet_layout)
  show "key_at (built spec) = s_key spec"
    by (simp add: key_at_def h be16_at_def be32_at_def) (simp add: built_layout packet_layout byte_simps)
  show "be32_at (built spec) 24 = s_seq spec" "be32_at (built spec) 28 = s_ack spec"
    by (simp_all add: be32_at_def built_layout packet_layout byte_simps)
qed

lemma parse_built:
  assumes "40 + length (s_payload spec) \<le> MAX_RAW_PACKET_BYTES"
  shows "parse_ipv4_tcp (RawPacket (built spec)) = Some (Some (view_of_spec spec))"
  by (simp add: parse_closed well_formed_ipv4_tcp_def view_at_def view_of_spec_def built_fields [OF assms])

section \<open>Checksums of a built packet\<close>

lemma chunk_word_be: "chunk_word [ucast (drop_bit 8 ck), ucast ck] = ucast (ck :: u16)"
  by (simp add: chunk_word_def byte_simps)

lemma chunk_sum_field:
  "even (length x) \<Longrightarrow>
     chunk_sum (chunks2 (x @ u16_to_be ck @ y)) = chunk_sum (chunks2 x) + unat ck + chunk_sum (chunks2 y)"
  by (simp add: chunks2_append u16_to_be_def chunk_word_be unat_ucast_u16)

lemma checksum_field_valid:
  assumes "even (length x)" "length x + length y \<le> 60000" "chunk_sum (chunks2 x) \<noteq> 0"
  shows "checksum (x @ u16_to_be (checksum (x @ u16_to_be 0 @ y)) @ y) = 0"
proof -
  let ?f = "\<lambda>ck. foldl (\<lambda>sum c. sum + chunk_word c) 0 (chunks2 (x @ u16_to_be ck @ y))"
  have "length (chunks2 x) + length (chunks2 y) \<le> 60002"
    using length_chunks2 [of x] length_chunks2 [of y] assms(2) by linarith
  then have b: "chunk_sum (chunks2 x) + chunk_sum (chunks2 y) \<le> 65535 * 60002"
    using chunk_sum_bound [of "chunks2 x"] chunk_sum_bound [of "chunks2 y"] by linarith
  have sum: "unat (?f ck) = chunk_sum (chunks2 x) + unat ck + chunk_sum (chunks2 y)" for ck
  proof -
    have "chunk_sum (chunks2 (x @ u16_to_be ck @ y)) < 4294967296"
      using b unat_u16_bound [of ck] unfolding chunk_sum_field [OF assms(1)] by linarith
    then show ?thesis
      using foldl_chunks_nat [of 0] by (simp add: chunk_sum_field [OF assms(1)])
  qed
  let ?ck = "fold_checksum (?f 0)"
  have nz: "?f 0 \<noteq> 0" using sum [of 0] assms(3) by (metis add_is_0 unat_0)
  have "unat (?f ?ck) = unat (?f 0) + unat ?ck" using sum [of 0] sum [of ?ck] by simp
  then have "fold_checksum (?f ?ck) = 0" using nz by (rule fold_checksum_completes)
  then show ?thesis by (simp only: checksum_def)
qed

lemma ip_checksum_valid: "checksum (ip_header (40 + length (s_payload spec)) (s_key spec) (ip_ck spec)) = 0"
proof -
  let ?n = "40 + length (s_payload spec)" and ?k = "s_key spec"
  let ?x = "0x45 # 0 # u16_to_be (of_nat ?n) @ 0 # 0 # u16_to_be 0x4000 @ [64, 6]"
  let ?y = "u32_to_be (src_ip ?k) @ u32_to_be (dst_ip ?k)"
  have hdr: "ip_header ?n ?k ck = ?x @ u16_to_be ck @ ?y" for ck
    by (simp add: ip_header_def)
  have "chunk_sum (chunks2 ?x) \<noteq> 0"
    by (simp add: chunk_word_def u16_from_be_def)
  then have "checksum (?x @ u16_to_be (checksum (?x @ u16_to_be 0 @ ?y)) @ ?y) = 0"
    by (intro checksum_field_valid) simp_all
  then show ?thesis by (simp only: hdr ip_ck_def)
qed

lemma filter_enumerate_absent:
  "n < k \<or> k + length xs \<le> n \<Longrightarrow> map snd (filter (\<lambda>(i, c). \<not> (True \<and> i = n)) (enumerate k xs)) = xs"
  by (induction xs arbitrary: k) auto

lemma tcp_checksum_chunks_clear:
  assumes "length xs = 8"
  shows "tcp_checksum_chunks (xs @ c # ys) True = xs @ ys"
proof -
  have "map snd (filter (\<lambda>(i, c). \<not> (True \<and> i = 8)) (enumerate 0 xs)) = xs"
    using assms by (intro filter_enumerate_absent) simp
  moreover have "map snd (filter (\<lambda>(i, c). \<not> (True \<and> i = 8)) (enumerate 9 ys)) = ys"
    by (intro filter_enumerate_absent) simp
  ultimately show ?thesis
    using assms by (simp add: tcp_checksum_chunks_def enumerate_append_eq)
qed

lemma tcp_checksum_chunks_keep: "tcp_checksum_chunks cs False = cs"
  by (simp add: tcp_checksum_chunks_def)

text \<open>The pseudo header sum: four address words, the protocol number and the TCP length.\<close>

definition pseudo_sum :: "bytes \<Rightarrow> nat \<Rightarrow> u32" where
  "pseudo_sum p h = ucast (be16_at p 12) + ucast (be16_at p 14) + ucast (be16_at p 16)
     + ucast (be16_at p 18) + 6 + of_nat (length p - h)"

lemma tcp_checksum_closed:
  "20 \<le> length p \<Longrightarrow> h \<le> length p \<Longrightarrow> tcp_checksum p h c = Some (fold_checksum
     (foldl (\<lambda>sum c. sum + chunk_word c) (pseudo_sum p h) (tcp_checksum_chunks (chunks2 (drop h p)) c)))"
  by (simp add: tcp_checksum_def pseudo_sum_def no_panic Let_def)

lemma pseudo_sum_nat:
  assumes "length p \<le> 65535 + h" "h \<le> length p"
  shows "unat (pseudo_sum p h) = unat (be16_at p 12) + unat (be16_at p 14) + unat (be16_at p 16)
     + unat (be16_at p 18) + 6 + (length p - h)"
    and "unat (pseudo_sum p h) \<le> 400000"
proof -
  have l: "unat (of_nat (length p - h) :: u32) = length p - h"
    using assms by (intro unat_of_nat_small32) linarith
  note b = unat_u16_bound [of "be16_at p 12"] unat_u16_bound [of "be16_at p 14"]
    unat_u16_bound [of "be16_at p 16"] unat_u16_bound [of "be16_at p 18"]
  have add: "unat x + unat y < 4294967296 \<Longrightarrow> unat (x + y) = unat x + unat y" for x y :: u32
    by (simp add: unat_word_ariths)
  have six: "unat (6 :: u32) = 6" by simp
  show eq: "unat (pseudo_sum p h) = unat (be16_at p 12) + unat (be16_at p 14) + unat (be16_at p 16)
     + unat (be16_at p 18) + 6 + (length p - h)"
    using b assms unfolding pseudo_sum_def
    by (simp only: add unat_ucast_u16 l six)
  show "unat (pseudo_sum p h) \<le> 400000" unfolding eq using b assms by linarith
qed

lemma pseudo_sum_packet_bytes:
  "pseudo_sum (packet_bytes spec ck tck) 20 = pseudo_sum (packet_bytes spec ck 0) 20"
  by (simp add: pseudo_sum_def be16_at_def packet_layout)

lemma length_tcp_front: "length (tcp_header_front spec) = 16"
  by (simp add: tcp_header_front_def)

lemma length_chunks2_front: "length (chunks2 (tcp_header_front spec)) = 8"
  by (simp add: packet_layout)

lemma tcp_chunks:
  "chunks2 (drop 20 (packet_bytes spec ck tck)) =
     chunks2 (tcp_header_front spec) @ [ucast (drop_bit 8 tck), ucast tck] # chunks2 (0 # 0 # s_payload spec)"
  by (simp add: packet_bytes_tcp chunks2_append length_tcp_front u16_to_be_def)

lemma tcp_checksum_valid:
  assumes "40 + length (s_payload spec) \<le> MAX_RAW_PACKET_BYTES"
  shows "tcp_checksum (built spec) 20 False = Some 0"
proof -
  let ?A = "chunks2 (tcp_header_front spec)" and ?B = "chunks2 (0 # 0 # s_payload spec)"
  let ?ini = "pseudo_sum (packet_bytes spec (ip_ck spec) 0) 20"
  let ?f = "\<lambda>cs. foldl (\<lambda>sum c. sum + chunk_word c) ?ini cs"
  let ?C = "\<lambda>t :: u16. [ucast (drop_bit 8 t), ucast t] :: bytes"
  have n: "length (s_payload spec) \<le> 1496" using assms by (simp add: MAX_RAW_PACKET_BYTES_def)
  then have "length ?A + length ?B \<le> 800"
    using length_chunks2 [of "0 # 0 # s_payload spec"] by (simp add: length_chunks2_front)
  then have b: "chunk_sum ?A + chunk_sum ?B \<le> 65535 * 800"
    using chunk_sum_bound [of ?A] chunk_sum_bound [of ?B] by linarith
  have ini: "unat ?ini \<le> 400000" "0 < unat ?ini" using n by (subst pseudo_sum_nat; simp)+
  have sum1: "unat (?f (?A @ ?B)) = unat ?ini + (chunk_sum ?A + chunk_sum ?B)"
    using b ini by (subst foldl_chunks_nat) simp_all
  have cw: "unat (chunk_word (?C t)) = unat t" for t
    by (simp add: chunk_word_be unat_ucast_u16)
  have sum2: "unat (?f (?A @ ?C t # ?B)) = unat (?f (?A @ ?B)) + unat t" for t
    using b ini unat_u16_bound [of t] unfolding sum1 by (subst foldl_chunks_nat) (simp_all add: cw)
  have ck: "tcp_checksum (packet_bytes spec (ip_ck spec) 0) 20 True = Some (fold_checksum (?f (?A @ ?B)))"
    by (simp add: tcp_checksum_closed tcp_chunks tcp_checksum_chunks_clear length_chunks2_front
        del: foldl_append)
  have "fold_checksum (?f (?A @ ?C (tcp_ck spec) # ?B)) = 0"
  proof (rule fold_checksum_completes)
    show "unat (?f (?A @ ?C (tcp_ck spec) # ?B)) = unat (?f (?A @ ?B)) + unat (fold_checksum (?f (?A @ ?B)))"
      by (simp only: sum2 tcp_ck_def ck option.sel)
    show "?f (?A @ ?B) \<noteq> 0" using sum1 ini by (metis add_is_0 less_irrefl unat_0)
  qed
  then show ?thesis
    by (simp add: built_layout tcp_checksum_closed tcp_chunks tcp_checksum_chunks_keep
        pseudo_sum_packet_bytes [of spec "ip_ck spec" "tcp_ck spec"] del: foldl_append foldl_Cons)
qed

lemma validate_built:
  assumes "40 + length (s_payload spec) \<le> MAX_RAW_PACKET_BYTES"
  shows "validate_ipv4_tcp_checksums (RawPacket (built spec)) = Some (Inr ())"
proof -
  have "built spec \<noteq> []" by (simp flip: length_0_conv)
  moreover have "slice (built spec) 0 20 = Some (ip_header (40 + length (s_payload spec)) (s_key spec) (ip_ck spec))"
    by (simp add: slice_def) (simp add: built_def packet_bytes_ip)
  moreover have "slice (built spec) 0 (40 + length (s_payload spec)) = Some (built spec)"
    by (simp add: slice_def)
  moreover have "unat (built spec ! 0 AND 15) * 4 = 20"
    using built_fields(1) [OF assms] by (simp add: ihl_def)
  ultimately show ?thesis
    using tcp_checksum_valid [OF assms] ip_checksum_valid [of spec]
    by (simp add: validate_ipv4_tcp_checksums_def no_panic Let_def built_fields [OF assms])
qed

section \<open>What the wire module promises\<close>

text \<open>The parser is total. On any byte string, of any length, it neither panics nor reads out of bounds: it
  accepts exactly the well-formed unfragmented IPv4/TCP datagrams, reports the fields found at their offsets, and
  the scheduler's cheaper key extraction, which is total too, gives the same connection.\<close>

theorem parse_total:
  "(well_formed_ipv4_tcp (as_bytes p) \<and> parse_ipv4_tcp p = Some (Some (view_at (as_bytes p)))
      \<and> scheduling_flow_key p = Some (Some (v_key (view_at (as_bytes p)))))
   \<or> (\<not> well_formed_ipv4_tcp (as_bytes p) \<and> parse_ipv4_tcp p = Some None \<and> scheduling_flow_key p \<noteq> None)"
  using well_formed_schedulable [of "as_bytes p"]
  by (auto simp: parse_closed scheduling_flow_key_closed view_at_def)

text \<open>C24: build, parse and validate agree. A specification whose payload fits builds, without panic, a packet of 40
  bytes plus the payload; the parser returns exactly the key, sequence and acknowledgement numbers, flags and
  payload it was built from; and both checksums verify.\<close>

theorem build_parse_validate:
  assumes "length (s_payload spec) \<le> 1496"
  shows "\<exists>p. build_ipv4_tcp_packet spec = Some (Inr p) \<and> length (as_bytes p) = 40 + length (s_payload spec)
    \<and> parse_ipv4_tcp p = Some (Some \<lparr>v_key = s_key spec, v_seq = s_seq spec, v_ack = s_ack spec,
        v_flags = s_flags spec, v_payload = s_payload spec\<rparr>)
    \<and> validate_ipv4_tcp_checksums p = Some (Inr ())"
proof -
  have fits: "40 + length (s_payload spec) \<le> MAX_RAW_PACKET_BYTES" using assms by (simp add: MAX_RAW_PACKET_BYTES_def)
  show ?thesis using build_closed [OF fits] parse_built [OF fits] validate_built [OF fits]
    by (intro exI [of _ "RawPacket (built spec)"]) (simp add: view_of_spec_def)
qed

theorem build_parse_validate_witness:
  "\<exists>p. build_ipv4_tcp_packet \<lparr>s_key = \<lparr>src_ip = 1, dst_ip = 2, src_port = 3, dst_port = 4\<rparr>, s_seq = 5, s_ack = 6,
        s_flags = 24, s_payload = [7, 8, 9]\<rparr> = Some (Inr p)
    \<and> length (as_bytes p) = 40 + length [7 :: u8, 8, 9] \<and> validate_ipv4_tcp_checksums p = Some (Inr ())"
  using build_parse_validate [of "\<lparr>s_key = \<lparr>src_ip = 1, dst_ip = 2, src_port = 3, dst_port = 4\<rparr>, s_seq = 5, s_ack = 6,
        s_flags = 24, s_payload = [7, 8, 9]\<rparr>"] by auto

text \<open>\<open>validate_ipv4_tcp_checksums\<close> can panic. This 40-byte packet has a valid IPv4 header checksum and a total
  length below its header length; the function neither accepts nor rejects it.\<close>

theorem validate_panics_on_short_total_length:
  "validate_ipv4_tcp_checksums (RawPacket ([0x45, 0, 0, 0, 0, 0, 0, 0, 0, 0, 0xba, 0xff] @ replicate 28 0)) = None"
  by code_simp

end
