(* ===== verification/Scheduler.thy ===== *)
theory Scheduler
  imports FlowSet WireProofs "HOL-Library.Multiset"
begin

text \<open>
  The wave scheduler of the GPU packet engine (\<open>fill_initial_wave\<close>, \<open>fill_next_wave\<close> and the
  loop of \<open>process_batch_to\<close> in \<open>src/packet/mod.rs\<close>). A batch is cut into waves; a wave holds
  at most one packet of a connection and is one GPU dispatch. The dispatch is a parameter
  here: a state transformer that may fail.
\<close>

section \<open>Filling a wave\<close>

fun fill_next_loop :: "raw_packet list \<Rightarrow> flow_key option list \<Rightarrow> nat \<times> nat \<Rightarrow> nat list
    \<Rightarrow> flow_set \<Rightarrow> nat list \<Rightarrow> nat list \<Rightarrow> nat \<Rightarrow> (flow_set \<times> nat list \<times> nat list) option" where
  "fill_next_loop pkts keys limits [] seen wave deferred input_words = Some (seen, wave, deferred)"
| "fill_next_loop pkts keys limits (i # pending) seen wave deferred input_words =
     (case limits of (max_batch, max_input_words) \<Rightarrow> do {
        packet \<leftarrow> index pkts i;
        let packet_words = div_ceil (length (as_bytes packet)) 4;
        if length wave = max_batch \<or> input_words + packet_words > max_input_words
        then fill_next_loop pkts keys limits pending seen wave (deferred @ [i]) input_words
        else do {
          key \<leftarrow> index keys i;
          (seen', new) \<leftarrow> (case key of None \<Rightarrow> Some (seen, True) | Some k \<Rightarrow> fs_insert seen k);
          if \<not> new then fill_next_loop pkts keys limits pending seen' wave (deferred @ [i]) input_words
          else fill_next_loop pkts keys limits pending seen' (wave @ [i]) deferred (input_words + packet_words) } })"

definition fill_next_wave :: "raw_packet list \<Rightarrow> flow_key option list \<Rightarrow> nat list \<Rightarrow> nat \<times> nat \<Rightarrow> flow_set
    \<Rightarrow> (flow_set \<times> nat list \<times> nat list) option" where
  "fill_next_wave pkts keys pending limits seen = do {
     seen \<leftarrow> fs_begin (length pending) seen;
     fill_next_loop pkts keys limits pending seen [] [] 0 }"

fun fill_initial_loop :: "raw_packet list \<Rightarrow> nat \<Rightarrow> nat \<times> nat \<Rightarrow> flow_set \<Rightarrow> flow_key option list \<Rightarrow> nat list
    \<Rightarrow> nat list \<Rightarrow> nat \<Rightarrow> (flow_set \<times> flow_key option list \<times> nat list \<times> nat list) option" where
  "fill_initial_loop [] i limits seen keys wave deferred input_words = Some (seen, keys, wave, deferred)"
| "fill_initial_loop (packet # pkts) i limits seen keys wave deferred input_words =
     (case limits of (max_batch, max_input_words) \<Rightarrow> do {
        key \<leftarrow> scheduling_flow_key packet;
        let keys = keys @ [key];
        let packet_words = div_ceil (length (as_bytes packet)) 4;
        if length wave = max_batch \<or> input_words + packet_words > max_input_words
        then fill_initial_loop pkts (i + 1) limits seen keys wave (deferred @ [i]) input_words
        else do {
          (seen', new) \<leftarrow> (case key of None \<Rightarrow> Some (seen, True) | Some k \<Rightarrow> fs_insert seen k);
          if \<not> new then fill_initial_loop pkts (i + 1) limits seen' keys wave (deferred @ [i]) input_words
          else fill_initial_loop pkts (i + 1) limits seen' keys (wave @ [i]) deferred (input_words + packet_words) } })"

definition fill_initial_wave :: "raw_packet list \<Rightarrow> nat \<times> nat \<Rightarrow> flow_set
    \<Rightarrow> (flow_set \<times> flow_key option list \<times> nat list \<times> nat list) option" where
  "fill_initial_wave pkts limits seen = do {
     seen \<leftarrow> fs_begin (length pkts) seen;
     fill_initial_loop pkts 0 limits seen [] [] [] 0 }"

section \<open>The dispatch loop\<close>

type_synonym 'd dispatch = "'d \<Rightarrow> nat list \<Rightarrow> ('d \<times> (packet_error + unit)) option"

partial_function (option) wave_loop :: "raw_packet list \<Rightarrow> flow_key option list \<Rightarrow> nat \<times> nat \<Rightarrow> 'd dispatch
    \<Rightarrow> 'd \<Rightarrow> flow_set \<Rightarrow> nat list \<Rightarrow> nat list \<Rightarrow> (flow_set \<times> 'd \<times> (packet_error + unit)) option" where
  "wave_loop pkts keys limits dispatch d seen wave deferred = do {
     (d', r) \<leftarrow> dispatch d wave;
     case r of
       Inl e \<Rightarrow> Some (seen, d', Inl e)
     | Inr _ \<Rightarrow>
         if deferred = [] then Some (seen, d', Inr ())
         else do {
           (seen', wave', deferred') \<leftarrow> fill_next_wave pkts keys deferred limits seen;
           wave_loop pkts keys limits dispatch d' seen' wave' deferred' } }"

definition run_waves :: "raw_packet list \<Rightarrow> nat \<times> nat \<Rightarrow> 'd dispatch \<Rightarrow> 'd \<Rightarrow> flow_set
    \<Rightarrow> (flow_set \<times> 'd \<times> (packet_error + unit)) option" where
  "run_waves pkts limits dispatch d seen =
     (if pkts = [] then Some (seen, d, Inr ())
      else do {
        (seen, keys, wave, deferred) \<leftarrow> fill_initial_wave pkts limits seen;
        wave_loop pkts keys limits dispatch d seen wave deferred })"

section \<open>Specification: picking indices\<close>

text \<open>The abstract wave: which of the pending indices are taken, which are deferred.\<close>

fun pick :: "(nat \<Rightarrow> flow_key option) \<Rightarrow> (nat \<Rightarrow> nat) \<Rightarrow> nat \<times> nat \<Rightarrow> nat list \<Rightarrow> flow_key set \<Rightarrow> nat \<Rightarrow> nat
    \<Rightarrow> nat list \<times> nat list" where
  "pick key words limits [] seen n w = ([], [])"
| "pick key words limits (i # pending) seen n w =
     (if n = fst limits \<or> w + words i > snd limits \<or> (\<exists>k\<in>seen. key i = Some k)
      then (let (a, d) = pick key words limits pending seen n w in (a, i # d))
      else (let (a, d) = pick key words limits pending (seen \<union> set_option (key i)) (Suc n) (w + words i) in (i # a, d)))"

definition key_of :: "raw_packet list \<Rightarrow> nat \<Rightarrow> flow_key option" where
  "key_of pkts i = the (scheduling_flow_key (pkts ! i))"

definition words_of :: "raw_packet list \<Rightarrow> nat \<Rightarrow> nat" where
  "words_of pkts i = div_ceil (length (as_bytes (pkts ! i))) 4"

lemma scheduling_key_of: "scheduling_flow_key (pkts ! i) = Some (key_of pkts i)"
  by (simp add: key_of_def scheduling_flow_key_closed)

lemma insert_key_step:
  assumes "fs_ready seen" "Suc n \<le> fs_budget seen"
  obtains seen' where
    "(case key of None \<Rightarrow> Some (seen, True) | Some k \<Rightarrow> fs_insert seen k) =
       Some (seen', \<not> (\<exists>k\<in>fs_members seen. key = Some k))"
    "fs_ready seen'" "fs_members seen' = fs_members seen \<union> set_option key" "n \<le> fs_budget seen'"
proof (cases key)
  case None
  then show thesis using that [of seen] assms by simp
next
  case (Some k)
  obtain s where "fs_insert seen k = Some (s, k \<notin> fs_members seen)" "fs_ready s"
    "fs_members s = insert k (fs_members seen)" "n \<le> fs_budget s" by (rule fs.insert_law_obtain [OF assms])
  then show thesis using that [of s] Some by simp
qed

abbreviation pick_of :: "raw_packet list \<Rightarrow> nat \<times> nat \<Rightarrow> nat list \<Rightarrow> flow_key set \<Rightarrow> nat \<Rightarrow> nat \<Rightarrow> nat list \<times> nat list" where
  "pick_of pkts \<equiv> pick (key_of pkts) (words_of pkts)"

lemma fill_next_loop_pick:
  assumes "fs_ready seen" "length pending \<le> fs_budget seen" "\<forall>i\<in>set pending. i < length pkts"
    "keys = map (key_of pkts) [0..<length pkts]"
  shows "\<exists>seen'. fill_next_loop pkts keys limits pending seen wave deferred w =
      Some (seen', wave @ fst (pick_of pkts limits pending (fs_members seen) (length wave) w),
            deferred @ snd (pick_of pkts limits pending (fs_members seen) (length wave) w))
    \<and> fs_ready seen'"
  using assms(1-3)
proof (induction pending arbitrary: seen wave deferred w)
  case Nil
  then show ?case by simp
next
  case (Cons i pending)
  have i: "index pkts i = Some (pkts ! i)" "index keys i = Some (key_of pkts i)"
    and pend: "\<forall>i\<in>set pending. i < length pkts"
    using Cons.prems(3) by (simp_all add: index_def assms(4))
  note code = fill_next_loop.simps(2) split_beta i Option.bind.bind_lunit Let_def words_of_def [symmetric]
  show ?case
  proof (cases "length wave = fst limits \<or> w + words_of pkts i > snd limits")
    case True
    then have "fill_next_loop pkts keys limits (i # pending) seen wave deferred w =
        fill_next_loop pkts keys limits pending seen wave (deferred @ [i]) w"
      by (simp only: code if_True)
    moreover have "length pending \<le> fs_budget seen" using Cons.prems(2) by simp
    moreover have "pick_of pkts limits (i # pending) (fs_members seen) (length wave) w =
        (let (a, d) = pick_of pkts limits pending (fs_members seen) (length wave) w in (a, i # d))"
      using True by auto
    ultimately show ?thesis
      using Cons.IH [OF Cons.prems(1) _ pend, of wave "deferred @ [i]" w] by (simp add: Let_def split_def)
  next
    case False
    obtain seen' where ins: "(case key_of pkts i of None \<Rightarrow> Some (seen, True) | Some k \<Rightarrow> fs_insert seen k) =
        Some (seen', \<not> (\<exists>k\<in>fs_members seen. key_of pkts i = Some k))"
      and s': "fs_ready seen'" "fs_members seen' = fs_members seen \<union> set_option (key_of pkts i)"
        "length pending \<le> fs_budget seen'"
      by (rule insert_key_step [OF Cons.prems(1), of "length pending" "key_of pkts i"]) (use Cons.prems(2) in auto)
    show ?thesis
    proof (cases "\<exists>k\<in>fs_members seen. key_of pkts i = Some k")
      case True
      then have "fill_next_loop pkts keys limits (i # pending) seen wave deferred w =
          fill_next_loop pkts keys limits pending seen' wave (deferred @ [i]) w"
        using False by (simp only: code if_False ins) simp
      moreover have "fs_members seen' = fs_members seen" using True s'(2) by auto
      moreover have "pick_of pkts limits (i # pending) (fs_members seen) (length wave) w =
          (let (a, d) = pick_of pkts limits pending (fs_members seen) (length wave) w in (a, i # d))"
        using True by auto
      ultimately show ?thesis
        using Cons.IH [OF s'(1,3) pend, of wave "deferred @ [i]" w] by (simp add: Let_def split_def)
    next
      case new: False
      then have "fill_next_loop pkts keys limits (i # pending) seen wave deferred w =
          fill_next_loop pkts keys limits pending seen' (wave @ [i]) deferred (w + words_of pkts i)"
        using False by (simp only: code if_False ins) simp
      moreover have "pick_of pkts limits (i # pending) (fs_members seen) (length wave) w =
          (let (a, d) = pick_of pkts limits pending (fs_members seen') (Suc (length wave)) (w + words_of pkts i) in (i # a, d))"
        using False new s'(2) by auto
      ultimately show ?thesis
        using Cons.IH [OF s'(1,3) pend, of "wave @ [i]" deferred "w + words_of pkts i"]
        by (simp add: Let_def split_def)
    qed
  qed
qed

text \<open>The first wave is filled like the later ones, with the keys computed on the way.\<close>

lemma fill_initial_loop_next:
  assumes "pkts = pre @ rest" "keys = map (key_of pkts) [0..<length pkts]"
  shows "fill_initial_loop rest (length pre) limits seen (take (length pre) keys) wave deferred w =
    map_option (\<lambda>(s, a, d). (s, keys, a, d))
      (fill_next_loop pkts keys limits [length pre..<length pkts] seen wave deferred w)"
  using assms(1)
proof (induction rest arbitrary: pre seen wave deferred w)
  case Nil
  then show ?case using assms(2) by simp
next
  case (Cons p rest)
  let ?i = "length pre"
  have i: "index pkts ?i = Some p" "pkts ! ?i = p" "?i < length pkts" using Cons.prems by (simp_all add: index_def)
  then have k: "index keys ?i = Some (key_of pkts ?i)" using assms(2) by (simp add: index_def)
  have key: "scheduling_flow_key p = Some (key_of pkts ?i)" using scheduling_key_of [of pkts ?i] i(2) by simp
  have range: "[?i..<length pkts] = ?i # [Suc ?i..<length pkts]" using i(3) by (simp add: upt_conv_Cons)
  have keys': "take ?i keys @ [key_of pkts ?i] = take (length (pre @ [p])) keys"
    using i(3) assms(2) by (simp add: take_Suc_conv_app_nth)
  have "pkts = (pre @ [p]) @ rest" using Cons.prems by simp
  note IH = Cons.IH [OF this, unfolded length_append_singleton]
  note keys'' = keys' [unfolded length_append_singleton]
  note both = fill_initial_loop.simps(2) fill_next_loop.simps(2) range i(1) k key split_beta
    Option.bind.bind_lunit Let_def keys'' Suc_eq_plus1 [symmetric]
  show ?case unfolding both
    by (cases "key_of pkts ?i"; cases "fs_insert seen (the (key_of pkts ?i))")
      (simp_all add: IH split_beta del: upt_Suc)
qed

section \<open>The schedule\<close>

lemma pick_length: "length (fst (pick key words limits pending seen n w)) + length (snd (pick key words limits pending seen n w)) = length pending"
  by (induction pending arbitrary: seen n w) (auto simp: Let_def split_def)

lemma pick_mset: "mset (fst (pick key words limits pending seen n w)) + mset (snd (pick key words limits pending seen n w)) = mset pending"
  by (induction pending arbitrary: seen n w) (auto simp: Let_def split_def)

lemma pick_set:
  "set (fst (pick key words limits pending seen n w)) \<union> set (snd (pick key words limits pending seen n w)) = set pending"
  using arg_cong [OF pick_mset, of set_mset] by simp

function waves :: "(nat \<Rightarrow> flow_key option) \<Rightarrow> (nat \<Rightarrow> nat) \<Rightarrow> nat \<times> nat \<Rightarrow> nat list \<Rightarrow> nat list list" where
  "waves key words limits pending =
     (let (a, d) = pick key words limits pending {} 0 0
      in if d = [] \<or> a = [] then [a] else a # waves key words limits d)"
  by pat_completeness auto
termination
proof (relation "measure (\<lambda>(key, words, limits, pending). length pending)", simp, goal_cases)
  case (1 key words limits pending x a d)
  then have a: "a = fst (pick key words limits pending {} 0 0)" "d = snd (pick key words limits pending {} 0 0)"
    by (metis fst_conv) (metis 1(1,2) snd_conv)
  from 1 have "0 < length a" by simp
  moreover have "length a + length d = length pending"
    using pick_length [of key words limits pending "{}" 0 0] by (simp flip: a)
  ultimately have "length d < length pending" by linarith
  then show ?case by simp
qed

declare waves.simps [simp del]

lemma waves_eq: "waves key words limits pending =
   (let a = fst (pick key words limits pending {} 0 0); d = snd (pick key words limits pending {} 0 0)
    in if d = [] \<or> a = [] then [a] else a # waves key words limits d)"
  by (subst waves.simps) (simp add: split_def Let_def)

abbreviation waves_of :: "raw_packet list \<Rightarrow> nat \<times> nat \<Rightarrow> nat list \<Rightarrow> nat list list" where
  "waves_of pkts \<equiv> waves (key_of pkts) (words_of pkts)"

definition fitting :: "(nat \<Rightarrow> nat) \<Rightarrow> nat \<times> nat \<Rightarrow> nat list \<Rightarrow> bool" where
  "fitting words limits pending \<longleftrightarrow> 0 < fst limits \<and> (\<forall>i\<in>set pending. words i \<le> snd limits)"

lemma pick_progress:
  assumes "fitting words limits pending" "pending \<noteq> []"
  shows "fst (pick key words limits pending {} 0 0) \<noteq> []"
  using assms by (cases pending) (auto simp: fitting_def Let_def split_def)

lemma pick_fitting: "fitting words limits pending \<Longrightarrow> fitting words limits (snd (pick key words limits pending seen n w))"
  using pick_set [of key words limits pending seen n w] by (auto simp: fitting_def)

fun dispatch_all :: "'d dispatch \<Rightarrow> 'd \<Rightarrow> nat list list \<Rightarrow> ('d \<times> (packet_error + unit)) option" where
  "dispatch_all dispatch d [] = Some (d, Inr ())"
| "dispatch_all dispatch d (wave # rest) = do {
     (d', r) \<leftarrow> dispatch d wave;
     case r of Inl e \<Rightarrow> Some (d', Inl e) | Inr _ \<Rightarrow> dispatch_all dispatch d' rest }"

lemma dispatch_all_single: "dispatch_all dispatch d [a] = dispatch d a"
  by (cases "dispatch d a") (auto split: sum.splits)

lemma wave_loop_schedule:
  assumes "fs_ready seen" "\<forall>i\<in>set deferred. i < length pkts" "length deferred \<le> FS_LIMIT"
    "keys = map (key_of pkts) [0..<length pkts]" "fitting (words_of pkts) limits deferred"
  shows "\<exists>seen'. fs_ready seen' \<and> wave_loop pkts keys limits dispatch d seen wave deferred =
    map_option (\<lambda>(d', r). (seen', d', r))
      (dispatch_all dispatch d (wave # (if deferred = [] then [] else waves_of pkts limits deferred)))"
  using assms(1-3,5)
proof (induction "length deferred" arbitrary: d seen wave deferred rule: less_induct)
  case less
  show ?case
  proof (cases "dispatch d wave")
    case None
    then show ?thesis using less.prems(1) by (subst wave_loop.simps) auto
  next
    case (Some dr)
    obtain d' r where dr: "dr = (d', r)" by force
    show ?thesis
    proof (cases "deferred = [] \<or> (\<exists>e. r = Inl e)")
      case True
      then show ?thesis using less.prems(1) Some dr
        by (subst wave_loop.simps) (auto split: sum.splits)
    next
      case False
      then have r: "r = Inr ()" and ne: "deferred \<noteq> []" by (cases r; simp)+
      let ?a = "fst (pick_of pkts limits deferred {} 0 0)"
      let ?b = "snd (pick_of pkts limits deferred {} 0 0)"
      obtain s0 where s0: "fs_begin (length deferred) seen = Some s0" "fs_ready s0" "fs_members s0 = {}"
        "length deferred \<le> fs_budget s0" using fs.fresh_law [OF less.prems(1,3)] by blast
      obtain s1 where fill: "fill_next_wave pkts keys deferred limits seen = Some (s1, ?a, ?b)" and s1: "fs_ready s1"
        using fill_next_loop_pick [OF s0(2,4) less.prems(2) assms(4), of limits "[]" "[]" 0] s0
        by (auto simp: fill_next_wave_def)
      have a: "?a \<noteq> []" by (rule pick_progress [OF less.prems(4) ne])
      have smaller: "length ?b < length deferred"
        using a pick_length [of "key_of pkts" "words_of pkts" limits deferred "{}" 0 0] by (cases ?a) auto
      have sub: "set ?b \<subseteq> set deferred" using pick_set by blast
      have "\<exists>seen'. fs_ready seen' \<and> wave_loop pkts keys limits dispatch d' s1 ?a ?b =
          map_option (\<lambda>(d', r). (seen', d', r))
            (dispatch_all dispatch d' (?a # (if ?b = [] then [] else waves_of pkts limits ?b)))"
        using smaller s1 sub less.prems(2,3) pick_fitting [OF less.prems(4)]
        by (intro less.hyps) auto
      moreover have "waves_of pkts limits deferred = ?a # (if ?b = [] then [] else waves_of pkts limits ?b)"
        using a by (subst waves_eq) (simp add: Let_def)
      moreover have "wave_loop pkts keys limits dispatch d seen wave deferred = wave_loop pkts keys limits dispatch d' s1 ?a ?b"
        using ne by (subst wave_loop.simps) (simp add: Some dr r fill split_def)
      ultimately show ?thesis using ne by (simp add: Some dr r)
    qed
  qed
qed

lemma run_waves_schedule:
  assumes "fs_ready seen" "pkts \<noteq> []" "length pkts \<le> FS_LIMIT" "fitting (words_of pkts) limits [0..<length pkts]"
  shows "\<exists>seen'. fs_ready seen' \<and> run_waves pkts limits dispatch d seen =
    map_option (\<lambda>(d', r). (seen', d', r)) (dispatch_all dispatch d (waves_of pkts limits [0..<length pkts]))"
proof -
  let ?keys = "map (key_of pkts) [0..<length pkts]"
  let ?p = "pick_of pkts limits [0..<length pkts] {} 0 0"
  obtain s0 where s0: "fs_begin (length pkts) seen = Some s0" "fs_ready s0" "fs_members s0 = {}"
    "length pkts \<le> fs_budget s0" using fs.fresh_law [OF assms(1,3)] by blast
  have "length [0..<length pkts] \<le> fs_budget s0" "\<forall>i\<in>set [0..<length pkts]. i < length pkts" using s0(4) by simp_all
  from fill_next_loop_pick [OF s0(2) this refl, of limits "[]" "[]" 0] obtain s1 where
    fill: "fill_next_loop pkts ?keys limits [0..<length pkts] s0 [] [] 0 = Some (s1, fst ?p, snd ?p)" and s1: "fs_ready s1"
    using s0(3) by auto
  have first: "fill_initial_wave pkts limits seen = Some (s1, ?keys, fst ?p, snd ?p)"
    using fill_initial_loop_next [OF append_Nil [symmetric], of ?keys pkts limits s0 "[]" "[]" 0]
    by (simp add: fill_initial_wave_def s0(1) fill)
  have ne: "[0..<length pkts] \<noteq> []" using assms(2) by simp
  have a: "fst ?p \<noteq> []" by (rule pick_progress [OF assms(4) ne])
  have sub: "set (snd ?p) \<subseteq> set [0..<length pkts]" using pick_set by blast
  have len: "length (snd ?p) \<le> length pkts"
    using pick_length [of "key_of pkts" "words_of pkts" limits "[0..<length pkts]" "{}" 0 0] by simp
  have "\<exists>seen'. fs_ready seen' \<and> wave_loop pkts ?keys limits dispatch d s1 (fst ?p) (snd ?p) =
    map_option (\<lambda>(d', r). (seen', d', r))
      (dispatch_all dispatch d (fst ?p # (if snd ?p = [] then [] else waves_of pkts limits (snd ?p))))"
    using s1 sub len assms(3) pick_fitting [OF assms(4)] by (intro wave_loop_schedule) auto
  moreover have "waves_of pkts limits [0..<length pkts] = fst ?p # (if snd ?p = [] then [] else waves_of pkts limits (snd ?p))"
    using a by (subst waves_eq) (simp add: Let_def)
  moreover have "run_waves pkts limits dispatch d seen = wave_loop pkts ?keys limits dispatch d s1 (fst ?p) (snd ?p)"
    using assms(2) by (simp add: run_waves_def first split_def)
  ultimately show ?thesis by (simp only:)
qed

section \<open>Properties of the schedule\<close>

lemma pick_full: "n = fst limits \<Longrightarrow> pick key words limits pending seen n w = ([], pending)"
  by (induction pending) (auto simp: Let_def)

lemma pick_seen: "k \<in> seen \<Longrightarrow> i \<in> set (fst (pick key words limits pending seen n w)) \<Longrightarrow> key i \<noteq> Some k"
proof (induction pending arbitrary: seen n w)
  case (Cons j pending)
  then show ?case using Cons.IH [of "seen \<union> set_option (key j)"]
    by (fastforce simp: Let_def split_def split: if_splits)
qed simp

definition distinct_flows :: "(nat \<Rightarrow> flow_key option) \<Rightarrow> nat list \<Rightarrow> bool" where
  "distinct_flows key is \<longleftrightarrow> distinct (List.map_filter key is)"

lemma pick_distinct_flows: "distinct_flows key (fst (pick key words limits pending seen n w))"
proof (induction pending arbitrary: seen n w)
  case Nil
  then show ?case by (simp add: distinct_flows_def List.map_filter_def)
next
  case (Cons i pending)
  have "k \<notin> set (List.map_filter key (fst (pick key words limits pending (seen \<union> {k}) n w)))" for k n w
    using pick_seen [of k "seen \<union> {k}" _ key words limits pending n w] by (force simp: List.map_filter_def)
  then show ?case using Cons.IH
    by (cases "key i") (auto simp: distinct_flows_def List.map_filter_simps Let_def split_def)
qed

lemma pick_bounds:
  "n \<le> fst limits \<Longrightarrow> n + length (fst (pick key words limits pending seen n w)) \<le> fst limits"
  "w \<le> snd limits \<Longrightarrow> w + sum_list (map words (fst (pick key words limits pending seen n w))) \<le> snd limits"
proof (induction pending arbitrary: seen n w)
  case (Cons i pending)
  {
    case 1
    show ?case using Cons.IH(1) [of n seen w] Cons.IH(1) [of "Suc n" "seen \<union> set_option (key i)" "w + words i"] 1
      by (auto simp: Let_def split_def)
  next
    case 2
    show ?case using Cons.IH(2) [of w seen n] Cons.IH(2) [of "w + words i" "seen \<union> set_option (key i)" "Suc n"] 2
      by (auto simp: Let_def split_def)
  }
qed simp_all

text \<open>The word budget never binds before the packet count does.\<close>

definition ample :: "(nat \<Rightarrow> nat) \<Rightarrow> nat \<times> nat \<Rightarrow> nat list \<Rightarrow> bool" where
  "ample words limits pending \<longleftrightarrow> (\<forall>i\<in>set pending. words i \<le> 384) \<and> 384 * fst limits \<le> snd limits"

lemma pick_order:
  assumes "ample words limits pending" "w \<le> 384 * n" "n \<le> fst limits"
  shows "filter (\<lambda>i. key i = \<kappa>) (fst (pick key words limits pending seen n w))
    @ filter (\<lambda>i. key i = \<kappa>) (snd (pick key words limits pending seen n w)) = filter (\<lambda>i. key i = \<kappa>) pending"
  using assms
proof (induction pending arbitrary: seen n w)
  case Nil
  then show ?case by simp
next
  case (Cons i pending)
  have am: "ample words limits pending" using Cons.prems(1) by (simp add: ample_def)
  consider "n = fst limits" | "n < fst limits" "\<exists>k\<in>seen. key i = Some k" | "n < fst limits" "\<not> (\<exists>k\<in>seen. key i = Some k)"
    using Cons.prems(3) by linarith
  then show ?case
  proof cases
    case 1
    then show ?thesis by (simp only: pick_full fst_conv snd_conv) simp
  next
    case 2
    then obtain k where k: "k \<in> seen" "key i = Some k" by blast
    have none: "filter (\<lambda>j. key j = Some k) (fst (pick key words limits pending seen n w)) = []"
      using pick_seen [OF k(1)] by (auto simp: filter_empty_conv)
    have "pick key words limits (i # pending) seen n w =
        (fst (pick key words limits pending seen n w), i # snd (pick key words limits pending seen n w))"
      using 2(2) by (auto simp: Let_def split_def)
    then show ?thesis using Cons.IH [OF am Cons.prems(2,3), of seen] none k(2) by (cases "\<kappa> = Some k") auto
  next
    case 3
    have wi: "words i \<le> 384" "384 * fst limits \<le> snd limits" using Cons.prems(1) by (simp_all add: ample_def)
    have "384 * Suc n \<le> 384 * fst limits" using 3(1) by simp
    have fits: "w + words i \<le> 384 * Suc n" using wi(1) Cons.prems(2) by simp
    then have "w + words i \<le> snd limits" using wi(2) \<open>384 * Suc n \<le> _\<close> by linarith
    obtain A B where AB: "pick key words limits pending (seen \<union> set_option (key i)) (Suc n) (w + words i) = (A, B)"
      by force
    have "pick key words limits (i # pending) seen n w = (i # A, B)"
      using 3 \<open>w + words i \<le> snd limits\<close> by (auto simp: AB)
    moreover have "filter (\<lambda>i. key i = \<kappa>) A @ filter (\<lambda>i. key i = \<kappa>) B = filter (\<lambda>i. key i = \<kappa>) pending"
      using Cons.IH [OF am fits, of "seen \<union> set_option (key i)"] 3(1) by (simp add: AB)
    ultimately show ?thesis by (simp del: pick.simps)
  qed
qed

lemma waves_cases:
  assumes "fitting words limits pending" "pending \<noteq> []"
  obtains a where "pick key words limits pending {} 0 0 = (a, [])" "a \<noteq> []" "waves key words limits pending = [a]"
  | a d where "pick key words limits pending {} 0 0 = (a, d)" "a \<noteq> []" "d \<noteq> []" "fitting words limits d"
      "waves key words limits pending = a # waves key words limits d" "length d < length pending"
proof -
  obtain a d where ad: "pick key words limits pending {} 0 0 = (a, d)" by force
  have a: "a \<noteq> []" using pick_progress [OF assms, of key] by (simp add: ad)
  have len: "length a + length d = length pending" using pick_length [of key words limits pending "{}" 0 0] by (simp add: ad)
  have "0 < length a" using a by simp
  with len have "length d < length pending" by linarith
  moreover have "fitting words limits d" using pick_fitting [OF assms(1), of key "{}" 0 0] by (simp add: ad)
  moreover have "waves key words limits pending = (if d = [] then [a] else a # waves key words limits d)"
    using a by (subst waves_eq) (simp add: ad)
  ultimately show thesis using that a ad by (cases "d = []") auto
qed

lemma waves_induct [consumes 2, case_names last more]:
  assumes "fitting words limits pending" "pending \<noteq> []"
    and "\<And>pending a. fitting words limits pending \<Longrightarrow> pick key words limits pending {} 0 0 = (a, []) \<Longrightarrow> a \<noteq> [] \<Longrightarrow> P pending [a]"
    and "\<And>pending a d ws. fitting words limits pending \<Longrightarrow> pick key words limits pending {} 0 0 = (a, d) \<Longrightarrow> a \<noteq> [] \<Longrightarrow> P d ws \<Longrightarrow> P pending (a # ws)"
  shows "P pending (waves key words limits pending)"
  using assms(1,2)
proof (induction "length pending" arbitrary: pending rule: less_induct)
  case less
  from less.prems show ?case
  proof (cases rule: waves_cases [where key = key])
    case (1 a)
    then show ?thesis using assms(3) less.prems(1) by simp
  next
    case (2 a d)
    then show ?thesis using assms(4) [OF less.prems(1) 2(1,2)] less.hyps by simp
  qed
qed

lemma waves_mset:
  assumes "fitting words limits pending" "pending \<noteq> []"
  shows "mset (concat (waves key words limits pending)) = mset pending"
  using assms
proof (induction rule: waves_induct [where key = key])
  case (last pending a)
  then show ?case using pick_mset [of key words limits pending "{}" 0 0] by simp
next
  case (more pending a d ws)
  then show ?case using pick_mset [of key words limits pending "{}" 0 0] by simp
qed

lemma pick_start:
  "length (fst (pick key words limits pending {} 0 0)) \<le> fst limits"
  "sum_list (map words (fst (pick key words limits pending {} 0 0))) \<le> snd limits"
  "distinct_flows key (fst (pick key words limits pending {} 0 0))"
  using pick_bounds(1) [where n = 0 and w = 0 and seen = "{}" and limits = limits and key = key and words = words and pending = pending]
    pick_bounds(2) [where n = 0 and w = 0 and seen = "{}" and limits = limits and key = key and words = words and pending = pending]
  by (simp_all add: pick_distinct_flows)

lemma waves_each:
  assumes "fitting words limits pending" "pending \<noteq> []"
  shows "\<forall>w\<in>set (waves key words limits pending). w \<noteq> [] \<and> length w \<le> fst limits
    \<and> sum_list (map words w) \<le> snd limits \<and> distinct_flows key w"
  using assms
proof (induction rule: waves_induct [where key = key])
  case (last pending a)
  then show ?case using pick_start [where key = key and words = words and limits = limits and pending = pending] by simp
next
  case (more pending a d ws)
  then show ?case using pick_start [where key = key and words = words and limits = limits and pending = pending] by simp
qed

lemma waves_order:
  assumes "fitting words limits pending" "pending \<noteq> []" "ample words limits pending"
  shows "filter (\<lambda>i. key i = \<kappa>) (concat (waves key words limits pending)) = filter (\<lambda>i. key i = \<kappa>) pending"
proof -
  have "ample words limits pending \<longrightarrow>
      filter (\<lambda>i. key i = \<kappa>) (concat (waves key words limits pending)) = filter (\<lambda>i. key i = \<kappa>) pending"
    using assms(1,2)
  proof (induction rule: waves_induct [where key = key])
    case (last pending a)
    then show ?case using pick_order [of words limits pending 0 0 key \<kappa> "{}"] by simp
  next
    case (more pending a d ws)
    show ?case
    proof
      assume am: "ample words limits pending"
      then have "ample words limits d"
        using pick_set [of key words limits pending "{}" 0 0] more(2) by (auto simp: ample_def)
      then show "filter (\<lambda>i. key i = \<kappa>) (concat (a # ws)) = filter (\<lambda>i. key i = \<kappa>) pending"
        using more pick_order [OF am, of 0 0 key \<kappa> "{}"] by simp
    qed
  qed
  then show ?thesis using assms(3) by blast
qed

lemma words_of_wf: "\<forall>p\<in>set pkts. wf_packet p \<Longrightarrow> i < length pkts \<Longrightarrow> words_of pkts i \<le> 384"
  by (simp add: words_of_def wf_packet_def MAX_RAW_PACKET_BYTES_def div_ceil_4_le)

definition schedule_of :: "raw_packet list \<Rightarrow> nat \<times> nat \<Rightarrow> nat list list" where
  "schedule_of pkts limits = waves_of pkts limits [0..<length pkts]"

definition in_flow_order :: "raw_packet list \<Rightarrow> nat list list \<Rightarrow> bool" where
  "in_flow_order pkts ws \<longleftrightarrow> (\<forall>\<kappa>. filter (\<lambda>i. key_of pkts i = \<kappa>) (concat ws) = filter (\<lambda>i. key_of pkts i = \<kappa>) [0..<length pkts])"

definition proper_waves :: "raw_packet list \<Rightarrow> nat \<times> nat \<Rightarrow> nat list list \<Rightarrow> bool" where
  "proper_waves pkts limits ws \<longleftrightarrow> mset (concat ws) = mset [0..<length pkts]
     \<and> (\<forall>w\<in>set ws. w \<noteq> [] \<and> length w \<le> fst limits \<and> sum_list (map (words_of pkts) w) \<le> snd limits
          \<and> distinct_flows (key_of pkts) w)"

lemma schedule_fitting:
  "\<forall>p\<in>set pkts. wf_packet p \<Longrightarrow> 0 < fst limits \<Longrightarrow> 384 \<le> snd limits \<Longrightarrow>
     fitting (words_of pkts) limits [0..<length pkts]"
  by (auto simp: fitting_def intro: order.trans [OF words_of_wf])

lemma schedule_proper:
  assumes "\<forall>p\<in>set pkts. wf_packet p" "pkts \<noteq> []" "0 < fst limits" "384 \<le> snd limits"
  shows "proper_waves pkts limits (schedule_of pkts limits)"
proof -
  have fit: "fitting (words_of pkts) limits [0..<length pkts]" by (rule schedule_fitting [OF assms(1,3,4)])
  have ne: "[0..<length pkts] \<noteq> []" using assms(2) by simp
  show ?thesis unfolding proper_waves_def schedule_of_def
    by (rule conjI [OF waves_mset [OF fit ne] waves_each [OF fit ne]])
qed

lemma schedule_in_order:
  assumes "\<forall>p\<in>set pkts. wf_packet p" "pkts \<noteq> []" "0 < fst limits" "384 * fst limits \<le> snd limits"
  shows "in_flow_order pkts (schedule_of pkts limits)"
proof -
  have "384 \<le> snd limits" using assms(3,4) by linarith
  then have fit: "fitting (words_of pkts) limits [0..<length pkts]" by (rule schedule_fitting [OF assms(1,3)])
  have "ample (words_of pkts) limits [0..<length pkts]"
    using words_of_wf [OF assms(1)] assms(4) by (auto simp: ample_def)
  then show ?thesis using waves_order [OF fit] assms(2) by (simp add: in_flow_order_def schedule_of_def)
qed

text \<open>C26: the dispatch loop terminates and dispatches the batch in waves: every packet exactly once, no
  wave empty, over the batch limit, over the word budget or with two packets of one connection, and, when
  the word budget holds a full wave of maximal packets, the packets of each connection in batch order.\<close>

theorem batch_dispatched_in_waves:
  assumes "fs_ready seen" "pkts \<noteq> []" "length pkts \<le> FS_LIMIT" "\<forall>p\<in>set pkts. wf_packet p"
    "0 < max_batch" "384 \<le> max_words"
  shows "\<exists>ws seen'. fs_ready seen'
    \<and> run_waves pkts (max_batch, max_words) dispatch d seen =
        map_option (\<lambda>(d', r). (seen', d', r)) (dispatch_all dispatch d ws)
    \<and> proper_waves pkts (max_batch, max_words) ws
    \<and> (384 * max_batch \<le> max_words \<longrightarrow> in_flow_order pkts ws)"
proof -
  let ?l = "(max_batch, max_words)"
  have "fitting (words_of pkts) ?l [0..<length pkts]" using schedule_fitting [OF assms(4), of ?l] assms(5,6) by simp
  from run_waves_schedule [OF assms(1-3) this, of dispatch d]
  obtain seen' where "fs_ready seen'" "run_waves pkts ?l dispatch d seen =
      map_option (\<lambda>(d', r). (seen', d', r)) (dispatch_all dispatch d (schedule_of pkts ?l))"
    unfolding schedule_of_def by (elim exE conjE)
  then show ?thesis using schedule_proper [OF assms(4,2)] schedule_in_order [OF assms(4,2)] assms(5,6)
    by (intro exI [of _ "schedule_of pkts (max_batch, max_words)"] exI [of _ seen']) simp
qed

theorem batch_dispatched_in_waves_witness:
  "\<exists>ws seen'. fs_ready seen'
    \<and> run_waves [RawPacket [1], RawPacket [2]] (1, 384) (\<lambda>d w. Some (d @ w, Inr ())) [] flow_set_default =
        map_option (\<lambda>(d', r). (seen', d', r)) (dispatch_all (\<lambda>d w. Some (d @ w, Inr ())) [] ws)
    \<and> proper_waves [RawPacket [1], RawPacket [2]] (1, 384) ws
    \<and> (384 * 1 \<le> (384 :: nat) \<longrightarrow> in_flow_order [RawPacket [1], RawPacket [2]] ws)"
  by (rule batch_dispatched_in_waves [OF fs_ready_default])
    (simp_all add: FS_LIMIT_def wf_packet_def MAX_RAW_PACKET_BYTES_def)

section \<open>A tight word budget\<close>

definition overtaking_batch :: "raw_packet list" where
  "overtaking_batch = map (\<lambda>(port, n). RawPacket (built \<lparr>
     s_key = \<lparr>src_ip = 1, dst_ip = 2, src_port = port, dst_port = 8080\<rparr>, s_seq = 0, s_ack = 0, s_flags = TCP_ACK,
     s_payload = replicate n 0\<rparr>)) [(5, 60), (6, 1496), (6, 0)]"

lemma key_of_built:
  assumes "40 + length (s_payload spec) \<le> MAX_RAW_PACKET_BYTES"
  shows "scheduling_flow_key (RawPacket (built spec)) = Some (Some (s_key spec))"
  using parse_scheduling_agree [OF parse_built [OF assms]] by (simp add: view_of_spec_def)

lemma built_not_Nil [simp]: "built spec \<noteq> []"
  using length_built [of spec] by (metis add_is_0 length_0_conv zero_neq_numeral)

lemma overtaking_keys:
  "key_of overtaking_batch 0 = Some \<lparr>src_ip = 1, dst_ip = 2, src_port = 5, dst_port = 8080\<rparr>"
  "key_of overtaking_batch (Suc 0) = Some \<lparr>src_ip = 1, dst_ip = 2, src_port = 6, dst_port = 8080\<rparr>"
  "key_of overtaking_batch 2 = Some \<lparr>src_ip = 1, dst_ip = 2, src_port = 6, dst_port = 8080\<rparr>"
  by (simp_all add: key_of_def overtaking_batch_def key_of_built MAX_RAW_PACKET_BYTES_def)

lemma overtaking_words:
  "words_of overtaking_batch 0 = 25" "words_of overtaking_batch (Suc 0) = 384" "words_of overtaking_batch 2 = 10"
  by (simp_all add: words_of_def overtaking_batch_def div_ceil_def)

lemma overtaking_schedule: "schedule_of overtaking_batch (4, 400) = [[0, 2], [1]]"
proof -
  have r: "[0..<length overtaking_batch] = [0, Suc 0, 2]" by (simp add: overtaking_batch_def upt_rec)
  show ?thesis unfolding schedule_of_def r
    by (subst waves_eq, simp add: overtaking_keys overtaking_words)
      (subst waves_eq, simp add: overtaking_keys overtaking_words)
qed

text \<open>C40: when the adapter's binding limit makes the input buffer smaller than a full wave of maximal
  packets, a packet deferred for lack of words does not hold back its connection. In this batch of valid
  packets the short packet 2 is dispatched before packet 1 of the same connection.\<close>

theorem tight_budget_overtakes:
  "\<exists>seen'. run_waves overtaking_batch (4, 400) (\<lambda>d w. Some (d @ [w], Inr ())) [] flow_set_default
      = Some (seen', [[0, 2], [1]], Inr ())
    \<and> key_of overtaking_batch 1 = key_of overtaking_batch 2 \<and> key_of overtaking_batch 1 \<noteq> None
    \<and> list_all wf_packet overtaking_batch"
proof -
  have wf: "\<forall>p\<in>set overtaking_batch. wf_packet p"
    by (simp add: overtaking_batch_def wf_packet_def MAX_RAW_PACKET_BYTES_def)
  have ne: "overtaking_batch \<noteq> []" "length overtaking_batch \<le> FS_LIMIT"
    by (simp_all add: overtaking_batch_def FS_LIMIT_def)
  have "fitting (words_of overtaking_batch) (4, 400) [0..<length overtaking_batch]" using schedule_fitting [OF wf] by simp
  from run_waves_schedule [OF fs_ready_default ne this, of "\<lambda>d w. Some (d @ [w], Inr ())" "[]"]
  show ?thesis using wf overtaking_keys by (auto simp: list_all_iff schedule_of_def [symmetric] overtaking_schedule)
qed

end
