(* ===== verification/Packing.thy ===== *)
theory Packing
  imports WireProofs EngineConfig
begin

text \<open>
  The memory layout of one GPU dispatch (\<open>src/packet/mod.rs\<close>): \<open>prepare_wave_metadata\<close> and
  \<open>pack_wave_bytes\<close> lay the packets of a wave out in the input buffer, \<open>emit_wave_outputs\<close>
  reads the response slots back and hands them to the sink. Buffers of words are little-endian
  byte strings (\<open>bytemuck::cast_slice\<close> on the supported targets).
\<close>

section \<open>Words and bytes\<close>

definition u32_to_le :: "u32 \<Rightarrow> bytes" where
  "u32_to_le w = [ucast w, ucast (drop_bit 8 w), ucast (drop_bit 16 w), ucast (drop_bit 24 w)]"

definition words_to_bytes :: "u32 list \<Rightarrow> bytes" where
  "words_to_bytes ws = concat (map u32_to_le ws)"

lemma length_words_to_bytes [simp]: "length (words_to_bytes ws) = 4 * length ws"
  by (induction ws) (simp_all add: words_to_bytes_def u32_to_le_def)

text \<open>\<open>pack_bytes\<close>: each byte is or-ed into its word.\<close>

fun pack_bytes_loop :: "bytes \<Rightarrow> nat \<Rightarrow> u32 list \<Rightarrow> u32 list option" where
  "pack_bytes_loop [] i words = Some words"
| "pack_bytes_loop (b # bs) i words = do {
     w \<leftarrow> index words (i div 4);
     words' \<leftarrow> set_at words (i div 4) (w OR push_bit ((i mod 4) * 8) (ucast b));
     pack_bytes_loop bs (i + 1) words' }"

definition pack_bytes :: "bytes \<Rightarrow> u32 list option" where
  "pack_bytes bs = pack_bytes_loop bs 0 (replicate (div_ceil (length bs) 4) 0)"

section \<open>The input buffer\<close>

record packet_meta =
  pm_len :: u32
  pm_word_offset :: u32

definition u32_try_from :: "nat \<Rightarrow> packet_error + u32" where
  "u32_try_from n = (if n \<le> U32_MAX then Inr (of_nat n) else Inl LengthDoesNotFitU32)"

fun prepare_loop :: "raw_packet list \<Rightarrow> nat list \<Rightarrow> packet_meta list \<Rightarrow> nat
    \<Rightarrow> (packet_error + packet_meta list \<times> nat) option" where
  "prepare_loop pkts [] metadata word_count = Some (Inr (metadata, word_count))"
| "prepare_loop pkts (i # wave) metadata word_count = do {
     packet \<leftarrow> index pkts i;
     let packet_words = div_ceil (length (as_bytes packet)) 4;
     case checked_add_usize word_count packet_words of
       None \<Rightarrow> Some (Inl InputWordCountOverflow)
     | Some word_count' \<Rightarrow>
         (case u32_try_from (length (as_bytes packet)) of
            Inl e \<Rightarrow> Some (Inl e)
          | Inr len \<Rightarrow>
              (case u32_try_from word_count of
                 Inl e \<Rightarrow> Some (Inl e)
               | Inr offset \<Rightarrow> prepare_loop pkts wave (metadata @ [\<lparr>pm_len = len, pm_word_offset = offset\<rparr>]) word_count')) }"

definition prepare_wave_metadata :: "raw_packet list \<Rightarrow> nat list \<Rightarrow> (packet_error + packet_meta list \<times> nat) option" where
  "prepare_wave_metadata pkts wave = prepare_loop pkts wave [] 0"

fun pack_wave_loop :: "raw_packet list \<Rightarrow> (nat \<times> packet_meta) list \<Rightarrow> bytes \<Rightarrow> bytes option" where
  "pack_wave_loop pkts [] destination = Some destination"
| "pack_wave_loop pkts ((i, meta) # rest) destination = do {
     packet \<leftarrow> index pkts i;
     destination' \<leftarrow> copy_into destination (unat (pm_word_offset meta) * 4) (as_bytes packet);
     pack_wave_loop pkts rest destination' }"

definition pack_wave_bytes :: "raw_packet list \<Rightarrow> nat list \<Rightarrow> packet_meta list \<Rightarrow> bytes \<Rightarrow> bytes option" where
  "pack_wave_bytes pkts wave metadata destination =
     pack_wave_loop pkts (zip wave metadata) (replicate (length destination) 0)"

section \<open>The output slots\<close>

definition assign_packet_bytes :: "raw_packet option \<Rightarrow> bytes \<Rightarrow> packet_error + raw_packet option" where
  "assign_packet_bytes slot bs =
     (if bs = [] \<or> \<not> length bs \<le> MAX_RAW_PACKET_BYTES then Inl (OutputLengthOutOfBounds (length bs))
      else (case slot of
              Some packet \<Rightarrow> (case replace_from_slice packet bs of Inl e \<Rightarrow> Inl e | Inr p \<Rightarrow> Inr (Some p))
            | None \<Rightarrow> (case copy_from_slice bs of Inl e \<Rightarrow> Inl e | Inr p \<Rightarrow> Inr (Some p))))"

fun emit_loop :: "bytes \<Rightarrow> nat \<Rightarrow> 's sink \<Rightarrow> 's \<Rightarrow> nat \<Rightarrow> (u32 \<times> nat) list \<Rightarrow> ('s \<times> (packet_error + unit)) option" where
  "emit_loop bs stride sink s i [] = Some (s, Inr ())"
| "emit_loop bs stride sink s i ((len, source) # rest) =
     (let len = unat len in
      if len = 0 then do {
        (s', r) \<leftarrow> sink s source None;
        case r of Inl e \<Rightarrow> Some (s', Inl e) | Inr _ \<Rightarrow> emit_loop bs stride sink s' (i + 1) rest }
      else if \<not> len \<le> stride then Some (s, Inl (OutsideResponseSlot len))
      else do {
        packet \<leftarrow> slice bs (i * stride) (i * stride + len);
        (s', r) \<leftarrow> sink s source (Some packet);
        case r of Inl e \<Rightarrow> Some (s', Inl e) | Inr _ \<Rightarrow> emit_loop bs stride sink s' (i + 1) rest })"

definition emit_wave_outputs :: "u32 list \<Rightarrow> u32 list \<Rightarrow> nat list \<Rightarrow> nat \<Rightarrow> 's sink \<Rightarrow> 's \<Rightarrow> ('s \<times> (packet_error + unit)) option" where
  "emit_wave_outputs metadata words wave output_stride_words sink s =
     emit_loop (words_to_bytes words) (output_stride_words * 4) sink s 0 (zip metadata wave)"

section \<open>The layout of a wave\<close>

definition packet_words :: "raw_packet \<Rightarrow> nat" where
  "packet_words p = div_ceil (length (as_bytes p)) 4"

definition pad_words :: "bytes \<Rightarrow> bytes" where
  "pad_words bs = bs @ replicate (4 * div_ceil (length bs) 4 - length bs) 0"

definition layout_bytes :: "raw_packet list \<Rightarrow> bytes" where
  "layout_bytes ps = concat (map (\<lambda>p. pad_words (as_bytes p)) ps)"

fun layout_metas :: "nat \<Rightarrow> raw_packet list \<Rightarrow> packet_meta list" where
  "layout_metas off [] = []"
| "layout_metas off (p # ps) =
     \<lparr>pm_len = of_nat (length (as_bytes p)), pm_word_offset = of_nat off\<rparr> # layout_metas (off + packet_words p) ps"

definition total_words :: "raw_packet list \<Rightarrow> nat" where
  "total_words ps = sum_list (map packet_words ps)"

lemma length_pad_words [simp]: "length (pad_words bs) = 4 * div_ceil (length bs) 4"
  using div_ceil_4_bound [of bs] by (simp add: pad_words_def)

lemma length_layout_bytes: "length (layout_bytes ps) = 4 * total_words ps"
  by (induction ps) (simp_all add: layout_bytes_def total_words_def packet_words_def)

lemma length_layout_metas [simp]: "length (layout_metas off ps) = length ps"
  by (induction off ps rule: layout_metas.induct) simp_all

declare unat_of_nat_u32 [simp]

lemma prepare_loop_closed:
  assumes "\<forall>i\<in>set wave. i < length pkts \<and> length (as_bytes (pkts ! i)) \<le> U32_MAX"
    "off + total_words (map ((!) pkts) wave) \<le> U32_MAX"
  shows "prepare_loop pkts wave metadata off =
    Some (Inr (metadata @ layout_metas off (map ((!) pkts) wave), off + total_words (map ((!) pkts) wave)))"
  using assms
proof (induction wave arbitrary: metadata off)
  case Nil
  then show ?case by (simp add: total_words_def)
next
  case (Cons i wave)
  have i: "index pkts i = Some (pkts ! i)" and len: "length (as_bytes (pkts ! i)) \<le> U32_MAX"
    using Cons.prems(1) by (simp_all add: index_def)
  have tot: "off + packet_words (pkts ! i) + total_words (map ((!) pkts) wave) \<le> U32_MAX"
    using Cons.prems(2) by (simp add: total_words_def)
  then have "off + packet_words (pkts ! i) \<le> USIZE_MAX" "off \<le> U32_MAX" by (simp_all add: U32_MAX_def USIZE_MAX_def)
  then show ?case using Cons.IH [OF _ tot] Cons.prems(1) len
    by (simp add: i packet_words_def checked_add_usize_def u32_try_from_def total_words_def Let_def)
qed

lemma pack_wave_loop_closed:
  assumes "\<forall>i\<in>set wave. i < length pkts" "4 * off = length done"
    "off + total_words (map ((!) pkts) wave) \<le> U32_MAX"
  shows "pack_wave_loop pkts (zip wave (layout_metas off (map ((!) pkts) wave)))
      (done @ replicate (4 * total_words (map ((!) pkts) wave)) 0) = Some (done @ layout_bytes (map ((!) pkts) wave))"
  using assms
proof (induction wave arbitrary: off "done")
  case Nil
  then show ?case by (simp add: total_words_def layout_bytes_def)
next
  case (Cons i wave)
  let ?p = "pkts ! i"
  let ?rest = "map ((!) pkts) wave"
  have i: "index pkts i = Some ?p" using Cons.prems(1) by (simp add: index_def)
  have tot: "off + packet_words ?p + total_words ?rest \<le> U32_MAX" using Cons.prems(3) by (simp add: total_words_def)
  then have off: "unat (of_nat off :: u32) = off"
    by (intro unat_of_nat_u32) simp
  have fill: "4 * total_words (?p # ?rest) = length (as_bytes ?p)
      + (4 * packet_words ?p - length (as_bytes ?p)) + 4 * total_words ?rest"
    using div_ceil_4_bound [of "as_bytes ?p"] by (simp add: total_words_def packet_words_def)
  have copy: "copy_into (done @ replicate (4 * total_words (?p # ?rest)) 0) (off * 4) (as_bytes ?p) =
      Some ((done @ pad_words (as_bytes ?p)) @ replicate (4 * total_words ?rest) 0)"
    unfolding fill using Cons.prems(2)
    by (simp add: copy_into_def pad_words_def packet_words_def replicate_add mult.commute)
  have "pack_wave_loop pkts (zip wave (layout_metas (off + packet_words ?p) ?rest))
      ((done @ pad_words (as_bytes ?p)) @ replicate (4 * total_words ?rest) 0) =
    Some ((done @ pad_words (as_bytes ?p)) @ layout_bytes ?rest)"
    using Cons.prems(1,2) tot by (intro Cons.IH) (simp_all add: packet_words_def)
  then show ?case using copy by (simp add: i off layout_bytes_def)
qed

text \<open>Reading a packet back at its metadata.\<close>

definition read_packet :: "bytes \<Rightarrow> packet_meta \<Rightarrow> bytes" where
  "read_packet input m = take (unat (pm_len m)) (drop (4 * unat (pm_word_offset m)) input)"

lemma read_layout:
  assumes "off + total_words ps \<le> U32_MAX" "\<forall>p\<in>set ps. length (as_bytes p) \<le> U32_MAX" "length pre = 4 * off"
  shows "map (read_packet (pre @ layout_bytes ps)) (layout_metas off ps) = map as_bytes ps"
  using assms
proof (induction off ps arbitrary: pre rule: layout_metas.induct)
  case (1 off)
  then show ?case by simp
next
  case (2 off p ps)
  have tot: "off + packet_words p + total_words ps \<le> U32_MAX" using 2(2) by (simp add: total_words_def)
  then have off: "unat (of_nat off :: u32) = off" by (intro unat_of_nat_u32) simp
  have len: "unat (of_nat (length (as_bytes p)) :: u32) = length (as_bytes p)"
    using 2(3) by (intro unat_of_nat_u32) simp
  have "map (read_packet ((pre @ pad_words (as_bytes p)) @ layout_bytes ps)) (layout_metas (off + packet_words p) ps) = map as_bytes ps"
    using 2(3,4) tot by (intro 2(1)) (simp_all add: packet_words_def)
  moreover have "(pre @ pad_words (as_bytes p)) @ layout_bytes ps = pre @ layout_bytes (p # ps)"
    by (simp add: layout_bytes_def)
  moreover have "read_packet (pre @ layout_bytes (p # ps)) \<lparr>pm_len = of_nat (length (as_bytes p)), pm_word_offset = of_nat off\<rparr> = as_bytes p"
    using 2(4) by (simp add: read_packet_def off len layout_bytes_def pad_words_def)
  ultimately show ?case by (simp only: layout_metas.simps list.map)
qed

section \<open>Reading the slots\<close>

text \<open>\<open>slot_holds\<close>: slot \<open>j\<close> of the output buffer holds the answer \<open>out\<close>.\<close>

definition slot_holds :: "u32 list \<Rightarrow> u32 list \<Rightarrow> nat \<Rightarrow> nat \<Rightarrow> raw_packet option \<Rightarrow> bool" where
  "slot_holds metadata words stride_words j out \<longleftrightarrow>
     (case out of
        None \<Rightarrow> metadata ! j = 0
      | Some q \<Rightarrow> wf_packet q \<and> unat (metadata ! j) = length (as_bytes q) \<and> length (as_bytes q) \<le> 4 * stride_words
          \<and> take (length (as_bytes q)) (drop (4 * stride_words * j) (words_to_bytes words)) = as_bytes q)"

definition output_holds :: "u32 list \<Rightarrow> u32 list \<Rightarrow> nat \<Rightarrow> raw_packet option list \<Rightarrow> bool" where
  "output_holds metadata words stride_words outs \<longleftrightarrow> length metadata = length outs
     \<and> length words = length outs * stride_words
     \<and> (\<forall>j<length outs. slot_holds metadata words stride_words j (outs ! j))"

fun send_all :: "'s sink \<Rightarrow> 's \<Rightarrow> (nat \<times> raw_packet option) list \<Rightarrow> ('s \<times> (packet_error + unit)) option" where
  "send_all sink s [] = Some (s, Inr ())"
| "send_all sink s ((i, out) # rest) = do {
     (s', r) \<leftarrow> sink s i (map_option as_bytes out);
     case r of Inl e \<Rightarrow> Some (s', Inl e) | Inr _ \<Rightarrow> send_all sink s' rest }"

lemma emit_loop_sends:
  assumes "length metadata = length outs" "length wave = length outs"
    "\<forall>j<length outs. slot_holds (pre @ metadata) words stride_words (length pre + j) (outs ! j)"
    "length words = (length pre + length outs) * stride_words"
  shows "emit_loop (words_to_bytes words) (stride_words * 4) sink s (length pre) (zip metadata wave) = send_all sink s (zip wave outs)"
  using assms
proof (induction outs arbitrary: metadata wave pre s)
  case Nil
  then show ?case by simp
next
  case (Cons out outs)
  obtain m metas i wave' where m: "metadata = m # metas" and w: "wave = i # wave'"
    using Cons.prems(1,2) by (cases metadata; cases wave) auto
  have here: "slot_holds (pre @ m # metas) words stride_words (length pre) out" using Cons.prems(3) m by auto
  have "\<forall>j<length outs. slot_holds ((pre @ [m]) @ metas) words stride_words (length (pre @ [m]) + j) (outs ! j)"
    using Cons.prems(3) m by force
  then have IH: "emit_loop (words_to_bytes words) (stride_words * 4) sink s' (Suc (length pre)) (zip metas wave') =
      send_all sink s' (zip wave' outs)" for s'
    using Cons.IH [of metas wave' "pre @ [m]" s'] Cons.prems m w by simp
  show ?case
  proof (cases out)
    case None
    then show ?thesis using here IH by (simp add: m w slot_holds_def)
  next
    case (Some q)
    let ?n = "length (as_bytes q)"
    have q: "wf_packet q" "unat m = ?n" "?n \<le> 4 * stride_words"
      "take ?n (drop (4 * stride_words * length pre) (words_to_bytes words)) = as_bytes q"
      using here Some by (simp_all add: slot_holds_def)
    have "0 < ?n" using q(1) by (simp add: wf_packet_def)
    moreover have "length pre * (stride_words * 4) + ?n \<le> 4 * length words"
      using q(3) Cons.prems(4) by (simp add: algebra_simps)
    then have "slice (words_to_bytes words) (length pre * (stride_words * 4)) (length pre * (stride_words * 4) + ?n) = Some (as_bytes q)"
      using q(4) by (simp add: slice_def mult.commute mult.left_commute)
    ultimately show ?thesis using IH q(2,3) by (simp add: m w Some Let_def mult.commute)
  qed
qed

lemma emit_wave_outputs_sends:
  assumes "output_holds metadata words stride_words outs" "length wave = length outs"
  shows "emit_wave_outputs metadata words wave stride_words sink s = send_all sink s (zip wave outs)"
  using emit_loop_sends [of metadata outs wave "[]" words stride_words sink s] assms
  by (simp add: emit_wave_outputs_def output_holds_def)

text \<open>The input buffer of a wave. For packets that fit a \<open>u32\<close> word count, \<open>prepare_wave_metadata\<close>
  and \<open>pack_wave_bytes\<close> succeed without panic, fill the upload exactly, and the kernel that reads
  \<open>len\<close> bytes at each \<open>word_offset\<close> gets back every packet of the wave, byte for byte.\<close>

theorem wave_input_roundtrip:
  assumes "\<forall>i\<in>set wave. i < length pkts \<and> wf_packet (pkts ! i)" "total_words (map ((!) pkts) wave) \<le> U32_MAX"
  shows "\<exists>metas n input. prepare_wave_metadata pkts wave = Some (Inr (metas, n))
    \<and> pack_wave_bytes pkts wave metas (replicate (4 * n) 0) = Some input \<and> length input = 4 * n
    \<and> map (read_packet input) metas = map (\<lambda>i. as_bytes (pkts ! i)) wave"
proof -
  let ?ps = "map ((!) pkts) wave"
  have len: "\<forall>i\<in>set wave. i < length pkts \<and> length (as_bytes (pkts ! i)) \<le> U32_MAX"
    using assms(1) by (auto simp: wf_packet_def MAX_RAW_PACKET_BYTES_def U32_MAX_def)
  have "prepare_wave_metadata pkts wave = Some (Inr (layout_metas 0 ?ps, total_words ?ps))"
    using prepare_loop_closed [of wave pkts 0 "[]"] len assms(2) by (simp add: prepare_wave_metadata_def)
  moreover have "pack_wave_bytes pkts wave (layout_metas 0 ?ps) (replicate (4 * total_words ?ps) 0) = Some (layout_bytes ?ps)"
    using pack_wave_loop_closed [of wave pkts 0 "[]"] len assms(2) by (simp add: pack_wave_bytes_def)
  moreover have "map (read_packet (layout_bytes ?ps)) (layout_metas 0 ?ps) = map as_bytes ?ps"
    using read_layout [of 0 ?ps "[]"] len assms(2) by auto
  ultimately show ?thesis by (auto simp: length_layout_bytes comp_def)
qed

theorem wave_input_roundtrip_witness:
  "\<exists>metas n input. prepare_wave_metadata [RawPacket [1], RawPacket [2, 3, 4, 5, 6]] [1, 0] = Some (Inr (metas, n))
    \<and> pack_wave_bytes [RawPacket [1], RawPacket [2, 3, 4, 5, 6]] [1, 0] metas (replicate (4 * n) 0) = Some input
    \<and> length input = 4 * n
    \<and> map (read_packet input) metas = map (\<lambda>i. as_bytes ([RawPacket [1], RawPacket [2, 3, 4, 5, 6]] ! i)) [1, 0]"
  by (rule wave_input_roundtrip)
    (simp_all add: wf_packet_def MAX_RAW_PACKET_BYTES_def total_words_def packet_words_def div_ceil_def U32_MAX_def)

section \<open>\<open>pack_bytes\<close>\<close>

lemma le_byte:
  fixes w :: u32 and b :: u8
  assumes "r < 4" "u32_to_le w ! r = 0"
  shows "u32_to_le (w OR push_bit (r * 8) (ucast b)) = (u32_to_le w)[r := b]"
proof -
  consider "r = 0" | "r = Suc 0" | "r = Suc (Suc 0)" | "r = Suc (Suc (Suc 0))" using assms(1) by linarith
  then show ?thesis
  proof cases
    case 1
    have z: "\<forall>n<8. \<not> bit w n"
      using assms(2) unfolding 1 by (simp add: u32_to_le_def bit_eq_iff [where 'a = "8 word"] bit_simps)
    show ?thesis unfolding 1 using z
      by (auto simp: u32_to_le_def bit_eq_iff [where 'a = "8 word"] bit_simps dest: bit_imp_le_length)
  next
  case 2
    have z: "\<forall>n<8. \<not> bit w (8 + n)"
      using assms(2) unfolding 2 by (simp add: u32_to_le_def bit_eq_iff [where 'a = "8 word"] bit_simps)
    show ?thesis unfolding 2 using z
      by (auto simp: u32_to_le_def bit_eq_iff [where 'a = "8 word"] bit_simps dest: bit_imp_le_length)
  next
  case 3
    have z: "\<forall>n<8. \<not> bit w (16 + n)"
      using assms(2) unfolding 3 by (simp add: u32_to_le_def bit_eq_iff [where 'a = "8 word"] bit_simps)
    show ?thesis unfolding 3 using z
      by (auto simp: u32_to_le_def bit_eq_iff [where 'a = "8 word"] bit_simps dest: bit_imp_le_length)
  next
  case 4
    have z: "\<forall>n<8. \<not> bit w (24 + n)"
      using assms(2) unfolding 4 by (simp add: u32_to_le_def bit_eq_iff [where 'a = "8 word"] bit_simps)
    show ?thesis unfolding 4 using z
      by (auto simp: u32_to_le_def bit_eq_iff [where 'a = "8 word"] bit_simps dest: bit_imp_le_length)
  qed
qed

lemma length_u32_to_le [simp]: "length (u32_to_le w) = 4"
  by (simp add: u32_to_le_def)

lemma words_to_bytes_nth:
  "j < length ws \<Longrightarrow> r < 4 \<Longrightarrow> words_to_bytes ws ! (4 * j + r) = u32_to_le (ws ! j) ! r"
proof (induction ws arbitrary: j)
  case (Cons w ws)
  have split: "words_to_bytes (w # ws) = u32_to_le w @ words_to_bytes ws" by (simp add: words_to_bytes_def)
  show ?case
  proof (cases j)
    case 0
    then show ?thesis using Cons.prems(2) unfolding split by (simp add: nth_append)
  next
    case (Suc k)
    then show ?thesis using Cons unfolding split by (simp add: nth_append)
  qed
qed simp

lemma words_to_bytes_update:
  assumes "j < length ws" "r < 4" "u32_to_le w' = (u32_to_le (ws ! j))[r := b]"
  shows "words_to_bytes (ws[j := w']) = (words_to_bytes ws)[4 * j + r := b]"
proof (rule nth_equalityI)
  fix i assume "i < length (words_to_bytes (ws[j := w']))"
  then have i: "i < 4 * length ws" by simp
  define k s where "k = i div 4" and "s = i mod 4"
  have ks: "i = 4 * k + s" "s < 4" "k < length ws" using i by (auto simp: k_def s_def)
  have "(4 * j + r = 4 * k + s) \<longleftrightarrow> j = k \<and> r = s" using assms(2) ks(2) by presburger
  moreover have "4 * j + r < 4 * length ws" using assms(1,2) by linarith
  ultimately show "words_to_bytes (ws[j := w']) ! i = (words_to_bytes ws)[4 * j + r := b] ! i"
    using assms ks by (auto simp: words_to_bytes_nth nth_list_update)
qed simp

lemma pack_bytes_loop_closed:
  assumes "words_to_bytes ws = pre @ replicate n 0" "length bs \<le> n"
  shows "\<exists>ws'. pack_bytes_loop bs (length pre) ws = Some ws' \<and> length ws' = length ws
    \<and> words_to_bytes ws' = pre @ bs @ replicate (n - length bs) 0"
  using assms
proof (induction bs arbitrary: ws pre n)
  case Nil
  then show ?case by simp
next
  case (Cons b bs)
  let ?j = "length pre div 4" and ?r = "length pre mod 4"
  obtain m where n: "n = Suc m" using Cons.prems(2) by (cases n) auto
  have "4 * length ws = length pre + n" using arg_cong [OF Cons.prems(1), of length] by simp
  then have j: "?j < length ws" using n by linarith
  let ?w = "ws ! ?j OR push_bit (?r * 8) (ucast b)"
  have pos: "4 * ?j + ?r = length pre" by simp
  have "words_to_bytes ws ! (4 * ?j + ?r) = u32_to_le (ws ! ?j) ! ?r" using j by (intro words_to_bytes_nth) simp_all
  then have zero: "u32_to_le (ws ! ?j) ! ?r = 0" unfolding pos Cons.prems(1) n by (simp add: nth_append)
  have "words_to_bytes (ws[?j := ?w]) = (words_to_bytes ws)[4 * ?j + ?r := b]"
    using j le_byte [OF _ zero, of b] by (intro words_to_bytes_update) simp_all
  then have upd: "words_to_bytes (ws[?j := ?w]) = (pre @ [b]) @ replicate m 0"
    unfolding pos Cons.prems(1) n by (simp add: list_update_append)
  have step: "pack_bytes_loop (b # bs) (length pre) ws = pack_bytes_loop bs (length (pre @ [b])) (ws[?j := ?w])"
    using j by (simp add: index_def set_at_list_update)
  from Cons.IH [OF upd] Cons.prems(2) n show ?case unfolding step by simp
qed

lemma pack_bytes_closed:
  "\<exists>ws. pack_bytes bs = Some ws \<and> length ws = div_ceil (length bs) 4 \<and> words_to_bytes ws = pad_words bs"
proof -
  have z: "words_to_bytes (replicate m 0) = [] @ replicate (4 * m) 0" for m
    by (induction m) (simp_all add: words_to_bytes_def u32_to_le_def eval_nat_numeral)
  from pack_bytes_loop_closed [OF z div_ceil_4_bound] show ?thesis by (simp add: pack_bytes_def pad_words_def)
qed

text \<open>\<open>pack_bytes\<close> (which builds the shader's response table) never panics and is the little-endian
  packing: \<open>ceil(n / 4)\<close> words whose bytes are the input, padded with zeros.\<close>

theorem pack_bytes_little_endian:
  "\<exists>ws. pack_bytes bs = Some ws \<and> length ws = div_ceil (length bs) 4
    \<and> words_to_bytes ws = bs @ replicate (4 * div_ceil (length bs) 4 - length bs) 0"
  using pack_bytes_closed by (simp add: pad_words_def)

end
