(* ===== verification/GpuEngine.thy ===== *)
theory GpuEngine
  imports Scheduler Packing
begin

text \<open>
  \<open>GpuPacketEngine\<close> of \<open>src/packet/mod.rs\<close>: buffer sizing, one dispatch, the batch entry points.
  What the engine does with the device is the record \<open>gpu_device\<close>, and the locale \<open>packet_device\<close>
  what it relies on; \<open>PacketDevice\<close> provides both. Durations are not modelled.
\<close>

section \<open>Buffer sizes\<close>

definition INPUT_PACKET_WORDS :: nat where "INPUT_PACKET_WORDS = div_ceil MAX_RAW_PACKET_BYTES 4"
definition FLOW_WORDS :: nat where "FLOW_WORDS = 16"

datatype sizing_error = SizeOverflow string | AboveBindingLimit string nat | AboveBufferLimit string nat

record gpu_sizes =
  input_meta_bytes :: nat
  input_words_bytes :: nat
  input_word_capacity :: nat
  output_stride_words :: nat
  output_bytes :: nat
  flow_bytes :: nat

definition or_overflow :: "string \<Rightarrow> nat option \<Rightarrow> (nat \<Rightarrow> sizing_error + 'a) \<Rightarrow> sizing_error + 'a" where
  "or_overflow what n k = (case n of None \<Rightarrow> Inl (SizeOverflow what) | Some n \<Rightarrow> k n)"

definition packet_buffer_sizes :: "packet_engine_config \<Rightarrow> nat \<Rightarrow> nat \<Rightarrow> sizing_error + gpu_sizes" where
  "packet_buffer_sizes config max_storage_binding_bytes max_buffer_bytes =
     or_overflow ''packet input metadata buffer size overflow'' (checked_mul_usize (max_batch_size config) 8) (\<lambda>input_meta_bytes.
     or_overflow ''packet output metadata buffer size overflow'' (checked_mul_usize (max_batch_size config) 4) (\<lambda>output_meta_bytes.
     or_overflow ''packet input buffer size overflow''
       (Option.bind (checked_mul_usize (max_batch_size config) INPUT_PACKET_WORDS) (\<lambda>words. checked_mul_usize words 4))
       (\<lambda>requested_input_words_bytes.
     let input_words_bytes = min requested_input_words_bytes max_storage_binding_bytes;
         input_word_capacity = input_words_bytes div 4;
         output_stride_words = div_ceil max_response_packet_bytes 4
     in or_overflow ''packet output buffer size overflow''
       (Option.bind (checked_mul_usize (max_batch_size config) output_stride_words) (\<lambda>words. checked_mul_usize words 4))
       (\<lambda>output_words_bytes.
     or_overflow ''combined packet output size overflow'' (checked_add_usize output_meta_bytes output_words_bytes) (\<lambda>output_bytes.
     or_overflow ''flow word count overflow'' (checked_mul_usize (flow_capacity config) FLOW_WORDS) (\<lambda>flow_words.
     or_overflow ''flow buffer size overflow'' (checked_mul_usize flow_words 4) (\<lambda>flow_bytes.
     if \<not> input_meta_bytes \<le> max_storage_binding_bytes then Inl (AboveBindingLimit ''packet input metadata'' input_meta_bytes)
     else if \<not> output_bytes \<le> max_storage_binding_bytes then Inl (AboveBindingLimit ''packet output'' output_bytes)
     else if \<not> flow_bytes \<le> max_storage_binding_bytes then Inl (AboveBindingLimit ''flow state'' flow_bytes)
     else if \<not> output_bytes \<le> max_buffer_bytes then Inl (AboveBufferLimit ''packet readback'' output_bytes)
     else Inr \<lparr>input_meta_bytes = input_meta_bytes, input_words_bytes = input_words_bytes,
        input_word_capacity = input_word_capacity, output_stride_words = output_stride_words,
        output_bytes = output_bytes, flow_bytes = flow_bytes\<rparr>)))))))"

section \<open>The device\<close>

record engine_params =
  pe_packet_count :: u32
  pe_output_word_base :: u32
  pe_output_stride_words :: u32
  pe_flow_capacity :: u32
  pe_listen_port :: u32
  pe_flow_probe_limit :: u32

text \<open>
  \<open>upload_fits\<close>: \<open>write_buffer_with\<close> grants an upload of that many bytes. \<open>run_kernel\<close>: upload of
  metadata, words and parameters, the dispatch, and the readback of the metadata words and
  the output words; it may fail, or panic (\<open>None\<close>). When an upload is not granted the metadata has
  been written already; every wave overwrites it before it is read.
\<close>

record 'g gpu_device =
  upload_fits :: "'g \<Rightarrow> nat \<Rightarrow> bool"
  run_kernel :: "'g \<Rightarrow> engine_params \<Rightarrow> packet_meta list \<Rightarrow> bytes \<Rightarrow> ('g \<times> (packet_error + u32 list \<times> u32 list)) option"

record 'g gpu_packet_engine =
  ge_config :: packet_engine_config
  ge_word_capacity :: nat
  ge_stride_words :: nat
  ge_device_state :: 'g
  ge_seen :: flow_set
  ge_dispatches :: u64
  ge_packets :: u64

definition wave_params :: "packet_engine_config \<Rightarrow> nat \<Rightarrow> nat \<Rightarrow> engine_params" where
  "wave_params config stride_words packet_count = \<lparr>pe_packet_count = of_nat packet_count,
     pe_output_word_base = of_nat packet_count, pe_output_stride_words = of_nat stride_words,
     pe_flow_capacity = of_nat (flow_capacity config), pe_listen_port = ucast (listen_port config),
     pe_flow_probe_limit = of_nat (flow_probe_limit config)\<rparr>"

definition dispatch_wave :: "'g gpu_device \<Rightarrow> raw_packet list \<Rightarrow> 's sink \<Rightarrow> ('g gpu_packet_engine \<times> 's) dispatch" where
  "dispatch_wave dev pkts sink st wave =
     (case st of (eng, s) \<Rightarrow>
      if wave = [] then Some ((eng, s), Inr ())
      else do {
        let packet_count = length wave;
        prepared \<leftarrow> prepare_wave_metadata pkts wave;
        case prepared of
          Inl e \<Rightarrow> Some ((eng, s), Inl e)
        | Inr (metadata, input_word_count) \<Rightarrow>
            (case checked_mul_usize input_word_count 4 of
               None \<Rightarrow> Some ((eng, s), Inl InputWordCountOverflow)
             | Some input_word_bytes \<Rightarrow>
                 if input_word_bytes = 0 then Some ((eng, s), Inl EmptyUpload)
                 else if \<not> upload_fits dev (ge_device_state eng) input_word_bytes then Some ((eng, s), Inl UploadFailed)
                 else do {
                   word_upload \<leftarrow> pack_wave_bytes pkts wave metadata (replicate input_word_bytes 0);
                   (g', outcome) \<leftarrow> run_kernel dev (ge_device_state eng) (wave_params (ge_config eng) (ge_stride_words eng) packet_count) metadata word_upload;
                   case outcome of
                     Inl e \<Rightarrow> Some ((eng\<lparr>ge_device_state := g'\<rparr>, s), Inl e)
                   | Inr (output_meta, output_words) \<Rightarrow> do {
                       (s', decode_result) \<leftarrow> emit_wave_outputs output_meta output_words wave (ge_stride_words eng) sink s;
                       Some ((eng\<lparr>ge_device_state := g', ge_dispatches := ge_dispatches eng + 1,
                                  ge_packets := ge_packets eng + of_nat packet_count\<rparr>, s'), decode_result) } }) })"

definition gpu_process_batch_to :: "'g gpu_device \<Rightarrow> 'g gpu_packet_engine \<Rightarrow> raw_packet list \<Rightarrow> 's sink \<Rightarrow> 's
    \<Rightarrow> ('g gpu_packet_engine \<times> 's \<times> (packet_error + unit)) option" where
  "gpu_process_batch_to dev eng pkts sink s = do {
     (seen', (eng', s'), r) \<leftarrow> run_waves pkts (max_batch_size (ge_config eng), ge_word_capacity eng)
        (dispatch_wave dev pkts sink) (eng, s) (ge_seen eng);
     Some (eng'\<lparr>ge_seen := seen'\<rparr>, s', r) }"

definition slot_sink :: "raw_packet option list sink" where
  "slot_sink output i packet = do {
     slot \<leftarrow> index output i;
     case packet of
       None \<Rightarrow> do { output' \<leftarrow> set_at output i None; Some (output', Inr ()) }
     | Some bs \<Rightarrow>
         (case assign_packet_bytes slot bs of
            Inl e \<Rightarrow> Some (output, Inl e)
          | Inr slot' \<Rightarrow> do { output' \<leftarrow> set_at output i slot'; Some (output', Inr ()) }) }"

definition gpu_process_batch_into :: "'g gpu_device \<Rightarrow> 'g gpu_packet_engine \<Rightarrow> raw_packet list \<Rightarrow> raw_packet option list
    \<Rightarrow> ('g gpu_packet_engine \<times> raw_packet option list \<times> (packet_error + unit)) option" where
  "gpu_process_batch_into dev eng pkts output =
     gpu_process_batch_to dev eng pkts slot_sink (resize output (length pkts) None)"

section \<open>Per-flow semantics\<close>

text \<open>A packet semantics that is local to one connection, and its sequential run over a batch.\<close>

type_synonym 'f flow_step = "flow_key \<Rightarrow> 'f option \<Rightarrow> raw_packet \<Rightarrow> 'f option \<times> raw_packet option"

definition packet_key :: "raw_packet \<Rightarrow> flow_key option" where
  "packet_key p = the (scheduling_flow_key p)"

definition step_one :: "'f flow_step \<Rightarrow> (flow_key \<rightharpoonup> 'f) \<Rightarrow> raw_packet \<Rightarrow> (flow_key \<rightharpoonup> 'f) \<times> raw_packet option" where
  "step_one step tbl p = (case packet_key p of
       None \<Rightarrow> (tbl, None)
     | Some k \<Rightarrow> (case step k (tbl k) p of (fo, out) \<Rightarrow> (tbl(k := fo), out)))"

fun run_seq :: "'f flow_step \<Rightarrow> (flow_key \<rightharpoonup> 'f) \<Rightarrow> raw_packet list \<Rightarrow> (flow_key \<rightharpoonup> 'f) \<times> raw_packet option list" where
  "run_seq step tbl [] = (tbl, [])"
| "run_seq step tbl (p # ps) =
     (let (tbl', out) = step_one step tbl p; (tbl'', outs) = run_seq step tbl' ps in (tbl'', out # outs))"

lemma length_run_seq [simp]: "length (snd (run_seq step tbl ps)) = length ps"
  by (induction ps arbitrary: tbl) (simp_all add: Let_def split_def)

lemma run_seq_append:
  "run_seq step tbl (ps @ qs) = (fst (run_seq step (fst (run_seq step tbl ps)) qs),
     snd (run_seq step tbl ps) @ snd (run_seq step (fst (run_seq step tbl ps)) qs))"
  by (induction ps arbitrary: tbl) (simp_all add: Let_def split_def)

section \<open>One dispatch\<close>

lemma wf_words_pos: "wf_packet p \<Longrightarrow> 0 < packet_words p"
  by (simp add: wf_packet_def packet_words_def div_ceil_4_pos)

lemma wf_packet_u32: "wf_packet p \<Longrightarrow> length (as_bytes p) \<le> U32_MAX"
  by (simp add: wf_packet_def MAX_RAW_PACKET_BYTES_def U32_MAX_def)

text \<open>Up to the kernel: a wave that fits is laid out and uploaded.\<close>

lemma dispatch_wave_prepares:
  fixes eng :: "'g gpu_packet_engine"
  assumes wave: "wave \<noteq> []" "\<forall>i\<in>set wave. i < length pkts" "\<forall>p\<in>set pkts. wf_packet p"
    and small: "total_words (map ((!) pkts) wave) \<le> U32_MAX"
    and up: "upload_fits dev (ge_device_state eng) (4 * total_words (map ((!) pkts) wave))"
  shows "dispatch_wave dev pkts sink (eng, s) wave = do {
     (g', outcome) \<leftarrow> run_kernel dev (ge_device_state eng) (wave_params (ge_config eng) (ge_stride_words eng) (length wave))
        (layout_metas 0 (map ((!) pkts) wave)) (layout_bytes (map ((!) pkts) wave));
     case outcome of
       Inl e \<Rightarrow> Some ((eng\<lparr>ge_device_state := g'\<rparr>, s), Inl e)
     | Inr (output_meta, output_words) \<Rightarrow> do {
         (s', decode_result) \<leftarrow> emit_wave_outputs output_meta output_words wave (ge_stride_words eng) sink s;
         Some ((eng\<lparr>ge_device_state := g', ge_dispatches := ge_dispatches eng + 1,
                    ge_packets := ge_packets eng + of_nat (length wave)\<rparr>, s'), decode_result) } }"
proof -
  let ?ps = "map ((!) pkts) wave"
  have len: "\<forall>i\<in>set wave. i < length pkts \<and> length (as_bytes (pkts ! i)) \<le> U32_MAX"
    using wave(2,3) by (simp add: wf_packet_u32)
  have prep: "prepare_wave_metadata pkts wave = Some (Inr (layout_metas 0 ?ps, total_words ?ps))"
    using prepare_loop_closed [OF len, of 0 "[]"] small by (simp add: prepare_wave_metadata_def)
  have pack: "pack_wave_bytes pkts wave (layout_metas 0 ?ps) (replicate (4 * total_words ?ps) 0) = Some (layout_bytes ?ps)"
    using pack_wave_loop_closed [OF wave(2), of 0 "[]"] small by (simp add: pack_wave_bytes_def)
  obtain i rest where "wave = i # rest" using wave(1) by (cases wave) auto
  then have pos: "0 < total_words ?ps" using wave(2,3) wf_words_pos [of "pkts ! i"] by (simp add: total_words_def)
  have mul: "checked_mul_usize (total_words ?ps) 4 = Some (4 * total_words ?ps)"
    using small by (simp add: checked_mul_usize_def U32_MAX_def USIZE_MAX_def)
  show ?thesis using wave(1) pos up by (simp add: dispatch_wave_def prep mul pack Let_def)
qed

lemma total_words_of: "total_words (map ((!) pkts) wave) = sum_list (map (words_of pkts) wave)"
  by (simp add: total_words_def packet_words_def words_of_def [abs_def] comp_def)

lemma distinct_keys_of: "distinct_flows (key_of pkts) wave \<Longrightarrow> distinct (List.map_filter packet_key (map ((!) pkts) wave))"
  by (simp add: distinct_flows_def List.map_filter_def packet_key_def key_of_def filter_map comp_def)

section \<open>Order does not matter across connections\<close>

fun run_flow :: "'f flow_step \<Rightarrow> flow_key \<Rightarrow> 'f option \<Rightarrow> raw_packet list \<Rightarrow> 'f option \<times> raw_packet option list" where
  "run_flow step k fo [] = (fo, [])"
| "run_flow step k fo (p # ps) =
     (let (fo', out) = step k fo p; (fo'', outs) = run_flow step k fo' ps in (fo'', out # outs))"

abbreviation of_flow :: "raw_packet list \<Rightarrow> flow_key option \<Rightarrow> nat list \<Rightarrow> nat list" where
  "of_flow pkts \<kappa> \<equiv> filter (\<lambda>i. packet_key (pkts ! i) = \<kappa>)"

lemma run_seq_flow:
  "fst (run_seq step tbl (map ((!) pkts) is)) k = fst (run_flow step k (tbl k) (map ((!) pkts) (of_flow pkts (Some k) is)))"
proof (induction "is" arbitrary: tbl)
  case Nil
  then show ?case by simp
next
  case (Cons i "is")
  show ?case
    by (cases "packet_key (pkts ! i)") (simp_all add: Cons.IH step_one_def Let_def split_def)
qed

lemma run_seq_answers:
  "(i, out) \<in> set (zip is (snd (run_seq step tbl (map ((!) pkts) is)))) \<longleftrightarrow>
     (case packet_key (pkts ! i) of
        None \<Rightarrow> i \<in> set is \<and> out = None
      | Some k \<Rightarrow> (i, out) \<in> set (zip (of_flow pkts (Some k) is)
          (snd (run_flow step k (tbl k) (map ((!) pkts) (of_flow pkts (Some k) is))))))"
proof (induction "is" arbitrary: tbl)
  case Nil
  then show ?case by (simp split: option.split)
next
  case (Cons j "is")
  show ?case
    by (cases "packet_key (pkts ! j)"; cases "packet_key (pkts ! i)")
      (auto simp: Cons.IH step_one_def Let_def split_def)
qed

text \<open>Two orders that agree on each connection give the same tables and the same answer to each index.\<close>

lemma run_seq_reorder:
  assumes "\<forall>k. of_flow pkts (Some k) is = of_flow pkts (Some k) js" "set is = set js"
  shows "fst (run_seq step tbl (map ((!) pkts) is)) = fst (run_seq step tbl (map ((!) pkts) js))"
    and "set (zip is (snd (run_seq step tbl (map ((!) pkts) is)))) = set (zip js (snd (run_seq step tbl (map ((!) pkts) js))))"
proof -
  show "fst (run_seq step tbl (map ((!) pkts) is)) = fst (run_seq step tbl (map ((!) pkts) js))"
    using assms(1) by (intro ext) (simp add: run_seq_flow)
  have "(i, out) \<in> set (zip is (snd (run_seq step tbl (map ((!) pkts) is)))) \<longleftrightarrow>
      (i, out) \<in> set (zip js (snd (run_seq step tbl (map ((!) pkts) js))))" for i out
    unfolding run_seq_answers using assms by (simp split: option.split)
  then show "set (zip is (snd (run_seq step tbl (map ((!) pkts) is)))) = set (zip js (snd (run_seq step tbl (map ((!) pkts) js))))"
    by auto
qed

section \<open>The slots\<close>

fun scatter :: "'a list \<Rightarrow> (nat \<times> 'a) list \<Rightarrow> 'a list" where
  "scatter out [] = out"
| "scatter out ((i, x) # rest) = scatter (out[i := x]) rest"

lemma length_scatter [simp]: "length (scatter out ps) = length out"
  by (induction out ps rule: scatter.induct) simp_all

lemma scatter_append: "scatter out (ps @ qs) = scatter (scatter out ps) qs"
  by (induction out ps rule: scatter.induct) simp_all

lemma scatter_other: "i \<notin> fst ` set ps \<Longrightarrow> scatter out ps ! i = out ! i"
  by (induction out ps rule: scatter.induct) auto

lemma scatter_nth:
  "distinct (map fst ps) \<Longrightarrow> (i, x) \<in> set ps \<Longrightarrow> i < length out \<Longrightarrow> scatter out ps ! i = x"
proof (induction out ps rule: scatter.induct)
  case (2 out j y rest)
  show ?case
  proof (cases "(i, x) = (j, y)")
    case True
    then have "i \<notin> fst ` set rest" using 2(2) by auto
    then show ?thesis using True 2(4) by (simp add: scatter_other)
  next
    case False
    then show ?thesis using 2 by auto
  qed
qed simp

lemma scatter_all:
  assumes "distinct is" "set is = {..<length out}" "length xs = length is"
    "set (zip is xs) = set (zip [0..<length out] ys)" "length ys = length out"
  shows "scatter out (zip is xs) = ys"
proof (rule nth_equalityI)
  show "length (scatter out (zip is xs)) = length ys" using assms(5) by simp
  fix i assume "i < length (scatter out (zip is xs))"
  then have i: "i < length out" by simp
  have mem: "(i, ys ! i) \<in> set (zip is xs)" unfolding assms(4) in_set_zip using i assms(5)
    by (intro exI [of _ i]) simp
  have "distinct (map fst (zip is xs))" using assms(1,3) by simp
  then show "scatter out (zip is xs) ! i = ys ! i" by (rule scatter_nth [OF _ mem i])
qed

lemma slot_sink_scatter:
  assumes "\<forall>(i, q)\<in>set ps. i < length out \<and> (\<forall>p. q = Some p \<longrightarrow> wf_packet p)"
  shows "send_all slot_sink out ps = Some (scatter out ps, Inr ())"
  using assms
proof (induction out ps rule: scatter.induct)
  case (2 out i q rest)
  then have i: "i < length out" "index out i = Some (out ! i)" by (auto simp: index_def)
  have "slot_sink out i (map_option as_bytes q) = Some (out[i := q], Inr ())"
  proof (cases q)
    case (Some p)
    then have "wf_packet p" using 2(2) by auto
    then show ?thesis using i Some
      by (cases p) (auto simp: slot_sink_def assign_packet_bytes_def wf_packet_def set_at_list_update
          replace_from_slice_eq_new copy_from_slice_def raw_packet_new_def split: option.split)
  qed (simp add: slot_sink_def i set_at_list_update)
  then show ?case using 2 by simp
qed simp

lemma send_all_split:
  "send_all sink s (xs @ ys) = Some (s', Inr ()) \<Longrightarrow>
    \<exists>s1. send_all sink s xs = Some (s1, Inr ()) \<and> send_all sink s1 ys = Some (s', Inr ())"
  by (induction sink s xs rule: send_all.induct) (auto split: Option.bind_splits sum.splits)

lemma send_all_append_ok:
  assumes "send_all sink s (xs @ ys) = Some (s', Inr ())"
  obtains s1 where "send_all sink s xs = Some (s1, Inr ())" "send_all sink s1 ys = Some (s', Inr ())"
  using send_all_split [OF assms] by blast

lemma zip_answers:
  assumes "set (zip is xs) = set (zip [0..<n] ys)" "length xs = length is" "length ys = n"
  shows "zip is xs = map (\<lambda>i. (i, ys ! i)) is"
proof (rule nth_equalityI)
  fix j assume "j < length (zip is xs)"
  then have j: "j < length is" using assms(2) by simp
  then have "(is ! j, xs ! j) \<in> set (zip [0..<n] ys)" unfolding assms(1) [symmetric] in_set_zip using assms(2) by force
  then have "xs ! j = ys ! (is ! j)" by (auto simp: in_set_zip)
  then show "zip is xs ! j = map (\<lambda>i. (i, ys ! i)) is ! j" using j assms(2) by simp
qed (simp add: assms(2))

section \<open>What the engine relies on\<close>

definition wf_answers :: "'f flow_step \<Rightarrow> bool" where
  "wf_answers step \<longleftrightarrow> (\<forall>k fo p q. snd (step k fo p) = Some q \<longrightarrow> wf_packet q)"

lemma run_seq_wf: "wf_answers step \<Longrightarrow> Some q \<in> set (snd (run_seq step tbl ps)) \<Longrightarrow> wf_packet q"
  by (induction ps arbitrary: tbl)
    (auto simp: step_one_def Let_def split_def wf_answers_def split: option.splits)

lemma concat_waves_set: "proper_waves pkts limits ws \<Longrightarrow> set (concat ws) = {..<length pkts} \<and> distinct (concat ws)"
  by (metis proper_waves_def atLeast0LessThan distinct_upt mset_eq_imp_distinct_iff mset_eq_setD set_upt)

text \<open>
  On a wave of packets of distinct connections, laid out as the engine lays it out, a device in a good
  state leaves in its flow state and in the output slots what the sequential run leaves, and stays
  good. \<open>served\<close> restricts the packets, \<open>word_capacity\<close> is the size of the input buffer in words: it
  holds a full wave of maximal packets.
\<close>

locale packet_device =
  fixes dev :: "'g gpu_device" and config :: packet_engine_config and stride_words :: nat and word_capacity :: nat
    and good :: "'g \<Rightarrow> bool" and tables :: "'g \<Rightarrow> (flow_key \<rightharpoonup> 'f)" and step :: "'f flow_step" and served :: "raw_packet \<Rightarrow> bool"
  assumes kernel_runs: "good g \<Longrightarrow> ps \<noteq> [] \<Longrightarrow> \<forall>p\<in>set ps. wf_packet p \<and> served p \<Longrightarrow> length ps \<le> max_batch_size config
      \<Longrightarrow> total_words ps \<le> word_capacity \<Longrightarrow> distinct (List.map_filter packet_key ps)
      \<Longrightarrow> \<exists>g' metas words. run_kernel dev g (wave_params config stride_words (length ps)) (layout_metas 0 ps) (layout_bytes ps) = Some (g', Inr (metas, words))
        \<and> good g' \<and> tables g' = fst (run_seq step (tables g) ps) \<and> output_holds metas words stride_words (snd (run_seq step (tables g) ps))"
    and uploads: "good g \<Longrightarrow> n \<le> word_capacity \<Longrightarrow> upload_fits dev g (4 * n)"
    and sized: "good g \<Longrightarrow> word_capacity \<le> U32_MAX \<and> 0 < max_batch_size config \<and> 384 * max_batch_size config \<le> word_capacity"
    and answers: "wf_answers step"

text \<open>An engine on such a device.\<close>

definition engine_ready :: "packet_engine_config \<Rightarrow> nat \<Rightarrow> nat \<Rightarrow> ('g \<Rightarrow> bool) \<Rightarrow> 'g gpu_packet_engine \<Rightarrow> bool" where
  "engine_ready config stride_words word_capacity good eng \<longleftrightarrow> ge_config eng = config \<and> ge_stride_words eng = stride_words
     \<and> ge_word_capacity eng = word_capacity \<and> good (ge_device_state eng) \<and> fs_ready (ge_seen eng)"

context packet_device begin

lemma dispatch_wave_sends:
  fixes eng :: "'g gpu_packet_engine"
  assumes eng: "engine_ready config stride_words word_capacity good eng"
    and wave: "wave \<noteq> []" "\<forall>i\<in>set wave. i < length pkts" "\<forall>p\<in>set pkts. wf_packet p \<and> served p"
      "length wave \<le> max_batch_size config" "distinct_flows (key_of pkts) wave"
    and words: "sum_list (map (words_of pkts) wave) \<le> word_capacity"
  obtains g' where
    "dispatch_wave dev pkts sink (eng, s) wave =
       map_option (\<lambda>(s', r). ((eng\<lparr>ge_device_state := g', ge_dispatches := ge_dispatches eng + 1,
           ge_packets := ge_packets eng + of_nat (length wave)\<rparr>, s'), r))
         (send_all sink s (zip wave (snd (run_seq step (tables (ge_device_state eng)) (map ((!) pkts) wave)))))"
    "good g'" "tables g' = fst (run_seq step (tables (ge_device_state eng)) (map ((!) pkts) wave))"
proof -
  let ?ps = "map ((!) pkts) wave"
  let ?run = "run_seq step (tables (ge_device_state eng)) ?ps"
  have st: "good (ge_device_state eng)" "ge_config eng = config" "ge_stride_words eng = stride_words"
    using eng by (simp_all add: engine_ready_def)
  have wf: "\<forall>p\<in>set ?ps. wf_packet p \<and> served p" using wave(2,3) by auto
  have cap: "total_words ?ps \<le> word_capacity" using words by (simp add: total_words_of)
  then have up: "upload_fits dev (ge_device_state eng) (4 * total_words ?ps)" by (rule uploads [OF st(1)])
  have small: "total_words ?ps \<le> U32_MAX" using cap sized [OF st(1)] by simp
  note dist = distinct_keys_of [OF wave(5)]
  have "?ps \<noteq> []" "length ?ps \<le> max_batch_size config" using wave(1,4) by simp_all
  from kernel_runs [OF st(1) this(1) wf this(2) cap dist] obtain g' metas ws
    where kernel: "run_kernel dev (ge_device_state eng) (wave_params config stride_words (length ?ps)) (layout_metas 0 ?ps) (layout_bytes ?ps)
        = Some (g', Inr (metas, ws))"
    and g': "good g'" "tables g' = fst ?run" and out: "output_holds metas ws stride_words (snd ?run)"
    by (elim exE conjE)
  have emit: "emit_wave_outputs metas ws wave stride_words sink s = send_all sink s (zip wave (snd ?run))"
    by (rule emit_wave_outputs_sends [OF out]) simp
  show thesis
  proof (rule that [OF _ g'])
    show "dispatch_wave dev pkts sink (eng, s) wave =
       map_option (\<lambda>(s', r). ((eng\<lparr>ge_device_state := g', ge_dispatches := ge_dispatches eng + 1,
           ge_packets := ge_packets eng + of_nat (length wave)\<rparr>, s'), r))
         (send_all sink s (zip wave (snd ?run)))"
      using dispatch_wave_prepares [OF wave(1,2) _ small up, of sink s] wave(3) kernel
      by (cases "send_all sink s (zip wave (snd ?run))") (simp_all add: emit split_def st)
  qed
qed

text \<open>All waves, in order: if the sink takes the answers of the sequential run over the concatenated waves, the
  dispatches hand exactly these to it.\<close>

lemma dispatch_all_sends:
  fixes eng :: "'g gpu_packet_engine"
  assumes "engine_ready config stride_words word_capacity good eng" "\<forall>p\<in>set pkts. wf_packet p \<and> served p"
    "\<forall>w\<in>set ws. w \<noteq> [] \<and> length w \<le> max_batch_size config
       \<and> sum_list (map (words_of pkts) w) \<le> word_capacity \<and> distinct_flows (key_of pkts) w"
    "\<forall>i\<in>set (concat ws). i < length pkts"
    "send_all sink s (zip (concat ws) (snd (run_seq step (tables (ge_device_state eng)) (map ((!) pkts) (concat ws))))) = Some (s', Inr ())"
  shows "\<exists>eng'. dispatch_all (dispatch_wave dev pkts sink) (eng, s) ws = Some ((eng', s'), Inr ())
    \<and> tables (ge_device_state eng') = fst (run_seq step (tables (ge_device_state eng)) (map ((!) pkts) (concat ws)))
    \<and> engine_ready config stride_words word_capacity good eng'
    \<and> ge_packets eng' = ge_packets eng + of_nat (length (concat ws))"
  using assms(1,3-5)
proof (induction ws arbitrary: eng s)
  case Nil
  then show ?case by simp
next
  case (Cons w ws)
  let ?run = "run_seq step (tables (ge_device_state eng)) (map ((!) pkts) w)"
  let ?rest = "run_seq step (fst ?run) (map ((!) pkts) (concat ws))"
  have w: "w \<noteq> []" "length w \<le> max_batch_size config" "sum_list (map (words_of pkts) w) \<le> word_capacity"
    "distinct_flows (key_of pkts) w" "\<forall>i\<in>set w. i < length pkts"
    using Cons.prems(2,3) by simp_all
  obtain g' where one: "dispatch_wave dev pkts sink (eng, s) w =
       map_option (\<lambda>(s', r). ((eng\<lparr>ge_device_state := g', ge_dispatches := ge_dispatches eng + 1,
           ge_packets := ge_packets eng + of_nat (length w)\<rparr>, s'), r))
         (send_all sink s (zip w (snd ?run)))"
    and g': "good g'" "tables g' = fst ?run"
    by (rule dispatch_wave_sends [OF Cons.prems(1) w(1,5) assms(2) w(2,4,3)])
  define eng1 where "eng1 = eng\<lparr>ge_device_state := g', ge_dispatches := ge_dispatches eng + 1,
           ge_packets := ge_packets eng + of_nat (length w)\<rparr>"
  have "send_all sink s (zip w (snd ?run) @ zip (concat ws) (snd ?rest)) = Some (s', Inr ())"
    using Cons.prems(4) by (simp add: run_seq_append)
  then obtain s1 where send: "send_all sink s (zip w (snd ?run)) = Some (s1, Inr ())"
    and rest: "send_all sink s1 (zip (concat ws) (snd ?rest)) = Some (s', Inr ())"
    by (rule send_all_append_ok)
  have first: "dispatch_wave dev pkts sink (eng, s) w = Some ((eng1, s1), Inr ())"
    by (simp add: one send eng1_def)
  have rdy1: "engine_ready config stride_words word_capacity good eng1" using Cons.prems(1) g'(1) by (simp add: engine_ready_def eng1_def)
  have conf: "ge_device_state eng1 = g'" "ge_packets eng1 = ge_packets eng + of_nat (length w)"
    by (simp_all add: eng1_def)
  have prem: "\<forall>w\<in>set ws. w \<noteq> [] \<and> length w \<le> max_batch_size config
       \<and> sum_list (map (words_of pkts) w) \<le> word_capacity \<and> distinct_flows (key_of pkts) w"
    "\<forall>i\<in>set (concat ws). i < length pkts"
    using Cons.prems(2,3) by simp_all
  have "send_all sink s1 (zip (concat ws) (snd (run_seq step (tables (ge_device_state eng1)) (map ((!) pkts) (concat ws))))) = Some (s', Inr ())"
    using rest unfolding conf g'(2) .
  from Cons.IH [OF rdy1 prem this] obtain eng' where IH:
    "dispatch_all (dispatch_wave dev pkts sink) (eng1, s1) ws = Some ((eng', s'), Inr ())"
    "tables (ge_device_state eng') = fst ?rest"
    "engine_ready config stride_words word_capacity good eng'"
    "ge_packets eng' = ge_packets eng + of_nat (length w) + of_nat (length (concat ws))"
    unfolding conf g'(2) by (elim exE conjE)
  have "dispatch_all (dispatch_wave dev pkts sink) (eng, s) (w # ws) = Some ((eng', s'), Inr ())"
    by (simp only: dispatch_all.simps first Option.bind.bind_lunit prod.case sum.case IH(1))
  moreover have "tables (ge_device_state eng') = fst (run_seq step (tables (ge_device_state eng)) (map ((!) pkts) (concat (w # ws))))"
    by (simp add: IH(2) run_seq_append)
  ultimately show ?case using IH(3,4) by (intro exI [of _ eng']) (simp add: algebra_simps)
qed

text \<open>A whole batch into any sink that takes every packet: the answers reach it in an order that keeps the order of
  each connection.\<close>

lemma gpu_batch_to_run:
  fixes eng :: "'g gpu_packet_engine"
  assumes "engine_ready config stride_words word_capacity good eng" "\<forall>p\<in>set pkts. wf_packet p \<and> served p" "length pkts \<le> FS_LIMIT"
  defines "run \<equiv> run_seq step (tables (ge_device_state eng)) pkts"
  assumes sink: "\<And>order. set order \<subseteq> {..<length pkts} \<Longrightarrow> \<exists>s'. send_all sink s (map (\<lambda>i. (i, snd run ! i)) order) = Some (s', Inr ())"
  shows "\<exists>eng' s' order. gpu_process_batch_to dev eng pkts sink s = Some (eng', s', Inr ())
    \<and> send_all sink s (map (\<lambda>i. (i, snd run ! i)) order) = Some (s', Inr ())
    \<and> distinct order \<and> set order = {..<length pkts} \<and> (\<forall>k. of_flow pkts (Some k) order = of_flow pkts (Some k) [0..<length pkts])
    \<and> tables (ge_device_state eng') = fst run
    \<and> engine_ready config stride_words word_capacity good eng' \<and> ge_packets eng' = ge_packets eng + of_nat (length pkts)"
proof (cases "pkts = []")
  case True
  then show ?thesis using assms(1)
    by (intro exI [of _ eng] exI [of _ s] exI [of _ "[]"])
      (simp add: gpu_process_batch_to_def run_waves_def run_def)
next
  case False
  let ?l = "(max_batch_size config, word_capacity)"
  let ?ws = "schedule_of pkts ?l"
  let ?order = "concat ?ws"
  let ?tbl = "tables (ge_device_state eng)"
  have st: "good (ge_device_state eng)" "ge_config eng = config" "ge_word_capacity eng = word_capacity" "fs_ready (ge_seen eng)"
    using assms(1) by (simp_all add: engine_ready_def)
  have rdy: "fs_ready (ge_seen eng)" "0 < fst ?l" "384 * fst ?l \<le> snd ?l"
    using st(4) sized [OF st(1)] by simp_all
  have wf: "\<forall>p\<in>set pkts. wf_packet p" using assms(2) by blast
  have cap: "384 \<le> snd ?l" using rdy(2,3) by linarith
  note proper = schedule_proper [OF wf False rdy(2) cap]
  note order = schedule_in_order [OF wf False rdy(2,3)]
  note idx = concat_waves_set [OF proper]
  from run_waves_schedule [OF rdy(1) False assms(3) schedule_fitting [OF wf rdy(2) cap],
      of "dispatch_wave dev pkts sink" "(eng, s)"]
  obtain seen' where seen': "fs_ready seen'" and run: "run_waves pkts ?l (dispatch_wave dev pkts sink) (eng, s) (ge_seen eng) =
      map_option (\<lambda>(d', r). (seen', d', r)) (dispatch_all (dispatch_wave dev pkts sink) (eng, s) ?ws)"
    unfolding schedule_of_def by (elim exE conjE)
  have each: "\<forall>w\<in>set ?ws. w \<noteq> [] \<and> length w \<le> max_batch_size config
       \<and> sum_list (map (words_of pkts) w) \<le> word_capacity \<and> distinct_flows (key_of pkts) w"
    using proper unfolding proper_waves_def fst_conv snd_conv by (rule conjunct2)
  have below: "\<forall>i\<in>set ?order. i < length pkts" using idx by (metis lessThan_iff)
  have flows: "\<forall>k. of_flow pkts (Some k) ?order = of_flow pkts (Some k) [0..<length pkts]"
    using order by (simp add: in_flow_order_def key_of_def [abs_def] packet_key_def)
  have sets: "set ?order = set [0..<length pkts]" using idx by auto
  have pk: "map ((!) pkts) [0..<length pkts] = pkts" by (rule map_nth)
  note same = run_seq_reorder [OF flows sets, of step ?tbl, unfolded pk, folded run_def]
  have answers: "zip ?order (snd (run_seq step ?tbl (map ((!) pkts) ?order))) = map (\<lambda>i. (i, snd run ! i)) ?order"
    using same(2) by (intro zip_answers) (simp_all add: run_def)
  have "set ?order \<subseteq> {..<length pkts}" using idx by simp
  from sink [OF this] obtain s' where send: "send_all sink s (map (\<lambda>i. (i, snd run ! i)) ?order) = Some (s', Inr ())" by blast
  from dispatch_all_sends [OF assms(1,2) each below, of sink s s', unfolded answers, OF send] obtain eng' where all:
    "dispatch_all (dispatch_wave dev pkts sink) (eng, s) ?ws = Some ((eng', s'), Inr ())"
    "tables (ge_device_state eng') = fst (run_seq step ?tbl (map ((!) pkts) ?order))"
    "engine_ready config stride_words word_capacity good eng'" "ge_packets eng' = ge_packets eng + of_nat (length ?order)"
    by (elim exE conjE)
  have len: "length ?order = length pkts" using proper by (metis proper_waves_def size_mset length_upt diff_zero)
  have "engine_ready config stride_words word_capacity good (eng'\<lparr>ge_seen := seen'\<rparr>)"
    using all(3) seen' by (simp add: engine_ready_def)
  moreover have "gpu_process_batch_to dev eng pkts sink s = Some (eng'\<lparr>ge_seen := seen'\<rparr>, s', Inr ())"
    by (simp add: gpu_process_batch_to_def st(2,3) run all(1))
  ultimately show ?thesis using all(2,4) same(1) send idx flows len
    by (intro exI [of _ "eng'\<lparr>ge_seen := seen'\<rparr>"] exI [of _ s'] exI [of _ ?order]) simp
qed

text \<open>Into the slots of the caller's vector.\<close>

lemma gpu_batch_run:
  fixes eng :: "'g gpu_packet_engine"
  assumes "engine_ready config stride_words word_capacity good eng" "\<forall>p\<in>set pkts. wf_packet p \<and> served p" "length pkts \<le> FS_LIMIT"
  shows "\<exists>eng'. gpu_process_batch_into dev eng pkts out =
      Some (eng', snd (run_seq step (tables (ge_device_state eng)) pkts), Inr ())
    \<and> tables (ge_device_state eng') = fst (run_seq step (tables (ge_device_state eng)) pkts)
    \<and> engine_ready config stride_words word_capacity good eng' \<and> ge_packets eng' = ge_packets eng + of_nat (length pkts)"
proof -
  let ?run = "run_seq step (tables (ge_device_state eng)) pkts"
  let ?out = "resize out (length pkts) None"
  have slots: "length ?out = length pkts" by (simp add: resize_def)
  have take: "send_all slot_sink ?out (map (\<lambda>i. (i, snd ?run ! i)) order) =
      Some (scatter ?out (map (\<lambda>i. (i, snd ?run ! i)) order), Inr ())" if "set order \<subseteq> {..<length pkts}" for order
  proof (rule slot_sink_scatter)
    have "wf_packet q" if "i < length pkts" "snd ?run ! i = Some q" for i q
    proof (rule run_seq_wf [OF answers])
      show "Some q \<in> set (snd ?run)" using that nth_mem [of i "snd ?run"] by simp
    qed
    then show "\<forall>(i, q)\<in>set (map (\<lambda>i. (i, snd ?run ! i)) order). i < length ?out \<and> (\<forall>p. q = Some p \<longrightarrow> wf_packet p)"
      using that slots by auto
  qed
  have takes: "\<exists>s'. send_all slot_sink ?out (map (\<lambda>i. (i, snd ?run ! i)) order) = Some (s', Inr ())" if "set order \<subseteq> {..<length pkts}" for order
    using take [OF that] by blast
  have "\<exists>eng' s' order. gpu_process_batch_to dev eng pkts slot_sink ?out = Some (eng', s', Inr ())
      \<and> send_all slot_sink ?out (map (\<lambda>i. (i, snd ?run ! i)) order) = Some (s', Inr ())
      \<and> distinct order \<and> set order = {..<length pkts} \<and> (\<forall>k. of_flow pkts (Some k) order = of_flow pkts (Some k) [0..<length pkts])
      \<and> tables (ge_device_state eng') = fst ?run \<and> engine_ready config stride_words word_capacity good eng'
      \<and> ge_packets eng' = ge_packets eng + of_nat (length pkts)"
    by (rule gpu_batch_to_run [OF assms]) (rule takes)
  then obtain eng' s' order where
    batch: "gpu_process_batch_to dev eng pkts slot_sink ?out = Some (eng', s', Inr ())"
      "send_all slot_sink ?out (map (\<lambda>i. (i, snd ?run ! i)) order) = Some (s', Inr ())"
      "distinct order" "set order = {..<length pkts}" "tables (ge_device_state eng') = fst ?run"
      "engine_ready config stride_words word_capacity good eng'" "ge_packets eng' = ge_packets eng + of_nat (length pkts)"
    by (elim exE conjE)
  have pairs: "zip order (map (\<lambda>i. snd ?run ! i) order) = map (\<lambda>i. (i, snd ?run ! i)) order" by (induction order) simp_all
  have "s' = scatter ?out (zip order (map (\<lambda>i. snd ?run ! i) order))"
    using batch(2,4) take [of order] pairs by simp
  moreover have "\<dots> = snd ?run"
  proof (rule scatter_all)
    show "set (zip order (map (\<lambda>i. snd ?run ! i) order)) = set (zip [0..<length ?out] (snd ?run))"
    proof -
      have "zip [0..<length pkts] (snd ?run) = map (\<lambda>i. (i, snd ?run ! i)) [0..<length pkts]"
        by (rule zip_answers [of _ _ "length pkts"]) simp_all
      then show ?thesis using batch(4) slots unfolding pairs by (simp add: atLeast0LessThan)
    qed
  qed (use batch(3,4) slots in simp_all)
  ultimately show ?thesis using batch(1,5-7) by (intro exI [of _ eng']) (simp add: gpu_process_batch_into_def)
qed

end

end
