(* ===== verification/LittleEndian.thy ===== *)
theory LittleEndian
  imports Packing
begin

text \<open>
  What the two compute shaders share: little-endian words as they read and write them (\<open>le_val\<close> is
  the word of up to four bytes, and the shifted combinations of two words they compute are \<open>le_val\<close>
  of unaligned byte ranges), the arithmetic of byte positions on \<open>u32\<close>, and accesses to a buffer.
\<close>

fun le_val :: "bytes \<Rightarrow> u32" where
  "le_val [] = 0"
| "le_val (b # bs) = ucast b OR push_bit 8 (le_val bs)"

lemma le_val_append: "le_val (xs @ ys) = le_val xs OR push_bit (8 * length xs) (le_val ys)"
  by (induction xs) (simp_all add: push_bit_or or.assoc flip: push_bit_push_bit)

lemma le_val_take: "le_val (take 4 xs) = le_val xs"
proof -
  have "push_bit 32 w = (0 :: u32)" for w by (rule bit_word_eqI) (simp add: bit_simps)
  then have "le_val (take 4 xs) OR push_bit (8 * length (take 4 xs)) (le_val (drop 4 xs)) = le_val (take 4 xs)"
    by (cases "length xs < 4") simp_all
  then show ?thesis by (metis append_take_drop_id le_val_append)
qed

lemma drop_bit_8_Cons: "length bs < 4 \<Longrightarrow> drop_bit 8 (le_val (b # bs)) = le_val bs"
proof -
  assume l: "length bs < 4"
  have small: "\<not> bit (le_val xs) n" if "8 * length xs \<le> n" for xs n
    using that by (induction xs arbitrary: n) (auto simp: bit_simps dest: bit_imp_le_length)
  show "drop_bit 8 (le_val (b # bs)) = le_val bs"
    using l small [of bs] by (intro bit_word_eqI) (auto simp: bit_simps dest: bit_imp_le_length)
qed

lemma drop_bit_le_val: "length xs \<le> 4 \<Longrightarrow> drop_bit (8 * k) (le_val xs) = le_val (drop k xs)"
proof (induction k arbitrary: xs)
  case (Suc k)
  show ?case
  proof (cases xs)
    case (Cons b bs)
    have "drop_bit (8 * Suc k) (le_val xs) = drop_bit (8 * k) (drop_bit 8 (le_val xs))" by (simp add: add.commute)
    also have "drop_bit 8 (le_val xs) = le_val bs" unfolding Cons using Suc.prems by (intro drop_bit_8_Cons) (simp add: Cons)
    finally show ?thesis using Suc Cons by simp
  qed simp
qed simp

lemma le_val_low: "xs \<noteq> [] \<Longrightarrow> le_val xs AND 255 = ucast (hd xs)"
proof (cases xs)
  case (Cons b bs)
  have m: "(255 :: u32) = mask 8" by (simp add: mask_eq_exp_minus_1)
  show ?thesis unfolding Cons m
    by (intro bit_word_eqI) (auto simp: bit_simps dest: bit_imp_le_length)
qed simp

lemma le_val_u32_to_le [simp]: "le_val (u32_to_le w) = w"
proof (rule bit_word_eqI)
  fix n assume "n < LENGTH(32)"
  then consider "n < 8" | "8 \<le> n" "n < 16" | "16 \<le> n" "n < 24" | "24 \<le> n" "n < 32" by fastforce
  then show "bit (le_val (u32_to_le w)) n = bit w n"
    by cases (auto simp: u32_to_le_def bit_simps dest: bit_imp_le_length)
qed

lemma u32_to_le_le_val: "length xs = 4 \<Longrightarrow> u32_to_le (le_val xs) = xs"
proof -
  assume "length xs = 4"
  then obtain a b c d where xs: "xs = [a, b, c, d]" by (auto simp: length_Suc_conv eval_nat_numeral)
  have byte: "ucast (le_val ys) = hd ys" if "ys \<noteq> []" for ys :: bytes
    using that by (cases ys) (auto intro!: bit_word_eqI simp: bit_simps dest: bit_imp_le_length)
  show ?thesis using byte [of xs] byte [of "drop 1 xs"] byte [of "drop 2 xs"] byte [of "drop 3 xs"]
      drop_bit_le_val [of xs 1] drop_bit_le_val [of xs 2] drop_bit_le_val [of xs 3]
    by (simp add: u32_to_le_def xs del: le_val.simps)
qed

section \<open>Reading\<close>

lemma words_to_bytes_drop: "drop (4 * k) (words_to_bytes ws) = words_to_bytes (drop k ws)"
  by (induction ws arbitrary: k) (auto simp: words_to_bytes_def drop_Cons' algebra_simps split: nat_diff_split)

lemma words_to_bytes_append: "words_to_bytes (xs @ ys) = words_to_bytes xs @ words_to_bytes ys"
  by (simp add: words_to_bytes_def)

lemma words_to_bytes_take: "words_to_bytes (take n ws) = take (4 * n) (words_to_bytes ws)"
proof (induction ws arbitrary: n)
  case (Cons w ws)
  then show ?case by (cases n) (simp_all add: words_to_bytes_def)
qed (simp add: words_to_bytes_def)

lemma word_of_bytes: "k < length ws \<Longrightarrow> ws ! k = le_val (take 4 (drop (4 * k) (words_to_bytes ws)))"
  unfolding words_to_bytes_drop
  by (cases "drop k ws") (auto simp: words_to_bytes_def simp flip: Cons_nth_drop_Suc)

lemma take_drop_4: "take 4 (drop (4 * (p div 4)) xs) = take (p mod 4) (drop (4 * (p div 4)) xs) @ take (4 - p mod 4) (drop p xs)"
proof -
  have "drop (p mod 4) (drop (4 * (p div 4)) xs) = drop p xs" by (simp add: add.commute)
  moreover have "take 4 ys = take (p mod 4) ys @ take (4 - p mod 4) (drop (p mod 4) ys)" for ys :: "'a list"
    by (metis add_diff_inverse_nat le_less mod_less_divisor not_less take_add zero_less_numeral)
  ultimately show ?thesis by metis
qed

text \<open>The upper part of an aligned word from an unaligned position on.\<close>

lemma word_from:
  assumes "p < 4 * length ws"
  shows "drop_bit (8 * (p mod 4)) (ws ! (p div 4)) = le_val (take (4 - p mod 4) (drop p (words_to_bytes ws)))"
proof -
  have k: "p div 4 < length ws" using assms by linarith
  have "length (take 4 (drop (4 * (p div 4)) (words_to_bytes ws))) \<le> 4" by simp
  moreover have "drop (p mod 4) (take 4 (drop (4 * (p div 4)) (words_to_bytes ws)))
      = take (4 - p mod 4) (drop p (words_to_bytes ws))"
    by (simp add: drop_take add.commute)
  ultimately show ?thesis using drop_bit_le_val unfolding word_of_bytes [OF k] by metis
qed

lemma byte_from:
  assumes "p < 4 * length ws"
  shows "drop_bit (8 * (p mod 4)) (ws ! (p div 4)) AND 255 = ucast (words_to_bytes ws ! p)"
proof -
  have "take (4 - p mod 4) (drop p (words_to_bytes ws)) \<noteq> []" "hd (take (4 - p mod 4) (drop p (words_to_bytes ws))) = words_to_bytes ws ! p"
    using assms by (simp_all add: hd_drop_conv_nth)
  then show ?thesis unfolding word_from [OF assms] using le_val_low by metis
qed

lemma unaligned_word:
  assumes "p mod 4 \<noteq> 0" "p + 4 \<le> 4 * length ws"
  shows "drop_bit (8 * (p mod 4)) (ws ! (p div 4)) OR push_bit (32 - 8 * (p mod 4)) (ws ! (p div 4 + 1))
    = le_val (take 4 (drop p (words_to_bytes ws)))"
proof -
  let ?bs = "words_to_bytes ws" and ?r = "p mod 4"
  have len: "length (take (4 - ?r) (drop p ?bs)) = 4 - ?r" using assms(2) by simp
  have k: "p div 4 + 1 < length ws" using assms by presburger
  have next_pos: "4 * (p div 4 + 1) = p + (4 - ?r)" by presburger
  have glue: "take 4 (take (4 - ?r) ys @ take 4 (drop (4 - ?r) ys)) = take 4 ys" for ys :: bytes
    using take_add [of "4 - ?r" ?r ys] by (simp add: min_def) arith
  have "take 4 (drop p ?bs) = take 4 (take (4 - ?r) (drop p ?bs) @ take 4 (drop (4 * (p div 4 + 1)) ?bs))"
    using glue [of "drop p ?bs"] unfolding next_pos drop_drop by (simp only: add.commute)
  then have "le_val (take 4 (drop p ?bs)) = le_val (take (4 - ?r) (drop p ?bs) @ take 4 (drop (4 * (p div 4 + 1)) ?bs))"
    by (simp only: le_val_take)
  also have "\<dots> = le_val (take (4 - ?r) (drop p ?bs)) OR push_bit (8 * (4 - ?r)) (ws ! (p div 4 + 1))"
    unfolding le_val_append len word_of_bytes [OF k] ..
  finally show ?thesis using assms by (simp add: word_from diff_mult_distrib2)
qed

section \<open>Word arithmetic\<close>

lemma and_3: "unat (b AND 3 :: u32) = unat b mod 4"
proof -
  have "b AND 3 = take_bit 2 b" by (simp add: take_bit_eq_mask mask_eq_exp_minus_1)
  then have "unat (b AND 3) = take_bit 2 (unat b)" by (simp only: unsigned_take_bit_eq)
  then show ?thesis by (simp add: take_bit_eq_mod)
qed

lemma shift_of: "unat ((b AND 3 :: u32) * 8) = 8 * (unat b mod 4)"
proof -
  have "unat (b AND 3) * unat (8 :: u32) < 2 ^ LENGTH(32)" by (simp add: and_3)
  then have "unat ((b AND 3) * 8) = unat (b AND 3) * unat (8 :: u32)" by (rule iffD1 [OF unat_mult_lem])
  then show ?thesis by (simp add: and_3)
qed

lemma shift_zero: "(b AND 3 :: u32) * 8 = 0 \<longleftrightarrow> unat b mod 4 = 0"
  using shift_of [of b] by (metis mult_eq_0_iff numeral_eq_iff unat_eq_zero unsigned_0 zero_neq_numeral)

lemma shift_rest: "unat (32 - (b AND 3 :: u32) * 8) = 32 - 8 * (unat b mod 4)"
proof -
  have "(b AND 3) * 8 \<le> (32 :: u32)" using shift_of [of b] by (simp add: word_le_nat_alt)
  then show ?thesis by (simp add: unat_sub shift_of)
qed

lemmas shifts = shift_of shift_zero shift_rest

lemma unat_plus: "unat (a :: u32) + unat b \<le> U32_MAX \<Longrightarrow> unat (a + b) = unat a + unat b"
  by (rule iffD1 [OF unat_add_lem]) (simp add: U32_MAX_def)

lemma unat_div_4: "unat (b div 4 :: u32) = unat b div 4"
  by (simp add: unat_div)

lemma u32_next: "i < n \<Longrightarrow> unat ((i :: u32) + 1) = unat i + 1"
proof -
  assume "i < n"
  moreover have "unat n < 4294967296" using unsigned_less [of n, where 'a = nat] by simp
  ultimately have "unat i + unat (1 :: u32) < 2 ^ LENGTH(32)" by (simp add: word_less_nat_alt)
  then have "unat (i + 1) = unat i + unat (1 :: u32)" by (rule iffD1 [OF unat_add_lem])
  then show ?thesis by simp
qed

lemma remaining_next: "\<not> n \<le> (i :: u32) \<Longrightarrow> unat n - unat (i + 1) < unat n - unat i"
  using u32_next [of i n] by (simp add: not_le word_less_nat_alt)

section \<open>Buffer accesses\<close>

text \<open>An access outside the buffer is \<open>None\<close>.\<close>

definition fetch :: "'a list \<Rightarrow> u32 \<Rightarrow> 'a option" where
  "fetch xs i = index xs (unat i)"

definition store :: "'a list \<Rightarrow> u32 \<Rightarrow> 'a \<Rightarrow> 'a list option" where
  "store xs i v = set_at xs (unat i) v"

lemma fetch_nat: "m < length ws \<Longrightarrow> length ws \<le> U32_MAX \<Longrightarrow> fetch ws (of_nat m) = Some (ws ! m)"
  by (simp add: fetch_def index_def unat_of_nat_u32)

end
