(* ===== verification/PacketShader.thy ===== *)
theory PacketShader
  imports GpuEngine LittleEndian
begin

text \<open>
  The compute shader \<open>src/packet/packet.wgsl\<close>: one invocation of \<open>main\<close> per packet of a wave.
  All integers are \<open>u32\<close> and wrap. An access outside a storage buffer or a constant array, whose
  result WGSL leaves open, is \<open>None\<close>. The exchange of \<open>flow_claim\<close> succeeds when the slot has the
  expected state.
\<close>

section \<open>Buffers\<close>

text \<open>The constant arrays that \<open>packet_shader_source\<close> writes in front of the shader.\<close>

record response_arrays =
  ra_word_offsets :: "u32 list"
  ra_word_counts :: "u32 list"
  ra_lengths :: "u32 list"
  ra_checksum_sums :: "u32 list"
  ra_words :: "u32 list"

record packet_bindings =
  pb_input_meta :: "packet_meta list"
  pb_input_words :: "u32 list"
  pb_params :: engine_params
  pb_arrays :: response_arrays

record flow_slot =
  sl_state :: u32
  sl_key_hash :: u32
  sl_src_ip :: u32
  sl_dst_ip :: u32
  sl_ports :: u32
  sl_recv_next :: u32
  sl_send_next :: u32
  sl_send_unacked :: u32
  sl_last_client_seq :: u32
  sl_last_client_len :: u32
  sl_last_response_seq :: u32
  sl_last_response_ack :: u32
  sl_last_response_id :: u32
  sl_last_response_len :: u32
  sl_generation :: u32
  sl_padding :: u32

record packet_memory =
  me_output :: "u32 list"
  me_flows :: "flow_slot list"

abbreviation (input) STATE_FREE :: u32 where "STATE_FREE \<equiv> 0"
abbreviation (input) STATE_SYN_RECEIVED :: u32 where "STATE_SYN_RECEIVED \<equiv> 1"
abbreviation (input) STATE_ESTABLISHED :: u32 where "STATE_ESTABLISHED \<equiv> 2"
abbreviation (input) STATE_TOMBSTONE :: u32 where "STATE_TOMBSTONE \<equiv> 3"
definition STATE_CLAIMED :: u32 where "STATE_CLAIMED = 0xffffffff"
definition INVALID_INDEX :: u32 where "INVALID_INDEX = 0xffffffff"

abbreviation (input) WGSL_FIN :: u32 where "WGSL_FIN \<equiv> 0x01"
abbreviation (input) WGSL_SYN :: u32 where "WGSL_SYN \<equiv> 0x02"
abbreviation (input) WGSL_RST :: u32 where "WGSL_RST \<equiv> 0x04"
abbreviation (input) WGSL_PSH :: u32 where "WGSL_PSH \<equiv> 0x08"
abbreviation (input) WGSL_ACK :: u32 where "WGSL_ACK \<equiv> 0x10"

section \<open>Reading the input, writing the output\<close>

definition read_byte :: "packet_bindings \<Rightarrow> u32 \<Rightarrow> u32 \<Rightarrow> u32 option" where
  "read_byte d input_base byte_index = do {
     word \<leftarrow> fetch (pb_input_words d) (input_base + byte_index div 4);
     Some (drop_bit (unat ((byte_index AND 3) * 8)) word AND 0xff) }"

definition byte_swap_u32 :: "u32 \<Rightarrow> u32" where
  "byte_swap_u32 v = push_bit 24 (v AND 0x000000ff) OR push_bit 8 (v AND 0x0000ff00)
     OR drop_bit 8 (v AND 0x00ff0000) OR drop_bit 24 (v AND 0xff000000)"

definition read_u16_be :: "packet_bindings \<Rightarrow> u32 \<Rightarrow> u32 \<Rightarrow> u32 option" where
  "read_u16_be d input_base offset = do {
     word \<leftarrow> fetch (pb_input_words d) (input_base + offset div 4);
     let pair = drop_bit (unat ((offset AND 2) * 8)) word AND 0xffff;
     Some (push_bit 8 (pair AND 0xff) OR drop_bit 8 pair) }"

definition read_u32_be :: "packet_bindings \<Rightarrow> u32 \<Rightarrow> u32 \<Rightarrow> u32 option" where
  "read_u32_be d input_base offset = map_option byte_swap_u32 (fetch (pb_input_words d) (input_base + offset div 4))"

definition output_base :: "packet_bindings \<Rightarrow> u32 \<Rightarrow> u32" where
  "output_base d packet_index = pe_output_word_base (pb_params d) + packet_index * pe_output_stride_words (pb_params d)"

definition write_u16_be :: "packet_bindings \<Rightarrow> u32 \<Rightarrow> u32 \<Rightarrow> u32 \<Rightarrow> u32 list \<Rightarrow> u32 list option" where
  "write_u16_be d packet_index offset v out = do {
     let word_index = output_base d packet_index + offset div 4;
     let shift = (offset AND 2) * 8;
     let mask = push_bit (unat shift) 0xffff;
     let swapped = push_bit 8 (v AND 0xff) OR (drop_bit 8 v AND 0xff);
     old \<leftarrow> fetch out word_index;
     store out word_index ((old AND NOT mask) OR push_bit (unat shift) swapped) }"

definition write_u32_be :: "packet_bindings \<Rightarrow> u32 \<Rightarrow> u32 \<Rightarrow> u32 \<Rightarrow> u32 list \<Rightarrow> u32 list option" where
  "write_u32_be d packet_index offset v out = store out (output_base d packet_index + offset div 4) (byte_swap_u32 v)"

section \<open>The flow table\<close>

definition shader_flow_hash :: "u32 \<Rightarrow> u32 \<Rightarrow> u32 \<Rightarrow> u32 \<Rightarrow> u32" where
  "shader_flow_hash src dst sport dport =
     (let hash = 2166136261;
          hash = (hash XOR src) * 16777619;
          hash = (hash XOR dst) * 16777619;
          hash = (hash XOR sport) * 16777619
      in (hash XOR dport) * 16777619)"

definition packed_ports :: "u32 \<Rightarrow> u32 \<Rightarrow> u32" where
  "packed_ports sport dport = push_bit 16 sport OR dport"

text \<open>The key of a lookup: hash, addresses and packed ports.\<close>

record slot_key =
  sk_hash :: u32
  sk_src_ip :: u32
  sk_dst_ip :: u32
  sk_ports :: u32

definition flow_matches :: "flow_slot \<Rightarrow> slot_key \<Rightarrow> bool" where
  "flow_matches f k \<longleftrightarrow> sl_key_hash f = sk_hash k \<and> sl_src_ip f = sk_src_ip k \<and> sl_dst_ip f = sk_dst_ip k \<and> sl_ports f = sk_ports k"

definition probe_limit :: "packet_bindings \<Rightarrow> u32" where
  "probe_limit d = min (pe_flow_probe_limit (pb_params d)) (pe_flow_capacity (pb_params d))"

definition probe_slot :: "packet_bindings \<Rightarrow> slot_key \<Rightarrow> u32 \<Rightarrow> u32" where
  "probe_slot d k probe = (sk_hash k + probe) AND (pe_flow_capacity (pb_params d) - 1)"

function flow_find :: "packet_bindings \<Rightarrow> flow_slot list \<Rightarrow> slot_key \<Rightarrow> u32 \<Rightarrow> u32 option" where
  "flow_find d flows k probe =
     (if probe_limit d \<le> probe then Some INVALID_INDEX
      else do {
        let base = probe_slot d k probe;
        f \<leftarrow> fetch flows base;
        if sl_state f = STATE_FREE then Some INVALID_INDEX
        else if sl_state f \<noteq> STATE_CLAIMED \<and> sl_state f \<noteq> STATE_TOMBSTONE \<and> flow_matches f k then Some base
        else flow_find d flows k (probe + 1) })"
  by pat_completeness auto
termination
  by (relation "measure (\<lambda>(d, flows, k, probe). unat (probe_limit d) - unat probe)") (simp_all add: remaining_next)

definition claimed_slot :: "slot_key \<Rightarrow> flow_slot" where
  "claimed_slot k = \<lparr>sl_state = STATE_CLAIMED, sl_key_hash = sk_hash k, sl_src_ip = sk_src_ip k, sl_dst_ip = sk_dst_ip k,
     sl_ports = sk_ports k, sl_recv_next = 0, sl_send_next = 0, sl_send_unacked = 0, sl_last_client_seq = 0,
     sl_last_client_len = 0, sl_last_response_seq = 0, sl_last_response_ack = 0, sl_last_response_id = 0,
     sl_last_response_len = 0, sl_generation = 0, sl_padding = 0\<rparr>"

function flow_claim :: "packet_bindings \<Rightarrow> flow_slot list \<Rightarrow> slot_key \<Rightarrow> u32 \<Rightarrow> (flow_slot list \<times> u32) option" where
  "flow_claim d flows k probe =
     (if probe_limit d \<le> probe then Some (flows, INVALID_INDEX)
      else do {
        let base = probe_slot d k probe;
        f \<leftarrow> fetch flows base;
        if sl_state f = STATE_FREE \<or> sl_state f = STATE_TOMBSTONE then do {
          flows' \<leftarrow> store flows base (claimed_slot k);
          Some (flows', base) }
        else flow_claim d flows k (probe + 1) })"
  by pat_completeness auto
termination
  by (relation "measure (\<lambda>(d, flows, k, probe). unat (probe_limit d) - unat probe)") (simp_all add: remaining_next)

declare flow_find.simps [simp del] flow_claim.simps [simp del]

text \<open>A field update of one slot.\<close>

definition update_slot :: "u32 \<Rightarrow> (flow_slot \<Rightarrow> flow_slot) \<Rightarrow> flow_slot list \<Rightarrow> flow_slot list option" where
  "update_slot base f flows = do { s \<leftarrow> fetch flows base; store flows base (f s) }"

definition flow_release :: "u32 \<Rightarrow> flow_slot list \<Rightarrow> flow_slot list option" where
  "flow_release base = update_slot base (\<lambda>s. s\<lparr>sl_generation := sl_generation s + 1, sl_state := STATE_TOMBSTONE\<rparr>)"

section \<open>Checksums and packets\<close>

definition checksum_fold :: "u32 \<Rightarrow> u32" where
  "checksum_fold input_sum =
     (let sum = (input_sum AND 0xffff) + drop_bit 16 input_sum;
          sum = (sum AND 0xffff) + drop_bit 16 sum
      in NOT sum AND 0xffff)"

definition checksum_u32 :: "u32 \<Rightarrow> u32" where
  "checksum_u32 v = drop_bit 16 v + (v AND 0xffff)"

definition ipv4_checksum :: "u32 \<Rightarrow> u32 \<Rightarrow> u32 \<Rightarrow> u32" where
  "ipv4_checksum packet_len src dst =
     checksum_fold (0x4500 + packet_len + 0x4000 + 0x4006 + checksum_u32 src + checksum_u32 dst)"

definition RESPONSE_COUNT :: u32 where "RESPONSE_COUNT = of_nat (length PACKET_RESPONSES)"

text \<open>The fields of an outgoing packet, the parameters of \<open>emit_packet\<close>.\<close>

record out_packet =
  op_src_ip :: u32
  op_dst_ip :: u32
  op_src_port :: u32
  op_dst_port :: u32
  op_seq :: u32
  op_ack :: u32
  op_flags :: u32
  op_response_id :: u32

definition shader_tcp_checksum :: "packet_bindings \<Rightarrow> out_packet \<Rightarrow> u32 \<Rightarrow> u32 option" where
  "shader_tcp_checksum d p tcp_len = do {
     let sum = checksum_u32 (op_src_ip p) + checksum_u32 (op_dst_ip p) + 6 + tcp_len;
     let sum = sum + (op_src_port p + op_dst_port p);
     let sum = sum + (checksum_u32 (op_seq p) + checksum_u32 (op_ack p));
     let sum = sum + (0x5000 OR op_flags p);
     let sum = sum + 0xffff;
     sum \<leftarrow> (if op_response_id p < RESPONSE_COUNT
       then map_option (\<lambda>s. sum + s) (fetch (ra_checksum_sums (pb_arrays d)) (op_response_id p)) else Some sum);
     Some (checksum_fold sum) }"

definition write_ipv4 :: "packet_bindings \<Rightarrow> u32 \<Rightarrow> u32 \<Rightarrow> u32 \<Rightarrow> u32 \<Rightarrow> u32 list \<Rightarrow> u32 list option" where
  "write_ipv4 d packet_index len src dst out = do {
     let base = output_base d packet_index;
     out \<leftarrow> store out base (byte_swap_u32 (0x45000000 OR len));
     out \<leftarrow> store out (base + 1) (byte_swap_u32 0x00004000);
     out \<leftarrow> store out (base + 2) (byte_swap_u32 0x40060000);
     out \<leftarrow> write_u32_be d packet_index 12 src out;
     write_u32_be d packet_index 16 dst out }"

definition write_tcp :: "packet_bindings \<Rightarrow> u32 \<Rightarrow> out_packet \<Rightarrow> u32 list \<Rightarrow> u32 list option" where
  "write_tcp d packet_index p out = do {
     let base = output_base d packet_index;
     out \<leftarrow> store out (base + 5) (byte_swap_u32 (push_bit 16 (op_src_port p) OR op_dst_port p));
     out \<leftarrow> write_u32_be d packet_index 24 (op_seq p) out;
     out \<leftarrow> write_u32_be d packet_index 28 (op_ack p) out;
     out \<leftarrow> store out (base + 8) (byte_swap_u32 (0x50000000 OR push_bit 16 (op_flags p) OR 0xffff));
     store out (base + 9) 0 }"

definition write_checksums :: "packet_bindings \<Rightarrow> u32 \<Rightarrow> u32 \<Rightarrow> out_packet \<Rightarrow> u32 list \<Rightarrow> u32 list option" where
  "write_checksums d packet_index packet_len p out = do {
     let tcp_len = packet_len - 20;
     out \<leftarrow> write_u16_be d packet_index 10 (ipv4_checksum packet_len (op_src_ip p) (op_dst_ip p)) out;
     ck \<leftarrow> shader_tcp_checksum d p tcp_len;
     write_u16_be d packet_index 36 ck out }"

function copy_words :: "u32 list \<Rightarrow> u32 \<Rightarrow> u32 \<Rightarrow> u32 \<Rightarrow> u32 \<Rightarrow> u32 list \<Rightarrow> u32 list option" where
  "copy_words words source_base target_base word_count word_index out =
     (if word_count \<le> word_index then Some out
      else do {
        w \<leftarrow> fetch words (source_base + word_index);
        out \<leftarrow> store out (target_base + word_index) w;
        copy_words words source_base target_base word_count (word_index + 1) out })"
  by pat_completeness auto
termination
  by (relation "measure (\<lambda>(words, s, t, n, i, out). unat n - unat i)") (simp_all add: remaining_next)

declare copy_words.simps [simp del]

definition write_http_response :: "packet_bindings \<Rightarrow> u32 \<Rightarrow> u32 \<Rightarrow> u32 list \<Rightarrow> u32 list option" where
  "write_http_response d packet_index response_id out = do {
     source_base \<leftarrow> fetch (ra_word_offsets (pb_arrays d)) response_id;
     word_count \<leftarrow> fetch (ra_word_counts (pb_arrays d)) response_id;
     copy_words (ra_words (pb_arrays d)) source_base (output_base d packet_index + 10) word_count 0 out }"

definition emit_packet :: "packet_bindings \<Rightarrow> u32 \<Rightarrow> out_packet \<Rightarrow> u32 list \<Rightarrow> u32 list option" where
  "emit_packet d packet_index p out = do {
     payload_len \<leftarrow> (if op_response_id p < RESPONSE_COUNT then fetch (ra_lengths (pb_arrays d)) (op_response_id p) else Some 0);
     let packet_len = 40 + payload_len;
     out \<leftarrow> write_ipv4 d packet_index packet_len (op_src_ip p) (op_dst_ip p) out;
     out \<leftarrow> write_tcp d packet_index p out;
     out \<leftarrow> (if op_response_id p < RESPONSE_COUNT then write_http_response d packet_index (op_response_id p) out else Some out);
     out \<leftarrow> write_checksums d packet_index packet_len p out;
     store out packet_index packet_len }"

section \<open>Classifying a request\<close>

function crlf_loop :: "packet_bindings \<Rightarrow> u32 \<Rightarrow> u32 \<Rightarrow> u32 \<Rightarrow> u32 \<Rightarrow> u32 option" where
  "crlf_loop d input_base offset len i =
     (if len \<le> i + 1 then Some INVALID_INDEX
      else do {
        a \<leftarrow> read_byte d input_base (offset + i);
        b \<leftarrow> (if a = 13 then read_byte d input_base (offset + i + 1) else Some 0);
        if a = 13 \<and> b = 10 then Some i else crlf_loop d input_base offset len (i + 1) })"
  by pat_completeness auto
termination
  by (relation "measure (\<lambda>(d, b, off, len, i). unat len - unat (i + 1))") (simp, simp only: in_measure prod.case remaining_next simp_thms)

definition find_crlf :: "packet_bindings \<Rightarrow> u32 \<Rightarrow> u32 \<Rightarrow> u32 \<Rightarrow> u32 option" where
  "find_crlf d input_base offset len = (if len < 2 then Some INVALID_INDEX else crlf_loop d input_base offset len 0)"

text \<open>The index of the first byte \<open>wanted\<close> in the range, or \<open>INVALID_INDEX\<close>: \<open>find_space\<close>, and the
  search for the question mark.\<close>

function find_byte :: "packet_bindings \<Rightarrow> u32 \<Rightarrow> u32 \<Rightarrow> u32 \<Rightarrow> u32 \<Rightarrow> u32 \<Rightarrow> u32 option" where
  "find_byte d input_base offset wanted i end_index =
     (if end_index \<le> i then Some INVALID_INDEX
      else do {
        b \<leftarrow> read_byte d input_base (offset + i);
        if b = wanted then Some i else find_byte d input_base offset wanted (i + 1) end_index })"
  by pat_completeness auto
termination
  by (relation "measure (\<lambda>(d, b, off, w, i, n). unat n - unat i)") (simp_all add: remaining_next)

declare crlf_loop.simps [simp del] find_byte.simps [simp del]

definition find_space :: "packet_bindings \<Rightarrow> u32 \<Rightarrow> u32 \<Rightarrow> u32 \<Rightarrow> u32 \<Rightarrow> u32 option" where
  "find_space d input_base offset start end_index = find_byte d input_base offset 32 start end_index"

text \<open>Comparison with constant bytes, one after the other.\<close>

fun bytes_equal :: "packet_bindings \<Rightarrow> u32 \<Rightarrow> u32 \<Rightarrow> u32 list \<Rightarrow> bool option" where
  "bytes_equal d input_base offset [] = Some True"
| "bytes_equal d input_base offset (e # expected) = do {
     b \<leftarrow> read_byte d input_base offset;
     if b \<noteq> e then Some False else bytes_equal d input_base (offset + 1) expected }"

definition method_is_get :: "packet_bindings \<Rightarrow> u32 \<Rightarrow> u32 \<Rightarrow> u32 \<Rightarrow> bool option" where
  "method_is_get d input_base offset len = (if len \<noteq> 3 then Some False else bytes_equal d input_base offset [71, 69, 84])"

definition version_is_supported :: "packet_bindings \<Rightarrow> u32 \<Rightarrow> u32 \<Rightarrow> u32 \<Rightarrow> bool option" where
  "version_is_supported d input_base offset len =
     (if len \<noteq> 8 then Some False
      else do {
        same \<leftarrow> bytes_equal d input_base offset [72, 84, 84, 80, 47, 49, 46];
        if \<not> same then Some False
        else do {
          minor \<leftarrow> read_byte d input_base (offset + 7);
          Some (minor = 48 \<or> minor = 49) } })"

definition path_is_plaintext :: "packet_bindings \<Rightarrow> u32 \<Rightarrow> u32 \<Rightarrow> u32 \<Rightarrow> bool option" where
  "path_is_plaintext d input_base offset len =
     (if len \<noteq> 10 then Some False
      else bytes_equal d input_base offset [47, 112, 108, 97, 105, 110, 116, 101, 120, 116])"

definition path_is_health :: "packet_bindings \<Rightarrow> u32 \<Rightarrow> u32 \<Rightarrow> u32 \<Rightarrow> bool option" where
  "path_is_health d input_base offset len =
     (if len \<noteq> 7 then Some False else bytes_equal d input_base offset [47, 104, 101, 97, 108, 116, 104])"

definition shader_classify :: "packet_bindings \<Rightarrow> u32 \<Rightarrow> u32 \<Rightarrow> u32 \<Rightarrow> u32 option" where
  "shader_classify d input_base payload_offset payload_len = do {
     line_end \<leftarrow> find_crlf d input_base payload_offset payload_len;
     if line_end = INVALID_INDEX then Some RESPONSE_BAD_REQUEST
     else do {
       first_space \<leftarrow> find_space d input_base payload_offset 0 line_end;
       if first_space = INVALID_INDEX then Some RESPONSE_BAD_REQUEST
       else do {
         second_space \<leftarrow> find_space d input_base payload_offset (first_space + 1) line_end;
         if second_space = INVALID_INDEX \<or> second_space = first_space + 1 then Some RESPONSE_BAD_REQUEST
         else do {
           supported \<leftarrow> version_is_supported d input_base (payload_offset + second_space + 1) (line_end - second_space - 1);
           if \<not> supported then Some RESPONSE_BAD_REQUEST
           else do {
             get \<leftarrow> method_is_get d input_base payload_offset first_space;
             if \<not> get then Some RESPONSE_METHOD_NOT_ALLOWED
             else do {
               let path_offset = payload_offset + first_space + 1;
               let path_len = second_space - first_space - 1;
               mark \<leftarrow> find_byte d input_base path_offset 63 0 path_len;
               let path_len = (if mark = INVALID_INDEX then path_len else mark);
               plaintext \<leftarrow> path_is_plaintext d input_base path_offset path_len;
               if plaintext then Some RESPONSE_PLAINTEXT
               else do {
                 health \<leftarrow> path_is_health d input_base path_offset path_len;
                 Some (if health then RESPONSE_HEALTH else RESPONSE_NOT_FOUND) } } } } } } }"

section \<open>One invocation\<close>

text \<open>The local variables of \<open>main\<close> once the packet is parsed.\<close>

record packet_fields =
  pf_input_base :: u32
  pf_payload_offset :: u32
  pf_payload_len :: u32
  pf_src_ip :: u32
  pf_dst_ip :: u32
  pf_src_port :: u32
  pf_dst_port :: u32
  pf_seq :: u32
  pf_ack :: u32
  pf_flags :: u32

definition answer_to :: "packet_fields \<Rightarrow> u32 \<Rightarrow> u32 \<Rightarrow> u32 \<Rightarrow> u32 \<Rightarrow> out_packet" where
  "answer_to v seq ack flags response_id = \<lparr>op_src_ip = pf_dst_ip v, op_dst_ip = pf_src_ip v, op_src_port = pf_dst_port v,
     op_dst_port = pf_src_port v, op_seq = seq, op_ack = ack, op_flags = flags, op_response_id = response_id\<rparr>"

definition answer_packet :: "packet_bindings \<Rightarrow> u32 \<Rightarrow> out_packet \<Rightarrow> packet_memory \<Rightarrow> packet_memory option" where
  "answer_packet d packet_index p mem = do {
     out \<leftarrow> emit_packet d packet_index p (me_output mem);
     Some (mem\<lparr>me_output := out\<rparr>) }"

definition with_flows :: "packet_memory \<Rightarrow> flow_slot list option \<Rightarrow> packet_memory option" where
  "with_flows mem m = map_option (\<lambda>flows. mem\<lparr>me_flows := flows\<rparr>) m"

definition main_key :: "packet_fields \<Rightarrow> slot_key" where
  "main_key v = \<lparr>sk_hash = shader_flow_hash (pf_src_ip v) (pf_dst_ip v) (pf_src_port v) (pf_dst_port v),
     sk_src_ip = pf_src_ip v, sk_dst_ip = pf_dst_ip v, sk_ports = packed_ports (pf_src_port v) (pf_dst_port v)\<rparr>"

text \<open>The branch of a SYN without ACK.\<close>

definition open_flow :: "packet_fields \<Rightarrow> u32 \<Rightarrow> flow_slot \<Rightarrow> flow_slot" where
  "open_flow v isn s = s\<lparr>sl_recv_next := pf_seq v + 1, sl_send_next := isn + 1, sl_send_unacked := isn,
     sl_last_response_len := 0, sl_state := STATE_SYN_RECEIVED\<rparr>"

definition answer_syn :: "packet_bindings \<Rightarrow> u32 \<Rightarrow> packet_fields \<Rightarrow> u32 \<Rightarrow> packet_memory \<Rightarrow> packet_memory option" where
  "answer_syn d packet_index v base mem = do {
     s \<leftarrow> fetch (me_flows mem) base;
     if sl_state s = STATE_SYN_RECEIVED
     then answer_packet d packet_index (answer_to v (sl_send_next s - 1) (sl_recv_next s) (WGSL_SYN OR WGSL_ACK) INVALID_INDEX) mem
     else if sl_state s = STATE_ESTABLISHED
     then answer_packet d packet_index (answer_to v (sl_send_next s) (sl_recv_next s) WGSL_ACK INVALID_INDEX) mem
     else Some mem }"

definition main_syn :: "packet_bindings \<Rightarrow> u32 \<Rightarrow> packet_fields \<Rightarrow> packet_memory \<Rightarrow> packet_memory option" where
  "main_syn d packet_index v mem = do {
     base \<leftarrow> flow_find d (me_flows mem) (main_key v) 0;
     if base = INVALID_INDEX then do {
       (flows, base) \<leftarrow> flow_claim d (me_flows mem) (main_key v) 0;
       let mem = mem\<lparr>me_flows := flows\<rparr>;
       if base = INVALID_INDEX then Some mem
       else do {
         let isn = sk_hash (main_key v) XOR 0xa5a55a5a;
         mem \<leftarrow> with_flows mem (update_slot base (open_flow v isn) (me_flows mem));
         answer_syn d packet_index v base mem } }
     else answer_syn d packet_index v base mem }"

text \<open>A segment of an established connection, from the update of \<open>send_unacked\<close> on.\<close>

definition remember_response :: "packet_fields \<Rightarrow> u32 \<Rightarrow> u32 \<Rightarrow> u32 \<Rightarrow> flow_slot \<Rightarrow> flow_slot" where
  "remember_response v next_ack response_id response_len s =
     s\<lparr>sl_recv_next := next_ack, sl_send_next := sl_send_next s + response_len, sl_last_client_seq := pf_seq v,
       sl_last_client_len := pf_payload_len v, sl_last_response_seq := sl_send_next s, sl_last_response_ack := next_ack,
       sl_last_response_id := response_id, sl_last_response_len := response_len\<rparr>"

definition main_data :: "packet_bindings \<Rightarrow> u32 \<Rightarrow> packet_fields \<Rightarrow> u32 \<Rightarrow> flow_slot \<Rightarrow> packet_memory \<Rightarrow> packet_memory option" where
  "main_data d packet_index v base s mem = do {
     let has_fin = (pf_flags v AND WGSL_FIN \<noteq> 0);
     if pf_payload_len v = 0 then
       (if \<not> has_fin then Some mem
        else do {
          mem \<leftarrow> answer_packet d packet_index (answer_to v (sl_send_next s) (pf_seq v + 1) WGSL_ACK INVALID_INDEX) mem;
          with_flows mem (flow_release base (me_flows mem)) })
     else do {
       response_id \<leftarrow> shader_classify d (pf_input_base v) (pf_payload_offset v) (pf_payload_len v);
       response_len \<leftarrow> fetch (ra_lengths (pb_arrays d)) response_id;
       let next_ack = pf_seq v + pf_payload_len v;
       let next_ack = (if has_fin then next_ack + 1 else next_ack);
       mem \<leftarrow> with_flows mem (update_slot base (remember_response v next_ack response_id response_len) (me_flows mem));
       mem \<leftarrow> answer_packet d packet_index (answer_to v (sl_send_next s) next_ack (WGSL_ACK OR WGSL_PSH) response_id) mem;
       if has_fin then with_flows mem (flow_release base (me_flows mem)) else Some mem } }"

definition main_established :: "packet_bindings \<Rightarrow> u32 \<Rightarrow> packet_fields \<Rightarrow> u32 \<Rightarrow> packet_memory \<Rightarrow> packet_memory option" where
  "main_established d packet_index v base mem = do {
     s \<leftarrow> fetch (me_flows mem) base;
     mem \<leftarrow> (if pf_flags v AND WGSL_ACK \<noteq> 0 \<and> pf_ack v = sl_send_next s
       then with_flows mem (update_slot base (\<lambda>s. s\<lparr>sl_send_unacked := pf_ack v\<rparr>) (me_flows mem)) else Some mem);
     if pf_seq v \<noteq> sl_recv_next s then
       (if pf_seq v = sl_last_client_seq s \<and> pf_payload_len v = sl_last_client_len s \<and> 0 < sl_last_response_len s
        then answer_packet d packet_index (answer_to v (sl_last_response_seq s) (sl_last_response_ack s)
               (WGSL_ACK OR WGSL_PSH) (sl_last_response_id s)) mem
        else answer_packet d packet_index (answer_to v (sl_send_next s) (sl_recv_next s) WGSL_ACK INVALID_INDEX) mem)
     else main_data d packet_index v base s mem }"

definition main_segment :: "packet_bindings \<Rightarrow> u32 \<Rightarrow> packet_fields \<Rightarrow> packet_memory \<Rightarrow> packet_memory option" where
  "main_segment d packet_index v mem = do {
     base \<leftarrow> flow_find d (me_flows mem) (main_key v) 0;
     if base = INVALID_INDEX then Some mem
     else if pf_flags v AND WGSL_RST \<noteq> 0 then with_flows mem (flow_release base (me_flows mem))
     else do {
       s \<leftarrow> fetch (me_flows mem) base;
       if sl_state s = STATE_SYN_RECEIVED then
         (if pf_flags v AND WGSL_ACK = 0 \<or> pf_ack v \<noteq> sl_send_next s \<or> pf_seq v \<noteq> sl_recv_next s then Some mem
          else do {
            mem \<leftarrow> with_flows mem (update_slot base (\<lambda>s. s\<lparr>sl_state := STATE_ESTABLISHED, sl_send_unacked := pf_ack v\<rparr>) (me_flows mem));
            main_established d packet_index v base mem })
       else if sl_state s \<noteq> STATE_ESTABLISHED then Some mem
       else main_established d packet_index v base mem } }"

text \<open>Parsing; \<open>None\<close> inside is the early return without an answer.\<close>

definition main_parse :: "packet_bindings \<Rightarrow> packet_meta \<Rightarrow> packet_fields option option" where
  "main_parse d meta = do {
     let input_len = pm_len meta;
     let input_base = pm_word_offset meta;
     if input_len < 40 then Some None else do {
     version_ihl \<leftarrow> read_byte d input_base 0;
     protocol \<leftarrow> read_byte d input_base 9;
     if drop_bit 4 version_ihl \<noteq> 4 \<or> protocol \<noteq> 6 then Some None else do {
     let ip_header_len = (version_ihl AND 0x0f) * 4;
     if ip_header_len < 20 \<or> input_len < ip_header_len + 20 then Some None else do {
     fragment \<leftarrow> read_u16_be d input_base 6;
     if fragment AND 0x3fff \<noteq> 0 then Some None else do {
     total_len \<leftarrow> read_u16_be d input_base 2;
     if input_len < total_len \<or> total_len < ip_header_len + 20 then Some None else do {
     let tcp_offset = ip_header_len;
     offset_byte \<leftarrow> read_byte d input_base (tcp_offset + 12);
     let data_offset = drop_bit 4 offset_byte * 4;
     if data_offset < 20 \<or> total_len < tcp_offset + data_offset then Some None else do {
     let payload_offset = tcp_offset + data_offset;
     let payload_len = total_len - payload_offset;
     src \<leftarrow> read_u32_be d input_base 12;
     dst \<leftarrow> read_u32_be d input_base 16;
     sport \<leftarrow> read_u16_be d input_base tcp_offset;
     dport \<leftarrow> read_u16_be d input_base (tcp_offset + 2);
     if dport \<noteq> pe_listen_port (pb_params d) then Some None else do {
     seq \<leftarrow> read_u32_be d input_base (tcp_offset + 4);
     ack \<leftarrow> read_u32_be d input_base (tcp_offset + 8);
     flags \<leftarrow> read_byte d input_base (tcp_offset + 13);
     Some (Some \<lparr>pf_input_base = input_base, pf_payload_offset = payload_offset, pf_payload_len = payload_len,
       pf_src_ip = src, pf_dst_ip = dst, pf_src_port = sport, pf_dst_port = dport, pf_seq = seq, pf_ack = ack,
       pf_flags = flags\<rparr>) } } } } } } } }"

definition packet_main :: "packet_bindings \<Rightarrow> u32 \<Rightarrow> packet_memory \<Rightarrow> packet_memory option" where
  "packet_main d packet_index mem =
     (if pe_packet_count (pb_params d) \<le> packet_index then Some mem
      else do {
        out \<leftarrow> store (me_output mem) packet_index 0;
        let mem = mem\<lparr>me_output := out\<rparr>;
        meta \<leftarrow> fetch (pb_input_meta d) packet_index;
        parsed \<leftarrow> main_parse d meta;
        case parsed of None \<Rightarrow> Some mem
        | Some v \<Rightarrow>
            if pf_flags v AND WGSL_SYN \<noteq> 0 \<and> pf_flags v AND WGSL_ACK = 0 then main_syn d packet_index v mem
            else main_segment d packet_index v mem })"

text \<open>The invocations of a dispatch, in the order given.\<close>

fun packet_invocations :: "packet_bindings \<Rightarrow> nat list \<Rightarrow> packet_memory \<Rightarrow> packet_memory option" where
  "packet_invocations d [] mem = Some mem"
| "packet_invocations d (i # order) mem = do {
     mem \<leftarrow> packet_main d (of_nat i) mem;
     packet_invocations d order mem }"

end
