(* ===== verification/PacketShaderIO.thy ===== *)
theory PacketShaderIO
  imports PacketShader
begin

text \<open>
  What the packet shader reads: on an input buffer that holds the bytes of a packet, the readers give
  the big-endian fields, the parser of \<open>main\<close> accepts exactly the packets the CPU parser accepts and
  finds the same fields.
\<close>

section \<open>Readers\<close>

text \<open>The input buffer holds \<open>bs\<close> from word \<open>base\<close> on.\<close>

definition input_at :: "packet_bindings \<Rightarrow> u32 \<Rightarrow> bytes \<Rightarrow> bool" where
  "input_at d base bs \<longleftrightarrow> length bs \<le> MAX_RAW_PACKET_BYTES \<and> length (pb_input_words d) \<le> U32_MAX
     \<and> 4 * unat base + length bs \<le> 4 * length (pb_input_words d)
     \<and> take (length bs) (drop (4 * unat base) (words_to_bytes (pb_input_words d))) = bs"

lemma input_byte:
  assumes "input_at d base bs" "i < length bs"
  shows "words_to_bytes (pb_input_words d) ! (4 * unat base + i) = bs ! i"
proof -
  have "bs ! i = take (length bs) (drop (4 * unat base) (words_to_bytes (pb_input_words d))) ! i"
    using assms(1) by (simp add: input_at_def)
  then show ?thesis using assms by (simp add: input_at_def)
qed

text \<open>The aligned word around a byte position.\<close>

lemma input_word:
  assumes "input_at d base bs" "unat i < length bs"
  shows "fetch (pb_input_words d) (base + i div 4) = Some (pb_input_words d ! (unat base + unat i div 4))"
    and "unat base + unat i div 4 < length (pb_input_words d)"
proof -
  show l: "unat base + unat i div 4 < length (pb_input_words d)" using assms by (auto simp: input_at_def)
  have "length (pb_input_words d) \<le> U32_MAX" using assms(1) by (simp add: input_at_def)
  then have "unat (base + i div 4) = unat base + unat i div 4"
    using l by (subst unat_plus) (simp_all add: unat_div_4)
  then show "fetch (pb_input_words d) (base + i div 4) = Some (pb_input_words d ! (unat base + unat i div 4))"
    using l by (simp add: fetch_def index_def)
qed

lemma read_byte_input:
  assumes "input_at d base bs" "unat i < length bs"
  shows "read_byte d base i = Some (ucast (bs ! unat i))"
proof -
  let ?ws = "pb_input_words d" and ?p = "4 * unat base + unat i"
  have p: "?p div 4 = unat base + unat i div 4" "?p mod 4 = unat i mod 4" by simp_all
  have "?p < 4 * length ?ws" using assms by (simp add: input_at_def)
  from byte_from [OF this] show ?thesis
    using input_word [OF assms] input_byte [OF assms] by (simp add: read_byte_def shift_of p)
qed

text \<open>A word of four bytes of the packet.\<close>

lemma input_word_bytes:
  assumes "input_at d base bs" "j + 4 \<le> length bs" "j mod 4 = 0"
  shows "pb_input_words d ! (unat base + j div 4) = le_val [bs ! j, bs ! (j + 1), bs ! (j + 2), bs ! (j + 3)]"
proof -
  let ?ws = "pb_input_words d"
  have k: "unat base + j div 4 < length ?ws" using assms(1,2) by (auto simp: input_at_def)
  have "4 * (unat base + j div 4) = 4 * unat base + j" using assms(3) by presburger
  then have "take 4 (drop (4 * (unat base + j div 4)) (words_to_bytes ?ws)) = take 4 (drop j (take (length bs) (drop (4 * unat base) (words_to_bytes ?ws))))"
    using assms(2) by (simp add: drop_take take_take ac_simps)
  also have "\<dots> = take 4 (drop j bs)" using assms(1) by (simp add: input_at_def)
  also have "\<dots> = [bs ! j, bs ! (j + 1), bs ! (j + 2), bs ! (j + 3)]"
    using assms(2) by (intro nth_equalityI) (auto simp: less_Suc_eq numeral_eq_Suc)
  finally show ?thesis using word_of_bytes [OF k] by simp
qed

lemma byte_masks: "(0x000000ff :: u32) = mask 8" "(0x0000ff00 :: u32) = push_bit 8 (mask 8)"
  "(0x00ff0000 :: u32) = push_bit 16 (mask 8)" "(0xff000000 :: u32) = push_bit 24 (mask 8)" "(0xffff :: u32) = mask 16"
  by (simp_all add: mask_eq_exp_minus_1 push_bit_eq_mult)

lemma byte_swap_le: "byte_swap_u32 (le_val [a, b, c, d]) = u32_from_be a b c d"
proof (rule bit_word_eqI)
  fix n assume "n < LENGTH(32)"
  then consider "n < 8" | "8 \<le> n" "n < 16" | "16 \<le> n" "n < 24" | "24 \<le> n" "n < 32" by fastforce
  then show "bit (byte_swap_u32 (le_val [a, b, c, d])) n = bit (u32_from_be a b c d) n"
    by cases (auto simp: byte_swap_u32_def u32_from_be_def byte_masks bit_simps dest: bit_imp_le_length)
qed

lemma pair_swapped:
  "(let pair = drop_bit (8 * k) w AND 0xffff in push_bit 8 (pair AND 0xff) OR drop_bit 8 pair)
    = (push_bit 8 (drop_bit (8 * k) w AND 0xff) OR (drop_bit (8 * (k + 1)) w AND 0xff) :: u32)"
  by (rule bit_word_eqI) (auto simp: byte_masks bit_simps Let_def add_ac)

lemma ucast_be16: "(ucast (u16_from_be a b) :: u32) = push_bit 8 (ucast a) OR ucast b"
  by (rule bit_word_eqI) (auto simp: u16_from_be_def bit_simps dest: bit_imp_le_length)

lemma and_2: "even (unat (i :: u32)) \<Longrightarrow> (i AND 2) * 8 = (i AND 3) * 8"
proof -
  assume "even (unat i)"
  then have "unat (i mod 2) = 0" by (simp only: unat_mod) simp
  then have "i AND 1 = 0" by (simp only: and_one_eq unat_eq_0)
  moreover have "i AND (2 OR 1) = i AND 2 OR i AND 1" by (rule bit.conj_disj_distrib)
  ultimately show ?thesis by simp
qed

lemma read_u16_input:
  assumes "input_at d base bs" "unat i + 1 < length bs" "even (unat i)"
  shows "read_u16_be d base i = Some (ucast (be16_at bs (unat i)))"
proof -
  let ?ws = "pb_input_words d" and ?p = "4 * unat base + unat i"
  have p: "?p div 4 = unat base + unat i div 4" "?p mod 4 = unat i mod 4" by simp_all
  have p1: "(?p + 1) div 4 = unat base + unat i div 4" "(?p + 1) mod 4 = unat i mod 4 + 1" using assms(3) by presburger+
  have i: "unat i < length bs" using assms(2) by simp
  have l: "?p < 4 * length ?ws" "?p + 1 < 4 * length ?ws" using assms by (simp_all add: input_at_def)
  note bytes = byte_from [OF l(1)] byte_from [OF l(2)]
  let ?w = "?ws ! (unat base + unat i div 4)"
  have "read_u16_be d base i = Some (push_bit 8 (drop_bit (8 * (unat i mod 4)) ?w AND 255) OR (drop_bit (8 * (unat i mod 4 + 1)) ?w AND 255))"
    unfolding pair_swapped [symmetric] using input_word [OF assms(1) i]
    by (simp only: read_u16_be_def and_2 [OF assms(3)] shift_of Option.bind.bind_lunit Let_def)
  also have "\<dots> = Some (push_bit 8 (ucast (bs ! unat i)) OR ucast (bs ! (unat i + 1)))"
    using bytes input_byte [OF assms(1) i] input_byte [OF assms(1,2)] unfolding p p1 by (simp only: add.assoc)
  finally show ?thesis by (simp add: be16_at_def ucast_be16)
qed

lemma read_u32_input:
  assumes "input_at d base bs" "unat i + 3 < length bs" "unat i mod 4 = 0"
  shows "read_u32_be d base i = Some (be32_at bs (unat i))"
proof -
  have i: "unat i < length bs" "unat i + 4 \<le> length bs" using assms(2) by simp_all
  show ?thesis using input_word [OF assms(1) i(1)] input_word_bytes [OF assms(1) i(2) assms(3)]
    by (simp add: read_u32_be_def byte_swap_le be32_at_def del: le_val.simps)
qed

section \<open>Parsing\<close>

lemma unat_ucast_u8: "unat (ucast (b :: u8) :: u32) = unat b"
  by (simp add: unsigned_ucast_eq take_bit_nat_eq_self less_le_trans [OF unat_u8_bound])

lemma ucast_eq_iff_32: "(ucast (b :: u8) :: u32) = ucast c \<longleftrightarrow> b = c" "(ucast (w :: u16) :: u32) = ucast w' \<longleftrightarrow> w = w'"
  by (metis unat_ucast_u8 unsigned_word_eqI) (metis unat_ucast_u16 unsigned_word_eqI)

lemma header_byte:
  "drop_bit 4 (ucast b :: u32) = 4 \<longleftrightarrow> drop_bit 4 (b :: u8) = 4"
  "(ucast b :: u32) = 6 \<longleftrightarrow> b = 6"
  "unat ((ucast b AND 0x0f :: u32) * 4) = unat (b AND 0x0f) * 4"
  "unat (drop_bit 4 (ucast b :: u32) * 4) = unat (drop_bit 4 b) * 4"
proof -
  have d: "drop_bit 4 (ucast b :: u32) = ucast (drop_bit 4 b)" by (simp add: ucast_drop_bit_eq)
  have four: "(4 :: u32) = ucast (4 :: u8)" "(6 :: u32) = ucast (6 :: u8)" "(15 :: u32) = ucast (15 :: u8)" by simp_all
  show "drop_bit 4 (ucast b :: u32) = 4 \<longleftrightarrow> drop_bit 4 b = 4" "(ucast b :: u32) = 6 \<longleftrightarrow> b = 6"
    unfolding d four by (rule ucast_eq_iff_32)+
  have a: "(ucast b AND 0x0f :: u32) = ucast (b AND 0x0f)" unfolding four by (simp add: unsigned_and_eq)
  have times: "unat ((ucast (c :: u8) :: u32) * 4) = unat c * 4" for c
  proof -
    have "unat c * 4 < 4294967296" using unat_u8_bound [of c] by simp
    then have "unat (ucast c :: u32) * unat (4 :: u32) < 2 ^ LENGTH(32)" by (simp add: unat_ucast_u8)
    then have "unat (ucast c * (4 :: u32)) = unat (ucast c :: u32) * unat (4 :: u32)" by (rule iffD1 [OF unat_mult_lem])
    then show ?thesis by (simp add: unat_ucast_u8)
  qed
  show "unat ((ucast b AND 0x0f :: u32) * 4) = unat (b AND 0x0f) * 4" unfolding a by (rule times)
  show "unat (drop_bit 4 (ucast b :: u32) * 4) = unat (drop_bit 4 b) * 4" unfolding d by (rule times)
qed

lemma fragment_field: "(ucast (w :: u16) :: u32) AND 0x3fff = 0 \<longleftrightarrow> w AND 0x3fff = 0"
proof -
  have c: "(0x3fff :: u32) = ucast (0x3fff :: u16)" "(0 :: u32) = ucast (0 :: u16)" by simp_all
  have "(ucast w :: u32) AND 0x3fff = ucast (w AND 0x3fff)" unfolding c by (simp add: unsigned_and_eq)
  then show ?thesis by (simp only: c(2) ucast_eq_iff_32)
qed

text \<open>The local variables of \<open>main\<close> on a packet that parses.\<close>

definition fields_at :: "u32 \<Rightarrow> bytes \<Rightarrow> packet_fields" where
  "fields_at base bs = \<lparr>pf_input_base = base, pf_payload_offset = of_nat (ihl bs + data_offset bs),
     pf_payload_len = of_nat (unat (be16_at bs 2) - (ihl bs + data_offset bs)),
     pf_src_ip = be32_at bs 12, pf_dst_ip = be32_at bs 16, pf_src_port = ucast (be16_at bs (ihl bs)),
     pf_dst_port = ucast (be16_at bs (ihl bs + 2)), pf_seq = be32_at bs (ihl bs + 4), pf_ack = be32_at bs (ihl bs + 8),
     pf_flags = ucast (bs ! (ihl bs + 13))\<rparr>"

lemma main_parse_input:
  assumes at: "input_at d base bs"
  shows "main_parse d \<lparr>pm_len = of_nat (length bs), pm_word_offset = base\<rparr> =
    Some (if well_formed_ipv4_tcp bs \<and> ucast (dst_port (key_at bs)) = pe_listen_port (pb_params d)
          then Some (fields_at base bs) else None)"
proof -
  define L where "L = (of_nat (length bs) :: u32)"
  have small: "length bs \<le> 1536" using at by (simp add: input_at_def MAX_RAW_PACKET_BYTES_def)
  then have L: "unat L = length bs" unfolding L_def by (intro unat_of_nat_u32) (simp add: U32_MAX_def)
  note cmp = word_less_nat_alt word_le_nat_alt L
  show ?thesis
  proof (cases "40 \<le> length bs")
    case False
    then show ?thesis by (simp add: main_parse_def well_formed_ipv4_tcp_def cmp flip: L_def)
  next
    case l40: True
    have ne: "bs \<noteq> []" using l40 by auto
    have b0: "read_byte d base 0 = Some (ucast (bs ! 0))" and b9: "read_byte d base 9 = Some (ucast (bs ! 9))"
      using read_byte_input [OF at, of 0] read_byte_input [OF at, of 9] l40 ne by simp_all
    define H where "H = (ucast (bs ! 0) AND 0x0f :: u32) * 4"
    have H: "unat H = ihl bs" unfolding H_def ihl_def by (rule header_byte)
    have h60: "ihl bs \<le> 60"
      using H header_byte(3) [of "bs ! 0"] word_and_le1 [of "bs ! 0" 15] by (simp add: ihl_def word_le_nat_alt)
    have plus: "unat (H + of_nat k) = ihl bs + k" if "k \<le> 60" for k
      using that h60 H by (subst unat_plus) (simp_all add: unat_of_nat_u32 U32_MAX_def)
    note hk = plus [of 2] plus [of 4] plus [of 8] plus [of 12] plus [of 13] plus [of 20]
    show ?thesis
    proof (cases "drop_bit 4 (bs ! 0) = 4 \<and> bs ! 9 = 6 \<and> 20 \<le> ihl bs \<and> ihl bs + 20 \<le> length bs")
      case False
      then show ?thesis using l40 hk
        by (auto simp: main_parse_def well_formed_ipv4_tcp_def cmp header_byte b0 b9 H simp flip: L_def H_def)
    next
      case hdr: True
      have fr: "read_u16_be d base 6 = Some (ucast (be16_at bs 6))" and tl: "read_u16_be d base 2 = Some (ucast (be16_at bs 2))"
        using read_u16_input [OF at, of 6] read_u16_input [OF at, of 2] l40 by simp_all
      let ?T = "unat (be16_at bs 2)"
      have T: "unat (ucast (be16_at bs 2) :: u32) = ?T" by (rule unat_ucast_u16)
      show ?thesis
      proof (cases "be16_at bs 6 AND 0x3fff = 0 \<and> ihl bs + 20 \<le> ?T \<and> ?T \<le> length bs")
        case False
        then show ?thesis using l40 hdr hk
          by (auto simp: main_parse_def well_formed_ipv4_tcp_def cmp header_byte b0 b9 H fr tl T fragment_field simp flip: L_def H_def)
      next
        case tot: True
        have ob: "read_byte d base (H + 12) = Some (ucast (bs ! (ihl bs + 12)))"
          using read_byte_input [OF at, of "H + 12"] hdr hk by simp
        define D where "D = (drop_bit 4 (ucast (bs ! (ihl bs + 12)) :: u32) * 4)"
        have D: "unat D = data_offset bs" unfolding D_def data_offset_def by (rule header_byte)
        have d60: "data_offset bs \<le> 60"
          using unat_u8_bound [of "bs ! (ihl bs + 12)"] unfolding data_offset_def unat_drop_bit_eq by (simp add: drop_bit_eq_div)
        have HD: "unat (H + D) = ihl bs + data_offset bs" using h60 d60 H D by (subst unat_plus) (simp_all add: U32_MAX_def)
        show ?thesis
        proof (cases "20 \<le> data_offset bs \<and> ihl bs + data_offset bs \<le> ?T")
          case False
          then show ?thesis using l40 hdr tot hk
            by (auto simp: main_parse_def well_formed_ipv4_tcp_def cmp header_byte b0 b9 H fr tl T fragment_field ob D HD simp flip: L_def H_def D_def)
        next
          case all: True
          have wf: "well_formed_ipv4_tcp bs" using l40 hdr tot all by (simp add: well_formed_ipv4_tcp_def)
          have ev: "even (ihl bs)" "ihl bs mod 4 = 0" "(ihl bs + 8) mod 4 = 0" by (simp_all add: ihl_def mod_simps)
          have sp: "read_u16_be d base H = Some (ucast (be16_at bs (ihl bs)))"
            and dp: "read_u16_be d base (H + 2) = Some (ucast (be16_at bs (ihl bs + 2)))"
            using read_u16_input [OF at, of H] read_u16_input [OF at, of "H + 2"] hdr hk H ev by simp_all
          have ips: "read_u32_be d base 12 = Some (be32_at bs 12)" "read_u32_be d base 16 = Some (be32_at bs 16)"
            using read_u32_input [OF at, of 12] read_u32_input [OF at, of 16] l40 by simp_all
          have nums: "read_u32_be d base (H + 4) = Some (be32_at bs (ihl bs + 4))" "read_u32_be d base (H + 8) = Some (be32_at bs (ihl bs + 8))"
            using read_u32_input [OF at, of "H + 4"] read_u32_input [OF at, of "H + 8"] hdr hk ev by simp_all
          have fl: "read_byte d base (H + 13) = Some (ucast (bs ! (ihl bs + 13)))"
            using read_byte_input [OF at, of "H + 13"] hdr hk by simp
          have off: "H + D = of_nat (ihl bs + data_offset bs)" by (simp flip: HD)
          have len: "ucast (be16_at bs 2) - (H + D) = (of_nat (?T - (ihl bs + data_offset bs)) :: u32)"
          proof -
            have "unat (ucast (be16_at bs 2) - (H + D)) = ?T - (ihl bs + data_offset bs)"
              using all HD T by (subst unat_sub) (simp_all add: word_le_nat_alt)
            then have "of_nat (unat (ucast (be16_at bs 2) - (H + D))) = (of_nat (?T - (ihl bs + data_offset bs)) :: u32)" by (simp only:)
            then show ?thesis by (simp only: of_nat_unat ucast_id)
          qed
          note fields = fields_at_def [of base bs, folded off, unfolded off, folded len, folded off]
          show ?thesis using l40 hdr tot all hk
            by (simp add: main_parse_def wf cmp header_byte b0 b9 H fr tl T fragment_field ob D HD sp dp ips nums fl
                fields key_at_def Let_def flip: L_def H_def D_def)
        qed
      qed
    qed
  qed
qed

end
