(* ===== verification/PacketShaderHttp.thy ===== *)
theory PacketShaderHttp
  imports PacketShaderIO
begin

text \<open>
  The request classifier of the packet shader and the one of the CPU engine are the same function.
  The shader's loops search by index; \<open>classify_line\<close> puts the CPU's splitting in the same form.
\<close>

section \<open>Searching\<close>

text \<open>The bytes \<open>bs\<close> can be read at an offset of the input.\<close>

definition readable :: "packet_bindings \<Rightarrow> u32 \<Rightarrow> u32 \<Rightarrow> bytes \<Rightarrow> bool" where
  "readable d base off bs \<longleftrightarrow> length bs \<le> MAX_RAW_PACKET_BYTES
     \<and> (\<forall>i. unat i < length bs \<longrightarrow> read_byte d base (off + i) = Some (ucast (bs ! unat i)))"

lemma readable_byte: "readable d base off bs \<Longrightarrow> unat i < length bs \<Longrightarrow> read_byte d base (off + i) = Some (ucast (bs ! unat i))"
  by (simp add: readable_def)

lemma readable_drop:
  assumes "readable d base off bs" "k \<le> length bs"
  shows "readable d base (off + of_nat k) (drop k bs)"
proof -
  have k: "unat (of_nat k :: u32) = k" using assms by (intro unat_of_nat_u32) (simp add: readable_def MAX_RAW_PACKET_BYTES_def U32_MAX_def)
  have "read_byte d base (off + of_nat k + i) = Some (ucast (drop k bs ! unat i))" if i: "unat i < length (drop k bs)" for i
  proof -
    have "unat (of_nat k + i) = k + unat i"
      using i assms k by (subst unat_plus) (auto simp: readable_def MAX_RAW_PACKET_BYTES_def U32_MAX_def)
    then show ?thesis using readable_byte [OF assms(1), of "of_nat k + i"] i by (simp add: add.assoc)
  qed
  then show ?thesis using assms(1) by (auto simp: readable_def)
qed

lemma readable_take: "readable d base off bs \<Longrightarrow> readable d base off (take k bs)"
  by (auto simp: readable_def)

definition found :: "nat option \<Rightarrow> u32" where
  "found r = (case r of None \<Rightarrow> INVALID_INDEX | Some n \<Rightarrow> of_nat n)"

lemma found_invalid:
  assumes "\<And>n. r = Some n \<Longrightarrow> n \<le> MAX_RAW_PACKET_BYTES"
  shows "found r = INVALID_INDEX \<longleftrightarrow> r = None"
proof (cases r)
  case (Some n)
  then have "unat (of_nat n :: u32) = n" "n < 4294967295"
    using assms by (auto intro!: unat_of_nat_u32 simp: MAX_RAW_PACKET_BYTES_def U32_MAX_def)
  moreover have "unat INVALID_INDEX = 4294967295" by (simp add: INVALID_INDEX_def)
  ultimately have "(of_nat n :: u32) \<noteq> INVALID_INDEX" by (metis less_irrefl)
  then show ?thesis using Some by (simp add: found_def)
qed (simp add: found_def)

lemma position_split:
  assumes "position (\<lambda>b. b = s) xs = Some p"
  shows "xs = take p xs @ s # drop (Suc p) xs" "s \<notin> set (take p xs)" "p < length xs"
proof -
  have p: "p < length xs" "xs ! p = s" "\<forall>j<p. xs ! j \<noteq> s" using assms by (simp_all add: position_Some_iff)
  then show "xs = take p xs @ s # drop (Suc p) xs" "p < length xs" by (metis id_take_nth_drop) (rule p(1))
  show "s \<notin> set (take p xs)" using p by (auto simp: in_set_conv_nth)
qed

lemma find_byte_position:
  assumes r: "readable d base off bs" and e: "unat e \<le> length bs" "unat i \<le> unat e"
  shows "find_byte d base off (ucast w) i e = Some (found (map_option ((+) (unat i)) (position (\<lambda>b. b = w) (drop (unat i) (take (unat e) bs)))))"
  using e(2)
proof (induction "unat e - unat i" arbitrary: i)
  case 0
  then have "unat i = unat e" by simp
  then show ?case by (subst find_byte.simps) (simp add: word_le_nat_alt found_def)
next
  case (Suc n)
  then have i: "unat i < unat e" by simp
  have nx: "unat (i + 1) = unat i + 1" using i by (intro u32_next) (simp add: word_less_nat_alt)
  have byte: "read_byte d base (off + i) = Some (ucast (bs ! unat i))" using r i e(1) by (intro readable_byte) simp_all
  have drop: "drop (unat i) (take (unat e) bs) = bs ! unat i # drop (unat (i + 1)) (take (unat e) bs)"
    using i e(1) nx by (subst Cons_nth_drop_Suc [symmetric]) simp_all
  have IH: "find_byte d base off (ucast w) (i + 1) e =
      Some (found (map_option ((+) (unat (i + 1))) (position (\<lambda>b. b = w) (drop (unat (i + 1)) (take (unat e) bs)))))"
    using Suc i nx by (intro Suc.hyps(1)) simp_all
  show ?case unfolding drop using i
    by (subst find_byte.simps) (simp add: word_le_nat_alt byte ucast_eq_iff_32 IH nx found_def split: option.split)
qed

lemma crlf_window:
  "Suc i < length bs \<Longrightarrow> find_window crlf (drop i bs) =
     (if bs ! i = 13 \<and> bs ! Suc i = 10 then Some 0 else map_option Suc (find_window crlf (drop (Suc i) bs)))"
  by (simp add: crlf_def flip: Cons_nth_drop_Suc)

lemma short_window: "length bs < 2 \<Longrightarrow> find_window crlf bs = None"
  using find_window_less [of crlf bs] by (cases "find_window crlf bs") (fastforce simp: crlf_def)+

lemma crlf_loop_window:
  assumes r: "readable d base off bs" and i: "unat i < length bs"
  shows "crlf_loop d base off (of_nat (length bs)) i = Some (found (map_option ((+) (unat i)) (find_window crlf (drop (unat i) bs))))"
  using i
proof (induction "length bs - unat i" arbitrary: i rule: less_induct)
  case less
  have small: "length bs \<le> U32_MAX" using r by (simp add: readable_def MAX_RAW_PACKET_BYTES_def U32_MAX_def)
  have nx: "unat (i + 1) = unat i + 1" using less.prems small by (subst unat_plus) simp_all
  have len: "of_nat (length bs) \<le> i + 1 \<longleftrightarrow> length bs \<le> unat i + 1" using small nx by (simp add: word_le_nat_alt)
  show ?case
  proof (cases "length bs \<le> unat i + 1")
    case True
    then have "find_window crlf (drop (unat i) bs) = None" by (intro short_window) simp
    then show ?thesis using True by (subst crlf_loop.simps) (simp add: len found_def)
  next
    case False
    then have i1: "Suc (unat i) < length bs" by simp
    have a: "read_byte d base (off + i) = Some (ucast (bs ! unat i))" using readable_byte [OF r] less.prems .
    have b: "read_byte d base (off + i + 1) = Some (ucast (bs ! Suc (unat i)))"
      using readable_byte [OF r, of "i + 1"] i1 nx by (simp add: add.assoc)
    have IH: "crlf_loop d base off (of_nat (length bs)) (i + 1) =
        Some (found (map_option ((+) (unat (i + 1))) (find_window crlf (drop (unat (i + 1)) bs))))"
      using i1 nx by (intro less.hyps) simp_all
    have eqs: "ucast x = (13 :: u32) \<longleftrightarrow> x = 13" "ucast x = (10 :: u32) \<longleftrightarrow> x = 10" for x :: u8
      using ucast_eq_iff_32(1) [of x 13] ucast_eq_iff_32(1) [of x 10] by simp_all
    show ?thesis unfolding crlf_window [OF i1] using False
      by (subst crlf_loop.simps) (simp add: len a b IH nx eqs found_def split: option.split)
  qed
qed

lemma find_crlf_window:
  assumes "readable d base off bs"
  shows "find_crlf d base off (of_nat (length bs)) = Some (found (find_window crlf bs))"
proof (cases "length bs < 2")
  case True
  then have "(of_nat (length bs) :: u32) < 2" by (auto simp: less_Suc_eq numeral_eq_Suc)
  then show ?thesis using short_window [OF True] by (simp add: find_crlf_def found_def)
next
  case False
  have "\<not> (of_nat (length bs) :: u32) < 2"
    using False assms by (simp add: word_less_nat_alt readable_def MAX_RAW_PACKET_BYTES_def U32_MAX_def)
  moreover have "map_option ((+) 0) m = (m :: nat option)" for m by (cases m) simp_all
  moreover have "0 < length bs" using False by linarith
  ultimately show ?thesis using crlf_loop_window [OF assms, of 0] by (simp add: find_crlf_def del: length_greater_0_conv)
qed

lemma bytes_equal_iff:
  assumes "readable d base off bs" "length expected \<le> length bs"
  shows "bytes_equal d base off (map ucast expected) = Some (take (length expected) bs = expected)"
  using assms
proof (induction expected arbitrary: off bs)
  case Nil
  then show ?case by simp
next
  case (Cons e expected)
  obtain b bs' where bs: "bs = b # bs'" using Cons.prems(2) by (cases bs) auto
  have "read_byte d base off = Some (ucast b)" using readable_byte [OF Cons.prems(1), of 0] bs by simp
  moreover have "readable d base (off + 1) bs'" using readable_drop [OF Cons.prems(1), of 1] bs by simp
  ultimately show ?case using Cons.IH [of "off + 1" bs'] Cons.prems(2) bs by (simp add: ucast_eq_iff_32)
qed

lemma of_nat_eq_small:
  assumes "m \<le> MAX_RAW_PACKET_BYTES" "n \<le> MAX_RAW_PACKET_BYTES"
  shows "(of_nat m :: u32) = of_nat n \<longleftrightarrow> m = n"
proof -
  have "unat (of_nat m :: u32) = m" "unat (of_nat n :: u32) = n"
    using assms by (auto intro!: unat_of_nat_u32 simp: MAX_RAW_PACKET_BYTES_def U32_MAX_def)
  then show ?thesis by metis
qed

lemma exactly_equal:
  assumes "readable d base off bs" "length expected \<le> MAX_RAW_PACKET_BYTES"
  shows "(if of_nat (length bs) \<noteq> (of_nat (length expected) :: u32) then Some False else bytes_equal d base off (map ucast expected))
    = Some (bs = expected)"
  using assms bytes_equal_iff [OF assms(1), of expected]
  by (auto simp: of_nat_eq_small readable_def)

lemma ascii_constants:
  "map ucast (ascii ''GET'') = [71, 69, 84 :: u32]" "map ucast (ascii ''HTTP/1.'') = [72, 84, 84, 80, 47, 49, 46 :: u32]"
  "map ucast (ascii ''/plaintext'') = [47, 112, 108, 97, 105, 110, 116, 101, 120, 116 :: u32]"
  "map ucast (ascii ''/health'') = [47, 104, 101, 97, 108, 116, 104 :: u32]"
  by (simp_all add: ascii_def)

lemma constant_tests:
  assumes "readable d base off bs"
  shows "method_is_get d base off (of_nat (length bs)) = Some (bs = ascii ''GET'')"
    "path_is_plaintext d base off (of_nat (length bs)) = Some (bs = ascii ''/plaintext'')"
    "path_is_health d base off (of_nat (length bs)) = Some (bs = ascii ''/health'')"
proof -
  note eq = exactly_equal [OF assms, of "ascii ''GET''"] exactly_equal [OF assms, of "ascii ''/plaintext''"]
    exactly_equal [OF assms, of "ascii ''/health''"]
  show "method_is_get d base off (of_nat (length bs)) = Some (bs = ascii ''GET'')"
    "path_is_plaintext d base off (of_nat (length bs)) = Some (bs = ascii ''/plaintext'')"
    "path_is_health d base off (of_nat (length bs)) = Some (bs = ascii ''/health'')"
    unfolding method_is_get_def path_is_plaintext_def path_is_health_def ascii_constants [symmetric]
    using eq by (simp_all add: MAX_RAW_PACKET_BYTES_def)
qed

lemma version_test:
  assumes "readable d base off bs"
  shows "version_is_supported d base off (of_nat (length bs)) = Some (supported_version bs)"
proof (cases "length bs = 8")
  case False
  then have "(of_nat (length bs) :: u32) \<noteq> of_nat 8"
    using assms of_nat_eq_small [of "length bs" 8] by (simp add: readable_def MAX_RAW_PACKET_BYTES_def)
  then show ?thesis using False by (auto simp: version_is_supported_def supported_version_def)
next
  case True
  have "bytes_equal d base off (map ucast (ascii ''HTTP/1.'')) = Some (take 7 bs = ascii ''HTTP/1.'')"
    using bytes_equal_iff [OF assms, of "ascii ''HTTP/1.''"] True by (simp add: eval_nat_numeral)
  moreover have "read_byte d base (off + 7) = Some (ucast (bs ! 7))" using readable_byte [OF assms, of 7] True by simp
  moreover have "bs = take 7 bs @ [bs ! 7]" using True by (metis Suc_numeral lessI semiring_norm(8) take_Suc_conv_app_nth take_all order_refl semiring_norm(2))
  moreover have "ucast x = (48 :: u32) \<longleftrightarrow> x = 48" "ucast x = (49 :: u32) \<longleftrightarrow> x = 49" for x :: u8
    using ucast_eq_iff_32(1) [of x 48] ucast_eq_iff_32(1) [of x 49] by simp_all
  moreover have "ascii ''HTTP/1.1'' = ascii ''HTTP/1.'' @ [49]" "ascii ''HTTP/1.0'' = ascii ''HTTP/1.'' @ [48]" by (simp_all add: ascii_def)
  ultimately show ?thesis using True
    by (simp add: version_is_supported_def supported_version_def ascii_constants) (metis append1_eq_conv)
qed

section \<open>The classifier\<close>

lemma hd_split: "hd (split_on s xs) = (case position (\<lambda>b. b = s) xs of None \<Rightarrow> xs | Some q \<Rightarrow> take q xs)"
proof (cases "position (\<lambda>b. b = s) xs")
  case None
  then have "s \<notin> set xs" by (auto simp: position_None_iff)
  then show ?thesis by (simp add: None split_on_no_sep)
next
  case (Some q)
  show ?thesis using position_split [OF Some] split_on_append [of s "take q xs"] Some by (metis list.sel(1) option.simps(5))
qed

definition path_route :: "packet_bindings \<Rightarrow> u32 \<Rightarrow> u32 \<Rightarrow> u32 \<Rightarrow> u32 option" where
  "path_route d base path_offset path_len = do {
     mark \<leftarrow> find_byte d base path_offset 63 0 path_len;
     let path_len = (if mark = INVALID_INDEX then path_len else mark);
     plaintext \<leftarrow> path_is_plaintext d base path_offset path_len;
     if plaintext then Some RESPONSE_PLAINTEXT
     else do {
       health \<leftarrow> path_is_health d base path_offset path_len;
       Some (if health then RESPONSE_HEALTH else RESPONSE_NOT_FOUND) } }"

lemma path_route_target:
  assumes "readable d base off t"
  shows "path_route d base off (of_nat (length t)) = Some (route_id (hd (split_on 63 t)))"
proof -
  let ?p = "position (\<lambda>b. b = 63) t"
  have small: "length t \<le> MAX_RAW_PACKET_BYTES" "unat (of_nat (length t) :: u32) = length t"
    using assms by (auto simp: readable_def MAX_RAW_PACKET_BYTES_def U32_MAX_def)
  have mark: "find_byte d base off 63 0 (of_nat (length t)) = Some (found ?p)"
    using find_byte_position [OF assms, of "of_nat (length t)" 0 63] small by (cases ?p) simp_all
  have inv: "found ?p = INVALID_INDEX \<longleftrightarrow> ?p = None"
    using small(1) by (intro found_invalid) (auto dest: position_less)
  have path: "(if found ?p = INVALID_INDEX then of_nat (length t) else found ?p) = of_nat (length (hd (split_on 63 t)))"
    unfolding inv hd_split by (auto simp: found_def split: option.split dest: position_less)
  have r: "readable d base off (hd (split_on 63 t))" unfolding hd_split using assms readable_take by (auto split: option.split)
  show ?thesis by (simp add: path_route_def mark path constant_tests [OF r] route_id_def Let_def)
qed

lemma classify_line:
  assumes "find_window crlf payload = Some n"
  shows "position (\<lambda>b. b = 32) (take n payload) = None \<Longrightarrow> classify_http_request payload = RESPONSE_BAD_REQUEST"
    and "take n payload = m @ 32 # l \<Longrightarrow> 32 \<notin> set m \<Longrightarrow> position (\<lambda>b. b = 32) l = None \<Longrightarrow> classify_http_request payload = RESPONSE_BAD_REQUEST"
    and "take n payload = m @ 32 # t @ 32 # v \<Longrightarrow> 32 \<notin> set m \<Longrightarrow> 32 \<notin> set t \<Longrightarrow> classify_http_request payload =
      (if t = [] \<or> \<not> supported_version v then RESPONSE_BAD_REQUEST
       else if m \<noteq> ascii ''GET'' then RESPONSE_METHOD_NOT_ALLOWED else route_id (hd (split_on 63 t)))"
proof -
  show "classify_http_request payload = RESPONSE_BAD_REQUEST" if "position (\<lambda>b. b = 32) (take n payload) = None"
    using that assms by (auto simp: classify_http_request_def Let_def position_None_iff split_on_no_sep)
  show "classify_http_request payload = RESPONSE_BAD_REQUEST"
    if "take n payload = m @ 32 # l" "32 \<notin> set m" "position (\<lambda>b. b = 32) l = None"
    using that assms by (auto simp: classify_http_request_def Let_def position_None_iff split_on_no_sep split_on_append)
  show "classify_http_request payload =
      (if t = [] \<or> \<not> supported_version v then RESPONSE_BAD_REQUEST
       else if m \<noteq> ascii ''GET'' then RESPONSE_METHOD_NOT_ALLOWED else route_id (hd (split_on 63 t)))"
    if l: "take n payload = m @ 32 # t @ 32 # v" "32 \<notin> set m" "32 \<notin> set t"
  proof -
    have parts: "split_on 32 (take n payload) = m # t # split_on 32 v" using l by (simp add: split_on_append)
    show ?thesis
    proof (cases "32 \<in> set v")
      case False
      then show ?thesis using assms parts
        by (simp add: classify_http_request_def Let_def split_on_no_sep supported_version_def route_id_def)
    next
      case True
      then have no: "\<not> supported_version v" by (auto simp: supported_version_def ascii_def)
      have "split_on 32 v \<noteq> [w]" for w
      proof
        assume *: "split_on 32 v = [w]"
        then have "w = v" using split_on_concat [of 32 v] by simp
        then show False using * True split_on_parts [of w 32 v] by simp
      qed
      then obtain w w' ws where "split_on 32 v = w # w' # ws" by (metis neq_Nil_conv split_on_not_Nil)
      then show ?thesis using assms parts no by (simp add: classify_http_request_def Let_def)
    qed
  qed
qed

lemma shader_classify_route: "shader_classify d base off len = do {
     line_end \<leftarrow> find_crlf d base off len;
     if line_end = INVALID_INDEX then Some RESPONSE_BAD_REQUEST
     else do {
       a \<leftarrow> find_space d base off 0 line_end;
       if a = INVALID_INDEX then Some RESPONSE_BAD_REQUEST
       else do {
         b \<leftarrow> find_space d base off (a + 1) line_end;
         if b = INVALID_INDEX \<or> b = a + 1 then Some RESPONSE_BAD_REQUEST
         else do {
           supported \<leftarrow> version_is_supported d base (off + b + 1) (line_end - b - 1);
           if \<not> supported then Some RESPONSE_BAD_REQUEST
           else do {
             get \<leftarrow> method_is_get d base off a;
             if \<not> get then Some RESPONSE_METHOD_NOT_ALLOWED else path_route d base (off + a + 1) (b - a - 1) } } } } }"
  unfolding shader_classify_def path_route_def Let_def ..

lemma shader_classify_input:
  assumes r: "readable d base off payload"
  shows "shader_classify d base off (of_nat (length payload)) = Some (classify_http_request payload)"
proof (cases "find_window crlf payload")
  case None
  then show ?thesis by (simp add: shader_classify_route find_crlf_window [OF r] found_def classify_http_request_def)
next
  case (Some n)
  define line where "line = take n payload"
  have n: "n \<le> length payload" using find_window_less [OF Some] by simp
  have small: "n \<le> MAX_RAW_PACKET_BYTES" "length line = n" using r n by (auto simp: readable_def line_def)
  have u: "unat (of_nat k :: u32) = k" if "k \<le> n" for k
    using that small by (intro unat_of_nat_u32) (simp add: MAX_RAW_PACKET_BYTES_def U32_MAX_def)
  have rl: "readable d base off line" unfolding line_def by (rule readable_take [OF r])
  have end_ok: "found (Some n) \<noteq> INVALID_INDEX" using found_invalid [of "Some n"] small by simp
  note cl = classify_line [OF Some, folded line_def]
  have sp: "find_space d base off (of_nat k) (of_nat n) = Some (found (map_option ((+) k) (position (\<lambda>b. b = 32) (drop k line))))"
    if "k \<le> n" for k
    using find_byte_position [OF rl, of "of_nat n" "of_nat k" 32] that u small(2) by (simp add: find_space_def)
  show ?thesis
  proof (cases "position (\<lambda>b. b = 32) line")
    case None
    then show ?thesis using end_ok sp [of 0] cl(1)
      by (simp add: shader_classify_route find_crlf_window [OF r] Some found_def)
  next
    case a: (Some a)
    define l where "l = drop (Suc a) line"
    note sa = position_split [OF a, folded l_def]
    have an: "a < n" using sa(3) small by simp
    have a_ok: "(of_nat a :: u32) \<noteq> INVALID_INDEX" using found_invalid [of "Some a"] an small by (simp add: found_def)
    have first: "find_space d base off 0 (of_nat n) = Some (of_nat a)" using sp [of 0] a by (simp add: found_def)
    have second: "find_space d base off (of_nat a + 1) (of_nat n) = Some (found (map_option ((+) (Suc a)) (position (\<lambda>b. b = 32) l)))"
      using sp [of "Suc a"] an by (simp add: l_def add.commute)
    show ?thesis
    proof (cases "position (\<lambda>b. b = 32) l")
      case None
      then show ?thesis using end_ok first second a_ok cl(2) [OF sa(1,2)]
        by (simp add: shader_classify_route find_crlf_window [OF r] Some found_def)
    next
      case b: (Some b)
      define v where "v = drop (Suc b) l"
      note sb = position_split [OF b, folded v_def]
      have bn: "a + b + 2 \<le> n" using sb(3) small an by (simp add: l_def)
      define B where "B = (of_nat (Suc a + b) :: u32)"
      have B: "B \<noteq> INVALID_INDEX" using found_invalid [of "Some (Suc a + b)"] bn small by (simp add: found_def B_def)
      have second: "find_space d base off (of_nat a + 1) (of_nat n) = Some B" using second b by (simp add: found_def B_def)
      have eq: "B = of_nat a + 1 \<longleftrightarrow> take b l = []"
      proof -
        have "(of_nat (Suc a + b) :: u32) = of_nat (Suc a) \<longleftrightarrow> b = 0" using bn small by (subst of_nat_eq_small) simp_all
        then show ?thesis using sb(3) by (auto simp: B_def add.commute)
      qed
      have rest: "drop (a + b + 2) line = v" "drop (Suc a) line = l" by (simp_all add: v_def l_def add.commute)
      have rv: "readable d base (off + B + 1) v"
        using readable_drop [OF rl, of "a + b + 2", unfolded rest] bn small(2) by (simp add: B_def add_ac)
      have lv: "of_nat n - B - 1 = (of_nat (length v) :: u32)"
      proof -
        have "n = length v + (a + b + 2)" using bn small(2) rest(1) by (metis le_add_diff_inverse2 length_drop)
        then show ?thesis by (simp add: B_def)
      qed
      have rt: "readable d base (off + of_nat a + 1) (take b l)"
        using readable_take [OF readable_drop [OF rl, of "Suc a"], of b] an small(2) by (simp add: rest add_ac)
      have lt: "B - of_nat a - 1 = (of_nat (length (take b l)) :: u32)" using sb(3) by (simp add: B_def)
      have rm: "readable d base off (take a line)" by (rule readable_take [OF rl])
      have lm: "of_nat a = (of_nat (length (take a line)) :: u32)" using an small(2) by simp
      have get: "method_is_get d base off (of_nat a) = Some (take a line = ascii ''GET'')"
        by (rule constant_tests(1) [OF rm, folded lm])
      have path: "path_route d base (off + of_nat a + 1) (B - of_nat a - 1) = Some (route_id (hd (split_on 63 (take b l))))"
        unfolding lt by (rule path_route_target [OF rt])
      have ver: "version_is_supported d base (off + B + 1) (of_nat n - B - 1) = Some (supported_version v)"
        unfolding lv by (rule version_test [OF rv])
      have split: "line = take a line @ 32 # take b l @ 32 # v" using sa(1) sb(1) by simp
      show ?thesis using end_ok a_ok B
        by (simp add: shader_classify_route find_crlf_window [OF r] Some found_def [of "Some n"] first second eq ver get path cl(3) [OF split sa(2) sb(2)])
    qed
  qed
qed

end
