(* ===== verification/Protocol.thy ===== *)
theory Protocol
  imports Prelude
begin

text \<open>
  \<open>src/protocol.rs\<close>: the HTTP response builder of the CPU path and the fixed error
  responses of the network layer; and the decimal printing of the standard library they use.
\<close>

section \<open>Decimal numbers\<close>

fun decimal :: "nat \<Rightarrow> bytes" where
  "decimal n = (if n < 10 then [of_nat (48 + n)] else decimal (n div 10) @ [of_nat (48 + n mod 10)])"

fun ilog10 :: "nat \<Rightarrow> nat" where
  "ilog10 n = (if n < 10 then 0 else Suc (ilog10 (n div 10)))"

declare decimal.simps [simp del] ilog10.simps [simp del]

definition decimal_digits :: "nat \<Rightarrow> nat" where
  "decimal_digits v = ilog10 (max v 1) + 1"

lemma length_decimal: "length (decimal n) = decimal_digits n"
proof -
  have "length (decimal n) = ilog10 n + 1"
  proof (induction n rule: decimal.induct)
    case (1 n)
    then show ?case by (subst decimal.simps, subst ilog10.simps) simp
  qed
  moreover have "ilog10 n = ilog10 (max n 1)" by (cases "n = 0") (simp_all add: ilog10.simps max_def)
  ultimately show ?thesis by (simp add: decimal_digits_def)
qed

lemma ilog10_mono: "m \<le> n \<Longrightarrow> ilog10 m \<le> ilog10 n"
proof (induction n arbitrary: m rule: ilog10.induct)
  case (1 n)
  show ?case
  proof (cases "m < 10")
    case True
    then show ?thesis by (simp add: ilog10.simps)
  next
    case False
    with 1(2) have "\<not> n < 10" "m div 10 \<le> n div 10" by (auto simp: div_le_mono)
    then show ?thesis using 1(1) False by (simp add: ilog10.simps [of m] ilog10.simps [of n])
  qed
qed

lemma decimal_digits_mono: "m \<le> n \<Longrightarrow> decimal_digits m \<le> decimal_digits n"
  by (simp add: decimal_digits_def ilog10_mono max.coboundedI1 max.mono)

lemma decimal_digits_bound: "n < 10 ^ k \<Longrightarrow> 0 < k \<Longrightarrow> decimal_digits n \<le> k"
proof -
  have "0 < k \<Longrightarrow> n < 10 ^ k \<Longrightarrow> ilog10 n < k" for n
  proof (induction k arbitrary: n)
    case (Suc k)
    show ?case
    proof (cases "n < 10")
      case False
      then have "0 < k" using Suc.prems(2) by (cases k) auto
      moreover have "n div 10 < 10 ^ k" using Suc.prems(2) by (simp add: less_mult_imp_div_less mult.commute)
      ultimately show ?thesis using Suc.IH False by (subst ilog10.simps) simp
    qed (simp add: ilog10.simps)
  qed simp
  then show "n < 10 ^ k \<Longrightarrow> 0 < k \<Longrightarrow> decimal_digits n \<le> k"
    by (cases "n = 0") (auto simp: decimal_digits_def ilog10.simps max_def Suc_le_eq)
qed

section \<open>Responses\<close>

definition CRLF :: bytes where "CRLF = [13, 10]"

definition build_response :: "u16 \<Rightarrow> bytes \<Rightarrow> bytes \<Rightarrow> bytes \<Rightarrow> bytes \<Rightarrow> bytes" where
  "build_response status reason content_type body backend =
     (let headers =
        ascii ''HTTP/1.1 '' @ decimal (unat status) @ ascii '' '' @ reason @ CRLF
        @ ascii ''Content-Type: '' @ content_type @ CRLF
        @ ascii ''Content-Length: '' @ decimal (length body) @ CRLF
        @ ascii ''Server: gput'' @ CRLF
        @ ascii ''X-Gput-Backend: '' @ backend @ CRLF
        @ CRLF
      in headers @ body)"

definition newline :: bytes where "newline = [10]"

definition request_timeout_response :: bytes where
  "request_timeout_response = build_response 408 (ascii ''Request Timeout'') (ascii ''text/plain; charset=utf-8'')
     (ascii ''request timeout'' @ newline) (ascii ''network'')"

definition payload_too_large_response :: bytes where
  "payload_too_large_response = build_response 413 (ascii ''Content Too Large'') (ascii ''text/plain; charset=utf-8'')
     (ascii ''request too large'' @ newline) (ascii ''network'')"

definition service_unavailable_response :: bytes where
  "service_unavailable_response = build_response 503 (ascii ''Service Unavailable'') (ascii ''text/plain; charset=utf-8'')
     (ascii ''server overloaded'' @ newline) (ascii ''network'')"

definition internal_server_error_response :: bytes where
  "internal_server_error_response = build_response 500 (ascii ''Internal Server Error'') (ascii ''text/plain; charset=utf-8'')
     (ascii ''processor failure'' @ newline) (ascii ''network'')"

definition incomplete_request_response :: bytes where
  "incomplete_request_response = build_response 400 (ascii ''Bad Request'') (ascii ''text/plain; charset=utf-8'')
     (ascii ''incomplete request'' @ newline) (ascii ''network'')"

definition GPU_ROOT_BODY :: bytes where
  "GPU_ROOT_BODY = ascii ''{\"name\":\"gput\",\"backend\":\"gpu\",\"message\":\"GET dispatched through a compute shader\"}'' @ newline"
definition CPU_ROOT_BODY :: bytes where
  "CPU_ROOT_BODY = ascii ''{\"name\":\"gput\",\"backend\":\"cpu\",\"message\":\"GET handled by the CPU baseline\"}'' @ newline"
definition HEALTH_BODY :: bytes where "HEALTH_BODY = ascii ''ok'' @ newline"
definition GPU_HELLO_BODY :: bytes where "GPU_HELLO_BODY = ascii ''hello from a compute shader'' @ newline"
definition CPU_HELLO_BODY :: bytes where "CPU_HELLO_BODY = ascii ''hello from the CPU baseline'' @ newline"
definition NOT_FOUND_BODY :: bytes where "NOT_FOUND_BODY = ascii ''not found'' @ newline"
definition BAD_REQUEST_BODY :: bytes where "BAD_REQUEST_BODY = ascii ''bad request'' @ newline"
definition METHOD_NOT_ALLOWED_BODY :: bytes where "METHOD_NOT_ALLOWED_BODY = ascii ''method not allowed'' @ newline"

text \<open>The UTF-8 bytes of the literal in the source.\<close>

definition UTF8_BODY :: bytes where
  "UTF8_BODY = ascii ''r'' @ [0xc3, 0xa4] @ ascii ''ksm'' @ [0xc3, 0xb6] @ ascii ''rg'' @ [0xc3, 0xa5] @ ascii ''s kostar ''
     @ [0xe2, 0x82, 0xac] @ ascii ''5, h'' @ [0xc3, 0xa4] @ ascii ''lsar UTF-8-ugglan '' @ [0xf0, 0x9f, 0xa6, 0x89]
     @ [0xf0, 0x9f, 0xa6, 0x80] @ newline"

lemma length_build_response:
  "length (build_response status reason content_type body backend) =
     80 + decimal_digits (unat status) + length reason + length content_type
       + decimal_digits (length body) + length backend + length body"
  by (simp add: build_response_def CRLF_def length_decimal)

end
