(* ===== verification/PacketShaderSource.thy ===== *)
theory PacketShaderSource
  imports PacketShader Protocol
begin

text \<open>
  \<open>packet_shader_source\<close> of \<open>src/packet/mod.rs\<close>: the constants and response tables that are written
  in front of the packet shader. \<open>arrays_hold\<close> says what the shader relies on, and
  \<open>packet_shader_arrays_hold\<close> that the tables of the code satisfy it.
\<close>

section \<open>The tables\<close>

function pad_to_word :: "bytes \<Rightarrow> bytes" where
  "pad_to_word bs = (if length bs mod 4 = 0 then bs else pad_to_word (bs @ [0]))"
  by pat_completeness auto
termination
  by (relation "measure (\<lambda>bs. 4 * div_ceil (length bs) 4 - length bs)") (auto simp: div_ceil_def, presburger)

declare pad_to_word.simps [simp del]

fun response_loop :: "bytes list \<Rightarrow> bytes \<Rightarrow> response_arrays \<Rightarrow> bytes \<times> response_arrays" where
  "response_loop [] response_bytes ra = (response_bytes, ra)"
| "response_loop (r # rs) response_bytes ra =
     (let response_bytes = pad_to_word response_bytes in
      response_loop rs (response_bytes @ r)
        (ra\<lparr>ra_word_offsets := ra_word_offsets ra @ [of_nat (length response_bytes div 4)],
            ra_word_counts := ra_word_counts ra @ [of_nat (div_ceil (length r) 4)],
            ra_lengths := ra_lengths ra @ [of_nat (length r)],
            ra_checksum_sums := ra_checksum_sums ra @ [internet_checksum_sum r]\<rparr>))"

definition packet_shader_arrays :: "response_arrays option" where
  "packet_shader_arrays =
     (let (response_bytes, ra) = response_loop PACKET_RESPONSES []
            \<lparr>ra_word_offsets = [], ra_word_counts = [], ra_lengths = [], ra_checksum_sums = [], ra_words = []\<rparr>
      in map_option (\<lambda>words. ra\<lparr>ra_words := words\<rparr>) (pack_bytes response_bytes))"

section \<open>The text\<close>

definition const_u32 :: "string \<Rightarrow> nat \<Rightarrow> bytes" where
  "const_u32 name v = ascii ''const '' @ ascii name @ ascii '': u32 = '' @ decimal v @ ascii ''u;'' @ newline"

definition array_line :: "string \<Rightarrow> nat \<Rightarrow> bytes" where
  "array_line name n = ascii ''const '' @ ascii name @ ascii '': array<u32, '' @ decimal n @ ascii ''> = array<u32, ''
     @ decimal n @ ascii ''>('' @ newline"

definition write_u32_array :: "string \<Rightarrow> u32 list \<Rightarrow> bytes" where
  "write_u32_array name values = array_line name (length values)
     @ concat (map (\<lambda>v. decimal (unat v) @ ascii ''u,'') values) @ ascii '');'' @ newline"

definition hex_digit :: "u32 \<Rightarrow> u8" where
  "hex_digit v = (if v < 10 then ucast v + 48 else ucast v + 87)"

text \<open>\<open>{word:08x}\<close>\<close>

definition hex8 :: "u32 \<Rightarrow> bytes" where
  "hex8 w = map (\<lambda>k. hex_digit (drop_bit (4 * k) w AND 0xf)) [7, 6, 5, 4, 3, 2, 1, 0]"

function hex_lines :: "u32 list \<Rightarrow> bytes" where
  "hex_lines words = (if words = [] then []
     else concat (map (\<lambda>w. ascii ''0x'' @ hex8 w @ ascii ''u,'') (take 8 words)) @ newline @ hex_lines (drop 8 words))"
  by pat_completeness auto
termination by (relation "measure length") simp_all

declare hex_lines.simps [simp del]

definition packet_shader_source :: "bytes \<Rightarrow> bytes option" where
  "packet_shader_source shader_body = do {
     ra \<leftarrow> packet_shader_arrays;
     Some (const_u32 ''RESPONSE_COUNT'' (length PACKET_RESPONSES)
       @ const_u32 ''RESPONSE_PLAINTEXT'' (unat RESPONSE_PLAINTEXT)
       @ const_u32 ''RESPONSE_HEALTH'' (unat RESPONSE_HEALTH)
       @ const_u32 ''RESPONSE_BAD_REQUEST'' (unat RESPONSE_BAD_REQUEST)
       @ const_u32 ''RESPONSE_NOT_FOUND'' (unat RESPONSE_NOT_FOUND)
       @ const_u32 ''RESPONSE_METHOD_NOT_ALLOWED'' (unat RESPONSE_METHOD_NOT_ALLOWED)
       @ write_u32_array ''RESPONSE_WORD_OFFSETS'' (ra_word_offsets ra)
       @ write_u32_array ''RESPONSE_WORD_COUNTS'' (ra_word_counts ra)
       @ write_u32_array ''RESPONSE_LENGTHS'' (ra_lengths ra)
       @ write_u32_array ''RESPONSE_CHECKSUM_SUMS'' (ra_checksum_sums ra)
       @ array_line ''RESPONSE_WORDS'' (length (ra_words ra)) @ hex_lines (ra_words ra)
       @ ascii '');'' @ newline @ shader_body) }"

section \<open>What the shader relies on\<close>

text \<open>The words of response \<open>r\<close> are found at its offset.\<close>

definition words_at :: "response_arrays \<Rightarrow> nat \<Rightarrow> bool" where
  "words_at ra r \<longleftrightarrow> (let off = unat (ra_word_offsets ra ! r); n = unat (ra_word_counts ra ! r) in
     off + n \<le> length (ra_words ra) \<and> n = div_ceil (length (PACKET_RESPONSES ! r)) 4
     \<and> words_to_bytes (take n (drop off (ra_words ra))) = pad_words (PACKET_RESPONSES ! r))"

definition arrays_hold :: "response_arrays \<Rightarrow> bool" where
  "arrays_hold ra \<longleftrightarrow> ra_lengths ra = map (\<lambda>r. of_nat (length r)) PACKET_RESPONSES
     \<and> ra_checksum_sums ra = map internet_checksum_sum PACKET_RESPONSES
     \<and> length (ra_word_offsets ra) = 5 \<and> length (ra_word_counts ra) = 5
     \<and> length (ra_words ra) \<le> 1000 \<and> (\<forall>r<5. words_at ra r)"

lemma div_ceil_plus [simp]: "div_ceil (4 * k + n) 4 = k + div_ceil n 4" "div_ceil (n + 4 * k) 4 = k + div_ceil n 4" "div_ceil 0 4 = 0"
  by (simp_all add: div_ceil_def)

lemma pad_to_word_closed: "pad_to_word bs = pad_words bs"
proof (induction bs rule: pad_to_word.induct)
  case (1 bs)
  show ?case
  proof (cases "length bs mod 4 = 0")
    case True
    then have "4 * div_ceil (length bs) 4 = length bs" by (simp add: div_ceil_def) presburger
    then show ?thesis using True by (subst pad_to_word.simps) (simp add: pad_words_def)
  next
    case False
    then have "div_ceil (length bs + 1) 4 = div_ceil (length bs) 4" by (simp add: div_ceil_def) presburger
    moreover have "4 * div_ceil (length bs) 4 - length bs = Suc (4 * div_ceil (length bs) 4 - (length bs + 1))"
      using False by (simp add: div_ceil_def)
    ultimately have "pad_words (bs @ [0]) = pad_words bs" by (simp add: pad_words_def)
    then show ?thesis using False 1 by (subst pad_to_word.simps) simp
  qed
qed

lemma pad_words_append: "pad_words (pad_words bs @ r) = pad_words bs @ pad_words r"
  by (simp add: pad_words_def [of "pad_words bs @ r"]) (simp add: pad_words_def)

text \<open>The loop appends, for each response, the word offset of its padded bytes.\<close>

fun word_offsets :: "nat \<Rightarrow> bytes list \<Rightarrow> u32 list" where
  "word_offsets k [] = []"
| "word_offsets k (r # rs) = of_nat k # word_offsets (k + div_ceil (length r) 4) rs"

lemma response_loop_closed:
  "response_loop rs bs ra = (bs', ra') \<Longrightarrow>
     pad_words bs' = pad_words bs @ concat (map pad_words rs)
     \<and> ra' = ra\<lparr>ra_word_offsets := ra_word_offsets ra @ word_offsets (div_ceil (length bs) 4) rs,
            ra_word_counts := ra_word_counts ra @ map (\<lambda>r. of_nat (div_ceil (length r) 4)) rs,
            ra_lengths := ra_lengths ra @ map (\<lambda>r. of_nat (length r)) rs,
            ra_checksum_sums := ra_checksum_sums ra @ map internet_checksum_sum rs\<rparr>"
proof (induction rs arbitrary: bs ra)
  case Nil
  then show ?case by simp
next
  case (Cons r rs)
  from Cons.IH [OF Cons.prems [simplified pad_to_word_closed response_loop.simps Let_def]]
  show ?case by (simp add: pad_words_append)
qed

lemma word_offsets_nth:
  "r < length rs \<Longrightarrow> word_offsets k rs ! r = of_nat (k + sum_list (map (\<lambda>r. div_ceil (length r) 4) (take r rs)))"
proof (induction rs arbitrary: k r)
  case (Cons x rs)
  then show ?case by (cases r) (simp_all add: add.assoc)
qed simp

lemma length_word_offsets [simp]: "length (word_offsets k rs) = length rs"
  by (induction k rs rule: word_offsets.induct) simp_all

lemma div_ceil_4_mono: "n \<le> 4 * k \<Longrightarrow> div_ceil n 4 \<le> k"
proof -
  assume le: "n \<le> 4 * k"
  have "n = 4 * (n div 4) + n mod 4" by simp
  then show ?thesis using le unfolding div_ceil_def by (split if_split) linarith
qed

lemma concat_pad_slice:
  assumes "r < length rs"
  shows "take (length (pad_words (rs ! r))) (drop (4 * sum_list (map (\<lambda>r. div_ceil (length r) 4) (take r rs))) (concat (map pad_words rs)))
    = pad_words (rs ! r)"
proof -
  have "concat (map pad_words rs) = concat (map pad_words (take r rs)) @ pad_words (rs ! r) @ concat (map pad_words (drop (Suc r) rs))"
    using id_take_nth_drop [OF assms] by (metis concat.simps(2) concat_append list.simps(9) map_append)
  moreover have "length (concat (map pad_words xs)) = 4 * sum_list (map (\<lambda>r. div_ceil (length r) 4) xs)" for xs
    by (induction xs) simp_all
  ultimately show ?thesis by simp
qed

lemma length_concat_pad: "length (concat (map pad_words xs)) = 4 * sum_list (map (\<lambda>r. div_ceil (length r) 4) xs)"
  by (induction xs) simp_all

lemma packet_shader_arrays_hold:
  obtains ra where "packet_shader_arrays = Some ra" "arrays_hold ra"
proof -
  let ?n = "\<lambda>rs. sum_list (map (\<lambda>r. div_ceil (length r) 4) rs)"
  obtain bs ra0 where loop: "response_loop PACKET_RESPONSES []
      \<lparr>ra_word_offsets = [], ra_word_counts = [], ra_lengths = [], ra_checksum_sums = [], ra_words = []\<rparr> = (bs, ra0)" by fastforce
  note c = response_loop_closed [OF loop]
  obtain ws where ws: "pack_bytes bs = Some ws" "words_to_bytes ws = pad_words bs" using pack_bytes_closed by blast
  define ra where "ra = ra0\<lparr>ra_words := ws\<rparr>"
  have pad: "words_to_bytes ws = concat (map pad_words PACKET_RESPONSES)" using ws(2) c by (simp add: pad_words_def [of "[]"])
  have total: "?n PACKET_RESPONSES = 170" 
    using arg_cong [OF length_PACKET_RESPONSES_elems, of "\<lambda>ls. sum_list (map (\<lambda>l. div_ceil l 4) ls)"] by (simp add: div_ceil_def comp_def)
  have len: "length ws = 170"
    using arg_cong [OF pad, of length] total by (simp only: length_words_to_bytes length_concat_pad)
  have "words_at ra r" if r: "r < 5" for r
  proof -
    have part: "?n (take r PACKET_RESPONSES) + div_ceil (length (PACKET_RESPONSES ! r)) 4 \<le> 170"
      using arg_cong [OF id_take_nth_drop [of r PACKET_RESPONSES], of ?n] r total by simp
    have off: "ra_word_offsets ra ! r = of_nat (?n (take r PACKET_RESPONSES))"
      using c r by (simp add: ra_def word_offsets_nth div_ceil_def)
    have cnt: "ra_word_counts ra ! r = of_nat (div_ceil (length (PACKET_RESPONSES ! r)) 4)"
      using c r by (simp add: ra_def)
    have u: "unat (ra_word_offsets ra ! r) = ?n (take r PACKET_RESPONSES)"
      "unat (ra_word_counts ra ! r) = div_ceil (length (PACKET_RESPONSES ! r)) 4"
      unfolding off cnt using part by (intro unat_of_nat_u32; simp add: U32_MAX_def)+
    show ?thesis unfolding words_at_def Let_def u using part len concat_pad_slice [of r PACKET_RESPONSES] r
      by (simp add: ra_def words_to_bytes_take pad flip: words_to_bytes_drop)
  qed
  then have "arrays_hold ra" using c len by (simp add: arrays_hold_def ra_def)
  moreover have "packet_shader_arrays = Some ra" by (simp add: packet_shader_arrays_def loop ws(1) ra_def)
  ultimately show thesis using that by blast
qed

end
