(* ===== verification/PacketShaderEmit.thy ===== *)
theory PacketShaderEmit
  imports PacketShaderIO PacketShaderSource
begin

text \<open>
  What the packet shader writes: \<open>emit_packet\<close> leaves in the packet's slot exactly the bytes that
  \<open>build_ipv4_tcp_packet\<close> builds for the answer, both checksums included, stores its length, and
  touches nothing else.
\<close>

section \<open>Big-endian words\<close>

lemma bit_swap: "n < 32 \<Longrightarrow> bit (byte_swap_u32 v) n =
    bit v (if n < 8 then n + 24 else if n < 16 then n + 8 else if n < 24 then n - 8 else n - 24)"
  by (auto simp: byte_swap_u32_def byte_masks bit_simps add_ac dest: bit_imp_le_length)

lemma u32_to_le_swap: "u32_to_le (byte_swap_u32 v) = u32_to_be v"
proof -
  have "ucast (drop_bit k (byte_swap_u32 v)) = (ucast (drop_bit (24 - k) v) :: u8)" if "k \<in> {0, 8, 16, 24}" for k
    using that by (intro bit_word_eqI) (auto simp: bit_simps bit_swap add_ac)
  from this [of 0] this [of 8] this [of 16] this [of 24] show ?thesis by (simp add: u32_to_le_def u32_to_be_def)
qed

text \<open>A word of two 16-bit halves.\<close>

definition halves :: "u16 \<Rightarrow> u16 \<Rightarrow> u32" where
  "halves a b = push_bit 16 (ucast a) OR ucast b"

lemma halves_to_be: "u32_to_be (halves a b) = u16_to_be a @ u16_to_be b"
proof -
  have "ucast (drop_bit 24 (halves a b)) = (ucast (drop_bit 8 a) :: u8)" "ucast (drop_bit 16 (halves a b)) = (ucast a :: u8)"
    "ucast (drop_bit 8 (halves a b)) = (ucast (drop_bit 8 b) :: u8)" "ucast (halves a b) = (ucast b :: u8)"
    by (rule bit_word_eqI; auto simp: halves_def bit_simps dest: bit_imp_le_length)+
  then show ?thesis by (simp add: u32_to_be_def u16_to_be_def)
qed

lemma halves_split: "v = halves (ucast (drop_bit 16 v)) (ucast v)"
  by (rule bit_word_eqI) (auto simp: halves_def bit_simps dest: bit_imp_le_length)

lemma header_words:
  "0x45000000 OR ucast (l :: u16) = halves 0x4500 l" "0x00004000 = halves 0 0x4000" "0x40060000 = halves 0x4006 0"
proof -
  have c: "(0x45000000 :: u32) = push_bit 16 0x4500" by (simp add: push_bit_eq_mult)
  show "0x45000000 OR ucast (l :: u16) = halves 0x4500 l" unfolding halves_def c by simp
  show "0x00004000 = halves 0 0x4000" by (simp add: halves_def push_bit_eq_mult)
  show "0x40060000 = halves 0x4006 0" by (simp add: halves_def push_bit_eq_mult)
qed

lemma ucast_flags: "ucast (0x5000 OR ucast (f :: u8) :: u16) = (0x5000 OR ucast f :: u32)"
proof -
  have "(ucast (ucast f :: u16) :: u32) = ucast f" by (rule bit_word_eqI) (auto simp: bit_simps dest: bit_imp_le_length)
  moreover have "ucast (0x5000 OR ucast f :: u16) = (ucast (0x5000 :: u16) OR ucast (ucast f :: u16) :: u32)" by (rule unsigned_or_eq)
  ultimately show ?thesis by simp
qed

lemma flag_word: "0x50000000 OR push_bit 16 (ucast (f :: u8)) OR 0xffff = halves (0x5000 OR ucast f) 0xffff"
proof -
  have c: "(0x50000000 :: u32) = push_bit 16 0x5000"
    by (simp add: push_bit_eq_mult)
  show ?thesis unfolding halves_def ucast_flags c push_bit_or by (simp add: or.assoc)
qed

lemma u16_to_be_bytes: "u16_to_be (push_bit 8 (ucast a) OR ucast b) = [a, b]"
proof -
  have "ucast (drop_bit 8 (push_bit 8 (ucast a) OR ucast b :: u16)) = a" "ucast (push_bit 8 (ucast a) OR ucast b :: u16) = b"
    by (rule bit_word_eqI; auto simp: bit_simps dest: bit_imp_le_length)+
  then show ?thesis by (simp add: u16_to_be_def)
qed

lemma be_bytes: "u16_to_be 0x4500 = [0x45, 0]" "u16_to_be 0x4006 = [64, 6]" "u16_to_be (0x5000 OR ucast (f :: u8)) = [0x50, f]"
  "u16_to_be 0 = [0, 0]"
proof -
  show "u16_to_be 0x4500 = [0x45, 0]" "u16_to_be 0x4006 = [64, 6]" "u16_to_be 0 = [0, 0]" by (simp_all add: u16_to_be_def)
  show "u16_to_be (0x5000 OR ucast (f :: u8)) = [0x50, f]" using u16_to_be_bytes [of "0x50" f] by (simp add: push_bit_eq_mult)
qed

section \<open>Checksums\<close>

lemma fold_step_small: "unat s < 65536 \<Longrightarrow> (s AND 0xffff) + drop_bit 16 s = (s :: u32)"
  by (rule unsigned_word_eqI [where 'a = nat]) (simp only: unat_fold_step mod_less div_less add_0_right)
lemma fold_twice: 
  "fold_loop s = (((s AND 0xffff) + drop_bit 16 s) AND 0xffff) + drop_bit 16 ((s AND 0xffff) + drop_bit 16 s)"
proof -
  define t where "t = (s AND 0xffff) + drop_bit 16 s"
  define u where "u = (t AND 0xffff) + drop_bit 16 t"
  have t: "unat t = unat s mod 65536 + unat s div 65536" unfolding t_def by (rule unat_fold_step)
  have u: "unat u = unat t mod 65536 + unat t div 65536" unfolding u_def by (rule unat_fold_step)
  have "unat s div 65536 < 65536" using unat_u32_bound [of s] by (simp add: less_mult_imp_div_less)
  then have "unat t < 131072 - 1" unfolding t using mod_less_divisor [of 65536 "unat s"] by linarith
  then have us: "unat u < 65536" unfolding u
    by (cases "unat t < 65536") (auto simp: div_if mod_if)
  have stop: "fold_loop x = x" if "unat x < 65536" for x using that by (intro fold_loop_stop) (simp only: high16_zero_iff)
  have "fold_loop x = fold_loop ((x AND 0xffff) + drop_bit 16 x)" for x
  proof (cases "drop_bit 16 x = 0")
    case True
    then show ?thesis by (simp only: high16_zero_iff fold_step_small)
next
    case False
    then show ?thesis by (rule fold_loop_step)
  qed
  note again = this
  have "fold_loop s = fold_loop u" unfolding u_def using again [of s, folded t_def] again [of t] by (rule trans)
  then show ?thesis using stop [OF us] by (simp only: t_def u_def)
qed
lemma checksum_fold_code: "checksum_fold s = ucast (fold_checksum s)"
proof -
  have "checksum_fold s = NOT (fold_loop s) AND 0xffff" unfolding fold_twice checksum_fold_def Let_def ..
  also have "\<dots> = ucast (fold_checksum s)" unfolding fold_checksum_def byte_masks
    by (rule bit_word_eqI) (auto simp: bit_simps)
  finally show ?thesis .
qed

lemma checksum_u32_words: "checksum_u32 v = ucast (ucast (drop_bit 16 v) :: u16) + ucast (ucast v :: u16)"
proof -
  have "ucast (ucast (drop_bit 16 v) :: u16) = drop_bit 16 v" "ucast (ucast v :: u16) = v AND 0xffff"
    unfolding byte_masks by (rule bit_word_eqI; auto simp: bit_simps dest: bit_imp_le_length)+
  then show ?thesis by (simp add: checksum_u32_def)
qed

lemma u32_be_halves: "u32_to_be v = u16_to_be (ucast (drop_bit 16 v)) @ u16_to_be (ucast v)"
  using halves_to_be [of "ucast (drop_bit 16 v)" "ucast v"] by (simp flip: halves_split)

abbreviation word_sum :: "bytes \<Rightarrow> u32" where
  "word_sum \<equiv> internet_checksum_sum"

lemma word_sum_u16: "word_sum (u16_to_be w @ bs) = ucast w + word_sum bs"
  by (simp add: internet_checksum_sum_def u16_to_be_def chunk_word_be)

lemma word_sum_u32: "word_sum (u32_to_be v @ bs) = checksum_u32 v + word_sum bs"
  by (simp only: u32_be_halves append_assoc word_sum_u16 checksum_u32_words) (simp add: add.assoc)

lemma word_sum_Nil: "word_sum [] = 0"
  by (simp add: internet_checksum_sum_def)

lemma word_sum_last: "word_sum (u16_to_be w) = ucast w"
  using word_sum_u16 [of w "[]"] by (simp add: word_sum_Nil)

lemmas word_sums = word_sum_u16 word_sum_u32 word_sum_Nil

lemma ip_header_be: "ip_header n k ck = u16_to_be 0x4500 @ u16_to_be (of_nat n) @ u16_to_be 0 @ u16_to_be 0x4000
    @ u16_to_be 0x4006 @ u16_to_be ck @ u32_to_be (src_ip k) @ u32_to_be (dst_ip k) @ []"
  by (simp add: ip_header_def be_bytes)

lemma tcp_front_be: "tcp_header_front spec = u16_to_be (src_port (s_key spec)) @ u16_to_be (dst_port (s_key spec))
    @ u32_to_be (s_seq spec) @ u32_to_be (s_ack spec) @ u16_to_be (0x5000 OR ucast (s_flags spec)) @ u16_to_be 0xffff @ []"
  by (simp add: tcp_header_front_def be_bytes)

lemma ipv4_checksum_code:
  assumes "packet_len = ucast (of_nat (40 + length (s_payload spec)) :: u16)"
  shows "ipv4_checksum packet_len (src_ip (s_key spec)) (dst_ip (s_key spec)) = ucast (ip_ck spec)"
proof -
  have regroup: "c1 + len + c2 + c3 + a + b = c1 + (len + (0 + (c2 + (c3 + (0 + (a + (b + 0)))))))"
    for c1 c2 c3 len a b :: u32 by (simp add: add.assoc)
  have c: "ucast (0x4500 :: u16) = (0x4500 :: u32)" "ucast (0 :: u16) = (0 :: u32)" "ucast (0x4000 :: u16) = (0x4000 :: u32)"
    "ucast (0x4006 :: u16) = (0x4006 :: u32)" by simp_all
  show ?thesis
    unfolding ipv4_checksum_def checksum_fold_code ip_ck_def checksum_internet_sum ip_header_be word_sums assms c
    by (simp only: regroup)
qed

lemma tcp_ck_sum: "tcp_ck spec = fold_checksum (checksum_u32 (src_ip (s_key spec)) + checksum_u32 (dst_ip (s_key spec)) + 6
    + of_nat (20 + length (s_payload spec)) + (word_sum (tcp_header_front spec) + word_sum (s_payload spec)))"
proof -
  let ?p = "packet_bytes spec (ip_ck spec) 0"
  have "pseudo_sum ?p 20 = checksum_u32 (src_ip (s_key spec)) + checksum_u32 (dst_ip (s_key spec)) + 6 + of_nat (20 + length (s_payload spec))"
    by (simp add: pseudo_sum_def checksum_u32_words be16_at_def packet_bytes_def ip_header_be u32_be_halves be_bytes
        length_tcp_front)
      (simp add: u16_to_be_def byte_simps)
  moreover have "chunk_word [0, 0] = 0" by (simp add: chunk_word_def u16_from_be_def)
  ultimately show ?thesis
    by (simp add: tcp_ck_def tcp_checksum_closed tcp_chunks tcp_checksum_chunks_clear length_chunks2_front foldl_chunks_shift
        length_tcp_front internet_checksum_sum_def add.assoc)
qed

text \<open>The fields of an answer and its specification.\<close>

definition carries :: "out_packet \<Rightarrow> tcp_spec \<Rightarrow> bool" where
  "carries p spec \<longleftrightarrow> op_src_ip p = src_ip (s_key spec) \<and> op_dst_ip p = dst_ip (s_key spec)
     \<and> op_src_port p = ucast (src_port (s_key spec)) \<and> op_dst_port p = ucast (dst_port (s_key spec))
     \<and> op_seq p = s_seq spec \<and> op_ack p = s_ack spec \<and> op_flags p = ucast (s_flags spec)
     \<and> s_payload spec = (if op_response_id p < RESPONSE_COUNT then packet_response (op_response_id p) else [])"

lemma response_count: "r < RESPONSE_COUNT \<longleftrightarrow> unat r < 5"
  by (simp add: RESPONSE_COUNT_def word_less_nat_alt)

lemma array_entry:
  "arrays_hold ra \<Longrightarrow> unat r < 5 \<Longrightarrow> fetch (ra_lengths ra) r = Some (of_nat (length (packet_response r)))
     \<and> fetch (ra_checksum_sums ra) r = Some (word_sum (packet_response r))"
  by (simp add: arrays_hold_def fetch_def index_def packet_response_def)

lemma shader_tcp_checksum_code:
  assumes "arrays_hold (pb_arrays d)" "carries p spec"
  shows "shader_tcp_checksum d p (of_nat (20 + length (s_payload spec))) = Some (ucast (tcp_ck spec))"
proof (cases "op_response_id p < RESPONSE_COUNT")
  case True
  then have r: "unat (op_response_id p) < 5" by (simp only: response_count)
  show ?thesis using assms(2) True array_entry [OF assms(1) r]
    by (simp add: shader_tcp_checksum_def checksum_fold_code tcp_ck_sum tcp_front_be word_sums word_sum_last carries_def Let_def ucast_flags add.assoc)
next
  case False
  show ?thesis using assms(2) False
    by (simp add: shader_tcp_checksum_def checksum_fold_code tcp_ck_sum tcp_front_be word_sums word_sum_last carries_def Let_def ucast_flags add.assoc)
qed

section \<open>Writing a slot\<close>

definition put :: "u32 list \<Rightarrow> nat \<Rightarrow> u32 list \<Rightarrow> u32 list" where
  "put out b ws = take b out @ ws @ drop (b + length ws) out"

lemma put_Nil [simp]: "put out b [] = out"
  by (simp add: put_def)

lemma length_put [simp]: "b + length ws \<le> length out \<Longrightarrow> length (put out b ws) = length out"
  by (simp add: put_def)

lemma store_put_end:
  "unat a = b + length ws \<Longrightarrow> b + length ws < length out \<Longrightarrow> store (put out b ws) a w = Some (put out b (ws @ [w]))"
  by (simp add: store_def set_at_list_update put_def list_update_append Cons_nth_drop_Suc [symmetric])

lemma store_put:
  "unat a = b + j \<Longrightarrow> j < length ws \<Longrightarrow> b + length ws \<le> length out \<Longrightarrow> store (put out b ws) a w = Some (put out b (ws[j := w]))"
  by (simp add: store_def set_at_list_update put_def list_update_append)

lemma fetch_put: "unat a = b + j \<Longrightarrow> j < length ws \<Longrightarrow> b + length ws \<le> length out \<Longrightarrow> fetch (put out b ws) a = Some (ws ! j)"
  by (simp add: fetch_def index_def put_def nth_append)

lemma copy_words_put:
  assumes "unat s + unat n \<le> length words" "length words \<le> U32_MAX" "unat t = b + length hs" "b + length hs + unat n \<le> length out"
    "length out \<le> U32_MAX" "unat i \<le> unat n"
  shows "copy_words words s t n i (put out b (hs @ take (unat i) (drop (unat s) words)))
    = Some (put out b (hs @ take (unat n) (drop (unat s) words)))"
  using assms(6)
proof (induction "unat n - unat i" arbitrary: i)
  case 0
  then show ?case by (subst copy_words.simps) (simp add: word_le_nat_alt)
next
  case (Suc x)
  then have i: "i < n" "\<not> n \<le> i" by (simp_all add: word_less_nat_alt word_le_nat_alt)
  note next1 = u32_next [OF i(1)]
  have in_range: "unat i < unat n" using i(1) by (simp add: word_less_nat_alt)
  have src: "fetch words (s + i) = Some (words ! (unat s + unat i))"
    using assms(1,2) in_range by (simp add: fetch_def index_def unat_plus)
  have tgt: "unat (t + i) = b + length (hs @ take (unat i) (drop (unat s) words))"
    using assms in_range by (simp add: unat_plus)
  have "store (put out b (hs @ take (unat i) (drop (unat s) words))) (t + i) (words ! (unat s + unat i))
      = Some (put out b ((hs @ take (unat i) (drop (unat s) words)) @ [words ! (unat s + unat i)]))"
    using tgt assms in_range by (intro store_put_end) simp_all
  moreover have "take (unat (i + 1)) (drop (unat s) words) = take (unat i) (drop (unat s) words) @ [words ! (unat s + unat i)]"
    unfolding next1 using assms(1) in_range by (simp add: take_Suc_conv_app_nth)
  moreover have "copy_words words s t n (i + 1) (put out b (hs @ take (unat (i + 1)) (drop (unat s) words)))
    = Some (put out b (hs @ take (unat n) (drop (unat s) words)))"
    using Suc.hyps(2) next1 in_range by (intro Suc.hyps(1)) simp_all
  ultimately show ?case using i(2) by (subst copy_words.simps) (simp add: src)
qed

lemma swapped_le: "push_bit 8 (ucast (c :: u16) AND 0xff) OR (drop_bit 8 (ucast c) AND 0xff) = le_val (u16_to_be c)"
  by (rule bit_word_eqI) (auto simp: u16_to_be_def byte_masks(1) bit_simps dest: bit_imp_le_length)

lemma write_u16_be_code: "write_u16_be d i off (ucast c) out = do {
     old \<leftarrow> fetch out (output_base d i + off div 4);
     store out (output_base d i + off div 4) ((old AND NOT (push_bit (unat ((off AND 2) * 8)) 0xffff))
       OR push_bit (unat ((off AND 2) * 8)) (le_val (u16_to_be c))) }"
  by (simp only: write_u16_be_def Let_def swapped_le)

text \<open>The words of the two checksum fields.\<close>

definition ip_ck_word :: "u16 \<Rightarrow> u32" where "ip_ck_word c = le_val ([64, 6] @ u16_to_be c)"
definition tcp_ck_word :: "u16 \<Rightarrow> u32" where "tcp_ck_word c = le_val (u16_to_be c)"

lemma ck_words: "u32_to_le (ip_ck_word c) = [64, 6] @ u16_to_be c" "u32_to_le (tcp_ck_word c) = u16_to_be c @ [0, 0]"
proof -
  show "u32_to_le (ip_ck_word c) = [64, 6] @ u16_to_be c" unfolding ip_ck_word_def by (rule u32_to_le_le_val) simp
  have "le_val (u16_to_be c) = le_val (u16_to_be c @ [0, 0])" by (simp add: le_val_append)
  then show "u32_to_le (tcp_ck_word c) = u16_to_be c @ [0, 0]" unfolding tcp_ck_word_def by (simp add: u32_to_le_le_val del: le_val.simps)
qed

definition header_block :: "tcp_spec \<Rightarrow> u32 \<Rightarrow> u32 list" where
  "header_block spec len = [byte_swap_u32 (0x45000000 OR len), byte_swap_u32 0x4000, byte_swap_u32 0x40060000,
     byte_swap_u32 (src_ip (s_key spec)), byte_swap_u32 (dst_ip (s_key spec)),
     byte_swap_u32 (halves (src_port (s_key spec)) (dst_port (s_key spec))), byte_swap_u32 (s_seq spec),
     byte_swap_u32 (s_ack spec), byte_swap_u32 (0x50000000 OR push_bit 16 (ucast (s_flags spec)) OR 0xffff), 0]"

lemma header_block_bytes:
  assumes "len = ucast (of_nat (40 + length (s_payload spec)) :: u16)"
  shows "words_to_bytes ((header_block spec len)[2 := ip_ck_word (ip_ck spec), 9 := tcp_ck_word (tcp_ck spec)]) @ s_payload spec = built spec"
  unfolding header_block_def assms header_words flag_word
  by (simp add: words_to_bytes_def u32_to_le_swap halves_to_be be_bytes ck_words built_def packet_bytes_def ip_header_def tcp_header_front_def)

text \<open>The output buffer around slot \<open>i\<close>.\<close>

definition slot_space :: "packet_bindings \<Rightarrow> u32 \<Rightarrow> u32 list \<Rightarrow> nat \<Rightarrow> bool" where
  "slot_space d i out b \<longleftrightarrow> unat (output_base d i) = b \<and> b + 48 \<le> length out \<and> length out \<le> U32_MAX \<and> unat i < b"

lemma store_slot:
  assumes "slot_space d i out b" "unat k = length ws" "length ws < 48"
  shows "store (put out b ws) (output_base d i + k) w = Some (put out b (ws @ [w]))"
  using assms by (intro store_put_end) (auto simp: slot_space_def unat_plus)

lemma write_slot:
  assumes "slot_space d i out b" "unat k < length ws" "length ws \<le> 48"
  shows "fetch (put out b ws) (output_base d i + k) = Some (ws ! unat k)"
    "store (put out b ws) (output_base d i + k) w = Some (put out b (ws[unat k := w]))"
  using assms by (auto intro!: fetch_put store_put simp: slot_space_def unat_plus)

lemma write_headers:
  assumes sp: "slot_space d i out b" and c: "carries p spec"
  shows "Option.bind (write_ipv4 d i len (op_src_ip p) (op_dst_ip p) out) (write_tcp d i p) = Some (put out b (header_block spec len))"
proof -
  have first: "store out (output_base d i) w = Some (put out b [w])" for w
    using store_slot [OF sp, of 0 "[]"] by simp
  have d: "12 div 4 = (3 :: u32)" "16 div 4 = (4 :: u32)" "24 div 4 = (6 :: u32)" "28 div 4 = (7 :: u32)" by simp_all
  show ?thesis using c
    by (simp add: write_ipv4_def write_tcp_def write_u32_be_def Let_def first d store_slot [OF sp] carries_def header_block_def halves_def)
qed

lemma write_checksums_put:
  assumes sp: "slot_space d i out b" and c: "carries p spec" and arr: "arrays_hold (pb_arrays d)"
    and n: "length (s_payload spec) \<le> 152" and len: "length pw \<le> 38"
  shows "write_checksums d i (of_nat (40 + length (s_payload spec))) p (put out b (header_block spec l @ pw))
    = Some (put out b ((header_block spec l)[2 := ip_ck_word (ip_ck spec), 9 := tcp_ck_word (tcp_ck spec)] @ pw))"
proof -
  have lens: "length (header_block spec l @ pw) \<le> 48" using len by (simp add: header_block_def)
  have small: "of_nat (40 + length (s_payload spec)) = (ucast (of_nat (40 + length (s_payload spec)) :: u16) :: u32)"
    using n by (intro unsigned_word_eqI [where 'a = nat]) (simp add: unat_ucast_u16 unat_of_nat_small16 unat_of_nat_small32 del: of_nat_add)
  have ipck: "ipv4_checksum (of_nat (40 + length (s_payload spec))) (op_src_ip p) (op_dst_ip p) = ucast (ip_ck spec)"
    using ipv4_checksum_code [OF small] c by (simp add: carries_def)
  have tl: "of_nat (40 + length (s_payload spec)) - 20 = (of_nat (20 + length (s_payload spec)) :: u32)" by simp
  have d: "10 div 4 = (2 :: u32)" "36 div 4 = (9 :: u32)" "unat ((10 AND 2) * 8 :: u32) = 16" "unat ((36 AND 2) * 8 :: u32) = 0" by simp_all
  have w2: "(byte_swap_u32 0x40060000 AND NOT (push_bit 16 0xffff)) OR push_bit 16 (le_val cs) = le_val ([64, 6] @ cs)" for cs
    unfolding le_val_append by (simp add: byte_swap_u32_def push_bit_eq_mult)
  have one: "write_u16_be d i 10 (ucast (ip_ck spec)) (put out b (header_block spec l @ pw))
      = Some (put out b ((header_block spec l)[2 := ip_ck_word (ip_ck spec)] @ pw))"
  proof -
    have "fetch (put out b (header_block spec l @ pw)) (output_base d i + 2) = Some (byte_swap_u32 0x40060000)"
      using write_slot(1) [OF sp _ lens, of 2] by (simp add: header_block_def)
    moreover have "store (put out b (header_block spec l @ pw)) (output_base d i + 2) w = Some (put out b ((header_block spec l)[2 := w] @ pw))" for w
      using write_slot(2) [OF sp _ lens, of 2] by (simp add: header_block_def)
    ultimately show ?thesis unfolding write_u16_be_code d by (simp only: Option.bind.bind_lunit w2 ip_ck_word_def)
  qed
  have lens': "length ((header_block spec l)[2 := ip_ck_word (ip_ck spec)] @ pw) \<le> 48" using lens by simp
  have two: "write_u16_be d i 36 (ucast (tcp_ck spec)) (put out b ((header_block spec l)[2 := ip_ck_word (ip_ck spec)] @ pw))
      = Some (put out b ((header_block spec l)[2 := ip_ck_word (ip_ck spec), 9 := tcp_ck_word (tcp_ck spec)] @ pw))"
    using write_slot [OF sp _ lens', of 9] unfolding write_u16_be_code d
    by (simp add: tcp_ck_word_def header_block_def del: le_val.simps)
  show ?thesis
    by (simp only: write_checksums_def Let_def ipck tl shader_tcp_checksum_code [OF arr c] one two Option.bind.bind_lunit)
qed

lemma response_words:
  assumes "arrays_hold ra" "unat r < 5"
  obtains off n where "fetch (ra_word_offsets ra) r = Some off" "fetch (ra_word_counts ra) r = Some n"
    "unat off + unat n \<le> length (ra_words ra)" "unat n \<le> 38" "length (ra_words ra) \<le> U32_MAX"
    "words_to_bytes (take (unat n) (drop (unat off) (ra_words ra))) = pad_words (packet_response r)"
proof -
  have at: "words_at ra (unat r)" and len: "length (ra_word_offsets ra) = 5" "length (ra_word_counts ra) = 5" "length (ra_words ra) \<le> U32_MAX"
    using assms by (simp_all add: arrays_hold_def U32_MAX_def)
  have resp: "PACKET_RESPONSES ! unat r = packet_response r" using assms(2) by (simp add: packet_response_def)
  have "div_ceil (length (packet_response r)) 4 \<le> 38" using length_packet_response(2) [of r] by (intro div_ceil_4_mono) simp
  then show thesis using at len assms(2) resp
    by (intro that [of "ra_word_offsets ra ! unat r" "ra_word_counts ra ! unat r"]) (auto simp: words_at_def Let_def fetch_def index_def)
qed

lemma pad_words_built:
  assumes "words_to_bytes hs @ s_payload spec = built spec" "length hs = 10" "words_to_bytes pw = pad_words (s_payload spec)"
  shows "words_to_bytes (hs @ pw) = pad_words (built spec)"
proof -
  have "div_ceil (4 * 10 + length (s_payload spec)) 4 = 10 + div_ceil (length (s_payload spec)) 4" by (rule div_ceil_plus)
  then show ?thesis using assms(2,3) by (simp add: assms(1) [symmetric] words_to_bytes_append pad_words_def)
qed

text \<open>\<open>emit_packet\<close>: the slot holds the built packet, the metadata word its length.\<close>

lemma emit_packet_built:
  assumes sp: "slot_space d i out b" and c: "carries p spec" and arr: "arrays_hold (pb_arrays d)"
  obtains ws where "emit_packet d i p out = Some ((put out b ws)[unat i := of_nat (length (built spec))])"
    "words_to_bytes ws = pad_words (built spec)" "length ws \<le> 48"
proof -
  let ?r = "op_response_id p" and ?n = "length (s_payload spec)"
  define l where "l = (of_nat (40 + ?n) :: u32)"
  define hs where "hs = (header_block spec l)[2 := ip_ck_word (ip_ck spec), 9 := tcp_ck_word (tcp_ck spec)]"
  have n: "?n \<le> 152" using c length_packet_response(2) [of ?r] by (simp add: carries_def)
  have small: "l = (ucast (of_nat (40 + ?n) :: u16) :: u32)" unfolding l_def
    using n by (intro unsigned_word_eqI [where 'a = nat]) (simp add: unat_ucast_u16 unat_of_nat_small16 unat_of_nat_small32 del: of_nat_add)
  have hb: "length (header_block spec l) = 10" by (simp add: header_block_def)
  have len: "(if ?r < RESPONSE_COUNT then fetch (ra_lengths (pb_arrays d)) ?r else Some 0) = Some (of_nat ?n)"
    using c array_entry [OF arr, of ?r] by (simp add: carries_def response_count)
  obtain pw where pw: "(if ?r < RESPONSE_COUNT then write_http_response d i ?r (put out b (header_block spec l)) else Some (put out b (header_block spec l)))
      = Some (put out b (header_block spec l @ pw))" "words_to_bytes pw = pad_words (s_payload spec)" "length pw \<le> 38"
  proof (cases "?r < RESPONSE_COUNT")
    case True
    then have r5: "unat ?r < 5" by (simp only: response_count)
    obtain off k where w: "fetch (ra_word_offsets (pb_arrays d)) ?r = Some off" "fetch (ra_word_counts (pb_arrays d)) ?r = Some k"
      "unat off + unat k \<le> length (ra_words (pb_arrays d))" "unat k \<le> 38" "length (ra_words (pb_arrays d)) \<le> U32_MAX"
      "words_to_bytes (take (unat k) (drop (unat off) (ra_words (pb_arrays d)))) = pad_words (packet_response ?r)"
      by (rule response_words [OF arr r5])
    have "copy_words (ra_words (pb_arrays d)) off (output_base d i + 10) k 0 (put out b (header_block spec l))
        = Some (put out b (header_block spec l @ take (unat k) (drop (unat off) (ra_words (pb_arrays d)))))"
      using copy_words_put [of off k "ra_words (pb_arrays d)" "output_base d i + 10" b "header_block spec l" out 0] w sp hb
      by (simp add: slot_space_def unat_plus)
    then show ?thesis using that [of "take (unat k) (drop (unat off) (ra_words (pb_arrays d)))"] True w c
      by (simp add: write_http_response_def carries_def)
  next
    case False
    then show ?thesis using that [of "[]"] c by (simp add: carries_def words_to_bytes_def pad_words_def div_ceil_def)
  qed
  have hdr: "words_to_bytes hs @ s_payload spec = built spec" unfolding hs_def by (rule header_block_bytes [OF small])
  have W: "length (hs @ pw) \<le> 48" using pw(3) hb by (simp add: hs_def)
  have final: "store (put out b (hs @ pw)) i l = Some ((put out b (hs @ pw))[unat i := l])"
    using sp W by (simp add: store_def set_at_list_update slot_space_def)
  have "emit_packet d i p out = Some ((put out b (hs @ pw))[unat i := l])"
  proof -
    have lp: "40 + of_nat ?n = l" by (simp add: l_def)
    have "emit_packet d i p out = do {
       out \<leftarrow> Option.bind (write_ipv4 d i l (op_src_ip p) (op_dst_ip p) out) (write_tcp d i p);
       out \<leftarrow> (if ?r < RESPONSE_COUNT then write_http_response d i ?r out else Some out);
       out \<leftarrow> write_checksums d i l p out;
       store out i l }"
      by (simp only: emit_packet_def len Option.bind.bind_lunit Let_def lp Option.bind_assoc)
    then show ?thesis
      using write_checksums_put [OF sp c arr n pw(3), of l]
      by (simp only: write_headers [OF sp c] Option.bind.bind_lunit pw(1) l_def [symmetric] hs_def [symmetric] final)
  qed
  moreover have "l = of_nat (length (built spec))" by (simp add: l_def)
  moreover have "words_to_bytes (hs @ pw) = pad_words (built spec)"
    using hdr pw(2) hb by (intro pad_words_built) (simp_all add: hs_def)
  ultimately show thesis using that [OF _ _ W] by simp
qed

end
