(* ===== verification/HashTable.thy ===== *)
theory HashTable
  imports Prelude
begin

text \<open>
  \<open>std::collections::HashMap\<close> as the code uses it (\<open>get\<close>, \<open>insert\<close>, \<open>remove\<close>, \<open>len\<close>), and
  the interface its clients rely on. The locale states the laws of a finite map with a
  size; the lemmas proved inside it are what the flow table of the packet engine and the
  string table of the router need. The association list with distinct keys is the model
  of the standard library's map.
\<close>

locale finite_map_ops =
  fixes lookup :: "'t \<Rightarrow> 'k \<Rightarrow> 'v option"
    and insert_at :: "'k \<Rightarrow> 'v \<Rightarrow> 't \<Rightarrow> 't"
    and remove_at :: "'k \<Rightarrow> 't \<Rightarrow> 't"
    and count :: "'t \<Rightarrow> nat"
    and inv :: "'t \<Rightarrow> bool"
  assumes lookup_insert: "inv t \<Longrightarrow> lookup (insert_at k v t) = (lookup t)(k \<mapsto> v)"
    and lookup_remove: "inv t \<Longrightarrow> lookup (remove_at k t) = (lookup t)(k := None)"
    and finite_dom: "inv t \<Longrightarrow> finite (dom (lookup t))"
    and count_card: "inv t \<Longrightarrow> count t = card (dom (lookup t))"
    and inv_insert: "inv t \<Longrightarrow> inv (insert_at k v t)"
    and inv_remove: "inv t \<Longrightarrow> inv (remove_at k t)"
begin

lemma count_insert_new: "inv t \<Longrightarrow> lookup t k = None \<Longrightarrow> count (insert_at k v t) = Suc (count t)"
  by (simp add: count_card inv_insert lookup_insert finite_dom domIff)

lemma count_insert_old: "inv t \<Longrightarrow> lookup t k = Some w \<Longrightarrow> count (insert_at k v t) = count t"
  by (simp add: count_card inv_insert lookup_insert insert_absorb domI)

lemma count_remove_le: "inv t \<Longrightarrow> count (remove_at k t) \<le> count t"
  by (simp add: count_card inv_remove lookup_remove dom_fun_upd card_mono finite_dom)

text \<open>The guard \<open>contains_key(k) || len() < capacity\<close> before an insertion keeps the bound.\<close>

lemma count_insert_bounded:
  assumes "inv t" "count t \<le> cap" "lookup t k \<noteq> None \<or> count t < cap"
  shows "count (insert_at k v t) \<le> cap"
  using assms by (cases "lookup t k") (auto simp: count_insert_new count_insert_old)

definition all_entries :: "('k \<Rightarrow> 'v \<Rightarrow> bool) \<Rightarrow> 't \<Rightarrow> bool" where
  "all_entries P t \<longleftrightarrow> (\<forall>k v. lookup t k = Some v \<longrightarrow> P k v)"

lemma all_entries_insert: "inv t \<Longrightarrow> all_entries P t \<Longrightarrow> P k v \<Longrightarrow> all_entries P (insert_at k v t)"
  by (simp add: all_entries_def lookup_insert)

lemma all_entries_remove: "inv t \<Longrightarrow> all_entries P t \<Longrightarrow> all_entries P (remove_at k t)"
  by (simp add: all_entries_def lookup_remove)

lemma all_entriesD: "all_entries P t \<Longrightarrow> lookup t k = Some v \<Longrightarrow> P k v"
  by (simp add: all_entries_def)

end

section \<open>The standard library's map\<close>

type_synonym ('k, 'v) hash_map = "('k \<times> 'v) list"

definition hm_get :: "('k, 'v) hash_map \<Rightarrow> 'k \<Rightarrow> 'v option" where
  "hm_get m k = map_of m k"

definition hm_insert :: "'k \<Rightarrow> 'v \<Rightarrow> ('k, 'v) hash_map \<Rightarrow> ('k, 'v) hash_map" where
  "hm_insert k v m = AList.update k v m"

definition hm_remove :: "'k \<Rightarrow> ('k, 'v) hash_map \<Rightarrow> ('k, 'v) hash_map" where
  "hm_remove k m = AList.delete k m"

definition hm_len :: "('k, 'v) hash_map \<Rightarrow> nat" where
  "hm_len m = length m"

definition hm_inv :: "('k, 'v) hash_map \<Rightarrow> bool" where
  "hm_inv m \<longleftrightarrow> distinct (map fst m)"

lemma hm_len_card: "hm_inv m \<Longrightarrow> hm_len m = card (dom (hm_get m))"
  by (simp add: hm_inv_def hm_len_def hm_get_def [abs_def] dom_map_of_conv_image_fst
      card_distinct flip: set_map) (metis distinct_card length_map)

interpretation hm: finite_map_ops hm_get hm_insert hm_remove hm_len hm_inv
proof unfold_locales
  fix t :: "('a, 'b) hash_map" and k v
  show "hm_get (hm_insert k v t) = (hm_get t)(k \<mapsto> v)"
    by (simp add: hm_get_def [abs_def] hm_insert_def update_conv')
  show "hm_get (hm_remove k t) = (hm_get t)(k := None)"
    by (simp add: hm_get_def [abs_def] hm_remove_def delete_conv')
  show "finite (dom (hm_get t))" by (simp add: hm_get_def [abs_def] finite_dom_map_of)
  show "hm_inv t \<Longrightarrow> hm_len t = card (dom (hm_get t))" by (rule hm_len_card)
  show "hm_inv t \<Longrightarrow> hm_inv (hm_insert k v t)"
    by (simp add: hm_inv_def hm_insert_def distinct_update)
  show "hm_inv t \<Longrightarrow> hm_inv (hm_remove k t)"
    by (simp add: hm_inv_def hm_remove_def distinct_delete)
qed

lemma hm_inv_Nil [simp]: "hm_inv []"
  by (simp add: hm_inv_def)

lemma hm_get_Nil [simp]: "hm_get [] k = None"
  by (simp add: hm_get_def)

end
