(* ===== verification/CpuEngine.thy ===== *)
theory CpuEngine
  imports Wire EngineConfig HashTable
begin

text \<open>
  \<open>src/packet/cpu.rs\<close>: the CPU packet engine, the semantic reference of the packet path.
  \<open>process_packet\<close> takes the flow table, the configuration and a packet and returns the
  new table and the \<open>Result\<close>; its two long branches are \<open>handle_syn\<close> and
  \<open>handle_segment\<close>. An outer \<open>None\<close> is a panic.
\<close>

datatype flow_state = SynReceived | Established

record last_response =
  client_seq :: u32
  client_len :: nat
  response_seq :: u32
  response_ack :: u32
  response_id :: u32

record flow =
  fl_state :: flow_state
  recv_next :: u32
  send_next :: u32
  send_unacked :: u32
  last_resp :: "last_response option"

type_synonym flows = "(flow_key, flow) hash_map"

record cpu_packet_engine =
  ce_config :: packet_engine_config
  ce_flows :: flows
  ce_dispatches :: u64
  ce_packets :: u64

definition cpu_packet_engine_new :: "packet_engine_config \<Rightarrow> config_error + cpu_packet_engine" where
  "cpu_packet_engine_new config =
     (case validate_config config of
        Inl e \<Rightarrow> Inl e
      | Inr _ \<Rightarrow> Inr \<lparr>ce_config = config, ce_flows = [], ce_dispatches = 0, ce_packets = 0\<rparr>)"

text \<open>\<open>emit\<close>: a packet back to the sender of \<open>key\<close>.\<close>

definition emit :: "flow_key \<Rightarrow> u32 \<Rightarrow> u32 \<Rightarrow> u8 \<Rightarrow> bytes \<Rightarrow> (packet_error + raw_packet) option" where
  "emit key seq ack flags payload = build_ipv4_tcp_packet \<lparr>
     s_key = \<lparr>src_ip = dst_ip key, dst_ip = src_ip key, src_port = dst_port key, dst_port = src_port key\<rparr>,
     s_seq = seq, s_ack = ack, s_flags = flags, s_payload = payload\<rparr>"

text \<open>\<open>Result::map(Some)\<close>.\<close>

definition map_some :: "packet_error + raw_packet \<Rightarrow> packet_error + raw_packet option" where
  "map_some r = (case r of Inl e \<Rightarrow> Inl e | Inr p \<Rightarrow> Inr (Some p))"

type_synonym step_result = "(flows \<times> (packet_error + raw_packet option)) option"

definition new_flow :: "u32 \<Rightarrow> u32 \<Rightarrow> flow" where
  "new_flow client_next server_isn = \<lparr>fl_state = SynReceived, recv_next = client_next,
     send_next = server_isn + 1, send_unacked = server_isn, last_resp = None\<rparr>"

definition handle_syn :: "flows \<Rightarrow> packet_engine_config \<Rightarrow> tcp_view \<Rightarrow> step_result" where
  "handle_syn flows config tcp =
     (let key = v_key tcp in
      if hm_get flows key = None \<and> hm_len flows \<ge> flow_capacity config then Some (flows, Inr None)
      else do {
        let client_next = v_seq tcp + 1;
        let server_isn = flow_hash key XOR 0xa5a55a5a;
        let flow = (case hm_get flows key of Some f \<Rightarrow> f | None \<Rightarrow> new_flow client_next server_isn);
        let flow = (if fl_state flow = SynReceived \<and> recv_next flow \<noteq> client_next
                    then flow\<lparr>recv_next := client_next, send_next := server_isn + 1,
                              send_unacked := server_isn, last_resp := None\<rparr>
                    else flow);
        let sequence = (if fl_state flow = SynReceived then send_next flow - 1 else send_next flow);
        let flags = (if fl_state flow = SynReceived then TCP_SYN OR TCP_ACK else TCP_ACK);
        out \<leftarrow> emit key sequence (recv_next flow) flags [];
        Some (hm_insert key flow flows, map_some out) })"

definition handle_segment :: "flows \<Rightarrow> tcp_view \<Rightarrow> flow \<Rightarrow> step_result" where
  "handle_segment flows tcp flow =
     (let key = v_key tcp in
      if fl_state flow = SynReceived
         \<and> (v_flags tcp AND TCP_ACK = 0 \<or> v_ack tcp \<noteq> send_next flow \<or> v_seq tcp \<noteq> recv_next flow)
      then Some (flows, Inr None)
      else do {
        let flow = (if fl_state flow = SynReceived
                    then flow\<lparr>fl_state := Established, send_unacked := v_ack tcp\<rparr> else flow);
        let flow = (if v_flags tcp AND TCP_ACK \<noteq> 0 \<and> v_ack tcp = send_next flow
                       \<and> v_ack tcp \<noteq> send_unacked flow
                    then flow\<lparr>send_unacked := v_ack tcp\<rparr> else flow);
        if v_seq tcp \<noteq> recv_next flow then
          (case last_resp flow of
             Some lr \<Rightarrow>
               if v_seq tcp = client_seq lr \<and> length (v_payload tcp) = client_len lr
               then do {
                 out \<leftarrow> emit key (response_seq lr) (response_ack lr) (TCP_ACK OR TCP_PSH)
                          (cpu_response (response_id lr));
                 Some (hm_insert key flow flows, map_some out) }
               else do {
                 out \<leftarrow> emit key (send_next flow) (recv_next flow) TCP_ACK [];
                 Some (hm_insert key flow flows, map_some out) }
           | None \<Rightarrow> do {
               out \<leftarrow> emit key (send_next flow) (recv_next flow) TCP_ACK [];
               Some (hm_insert key flow flows, map_some out) })
        else do {
          let has_fin = (v_flags tcp AND TCP_FIN \<noteq> 0);
          if v_payload tcp = [] then
            (if \<not> has_fin then Some (hm_insert key flow flows, Inr None)
             else do {
               let next_ack = v_seq tcp + 1;
               out \<leftarrow> emit key (send_next flow) next_ack TCP_ACK [];
               case out of
                 Inl e \<Rightarrow> Some (hm_insert key flow flows, Inl e)
               | Inr output \<Rightarrow> Some (hm_remove key (hm_insert key flow flows), Inr (Some output)) })
          else do {
            let rid = classify_http_request (v_payload tcp);
            let response = cpu_response rid;
            let fin_advance = (if has_fin then 1 else 0);
            let next_ack = v_seq tcp + of_nat (length (v_payload tcp)) + fin_advance;
            let rseq = send_next flow;
            let flow = flow\<lparr>recv_next := next_ack,
                            send_next := send_next flow + of_nat (length response),
                            last_resp := Some \<lparr>client_seq = v_seq tcp, client_len = length (v_payload tcp),
                              response_seq = rseq, response_ack = next_ack, response_id = rid\<rparr>\<rparr>;
            out \<leftarrow> emit key rseq next_ack (TCP_ACK OR TCP_PSH) response;
            case out of
              Inl e \<Rightarrow> Some (hm_insert key flow flows, Inl e)
            | Inr output \<Rightarrow>
                Some (if has_fin then hm_remove key (hm_insert key flow flows) else hm_insert key flow flows,
                      Inr (Some output)) } } })"

definition process_packet :: "flows \<Rightarrow> packet_engine_config \<Rightarrow> raw_packet \<Rightarrow> step_result" where
  "process_packet flows config packet = do {
     parsed \<leftarrow> parse_ipv4_tcp packet;
     case parsed of
       None \<Rightarrow> Some (flows, Inr None)
     | Some tcp \<Rightarrow>
         if dst_port (v_key tcp) \<noteq> listen_port config then Some (flows, Inr None)
         else if v_flags tcp AND TCP_RST \<noteq> 0 then Some (hm_remove (v_key tcp) flows, Inr None)
         else if v_flags tcp AND TCP_SYN \<noteq> 0 \<and> v_flags tcp AND TCP_ACK = 0 then handle_syn flows config tcp
         else (case hm_get flows (v_key tcp) of
                 None \<Rightarrow> Some (flows, Inr None)
               | Some flow \<Rightarrow> handle_segment flows tcp flow) }"

text \<open>
  \<open>process_batch_into\<close>: counters first, then the packets in order; the first error returns
  with the responses pushed so far.
\<close>

fun process_packets :: "flows \<Rightarrow> packet_engine_config \<Rightarrow> raw_packet list \<Rightarrow> raw_packet option list
    \<Rightarrow> (flows \<times> raw_packet option list \<times> (packet_error + unit)) option" where
  "process_packets flows config [] output = Some (flows, output, Inr ())"
| "process_packets flows config (p # ps) output = do {
     (flows', r) \<leftarrow> process_packet flows config p;
     case r of
       Inl e \<Rightarrow> Some (flows', output, Inl e)
     | Inr out \<Rightarrow> process_packets flows' config ps (output @ [out]) }"

definition process_batch_into :: "cpu_packet_engine \<Rightarrow> raw_packet list
    \<Rightarrow> (cpu_packet_engine \<times> raw_packet option list \<times> (packet_error + unit)) option" where
  "process_batch_into eng ps = do {
     let eng = eng\<lparr>ce_dispatches := ce_dispatches eng + 1,
                   ce_packets := ce_packets eng + of_nat (length ps)\<rparr>;
     (flows', output, r) \<leftarrow> process_packets (ce_flows eng) (ce_config eng) ps [];
     Some (eng\<lparr>ce_flows := flows'\<rparr>, output, r) }"

definition process_batch :: "cpu_packet_engine \<Rightarrow> raw_packet list
    \<Rightarrow> (cpu_packet_engine \<times> (packet_error + raw_packet option list)) option" where
  "process_batch eng ps = do {
     (eng', output, r) \<leftarrow> process_batch_into eng ps;
     Some (eng', (case r of Inl e \<Rightarrow> Inl e | Inr _ \<Rightarrow> Inr output)) }"

text \<open>
  \<open>process_batch_to\<close>: the responses are handed to the sink in order. A sink is a state
  transformer that may fail; its first failure stops the delivery.
\<close>

fun deliver :: "'s sink \<Rightarrow> 's \<Rightarrow> nat \<Rightarrow> raw_packet option list \<Rightarrow> ('s \<times> (packet_error + unit)) option" where
  "deliver sink s i [] = Some (s, Inr ())"
| "deliver sink s i (out # outs) = do {
     (s', r) \<leftarrow> sink s i (map_option as_bytes out);
     case r of Inl e \<Rightarrow> Some (s', Inl e) | Inr _ \<Rightarrow> deliver sink s' (Suc i) outs }"

definition process_batch_to :: "cpu_packet_engine \<Rightarrow> raw_packet list \<Rightarrow> 's sink \<Rightarrow> 's
    \<Rightarrow> (cpu_packet_engine \<times> 's \<times> (packet_error + unit)) option" where
  "process_batch_to eng ps sink s = do {
     (eng', output, r) \<leftarrow> process_batch_into eng ps;
     case r of
       Inl e \<Rightarrow> Some (eng', s, Inl e)
     | Inr _ \<Rightarrow> do { (s', r') \<leftarrow> deliver sink s 0 output; Some (eng', s', r') } }"

definition cpu_metrics :: "cpu_packet_engine \<Rightarrow> packet_engine_metrics" where
  "cpu_metrics eng = default_metrics\<lparr>dispatches := ce_dispatches eng, packets := ce_packets eng\<rparr>"

end
