(* ===== verification/CpuProofs.thy ===== *)
theory CpuProofs
  imports CpuEngine WireProofs
begin

text \<open>
  The CPU packet engine refines one small state machine per connection. \<open>conn_step\<close> is
  that machine: from the state of one connection (or none) and an arriving segment to the
  new state and the answer. \<open>process_packet_refines\<close> shows that \<open>process_packet\<close> applies it
  to the addressed connection and leaves every other connection alone; \<open>table_inv\<close> is the
  invariant of the flow table, kept by every packet.
\<close>

section \<open>Emission never fails\<close>

definition reply_spec :: "flow_key \<Rightarrow> u32 \<Rightarrow> u32 \<Rightarrow> u8 \<Rightarrow> bytes \<Rightarrow> tcp_spec" where
  "reply_spec key seq ack flags payload = \<lparr>
     s_key = \<lparr>src_ip = dst_ip key, dst_ip = src_ip key, src_port = dst_port key, dst_port = src_port key\<rparr>,
     s_seq = seq, s_ack = ack, s_flags = flags, s_payload = payload\<rparr>"

definition reply :: "flow_key \<Rightarrow> u32 \<Rightarrow> u32 \<Rightarrow> u8 \<Rightarrow> bytes \<Rightarrow> raw_packet" where
  "reply key seq ack flags payload = RawPacket (built (reply_spec key seq ack flags payload))"

lemma emit_closed:
  assumes "length payload \<le> 1496"
  shows "emit key seq ack flags payload = Some (Inr (reply key seq ack flags payload))"
proof -
  have "40 + length (s_payload (reply_spec key seq ack flags payload)) \<le> MAX_RAW_PACKET_BYTES"
    using assms by (simp add: reply_spec_def MAX_RAW_PACKET_BYTES_def)
  from build_closed [OF this] show ?thesis by (simp add: emit_def reply_def reply_spec_def)
qed

lemma emit_empty [simp]: "emit key seq ack flags [] = Some (Inr (reply key seq ack flags []))"
  by (simp add: emit_closed)

lemma emit_response [simp]:
  "emit key seq ack flags (cpu_response r) = Some (Inr (reply key seq ack flags (cpu_response r)))"
  using cpu_response_bounds(2) [of r] by (intro emit_closed) simp

lemma map_some_Inr [simp]: "map_some (Inr p) = Inr (Some p)"
  by (simp add: map_some_def)

section \<open>One connection\<close>

record segment =
  g_seq :: u32
  g_ack :: u32
  g_flags :: u8
  g_payload :: bytes

definition segment_packet :: "flow_key \<Rightarrow> segment \<Rightarrow> raw_packet" where
  "segment_packet key g = reply key (g_seq g) (g_ack g) (g_flags g) (g_payload g)"

definition isn :: "flow_key \<Rightarrow> u32" where
  "isn key = flow_hash key XOR 0xa5a55a5a"

definition has_flag :: "tcp_view \<Rightarrow> u8 \<Rightarrow> bool" where
  "has_flag v b \<longleftrightarrow> v_flags v AND b \<noteq> 0"

text \<open>An established connection receives a segment.\<close>

definition ack_update :: "tcp_view \<Rightarrow> flow \<Rightarrow> flow" where
  "ack_update v f = (if has_flag v TCP_ACK \<and> v_ack v = send_next f then f\<lparr>send_unacked := v_ack v\<rparr> else f)"

definition data_segment :: "flow \<Rightarrow> tcp_view \<Rightarrow> segment" where
  "data_segment f v = \<lparr>g_seq = send_next f,
     g_ack = v_seq v + of_nat (length (v_payload v)) + (if has_flag v TCP_FIN then 1 else 0),
     g_flags = TCP_ACK OR TCP_PSH, g_payload = cpu_response (classify_http_request (v_payload v))\<rparr>"

definition after_data :: "flow \<Rightarrow> tcp_view \<Rightarrow> flow" where
  "after_data f v = (let g = data_segment f v in
     f\<lparr>recv_next := g_ack g, send_next := send_next f + of_nat (length (g_payload g)),
       last_resp := Some \<lparr>client_seq = v_seq v, client_len = length (v_payload v), response_seq = g_seq g,
         response_ack = g_ack g, response_id = classify_http_request (v_payload v)\<rparr>\<rparr>)"

definition duplicate_of :: "tcp_view \<Rightarrow> last_response \<Rightarrow> bool" where
  "duplicate_of v l \<longleftrightarrow> v_seq v = client_seq l \<and> length (v_payload v) = client_len l"

definition unexpected :: "tcp_view \<Rightarrow> flow \<Rightarrow> segment" where
  "unexpected v f = (case last_resp f of
       Some l \<Rightarrow> if duplicate_of v l
         then \<lparr>g_seq = response_seq l, g_ack = response_ack l, g_flags = TCP_ACK OR TCP_PSH,
               g_payload = cpu_response (response_id l)\<rparr>
         else \<lparr>g_seq = send_next f, g_ack = recv_next f, g_flags = TCP_ACK, g_payload = []\<rparr>
     | None \<Rightarrow> \<lparr>g_seq = send_next f, g_ack = recv_next f, g_flags = TCP_ACK, g_payload = []\<rparr>)"

definition established_step :: "tcp_view \<Rightarrow> flow \<Rightarrow> flow option \<times> segment option" where
  "established_step v f =
     (if v_seq v \<noteq> recv_next f then (Some f, Some (unexpected v f))
      else if v_payload v = [] then
        (if has_flag v TCP_FIN
         then (None, Some \<lparr>g_seq = send_next f, g_ack = v_seq v + 1, g_flags = TCP_ACK, g_payload = []\<rparr>)
         else (Some f, None))
      else (if has_flag v TCP_FIN then None else Some (after_data f v), Some (data_segment f v)))"

definition completes_handshake :: "tcp_view \<Rightarrow> flow \<Rightarrow> bool" where
  "completes_handshake v f \<longleftrightarrow> has_flag v TCP_ACK \<and> v_ack v = send_next f \<and> v_seq v = recv_next f"

definition conn_step :: "bool \<Rightarrow> tcp_view \<Rightarrow> flow option \<Rightarrow> flow option \<times> segment option" where
  "conn_step room v fo =
     (if has_flag v TCP_RST then (None, None)
      else if has_flag v TCP_SYN \<and> \<not> has_flag v TCP_ACK then
        (case fo of
           None \<Rightarrow> if room
             then (Some (new_flow (v_seq v + 1) (isn (v_key v))),
                   Some \<lparr>g_seq = isn (v_key v), g_ack = v_seq v + 1, g_flags = TCP_SYN OR TCP_ACK, g_payload = []\<rparr>)
             else (None, None)
         | Some f \<Rightarrow> (case fl_state f of
             SynReceived \<Rightarrow> (Some (new_flow (v_seq v + 1) (isn (v_key v))),
                   Some \<lparr>g_seq = isn (v_key v), g_ack = v_seq v + 1, g_flags = TCP_SYN OR TCP_ACK, g_payload = []\<rparr>)
           | Established \<Rightarrow> (Some f,
                   Some \<lparr>g_seq = send_next f, g_ack = recv_next f, g_flags = TCP_ACK, g_payload = []\<rparr>)))
      else (case fo of
           None \<Rightarrow> (None, None)
         | Some f \<Rightarrow> (case fl_state f of
             SynReceived \<Rightarrow> if completes_handshake v f
               then established_step v (f\<lparr>fl_state := Established, send_unacked := v_ack v\<rparr>)
               else (Some f, None)
           | Established \<Rightarrow> established_step v (ack_update v f))))"

section \<open>Invariants\<close>

definition last_inv :: "flow \<Rightarrow> last_response \<Rightarrow> bool" where
  "last_inv f l \<longleftrightarrow> unat (response_id l) < 5 \<and> 0 < client_len l
     \<and> response_seq l + of_nat (length (cpu_response (response_id l))) = send_next f
     \<and> response_ack l = recv_next f \<and> client_seq l + of_nat (client_len l) = recv_next f"

definition flow_inv :: "flow_key \<Rightarrow> flow \<Rightarrow> bool" where
  "flow_inv key f \<longleftrightarrow>
     (fl_state f = SynReceived \<longrightarrow> send_next f = isn key + 1 \<and> send_unacked f = isn key \<and> last_resp f = None)
     \<and> (\<forall>l. last_resp f = Some l \<longrightarrow> last_inv f l)"

definition table_inv :: "packet_engine_config \<Rightarrow> flows \<Rightarrow> bool" where
  "table_inv config flows \<longleftrightarrow> hm_inv flows \<and> hm_len flows \<le> flow_capacity config
     \<and> hm.all_entries (\<lambda>key f. dst_port key = listen_port config \<and> flow_inv key f) flows"

lemma table_inv_get:
  "table_inv config flows \<Longrightarrow> hm_get flows key = Some f \<Longrightarrow> dst_port key = listen_port config \<and> flow_inv key f"
  by (auto simp: table_inv_def dest: hm.all_entriesD)

lemma table_inv_empty [simp]: "table_inv config []"
  by (simp add: table_inv_def hm_len_def hm.all_entries_def)

lemma flow_inv_new: "flow_inv key (new_flow n (isn key))"
  by (simp add: flow_inv_def new_flow_def)

lemma syn_received_unique:
  "flow_inv key f \<Longrightarrow> fl_state f = SynReceived \<Longrightarrow> f = new_flow (recv_next f) (isn key)"
  by (simp add: flow_inv_def new_flow_def)

section \<open>Refinement\<close>

definition room :: "packet_engine_config \<Rightarrow> flows \<Rightarrow> bool" where
  "room config flows \<longleftrightarrow> hm_len flows < flow_capacity config"

definition performs :: "step_result \<Rightarrow> flows \<Rightarrow> flow_key \<Rightarrow> flow option \<times> segment option \<Rightarrow> bool" where
  "performs r flows key act \<longleftrightarrow> (\<exists>flows'. r = Some (flows', Inr (map_option (segment_packet key) (snd act)))
     \<and> hm_inv flows' \<and> hm_get flows' = (hm_get flows)(key := fst act))"

lemma performs_same:
  "hm_inv flows \<Longrightarrow> hm_get flows key = fo \<Longrightarrow> performs (Some (flows, Inr None)) flows key (fo, None)"
  by (auto simp: performs_def)

lemma performs_insert:
  "hm_inv flows \<Longrightarrow> p = segment_packet key g \<Longrightarrow>
     performs (Some (hm_insert key f flows, Inr (Some p))) flows key (Some f, Some g)"
  by (auto simp: performs_def hm.inv_insert hm.lookup_insert)

lemma performs_update:
  "hm_inv flows \<Longrightarrow> performs (Some (hm_insert key f flows, Inr None)) flows key (Some f, None)"
  by (auto simp: performs_def hm.inv_insert hm.lookup_insert)

lemma performs_remove:
  "hm_inv flows \<Longrightarrow> performs (Some (hm_remove key flows, Inr None)) flows key (None, None)"
  by (auto simp: performs_def hm.inv_remove hm.lookup_remove)

lemma performs_close:
  "hm_inv flows \<Longrightarrow> p = segment_packet key g \<Longrightarrow>
     performs (Some (hm_remove key (hm_insert key f flows), Inr (Some p))) flows key (None, Some g)"
  by (auto simp: performs_def hm.inv_insert hm.inv_remove hm.lookup_insert hm.lookup_remove)

lemma handle_syn_cases:
  assumes "has_flag v TCP_SYN" "hm_get flows (v_key v) = fo"
  shows "fo = None \<Longrightarrow> \<not> room config flows \<Longrightarrow> handle_syn flows config v = Some (flows, Inr None)"
    and "fo = None \<Longrightarrow> room config flows \<Longrightarrow> handle_syn flows config v =
      Some (hm_insert (v_key v) (new_flow (v_seq v + 1) (isn (v_key v))) flows,
            Inr (Some (reply (v_key v) (isn (v_key v)) (v_seq v + 1) (TCP_SYN OR TCP_ACK) [])))"
    and "fo = Some f \<Longrightarrow> fl_state f = Established \<Longrightarrow> handle_syn flows config v =
      Some (hm_insert (v_key v) f flows,
            Inr (Some (reply (v_key v) (send_next f) (recv_next f) TCP_ACK [])))"
    and "fo = Some f \<Longrightarrow> f = new_flow n (isn (v_key v)) \<Longrightarrow> handle_syn flows config v =
      Some (hm_insert (v_key v) (new_flow (v_seq v + 1) (isn (v_key v))) flows,
            Inr (Some (reply (v_key v) (isn (v_key v)) (v_seq v + 1) (TCP_SYN OR TCP_ACK) [])))"
  using assms(2) by (auto simp: handle_syn_def room_def not_le not_less new_flow_def isn_def Let_def)

lemma handle_syn_performs:
  assumes "table_inv config flows" "\<not> has_flag v TCP_RST" "has_flag v TCP_SYN" "\<not> has_flag v TCP_ACK"
  shows "performs (handle_syn flows config v) flows (v_key v)
           (conn_step (room config flows) v (hm_get flows (v_key v)))"
proof -
  have hi: "hm_inv flows" using assms(1) by (simp add: table_inv_def)
  note syn = handle_syn_cases [OF assms(3) refl]
  show ?thesis
  proof (cases "hm_get flows (v_key v)")
    case None
    show ?thesis
    proof (cases "room config flows")
      case True
      show ?thesis unfolding syn(2) [OF None True]
        using assms None True by (simp add: conn_step_def performs_insert hi segment_packet_def)
    next
      case False
      show ?thesis unfolding syn(1) [OF None False]
        using assms None False by (simp add: conn_step_def performs_same hi)
    qed
  next
    case (Some f)
    then have inv: "flow_inv (v_key v) f" using assms(1) table_inv_get by blast
    show ?thesis
    proof (cases "fl_state f")
      case Established
      show ?thesis unfolding syn(3) [OF Some Established]
        using assms Some Established by (simp add: conn_step_def performs_insert hi segment_packet_def)
    next
      case SynReceived
      show ?thesis unfolding syn(4) [OF Some syn_received_unique [OF inv SynReceived]]
        using assms Some SynReceived by (simp add: conn_step_def performs_insert hi segment_packet_def)
    qed
  qed
qed

text \<open>The answers to an established connection, one equation per branch of the code.\<close>

lemma ack_update_code:
  "(if v_flags v AND TCP_ACK \<noteq> 0 \<and> v_ack v = send_next f \<and> v_ack v \<noteq> send_unacked f
    then f\<lparr>send_unacked := v_ack v\<rparr> else f) = ack_update v f"
  by (auto simp: ack_update_def has_flag_def)

definition enters :: "tcp_view \<Rightarrow> flow \<Rightarrow> flow option" where
  "enters v f = (case fl_state f of
       SynReceived \<Rightarrow> if completes_handshake v f
         then Some (f\<lparr>fl_state := Established, send_unacked := v_ack v\<rparr>) else None
     | Established \<Rightarrow> Some (ack_update v f))"

lemma handle_segment_ignores: "enters v f = None \<Longrightarrow> handle_segment flows v f = Some (flows, Inr None)"
  by (auto simp: enters_def handle_segment_def completes_handshake_def has_flag_def Let_def
      split: flow_state.splits if_splits)

lemma ack_update_simps [simp]:
  "send_next (ack_update v f) = send_next f" "recv_next (ack_update v f) = recv_next f"
  "last_resp (ack_update v f) = last_resp f" "fl_state (ack_update v f) = fl_state f"
  "ack_update v (ack_update v f) = ack_update v f"
  by (simp_all add: ack_update_def)

lemma handle_segment_established:
  assumes "fl_state f = Established"
  shows "v_seq v \<noteq> recv_next f \<Longrightarrow> handle_segment flows v f =
      Some (hm_insert (v_key v) (ack_update v f) flows,
            Inr (Some (segment_packet (v_key v) (unexpected v (ack_update v f)))))" (is "?a \<Longrightarrow> ?A")
    and "v_seq v = recv_next f \<Longrightarrow> v_payload v = [] \<Longrightarrow> \<not> has_flag v TCP_FIN \<Longrightarrow> handle_segment flows v f =
      Some (hm_insert (v_key v) (ack_update v f) flows, Inr None)" (is "_ \<Longrightarrow> _ \<Longrightarrow> _ \<Longrightarrow> ?B")
    and "v_seq v = recv_next f \<Longrightarrow> v_payload v = [] \<Longrightarrow> has_flag v TCP_FIN \<Longrightarrow> handle_segment flows v f =
      Some (hm_remove (v_key v) (hm_insert (v_key v) (ack_update v f) flows),
            Inr (Some (reply (v_key v) (send_next f) (v_seq v + 1) TCP_ACK [])))" (is "_ \<Longrightarrow> _ \<Longrightarrow> _ \<Longrightarrow> ?C")
    and "v_seq v = recv_next f \<Longrightarrow> v_payload v \<noteq> [] \<Longrightarrow> handle_segment flows v f =
      Some (let flows' = hm_insert (v_key v) (after_data (ack_update v f) v) flows
            in if has_flag v TCP_FIN then hm_remove (v_key v) flows' else flows',
            Inr (Some (segment_packet (v_key v) (data_segment (ack_update v f) v))))" (is "_ \<Longrightarrow> _ \<Longrightarrow> ?D")
proof -
  note body = handle_segment_def Let_def ack_update_code assms if_False if_True simp_thms flow_state.distinct
  show ?A if ?a
    using that by (simp only: body) (simp add: unexpected_def duplicate_of_def segment_packet_def split: option.splits)
  show ?B if "v_seq v = recv_next f" "v_payload v = []" "\<not> has_flag v TCP_FIN"
    using that by (simp only: body) (simp add: has_flag_def)
  show ?C if "v_seq v = recv_next f" "v_payload v = []" "has_flag v TCP_FIN"
    using that by (simp only: body) (simp add: has_flag_def)
  show ?D if "v_seq v = recv_next f" "v_payload v \<noteq> []"
    using that by (simp only: body) (simp add: has_flag_def data_segment_def after_data_def segment_packet_def Let_def)
qed

lemma handle_segment_completes:
  assumes "fl_state f = SynReceived" "completes_handshake v f"
  shows "handle_segment flows v f = handle_segment flows v (f\<lparr>fl_state := Established, send_unacked := v_ack v\<rparr>)"
  using assms by (simp only: handle_segment_def Let_def completes_handshake_def has_flag_def) simp

lemma established_performs:
  assumes "hm_inv flows" "fl_state f = Established"
  shows "performs (handle_segment flows v f) flows (v_key v) (established_step v (ack_update v f))"
proof -
  note est = handle_segment_established [OF assms(2)]
  consider (unexp) "v_seq v \<noteq> recv_next f"
    | (ack) "v_seq v = recv_next f" "v_payload v = []" "\<not> has_flag v TCP_FIN"
    | (fin) "v_seq v = recv_next f" "v_payload v = []" "has_flag v TCP_FIN"
    | (data) "v_seq v = recv_next f" "v_payload v \<noteq> []"
    by blast
  then show ?thesis
  proof cases
    case unexp
    show ?thesis unfolding est(1) [OF unexp]
      using unexp by (simp add: established_step_def performs_insert assms(1))
  next
    case ack
    show ?thesis unfolding est(2) [OF ack]
      using ack by (simp add: established_step_def performs_update assms(1))
  next
    case fin
    show ?thesis unfolding est(3) [OF fin]
      using fin by (simp add: established_step_def performs_close assms(1) segment_packet_def)
  next
    case data
    show ?thesis unfolding est(4) [OF data]
      using data by (simp add: established_step_def performs_close performs_insert assms(1) Let_def)
  qed
qed

lemma conn_step_segment:
  assumes "\<not> has_flag v TCP_RST" "\<not> (has_flag v TCP_SYN \<and> \<not> has_flag v TCP_ACK)"
  shows "conn_step r v (Some f) = (case enters v f of None \<Rightarrow> (Some f, None) | Some e \<Rightarrow> established_step v e)"
    and "conn_step r v None = (None, None)"
  using assms(1)
  by (simp_all only: conn_step_def if_not_P [OF assms(2)] if_False option.case)
    (simp add: enters_def split: flow_state.split)

lemma handle_segment_performs:
  assumes "hm_inv flows" "hm_get flows (v_key v) = Some f"
    "\<not> has_flag v TCP_RST" "\<not> (has_flag v TCP_SYN \<and> \<not> has_flag v TCP_ACK)"
  shows "performs (handle_segment flows v f) flows (v_key v) (conn_step r v (Some f))"
proof (cases "fl_state f")
  case Established
  show ?thesis using established_performs [OF assms(1) Established] Established
    by (simp add: conn_step_segment [OF assms(3,4)] enters_def)
next
  case SynReceived
  show ?thesis
  proof (cases "completes_handshake v f")
    case True
    let ?e = "f\<lparr>fl_state := Established, send_unacked := v_ack v\<rparr>"
    have up: "ack_update v ?e = ?e" by (simp add: ack_update_def)
    have "performs (handle_segment flows v ?e) flows (v_key v) (established_step v (ack_update v ?e))"
      by (rule established_performs [OF assms(1)]) simp
    then show ?thesis using SynReceived True unfolding handle_segment_completes [OF SynReceived True] up
      by (simp add: conn_step_segment [OF assms(3,4)] enters_def)
  next
    case False
    then have none: "enters v f = None" using SynReceived by (simp add: enters_def)
    show ?thesis unfolding handle_segment_ignores [OF none]
      using assms(1,2) none by (simp add: conn_step_segment [OF assms(3,4)] performs_same)
  qed
qed

text \<open>The specification of a whole packet.\<close>

definition addressed :: "packet_engine_config \<Rightarrow> raw_packet \<Rightarrow> tcp_view option" where
  "addressed config p = (if well_formed_ipv4_tcp (as_bytes p) \<and> dst_port (key_at (as_bytes p)) = listen_port config
     then Some (view_at (as_bytes p)) else None)"

definition packet_act :: "packet_engine_config \<Rightarrow> flows \<Rightarrow> tcp_view \<Rightarrow> flow option \<times> segment option" where
  "packet_act config flows v = conn_step (room config flows) v (hm_get flows (v_key v))"

lemma process_packet_not_addressed:
  "addressed config p = None \<Longrightarrow> process_packet flows config p = Some (flows, Inr None)"
  by (auto simp: process_packet_def parse_closed addressed_def view_at_def split: if_splits)

lemma process_packet_addressed:
  assumes "addressed config p = Some v" "table_inv config flows"
  shows "performs (process_packet flows config p) flows (v_key v) (packet_act config flows v)"
proof -
  have wf: "parse_ipv4_tcp p = Some (Some v)" and dst: "dst_port (v_key v) = listen_port config"
    using assms(1) by (auto simp: addressed_def parse_closed view_at_def split: if_splits)
  have hi: "hm_inv flows" using assms(2) by (simp add: table_inv_def)
  have code: "process_packet flows config p =
      (if has_flag v TCP_RST then Some (hm_remove (v_key v) flows, Inr None)
       else if has_flag v TCP_SYN \<and> \<not> has_flag v TCP_ACK then handle_syn flows config v
       else (case hm_get flows (v_key v) of None \<Rightarrow> Some (flows, Inr None)
             | Some flow \<Rightarrow> handle_segment flows v flow))"
    by (simp add: process_packet_def wf dst has_flag_def)
  consider (rst) "has_flag v TCP_RST" | (syn) "\<not> has_flag v TCP_RST" "has_flag v TCP_SYN \<and> \<not> has_flag v TCP_ACK"
    | (other) "\<not> has_flag v TCP_RST" "\<not> (has_flag v TCP_SYN \<and> \<not> has_flag v TCP_ACK)" by blast
  then show ?thesis
  proof cases
    case rst
    then show ?thesis by (simp add: code packet_act_def conn_step_def performs_remove hi)
  next
    case syn
    then show ?thesis using handle_syn_performs [OF assms(2)] by (simp add: code packet_act_def)
  next
    case other
    show ?thesis
    proof (cases "hm_get flows (v_key v)")
      case None
      show ?thesis unfolding code if_not_P [OF other(1)] if_not_P [OF other(2)]
        by (simp add: None packet_act_def conn_step_segment(2) [OF other] performs_same hi)
    next
      case (Some f)
      show ?thesis unfolding code if_not_P [OF other(1)] if_not_P [OF other(2)]
        using handle_segment_performs [OF hi Some other] by (simp add: Some packet_act_def)
    qed
  qed
qed

section \<open>The invariant is kept\<close>

lemma established_step_inv:
  assumes "flow_inv key f" "fl_state f = Established" "established_step v f = (Some f', out)"
  shows "flow_inv key f' \<and> fl_state f' = Established"
proof (cases "f' = f")
  case True
  with assms show ?thesis by simp
next
  case False
  then have "f' = after_data f v" and pl: "v_payload v \<noteq> []" and nofin: "\<not> has_flag v TCP_FIN"
    and seq: "v_seq v = recv_next f"
    using assms(3) by (auto simp: established_step_def split: if_splits)
  moreover have "unat (classify_http_request (v_payload v)) < 5" by (rule classify_bound)
  ultimately show ?thesis using assms(1,2)
    by (simp add: flow_inv_def after_data_def last_inv_def data_segment_def Let_def)
qed

lemma flow_inv_ack_update: "flow_inv key f \<Longrightarrow> fl_state f = Established \<Longrightarrow> flow_inv key (ack_update v f)"
  by (simp add: flow_inv_def last_inv_def ack_update_def)

lemma flow_inv_establish: "flow_inv key f \<Longrightarrow> fl_state f = SynReceived \<Longrightarrow>
    flow_inv key (f\<lparr>fl_state := Established, send_unacked := a\<rparr>)"
  by (simp add: flow_inv_def)

lemma enters_inv: "flow_inv key f \<Longrightarrow> enters v f = Some e \<Longrightarrow> flow_inv key e \<and> fl_state e = Established"
  by (auto simp: enters_def flow_inv_ack_update flow_inv_establish split: flow_state.splits if_splits)

lemma conn_step_inv:
  assumes "\<forall>f. fo = Some f \<longrightarrow> flow_inv (v_key v) f" "fst (conn_step r v fo) = Some f'"
  shows "flow_inv (v_key v) f' \<and> (fo = None \<longrightarrow> r)"
proof -
  have norst: "\<not> has_flag v TCP_RST" using assms(2) by (auto simp: conn_step_def)
  show ?thesis
  proof (cases "has_flag v TCP_SYN \<and> \<not> has_flag v TCP_ACK")
    case True
    then show ?thesis using assms norst
      by (auto simp: conn_step_def flow_inv_new split: option.splits flow_state.splits if_splits)
  next
    case False
    note seg = conn_step_segment [OF norst False]
    obtain f where f: "fo = Some f" using assms(2) by (cases fo) (auto simp: seg)
    then have inv: "flow_inv (v_key v) f" using assms(1) by simp
    show ?thesis
    proof (cases "enters v f")
      case None
      then show ?thesis using assms(2) inv by (simp add: f seg)
    next
      case (Some e)
      then have est: "established_step v e = (Some f', snd (established_step v e))"
        using assms(2) by (simp add: f seg prod_eq_iff)
      have "flow_inv (v_key v) e" "fl_state e = Established" using enters_inv [OF inv Some] by auto
      from established_step_inv [OF this est] show ?thesis by (simp add: f)
    qed
  qed
qed

lemma performs_table_inv:
  assumes "table_inv config flows" "performs res flows key act" "dst_port key = listen_port config"
    "\<forall>f'. fst act = Some f' \<longrightarrow> flow_inv key f' \<and> (hm_get flows key = None \<longrightarrow> room config flows)"
  obtains flows' where "res = Some (flows', Inr (map_option (segment_packet key) (snd act)))"
    "table_inv config flows'" "hm_get flows' = (hm_get flows)(key := fst act)"
proof -
  have hi: "hm_inv flows" and len: "hm_len flows \<le> flow_capacity config"
    using assms(1) by (auto simp: table_inv_def)
  obtain flows' where res: "res = Some (flows', Inr (map_option (segment_packet key) (snd act)))"
    and hi': "hm_inv flows'" and get: "hm_get flows' = (hm_get flows)(key := fst act)"
    using assms(2) by (auto simp: performs_def)
  have "hm_len flows' \<le> flow_capacity config"
  proof (cases "fst act")
    case None
    then have "hm_get flows' = hm_get (hm_remove key flows)" by (simp add: get hm.lookup_remove hi)
    then show ?thesis using hm.count_remove_le [OF hi, of key] len
      by (simp add: hm.count_card hi' hm.inv_remove [OF hi])
  next
    case (Some f)
    then have "hm_get flows' = hm_get (hm_insert key f flows)" by (simp add: get hm.lookup_insert hi)
    then have "hm_len flows' = hm_len (hm_insert key f flows)" by (simp add: hm.count_card hi' hm.inv_insert [OF hi])
    moreover have "hm_get flows key \<noteq> None \<or> hm_len flows < flow_capacity config"
      using assms(4) Some by (auto simp: room_def)
    ultimately show ?thesis using hm.count_insert_bounded [OF hi len] by simp
  qed
  moreover have "hm.all_entries (\<lambda>key f. dst_port key = listen_port config \<and> flow_inv key f) flows'"
    using assms(1,3,4) by (auto simp: table_inv_def hm.all_entries_def get)
  ultimately show thesis using that res hi' get by (simp add: table_inv_def)
qed

end
