(* ===== verification/FlowSlots.thy ===== *)
theory FlowSlots
  imports PacketShader CpuProofs
begin

text \<open>
  The flow table of the packet shader: open addressing with linear probing and tombstones.
  \<open>flow_table\<close> is the abstraction to a map from connections to their state, \<open>slots_ok\<close> the
  invariant. \<open>flow_find\<close> finds the slot of a live connection, \<open>flow_claim\<close> takes an unoccupied
  slot of the probe window, and each update of a slot is an update of the map.
\<close>

section \<open>Slots and keys\<close>

definition live :: "flow_slot \<Rightarrow> bool" where
  "live s \<longleftrightarrow> sl_state s = STATE_SYN_RECEIVED \<or> sl_state s = STATE_ESTABLISHED"

definition unoccupied :: "flow_slot \<Rightarrow> bool" where
  "unoccupied s \<longleftrightarrow> sl_state s = STATE_FREE \<or> sl_state s = STATE_TOMBSTONE"

definition key_of_slot :: "flow_slot \<Rightarrow> slot_key" where
  "key_of_slot s = \<lparr>sk_hash = sl_key_hash s, sk_src_ip = sl_src_ip s, sk_dst_ip = sl_dst_ip s, sk_ports = sl_ports s\<rparr>"

definition slot_key_of :: "flow_key \<Rightarrow> slot_key" where
  "slot_key_of k = \<lparr>sk_hash = flow_hash k, sk_src_ip = src_ip k, sk_dst_ip = dst_ip k,
     sk_ports = packed_ports (ucast (src_port k)) (ucast (dst_port k))\<rparr>"

lemma flow_matches_iff: "flow_matches s k \<longleftrightarrow> key_of_slot s = k"
  by (cases k) (auto simp: flow_matches_def key_of_slot_def)

lemma shader_hash: "shader_flow_hash (src_ip k) (dst_ip k) (ucast (src_port k)) (ucast (dst_port k)) = flow_hash k"
  by (simp add: shader_flow_hash_def flow_hash_def)

lemma packed_ports_inject:
  "packed_ports (ucast (a :: u16)) (ucast (b :: u16)) = packed_ports (ucast c) (ucast d) \<longleftrightarrow> a = c \<and> b = d"
proof
  assume eq: "packed_ports (ucast a) (ucast b) = packed_ports (ucast c) (ucast d)"
  have "bit a n = bit c n" if "n < 16" for n
    using arg_cong [OF eq, of "\<lambda>w. bit w (n + 16)"] that by (auto simp: packed_ports_def bit_simps dest: bit_imp_le_length)
  moreover have "bit b n = bit d n" if "n < 16" for n
    using arg_cong [OF eq, of "\<lambda>w. bit w n"] that by (auto simp: packed_ports_def bit_simps dest: bit_imp_le_length)
  ultimately show "a = c \<and> b = d" by (auto intro!: bit_word_eqI)
qed simp

lemma slot_key_of_inject [simp]: "slot_key_of k = slot_key_of k' \<longleftrightarrow> k = k'"
  by (cases k; cases k') (auto simp: slot_key_of_def packed_ports_inject)

definition flow_of_slot :: "flow_slot \<Rightarrow> flow" where
  "flow_of_slot s = \<lparr>fl_state = (if sl_state s = STATE_SYN_RECEIVED then SynReceived else Established),
     recv_next = sl_recv_next s, send_next = sl_send_next s, send_unacked = sl_send_unacked s,
     last_resp = (if 0 < sl_last_response_len s
       then Some \<lparr>client_seq = sl_last_client_seq s, client_len = unat (sl_last_client_len s),
         response_seq = sl_last_response_seq s, response_ack = sl_last_response_ack s, response_id = sl_last_response_id s\<rparr>
       else None)\<rparr>"

section \<open>Addresses\<close>

definition address :: "nat \<Rightarrow> slot_key \<Rightarrow> nat \<Rightarrow> nat" where
  "address n k p = (unat (sk_hash k) + p) mod n"

text \<open>The table the shader is run on: a power of two of slots, probed at most \<open>m\<close> times.\<close>

definition table_shape :: "packet_bindings \<Rightarrow> nat \<Rightarrow> nat \<Rightarrow> bool" where
  "table_shape d n m \<longleftrightarrow> unat (pe_flow_capacity (pb_params d)) = n \<and> unat (probe_limit d) = m
     \<and> is_power_of_two n \<and> n \<le> U32_MAX \<and> 0 < m \<and> m \<le> n"

lemma probe_slot_address:
  assumes "table_shape d n m"
  shows "unat (probe_slot d k p) = address n k (unat p)"
proof -
  obtain e where e: "n = 2 ^ e" using assms by (auto simp: table_shape_def is_power_of_two_iff)
  have "n < 2 ^ 32" using assms by (simp add: table_shape_def U32_MAX_def)
  then have e32: "e < 32" unfolding e by (rule power_less_imp_less_exp [rotated]) simp
  have "pe_flow_capacity (pb_params d) = 2 ^ e"
  proof (rule unsigned_word_eqI [where 'a = nat])
    have "unat (of_nat (2 ^ e) :: u32) = 2 ^ e" using \<open>n < 2 ^ 32\<close> e by (intro unat_of_nat_u32) (simp add: U32_MAX_def)
    then show "unat (pe_flow_capacity (pb_params d)) = unat (2 ^ e :: u32)" using assms e by (simp add: table_shape_def)
  qed
  then have "probe_slot d k p = take_bit e (sk_hash k + p)" by (simp add: probe_slot_def take_bit_eq_mask mask_eq_exp_minus_1)
  then have "unat (probe_slot d k p) = take_bit e (unat (sk_hash k + p))" by (simp only: unsigned_take_bit_eq)
  also have "\<dots> = (unat (sk_hash k) + unat p) mod 2 ^ 32 mod 2 ^ e" by (simp add: take_bit_eq_mod unat_word_ariths)
  also have "\<dots> = (unat (sk_hash k) + unat p) mod 2 ^ e" using e32 by (intro mod_mod_cancel le_imp_power_dvd) simp
  finally show ?thesis by (simp add: address_def e)
qed

lemma address_less: "0 < n \<Longrightarrow> address n k p < n"
  by (simp add: address_def)

lemma address_inj: "inj_on (address n k) {..<n}"
proof (rule linorder_inj_onI)
  fix p q assume "p < q" "p \<in> {..<n}" "q \<in> {..<n}"
  then have "\<not> n dvd (unat (sk_hash k) + q) - (unat (sk_hash k) + p)" by (auto dest: dvd_imp_le)
  then show "address n k p \<noteq> address n k q"
    using \<open>p < q\<close> mod_eq_dvd_iff_nat [of "unat (sk_hash k) + p" "unat (sk_hash k) + q" n] by (auto simp: address_def)
qed auto

section \<open>The invariant and the abstraction\<close>

definition placed :: "nat \<Rightarrow> nat \<Rightarrow> flow_slot list \<Rightarrow> nat \<Rightarrow> bool" where
  "placed n m flows i \<longleftrightarrow> (\<exists>p<m. i = address n (key_of_slot (flows ! i)) p
     \<and> (\<forall>q<p. sl_state (flows ! address n (key_of_slot (flows ! i)) q) \<noteq> STATE_FREE))"

definition slot_ok :: "flow_slot \<Rightarrow> bool" where
  "slot_ok s \<longleftrightarrow> (live s \<or> unoccupied s)
     \<and> (live s \<longrightarrow> (\<exists>k. key_of_slot s = slot_key_of k) \<and> (0 < sl_last_response_len s \<longrightarrow> sl_last_response_id s < RESPONSE_COUNT))"

definition slots_ok :: "nat \<Rightarrow> nat \<Rightarrow> flow_slot list \<Rightarrow> bool" where
  "slots_ok n m flows \<longleftrightarrow> length flows = n \<and> (\<forall>s\<in>set flows. slot_ok s)
     \<and> (\<forall>i<n. live (flows ! i) \<longrightarrow> placed n m flows i)
     \<and> (\<forall>i<n. \<forall>j<n. live (flows ! i) \<and> live (flows ! j) \<and> key_of_slot (flows ! i) = key_of_slot (flows ! j) \<longrightarrow> i = j)"

definition live_at :: "flow_slot list \<Rightarrow> flow_key \<Rightarrow> nat \<Rightarrow> bool" where
  "live_at flows k i \<longleftrightarrow> i < length flows \<and> live (flows ! i) \<and> key_of_slot (flows ! i) = slot_key_of k"

definition flow_table :: "flow_slot list \<Rightarrow> (flow_key \<rightharpoonup> flow)" where
  "flow_table flows k = map_option flow_of_slot (List.find (\<lambda>s. live s \<and> key_of_slot s = slot_key_of k) flows)"

lemma live_at_unique: "slots_ok n m flows \<Longrightarrow> live_at flows k i \<Longrightarrow> live_at flows k j \<Longrightarrow> i = j"
  by (auto simp: slots_ok_def live_at_def)

lemma flow_table_Some: "slots_ok n m flows \<Longrightarrow> live_at flows k i \<Longrightarrow> flow_table flows k = Some (flow_of_slot (flows ! i))"
proof -
  assume ok: "slots_ok n m flows" and i: "live_at flows k i"
  then have "List.find (\<lambda>s. live s \<and> key_of_slot s = slot_key_of k) flows \<noteq> None"
    by (auto simp: find_None_iff live_at_def)
  then obtain s where s: "List.find (\<lambda>s. live s \<and> key_of_slot s = slot_key_of k) flows = Some s" by blast
  then obtain j where "j < length flows" "live (flows ! j)" "key_of_slot (flows ! j) = slot_key_of k" "s = flows ! j"
    by (auto simp: find_Some_iff)
  moreover from this have "j = i" using live_at_unique [OF ok _ i] by (simp add: live_at_def)
  ultimately show ?thesis using s by (simp add: flow_table_def)
qed

lemma flow_table_None: "flow_table flows k = None \<longleftrightarrow> (\<nexists>i. live_at flows k i)"
  by (auto simp: flow_table_def find_None_iff live_at_def in_set_conv_nth)

lemma flow_table_cases:
  assumes "slots_ok n m flows"
  obtains (live) i where "live_at flows k i" "flow_table flows k = Some (flow_of_slot (flows ! i))"
  | (none) "flow_table flows k = None" "\<And>i. \<not> live_at flows k i"
proof (cases "\<exists>i. live_at flows k i")
  case True
  then show thesis using flow_table_Some [OF assms] live by blast
next
  case False
  then show thesis using flow_table_None [of flows k] none by blast
qed

section \<open>Lookup\<close>

lemma fetch_probe:
  assumes "table_shape d n m" "length flows = n"
  shows "fetch flows (probe_slot d k p) = Some (flows ! address n k (unat p))"
  using assms address_less [of n k "unat p"] probe_slot_address [OF assms(1), of k p]
  by (simp add: fetch_def index_def table_shape_def)

lemma probe_next: "table_shape d n m \<Longrightarrow> unat p < m \<Longrightarrow> unat (p + 1) = unat p + 1 \<and> (probe_limit d \<le> p \<longleftrightarrow> m \<le> unat p)"
  using u32_next [of p "probe_limit d"] by (simp add: table_shape_def word_less_nat_alt word_le_nat_alt)

text \<open>The loop from a probe on: it returns the first live slot with the key, unless a free slot comes first.\<close>

lemma flow_find_loop:
  assumes t: "table_shape d n m" and ok: "slots_ok n m flows" and p: "unat p \<le> m"
  shows "\<exists>r. flow_find d flows (slot_key_of k) p = Some r \<and>
    (if \<exists>q\<ge>unat p. q < m \<and> live_at flows k (address n (slot_key_of k) q)
          \<and> (\<forall>q'. unat p \<le> q' \<and> q' < q \<longrightarrow> sl_state (flows ! address n (slot_key_of k) q') \<noteq> STATE_FREE)
     then live_at flows k (unat r) else r = INVALID_INDEX)"
  using p
proof (induction "m - unat p" arbitrary: p)
  case 0
  then have "probe_limit d \<le> p" using t by (simp add: table_shape_def word_le_nat_alt)
  then show ?case using 0 by (subst flow_find.simps) auto
next
  case (Suc x)
  then have pm: "unat p < m" by simp
  note nx = probe_next [OF t pm]
  let ?a = "address n (slot_key_of k)" and ?s = "flows ! address n (slot_key_of k) (unat p)"
  let ?Q = "\<lambda>p. \<exists>q\<ge>p. q < m \<and> live_at flows k (?a q) \<and> (\<forall>q'. p \<le> q' \<and> q' < q \<longrightarrow> sl_state (flows ! ?a q') \<noteq> STATE_FREE)"
  have len: "length flows = n" and n0: "0 < n" using ok t by (auto simp: slots_ok_def table_shape_def)
  have f: "fetch flows (probe_slot d (slot_key_of k) p) = Some ?s" by (rule fetch_probe [OF t len])
  have u: "unat (probe_slot d (slot_key_of k) p) = ?a (unat p)" by (rule probe_slot_address [OF t])
  have an: "?a (unat p) < n" using n0 by (rule address_less)
  have sok: "slot_ok ?s" using ok an len by (auto simp: slots_ok_def)
  have here: "live_at flows k (?a (unat p)) \<longleftrightarrow> live ?s \<and> key_of_slot ?s = slot_key_of k" using an len by (simp add: live_at_def)
  have "x = m - unat (p + 1)" "unat (p + 1) \<le> m" using Suc.hyps(2) nx pm by simp_all
  from Suc.hyps(1) [OF this] nx
  obtain r where r: "flow_find d flows (slot_key_of k) (p + 1) = Some r" "if ?Q (unat p + 1) then live_at flows k (unat r) else r = INVALID_INDEX"
    by auto
  show ?case
  proof (cases "sl_state ?s = STATE_FREE")
    case True
    then have noQ: "\<not> ?Q (unat p)" using here by (auto simp: live_def le_less)
    have "flow_find d flows (slot_key_of k) p = Some INVALID_INDEX" using nx True pm by (subst flow_find.simps) (simp add: f)
    then show ?thesis using noQ by (intro exI [of _ INVALID_INDEX]) (simp only: if_False simp_thms)
  next
    case notfree: False
    show ?thesis
    proof (cases "live_at flows k (?a (unat p))")
      case True
      then have "?Q (unat p)" using pm by (intro exI [of _ "unat p"]) auto
      moreover have "sl_state ?s \<noteq> STATE_CLAIMED" "sl_state ?s \<noteq> STATE_TOMBSTONE" "flow_matches ?s (slot_key_of k)"
        using True here by (auto simp: live_def STATE_CLAIMED_def flow_matches_iff)
      ultimately show ?thesis using nx notfree pm True u by (subst flow_find.simps) (simp add: f)
    next
      case False
      have step: "?Q (unat p) \<longleftrightarrow> ?Q (unat p + 1)"
      proof
        assume "?Q (unat p)"
        then obtain q where q: "unat p \<le> q" "q < m" "live_at flows k (?a q)" "\<forall>q'. unat p \<le> q' \<and> q' < q \<longrightarrow> sl_state (flows ! ?a q') \<noteq> STATE_FREE" by blast
        then have "q \<noteq> unat p" using False by blast
        then show "?Q (unat p + 1)" using q by (intro exI [of _ q]) auto
      next
        assume "?Q (unat p + 1)"
        then obtain q where q: "unat p + 1 \<le> q" "q < m" "live_at flows k (?a q)" "\<forall>q'. unat p + 1 \<le> q' \<and> q' < q \<longrightarrow> sl_state (flows ! ?a q') \<noteq> STATE_FREE" by blast
        then have "\<forall>q'. unat p \<le> q' \<and> q' < q \<longrightarrow> sl_state (flows ! ?a q') \<noteq> STATE_FREE" using notfree by (metis Suc_eq_plus1 Suc_leI le_neq_implies_less)
        then show "?Q (unat p)" using q by (intro exI [of _ q]) auto
      qed
      have "\<not> (sl_state ?s \<noteq> STATE_CLAIMED \<and> sl_state ?s \<noteq> STATE_TOMBSTONE \<and> flow_matches ?s (slot_key_of k))"
        using False here sok notfree by (auto simp: slot_ok_def unoccupied_def flow_matches_iff)
      then have "flow_find d flows (slot_key_of k) p = Some r" using nx notfree pm r(1) by (subst flow_find.simps) (auto simp: f)
      then show ?thesis using r(2) step by simp
    qed
  qed
qed

lemma flow_find_table:
  assumes t: "table_shape d n m" and ok: "slots_ok n m flows"
  shows "(\<And>i. live_at flows k i \<Longrightarrow> flow_find d flows (slot_key_of k) 0 = Some (of_nat i) \<and> (of_nat i :: u32) \<noteq> INVALID_INDEX \<and> unat (of_nat i :: u32) = i)"
    and "flow_table flows k = None \<Longrightarrow> flow_find d flows (slot_key_of k) 0 = Some INVALID_INDEX"
proof -
  let ?a = "address n (slot_key_of k)"
  obtain r where r: "flow_find d flows (slot_key_of k) 0 = Some r"
    "if \<exists>q. q < m \<and> live_at flows k (?a q) \<and> (\<forall>q'<q. sl_state (flows ! ?a q') \<noteq> STATE_FREE)
     then live_at flows k (unat r) else r = INVALID_INDEX"
    using flow_find_loop [OF assms, of 0 k] by auto
  show "flow_find d flows (slot_key_of k) 0 = Some (of_nat i) \<and> (of_nat i :: u32) \<noteq> INVALID_INDEX \<and> unat (of_nat i :: u32) = i"
    if i: "live_at flows k i" for i
  proof -
    have il: "i < n" "live (flows ! i)" "key_of_slot (flows ! i) = slot_key_of k" using i ok by (auto simp: live_at_def slots_ok_def)
    then have "placed n m flows i" using ok by (simp add: slots_ok_def)
    then have "\<exists>q. q < m \<and> live_at flows k (?a q) \<and> (\<forall>q'<q. sl_state (flows ! ?a q') \<noteq> STATE_FREE)"
      using i by (auto simp: placed_def il(3))
    then have "live_at flows k (unat r)" using r(2) by simp
    then have ri: "unat r = i" using live_at_unique [OF ok _ i] by blast
    have "n < 4294967296" using t by (simp add: table_shape_def U32_MAX_def)
    have two: "i \<noteq> 4294967295"
    proof
      assume "i = 4294967295"
      then have "n = 4294967296" using il(1) \<open>n < 4294967296\<close> by simp
      then show False using \<open>n < 4294967296\<close> by simp
    qed
    have "of_nat i = r" by (simp flip: ri)
    moreover have "r \<noteq> INVALID_INDEX" using two ri by (auto simp: INVALID_INDEX_def)
    ultimately show ?thesis using r(1) ri by simp
  qed
  show "flow_find d flows (slot_key_of k) 0 = Some INVALID_INDEX" if "flow_table flows k = None"
    using r that by (simp add: flow_table_None)
qed

section \<open>Claiming a slot\<close>

text \<open>A slot that \<open>flow_claim\<close> may take: the first unoccupied one of the window.\<close>

definition claimable :: "nat \<Rightarrow> nat \<Rightarrow> flow_slot list \<Rightarrow> flow_key \<Rightarrow> nat \<Rightarrow> bool" where
  "claimable n m flows k i \<longleftrightarrow> (\<exists>p<m. i = address n (slot_key_of k) p \<and> unoccupied (flows ! i)
     \<and> (\<forall>q<p. \<not> unoccupied (flows ! address n (slot_key_of k) q)))"

lemma flow_claim_loop:
  assumes t: "table_shape d n m" and len: "length flows = n" and p: "unat p \<le> m"
    and i: "q < m" "unat p \<le> q" "unoccupied (flows ! address n (slot_key_of k) q)"
      "\<forall>q'. unat p \<le> q' \<and> q' < q \<longrightarrow> \<not> unoccupied (flows ! address n (slot_key_of k) q')"
  shows "\<exists>r. flow_claim d flows (slot_key_of k) p = Some (flows[address n (slot_key_of k) q := claimed_slot (slot_key_of k)], r)
    \<and> unat r = address n (slot_key_of k) q"
  using p i(2,4)
proof (induction "q - unat p" arbitrary: p)
  case 0
  then have pq: "unat p = q" by simp
  have pm: "unat p < m" using pq i(1) by simp
  have u: "unat (probe_slot d (slot_key_of k) p) = address n (slot_key_of k) q" using probe_slot_address [OF t, of "slot_key_of k" p] pq by simp
  moreover have "address n (slot_key_of k) q < length flows" using t len address_less by (simp add: table_shape_def)
  ultimately have "store flows (probe_slot d (slot_key_of k) p) x = Some (flows[address n (slot_key_of k) q := x])" for x
    by (simp add: store_def set_at_list_update)
  then show ?case using probe_next [OF t pm] fetch_probe [OF t len, of "slot_key_of k" p] i(3) pq u pm
    by (subst flow_claim.simps) (simp add: unoccupied_def)
next
  case (Suc x)
  then have pm: "unat p < m" "unat p < q" using i(1) by simp_all
  note nx = probe_next [OF t pm(1)]
  have "\<not> unoccupied (flows ! address n (slot_key_of k) (unat p))" using Suc.prems(3) pm(2) by simp
  moreover have "\<exists>r. flow_claim d flows (slot_key_of k) (p + 1) = Some (flows[address n (slot_key_of k) q := claimed_slot (slot_key_of k)], r)
      \<and> unat r = address n (slot_key_of k) q"
    using Suc.hyps(1) [of "p + 1"] Suc.hyps(2) Suc.prems nx pm by auto
  ultimately show ?case using nx fetch_probe [OF t len, of "slot_key_of k" p] pm
    by (subst flow_claim.simps) (auto simp: unoccupied_def)
qed

lemma flow_claim_claimable:
  assumes "table_shape d n m" "length flows = n" "claimable n m flows k i"
  shows "flow_claim d flows (slot_key_of k) 0 = Some (flows[i := claimed_slot (slot_key_of k)], of_nat i)"
    "(of_nat i :: u32) \<noteq> INVALID_INDEX" "unat (of_nat i :: u32) = i" "i < n"
proof -
  obtain p where p: "p < m" "i = address n (slot_key_of k) p" "unoccupied (flows ! i)"
    "\<forall>q<p. \<not> unoccupied (flows ! address n (slot_key_of k) q)" using assms(3) by (auto simp: claimable_def)
  obtain r where r: "flow_claim d flows (slot_key_of k) 0 = Some (flows[i := claimed_slot (slot_key_of k)], r)" "unat r = i"
    using flow_claim_loop [OF assms(1,2), of 0 p k] p by auto
  show i: "i < n" using address_less [of n] assms(1) p(2) by (simp add: table_shape_def)
  have ri: "r = of_nat i" using r(2) by (metis of_nat_unat ucast_id)
  then show "flow_claim d flows (slot_key_of k) 0 = Some (flows[i := claimed_slot (slot_key_of k)], of_nat i)" "unat (of_nat i :: u32) = i"
    using r by simp_all
  have "i < 4294967295" using i assms(1) by (simp add: table_shape_def U32_MAX_def)
  then show "(of_nat i :: u32) \<noteq> INVALID_INDEX" using r(2) ri by (auto simp: INVALID_INDEX_def)
qed

text \<open>The slots a connection may have, and the connections of \<open>K\<close> that compete for them.\<close>

definition window :: "nat \<Rightarrow> nat \<Rightarrow> flow_key \<Rightarrow> nat set" where
  "window n m k = address n (slot_key_of k) ` {..<m}"

definition rivals :: "nat \<Rightarrow> nat \<Rightarrow> flow_key set \<Rightarrow> flow_key \<Rightarrow> flow_key set" where
  "rivals n m K k = {k' \<in> K. window n m k' \<inter> window n m k \<noteq> {}}"

lemma card_window: "m \<le> n \<Longrightarrow> card (window n m k) = m"
  using inj_on_subset [OF address_inj, of "{..<m}" n] by (simp add: window_def card_image)

lemma finite_live:
  assumes "slots_ok n m flows"
  shows "finite (dom (flow_table flows))"
proof -
  have "dom (flow_table flows) \<subseteq> (\<lambda>i. THE k. live_at flows k i) ` {..<n}"
  proof
    fix k assume "k \<in> dom (flow_table flows)"
    then obtain i where i: "live_at flows k i" using flow_table_None [of flows k] by auto
    then have "i < n" "(THE k. live_at flows k i) = k" using assms by (auto simp: slots_ok_def live_at_def)
    then show "k \<in> (\<lambda>i. THE k. live_at flows k i) ` {..<n}" by force
  qed
  then show ?thesis by (rule finite_subset) simp
qed

text \<open>With fewer live rivals than probes, some slot of the window is unoccupied.\<close>

lemma claimable_exists:
  assumes t: "table_shape d n m" and ok: "slots_ok n m flows" and room: "card (rivals n m (dom (flow_table flows)) k) < m"
  shows "\<exists>i. claimable n m flows k i"
proof -
  let ?a = "address n (slot_key_of k)" and ?R = "rivals n m (dom (flow_table flows)) k"
  have len: "length flows = n" and n: "0 < n" "m \<le> n" using ok t by (auto simp: slots_ok_def table_shape_def)
  have "\<exists>p<m. unoccupied (flows ! ?a p)"
  proof (rule ccontr)
    assume none: "\<not> (\<exists>p<m. unoccupied (flows ! ?a p))"
    have owner: "\<exists>k'\<in>?R. live_at flows k' i" if "i \<in> window n m k" for i
    proof -
      have i: "i < n" "\<not> unoccupied (flows ! i)" using that none address_less [OF n(1)] by (auto simp: window_def)
      then have live: "live (flows ! i)" "slot_ok (flows ! i)" using ok by (auto simp: slots_ok_def slot_ok_def)
      then obtain k' where k': "key_of_slot (flows ! i) = slot_key_of k'" by (auto simp: slot_ok_def)
      then have at: "live_at flows k' i" using i live len by (simp add: live_at_def)
      have "placed n m flows i" using ok i(1) live(1) by (simp add: slots_ok_def)
      then have "i \<in> window n m k'" by (auto simp: placed_def k' window_def)
      moreover have "k' \<in> dom (flow_table flows)" using flow_table_Some [OF ok at] by auto
      ultimately show ?thesis using at that by (auto simp: rivals_def)
    qed
    define f where "f i = (SOME k'. k' \<in> ?R \<and> live_at flows k' i)" for i
    have f: "f i \<in> ?R \<and> live_at flows (f i) i" if "i \<in> window n m k" for i
      using someI_ex [of "\<lambda>k'. k' \<in> ?R \<and> live_at flows k' i"] owner [OF that] by (auto simp: f_def)
    have "inj_on f (window n m k)" by (rule inj_onI) (metis f live_at_unique [OF ok])
    moreover have "f ` window n m k \<subseteq> ?R" using f by blast
    moreover have "finite ?R" using finite_live [OF ok] by (simp add: rivals_def)
    ultimately have "card (window n m k) \<le> card ?R" by (metis card_inj_on_le)
    then show False using room card_window [OF n(2)] by simp
  qed
  then obtain p0 where p0: "p0 < m \<and> unoccupied (flows ! ?a p0)" by blast
  define p where "p = (LEAST p. p < m \<and> unoccupied (flows ! ?a p))"
  have p: "p < m \<and> unoccupied (flows ! ?a p)" unfolding p_def by (rule LeastI [of "\<lambda>p. p < m \<and> unoccupied (flows ! ?a p)", OF p0])
  have "\<not> unoccupied (flows ! ?a q)" if "q < p" for q
    using not_less_Least [of q "\<lambda>p. p < m \<and> unoccupied (flows ! ?a p)", folded p_def, OF that] that p by simp
  with p show ?thesis by (auto simp: claimable_def)
qed

text \<open>\<open>probe_room\<close>: however the connections of \<open>K\<close> come and go, each finds a slot.\<close>

definition probe_room :: "nat \<Rightarrow> nat \<Rightarrow> flow_key set \<Rightarrow> bool" where
  "probe_room n m K \<longleftrightarrow> finite K \<and> (\<forall>k\<in>K. card (rivals n m K k) \<le> m)"

lemma probe_room_few: "finite K \<Longrightarrow> card K \<le> m \<Longrightarrow> probe_room n m K"
  unfolding probe_room_def by (auto simp: rivals_def intro: le_trans [OF card_mono])

lemma probe_room_one_more:
  assumes K: "probe_room n m K" and k: "k \<in> K" "k \<notin> L" and L: "L \<subseteq> K" and m: "0 < m"
  shows "card (rivals n m L k) < m"
proof -
  have "k \<in> rivals n m K k" using k(1) m by (auto simp: rivals_def window_def)
  then have "rivals n m L k \<subset> rivals n m K k" using L k(2) by (auto simp: rivals_def)
  moreover have "finite (rivals n m K k)" using K by (simp add: probe_room_def rivals_def)
  ultimately have "card (rivals n m L k) < card (rivals n m K k)" by (rule psubset_card_mono [rotated])
  then show ?thesis using K k(1) by (auto simp: probe_room_def)
qed

section \<open>Updates\<close>

lemma live_at_update:
  "live_at (flows[i := s]) k j \<longleftrightarrow> (if j = i \<and> i < length flows then live s \<and> key_of_slot s = slot_key_of k else live_at flows k j)"
  by (auto simp: live_at_def nth_list_update)

lemma placed_update:
  assumes "0 < n" "length flows = n" "placed n m flows j" "sl_state s \<noteq> STATE_FREE" "key_of_slot (flows[i := s] ! j) = key_of_slot (flows ! j)"
  shows "placed n m (flows[i := s]) j"
proof -
  have keep: "sl_state (flows ! a) \<noteq> STATE_FREE \<Longrightarrow> sl_state (flows[i := s] ! a) \<noteq> STATE_FREE" if "a < n" for a
    using that assms(2,4) by (cases "a = i") simp_all
  show ?thesis using assms(3) keep address_less [OF assms(1)] unfolding placed_def assms(5) by meson
qed

text \<open>Slot \<open>i\<close> belongs to the connection \<open>k\<close> or to none, and \<open>k\<close> has no other slot.\<close>

definition owned :: "flow_slot list \<Rightarrow> flow_key \<Rightarrow> nat \<Rightarrow> bool" where
  "owned flows k i \<longleftrightarrow> i < length flows \<and> (live (flows ! i) \<longrightarrow> key_of_slot (flows ! i) = slot_key_of k)
     \<and> (\<forall>j. live_at flows k j \<longrightarrow> j = i)"

lemma slots_update:
  assumes ok: "slots_ok n m flows" and own: "owned flows k i" and s: "slot_ok s" "sl_state s \<noteq> STATE_FREE"
    and new: "live s \<Longrightarrow> key_of_slot s = slot_key_of k \<and> placed n m (flows[i := s]) i"
  shows "slots_ok n m (flows[i := s])"
    "flow_table (flows[i := s]) = (flow_table flows)(k := if live s then Some (flow_of_slot s) else None)"
proof -
  have len: "length flows = n" and i: "i < n" using ok own by (auto simp: slots_ok_def owned_def)
  have at: "live_at (flows[i := s]) k' j \<longleftrightarrow> (if j = i then live s \<and> k' = k else live_at flows k' j)" for k' j
    using i len new by (auto simp: live_at_update)
  have all: "\<forall>t\<in>set (flows[i := s]). slot_ok t" using ok s(1) set_update_subset_insert [of flows i s] by (auto simp: slots_ok_def)
  have place: "placed n m (flows[i := s]) j" if "j < n" "live (flows[i := s] ! j)" for j
  proof (cases "j = i")
    case True
    then show ?thesis using new that i len by simp
  next
    case False
    then have "placed n m flows j" using ok that by (simp add: slots_ok_def)
    then show ?thesis using False i len s(2) by (intro placed_update) simp_all
  qed
  have once: "j = j'" if "live_at (flows[i := s]) k' j" "live_at (flows[i := s]) k' j'" for k' j j'
  proof (rule ccontr)
    assume "j \<noteq> j'"
    moreover have "j = j'" if "live_at flows k' j" "live_at flows k' j'" using live_at_unique [OF ok that] .
    ultimately show False using that own unfolding at owned_def by (auto split: if_splits)
  qed
  have uniq: "j = j'" if j: "j < n" "j' < n" "live (flows[i := s] ! j)" "live (flows[i := s] ! j')"
    "key_of_slot (flows[i := s] ! j) = key_of_slot (flows[i := s] ! j')" for j j'
  proof -
    have "slot_ok (flows[i := s] ! j)" using all j(1) len by simp
    then obtain k' where "key_of_slot (flows[i := s] ! j) = slot_key_of k'" using j(3) by (auto simp: slot_ok_def)
    then show ?thesis using once [of k' j j'] j len by (auto simp: live_at_def)
  qed
  show ok': "slots_ok n m (flows[i := s])" using len all place uniq by (simp add: slots_ok_def)
  show "flow_table (flows[i := s]) = (flow_table flows)(k := if live s then Some (flow_of_slot s) else None)"
  proof (rule ext)
    fix k'
    show "flow_table (flows[i := s]) k' = ((flow_table flows)(k := if live s then Some (flow_of_slot s) else None)) k'"
    proof (cases "k' = k")
      case True
      show ?thesis
      proof (cases "live s")
        case live: True
        then have "live_at (flows[i := s]) k i" by (simp add: at)
        from flow_table_Some [OF ok' this] show ?thesis using True live i len by simp
      next
        case False
        then have "\<nexists>j. live_at (flows[i := s]) k j" using own by (auto simp: at owned_def)
        then show ?thesis using True False flow_table_None [of "flows[i := s]" k] by simp
      qed
    next
      case False
      have "\<not> live_at flows k' i" using False own by (auto simp: owned_def live_at_def)
      then have keep: "live_at (flows[i := s]) k' j \<longleftrightarrow> live_at flows k' j" for j
        using False by (cases "j = i") (simp_all add: at)
      show ?thesis
      proof (rule flow_table_cases [OF ok, of k'])
        fix j assume live: "live_at flows k' j" "flow_table flows k' = Some (flow_of_slot (flows ! j))"
        moreover have "j \<noteq> i" using live(1) \<open>\<not> live_at flows k' i\<close> by blast
        ultimately show ?thesis using flow_table_Some [OF ok', of k' j] keep live False by simp
      next
        assume "flow_table flows k' = None" "\<And>i. \<not> live_at flows k' i"
        then show ?thesis using keep False flow_table_None [of "flows[i := s]" k'] by simp
      qed
    qed
  qed
qed

lemma live_at_owned: "slots_ok n m flows \<Longrightarrow> live_at flows k i \<Longrightarrow> owned flows k i"
  using live_at_unique by (auto simp: owned_def live_at_def)

text \<open>The three updates of the shader: of a live connection, its release, and a new connection.\<close>

lemma slots_set:
  assumes t: "table_shape d n m" and ok: "slots_ok n m flows" and at: "live_at flows k i"
    and s: "live s" "key_of_slot s = slot_key_of k" "0 < sl_last_response_len s \<longrightarrow> sl_last_response_id s < RESPONSE_COUNT"
  shows "slots_ok n m (flows[i := s]) \<and> flow_table (flows[i := s]) = (flow_table flows)(k \<mapsto> flow_of_slot s)
    \<and> live_at (flows[i := s]) k i"
proof -
  have len: "length flows = n" "i < n" and n0: "0 < n" using ok at t by (auto simp: slots_ok_def live_at_def table_shape_def)
  have "placed n m (flows[i := s]) i"
    using ok at s len n0 by (intro placed_update) (auto simp: slots_ok_def live_at_def live_def)
  moreover have "slot_ok s" "sl_state s \<noteq> STATE_FREE" using s by (auto simp: slot_ok_def live_def)
  ultimately show ?thesis using slots_update [OF ok live_at_owned [OF ok at], of s] s len by (simp add: live_at_def)
qed

lemma slots_release:
  assumes ok: "slots_ok n m flows" and at: "live_at flows k i" and s: "sl_state s = STATE_TOMBSTONE"
  shows "slots_ok n m (flows[i := s]) \<and> flow_table (flows[i := s]) = (flow_table flows)(k := None)"
proof -
  have "slot_ok s" "sl_state s \<noteq> STATE_FREE" "\<not> live s" using s by (auto simp: slot_ok_def live_def unoccupied_def)
  then show ?thesis using slots_update [OF ok live_at_owned [OF ok at], of s] by simp
qed

lemma slots_insert:
  assumes t: "table_shape d n m" and ok: "slots_ok n m flows" and none: "flow_table flows k = None" and cl: "claimable n m flows k i"
    and s: "live s" "key_of_slot s = slot_key_of k" "sl_last_response_len s = 0"
  shows "slots_ok n m (flows[i := s]) \<and> flow_table (flows[i := s]) = (flow_table flows)(k \<mapsto> flow_of_slot s)
    \<and> live_at (flows[i := s]) k i"
proof -
  obtain p where p: "p < m" "i = address n (slot_key_of k) p" "unoccupied (flows ! i)"
    "\<forall>q<p. \<not> unoccupied (flows ! address n (slot_key_of k) q)" using cl by (auto simp: claimable_def)
  have len: "length flows = n" and n0: "0 < n" using ok t by (auto simp: slots_ok_def table_shape_def)
  have i: "i < n" using p(2) address_less [OF n0] by simp
  have "owned flows k i" using none flow_table_None p(3) i len by (auto simp: owned_def live_def unoccupied_def)
  moreover have "placed n m (flows[i := s]) i"
    unfolding placed_def using p i len s(1,2) by (intro exI [of _ p]) (auto simp: nth_list_update live_def unoccupied_def)
  moreover have "slot_ok s" "sl_state s \<noteq> STATE_FREE" using s by (auto simp: slot_ok_def live_def)
  ultimately show ?thesis using slots_update [OF ok, of k i s] s i len by (simp add: live_at_def)
qed

lemma slots_ok_empty: "0 < n \<Longrightarrow> (\<forall>s\<in>set flows. sl_state s = STATE_FREE) \<Longrightarrow> length flows = n \<Longrightarrow> slots_ok n m flows \<and> flow_table flows = Map.empty"
proof -
  assume *: "0 < n" "\<forall>s\<in>set flows. sl_state s = STATE_FREE" "length flows = n"
  then have dead: "\<not> live s \<and> unoccupied s" if "s \<in> set flows" for s using that by (auto simp: live_def unoccupied_def)
  then have "flow_table flows k = None" for k by (auto simp: flow_table_None live_at_def)
  moreover have "slots_ok n m flows" using * dead by (auto simp: slots_ok_def slot_ok_def)
  ultimately show ?thesis by auto
qed

lemma update_slot_nat: "unat base = i \<Longrightarrow> i < length flows \<Longrightarrow> update_slot base f flows = Some (flows[i := f (flows ! i)])"
  by (simp add: update_slot_def fetch_def store_def index_def set_at_list_update)

end
