(* ===== verification/PacketShaderMain.thy ===== *)
theory PacketShaderMain
  imports PacketShaderHttp PacketShaderEmit FlowSlots
begin

text \<open>
  One invocation of the packet shader refines one step of a connection. \<open>gpu_conn_step\<close> is that step;
  it is the CPU engine's \<open>conn_step\<close> except for a repeated SYN, for a segment with both SYN and RST, and
  for the backend named in the response.
\<close>

section \<open>The specification\<close>

definition plain_ack :: "flow \<Rightarrow> segment" where
  "plain_ack f = \<lparr>g_seq = send_next f, g_ack = recv_next f, g_flags = TCP_ACK, g_payload = []\<rparr>"

definition gpu_unexpected :: "tcp_view \<Rightarrow> flow \<Rightarrow> segment" where
  "gpu_unexpected v f = (case last_resp f of
       Some l \<Rightarrow> if duplicate_of v l
         then \<lparr>g_seq = response_seq l, g_ack = response_ack l, g_flags = TCP_ACK OR TCP_PSH,
               g_payload = packet_response (response_id l)\<rparr>
         else plain_ack f
     | None \<Rightarrow> plain_ack f)"

definition gpu_data :: "flow \<Rightarrow> tcp_view \<Rightarrow> segment" where
  "gpu_data f v = (data_segment f v)\<lparr>g_payload := packet_response (classify_http_request (v_payload v))\<rparr>"

definition gpu_established :: "tcp_view \<Rightarrow> flow \<Rightarrow> flow option \<times> segment option" where
  "gpu_established v f =
     (if v_seq v \<noteq> recv_next f then (Some f, Some (gpu_unexpected v f))
      else if v_payload v = [] then
        (if has_flag v TCP_FIN
         then (None, Some \<lparr>g_seq = send_next f, g_ack = v_seq v + 1, g_flags = TCP_ACK, g_payload = []\<rparr>)
         else (Some f, None))
      else (if has_flag v TCP_FIN then None else Some (after_data f v), Some (gpu_data f v)))"

definition gpu_syn :: "tcp_view \<Rightarrow> flow option \<Rightarrow> flow option \<times> segment option" where
  "gpu_syn v fo = (case fo of
       None \<Rightarrow> (Some (new_flow (v_seq v + 1) (isn (v_key v))),
         Some \<lparr>g_seq = isn (v_key v), g_ack = v_seq v + 1, g_flags = TCP_SYN OR TCP_ACK, g_payload = []\<rparr>)
     | Some f \<Rightarrow> (case fl_state f of
         SynReceived \<Rightarrow> (Some f, Some \<lparr>g_seq = send_next f - 1, g_ack = recv_next f, g_flags = TCP_SYN OR TCP_ACK, g_payload = []\<rparr>)
       | Established \<Rightarrow> (Some f, Some (plain_ack f))))"

definition gpu_conn_step :: "tcp_view \<Rightarrow> flow option \<Rightarrow> flow option \<times> segment option" where
  "gpu_conn_step v fo =
     (if has_flag v TCP_SYN \<and> \<not> has_flag v TCP_ACK then gpu_syn v fo
      else (case fo of
           None \<Rightarrow> (None, None)
         | Some f \<Rightarrow>
             if has_flag v TCP_RST then (None, None)
             else (case enters v f of None \<Rightarrow> (Some f, None) | Some e \<Rightarrow> gpu_established v e)))"

section \<open>Locals and answers\<close>

definition locals :: "packet_bindings \<Rightarrow> packet_fields \<Rightarrow> tcp_view \<Rightarrow> bool" where
  "locals d l v \<longleftrightarrow> pf_src_ip l = src_ip (v_key v) \<and> pf_dst_ip l = dst_ip (v_key v)
     \<and> pf_src_port l = ucast (src_port (v_key v)) \<and> pf_dst_port l = ucast (dst_port (v_key v))
     \<and> pf_seq l = v_seq v \<and> pf_ack l = v_ack v \<and> pf_flags l = ucast (v_flags v)
     \<and> pf_payload_len l = of_nat (length (v_payload v))
     \<and> readable d (pf_input_base l) (pf_payload_offset l) (v_payload v)"

lemma locals_key: "locals d l v \<Longrightarrow> main_key l = slot_key_of (v_key v)"
  by (simp add: locals_def main_key_def slot_key_of_def shader_hash)

lemma payload_small: "locals d l v \<Longrightarrow> length (v_payload v) \<le> MAX_RAW_PACKET_BYTES"
  by (simp add: locals_def readable_def)

lemma payload_len: "locals d l v \<Longrightarrow> unat (pf_payload_len l) = length (v_payload v)"
  using payload_small [of d l v] by (simp add: locals_def unat_of_nat_u32 MAX_RAW_PACKET_BYTES_def U32_MAX_def)

lemma locals_flag:
  assumes "locals d l v"
  shows "pf_flags l AND WGSL_FIN = 0 \<longleftrightarrow> \<not> has_flag v TCP_FIN" "pf_flags l AND WGSL_SYN = 0 \<longleftrightarrow> \<not> has_flag v TCP_SYN"
    "pf_flags l AND WGSL_RST = 0 \<longleftrightarrow> \<not> has_flag v TCP_RST" "pf_flags l AND WGSL_ACK = 0 \<longleftrightarrow> \<not> has_flag v TCP_ACK"
proof -
  have "(ucast (v_flags v) AND ucast m :: u32) = 0 \<longleftrightarrow> \<not> has_flag v m" for m
    unfolding has_flag_def using ucast_eq_iff_32(1) [of "v_flags v AND m" 0] by (simp add: unsigned_and_eq)
  from this [of TCP_FIN] this [of TCP_SYN] this [of TCP_RST] this [of TCP_ACK]
  show "pf_flags l AND WGSL_FIN = 0 \<longleftrightarrow> \<not> has_flag v TCP_FIN" "pf_flags l AND WGSL_SYN = 0 \<longleftrightarrow> \<not> has_flag v TCP_SYN"
    "pf_flags l AND WGSL_RST = 0 \<longleftrightarrow> \<not> has_flag v TCP_RST" "pf_flags l AND WGSL_ACK = 0 \<longleftrightarrow> \<not> has_flag v TCP_ACK"
    using assms by (simp_all add: locals_def tcp_flag_defs)
qed

text \<open>\<open>sent\<close>: the answer is in slot \<open>i\<close> of the output and its length in the metadata, or nothing changed.\<close>

definition sent :: "u32 \<Rightarrow> nat \<Rightarrow> u32 list \<Rightarrow> raw_packet option \<Rightarrow> u32 list \<Rightarrow> bool" where
  "sent i b out q out' \<longleftrightarrow> (case q of None \<Rightarrow> out' = out
     | Some q \<Rightarrow> \<exists>ws. out' = (put out b ws)[unat i := of_nat (length (as_bytes q))]
         \<and> words_to_bytes ws = pad_words (as_bytes q) \<and> length ws \<le> 48)"

definition payload_of :: "u32 \<Rightarrow> bytes" where
  "payload_of r = (if r < RESPONSE_COUNT then packet_response r else [])"

lemma invalid_response [simp]: "payload_of INVALID_INDEX = []"
  by (simp add: payload_of_def response_count INVALID_INDEX_def)

lemma answer_sent:
  assumes arr: "arrays_hold (pb_arrays d)" and l: "locals d l v" and sp: "slot_space d i (me_output mem) b"
    and fl: "flags = ucast flags8" and r: "payload_of r = payload"
  shows "\<exists>out. answer_packet d i (answer_to l seq ack flags r) mem = Some (mem\<lparr>me_output := out\<rparr>)
    \<and> sent i b (me_output mem) (Some (segment_packet (v_key v) \<lparr>g_seq = seq, g_ack = ack, g_flags = flags8, g_payload = payload\<rparr>)) out"
proof -
  let ?spec = "reply_spec (v_key v) seq ack flags8 payload"
  have "carries (answer_to l seq ack flags r) ?spec"
    using l fl r by (auto simp: carries_def answer_to_def reply_spec_def locals_def payload_of_def)
  from emit_packet_built [OF sp this arr] obtain ws
    where "emit_packet d i (answer_to l seq ack flags r) (me_output mem) = Some ((put (me_output mem) b ws)[unat i := of_nat (length (built ?spec))])"
      "words_to_bytes ws = pad_words (built ?spec)" "length ws \<le> 48" .
  then show ?thesis by (auto simp: answer_packet_def sent_def segment_packet_def reply_def)
qed

section \<open>Steps on one connection\<close>

text \<open>A part of the invocation, on the connection \<open>k\<close>: new memory, with the new state and the answer.\<close>

definition acts :: "nat \<Rightarrow> nat \<Rightarrow> u32 \<Rightarrow> nat \<Rightarrow> flow_key \<Rightarrow> packet_memory \<Rightarrow> packet_memory option \<Rightarrow> flow option \<times> segment option \<Rightarrow> bool" where
  "acts n m i b k mem r act \<longleftrightarrow> (\<exists>mem'. r = Some mem' \<and> slots_ok n m (me_flows mem')
     \<and> flow_table (me_flows mem') = (flow_table (me_flows mem))(k := fst act)
     \<and> sent i b (me_output mem) (map_option (segment_packet k) (snd act)) (me_output mem'))"

lemma sent_None [simp]: "sent i b out None out"
  by (simp add: sent_def)

lemma acts_none:
  "slots_ok n m (me_flows mem) \<Longrightarrow> flow_table (me_flows mem) k = fo \<Longrightarrow> acts n m i b k mem (Some mem) (fo, None)"
  by (auto simp: acts_def)

text \<open>A live slot under its address.\<close>

definition at_slot :: "nat \<Rightarrow> nat \<Rightarrow> packet_memory \<Rightarrow> flow_key \<Rightarrow> u32 \<Rightarrow> flow_slot \<Rightarrow> bool" where
  "at_slot n m mem k base s \<longleftrightarrow> slots_ok n m (me_flows mem) \<and> live_at (me_flows mem) k (unat base) \<and> s = me_flows mem ! unat base"

lemma at_slot_table: "at_slot n m mem k base s \<Longrightarrow> flow_table (me_flows mem) k = Some (flow_of_slot s)"
  by (auto simp: at_slot_def intro: flow_table_Some)

lemma at_slot_fetch: "at_slot n m mem k base s \<Longrightarrow> fetch (me_flows mem) base = Some s"
  by (simp add: at_slot_def live_at_def fetch_def index_def)

lemma at_slot_output [simp]: "at_slot n m (mem\<lparr>me_output := out\<rparr>) k base s = at_slot n m mem k base s"
  by (simp add: at_slot_def)

lemma at_slot_ok: "at_slot n m mem k base s \<Longrightarrow> live s \<and> key_of_slot s = slot_key_of k
    \<and> (0 < sl_last_response_len s \<longrightarrow> sl_last_response_id s < RESPONSE_COUNT)"
  by (auto simp: at_slot_def live_at_def slots_ok_def slot_ok_def)

lemma update_at_slot:
  assumes "table_shape d n m" "at_slot n m mem k base s" "live (f s)" "key_of_slot (f s) = key_of_slot s"
    "0 < sl_last_response_len (f s) \<longrightarrow> sl_last_response_id (f s) < RESPONSE_COUNT"
  shows "\<exists>mem'. with_flows mem (update_slot base f (me_flows mem)) = Some mem' \<and> at_slot n m mem' k base (f s)
    \<and> me_output mem' = me_output mem \<and> flow_table (me_flows mem') = (flow_table (me_flows mem))(k \<mapsto> flow_of_slot (f s))"
proof -
  have at: "slots_ok n m (me_flows mem)" "live_at (me_flows mem) k (unat base)" "s = me_flows mem ! unat base"
    using assms(2) by (simp_all add: at_slot_def)
  have lt: "unat base < length (me_flows mem)" using at(2) by (simp add: live_at_def)
  have "update_slot base f (me_flows mem) = Some ((me_flows mem)[unat base := f s])"
    using update_slot_nat [OF refl lt] at(3) by simp
  moreover have "key_of_slot (f s) = slot_key_of k" using at_slot_ok [OF assms(2)] assms(4) by simp
  note slots_set [OF assms(1) at(1,2) assms(3) this assms(5)]
  ultimately show ?thesis using lt by (simp add: with_flows_def at_slot_def)
qed

lemma release_at_slot:
  assumes "at_slot n m mem k base s"
  shows "\<exists>mem'. with_flows mem (flow_release base (me_flows mem)) = Some mem' \<and> slots_ok n m (me_flows mem')
    \<and> me_output mem' = me_output mem \<and> flow_table (me_flows mem') = (flow_table (me_flows mem))(k := None)"
proof -
  have at: "slots_ok n m (me_flows mem)" "live_at (me_flows mem) k (unat base)" "s = me_flows mem ! unat base"
    using assms by (simp_all add: at_slot_def)
  have lt: "unat base < length (me_flows mem)" using at(2) by (simp add: live_at_def)
  define t where "t = s\<lparr>sl_generation := sl_generation s + 1, sl_state := STATE_TOMBSTONE\<rparr>"
  have "flow_release base (me_flows mem) = Some ((me_flows mem)[unat base := t])"
    using update_slot_nat [OF refl lt] at(3) by (simp add: flow_release_def t_def)
  moreover have "sl_state t = STATE_TOMBSTONE" by (simp add: t_def)
  note slots_release [OF at(1,2) this]
  ultimately show ?thesis by (simp add: with_flows_def)
qed

text \<open>A step that starts after an update of the connection's own slot.\<close>

lemma acts_after:
  assumes "acts n m i b k mem' r act" "me_output mem' = me_output mem"
    "flow_table (me_flows mem') = (flow_table (me_flows mem))(k := fo)"
  shows "acts n m i b k mem r act"
  using assms by (auto simp: acts_def)

lemma acts_answer:
  assumes "slots_ok n m (me_flows mem)" "flow_table (me_flows mem) k = fo"
    "\<exists>out. r = Some (mem\<lparr>me_output := out\<rparr>) \<and> sent i b (me_output mem) (Some (segment_packet k g)) out"
  shows "acts n m i b k mem r (fo, Some g)"
  using assms by (auto simp: acts_def)

text \<open>What every part of the invocation relies on.\<close>

definition invoked :: "packet_bindings \<Rightarrow> nat \<Rightarrow> nat \<Rightarrow> packet_fields \<Rightarrow> tcp_view \<Rightarrow> bool" where
  "invoked d n m l v \<longleftrightarrow> table_shape d n m \<and> arrays_hold (pb_arrays d) \<and> locals d l v"

lemma answer_step:
  assumes inv: "invoked d n m l v" and sp: "slot_space d i (me_output mem) b" and ok: "slots_ok n m (me_flows mem)"
    and f: "flow_table (me_flows mem) (v_key v) = fo" and fl: "flags = ucast (g_flags g)" and r: "payload_of r = g_payload g"
  shows "acts n m i b (v_key v) mem (answer_packet d i (answer_to l (g_seq g) (g_ack g) flags r) mem) (fo, Some g)"
proof -
  have g: "\<lparr>g_seq = g_seq g, g_ack = g_ack g, g_flags = g_flags g, g_payload = g_payload g\<rparr> = g" by simp
  have "\<exists>out. answer_packet d i (answer_to l (g_seq g) (g_ack g) flags r) mem = Some (mem\<lparr>me_output := out\<rparr>)
      \<and> sent i b (me_output mem) (Some (segment_packet (v_key v) g)) out"
    using answer_sent [OF _ _ sp fl r, where v = v and l = l and seq = "g_seq g" and ack = "g_ack g"] inv unfolding g invoked_def by blast
  with acts_answer [OF ok f] show ?thesis by blast
qed

lemma answer_output:
  assumes "invoked d n m l v" "slot_space d i (me_output mem) b"
  shows "\<exists>out. answer_packet d i (answer_to l seq ack (ucast (fl :: u8)) r) mem = Some (mem\<lparr>me_output := out\<rparr>)"
  using answer_sent [OF _ _ assms(2) refl refl] assms(1) unfolding invoked_def by blast

lemma flag_words: "WGSL_ACK = ucast TCP_ACK" "WGSL_SYN OR WGSL_ACK = ucast (TCP_SYN OR TCP_ACK)"
  "WGSL_ACK OR WGSL_PSH = ucast (TCP_ACK OR TCP_PSH)"
  by (simp_all add: tcp_flag_defs)

lemma ack_step:
  assumes "invoked d n m l v" "slot_space d i (me_output mem) b" "at_slot n m mem (v_key v) base s"
  shows "acts n m i b (v_key v) mem (answer_packet d i (answer_to l (sl_send_next s) (sl_recv_next s) WGSL_ACK INVALID_INDEX) mem)
    (Some (flow_of_slot s), Some (plain_ack (flow_of_slot s)))"
  using answer_step [OF assms(1,2) _ at_slot_table [OF assms(3)], of WGSL_ACK "plain_ack (flow_of_slot s)" INVALID_INDEX] assms(3)
  by (simp add: plain_ack_def at_slot_def tcp_flag_defs) (simp add: flow_of_slot_def)

text \<open>An answer, then the release of the connection.\<close>

lemma acts_release:
  assumes a: "acts n m i b k mem r (Some f, Some g)" and at: "at_slot n m mem k base s"
    and r: "\<exists>out. r = Some (mem\<lparr>me_output := out\<rparr>)"
  shows "acts n m i b k mem (Option.bind r (\<lambda>mem. with_flows mem (flow_release base (me_flows mem)))) (None, Some g)"
proof -
  obtain out where out: "r = Some (mem\<lparr>me_output := out\<rparr>)" using r by blast
  have "at_slot n m (mem\<lparr>me_output := out\<rparr>) k base s" using at by simp
  from release_at_slot [OF this] obtain mem' where "with_flows (mem\<lparr>me_output := out\<rparr>) (flow_release base (me_flows mem)) = Some mem'"
    "slots_ok n m (me_flows mem')" "me_output mem' = out" "flow_table (me_flows mem') = (flow_table (me_flows mem))(k := None)"
    by auto
  then show ?thesis using a out by (auto simp: acts_def)
qed

section \<open>The branches of \<open>main\<close>\<close>

lemma shader_response:
  assumes "invoked d n m l v"
  shows "shader_classify d (pf_input_base l) (pf_payload_offset l) (pf_payload_len l) = Some (classify_http_request (v_payload v))"
    and "fetch (ra_lengths (pb_arrays d)) (classify_http_request (v_payload v))
      = Some (of_nat (length (packet_response (classify_http_request (v_payload v)))))"
  using assms shader_classify_input array_entry classify_bound by (auto simp: invoked_def locals_def)

lemma response_payload: "payload_of (classify_http_request p) = packet_response (classify_http_request p)"
  by (simp add: payload_of_def response_count classify_bound)

lemma remembered_flow:
  assumes l: "locals d l v" and est: "sl_state s = STATE_ESTABLISHED" and p: "v_payload v \<noteq> []"
  defines "r \<equiv> classify_http_request (v_payload v)"
  shows "flow_of_slot (remember_response l (g_ack (gpu_data (flow_of_slot s) v)) r (of_nat (length (packet_response r))) s)
    = after_data (flow_of_slot s) v"
proof -
  have u: "unat (of_nat (length (packet_response r)) :: u32) = length (packet_response r)"
    using length_packet_response(2) [of r] by (intro unat_of_nat_u32) (simp add: U32_MAX_def)
  then have "0 < (of_nat (length (packet_response r)) :: u32)" using length_packet_response(1) [of r] by (simp add: word_less_nat_alt)
  then show ?thesis using l est payload_len [OF l]
    by (simp add: flow_of_slot_def remember_response_def after_data_def gpu_data_def data_segment_def Let_def locals_def
        length_cpu_response r_def)
qed

lemma main_data_acts:
  assumes inv: "invoked d n m l v" and sp: "slot_space d i (me_output mem) b" and at: "at_slot n m mem (v_key v) base s"
    and est: "sl_state s = STATE_ESTABLISHED" and seq: "v_seq v = sl_recv_next s"
  shows "acts n m i b (v_key v) mem (main_data d i l base s mem) (gpu_established v (flow_of_slot s))"
proof -
  let ?f = "flow_of_slot s" and ?k = "v_key v"
  have l: "locals d l v" and t: "table_shape d n m" using inv by (simp_all add: invoked_def)
  have fields: "send_next ?f = sl_send_next s" "recv_next ?f = sl_recv_next s" by (simp_all add: flow_of_slot_def)
  have same: "v_seq v = recv_next ?f" using seq by (simp add: fields)
  have ok: "slots_ok n m (me_flows mem)" and tbl: "flow_table (me_flows mem) ?k = Some ?f"
    using at at_slot_table [OF at] by (simp_all add: at_slot_def)
  note flag = locals_flag [OF l]
  have empty: "pf_payload_len l = 0 \<longleftrightarrow> v_payload v = []" using payload_len [OF l] by (metis length_0_conv unat_eq_0)
  have pseq: "pf_seq l = v_seq v" "pf_payload_len l = of_nat (length (v_payload v))" using l by (simp_all add: locals_def)
  consider (nothing) "v_payload v = []" "\<not> has_flag v TCP_FIN" | (fin) "v_payload v = []" "has_flag v TCP_FIN" | (data) "v_payload v \<noteq> []" by blast
  then show ?thesis
  proof cases
    case nothing
    then show ?thesis using acts_none [OF ok tbl] same by (simp add: main_data_def empty flag gpu_established_def)
  next
    case fin
    let ?g = "\<lparr>g_seq = send_next ?f, g_ack = v_seq v + 1, g_flags = TCP_ACK, g_payload = []\<rparr>"
    let ?r = "answer_packet d i (answer_to l (sl_send_next s) (pf_seq l + 1) WGSL_ACK INVALID_INDEX) mem"
    have "acts n m i b ?k mem ?r (Some ?f, Some ?g)"
      using answer_step [OF inv sp ok tbl, of WGSL_ACK ?g INVALID_INDEX] by (simp add: fields pseq tcp_flag_defs)
    moreover have "\<exists>out. ?r = Some (mem\<lparr>me_output := out\<rparr>)"
      using answer_output [OF inv sp, of "sl_send_next s" "pf_seq l + 1" TCP_ACK INVALID_INDEX] by (simp add: tcp_flag_defs)
    ultimately have "acts n m i b ?k mem (Option.bind ?r (\<lambda>mem. with_flows mem (flow_release base (me_flows mem)))) (None, Some ?g)"
      using at by (intro acts_release)
    then show ?thesis using fin same by (simp add: main_data_def empty flag gpu_established_def)
  next
    case data
    define r where "r = classify_http_request (v_payload v)"
    define g where "g = gpu_data ?f v"
    have g: "g_seq g = sl_send_next s" "g_flags g = TCP_ACK OR TCP_PSH" "g_payload g = packet_response r"
      "g_ack g = (if has_flag v TCP_FIN then pf_seq l + pf_payload_len l + 1 else pf_seq l + pf_payload_len l)"
      by (simp_all add: g_def gpu_data_def data_segment_def fields pseq r_def)
    let ?upd = "remember_response l (g_ack g) r (of_nat (length (packet_response r)))"
    have "live (?upd s)" "key_of_slot (?upd s) = key_of_slot s" "r < RESPONSE_COUNT"
      using est by (simp_all add: live_def remember_response_def key_of_slot_def response_count r_def classify_bound)
    then have "\<exists>mem'. with_flows mem (update_slot base ?upd (me_flows mem)) = Some mem' \<and> at_slot n m mem' ?k base (?upd s)
      \<and> me_output mem' = me_output mem \<and> flow_table (me_flows mem') = (flow_table (me_flows mem))(?k \<mapsto> flow_of_slot (?upd s))"
      by (intro update_at_slot [OF t at]) (simp_all add: remember_response_def)
    then obtain mem' where mem': "with_flows mem (update_slot base ?upd (me_flows mem)) = Some mem'" "at_slot n m mem' ?k base (?upd s)"
      "me_output mem' = me_output mem" "flow_table (me_flows mem') = (flow_table (me_flows mem))(?k \<mapsto> flow_of_slot (?upd s))"
      by (elim exE conjE)
    have ok': "slots_ok n m (me_flows mem')" using mem'(2) by (simp add: at_slot_def)
    have sp': "slot_space d i (me_output mem') b" using sp mem'(3) by simp
    have f': "flow_of_slot (?upd s) = after_data ?f v" unfolding g_def r_def by (rule remembered_flow [OF l est data])
    let ?r = "answer_packet d i (answer_to l (sl_send_next s) (g_ack g) (WGSL_ACK OR WGSL_PSH) r) mem'"
    have "acts n m i b ?k mem' (answer_packet d i (answer_to l (g_seq g) (g_ack g) (WGSL_ACK OR WGSL_PSH) r) mem') (Some (after_data ?f v), Some g)"
      using mem'(4) g f' by (intro answer_step [OF inv sp' ok']) (simp_all add: tcp_flag_defs r_def response_payload)
    then have one: "acts n m i b ?k mem' ?r (Some (after_data ?f v), Some g)" by (simp only: g)
    have out: "\<exists>out. ?r = Some (mem'\<lparr>me_output := out\<rparr>)"
      using answer_output [OF inv sp', of "sl_send_next s" "g_ack g" "TCP_ACK OR TCP_PSH" r] by (simp add: tcp_flag_defs)
    have "acts n m i b ?k mem' (Option.bind ?r (\<lambda>mem. if has_flag v TCP_FIN then with_flows mem (flow_release base (me_flows mem)) else Some mem))
      (if has_flag v TCP_FIN then None else Some (after_data ?f v), Some g)"
      using acts_release [OF one mem'(2) out] one by simp
    then have "acts n m i b ?k mem (Option.bind ?r (\<lambda>mem. if has_flag v TCP_FIN then with_flows mem (flow_release base (me_flows mem)) else Some mem))
      (if has_flag v TCP_FIN then None else Some (after_data ?f v), Some g)"
      by (rule acts_after [OF _ mem'(3,4)])
    then show ?thesis using data same mem'(1)
      by (simp add: main_data_def empty flag gpu_established_def shader_response [OF inv, folded r_def] Let_def
          flip: r_def g_def g(4) split: if_split_asm)
  qed
qed

lemma duplicate_slot:
  assumes "locals d l v"
  shows "(pf_seq l = sl_last_client_seq s \<and> pf_payload_len l = sl_last_client_len s \<and> 0 < sl_last_response_len s)
    \<longleftrightarrow> (\<exists>r. last_resp (flow_of_slot s) = Some r \<and> duplicate_of v r)"
proof -
  have "pf_payload_len l = sl_last_client_len s \<longleftrightarrow> length (v_payload v) = unat (sl_last_client_len s)"
    using payload_len [OF assms] by (metis unsigned_word_eqI)
  then show ?thesis using assms by (auto simp: flow_of_slot_def duplicate_of_def locals_def)
qed

lemma unexpected_acts:
  assumes inv: "invoked d n m l v" and sp: "slot_space d i (me_output mem) b" and at: "at_slot n m mem (v_key v) base s"
  shows "acts n m i b (v_key v) mem
    (if pf_seq l = sl_last_client_seq s \<and> pf_payload_len l = sl_last_client_len s \<and> 0 < sl_last_response_len s
     then answer_packet d i (answer_to l (sl_last_response_seq s) (sl_last_response_ack s) (WGSL_ACK OR WGSL_PSH) (sl_last_response_id s)) mem
     else answer_packet d i (answer_to l (sl_send_next s) (sl_recv_next s) WGSL_ACK INVALID_INDEX) mem)
    (Some (flow_of_slot s), Some (gpu_unexpected v (flow_of_slot s)))"
proof -
  have l: "locals d l v" using inv by (simp add: invoked_def)
  have ok: "slots_ok n m (me_flows mem)" using at by (simp add: at_slot_def)
  show ?thesis
  proof (cases "\<exists>r. last_resp (flow_of_slot s) = Some r \<and> duplicate_of v r")
    case True
    then obtain r where r: "last_resp (flow_of_slot s) = Some r" "duplicate_of v r" by blast
    define g where "g = \<lparr>g_seq = response_seq r, g_ack = response_ack r, g_flags = TCP_ACK OR TCP_PSH, g_payload = packet_response (response_id r)\<rparr>"
    have s: "response_seq r = sl_last_response_seq s" "response_ack r = sl_last_response_ack s" "response_id r = sl_last_response_id s"
      "0 < sl_last_response_len s" using r(1) by (auto simp: flow_of_slot_def split: if_splits)
    have "sl_last_response_id s < RESPONSE_COUNT" using at_slot_ok [OF at] s(4) by simp
    then have "acts n m i b (v_key v) mem (answer_packet d i (answer_to l (g_seq g) (g_ack g) (WGSL_ACK OR WGSL_PSH) (sl_last_response_id s)) mem)
        (Some (flow_of_slot s), Some g)"
      by (intro answer_step [OF inv sp ok at_slot_table [OF at]]) (simp_all add: g_def s payload_of_def tcp_flag_defs)
    then show ?thesis unfolding duplicate_slot [OF l] using True r by (simp add: g_def s gpu_unexpected_def)
  next
    case False
    then show ?thesis unfolding duplicate_slot [OF l] using ack_step [OF inv sp at]
      by (auto simp: gpu_unexpected_def split: option.split)
  qed
qed

lemma main_established_acts:
  assumes inv: "invoked d n m l v" and sp: "slot_space d i (me_output mem) b" and at: "at_slot n m mem (v_key v) base s"
    and est: "sl_state s = STATE_ESTABLISHED"
  shows "acts n m i b (v_key v) mem (main_established d i l base mem) (gpu_established v (ack_update v (flow_of_slot s)))"
proof -
  let ?k = "v_key v"
  have l: "locals d l v" and t: "table_shape d n m" using inv by (simp_all add: invoked_def)
  have pl: "pf_seq l = v_seq v" "pf_ack l = v_ack v" using l by (simp_all add: locals_def)
  let ?A = "pf_flags l AND WGSL_ACK \<noteq> 0 \<and> pf_ack l = sl_send_next s"
  let ?f = "\<lambda>s. s\<lparr>sl_send_unacked := pf_ack l\<rparr>"
  define s1 where "s1 = (if ?A then ?f s else s)"
  have s1: "flow_of_slot s1 = ack_update v (flow_of_slot s)"
    unfolding s1_def by (simp add: ack_update_def locals_flag [OF l] pl flow_of_slot_def)
  have same: "sl_recv_next s = sl_recv_next s1" "sl_send_next s = sl_send_next s1" "sl_state s1 = STATE_ESTABLISHED"
    "sl_last_client_seq s = sl_last_client_seq s1" "sl_last_client_len s = sl_last_client_len s1"
    "sl_last_response_len s = sl_last_response_len s1" "sl_last_response_seq s = sl_last_response_seq s1"
    "sl_last_response_ack s = sl_last_response_ack s1" "sl_last_response_id s = sl_last_response_id s1"
    using est by (simp_all add: s1_def)
  have "live (?f s)" "key_of_slot (?f s) = key_of_slot s" "0 < sl_last_response_len (?f s) \<longrightarrow> sl_last_response_id (?f s) < RESPONSE_COUNT"
    using est at_slot_ok [OF at] by (simp_all add: live_def key_of_slot_def)
  note upd = update_at_slot [where f = ?f, OF t at this]
  obtain mem1 where mem1: "(if ?A then with_flows mem (update_slot base ?f (me_flows mem)) else Some mem) = Some mem1"
    "at_slot n m mem1 ?k base s1" "me_output mem1 = me_output mem"
    "flow_table (me_flows mem1) = (flow_table (me_flows mem))(?k \<mapsto> flow_of_slot s1)"
  proof (cases ?A)
    case True
    then show ?thesis using upd that by (auto simp: s1_def)
  next
    case False
    have "flow_table (me_flows mem) = (flow_table (me_flows mem))(?k \<mapsto> flow_of_slot s)"
      using at_slot_table [OF at] by (simp add: fun_upd_idem)
    with False that [of mem] at show ?thesis by (simp only: s1_def if_False simp_thms)
  qed
  have sp1: "slot_space d i (me_output mem1) b" using sp mem1(3) by simp
  have code: "main_established d i l base mem =
      (if pf_seq l \<noteq> sl_recv_next s1 then
        (if pf_seq l = sl_last_client_seq s1 \<and> pf_payload_len l = sl_last_client_len s1 \<and> 0 < sl_last_response_len s1
         then answer_packet d i (answer_to l (sl_last_response_seq s1) (sl_last_response_ack s1) (WGSL_ACK OR WGSL_PSH) (sl_last_response_id s1)) mem1
         else answer_packet d i (answer_to l (sl_send_next s1) (sl_recv_next s1) WGSL_ACK INVALID_INDEX) mem1)
       else main_data d i l base s1 mem1)"
    unfolding main_established_def at_slot_fetch [OF at] Option.bind.bind_lunit mem1(1)
    by (simp only: main_data_def same)
  have "acts n m i b ?k mem1 (main_established d i l base mem) (gpu_established v (flow_of_slot s1))"
  proof (cases "v_seq v = sl_recv_next s1")
    case True
    then show ?thesis unfolding code using main_data_acts [OF inv sp1 mem1(2) same(3) True] pl by simp
  next
    case False
    then have "gpu_established v (flow_of_slot s1) = (Some (flow_of_slot s1), Some (gpu_unexpected v (flow_of_slot s1)))"
      by (simp add: gpu_established_def) (simp add: flow_of_slot_def)
    then show ?thesis unfolding code using unexpected_acts [OF inv sp1 mem1(2)] False pl by simp
  qed
  then show ?thesis unfolding s1 by (rule acts_after [OF _ mem1(3,4)])
qed

lemma enters_slot:
  assumes l: "locals d l v" and s: "live s"
  shows "enters v (flow_of_slot s) =
    (if sl_state s = STATE_SYN_RECEIVED then
       (if pf_flags l AND WGSL_ACK = 0 \<or> pf_ack l \<noteq> sl_send_next s \<or> pf_seq l \<noteq> sl_recv_next s then None
        else Some (flow_of_slot (s\<lparr>sl_state := STATE_ESTABLISHED, sl_send_unacked := pf_ack l\<rparr>)))
     else Some (ack_update v (flow_of_slot s)))"
  using s l locals_flag(4) [OF l] by (auto simp: enters_def completes_handshake_def flow_of_slot_def live_def locals_def)

lemma main_segment_acts:
  assumes inv: "invoked d n m l v" and sp: "slot_space d i (me_output mem) b" and ok: "slots_ok n m (me_flows mem)"
    and nosyn: "\<not> (has_flag v TCP_SYN \<and> \<not> has_flag v TCP_ACK)"
  shows "acts n m i b (v_key v) mem (main_segment d i l mem) (gpu_conn_step v (flow_table (me_flows mem) (v_key v)))"
proof -
  let ?k = "v_key v"
  have l: "locals d l v" and t: "table_shape d n m" using inv by (simp_all add: invoked_def)
  note key = locals_key [OF l]
  have spec: "gpu_conn_step v fo = (case fo of None \<Rightarrow> (None, None)
         | Some f \<Rightarrow> if has_flag v TCP_RST then (None, None)
             else (case enters v f of None \<Rightarrow> (Some f, None) | Some e \<Rightarrow> gpu_established v e))" for fo
    unfolding gpu_conn_step_def if_not_P [OF nosyn] ..
  show ?thesis
  proof (rule flow_table_cases [OF ok, of ?k])
    assume none: "flow_table (me_flows mem) ?k = None"
    then have "main_segment d i l mem = Some mem" by (simp add: main_segment_def key flow_find_table(2) [OF t ok])
    then show ?thesis using acts_none [OF ok none] by (simp add: spec none)
  next
    fix j assume j: "live_at (me_flows mem) ?k j" and tbl: "flow_table (me_flows mem) ?k = Some (flow_of_slot (me_flows mem ! j))"
    define base where "base = (of_nat j :: u32)"
    define s where "s = me_flows mem ! j"
    have base: "flow_find d (me_flows mem) (main_key l) 0 = Some base" "base \<noteq> INVALID_INDEX" "unat base = j"
      using flow_find_table(1) [OF t ok j] by (simp_all add: base_def key)
    have at: "at_slot n m mem ?k base s" using ok j base(3) by (simp add: at_slot_def s_def)
    have live: "live s" using at_slot_ok [OF at] by simp
    have tbl: "flow_table (me_flows mem) ?k = Some (flow_of_slot s)" by (rule at_slot_table [OF at])
    show ?thesis
    proof (cases "has_flag v TCP_RST")
      case True
      from release_at_slot [OF at] obtain mem' where "with_flows mem (flow_release base (me_flows mem)) = Some mem'"
        "slots_ok n m (me_flows mem')" "me_output mem' = me_output mem" "flow_table (me_flows mem') = (flow_table (me_flows mem))(?k := None)"
        by (elim exE conjE)
      then show ?thesis using True by (simp add: main_segment_def base locals_flag [OF l] spec tbl acts_def)
    next
      case norst: False
      have code: "main_segment d i l mem =
          (if sl_state s = STATE_SYN_RECEIVED then
             (if pf_flags l AND WGSL_ACK = 0 \<or> pf_ack l \<noteq> sl_send_next s \<or> pf_seq l \<noteq> sl_recv_next s then Some mem
              else do {
                mem \<leftarrow> with_flows mem (update_slot base (\<lambda>s. s\<lparr>sl_state := STATE_ESTABLISHED, sl_send_unacked := pf_ack l\<rparr>) (me_flows mem));
                main_established d i l base mem })
           else if sl_state s \<noteq> STATE_ESTABLISHED then Some mem
           else main_established d i l base mem)"
        using norst by (simp only: main_segment_def base(1,2) Option.bind.bind_lunit if_False locals_flag [OF l] not_not at_slot_fetch [OF at])
      show ?thesis
      proof (cases "enters v (flow_of_slot s)")
        case None
        then have "main_segment d i l mem = Some mem" unfolding code enters_slot [OF l live] by (auto split: if_splits)
        then show ?thesis using acts_none [OF ok tbl] norst None by (simp add: spec tbl)
      next
        case (Some e)
        note step = spec [of "flow_table (me_flows mem) ?k", unfolded tbl option.case if_not_P [OF norst] Some]
        show ?thesis
        proof (cases "sl_state s = STATE_SYN_RECEIVED")
          case True
          let ?f = "\<lambda>s. s\<lparr>sl_state := STATE_ESTABLISHED, sl_send_unacked := pf_ack l\<rparr>"
          have hs: "\<not> (pf_flags l AND WGSL_ACK = 0 \<or> pf_ack l \<noteq> sl_send_next s \<or> pf_seq l \<noteq> sl_recv_next s)" and e: "e = flow_of_slot (?f s)"
            using Some True unfolding enters_slot [OF l live] by (auto split: if_splits)
          have "live (?f s)" "key_of_slot (?f s) = key_of_slot s" "0 < sl_last_response_len (?f s) \<longrightarrow> sl_last_response_id (?f s) < RESPONSE_COUNT"
            using at_slot_ok [OF at] by (simp_all add: live_def key_of_slot_def)
          from update_at_slot [where f = ?f, OF t at this] obtain mem'
            where mem': "with_flows mem (update_slot base ?f (me_flows mem)) = Some mem'" "at_slot n m mem' ?k base (?f s)"
            "me_output mem' = me_output mem" "flow_table (me_flows mem') = (flow_table (me_flows mem))(?k \<mapsto> flow_of_slot (?f s))"
            by (elim exE conjE)
          have sp': "slot_space d i (me_output mem') b" using sp mem'(3) by simp
          have "v_ack v = sl_send_next s" using hs l by (simp add: locals_def)
          then have "ack_update v e = e" using l by (simp add: e ack_update_def) (simp add: flow_of_slot_def locals_def)
          then have "acts n m i b ?k mem' (main_established d i l base mem') (gpu_established v e)"
            using main_established_acts [OF inv sp' mem'(2)] by (simp add: e)
          then have "acts n m i b ?k mem (main_established d i l base mem') (gpu_established v e)" by (rule acts_after [OF _ mem'(3,4)])
          then show ?thesis unfolding code tbl step using True hs mem'(1) by simp
        next
          case False
          then have est: "sl_state s = STATE_ESTABLISHED" using live by (simp add: live_def)
          then have "e = ack_update v (flow_of_slot s)" using Some unfolding enters_slot [OF l live] by simp
          then show ?thesis unfolding code tbl step using main_established_acts [OF inv sp at est] est by simp
        qed
      qed
    qed
  qed
qed

lemma answer_syn_acts:
  assumes inv: "invoked d n m l v" and sp: "slot_space d i (me_output mem) b" and at: "at_slot n m mem (v_key v) base s"
  shows "acts n m i b (v_key v) mem (answer_syn d i l base mem) (gpu_syn v (Some (flow_of_slot s)))"
proof (cases "sl_state s = STATE_SYN_RECEIVED")
  case True
  let ?g = "\<lparr>g_seq = sl_send_next s - 1, g_ack = sl_recv_next s, g_flags = TCP_SYN OR TCP_ACK, g_payload = []\<rparr>"
  have ok: "slots_ok n m (me_flows mem)" using at by (simp add: at_slot_def)
  have "acts n m i b (v_key v) mem (answer_packet d i (answer_to l (sl_send_next s - 1) (sl_recv_next s) (WGSL_SYN OR WGSL_ACK) INVALID_INDEX) mem)
      (Some (flow_of_slot s), Some ?g)"
    using answer_step [OF inv sp ok at_slot_table [OF at], of "WGSL_SYN OR WGSL_ACK" ?g INVALID_INDEX] by (simp add: tcp_flag_defs)
  then show ?thesis using True by (simp add: answer_syn_def at_slot_fetch [OF at] gpu_syn_def flow_of_slot_def)
next
  case False
  then have est: "sl_state s = STATE_ESTABLISHED" using at_slot_ok [OF at] by (simp add: live_def)
  then show ?thesis using ack_step [OF inv sp at] by (simp add: answer_syn_def at_slot_fetch [OF at] gpu_syn_def) (simp add: flow_of_slot_def)
qed

lemma opened_flow:
  assumes "locals d l v"
  shows "flow_of_slot (open_flow l (isn (v_key v)) (claimed_slot k)) = new_flow (v_seq v + 1) (isn (v_key v))"
  using assms by (simp add: flow_of_slot_def open_flow_def new_flow_def locals_def)

lemma main_syn_acts:
  assumes inv: "invoked d n m l v" and sp: "slot_space d i (me_output mem) b" and ok: "slots_ok n m (me_flows mem)"
    and room: "flow_table (me_flows mem) (v_key v) = None \<Longrightarrow> card (rivals n m (dom (flow_table (me_flows mem))) (v_key v)) < m"
  shows "acts n m i b (v_key v) mem (main_syn d i l mem) (gpu_syn v (flow_table (me_flows mem) (v_key v)))"
proof -
  let ?k = "v_key v"
  have l: "locals d l v" and t: "table_shape d n m" using inv by (simp_all add: invoked_def)
  note key = locals_key [OF l]
  show ?thesis
  proof (rule flow_table_cases [OF ok, of ?k])
    fix j assume j: "live_at (me_flows mem) ?k j" and tbl: "flow_table (me_flows mem) ?k = Some (flow_of_slot (me_flows mem ! j))"
    have base: "flow_find d (me_flows mem) (main_key l) 0 = Some (of_nat j)" "(of_nat j :: u32) \<noteq> INVALID_INDEX" "unat (of_nat j :: u32) = j"
      using flow_find_table(1) [OF t ok j] by (simp_all add: key)
    have at: "at_slot n m mem ?k (of_nat j) (me_flows mem ! j)" using ok j base(3) by (simp add: at_slot_def)
    then show ?thesis using answer_syn_acts [OF inv sp at] by (simp add: main_syn_def base tbl)
  next
    assume none: "flow_table (me_flows mem) ?k = None"
    obtain j where cl: "claimable n m (me_flows mem) ?k j" using claimable_exists [OF t ok room [OF none]] by blast
    have len: "length (me_flows mem) = n" using ok by (simp add: slots_ok_def)
    note claim = flow_claim_claimable [OF t len cl]
    define s where "s = open_flow l (isn ?k) (claimed_slot (slot_key_of ?k))"
    define mem' where "mem' = mem\<lparr>me_flows := (me_flows mem)[j := s]\<rparr>"
    have s: "live s" "key_of_slot s = slot_key_of ?k" "sl_last_response_len s = 0"
      by (simp_all add: s_def open_flow_def claimed_slot_def live_def key_of_slot_def)
    note ins = slots_insert [OF t ok none cl s]
    have at: "at_slot n m mem' ?k (of_nat j) s" using ins claim(3,4) len by (simp add: at_slot_def mem'_def)
    have isn: "sk_hash (slot_key_of ?k) XOR 0xa5a55a5a = isn ?k" by (simp add: slot_key_of_def isn_def)
    have upd: "update_slot (of_nat j) (open_flow l (isn ?k)) ((me_flows mem)[j := claimed_slot (slot_key_of ?k)]) = Some ((me_flows mem)[j := s])"
      using update_slot_nat [OF claim(3), of "(me_flows mem)[j := claimed_slot (slot_key_of ?k)]"] claim(4) len by (simp add: s_def)
    have "main_syn d i l mem = answer_syn d i l (of_nat j) mem'"
      using upd by (simp add: main_syn_def key flow_find_table(2) [OF t ok none] claim(1,2) isn with_flows_def mem'_def Let_def)
    moreover have "acts n m i b ?k mem' (answer_syn d i l (of_nat j) mem') (gpu_syn v (Some (flow_of_slot s)))"
      using sp by (intro answer_syn_acts [OF inv _ at]) (simp add: mem'_def)
    moreover have "gpu_syn v (Some (flow_of_slot s)) = gpu_syn v None"
      unfolding s_def opened_flow [OF l] by (simp add: gpu_syn_def new_flow_def)
    ultimately have "acts n m i b ?k mem' (main_syn d i l mem) (gpu_syn v None)" by simp
    then show ?thesis unfolding none
      by (rule acts_after) (use ins in \<open>simp_all add: mem'_def\<close>)
  qed
qed

section \<open>A whole invocation\<close>

definition gpu_flow_step :: "packet_engine_config \<Rightarrow> flow flow_step" where
  "gpu_flow_step config key fo p = (case addressed config p of
       None \<Rightarrow> (fo, None)
     | Some v \<Rightarrow> (case gpu_conn_step v fo of (fo', g) \<Rightarrow> (fo', map_option (segment_packet key) g)))"

lemma gpu_conn_acts:
  assumes inv: "invoked d n m l v" and sp: "slot_space d i (me_output mem) b" and ok: "slots_ok n m (me_flows mem)"
    and room: "flow_table (me_flows mem) (v_key v) = None \<Longrightarrow> card (rivals n m (dom (flow_table (me_flows mem))) (v_key v)) < m"
  shows "acts n m i b (v_key v) mem
    (if pf_flags l AND WGSL_SYN \<noteq> 0 \<and> pf_flags l AND WGSL_ACK = 0 then main_syn d i l mem else main_segment d i l mem)
    (gpu_conn_step v (flow_table (me_flows mem) (v_key v)))"
proof -
  have l: "locals d l v" using inv by (simp add: invoked_def)
  show ?thesis
  proof (cases "has_flag v TCP_SYN \<and> \<not> has_flag v TCP_ACK")
    case True
    then show ?thesis using main_syn_acts [OF inv sp ok room] by (simp add: locals_flag [OF l] gpu_conn_step_def)
  next
    case False
    then show ?thesis using main_segment_acts [OF inv sp ok False] by (auto simp: locals_flag [OF l])
  qed
qed

text \<open>Packet \<open>i\<close> of a dispatch is \<open>p\<close>: its metadata and its bytes in the input buffers.\<close>

definition packet_at :: "packet_bindings \<Rightarrow> u32 \<Rightarrow> raw_packet \<Rightarrow> bool" where
  "packet_at d i p \<longleftrightarrow> i < pe_packet_count (pb_params d)
     \<and> (\<exists>base. fetch (pb_input_meta d) i = Some \<lparr>pm_len = of_nat (length (as_bytes p)), pm_word_offset = base\<rparr>
          \<and> input_at d base (as_bytes p))"

lemma fields_locals:
  assumes at: "input_at d base bs" and wf: "well_formed_ipv4_tcp bs"
  shows "locals d (fields_at base bs) (view_at bs)"
proof -
  let ?o = "ihl bs + data_offset bs" and ?t = "unat (be16_at bs 2)"
  have t: "?t \<le> length bs" "?o \<le> ?t" and small: "length bs \<le> MAX_RAW_PACKET_BYTES" using wf at by (auto simp: well_formed_ipv4_tcp_def input_at_def)
  then have len: "length (v_payload (view_at bs)) = ?t - ?o" by (simp add: view_at_def)
  have "read_byte d base (of_nat ?o + k) = Some (ucast (v_payload (view_at bs) ! unat k))" if k: "unat k < ?t - ?o" for k
  proof -
    have "unat (of_nat ?o :: u32) = ?o" using t small by (intro unat_of_nat_u32) (simp add: MAX_RAW_PACKET_BYTES_def U32_MAX_def)
    then have u: "unat (of_nat ?o + k) = ?o + unat k"
      using t small k by (subst unat_plus) (simp_all add: MAX_RAW_PACKET_BYTES_def U32_MAX_def)
    have "unat (of_nat ?o + k) < length bs" using u k t by simp
    from read_byte_input [OF at this] show ?thesis using u k t by (simp add: view_at_def)
  qed
  then have "readable d base (of_nat ?o) (v_payload (view_at bs))" using len t small by (simp add: readable_def)
  moreover have "length (v_payload (view_at bs)) = ?t - ?o" by (rule len)
  ultimately show ?thesis by (simp add: locals_def fields_at_def) (simp add: view_at_def key_at_def)
qed

lemma view_key: "v_key (view_at bs) = key_at bs"
  by (simp add: view_at_def)

text \<open>One invocation: the metadata word is cleared, then the step of the packet's connection is done.\<close>

lemma packet_main_step:
  assumes shape: "table_shape d n m" "arrays_hold (pb_arrays d)" and p: "packet_at d i p" and sp: "slot_space d i (me_output mem) b"
    and ok: "slots_ok n m (me_flows mem)" and port: "pe_listen_port (pb_params d) = ucast (listen_port config)"
    and room: "\<And>v. addressed config p = Some v \<Longrightarrow> flow_table (me_flows mem) (v_key v) = None \<Longrightarrow> card (rivals n m (dom (flow_table (me_flows mem))) (v_key v)) < m"
  shows "\<exists>mem'. packet_main d i mem = Some mem' \<and> slots_ok n m (me_flows mem')
    \<and> flow_table (me_flows mem') = fst (step_one (gpu_flow_step config) (flow_table (me_flows mem)) p)
    \<and> sent i b ((me_output mem)[unat i := 0]) (snd (step_one (gpu_flow_step config) (flow_table (me_flows mem)) p)) (me_output mem')"
proof -
  let ?bs = "as_bytes p" and ?mem = "mem\<lparr>me_output := (me_output mem)[unat i := 0]\<rparr>"
  obtain base where i: "\<not> pe_packet_count (pb_params d) \<le> i" and meta: "fetch (pb_input_meta d) i = Some \<lparr>pm_len = of_nat (length ?bs), pm_word_offset = base\<rparr>"
    and at: "input_at d base ?bs" using p by (auto simp: packet_at_def)
  have clear: "store (me_output mem) i 0 = Some ((me_output mem)[unat i := 0])"
    using sp by (auto simp: slot_space_def store_def set_at_list_update)
  have sp': "slot_space d i (me_output ?mem) b" using sp by (simp add: slot_space_def)
  have parsed: "main_parse d \<lparr>pm_len = of_nat (length ?bs), pm_word_offset = base\<rparr>
      = Some (map_option (\<lambda>_. fields_at base ?bs) (addressed config p))"
    unfolding main_parse_input [OF at] port ucast_eq_iff_32 by (simp add: addressed_def)
  show ?thesis
  proof (cases "addressed config p")
    case None
    then have "packet_main d i mem = Some ?mem" using i by (simp add: packet_main_def clear meta parsed)
    moreover have "step_one (gpu_flow_step config) (flow_table (me_flows mem)) p = (flow_table (me_flows mem), None)"
      using None by (simp add: step_one_def gpu_flow_step_def fun_upd_idem split: option.split)
    ultimately show ?thesis using ok by simp
  next
    case (Some v)
    then have v: "v = view_at ?bs" and wf: "well_formed_ipv4_tcp ?bs" by (auto simp: addressed_def split: if_splits)
    have inv: "invoked d n m (fields_at base ?bs) v" using fields_locals [OF at wf] shape by (simp add: invoked_def v)
    have "acts n m i b (v_key v) ?mem (packet_main d i mem) (gpu_conn_step v (flow_table (me_flows mem) (v_key v)))"
      using gpu_conn_acts [OF inv sp'] ok room [OF Some] i by (simp add: packet_main_def clear meta parsed Some Let_def)
    moreover have "packet_key p = Some (v_key v)"
      using well_formed_schedulable [OF wf] by (simp add: packet_key_def scheduling_flow_key_closed v view_key)
    ultimately show ?thesis by (auto simp: acts_def step_one_def gpu_flow_step_def Some split_def)
  qed
qed

end
