(* ===== verification/PacketDispatch.thy ===== *)
theory PacketDispatch
  imports PacketShaderMain
begin

text \<open>
  A dispatch of the packet shader over a wave: whatever the order of its invocations, the connections
  end as after the sequential run over the wave, and the output buffer holds the answers.
\<close>

section \<open>Answers fit their slots\<close>

definition fitting_answers :: "nat \<Rightarrow> 'f flow_step \<Rightarrow> bool" where
  "fitting_answers stride_words step \<longleftrightarrow>
     (\<forall>k fo p q. snd (step k fo p) = Some q \<longrightarrow> wf_packet q \<and> length (as_bytes q) \<le> 4 * stride_words)"

definition short_segment :: "segment \<Rightarrow> bool" where
  "short_segment g \<longleftrightarrow> length (g_payload g) \<le> 152"

lemma short_response [simp]: "length (packet_response r) \<le> 152"
  by (rule length_packet_response(2))

lemma short_empty: "g_payload g = [] \<Longrightarrow> short_segment g"
  by (simp add: short_segment_def)

lemma gpu_established_short: "snd (gpu_established v f) = Some g \<Longrightarrow> short_segment g"
  by (auto simp: gpu_established_def gpu_unexpected_def gpu_data_def plain_ack_def short_segment_def split: if_splits option.splits)

lemma gpu_conn_step_short: "snd (gpu_conn_step v fo) = Some g \<Longrightarrow> short_segment g"
  by (auto simp: gpu_conn_step_def gpu_syn_def plain_ack_def intro: gpu_established_short short_empty
      split: if_splits option.splits flow_state.splits)

lemma segment_packet_fits:
  assumes "short_segment g"
  shows "wf_packet (segment_packet k g) \<and> length (as_bytes (segment_packet k g)) \<le> 192"
proof -
  have l: "length (as_bytes (segment_packet k g)) = 40 + length (g_payload g)" by (simp add: segment_packet_def reply_def reply_spec_def)
  then have "as_bytes (segment_packet k g) \<noteq> []" by auto
  then show ?thesis using assms l by (simp add: wf_packet_def short_segment_def MAX_RAW_PACKET_BYTES_def)
qed

lemma gpu_answers_fit: "fitting_answers 48 (gpu_flow_step config)"
  unfolding fitting_answers_def
proof (intro allI impI)
  fix k fo p q assume "snd (gpu_flow_step config k fo p) = Some q"
  then obtain v g where "snd (gpu_conn_step v fo) = Some g" "q = segment_packet k g"
    by (auto simp: gpu_flow_step_def split_def split: option.splits)
  then show "wf_packet q \<and> length (as_bytes q) \<le> 4 * 48" using segment_packet_fits [OF gpu_conn_step_short] by simp
qed

lemma step_one_fits: "fitting_answers n step \<Longrightarrow> snd (step_one step tbl p) = Some q \<Longrightarrow> wf_packet q \<and> length (as_bytes q) \<le> 4 * n"
  by (auto simp: step_one_def fitting_answers_def split_def split: option.splits)

section \<open>Slots of the output buffer\<close>

definition slot_view :: "nat \<Rightarrow> u32 list \<Rightarrow> nat \<Rightarrow> u32 \<times> u32 list" where
  "slot_view cnt out i = (out ! i, take 48 (drop (cnt + 48 * i) out))"

definition view_holds :: "u32 \<times> u32 list \<Rightarrow> raw_packet option \<Rightarrow> bool" where
  "view_holds view q \<longleftrightarrow> (case q of None \<Rightarrow> fst view = 0
     | Some q \<Rightarrow> wf_packet q \<and> unat (fst view) = length (as_bytes q) \<and> length (as_bytes q) \<le> 192
         \<and> take (length (as_bytes q)) (words_to_bytes (snd view)) = as_bytes q)"

lemma view_slot_holds:
  assumes "view_holds (slot_view cnt out i) q" "i < cnt" "length out = cnt + 48 * cnt"
  shows "slot_holds (take cnt out) (drop cnt out) 48 i q"
proof (cases q)
  case None
  then show ?thesis using assms(1,2) by (simp add: view_holds_def slot_holds_def slot_view_def)
next
  case (Some p)
  then have p: "wf_packet p" "unat (out ! i) = length (as_bytes p)" "length (as_bytes p) \<le> 192"
    "take (length (as_bytes p)) (words_to_bytes (take 48 (drop (cnt + 48 * i) out))) = as_bytes p"
    using assms(1) by (simp_all add: view_holds_def slot_view_def)
  have "drop (4 * 48 * i) (words_to_bytes (drop cnt out)) = words_to_bytes (drop (cnt + 48 * i) out)"
    using words_to_bytes_drop [of "48 * i" "drop cnt out"] by (simp add: add.commute)
  then have "take (length (as_bytes p)) (drop (4 * 48 * i) (words_to_bytes (drop cnt out))) = as_bytes p"
    using p(3,4) by (simp add: words_to_bytes_take min_def)
  then show ?thesis using p assms(2) by (simp add: slot_holds_def Some)
qed

lemma put_outside: "length ws \<le> w \<Longrightarrow> b + w \<le> length out \<Longrightarrow> k < length out \<Longrightarrow> k < b \<or> b + w \<le> k \<Longrightarrow> put out b ws ! k = out ! k"
  by (auto simp: put_def nth_append min_def)

lemma sent_outside:
  assumes "sent i b (out[unat i := 0]) q out'" "b + 48 \<le> length out"
  shows "length out' = length out \<and> (\<forall>k<length out. k \<noteq> unat i \<and> (k < b \<or> b + 48 \<le> k) \<longrightarrow> out' ! k = out ! k)"
proof (cases q)
  case (Some p)
  then obtain ws where ws: "out' = (put (out[unat i := 0]) b ws)[unat i := of_nat (length (as_bytes p))]" "length ws \<le> 48"
    using assms(1) by (auto simp: sent_def)
  then show ?thesis using assms(2) put_outside [of ws 48 b "out[unat i := 0]"] by auto
qed (use assms in \<open>auto simp: sent_def\<close>)

lemma sent_view:
  assumes s: "sent i b (out[unat i := 0]) q out'" and b: "b = cnt + 48 * unat i" "b + 48 \<le> length out" "unat i < cnt"
    and fit: "\<And>p. q = Some p \<Longrightarrow> wf_packet p \<and> length (as_bytes p) \<le> 192"
  shows "view_holds (slot_view cnt out' (unat i)) q"
proof (cases q)
  case None
  then show ?thesis using assms by (simp add: sent_def view_holds_def slot_view_def)
next
  case (Some p)
  let ?bs = "as_bytes p"
  obtain ws where out': "out' = (put (out[unat i := 0]) b ws)[unat i := of_nat (length ?bs)]"
    and ws: "words_to_bytes ws = pad_words ?bs" "length ws \<le> 48"
    using s Some by (auto simp: sent_def)
  have lws: "length ws = div_ceil (length ?bs) 4" using arg_cong [OF ws(1), of length] by simp
  have small: "length ?bs \<le> U32_MAX" using fit [OF Some] by (simp add: wf_packet_u32)
  have "drop b out' = drop b (put (out[unat i := 0]) b ws)" unfolding out' using b by simp
  also have "\<dots> = ws @ drop (b + length ws) out" using b ws(2) by (simp add: put_def)
  finally have "take 48 (drop b out') = ws @ take (48 - length ws) (drop (b + length ws) out)" using ws(2) by simp
  then have "take (length ?bs) (words_to_bytes (take 48 (drop b out'))) = take (length ?bs) (pad_words ?bs @ words_to_bytes (take (48 - length ws) (drop (b + length ws) out)))"
    by (simp only: words_to_bytes_append ws(1))
  also have "\<dots> = ?bs" by (simp add: pad_words_def)
  finally show ?thesis using fit [OF Some] Some b small out' ws(2)
    by (simp add: view_holds_def slot_view_def unat_of_nat_u32)
qed

section \<open>The invocations\<close>

text \<open>The bindings hold a wave \<open>ps\<close>; \<open>K\<close> has the connections there can be.\<close>

definition wave_bound :: "packet_bindings \<Rightarrow> packet_engine_config \<Rightarrow> nat \<Rightarrow> nat \<Rightarrow> raw_packet list \<Rightarrow> flow_key set \<Rightarrow> bool" where
  "wave_bound d config n m ps K \<longleftrightarrow> table_shape d n m \<and> arrays_hold (pb_arrays d)
     \<and> pe_packet_count (pb_params d) = of_nat (length ps) \<and> pe_output_word_base (pb_params d) = of_nat (length ps)
     \<and> pe_output_stride_words (pb_params d) = 48 \<and> pe_listen_port (pb_params d) = ucast (listen_port config)
     \<and> (\<forall>i<length ps. packet_at d (of_nat i) (ps ! i))
     \<and> probe_room n m K \<and> (\<forall>p\<in>set ps. \<forall>v. addressed config p = Some v \<longrightarrow> v_key v \<in> K)"

definition memory_ok :: "nat \<Rightarrow> nat \<Rightarrow> nat \<Rightarrow> flow_key set \<Rightarrow> packet_memory \<Rightarrow> bool" where
  "memory_ok n m cnt K mem \<longleftrightarrow> slots_ok n m (me_flows mem) \<and> dom (flow_table (me_flows mem)) \<subseteq> K
     \<and> cnt + 48 * cnt \<le> length (me_output mem) \<and> length (me_output mem) \<le> U32_MAX"

lemma wave_slot_space:
  assumes w: "wave_bound d config n m ps K" and mem: "memory_ok n m (length ps) K mem" and i: "i < length ps"
  shows "slot_space d (of_nat i) (me_output mem) (length ps + 48 * i)" "unat (of_nat i :: u32) = i"
proof -
  have l: "length ps + 48 * length ps \<le> U32_MAX" and len: "length ps + 48 * length ps \<le> length (me_output mem)"
    "length (me_output mem) \<le> U32_MAX" using mem by (simp_all add: memory_ok_def)
  have fit: "length ps + 48 * i + 48 \<le> length (me_output mem)" using len i by linarith
  have "output_base d (of_nat i) = of_nat (length ps + i * 48)" using w by (simp add: output_base_def wave_bound_def)
  moreover have "unat (of_nat (length ps + i * 48) :: u32) = length ps + i * 48" using l i by (intro unat_of_nat_u32) linarith
  moreover show u: "unat (of_nat i :: u32) = i" using l i by (intro unat_of_nat_u32) linarith
  ultimately show "slot_space d (of_nat i) (me_output mem) (length ps + 48 * i)"
    using fit len i by (auto simp: slot_space_def mult.commute)
qed

lemma step_one_dom:
  assumes "\<And>v. addressed config p = Some v \<Longrightarrow> v_key v \<in> K" "dom tbl \<subseteq> K"
  shows "dom (fst (step_one (gpu_flow_step config) tbl p)) \<subseteq> K"
proof (cases "addressed config p")
  case None
  then have "fst (step_one (gpu_flow_step config) tbl p) = tbl" by (simp add: step_one_def gpu_flow_step_def fun_upd_idem split: option.split)
  then show ?thesis using assms(2) by simp
next
  case (Some v)
  then have "packet_key p = Some (v_key v)"
    using parse_scheduling_agree [of p v] by (auto simp: addressed_def parse_closed packet_key_def split: if_splits)
  then show ?thesis using assms Some by (auto simp: step_one_def split_def split: if_splits)
qed

lemma wave_step:
  assumes w: "wave_bound d config n m ps K" and mem: "memory_ok n m (length ps) K mem" and i: "i < length ps"
  defines "st \<equiv> step_one (gpu_flow_step config) (flow_table (me_flows mem)) (ps ! i)"
  obtains mem' where "packet_main d (of_nat i) mem = Some mem'" "memory_ok n m (length ps) K mem'"
    "flow_table (me_flows mem') = fst st" "view_holds (slot_view (length ps) (me_output mem') i) (snd st)"
    "length (me_output mem') = length (me_output mem)"
    "\<And>j. j < length ps \<Longrightarrow> j \<noteq> i \<Longrightarrow> slot_view (length ps) (me_output mem') j = slot_view (length ps) (me_output mem) j"
proof -
  let ?b = "length ps + 48 * i" and ?out = "me_output mem"
  note space = wave_slot_space [OF w mem i]
  have K: "probe_room n m K" "dom (flow_table (me_flows mem)) \<subseteq> K" "0 < m" using w mem by (simp_all add: wave_bound_def memory_ok_def table_shape_def)
  have addr: "v_key v \<in> K" if "addressed config (ps ! i) = Some v" for v using w i that by (auto simp: wave_bound_def)
  have room: "card (rivals n m (dom (flow_table (me_flows mem))) (v_key v)) < m"
    if "addressed config (ps ! i) = Some v" "flow_table (me_flows mem) (v_key v) = None" for v
    using that addr K by (intro probe_room_one_more [OF K(1)]) auto
  have pre: "table_shape d n m" "arrays_hold (pb_arrays d)" "packet_at d (of_nat i) (ps ! i)" "slots_ok n m (me_flows mem)"
    "pe_listen_port (pb_params d) = ucast (listen_port config)" using w mem i by (simp_all add: wave_bound_def memory_ok_def)
  have "\<exists>mem'. packet_main d (of_nat i) mem = Some mem' \<and> slots_ok n m (me_flows mem') \<and> flow_table (me_flows mem') = fst st
    \<and> sent (of_nat i) ?b (?out[unat (of_nat i :: u32) := 0]) (snd st) (me_output mem')"
    unfolding st_def by (rule packet_main_step [OF pre(1-3) space(1) pre(4,5)]) (rule room)
  then obtain mem' where mem': "packet_main d (of_nat i) mem = Some mem'" "slots_ok n m (me_flows mem')" "flow_table (me_flows mem') = fst st"
    "sent (of_nat i) ?b (?out[unat (of_nat i :: u32) := 0]) (snd st) (me_output mem')"
    by (elim exE conjE)
  have b48: "?b + 48 \<le> length ?out" using space(1) by (simp add: slot_space_def)
  note outside = sent_outside [OF mem'(4) b48, unfolded space(2)]
  have "dom (fst st) \<subseteq> K" unfolding st_def using addr K(2) by (rule step_one_dom)
  then have ok': "memory_ok n m (length ps) K mem'" using mem mem'(2,3) outside by (simp add: memory_ok_def)
  have fit: "wf_packet p \<and> length (as_bytes p) \<le> 192" if "snd st = Some p" for p
    using step_one_fits [OF gpu_answers_fit that [unfolded st_def]] by simp
  have view: "view_holds (slot_view (length ps) (me_output mem') i) (snd st)"
    using sent_view [OF mem'(4) _ b48 _ fit] i space(2) by simp
  have other: "slot_view (length ps) (me_output mem') j = slot_view (length ps) ?out j" if j: "j < length ps" "j \<noteq> i" for j
  proof -
    have len: "length (me_output mem') = length ?out" "length ps + 48 * j + 48 \<le> length ?out" using outside mem j by (auto simp: memory_ok_def)
    have "j < length ?out" "j < length ps + 48 * i" using len j by linarith+
    then have "me_output mem' ! j = ?out ! j" using outside j(2) by blast
    moreover have "take 48 (drop (length ps + 48 * j) (me_output mem')) = take 48 (drop (length ps + 48 * j) ?out)"
    proof (rule nth_equalityI)
      fix k assume "k < length (take 48 (drop (length ps + 48 * j) (me_output mem')))"
      then have k: "k < 48" by simp
      have "length ps + 48 * j + k < ?b \<or> ?b + 48 \<le> length ps + 48 * j + k" using k j(2) by (cases "j < i") (auto simp: not_less)
      moreover have "length ps + 48 * j + k \<noteq> i" "length ps + 48 * j + k < length ?out" using i k len by linarith+
      ultimately have "me_output mem' ! (length ps + 48 * j + k) = ?out ! (length ps + 48 * j + k)" using outside by blast
      then show "take 48 (drop (length ps + 48 * j) (me_output mem')) ! k = take 48 (drop (length ps + 48 * j) ?out) ! k"
        using k len by simp
    qed (simp add: len(1))
    ultimately show ?thesis by (simp add: slot_view_def)
  qed
  from that [OF mem'(1) ok' mem'(3) view _ other] outside show thesis by blast
qed

lemma invocations_run:
  assumes w: "wave_bound d config n m ps K" and "memory_ok n m (length ps) K mem"
    and "distinct order" "\<forall>i\<in>set order. i \<le> U32_MAX"
  defines "run \<equiv> \<lambda>tbl. run_seq (gpu_flow_step config) tbl (map ((!) ps) (filter (\<lambda>i. i < length ps) order))"
  shows "\<exists>mem'. packet_invocations d order mem = Some mem' \<and> memory_ok n m (length ps) K mem'
    \<and> length (me_output mem') = length (me_output mem) \<and> flow_table (me_flows mem') = fst (run (flow_table (me_flows mem)))
    \<and> (\<forall>(i, q)\<in>set (zip (filter (\<lambda>i. i < length ps) order) (snd (run (flow_table (me_flows mem))))). view_holds (slot_view (length ps) (me_output mem') i) q)
    \<and> (\<forall>j<length ps. j \<notin> set order \<longrightarrow> slot_view (length ps) (me_output mem') j = slot_view (length ps) (me_output mem) j)"
  using assms(2-4) unfolding run_def
proof (induction order arbitrary: mem)
  case Nil
  then show ?case by simp
next
  case (Cons i order)
  have IHpre: "distinct order" "\<forall>i\<in>set order. i \<le> U32_MAX" and i: "i \<notin> set order" "i \<le> U32_MAX" using Cons.prems by simp_all
  show ?case
  proof (cases "i < length ps")
    case False
    have "length ps \<le> U32_MAX" using Cons.prems(1) by (simp add: memory_ok_def)
    then have "pe_packet_count (pb_params d) \<le> of_nat i" using False i w by (simp add: wave_bound_def word_le_nat_alt unat_of_nat_u32)
    then have skip: "packet_main d (of_nat i) mem = Some mem" by (simp add: packet_main_def)
    from Cons.IH [OF Cons.prems(1) IHpre] False show ?thesis by (auto simp: skip)
  next
    case True
    let ?st = "step_one (gpu_flow_step config) (flow_table (me_flows mem)) (ps ! i)"
    obtain mem1 where mem1: "packet_main d (of_nat i) mem = Some mem1" "memory_ok n m (length ps) K mem1"
      "flow_table (me_flows mem1) = fst ?st" "view_holds (slot_view (length ps) (me_output mem1) i) (snd ?st)"
      "length (me_output mem1) = length (me_output mem)"
      "\<And>j. j < length ps \<Longrightarrow> j \<noteq> i \<Longrightarrow> slot_view (length ps) (me_output mem1) j = slot_view (length ps) (me_output mem) j"
      by (rule wave_step [OF w Cons.prems(1) True]) blast
    from Cons.IH [OF mem1(2) IHpre] obtain mem' where mem': "packet_invocations d order mem1 = Some mem'" "memory_ok n m (length ps) K mem'"
      "length (me_output mem') = length (me_output mem1)"
      "flow_table (me_flows mem') = fst (run_seq (gpu_flow_step config) (fst ?st) (map ((!) ps) (filter (\<lambda>i. i < length ps) order)))"
      "\<forall>(i, q)\<in>set (zip (filter (\<lambda>i. i < length ps) order) (snd (run_seq (gpu_flow_step config) (fst ?st) (map ((!) ps) (filter (\<lambda>i. i < length ps) order))))).
         view_holds (slot_view (length ps) (me_output mem') i) q"
      "\<forall>j<length ps. j \<notin> set order \<longrightarrow> slot_view (length ps) (me_output mem') j = slot_view (length ps) (me_output mem1) j"
      unfolding mem1(3) by (elim exE conjE)
    have "slot_view (length ps) (me_output mem') i = slot_view (length ps) (me_output mem1) i" using mem'(6) i(1) True by simp
    then have "view_holds (slot_view (length ps) (me_output mem') i) (snd ?st)" using mem1(4) by simp
    moreover have "slot_view (length ps) (me_output mem') j = slot_view (length ps) (me_output mem) j" if "j < length ps" "j \<notin> set (i # order)" for j
      using mem'(6) mem1(6) [of j] that by simp
    ultimately show ?thesis using mem' mem1(1,5) True by (simp add: Let_def split_def)
  qed
qed

section \<open>Any order gives the sequential run\<close>

lemma in_map_filter: "k \<in> set (List.map_filter f xs) \<longleftrightarrow> (\<exists>x\<in>set xs. f x = Some k)"
  by (induction xs) (auto simp: List.map_filter_def split: if_splits)

lemma one_packet_per_flow:
  assumes "distinct (List.map_filter packet_key ps)" "i < length ps" "j < length ps" "packet_key (ps ! i) = Some k" "packet_key (ps ! j) = Some k"
  shows "i = j"
  using assms
proof (induction ps arbitrary: i j)
  case (Cons p ps)
  have tail: "packet_key (ps ! x) \<noteq> Some k" if "packet_key p = Some k" "x < length ps" for x
  proof
    assume "packet_key (ps ! x) = Some k"
    then have "k \<in> set (List.map_filter packet_key ps)" using that(2) by (auto simp: in_map_filter)
    then show False using Cons.prems(1) that(1) by (simp add: List.map_filter_def)
  qed
  have dist: "distinct (List.map_filter packet_key ps)" using Cons.prems(1) by (simp add: List.map_filter_def split: if_splits)
  show ?case using Cons.prems Cons.IH [OF dist] tail by (cases i; cases j) auto
qed simp

lemma filter_unique:
  assumes "distinct xs" "distinct ys" "set xs = set ys" "\<And>x y. x \<in> set xs \<Longrightarrow> y \<in> set xs \<Longrightarrow> P x \<Longrightarrow> P y \<Longrightarrow> x = y"
  shows "filter P xs = filter P ys"
proof -
  have single: "zs = [a]" if "distinct zs" "set zs = {a}" for zs and a :: 'a
    using that by (cases zs; cases "tl zs") auto
  show ?thesis
  proof (cases "filter P xs")
    case Nil
    then show ?thesis using assms(3) by (simp add: filter_empty_conv)
  next
    case (Cons a as)
    then have "a \<in> set (filter P xs)" by simp
    then have a: "a \<in> set xs" "P a" by simp_all
    then have "set (filter P xs) = {a}" "set (filter P ys) = {a}" using assms(3,4) by auto
    then show ?thesis using single assms(1,2) by (metis distinct_filter)
  qed
qed

text \<open>A dispatch of at least as many invocations as packets, in any order.\<close>

lemma dispatch_wave_run:
  assumes w: "wave_bound d config n m ps K" and mem: "memory_ok n m (length ps) K mem"
    and order: "distinct order" "set order = {..<N}" "length ps \<le> N" "N \<le> U32_MAX"
    and keys: "distinct (List.map_filter packet_key ps)"
  defines "run \<equiv> run_seq (gpu_flow_step config) (flow_table (me_flows mem)) ps"
  obtains mem' where "packet_invocations d order mem = Some mem'" "memory_ok n m (length ps) K mem'"
    "length (me_output mem') = length (me_output mem)" "flow_table (me_flows mem') = fst run"
    "\<And>i. i < length ps \<Longrightarrow> view_holds (slot_view (length ps) (me_output mem') i) (snd run ! i)"
proof -
  let ?is = "filter (\<lambda>i. i < length ps) order" and ?js = "[0..<length ps]"
  let ?step = "gpu_flow_step config" and ?tbl = "flow_table (me_flows mem)"
  have dist: "distinct ?is" using order(1) by simp
  have sets: "set ?is = set ?js" unfolding set_filter order(2) using order(3) by auto
  have "of_flow ps (Some k) ?is = of_flow ps (Some k) ?js" for k
  proof (rule filter_unique [OF dist _ sets])
    fix x y assume "x \<in> set ?is" "y \<in> set ?is" "packet_key (ps ! x) = Some k" "packet_key (ps ! y) = Some k"
    then show "x = y" using one_packet_per_flow [OF keys, of x y k] by simp
  qed simp
  then have same: "\<forall>k. of_flow ps (Some k) ?is = of_flow ps (Some k) ?js" by blast
  have id: "map ((!) ps) ?js = ps" by (rule map_nth)
  note reorder = run_seq_reorder [OF same sets, of ?step ?tbl, unfolded id, folded run_def]
  have "\<forall>i\<in>set order. i \<le> U32_MAX" using order by auto
  from invocations_run [OF w mem order(1) this] obtain mem' where mem': "packet_invocations d order mem = Some mem'"
    "memory_ok n m (length ps) K mem'" "length (me_output mem') = length (me_output mem)"
    "flow_table (me_flows mem') = fst (run_seq ?step ?tbl (map ((!) ps) ?is))"
    "\<forall>(i, q)\<in>set (zip ?is (snd (run_seq ?step ?tbl (map ((!) ps) ?is)))). view_holds (slot_view (length ps) (me_output mem') i) q"
    by (elim exE conjE)
  have "view_holds (slot_view (length ps) (me_output mem') i) (snd run ! i)" if "i < length ps" for i
  proof -
    have "(i, snd run ! i) \<in> set (zip ?js (snd run))" unfolding in_set_zip using that by (intro exI [of _ i]) (simp add: run_def)
    then show ?thesis using mem'(5) unfolding reorder(2) by blast
  qed
  then show thesis using reorder(1) mem'(4) by (intro that [OF mem'(1-3)]) simp_all
qed

end
