(* ===== verification/Wgpu.thy ===== *)
theory Wgpu
  imports LittleEndian
begin

text \<open>
  What both GPU engines see of \<open>wgpu\<close>: the adapter and what it offers, the callback of a mapping
  request, uploads into a buffer.
\<close>

record wgpu_adapter =
  ad_integrated :: bool
  ad_mappable_primary_buffers :: bool
  ad_compute_shaders :: bool
  ad_device_granted :: bool
  ad_max_binding :: nat
  ad_max_buffer :: nat

datatype map_callback = Mapped | MapFailed | CallbackLost

text \<open>\<open>max_storage_buffer_binding_size\<close> and \<open>max_buffer_size\<close> of \<open>Limits::downlevel_defaults\<close>.\<close>

definition MAX_STORAGE_BINDING :: nat where "MAX_STORAGE_BINDING = 128 * 1024 * 1024"
definition MAX_BUFFER :: nat where "MAX_BUFFER = 256 * 1024 * 1024"

definition write_buffer :: "'a list \<Rightarrow> 'a list \<Rightarrow> 'a list option" where
  "write_buffer buffer data = copy_into buffer 0 data"

fun bytes_to_words :: "bytes \<Rightarrow> u32 list" where
  "bytes_to_words (a # b # c # d # rest) = le_val [a, b, c, d] # bytes_to_words rest"
| "bytes_to_words _ = []"

lemma write_buffer_closed: "length data \<le> length buffer \<Longrightarrow> write_buffer buffer data = Some (data @ drop (length data) buffer)"
  by (simp add: write_buffer_def copy_into_def)

lemma length_bytes_to_words: "length (bytes_to_words bs) = length bs div 4"
  by (induction bs rule: bytes_to_words.induct) simp_all

lemma words_to_bytes_to_words: "4 dvd length bs \<Longrightarrow> words_to_bytes (bytes_to_words bs) = bs"
proof (induction bs rule: bytes_to_words.induct)
  case (1 a b c d rest)
  have "4 dvd length rest" using 1(2) by simp presburger
  then show ?case using 1(1) u32_to_le_le_val [of "[a, b, c, d]"] by (simp add: words_to_bytes_def del: le_val.simps)
qed (simp add: words_to_bytes_def, (simp; presburger)+)

end
