(* ===== verification/PacketDevice.thy ===== *)
theory PacketDevice
  imports PacketDispatch Wgpu
begin

text \<open>
  The device of \<open>GpuPacketEngine\<close>: its buffers, and one wave on them (upload, dispatch of the shader
  of \<open>PacketShader\<close>, readback). The interpretation \<open>shader\<close> shows that it keeps the contract
  \<open>packet_device\<close> of the engine, with the connection semantics \<open>gpu_flow_step\<close>.

  What the environment decides is \<open>wave_events\<close>: the order of the invocations (they are run one
  after the other, in any order), the result of \<open>poll\<close>, the callback of the mapping request and
  whether the mapped range can be read. A \<open>wgpu\<close> validation error is a panic.
\<close>

section \<open>One wave\<close>

definition PACKET_WORKGROUP_SIZE :: nat where "PACKET_WORKGROUP_SIZE = 128"
definition MAX_WORKGROUPS :: nat where "MAX_WORKGROUPS = 65535"

record wave_events =
  we_order :: "nat \<Rightarrow> nat list"
  we_poll_ok :: bool
  we_callback :: map_callback
  we_range :: bool

text \<open>\<open>pg_mapped\<close>: the buffer that is read back is mapped. \<open>pg_readback\<close>: its size, unless the output is
  mapped directly. \<open>pg_events\<close>: what happens in wave 0, 1, ...; \<open>pg_wave\<close>: waves so far.\<close>

record packet_gpu =
  pg_input_meta :: "packet_meta list"
  pg_input_words :: "u32 list"
  pg_memory :: packet_memory
  pg_arrays :: response_arrays
  pg_readback :: "nat option"
  pg_direct_output_mapping :: bool
  pg_mapped :: bool
  pg_events :: "nat \<Rightarrow> wave_events"
  pg_wave :: nat

text \<open>\<open>write_buffer_with\<close> needs room in the buffer and a multiple of four bytes.\<close>

definition packet_upload_fits :: "packet_gpu \<Rightarrow> nat \<Rightarrow> bool" where
  "packet_upload_fits g n \<longleftrightarrow> n \<le> 4 * length (pg_input_words g) \<and> n mod 4 = 0"

definition packet_map_read :: "wave_events \<Rightarrow> packet_gpu \<Rightarrow> string \<Rightarrow> bytes \<Rightarrow> packet_gpu \<times> (packet_error + bytes)" where
  "packet_map_read ev g what data =
     (let g = g\<lparr>pg_mapped := we_callback ev = Mapped\<rparr> in
      if \<not> we_poll_ok ev then (g, Inl (DeviceFailed ''poll''))
      else case we_callback ev of
          CallbackLost \<Rightarrow> (g, Inl (DeviceFailed what))
        | MapFailed \<Rightarrow> (g, Inl (DeviceFailed ''buffer mapping''))
        | Mapped \<Rightarrow> if \<not> we_range ev then (g, Inl (DeviceFailed ''mapped range'')) else (g, Inr data))"

definition packet_bindings_of :: "packet_gpu \<Rightarrow> engine_params \<Rightarrow> packet_bindings" where
  "packet_bindings_of g params = \<lparr>pb_input_meta = pg_input_meta g, pb_input_words = pg_input_words g,
     pb_params = params, pb_arrays = pg_arrays g\<rparr>"

text \<open>From the dispatch to the unmapping. The sink runs before the unmapping and does not see the difference.\<close>

definition packet_submit :: "wave_events \<Rightarrow> packet_gpu \<Rightarrow> engine_params \<Rightarrow> (packet_gpu \<times> (packet_error + u32 list \<times> u32 list)) option" where
  "packet_submit ev g params = do {
     let packet_count = unat (pe_packet_count params);
     let groups = div_ceil packet_count PACKET_WORKGROUP_SIZE;
     let meta_copy_bytes = packet_count * 4;
     let word_copy_bytes = packet_count * unat (pe_output_stride_words params) * 4;
     let readback_copy_bytes = meta_copy_bytes + word_copy_bytes;
     if pg_mapped g \<or> MAX_WORKGROUPS < groups then None
     else do {
       memory \<leftarrow> packet_invocations (packet_bindings_of g params) (we_order ev (groups * PACKET_WORKGROUP_SIZE)) (pg_memory g);
       let g = g\<lparr>pg_memory := memory\<rparr>;
       data \<leftarrow> slice (words_to_bytes (me_output memory)) 0 readback_copy_bytes;
       if (case pg_readback g of None \<Rightarrow> False | Some n \<Rightarrow> n < readback_copy_bytes) then None
       else if \<not> pg_direct_output_mapping g \<and> pg_readback g = None
       then Some (g, Inl (DeviceFailed ''packet readback buffer is unavailable''))
       else
         case packet_map_read ev g (if pg_direct_output_mapping g then ''GPU packet output callback disappeared''
                else ''GPU packet readback callback disappeared'') data of
           (g, Inl e) \<Rightarrow> Some (g, Inl e)
         | (g, Inr data) \<Rightarrow> Some (g\<lparr>pg_mapped := False\<rparr>,
             Inr (bytes_to_words (take meta_copy_bytes data), bytes_to_words (drop meta_copy_bytes data))) } }"

definition packet_kernel :: "packet_gpu \<Rightarrow> engine_params \<Rightarrow> packet_meta list \<Rightarrow> bytes
    \<Rightarrow> (packet_gpu \<times> (packet_error + u32 list \<times> u32 list)) option" where
  "packet_kernel g params metadata word_upload = do {
     metas \<leftarrow> write_buffer (pg_input_meta g) metadata;
     words \<leftarrow> write_buffer (words_to_bytes (pg_input_words g)) word_upload;
     packet_submit (pg_events g (pg_wave g))
       (g\<lparr>pg_input_meta := metas, pg_input_words := bytes_to_words words, pg_wave := pg_wave g + 1\<rparr>) params }"

definition packet_gpu_device :: "packet_gpu gpu_device" where
  "packet_gpu_device = \<lparr>upload_fits = packet_upload_fits, run_kernel = packet_kernel\<rparr>"

section \<open>A device in a good state\<close>

definition runs_all :: "wave_events \<Rightarrow> bool" where
  "runs_all ev \<longleftrightarrow> (\<forall>n. distinct (we_order ev n) \<and> set (we_order ev n) = {..<n})"

definition wave_completes :: "wave_events \<Rightarrow> bool" where
  "wave_completes ev \<longleftrightarrow> runs_all ev \<and> we_poll_ok ev \<and> we_callback ev = Mapped \<and> we_range ev"

abbreviation connections_of :: "packet_gpu \<Rightarrow> (flow_key \<rightharpoonup> flow)" where
  "connections_of g \<equiv> flow_table (me_flows (pg_memory g))"

definition packet_gpu_shape :: "packet_engine_config \<Rightarrow> flow_key set \<Rightarrow> packet_gpu \<Rightarrow> bool" where
  "packet_gpu_shape config K g \<longleftrightarrow> valid_config config
     \<and> length (pg_input_meta g) = max_batch_size config \<and> length (pg_input_words g) = 384 * max_batch_size config
     \<and> length (me_output (pg_memory g)) = 49 * max_batch_size config \<and> 1536 * max_batch_size config \<le> MAX_STORAGE_BINDING
     \<and> pg_readback g = (if pg_direct_output_mapping g then None else Some (196 * max_batch_size config))
     \<and> arrays_hold (pg_arrays g)
     \<and> probe_room (flow_capacity config) (flow_probe_limit config) K
     \<and> slots_ok (flow_capacity config) (flow_probe_limit config) (me_flows (pg_memory g)) \<and> dom (connections_of g) \<subseteq> K"

definition packet_gpu_ok :: "packet_engine_config \<Rightarrow> flow_key set \<Rightarrow> packet_gpu \<Rightarrow> bool" where
  "packet_gpu_ok config K g \<longleftrightarrow> packet_gpu_shape config K g \<and> \<not> pg_mapped g \<and> (\<forall>w. wave_completes (pg_events g w))"

text \<open>A packet of one of the connections \<open>K\<close>, or of none.\<close>

definition served :: "packet_engine_config \<Rightarrow> flow_key set \<Rightarrow> raw_packet \<Rightarrow> bool" where
  "served config K p \<longleftrightarrow> (\<forall>v. addressed config p = Some v \<longrightarrow> v_key v \<in> K)"

section \<open>The uploads\<close>

lemma bytes_to_words_to_bytes [simp]: "bytes_to_words (words_to_bytes ws) = ws"
proof (induction ws)
  case (Cons w ws)
  have "words_to_bytes (w # ws) = ucast w # ucast (drop_bit 8 w) # ucast (drop_bit 16 w) # ucast (drop_bit 24 w) # words_to_bytes ws"
    by (simp add: words_to_bytes_def u32_to_le_def)
  then show ?case using Cons le_val_u32_to_le [of w] by (simp add: u32_to_le_def del: le_val.simps le_val_u32_to_le)
qed (simp add: words_to_bytes_def)

lemma layout_metas_nth: "i < length ps \<Longrightarrow> layout_metas off ps ! i =
    \<lparr>pm_len = of_nat (length (as_bytes (ps ! i))), pm_word_offset = of_nat (off + total_words (take i ps))\<rparr>"
proof (induction off ps arbitrary: i rule: layout_metas.induct)
  case (2 off p ps)
  then show ?case by (cases i) (simp_all add: total_words_def add.assoc)
qed simp

lemma layout_append: "total_words (ps @ qs) = total_words ps + total_words qs" "layout_bytes (ps @ qs) = layout_bytes ps @ layout_bytes qs"
  by (simp_all add: total_words_def layout_bytes_def)

lemma layout_split:
  assumes "i < length ps"
  shows "total_words ps = total_words (take i ps) + packet_words (ps ! i) + total_words (drop (Suc i) ps)"
    "layout_bytes ps = layout_bytes (take i ps) @ pad_words (as_bytes (ps ! i)) @ layout_bytes (drop (Suc i) ps)"
proof -
  have c: "total_words (p # qs) = packet_words p + total_words qs" "layout_bytes (p # qs) = pad_words (as_bytes p) @ layout_bytes qs" for p qs
    by (simp_all add: total_words_def layout_bytes_def)
  show "total_words ps = total_words (take i ps) + packet_words (ps ! i) + total_words (drop (Suc i) ps)"
    by (subst (1) id_take_nth_drop [OF assms]) (simp only: layout_append c add.assoc)
  show "layout_bytes ps = layout_bytes (take i ps) @ pad_words (as_bytes (ps ! i)) @ layout_bytes (drop (Suc i) ps)"
    by (subst (1) id_take_nth_drop [OF assms]) (simp only: layout_append c)
qed

lemma layout_slice:
  assumes "i < length ps"
  shows "take (length (as_bytes (ps ! i))) (drop (4 * total_words (take i ps)) (layout_bytes ps @ rest)) = as_bytes (ps ! i)"
    and "4 * total_words (take i ps) + length (as_bytes (ps ! i)) \<le> 4 * total_words ps"
proof -
  note split = layout_split [OF assms]
  show "take (length (as_bytes (ps ! i))) (drop (4 * total_words (take i ps)) (layout_bytes ps @ rest)) = as_bytes (ps ! i)"
    unfolding split(2) by (simp add: length_layout_bytes pad_words_def)
  show "4 * total_words (take i ps) + length (as_bytes (ps ! i)) \<le> 4 * total_words ps"
    using div_ceil_4_bound [of "as_bytes (ps ! i)"] split(1) by (simp add: packet_words_def)
qed

text \<open>After the uploads the buffers hold the wave.\<close>

lemma uploaded_packets:
  assumes fit: "total_words ps \<le> 384 * m" "384 * m \<le> U32_MAX" "length ps \<le> m" "\<forall>p\<in>set ps. wf_packet p"
    and len: "length (pg_input_meta g) = m" "length (pg_input_words g) = 384 * m"
    and params: "pe_packet_count params = of_nat (length ps)"
  obtains metas words where "write_buffer (pg_input_meta g) (layout_metas 0 ps) = Some metas"
    "write_buffer (words_to_bytes (pg_input_words g)) (layout_bytes ps) = Some words"
    "length metas = m" "length (bytes_to_words words) = 384 * m"
    "\<forall>i<length ps. packet_at \<lparr>pb_input_meta = metas, pb_input_words = bytes_to_words words, pb_params = params, pb_arrays = ra\<rparr> (of_nat i) (ps ! i)"
proof -
  define metas where "metas = layout_metas 0 ps @ drop (length ps) (pg_input_meta g)"
  define words where "words = layout_bytes ps @ drop (length (layout_bytes ps)) (words_to_bytes (pg_input_words g))"
  let ?d = "\<lparr>pb_input_meta = metas, pb_input_words = bytes_to_words words, pb_params = params, pb_arrays = ra\<rparr>"
  have lw: "length words = 4 * (384 * m)" using fit(1) len(2) by (simp add: words_def length_layout_bytes)
  then have wb: "words_to_bytes (bytes_to_words words) = words" by (intro words_to_bytes_to_words) simp
  have lbw: "length (bytes_to_words words) = 384 * m" using lw by (simp add: length_bytes_to_words)
  have lm: "length metas = m" using fit(3) len(1) by (simp add: metas_def)
  have at: "packet_at ?d (of_nat i) (ps ! i)" if i: "i < length ps" for i
  proof -
    let ?bs = "as_bytes (ps ! i)"
    have small: "i \<le> U32_MAX" "length ps \<le> U32_MAX" using i fit(2,3) by simp_all
    have "fetch metas (of_nat i) = Some \<lparr>pm_len = of_nat (length ?bs), pm_word_offset = of_nat (total_words (take i ps))\<rparr>"
      using i lm fit(2,3) by (subst fetch_nat) (auto simp: metas_def nth_append layout_metas_nth)
    moreover have "total_words (take i ps) \<le> U32_MAX" using layout_slice(2) [OF i] fit(1,2) by linarith
    then have "input_at ?d (of_nat (total_words (take i ps))) ?bs"
      using layout_slice(1) [OF i, of "drop (length (layout_bytes ps)) (words_to_bytes (pg_input_words g))"] layout_slice(2) [OF i] fit i lbw
      unfolding input_at_def by (simp add: wb wf_packet_def words_def [symmetric])
    moreover have "of_nat i < pe_packet_count params" using i small by (simp add: params word_less_nat_alt)
    ultimately show ?thesis by (simp add: packet_at_def)
  qed
  show thesis
  proof (rule that [of metas words])
    show "write_buffer (pg_input_meta g) (layout_metas 0 ps) = Some metas"
      using fit(3) len(1) by (simp add: write_buffer_closed metas_def)
    show "write_buffer (words_to_bytes (pg_input_words g)) (layout_bytes ps) = Some words"
      using fit(1) len(2) by (simp add: write_buffer_closed words_def length_layout_bytes)
  qed (use lm lbw at in simp_all)
qed

section \<open>The readback\<close>

lemma slot_view_take: "i < n \<Longrightarrow> slot_view n (take (49 * n) out) i = slot_view n out i"
  by (auto simp: slot_view_def drop_take min_def)

lemma read_outputs:
  assumes "49 * n \<le> length out" "length outs = n" "\<forall>i<n. view_holds (slot_view n out i) (outs ! i)"
  shows "slice (words_to_bytes out) 0 (n * 4 + n * 48 * 4) = Some (words_to_bytes (take (49 * n) out))"
    and "output_holds (bytes_to_words (take (n * 4) (words_to_bytes (take (49 * n) out))))
      (bytes_to_words (drop (n * 4) (words_to_bytes (take (49 * n) out)))) 48 outs"
proof -
  let ?out = "take (49 * n) out"
  show "slice (words_to_bytes out) 0 (n * 4 + n * 48 * 4) = Some (words_to_bytes ?out)"
    using assms(1) by (simp add: slice_def words_to_bytes_take)
  have parts: "take (n * 4) (words_to_bytes ?out) = words_to_bytes (take n ?out)"
    "drop (n * 4) (words_to_bytes ?out) = words_to_bytes (drop n ?out)"
    using words_to_bytes_take [of n ?out] words_to_bytes_drop [of n ?out] by (simp_all only: mult.commute [of n 4])
  have len: "length ?out = n + 48 * n" using assms(1) by simp
  have "slot_holds (take n ?out) (drop n ?out) 48 i (outs ! i)" if "i < n" for i
    using assms(3) that len by (intro view_slot_holds) (simp_all add: slot_view_take)
  then show "output_holds (bytes_to_words (take (n * 4) (words_to_bytes ?out))) (bytes_to_words (drop (n * 4) (words_to_bytes ?out))) 48 outs"
    unfolding parts bytes_to_words_to_bytes using len assms(2) by (simp add: output_holds_def)
qed

section \<open>The contract\<close>

lemma valid_shape:
  assumes "valid_config config" "pb_params d = wave_params config 48 n"
  shows "table_shape d (flow_capacity config) (flow_probe_limit config)"
proof -
  have c: "flow_capacity config \<le> U32_MAX" "flow_probe_limit config \<le> flow_capacity config" "0 < flow_probe_limit config"
    "is_power_of_two (flow_capacity config)" using assms(1) by (simp_all add: valid_config_def is_power_of_two_iff)
  then have "unat (of_nat (flow_capacity config) :: u32) = flow_capacity config"
    "unat (of_nat (flow_probe_limit config) :: u32) = flow_probe_limit config" by (intro unat_of_nat_u32; linarith)+
  then show ?thesis using c by (auto simp: table_shape_def probe_limit_def assms(2) wave_params_def min_def word_le_nat_alt)
qed

lemma workgroups: "n \<le> div_ceil n 128 * 128" "div_ceil n 128 * 128 \<le> n + 128"
proof -
  have "n = 128 * (n div 128) + n mod 128" "n mod 128 < 128" by simp_all
  then show "n \<le> div_ceil n 128 * 128" "div_ceil n 128 * 128 \<le> n + 128" unfolding div_ceil_def by (auto split: if_split)
qed

text \<open>Up to the mapping request: the output buffer holds the answers.\<close>

lemma kernel_submits:
  assumes shape: "packet_gpu_shape config K g" and free: "\<not> pg_mapped g" and order: "runs_all (pg_events g (pg_wave g))"
    and ps: "\<forall>p\<in>set ps. wf_packet p \<and> served config K p" "length ps \<le> max_batch_size config"
      "total_words ps \<le> 384 * max_batch_size config" "distinct (List.map_filter packet_key ps)"
  defines "run \<equiv> run_seq (gpu_flow_step config) (connections_of g) ps"
  obtains g' what metas words data where "packet_kernel g (wave_params config 48 (length ps)) (layout_metas 0 ps) (layout_bytes ps) =
     (case packet_map_read (pg_events g (pg_wave g)) g' what data of
        (g, Inl e) \<Rightarrow> Some (g, Inl e) | (g, Inr _) \<Rightarrow> Some (g\<lparr>pg_mapped := False\<rparr>, Inr (metas, words)))"
    "packet_gpu_shape config K g'" "pg_events g' = pg_events g" "connections_of g' = fst run" "output_holds metas words 48 (snd run)"
proof -
  let ?m = "max_batch_size config" and ?n = "length ps" and ?params = "wave_params config 48 (length ps)"
  let ?ev = "pg_events g (pg_wave g)" and ?groups = "div_ceil (length ps) PACKET_WORKGROUP_SIZE"
  have g: "valid_config config" "length (pg_input_meta g) = ?m" "length (pg_input_words g) = 384 * ?m"
    "length (me_output (pg_memory g)) = 49 * ?m" "1536 * ?m \<le> MAX_STORAGE_BINDING"
    "pg_readback g = (if pg_direct_output_mapping g then None else Some (196 * ?m))" "arrays_hold (pg_arrays g)"
    "probe_room (flow_capacity config) (flow_probe_limit config) K"
    "slots_ok (flow_capacity config) (flow_probe_limit config) (me_flows (pg_memory g))" "dom (connections_of g) \<subseteq> K"
    using shape by (simp_all add: packet_gpu_shape_def)
  have m: "384 * ?m \<le> U32_MAX" "49 * ?m \<le> U32_MAX" "?m \<le> 87381" using g(5) by (simp_all add: MAX_STORAGE_BINDING_def U32_MAX_def)
  have n: "unat (of_nat ?n :: u32) = ?n" using ps(2) m by (intro unat_of_nat_u32) linarith
  have params: "pe_packet_count ?params = of_nat ?n" "pe_output_stride_words ?params = 48" by (simp_all add: wave_params_def)
  have wf: "\<forall>p\<in>set ps. wf_packet p" using ps(1) by blast
  obtain metas words where up: "write_buffer (pg_input_meta g) (layout_metas 0 ps) = Some metas"
    "write_buffer (words_to_bytes (pg_input_words g)) (layout_bytes ps) = Some words"
    "length metas = ?m" "length (bytes_to_words words) = 384 * ?m"
    "\<forall>i<?n. packet_at \<lparr>pb_input_meta = metas, pb_input_words = bytes_to_words words, pb_params = ?params, pb_arrays = pg_arrays g\<rparr> (of_nat i) (ps ! i)"
    by (rule uploaded_packets [OF ps(3) m(1) ps(2) wf g(2,3) params(1)])
  define g1 where "g1 = g\<lparr>pg_input_meta := metas, pg_input_words := bytes_to_words words, pg_wave := pg_wave g + 1\<rparr>"
  define d where "d = packet_bindings_of g1 ?params"
  have g1: "pg_memory g1 = pg_memory g" "\<not> pg_mapped g1" "pg_readback g1 = pg_readback g"
    "pg_direct_output_mapping g1 = pg_direct_output_mapping g" using free by (simp_all add: g1_def)
  have d: "pb_params d = ?params" "pb_arrays d = pg_arrays g" "\<forall>i<?n. packet_at d (of_nat i) (ps ! i)"
    using up(5) by (simp_all add: d_def packet_bindings_of_def g1_def)
  have bound: "wave_bound d config (flow_capacity config) (flow_probe_limit config) ps K"
    using valid_shape [OF g(1) d(1)] g(7,8) d ps(1) by (simp add: wave_bound_def wave_params_def served_def)
  have mem: "memory_ok (flow_capacity config) (flow_probe_limit config) ?n K (pg_memory g)"
    using g(4,9,10) ps(2) m(2) by (simp add: memory_ok_def)
  have groups: "?n \<le> ?groups * PACKET_WORKGROUP_SIZE" "?groups * PACKET_WORKGROUP_SIZE \<le> ?n + 128" "?groups \<le> MAX_WORKGROUPS"
    using ps(2) m(3) workgroups [of ?n] by (simp_all add: PACKET_WORKGROUP_SIZE_def MAX_WORKGROUPS_def)
  have all: "distinct (we_order ?ev (?groups * PACKET_WORKGROUP_SIZE))"
    "set (we_order ?ev (?groups * PACKET_WORKGROUP_SIZE)) = {..<?groups * PACKET_WORKGROUP_SIZE}"
    using order by (simp_all add: runs_all_def)
  have N: "?groups * PACKET_WORKGROUP_SIZE \<le> U32_MAX" using groups(2) ps(2) m(3) by (simp add: U32_MAX_def)
  obtain memory where run: "packet_invocations d (we_order ?ev (?groups * PACKET_WORKGROUP_SIZE)) (pg_memory g) = Some memory"
    "memory_ok (flow_capacity config) (flow_probe_limit config) ?n K memory" "length (me_output memory) = 49 * ?m"
    "flow_table (me_flows memory) = fst run" "\<And>i. i < ?n \<Longrightarrow> view_holds (slot_view ?n (me_output memory) i) (snd run ! i)"
    by (rule dispatch_wave_run [OF bound mem all groups(1) N ps(4)]) (use g(4) in \<open>simp add: run_def\<close>)
  let ?data = "words_to_bytes (take (49 * ?n) (me_output memory))" and ?g = "g1\<lparr>pg_memory := memory\<rparr>"
  have len: "49 * ?n \<le> length (me_output memory)" "length (snd run) = ?n" using run(3) ps(2) by (simp_all add: run_def)
  note read = read_outputs [OF len allI [OF impI [OF run(5)]]]
  let ?metas = "bytes_to_words (take (?n * 4) ?data)" and ?words = "bytes_to_words (drop (?n * 4) ?data)"
  have keep: "snd (packet_map_read ev x w y) = Inr z \<Longrightarrow> z = y" for ev x w y z
    by (auto simp: packet_map_read_def Let_def split: if_splits map_callback.splits)
  define what where "what = (if pg_direct_output_mapping g then ''GPU packet output callback disappeared''
                else ''GPU packet readback callback disappeared'')"
  have "packet_submit ?ev g1 ?params = (case packet_map_read ?ev ?g what ?data of
        (g, Inl e) \<Rightarrow> Some (g, Inl e) | (g, Inr z) \<Rightarrow> Some (g\<lparr>pg_mapped := False\<rparr>, Inr (bytes_to_words (take (?n * 4) z), bytes_to_words (drop (?n * 4) z))))"
    using g(6) groups(3) read(1) ps(2) run(1)
    by (auto simp: packet_submit_def params n d_def [symmetric] Let_def g1 what_def split: prod.split sum.split)
  also have "\<dots> = (case packet_map_read ?ev ?g what ?data of
        (g, Inl e) \<Rightarrow> Some (g, Inl e) | (g, Inr _) \<Rightarrow> Some (g\<lparr>pg_mapped := False\<rparr>, Inr (?metas, ?words)))"
    using keep [of ?ev ?g what ?data] by (auto split: prod.split sum.split)
  finally have kernel: "packet_kernel g ?params (layout_metas 0 ps) (layout_bytes ps) = (case packet_map_read ?ev ?g what ?data of
        (g, Inl e) \<Rightarrow> Some (g, Inl e) | (g, Inr _) \<Rightarrow> Some (g\<lparr>pg_mapped := False\<rparr>, Inr (?metas, ?words)))"
    by (simp add: packet_kernel_def up(1,2) g1_def)
  have "packet_gpu_shape config K ?g"
    using shape up(3,4) run(2,3) by (simp add: packet_gpu_shape_def g1_def memory_ok_def)
  then show thesis using run(4) by (intro that [OF kernel _ _ _ read(2)]) (simp_all add: g1_def)
qed

lemma packet_gpu_shape_mapped [simp]: "packet_gpu_shape config K (g\<lparr>pg_mapped := b\<rparr>) = packet_gpu_shape config K g"
  by (simp add: packet_gpu_shape_def)

lemma kernel_serves:
  assumes ok: "packet_gpu_ok config K g"
    and ps: "\<forall>p\<in>set ps. wf_packet p \<and> served config K p" "length ps \<le> max_batch_size config"
      "total_words ps \<le> 384 * max_batch_size config" "distinct (List.map_filter packet_key ps)"
  defines "run \<equiv> run_seq (gpu_flow_step config) (connections_of g) ps"
  shows "\<exists>g' metas words. packet_kernel g (wave_params config 48 (length ps)) (layout_metas 0 ps) (layout_bytes ps) = Some (g', Inr (metas, words))
    \<and> packet_gpu_ok config K g' \<and> connections_of g' = fst run \<and> output_holds metas words 48 (snd run)"
proof -
  have g: "packet_gpu_shape config K g" "\<not> pg_mapped g" "runs_all (pg_events g (pg_wave g))"
    "wave_completes (pg_events g (pg_wave g))" "\<forall>w. wave_completes (pg_events g w)"
    using ok by (simp_all add: packet_gpu_ok_def wave_completes_def)
  obtain g' what metas words data where k: "packet_kernel g (wave_params config 48 (length ps)) (layout_metas 0 ps) (layout_bytes ps) =
     (case packet_map_read (pg_events g (pg_wave g)) g' what data of
        (g, Inl e) \<Rightarrow> Some (g, Inl e) | (g, Inr _) \<Rightarrow> Some (g\<lparr>pg_mapped := False\<rparr>, Inr (metas, words)))"
    "packet_gpu_shape config K g'" "pg_events g' = pg_events g" "connections_of g' = fst run" "output_holds metas words 48 (snd run)"
    unfolding run_def by (rule kernel_submits [OF g(1-3) ps])
  have "packet_map_read (pg_events g (pg_wave g)) g' what data = (g'\<lparr>pg_mapped := True\<rparr>, Inr data)"
    using g(4) by (simp add: packet_map_read_def wave_completes_def)
  then have "packet_kernel g (wave_params config 48 (length ps)) (layout_metas 0 ps) (layout_bytes ps) = Some (g'\<lparr>pg_mapped := False\<rparr>, Inr (metas, words))"
    by (simp add: k(1))
  moreover have "packet_gpu_ok config K (g'\<lparr>pg_mapped := False\<rparr>)" using k(2,3) g(5) by (simp add: packet_gpu_ok_def)
  ultimately show ?thesis using k(4,5) by (intro exI conjI) (assumption | simp)+
qed

lemma gpu_wf_answers: "wf_answers (gpu_flow_step config)"
  using gpu_answers_fit [of config] by (auto simp: fitting_answers_def wf_answers_def)

interpretation shader: packet_device packet_gpu_device config 48 "384 * max_batch_size config" "packet_gpu_ok config K"
    connections_of "gpu_flow_step config" "served config K" for config K
proof unfold_locales
  fix g n assume g: "packet_gpu_ok config K g" and n: "n \<le> 384 * max_batch_size config"
  then show "upload_fits packet_gpu_device g (4 * n)" by (simp add: packet_gpu_device_def packet_upload_fits_def packet_gpu_ok_def packet_gpu_shape_def)
next
  fix g assume "packet_gpu_ok config K g"
  then show "384 * max_batch_size config \<le> U32_MAX \<and> 0 < max_batch_size config \<and> 384 * max_batch_size config \<le> 384 * max_batch_size config"
    by (simp add: packet_gpu_ok_def packet_gpu_shape_def valid_config_def MAX_STORAGE_BINDING_def U32_MAX_def)
next
  show "wf_answers (gpu_flow_step config)" by (rule gpu_wf_answers)
next
  fix g ps assume "packet_gpu_ok config K g" "\<forall>p\<in>set ps. wf_packet p \<and> served config K p"
    "length ps \<le> max_batch_size config" "total_words ps \<le> 384 * max_batch_size config" "distinct (List.map_filter packet_key ps)"
  from kernel_serves [OF this] show "\<exists>g' metas words. run_kernel packet_gpu_device g (wave_params config 48 (length ps)) (layout_metas 0 ps) (layout_bytes ps)
      = Some (g', Inr (metas, words)) \<and> packet_gpu_ok config K g' \<and> connections_of g' = fst (run_seq (gpu_flow_step config) (connections_of g) ps)
      \<and> output_holds metas words 48 (snd (run_seq (gpu_flow_step config) (connections_of g) ps))"
    by (simp add: packet_gpu_device_def)
qed

end
