(* ===== verification/PacketCreate.thy ===== *)
theory PacketCreate
  imports PacketDevice
begin

text \<open>
  \<open>GpuPacketEngine::new\<close> of \<open>src/packet/mod.rs\<close>: validation, the adapter and the device, the shader
  source, the buffer sizes and the buffers. \<open>packet_events\<close> says what will happen in the engine's
  waves. \<open>creation_ready\<close>: the engine meets what the batches rely on.
\<close>

section \<open>Creation\<close>

datatype packet_engine_error =
    InvalidPacketConfig config_error
  | NoPacketAdapter
  | NoPacketComputeShaders
  | PacketDeviceRequestFailed
  | PacketSizing sizing_error

text \<open>A buffer below the size its binding needs, or above the limits of the device, is a panic.\<close>

definition storage_buffer :: "nat \<Rightarrow> nat \<Rightarrow> (packet_engine_error, unit) outcome" where
  "storage_buffer minimum_size n =
     or_panic (if minimum_size \<le> n \<and> n \<le> MAX_STORAGE_BINDING \<and> n \<le> MAX_BUFFER then Some () else None)"

definition readback_buffer :: "bool \<Rightarrow> nat \<Rightarrow> (packet_engine_error, nat option) outcome" where
  "readback_buffer direct_output_mapping n =
     or_panic (if direct_output_mapping then Some None else if n \<le> MAX_BUFFER then Some (Some n) else None)"

definition EMPTY_SLOT :: flow_slot where
  "EMPTY_SLOT = \<lparr>sl_state = 0, sl_key_hash = 0, sl_src_ip = 0, sl_dst_ip = 0, sl_ports = 0, sl_recv_next = 0,
     sl_send_next = 0, sl_send_unacked = 0, sl_last_client_seq = 0, sl_last_client_len = 0, sl_last_response_seq = 0,
     sl_last_response_ack = 0, sl_last_response_id = 0, sl_last_response_len = 0, sl_generation = 0, sl_padding = 0\<rparr>"

definition PACKET_META_BYTES :: nat where "PACKET_META_BYTES = 8"
definition FLOW_SLOT_BYTES :: nat where "FLOW_SLOT_BYTES = 64"

definition new_packet_gpu :: "packet_engine_config \<Rightarrow> gpu_sizes \<Rightarrow> response_arrays \<Rightarrow> bool \<Rightarrow> nat option \<Rightarrow> (nat \<Rightarrow> wave_events) \<Rightarrow> packet_gpu" where
  "new_packet_gpu config sizes ra direct_output_mapping readback packet_events =
     \<lparr>pg_input_meta = replicate (input_meta_bytes sizes div PACKET_META_BYTES) \<lparr>pm_len = 0, pm_word_offset = 0\<rparr>,
      pg_input_words = replicate (input_words_bytes sizes div 4) 0,
      pg_memory = \<lparr>me_output = replicate (output_bytes sizes div 4) 0,
         me_flows = replicate (flow_bytes sizes div FLOW_SLOT_BYTES) EMPTY_SLOT\<rparr>,
      pg_arrays = ra, pg_readback = readback, pg_direct_output_mapping = direct_output_mapping,
      pg_mapped = False, pg_events = packet_events, pg_wave = 0\<rparr>"

definition gpu_packet_engine_new :: "bytes \<Rightarrow> wgpu_adapter option \<Rightarrow> (nat \<Rightarrow> wave_events) \<Rightarrow> packet_engine_config
    \<Rightarrow> (packet_engine_error, packet_gpu gpu_packet_engine) outcome" where
  "gpu_packet_engine_new shader_body adapter packet_events config =
     (case validate_config config of Inl e \<Rightarrow> fail (InvalidPacketConfig e)
      | Inr _ \<Rightarrow>
     (case adapter of None \<Rightarrow> fail NoPacketAdapter
      | Some ad \<Rightarrow>
         let direct_output_mapping = (ad_integrated ad \<and> ad_mappable_primary_buffers ad) in
         if \<not> ad_compute_shaders ad then fail NoPacketComputeShaders
         else if \<not> ad_device_granted ad then fail PacketDeviceRequestFailed
         else
           and_then (or_panic (packet_shader_source shader_body)) (\<lambda>shader_source.
           and_then (or_panic packet_shader_arrays) (\<lambda>ra.
           (case packet_buffer_sizes config MAX_STORAGE_BINDING MAX_BUFFER of Inl e \<Rightarrow> fail (PacketSizing e)
            | Inr sizes \<Rightarrow>
                and_then (storage_buffer PACKET_META_BYTES (input_meta_bytes sizes)) (\<lambda>_.
                and_then (storage_buffer 4 (input_words_bytes sizes)) (\<lambda>_.
                and_then (storage_buffer 4 (output_bytes sizes)) (\<lambda>_.
                and_then (storage_buffer FLOW_SLOT_BYTES (flow_bytes sizes)) (\<lambda>_.
                and_then (readback_buffer direct_output_mapping (output_bytes sizes)) (\<lambda>readback.
                ok \<lparr>ge_config = config, ge_word_capacity = input_word_capacity sizes, ge_stride_words = output_stride_words sizes,
                    ge_device_state = new_packet_gpu config sizes ra direct_output_mapping readback packet_events,
                    ge_seen = flow_set_default, ge_dispatches = 0, ge_packets = 0\<rparr>))))))))))"

section \<open>The sizes\<close>

lemma stride_words: "div_ceil max_response_packet_bytes 4 = 48" "INPUT_PACKET_WORDS = 384" "FLOW_WORDS = 16"
  by (simp_all add: max_response_packet_bytes_value div_ceil_def INPUT_PACKET_WORDS_def MAX_RAW_PACKET_BYTES_def FLOW_WORDS_def)

lemma checked_Some [simp]: "a * b \<le> USIZE_MAX \<Longrightarrow> checked_mul_usize a b = Some (a * b)" "a + b \<le> USIZE_MAX \<Longrightarrow> checked_add_usize a b = Some (a + b)"
  by (simp_all add: checked_mul_usize_def checked_add_usize_def)

text \<open>A valid configuration never overflows a size; what it can exceed are the limits of the device.\<close>

lemma sizes_of_valid:
  assumes "valid_config config"
  defines "m \<equiv> max_batch_size config" and "n \<equiv> flow_capacity config"
  shows "packet_buffer_sizes config B M =
    (if \<not> 8 * m \<le> B then Inl (AboveBindingLimit ''packet input metadata'' (8 * m))
     else if \<not> 196 * m \<le> B then Inl (AboveBindingLimit ''packet output'' (196 * m))
     else if \<not> 64 * n \<le> B then Inl (AboveBindingLimit ''flow state'' (64 * n))
     else if \<not> 196 * m \<le> M then Inl (AboveBufferLimit ''packet readback'' (196 * m))
     else Inr \<lparr>input_meta_bytes = 8 * m, input_words_bytes = min (1536 * m) B, input_word_capacity = min (1536 * m) B div 4,
        output_stride_words = 48, output_bytes = 196 * m, flow_bytes = 64 * n\<rparr>)"
proof -
  have b: "m \<le> U32_MAX" "n \<le> U32_MAX" using assms(1) by (simp_all add: valid_config_def m_def n_def)
  have fits: "m * 8 \<le> USIZE_MAX" "m * 4 \<le> USIZE_MAX" "m * 384 \<le> USIZE_MAX" "m * 384 * 4 \<le> USIZE_MAX" "m * 48 \<le> USIZE_MAX"
    "m * 48 * 4 \<le> USIZE_MAX" "m * 4 + m * 48 * 4 \<le> USIZE_MAX" "n * 16 \<le> USIZE_MAX" "n * 16 * 4 \<le> USIZE_MAX"
    using b by (simp_all add: U32_MAX_def USIZE_MAX_def)
  then show ?thesis unfolding packet_buffer_sizes_def stride_words m_def [symmetric] n_def [symmetric]
    by (simp add: or_overflow_def Let_def mult.commute)
qed

section \<open>Creation never panics\<close>

definition capable :: "wgpu_adapter \<Rightarrow> bool" where
  "capable ad \<longleftrightarrow> ad_compute_shaders ad \<and> ad_device_granted ad"

lemma creation_of_valid:
  assumes "valid_config config" "capable ad"
  obtains ra where "arrays_hold ra"
    "\<And>sizes. packet_buffer_sizes config MAX_STORAGE_BINDING MAX_BUFFER = Inr sizes \<Longrightarrow>
       gpu_packet_engine_new shader_body (Some ad) events config =
         ok \<lparr>ge_config = config, ge_word_capacity = input_word_capacity sizes, ge_stride_words = output_stride_words sizes,
             ge_device_state = new_packet_gpu config sizes ra (ad_integrated ad \<and> ad_mappable_primary_buffers ad)
               (if ad_integrated ad \<and> ad_mappable_primary_buffers ad then None else Some (output_bytes sizes)) events,
             ge_seen = flow_set_default, ge_dispatches = 0, ge_packets = 0\<rparr>"
    "\<And>e. packet_buffer_sizes config MAX_STORAGE_BINDING MAX_BUFFER = Inl e \<Longrightarrow>
       gpu_packet_engine_new shader_body (Some ad) events config = fail (PacketSizing e)"
proof -
  obtain ra where ra: "packet_shader_arrays = Some ra" "arrays_hold ra" by (rule packet_shader_arrays_hold)
  have src: "\<exists>src. packet_shader_source shader_body = Some src" by (simp add: packet_shader_source_def ra(1))
  have v: "validate_config config = Inr ()" using assms(1) by (simp add: validate_config_iff)
  have pos: "0 < max_batch_size config" "0 < flow_capacity config" using assms(1) by (auto simp: valid_config_def)
  show thesis
  proof (rule that [OF ra(2)])
    fix sizes assume sz: "packet_buffer_sizes config MAX_STORAGE_BINDING MAX_BUFFER = Inr sizes"
    then have "storage_buffer PACKET_META_BYTES (input_meta_bytes sizes) = ok ()" "storage_buffer 4 (input_words_bytes sizes) = ok ()"
      "storage_buffer 4 (output_bytes sizes) = ok ()" "storage_buffer FLOW_SLOT_BYTES (flow_bytes sizes) = ok ()"
      "\<And>d. readback_buffer d (output_bytes sizes) = ok (if d then None else Some (output_bytes sizes))"
      using pos by (auto simp: sizes_of_valid [OF assms(1)] storage_buffer_def readback_buffer_def PACKET_META_BYTES_def
          FLOW_SLOT_BYTES_def MAX_STORAGE_BINDING_def MAX_BUFFER_def split: if_splits)
    then show "gpu_packet_engine_new shader_body (Some ad) events config =
         ok \<lparr>ge_config = config, ge_word_capacity = input_word_capacity sizes, ge_stride_words = output_stride_words sizes,
             ge_device_state = new_packet_gpu config sizes ra (ad_integrated ad \<and> ad_mappable_primary_buffers ad)
               (if ad_integrated ad \<and> ad_mappable_primary_buffers ad then None else Some (output_bytes sizes)) events,
             ge_seen = flow_set_default, ge_dispatches = 0, ge_packets = 0\<rparr>"
      using assms(2) src by (auto simp: gpu_packet_engine_new_def v capable_def ra(1) sz Let_def)
  next
    fix e assume "packet_buffer_sizes config MAX_STORAGE_BINDING MAX_BUFFER = Inl e"
    then show "gpu_packet_engine_new shader_body (Some ad) events config = fail (PacketSizing e)"
      using assms(2) src by (auto simp: gpu_packet_engine_new_def v capable_def ra(1) Let_def)
  qed
qed

lemma creation_total: "gpu_packet_engine_new shader_body adapter events config \<noteq> None"
proof (cases "validate_config config = Inr () \<and> (\<exists>ad. adapter = Some ad \<and> capable ad)")
  case True
  then obtain ad where ad: "adapter = Some ad" "capable ad" and v: "valid_config config" by (auto simp: validate_config_iff)
  show ?thesis
    by (rule creation_of_valid [OF v ad(2), of shader_body events])
      (cases "packet_buffer_sizes config MAX_STORAGE_BINDING MAX_BUFFER", auto simp: ad(1) ok_def fail_def)
next
  case False
  then show ?thesis
    by (auto simp: gpu_packet_engine_new_def fail_def capable_def Let_def split: sum.split option.split)
qed

section \<open>What a new engine is\<close>

text \<open>\<open>room_for config K\<close>: the buffers of the configuration fit the device, and its flow table has a slot
  for every connection of \<open>K\<close>.\<close>

definition room_for :: "packet_engine_config \<Rightarrow> flow_key set \<Rightarrow> bool" where
  "room_for config K \<longleftrightarrow> valid_config config \<and> 1536 * max_batch_size config \<le> MAX_STORAGE_BINDING
     \<and> 64 * flow_capacity config \<le> MAX_STORAGE_BINDING \<and> probe_room (flow_capacity config) (flow_probe_limit config) K"

abbreviation packet_engine_ready :: "packet_engine_config \<Rightarrow> flow_key set \<Rightarrow> packet_gpu gpu_packet_engine \<Rightarrow> bool" where
  "packet_engine_ready config K \<equiv> engine_ready config 48 (384 * max_batch_size config) (packet_gpu_ok config K)"

lemma creation_shaped:
  assumes room: "room_for config K" and ad: "capable ad"
  shows "\<exists>eng. gpu_packet_engine_new shader_body (Some ad) events config = ok eng
    \<and> engine_ready config 48 (384 * max_batch_size config) (packet_gpu_shape config K) eng
    \<and> connections_of (ge_device_state eng) = Map.empty \<and> ge_packets eng = 0 \<and> \<not> pg_mapped (ge_device_state eng)
    \<and> pg_events (ge_device_state eng) = events \<and> pg_wave (ge_device_state eng) = 0"
proof -
  let ?m = "max_batch_size config" and ?n = "flow_capacity config"
  have v: "valid_config config" "1536 * ?m \<le> MAX_STORAGE_BINDING" "64 * ?n \<le> MAX_STORAGE_BINDING"
    "probe_room ?n (flow_probe_limit config) K" using room by (simp_all add: room_for_def)
  let ?sizes = "\<lparr>input_meta_bytes = 8 * ?m, input_words_bytes = 1536 * ?m, input_word_capacity = 384 * ?m,
        output_stride_words = 48, output_bytes = 196 * ?m, flow_bytes = 64 * ?n\<rparr>"
  have sizes: "packet_buffer_sizes config MAX_STORAGE_BINDING MAX_BUFFER = Inr ?sizes"
    using v(2,3) by (simp add: sizes_of_valid [OF v(1)] MAX_BUFFER_def MAX_STORAGE_BINDING_def)
  obtain ra where ra: "arrays_hold ra" and new: "gpu_packet_engine_new shader_body (Some ad) events config =
         ok \<lparr>ge_config = config, ge_word_capacity = input_word_capacity ?sizes, ge_stride_words = output_stride_words ?sizes,
             ge_device_state = new_packet_gpu config ?sizes ra (ad_integrated ad \<and> ad_mappable_primary_buffers ad)
               (if ad_integrated ad \<and> ad_mappable_primary_buffers ad then None else Some (output_bytes ?sizes)) events,
             ge_seen = flow_set_default, ge_dispatches = 0, ge_packets = 0\<rparr>"
    by (rule creation_of_valid [OF v(1) ad, of shader_body events]) (use sizes in blast)
  let ?g = "new_packet_gpu config ?sizes ra (ad_integrated ad \<and> ad_mappable_primary_buffers ad)
     (if ad_integrated ad \<and> ad_mappable_primary_buffers ad then None else Some (output_bytes ?sizes)) events"
  have "0 < ?n" using v(1) by (auto simp: valid_config_def)
  then have empty: "slots_ok ?n (flow_probe_limit config) (replicate ?n EMPTY_SLOT)" "flow_table (replicate ?n EMPTY_SLOT) = Map.empty"
    using slots_ok_empty [of ?n "replicate ?n EMPTY_SLOT" "flow_probe_limit config"] by (simp_all add: EMPTY_SLOT_def)
  have "packet_gpu_shape config K ?g"
    using v ra empty by (simp add: packet_gpu_shape_def new_packet_gpu_def PACKET_META_BYTES_def FLOW_SLOT_BYTES_def)
  moreover have "connections_of ?g = Map.empty" "\<not> pg_mapped ?g" "pg_events ?g = events" "pg_wave ?g = 0"
    using empty(2) by (simp_all add: new_packet_gpu_def FLOW_SLOT_BYTES_def)
  ultimately show ?thesis unfolding new by (auto simp: engine_ready_def fs_ready_default ok_def)
qed

lemma creation_ready:
  assumes "room_for config K" "capable ad" "\<forall>w. wave_completes (events w)"
  shows "\<exists>eng. gpu_packet_engine_new shader_body (Some ad) events config = ok eng
    \<and> packet_engine_ready config K eng \<and> connections_of (ge_device_state eng) = Map.empty \<and> ge_packets eng = 0"
  using creation_shaped [OF assms(1,2), of shader_body events] assms(3) by (auto simp: engine_ready_def packet_gpu_ok_def)

end
