(* ===== verification/CpuSession.thy ===== *)
theory CpuSession
  imports CpuProofs
begin

text \<open>
  What the CPU packet engine promises. The abstract flow table is a finite map from
  connections to their state; \<open>spec_packet\<close> is the abstract step of one packet and
  \<open>spec_batch\<close> of a batch. \<open>process_packet_refines\<close> and \<open>process_batch_refines\<close> are the
  simulation; the session theorems (handshake, exchange, retransmission, close, isolation)
  rest on it.
\<close>

section \<open>The abstract engine\<close>

type_synonym table = "flow_key \<rightharpoonup> flow"

definition spec_packet :: "packet_engine_config \<Rightarrow> table \<Rightarrow> raw_packet \<Rightarrow> table \<times> raw_packet option" where
  "spec_packet config tbl p =
     (case addressed config p of
        None \<Rightarrow> (tbl, None)
      | Some v \<Rightarrow>
          (case conn_step (card (dom tbl) < flow_capacity config) v (tbl (v_key v)) of
             (fo, g) \<Rightarrow> (tbl(v_key v := fo), map_option (segment_packet (v_key v)) g)))"

fun spec_batch :: "packet_engine_config \<Rightarrow> table \<Rightarrow> raw_packet list \<Rightarrow> table \<times> raw_packet option list" where
  "spec_batch config tbl [] = (tbl, [])"
| "spec_batch config tbl (p # ps) =
     (let (tbl', out) = spec_packet config tbl p; (tbl'', outs) = spec_batch config tbl' ps
      in (tbl'', out # outs))"

lemma addressed_port: "addressed config p = Some v \<Longrightarrow> dst_port (v_key v) = listen_port config"
  by (auto simp: addressed_def view_at_def split: if_splits)

lemma room_abs: "table_inv config flows \<Longrightarrow> room config flows \<longleftrightarrow> card (dom (hm_get flows)) < flow_capacity config"
  by (simp add: room_def table_inv_def hm.count_card)

lemma spec_packet_act:
  "addressed config p = Some v \<Longrightarrow> table_inv config flows \<Longrightarrow> spec_packet config (hm_get flows) p =
     ((hm_get flows)(v_key v := fst (packet_act config flows v)),
      map_option (segment_packet (v_key v)) (snd (packet_act config flows v)))"
  by (simp add: spec_packet_def packet_act_def room_abs split_def)

lemma process_packet_simulates:
  assumes "table_inv config flows"
  obtains flows' where
    "process_packet flows config p = Some (flows', Inr (snd (spec_packet config (hm_get flows) p)))"
    "table_inv config flows'" "hm_get flows' = fst (spec_packet config (hm_get flows) p)"
proof (cases "addressed config p")
  case None
  then show thesis using that assms by (simp add: process_packet_not_addressed spec_packet_def)
next
  case (Some v)
  have inv: "\<forall>f. hm_get flows (v_key v) = Some f \<longrightarrow> flow_inv (v_key v) f"
    using assms table_inv_get by blast
  have "\<forall>f'. fst (packet_act config flows v) = Some f' \<longrightarrow>
      flow_inv (v_key v) f' \<and> (hm_get flows (v_key v) = None \<longrightarrow> room config flows)"
    using conn_step_inv [OF inv] by (auto simp: packet_act_def)
  from performs_table_inv [OF assms process_packet_addressed [OF Some assms] addressed_port [OF Some] this]
  obtain flows' where res: "process_packet flows config p =
      Some (flows', Inr (map_option (segment_packet (v_key v)) (snd (packet_act config flows v))))"
    "table_inv config flows'" "hm_get flows' = (hm_get flows)(v_key v := fst (packet_act config flows v))" .
  show thesis by (rule that [of flows']) (simp_all add: res spec_packet_act [OF Some assms])
qed

text \<open>C5: on a flow table that satisfies the invariant, processing any packet neither panics nor fails;
  it is exactly the abstract step on the connection the packet addresses, and keeps the invariant.\<close>

theorem process_packet_refines:
  assumes "table_inv config flows"
  shows "\<exists>flows'. process_packet flows config p = Some (flows', Inr (snd (spec_packet config (hm_get flows) p)))
    \<and> table_inv config flows' \<and> hm_get flows' = fst (spec_packet config (hm_get flows) p)"
  by (rule process_packet_simulates [OF assms]) blast

lemma process_packets_simulates:
  assumes "table_inv config flows"
  shows "\<exists>flows'. process_packets flows config ps acc =
      Some (flows', acc @ snd (spec_batch config (hm_get flows) ps), Inr ())
    \<and> table_inv config flows' \<and> hm_get flows' = fst (spec_batch config (hm_get flows) ps)"
  using assms
proof (induction ps arbitrary: flows acc)
  case Nil
  then show ?case by simp
next
  case (Cons p ps)
  obtain flows1 where one: "process_packet flows config p = Some (flows1, Inr (snd (spec_packet config (hm_get flows) p)))"
    "table_inv config flows1" and get: "hm_get flows1 = fst (spec_packet config (hm_get flows) p)"
    using process_packet_simulates [OF Cons.prems] by blast
  show ?case
    using Cons.IH [OF one(2), of "acc @ [snd (spec_packet config (hm_get flows) p)]"]
    by (auto simp: one get Let_def split_def)
qed

lemma spec_batch_append:
  "spec_batch config tbl (ps @ qs) =
     (let (tbl', outs) = spec_batch config tbl ps; (tbl'', outs') = spec_batch config tbl' qs
      in (tbl'', outs @ outs'))"
  by (induction ps arbitrary: tbl) (auto simp: Let_def split_def)

lemma length_spec_batch [simp]: "length (snd (spec_batch config tbl ps)) = length ps"
  by (induction ps arbitrary: tbl) (auto simp: Let_def split_def)

section \<open>Engines and batches\<close>

definition engine_inv :: "cpu_packet_engine \<Rightarrow> bool" where
  "engine_inv eng \<longleftrightarrow> validate_config (ce_config eng) = Inr () \<and> table_inv (ce_config eng) (ce_flows eng)"

text \<open>The states an engine can be in: created by \<open>new\<close>, then any batches.\<close>

inductive cpu_reachable :: "cpu_packet_engine \<Rightarrow> bool" where
  created: "cpu_packet_engine_new config = Inr eng \<Longrightarrow> cpu_reachable eng"
| batch: "cpu_reachable eng \<Longrightarrow> process_batch_into eng ps = Some (eng', outs, r) \<Longrightarrow> cpu_reachable eng'"

abbreviation after_batch :: "cpu_packet_engine \<Rightarrow> raw_packet list \<Rightarrow> flows \<Rightarrow> cpu_packet_engine" where
  "after_batch eng ps flows' \<equiv> eng\<lparr>ce_dispatches := ce_dispatches eng + 1,
     ce_packets := ce_packets eng + of_nat (length ps), ce_flows := flows'\<rparr>"

lemma batch_simulates:
  assumes "table_inv (ce_config eng) (ce_flows eng)"
  obtains flows' where "process_batch_into eng ps =
      Some (after_batch eng ps flows', snd (spec_batch (ce_config eng) (hm_get (ce_flows eng)) ps), Inr ())"
    "table_inv (ce_config eng) flows'" "hm_get flows' = fst (spec_batch (ce_config eng) (hm_get (ce_flows eng)) ps)"
proof -
  obtain flows' where res: "process_packets (ce_flows eng) (ce_config eng) ps [] =
      Some (flows', [] @ snd (spec_batch (ce_config eng) (hm_get (ce_flows eng)) ps), Inr ())"
    "table_inv (ce_config eng) flows'" "hm_get flows' = fst (spec_batch (ce_config eng) (hm_get (ce_flows eng)) ps)"
    using process_packets_simulates [OF assms, of ps "[]"] by metis
  show thesis by (rule that [of flows']) (simp_all add: process_batch_into_def Let_def res)
qed

lemma new_engine_inv: "cpu_packet_engine_new config = Inr eng \<Longrightarrow> engine_inv eng"
  by (auto simp: cpu_packet_engine_new_def engine_inv_def split: sum.splits)

lemma reachable_inv: "cpu_reachable eng \<Longrightarrow> engine_inv eng"
proof (induction rule: cpu_reachable.induct)
  case (created config eng)
  then show ?case by (rule new_engine_inv)
next
  case (batch eng ps eng' outs r)
  from batch.IH have inv: "table_inv (ce_config eng) (ce_flows eng)" "validate_config (ce_config eng) = Inr ()"
    by (simp_all add: engine_inv_def)
  obtain flows' where run: "process_batch_into eng ps = Some (after_batch eng ps flows',
        snd (spec_batch (ce_config eng) (hm_get (ce_flows eng)) ps), Inr ())"
    and tbl: "table_inv (ce_config eng) flows'"
    by (rule batch_simulates [OF inv(1)])
  have "eng' = after_batch eng ps flows'" using batch.hyps(2) run by simp
  with inv tbl show ?case by (simp add: engine_inv_def)
qed

text \<open>C28: every engine state reachable from \<open>new\<close> by any batches of any packets has a validated
  configuration, a flow table of at most \<open>flow_capacity\<close> distinct connections, all on the listening port,
  and consistent connection records (a half-open connection has sent exactly its initial sequence number,
  and a stored last response ends at the current sequence numbers).\<close>

theorem reachable_engine_inv:
  "cpu_reachable eng \<Longrightarrow> validate_config (ce_config eng) = Inr () \<and> hm_len (ce_flows eng) \<le> flow_capacity (ce_config eng)
     \<and> hm_inv (ce_flows eng) \<and> (\<forall>key f. hm_get (ce_flows eng) key = Some f \<longrightarrow>
          dst_port key = listen_port (ce_config eng) \<and> flow_inv key f)"
  using reachable_inv [of eng] table_inv_get [of "ce_config eng" "ce_flows eng"]
  by (simp add: engine_inv_def) (simp add: table_inv_def)

lemma default_engine_reachable:
  "cpu_reachable \<lparr>ce_config = default_packet_engine_config, ce_flows = [], ce_dispatches = 0, ce_packets = 0\<rparr>"
  by (rule cpu_reachable.created [of default_packet_engine_config])
    (simp add: cpu_packet_engine_new_def default_config_valid)

section \<open>What leaves the engine\<close>

definition reversed :: "flow_key \<Rightarrow> flow_key" where
  "reversed key = \<lparr>src_ip = dst_ip key, dst_ip = src_ip key, src_port = dst_port key, dst_port = src_port key\<rparr>"

definition answer_segment :: "segment \<Rightarrow> bool" where
  "answer_segment g \<longleftrightarrow> length (g_payload g) \<le> 152 \<and> g_flags g AND TCP_ACK \<noteq> 0 \<and> g_flags g AND TCP_RST = 0"

lemma answer_segment_simps:
  "answer_segment \<lparr>g_seq = s, g_ack = a, g_flags = TCP_ACK, g_payload = []\<rparr>"
  "answer_segment \<lparr>g_seq = s, g_ack = a, g_flags = TCP_SYN OR TCP_ACK, g_payload = []\<rparr>"
  "answer_segment \<lparr>g_seq = s, g_ack = a, g_flags = TCP_ACK OR TCP_PSH, g_payload = cpu_response r\<rparr>"
  using cpu_response_bounds(2) [of r]
  by (simp_all add: answer_segment_def TCP_ACK_def TCP_SYN_def TCP_PSH_def TCP_RST_def)

lemma established_step_answer:
  assumes "snd (established_step v f) = Some g"
  shows "answer_segment g"
  using assms
  by (auto simp: established_step_def unexpected_def data_segment_def answer_segment_simps
      split: if_splits option.splits)

lemma conn_step_answer:
  assumes "snd (conn_step r v fo) = Some g"
  shows "answer_segment g"
proof (cases "has_flag v TCP_SYN \<and> \<not> has_flag v TCP_ACK")
  case True
  then show ?thesis using assms
    by (auto simp: conn_step_def answer_segment_simps split: option.splits flow_state.splits if_splits)
next
  case False
  have norst: "\<not> has_flag v TCP_RST" using assms by (auto simp: conn_step_def)
  show ?thesis using assms established_step_answer
    by (cases fo) (auto simp: conn_step_segment [OF norst False] split: option.splits)
qed

definition sound_answer :: "packet_engine_config \<Rightarrow> raw_packet \<Rightarrow> raw_packet \<Rightarrow> bool" where
  "sound_answer config p q \<longleftrightarrow> (\<exists>v w. addressed config p = Some v \<and> parse_ipv4_tcp q = Some (Some w)
     \<and> v_key w = reversed (v_key v) \<and> v_flags w AND TCP_ACK \<noteq> 0 \<and> v_flags w AND TCP_RST = 0
     \<and> validate_ipv4_tcp_checksums q = Some (Inr ()) \<and> length (as_bytes q) \<le> max_response_packet_bytes
     \<and> wf_packet q)"

lemma segment_packet_sound:
  assumes "addressed config p = Some v" "answer_segment g"
  shows "sound_answer config p (segment_packet (v_key v) g)"
proof -
  let ?spec = "reply_spec (v_key v) (g_seq g) (g_ack g) (g_flags g) (g_payload g)"
  have len: "40 + length (s_payload ?spec) \<le> 192"
    using assms(2) by (simp add: answer_segment_def reply_spec_def)
  then have fits: "40 + length (s_payload ?spec) \<le> MAX_RAW_PACKET_BYTES" by (simp add: MAX_RAW_PACKET_BYTES_def)
  have q: "segment_packet (v_key v) g = RawPacket (built ?spec)" by (simp add: segment_packet_def reply_def)
  have "as_bytes (segment_packet (v_key v) g) \<noteq> []" by (simp add: q flip: length_0_conv)
  then have "wf_packet (segment_packet (v_key v) g)" using fits by (simp add: q wf_packet_def)
  then show ?thesis using assms len parse_built [OF fits] validate_built [OF fits]
    by (simp add: q sound_answer_def view_of_spec_def reply_spec_def reversed_def answer_segment_def
        max_response_packet_bytes_value)
qed

lemma spec_packet_sound: "snd (spec_packet config tbl p) = Some q \<Longrightarrow> sound_answer config p q"
  by (auto simp: spec_packet_def split_def intro!: segment_packet_sound conn_step_answer split: option.splits)

lemma spec_batch_sound:
  "i < length ps \<Longrightarrow> snd (spec_batch config tbl ps) ! i = Some q \<Longrightarrow> sound_answer config (ps ! i) q"
proof (induction ps arbitrary: tbl i)
  case Nil
  then show ?case by simp
next
  case (Cons p ps)
  then show ?case by (cases i) (auto simp: Let_def split_def dest: spec_packet_sound)
qed

text \<open>C27: a batch gives one optional answer per packet, in order, and never fails; every answer is a valid
  packet of at most \<open>max_response_packet_bytes\<close> whose IP and TCP checksums verify and which parses as an
  acknowledgement (never a reset) going back to the sender of the packet it answers.\<close>

theorem batch_answers_sound:
  assumes "cpu_reachable eng"
  shows "\<exists>eng' outs. process_batch_into eng ps = Some (eng', outs, Inr ()) \<and> length outs = length ps
    \<and> (\<forall>i q. i < length ps \<longrightarrow> outs ! i = Some q \<longrightarrow> sound_answer (ce_config eng) (ps ! i) q)"
proof -
  have "table_inv (ce_config eng) (ce_flows eng)"
    using reachable_inv [OF assms] by (simp add: engine_inv_def)
  then obtain flows' where "process_batch_into eng ps = Some (after_batch eng ps flows',
      snd (spec_batch (ce_config eng) (hm_get (ce_flows eng)) ps), Inr ())" by (rule batch_simulates)
  then show ?thesis using spec_batch_sound [of _ ps "ce_config eng"] by simp
qed

section \<open>A client session\<close>

text \<open>The packets a client sends: they are built by the code's own builder.\<close>

definition client_packet :: "flow_key \<Rightarrow> u32 \<Rightarrow> u32 \<Rightarrow> u8 \<Rightarrow> bytes \<Rightarrow> raw_packet" where
  "client_packet key seq ack flags payload = RawPacket (built
     \<lparr>s_key = key, s_seq = seq, s_ack = ack, s_flags = flags, s_payload = payload\<rparr>)"

definition client_view :: "flow_key \<Rightarrow> u32 \<Rightarrow> u32 \<Rightarrow> u8 \<Rightarrow> bytes \<Rightarrow> tcp_view" where
  "client_view key seq ack flags payload =
     \<lparr>v_key = key, v_seq = seq, v_ack = ack, v_flags = flags, v_payload = payload\<rparr>"

lemma client_packet_is_built:
  "length payload \<le> 1496 \<Longrightarrow>
     build_ipv4_tcp_packet \<lparr>s_key = key, s_seq = seq, s_ack = ack, s_flags = flags, s_payload = payload\<rparr>
       = Some (Inr (client_packet key seq ack flags payload))"
  by (simp add: build_closed client_packet_def MAX_RAW_PACKET_BYTES_def)

lemma addressed_client:
  assumes "length payload \<le> 1496" "dst_port key = listen_port config"
  shows "addressed config (client_packet key seq ack flags payload) = Some (client_view key seq ack flags payload)"
proof -
  let ?spec = "\<lparr>s_key = key, s_seq = seq, s_ack = ack, s_flags = flags, s_payload = payload\<rparr>"
  have fits: "40 + length (s_payload ?spec) \<le> MAX_RAW_PACKET_BYTES"
    using assms(1) by (simp add: MAX_RAW_PACKET_BYTES_def)
  have "parse_ipv4_tcp (RawPacket (built ?spec)) = Some (Some (client_view key seq ack flags payload))"
    using parse_built [OF fits] by (simp add: view_of_spec_def client_view_def)
  moreover have "v_key (view_at (built ?spec)) = key_at (built ?spec)" by (simp add: view_at_def)
  ultimately show ?thesis using assms(2)
    by (auto simp: addressed_def parse_closed client_packet_def client_view_def split: if_splits)
qed

lemma client_view_simps [simp]:
  "v_key (client_view key seq ack flags payload) = key" "v_seq (client_view key seq ack flags payload) = seq"
  "v_ack (client_view key seq ack flags payload) = ack" "v_flags (client_view key seq ack flags payload) = flags"
  "v_payload (client_view key seq ack flags payload) = payload"
  by (simp_all add: client_view_def)

text \<open>Requests are sent back to back, each with an arbitrary acknowledgement number.\<close>

fun request_packets :: "flow_key \<Rightarrow> u32 \<Rightarrow> (u32 \<times> bytes) list \<Rightarrow> raw_packet list" where
  "request_packets key seq [] = []"
| "request_packets key seq ((ack, payload) # rs) =
     client_packet key seq ack (TCP_ACK OR TCP_PSH) payload # request_packets key (seq + of_nat (length payload)) rs"

text \<open>The answers: the response bytes in order, numbered without gap or overlap.\<close>

definition response_to :: "bytes \<Rightarrow> bytes" where
  "response_to payload = cpu_response (classify_http_request payload)"

fun response_packets :: "flow_key \<Rightarrow> u32 \<Rightarrow> u32 \<Rightarrow> (u32 \<times> bytes) list \<Rightarrow> raw_packet option list" where
  "response_packets key sseq cseq [] = []"
| "response_packets key sseq cseq ((ack, payload) # rs) =
     Some (reply key sseq (cseq + of_nat (length payload)) (TCP_ACK OR TCP_PSH) (response_to payload))
       # response_packets key (sseq + of_nat (length (response_to payload))) (cseq + of_nat (length payload)) rs"

definition bytes_of :: "(u32 \<times> bytes) list \<Rightarrow> nat" where
  "bytes_of rs = sum_list (map (length \<circ> snd) rs)"

definition response_bytes_of :: "(u32 \<times> bytes) list \<Rightarrow> nat" where
  "response_bytes_of rs = sum_list (map (length \<circ> response_to \<circ> snd) rs)"

definition proper_requests :: "(u32 \<times> bytes) list \<Rightarrow> bool" where
  "proper_requests rs \<longleftrightarrow> (\<forall>r\<in>set rs. snd r \<noteq> [] \<and> length (snd r) \<le> 1496)"

definition established_at :: "table \<Rightarrow> flow_key \<Rightarrow> u32 \<Rightarrow> u32 \<Rightarrow> bool" where
  "established_at tbl key cseq sseq \<longleftrightarrow>
     (\<exists>f. tbl key = Some f \<and> fl_state f = Established \<and> recv_next f = cseq \<and> send_next f = sseq)"

lemma flag_tests [simp]:
  "\<not> has_flag (client_view k s a (TCP_ACK OR TCP_PSH) p) TCP_RST"
  "\<not> has_flag (client_view k s a (TCP_ACK OR TCP_PSH) p) TCP_SYN"
  "\<not> has_flag (client_view k s a (TCP_ACK OR TCP_PSH) p) TCP_FIN"
  "has_flag (client_view k s a (TCP_ACK OR TCP_PSH) p) TCP_ACK"
  "\<not> has_flag (client_view k s a TCP_ACK p) TCP_RST" "\<not> has_flag (client_view k s a TCP_ACK p) TCP_SYN"
  "\<not> has_flag (client_view k s a TCP_ACK p) TCP_FIN" "has_flag (client_view k s a TCP_ACK p) TCP_ACK"
  "\<not> has_flag (client_view k s a TCP_SYN p) TCP_RST" "has_flag (client_view k s a TCP_SYN p) TCP_SYN"
  "\<not> has_flag (client_view k s a TCP_SYN p) TCP_ACK"
  "\<not> has_flag (client_view k s a (TCP_FIN OR TCP_ACK) p) TCP_RST"
  "\<not> has_flag (client_view k s a (TCP_FIN OR TCP_ACK) p) TCP_SYN"
  "has_flag (client_view k s a (TCP_FIN OR TCP_ACK) p) TCP_FIN"
  by (simp_all add: has_flag_def TCP_ACK_def TCP_SYN_def TCP_PSH_def TCP_RST_def TCP_FIN_def)

lemma spec_request:
  assumes "established_at tbl key cseq sseq" "payload \<noteq> []" "length payload \<le> 1496"
    "dst_port key = listen_port config"
  obtains f where "spec_packet config tbl (client_packet key cseq ack (TCP_ACK OR TCP_PSH) payload) =
      (tbl(key \<mapsto> f), Some (reply key sseq (cseq + of_nat (length payload)) (TCP_ACK OR TCP_PSH) (response_to payload)))"
    "established_at (tbl(key \<mapsto> f)) key (cseq + of_nat (length payload)) (sseq + of_nat (length (response_to payload)))"
proof -
  let ?v = "client_view key cseq ack (TCP_ACK OR TCP_PSH) payload"
  obtain f where f: "tbl key = Some f" "fl_state f = Established" "recv_next f = cseq" "send_next f = sseq"
    using assms(1) by (auto simp: established_at_def)
  let ?f = "after_data (ack_update ?v f) ?v"
  have step: "conn_step r ?v (Some f) = (Some ?f, Some (data_segment (ack_update ?v f) ?v))" for r
    using f assms(2) by (simp add: conn_step_segment enters_def established_step_def)
  have seg: "data_segment (ack_update ?v f) ?v = \<lparr>g_seq = sseq, g_ack = cseq + of_nat (length payload),
      g_flags = TCP_ACK OR TCP_PSH, g_payload = response_to payload\<rparr>"
    using f by (simp add: data_segment_def response_to_def)
  show thesis
  proof (rule that)
    show "spec_packet config tbl (client_packet key cseq ack (TCP_ACK OR TCP_PSH) payload) =
      (tbl(key \<mapsto> ?f), Some (reply key sseq (cseq + of_nat (length payload)) (TCP_ACK OR TCP_PSH) (response_to payload)))"
      by (simp add: spec_packet_def addressed_client [OF assms(3,4)] f(1) step seg segment_packet_def)
    show "established_at (tbl(key \<mapsto> ?f)) key (cseq + of_nat (length payload)) (sseq + of_nat (length (response_to payload)))"
      using f by (simp add: established_at_def after_data_def seg Let_def)
  qed
qed

lemma spec_requests:
  assumes "established_at tbl key cseq sseq" "proper_requests rs" "dst_port key = listen_port config"
  shows "\<exists>f. spec_batch config tbl (request_packets key cseq rs) = (tbl(key \<mapsto> f), response_packets key sseq cseq rs)
    \<and> established_at (tbl(key \<mapsto> f)) key (cseq + of_nat (bytes_of rs)) (sseq + of_nat (response_bytes_of rs))"
  using assms(1,2)
proof (induction rs arbitrary: tbl cseq sseq)
  case Nil
  then obtain f where "tbl key = Some f" by (auto simp: established_at_def)
  then have "tbl(key \<mapsto> f) = tbl" by auto
  then show ?case using Nil.prems by (intro exI [of _ f]) (simp add: bytes_of_def response_bytes_of_def)
next
  case (Cons r rs)
  obtain ack payload where r: "r = (ack, payload)" by force
  have pl: "payload \<noteq> []" "length payload \<le> 1496" and rs: "proper_requests rs"
    using Cons.prems(2) by (auto simp: proper_requests_def r)
  obtain f where one: "spec_packet config tbl (client_packet key cseq ack (TCP_ACK OR TCP_PSH) payload) =
      (tbl(key \<mapsto> f), Some (reply key sseq (cseq + of_nat (length payload)) (TCP_ACK OR TCP_PSH) (response_to payload)))"
    and est: "established_at (tbl(key \<mapsto> f)) key (cseq + of_nat (length payload)) (sseq + of_nat (length (response_to payload)))"
    by (rule spec_request [OF Cons.prems(1) pl assms(3)])
  from Cons.IH [OF est rs] obtain g where
    rest: "spec_batch config (tbl(key \<mapsto> f)) (request_packets key (cseq + of_nat (length payload)) rs) =
      (tbl(key \<mapsto> f, key \<mapsto> g), response_packets key (sseq + of_nat (length (response_to payload)))
         (cseq + of_nat (length payload)) rs)"
    and fin: "established_at (tbl(key \<mapsto> f, key \<mapsto> g)) key (cseq + of_nat (length payload) + of_nat (bytes_of rs))
       (sseq + of_nat (length (response_to payload)) + of_nat (response_bytes_of rs))" by blast
  have "spec_batch config tbl (request_packets key cseq (r # rs)) =
      (tbl(key \<mapsto> g), response_packets key sseq cseq (r # rs))"
    by (simp only: r request_packets.simps response_packets.simps spec_batch.simps one rest Let_def prod.case fun_upd_upd)
  moreover have "established_at (tbl(key \<mapsto> g)) key (cseq + of_nat (bytes_of (r # rs))) (sseq + of_nat (response_bytes_of (r # rs)))"
    using fin by (simp add: r bytes_of_def response_bytes_of_def add.assoc)
  ultimately show ?case by blast
qed

text \<open>Handshake and close.\<close>

lemma spec_syn:
  assumes "tbl key = None" "card (dom tbl) < flow_capacity config" "dst_port key = listen_port config"
  shows "spec_packet config tbl (client_packet key c a TCP_SYN []) =
    (tbl(key \<mapsto> new_flow (c + 1) (isn key)), Some (reply key (isn key) (c + 1) (TCP_SYN OR TCP_ACK) []))"
  using assms by (simp add: spec_packet_def addressed_client conn_step_def segment_packet_def)

lemma spec_handshake:
  assumes "tbl key = None" "card (dom tbl) < flow_capacity config" "dst_port key = listen_port config"
  obtains f where
    "spec_batch config tbl [client_packet key c a TCP_SYN [], client_packet key (c + 1) (isn key + 1) TCP_ACK []] =
      (tbl(key \<mapsto> f), [Some (reply key (isn key) (c + 1) (TCP_SYN OR TCP_ACK) []), None])"
    "established_at (tbl(key \<mapsto> f)) key (c + 1) (isn key + 1)"
proof -
  let ?n = "new_flow (c + 1) (isn key)"
  let ?v = "client_view key (c + 1) (isn key + 1) TCP_ACK []"
  let ?e = "?n\<lparr>fl_state := Established, send_unacked := isn key + 1\<rparr>"
  note syn = spec_syn [OF assms, of c a]
  have "conn_step r ?v (Some ?n) = (Some ?e, None)" for r
    by (simp add: conn_step_segment enters_def completes_handshake_def established_step_def new_flow_def)
  then have ack: "spec_packet config (tbl(key \<mapsto> ?n)) (client_packet key (c + 1) (isn key + 1) TCP_ACK []) =
      (tbl(key \<mapsto> ?e), None)"
    using assms(3) by (simp add: spec_packet_def addressed_client)
  show thesis
  proof (rule that [of ?e])
    show "established_at (tbl(key \<mapsto> ?e)) key (c + 1) (isn key + 1)"
      by (simp add: established_at_def new_flow_def)
  qed (simp only: spec_batch.simps Let_def syn ack prod.case)
qed

lemma spec_close:
  assumes "established_at tbl key cseq sseq" "dst_port key = listen_port config"
  shows "spec_packet config tbl (client_packet key cseq a (TCP_FIN OR TCP_ACK) []) =
    (tbl(key := None), Some (reply key sseq (cseq + 1) TCP_ACK []))"
proof -
  obtain f where f: "tbl key = Some f" "fl_state f = Established" "recv_next f = cseq" "send_next f = sseq"
    using assms(1) by (auto simp: established_at_def)
  let ?v = "client_view key cseq a (TCP_FIN OR TCP_ACK) []"
  have "conn_step r ?v (Some f) = (None, Some \<lparr>g_seq = sseq, g_ack = cseq + 1, g_flags = TCP_ACK, g_payload = []\<rparr>)" for r
    using f by (simp add: conn_step_segment enters_def established_step_def)
  then show ?thesis using f assms(2) by (simp add: spec_packet_def addressed_client segment_packet_def)
qed

definition session_packets :: "flow_key \<Rightarrow> u32 \<Rightarrow> (u32 \<times> bytes) list \<Rightarrow> u32 \<Rightarrow> raw_packet list" where
  "session_packets key c rs a =
     [client_packet key c 0 TCP_SYN [], client_packet key (c + 1) (isn key + 1) TCP_ACK []]
     @ request_packets key (c + 1) rs
     @ [client_packet key (c + 1 + of_nat (bytes_of rs)) a (TCP_FIN OR TCP_ACK) []]"

definition session_answers :: "flow_key \<Rightarrow> u32 \<Rightarrow> (u32 \<times> bytes) list \<Rightarrow> raw_packet option list" where
  "session_answers key c rs =
     [Some (reply key (isn key) (c + 1) (TCP_SYN OR TCP_ACK) []), None]
     @ response_packets key (isn key + 1) (c + 1) rs
     @ [Some (reply key (isn key + 1 + of_nat (response_bytes_of rs)) (c + 1 + of_nat (bytes_of rs) + 1) TCP_ACK [])]"

lemma spec_session:
  assumes "tbl key = None" "card (dom tbl) < flow_capacity config" "dst_port key = listen_port config"
    "proper_requests rs"
  shows "spec_batch config tbl (session_packets key c rs a) = (tbl, session_answers key c rs)"
proof -
  obtain f where hs: "spec_batch config tbl [client_packet key c 0 TCP_SYN [],
        client_packet key (c + 1) (isn key + 1) TCP_ACK []] =
      (tbl(key \<mapsto> f), [Some (reply key (isn key) (c + 1) (TCP_SYN OR TCP_ACK) []), None])"
    and est: "established_at (tbl(key \<mapsto> f)) key (c + 1) (isn key + 1)"
    by (rule spec_handshake [OF assms(1-3)])
  from spec_requests [OF est assms(4,3)] obtain g where
    ex': "spec_batch config (tbl(key \<mapsto> f)) (request_packets key (c + 1) rs) =
      (tbl(key \<mapsto> f, key \<mapsto> g), response_packets key (isn key + 1) (c + 1) rs)"
    and est'': "established_at (tbl(key \<mapsto> f, key \<mapsto> g)) key (c + 1 + of_nat (bytes_of rs))
       (isn key + 1 + of_nat (response_bytes_of rs))"
    by (elim exE conjE)
  note ex = ex' [unfolded fun_upd_upd] and est' = est'' [unfolded fun_upd_upd]
  have close: "spec_batch config (tbl(key \<mapsto> g))
      [client_packet key (c + 1 + of_nat (bytes_of rs)) a (TCP_FIN OR TCP_ACK) []] =
    (tbl, [Some (reply key (isn key + 1 + of_nat (response_bytes_of rs)) (c + 1 + of_nat (bytes_of rs) + 1) TCP_ACK [])])"
    by (simp only: spec_batch.simps Let_def prod.case spec_close [OF est' assms(3)])
      (simp add: fun_upd_idem assms(1))
  show ?thesis unfolding session_packets_def session_answers_def
    by (simp only: spec_batch_append hs ex Let_def prod.case close)
qed

text \<open>C15: a whole client session in one batch. Three-way handshake, any number of pipelined requests with
  arbitrary acknowledgement numbers, then FIN: the engine answers SYN|ACK, nothing to the final ACK, each
  request with its response and with sequence numbers that continue without gap (modulo \<open>2^32\<close>), and the
  FIN with an ACK; the flow table then holds exactly the connections it held before.\<close>

theorem client_session:
  assumes "table_inv config flows" "hm_get flows key = None" "hm_len flows < flow_capacity config"
    "dst_port key = listen_port config" "proper_requests rs"
  shows "\<exists>flows'. process_packets flows config (session_packets key c rs a) [] =
      Some (flows', session_answers key c rs, Inr ()) \<and> hm_get flows' = hm_get flows"
proof -
  have "card (dom (hm_get flows)) < flow_capacity config"
    using assms(1,3) by (simp add: room_abs [symmetric] room_def)
  from spec_session [of "hm_get flows", OF assms(2) this assms(4,5)]
    process_packets_simulates [OF assms(1), of "session_packets key c rs a" "[]"]
  show ?thesis by auto
qed

text \<open>The connection used by the concrete instances.\<close>

definition sample_key :: flow_key where
  "sample_key = \<lparr>src_ip = 1, dst_ip = 2, src_port = 3, dst_port = 8080\<rparr>"

lemma sample_key_port [simp]: "dst_port sample_key = listen_port default_packet_engine_config"
  by (simp add: sample_key_def default_packet_engine_config_def)

lemma default_capacity [simp]: "flow_capacity default_packet_engine_config = 4096"
  by (simp add: default_packet_engine_config_def DEFAULT_FLOW_CAPACITY_def)

definition sample_open :: raw_packet where
  "sample_open = client_packet sample_key 7 0 TCP_SYN []"

definition sample_opened :: raw_packet where
  "sample_opened = reply sample_key (isn sample_key) 8 (TCP_SYN OR TCP_ACK) []"

lemma spec_sample_open: "spec_packet default_packet_engine_config Map.empty sample_open =
    ([sample_key \<mapsto> new_flow 8 (isn sample_key)], Some sample_opened)"
  using spec_syn [of Map.empty sample_key default_packet_engine_config 7 0] by (simp add: sample_open_def sample_opened_def)

lemma spec_junk: "spec_packet config tbl (RawPacket [0]) = (tbl, None)"
  by (simp add: spec_packet_def addressed_def well_formed_ipv4_tcp_def)

theorem process_packet_refines_witness:
  "\<exists>flows'. process_packet [] default_packet_engine_config sample_open = Some (flows', Inr (Some sample_opened))
    \<and> table_inv default_packet_engine_config flows' \<and> hm_get flows' = [sample_key \<mapsto> new_flow 8 (isn sample_key)]"
  using process_packet_refines [OF table_inv_empty, of default_packet_engine_config sample_open]
  by (simp add: hm_get_Nil [abs_def] spec_sample_open)

lemma sample_batch:
  obtains eng' where "process_batch_into \<lparr>ce_config = default_packet_engine_config, ce_flows = [], ce_dispatches = 0,
      ce_packets = 0\<rparr> [sample_open, RawPacket [0]] = Some (eng', [Some sample_opened, None], Inr ())"
    "hm_get (ce_flows eng') = [sample_key \<mapsto> new_flow 8 (isn sample_key)]" "ce_config eng' = default_packet_engine_config"
proof -
  let ?e = "\<lparr>ce_config = default_packet_engine_config, ce_flows = [], ce_dispatches = 0, ce_packets = 0\<rparr>"
  have "spec_batch default_packet_engine_config (hm_get []) [sample_open, RawPacket [0]] =
      ([sample_key \<mapsto> new_flow 8 (isn sample_key)], [Some sample_opened, None])"
    by (simp add: hm_get_Nil [abs_def] spec_sample_open spec_junk)
  then have run: "spec_batch (ce_config ?e) (hm_get (ce_flows ?e)) [sample_open, RawPacket [0]] =
      ([sample_key \<mapsto> new_flow 8 (isn sample_key)], [Some sample_opened, None])" by simp
  have "table_inv (ce_config ?e) (ce_flows ?e)" by (simp add: table_inv_empty)
  then obtain flows' where flows': "process_batch_into ?e [sample_open, RawPacket [0]] = Some (after_batch ?e [sample_open, RawPacket [0]] flows',
      snd (spec_batch (ce_config ?e) (hm_get (ce_flows ?e)) [sample_open, RawPacket [0]]), Inr ())"
    "hm_get flows' = fst (spec_batch (ce_config ?e) (hm_get (ce_flows ?e)) [sample_open, RawPacket [0]])" by (rule batch_simulates)
  note flows' = flows' [unfolded run fst_conv snd_conv]
  show thesis by (rule that [OF flows'(1)]) (simp_all add: flows'(2))
qed

theorem batch_answers_sound_witness:
  "\<exists>eng'. process_batch_into \<lparr>ce_config = default_packet_engine_config, ce_flows = [], ce_dispatches = 0,
        ce_packets = 0\<rparr> [sample_open, RawPacket [0]] = Some (eng', [Some sample_opened, None], Inr ())
    \<and> sound_answer default_packet_engine_config sample_open sample_opened"
proof -
  obtain eng' where eng': "process_batch_into \<lparr>ce_config = default_packet_engine_config, ce_flows = [], ce_dispatches = 0,
      ce_packets = 0\<rparr> [sample_open, RawPacket [0]] = Some (eng', [Some sample_opened, None], Inr ())" by (rule sample_batch)
  with batch_answers_sound [OF default_engine_reachable, of "[sample_open, RawPacket [0]]"]
  have "\<forall>i q. i < 2 \<longrightarrow> [Some sample_opened, None] ! i = Some q
      \<longrightarrow> sound_answer default_packet_engine_config ([sample_open, RawPacket [0]] ! i) q" by auto
  from spec [OF this, of 0] eng' show ?thesis by auto
qed

theorem reachable_engine_inv_witness:
  "\<exists>eng :: cpu_packet_engine. hm_get (ce_flows eng) = [sample_key \<mapsto> new_flow 8 (isn sample_key)] \<and> hm_len (ce_flows eng) \<le> 4096
    \<and> flow_inv sample_key (new_flow 8 (isn sample_key))"
proof -
  obtain eng where eng: "process_batch_into \<lparr>ce_config = default_packet_engine_config, ce_flows = [], ce_dispatches = 0,
      ce_packets = 0\<rparr> [sample_open, RawPacket [0]] = Some (eng, [Some sample_opened, None], Inr ())"
    "hm_get (ce_flows eng) = [sample_key \<mapsto> new_flow 8 (isn sample_key)]" "ce_config eng = default_packet_engine_config"
    by (rule sample_batch)
  from reachable_engine_inv [OF cpu_reachable.batch [OF default_engine_reachable eng(1)]]
  have "hm_len (ce_flows eng) \<le> 4096" "flow_inv sample_key (new_flow 8 (isn sample_key))" by (simp_all add: eng(2,3))
  with eng(2) show ?thesis by blast
qed

theorem client_session_witness:
  "\<exists>flows'. process_packets [] default_packet_engine_config
     (session_packets sample_key 7 [(0, [71, 69, 84])] 9) [] =
     Some (flows', session_answers sample_key 7 [(0, [71, 69, 84])], Inr ())
   \<and> hm_get flows' = hm_get ([] :: flows)"
  by (rule client_session) (simp_all add: hm_len_def proper_requests_def)

end
