(* ===== verification/CpuTraces.thy ===== *)
theory CpuTraces
  imports CpuSession
begin

text \<open>
  Properties of runs of the CPU packet engine: batches compose, connections do not interfere,
  retransmissions are answered from the stored response, and no response bytes are sent
  before a handshake.
\<close>

section \<open>Batch boundaries\<close>

text \<open>Batching is transparent. Processing \<open>ps @ qs\<close> as one batch or as two consecutive batches gives
  the same answers in the same order and the same flow table; only the dispatch counter differs.\<close>

theorem batch_split:
  assumes "cpu_reachable eng"
  shows "\<exists>eng1 eng2 eng3 outs outs'. process_batch_into eng ps = Some (eng1, outs, Inr ())
    \<and> process_batch_into eng1 qs = Some (eng2, outs', Inr ())
    \<and> process_batch_into eng (ps @ qs) = Some (eng3, outs @ outs', Inr ())
    \<and> hm_get (ce_flows eng3) = hm_get (ce_flows eng2) \<and> ce_config eng3 = ce_config eng2
    \<and> ce_packets eng3 = ce_packets eng2 \<and> ce_dispatches eng2 = ce_dispatches eng3 + 1"
proof -
  let ?c = "ce_config eng"
  have inv: "table_inv ?c (ce_flows eng)" using reachable_inv [OF assms] by (simp add: engine_inv_def)
  obtain f1 where one: "process_batch_into eng ps = Some (after_batch eng ps f1,
      snd (spec_batch ?c (hm_get (ce_flows eng)) ps), Inr ())"
    and inv1: "table_inv ?c f1" and get1: "hm_get f1 = fst (spec_batch ?c (hm_get (ce_flows eng)) ps)"
    by (rule batch_simulates [OF inv])
  let ?e1 = "after_batch eng ps f1"
  have "table_inv (ce_config ?e1) (ce_flows ?e1)" using inv1 by simp
  then obtain f2 where two: "process_batch_into ?e1 qs = Some (after_batch ?e1 qs f2,
      snd (spec_batch (ce_config ?e1) (hm_get (ce_flows ?e1)) qs), Inr ())"
    and get2: "hm_get f2 = fst (spec_batch (ce_config ?e1) (hm_get (ce_flows ?e1)) qs)"
    by (rule batch_simulates)
  obtain f3 where three: "process_batch_into eng (ps @ qs) = Some (after_batch eng (ps @ qs) f3,
      snd (spec_batch ?c (hm_get (ce_flows eng)) (ps @ qs)), Inr ())"
    and get3: "hm_get f3 = fst (spec_batch ?c (hm_get (ce_flows eng)) (ps @ qs))"
    by (rule batch_simulates [OF inv])
  have outs: "snd (spec_batch ?c (hm_get (ce_flows eng)) (ps @ qs)) =
      snd (spec_batch ?c (hm_get (ce_flows eng)) ps) @ snd (spec_batch (ce_config ?e1) (hm_get (ce_flows ?e1)) qs)"
    "hm_get f3 = hm_get f2"
    by (simp_all add: spec_batch_append get1 get2 get3 Let_def split_def)
  show ?thesis
    by (intro exI conjI) (rule one, rule two, rule three [unfolded outs], simp_all add: outs(2))
qed

theorem batch_split_witness:
  "\<exists>eng1 eng2 eng3 outs outs'.
     process_batch_into \<lparr>ce_config = default_packet_engine_config, ce_flows = [], ce_dispatches = 0, ce_packets = 0\<rparr>
       [RawPacket [0]] = Some (eng1, outs, Inr ())
   \<and> process_batch_into eng1 [RawPacket [1]] = Some (eng2, outs', Inr ())
   \<and> process_batch_into \<lparr>ce_config = default_packet_engine_config, ce_flows = [], ce_dispatches = 0, ce_packets = 0\<rparr>
       ([RawPacket [0]] @ [RawPacket [1]]) = Some (eng3, outs @ outs', Inr ())
   \<and> hm_get (ce_flows eng3) = hm_get (ce_flows eng2) \<and> ce_config eng3 = ce_config eng2
   \<and> ce_packets eng3 = ce_packets eng2 \<and> ce_dispatches eng2 = ce_dispatches eng3 + 1"
  by (rule batch_split [OF default_engine_reachable])

section \<open>Connections do not interfere\<close>

definition from_connection :: "packet_engine_config \<Rightarrow> flow_key \<Rightarrow> raw_packet \<Rightarrow> bool" where
  "from_connection config key p \<longleftrightarrow> map_option v_key (addressed config p) = Some key"

definition connections :: "packet_engine_config \<Rightarrow> raw_packet list \<Rightarrow> flow_key set" where
  "connections config ps = set (List.map_filter (\<lambda>p. map_option v_key (addressed config p)) ps)"

lemma connections_Cons: "connections config (p # ps) =
    (case addressed config p of None \<Rightarrow> {} | Some v \<Rightarrow> {v_key v}) \<union> connections config ps"
  by (simp add: connections_def List.map_filter_def split: option.splits)

lemma spec_packet_dom: "dom (fst (spec_packet config tbl p)) \<subseteq> dom tbl \<union> connections config [p]"
  by (auto simp: spec_packet_def connections_Cons split_def split: option.splits if_splits)

definition uncrowded :: "packet_engine_config \<Rightarrow> table \<Rightarrow> raw_packet list \<Rightarrow> bool" where
  "uncrowded config tbl ps \<longleftrightarrow> finite (dom tbl) \<and> card (dom tbl \<union> connections config ps) \<le> flow_capacity config"

lemma finite_connections [simp]: "finite (connections config ps)"
  by (simp add: connections_def)

lemma uncrowded_step:
  assumes "uncrowded config tbl (p # ps)"
  shows "uncrowded config (fst (spec_packet config tbl p)) ps"
proof -
  let ?tbl = "fst (spec_packet config tbl p)"
  have sub: "dom ?tbl \<union> connections config ps \<subseteq> dom tbl \<union> connections config (p # ps)"
    using spec_packet_dom [of config tbl p] by (auto simp: connections_Cons connections_def split: option.splits)
  have fin: "finite (dom tbl \<union> connections config (p # ps))" using assms by (simp add: uncrowded_def)
  have "finite (dom ?tbl)" using finite_subset [OF sub fin] by simp
  moreover have "card (dom ?tbl \<union> connections config ps) \<le> card (dom tbl \<union> connections config (p # ps))"
    by (rule card_mono [OF fin sub])
  ultimately show ?thesis using assms by (simp add: uncrowded_def)
qed

lemma uncrowded_room:
  assumes "uncrowded config tbl (p # ps)" "addressed config p = Some v" "tbl (v_key v) = None"
  shows "card (dom tbl) < flow_capacity config"
proof -
  have "dom tbl \<subset> dom tbl \<union> connections config (p # ps)"
    using assms(2,3) by (auto simp: connections_Cons)
  then have "card (dom tbl) < card (dom tbl \<union> connections config (p # ps))"
    using assms(1) by (intro psubset_card_mono) (simp_all add: uncrowded_def)
  then show ?thesis using assms(1) by (simp add: uncrowded_def)
qed

lemma conn_step_room: "(fo = None \<Longrightarrow> r = r') \<Longrightarrow> conn_step r v fo = conn_step r' v fo"
  by (cases fo) (simp_all add: conn_step_def)

lemma spec_packet_other:
  "\<not> from_connection config key p \<Longrightarrow> fst (spec_packet config tbl p) key = tbl key"
  by (auto simp: spec_packet_def from_connection_def split_def split: option.splits)

lemma spec_packet_same:
  assumes "from_connection config key p" "tbl key = tbl' key" "uncrowded config tbl (p # ps)" "uncrowded config tbl' (p # qs)"
  shows "snd (spec_packet config tbl p) = snd (spec_packet config tbl' p)
    \<and> fst (spec_packet config tbl p) key = fst (spec_packet config tbl' p) key"
proof -
  obtain v where v: "addressed config p = Some v" "v_key v = key" using assms(1) by (auto simp: from_connection_def)
  have "conn_step (card (dom tbl) < flow_capacity config) v (tbl key) =
      conn_step (card (dom tbl') < flow_capacity config) v (tbl' key)"
    unfolding assms(2)
  proof (rule conn_step_room)
    assume "tbl' key = None"
    then show "(card (dom tbl) < flow_capacity config) = (card (dom tbl') < flow_capacity config)"
      using uncrowded_room [OF assms(3) v(1)] uncrowded_room [OF assms(4) v(1)] assms(2) v(2) by simp
  qed
  then show ?thesis using v by (simp add: spec_packet_def split_def)
qed

definition answers_to :: "packet_engine_config \<Rightarrow> flow_key \<Rightarrow> raw_packet list \<Rightarrow> raw_packet option list \<Rightarrow> raw_packet option list" where
  "answers_to config key ps outs = map snd (filter (\<lambda>po. from_connection config key (fst po)) (zip ps outs))"

lemma spec_batch_isolated:
  assumes "tbl key = tbl' key" "uncrowded config tbl ps" "uncrowded config tbl' (filter (from_connection config key) ps)"
  shows "answers_to config key ps (snd (spec_batch config tbl ps)) =
      snd (spec_batch config tbl' (filter (from_connection config key) ps))
    \<and> fst (spec_batch config tbl ps) key = fst (spec_batch config tbl' (filter (from_connection config key) ps)) key"
  using assms
proof (induction ps arbitrary: tbl tbl')
  case Nil
  then show ?case by (simp add: answers_to_def)
next
  case (Cons p ps)
  note un = uncrowded_step [OF Cons.prems(2)]
  show ?case
  proof (cases "from_connection config key p")
    case True
    then have prem3: "uncrowded config tbl' (p # filter (from_connection config key) ps)" using Cons.prems(3) by simp
    note same = spec_packet_same [OF True Cons.prems(1,2) prem3]
    from Cons.IH [OF conjunct2 [OF same] un uncrowded_step [OF prem3]] same True show ?thesis
      by (simp add: answers_to_def Let_def split_def)
  next
    case False
    have "fst (spec_packet config tbl p) key = tbl' key" using spec_packet_other [OF False] Cons.prems(1) by simp
    from Cons.IH [of "fst (spec_packet config tbl p)" tbl', OF this un] Cons.prems(3) False show ?thesis
      by (simp add: answers_to_def Let_def split_def)
  qed
qed

lemma connections_filter: "connections config (filter P ps) \<subseteq> connections config ps"
  by (induction ps) (auto simp: connections_Cons split: option.splits)

lemma uncrowded_filter: "uncrowded config tbl ps \<Longrightarrow> uncrowded config tbl (filter P ps)"
proof -
  assume un: "uncrowded config tbl ps"
  have "card (dom tbl \<union> connections config (filter P ps)) \<le> card (dom tbl \<union> connections config ps)"
    using un connections_filter [of config P ps] by (intro card_mono) (auto simp: uncrowded_def)
  with un show ?thesis by (simp add: uncrowded_def)
qed

text \<open>C22: connections do not interfere. As long as the table has room for every connection of the batch,
  the answers a connection gets, and its state afterwards, are those it would get if the packets of all
  other connections were not in the batch at all, whatever they are (forged, malformed, resets).\<close>

theorem connections_isolated:
  assumes "table_inv config flows" "uncrowded config (hm_get flows) ps"
  shows "\<exists>flows1 outs flows2 outs2. process_packets flows config ps [] = Some (flows1, outs, Inr ())
    \<and> process_packets flows config (filter (from_connection config key) ps) [] = Some (flows2, outs2, Inr ())
    \<and> answers_to config key ps outs = outs2 \<and> hm_get flows1 key = hm_get flows2 key"
proof -
  let ?qs = "filter (from_connection config key) ps"
  obtain flows1 where 1: "process_packets flows config ps [] =
      Some (flows1, [] @ snd (spec_batch config (hm_get flows) ps), Inr ())"
    "hm_get flows1 = fst (spec_batch config (hm_get flows) ps)"
    using process_packets_simulates [OF assms(1)] by metis
  obtain flows2 where 2: "process_packets flows config ?qs [] =
      Some (flows2, [] @ snd (spec_batch config (hm_get flows) ?qs), Inr ())"
    "hm_get flows2 = fst (spec_batch config (hm_get flows) ?qs)"
    using process_packets_simulates [OF assms(1)] by metis
  from spec_batch_isolated [OF refl assms(2) uncrowded_filter [OF assms(2)]] show ?thesis
    using 1 2 by auto
qed

lemma short_packet_not_addressed: "length (as_bytes p) < 40 \<Longrightarrow> addressed config p = None"
  by (auto simp: addressed_def well_formed_ipv4_tcp_def)

text \<open>A connection opens while another one does, and a packet that is none arrives.\<close>

definition other_key :: flow_key where
  "other_key = \<lparr>src_ip = 9, dst_ip = 2, src_port = 3, dst_port = 8080\<rparr>"

definition mixed_batch :: "raw_packet list" where
  "mixed_batch = [client_packet other_key 5 0 TCP_SYN [], sample_open, RawPacket [0]]"

lemma mixed_keys: "other_key \<noteq> sample_key"
  by (simp add: other_key_def sample_key_def)

lemma mixed_addressed:
  "addressed default_packet_engine_config sample_open = Some (client_view sample_key 7 0 TCP_SYN [])"
  "addressed default_packet_engine_config (client_packet other_key 5 0 TCP_SYN []) = Some (client_view other_key 5 0 TCP_SYN [])"
  "addressed default_packet_engine_config (RawPacket [0]) = None"
  by (simp_all add: sample_open_def addressed_client short_packet_not_addressed)
    (simp add: addressed_client other_key_def default_packet_engine_config_def)

theorem connections_isolated_witness:
  "\<exists>flows1 outs flows2. process_packets [] default_packet_engine_config mixed_batch [] = Some (flows1, outs, Inr ())
   \<and> process_packets [] default_packet_engine_config [sample_open] [] = Some (flows2, [Some sample_opened], Inr ())
   \<and> answers_to default_packet_engine_config sample_key mixed_batch outs = [Some sample_opened]
   \<and> hm_get flows1 sample_key = hm_get flows2 sample_key"
proof -
  have "uncrowded default_packet_engine_config (hm_get []) mixed_batch"
    by (simp add: uncrowded_def mixed_batch_def connections_Cons mixed_addressed hm_get_Nil [abs_def])
      (simp add: connections_def List.map_filter_def card_insert_if)
  from connections_isolated [OF table_inv_empty this, of sample_key]
  obtain flows1 outs flows2 outs2 where iso: "process_packets [] default_packet_engine_config mixed_batch [] = Some (flows1, outs, Inr ())"
    "process_packets [] default_packet_engine_config (filter (from_connection default_packet_engine_config sample_key) mixed_batch) []
       = Some (flows2, outs2, Inr ())"
    "answers_to default_packet_engine_config sample_key mixed_batch outs = outs2" "hm_get flows1 sample_key = hm_get flows2 sample_key"
    by blast
  have only: "filter (from_connection default_packet_engine_config sample_key) mixed_batch = [sample_open]"
    using mixed_keys by (simp add: mixed_batch_def from_connection_def mixed_addressed)
  have "snd (spec_batch default_packet_engine_config (hm_get []) [sample_open]) = [Some sample_opened]"
    by (simp add: hm_get_Nil [abs_def] spec_sample_open)
  with process_packets_simulates [OF table_inv_empty, of default_packet_engine_config "[sample_open]" "[]"] iso(2)
  have "outs2 = [Some sample_opened]" by (auto simp: only)
  with iso only show ?thesis by auto
qed

section \<open>Retransmission\<close>

lemma duplicate_step:
  assumes "last_resp f = Some l" "fl_state f = Established" "duplicate_of v l" "v_seq v \<noteq> recv_next f"
    "\<not> has_flag v TCP_RST" "\<not> (has_flag v TCP_SYN \<and> \<not> has_flag v TCP_ACK)"
  shows "conn_step r v (Some f) = (Some (ack_update v f), Some \<lparr>g_seq = response_seq l, g_ack = response_ack l,
    g_flags = TCP_ACK OR TCP_PSH, g_payload = cpu_response (response_id l)\<rparr>)"
  using assms(1-4) by (simp add: conn_step_segment [OF assms(5,6)] enters_def established_step_def unexpected_def)

lemma spec_duplicates:
  assumes "tbl key = Some f" "last_resp f = Some l" "fl_state f = Established"
    "seq = client_seq l" "length payload = client_len l" "seq \<noteq> recv_next f"
    "length payload \<le> 1496" "dst_port key = listen_port config"
  shows "\<exists>f'. spec_batch config tbl (replicate n (client_packet key seq ack (TCP_ACK OR TCP_PSH) payload)) =
      (tbl(key \<mapsto> f'), replicate n (Some (reply key (response_seq l) (response_ack l) (TCP_ACK OR TCP_PSH)
        (cpu_response (response_id l)))))
    \<and> f' = f\<lparr>send_unacked := send_unacked f'\<rparr>"
  using assms(1-3,6)
proof (induction n arbitrary: tbl f)
  case 0
  then have "tbl(key \<mapsto> f) = tbl" by auto
  then show ?case by (intro exI [of _ f]) simp
next
  case (Suc n)
  let ?v = "client_view key seq ack (TCP_ACK OR TCP_PSH) payload"
  let ?p = "client_packet key seq ack (TCP_ACK OR TCP_PSH) payload"
  let ?f = "ack_update ?v f"
  let ?out = "reply key (response_seq l) (response_ack l) (TCP_ACK OR TCP_PSH) (cpu_response (response_id l))"
  have "conn_step r ?v (Some f) = (Some ?f, Some \<lparr>g_seq = response_seq l, g_ack = response_ack l,
      g_flags = TCP_ACK OR TCP_PSH, g_payload = cpu_response (response_id l)\<rparr>)" for r
    using Suc.prems assms(4,5) by (intro duplicate_step) (simp_all add: duplicate_of_def)
  then have one: "spec_packet config tbl ?p = (tbl(key \<mapsto> ?f), Some ?out)"
    by (simp add: spec_packet_def addressed_client [OF assms(7,8)] Suc.prems(1) segment_packet_def)
  have "\<exists>f'. spec_batch config (tbl(key \<mapsto> ?f)) (replicate n ?p) =
      (tbl(key \<mapsto> ?f, key \<mapsto> f'), replicate n (Some ?out)) \<and> f' = ?f\<lparr>send_unacked := send_unacked f'\<rparr>"
    using Suc.prems by (intro Suc.IH) simp_all
  then obtain f' where rest: "spec_batch config (tbl(key \<mapsto> ?f)) (replicate n ?p) =
      (tbl(key \<mapsto> ?f, key \<mapsto> f'), replicate n (Some ?out))" and f': "f' = ?f\<lparr>send_unacked := send_unacked f'\<rparr>"
    by (elim exE conjE)
  have "spec_batch config tbl (replicate (Suc n) ?p) = (tbl(key \<mapsto> f'), replicate (Suc n) (Some ?out))"
    by (simp only: replicate.simps spec_batch.simps one rest Let_def prod.case fun_upd_upd)
  moreover have "f' = f\<lparr>send_unacked := send_unacked f'\<rparr>" by (subst f') (simp add: ack_update_def)
  ultimately show ?case by blast
qed

lemma spec_retransmission:
  assumes "established_at tbl key cseq sseq" "payload \<noteq> []" "length payload \<le> 1496"
    "dst_port key = listen_port config"
  shows "\<exists>f. spec_batch config tbl (replicate (Suc n) (client_packet key cseq ack (TCP_ACK OR TCP_PSH) payload)) =
      (tbl(key \<mapsto> f), replicate (Suc n) (Some (reply key sseq (cseq + of_nat (length payload))
         (TCP_ACK OR TCP_PSH) (response_to payload))))
    \<and> fl_state f = Established \<and> recv_next f = cseq + of_nat (length payload)
    \<and> send_next f = sseq + of_nat (length (response_to payload))"
proof -
  let ?p = "client_packet key cseq ack (TCP_ACK OR TCP_PSH) payload"
  let ?v = "client_view key cseq ack (TCP_ACK OR TCP_PSH) payload"
  let ?out = "reply key sseq (cseq + of_nat (length payload)) (TCP_ACK OR TCP_PSH) (response_to payload)"
  obtain f where f: "tbl key = Some f" "fl_state f = Established" "recv_next f = cseq" "send_next f = sseq"
    using assms(1) by (auto simp: established_at_def)
  let ?f = "after_data (ack_update ?v f) ?v"
  have step: "conn_step r ?v (Some f) = (Some ?f, Some (data_segment (ack_update ?v f) ?v))" for r
    using f assms(2) by (simp add: conn_step_segment enters_def established_step_def)
  have seg: "data_segment (ack_update ?v f) ?v = \<lparr>g_seq = sseq, g_ack = cseq + of_nat (length payload),
      g_flags = TCP_ACK OR TCP_PSH, g_payload = response_to payload\<rparr>"
    using f by (simp add: data_segment_def response_to_def)
  have one: "spec_packet config tbl ?p = (tbl(key \<mapsto> ?f), Some ?out)"
    by (simp add: spec_packet_def addressed_client [OF assms(3,4)] f(1) step seg segment_packet_def)
  have fields: "fl_state ?f = Established" "recv_next ?f = cseq + of_nat (length payload)"
    "send_next ?f = sseq + of_nat (length (response_to payload))"
    "last_resp ?f = Some \<lparr>client_seq = cseq, client_len = length payload, response_seq = sseq,
       response_ack = cseq + of_nat (length payload), response_id = classify_http_request payload\<rparr>"
    using f by (simp_all add: after_data_def seg Let_def)
  have "unat (of_nat (length payload) :: u32) = length payload" using assms(3) by (intro unat_of_nat_small32) simp
  then have "(of_nat (length payload) :: u32) \<noteq> 0" using assms(2) by (metis length_0_conv unat_0)
  then have moved: "cseq \<noteq> recv_next ?f" by (simp add: fields)
  have "\<exists>f'. spec_batch config (tbl(key \<mapsto> ?f)) (replicate n ?p) =
      (tbl(key \<mapsto> ?f, key \<mapsto> f'), replicate n (Some ?out)) \<and> f' = ?f\<lparr>send_unacked := send_unacked f'\<rparr>"
    using spec_duplicates [of "tbl(key \<mapsto> ?f)" key ?f _ cseq payload config n ack, OF _ fields(4) fields(1) _ _ moved assms(3,4)]
    by (simp add: response_to_def)
  then obtain f' where rest: "spec_batch config (tbl(key \<mapsto> ?f)) (replicate n ?p) =
      (tbl(key \<mapsto> ?f, key \<mapsto> f'), replicate n (Some ?out))" and f': "f' = ?f\<lparr>send_unacked := send_unacked f'\<rparr>"
    by (elim exE conjE)
  have "spec_batch config tbl (replicate (Suc n) ?p) = (tbl(key \<mapsto> f'), replicate (Suc n) (Some ?out))"
    by (simp only: replicate.simps spec_batch.simps one rest Let_def prod.case fun_upd_upd)
  moreover have "fl_state f' = fl_state ?f" "recv_next f' = recv_next ?f" "send_next f' = send_next ?f"
    by (subst f', simp)+
  ultimately show ?thesis using fields by auto
qed

text \<open>C30: a client that sends the same request \<open>n + 1\<close> times on an established connection gets the
  identical response packet \<open>n + 1\<close> times, while the connection advances by one request and one response
  only; every other connection is left alone.\<close>

theorem retransmission_idempotent:
  assumes "table_inv config flows" "established_at (hm_get flows) key cseq sseq" "payload \<noteq> []"
    "length payload \<le> 1496" "dst_port key = listen_port config"
  shows "\<exists>flows' q. process_packets flows config
        (replicate (Suc n) (client_packet key cseq ack (TCP_ACK OR TCP_PSH) payload)) [] =
      Some (flows', replicate (Suc n) (Some q), Inr ())
    \<and> q = reply key sseq (cseq + of_nat (length payload)) (TCP_ACK OR TCP_PSH) (response_to payload)
    \<and> established_at (hm_get flows') key (cseq + of_nat (length payload)) (sseq + of_nat (length (response_to payload)))
    \<and> (\<forall>other. other \<noteq> key \<longrightarrow> hm_get flows' other = hm_get flows other)"
proof -
  let ?ps = "replicate (Suc n) (client_packet key cseq ack (TCP_ACK OR TCP_PSH) payload)"
  obtain f where f: "spec_batch config (hm_get flows) ?ps =
      ((hm_get flows)(key \<mapsto> f), replicate (Suc n) (Some (reply key sseq (cseq + of_nat (length payload))
         (TCP_ACK OR TCP_PSH) (response_to payload))))"
    "fl_state f = Established" "recv_next f = cseq + of_nat (length payload)"
    "send_next f = sseq + of_nat (length (response_to payload))"
    using spec_retransmission [OF assms(2-5)] by blast
  obtain flows' where "process_packets flows config ?ps [] =
      Some (flows', [] @ snd (spec_batch config (hm_get flows) ?ps), Inr ())"
    "hm_get flows' = fst (spec_batch config (hm_get flows) ?ps)"
    using process_packets_simulates [OF assms(1)] by metis
  then show ?thesis using f
    by (intro exI [of _ flows'] exI conjI refl) (simp_all add: established_at_def del: replicate.simps)
qed

definition sample_flows :: flows where
  "sample_flows = [(sample_key, \<lparr>fl_state = Established, recv_next = 10, send_next = 20, send_unacked = 20,
     last_resp = None\<rparr>)]"

lemma sample_flows_inv: "table_inv default_packet_engine_config sample_flows"
  by (simp add: table_inv_def sample_flows_def hm_inv_def hm_len_def hm.all_entries_def hm_get_def flow_inv_def)

lemma sample_flows_established: "established_at (hm_get sample_flows) sample_key 10 20"
  by (simp add: established_at_def sample_flows_def hm_get_def)

theorem retransmission_idempotent_witness:
  "\<exists>flows' q. process_packets sample_flows default_packet_engine_config
       (replicate (Suc 2) (client_packet sample_key 10 20 (TCP_ACK OR TCP_PSH) [71, 69, 84])) [] =
      Some (flows', replicate (Suc 2) (Some q), Inr ())
    \<and> q = reply sample_key 20 (10 + of_nat (length [71 :: u8, 69, 84])) (TCP_ACK OR TCP_PSH) (response_to [71, 69, 84])
    \<and> established_at (hm_get flows') sample_key (10 + of_nat (length [71 :: u8, 69, 84]))
        (20 + of_nat (length (response_to [71, 69, 84])))
    \<and> (\<forall>other. other \<noteq> sample_key \<longrightarrow> hm_get flows' other = hm_get sample_flows other)"
  by (rule retransmission_idempotent [OF sample_flows_inv sample_flows_established]) simp_all

section \<open>Responses need a handshake\<close>

definition syn_seen :: "packet_engine_config \<Rightarrow> raw_packet list \<Rightarrow> flow_key \<Rightarrow> bool" where
  "syn_seen config hist key \<longleftrightarrow> (\<exists>p\<in>set hist. \<exists>v. addressed config p = Some v \<and> v_key v = key
     \<and> has_flag v TCP_SYN \<and> \<not> has_flag v TCP_ACK)"

definition ack_seen :: "packet_engine_config \<Rightarrow> raw_packet list \<Rightarrow> flow_key \<Rightarrow> bool" where
  "ack_seen config hist key \<longleftrightarrow> (\<exists>p\<in>set hist. \<exists>v. addressed config p = Some v \<and> v_key v = key
     \<and> has_flag v TCP_ACK \<and> v_ack v = isn key + 1)"

definition justified :: "packet_engine_config \<Rightarrow> raw_packet list \<Rightarrow> table \<Rightarrow> bool" where
  "justified config hist tbl \<longleftrightarrow> (\<forall>key f. tbl key = Some f \<longrightarrow> flow_inv key f \<and> syn_seen config hist key
     \<and> (fl_state f = Established \<longrightarrow> ack_seen config hist key))"

lemma seen_mono:
  "syn_seen config hist key \<Longrightarrow> syn_seen config (hist @ [p]) key"
  "ack_seen config hist key \<Longrightarrow> ack_seen config (hist @ [p]) key"
  by (auto simp: syn_seen_def ack_seen_def)

lemma established_step_state:
  "fst (established_step v e) = Some f' \<Longrightarrow> fl_state e = Established \<Longrightarrow> fl_state f' = Established"
  by (auto simp: established_step_def after_data_def Let_def split: if_splits)

lemma enters_acked:
  assumes "enters v f = Some e" "flow_inv (v_key v) f"
  shows "fl_state f = Established \<or> (has_flag v TCP_ACK \<and> v_ack v = isn (v_key v) + 1)"
  using assms by (auto simp: enters_def completes_handshake_def flow_inv_def split: flow_state.splits if_splits)

lemma justified_step:
  assumes "justified config hist tbl"
  shows "justified config (hist @ [p]) (fst (spec_packet config tbl p))"
proof (cases "addressed config p")
  case None
  then show ?thesis using assms seen_mono by (simp add: spec_packet_def justified_def)
next
  case (Some v)
  let ?r = "card (dom tbl) < flow_capacity config"
  let ?k = "v_key v"
  have old: "flow_inv ?k f \<and> syn_seen config hist ?k \<and> (fl_state f = Established \<longrightarrow> ack_seen config hist ?k)"
    if "tbl ?k = Some f" for f using assms that by (simp add: justified_def)
  have here: "has_flag v TCP_SYN \<Longrightarrow> \<not> has_flag v TCP_ACK \<Longrightarrow> syn_seen config (hist @ [p]) ?k"
    "has_flag v TCP_ACK \<Longrightarrow> v_ack v = isn ?k + 1 \<Longrightarrow> ack_seen config (hist @ [p]) ?k"
    using Some by (auto simp: syn_seen_def ack_seen_def)
  have new: "flow_inv ?k f' \<and> syn_seen config (hist @ [p]) ?k \<and> (fl_state f' = Established \<longrightarrow> ack_seen config (hist @ [p]) ?k)"
    if step: "fst (conn_step ?r v (tbl ?k)) = Some f'" for f'
  proof (cases "has_flag v TCP_SYN \<and> \<not> has_flag v TCP_ACK")
    case True
    have norst: "\<not> has_flag v TCP_RST" using step by (auto simp: conn_step_def)
    have "fl_state f' = SynReceived \<or> tbl ?k = Some f'"
      using step True norst by (auto simp: conn_step_def new_flow_def split: option.splits flow_state.splits if_splits)
    then show ?thesis using conn_step_inv [OF _ step] old here(1) True seen_mono by auto
  next
    case False
    have norst: "\<not> has_flag v TCP_RST" using step by (auto simp: conn_step_def)
    note seg = conn_step_segment [OF norst False]
    obtain f where f: "tbl ?k = Some f" using step by (cases "tbl ?k") (auto simp: seg)
    note o = old [OF f]
    have "fl_state f' = Established \<longrightarrow> ack_seen config (hist @ [p]) ?k"
      using step enters_acked [of v f] o here(2) seen_mono(2)
      by (cases "enters v f") (auto simp: f seg)
    then show ?thesis using conn_step_inv [OF _ step] o seen_mono(1) f by auto
  qed
  show ?thesis using assms seen_mono new
    by (auto simp: justified_def spec_packet_def Some split_def split: if_splits)
qed

lemma justified_batch: "justified config hist tbl \<Longrightarrow> justified config (hist @ ps) (fst (spec_batch config tbl ps))"
proof (induction ps arbitrary: hist tbl)
  case Nil
  then show ?case by simp
next
  case (Cons p ps)
  from Cons.IH [OF justified_step [OF Cons.prems, of p]] show ?case by (simp add: Let_def split_def)
qed

text \<open>An answer with response bytes.\<close>

lemma data_answer:
  assumes "justified config hist tbl" "addressed config p = Some v"
    "snd (conn_step r v (tbl (v_key v))) = Some g" "g_payload g \<noteq> []"
  shows "syn_seen config hist (v_key v) \<and> ack_seen config (hist @ [p]) (v_key v)"
proof -
  have norst: "\<not> has_flag v TCP_RST" using assms(3) by (auto simp: conn_step_def)
  have nosyn: "\<not> (has_flag v TCP_SYN \<and> \<not> has_flag v TCP_ACK)"
    using assms(3,4) norst by (auto simp: conn_step_def split: option.splits flow_state.splits if_splits)
  note seg = conn_step_segment [OF norst nosyn]
  obtain f where f: "tbl (v_key v) = Some f" using assms(3) by (cases "tbl (v_key v)") (auto simp: seg)
  obtain e where e: "enters v f = Some e" using assms(3) by (cases "enters v f") (auto simp: f seg)
  have o: "flow_inv (v_key v) f" "syn_seen config hist (v_key v)"
    "fl_state f = Established \<longrightarrow> ack_seen config hist (v_key v)"
    using assms(1) f by (simp_all add: justified_def)
  have "has_flag v TCP_ACK \<Longrightarrow> v_ack v = isn (v_key v) + 1 \<Longrightarrow> ack_seen config (hist @ [p]) (v_key v)"
    using assms(2) by (auto simp: ack_seen_def)
  then show ?thesis using enters_acked [OF e o(1)] o seen_mono(2) by auto
qed

text \<open>C21: no response bytes without a handshake. In a run from the empty table, an answer that carries
  payload goes to a connection that sent a SYN earlier and, at the latest with the answered packet, an
  acknowledgement of the server's initial sequence number; a sender that never saw the SYN|ACK gets none.\<close>

theorem response_needs_handshake:
  assumes "process_packets [] config ps [] = Some (flows', outs, r)" "i < length ps" "outs ! i = Some q"
    "parse_ipv4_tcp q = Some (Some w)" "v_payload w \<noteq> []"
  shows "\<exists>v. addressed config (ps ! i) = Some v \<and> v_key w = reversed (v_key v)
    \<and> syn_seen config (take i ps) (v_key v) \<and> ack_seen config (take (Suc i) ps) (v_key v)"
proof -
  have outs: "outs = snd (spec_batch config Map.empty ps)"
    using process_packets_simulates [OF table_inv_empty, of config ps "[]"] assms(1) by (auto simp: hm_get_Nil [abs_def])
  let ?tbl = "fst (spec_batch config Map.empty (take i ps))"
  have "spec_batch config Map.empty ps = spec_batch config Map.empty (take i ps @ ps ! i # drop (Suc i) ps)"
    using assms(2) by (simp add: id_take_nth_drop [symmetric])
  then have "outs ! i = snd (spec_packet config ?tbl (ps ! i))"
    using assms(2) by (simp add: outs spec_batch_append Let_def split_def nth_append)
  then have sp: "snd (spec_packet config ?tbl (ps ! i)) = Some q" using assms(3) by simp
  then obtain v g where v: "addressed config (ps ! i) = Some v"
    and g: "snd (conn_step (card (dom ?tbl) < flow_capacity config) v (?tbl (v_key v))) = Some g"
    and q: "q = segment_packet (v_key v) g"
    by (auto simp: spec_packet_def split_def split: option.splits)
  let ?spec = "reply_spec (v_key v) (g_seq g) (g_ack g) (g_flags g) (g_payload g)"
  have "40 + length (s_payload ?spec) \<le> MAX_RAW_PACKET_BYTES"
    using conn_step_answer [OF g] by (simp add: answer_segment_def reply_spec_def MAX_RAW_PACKET_BYTES_def)
  from parse_built [OF this] have w: "w = view_of_spec ?spec"
    using assms(4) by (simp add: q segment_packet_def reply_def)
  then have "g_payload g \<noteq> []" using assms(5) by (simp add: view_of_spec_def reply_spec_def)
  moreover have "justified config ([] @ take i ps) ?tbl"
    by (rule justified_batch) (simp add: justified_def)
  ultimately have "syn_seen config (take i ps) (v_key v) \<and> ack_seen config (take i ps @ [ps ! i]) (v_key v)"
    using data_answer [of config "take i ps" ?tbl, OF _ v g] by simp
  then show ?thesis using v assms(2)
    by (simp add: w view_of_spec_def reply_spec_def reversed_def take_Suc_conv_app_nth)
qed

lemma reversed_inject [simp]: "reversed a = reversed b \<longleftrightarrow> a = b"
  by (cases a; cases b) (auto simp: reversed_def)

definition sample_run :: "raw_packet list" where
  "sample_run = session_packets sample_key 7 [(0, [71, 69, 84])] 9"

lemma sample_run_answers:
  "\<exists>flows'. process_packets [] default_packet_engine_config sample_run [] =
     Some (flows', session_answers sample_key 7 [(0, [71, 69, 84])], Inr ())"
proof -
  have "spec_batch default_packet_engine_config Map.empty sample_run =
      (Map.empty, session_answers sample_key 7 [(0, [71, 69, 84])])"
    unfolding sample_run_def by (rule spec_session) (simp_all add: proper_requests_def)
  then show ?thesis
    using process_packets_simulates [OF table_inv_empty, of default_packet_engine_config sample_run "[]"]
    by (auto simp: hm_get_Nil [abs_def])
qed

theorem response_needs_handshake_witness:
  "syn_seen default_packet_engine_config (take 2 sample_run) sample_key
     \<and> ack_seen default_packet_engine_config (take (Suc 2) sample_run) sample_key"
proof -
  let ?spec = "reply_spec sample_key (isn sample_key + 1) (7 + 1 + of_nat (length [71 :: u8, 69, 84]))
      (TCP_ACK OR TCP_PSH) (response_to [71, 69, 84])"
  obtain flows' where run: "process_packets [] default_packet_engine_config sample_run [] =
      Some (flows', session_answers sample_key 7 [(0, [71, 69, 84])], Inr ())" using sample_run_answers by blast
  have len: "2 < length sample_run" by (simp add: sample_run_def session_packets_def)
  have out: "session_answers sample_key 7 [(0, [71, 69, 84])] ! 2 = Some (RawPacket (built ?spec))"
    by (simp add: session_answers_def reply_def)
  have pl: "0 < length (response_to [71, 69, 84])" "length (response_to [71, 69, 84]) \<le> 152"
    using cpu_response_bounds by (simp_all add: response_to_def)
  have "parse_ipv4_tcp (RawPacket (built ?spec)) = Some (Some (view_of_spec ?spec))"
    using pl by (intro parse_built) (simp add: reply_spec_def MAX_RAW_PACKET_BYTES_def)
  moreover have "v_payload (view_of_spec ?spec) \<noteq> []" using pl by (auto simp: view_of_spec_def reply_spec_def)
  moreover have "v_key (view_of_spec ?spec) = reversed sample_key"
    by (simp add: view_of_spec_def reply_spec_def reversed_def)
  ultimately show ?thesis using response_needs_handshake [OF run len out] by auto
qed

end
