(* ===== verification/GpuCpu.thy ===== *)
theory GpuCpu
  imports PacketCreate CpuTraces
begin

text \<open>
  The GPU packet engine as a whole, and against the CPU engine. \<open>gpu_batch_sequential\<close>: from its creation
  on, the engine's waves, buffers, shader invocations and slots together are the plain sequential run of
  \<open>gpu_flow_step\<close> over all packets. \<open>gpu_matches_cpu\<close>: on ordinary traffic the two engines
  give the same answers, but for the name of the backend. \<open>engines_diverge\<close>: where they differ.
\<close>

section \<open>Batch after batch\<close>

fun gpu_batches :: "'g gpu_device \<Rightarrow> 'g gpu_packet_engine \<Rightarrow> raw_packet list list \<Rightarrow> ('g gpu_packet_engine \<times> raw_packet option list) option" where
  "gpu_batches dev eng [] = Some (eng, [])"
| "gpu_batches dev eng (pkts # rest) = do {
     (eng, outs, r) \<leftarrow> gpu_process_batch_into dev eng pkts [];
     case r of Inl e \<Rightarrow> None
     | Inr _ \<Rightarrow> do {
         (eng, more_outs) \<leftarrow> gpu_batches dev eng rest;
         Some (eng, outs @ more_outs) } }"

definition servable :: "packet_engine_config \<Rightarrow> flow_key set \<Rightarrow> raw_packet list \<Rightarrow> bool" where
  "servable config K pkts \<longleftrightarrow> (\<forall>p\<in>set pkts. wf_packet p \<and> served config K p) \<and> length pkts \<le> FS_LIMIT"

lemma gpu_batch_serves:
  assumes "packet_engine_ready config K eng" "servable config K pkts"
  obtains eng' where "gpu_process_batch_into packet_gpu_device eng pkts out =
      Some (eng', snd (run_seq (gpu_flow_step config) (connections_of (ge_device_state eng)) pkts), Inr ())"
    "connections_of (ge_device_state eng') = fst (run_seq (gpu_flow_step config) (connections_of (ge_device_state eng)) pkts)"
    "packet_engine_ready config K eng'" "ge_packets eng' = ge_packets eng + of_nat (length pkts)"
proof -
  have "\<forall>p\<in>set pkts. wf_packet p \<and> served config K p" "length pkts \<le> FS_LIMIT" using assms(2) by (simp_all add: servable_def)
  from shader.gpu_batch_run [OF assms(1) this, of out] show thesis by (elim exE conjE) (rule that)
qed

lemma gpu_batches_serve:
  assumes "packet_engine_ready config K eng" "\<forall>pkts\<in>set bs. servable config K pkts"
  shows "\<exists>eng'. gpu_batches packet_gpu_device eng bs =
      Some (eng', snd (run_seq (gpu_flow_step config) (connections_of (ge_device_state eng)) (concat bs)))
    \<and> connections_of (ge_device_state eng') = fst (run_seq (gpu_flow_step config) (connections_of (ge_device_state eng)) (concat bs))
    \<and> packet_engine_ready config K eng' \<and> ge_packets eng' = ge_packets eng + of_nat (length (concat bs))"
  using assms
proof (induction bs arbitrary: eng)
  case Nil
  then show ?case by simp
next
  case (Cons pkts bs)
  have now: "servable config K pkts" and rest: "\<forall>pkts\<in>set bs. servable config K pkts" using Cons.prems(2) by simp_all
  obtain eng1 where eng1: "gpu_process_batch_into packet_gpu_device eng pkts [] =
      Some (eng1, snd (run_seq (gpu_flow_step config) (connections_of (ge_device_state eng)) pkts), Inr ())"
    "connections_of (ge_device_state eng1) = fst (run_seq (gpu_flow_step config) (connections_of (ge_device_state eng)) pkts)"
    "packet_engine_ready config K eng1" "ge_packets eng1 = ge_packets eng + of_nat (length pkts)"
    by (rule gpu_batch_serves [OF Cons.prems(1) now])
  from Cons.IH [OF eng1(3) rest] show ?case by (auto simp: eng1(1,2,4) run_seq_append add.assoc)
qed

text \<open>C4: on a capable adapter and for a configuration with room (\<open>room_for\<close>: the configuration is valid,
  1536 bytes per packet of a batch and 64 bytes per slot of the table are within the binding limit of 128 MiB,
  and every connection of a set \<open>K\<close> finds a slot within the probe limit even when all of \<open>K\<close> are open) a GPU
  packet engine is created. If every wave completes, then on any batches of well-formed packets whose
  addressed connections are all in \<open>K\<close> and which are no longer than the flow set holds (\<open>servable\<close>), no batch
  fails or panics, and the answers to all batches are, in packet order, those of the plain sequential run of
  the connection semantics over all packets, whatever the order of the shader's invocations.\<close>

theorem gpu_batch_sequential:
  assumes "room_for config K" "capable ad" "\<forall>w. wave_completes (events w)" "\<forall>pkts\<in>set bs. servable config K pkts"
  shows "\<exists>eng eng'. gpu_packet_engine_new shader_body (Some ad) events config = ok eng
    \<and> gpu_batches packet_gpu_device eng bs = Some (eng', snd (run_seq (gpu_flow_step config) Map.empty (concat bs)))
    \<and> connections_of (ge_device_state eng') = fst (run_seq (gpu_flow_step config) Map.empty (concat bs))
    \<and> ge_packets eng' = of_nat (length (concat bs))"
proof -
  obtain eng where eng: "gpu_packet_engine_new shader_body (Some ad) events config = ok eng" "packet_engine_ready config K eng"
    "connections_of (ge_device_state eng) = Map.empty" "ge_packets eng = 0" using creation_ready [OF assms(1-3)] by blast
  then show ?thesis using gpu_batches_serve [OF eng(2) assms(4)] by auto
qed

definition sample_adapter :: wgpu_adapter where
  "sample_adapter = \<lparr>ad_integrated = False, ad_mappable_primary_buffers = False, ad_compute_shaders = True,
     ad_device_granted = True, ad_max_binding = MAX_STORAGE_BINDING, ad_max_buffer = MAX_BUFFER\<rparr>"

definition sample_wave :: wave_events where
  "sample_wave = \<lparr>we_order = (\<lambda>n. rev [0..<n]), we_poll_ok = True, we_callback = Mapped, we_range = True\<rparr>"

lemma sample_wave_completes [simp]: "wave_completes sample_wave"
  by (auto simp: wave_completes_def runs_all_def sample_wave_def)

lemma sample_capable [simp]: "capable sample_adapter"
  by (simp add: capable_def sample_adapter_def)

lemma default_batch [simp]: "max_batch_size default_packet_engine_config = 256"
  by (simp add: default_packet_engine_config_def)

lemma default_room: "finite K \<Longrightarrow> card K \<le> 32 \<Longrightarrow> room_for default_packet_engine_config K"
  using validate_config_iff [of default_packet_engine_config]
  by (auto simp: room_for_def MAX_STORAGE_BINDING_def intro!: probe_room_few)
    (simp_all add: default_packet_engine_config_def DEFAULT_FLOW_CAPACITY_def DEFAULT_FLOW_PROBE_LIMIT_def)

definition sample_syn :: raw_packet where
  "sample_syn = client_packet sample_key 7 0 TCP_SYN []"

lemma sample_syn_servable: "servable default_packet_engine_config {sample_key} [sample_syn]"
  by (simp add: servable_def sample_syn_def served_def addressed_client client_view_def)
    (simp add: client_packet_def wf_packet_def MAX_RAW_PACKET_BYTES_def FS_LIMIT_def)

theorem gpu_batch_sequential_witness:
  "\<exists>eng eng'. gpu_packet_engine_new [] (Some sample_adapter) (\<lambda>w. sample_wave) default_packet_engine_config = ok eng
    \<and> gpu_batches packet_gpu_device eng [[sample_syn], [sample_syn]] =
        Some (eng', snd (run_seq (gpu_flow_step default_packet_engine_config) Map.empty (concat [[sample_syn], [sample_syn]])))
    \<and> connections_of (ge_device_state eng') =
        fst (run_seq (gpu_flow_step default_packet_engine_config) Map.empty (concat [[sample_syn], [sample_syn]]))
    \<and> ge_packets eng' = of_nat (length (concat [[sample_syn], [sample_syn]]))"
  by (rule gpu_batch_sequential [where K = "{sample_key}"]) (simp_all add: default_room sample_syn_servable)

section \<open>The CPU semantics, connection by connection\<close>

definition cpu_flow_step :: "packet_engine_config \<Rightarrow> flow flow_step" where
  "cpu_flow_step config key fo p = (case addressed config p of
       None \<Rightarrow> (fo, None)
     | Some v \<Rightarrow> (case conn_step True v fo of (fo', g) \<Rightarrow> (fo', map_option (segment_packet key) g)))"

lemma addressed_key: "addressed config p = Some v \<Longrightarrow> packet_key p = Some (v_key v)"
  using parse_scheduling_agree [of p v]
  by (auto simp: addressed_def parse_closed packet_key_def split: if_splits)

lemma spec_packet_is_flow_step:
  assumes "uncrowded config tbl (p # ps)"
  shows "spec_packet config tbl p = step_one (cpu_flow_step config) tbl p"
proof (cases "addressed config p")
  case None
  then show ?thesis by (simp add: spec_packet_def step_one_def cpu_flow_step_def fun_upd_idem split: option.split)
next
  case (Some v)
  have "conn_step (card (dom tbl) < flow_capacity config) v (tbl (v_key v)) = conn_step True v (tbl (v_key v))"
    using uncrowded_room [OF assms Some] by (intro conn_step_room) simp
  then show ?thesis by (simp add: spec_packet_def step_one_def cpu_flow_step_def Some addressed_key [OF Some] split_def)
qed

lemma spec_batch_is_run_seq: "uncrowded config tbl ps \<Longrightarrow> spec_batch config tbl ps = run_seq (cpu_flow_step config) tbl ps"
proof (induction ps arbitrary: tbl)
  case Nil
  then show ?case by simp
next
  case (Cons p ps)
  note step = spec_packet_is_flow_step [OF Cons.prems]
  show ?case using Cons.IH [OF uncrowded_step [OF Cons.prems]] by (simp add: step Let_def split_def)
qed

section \<open>Ordinary traffic\<close>

text \<open>A segment to which the two engines react alike: no SYN with RST, and a SYN that is repeated before the
  handshake is complete keeps its sequence number.\<close>

definition ordinary :: "tcp_view \<Rightarrow> flow option \<Rightarrow> bool" where
  "ordinary v fo \<longleftrightarrow> (has_flag v TCP_SYN \<and> \<not> has_flag v TCP_ACK \<longrightarrow> \<not> has_flag v TCP_RST
     \<and> (\<forall>f. fo = Some f \<and> fl_state f = SynReceived \<longrightarrow> recv_next f = v_seq v + 1))"

fun ordinary_traffic :: "packet_engine_config \<Rightarrow> table \<Rightarrow> raw_packet list \<Rightarrow> bool" where
  "ordinary_traffic config tbl [] \<longleftrightarrow> True"
| "ordinary_traffic config tbl (p # ps) \<longleftrightarrow>
     (case addressed config p of None \<Rightarrow> True | Some v \<Rightarrow> ordinary v (tbl (v_key v)))
     \<and> ordinary_traffic config (fst (step_one (cpu_flow_step config) tbl p)) ps"

text \<open>The answer of the CPU engine, given the one of the GPU engine: the other name of the backend.\<close>

definition as_cpu :: "segment \<Rightarrow> segment" where
  "as_cpu g = g\<lparr>g_payload := rename_backend (g_payload g)\<rparr>"

definition same_answer :: "raw_packet option \<Rightarrow> raw_packet option \<Rightarrow> bool" where
  "same_answer a b \<longleftrightarrow> (a = None \<and> b = None)
     \<or> (\<exists>key g. a = Some (segment_packet key g) \<and> b = Some (segment_packet key (as_cpu g)))"

lemma rename_backend_empty [simp]: "rename_backend [] = []"
  using length_rename_backend [of "[]"] by (simp only: list.size(3) length_0_conv)

lemma as_cpu_empty [simp]: "as_cpu \<lparr>g_seq = s, g_ack = a, g_flags = f, g_payload = []\<rparr> = \<lparr>g_seq = s, g_ack = a, g_flags = f, g_payload = []\<rparr>"
  by (simp add: as_cpu_def)

lemma established_as_cpu: "established_step v f = (fst (gpu_established v f), map_option as_cpu (snd (gpu_established v f)))"
  by (auto simp: established_step_def gpu_established_def unexpected_def gpu_unexpected_def plain_ack_def
      data_segment_def gpu_data_def as_cpu_def cpu_response_rename split: option.split)

lemma conn_step_as_cpu:
  assumes "ordinary v fo" "\<forall>f. fo = Some f \<longrightarrow> flow_inv (v_key v) f"
  shows "conn_step True v fo = (fst (gpu_conn_step v fo), map_option as_cpu (snd (gpu_conn_step v fo)))"
proof (cases "has_flag v TCP_SYN \<and> \<not> has_flag v TCP_ACK")
  case True
  then have rst: "\<not> has_flag v TCP_RST" using assms(1) by (simp add: ordinary_def)
  show ?thesis
  proof (cases fo)
    case None
    then show ?thesis using True rst by (simp add: conn_step_def gpu_conn_step_def gpu_syn_def)
  next
    case (Some f)
    have "f = new_flow (v_seq v + 1) (isn (v_key v))" "send_next f - 1 = isn (v_key v)" "recv_next f = v_seq v + 1" if "fl_state f = SynReceived"
      using assms True Some that syn_received_unique [of "v_key v" f] by (auto simp: ordinary_def flow_inv_def)
    then show ?thesis using True rst Some
      by (cases "fl_state f") (simp_all add: conn_step_def gpu_conn_step_def gpu_syn_def plain_ack_def)
  qed
next
  case False
  show ?thesis
  proof (cases "has_flag v TCP_RST")
    case True
    then show ?thesis unfolding conn_step_def gpu_conn_step_def if_not_P [OF False] by (simp split: option.split)
  next
    case rst: False
    show ?thesis unfolding gpu_conn_step_def if_not_P [OF False] using conn_step_segment [OF rst False] rst
      by (cases fo) (simp_all add: established_as_cpu split: option.split)
  qed
qed

lemma step_as_cpu:
  assumes "case addressed config p of None \<Rightarrow> True | Some v \<Rightarrow> ordinary v (tbl (v_key v))" "\<forall>k f. tbl k = Some f \<longrightarrow> flow_inv k f"
  shows "fst (step_one (gpu_flow_step config) tbl p) = fst (step_one (cpu_flow_step config) tbl p)"
    and "same_answer (snd (step_one (gpu_flow_step config) tbl p)) (snd (step_one (cpu_flow_step config) tbl p))"
    and "\<forall>k f. fst (step_one (cpu_flow_step config) tbl p) k = Some f \<longrightarrow> flow_inv k f"
proof -
  have "fst (step_one (gpu_flow_step config) tbl p) = fst (step_one (cpu_flow_step config) tbl p)
    \<and> same_answer (snd (step_one (gpu_flow_step config) tbl p)) (snd (step_one (cpu_flow_step config) tbl p))
    \<and> (\<forall>k f. fst (step_one (cpu_flow_step config) tbl p) k = Some f \<longrightarrow> flow_inv k f)"
  proof (cases "addressed config p")
    case None
    then show ?thesis using assms(2)
      by (simp add: step_one_def gpu_flow_step_def cpu_flow_step_def same_answer_def fun_upd_idem split: option.split)
  next
    case (Some v)
    let ?g = "gpu_conn_step v (tbl (v_key v))"
    have ord: "ordinary v (tbl (v_key v))" using assms(1) Some by simp
    have inv: "\<forall>f. tbl (v_key v) = Some f \<longrightarrow> flow_inv (v_key v) f" using assms(2) by blast
    note same = conn_step_as_cpu [OF ord inv]
    have gpu: "step_one (gpu_flow_step config) tbl p = (tbl(v_key v := fst ?g), map_option (segment_packet (v_key v)) (snd ?g))"
      by (simp add: step_one_def gpu_flow_step_def Some addressed_key [OF Some] split_def)
    have cpu: "step_one (cpu_flow_step config) tbl p
        = (tbl(v_key v := fst ?g), map_option (segment_packet (v_key v)) (map_option as_cpu (snd ?g)))"
      by (simp add: step_one_def cpu_flow_step_def Some addressed_key [OF Some] same)
    have "flow_inv (v_key v) f'" if "fst ?g = Some f'" for f'
      using conn_step_inv [OF inv, of True f'] that by (simp add: same)
    then show ?thesis unfolding gpu cpu using assms(2) by (cases "snd ?g") (auto simp: same_answer_def)
  qed
  then show "fst (step_one (gpu_flow_step config) tbl p) = fst (step_one (cpu_flow_step config) tbl p)"
    "same_answer (snd (step_one (gpu_flow_step config) tbl p)) (snd (step_one (cpu_flow_step config) tbl p))"
    "\<forall>k f. fst (step_one (cpu_flow_step config) tbl p) k = Some f \<longrightarrow> flow_inv k f" by blast+
qed

lemma run_as_cpu:
  assumes "ordinary_traffic config tbl ps" "\<forall>k f. tbl k = Some f \<longrightarrow> flow_inv k f"
  shows "fst (run_seq (gpu_flow_step config) tbl ps) = fst (run_seq (cpu_flow_step config) tbl ps)
    \<and> list_all2 same_answer (snd (run_seq (gpu_flow_step config) tbl ps)) (snd (run_seq (cpu_flow_step config) tbl ps))"
  using assms
proof (induction ps arbitrary: tbl)
  case Nil
  then show ?case by simp
next
  case (Cons p ps)
  have ord: "case addressed config p of None \<Rightarrow> True | Some v \<Rightarrow> ordinary v (tbl (v_key v))"
    and rest: "ordinary_traffic config (fst (step_one (cpu_flow_step config) tbl p)) ps" using Cons.prems(1) by simp_all
  note step = step_as_cpu [OF ord Cons.prems(2)]
  show ?case using Cons.IH [OF rest step(3)] step(1,2) by (simp add: Let_def split_def)
qed

section \<open>Room in the GPU table is room in the CPU table\<close>

lemma probe_room_card:
  assumes K: "probe_room n m K" and m: "0 < m" "m \<le> n"
  shows "card K \<le> n"
proof -
  have fin: "finite K" and few: "\<forall>k\<in>K. card (rivals n m K k) \<le> m" using K by (simp_all add: probe_room_def)
  have sub: "window n m k \<subseteq> {..<n}" for k using m address_less [of n] by (auto simp: window_def)
  have "card {k \<in> K. i \<in> window n m k} \<le> m" if "i < n" for i
  proof (cases "{k \<in> K. i \<in> window n m k} = {}")
    case False
    then obtain k where k: "k \<in> K" "i \<in> window n m k" by blast
    then have "{k \<in> K. i \<in> window n m k} \<subseteq> rivals n m K k" by (auto simp: rivals_def)
    moreover have "finite (rivals n m K k)" using fin by (simp add: rivals_def)
    ultimately have "card {k \<in> K. i \<in> window n m k} \<le> card (rivals n m K k)" by (metis card_mono)
    then show ?thesis using few k(1) by (meson le_trans)
  next
    case True
    then show ?thesis by (simp only: card.empty le0)
  qed
  then have "(\<Sum>i<n. card {k \<in> K. i \<in> window n m k}) \<le> (\<Sum>i<n. m)" by (intro sum_mono) simp
  moreover have "(\<Sum>i<n. card {k \<in> K. i \<in> window n m k}) = (\<Sum>k\<in>K. card {i \<in> {..<n}. i \<in> window n m k})"
    using fin by (intro sum_multicount_gen) simp_all
  moreover have "{i \<in> {..<n}. i \<in> window n m k} = window n m k" for k using sub [of k] by blast
  then have "(\<Sum>k\<in>K. card {i \<in> {..<n}. i \<in> window n m k}) = (\<Sum>k\<in>K. m)"
    using card_window [OF m(2)] by (intro sum.cong) simp_all
  ultimately have "card K * m \<le> n * m" by simp
  then show ?thesis using m(1) by simp
qed

lemma served_connections: "(\<forall>p\<in>set pkts. served config K p) \<Longrightarrow> connections config pkts \<subseteq> K"
  by (induction pkts) (auto simp: connections_Cons served_def connections_def List.map_filter_def split: option.splits)

lemma ready_uncrowded:
  assumes "packet_engine_ready config K eng" "servable config K pkts"
  shows "uncrowded config (connections_of (ge_device_state eng)) pkts"
proof -
  have ok: "valid_config config" "probe_room (flow_capacity config) (flow_probe_limit config) K"
    "slots_ok (flow_capacity config) (flow_probe_limit config) (me_flows (pg_memory (ge_device_state eng)))"
    "dom (connections_of (ge_device_state eng)) \<subseteq> K"
    using assms(1) by (simp_all add: engine_ready_def packet_gpu_ok_def packet_gpu_shape_def)
  have all: "dom (connections_of (ge_device_state eng)) \<union> connections config pkts \<subseteq> K"
    using ok(4) served_connections [of pkts config K] assms(2) by (simp add: servable_def)
  have "finite K" using ok(2) by (simp add: probe_room_def)
  then have "card (dom (connections_of (ge_device_state eng)) \<union> connections config pkts) \<le> card K" using all by (rule card_mono)
  also have "\<dots> \<le> flow_capacity config" using ok(1) by (intro probe_room_card [OF ok(2)]) (simp_all add: valid_config_def)
  finally show ?thesis using finite_live [OF ok(3)] by (simp add: uncrowded_def)
qed

section \<open>The engines agree\<close>

text \<open>C9: the GPU engine agrees with the CPU engine. On a ready engine whose waves complete, starting from the same connections, a batch of ordinary
  traffic for which the flow table has room is answered alike by both engines, packet for packet (the same
  addresses, sequence numbers, acknowledgements, flags and response; in the response the backend has its other
  name), and both end with the same connections. That the GPU table has room makes the CPU table large enough.\<close>

theorem gpu_matches_cpu:
  assumes "packet_engine_ready config K eng" "servable config K pkts"
    "table_inv config flows" "connections_of (ge_device_state eng) = hm_get flows" "ordinary_traffic config (hm_get flows) pkts"
  shows "\<exists>eng' flows' outs outs'. gpu_process_batch_into packet_gpu_device eng pkts [] = Some (eng', outs, Inr ())
    \<and> process_packets flows config pkts [] = Some (flows', outs', Inr ()) \<and> list_all2 same_answer outs outs'
    \<and> connections_of (ge_device_state eng') = hm_get flows'"
proof -
  have inv: "\<forall>k f. hm_get flows k = Some f \<longrightarrow> flow_inv k f" using table_inv_get [OF assms(3)] by blast
  note same = run_as_cpu [OF assms(5) inv]
  obtain flows' where cpu: "process_packets flows config pkts [] =
      Some (flows', [] @ snd (spec_batch config (hm_get flows) pkts), Inr ())"
    "hm_get flows' = fst (spec_batch config (hm_get flows) pkts)"
    using process_packets_simulates [OF assms(3)] by metis
  obtain eng' where gpu: "gpu_process_batch_into packet_gpu_device eng pkts [] =
      Some (eng', snd (run_seq (gpu_flow_step config) (hm_get flows) pkts), Inr ())"
    "connections_of (ge_device_state eng') = fst (run_seq (gpu_flow_step config) (hm_get flows) pkts)"
    by (rule gpu_batch_serves [OF assms(1,2), of "[]"]) (simp add: assms(4))
  have "spec_batch config (hm_get flows) pkts = run_seq (cpu_flow_step config) (hm_get flows) pkts"
    using ready_uncrowded [OF assms(1,2)] by (intro spec_batch_is_run_seq) (simp add: assms(4))
  then show ?thesis using cpu gpu same by simp
qed

lemma ordinary_sample: "ordinary_traffic default_packet_engine_config (hm_get []) [sample_syn]"
  by (simp add: sample_syn_def addressed_client ordinary_def hm_get_def)

theorem gpu_matches_cpu_witness:
  "\<exists>eng eng' flows' outs outs'. gpu_packet_engine_new [] (Some sample_adapter) (\<lambda>w. sample_wave) default_packet_engine_config = ok eng
    \<and> gpu_process_batch_into packet_gpu_device eng [sample_syn] [] = Some (eng', outs, Inr ())
    \<and> process_packets [] default_packet_engine_config [sample_syn] [] = Some (flows', outs', Inr ())
    \<and> list_all2 same_answer outs outs' \<and> connections_of (ge_device_state eng') = hm_get flows'"
proof -
  obtain eng where eng: "gpu_packet_engine_new [] (Some sample_adapter) (\<lambda>w. sample_wave) default_packet_engine_config = ok eng"
    "packet_engine_ready default_packet_engine_config {sample_key} eng" "connections_of (ge_device_state eng) = hm_get []"
    using creation_ready [OF default_room sample_capable, of "{sample_key}" "\<lambda>w. sample_wave" "[]"] by (auto simp: hm_get_def [abs_def])
  from gpu_matches_cpu [OF eng(2) sample_syn_servable table_inv_empty eng(3) ordinary_sample] eng(1) show ?thesis by blast
qed

section \<open>Where they differ\<close>

lemma syn_flags [simp]:
  "has_flag (client_view k s a (TCP_SYN OR TCP_RST) p) TCP_RST" "has_flag (client_view k s a (TCP_SYN OR TCP_RST) p) TCP_SYN"
  "\<not> has_flag (client_view k s a (TCP_SYN OR TCP_RST) p) TCP_ACK"
  by (simp_all add: has_flag_def TCP_ACK_def TCP_SYN_def TCP_RST_def)

lemma servable_client:
  assumes "key \<in> K" "dst_port key = listen_port config"
    "\<forall>p\<in>set pkts. \<exists>seq ack flags. p = client_packet key seq ack flags []" "length pkts \<le> FS_LIMIT"
  shows "servable config K pkts"
proof -
  have "wf_packet (client_packet key seq ack flags []) \<and> served config K (client_packet key seq ack flags [])" for seq ack flags
    using assms(1,2) by (simp add: served_def addressed_client) (simp add: client_packet_def wf_packet_def MAX_RAW_PACKET_BYTES_def)
  then show ?thesis using assms(3,4) by (auto simp: servable_def)
qed

definition syn_ack :: "flow_key \<Rightarrow> u32 \<Rightarrow> raw_packet option" where
  "syn_ack key c = Some (reply key (isn key) (c + 1) (TCP_SYN OR TCP_ACK) [])"

lemma gpu_client_step: "dst_port key = listen_port config \<Longrightarrow> step_one (gpu_flow_step config) tbl (client_packet key seq ack flags []) =
    (let g = gpu_conn_step (client_view key seq ack flags []) (tbl key) in (tbl(key := fst g), map_option (segment_packet key) (snd g)))"
  using addressed_client [of "[]" key config seq ack flags] addressed_key [of config "client_packet key seq ack flags []"]
  by (simp add: step_one_def gpu_flow_step_def Let_def split_def)

lemma new_flow_simps [simp]: "fl_state (new_flow n s) = SynReceived" "recv_next (new_flow n s) = n" "send_next (new_flow n s) = s + 1"
  by (simp_all add: new_flow_def)

text \<open>C36: where the engines differ. On a ready engine whose waves complete and a CPU engine, both without connections: a segment with SYN and RST opens a
  connection on the GPU engine and is answered with SYN|ACK, while the CPU engine drops it; a SYN that is repeated
  with another sequence number before the handshake is complete is acknowledged on the GPU engine with
  the first number, on the CPU engine with its own.\<close>

theorem engines_diverge:
  assumes "packet_engine_ready config K eng" "connections_of (ge_device_state eng) = Map.empty"
    "key \<in> K" "dst_port key = listen_port config"
  shows "(\<exists>eng' flows'. gpu_process_batch_into packet_gpu_device eng [client_packet key c a (TCP_SYN OR TCP_RST) []] []
        = Some (eng', [syn_ack key c], Inr ())
      \<and> process_packets [] config [client_packet key c a (TCP_SYN OR TCP_RST) []] [] = Some (flows', [None], Inr ()))
    \<and> (\<exists>eng' flows'. gpu_process_batch_into packet_gpu_device eng [client_packet key c a TCP_SYN [], client_packet key e a TCP_SYN []] []
        = Some (eng', [syn_ack key c, syn_ack key c], Inr ())
      \<and> process_packets [] config [client_packet key c a TCP_SYN [], client_packet key e a TCP_SYN []] []
        = Some (flows', [syn_ack key c, syn_ack key e], Inr ()))"
proof (intro conjI)
  have fs: "2 \<le> FS_LIMIT" by (simp add: FS_LIMIT_def)
  have cap: "0 < flow_capacity config" using assms(1) by (auto simp: engine_ready_def packet_gpu_ok_def packet_gpu_shape_def valid_config_def)
  have empty: "hm_get [] = Map.empty" by (simp add: hm_get_def [abs_def])
  let ?rst = "[client_packet key c a (TCP_SYN OR TCP_RST) []]"
  and ?syns = "[client_packet key c a TCP_SYN [], client_packet key e a TCP_SYN []]"
  have ok: "servable config K ?rst" "servable config K ?syns" using fs by (intro servable_client [OF assms(3,4)]; auto)+
  obtain eng' where gpu: "gpu_process_batch_into packet_gpu_device eng ?rst [] =
      Some (eng', snd (run_seq (gpu_flow_step config) Map.empty ?rst), Inr ())"
    by (rule gpu_batch_serves [OF assms(1) ok(1), of "[]"]) (simp add: assms(2))
  have "snd (run_seq (gpu_flow_step config) Map.empty ?rst) = [syn_ack key c]"
    by (simp add: gpu_client_step [OF assms(4)] Let_def gpu_conn_step_def gpu_syn_def syn_ack_def segment_packet_def)
  moreover obtain flows' where "process_packets [] config ?rst [] = Some (flows', [None], Inr ())"
    using process_packets_simulates [OF table_inv_empty, of config ?rst "[]"] assms(4) cap
    by (auto simp: empty spec_packet_def addressed_client conn_step_def)
  ultimately show "\<exists>eng' flows'. gpu_process_batch_into packet_gpu_device eng ?rst [] = Some (eng', [syn_ack key c], Inr ())
      \<and> process_packets [] config ?rst [] = Some (flows', [None], Inr ())" using gpu by auto
  obtain eng' where gpu: "gpu_process_batch_into packet_gpu_device eng ?syns [] =
      Some (eng', snd (run_seq (gpu_flow_step config) Map.empty ?syns), Inr ())"
    by (rule gpu_batch_serves [OF assms(1) ok(2), of "[]"]) (simp add: assms(2))
  have "snd (run_seq (gpu_flow_step config) Map.empty ?syns) = [syn_ack key c, syn_ack key c]"
    by (simp add: gpu_client_step [OF assms(4)] Let_def gpu_conn_step_def gpu_syn_def syn_ack_def segment_packet_def)
  moreover obtain flows' where "process_packets [] config ?syns [] = Some (flows', [syn_ack key c, syn_ack key e], Inr ())"
    using process_packets_simulates [OF table_inv_empty, of config ?syns "[]"] assms(4) cap
    by (auto simp: empty spec_packet_def addressed_client conn_step_def syn_ack_def segment_packet_def)
  ultimately show "\<exists>eng' flows'. gpu_process_batch_into packet_gpu_device eng ?syns [] = Some (eng', [syn_ack key c, syn_ack key c], Inr ())
      \<and> process_packets [] config ?syns [] = Some (flows', [syn_ack key c, syn_ack key e], Inr ())" using gpu by auto
qed

theorem engines_diverge_witness:
  "\<exists>eng. gpu_packet_engine_new [] (Some sample_adapter) (\<lambda>w. sample_wave) default_packet_engine_config = ok eng
    \<and> (\<exists>eng' flows'. gpu_process_batch_into packet_gpu_device eng [client_packet sample_key 7 0 (TCP_SYN OR TCP_RST) []] []
        = Some (eng', [syn_ack sample_key 7], Inr ())
      \<and> process_packets [] default_packet_engine_config [client_packet sample_key 7 0 (TCP_SYN OR TCP_RST) []] [] = Some (flows', [None], Inr ()))
    \<and> (\<exists>eng' flows'. gpu_process_batch_into packet_gpu_device eng [client_packet sample_key 7 0 TCP_SYN [], client_packet sample_key 9 0 TCP_SYN []] []
        = Some (eng', [syn_ack sample_key 7, syn_ack sample_key 7], Inr ())
      \<and> process_packets [] default_packet_engine_config [client_packet sample_key 7 0 TCP_SYN [], client_packet sample_key 9 0 TCP_SYN []] []
        = Some (flows', [syn_ack sample_key 7, syn_ack sample_key 9], Inr ()))"
proof -
  obtain eng where eng: "gpu_packet_engine_new [] (Some sample_adapter) (\<lambda>w. sample_wave) default_packet_engine_config = ok eng"
    "packet_engine_ready default_packet_engine_config {sample_key} eng" "connections_of (ge_device_state eng) = Map.empty"
    using creation_ready [OF default_room sample_capable, of "{sample_key}" "\<lambda>w. sample_wave" "[]"] by auto
  from engines_diverge [OF eng(2,3), of sample_key 7 0 9] eng(1) show ?thesis by simp
qed

end
