(* ===== verification/PacketFailures.thy ===== *)
theory PacketFailures
  imports GpuCpu
begin

text \<open>
  When the readback of a wave fails: the batch ends with an error, and since \<open>dispatch_wave\<close> returns
  without unmapping the buffer, every later batch panics.
\<close>

section \<open>The first wave of a batch\<close>

lemma first_wave:
  fixes eng :: "packet_gpu gpu_packet_engine"
  assumes eng: "engine_ready config 48 (384 * max_batch_size config) (packet_gpu_shape config K) eng"
    and pkts: "servable config K pkts" "pkts \<noteq> []"
  obtains wave rest seen' where "fs_ready seen'" "wave \<noteq> []" "\<forall>i\<in>set wave. i < length pkts" "length wave \<le> max_batch_size config"
    "total_words (map ((!) pkts) wave) \<le> 384 * max_batch_size config" "distinct_flows (key_of pkts) wave"
    "gpu_process_batch_into packet_gpu_device eng pkts out =
      map_option (\<lambda>((eng', s'), r). (eng'\<lparr>ge_seen := seen'\<rparr>, s', r))
        (dispatch_all (dispatch_wave packet_gpu_device pkts slot_sink) (eng, resize out (length pkts) None) (wave # rest))"
proof -
  let ?l = "(max_batch_size config, 384 * max_batch_size config)"
  have wf: "\<forall>p\<in>set pkts. wf_packet p" and len: "length pkts \<le> FS_LIMIT" using pkts(1) by (simp_all add: servable_def)
  have st: "ge_config eng = config" "ge_word_capacity eng = 384 * max_batch_size config" "fs_ready (ge_seen eng)" "0 < max_batch_size config"
    using eng by (simp_all add: engine_ready_def packet_gpu_shape_def valid_config_def)
  have l: "0 < fst ?l" "384 \<le> snd ?l" using st(4) by simp_all
  note proper = schedule_proper [OF wf pkts(2) l]
  have idx: "set (concat (schedule_of pkts ?l)) = {..<length pkts}" using concat_waves_set [OF proper] by simp
  have each: "\<forall>w\<in>set (schedule_of pkts ?l). w \<noteq> [] \<and> length w \<le> max_batch_size config
       \<and> sum_list (map (words_of pkts) w) \<le> 384 * max_batch_size config \<and> distinct_flows (key_of pkts) w"
    using proper unfolding proper_waves_def fst_conv snd_conv by (rule conjunct2)
  obtain wave rest where ws: "schedule_of pkts ?l = wave # rest" using idx pkts(2) by (cases "schedule_of pkts ?l") auto
  from run_waves_schedule [OF st(3) pkts(2) len schedule_fitting [OF wf l],
      of "dispatch_wave packet_gpu_device pkts slot_sink" "(eng, resize out (length pkts) None)"]
  obtain seen' where seen': "fs_ready seen'" and run: "run_waves pkts ?l (dispatch_wave packet_gpu_device pkts slot_sink) (eng, resize out (length pkts) None) (ge_seen eng) =
      map_option (\<lambda>(d', r). (seen', d', r))
        (dispatch_all (dispatch_wave packet_gpu_device pkts slot_sink) (eng, resize out (length pkts) None) (wave # rest))"
    unfolding schedule_of_def [symmetric] ws by (elim exE conjE)
  show thesis
  proof (rule that [OF seen', of wave rest])
    show "\<forall>i\<in>set wave. i < length pkts" using idx ws by auto
    show "gpu_process_batch_into packet_gpu_device eng pkts out =
      map_option (\<lambda>((eng', s'), r). (eng'\<lparr>ge_seen := seen'\<rparr>, s', r))
        (dispatch_all (dispatch_wave packet_gpu_device pkts slot_sink) (eng, resize out (length pkts) None) (wave # rest))"
      unfolding gpu_process_batch_into_def gpu_process_batch_to_def st(1,2) run
      by (cases "dispatch_all (dispatch_wave packet_gpu_device pkts slot_sink) (eng, resize out (length pkts) None) (wave # rest)")
        (simp_all add: split_def)
  qed (use each ws in \<open>simp_all add: total_words_of\<close>)
qed

lemma wave_prepared:
  fixes eng :: "packet_gpu gpu_packet_engine"
  assumes eng: "engine_ready config 48 (384 * max_batch_size config) (packet_gpu_shape config K) eng"
    and pkts: "servable config K pkts"
    and wave: "wave \<noteq> []" "\<forall>i\<in>set wave. i < length pkts" "total_words (map ((!) pkts) wave) \<le> 384 * max_batch_size config"
  shows "dispatch_wave packet_gpu_device pkts sink (eng, s) wave = do {
     (g', outcome) \<leftarrow> packet_kernel (ge_device_state eng) (wave_params config 48 (length wave))
        (layout_metas 0 (map ((!) pkts) wave)) (layout_bytes (map ((!) pkts) wave));
     case outcome of
       Inl e \<Rightarrow> Some ((eng\<lparr>ge_device_state := g'\<rparr>, s), Inl e)
     | Inr (output_meta, output_words) \<Rightarrow> do {
         (s', decode_result) \<leftarrow> emit_wave_outputs output_meta output_words wave 48 sink s;
         Some ((eng\<lparr>ge_device_state := g', ge_dispatches := ge_dispatches eng + 1,
                    ge_packets := ge_packets eng + of_nat (length wave)\<rparr>, s'), decode_result) } }"
proof -
  have st: "ge_config eng = config" "ge_stride_words eng = 48" "length (pg_input_words (ge_device_state eng)) = 384 * max_batch_size config"
    "1536 * max_batch_size config \<le> MAX_STORAGE_BINDING"
    using eng by (simp_all add: engine_ready_def packet_gpu_shape_def)
  have wf: "\<forall>p\<in>set pkts. wf_packet p" using pkts by (simp add: servable_def)
  have small: "total_words (map ((!) pkts) wave) \<le> U32_MAX" using wave(3) st(4) by (simp add: MAX_STORAGE_BINDING_def U32_MAX_def)
  have up: "upload_fits packet_gpu_device (ge_device_state eng) (4 * total_words (map ((!) pkts) wave))"
    using wave(3) st(3) by (simp add: packet_gpu_device_def packet_upload_fits_def)
  have run: "run_kernel packet_gpu_device = packet_kernel" by (simp add: packet_gpu_device_def)
  from dispatch_wave_prepares [OF wave(1,2) wf small up, of sink s] show ?thesis unfolding st(1,2) run .
qed

section \<open>A buffer that stays mapped\<close>

lemma mapped_batch_panics:
  assumes "engine_ready config 48 (384 * max_batch_size config) (packet_gpu_shape config K) eng"
    "pg_mapped (ge_device_state eng)" "servable config K pkts" "pkts \<noteq> []"
  shows "gpu_process_batch_into packet_gpu_device eng pkts out = None"
proof -
  obtain wave rest seen' where wave: "wave \<noteq> []" "\<forall>i\<in>set wave. i < length pkts"
    "total_words (map ((!) pkts) wave) \<le> 384 * max_batch_size config"
    and batch: "gpu_process_batch_into packet_gpu_device eng pkts out =
      map_option (\<lambda>((eng', s'), r). (eng'\<lparr>ge_seen := seen'\<rparr>, s', r))
        (dispatch_all (dispatch_wave packet_gpu_device pkts slot_sink) (eng, resize out (length pkts) None) (wave # rest))"
    by (rule first_wave [OF assms(1,3,4), of out])
  have "packet_kernel (ge_device_state eng) params metas upload = None" for params metas upload
    using assms(2) by (simp add: packet_kernel_def packet_submit_def Let_def split: Option.bind_split)
  then show ?thesis by (simp add: batch wave_prepared [OF assms(1,3) wave])
qed

text \<open>The wave is run and mapped, but its range cannot be read.\<close>

definition range_fails :: "wave_events \<Rightarrow> bool" where
  "range_fails ev \<longleftrightarrow> runs_all ev \<and> we_poll_ok ev \<and> we_callback ev = Mapped \<and> \<not> we_range ev"

definition about_to_fail :: "packet_engine_config \<Rightarrow> flow_key set \<Rightarrow> packet_gpu gpu_packet_engine \<Rightarrow> bool" where
  "about_to_fail config K eng \<longleftrightarrow> engine_ready config 48 (384 * max_batch_size config) (packet_gpu_shape config K) eng
     \<and> \<not> pg_mapped (ge_device_state eng) \<and> range_fails (pg_events (ge_device_state eng) (pg_wave (ge_device_state eng)))"

text \<open>C37: on a ready engine with probe room for the connections that appear, if the first wave of a batch runs
  and is mapped but its range cannot be read, the batch returns the error with no slot filled, and the
  buffer that is read back stays mapped: the next batch that is not empty panics, whatever the device does then.
  (A failure in a later wave, after slots were filled by the waves before it, is not covered.)\<close>

theorem packet_readback_failure:
  assumes "about_to_fail config K eng" "servable config K pkts" "pkts \<noteq> []" "servable config K pkts'" "pkts' \<noteq> []"
  shows "\<exists>eng'. gpu_process_batch_into packet_gpu_device eng pkts out =
      Some (eng', resize out (length pkts) None, Inl (DeviceFailed ''mapped range''))
    \<and> gpu_process_batch_into packet_gpu_device eng' pkts' out' = None"
proof -
  let ?g = "ge_device_state eng"
  have eng: "engine_ready config 48 (384 * max_batch_size config) (packet_gpu_shape config K) eng"
    "packet_gpu_shape config K ?g" "\<not> pg_mapped ?g" "range_fails (pg_events ?g (pg_wave ?g))" "runs_all (pg_events ?g (pg_wave ?g))"
    using assms(1) by (simp_all add: about_to_fail_def range_fails_def engine_ready_def)
  obtain wave rest seen' where seen': "fs_ready seen'" and wave: "wave \<noteq> []" "\<forall>i\<in>set wave. i < length pkts" "length wave \<le> max_batch_size config"
    "total_words (map ((!) pkts) wave) \<le> 384 * max_batch_size config" "distinct_flows (key_of pkts) wave"
    and batch: "gpu_process_batch_into packet_gpu_device eng pkts out =
      map_option (\<lambda>((eng', s'), r). (eng'\<lparr>ge_seen := seen'\<rparr>, s', r))
        (dispatch_all (dispatch_wave packet_gpu_device pkts slot_sink) (eng, resize out (length pkts) None) (wave # rest))"
    by (rule first_wave [OF eng(1) assms(2,3), of out])
  have ps: "\<forall>p\<in>set (map ((!) pkts) wave). wf_packet p \<and> served config K p" "length (map ((!) pkts) wave) \<le> max_batch_size config"
    using assms(2) wave(2,3) by (auto simp: servable_def)
  obtain g' what metas words data where k: "packet_kernel ?g (wave_params config 48 (length (map ((!) pkts) wave)))
       (layout_metas 0 (map ((!) pkts) wave)) (layout_bytes (map ((!) pkts) wave)) =
     (case packet_map_read (pg_events ?g (pg_wave ?g)) g' what data of
        (g, Inl e) \<Rightarrow> Some (g, Inl e) | (g, Inr _) \<Rightarrow> Some (g\<lparr>pg_mapped := False\<rparr>, Inr (metas, words)))"
    "packet_gpu_shape config K g'"
    by (rule kernel_submits [OF eng(2,3,5) ps wave(4) distinct_keys_of [OF wave(5)]])
  define eng' where "eng' = eng\<lparr>ge_device_state := g'\<lparr>pg_mapped := True\<rparr>, ge_seen := seen'\<rparr>"
  have "packet_map_read (pg_events ?g (pg_wave ?g)) g' what data = (g'\<lparr>pg_mapped := True\<rparr>, Inl (DeviceFailed ''mapped range''))"
    using eng(4) by (simp add: packet_map_read_def range_fails_def)
  then have "dispatch_wave packet_gpu_device pkts slot_sink (eng, resize out (length pkts) None) wave =
      Some ((eng\<lparr>ge_device_state := g'\<lparr>pg_mapped := True\<rparr>\<rparr>, resize out (length pkts) None), Inl (DeviceFailed ''mapped range''))"
    using k(1) by (simp add: wave_prepared [OF eng(1) assms(2) wave(1,2,4)])
  then have first: "gpu_process_batch_into packet_gpu_device eng pkts out =
      Some (eng', resize out (length pkts) None, Inl (DeviceFailed ''mapped range''))"
    by (simp add: batch eng'_def)
  have "engine_ready config 48 (384 * max_batch_size config) (packet_gpu_shape config K) eng'" "pg_mapped (ge_device_state eng')"
    using eng(1) k(2) seen' by (simp_all add: engine_ready_def eng'_def)
  from mapped_batch_panics [OF this assms(4,5)] first show ?thesis by blast
qed

text \<open>A new engine whose first wave fails this way.\<close>

definition failing_waves :: "nat \<Rightarrow> wave_events" where
  "failing_waves w = (if w = 0 then sample_wave\<lparr>we_range := False\<rparr> else sample_wave)"

theorem packet_readback_failure_witness:
  "\<exists>eng eng'. gpu_packet_engine_new [] (Some sample_adapter) failing_waves default_packet_engine_config = ok eng
    \<and> gpu_process_batch_into packet_gpu_device eng [sample_syn] [] = Some (eng', [None], Inl (DeviceFailed ''mapped range''))
    \<and> gpu_process_batch_into packet_gpu_device eng' [sample_syn] [] = None"
proof -
  obtain eng where eng: "gpu_packet_engine_new [] (Some sample_adapter) failing_waves default_packet_engine_config = ok eng"
    "engine_ready default_packet_engine_config 48 (384 * max_batch_size default_packet_engine_config)
       (packet_gpu_shape default_packet_engine_config {sample_key}) eng"
    "\<not> pg_mapped (ge_device_state eng)" "pg_events (ge_device_state eng) = failing_waves" "pg_wave (ge_device_state eng) = 0"
    using creation_shaped [OF default_room sample_capable, of "{sample_key}" "[]" failing_waves] by auto
  have "range_fails (failing_waves 0)" using sample_wave_completes by (simp add: range_fails_def failing_waves_def wave_completes_def runs_all_def)
  then have "about_to_fail default_packet_engine_config {sample_key} eng" using eng(2-5) by (simp add: about_to_fail_def)
  from packet_readback_failure [OF this sample_syn_servable _ sample_syn_servable, of "[]" "[]"] eng(1)
  show ?thesis by (auto simp: resize_def)
qed

end
