(* ===== verification/PacketDaemon.thy ===== *)
theory PacketDaemon
  imports PacketFailures
begin

text \<open>
  \<open>src/bin/gput-packetd.rs\<close>: the choice of the packet engine and the receive loop between a TUN device and
  the engine. The device is a parameter: \<open>turn\<close> is what one round of the loop reads from it, \<open>writes\<close>
  what it does with a packet, given those it took before. An outer \<open>None\<close> is a panic.
\<close>

section \<open>Options\<close>

datatype packet_backend_choice = PacketAuto | PacketCpu | PacketGpu

definition default_packet_backend_choice :: packet_backend_choice where
  "default_packet_backend_choice = PacketAuto"

record packetd_cli =
  pc_backend :: packet_backend_choice
  pc_local :: u32
  pc_peer :: u32
  pc_netmask :: u32
  pc_mtu :: u16
  pc_listen_port :: u16
  pc_batch_capacity :: nat
  pc_batch_wait_micros :: u64
  pc_flow_capacity :: nat
  pc_flow_probe_limit :: nat
  pc_stats_interval_secs :: u64

definition default_packetd_cli :: packetd_cli where
  "default_packetd_cli = \<lparr>pc_backend = default_packet_backend_choice, pc_local = 0x0a4d0001, pc_peer = 0x0a4d0002,
     pc_netmask = 0xffffff00, pc_mtu = 1500, pc_listen_port = 8080, pc_batch_capacity = 256, pc_batch_wait_micros = 50,
     pc_flow_capacity = 4096, pc_flow_probe_limit = 32, pc_stats_interval_secs = 5\<rparr>"

definition packetd_engine_config :: "packetd_cli \<Rightarrow> packet_engine_config" where
  "packetd_engine_config c = \<lparr>max_batch_size = pc_batch_capacity c, flow_capacity = pc_flow_capacity c,
     flow_probe_limit = pc_flow_probe_limit c, listen_port = pc_listen_port c\<rparr>"

definition tun_buffer_len :: "packetd_cli \<Rightarrow> nat" where
  "tun_buffer_len c = max (unat (pc_mtu c)) 2048"

section \<open>The engine\<close>

text \<open>\<open>Box<dyn PacketEngine>\<close>, and the call the daemon makes through it.\<close>

datatype packet_engine = CpuPacketEngine cpu_packet_engine | GpuPacketEngine "packet_gpu gpu_packet_engine"

fun engine_name :: "packet_engine \<Rightarrow> string" where
  "engine_name (CpuPacketEngine _) = ''cpu-packet''"
| "engine_name (GpuPacketEngine _) = ''gpu-packet''"

fun engine_process_batch_to :: "packet_engine \<Rightarrow> raw_packet list \<Rightarrow> 's sink \<Rightarrow> 's \<Rightarrow> (packet_engine \<times> 's \<times> (packet_error + unit)) option" where
  "engine_process_batch_to (CpuPacketEngine eng) pkts sink s = do {
     (eng', s', r) \<leftarrow> process_batch_to eng pkts sink s;
     Some (CpuPacketEngine eng', s', r) }"
| "engine_process_batch_to (GpuPacketEngine eng) pkts sink s = do {
     (eng', s', r) \<leftarrow> gpu_process_batch_to packet_gpu_device eng pkts sink s;
     Some (GpuPacketEngine eng', s', r) }"

record selected_engine =
  se_engine :: packet_engine
  se_adapter :: "string option"
  se_fallback_reason :: "packet_engine_error option"

definition new_cpu_engine :: "packet_engine_config \<Rightarrow> (packet_engine_error, packet_engine) outcome" where
  "new_cpu_engine config = (case cpu_packet_engine_new config of Inl e \<Rightarrow> fail (InvalidPacketConfig e)
     | Inr eng \<Rightarrow> ok (CpuPacketEngine eng))"

definition select_gpu :: "bytes \<Rightarrow> string \<Rightarrow> wgpu_adapter option \<Rightarrow> (nat \<Rightarrow> wave_events) \<Rightarrow> packet_engine_config
    \<Rightarrow> packet_engine_error option \<Rightarrow> (packet_engine_error, selected_engine) outcome" where
  "select_gpu shader_body adapter_name adapter events config fallback_reason =
     and_then (gpu_packet_engine_new shader_body adapter events config) (\<lambda>engine.
     ok \<lparr>se_engine = GpuPacketEngine engine, se_adapter = Some adapter_name, se_fallback_reason = fallback_reason\<rparr>)"

definition select_engine :: "bytes \<Rightarrow> string \<Rightarrow> wgpu_adapter option \<Rightarrow> (nat \<Rightarrow> wave_events) \<Rightarrow> packet_backend_choice
    \<Rightarrow> packet_engine_config \<Rightarrow> (packet_engine_error, selected_engine) outcome" where
  "select_engine shader_body adapter_name adapter events choice config = (case choice of
       PacketCpu \<Rightarrow>
         and_then (new_cpu_engine config) (\<lambda>engine. ok \<lparr>se_engine = engine, se_adapter = None, se_fallback_reason = None\<rparr>)
     | PacketGpu \<Rightarrow> select_gpu shader_body adapter_name adapter events config None
     | PacketAuto \<Rightarrow>
         (case gpu_packet_engine_new shader_body adapter events config of
            None \<Rightarrow> None
          | Some (Inr engine) \<Rightarrow>
              ok \<lparr>se_engine = GpuPacketEngine engine, se_adapter = Some adapter_name, se_fallback_reason = None\<rparr>
          | Some (Inl error) \<Rightarrow>
              and_then (new_cpu_engine config) (\<lambda>engine.
              ok \<lparr>se_engine = engine, se_adapter = None, se_fallback_reason = Some error\<rparr>)))"

section \<open>The TUN device\<close>

text \<open>\<open>recv\<close> fills the front of the buffer: \<open>Received bs\<close> is that part. \<open>send\<close> takes some of the bytes.\<close>

datatype tun_read = Received bytes | ReadTimedOut | ReadFailed
datatype tun_wait = DeadlinePassed | Waited tun_read
datatype tun_write = Accepted nat | WriteFailed

record turn =
  tu_first :: tun_read
  tu_waits :: "nat \<Rightarrow> tun_wait"

text \<open>What the device has taken, and the counter \<open>packets_out\<close>.\<close>

record tun_out =
  tx_sent :: "bytes list"
  packets_out :: u64

definition saturating_add_u64 :: "u64 \<Rightarrow> u64 \<Rightarrow> u64" where
  "saturating_add_u64 a b = (if b \<le> - 1 - a then a + b else - 1)"

definition send_response :: "(bytes list \<Rightarrow> bytes \<Rightarrow> tun_write) \<Rightarrow> tun_out sink" where
  "send_response writes out source_index response = (case response of
       None \<Rightarrow> Some (out, Inr ())
     | Some bs \<Rightarrow>
         (case writes (tx_sent out) bs of
            WriteFailed \<Rightarrow> Some (out, Inl TunSendFailed)
          | Accepted n \<Rightarrow>
              let out = out\<lparr>tx_sent := tx_sent out @ [take n bs]\<rparr> in
              if n \<noteq> length bs then Some (out, Inl (TunShortWrite n (length bs)))
              else Some (out\<lparr>packets_out := saturating_add_u64 (packets_out out) 1\<rparr>, Inr ())))"

section \<open>The loop\<close>

datatype packetd_error = FirstReadFailed | BatchReadFailed | PacketFailed packet_error

record packetd =
  pd_engine :: packet_engine
  pd_batch :: "raw_packet list"
  pd_spare :: "raw_packet list"
  pd_out :: tun_out
  pd_packets_in :: u64
  pd_batches :: u64
  pd_peak_batch :: nat
  pd_allocations :: u64
  pd_reuses :: u64

definition packetd_start :: "packet_engine \<Rightarrow> packetd" where
  "packetd_start engine = \<lparr>pd_engine = engine, pd_batch = [], pd_spare = [], pd_out = \<lparr>tx_sent = [], packets_out = 0\<rparr>,
     pd_packets_in = 0, pd_batches = 0, pd_peak_batch = 0, pd_allocations = 0, pd_reuses = 0\<rparr>"

definition receive_packet :: "bytes \<Rightarrow> packetd \<Rightarrow> packetd \<times> (packetd_error + unit)" where
  "receive_packet bs d = (case push_received_packet (pd_batch d) (pd_spare d) bs of
       (batch, spare, Inl e) \<Rightarrow> (d\<lparr>pd_batch := batch, pd_spare := spare\<rparr>, Inl (PacketFailed e))
     | (batch, spare, Inr reused) \<Rightarrow>
         let d = d\<lparr>pd_batch := batch, pd_spare := spare\<rparr> in
         (if reused then d\<lparr>pd_reuses := saturating_add_u64 (pd_reuses d) 1\<rparr>
          else d\<lparr>pd_allocations := saturating_add_u64 (pd_allocations d) 1\<rparr>, Inr ()))"

lemma receive_packet_batch: "receive_packet bs d = (d', Inr ()) \<Longrightarrow> pd_batch d' = pd_batch d @ [RawPacket bs]"
  by (auto simp: receive_packet_def Let_def split: prod.splits sum.splits dest: push_received_packet_batch)

text \<open>More packets until the batch is full, the deadline passes, a read times out or gives nothing.\<close>

function fill_batch :: "nat \<Rightarrow> nat \<Rightarrow> (nat \<Rightarrow> tun_wait) \<Rightarrow> nat \<Rightarrow> packetd \<Rightarrow> (packetd \<times> (packetd_error + unit)) option" where
  "fill_batch buffer_len capacity waits i d =
     (if \<not> length (pd_batch d) < capacity then Some (d, Inr ())
      else (case waits i of
          DeadlinePassed \<Rightarrow> Some (d, Inr ())
        | Waited ReadTimedOut \<Rightarrow> Some (d, Inr ())
        | Waited ReadFailed \<Rightarrow> Some (d, Inl BatchReadFailed)
        | Waited (Received bs) \<Rightarrow>
            if bs = [] then Some (d, Inr ())
            else if \<not> length bs \<le> buffer_len then None
            else (case receive_packet bs d of
                (d', Inl e) \<Rightarrow> Some (d', Inl e)
              | (d', Inr _) \<Rightarrow> fill_batch buffer_len capacity waits (Suc i) d')))"
  by pat_completeness auto
termination
  by (relation "measure (\<lambda>(_, capacity, _, _, d). capacity - length (pd_batch d))")
    (auto simp: receive_packet_batch)

declare fill_batch.simps [simp del]

definition serve_batch :: "(bytes list \<Rightarrow> bytes \<Rightarrow> tun_write) \<Rightarrow> packetd \<Rightarrow> (packetd \<times> (packetd_error + unit)) option" where
  "serve_batch writes d = do {
     let d = d\<lparr>pd_packets_in := saturating_add_u64 (pd_packets_in d) (of_nat (length (pd_batch d))),
               pd_batches := saturating_add_u64 (pd_batches d) 1,
               pd_peak_batch := max (pd_peak_batch d) (length (pd_batch d))\<rparr>;
     (engine, out, r) \<leftarrow> engine_process_batch_to (pd_engine d) (pd_batch d) (send_response writes) (pd_out d);
     Some (d\<lparr>pd_engine := engine, pd_out := out\<rparr>, (case r of Inl e \<Rightarrow> Inl (PacketFailed e) | Inr _ \<Rightarrow> Inr ())) }"

definition packetd_turn :: "nat \<Rightarrow> nat \<Rightarrow> (bytes list \<Rightarrow> bytes \<Rightarrow> tun_write) \<Rightarrow> packetd \<Rightarrow> turn \<Rightarrow> (packetd \<times> (packetd_error + unit)) option" where
  "packetd_turn buffer_len capacity writes d t =
     (let d = d\<lparr>pd_spare := pd_spare d @ pd_batch d, pd_batch := []\<rparr> in
      case tu_first t of
        Received bs \<Rightarrow>
          if bs = [] then Some (d, Inr ())
          else if \<not> length bs \<le> buffer_len then None
          else (case receive_packet bs d of
              (d, Inl e) \<Rightarrow> Some (d, Inl e)
            | (d, Inr _) \<Rightarrow> do {
                (d, r) \<leftarrow> fill_batch buffer_len capacity (tu_waits t) 0 d;
                case r of Inl e \<Rightarrow> Some (d, Inl e) | Inr _ \<Rightarrow> serve_batch writes d })
      | _ \<Rightarrow> Some (d, Inl FirstReadFailed))"

fun packetd_loop :: "nat \<Rightarrow> nat \<Rightarrow> (bytes list \<Rightarrow> bytes \<Rightarrow> tun_write) \<Rightarrow> packetd \<Rightarrow> turn list \<Rightarrow> (packetd \<times> (packetd_error + unit)) option" where
  "packetd_loop buffer_len capacity writes d [] = Some (d, Inr ())"
| "packetd_loop buffer_len capacity writes d (t # ts) = do {
     (d, r) \<leftarrow> packetd_turn buffer_len capacity writes d t;
     case r of Inl e \<Rightarrow> Some (d, Inl e) | Inr _ \<Rightarrow> packetd_loop buffer_len capacity writes d ts }"

end
