(* ===== verification/PacketDaemonProofs.thy ===== *)
theory PacketDaemonProofs
  imports PacketDaemon
begin

text \<open>
  The packet daemon: which engine it chooses (\<open>engine_selected\<close>) and how many packets it ever
  holds (\<open>packetd_loop_pool\<close>).
\<close>

section \<open>The choice of the engine\<close>

lemma gpu_creation_valid:
  "gpu_packet_engine_new shader_body adapter events config = ok eng \<Longrightarrow> valid_config config"
  using validate_config_iff [of config] by (auto simp: gpu_packet_engine_new_def split: sum.splits)

lemma outcome_cases:
  obtains (Panic) "m = None" | (Fails) e where "m = fail e" | (Returns) x where "m = ok x"
proof (cases m)
  case (Some r)
  then show thesis using that(2,3) by (cases r) (simp_all add: ok_def fail_def)
qed (rule that(1))

text \<open>What \<open>select_engine\<close> promises of a selection.\<close>

definition honest_selection :: "string \<Rightarrow> (packet_engine_error, packet_gpu gpu_packet_engine) outcome \<Rightarrow> packet_backend_choice
    \<Rightarrow> packet_engine_config \<Rightarrow> selected_engine \<Rightarrow> bool" where
  "honest_selection adapter_name gpu choice config sel \<longleftrightarrow> (case se_engine sel of
       CpuPacketEngine eng \<Rightarrow> cpu_packet_engine_new config = Inr eng \<and> se_adapter sel = None
         \<and> (choice = PacketCpu \<and> se_fallback_reason sel = None
            \<or> choice = PacketAuto \<and> (\<exists>e. gpu = fail e \<and> se_fallback_reason sel = Some e))
     | GpuPacketEngine eng \<Rightarrow> gpu = ok eng \<and> choice \<noteq> PacketCpu \<and> se_adapter sel = Some adapter_name
         \<and> se_fallback_reason sel = None)"

lemma select_engine_cases:
  assumes "gpu_packet_engine_new shader_body adapter events config = gpu"
  shows "(case select_engine shader_body adapter_name adapter events choice config of
       None \<Rightarrow> False
     | Some (Inl e) \<Rightarrow> \<not> valid_config config \<or> choice = PacketGpu \<and> gpu = fail e
     | Some (Inr sel) \<Rightarrow> valid_config config \<and> honest_selection adapter_name gpu choice config sel)"
proof -
  have gpu: "gpu \<noteq> None" "\<And>eng. gpu = ok eng \<Longrightarrow> valid_config config"
    using creation_total [of shader_body adapter events config] gpu_creation_valid [where shader_body = shader_body and adapter = adapter and events = events]
    by (simp_all add: assms)
  consider (bad) e where "new_cpu_engine config = fail e" "\<not> valid_config config"
    | (good) eng where "new_cpu_engine config = ok (CpuPacketEngine eng)" "cpu_packet_engine_new config = Inr eng" "valid_config config"
    using validate_config_iff [of config] by (force simp: new_cpu_engine_def cpu_packet_engine_new_def split: sum.splits)
  note cpu = this
  note unfold = select_engine_def select_gpu_def assms honest_selection_def
  show ?thesis
  proof (cases choice)
    case PacketCpu
    then show ?thesis by (cases rule: cpu) (simp_all add: unfold and_then_def ok_def fail_def)
  next
    case PacketGpu
    then show ?thesis using gpu by (cases gpu rule: outcome_cases) (simp_all add: unfold and_then_def ok_def fail_def)
  next
    case PacketAuto
    show ?thesis
    proof (cases gpu rule: outcome_cases)
      case (Fails e)
      then show ?thesis using PacketAuto
        by (cases rule: cpu) (simp_all add: unfold and_then_def ok_def fail_def)
    qed (use gpu PacketAuto in \<open>simp_all add: unfold ok_def fail_def\<close>)
  qed
qed

text \<open>C32: the choice of the engine is total and honest. Selection never panics; it fails exactly for an invalid
  configuration, or when the GPU is demanded and cannot be had. The selected engine is a GPU engine that was
  really created, under the adapter's name and without a fallback reason, or the CPU engine, without an adapter: by
  request without a fallback reason, by the automatic choice with the error of the GPU as the reason.\<close>

theorem engine_selected:
  "\<exists>r. select_engine shader_body adapter_name adapter events choice config = Some r
    \<and> ((\<exists>sel. r = Inr sel) \<longleftrightarrow> valid_config config
       \<and> (choice = PacketGpu \<longrightarrow> (\<exists>eng. gpu_packet_engine_new shader_body adapter events config = ok eng)))
    \<and> (\<forall>sel. r = Inr sel \<longrightarrow>
         honest_selection adapter_name (gpu_packet_engine_new shader_body adapter events config) choice config sel)"
proof -
  let ?gpu = "gpu_packet_engine_new shader_body adapter events config"
  note cases = select_engine_cases [OF refl, where shader_body = shader_body and adapter = adapter and events = events and config = config and adapter_name = adapter_name and choice = choice]
  have "\<exists>eng. gpu = ok eng" if "honest_selection adapter_name gpu PacketGpu config sel" for gpu sel
    using that by (auto simp: honest_selection_def split: packet_engine.splits)
  then show ?thesis using cases by (cases choice) (auto simp: fail_def ok_def split: option.splits sum.splits)
qed

theorem engine_selected_witness:
  "\<exists>sel. select_engine [] ''none'' None (\<lambda>w. sample_wave) PacketAuto default_packet_engine_config = Some (Inr sel)
    \<and> honest_selection ''none'' (fail NoPacketAdapter) PacketAuto default_packet_engine_config sel"
proof -
  have "gpu_packet_engine_new [] None (\<lambda>w. sample_wave) default_packet_engine_config = fail NoPacketAdapter"
    by (simp add: gpu_packet_engine_new_def)
  then show ?thesis
    using engine_selected [of "[]" "''none''" None "\<lambda>w. sample_wave" PacketAuto default_packet_engine_config]
      validate_config_iff [of default_packet_engine_config] by auto
qed

section \<open>What the daemon holds\<close>

lemma unat_max_u64: "unat (- 1 :: u64) = 2 ^ 64 - 1"
  by (simp add: unsigned_minus_1_eq_mask mask_eq_exp_minus_1)

lemma saturating_add_u64_unat: "unat (saturating_add_u64 a b) = min (unat a + unat b) (2 ^ 64 - 1)"
proof -
  have a: "unat (- 1 - a) = 2 ^ 64 - 1 - unat a" using unat_sub [of a "- 1"] unat_max_u64 by simp
  have lt: "unat a < 2 ^ 64" using unsigned_less [of a] by simp
  show ?thesis
  proof (cases "b \<le> - 1 - a")
    case True
    then have "unat a + unat b < 2 ^ 64" using lt a unfolding word_le_nat_alt by linarith
    then show ?thesis using True by (simp add: saturating_add_u64_def unat_word_ariths)
  next
    case False
    then have "2 ^ 64 - 1 - unat a < unat b" using a unfolding word_le_nat_alt by linarith
    then show ?thesis using False lt by (simp only: saturating_add_u64_def if_False unat_max_u64)
  qed
qed

text \<open>The packets the daemon owns, in the batch and in the pool, number at most its batch capacity.\<close>

definition pool_ok :: "nat \<Rightarrow> packetd \<Rightarrow> bool" where
  "pool_ok capacity d \<longleftrightarrow> length (pd_spare d) + length (pd_batch d) \<le> capacity \<and> unat (pd_allocations d) \<le> capacity
     \<and> pd_peak_batch d \<le> capacity \<and> (\<forall>p\<in>set (pd_batch d). wf_packet p)"

definition pool_exact :: "packetd \<Rightarrow> bool" where
  "pool_exact d \<longleftrightarrow> unat (pd_allocations d) = length (pd_spare d) + length (pd_batch d)"

abbreviation pool_step :: "nat \<Rightarrow> packetd \<times> (packetd_error + unit) \<Rightarrow> bool" where
  "pool_step capacity \<equiv> \<lambda>(d, r). pool_ok capacity d \<and> (r = Inr () \<longrightarrow> pool_exact d)"

lemma receive_packet_pool:
  assumes "pool_ok capacity d" "pool_exact d" "length (pd_batch d) < capacity" "capacity \<le> U32_MAX"
  shows "pool_step capacity (receive_packet bs d)"
proof (cases "raw_packet_new bs")
  case (Inl e)
  then show ?thesis using assms
    by (auto simp: receive_packet_def push_received_packet_def replace_from_slice_eq_new copy_from_slice_def pool_ok_def)
next
  case (Inr p)
  then have p: "p = RawPacket bs" "wf_packet (RawPacket bs)" by (auto simp: raw_packet_new_Inr_iff)
  show ?thesis
  proof (cases "pd_spare d = []")
    case True
    then have "unat (saturating_add_u64 (pd_allocations d) 1) = Suc (length (pd_batch d))"
      using assms by (simp add: saturating_add_u64_unat pool_exact_def U32_MAX_def)
    then show ?thesis using assms p Inr True
      by (simp add: receive_packet_def push_received_packet_def copy_from_slice_def pool_ok_def pool_exact_def Let_def)
  next
    case False
    then have "0 < length (pd_spare d)" by simp
    then show ?thesis using assms p Inr False
      by (auto simp: receive_packet_def push_received_packet_def replace_from_slice_eq_new pool_ok_def pool_exact_def Let_def)
  qed
qed

lemma fill_batch_pool:
  assumes "pool_ok capacity d" "pool_exact d" "capacity \<le> U32_MAX" "fill_batch buffer_len capacity waits i d = Some dr"
  shows "pool_step capacity dr"
  using assms
proof (induction buffer_len capacity waits i d rule: fill_batch.induct)
  case (1 buffer_len capacity waits i d)
  show ?case
  proof (cases "length (pd_batch d) < capacity \<and> (\<exists>bs. waits i = Waited (Received bs) \<and> bs \<noteq> [] \<and> length bs \<le> buffer_len)")
    case True
    then obtain bs where w: "length (pd_batch d) < capacity" "waits i = Waited (Received bs)" "bs \<noteq> []" "length bs \<le> buffer_len" by blast
    obtain d' r where one: "receive_packet bs d = (d', r)" by (metis surj_pair)
    note pool = receive_packet_pool [OF "1.prems"(1,2) w(1) "1.prems"(3), of bs, unfolded one prod.case]
    have code: "(case r of Inl e \<Rightarrow> Some (d', Inl e) | Inr _ \<Rightarrow> fill_batch buffer_len capacity waits (Suc i) d') = Some dr"
      using "1.prems"(4) w one by (subst (asm) fill_batch.simps) simp
    show ?thesis
    proof (cases r)
      case (Inr u)
      show ?thesis
        by (rule "1.IH" [OF _ w(2) refl w(3) _ one [symmetric] Inr]) (use w pool Inr code "1.prems"(3) in simp_all)
    qed (use pool code in auto)
  next
    case False
    then have "dr = (d, Inr ()) \<or> dr = (d, Inl BatchReadFailed)" using "1.prems"(4)
      by (subst (asm) fill_batch.simps) (simp split: tun_wait.splits tun_read.splits if_splits)
    then show ?thesis using "1.prems"(1,2) by auto
  qed
qed

lemma serve_batch_pool:
  assumes "pool_ok capacity d" "pool_exact d" "serve_batch writes d = Some dr"
  shows "pool_step capacity dr"
  using assms by (auto simp: serve_batch_def Let_def pool_ok_def pool_exact_def split: Option.bind_splits)

lemma packetd_turn_pool:
  assumes "pool_ok capacity d" "pool_exact d" "0 < capacity" "capacity \<le> U32_MAX" "packetd_turn buffer_len capacity writes d t = Some dr"
  shows "pool_step capacity dr"
proof -
  let ?d = "d\<lparr>pd_spare := pd_spare d @ pd_batch d, pd_batch := []\<rparr>"
  have d: "pool_ok capacity ?d" "pool_exact ?d" using assms(1,2) by (simp_all add: pool_ok_def pool_exact_def)
  have "length (pd_batch ?d) < capacity" using assms(3) by simp
  note first = receive_packet_pool [OF d this assms(4)]
  show ?thesis
  proof (cases "\<exists>bs. tu_first t = Received bs \<and> bs \<noteq> [] \<and> length bs \<le> buffer_len")
    case True
    then obtain bs where w: "tu_first t = Received bs" "bs \<noteq> []" "length bs \<le> buffer_len" by blast
    obtain d' r' where one: "receive_packet bs ?d = (d', r')" by (metis surj_pair)
    note pool = first [of bs, unfolded one prod.case]
    show ?thesis
    proof (cases r')
      case (Inr u)
      obtain d'' r where fill: "fill_batch buffer_len capacity (tu_waits t) 0 d' = Some (d'', r)"
        "(case r of Inl e \<Rightarrow> Some (d'', Inl e) | Inr _ \<Rightarrow> serve_batch writes d'') = Some dr"
        using assms(5) w one Inr by (auto simp: packetd_turn_def split: Option.bind_splits)
      have pool: "pool_step capacity (d'', r)" using pool Inr by (intro fill_batch_pool [OF _ _ assms(4) fill(1)]) simp_all
      then show ?thesis using fill(2) serve_batch_pool [of capacity d'' writes dr] by (cases r) auto
    next
      case (Inl e)
      then show ?thesis using assms(5) w one pool by (simp add: packetd_turn_def) blast
    qed
  next
    case False
    then have "dr = (?d, Inr ()) \<or> dr = (?d, Inl FirstReadFailed)" using assms(5)
      by (simp add: packetd_turn_def Let_def split: tun_read.splits if_splits)
    then show ?thesis using d by auto
  qed
qed

lemma packetd_loop_pool:
  assumes "pool_ok capacity d" "pool_exact d" "0 < capacity" "capacity \<le> U32_MAX" "packetd_loop buffer_len capacity writes d ts = Some dr"
  shows "pool_step capacity dr"
  using assms(1,2,5)
proof (induction ts arbitrary: d)
  case (Cons t ts)
  from Cons.prems(3) obtain d1 r where one: "packetd_turn buffer_len capacity writes d t = Some (d1, r)"
    and rest: "(case r of Inl e \<Rightarrow> Some (d1, Inl e) | Inr _ \<Rightarrow> packetd_loop buffer_len capacity writes d1 ts) = Some dr"
    by (auto split: Option.bind_splits)
  note pool = packetd_turn_pool [OF Cons.prems(1,2) assms(3,4) one]
  show ?case
  proof (cases r)
    case (Inr u)
    then show ?thesis using pool rest Cons.IH [of d1] by simp
  qed (use pool rest in auto)
qed auto

end
