(* ===== verification/PacketDaemonServes.thy ===== *)
theory PacketDaemonServes
  imports PacketDaemonProofs
begin

text \<open>
  What the packet daemon sends. \<open>daemon_engine\<close> is what its loop expects of a packet engine; both engines are
  shown to be one.
\<close>

section \<open>What a round reads\<close>

fun awaited :: "nat \<Rightarrow> (nat \<Rightarrow> tun_wait) \<Rightarrow> nat \<Rightarrow> bytes list" where
  "awaited 0 waits i = []"
| "awaited (Suc n) waits i = (case waits i of
       Waited (Received bs) \<Rightarrow> if bs = [] then [] else bs # awaited n waits (Suc i)
     | _ \<Rightarrow> [])"

definition turn_packets :: "nat \<Rightarrow> turn \<Rightarrow> raw_packet list" where
  "turn_packets capacity t = (case tu_first t of
       Received bs \<Rightarrow> if bs = [] then [] else map RawPacket (bs # awaited (capacity - 1) (tu_waits t) 0)
     | _ \<Rightarrow> [])"

text \<open>The device works, and gives no packet of more than \<open>MAX_RAW_PACKET_BYTES\<close>.\<close>

definition sized_read :: "tun_read \<Rightarrow> bool" where
  "sized_read r \<longleftrightarrow> r \<noteq> ReadFailed \<and> (\<forall>bs. r = Received bs \<longrightarrow> length bs \<le> MAX_RAW_PACKET_BYTES)"

definition orderly :: "turn \<Rightarrow> bool" where
  "orderly t \<longleftrightarrow> tu_first t \<noteq> ReadTimedOut \<and> sized_read (tu_first t) \<and> (\<forall>i r. tu_waits t i = Waited r \<longrightarrow> sized_read r)"

definition takes_all :: "(bytes list \<Rightarrow> bytes \<Rightarrow> tun_write) \<Rightarrow> bool" where
  "takes_all writes \<longleftrightarrow> (\<forall>taken bs. writes taken bs = Accepted (length bs))"

lemma receive_packet_ok:
  assumes "bs \<noteq> []" "length bs \<le> MAX_RAW_PACKET_BYTES"
  shows "\<exists>d'. receive_packet bs d = (d', Inr ()) \<and> pd_batch d' = pd_batch d @ [RawPacket bs]
    \<and> pd_engine d' = pd_engine d \<and> pd_out d' = pd_out d"
  using assms by (auto simp: receive_packet_def push_received_packet_def replace_from_slice_eq_new copy_from_slice_def raw_packet_new_def Let_def)

lemma fill_batch_reads:
  assumes "\<forall>j r. waits j = Waited r \<longrightarrow> sized_read r" "MAX_RAW_PACKET_BYTES \<le> buffer_len"
  shows "\<exists>d'. fill_batch buffer_len capacity waits i d = Some (d', Inr ())
    \<and> pd_batch d' = pd_batch d @ map RawPacket (awaited (capacity - length (pd_batch d)) waits i)
    \<and> pd_engine d' = pd_engine d \<and> pd_out d' = pd_out d"
  using assms
proof (induction buffer_len capacity waits i d rule: fill_batch.induct)
  case (1 buffer_len capacity waits i d)
  show ?case
  proof (cases "length (pd_batch d) < capacity \<and> (\<exists>bs. waits i = Waited (Received bs) \<and> bs \<noteq> [])")
    case True
    then obtain bs where w: "length (pd_batch d) < capacity" "waits i = Waited (Received bs)" "bs \<noteq> []" by blast
    have len: "length bs \<le> MAX_RAW_PACKET_BYTES" using "1.prems"(1) w(2) by (simp add: sized_read_def)
    then have fits: "\<not> \<not> length bs \<le> buffer_len" using "1.prems"(2) by simp
    obtain d1 where one: "receive_packet bs d = (d1, Inr ())" "pd_batch d1 = pd_batch d @ [RawPacket bs]"
      "pd_engine d1 = pd_engine d" "pd_out d1 = pd_out d" using receive_packet_ok [OF w(3) len, of d] by blast
    have room: "\<not> \<not> length (pd_batch d) < capacity" using w(1) by simp
    from "1.IH" [OF room w(2) refl w(3) fits one(1) [symmetric] refl "1.prems"] obtain d' where
      IH: "fill_batch buffer_len capacity waits (Suc i) d1 = Some (d', Inr ())"
        "pd_batch d' = pd_batch d1 @ map RawPacket (awaited (capacity - length (pd_batch d1)) waits (Suc i))"
        "pd_engine d' = pd_engine d1" "pd_out d' = pd_out d1" by blast
    have "capacity - length (pd_batch d) = Suc (capacity - length (pd_batch d1))" using w(1) one(2) by simp
    moreover have "fill_batch buffer_len capacity waits i d = Some (d', Inr ())"
      using room w fits one(1) IH(1) by (subst fill_batch.simps) simp
    ultimately show ?thesis using one IH w by simp
  next
    case False
    then have stop: "awaited (capacity - length (pd_batch d)) waits i = []"
      by (cases "capacity - length (pd_batch d)") (auto split: tun_wait.split tun_read.split)
    have "fill_batch buffer_len capacity waits i d = Some (d, Inr ())"
      using False "1.prems"(1) [rule_format, of i]
      by (subst fill_batch.simps) (auto simp: sized_read_def split: tun_wait.split tun_read.split)
    then show ?thesis using stop by simp
  qed
qed

section \<open>What a round sends\<close>

definition answer_bytes :: "raw_packet option list \<Rightarrow> bytes list" where
  "answer_bytes outs = List.map_filter (map_option as_bytes) outs"

lemma answer_bytes_simps [simp]:
  "answer_bytes [] = []" "answer_bytes (None # outs) = answer_bytes outs" "answer_bytes (Some p # outs) = as_bytes p # answer_bytes outs"
  "answer_bytes (outs @ outs') = answer_bytes outs @ answer_bytes outs'"
  by (simp_all add: answer_bytes_def List.map_filter_def)

definition counted :: "tun_out \<Rightarrow> bool" where
  "counted out \<longleftrightarrow> unat (packets_out out) = min (length (tx_sent out)) (2 ^ 64 - 1)"

lemma send_all_takes:
  assumes "takes_all writes" "counted s"
  shows "\<exists>s'. send_all (send_response writes) s xs = Some (s', Inr ()) \<and> tx_sent s' = tx_sent s @ answer_bytes (map snd xs) \<and> counted s'"
  using assms(2)
proof (induction xs arbitrary: s)
  case (Cons x xs)
  obtain i q where x: "x = (i, q)" by (cases x)
  show ?case
  proof (cases q)
    case None
    then show ?thesis using Cons by (simp add: x send_response_def)
  next
    case (Some p)
    let ?s = "\<lparr>tx_sent = tx_sent s @ [as_bytes p], packets_out = saturating_add_u64 (packets_out s) 1\<rparr>"
    have "counted ?s" using Cons.prems by (simp add: counted_def saturating_add_u64_unat)
    from Cons.IH [OF this] obtain s' where "send_all (send_response writes) ?s xs = Some (s', Inr ())"
      "tx_sent s' = tx_sent s @ [as_bytes p] @ answer_bytes (map snd xs)" "counted s'" by auto
    moreover have "send_response writes s i (Some (as_bytes p)) = Some (?s, Inr ())"
      using assms(1) by (simp add: send_response_def takes_all_def)
    ultimately show ?thesis by (simp add: x Some)
  qed
qed simp

text \<open>The answers that go to the client of a connection, in the order in which they are sent.\<close>

definition sent_to :: "flow_key \<Rightarrow> bytes list \<Rightarrow> bytes list" where
  "sent_to key = filter (\<lambda>bs. key_at bs = reversed key)"

lemma sent_to_append [simp]: "sent_to key (xs @ ys) = sent_to key xs @ sent_to key ys"
  by (simp add: sent_to_def)

definition delivers :: "bytes list \<Rightarrow> raw_packet option list \<Rightarrow> bool" where
  "delivers bss outs \<longleftrightarrow> mset bss = mset (answer_bytes outs) \<and> (\<forall>key. sent_to key bss = sent_to key (answer_bytes outs))"

lemma delivers_append: "delivers xs outs \<Longrightarrow> delivers ys outs' \<Longrightarrow> delivers (xs @ ys) (outs @ outs')"
  by (simp add: delivers_def)

lemma mset_answer_bytes: "mset outs = mset outs' \<Longrightarrow> mset (answer_bytes outs) = mset (answer_bytes outs')"
  by (simp add: answer_bytes_def List.map_filter_def)

definition goes_back :: "raw_packet list \<Rightarrow> raw_packet option list \<Rightarrow> bool" where
  "goes_back pkts outs \<longleftrightarrow> (\<forall>i<length pkts. \<forall>q. outs ! i = Some q \<longrightarrow>
     (\<exists>key. packet_key (pkts ! i) = Some key \<and> key_at (as_bytes q) = reversed key))"

lemma sent_to_order:
  assumes "goes_back pkts outs" "set is \<subseteq> {..<length pkts}"
  shows "sent_to key (answer_bytes (map ((!) outs) is)) = answer_bytes (map ((!) outs) (of_flow pkts (Some key) is))"
  using assms(2)
proof (induction "is")
  case (Cons i "is")
  then have i: "i < length pkts" by simp
  show ?case
  proof (cases "outs ! i")
    case (Some q)
    then obtain k where "packet_key (pkts ! i) = Some k" "key_at (as_bytes q) = reversed k"
      using assms(1) i unfolding goes_back_def by blast
    then show ?thesis using Cons by (auto simp: Some sent_to_def)
  qed (use Cons in simp)
qed (simp add: sent_to_def)

lemma order_delivers:
  assumes "goes_back pkts outs" "length outs = length pkts" "distinct order" "set order = {..<length pkts}"
    "\<forall>k. of_flow pkts (Some k) order = of_flow pkts (Some k) [0..<length pkts]"
  shows "delivers (answer_bytes (map ((!) outs) order)) outs"
proof -
  let ?all = "[0..<length pkts]"
  have outs: "map ((!) outs) ?all = outs" by (metis assms(2) map_nth)
  have sub: "set order \<subseteq> {..<length pkts}" "set ?all \<subseteq> {..<length pkts}" by (simp_all add: assms(4) atLeast0LessThan)
  have "mset order = mset ?all"
    using assms(3,4) by (intro iffD1 [OF set_eq_iff_mset_eq_distinct]) (simp_all add: atLeast0LessThan)
  then have "mset (map ((!) outs) order) = mset (map ((!) outs) ?all)" by (simp only: mset_map)
  then have "mset (answer_bytes (map ((!) outs) order)) = mset (answer_bytes outs)" unfolding outs by (rule mset_answer_bytes)
  moreover have "sent_to key (answer_bytes (map ((!) outs) order)) = sent_to key (answer_bytes outs)" for key
  proof -
    have "of_flow pkts (Some key) order = of_flow pkts (Some key) ?all" using assms(5) by blast
    then show ?thesis using sent_to_order [OF assms(1) sub(1), of key] sent_to_order [OF assms(1) sub(2), of key, unfolded outs] by argo
  qed
  ultimately show ?thesis by (simp add: delivers_def)
qed

section \<open>What the daemon expects of an engine\<close>

text \<open>
  \<open>conns\<close> is an engine's view of the connections, \<open>run\<close> what it makes of a batch. A ready engine hands the
  answers to a sink that takes them, in an order that keeps the order of each connection, and is ready again;
  an answer goes back to the sender of the packet it answers; batches compose.
\<close>

locale daemon_engine =
  fixes ready :: "packet_engine \<Rightarrow> bool" and admits :: "raw_packet list \<Rightarrow> bool" and conns :: "packet_engine \<Rightarrow> 'c"
    and run :: "'c \<Rightarrow> raw_packet list \<Rightarrow> 'c \<times> raw_packet option list"
  assumes serves: "ready eng \<Longrightarrow> admits pkts
      \<Longrightarrow> (\<And>order. set order \<subseteq> {..<length pkts} \<Longrightarrow> \<exists>s'. send_all sink (s :: tun_out) (map (\<lambda>i. (i, snd (run (conns eng) pkts) ! i)) order) = Some (s', Inr ()))
      \<Longrightarrow> \<exists>eng' s' order. engine_process_batch_to eng pkts sink s = Some (eng', s', Inr ())
        \<and> send_all sink s (map (\<lambda>i. (i, snd (run (conns eng) pkts) ! i)) order) = Some (s', Inr ())
        \<and> distinct order \<and> set order = {..<length pkts} \<and> (\<forall>k. of_flow pkts (Some k) order = of_flow pkts (Some k) [0..<length pkts])
        \<and> conns eng' = fst (run (conns eng) pkts) \<and> ready eng'"
    and answered: "goes_back pkts (snd (run c pkts))"
    and run_length: "length (snd (run c pkts)) = length pkts"
    and run_nil: "run c [] = (c, [])"
    and run_append: "run c (ps @ qs) = (fst (run (fst (run c ps)) qs), snd (run c ps) @ snd (run (fst (run c ps)) qs))"

context daemon_engine begin

lemma serve_batch_sends:
  assumes "ready (pd_engine d)" "admits (pd_batch d)" "takes_all writes" "counted (pd_out d)"
  obtains d' new where "serve_batch writes d = Some (d', Inr ())" "ready (pd_engine d')"
    "conns (pd_engine d') = fst (run (conns (pd_engine d)) (pd_batch d))" "counted (pd_out d')"
    "tx_sent (pd_out d') = tx_sent (pd_out d) @ new" "delivers new (snd (run (conns (pd_engine d)) (pd_batch d)))"
proof -
  let ?outs = "snd (run (conns (pd_engine d)) (pd_batch d))"
  have takes: "\<exists>s'. send_all (send_response writes) (pd_out d) (map (\<lambda>i. (i, ?outs ! i)) order) = Some (s', Inr ())" for order
    using send_all_takes [OF assms(3,4)] by blast
  from serves [OF assms(1,2) takes] obtain eng' s' order where
    batch: "engine_process_batch_to (pd_engine d) (pd_batch d) (send_response writes) (pd_out d) = Some (eng', s', Inr ())"
      "send_all (send_response writes) (pd_out d) (map (\<lambda>i. (i, ?outs ! i)) order) = Some (s', Inr ())"
    and order: "distinct order" "set order = {..<length (pd_batch d)}"
      "\<forall>k. of_flow (pd_batch d) (Some k) order = of_flow (pd_batch d) (Some k) [0..<length (pd_batch d)]"
    and eng': "conns eng' = fst (run (conns (pd_engine d)) (pd_batch d))" "ready eng'"
    by (elim exE conjE)
  have "tx_sent s' = tx_sent (pd_out d) @ answer_bytes (map ((!) ?outs) order)" "counted s'"
    using send_all_takes [OF assms(3,4), of "map (\<lambda>i. (i, ?outs ! i)) order"] batch(2) by (simp_all add: comp_def)
  moreover have "delivers (answer_bytes (map ((!) ?outs) order)) ?outs"
    by (rule order_delivers [OF answered run_length order])
  moreover define d' where "d' = d\<lparr>pd_packets_in := saturating_add_u64 (pd_packets_in d) (of_nat (length (pd_batch d))),
     pd_batches := saturating_add_u64 (pd_batches d) 1, pd_peak_batch := max (pd_peak_batch d) (length (pd_batch d)),
     pd_engine := eng', pd_out := s'\<rparr>"
  ultimately show thesis using eng' batch(1) by (intro that [of d']) (simp_all add: serve_batch_def Let_def)
qed

lemma packetd_turn_serves:
  assumes "ready (pd_engine d)" "admits (turn_packets capacity t)" "takes_all writes" "counted (pd_out d)" "orderly t"
    "MAX_RAW_PACKET_BYTES \<le> buffer_len" "0 < capacity"
  obtains d' new where "packetd_turn buffer_len capacity writes d t = Some (d', Inr ())" "ready (pd_engine d')"
    "conns (pd_engine d') = fst (run (conns (pd_engine d)) (turn_packets capacity t))" "counted (pd_out d')"
    "tx_sent (pd_out d') = tx_sent (pd_out d) @ new" "delivers new (snd (run (conns (pd_engine d)) (turn_packets capacity t)))"
proof -
  let ?d = "d\<lparr>pd_spare := pd_spare d @ pd_batch d, pd_batch := []\<rparr>"
  obtain bs where bs: "tu_first t = Received bs" "length bs \<le> MAX_RAW_PACKET_BYTES"
    using assms(5) by (cases "tu_first t") (auto simp: orderly_def sized_read_def)
  show thesis
  proof (cases "bs = []")
    case True
    then have "packetd_turn buffer_len capacity writes d t = Some (?d, Inr ())" "turn_packets capacity t = []"
      using bs by (simp_all add: packetd_turn_def turn_packets_def)
    then show thesis using assms(1,4) by (intro that [of ?d "[]"]) (simp_all add: run_nil delivers_def)
  next
    case False
    obtain d1 where one: "receive_packet bs ?d = (d1, Inr ())" "pd_batch d1 = [RawPacket bs]"
      "pd_engine d1 = pd_engine d" "pd_out d1 = pd_out d" using receive_packet_ok [OF False bs(2), of ?d] by auto
    have "\<forall>j r. tu_waits t j = Waited r \<longrightarrow> sized_read r" using assms(5) by (simp add: orderly_def)
    from fill_batch_reads [OF this assms(6), of capacity 0 d1] obtain d2 where
      fill: "fill_batch buffer_len capacity (tu_waits t) 0 d1 = Some (d2, Inr ())"
        "pd_batch d2 = turn_packets capacity t" "pd_engine d2 = pd_engine d" "pd_out d2 = pd_out d"
      using one False bs(1) by (auto simp: turn_packets_def)
    obtain d' new where serve: "serve_batch writes d2 = Some (d', Inr ())" "ready (pd_engine d')"
      "conns (pd_engine d') = fst (run (conns (pd_engine d)) (turn_packets capacity t))" "counted (pd_out d')"
      "tx_sent (pd_out d') = tx_sent (pd_out d) @ new" "delivers new (snd (run (conns (pd_engine d)) (turn_packets capacity t)))"
      by (rule serve_batch_sends [of d2 writes]) (use assms fill in simp_all)
    have "packetd_turn buffer_len capacity writes d t = Some (d', Inr ())"
      using bs False assms(6) one(1) fill(1) serve(1) by (simp add: packetd_turn_def)
    then show thesis using serve by (intro that)
  qed
qed

lemma packetd_loop_serves:
  assumes "ready (pd_engine d)" "\<forall>t\<in>set ts. orderly t \<and> admits (turn_packets capacity t)" "takes_all writes" "counted (pd_out d)"
    "MAX_RAW_PACKET_BYTES \<le> buffer_len" "0 < capacity"
  shows "\<exists>d' new. packetd_loop buffer_len capacity writes d ts = Some (d', Inr ())
    \<and> tx_sent (pd_out d') = tx_sent (pd_out d) @ new \<and> counted (pd_out d')
    \<and> delivers new (snd (run (conns (pd_engine d)) (concat (map (turn_packets capacity) ts))))"
  using assms(1,2,4)
proof (induction ts arbitrary: d)
  case Nil
  then show ?case by (simp add: run_nil delivers_def)
next
  case (Cons t ts)
  have t: "orderly t" "admits (turn_packets capacity t)" and ts: "\<forall>t\<in>set ts. orderly t \<and> admits (turn_packets capacity t)"
    using Cons.prems(2) by simp_all
  obtain d1 new where one: "packetd_turn buffer_len capacity writes d t = Some (d1, Inr ())" "ready (pd_engine d1)"
    "conns (pd_engine d1) = fst (run (conns (pd_engine d)) (turn_packets capacity t))" "counted (pd_out d1)"
    "tx_sent (pd_out d1) = tx_sent (pd_out d) @ new" "delivers new (snd (run (conns (pd_engine d)) (turn_packets capacity t)))"
    by (rule packetd_turn_serves [OF Cons.prems(1) t(2) assms(3) Cons.prems(3) t(1) assms(5,6)])
  from Cons.IH [OF one(2) ts one(4)] obtain d' rest where "packetd_loop buffer_len capacity writes d1 ts = Some (d', Inr ())"
    "tx_sent (pd_out d') = tx_sent (pd_out d1) @ rest" "counted (pd_out d')"
    "delivers rest (snd (run (conns (pd_engine d1)) (concat (map (turn_packets capacity) ts))))" by (elim exE conjE)
  then show ?case using one by (auto simp: run_append intro: delivers_append)
qed

end

section \<open>The CPU engine\<close>

fun engine_connections :: "packet_engine \<Rightarrow> table" where
  "engine_connections (CpuPacketEngine eng) = hm_get (ce_flows eng)"
| "engine_connections (GpuPacketEngine eng) = connections_of (ge_device_state eng)"

definition cpu_ready :: "packet_engine_config \<Rightarrow> packet_engine \<Rightarrow> bool" where
  "cpu_ready config e \<longleftrightarrow> (\<exists>eng. e = CpuPacketEngine eng \<and> ce_config eng = config \<and> table_inv config (ce_flows eng))"

lemma deliver_is_send_all: "deliver sink s i outs = send_all sink s (zip [i..<i + length outs] outs)"
proof (induction outs arbitrary: s i)
  case (Cons out outs)
  have "[i..<i + length (out # outs)] = i # [Suc i..<Suc i + length outs]" by (simp add: upt_conv_Cons del: upt_Suc)
  then show ?case by (simp only: zip_Cons_Cons deliver.simps send_all.simps Cons.IH)
qed simp

lemma cpu_goes_back: "goes_back pkts (snd (spec_batch config tbl pkts))"
  unfolding goes_back_def
proof (intro allI impI)
  fix i q assume "i < length pkts" "snd (spec_batch config tbl pkts) ! i = Some q"
  then have "sound_answer config (pkts ! i) q" by (rule spec_batch_sound)
  then show "\<exists>key. packet_key (pkts ! i) = Some key \<and> key_at (as_bytes q) = reversed key"
    by (auto simp: sound_answer_def parse_closed view_at_def dest: addressed_key split: if_splits)
qed

lemma cpu_serves:
  assumes "cpu_ready config eng"
    and sink: "\<And>order. set order \<subseteq> {..<length pkts} \<Longrightarrow>
      \<exists>s'. send_all sink s (map (\<lambda>i. (i, snd (spec_batch config (engine_connections eng) pkts) ! i)) order) = Some (s', Inr ())"
  shows "\<exists>eng' s' order. engine_process_batch_to eng pkts sink s = Some (eng', s', Inr ())
    \<and> send_all sink s (map (\<lambda>i. (i, snd (spec_batch config (engine_connections eng) pkts) ! i)) order) = Some (s', Inr ())
    \<and> distinct order \<and> set order = {..<length pkts} \<and> (\<forall>k. of_flow pkts (Some k) order = of_flow pkts (Some k) [0..<length pkts])
    \<and> engine_connections eng' = fst (spec_batch config (engine_connections eng) pkts) \<and> cpu_ready config eng'"
proof -
  obtain e where e: "eng = CpuPacketEngine e" "ce_config e = config" "table_inv (ce_config e) (ce_flows e)"
    using assms(1) by (auto simp: cpu_ready_def)
  let ?outs = "snd (spec_batch config (engine_connections eng) pkts)"
  let ?all = "[0..<length pkts]"
  obtain flows' where flows': "process_batch_into e pkts = Some (after_batch e pkts flows', ?outs, Inr ())" "table_inv config flows'"
    "hm_get flows' = fst (spec_batch config (engine_connections eng) pkts)"
    by (rule batch_simulates [OF e(3), of pkts]) (simp add: e)
  obtain s' where s': "send_all sink s (map (\<lambda>i. (i, ?outs ! i)) ?all) = Some (s', Inr ())"
    using sink [of ?all] by (auto simp: atLeast0LessThan)
  have "zip ?all ?outs = map (\<lambda>i. (i, ?outs ! i)) ?all" by (rule zip_answers [of _ _ "length pkts"]) simp_all
  then have "engine_process_batch_to eng pkts sink s = Some (CpuPacketEngine (after_batch e pkts flows'), s', Inr ())"
    using flows'(1) s' by (simp add: e(1) process_batch_to_def deliver_is_send_all)
  moreover have "cpu_ready config (CpuPacketEngine (after_batch e pkts flows'))" using e(2) flows'(2) by (simp add: cpu_ready_def)
  ultimately show ?thesis using s' flows'(3)
    by (intro exI [of _ "CpuPacketEngine (after_batch e pkts flows')"] exI [of _ s'] exI [of _ ?all]) (simp add: atLeast0LessThan)
qed

interpretation cpu_daemon: daemon_engine "cpu_ready config" "\<lambda>_. True" engine_connections "spec_batch config" for config
  by unfold_locales (rule cpu_serves cpu_goes_back, assumption | simp add: spec_batch_append Let_def split_def cpu_goes_back)+

section \<open>The GPU engine\<close>

definition gpu_ready :: "packet_engine_config \<Rightarrow> flow_key set \<Rightarrow> packet_engine \<Rightarrow> bool" where
  "gpu_ready config K e \<longleftrightarrow> (\<exists>eng. e = GpuPacketEngine eng \<and> packet_engine_ready config K eng)"

lemma segment_packet_key: "short_segment g \<Longrightarrow> key_at (as_bytes (segment_packet k g)) = reversed k"
  using built_fields(7) [of "reply_spec k (g_seq g) (g_ack g) (g_flags g) (g_payload g)"]
  by (simp add: segment_packet_def reply_def reply_spec_def short_segment_def MAX_RAW_PACKET_BYTES_def reversed_def)

lemma gpu_step_back: "snd (step_one (gpu_flow_step config) tbl p) = Some q \<Longrightarrow>
    \<exists>key. packet_key p = Some key \<and> key_at (as_bytes q) = reversed key"
  using gpu_conn_step_short segment_packet_key
  by (fastforce simp: step_one_def gpu_flow_step_def split_def split: option.splits)

lemma gpu_goes_back: "goes_back pkts (snd (run_seq (gpu_flow_step config) tbl pkts))"
proof (induction pkts arbitrary: tbl)
  case (Cons p pkts)
  then show ?case using gpu_step_back unfolding goes_back_def
    by (auto simp: Let_def split_def less_Suc_eq_0_disj)
qed (simp add: goes_back_def)

lemma gpu_serves:
  assumes "gpu_ready config K eng" "servable config K pkts"
    and sink: "\<And>order. set order \<subseteq> {..<length pkts} \<Longrightarrow>
      \<exists>s'. send_all sink s (map (\<lambda>i. (i, snd (run_seq (gpu_flow_step config) (engine_connections eng) pkts) ! i)) order) = Some (s', Inr ())"
  shows "\<exists>eng' s' order. engine_process_batch_to eng pkts sink s = Some (eng', s', Inr ())
    \<and> send_all sink s (map (\<lambda>i. (i, snd (run_seq (gpu_flow_step config) (engine_connections eng) pkts) ! i)) order) = Some (s', Inr ())
    \<and> distinct order \<and> set order = {..<length pkts} \<and> (\<forall>k. of_flow pkts (Some k) order = of_flow pkts (Some k) [0..<length pkts])
    \<and> engine_connections eng' = fst (run_seq (gpu_flow_step config) (engine_connections eng) pkts) \<and> gpu_ready config K eng'"
proof -
  obtain e where e: "eng = GpuPacketEngine e" "packet_engine_ready config K e" using assms(1) by (auto simp: gpu_ready_def)
  have conn: "engine_connections eng = connections_of (ge_device_state e)" by (simp add: e(1))
  have ok: "\<forall>p\<in>set pkts. wf_packet p \<and> served config K p" "length pkts \<le> FS_LIMIT" using assms(2) by (simp_all add: servable_def)
  have "\<exists>e' s' order. gpu_process_batch_to packet_gpu_device e pkts sink s = Some (e', s', Inr ())
      \<and> send_all sink s (map (\<lambda>i. (i, snd (run_seq (gpu_flow_step config) (connections_of (ge_device_state e)) pkts) ! i)) order) = Some (s', Inr ())
      \<and> distinct order \<and> set order = {..<length pkts} \<and> (\<forall>k. of_flow pkts (Some k) order = of_flow pkts (Some k) [0..<length pkts])
      \<and> connections_of (ge_device_state e') = fst (run_seq (gpu_flow_step config) (connections_of (ge_device_state e)) pkts)
      \<and> packet_engine_ready config K e' \<and> ge_packets e' = ge_packets e + of_nat (length pkts)"
    by (rule shader.gpu_batch_to_run [OF e(2) ok]) (rule sink [unfolded conn])
  then obtain e' s' order where
    "gpu_process_batch_to packet_gpu_device e pkts sink s = Some (e', s', Inr ())"
    "send_all sink s (map (\<lambda>i. (i, snd (run_seq (gpu_flow_step config) (connections_of (ge_device_state e)) pkts) ! i)) order) = Some (s', Inr ())"
    "distinct order" "set order = {..<length pkts}" "\<forall>k. of_flow pkts (Some k) order = of_flow pkts (Some k) [0..<length pkts]"
    "connections_of (ge_device_state e') = fst (run_seq (gpu_flow_step config) (connections_of (ge_device_state e)) pkts)"
    "packet_engine_ready config K e'" by (elim exE conjE)
  then show ?thesis unfolding conn
    by (intro exI [of _ "GpuPacketEngine e'"] exI [of _ s'] exI [of _ order]) (simp add: e(1) gpu_ready_def)
qed

interpretation gpu_daemon: daemon_engine "gpu_ready config K" "servable config K" engine_connections "run_seq (gpu_flow_step config)" for config K
  by unfold_locales (rule gpu_serves gpu_goes_back, assumption | simp add: run_seq_append gpu_goes_back)+

section \<open>The daemon\<close>

lemma start_simps [simp]:
  "pd_engine (packetd_start e) = e" "tx_sent (pd_out (packetd_start e)) = []" "counted (pd_out (packetd_start e))"
  by (simp_all add: packetd_start_def counted_def)

lemma buffer_large: "MAX_RAW_PACKET_BYTES \<le> tun_buffer_len c"
  by (simp add: MAX_RAW_PACKET_BYTES_def tun_buffer_len_def)

lemma capacity_of [simp]: "max_batch_size (packetd_engine_config c) = pc_batch_capacity c"
  by (simp add: packetd_engine_config_def)

text \<open>C11: on the CPU engine, by request or by fallback, the daemon answers what it receives. If in every turn no
  read fails or gives a packet of more than \<open>MAX_RAW_PACKET_BYTES\<close> and the first read gives a packet
  (\<open>orderly\<close>), and the device accepts every write in full (\<open>takes_all\<close>), then however the reads are spread
  over turns, cut by deadlines, time-outs and the batch capacity, the loop does not fail over these turns
  and sends exactly the answers of the abstract flow table to all packets received, each once, those to one
  client in their order; the counter of packets out counts them, saturating.\<close>

theorem packetd_serves_cpu:
  assumes "select_engine shader_body adapter_name adapter events (pc_backend c) (packetd_engine_config c) = ok sel"
    "se_engine sel = CpuPacketEngine eng" "\<forall>t\<in>set ts. orderly t" "takes_all writes"
  shows "\<exists>d'. packetd_loop (tun_buffer_len c) (pc_batch_capacity c) writes (packetd_start (se_engine sel)) ts = Some (d', Inr ())
    \<and> delivers (tx_sent (pd_out d'))
        (snd (spec_batch (packetd_engine_config c) Map.empty (concat (map (turn_packets (pc_batch_capacity c)) ts))))
    \<and> unat (packets_out (pd_out d')) = min (length (tx_sent (pd_out d'))) (2 ^ 64 - 1)"
proof -
  let ?config = "packetd_engine_config c"
  have sel: "valid_config ?config" "cpu_packet_engine_new ?config = Inr eng"
    using select_engine_cases [OF refl, where shader_body = shader_body and adapter = adapter and events = events and config = ?config
        and adapter_name = adapter_name and choice = "pc_backend c"] assms(1,2) by (simp_all add: ok_def honest_selection_def)
  have eng: "cpu_ready ?config (se_engine sel)" "engine_connections (se_engine sel) = Map.empty"
    using sel(2) by (auto simp: assms(2) cpu_ready_def cpu_packet_engine_new_def hm_get_def [abs_def] split: sum.splits)
  have "0 < pc_batch_capacity c" using sel(1) by (simp add: valid_config_def)
  from cpu_daemon.packetd_loop_serves [OF _ _ assms(4) _ buffer_large this, of ?config "packetd_start (se_engine sel)" ts c] assms(3) eng
  show ?thesis unfolding counted_def [of "pd_out d'" for d', symmetric] by auto
qed

definition sample_turn :: turn where
  "sample_turn = \<lparr>tu_first = Received (as_bytes sample_syn), tu_waits = (\<lambda>i. DeadlinePassed)\<rparr>"

definition accept_all :: "bytes list \<Rightarrow> bytes \<Rightarrow> tun_write" where
  "accept_all taken bs = Accepted (length bs)"

lemma takes_accept_all [simp]: "takes_all accept_all"
  by (simp add: takes_all_def accept_all_def)

lemma sample_turn_simps [simp]: "orderly sample_turn" "turn_packets n sample_turn = [sample_syn]"
proof -
  have "as_bytes sample_syn \<noteq> []" "length (as_bytes sample_syn) \<le> MAX_RAW_PACKET_BYTES"
    using sample_syn_servable by (simp_all add: servable_def wf_packet_def)
  moreover have "awaited n (\<lambda>i. DeadlinePassed) i = []" for n i by (cases n) simp_all
  ultimately show "orderly sample_turn" "turn_packets n sample_turn = [sample_syn]"
    by (simp_all add: orderly_def sized_read_def sample_turn_def turn_packets_def)
qed

lemma default_config_of_cli [simp]: "packetd_engine_config default_packetd_cli = default_packet_engine_config"
  by (simp add: packetd_engine_config_def default_packetd_cli_def default_packet_engine_config_def
      DEFAULT_FLOW_CAPACITY_def DEFAULT_FLOW_PROBE_LIMIT_def)

lemma default_cli_simps [simp]: "pc_backend default_packetd_cli = PacketAuto" "pc_batch_capacity default_packetd_cli = 256"
  by (simp_all add: default_packetd_cli_def default_packet_backend_choice_def)

lemma no_adapter_selection:
  "\<exists>sel. select_engine [] ''none'' None (\<lambda>w. sample_wave) PacketAuto default_packet_engine_config = ok sel
    \<and> (\<exists>eng. se_engine sel = CpuPacketEngine eng)"
  using default_config_valid
  by (auto simp: select_engine_def gpu_packet_engine_new_def fail_def new_cpu_engine_def cpu_packet_engine_new_def)

theorem packetd_serves_cpu_witness:
  "\<exists>sel d'. select_engine [] ''none'' None (\<lambda>w. sample_wave) PacketAuto default_packet_engine_config = ok sel
    \<and> packetd_loop (tun_buffer_len default_packetd_cli) 256 accept_all (packetd_start (se_engine sel)) [sample_turn, sample_turn] = Some (d', Inr ())
    \<and> delivers (tx_sent (pd_out d')) (snd (spec_batch default_packet_engine_config Map.empty [sample_syn, sample_syn]))"
proof -
  obtain sel eng where sel: "select_engine [] ''none'' None (\<lambda>w. sample_wave) PacketAuto default_packet_engine_config = ok sel"
    "se_engine sel = CpuPacketEngine eng" using no_adapter_selection by blast
  from packetd_serves_cpu [of "[]" "''none''" None "\<lambda>w. sample_wave" default_packetd_cli sel eng "[sample_turn, sample_turn]" accept_all] sel
  show ?thesis by auto
qed

text \<open>C10: on a capable adapter, unless the CPU is asked for, the daemon selects the GPU engine. If the
  configuration has room for a set \<open>K\<close> of connections (\<open>room_for\<close>), every wave completes, in every turn no read
  fails or gives a packet of more than \<open>MAX_RAW_PACKET_BYTES\<close> and the first read gives a packet (\<open>orderly\<close>),
  every connection addressed is in \<open>K\<close> (\<open>servable\<close>), and the device accepts every write in full, then the loop
  does not fail over these turns and sends exactly the answers of the sequential run of the shader's
  connection semantics over all packets received, each once, those to one client in their order.\<close>

theorem packetd_serves_gpu:
  assumes "pc_backend c \<noteq> PacketCpu" "room_for (packetd_engine_config c) K" "capable ad" "\<forall>w. wave_completes (events w)"
    "\<forall>t\<in>set ts. orderly t \<and> servable (packetd_engine_config c) K (turn_packets (pc_batch_capacity c) t)" "takes_all writes"
  shows "\<exists>sel d'. select_engine shader_body adapter_name (Some ad) events (pc_backend c) (packetd_engine_config c) = ok sel
    \<and> se_adapter sel = Some adapter_name \<and> engine_name (se_engine sel) = ''gpu-packet''
    \<and> packetd_loop (tun_buffer_len c) (pc_batch_capacity c) writes (packetd_start (se_engine sel)) ts = Some (d', Inr ())
    \<and> delivers (tx_sent (pd_out d'))
        (snd (run_seq (gpu_flow_step (packetd_engine_config c)) Map.empty (concat (map (turn_packets (pc_batch_capacity c)) ts))))"
proof -
  let ?config = "packetd_engine_config c"
  obtain eng where eng: "gpu_packet_engine_new shader_body (Some ad) events ?config = ok eng" "packet_engine_ready ?config K eng"
    "connections_of (ge_device_state eng) = Map.empty" using creation_ready [OF assms(2-4)] by blast
  let ?sel = "\<lparr>se_engine = GpuPacketEngine eng, se_adapter = Some adapter_name, se_fallback_reason = None\<rparr>"
  have sel: "select_engine shader_body adapter_name (Some ad) events (pc_backend c) ?config = ok ?sel"
    using assms(1) eng(1) by (cases "pc_backend c") (simp_all add: select_engine_def select_gpu_def, simp add: ok_def)
  have "gpu_ready ?config K (GpuPacketEngine eng)" using eng(2) by (simp add: gpu_ready_def)
  moreover have "0 < pc_batch_capacity c" using assms(2) by (simp add: room_for_def valid_config_def)
  ultimately show ?thesis
    using gpu_daemon.packetd_loop_serves [OF _ _ assms(6) _ buffer_large, of ?config K "packetd_start (GpuPacketEngine eng)" ts "pc_batch_capacity c" c]
      assms(5) eng(3) sel by auto
qed

theorem packetd_serves_gpu_witness:
  "\<exists>sel d'. select_engine [] ''sample'' (Some sample_adapter) (\<lambda>w. sample_wave) PacketAuto default_packet_engine_config = ok sel
    \<and> se_adapter sel = Some ''sample'' \<and> engine_name (se_engine sel) = ''gpu-packet''
    \<and> packetd_loop (tun_buffer_len default_packetd_cli) 256 accept_all (packetd_start (se_engine sel)) [sample_turn, sample_turn] = Some (d', Inr ())
    \<and> delivers (tx_sent (pd_out d')) (snd (run_seq (gpu_flow_step default_packet_engine_config) Map.empty [sample_syn, sample_syn]))"
  using packetd_serves_gpu [of default_packetd_cli "{sample_key}" sample_adapter "\<lambda>w. sample_wave" "[sample_turn, sample_turn]" accept_all "[]" "''sample''"]
    sample_syn_servable by (simp add: default_room)

section \<open>Packets of more than 1536 bytes\<close>

text \<open>The \<open>n\<close>-th read of a round, if the loop gets there before the deadline.\<close>

definition nth_read :: "turn \<Rightarrow> nat \<Rightarrow> tun_read option" where
  "nth_read t n = (case n of 0 \<Rightarrow> Some (tu_first t)
     | Suc j \<Rightarrow> (case tu_waits t j of DeadlinePassed \<Rightarrow> None | Waited r \<Rightarrow> Some r))"

definition plain_read :: "tun_read option \<Rightarrow> bool" where
  "plain_read r \<longleftrightarrow> (\<exists>bs. r = Some (Received bs) \<and> bs \<noteq> [] \<and> length bs \<le> MAX_RAW_PACKET_BYTES)"

lemma receive_oversized:
  assumes "MAX_RAW_PACKET_BYTES < length bs"
  shows "\<exists>d'. receive_packet bs d = (d', Inl (PacketFailed (OversizedPacket (length bs)))) \<and> pd_out d' = pd_out d \<and> pd_engine d' = pd_engine d"
proof -
  have "bs \<noteq> []" using assms by auto
  then show ?thesis using assms
    by (simp add: receive_packet_def push_received_packet_def replace_from_slice_eq_new copy_from_slice_def raw_packet_new_def)
qed

lemma fill_batch_oversized:
  assumes "\<forall>j. i \<le> j \<and> j < i + k \<longrightarrow> plain_read (nth_read t (Suc j))" "nth_read t (Suc (i + k)) = Some (Received bs)"
    "MAX_RAW_PACKET_BYTES < length bs" "length bs \<le> buffer_len" "length (pd_batch d) + k < capacity"
  shows "\<exists>d'. fill_batch buffer_len capacity (tu_waits t) i d = Some (d', Inl (PacketFailed (OversizedPacket (length bs))))
    \<and> pd_out d' = pd_out d \<and> pd_engine d' = pd_engine d"
  using assms(1,2,5)
proof (induction k arbitrary: i d)
  case 0
  then have "tu_waits t i = Waited (Received bs)" by (simp add: nth_read_def split: tun_wait.splits)
  moreover have "bs \<noteq> []" using assms(3) by auto
  ultimately show ?case using 0(3) assms(4) receive_oversized [OF assms(3), of d] by (subst fill_batch.simps) auto
next
  case (Suc k)
  have "plain_read (nth_read t (Suc i))" using Suc.prems(1) by simp
  then obtain bs' where w: "tu_waits t i = Waited (Received bs')" "bs' \<noteq> []" "length bs' \<le> MAX_RAW_PACKET_BYTES"
    by (auto simp: plain_read_def nth_read_def split: tun_wait.splits)
  obtain d1 where one: "receive_packet bs' d = (d1, Inr ())" "pd_batch d1 = pd_batch d @ [RawPacket bs']"
    "pd_engine d1 = pd_engine d" "pd_out d1 = pd_out d" using receive_packet_ok [OF w(2,3), of d] by blast
  have "\<exists>d'. fill_batch buffer_len capacity (tu_waits t) (Suc i) d1 = Some (d', Inl (PacketFailed (OversizedPacket (length bs))))
      \<and> pd_out d' = pd_out d1 \<and> pd_engine d' = pd_engine d1"
    using Suc.prems one(2) by (intro Suc.IH) simp_all
  then show ?case using w one Suc.prems(3) assms(3,4) by (subst fill_batch.simps) auto
qed

text \<open>C38: one packet of more than \<open>MAX_RAW_PACKET_BYTES\<close> bytes ends the daemon. The receive buffer has at least 2048
  bytes, so such a packet is read; whichever read of a round gives it, the loop returns its error, the
  packets received before it in the round are not answered, and no further round is run.\<close>

theorem oversized_packet_ends_daemon:
  assumes "n < pc_batch_capacity c" "\<forall>j<n. plain_read (nth_read t j)" "nth_read t n = Some (Received bs)"
    "MAX_RAW_PACKET_BYTES < length bs" "length bs \<le> tun_buffer_len c"
  shows "\<exists>d'. packetd_loop (tun_buffer_len c) (pc_batch_capacity c) writes d (t # ts)
      = Some (d', Inl (PacketFailed (OversizedPacket (length bs))))
    \<and> pd_out d' = pd_out d \<and> pd_engine d' = pd_engine d"
proof -
  let ?d = "d\<lparr>pd_spare := pd_spare d @ pd_batch d, pd_batch := []\<rparr>"
  have ne: "bs \<noteq> []" using assms(4) by auto
  show ?thesis
  proof (cases n)
    case 0
    then have "tu_first t = Received bs" using assms(3) by (simp add: nth_read_def)
    then show ?thesis using receive_oversized [OF assms(4), of ?d] ne assms(5) by (auto simp: packetd_turn_def)
  next
    case (Suc k)
    have "plain_read (nth_read t 0)" using assms(2) Suc by blast
    then obtain bs' where w: "tu_first t = Received bs'" "bs' \<noteq> []" "length bs' \<le> MAX_RAW_PACKET_BYTES"
      by (auto simp: plain_read_def nth_read_def)
    obtain d1 where one: "receive_packet bs' ?d = (d1, Inr ())" "pd_batch d1 = [RawPacket bs']"
      "pd_engine d1 = pd_engine d" "pd_out d1 = pd_out d" using receive_packet_ok [OF w(2,3), of ?d] by auto
    have "\<exists>d'. fill_batch (tun_buffer_len c) (pc_batch_capacity c) (tu_waits t) 0 d1 = Some (d', Inl (PacketFailed (OversizedPacket (length bs))))
        \<and> pd_out d' = pd_out d1 \<and> pd_engine d' = pd_engine d1"
      using assms Suc one(2) by (intro fill_batch_oversized [where k = k]) auto
    moreover have "length bs' \<le> tun_buffer_len c" using w(3) buffer_large [of c] by simp
    ultimately show ?thesis using w one by (auto simp: packetd_turn_def)
  qed
qed

theorem oversized_packet_ends_daemon_witness:
  "\<forall>e. \<exists>d'. packetd_loop (tun_buffer_len default_packetd_cli) 256 accept_all (packetd_start e)
       [sample_turn\<lparr>tu_waits := (\<lambda>i. Waited (Received (replicate 1537 0)))\<rparr>, sample_turn]
      = Some (d', Inl (PacketFailed (OversizedPacket 1537)))
    \<and> pd_out d' = pd_out (packetd_start e) \<and> pd_engine d' = pd_engine (packetd_start e)"
proof
  fix e
  let ?t = "sample_turn\<lparr>tu_waits := (\<lambda>i. Waited (Received (replicate 1537 0)))\<rparr>"
  have "plain_read (nth_read ?t 0)"
    using sample_syn_servable by (simp add: plain_read_def nth_read_def sample_turn_def servable_def wf_packet_def)
  then have "\<forall>j<1. plain_read (nth_read ?t j)" by simp
  moreover have "nth_read ?t 1 = Some (Received (replicate 1537 0))" by (simp add: nth_read_def)
  moreover have "1 < pc_batch_capacity default_packetd_cli" "MAX_RAW_PACKET_BYTES < length (replicate 1537 (0 :: u8))"
    "length (replicate 1537 (0 :: u8)) \<le> tun_buffer_len default_packetd_cli" by (simp_all add: MAX_RAW_PACKET_BYTES_def tun_buffer_len_def)
  ultimately show "\<exists>d'. packetd_loop (tun_buffer_len default_packetd_cli) 256 accept_all (packetd_start e) [?t, sample_turn]
      = Some (d', Inl (PacketFailed (OversizedPacket 1537)))
    \<and> pd_out d' = pd_out (packetd_start e) \<and> pd_engine d' = pd_engine (packetd_start e)"
    using oversized_packet_ends_daemon [where n = 1 and t = ?t and c = default_packetd_cli and bs = "replicate 1537 0"
        and writes = accept_all and d = "packetd_start e" and ts = "[sample_turn]"]
    by (simp only: length_replicate default_cli_simps)
qed

section \<open>Bounded memory\<close>

text \<open>C33: the daemon's memory is bounded. Whatever the device delivers or refuses and whatever the engine does,
  for a selected engine the batch never exceeds the batch capacity, the batch and the pool of spare packets
  together never hold more packets than that, and no more packets than that are ever allocated: from then on the
  pool serves every packet received.\<close>

theorem packetd_memory_bounded:
  assumes "select_engine shader_body adapter_name adapter events (pc_backend c) (packetd_engine_config c) = ok sel"
    "packetd_loop (tun_buffer_len c) (pc_batch_capacity c) writes (packetd_start (se_engine sel)) ts = Some (d, r)"
  shows "length (pd_spare d) + length (pd_batch d) \<le> pc_batch_capacity c \<and> pd_peak_batch d \<le> pc_batch_capacity c
    \<and> unat (pd_allocations d) \<le> pc_batch_capacity c
    \<and> (r = Inr () \<longrightarrow> unat (pd_allocations d) = length (pd_spare d) + length (pd_batch d))"
proof -
  have "valid_config (packetd_engine_config c)"
    using select_engine_cases [OF refl, where shader_body = shader_body and adapter = adapter and events = events] assms(1)
    by (metis ok_def option.case(2) sum.case(2))
  then have "0 < pc_batch_capacity c" "pc_batch_capacity c \<le> U32_MAX" by (simp_all add: valid_config_def packetd_engine_config_def)
  from packetd_loop_pool [OF _ _ this assms(2)] show ?thesis by (simp add: pool_ok_def pool_exact_def packetd_start_def)
qed

theorem packetd_memory_bounded_witness:
  "\<exists>sel d. select_engine [] ''none'' None (\<lambda>w. sample_wave) PacketAuto default_packet_engine_config = ok sel
    \<and> packetd_loop (tun_buffer_len default_packetd_cli) 256 accept_all (packetd_start (se_engine sel)) [sample_turn, sample_turn] = Some (d, Inr ())
    \<and> length (pd_spare d) + length (pd_batch d) \<le> 256 \<and> unat (pd_allocations d) = length (pd_spare d) + length (pd_batch d)"
proof -
  obtain sel where sel: "select_engine [] ''none'' None (\<lambda>w. sample_wave) PacketAuto default_packet_engine_config = ok sel"
    "cpu_ready default_packet_engine_config (se_engine sel)"
    using default_config_valid
    by (auto simp: select_engine_def gpu_packet_engine_new_def fail_def new_cpu_engine_def cpu_packet_engine_new_def cpu_ready_def)
  have "\<exists>d' new. packetd_loop (tun_buffer_len default_packetd_cli) 256 accept_all (packetd_start (se_engine sel)) [sample_turn, sample_turn] = Some (d', Inr ())
    \<and> tx_sent (pd_out d') = tx_sent (pd_out (packetd_start (se_engine sel))) @ new \<and> counted (pd_out d')
    \<and> delivers new (snd (spec_batch default_packet_engine_config (engine_connections (pd_engine (packetd_start (se_engine sel)))) (concat (map (turn_packets 256) [sample_turn, sample_turn]))))"
    by (rule cpu_daemon.packetd_loop_serves) (use sel(2) buffer_large in simp_all)
  then obtain d where "packetd_loop (tun_buffer_len default_packetd_cli) 256 accept_all (packetd_start (se_engine sel)) [sample_turn, sample_turn] = Some (d, Inr ())"
    by blast
  with packetd_memory_bounded [of "[]" "''none''" None "\<lambda>w. sample_wave" default_packetd_cli sel accept_all "[sample_turn, sample_turn]" d "Inr ()"] sel(1)
  show ?thesis by auto
qed

end
