(* ===== verification/PacketClient.thy ===== *)
theory PacketClient
  imports PacketDaemonServes
begin

text \<open>
  What the packet clients of \<open>src/bin\<close> (\<open>gput-packet-demo\<close>, \<open>gput-packet-bench\<close>, \<open>gput-doctor\<close>) share: client
  packets, checks and a session with an engine. A session takes the engine's state and returns it with a result;
  an outer \<open>None\<close> is a panic. \<open>packet_service\<close> is what a client may expect of an engine; both engines are shown
  to be one.
\<close>

section \<open>Sessions\<close>

datatype client_error = EngineRefused packet_error | CheckFailed string | Missing string

type_synonym 'a session = "packet_engine \<Rightarrow> (packet_engine \<times> (client_error + 'a)) option"

definition lift :: "(client_error, 'a) outcome \<Rightarrow> 'a session" where
  "lift m eng = map_option (\<lambda>r. (eng, r)) m"

definition andthen :: "'a session \<Rightarrow> ('a \<Rightarrow> 'b session) \<Rightarrow> 'b session" where
  "andthen m k eng = do {
     (eng', r) \<leftarrow> m eng;
     case r of Inl e \<Rightarrow> Some (eng', Inl e) | Inr x \<Rightarrow> k x eng' }"

abbreviation return :: "'a \<Rightarrow> 'a session" where
  "return x \<equiv> lift (ok x)"

definition ensure :: "bool \<Rightarrow> string \<Rightarrow> (client_error, unit) outcome" where
  "ensure b message = (if b then ok () else fail (CheckFailed message))"

definition or_missing :: "'a option \<Rightarrow> string \<Rightarrow> (client_error, 'a) outcome" where
  "or_missing x message = (case x of None \<Rightarrow> fail (Missing message) | Some y \<Rightarrow> ok y)"

definition packet_result :: "(packet_error + 'a) option \<Rightarrow> (client_error, 'a) outcome" where
  "packet_result m = map_option (\<lambda>r. case r of Inl e \<Rightarrow> Inl (EngineRefused e) | Inr x \<Rightarrow> Inr x) m"

definition checked_add_u32 :: "u32 \<Rightarrow> u32 \<Rightarrow> (client_error, u32) outcome" where
  "checked_add_u32 a b = or_panic (if unat a + unat b < 2 ^ 32 then Some (a + b) else None)"

text \<open>\<open>collect::<Result<Vec<_>>>()\<close>.\<close>

fun collect :: "('e, 'a) outcome list \<Rightarrow> ('e, 'a list) outcome" where
  "collect [] = ok []"
| "collect (m # ms) = and_then m (\<lambda>x. and_then (collect ms) (\<lambda>xs. ok (x # xs)))"

text \<open>\<open>starts_with\<close>, \<open>ends_with\<close>, and \<open>windows(n).any(\<dots>)\<close>.\<close>

definition has_prefix :: "'a list \<Rightarrow> 'a list \<Rightarrow> bool" where
  "has_prefix p xs \<longleftrightarrow> take (length p) xs = p"

definition has_suffix :: "'a list \<Rightarrow> 'a list \<Rightarrow> bool" where
  "has_suffix s xs \<longleftrightarrow> length s \<le> length xs \<and> drop (length xs - length s) xs = s"

definition has_window :: "'a list \<Rightarrow> 'a list \<Rightarrow> bool" where
  "has_window w xs \<longleftrightarrow> find_window w xs \<noteq> None"

lemma lift_simps [simp]: "lift (ok x) eng = Some (eng, Inr x)"
  by (simp add: lift_def ok_def)

lemma andthen_lift [simp]: "andthen (lift (ok x)) k eng = k x eng"
  by (simp add: andthen_def)

lemma andthen_run: "m eng = Some (eng', Inr x) \<Longrightarrow> andthen m k eng = k x eng'"
  by (simp add: andthen_def)

lemma session_simps [simp]:
  "ensure True message = ok ()" "or_missing (Some y) message = ok y" "packet_result (Some (Inr z)) = ok z"
  by (simp_all add: ensure_def or_missing_def packet_result_def ok_def)

lemma collect_ok: "\<forall>x\<in>set xs. f x = ok (g x) \<Longrightarrow> collect (map f xs) = ok (map g xs)"
  by (induction xs) simp_all

section \<open>Engines\<close>

fun engine_process_batch_into :: "packet_engine \<Rightarrow> raw_packet list \<Rightarrow> raw_packet option list
    \<Rightarrow> (packet_engine \<times> raw_packet option list \<times> (packet_error + unit)) option" where
  "engine_process_batch_into (CpuPacketEngine eng) pkts output = do {
     (eng', output', r) \<leftarrow> process_batch_into eng pkts;
     Some (CpuPacketEngine eng', output', r) }"
| "engine_process_batch_into (GpuPacketEngine eng) pkts output = do {
     (eng', output', r) \<leftarrow> gpu_process_batch_into packet_gpu_device eng pkts output;
     Some (GpuPacketEngine eng', output', r) }"

definition batch_into :: "raw_packet list \<Rightarrow> raw_packet option list \<Rightarrow> raw_packet option list session" where
  "batch_into pkts output eng = do {
     (eng', output', r) \<leftarrow> engine_process_batch_into eng pkts output;
     Some (eng', case r of Inl e \<Rightarrow> Inl (EngineRefused e) | Inr _ \<Rightarrow> Inr output') }"

definition batch :: "raw_packet list \<Rightarrow> raw_packet option list session" where
  "batch pkts = batch_into pkts []"

fun engine_packets :: "packet_engine \<Rightarrow> u64" where
  "engine_packets (CpuPacketEngine eng) = ce_packets eng"
| "engine_packets (GpuPacketEngine eng) = ge_packets eng"

definition one_output :: "raw_packet \<Rightarrow> string \<Rightarrow> raw_packet session" where
  "one_output input label = andthen (batch [input]) (\<lambda>output.
     lift (or_missing (if output = [] then None else last output) label))"

text \<open>A session on a new engine, which is dropped at its end.\<close>

datatype client_run_error = EngineNotCreated packet_engine_error | SessionFailed client_error

definition session_on :: "(packet_engine_error, packet_engine) outcome \<Rightarrow> 'a session \<Rightarrow> (client_run_error, 'a) outcome" where
  "session_on created session = (case created of
       None \<Rightarrow> None
     | Some (Inl e) \<Rightarrow> fail (EngineNotCreated e)
     | Some (Inr eng) \<Rightarrow> map_option (\<lambda>(_, r). case r of Inl e \<Rightarrow> Inl (SessionFailed e) | Inr x \<Rightarrow> Inr x) (session eng))"

lemma session_on_simps [simp]: "session_on (fail e) session = fail (EngineNotCreated e)"
  by (simp add: session_on_def fail_def)

lemma session_on_ok: "session eng = Some (eng', Inr x) \<Longrightarrow> session_on (ok eng) session = ok x"
  by (simp add: session_on_def ok_def)

definition new_gpu_engine :: "bytes \<Rightarrow> wgpu_adapter option \<Rightarrow> (nat \<Rightarrow> wave_events) \<Rightarrow> packet_engine_config
    \<Rightarrow> (packet_engine_error, packet_engine) outcome" where
  "new_gpu_engine shader_body adapter events config =
     and_then (gpu_packet_engine_new shader_body adapter events config) (\<lambda>engine. ok (GpuPacketEngine engine))"

section \<open>Clients\<close>

record flow_cursor =
  cu_key :: flow_key
  client_next :: u32
  server_next :: u32

definition built_packet :: "flow_key \<Rightarrow> u32 \<Rightarrow> u32 \<Rightarrow> u8 \<Rightarrow> bytes \<Rightarrow> (client_error, raw_packet) outcome" where
  "built_packet key seq ack flags payload = packet_result (build_ipv4_tcp_packet
     \<lparr>s_key = key, s_seq = seq, s_ack = ack, s_flags = flags, s_payload = payload\<rparr>)"

definition cursor_packet :: "flow_cursor \<Rightarrow> u8 \<Rightarrow> bytes \<Rightarrow> (client_error, raw_packet) outcome" where
  "cursor_packet flow flags payload = built_packet (cu_key flow) (client_next flow) (server_next flow) flags payload"

definition parsed :: "raw_packet \<Rightarrow> string \<Rightarrow> (client_error, tcp_view) outcome" where
  "parsed p message = and_then (or_panic (parse_ipv4_tcp p)) (\<lambda>view. or_missing view message)"

definition checksums_valid :: "raw_packet \<Rightarrow> (client_error, unit) outcome" where
  "checksums_valid p = packet_result (validate_ipv4_tcp_checksums p)"

lemma built_packet_ok [simp]: "length payload \<le> 1496 \<Longrightarrow> built_packet key seq ack flags payload = ok (client_packet key seq ack flags payload)"
  by (simp add: built_packet_def client_packet_is_built)

lemma cursor_packet_ok [simp]: "length payload \<le> 1496 \<Longrightarrow>
    cursor_packet flow flags payload = ok (client_packet (cu_key flow) (client_next flow) (server_next flow) flags payload)"
  by (simp add: cursor_packet_def)

lemma reply_checks [simp]:
  assumes "length payload \<le> 1496"
  shows "parsed (reply key seq ack flags payload) message = ok (client_view (reversed key) seq ack flags payload)"
    and "checksums_valid (reply key seq ack flags payload) = ok ()"
proof -
  have fits: "40 + length (s_payload (reply_spec key seq ack flags payload)) \<le> MAX_RAW_PACKET_BYTES"
    using assms by (simp add: reply_spec_def MAX_RAW_PACKET_BYTES_def)
  show "parsed (reply key seq ack flags payload) message = ok (client_view (reversed key) seq ack flags payload)"
    using parse_built [OF fits] by (simp add: parsed_def reply_def view_of_spec_def reply_spec_def reversed_def client_view_def)
  show "checksums_valid (reply key seq ack flags payload) = ok ()"
    using validate_built [OF fits] by (simp add: checksums_valid_def reply_def)
qed

section \<open>One packet each from several connections\<close>

lemma run_seq_distinct:
  assumes "distinct (map key xs)" "\<forall>x\<in>set xs. packet_key (p x) = Some (key x)"
  shows "snd (run_seq step tbl (map p xs)) = map (\<lambda>x. snd (step (key x) (tbl (key x)) (p x))) xs
    \<and> (\<forall>x\<in>set xs. fst (run_seq step tbl (map p xs)) (key x) = fst (step (key x) (tbl (key x)) (p x)))
    \<and> (\<forall>k. k \<notin> key ` set xs \<longrightarrow> fst (run_seq step tbl (map p xs)) k = tbl k)"
  using assms
proof (induction xs arbitrary: tbl)
  case (Cons x xs)
  define tbl' where "tbl' = tbl(key x := fst (step (key x) (tbl (key x)) (p x)))"
  have at: "tbl' (key x) = fst (step (key x) (tbl (key x)) (p x))" "\<And>k. k \<noteq> key x \<Longrightarrow> tbl' k = tbl k" by (simp_all add: tbl'_def)
  have fresh: "key x \<notin> key ` set xs" "distinct (map key xs)" "\<forall>y\<in>set xs. packet_key (p y) = Some (key y)"
    and px: "packet_key (p x) = Some (key x)" using Cons.prems by simp_all
  have same: "tbl' (key y) = tbl (key y)" if "y \<in> set xs" for y using fresh(1) imageI [OF that, of key] by (intro at(2)) auto
  have one: "step_one step tbl (p x) = (tbl', snd (step (key x) (tbl (key x)) (p x)))"
    using px by (simp add: step_one_def split_def tbl'_def)
  note IH = Cons.IH [OF fresh(2,3), of tbl']
  have "snd (run_seq step tbl' (map p xs)) = map (\<lambda>y. snd (step (key y) (tbl (key y)) (p y))) xs"
    using IH same by (metis (no_types, lifting) map_eq_conv)
  moreover have "\<forall>y\<in>set xs. fst (run_seq step tbl' (map p xs)) (key y) = fst (step (key y) (tbl (key y)) (p y))"
    using IH same by simp
  moreover have "\<forall>k. k \<notin> key ` set xs \<longrightarrow> fst (run_seq step tbl' (map p xs)) k = tbl' k" using IH by blast
  ultimately show ?case using fresh(1) at by (auto simp: one Let_def split_def)
qed simp

section \<open>What a client expects of an engine\<close>

definition response_texts :: "(u32 \<times> bytes \<times> bytes) list" where
  "response_texts =
    [(RESPONSE_PLAINTEXT, ascii ''HTTP/1.1 200 OK'' @ crlf, crlf @ crlf @ ascii ''Hello, World!'' @ [10]),
     (RESPONSE_HEALTH, ascii ''HTTP/1.1 200 OK'' @ crlf, crlf @ crlf @ ascii ''ok'' @ [10]),
     (RESPONSE_BAD_REQUEST, ascii ''HTTP/1.1 400 Bad Request'' @ crlf, crlf @ crlf @ ascii ''bad request'' @ [10]),
     (RESPONSE_NOT_FOUND, ascii ''HTTP/1.1 404 Not Found'' @ crlf, crlf @ crlf @ ascii ''not found'' @ [10]),
     (RESPONSE_METHOD_NOT_ALLOWED, ascii ''HTTP/1.1 405 Method Not Allowed'' @ crlf, crlf @ crlf @ ascii ''method not allowed'' @ [10])]"

definition response_holds :: "string \<Rightarrow> bytes \<Rightarrow> bytes \<times> bytes \<Rightarrow> bool" where
  "response_holds backend response = (\<lambda>(status, body). has_prefix status response \<and> has_suffix body response
     \<and> has_window (ascii backend @ crlf) response)"

definition client_batch :: "flow_key set \<Rightarrow> raw_packet list \<Rightarrow> bool" where
  "client_batch K pkts \<longleftrightarrow> length pkts \<le> FS_LIMIT
     \<and> (\<forall>p\<in>set pkts. \<exists>key\<in>K. \<exists>seq ack flags payload. length payload \<le> 1496 \<and> p = client_packet key seq ack flags payload)"

definition live_at_seq :: "flow option \<Rightarrow> u32 \<Rightarrow> u32 \<Rightarrow> bool" where
  "live_at_seq fo cseq sseq \<longleftrightarrow> (\<exists>f. fo = Some f \<and> fl_state f = Established \<and> recv_next f = cseq \<and> send_next f = sseq)"

text \<open>The last request, its place in the client's stream and the response it got.\<close>

definition answered_last :: "flow option \<Rightarrow> u32 \<Rightarrow> bytes \<Rightarrow> u32 \<Rightarrow> bool" where
  "answered_last fo cseq payload sseq \<longleftrightarrow> (\<exists>f. fo = Some f \<and> last_resp f = Some
     \<lparr>client_seq = cseq, client_len = length payload, response_seq = sseq, response_ack = cseq + of_nat (length payload),
      response_id = classify_http_request payload\<rparr>)"

text \<open>
  An engine that is ready serves batches of client packets of the connections \<open>K\<close> as the sequential run of
  \<open>step\<close>; a connection opens, answers requests, repeats its last answer and closes as the client counts.
\<close>

locale packet_service =
  fixes config :: packet_engine_config and K :: "flow_key set" and ready :: "packet_engine \<Rightarrow> bool"
    and step :: "flow flow_step" and respond :: "u32 \<Rightarrow> bytes" and backend :: string
  assumes listening: "key \<in> K \<Longrightarrow> dst_port key = listen_port config"
    and named: "ready eng \<Longrightarrow> engine_name eng = backend"
    and serves: "ready eng \<Longrightarrow> client_batch K pkts \<Longrightarrow> \<exists>eng'. engine_process_batch_into eng pkts output
        = Some (eng', snd (run_seq step (engine_connections eng) pkts), Inr ())
      \<and> engine_connections eng' = fst (run_seq step (engine_connections eng) pkts) \<and> ready eng'
      \<and> engine_packets eng' = engine_packets eng + of_nat (length pkts)"
    and texts: "(r, text) \<in> set response_texts \<Longrightarrow> response_holds backend (respond r) text"
    and short: "length (respond r) \<le> 152"
    and opens: "key \<in> K \<Longrightarrow> fo = None \<or> fo = Some (new_flow (seq + 1) (isn key))
      \<Longrightarrow> step key fo (client_packet key seq ack TCP_SYN []) =
        (Some (new_flow (seq + 1) (isn key)), Some (reply key (isn key) (seq + 1) (TCP_SYN OR TCP_ACK) []))"
    and establishes: "key \<in> K \<Longrightarrow> \<exists>fo. step key (Some (new_flow cseq (isn key))) (client_packet key cseq (isn key + 1) TCP_ACK []) = (fo, None)
      \<and> live_at_seq fo cseq (isn key + 1)"
    and responds: "key \<in> K \<Longrightarrow> live_at_seq fo cseq sseq \<Longrightarrow> payload \<noteq> [] \<Longrightarrow> length payload \<le> 1496
      \<Longrightarrow> \<exists>fo'. step key fo (client_packet key cseq ack (TCP_ACK OR TCP_PSH) payload) =
          (fo', Some (reply key sseq (cseq + of_nat (length payload)) (TCP_ACK OR TCP_PSH) (respond (classify_http_request payload))))
        \<and> live_at_seq fo' (cseq + of_nat (length payload)) (sseq + of_nat (length (respond (classify_http_request payload))))
        \<and> answered_last fo' cseq payload sseq"
    and repeats: "key \<in> K \<Longrightarrow> live_at_seq fo (cseq + of_nat (length payload)) sseq' \<Longrightarrow> answered_last fo cseq payload sseq
      \<Longrightarrow> payload \<noteq> [] \<Longrightarrow> length payload \<le> 1496
      \<Longrightarrow> \<exists>fo'. step key fo (client_packet key cseq ack (TCP_ACK OR TCP_PSH) payload) =
          (fo', Some (reply key sseq (cseq + of_nat (length payload)) (TCP_ACK OR TCP_PSH) (respond (classify_http_request payload))))
        \<and> live_at_seq fo' (cseq + of_nat (length payload)) sseq'"
    and closes: "key \<in> K \<Longrightarrow> live_at_seq fo cseq sseq
      \<Longrightarrow> step key fo (client_packet key cseq sseq (TCP_ACK OR TCP_FIN) []) = (None, Some (reply key sseq (cseq + 1) TCP_ACK []))"

context packet_service begin

text \<open>A batch with one packet each of different connections.\<close>

lemma batch_into_distinct:
  fixes key :: "'a \<Rightarrow> flow_key" and sq ak :: "'a \<Rightarrow> u32" and flags :: "'a \<Rightarrow> u8" and payload :: "'a \<Rightarrow> bytes"
  assumes "ready eng" "distinct (map key xs)" "length xs \<le> FS_LIMIT" "\<forall>x\<in>set xs. key x \<in> K \<and> length (payload x) \<le> 1496"
  defines "p \<equiv> \<lambda>x. client_packet (key x) (sq x) (ak x) (flags x) (payload x)"
  shows "\<exists>eng'. batch_into (map p xs) outs eng = Some (eng', Inr (map (\<lambda>x. snd (step (key x) (engine_connections eng (key x)) (p x))) xs))
    \<and> ready eng' \<and> (\<forall>x\<in>set xs. engine_connections eng' (key x) = fst (step (key x) (engine_connections eng (key x)) (p x)))
    \<and> (\<forall>k. k \<notin> key ` set xs \<longrightarrow> engine_connections eng' k = engine_connections eng k)
    \<and> engine_packets eng' = engine_packets eng + of_nat (length xs)"
proof -
  have "packet_key (p x) = Some (key x)" if "x \<in> set xs" for x
    using assms(4) that addressed_key [OF addressed_client [OF _ listening], of "payload x" "key x"] by (simp add: p_def)
  note run = run_seq_distinct [OF assms(2), of p step "engine_connections eng"]
  have "client_batch K (map p xs)" using assms(3,4) by (fastforce simp: client_batch_def p_def)
  from serves [OF assms(1) this, of outs] obtain eng' where eng': "engine_process_batch_into eng (map p xs) outs =
      Some (eng', snd (run_seq step (engine_connections eng) (map p xs)), Inr ())"
    "engine_connections eng' = fst (run_seq step (engine_connections eng) (map p xs))" "ready eng'"
    "engine_packets eng' = engine_packets eng + of_nat (length (map p xs))" by (elim exE conjE)
  show ?thesis using run eng' \<open>\<And>x. x \<in> set xs \<Longrightarrow> packet_key (p x) = Some (key x)\<close> by (intro exI [of _ eng']) (simp add: batch_into_def)
qed

lemmas batch_distinct = batch_into_distinct [where outs = "[]", folded batch_def]

lemma batch_one:
  assumes "ready eng" "key \<in> K" "length payload \<le> 1496"
    "step key (engine_connections eng key) (client_packet key seq ack flags payload) = (fo, out)"
  obtains eng' where "batch [client_packet key seq ack flags payload] eng = Some (eng', Inr [out])" "ready eng'"
    "engine_connections eng' = (engine_connections eng)(key := fo)"
proof -
  have "\<exists>eng'. batch (map (\<lambda>x. client_packet key seq ack flags payload) [()]) eng
      = Some (eng', Inr (map (\<lambda>x. snd (step key (engine_connections eng key) (client_packet key seq ack flags payload))) [()]))
    \<and> ready eng' \<and> (\<forall>x\<in>set [()]. engine_connections eng' key = fst (step key (engine_connections eng key) (client_packet key seq ack flags payload)))
    \<and> (\<forall>k. k \<notin> (\<lambda>x. key) ` set [()] \<longrightarrow> engine_connections eng' k = engine_connections eng k)
    \<and> engine_packets eng' = engine_packets eng + of_nat (length [()])"
    by (rule batch_distinct) (use assms in \<open>simp_all add: FS_LIMIT_def\<close>)
  then obtain eng' where "batch [client_packet key seq ack flags payload] eng = Some (eng', Inr [out])" "ready eng'"
    "engine_connections eng' key = fo" "\<forall>k. k \<noteq> key \<longrightarrow> engine_connections eng' k = engine_connections eng k"
    using assms(4) by auto
  then show thesis by (intro that [of eng']) auto
qed

lemma one_output_one:
  assumes "ready eng" "key \<in> K" "length payload \<le> 1496"
    "step key (engine_connections eng key) (client_packet key seq ack flags payload) = (fo, Some q)"
  obtains eng' where "one_output (client_packet key seq ack flags payload) label eng = Some (eng', Inr q)" "ready eng'"
    "engine_connections eng' = (engine_connections eng)(key := fo)"
proof -
  obtain eng' where e: "batch [client_packet key seq ack flags payload] eng = Some (eng', Inr [Some q])" "ready eng'"
    "engine_connections eng' = (engine_connections eng)(key := fo)" by (rule batch_one [OF assms])
  then show thesis by (intro that [of eng']) (simp_all add: one_output_def andthen_def)
qed

end

section \<open>The responses\<close>

text \<open>Each response is a head, the name of the backend and a tail; the name does not occur earlier.\<close>

definition response_head :: "bytes \<Rightarrow> bytes \<Rightarrow> bytes" where
  "response_head status content_length = status @ ascii ''Content-Type: text/plain'' @ crlf @ content_length @ crlf
     @ ascii ''Connection: keep-alive'' @ crlf @ ascii ''X-Gput-Backend: ''"

definition content_lengths :: "bytes list" where
  "content_lengths = map ascii [''Content-Length: 14'', ''Content-Length: 3'', ''Content-Length: 12'', ''Content-Length: 10'', ''Content-Length: 19'']"

lemma backend_header: "ascii ''X-Gput-Backend: gpu-packet'' = ascii ''X-Gput-Backend: '' @ ascii ''gpu-packet''"
  by (simp add: ascii_def)

fun adjacent :: "'a \<Rightarrow> 'a \<Rightarrow> 'a list \<Rightarrow> bool" where
  "adjacent a b (x # y # xs) \<longleftrightarrow> x = a \<and> y = b \<or> adjacent a b (y # xs)"
| "adjacent a b xs \<longleftrightarrow> False"

lemma find_window_after:
  assumes "\<not> adjacent a b (pre @ [a])"
  shows "find_window (a # b # w) (pre @ (a # b # w) @ post) = Some (length pre)"
  using assms
proof (induction pre)
  case (Cons x pre)
  show ?case
  proof (cases pre)
    case Nil
    then show ?thesis using Cons by auto
  next
    case (Cons y ys)
    then have "\<not> (x = a \<and> y = b)" "\<not> adjacent a b (pre @ [a])" using Cons.prems by auto
    then show ?thesis using Cons.IH Cons by auto
  qed
qed simp

lemma response_text_nth: "length response_texts = 5" "i < 5 \<Longrightarrow> unat (fst (response_texts ! i)) = i"
  by (simp_all add: response_texts_def response_id_defs less_Suc_eq numeral_eq_Suc)
    (auto simp: less_Suc_eq)

lemma packet_response_parts:
  assumes "i < 5"
  shows "PACKET_RESPONSES ! i = response_head (fst (snd (response_texts ! i))) (content_lengths ! i) @ ascii ''gpu-packet'' @ snd (snd (response_texts ! i))"
proof -
  consider "i = 0" | "i = 1" | "i = 2" | "i = 3" | "i = 4" using assms by linarith
  then show ?thesis
    by cases (simp_all add: PACKET_RESPONSES_def response_texts_def content_lengths_def response_head_def backend_header crlf_def)
qed

lemma gpu_name: "ascii ''gpu-packet'' = 103 # 112 # ascii ''u-packet''"
  by (simp add: ascii_def)

lemma head_not_adjacent:
  assumes "i < 5"
  shows "\<not> adjacent 103 112 (response_head (fst (snd (response_texts ! i))) (content_lengths ! i) @ [103])"
proof -
  consider "i = 0" | "i = 1" | "i = 2" | "i = 3" | "i = 4" using assms by linarith
  then show ?thesis
    by cases (simp_all add: response_texts_def content_lengths_def response_head_def crlf_def ascii_def)
qed

lemma has_windowI: "has_window w (pre @ w @ post)"
proof -
  have "take (length w) (drop (length pre) (pre @ w @ post)) = w" by simp
  then show ?thesis using find_window_None [of w "pre @ w @ post" "length pre"] by (auto simp: has_window_def)
qed

lemma response_holds_parts:
  assumes "i < 5" "length (ascii backend) = 10"
  shows "response_holds backend (response_head (fst (snd (response_texts ! i))) c @ ascii backend @ snd (snd (response_texts ! i))) (snd (response_texts ! i))"
proof -
  consider "i = 0" | "i = 1" | "i = 2" | "i = 3" | "i = 4" using assms by linarith
  then obtain rest where rest: "snd (snd (response_texts ! i)) = crlf @ rest" by cases (simp_all add: response_texts_def)
  have "has_window (ascii backend @ crlf) (response_head (fst (snd (response_texts ! i))) c @ (ascii backend @ crlf) @ rest)" by (rule has_windowI)
  then show ?thesis unfolding response_holds_def split_beta rest by (simp add: has_prefix_def has_suffix_def response_head_def)
qed

lemma text_index:
  assumes "(r, text) \<in> set response_texts"
  obtains i where "i < 5" "packet_response r = PACKET_RESPONSES ! i" "response_texts ! i = (r, text)"
proof -
  obtain i where i: "i < length response_texts" "response_texts ! i = (r, text)" using assms by (metis in_set_conv_nth)
  moreover have "i < 5" "unat r = i" using i response_text_nth(1) response_text_nth(2) [of i] by simp_all
  ultimately show thesis by (intro that [of i]) (simp_all add: packet_response_def)
qed

lemma gpu_texts:
  assumes "(r, text) \<in> set response_texts"
  shows "response_holds ''gpu-packet'' (packet_response r) text"
proof (rule text_index [OF assms])
  fix i assume i: "i < 5" "packet_response r = PACKET_RESPONSES ! i" "response_texts ! i = (r, text)"
  then show ?thesis using response_holds_parts [OF i(1), of "''gpu-packet''" "content_lengths ! i"]
    by (simp add: packet_response_parts [OF i(1)])
qed

lemma cpu_texts:
  assumes "(r, text) \<in> set response_texts"
  shows "response_holds ''cpu-packet'' (cpu_response r) text"
proof (rule text_index [OF assms])
  fix i assume i: "i < 5" "packet_response r = PACKET_RESPONSES ! i" "response_texts ! i = (r, text)"
  let ?head = "response_head (fst (snd (response_texts ! i))) (content_lengths ! i)"
  have "find_window (ascii ''gpu-packet'') (PACKET_RESPONSES ! i) = Some (length ?head)"
    using find_window_after [OF head_not_adjacent [OF i(1)], of "ascii ''u-packet''" "snd (snd (response_texts ! i))"]
    by (simp add: packet_response_parts [OF i(1)] gpu_name)
  then have "cpu_response r = ?head @ ascii ''cpu-packet'' @ snd (snd (response_texts ! i))"
    by (simp add: cpu_response_rename i(2) rename_backend_def packet_response_parts [OF i(1)])
  then show ?thesis using response_holds_parts [OF i(1), of "''cpu-packet''"] i(3) by simp
qed

section \<open>Steps of a connection\<close>

lemma cpu_client_step: "dst_port key = listen_port config \<Longrightarrow> length payload \<le> 1496 \<Longrightarrow>
    cpu_flow_step config key fo (client_packet key seq ack flags payload) =
      (case conn_step True (client_view key seq ack flags payload) fo of (fo', g) \<Rightarrow> (fo', map_option (segment_packet key) g))"
  by (simp add: cpu_flow_step_def addressed_client)

lemma gpu_client_flow_step: "dst_port key = listen_port config \<Longrightarrow> length payload \<le> 1496 \<Longrightarrow>
    gpu_flow_step config key fo (client_packet key seq ack flags payload) =
      (case gpu_conn_step (client_view key seq ack flags payload) fo of (fo', g) \<Rightarrow> (fo', map_option (segment_packet key) g))"
  by (simp add: gpu_flow_step_def addressed_client)

lemma more_flags [simp]:
  "\<not> has_flag (client_view k s a (TCP_ACK OR TCP_FIN) p) TCP_RST" "\<not> has_flag (client_view k s a (TCP_ACK OR TCP_FIN) p) TCP_SYN"
  "has_flag (client_view k s a (TCP_ACK OR TCP_FIN) p) TCP_FIN" "has_flag (client_view k s a (TCP_ACK OR TCP_FIN) p) TCP_ACK"
  by (simp_all add: has_flag_def TCP_ACK_def TCP_SYN_def TCP_RST_def TCP_FIN_def)

lemma segment_client [simp]: "segment_packet key \<lparr>g_seq = s, g_ack = a, g_flags = f, g_payload = p\<rparr> = reply key s a f p"
  by (simp add: segment_packet_def)

lemma cpu_opens: "fo = None \<or> fo = Some (new_flow (seq + 1) (isn key)) \<Longrightarrow> conn_step True (client_view key seq ack TCP_SYN []) fo =
    (Some (new_flow (seq + 1) (isn key)), Some \<lparr>g_seq = isn key, g_ack = seq + 1, g_flags = TCP_SYN OR TCP_ACK, g_payload = []\<rparr>)"
  by (auto simp: conn_step_def)

lemma gpu_opens: "fo = None \<or> fo = Some (new_flow (seq + 1) (isn key)) \<Longrightarrow> gpu_conn_step (client_view key seq ack TCP_SYN []) fo =
    (Some (new_flow (seq + 1) (isn key)), Some \<lparr>g_seq = isn key, g_ack = seq + 1, g_flags = TCP_SYN OR TCP_ACK, g_payload = []\<rparr>)"
  by (auto simp: gpu_conn_step_def gpu_syn_def)

lemma enters_new: "enters (client_view key cseq (isn key + 1) TCP_ACK []) (new_flow cseq (isn key)) =
    Some (new_flow cseq (isn key)\<lparr>fl_state := Established, send_unacked := isn key + 1\<rparr>)"
  by (simp add: enters_def completes_handshake_def)

lemma enters_live: "fl_state f = Established \<Longrightarrow> enters v f = Some (ack_update v f)"
  by (simp add: enters_def)

lemma step_establishes:
  "\<exists>f. conn_step True (client_view key cseq (isn key + 1) TCP_ACK []) (Some (new_flow cseq (isn key))) = (Some f, None)
    \<and> live_at_seq (Some f) cseq (isn key + 1)"
  "\<exists>f. gpu_conn_step (client_view key cseq (isn key + 1) TCP_ACK []) (Some (new_flow cseq (isn key))) = (Some f, None)
    \<and> live_at_seq (Some f) cseq (isn key + 1)"
  by (simp_all add: conn_step_segment gpu_conn_step_def enters_new established_step_def gpu_established_def live_at_seq_def)

lemma data_fields:
  fixes key cseq ack payload f
  defines "v \<equiv> client_view key cseq ack (TCP_ACK OR TCP_PSH) payload"
  assumes "recv_next f = cseq"
  shows "data_segment (ack_update v f) v = \<lparr>g_seq = send_next f, g_ack = cseq + of_nat (length payload), g_flags = TCP_ACK OR TCP_PSH,
      g_payload = cpu_response (classify_http_request payload)\<rparr>"
    and "gpu_data (ack_update v f) v = \<lparr>g_seq = send_next f, g_ack = cseq + of_nat (length payload), g_flags = TCP_ACK OR TCP_PSH,
      g_payload = packet_response (classify_http_request payload)\<rparr>"
    and "fl_state f = Established \<Longrightarrow> live_at_seq (Some (after_data (ack_update v f) v)) (cseq + of_nat (length payload))
      (send_next f + of_nat (length (packet_response (classify_http_request payload))))"
    and "answered_last (Some (after_data (ack_update v f) v)) cseq payload (send_next f)"
proof -
  show seg: "data_segment (ack_update v f) v = \<lparr>g_seq = send_next f, g_ack = cseq + of_nat (length payload), g_flags = TCP_ACK OR TCP_PSH,
      g_payload = cpu_response (classify_http_request payload)\<rparr>" by (simp add: data_segment_def v_def)
  show "gpu_data (ack_update v f) v = \<lparr>g_seq = send_next f, g_ack = cseq + of_nat (length payload), g_flags = TCP_ACK OR TCP_PSH,
      g_payload = packet_response (classify_http_request payload)\<rparr>" unfolding gpu_data_def seg by (simp add: v_def)
  show "live_at_seq (Some (after_data (ack_update v f) v)) (cseq + of_nat (length payload))
      (send_next f + of_nat (length (packet_response (classify_http_request payload))))" if "fl_state f = Established"
    using that by (simp add: live_at_seq_def after_data_def Let_def seg length_cpu_response)
  show "answered_last (Some (after_data (ack_update v f) v)) cseq payload (send_next f)"
    by (simp add: answered_last_def after_data_def Let_def seg) (simp add: v_def)
qed

lemma step_responds:
  fixes key ack
  assumes "live_at_seq fo cseq sseq" "payload \<noteq> []"
  defines "v \<equiv> client_view key cseq ack (TCP_ACK OR TCP_PSH) payload" and "r \<equiv> classify_http_request payload"
  shows "\<exists>fo'. conn_step True v fo = (fo', Some \<lparr>g_seq = sseq, g_ack = cseq + of_nat (length payload), g_flags = TCP_ACK OR TCP_PSH, g_payload = cpu_response r\<rparr>)
    \<and> gpu_conn_step v fo = (fo', Some \<lparr>g_seq = sseq, g_ack = cseq + of_nat (length payload), g_flags = TCP_ACK OR TCP_PSH, g_payload = packet_response r\<rparr>)
    \<and> live_at_seq fo' (cseq + of_nat (length payload)) (sseq + of_nat (length (packet_response r))) \<and> answered_last fo' cseq payload sseq"
proof -
  obtain f where f: "fo = Some f" "fl_state f = Established" "recv_next f = cseq" "send_next f = sseq"
    using assms(1) by (auto simp: live_at_seq_def)
  note d = data_fields [OF f(3), of key ack payload, folded v_def r_def]
  have c: "conn_step True v fo = (Some (after_data (ack_update v f) v), Some (data_segment (ack_update v f) v))"
    using f assms(2) by (simp add: v_def conn_step_segment enters_def established_step_def)
  have g: "gpu_conn_step v fo = (Some (after_data (ack_update v f) v), Some (gpu_data (ack_update v f) v))"
    using f assms(2) by (simp add: v_def gpu_conn_step_def enters_def gpu_established_def)
  show ?thesis using d(3) [OF f(2)] d(4) unfolding c g d(1,2) f(4) by blast
qed

lemma step_repeats:
  fixes key ack
  assumes "live_at_seq fo (cseq + of_nat (length payload)) sseq'" "answered_last fo cseq payload sseq" "payload \<noteq> []" "length payload \<le> 1496"
  defines "v \<equiv> client_view key cseq ack (TCP_ACK OR TCP_PSH) payload" and "r \<equiv> classify_http_request payload"
  shows "\<exists>fo'. conn_step True v fo = (fo', Some \<lparr>g_seq = sseq, g_ack = cseq + of_nat (length payload), g_flags = TCP_ACK OR TCP_PSH, g_payload = cpu_response r\<rparr>)
    \<and> gpu_conn_step v fo = (fo', Some \<lparr>g_seq = sseq, g_ack = cseq + of_nat (length payload), g_flags = TCP_ACK OR TCP_PSH, g_payload = packet_response r\<rparr>)
    \<and> live_at_seq fo' (cseq + of_nat (length payload)) sseq'"
proof -
  obtain f where f: "fo = Some f" "fl_state f = Established" "recv_next f = cseq + of_nat (length payload)" "send_next f = sseq'"
    "last_resp f = Some \<lparr>client_seq = cseq, client_len = length payload, response_seq = sseq, response_ack = cseq + of_nat (length payload), response_id = r\<rparr>"
    using assms(1,2) by (auto simp: live_at_seq_def answered_last_def r_def)
  have "unat (of_nat (length payload) :: u32) = length payload" using assms(4) by (simp add: unat_of_nat)
  then have moved: "cseq \<noteq> cseq + of_nat (length payload)" using assms(3) by (metis add_cancel_left_right length_0_conv unat_0)
  have c: "conn_step True v fo = (Some (ack_update v f), Some (unexpected v (ack_update v f)))"
    using f(1-3) moved by (simp add: v_def conn_step_segment enters_def established_step_def)
  have g: "gpu_conn_step v fo = (Some (ack_update v f), Some (gpu_unexpected v (ack_update v f)))"
    using f(1-3) moved by (simp add: v_def gpu_conn_step_def enters_def gpu_established_def)
  have "live_at_seq (Some (ack_update v f)) (cseq + of_nat (length payload)) sseq'" using f by (simp add: live_at_seq_def)
  then show ?thesis unfolding c g using f(5) by (simp add: unexpected_def gpu_unexpected_def duplicate_of_def v_def)
qed

lemma step_closes:
  fixes key
  assumes "live_at_seq fo cseq sseq"
  defines "v \<equiv> client_view key cseq sseq (TCP_ACK OR TCP_FIN) []"
  shows "conn_step True v fo = (None, Some \<lparr>g_seq = sseq, g_ack = cseq + 1, g_flags = TCP_ACK, g_payload = []\<rparr>)"
    and "gpu_conn_step v fo = (None, Some \<lparr>g_seq = sseq, g_ack = cseq + 1, g_flags = TCP_ACK, g_payload = []\<rparr>)"
proof -
  obtain f where f: "fo = Some f" "fl_state f = Established" "recv_next f = cseq" "send_next f = sseq"
    using assms(1) by (auto simp: live_at_seq_def)
  then show "conn_step True v fo = (None, Some \<lparr>g_seq = sseq, g_ack = cseq + 1, g_flags = TCP_ACK, g_payload = []\<rparr>)"
    "gpu_conn_step v fo = (None, Some \<lparr>g_seq = sseq, g_ack = cseq + 1, g_flags = TCP_ACK, g_payload = []\<rparr>)"
    by (simp_all add: v_def conn_step_segment gpu_conn_step_def enters_def established_step_def gpu_established_def)
qed

section \<open>Both engines serve clients\<close>

definition listening_keys :: "packet_engine_config \<Rightarrow> flow_key set \<Rightarrow> flow_key set" where
  "listening_keys config K = {key \<in> K. dst_port key = listen_port config}"

lemma listening_keysD: "key \<in> listening_keys config K \<Longrightarrow> key \<in> K \<and> dst_port key = listen_port config"
  by (simp add: listening_keys_def)

lemma client_batch_connections: "client_batch (listening_keys config K) pkts \<Longrightarrow> connections config pkts \<subseteq> K"
proof (induction pkts)
  case (Cons p pkts)
  then obtain key seq ack flags payload where p: "key \<in> listening_keys config K" "length payload \<le> 1496" "p = client_packet key seq ack flags payload"
    by (auto simp: client_batch_def)
  have "connections config pkts \<subseteq> K" using Cons by (simp add: client_batch_def)
  then show ?case using p listening_keysD [OF p(1)] by (simp add: connections_Cons addressed_client)
qed (simp add: connections_def List.map_filter_def)

definition cpu_client_ready :: "packet_engine_config \<Rightarrow> flow_key set \<Rightarrow> packet_engine \<Rightarrow> bool" where
  "cpu_client_ready config K eng \<longleftrightarrow> cpu_ready config eng \<and> finite K \<and> card K \<le> flow_capacity config
     \<and> dom (engine_connections eng) \<subseteq> K"

lemma connections_split: "connections config (p # ps) = connections config [p] \<union> connections config ps"
proof -
  have "connections config [] = {}" by (simp add: connections_def List.map_filter_def)
  then show ?thesis unfolding connections_Cons [of config p] by (simp only: Un_empty_right)
qed

lemma spec_batch_dom: "dom (fst (spec_batch config tbl ps)) \<subseteq> dom tbl \<union> connections config ps"
proof (induction ps arbitrary: tbl)
  case (Cons p ps)
  have batch: "fst (spec_batch config tbl (p # ps)) = fst (spec_batch config (fst (spec_packet config tbl p)) ps)"
    by (simp add: Let_def split_def)
  have "dom (fst (spec_batch config (fst (spec_packet config tbl p)) ps)) \<subseteq> dom (fst (spec_packet config tbl p)) \<union> connections config ps"
    by (rule Cons.IH)
  also have "\<dots> \<subseteq> (dom tbl \<union> connections config [p]) \<union> connections config ps" by (intro Un_mono spec_packet_dom subset_refl)
  also have "\<dots> = dom tbl \<union> connections config (p # ps)" unfolding connections_split [of config p ps] by (rule Un_assoc)
  finally show ?case unfolding batch .
qed simp

lemma cpu_process_batch_serves:
  assumes "cpu_client_ready config K eng" "client_batch (listening_keys config K) pkts"
  shows "\<exists>eng'. engine_process_batch_into eng pkts out = Some (eng', snd (run_seq (cpu_flow_step config) (engine_connections eng) pkts), Inr ())
    \<and> engine_connections eng' = fst (run_seq (cpu_flow_step config) (engine_connections eng) pkts) \<and> cpu_client_ready config K eng'
    \<and> engine_packets eng' = engine_packets eng + of_nat (length pkts)"
proof -
  obtain e where e: "eng = CpuPacketEngine e" "ce_config e = config" "table_inv config (ce_flows e)" "finite K"
    "card K \<le> flow_capacity config" "dom (engine_connections eng) \<subseteq> K"
    using assms(1) by (auto simp: cpu_client_ready_def cpu_ready_def)
  have "dom (engine_connections eng) \<union> connections config pkts \<subseteq> K" using e(6) client_batch_connections [OF assms(2)] by blast
  then have few: "card (dom (engine_connections eng) \<union> connections config pkts) \<le> flow_capacity config"
    using e(4,5) card_mono le_trans by blast
  have fin: "finite (dom (engine_connections eng))" using e(4,6) by (rule rev_finite_subset)
  have "uncrowded config (engine_connections eng) pkts" using few fin by (simp add: uncrowded_def)
  note same = spec_batch_is_run_seq [OF this]
  obtain flows' where flows': "process_batch_into e pkts = Some (after_batch e pkts flows',
      snd (spec_batch config (engine_connections eng) pkts), Inr ())" "table_inv config flows'"
    "hm_get flows' = fst (spec_batch config (engine_connections eng) pkts)"
    by (rule batch_simulates [of e pkts]) (use e(1-3) in simp_all)
  have "dom (hm_get flows') \<subseteq> K" using spec_batch_dom [of config "engine_connections eng" pkts] e(6) client_batch_connections [OF assms(2)]
    unfolding flows'(3) by blast
  then have "cpu_client_ready config K (CpuPacketEngine (after_batch e pkts flows'))"
    using e(2,4,5) flows'(2) by (simp add: cpu_client_ready_def cpu_ready_def)
  moreover have "engine_process_batch_into eng pkts out = Some (CpuPacketEngine (after_batch e pkts flows'), snd (spec_batch config (engine_connections eng) pkts), Inr ())"
    using flows'(1) by (simp add: e(1))
  ultimately show ?thesis using flows'(3) e(1) unfolding same by (intro exI [of _ "CpuPacketEngine (after_batch e pkts flows')"]) simp
qed

lemma gpu_process_batch_serves:
  assumes "gpu_ready config K eng" "client_batch (listening_keys config K) pkts"
  shows "\<exists>eng'. engine_process_batch_into eng pkts out = Some (eng', snd (run_seq (gpu_flow_step config) (engine_connections eng) pkts), Inr ())
    \<and> engine_connections eng' = fst (run_seq (gpu_flow_step config) (engine_connections eng) pkts) \<and> gpu_ready config K eng'
    \<and> engine_packets eng' = engine_packets eng + of_nat (length pkts)"
proof -
  obtain e where e: "eng = GpuPacketEngine e" "packet_engine_ready config K e" using assms(1) by (auto simp: gpu_ready_def)
  have "wf_packet p \<and> served config K p" if "p \<in> set pkts" for p
  proof -
    obtain key seq ack flags payload where p: "key \<in> listening_keys config K" "length payload \<le> 1496" "p = client_packet key seq ack flags payload"
      using assms(2) \<open>p \<in> set pkts\<close> by (auto simp: client_batch_def)
    have "served config K p" using listening_keysD [OF p(1)] p(2) by (simp add: served_def p(3) addressed_client)
    moreover have "wf_packet p" using p(2) by (auto simp: p(3) client_packet_def wf_packet_def MAX_RAW_PACKET_BYTES_def simp flip: length_0_conv)
    ultimately show ?thesis by blast
  qed
  then have "servable config K pkts" using assms(2) by (simp add: servable_def client_batch_def)
  from gpu_batch_serves [OF e(2) this, of out] obtain e' where
    "gpu_process_batch_into packet_gpu_device e pkts out = Some (e', snd (run_seq (gpu_flow_step config) (engine_connections eng) pkts), Inr ())"
    "connections_of (ge_device_state e') = fst (run_seq (gpu_flow_step config) (engine_connections eng) pkts)" "packet_engine_ready config K e'"
    "ge_packets e' = ge_packets e + of_nat (length pkts)" by (auto simp: e(1))
  then show ?thesis by (intro exI [of _ "GpuPacketEngine e'"]) (simp add: e(1) gpu_ready_def)
qed

interpretation cpu_client: packet_service config "listening_keys config K" "cpu_client_ready config K" "cpu_flow_step config" cpu_response "''cpu-packet''"
  for config K
proof unfold_locales
  note step = cpu_client_step [OF conjunct2 [OF listening_keysD]]
  show "engine_name eng = ''cpu-packet''" if "cpu_client_ready config K eng" for eng
    using that by (auto simp: cpu_client_ready_def cpu_ready_def)
  show "\<exists>eng'. engine_process_batch_into eng pkts out = Some (eng', snd (run_seq (cpu_flow_step config) (engine_connections eng) pkts), Inr ())
    \<and> engine_connections eng' = fst (run_seq (cpu_flow_step config) (engine_connections eng) pkts) \<and> cpu_client_ready config K eng'
    \<and> engine_packets eng' = engine_packets eng + of_nat (length pkts)"
    if "cpu_client_ready config K eng" "client_batch (listening_keys config K) pkts" for eng pkts out
    using that by (rule cpu_process_batch_serves)
  fix key :: flow_key assume key: "key \<in> listening_keys config K"
  then show "dst_port key = listen_port config" by (simp add: listening_keys_def)
  show "cpu_flow_step config key fo (client_packet key seq ack TCP_SYN []) =
      (Some (new_flow (seq + 1) (isn key)), Some (reply key (isn key) (seq + 1) (TCP_SYN OR TCP_ACK) []))"
    if "fo = None \<or> fo = Some (new_flow (seq + 1) (isn key))" for fo seq ack
    using cpu_opens [OF that, of ack] by (simp add: step [OF key])
  show "\<exists>fo. cpu_flow_step config key (Some (new_flow cseq (isn key))) (client_packet key cseq (isn key + 1) TCP_ACK []) = (fo, None)
      \<and> live_at_seq fo cseq (isn key + 1)" for cseq
    using step_establishes(1) [of key cseq] by (auto simp: step [OF key])
  show "\<exists>fo'. cpu_flow_step config key fo (client_packet key cseq ack (TCP_ACK OR TCP_PSH) payload) =
          (fo', Some (reply key sseq (cseq + of_nat (length payload)) (TCP_ACK OR TCP_PSH) (cpu_response (classify_http_request payload))))
        \<and> live_at_seq fo' (cseq + of_nat (length payload)) (sseq + of_nat (length (cpu_response (classify_http_request payload))))
        \<and> answered_last fo' cseq payload sseq"
    if "live_at_seq fo cseq sseq" "payload \<noteq> []" "length payload \<le> 1496" for fo cseq sseq payload ack
    using step_responds [OF that(1,2), of key ack] that(3) by (auto simp: step [OF key] length_cpu_response)
  show "\<exists>fo'. cpu_flow_step config key fo (client_packet key cseq ack (TCP_ACK OR TCP_PSH) payload) =
          (fo', Some (reply key sseq (cseq + of_nat (length payload)) (TCP_ACK OR TCP_PSH) (cpu_response (classify_http_request payload))))
        \<and> live_at_seq fo' (cseq + of_nat (length payload)) sseq'"
    if "live_at_seq fo (cseq + of_nat (length payload)) sseq'" "answered_last fo cseq payload sseq" "payload \<noteq> []" "length payload \<le> 1496"
    for fo cseq sseq sseq' payload ack
    using step_repeats [OF that, of key ack] that(4) by (auto simp: step [OF key])
  show "cpu_flow_step config key fo (client_packet key cseq sseq (TCP_ACK OR TCP_FIN) []) = (None, Some (reply key sseq (cseq + 1) TCP_ACK []))"
    if "live_at_seq fo cseq sseq" for fo cseq sseq
    using step_closes(1) [OF that, of key] by (simp add: step [OF key])
qed (rule cpu_texts cpu_response_bounds(2), assumption?)+

interpretation gpu_client: packet_service config "listening_keys config K" "gpu_ready config K" "gpu_flow_step config" packet_response "''gpu-packet''"
  for config K
proof unfold_locales
  note step = gpu_client_flow_step [OF conjunct2 [OF listening_keysD]]
  show "engine_name eng = ''gpu-packet''" if "gpu_ready config K eng" for eng using that by (auto simp: gpu_ready_def)
  show "\<exists>eng'. engine_process_batch_into eng pkts out = Some (eng', snd (run_seq (gpu_flow_step config) (engine_connections eng) pkts), Inr ())
    \<and> engine_connections eng' = fst (run_seq (gpu_flow_step config) (engine_connections eng) pkts) \<and> gpu_ready config K eng'
    \<and> engine_packets eng' = engine_packets eng + of_nat (length pkts)"
    if "gpu_ready config K eng" "client_batch (listening_keys config K) pkts" for eng pkts out
    using that by (rule gpu_process_batch_serves)
  fix key :: flow_key assume key: "key \<in> listening_keys config K"
  then show "dst_port key = listen_port config" by (simp add: listening_keys_def)
  show "gpu_flow_step config key fo (client_packet key seq ack TCP_SYN []) =
      (Some (new_flow (seq + 1) (isn key)), Some (reply key (isn key) (seq + 1) (TCP_SYN OR TCP_ACK) []))"
    if "fo = None \<or> fo = Some (new_flow (seq + 1) (isn key))" for fo seq ack
    using gpu_opens [OF that, of ack] by (simp add: step [OF key])
  show "\<exists>fo. gpu_flow_step config key (Some (new_flow cseq (isn key))) (client_packet key cseq (isn key + 1) TCP_ACK []) = (fo, None)
      \<and> live_at_seq fo cseq (isn key + 1)" for cseq
    using step_establishes(2) [of key cseq] by (auto simp: step [OF key])
  show "\<exists>fo'. gpu_flow_step config key fo (client_packet key cseq ack (TCP_ACK OR TCP_PSH) payload) =
          (fo', Some (reply key sseq (cseq + of_nat (length payload)) (TCP_ACK OR TCP_PSH) (packet_response (classify_http_request payload))))
        \<and> live_at_seq fo' (cseq + of_nat (length payload)) (sseq + of_nat (length (packet_response (classify_http_request payload))))
        \<and> answered_last fo' cseq payload sseq"
    if "live_at_seq fo cseq sseq" "payload \<noteq> []" "length payload \<le> 1496" for fo cseq sseq payload ack
    using step_responds [OF that(1,2), of key ack] that(3) by (auto simp: step [OF key])
  show "\<exists>fo'. gpu_flow_step config key fo (client_packet key cseq ack (TCP_ACK OR TCP_PSH) payload) =
          (fo', Some (reply key sseq (cseq + of_nat (length payload)) (TCP_ACK OR TCP_PSH) (packet_response (classify_http_request payload))))
        \<and> live_at_seq fo' (cseq + of_nat (length payload)) sseq'"
    if "live_at_seq fo (cseq + of_nat (length payload)) sseq'" "answered_last fo cseq payload sseq" "payload \<noteq> []" "length payload \<le> 1496"
    for fo cseq sseq sseq' payload ack
    using step_repeats [OF that, of key ack] that(4) by (auto simp: step [OF key])
  show "gpu_flow_step config key fo (client_packet key cseq sseq (TCP_ACK OR TCP_FIN) []) = (None, Some (reply key sseq (cseq + 1) TCP_ACK []))"
    if "live_at_seq fo cseq sseq" for fo cseq sseq
    using step_closes(2) [OF that, of key] by (simp add: step [OF key])
qed (rule gpu_texts length_packet_response(2), assumption?)+

lemma new_cpu_client:
  assumes "valid_config config" "finite K" "card K \<le> flow_capacity config"
  obtains eng where "new_cpu_engine config = ok eng" "cpu_client_ready config K eng" "engine_connections eng = Map.empty" "engine_packets eng = 0"
proof -
  have "validate_config config = Inr ()" using assms(1) by (simp add: validate_config_iff)
  then show thesis using assms(2,3)
    by (intro that) (auto simp: new_cpu_engine_def cpu_packet_engine_new_def cpu_client_ready_def cpu_ready_def hm_get_def [abs_def])
qed

end
