(* ===== verification/PacketDemo.thy ===== *)
theory PacketDemo
  imports PacketClient
begin

text \<open>
  \<open>src/bin/gput-packet-demo.rs\<close>: the protocol proof that the demo runs against either packet engine. \<open>demo_passes\<close>:
  on a capable adapter it passes on both.
\<close>

section \<open>Constants\<close>

definition CLIENT_IP :: u32 where "CLIENT_IP = 0x0a4d0002"
definition SERVER_IP :: u32 where "SERVER_IP = 0x0a4d0001"
definition CLIENT_PORT :: u16 where "CLIENT_PORT = 50000"
definition SERVER_PORT :: u16 where "SERVER_PORT = 8080"
definition CLIENT_ISN :: u32 where "CLIENT_ISN = 1000000"

definition demo_config :: packet_engine_config where
  "demo_config = \<lparr>max_batch_size = 64, flow_capacity = 64, flow_probe_limit = 64, listen_port = SERVER_PORT\<rparr>"

section \<open>Opening, exchanging, closing\<close>

definition open_client_flow :: "flow_key \<Rightarrow> u32 \<Rightarrow> flow_cursor session" where
  "open_client_flow key client_isn =
     andthen (lift (built_packet key client_isn 0 TCP_SYN [])) (\<lambda>syn.
     andthen (one_output syn ''SYN'') (\<lambda>syn_ack.
     andthen (one_output syn ''retransmitted SYN'') (\<lambda>repeated_syn_ack.
     andthen (lift (checksums_valid syn_ack)) (\<lambda>_.
     andthen (lift (checksums_valid repeated_syn_ack)) (\<lambda>_.
     andthen (lift (parsed syn_ack ''SYN-ACK did not parse'')) (\<lambda>tcp.
     andthen (lift (parsed repeated_syn_ack ''repeated SYN-ACK did not parse'')) (\<lambda>repeated.
     andthen (lift (ensure (v_flags tcp = TCP_SYN OR TCP_ACK) ''engine did not emit SYN-ACK'')) (\<lambda>_.
     andthen (lift (checked_add_u32 client_isn 1)) (\<lambda>client_first.
     andthen (lift (ensure (v_ack tcp = client_first) ''SYN-ACK acknowledged the wrong client sequence'')) (\<lambda>_.
     andthen (lift (ensure (v_seq tcp = v_seq repeated) ''retransmitted SYN changed the server ISN'')) (\<lambda>_.
     andthen (lift (checked_add_u32 (v_seq tcp) 1)) (\<lambda>server_first.
     let flow = \<lparr>cu_key = key, client_next = client_first, server_next = server_first\<rparr> in
     andthen (lift (cursor_packet flow TCP_ACK [])) (\<lambda>ack.
     andthen (batch [ack]) (\<lambda>outs.
     andthen (lift (ensure (outs = [None]) ''pure handshake ACK should not emit a packet'')) (\<lambda>_.
     return flow)))))))))))))))"

definition validate_response :: "raw_packet \<Rightarrow> flow_cursor \<Rightarrow> bytes \<Rightarrow> bytes \<Rightarrow> bytes \<Rightarrow> string \<Rightarrow> (client_error, unit) outcome" where
  "validate_response response flow request expected_status expected_body expected_backend =
     and_then (checksums_valid response) (\<lambda>_.
     and_then (parsed response ''response packet did not parse'') (\<lambda>tcp.
     and_then (ensure (v_seq tcp = server_next flow) ''response used the wrong server sequence'') (\<lambda>_.
     and_then (checked_add_u32 (client_next flow) (of_nat (length request))) (\<lambda>expected_ack.
     and_then (ensure (v_ack tcp = expected_ack) ''response acknowledged the wrong client sequence'') (\<lambda>_.
     and_then (ensure (has_prefix expected_status (v_payload tcp)) ''response had the wrong HTTP status'') (\<lambda>_.
     and_then (ensure (has_suffix expected_body (v_payload tcp)) ''response had the wrong HTTP body'') (\<lambda>_.
     ensure (has_window (ascii expected_backend) (v_payload tcp)) ''response did not identify backend'')))))))"

definition advance_flow :: "flow_cursor \<Rightarrow> bytes \<Rightarrow> raw_packet \<Rightarrow> (client_error, flow_cursor) outcome" where
  "advance_flow flow request response =
     and_then (parsed response ''response packet did not parse'') (\<lambda>tcp.
     ok (flow\<lparr>client_next := client_next flow + of_nat (length request),
              server_next := server_next flow + of_nat (length (v_payload tcp))\<rparr>))"

text \<open>\<open>engine.name()\<close> reads the engine and leaves it alone.\<close>

definition engine_label :: "string session" where
  "engine_label eng = Some (eng, Inr (engine_name eng))"

definition exchange :: "flow_cursor \<Rightarrow> bytes \<Rightarrow> bytes \<Rightarrow> bytes \<Rightarrow> flow_cursor session" where
  "exchange flow request expected_status expected_body =
     andthen (lift (cursor_packet flow (TCP_ACK OR TCP_PSH) request)) (\<lambda>packet.
     andthen (one_output packet ''HTTP request'') (\<lambda>response.
     andthen engine_label (\<lambda>name.
     andthen (lift (validate_response response flow request expected_status expected_body name)) (\<lambda>_.
     lift (advance_flow flow request response)))))"

definition close_flow :: "flow_cursor \<Rightarrow> unit session" where
  "close_flow flow =
     andthen (lift (cursor_packet flow (TCP_ACK OR TCP_FIN) [])) (\<lambda>fin.
     andthen (one_output fin ''FIN'') (\<lambda>response.
     andthen (lift (checksums_valid response)) (\<lambda>_.
     andthen (lift (parsed response ''FIN ACK did not parse'')) (\<lambda>tcp.
     andthen (lift (ensure (v_flags tcp = TCP_ACK) ''engine did not ACK FIN'')) (\<lambda>_.
     andthen (lift (checked_add_u32 (client_next flow) 1)) (\<lambda>expected_ack.
     lift (ensure (v_ack tcp = expected_ack) ''FIN ACK used the wrong acknowledgement'')))))))"

section \<open>Two connections whose keys collide\<close>

definition collision_first :: flow_key where
  "collision_first = \<lparr>src_ip = CLIENT_IP, dst_ip = SERVER_IP, src_port = 40000, dst_port = SERVER_PORT\<rparr>"

definition collision_port :: "nat option" where
  "collision_port = find (\<lambda>port. flow_hash (collision_first\<lparr>src_port := of_nat port\<rparr>) AND 63 = flow_hash collision_first AND 63)
     [40001..<65535]"

definition collision_syn :: "flow_key \<times> u32 \<Rightarrow> (client_error, raw_packet) outcome" where
  "collision_syn = (\<lambda>(key, seq). built_packet key seq 0 TCP_SYN [])"

fun collision_cursors :: "((flow_key \<times> u32) \<times> raw_packet option) list \<Rightarrow> (client_error, flow_cursor list) outcome" where
  "collision_cursors [] = ok []"
| "collision_cursors (((key, client_isn), response) # rest) =
     and_then (or_missing response ''colliding SYN produced no SYN-ACK'') (\<lambda>response.
     and_then (parsed response ''colliding SYN-ACK did not parse'') (\<lambda>tcp.
     and_then (checked_add_u32 client_isn 1) (\<lambda>client_first.
     and_then (checked_add_u32 (v_seq tcp) 1) (\<lambda>server_first.
     and_then (collision_cursors rest) (\<lambda>cursors.
     ok (\<lparr>cu_key = key, client_next = client_first, server_next = server_first\<rparr> # cursors))))))"

fun hello_response :: "raw_packet option \<Rightarrow> (client_error, bool) outcome" where
  "hello_response None = ok False"
| "hello_response (Some response) = and_then (or_panic (parse_ipv4_tcp response)) (\<lambda>view.
     ok (case view of None \<Rightarrow> False | Some tcp \<Rightarrow> has_suffix (ascii ''Hello, World!'' @ [10]) (v_payload tcp)))"

fun all_hello :: "raw_packet option list \<Rightarrow> (client_error, bool) outcome" where
  "all_hello [] = ok True"
| "all_hello (response # rest) = and_then (hello_response response) (\<lambda>b. if b then all_hello rest else ok False)"

definition prove_collision_safe_lookup :: "unit session" where
  "prove_collision_safe_lookup =
     andthen (lift (or_missing collision_port ''could not find a colliding flow for the demo'')) (\<lambda>second_port.
     let first = collision_first; second = first\<lparr>src_port := of_nat second_port\<rparr> in
     andthen (lift (ensure (first \<noteq> second) ''collision test reused the same flow'')) (\<lambda>_.
     let flows = [(first, 2000000), (second, 3000000)] in
     andthen (lift (collect (map collision_syn flows))) (\<lambda>syns.
     andthen (batch syns) (\<lambda>syn_acks.
     andthen (lift (collision_cursors (zip flows syn_acks))) (\<lambda>cursors.
     andthen (lift (collect (map (\<lambda>flow. cursor_packet flow TCP_ACK []) cursors))) (\<lambda>acknowledgements.
     andthen (batch acknowledgements) (\<lambda>outs.
     andthen (lift (ensure (list_all (\<lambda>out. out = None) outs) ''collision handshake ACK unexpectedly emitted traffic'')) (\<lambda>_.
     let request = ascii ''GET /plaintext HTTP/1.1'' @ crlf @ ascii ''Host: collision'' @ crlf @ crlf in
     andthen (lift (collect (map (\<lambda>flow. cursor_packet flow (TCP_ACK OR TCP_PSH) request) cursors))) (\<lambda>gets.
     andthen (batch gets) (\<lambda>responses.
     andthen (lift (all_hello responses)) (\<lambda>all_answered.
     lift (ensure all_answered ''one of the colliding flows lost its HTTP response''))))))))))))"

section \<open>The proof\<close>

definition demo_key :: flow_key where
  "demo_key = \<lparr>src_ip = CLIENT_IP, dst_ip = SERVER_IP, src_port = CLIENT_PORT, dst_port = SERVER_PORT\<rparr>"

definition plaintext_request :: bytes where
  "plaintext_request = ascii ''GET /plaintext HTTP/1.1'' @ crlf @ ascii ''Host: gpu'' @ crlf @ ascii ''Connection: keep-alive'' @ crlf @ crlf"

definition gpu_request :: "string \<Rightarrow> bytes" where
  "gpu_request line = ascii line @ crlf @ ascii ''Host: gpu'' @ crlf @ crlf"

text \<open>The parts of a response that a retransmission must reproduce.\<close>

definition reproduced :: "raw_packet \<Rightarrow> raw_packet \<Rightarrow> (client_error, bool) outcome" where
  "reproduced response duplicate =
     and_then (or_panic (parse_ipv4_tcp response)) (\<lambda>a.
     and_then (or_panic (parse_ipv4_tcp duplicate)) (\<lambda>b.
     ok (map_option (\<lambda>tcp. (v_seq tcp, v_ack tcp, v_payload tcp)) a = map_option (\<lambda>tcp. (v_seq tcp, v_ack tcp, v_payload tcp)) b)))"

definition run_protocol_proof :: "unit session" where
  "run_protocol_proof =
     andthen (open_client_flow demo_key CLIENT_ISN) (\<lambda>flow.
     let request = plaintext_request in
     andthen (lift (cursor_packet flow (TCP_ACK OR TCP_PSH) request)) (\<lambda>request_packet.
     andthen (one_output request_packet ''GET /plaintext'') (\<lambda>response.
     andthen (one_output request_packet ''duplicate GET /plaintext'') (\<lambda>duplicate.
     andthen engine_label (\<lambda>name.
     andthen (lift (validate_response response flow request (ascii ''HTTP/1.1 200 OK'' @ crlf) (ascii ''Hello, World!'' @ [10]) name)) (\<lambda>_.
     andthen (lift (reproduced response duplicate)) (\<lambda>same.
     andthen (lift (ensure same ''did not reproduce the same unacknowledged response'')) (\<lambda>_.
     andthen (lift (advance_flow flow request response)) (\<lambda>flow.
     andthen (exchange flow (gpu_request ''GET /health HTTP/1.1'') (ascii ''HTTP/1.1 200 OK'' @ crlf) (ascii ''ok'' @ [10])) (\<lambda>flow.
     andthen (exchange flow (gpu_request ''GET /missing HTTP/1.1'') (ascii ''HTTP/1.1 404 Not Found'' @ crlf) (ascii ''not found'' @ [10])) (\<lambda>flow.
     andthen (exchange flow (gpu_request ''POST /plaintext HTTP/1.1'') (ascii ''HTTP/1.1 405 Method Not Allowed'' @ crlf) (ascii ''method not allowed'' @ [10])) (\<lambda>flow.
     andthen (close_flow flow) (\<lambda>_.
     prove_collision_safe_lookup)))))))))))))"

definition demo_main :: "bytes \<Rightarrow> wgpu_adapter option \<Rightarrow> (nat \<Rightarrow> wave_events) \<Rightarrow> (client_run_error, unit) outcome" where
  "demo_main shader_body adapter events =
     and_then (session_on (new_cpu_engine demo_config) run_protocol_proof) (\<lambda>_.
     session_on (new_gpu_engine shader_body adapter events demo_config) run_protocol_proof)"

section \<open>The requests\<close>

lemma classify_request_line:
  assumes "32 \<notin> set m" "32 \<notin> set t" "32 \<notin> set v" "13 \<notin> set (request_line m t v)"
  shows "classify_http_request (request_line m t v @ crlf @ rest) = expected_response m t v"
proof -
  have "\<not> adjacent 13 10 (xs @ [13])" if "13 \<notin> set xs" for xs :: bytes
    using that by (induction "13 :: u8" "10 :: u8" xs rule: adjacent.induct) auto
  from find_window_after [OF this [OF assms(4)], of "[]" rest]
  have "find_window crlf (request_line m t v @ crlf @ rest) = Some (length (request_line m t v))" by (simp add: crlf_def)
  from classify_request [OF assms(1-3) this] show ?thesis by (simp add: expected_response_def)
qed

text \<open>A request line in a literal.\<close>

lemma classify_literal:
  assumes "ascii line = request_line (ascii m) (ascii t) (ascii v)" "list_all (\<lambda>c. c \<noteq> 32 \<and> c \<noteq> 13) (ascii m @ ascii t @ ascii v)"
  shows "classify_http_request (ascii line @ crlf @ rest) = expected_response (ascii m) (ascii t) (ascii v)"
  unfolding assms(1) by (rule classify_request_line) (use assms(2) in \<open>auto simp: list_all_iff request_line_def\<close>)

lemma literal_classes:
  "classify_http_request (ascii ''GET /plaintext HTTP/1.1'' @ crlf @ rest) = RESPONSE_PLAINTEXT"
  "classify_http_request (ascii ''GET /health HTTP/1.1'' @ crlf @ rest) = RESPONSE_HEALTH"
  "classify_http_request (ascii ''GET /missing HTTP/1.1'' @ crlf @ rest) = RESPONSE_NOT_FOUND"
  "classify_http_request (ascii ''POST /plaintext HTTP/1.1'' @ crlf @ rest) = RESPONSE_METHOD_NOT_ALLOWED"
proof -
  note literal = ascii_def request_line_def expected_response_def supported_version_def route_id_def
  show "classify_http_request (ascii ''GET /plaintext HTTP/1.1'' @ crlf @ rest) = RESPONSE_PLAINTEXT"
    by (subst classify_literal [where m = "''GET''" and t = "''/plaintext''" and v = "''HTTP/1.1''"]; simp add: literal)
  show "classify_http_request (ascii ''GET /health HTTP/1.1'' @ crlf @ rest) = RESPONSE_HEALTH"
    by (subst classify_literal [where m = "''GET''" and t = "''/health''" and v = "''HTTP/1.1''"]; simp add: literal)
  show "classify_http_request (ascii ''GET /missing HTTP/1.1'' @ crlf @ rest) = RESPONSE_NOT_FOUND"
    by (subst classify_literal [where m = "''GET''" and t = "''/missing''" and v = "''HTTP/1.1''"]; simp add: literal)
  show "classify_http_request (ascii ''POST /plaintext HTTP/1.1'' @ crlf @ rest) = RESPONSE_METHOD_NOT_ALLOWED"
    by (subst classify_literal [where m = "''POST''" and t = "''/plaintext''" and v = "''HTTP/1.1''"]; simp add: literal)
qed

section \<open>The proof passes on any service\<close>

lemma has_window_prefix: "has_window (w @ v) xs \<Longrightarrow> has_window w xs"
proof -
  assume "has_window (w @ v) xs"
  then obtain i where "take (length (w @ v)) (drop i xs) = w @ v" using find_window_less [of "w @ v" xs] by (auto simp: has_window_def)
  then have "take (length w) (drop i xs) = w" by (metis append_eq_conv_conj take_take min.absorb1 length_append le_add1)
  then show "has_window w xs" using find_window_None [of w xs i] by (auto simp: has_window_def)
qed

lemma has_suffix_iff: "has_suffix s xs \<longleftrightarrow> (\<exists>pre. xs = pre @ s)"
proof
  assume "has_suffix s xs"
  then have "xs = take (length xs - length s) xs @ s" using append_take_drop_id [of "length xs - length s" xs] by (simp add: has_suffix_def)
  then show "\<exists>pre. xs = pre @ s" by blast
next
  assume "\<exists>pre. xs = pre @ s"
  then show "has_suffix s xs" by (auto simp: has_suffix_def)
qed

lemma has_suffix_tail: "has_suffix (a @ b) xs \<Longrightarrow> has_suffix b xs"
  by (auto simp: has_suffix_iff)

lemma andthen_one: "one_output p l eng = Some (eng', Inr x) \<Longrightarrow> andthen (one_output p l) k eng = k x eng'"
  by (simp add: andthen_def)

lemma andthen_batch: "batch pkts eng = Some (eng', Inr outs) \<Longrightarrow> andthen (batch pkts) k eng = k outs eng'"
  by (simp add: andthen_def)

lemma andthen_label: "engine_name eng = backend \<Longrightarrow> andthen engine_label k eng = k backend eng"
  by (simp add: andthen_def engine_label_def)

lemma checked_add_u32_ok [simp]: "unat a + unat b < 2 ^ 32 \<Longrightarrow> checked_add_u32 a b = ok (a + b)"
  by (simp add: checked_add_u32_def ok_def or_panic_def)

text \<open>The cursor of a client that agrees with the engine.\<close>

definition in_step :: "flow_cursor \<Rightarrow> table \<Rightarrow> bool" where
  "in_step flow tbl \<longleftrightarrow> live_at_seq (tbl (cu_key flow)) (client_next flow) (server_next flow)"

definition after_exchange :: "flow_cursor \<Rightarrow> bytes \<Rightarrow> bytes \<Rightarrow> flow_cursor" where
  "after_exchange flow request response = flow\<lparr>client_next := client_next flow + of_nat (length request),
     server_next := server_next flow + of_nat (length response)\<rparr>"

text \<open>What the response to a request says.\<close>

definition announces :: "bytes \<Rightarrow> bytes \<Rightarrow> bytes \<Rightarrow> bool" where
  "announces request status body \<longleftrightarrow> request \<noteq> [] \<and> length request \<le> 1496
     \<and> (\<exists>tail. (classify_http_request request, status, tail @ body) \<in> set response_texts)"

context packet_service begin

lemma open_client_flow_ok:
  assumes "ready eng" "key \<in> K" "engine_connections eng key = None" "unat c + 1 < 2 ^ 32" "unat (isn key) + 1 < 2 ^ 32"
  obtains eng' fo where "open_client_flow key c eng = Some (eng', Inr \<lparr>cu_key = key, client_next = c + 1, server_next = isn key + 1\<rparr>)"
    "ready eng'" "engine_connections eng' = (engine_connections eng)(key := fo)" "live_at_seq fo (c + 1) (isn key + 1)"
proof -
  let ?syn = "client_packet key c 0 TCP_SYN []"
  let ?syn_ack = "reply key (isn key) (c + 1) (TCP_SYN OR TCP_ACK) []"
  let ?flow = "\<lparr>cu_key = key, client_next = c + 1, server_next = isn key + 1\<rparr>"
  have nil: "length ([] :: bytes) \<le> 1496" by simp
  obtain e1 where e1: "one_output ?syn ''SYN'' eng = Some (e1, Inr ?syn_ack)" "ready e1"
    "engine_connections e1 = (engine_connections eng)(key := Some (new_flow (c + 1) (isn key)))"
    by (rule one_output_one [OF assms(1,2) nil opens [OF assms(2)]]) (use assms(3) in auto)
  obtain e2 where e2: "one_output ?syn ''retransmitted SYN'' e1 = Some (e2, Inr ?syn_ack)" "ready e2"
    "engine_connections e2 = (engine_connections e1)(key := Some (new_flow (c + 1) (isn key)))"
    by (rule one_output_one [OF e1(2) assms(2) nil opens [OF assms(2)]]) (use e1(3) in auto)
  have at: "engine_connections e2 key = Some (new_flow (c + 1) (isn key))" using e2(3) by simp
  obtain fo where fo: "step key (engine_connections e2 key) (client_packet key (c + 1) (isn key + 1) TCP_ACK []) = (fo, None)"
    "live_at_seq fo (c + 1) (isn key + 1)" using establishes [OF assms(2), of "c + 1"] unfolding at by blast
  obtain e3 where e3: "batch [client_packet key (c + 1) (isn key + 1) TCP_ACK []] e2 = Some (e3, Inr [None])" "ready e3"
    "engine_connections e3 = (engine_connections e2)(key := fo)" by (rule batch_one [OF e2(2) assms(2) nil fo(1)])
  have "open_client_flow key c eng = Some (e3, Inr ?flow)"
    using assms(4,5) by (simp add: open_client_flow_def andthen_one [OF e1(1)] andthen_one [OF e2(1)] andthen_batch [OF e3(1)] Let_def)
  moreover have "engine_connections e3 = (engine_connections eng)(key := fo)" using e1(3) e2(3) e3(3) by simp
  ultimately show thesis by (rule that [OF _ e3(2) _ fo(2)])
qed

lemma response_valid:
  assumes "announces request status body" "cseq = client_next flow" "sseq = server_next flow"
    "unat (client_next flow) + length request < 2 ^ 32"
  shows "validate_response (reply key sseq (cseq + of_nat (length request)) (TCP_ACK OR TCP_PSH) (respond (classify_http_request request)))
     flow request status body backend = ok ()"
proof -
  let ?r = "respond (classify_http_request request)"
  obtain tail where "(classify_http_request request, status, tail @ body) \<in> set response_texts" using assms(1) by (auto simp: announces_def)
  from texts [OF this] have "has_prefix status ?r" "has_suffix (tail @ body) ?r" "has_window (ascii backend @ crlf) ?r"
    by (simp_all add: response_holds_def)
  then have "has_prefix status ?r" "has_suffix body ?r" "has_window (ascii backend) ?r"
    by (blast intro: has_suffix_tail has_window_prefix)+
  moreover have "length ?r \<le> 1496" using short [of "classify_http_request request"] by simp
  moreover have "length request \<le> 1496" using assms(1) by (simp add: announces_def)
  then have "unat (of_nat (length request) :: u32) = length request" by (simp add: unat_of_nat)
  ultimately show ?thesis using assms(2-4) by (simp add: validate_response_def)
qed

lemma exchange_ok:
  assumes "ready eng" "cu_key flow \<in> K" "in_step flow (engine_connections eng)" "announces request status body"
    "unat (client_next flow) + length request < 2 ^ 32"
  obtains eng' fo where
    "exchange flow request status body eng = Some (eng', Inr (after_exchange flow request (respond (classify_http_request request))))"
    "ready eng'" "engine_connections eng' = (engine_connections eng)(cu_key flow := fo)"
    "in_step (after_exchange flow request (respond (classify_http_request request))) (engine_connections eng')"
proof -
  let ?r = "respond (classify_http_request request)"
  let ?out = "reply (cu_key flow) (server_next flow) (client_next flow + of_nat (length request)) (TCP_ACK OR TCP_PSH) ?r"
  have req: "request \<noteq> []" "length request \<le> 1496" using assms(4) by (simp_all add: announces_def)
  obtain fo where fo: "step (cu_key flow) (engine_connections eng (cu_key flow))
        (client_packet (cu_key flow) (client_next flow) (server_next flow) (TCP_ACK OR TCP_PSH) request) = (fo, Some ?out)"
    "live_at_seq fo (client_next flow + of_nat (length request)) (server_next flow + of_nat (length ?r))"
    using responds [OF assms(2) assms(3) [unfolded in_step_def] req] by blast
  obtain e1 where e1: "one_output (client_packet (cu_key flow) (client_next flow) (server_next flow) (TCP_ACK OR TCP_PSH) request) ''HTTP request'' eng
      = Some (e1, Inr ?out)" "ready e1" "engine_connections e1 = (engine_connections eng)(cu_key flow := fo)"
    by (rule one_output_one [OF assms(1,2) req(2) fo(1)])
  have "length ?r \<le> 1496" using short [of "classify_http_request request"] by simp
  then have "exchange flow request status body eng = Some (e1, Inr (after_exchange flow request ?r))"
    using req response_valid [OF assms(4) refl refl assms(5)]
    by (simp add: exchange_def andthen_one [OF e1(1)] andthen_label [OF named [OF e1(2)]] advance_flow_def after_exchange_def)
  moreover have "in_step (after_exchange flow request ?r) (engine_connections e1)"
    using fo(2) by (simp add: in_step_def after_exchange_def e1(3))
  ultimately show thesis using e1(2,3) by (intro that)
qed

lemma close_flow_ok:
  assumes "ready eng" "cu_key flow \<in> K" "in_step flow (engine_connections eng)" "unat (client_next flow) + 1 < 2 ^ 32"
  obtains eng' where "close_flow flow eng = Some (eng', Inr ())" "ready eng'"
    "engine_connections eng' = (engine_connections eng)(cu_key flow := None)"
proof -
  have nil: "length ([] :: bytes) \<le> 1496" by simp
  obtain e1 where e1: "one_output (client_packet (cu_key flow) (client_next flow) (server_next flow) (TCP_ACK OR TCP_FIN) []) ''FIN'' eng
      = Some (e1, Inr (reply (cu_key flow) (server_next flow) (client_next flow + 1) TCP_ACK []))" "ready e1"
    "engine_connections e1 = (engine_connections eng)(cu_key flow := None)"
    by (rule one_output_one [OF assms(1,2) nil closes [OF assms(2) assms(3) [unfolded in_step_def]]])
  have "close_flow flow eng = Some (e1, Inr ())" using assms(4) by (simp add: close_flow_def andthen_one [OF e1(1)])
  then show thesis using e1(2,3) by (rule that)
qed

text \<open>The first request of the proof and its retransmission.\<close>

lemma retransmission_ok:
  assumes "ready eng" "cu_key flow \<in> K" "in_step flow (engine_connections eng)" "request \<noteq> []" "length request \<le> 1496"
  defines "q \<equiv> reply (cu_key flow) (server_next flow) (client_next flow + of_nat (length request)) (TCP_ACK OR TCP_PSH) (respond (classify_http_request request))"
    and "p \<equiv> client_packet (cu_key flow) (client_next flow) (server_next flow) (TCP_ACK OR TCP_PSH) request"
  obtains eng1 eng2 fo where "one_output p label eng = Some (eng1, Inr q)" "one_output p label' eng1 = Some (eng2, Inr q)" "ready eng2"
    "engine_connections eng2 = (engine_connections eng)(cu_key flow := fo)"
    "in_step (after_exchange flow request (respond (classify_http_request request))) (engine_connections eng2)"
proof -
  let ?c = "client_next flow" and ?s = "server_next flow" and ?r = "respond (classify_http_request request)"
  obtain f1 where f1: "step (cu_key flow) (engine_connections eng (cu_key flow)) p = (f1, Some q)"
    "live_at_seq f1 (?c + of_nat (length request)) (?s + of_nat (length ?r))" "answered_last f1 ?c request ?s"
    using responds [OF assms(2) assms(3) [unfolded in_step_def] assms(4,5)] unfolding p_def q_def by blast
  obtain e1 where e1: "one_output p label eng = Some (e1, Inr q)" "ready e1" "engine_connections e1 = (engine_connections eng)(cu_key flow := f1)"
    unfolding p_def by (rule one_output_one [OF assms(1,2,5) f1(1) [unfolded p_def]])
  have at: "engine_connections e1 (cu_key flow) = f1" by (simp add: e1(3))
  obtain f2 where f2: "step (cu_key flow) (engine_connections e1 (cu_key flow)) p = (f2, Some q)"
    "live_at_seq f2 (?c + of_nat (length request)) (?s + of_nat (length ?r))"
    using repeats [OF assms(2) f1(2,3) assms(4,5)] unfolding p_def q_def at by blast
  obtain e2 where e2: "one_output p label' e1 = Some (e2, Inr q)" "ready e2" "engine_connections e2 = (engine_connections e1)(cu_key flow := f2)"
    unfolding p_def by (rule one_output_one [OF e1(2) assms(2,5) f2(1) [unfolded p_def]])
  have "in_step (after_exchange flow request ?r) (engine_connections e2)"
    using f2(2) by (simp add: in_step_def after_exchange_def e2(3))
  then show thesis by (intro that [OF e1(1) e2(1,2)]) (simp_all add: e1(3) e2(3))
qed

end

section \<open>The colliding connections\<close>

lemma find_SomeD: "find P xs = Some x \<Longrightarrow> x \<in> set xs \<and> P x"
  by (induction xs) (auto split: if_splits)

lemma collision_port_found:
  obtains port where "collision_port = Some port" "40000 < port" "port < 65535"
    "flow_hash (collision_first\<lparr>src_port := of_nat port\<rparr>) AND 63 = flow_hash collision_first AND 63"
proof -
  define P where "P = (\<lambda>port. flow_hash (collision_first\<lparr>src_port := of_nat port\<rparr>) AND 63 = flow_hash collision_first AND 63)"
  have "P 40064" by (simp add: P_def collision_first_def flow_hash_def CLIENT_IP_def SERVER_IP_def SERVER_PORT_def Let_def)
  moreover have "40064 \<in> set [40001..<65535]" unfolding set_upt atLeastLessThan_iff by simp
  ultimately have "find P [40001..<65535] \<noteq> None" unfolding find_None_iff by blast
  then obtain port where port: "find P [40001..<65535] = Some port" by blast
  have "40000 < port" "port < 65535" "P port" using find_SomeD [OF port] unfolding set_upt atLeastLessThan_iff by simp_all
  then show thesis using port by (intro that [of port]) (simp_all only: collision_port_def P_def)
qed

lemma second_key:
  assumes "40000 < port" "port < 65535" "flow_hash (collision_first\<lparr>src_port := of_nat port\<rparr>) AND 63 = flow_hash collision_first AND 63"
  shows "collision_first \<noteq> collision_first\<lparr>src_port := of_nat port\<rparr>" and "isn (collision_first\<lparr>src_port := of_nat port\<rparr>) \<noteq> - 1"
proof -
  have "unat (of_nat port :: u16) = port" using assms(2) by (simp add: unat_of_nat)
  then have "(of_nat port :: u16) \<noteq> 40000" using assms(1) by auto
  then show "collision_first \<noteq> collision_first\<lparr>src_port := of_nat port\<rparr>" by (auto simp: collision_first_def)
  have "isn (collision_first\<lparr>src_port := of_nat port\<rparr>) AND 63 = (flow_hash collision_first AND 63) XOR (0xa5a55a5a AND 63)"
    by (simp only: isn_def bit.conj_xor_distrib2 assms(3))
  also have "\<dots> \<noteq> - 1 AND 63"
    by (simp add: collision_first_def flow_hash_def CLIENT_IP_def SERVER_IP_def SERVER_PORT_def Let_def)
  finally show "isn (collision_first\<lparr>src_port := of_nat port\<rparr>) \<noteq> - 1" by metis
qed

lemma no_overflow: "(w :: u32) \<noteq> - 1 \<Longrightarrow> unat w + 1 < 2 ^ 32"
proof -
  assume "w \<noteq> - 1"
  have "w = of_nat (unat w)" "unat w < 2 ^ 32" using unsigned_less [of w] by simp_all
  moreover have "(of_nat 4294967295 :: u32) = - 1" by simp
  ultimately have "unat w \<noteq> 4294967295" using \<open>w \<noteq> - 1\<close> by metis
  with \<open>unat w < 2 ^ 32\<close> show ?thesis by simp
qed

text \<open>Where the client stands after the handshake.\<close>

definition opened :: "flow_key \<times> u32 \<Rightarrow> flow_cursor" where
  "opened = (\<lambda>(key, c). \<lparr>cu_key = key, client_next = c + 1, server_next = isn key + 1\<rparr>)"

lemma opened_simps [simp]:
  "cu_key (opened x) = fst x" "client_next (opened x) = snd x + 1" "server_next (opened x) = isn (fst x) + 1"
  by (simp_all add: opened_def split_def)

lemma collision_cursors_ok:
  assumes "\<forall>x\<in>set flows. unat (snd x) + 1 < 2 ^ 32 \<and> unat (isn (fst x)) + 1 < 2 ^ 32"
  shows "collision_cursors (zip flows (map (\<lambda>x. Some (reply (fst x) (isn (fst x)) (snd x + 1) (TCP_SYN OR TCP_ACK) [])) flows))
    = ok (map opened flows)"
  using assms by (induction flows) (auto simp: opened_def)

lemma all_hello_ok:
  assumes "\<forall>x\<in>set xs. length (payload x) \<le> 1496 \<and> has_suffix (ascii ''Hello, World!'' @ [10]) (payload x)"
  shows "all_hello (map (\<lambda>x. Some (reply (key x) (sq x) (ak x) (flags x) (payload x))) xs) = ok True"
  using assms
proof (induction xs)
  case (Cons x xs)
  have "40 + length (s_payload (reply_spec (key x) (sq x) (ak x) (flags x) (payload x))) \<le> MAX_RAW_PACKET_BYTES"
    using Cons.prems by (simp add: reply_spec_def MAX_RAW_PACKET_BYTES_def)
  then show ?case using Cons parse_built by (simp add: reply_def view_of_spec_def reply_spec_def)
qed simp

context packet_service begin

lemma several_open:
  assumes "ready eng" "distinct (map fst flows)" "length flows \<le> FS_LIMIT"
    "\<forall>x\<in>set flows. fst x \<in> K \<and> engine_connections eng (fst x) = None"
  obtains eng' where "batch (map (\<lambda>x. client_packet (fst x) (snd x) 0 TCP_SYN []) flows) eng
      = Some (eng', Inr (map (\<lambda>x. Some (reply (fst x) (isn (fst x)) (snd x + 1) (TCP_SYN OR TCP_ACK) [])) flows))"
    "ready eng'" "\<forall>x\<in>set flows. engine_connections eng' (fst x) = Some (new_flow (snd x + 1) (isn (fst x)))"
    "engine_packets eng' = engine_packets eng + of_nat (length flows)"
proof -
  have step: "step (fst x) (engine_connections eng (fst x)) (client_packet (fst x) (snd x) 0 TCP_SYN []) =
      (Some (new_flow (snd x + 1) (isn (fst x))), Some (reply (fst x) (isn (fst x)) (snd x + 1) (TCP_SYN OR TCP_ACK) []))"
    if "x \<in> set flows" for x using assms(4) that by (intro opens) simp_all
  then show thesis using batch_distinct [OF assms(1-3), of "\<lambda>x. []" snd "\<lambda>x. 0" "\<lambda>x. TCP_SYN"] assms(4)
    by (auto intro: that cong: map_cong)
qed

lemma several_established:
  assumes "ready eng" "distinct (map cu_key cursors)" "length cursors \<le> FS_LIMIT" "\<forall>x\<in>set cursors. cu_key x \<in> K
      \<and> server_next x = isn (cu_key x) + 1 \<and> engine_connections eng (cu_key x) = Some (new_flow (client_next x) (isn (cu_key x)))"
  obtains eng' where "batch (map (\<lambda>x. client_packet (cu_key x) (client_next x) (server_next x) TCP_ACK []) cursors) eng
      = Some (eng', Inr (map (\<lambda>x. None) cursors))" "ready eng'" "\<forall>x\<in>set cursors. in_step x (engine_connections eng')"
    "engine_packets eng' = engine_packets eng + of_nat (length cursors)"
proof -
  let ?step = "\<lambda>x. step (cu_key x) (engine_connections eng (cu_key x)) (client_packet (cu_key x) (client_next x) (server_next x) TCP_ACK [])"
  have step: "snd (?step x) = None \<and> live_at_seq (fst (?step x)) (client_next x) (server_next x)" if "x \<in> set cursors" for x
    using establishes [of "cu_key x" "client_next x"] assms(4) that by auto
  then show thesis using batch_distinct [OF assms(1-3), of "\<lambda>x. []" client_next server_next "\<lambda>x. TCP_ACK"] assms(4)
    by (auto simp: in_step_def intro: that cong: map_cong)
qed

lemma several_answered:
  assumes "ready eng" "distinct (map cu_key cursors)" "length cursors \<le> FS_LIMIT" "request \<noteq> []" "length request \<le> 1496"
    "\<forall>x\<in>set cursors. cu_key x \<in> K \<and> in_step x (engine_connections eng)"
  obtains eng' where "batch_into (map (\<lambda>x. client_packet (cu_key x) (client_next x) (server_next x) (TCP_ACK OR TCP_PSH) request) cursors) outs eng
      = Some (eng', Inr (map (\<lambda>x. Some (reply (cu_key x) (server_next x) (client_next x + of_nat (length request)) (TCP_ACK OR TCP_PSH)
          (respond (classify_http_request request)))) cursors))" "ready eng'"
    "\<forall>x\<in>set cursors. in_step (after_exchange x request (respond (classify_http_request request))) (engine_connections eng')"
    "engine_packets eng' = engine_packets eng + of_nat (length cursors)"
proof -
  let ?step = "\<lambda>x. step (cu_key x) (engine_connections eng (cu_key x)) (client_packet (cu_key x) (client_next x) (server_next x) (TCP_ACK OR TCP_PSH) request)"
  have step: "snd (?step x) = Some (reply (cu_key x) (server_next x) (client_next x + of_nat (length request)) (TCP_ACK OR TCP_PSH)
      (respond (classify_http_request request)))
    \<and> live_at_seq (fst (?step x)) (client_next x + of_nat (length request)) (server_next x + of_nat (length (respond (classify_http_request request))))"
    if "x \<in> set cursors" for x
  proof -
    have live: "cu_key x \<in> K" "live_at_seq (engine_connections eng (cu_key x)) (client_next x) (server_next x)"
      using assms(6) that by (simp_all add: in_step_def)
    show ?thesis using responds [OF live assms(4,5), of "server_next x"] by (elim exE conjE) simp
  qed
  then show thesis using batch_into_distinct [OF assms(1-3), of "\<lambda>x. request" client_next server_next "\<lambda>x. TCP_ACK OR TCP_PSH" outs] assms(5,6)
    by (auto simp: in_step_def after_exchange_def intro: that cong: map_cong)
qed

lemma several_closed:
  assumes "ready eng" "distinct (map cu_key cursors)" "length cursors \<le> FS_LIMIT" "\<forall>x\<in>set cursors. cu_key x \<in> K \<and> in_step x (engine_connections eng)"
  obtains eng' where "batch (map (\<lambda>x. client_packet (cu_key x) (client_next x) (server_next x) (TCP_ACK OR TCP_FIN) []) cursors) eng
      = Some (eng', Inr (map (\<lambda>x. Some (reply (cu_key x) (server_next x) (client_next x + 1) TCP_ACK [])) cursors))" "ready eng'"
proof -
  have step: "snd (step (cu_key x) (engine_connections eng (cu_key x)) (client_packet (cu_key x) (client_next x) (server_next x) (TCP_ACK OR TCP_FIN) []))
      = Some (reply (cu_key x) (server_next x) (client_next x + 1) TCP_ACK [])" if "x \<in> set cursors" for x
    using closes [of "cu_key x" _ "client_next x" "server_next x"] assms(4) that by (simp add: in_step_def)
  then show thesis using batch_distinct [OF assms(1-3), of "\<lambda>x. []" client_next server_next "\<lambda>x. TCP_ACK OR TCP_FIN"] assms(4)
    by (auto intro: that cong: map_cong)
qed

end

section \<open>The proof passes\<close>

definition proof_keys :: "flow_key set" where
  "proof_keys = {demo_key, collision_first} \<union> (case collision_port of None \<Rightarrow> {} | Some port \<Rightarrow> {collision_first\<lparr>src_port := of_nat port\<rparr>})"

lemma proof_keys_few: "finite proof_keys \<and> card proof_keys \<le> 3"
proof -
  have three: "finite {a, b, c} \<and> card {a, b, c} \<le> 3" for a b c :: flow_key by (simp add: card_insert_if)
  obtain port where port: "collision_port = Some port" using collision_port_found by metis
  have "proof_keys = {demo_key, collision_first, collision_first\<lparr>src_port := of_nat port\<rparr>}"
    unfolding proof_keys_def port option.case by blast
  then show ?thesis using three [of demo_key collision_first "collision_first\<lparr>src_port := of_nat port\<rparr>"] by metis
qed

lemma proof_keys_listening: "listening_keys demo_config proof_keys = proof_keys"
  by (auto simp: listening_keys_def proof_keys_def demo_config_def demo_key_def collision_first_def split: option.splits)

lemma demo_key_apart: "collision_first \<noteq> demo_key" "isn demo_key \<noteq> - 1 \<and> isn collision_first \<noteq> - 1"
  by (simp_all add: collision_first_def demo_key_def CLIENT_PORT_def isn_def flow_hash_def CLIENT_IP_def SERVER_IP_def SERVER_PORT_def Let_def)

lemma announcesI:
  assumes "classify_http_request request = r" "(r, status, (crlf @ crlf) @ body) \<in> set response_texts" "request \<noteq> []" "length request \<le> 1496"
  shows "announces request status body"
  using assms unfolding announces_def by blast

lemma second_apart: "flow_hash key AND 63 = flow_hash collision_first AND 63 \<Longrightarrow> key \<noteq> demo_key"
proof -
  have "flow_hash demo_key AND 63 \<noteq> flow_hash collision_first AND 63"
    by (simp add: collision_first_def demo_key_def CLIENT_PORT_def flow_hash_def CLIENT_IP_def SERVER_IP_def SERVER_PORT_def Let_def)
  then show "flow_hash key AND 63 = flow_hash collision_first AND 63 \<Longrightarrow> key \<noteq> demo_key" by metis
qed

lemma requests_announce:
  shows "announces plaintext_request (ascii ''HTTP/1.1 200 OK'' @ crlf) (ascii ''Hello, World!'' @ [10])" (is ?plain)
    and "announces (gpu_request ''GET /health HTTP/1.1'') (ascii ''HTTP/1.1 200 OK'' @ crlf) (ascii ''ok'' @ [10])" (is ?health)
    and "announces (gpu_request ''GET /missing HTTP/1.1'') (ascii ''HTTP/1.1 404 Not Found'' @ crlf) (ascii ''not found'' @ [10])" (is ?missing)
    and "announces (gpu_request ''POST /plaintext HTTP/1.1'') (ascii ''HTTP/1.1 405 Method Not Allowed'' @ crlf) (ascii ''method not allowed'' @ [10])" (is ?post)
proof -
  have fit: "plaintext_request \<noteq> []" "length plaintext_request \<le> 1496" "gpu_request line \<noteq> []" "length line \<le> 100 \<Longrightarrow> length (gpu_request line) \<le> 1496" for line
    by (simp_all add: plaintext_request_def gpu_request_def ascii_def crlf_def)
  have member: "(RESPONSE_PLAINTEXT, ascii ''HTTP/1.1 200 OK'' @ crlf, (crlf @ crlf) @ ascii ''Hello, World!'' @ [10]) \<in> set response_texts"
    "(RESPONSE_HEALTH, ascii ''HTTP/1.1 200 OK'' @ crlf, (crlf @ crlf) @ ascii ''ok'' @ [10]) \<in> set response_texts"
    "(RESPONSE_NOT_FOUND, ascii ''HTTP/1.1 404 Not Found'' @ crlf, (crlf @ crlf) @ ascii ''not found'' @ [10]) \<in> set response_texts"
    "(RESPONSE_METHOD_NOT_ALLOWED, ascii ''HTTP/1.1 405 Method Not Allowed'' @ crlf, (crlf @ crlf) @ ascii ''method not allowed'' @ [10]) \<in> set response_texts"
    unfolding response_texts_def list.set append_assoc by simp_all
  have classes: "classify_http_request plaintext_request = RESPONSE_PLAINTEXT"
    "classify_http_request (gpu_request ''GET /health HTTP/1.1'') = RESPONSE_HEALTH"
    "classify_http_request (gpu_request ''GET /missing HTTP/1.1'') = RESPONSE_NOT_FOUND"
    "classify_http_request (gpu_request ''POST /plaintext HTTP/1.1'') = RESPONSE_METHOD_NOT_ALLOWED"
    unfolding plaintext_request_def gpu_request_def by (rule literal_classes)+
  show ?plain by (rule announcesI [OF classes(1) member(1) fit(1,2)])
  show ?health by (rule announcesI [OF classes(2) member(2) fit(3) fit(4)]) simp
  show ?missing by (rule announcesI [OF classes(3) member(3) fit(3) fit(4)]) simp
  show ?post by (rule announcesI [OF classes(4) member(4) fit(3) fit(4)]) simp
qed

lemma reproduced_same:
  assumes "length payload \<le> 1496"
  shows "reproduced (reply key s a f payload) (reply key s a f payload) = ok True"
proof -
  have "40 + length (s_payload (reply_spec key s a f payload)) \<le> MAX_RAW_PACKET_BYTES" using assms by (simp add: reply_spec_def MAX_RAW_PACKET_BYTES_def)
  then show ?thesis using parse_built by (simp add: reproduced_def reply_def)
qed

lemma after_exchange_simps [simp]: "cu_key (after_exchange flow request response) = cu_key flow"
  by (simp add: after_exchange_def)

lemma after_exchange_next: "unat (client_next (after_exchange flow request response)) \<le> unat (client_next flow) + length request"
proof -
  have "unat (client_next flow + of_nat (length request)) \<le> unat (client_next flow) + unat (of_nat (length request) :: u32)"
    unfolding unat_word_ariths by (rule mod_less_eq_dividend)
  also have "unat (of_nat (length request) :: u32) \<le> length request" by (simp add: unat_of_nat)
  finally show ?thesis by (simp add: after_exchange_def)
qed

context packet_service begin

lemma collision_lookup_ok:
  assumes "ready eng" "proof_keys \<subseteq> K" "\<forall>key\<in>proof_keys - {demo_key}. engine_connections eng key = None"
  obtains eng' where "prove_collision_safe_lookup eng = Some (eng', Inr ())" "ready eng'"
proof -
  obtain port where port: "collision_port = Some port" "40000 < port" "port < 65535"
    "flow_hash (collision_first\<lparr>src_port := of_nat port\<rparr>) AND 63 = flow_hash collision_first AND 63" by (rule collision_port_found)
  define second where "second = collision_first\<lparr>src_port := of_nat port\<rparr>"
  define flows :: "(flow_key \<times> u32) list" where "flows = [(collision_first, 2000000), (second, 3000000)]"
  define request where "request = ascii ''GET /plaintext HTTP/1.1'' @ crlf @ ascii ''Host: collision'' @ crlf @ crlf"
  let ?plain = "respond RESPONSE_PLAINTEXT"
  have apart: "collision_first \<noteq> second" "isn second \<noteq> - 1" using second_key [OF port(2-4)] by (simp_all add: second_def)
  have keys: "collision_first \<in> proof_keys - {demo_key}" "second \<in> proof_keys - {demo_key}"
    using demo_key_apart(1) second_apart [OF port(4)] unfolding proof_keys_def port(1) option.case second_def by blast+
  have flows: "distinct (map fst flows)" "length flows \<le> FS_LIMIT" "\<forall>x\<in>set flows. fst x \<in> K \<and> engine_connections eng (fst x) = None"
    using apart(1) keys assms(2,3) by (auto simp: flows_def FS_LIMIT_def)
  have counts: "\<forall>x\<in>set flows. unat (snd x) + 1 < 2 ^ 32 \<and> unat (isn (fst x)) + 1 < 2 ^ 32"
    using no_overflow [OF apart(2)] no_overflow [OF conjunct2 [OF demo_key_apart(2)]] by (simp add: flows_def)
  have cursors: "distinct (map cu_key (map opened flows))" "length (map opened flows) \<le> FS_LIMIT" using flows(1,2) by (simp_all add: comp_def)
  have fits: "length request \<le> 1496" "request \<noteq> []" by (simp_all add: request_def ascii_def crlf_def)
  obtain e1 where e1: "batch (map (\<lambda>x. client_packet (fst x) (snd x) 0 TCP_SYN []) flows) eng
      = Some (e1, Inr (map (\<lambda>x. Some (reply (fst x) (isn (fst x)) (snd x + 1) (TCP_SYN OR TCP_ACK) [])) flows))"
    "ready e1" "\<forall>x\<in>set flows. engine_connections e1 (fst x) = Some (new_flow (snd x + 1) (isn (fst x)))"
    by (rule several_open [OF assms(1) flows])
  obtain e2 where e2: "batch (map (\<lambda>x. client_packet (cu_key x) (client_next x) (server_next x) TCP_ACK []) (map opened flows)) e1
      = Some (e2, Inr (map (\<lambda>x. None) (map opened flows)))" "ready e2" "\<forall>x\<in>set (map opened flows). in_step x (engine_connections e2)"
    by (rule several_established [OF e1(2) cursors]) (use e1(3) flows(3) in simp)
  obtain e3 where e3: "batch (map (\<lambda>x. client_packet (cu_key x) (client_next x) (server_next x) (TCP_ACK OR TCP_PSH) request) (map opened flows)) e2
      = Some (e3, Inr (map (\<lambda>x. Some (reply (cu_key x) (server_next x) (client_next x + of_nat (length request)) (TCP_ACK OR TCP_PSH)
          (respond (classify_http_request request)))) (map opened flows)))" "ready e3"
    by (rule several_answered [OF e2(2) cursors fits(2,1), where outs = "[]", folded batch_def]) (use e2(3) flows(3) in simp)
  have plain: "classify_http_request request = RESPONSE_PLAINTEXT" unfolding request_def by (rule literal_classes(1))
  have "(RESPONSE_PLAINTEXT, ascii ''HTTP/1.1 200 OK'' @ crlf, crlf @ crlf @ ascii ''Hello, World!'' @ [10]) \<in> set response_texts"
    by (simp add: response_texts_def)
  from texts [OF this] have "has_suffix (ascii ''Hello, World!'' @ [10]) ?plain"
    using has_suffix_tail [of "crlf @ crlf" "ascii ''Hello, World!'' @ [10]" ?plain] by (simp add: response_holds_def)
  then have hello: "all_hello (map (\<lambda>x. Some (reply (cu_key x) (server_next x) (client_next x + of_nat (length request)) (TCP_ACK OR TCP_PSH) ?plain))
      (map opened flows)) = ok True" using short [of RESPONSE_PLAINTEXT] by (intro all_hello_ok) simp
  have syns: "collect (map collision_syn flows) = ok (map (\<lambda>x. client_packet (fst x) (snd x) 0 TCP_SYN []) flows)"
    by (rule collect_ok) (simp add: collision_syn_def split_def)
  have packets: "collect (map (\<lambda>flow. cursor_packet flow f p) (map opened flows))
      = ok (map (\<lambda>x. client_packet (cu_key x) (client_next x) (server_next x) f p) (map opened flows))" if "length p \<le> 1496" for f p
    by (rule collect_ok) (use that in simp)
  have quiet: "list_all (\<lambda>out. out = None) (map (\<lambda>x. None :: raw_packet option) (map opened flows)) = True" by (simp add: list_all_iff)
  have nil: "length ([] :: bytes) \<le> 1496" by simp
  have "prove_collision_safe_lookup eng = Some (e3, Inr ())"
    unfolding prove_collision_safe_lookup_def port(1) session_simps andthen_lift Let_def second_def [symmetric] flows_def [symmetric] request_def [symmetric]
    by (simp only: apart(1) syns andthen_batch [OF e1(1)] collision_cursors_ok [OF counts] packets [OF nil] quiet andthen_batch [OF e2(1)]
        packets [OF fits(1)] andthen_batch [OF e3(1)] plain hello session_simps andthen_lift lift_simps not_False_eq_True)
  then show thesis using e3(2) by (rule that)
qed

lemma protocol_proof_ok:
  assumes "ready eng" "proof_keys \<subseteq> K" "engine_connections eng = Map.empty"
  obtains eng' where "run_protocol_proof eng = Some (eng', Inr ())" "ready eng'"
proof -
  let ?say = "\<lambda>request. respond (classify_http_request request)"
  let ?health = "gpu_request ''GET /health HTTP/1.1''" and ?missing = "gpu_request ''GET /missing HTTP/1.1''"
    and ?post = "gpu_request ''POST /plaintext HTTP/1.1''"
  let ?f0 = "\<lparr>cu_key = demo_key, client_next = CLIENT_ISN + 1, server_next = isn demo_key + 1\<rparr>"
  define f1 where "f1 = after_exchange ?f0 plaintext_request (?say plaintext_request)"
  define f2 where "f2 = after_exchange f1 ?health (?say ?health)"
  define f3 where "f3 = after_exchange f2 ?missing (?say ?missing)"
  define f4 where "f4 = after_exchange f3 ?post (?say ?post)"
  note said = requests_announce
  have lengths: "length plaintext_request \<le> 100" "length ?health \<le> 100" "length ?missing \<le> 100" "length ?post \<le> 100"
    by (simp_all add: plaintext_request_def gpu_request_def ascii_def crlf_def)
  have n0: "unat (client_next ?f0) \<le> 1000001" by (simp add: CLIENT_ISN_def)
  have n1: "unat (client_next f1) \<le> 1000101" 
    using n0 lengths(1) after_exchange_next [of ?f0 plaintext_request "?say plaintext_request"] unfolding f1_def by linarith
  then have n2: "unat (client_next f2) \<le> 1000201" using lengths(2) after_exchange_next [of f1 ?health "?say ?health"] unfolding f2_def by linarith
  then have n3: "unat (client_next f3) \<le> 1000301" using lengths(3) after_exchange_next [of f2 ?missing "?say ?missing"] unfolding f3_def by linarith
  then have n4: "unat (client_next f4) \<le> 1000401" using lengths(4) after_exchange_next [of f3 ?post "?say ?post"] unfolding f4_def by linarith
  have key: "cu_key f1 = demo_key" "cu_key f2 = demo_key" "cu_key f3 = demo_key" "cu_key f4 = demo_key"
    by (simp_all add: f1_def f2_def f3_def f4_def)
  have K: "demo_key \<in> K" using assms(2) by (auto simp: proof_keys_def)
  have none: "engine_connections eng demo_key = None" and small: "unat CLIENT_ISN + 1 < 2 ^ 32" by (simp_all add: assms(3) CLIENT_ISN_def)
  obtain e0 fo0 where e0: "open_client_flow demo_key CLIENT_ISN eng = Some (e0, Inr ?f0)" "ready e0"
    "engine_connections e0 = (engine_connections eng)(demo_key := fo0)" "live_at_seq fo0 (CLIENT_ISN + 1) (isn demo_key + 1)"
    by (rule open_client_flow_ok [OF assms(1) K none small no_overflow [OF conjunct1 [OF demo_key_apart(2)]]])
  have at0: "in_step ?f0 (engine_connections e0)" using e0(3,4) by (simp add: in_step_def)
  have fit: "plaintext_request \<noteq> []" "length plaintext_request \<le> 1496" using lengths(1) said(1) by (simp_all add: announces_def)
  let ?p = "client_packet demo_key (CLIENT_ISN + 1) (isn demo_key + 1) (TCP_ACK OR TCP_PSH) plaintext_request"
  let ?q = "reply demo_key (isn demo_key + 1) (CLIENT_ISN + 1 + of_nat (length plaintext_request)) (TCP_ACK OR TCP_PSH) (?say plaintext_request)"
  obtain e1 e2 fo1 where e1: "one_output ?p ''GET /plaintext'' e0 = Some (e1, Inr ?q)" "one_output ?p ''duplicate GET /plaintext'' e1 = Some (e2, Inr ?q)"
    "ready e2" "engine_connections e2 = (engine_connections e0)(demo_key := fo1)" "in_step f1 (engine_connections e2)"
    unfolding f1_def by (rule retransmission_ok [OF e0(2) _ at0 fit, where label = "''GET /plaintext''" and label' = "''duplicate GET /plaintext''"])
      (use K in simp_all)
  have valid: "validate_response ?q ?f0 plaintext_request (ascii ''HTTP/1.1 200 OK'' @ crlf) (ascii ''Hello, World!'' @ [10]) backend = ok ()"
    by (rule response_valid [OF said(1)]) (use n0 lengths(1) in simp_all)
  have say: "length (?say request) \<le> 1496" for request using short [of "classify_http_request request"] by simp
  have advance: "advance_flow ?f0 plaintext_request ?q = ok f1" using say by (simp add: advance_flow_def f1_def after_exchange_def)
  obtain e3 fo3 where e3: "exchange f1 ?health (ascii ''HTTP/1.1 200 OK'' @ crlf) (ascii ''ok'' @ [10]) e2 = Some (e3, Inr f2)" "ready e3"
    "engine_connections e3 = (engine_connections e2)(demo_key := fo3)" "in_step f2 (engine_connections e3)"
    unfolding f2_def by (rule exchange_ok [OF e1(3) _ e1(5) said(2)]) (use K n1 lengths(2) in \<open>simp_all add: key\<close>)
  obtain e4 fo4 where e4: "exchange f2 ?missing (ascii ''HTTP/1.1 404 Not Found'' @ crlf) (ascii ''not found'' @ [10]) e3 = Some (e4, Inr f3)" "ready e4"
    "engine_connections e4 = (engine_connections e3)(demo_key := fo4)" "in_step f3 (engine_connections e4)"
    unfolding f3_def by (rule exchange_ok [OF e3(2) _ e3(4) said(3)]) (use K n2 lengths(3) in \<open>simp_all add: key\<close>)
  obtain e5 fo5 where e5: "exchange f3 ?post (ascii ''HTTP/1.1 405 Method Not Allowed'' @ crlf) (ascii ''method not allowed'' @ [10]) e4 = Some (e5, Inr f4)"
    "ready e5" "engine_connections e5 = (engine_connections e4)(demo_key := fo5)" "in_step f4 (engine_connections e5)"
    unfolding f4_def by (rule exchange_ok [OF e4(2) _ e4(4) said(4)]) (use K n3 lengths(4) in \<open>simp_all add: key\<close>)
  obtain e6 where e6: "close_flow f4 e5 = Some (e6, Inr ())" "ready e6" "engine_connections e6 = (engine_connections e5)(demo_key := None)"
    by (rule close_flow_ok [OF e5(2) _ e5(4)]) (use K n4 in \<open>simp_all add: key\<close>)
  have "\<forall>key\<in>proof_keys - {demo_key}. engine_connections e6 key = None"
    using assms(3) by (simp add: e6(3) e5(3) e4(3) e3(3) e1(4) e0(3))
  then obtain e7 where e7: "prove_collision_safe_lookup e6 = Some (e7, Inr ())" "ready e7" using collision_lookup_ok [OF e6(2) assms(2)] by blast
  have "run_protocol_proof eng = Some (e7, Inr ())"
    using e7(1) by (simp add: run_protocol_proof_def andthen_run [where m = "open_client_flow demo_key CLIENT_ISN", OF e0(1)] Let_def fit andthen_one [OF e1(1)]
      andthen_one [OF e1(2)] andthen_label [OF named [OF e1(3)]] valid reproduced_same [OF say] advance
      andthen_run [where m = "exchange f1 x y z" for x y z, OF e3(1)] andthen_run [where m = "exchange f2 x y z" for x y z, OF e4(1)]
      andthen_run [where m = "exchange f3 x y z" for x y z, OF e5(1)] andthen_run [where m = "close_flow f4", OF e6(1)])
  then show thesis using e7(2) by (rule that)
qed

end

section \<open>The demo\<close>

lemma demo_config_valid: "valid_config demo_config"
proof -
  have "(64 :: nat) = 2 ^ 6" by simp
  then show ?thesis unfolding valid_config_def demo_config_def by (auto simp: U32_MAX_def simp del: power_numeral)
qed

lemma demo_room: "room_for demo_config proof_keys"
proof -
  have "card proof_keys \<le> 64" using proof_keys_few by linarith
  then have "probe_room 64 64 proof_keys" using proof_keys_few by (intro probe_room_few) simp_all
  then show ?thesis using demo_config_valid by (simp add: room_for_def MAX_STORAGE_BINDING_def) (simp add: demo_config_def)
qed

lemma cpu_proof_passes: "session_on (new_cpu_engine demo_config) run_protocol_proof = ok ()"
proof -
  have few: "finite proof_keys" "card proof_keys \<le> flow_capacity demo_config" using proof_keys_few by (simp_all add: demo_config_def)
  obtain eng where eng: "new_cpu_engine demo_config = ok eng" "cpu_client_ready demo_config proof_keys eng" "engine_connections eng = Map.empty"
    by (rule new_cpu_client [OF demo_config_valid few])
  obtain eng' where "run_protocol_proof eng = Some (eng', Inr ())"
    by (rule cpu_client.protocol_proof_ok [OF eng(2) _ eng(3)]) (simp_all add: proof_keys_listening)
  then show ?thesis unfolding eng(1) by (rule session_on_ok)
qed

lemma gpu_proof_passes:
  assumes "capable ad" "\<forall>w. wave_completes (events w)"
  shows "session_on (new_gpu_engine shader_body (Some ad) events demo_config) run_protocol_proof = ok ()"
proof -
  obtain gpu where gpu: "gpu_packet_engine_new shader_body (Some ad) events demo_config = ok gpu" "packet_engine_ready demo_config proof_keys gpu"
    "connections_of (ge_device_state gpu) = Map.empty" using creation_ready [OF demo_room assms] by blast
  have "gpu_ready demo_config proof_keys (GpuPacketEngine gpu)" using gpu(2) by (simp add: gpu_ready_def)
  then obtain eng' where "run_protocol_proof (GpuPacketEngine gpu) = Some (eng', Inr ())"
    by (rule gpu_client.protocol_proof_ok) (simp_all add: proof_keys_listening gpu(3))
  then show ?thesis by (simp add: new_gpu_engine_def gpu(1) session_on_ok)
qed

text \<open>C13: the protocol demo passes. On any adapter its CPU half passes, so that the demo fails only if the GPU engine cannot be created;
  if the adapter is capable and every wave completes, every check of both halves passes: handshake and retransmitted SYN, the
  response and its retransmission, routing, checksums, the FIN, and two connections whose hashes collide in the flow table.\<close>

theorem demo_passes:
  assumes "\<forall>w. wave_completes (events w)"
  shows "(\<forall>e. gpu_packet_engine_new shader_body adapter events demo_config = fail e \<longrightarrow> demo_main shader_body adapter events = fail (EngineNotCreated e))
    \<and> (\<forall>ad. adapter = Some ad \<and> capable ad \<longrightarrow> demo_main shader_body adapter events = ok ())"
proof -
  have "demo_main shader_body adapter events = fail (EngineNotCreated e)" if "gpu_packet_engine_new shader_body adapter events demo_config = fail e" for e
    using that by (simp add: demo_main_def cpu_proof_passes new_gpu_engine_def)
  moreover have "demo_main shader_body (Some ad) events = ok ()" if "capable ad" for ad
    using gpu_proof_passes [OF that assms, of shader_body] by (simp add: demo_main_def cpu_proof_passes)
  ultimately show ?thesis by blast
qed

theorem demo_passes_witness:
  "demo_main [] (Some sample_adapter) (\<lambda>w. sample_wave) = ok () \<and> demo_main [] None (\<lambda>w. sample_wave) = fail (EngineNotCreated NoPacketAdapter)"
proof -
  have "gpu_packet_engine_new [] None (\<lambda>w. sample_wave) demo_config = fail NoPacketAdapter"
    using demo_config_valid validate_config_iff [of demo_config] by (simp add: gpu_packet_engine_new_def)
  then show ?thesis using demo_passes [of "\<lambda>w. sample_wave" "[]" "Some sample_adapter"] demo_passes [of "\<lambda>w. sample_wave" "[]" None] by simp
qed

end
