(* ===== verification/StringTable.thy ===== *)
theory StringTable
  imports HashTable
begin

text \<open>
  The router's string table (\<open>StringTable\<close> of \<open>src/router.rs\<close>): strings are interned to
  \<open>u32\<close> ids, the position of the string in the value list. The locale \<open>interner\<close> is what the
  compiler relies on: an id resolves to its string, and keeps doing so when more strings are
  interned.
\<close>

section \<open>The contract\<close>

locale interner =
  fixes intern :: "'t \<Rightarrow> 's \<Rightarrow> ('t \<times> 'i) option"
    and resolve :: "'t \<Rightarrow> 'i \<Rightarrow> 's option"
    and valid :: "'t \<Rightarrow> bool"
  assumes intern_resolves: "valid t \<Longrightarrow> intern t s = Some (t', i) \<Longrightarrow> valid t' \<and> resolve t' i = Some s"
    and intern_keeps: "valid t \<Longrightarrow> intern t s = Some (t', i) \<Longrightarrow> resolve t j = Some u \<Longrightarrow> resolve t' j = Some u"
    and intern_known: "valid t \<Longrightarrow> resolve t j = Some s \<Longrightarrow> intern t s = Some (t, j)"
begin

definition extends :: "'t \<Rightarrow> 't \<Rightarrow> bool" where
  "extends t t' \<longleftrightarrow> (\<forall>j u. resolve t j = Some u \<longrightarrow> resolve t' j = Some u)"

lemma extends_refl [simp]: "extends t t"
  by (simp add: extends_def)

lemma extends_trans: "extends t t' \<Longrightarrow> extends t' t'' \<Longrightarrow> extends t t''"
  by (simp add: extends_def)

lemma extendsD: "extends t t' \<Longrightarrow> resolve t j = Some u \<Longrightarrow> resolve t' j = Some u"
  by (simp add: extends_def)

lemma internE:
  assumes "valid t" "intern t s = Some (t', i)"
  shows "valid t'" "resolve t' i = Some s" "extends t t'"
  using intern_resolves [OF assms] intern_keeps [OF assms] by (auto simp: extends_def)

text \<open>Interning twice gives the same id and changes nothing.\<close>

lemma intern_idem:
  assumes "valid t" "intern t s = Some (t', i)"
  shows "intern t' s = Some (t', i)"
  using internE [OF assms] by (intro intern_known)

lemma intern_injective:
  assumes "valid t" "resolve t i = Some s" "resolve t j = Some s"
  shows "i = j"
  using intern_known [OF assms(1,2)] intern_known [OF assms(1,3)] by simp

end

section \<open>The table\<close>

record string_table =
  st_values :: "bytes list"
  st_ids :: "(bytes, u32) hash_map"

definition string_table_default :: string_table where
  "string_table_default = \<lparr>st_values = [], st_ids = []\<rparr>"

definition st_intern :: "string_table \<Rightarrow> bytes \<Rightarrow> (string_table \<times> u32) option" where
  "st_intern t value =
     (case hm_get (st_ids t) value of
        Some i \<Rightarrow> Some (t, i)
      | None \<Rightarrow>
          if length (st_values t) \<le> U32_MAX
          then let i = of_nat (length (st_values t)) in
            Some (t\<lparr>st_values := st_values t @ [value], st_ids := hm_insert value i (st_ids t)\<rparr>, i)
          else None)"

definition st_get :: "string_table \<Rightarrow> u32 \<Rightarrow> bytes option" where
  "st_get t i = index (st_values t) (unat i)"

definition st_valid :: "string_table \<Rightarrow> bool" where
  "st_valid t \<longleftrightarrow> hm_inv (st_ids t) \<and> length (st_values t) \<le> Suc U32_MAX
     \<and> (\<forall>s i. hm_get (st_ids t) s = Some i \<longleftrightarrow> st_get t i = Some s)"

lemma st_valid_default [simp]: "st_valid string_table_default"
  by (simp add: st_valid_def string_table_default_def st_get_def index_def)

lemma st_get_append:
  assumes "length vs \<le> U32_MAX"
  shows "index (vs @ [v]) (unat (i :: u32)) = (if i = of_nat (length vs) then Some v else index vs (unat i))"
proof -
  have "unat (of_nat (length vs) :: u32) = length vs"
    using assms by (simp add: unsigned_of_nat take_bit_nat_eq_self U32_MAX_def)
  then have "i = of_nat (length vs) \<longleftrightarrow> unat i = length vs" by (metis word_unat_eq_iff)
  then show ?thesis by (auto simp: index_def nth_append)
qed

lemma st_intern_law:
  assumes "st_valid t" "st_intern t s = Some (t', i)"
  shows "st_valid t' \<and> st_get t' i = Some s \<and> (\<forall>j u. st_get t j = Some u \<longrightarrow> st_get t' j = Some u)"
proof (cases "hm_get (st_ids t) s")
  case (Some k)
  then show ?thesis using assms by (auto simp: st_intern_def st_valid_def)
next
  case None
  then have len: "length (st_values t) \<le> U32_MAX" and i: "i = of_nat (length (st_values t))"
    and t': "t' = t\<lparr>st_values := st_values t @ [s], st_ids := hm_insert s i (st_ids t)\<rparr>"
    using assms(2) by (auto simp: st_intern_def Let_def split: if_splits)
  have hi: "hm_inv (st_ids t)" and ids: "\<And>s i. hm_get (st_ids t) s = Some i \<longleftrightarrow> st_get t i = Some s"
    using assms(1) by (auto simp: st_valid_def)
  have get: "st_get t' j = (if j = i then Some s else st_get t j)" for j
    using st_get_append [OF len] by (simp add: t' st_get_def i)
  have fresh: "st_get t i = None"
    using len by (simp add: st_get_def index_def i unsigned_of_nat take_bit_nat_eq_self U32_MAX_def)
  have "hm_get (st_ids t') u = Some j \<longleftrightarrow> st_get t' j = Some u" for u j
    using None ids [of u j] ids [of s j] fresh ids [of u i]
    by (auto simp: t' hm.lookup_insert [OF hi] get [unfolded t'] split: if_splits)
  then show ?thesis using len fresh by (auto simp: st_valid_def t' hm.inv_insert [OF hi] get [unfolded t'])
qed

interpretation st: interner st_intern st_get st_valid
proof unfold_locales
  fix t s t' i
  assume v: "st_valid t" and r: "st_intern t s = Some (t', i)"
  show "st_valid t' \<and> st_get t' i = Some s" using st_intern_law [OF v r] by blast
  show "st_get t j = Some u \<Longrightarrow> st_get t' j = Some u" for j u using st_intern_law [OF v r] by blast
next
  fix t j s
  assume "st_valid t" "st_get t j = Some s"
  then have "hm_get (st_ids t) s = Some j" by (simp add: st_valid_def)
  then show "st_intern t s = Some (t, j)" by (simp add: st_intern_def)
qed

end
