(* ===== verification/Router.thy ===== *)
theory Router
  imports StringTable Protocol "HOL-Library.List_Lexorder" "HOL-Library.Product_Lexorder"
begin

text \<open>
  \<open>src/router.rs\<close>, declaration and compilation: the builders of \<open>Body\<close>, \<open>Response\<close> and
  \<open>Router\<close>; the compiler to interned response programs, the route table sorted by path hash
  and the word program for the GPU.
\<close>

section \<open>Declarations\<close>

record status =
  status_code :: u16
  status_reason :: bytes

definition status_new :: "u16 \<Rightarrow> bytes \<Rightarrow> status" where
  "status_new c r = \<lparr>status_code = c, status_reason = r\<rparr>"

definition STATUS_OK :: status where "STATUS_OK = status_new 200 (ascii ''OK'')"
definition STATUS_BAD_REQUEST :: status where "STATUS_BAD_REQUEST = status_new 400 (ascii ''Bad Request'')"
definition STATUS_NOT_FOUND :: status where "STATUS_NOT_FOUND = status_new 404 (ascii ''Not Found'')"
definition STATUS_METHOD_NOT_ALLOWED :: status where
  "STATUS_METHOD_NOT_ALLOWED = status_new 405 (ascii ''Method Not Allowed'')"

datatype body_segment =
    Literal bytes
  | Path nat
  | Query nat
  | Backend
  | RequestBytes
  | PathHash
  | BackendVariant bytes bytes

type_synonym body = "body_segment list"

definition body_literal :: "body \<Rightarrow> bytes \<Rightarrow> body" where
  "body_literal segments literal =
     (if literal = [] then segments
      else if segments = [] then [Literal literal]
      else (case last segments of
              Literal previous \<Rightarrow> butlast segments @ [Literal (previous @ literal)]
            | _ \<Rightarrow> segments @ [Literal literal]))"

definition body_push :: "body \<Rightarrow> bytes \<Rightarrow> body" where
  "body_push segments literal = body_literal segments literal"

definition body_path :: "body \<Rightarrow> nat \<Rightarrow> body" where
  "body_path segments max_bytes = (if max_bytes \<noteq> 0 then segments @ [Path max_bytes] else segments)"

definition body_query :: "body \<Rightarrow> nat \<Rightarrow> body" where
  "body_query segments max_bytes = (if max_bytes \<noteq> 0 then segments @ [Query max_bytes] else segments)"

definition body_backend :: "body \<Rightarrow> body" where
  "body_backend segments = segments @ [Backend]"

definition body_request_bytes :: "body \<Rightarrow> body" where
  "body_request_bytes segments = segments @ [RequestBytes]"

definition body_path_hash :: "body \<Rightarrow> body" where
  "body_path_hash segments = segments @ [PathHash]"

definition body_backend_variant :: "body \<Rightarrow> bytes \<Rightarrow> bytes \<Rightarrow> body" where
  "body_backend_variant segments cpu gpu =
     (if cpu = gpu then body_literal segments cpu else segments @ [BackendVariant cpu gpu])"

record response =
  r_status :: status
  r_content_type :: bytes
  r_body :: body

definition response_text :: "body \<Rightarrow> response" where
  "response_text b = \<lparr>r_status = STATUS_OK, r_content_type = ascii ''text/plain; charset=utf-8'', r_body = b\<rparr>"

definition response_json :: "body \<Rightarrow> response" where
  "response_json b = \<lparr>r_status = STATUS_OK, r_content_type = ascii ''application/json'', r_body = b\<rparr>"

definition response_html :: "body \<Rightarrow> response" where
  "response_html b = \<lparr>r_status = STATUS_OK, r_content_type = ascii ''text/html; charset=utf-8'', r_body = b\<rparr>"

definition with_status :: "response \<Rightarrow> status \<Rightarrow> response" where
  "with_status r s = r\<lparr>r_status := s\<rparr>"

definition with_content_type :: "response \<Rightarrow> bytes \<Rightarrow> response" where
  "with_content_type r v = r\<lparr>r_content_type := v\<rparr>"

record router =
  rt_routes :: "(bytes \<times> response) list"
  rt_fallback :: response
  rt_bad_request :: response
  rt_method_not_allowed :: response

definition router_new :: router where
  "router_new = \<lparr>rt_routes = [],
     rt_fallback = (response_text (body_push [] NOT_FOUND_BODY))\<lparr>r_status := STATUS_NOT_FOUND\<rparr>,
     rt_bad_request = (response_text (body_push [] BAD_REQUEST_BODY))\<lparr>r_status := STATUS_BAD_REQUEST\<rparr>,
     rt_method_not_allowed = (response_text (body_push [] METHOD_NOT_ALLOWED_BODY))\<lparr>r_status := STATUS_METHOD_NOT_ALLOWED\<rparr>\<rparr>"

definition router_route :: "router \<Rightarrow> bytes \<Rightarrow> response \<Rightarrow> router" where
  "router_route r path response = r\<lparr>rt_routes := rt_routes r @ [(path, response)]\<rparr>"

text \<open>\<open>Router::get\<close> with the response already converted: \<open>routing::get\<close> only wraps it.\<close>

definition router_get :: "router \<Rightarrow> bytes \<Rightarrow> response \<Rightarrow> router" where
  "router_get r path response = router_route r path response"

definition router_fallback :: "router \<Rightarrow> response \<Rightarrow> router" where
  "router_fallback r response = r\<lparr>rt_fallback := response\<rparr>"

definition router_bad_request :: "router \<Rightarrow> response \<Rightarrow> router" where
  "router_bad_request r response = r\<lparr>rt_bad_request := response\<rparr>"

definition router_method_not_allowed :: "router \<Rightarrow> response \<Rightarrow> router" where
  "router_method_not_allowed r response = r\<lparr>rt_method_not_allowed := response\<rparr>"

definition builtin_router :: router where
  "builtin_router =
     (let r = router_new;
          r = router_route r (ascii ''/'') (response_json (body_backend_variant [] CPU_ROOT_BODY GPU_ROOT_BODY));
          r = router_route r (ascii ''/health'') (response_text (body_push [] HEALTH_BODY));
          r = router_route r (ascii ''/hello'') (response_text (body_backend_variant [] CPU_HELLO_BODY GPU_HELLO_BODY));
          r = router_route r (ascii ''/utf8'') (response_text (body_push [] UTF8_BODY));
          b = body_push [] (ascii ''path='');
          b = body_path b 48;
          b = body_push b (newline @ ascii ''query='');
          b = body_query b 48;
          b = body_push b (newline @ ascii ''request_bytes='');
          b = body_request_bytes b;
          b = body_push b (newline @ ascii ''path_hash='');
          b = body_path_hash b;
          b = body_push b (newline @ ascii ''backend='');
          b = body_backend b;
          b = body_push b newline
      in router_route r (ascii ''/inspect'') (response_text b))"

section \<open>Validation\<close>

datatype router_error =
    RouteCountOverflow
  | BadRoutePath bytes
  | DuplicateRoute bytes
  | BadStatusCode u16
  | EmptyHeaderValue
  | BadHeaderValue
  | LimitOverflow
  | BodyOverflow string
  | ResponseSizeNotU32
  | ProgramLengthNotU32
  | SlotTooSmall nat nat

definition is_ascii_control :: "u8 \<Rightarrow> bool" where
  "is_ascii_control b \<longleftrightarrow> b < 32 \<or> b = 127"

definition validate_route_path :: "bytes \<Rightarrow> (router_error, unit) outcome" where
  "validate_route_path path =
     (if path = [] \<or> hd path \<noteq> 47 then fail (BadRoutePath path)
      else if 63 \<in> set path \<or> 35 \<in> set path then fail (BadRoutePath path)
      else if list_ex (\<lambda>b. is_ascii_control b \<or> b = 32) path then fail (BadRoutePath path)
      else if length path > U32_MAX then fail (BadRoutePath path)
      else ok ())"

definition validate_header_value :: "bytes \<Rightarrow> (router_error, unit) outcome" where
  "validate_header_value v =
     (if v = [] then fail EmptyHeaderValue
      else if \<not> list_all (\<lambda>b. b < 128) v \<or> list_ex is_ascii_control v then fail BadHeaderValue
      else ok ())"

definition validate_status :: "status \<Rightarrow> (router_error, unit) outcome" where
  "validate_status s =
     (if \<not> (100 \<le> unat (status_code s) \<and> unat (status_code s) \<le> 999) then fail (BadStatusCode (status_code s))
      else validate_header_value (status_reason s))"

definition validate_dynamic_limit :: "nat \<Rightarrow> (router_error, nat) outcome" where
  "validate_dynamic_limit max_bytes = (if max_bytes > U32_MAX then fail LimitOverflow else ok max_bytes)"

definition checked_add :: "nat \<Rightarrow> nat \<Rightarrow> string \<Rightarrow> (router_error, nat) outcome" where
  "checked_add current amount label =
     (case checked_add_usize current amount of None \<Rightarrow> fail (BodyOverflow label) | Some n \<Rightarrow> ok n)"

definition fnv1a :: "bytes \<Rightarrow> u32" where
  "fnv1a bs = foldl (\<lambda>hash b. (hash XOR ucast b) * 16777619) 2166136261 bs"

section \<open>Compiled programs\<close>

record shader_string_ids =
  id_http_version :: u32
  id_header_content_type :: u32
  id_header_content_length :: u32
  id_header_tail :: u32
  id_backend_gpu :: u32

record gpu_router_layout =
  route_count :: u32
  fallback_response_offset :: u32
  bad_request_response_offset :: u32
  method_not_allowed_response_offset :: u32

datatype compiled_segment =
    CLiteral u32
  | CPath nat
  | CQuery nat
  | CBackend
  | CRequestBytes
  | CPathHash
  | CBackendVariant u32 u32

record compiled_response =
  c_status :: u16
  c_reason :: u32
  c_content_type :: u32
  c_segments :: "compiled_segment list"
  c_max_gpu_body :: nat
  c_max_cpu_body :: nat

record compiled_route =
  cr_path :: bytes
  cr_hash :: u32
  cr_response :: compiled_response

record compiled_router =
  k_routes :: "compiled_route list"
  k_fallback :: compiled_response
  k_bad_request :: compiled_response
  k_method_not_allowed :: compiled_response
  k_strings :: "bytes list"
  k_words :: "u32 list"
  k_layout :: gpu_router_layout
  k_ids :: shader_string_ids
  k_max_gpu_response_bytes :: nat

definition ROUTE_STRIDE_WORDS :: nat where "ROUTE_STRIDE_WORDS = 4"
definition RESPONSE_DESCRIPTOR_WORDS :: nat where "RESPONSE_DESCRIPTOR_WORDS = 5"
definition BODY_OP_WORDS :: nat where "BODY_OP_WORDS = 3"
definition BODY_OP_LITERAL :: u32 where "BODY_OP_LITERAL = 0"
definition BODY_OP_PATH :: u32 where "BODY_OP_PATH = 1"
definition BODY_OP_QUERY :: u32 where "BODY_OP_QUERY = 2"
definition BODY_OP_BACKEND :: u32 where "BODY_OP_BACKEND = 3"
definition BODY_OP_REQUEST_BYTES :: u32 where "BODY_OP_REQUEST_BYTES = 4"
definition BODY_OP_PATH_HASH :: u32 where "BODY_OP_PATH_HASH = 5"
definition BODY_OP_BACKEND_VARIANT :: u32 where "BODY_OP_BACKEND_VARIANT = 6"

section \<open>The compiler\<close>

definition HEADER_TAIL :: bytes where
  "HEADER_TAIL = CRLF @ ascii ''Connection: close'' @ CRLF @ ascii ''Server: gput'' @ CRLF @ ascii ''X-Gput-Backend: gpu'' @ CRLF @ CRLF"

text \<open>\<open>RouterCompiler::new\<close>: the shader's own strings come first.\<close>

definition router_compiler_new :: "(string_table \<times> shader_string_ids) option" where
  "router_compiler_new = do {
     (st, v) \<leftarrow> st_intern string_table_default (ascii ''HTTP/1.1 '');
     (st, ct) \<leftarrow> st_intern st (CRLF @ ascii ''Content-Type: '');
     (st, cl) \<leftarrow> st_intern st (CRLF @ ascii ''Content-Length: '');
     (st, tl) \<leftarrow> st_intern st HEADER_TAIL;
     (st, gp) \<leftarrow> st_intern st (ascii ''gpu'');
     Some (st, \<lparr>id_http_version = v, id_header_content_type = ct, id_header_content_length = cl,
               id_header_tail = tl, id_backend_gpu = gp\<rparr>) }"

fun compile_segments :: "string_table \<Rightarrow> body \<Rightarrow> compiled_segment list \<Rightarrow> nat \<Rightarrow> nat
    \<Rightarrow> (router_error, string_table \<times> compiled_segment list \<times> nat \<times> nat) outcome" where
  "compile_segments st [] segs g c = ok (st, segs, g, c)"
| "compile_segments st (Literal v # rest) segs g c =
     and_then (or_panic (st_intern st v)) (\<lambda>(st, i).
     and_then (checked_add g (length v) ''GPU body'') (\<lambda>g.
     and_then (checked_add c (length v) ''CPU body'') (\<lambda>c.
     compile_segments st rest (segs @ [CLiteral i]) g c)))"
| "compile_segments st (Path n # rest) segs g c =
     and_then (validate_dynamic_limit n) (\<lambda>n.
     and_then (checked_add g n ''GPU body'') (\<lambda>g.
     and_then (checked_add c n ''CPU body'') (\<lambda>c.
     compile_segments st rest (segs @ [CPath n]) g c)))"
| "compile_segments st (Query n # rest) segs g c =
     and_then (validate_dynamic_limit n) (\<lambda>n.
     and_then (checked_add g n ''GPU body'') (\<lambda>g.
     and_then (checked_add c n ''CPU body'') (\<lambda>c.
     compile_segments st rest (segs @ [CQuery n]) g c)))"
| "compile_segments st (Backend # rest) segs g c =
     and_then (checked_add g 3 ''GPU body'') (\<lambda>g.
     and_then (checked_add c 3 ''CPU body'') (\<lambda>c.
     compile_segments st rest (segs @ [CBackend]) g c))"
| "compile_segments st (RequestBytes # rest) segs g c =
     and_then (checked_add g 10 ''GPU body'') (\<lambda>g.
     and_then (checked_add c 20 ''CPU body'') (\<lambda>c.
     compile_segments st rest (segs @ [CRequestBytes]) g c))"
| "compile_segments st (PathHash # rest) segs g c =
     and_then (checked_add g 10 ''GPU body'') (\<lambda>g.
     and_then (checked_add c 10 ''CPU body'') (\<lambda>c.
     compile_segments st rest (segs @ [CPathHash]) g c))"
| "compile_segments st (BackendVariant cpu gpu # rest) segs g c =
     and_then (or_panic (st_intern st cpu)) (\<lambda>(st, ci).
     and_then (or_panic (st_intern st gpu)) (\<lambda>(st, gi).
     and_then (checked_add g (length gpu) ''GPU body'') (\<lambda>g.
     and_then (checked_add c (max (length cpu) (length gpu)) ''CPU body'') (\<lambda>c.
     compile_segments st rest (segs @ [CBackendVariant ci gi]) g c))))"

definition compile_response :: "string_table \<Rightarrow> response \<Rightarrow> (router_error, string_table \<times> compiled_response) outcome" where
  "compile_response st r =
     and_then (validate_status (r_status r)) (\<lambda>_.
     and_then (validate_header_value (r_content_type r)) (\<lambda>_.
     and_then (or_panic (st_intern st (status_reason (r_status r)))) (\<lambda>(st, ri).
     and_then (or_panic (st_intern st (r_content_type r))) (\<lambda>(st, ti).
     and_then (compile_segments st (r_body r) [] 0 0) (\<lambda>(st, segs, g, c).
     ok (st, \<lparr>c_status = status_code (r_status r), c_reason = ri, c_content_type = ti, c_segments = segs,
              c_max_gpu_body = g, c_max_cpu_body = c\<rparr>))))))"

fun compile_routes :: "string_table \<Rightarrow> (bytes \<times> response) list \<Rightarrow> bytes set \<Rightarrow> compiled_route list
    \<Rightarrow> (router_error, string_table \<times> compiled_route list) outcome" where
  "compile_routes st [] seen_paths rs = ok (st, rs)"
| "compile_routes st ((path, response) # rest) seen_paths rs =
     and_then (validate_route_path path) (\<lambda>_.
     if path \<in> seen_paths then fail (DuplicateRoute path)
     else and_then (compile_response st response) (\<lambda>(st, cr).
       compile_routes st rest (insert path seen_paths)
         (rs @ [\<lparr>cr_path = path, cr_hash = fnv1a path, cr_response = cr\<rparr>])))"

section \<open>The word program\<close>

definition u32_or :: "string \<Rightarrow> nat \<Rightarrow> (router_error, u32) outcome" where
  "u32_or what n = (if n \<le> U32_MAX then ok (of_nat n) else fail (BodyOverflow what))"

definition segment_words :: "compiled_segment \<Rightarrow> (router_error, u32 list) outcome" where
  "segment_words s = (case s of
       CLiteral i \<Rightarrow> ok [BODY_OP_LITERAL, i, 0]
     | CPath n \<Rightarrow> and_then (u32_or ''path byte limit'' n) (\<lambda>n. ok [BODY_OP_PATH, n, 0])
     | CQuery n \<Rightarrow> and_then (u32_or ''query byte limit'' n) (\<lambda>n. ok [BODY_OP_QUERY, n, 0])
     | CBackend \<Rightarrow> ok [BODY_OP_BACKEND, 0, 0]
     | CRequestBytes \<Rightarrow> ok [BODY_OP_REQUEST_BYTES, 0, 0]
     | CPathHash \<Rightarrow> ok [BODY_OP_PATH_HASH, 0, 0]
     | CBackendVariant cpu gpu \<Rightarrow> ok [BODY_OP_BACKEND_VARIANT, cpu, gpu])"

fun emit_segments :: "u32 list \<Rightarrow> compiled_segment list \<Rightarrow> (router_error, u32 list) outcome" where
  "emit_segments words [] = ok words"
| "emit_segments words (s # rest) = and_then (segment_words s) (\<lambda>op. emit_segments (words @ op) rest)"

definition emit_response :: "u32 list \<Rightarrow> compiled_response \<Rightarrow> (router_error, u32 list \<times> u32) outcome" where
  "emit_response words r =
     and_then (u32_or ''router word offset'' (length words)) (\<lambda>response_offset.
     and_then (checked_add (length words) RESPONSE_DESCRIPTOR_WORDS ''response program offset'') (\<lambda>program_offset.
     and_then (u32_or ''response program offset'' program_offset) (\<lambda>program_offset.
     and_then (u32_or ''body operation count'' (length (c_segments r))) (\<lambda>operation_count.
     and_then (emit_segments (words @ [ucast (c_status r), c_reason r, c_content_type r, program_offset, operation_count])
        (c_segments r)) (\<lambda>words.
     ok (words, response_offset))))))"

fun emit_routes :: "u32 list \<Rightarrow> string_table \<Rightarrow> nat \<Rightarrow> compiled_route list
    \<Rightarrow> (router_error, u32 list \<times> string_table) outcome" where
  "emit_routes words st i [] = ok (words, st)"
| "emit_routes words st i (r # rest) =
     and_then (emit_response words (cr_response r)) (\<lambda>(words, response_offset).
     and_then (or_panic (st_intern st (cr_path r))) (\<lambda>(st, path_id).
     let base = i * ROUTE_STRIDE_WORDS in
     and_then (or_panic (set_at words base (cr_hash r))) (\<lambda>words.
     and_then (u32_or ''route path byte length'' (length (cr_path r))) (\<lambda>len.
     and_then (or_panic (set_at words (base + 1) len)) (\<lambda>words.
     and_then (or_panic (set_at words (base + 2) path_id)) (\<lambda>words.
     and_then (or_panic (set_at words (base + 3) response_offset)) (\<lambda>words.
     emit_routes words st (i + 1) rest)))))))"

fun checked_sum :: "nat \<Rightarrow> nat list \<Rightarrow> string \<Rightarrow> (router_error, nat) outcome" where
  "checked_sum n [] label = ok n"
| "checked_sum n (m # ms) label = and_then (checked_add n m label) (\<lambda>n. checked_sum n ms label)"

definition string_len :: "string_table \<Rightarrow> u32 \<Rightarrow> (router_error, nat) outcome" where
  "string_len st i = or_panic (map_option length (st_get st i))"

definition maximum_response_bytes :: "string_table \<Rightarrow> shader_string_ids \<Rightarrow> compiled_response \<Rightarrow> (router_error, nat) outcome" where
  "maximum_response_bytes st ids r =
     and_then (string_len st (id_http_version ids)) (\<lambda>version.
     and_then (string_len st (c_reason r)) (\<lambda>reason.
     and_then (string_len st (id_header_content_type ids)) (\<lambda>header_type.
     and_then (string_len st (c_content_type r)) (\<lambda>content_type.
     and_then (string_len st (id_header_content_length ids)) (\<lambda>header_length.
     and_then (string_len st (id_header_tail ids)) (\<lambda>tail.
     and_then (checked_sum version [decimal_digits (unat (c_status r)), 1, reason, header_type, content_type,
        header_length, decimal_digits (c_max_gpu_body r), tail] ''GPU response header'') (\<lambda>header_bytes.
     checked_add header_bytes (c_max_gpu_body r) ''GPU response'')))))))"

fun maximum_of :: "string_table \<Rightarrow> shader_string_ids \<Rightarrow> nat \<Rightarrow> compiled_response list \<Rightarrow> (router_error, nat) outcome" where
  "maximum_of st ids current [] = ok current"
| "maximum_of st ids current (r # rs) =
     and_then (maximum_response_bytes st ids r) (\<lambda>n. maximum_of st ids (max current n) rs)"

definition route_order :: "compiled_route \<Rightarrow> u32 \<times> bytes" where
  "route_order r = (cr_hash r, cr_path r)"

definition compile :: "router \<Rightarrow> (router_error, compiled_router) outcome" where
  "compile r =
     (if length (rt_routes r) > U32_MAX then fail RouteCountOverflow else
     and_then (or_panic router_compiler_new) (\<lambda>(st, ids).
     and_then (compile_routes st (rt_routes r) {} []) (\<lambda>(st, rs).
     let rs = sort_key route_order rs in
     and_then (compile_response st (rt_fallback r)) (\<lambda>(st, fb).
     and_then (compile_response st (rt_bad_request r)) (\<lambda>(st, br).
     and_then (compile_response st (rt_method_not_allowed r)) (\<lambda>(st, mna).
     and_then (case checked_mul_usize (length rs) ROUTE_STRIDE_WORDS of
         None \<Rightarrow> fail (BodyOverflow ''route table word count'') | Some n \<Rightarrow> ok n) (\<lambda>route_table_words.
     and_then (emit_routes (replicate route_table_words 0) st 0 rs) (\<lambda>(words, st).
     and_then (emit_response words fb) (\<lambda>(words, fb_offset).
     and_then (emit_response words br) (\<lambda>(words, br_offset).
     and_then (emit_response words mna) (\<lambda>(words, mna_offset).
     and_then (maximum_of st ids 0 (map cr_response rs @ [fb, br, mna])) (\<lambda>max_gpu_response_bytes.
     if max_gpu_response_bytes > U32_MAX then fail ResponseSizeNotU32
     else if length words > U32_MAX then fail ProgramLengthNotU32
     else and_then (u32_or ''route count'' (length rs)) (\<lambda>nroutes.
     ok \<lparr>k_routes = rs, k_fallback = fb, k_bad_request = br, k_method_not_allowed = mna,
         k_strings = st_values st, k_words = words,
         k_layout = \<lparr>route_count = nroutes, fallback_response_offset = fb_offset,
           bad_request_response_offset = br_offset, method_not_allowed_response_offset = mna_offset\<rparr>,
         k_ids = ids, k_max_gpu_response_bytes = max_gpu_response_bytes\<rparr>)))))))))))))"

definition validate_gpu_response_slot :: "compiled_router \<Rightarrow> nat \<Rightarrow> (router_error, unit) outcome" where
  "validate_gpu_response_slot c response_slot_bytes =
     (if response_slot_bytes < k_max_gpu_response_bytes c
      then fail (SlotTooSmall (k_max_gpu_response_bytes c) response_slot_bytes) else ok ())"

section \<open>Serving a request\<close>

record request_parts =
  q_path :: bytes
  q_query :: bytes
  q_path_hash :: u32

definition empty_parts :: request_parts where
  "empty_parts = \<lparr>q_path = [], q_query = [], q_path_hash = 0\<rparr>"

datatype request_parse = Get request_parts | ParsedBadRequest | ParsedMethodNotAllowed

definition parse_request :: "bytes \<Rightarrow> request_parse" where
  "parse_request request =
     (case position (\<lambda>b. b = 10) request of
        None \<Rightarrow> ParsedBadRequest
      | Some line_end \<Rightarrow>
          let request_line = strip_suffix 13 (take line_end request) in
          (case split_on 32 request_line of
             [method, target, version] \<Rightarrow>
               if method \<noteq> ascii ''GET'' then ParsedMethodNotAllowed
               else if version \<noteq> ascii ''HTTP/1.1'' \<and> version \<noteq> ascii ''HTTP/1.0'' then ParsedBadRequest
               else if target = [] \<or> hd target \<noteq> 47 then ParsedBadRequest
               else
                 let (path, query) = (case position (\<lambda>b. b = 63) target of
                       None \<Rightarrow> (target, [])
                     | Some query_mark \<Rightarrow> (take query_mark target, drop (query_mark + 1) target))
                 in if path = [] then ParsedBadRequest
                    else Get \<lparr>q_path = path, q_query = query, q_path_hash = fnv1a path\<rparr>
           | _ \<Rightarrow> ParsedBadRequest))"

definition k_string :: "compiled_router \<Rightarrow> u32 \<Rightarrow> bytes option" where
  "k_string c i = index (k_strings c) (unat i)"

definition render_segment :: "compiled_router \<Rightarrow> request_parts \<Rightarrow> nat \<Rightarrow> bytes \<Rightarrow> compiled_segment \<Rightarrow> bytes option" where
  "render_segment c parts request_len backend s = (case s of
       CLiteral i \<Rightarrow> k_string c i
     | CPath n \<Rightarrow> slice (q_path parts) 0 (min (length (q_path parts)) n)
     | CQuery n \<Rightarrow> slice (q_query parts) 0 (min (length (q_query parts)) n)
     | CBackend \<Rightarrow> Some backend
     | CRequestBytes \<Rightarrow> Some (decimal request_len)
     | CPathHash \<Rightarrow> Some (decimal (unat (q_path_hash parts)))
     | CBackendVariant cpu gpu \<Rightarrow> k_string c (if backend = ascii ''gpu'' then gpu else cpu))"

fun render_segments :: "compiled_router \<Rightarrow> request_parts \<Rightarrow> nat \<Rightarrow> bytes \<Rightarrow> compiled_segment list \<Rightarrow> bytes \<Rightarrow> bytes option" where
  "render_segments c parts request_len backend [] body = Some body"
| "render_segments c parts request_len backend (s # rest) body = do {
     piece \<leftarrow> render_segment c parts request_len backend s;
     render_segments c parts request_len backend rest (body @ piece) }"

definition render_response :: "compiled_router \<Rightarrow> compiled_response \<Rightarrow> request_parts \<Rightarrow> nat \<Rightarrow> bytes \<Rightarrow> bytes option" where
  "render_response c r parts request_len backend = do {
     body \<leftarrow> render_segments c parts request_len backend (c_segments r) [];
     reason \<leftarrow> k_string c (c_reason r);
     content_type \<leftarrow> k_string c (c_content_type r);
     Some (build_response (c_status r) reason content_type body backend) }"

text \<open>\<open>partition_point\<close> on a slice partitioned by the predicate.\<close>

definition partition_point :: "('a \<Rightarrow> bool) \<Rightarrow> 'a list \<Rightarrow> nat" where
  "partition_point p xs = length (takeWhile p xs)"

definition route_request :: "compiled_router \<Rightarrow> bytes \<Rightarrow> bytes \<Rightarrow> bytes option" where
  "route_request c request backend =
     (case parse_request request of
        Get parts \<Rightarrow>
          let first_candidate = partition_point (\<lambda>r. cr_hash r < q_path_hash parts) (k_routes c);
              response = (case find (\<lambda>r. cr_path r = q_path parts)
                  (takeWhile (\<lambda>r. cr_hash r = q_path_hash parts) (drop first_candidate (k_routes c))) of
                None \<Rightarrow> k_fallback c | Some r \<Rightarrow> cr_response r)
          in render_response c response parts (length request) backend
      | ParsedBadRequest \<Rightarrow> render_response c (k_bad_request c) empty_parts (length request) backend
      | ParsedMethodNotAllowed \<Rightarrow> render_response c (k_method_not_allowed c) empty_parts (length request) backend)"

text \<open>\<open>CpuProcessor::process_batch\<close> of \<open>src/processor/cpu.rs\<close>.\<close>

fun cpu_process_batch :: "compiled_router \<Rightarrow> bytes list \<Rightarrow> bytes list option" where
  "cpu_process_batch c [] = Some []"
| "cpu_process_batch c (request # rest) = do {
     r \<leftarrow> route_request c request (ascii ''cpu'');
     rs \<leftarrow> cpu_process_batch c rest;
     Some (r # rs) }"

end
