(* ===== verification/RouterProofs.thy ===== *)
theory RouterProofs
  imports Router "HOL-Library.Multiset"
begin

text \<open>
  The router compiler is correct. \<open>spec_route\<close> answers a request straight from the declared
  router: no interning, no hashes, no sorting. \<open>compiled_router_correct\<close> shows that the
  compiled router gives the same bytes; \<open>gpu_slot_suffices\<close> that the computed maximum bounds
  every response.
\<close>

section \<open>Specification\<close>

definition segment_bytes :: "request_parts \<Rightarrow> nat \<Rightarrow> bytes \<Rightarrow> body_segment \<Rightarrow> bytes" where
  "segment_bytes parts request_len backend s = (case s of
       Literal v \<Rightarrow> v
     | Path n \<Rightarrow> take n (q_path parts)
     | Query n \<Rightarrow> take n (q_query parts)
     | Backend \<Rightarrow> backend
     | RequestBytes \<Rightarrow> decimal request_len
     | PathHash \<Rightarrow> decimal (unat (q_path_hash parts))
     | BackendVariant cpu gpu \<Rightarrow> (if backend = ascii ''gpu'' then gpu else cpu))"

definition body_bytes :: "body \<Rightarrow> request_parts \<Rightarrow> nat \<Rightarrow> bytes \<Rightarrow> bytes" where
  "body_bytes b parts request_len backend = concat (map (segment_bytes parts request_len backend) b)"

definition response_bytes :: "response \<Rightarrow> request_parts \<Rightarrow> nat \<Rightarrow> bytes \<Rightarrow> bytes" where
  "response_bytes r parts request_len backend =
     build_response (status_code (r_status r)) (status_reason (r_status r)) (r_content_type r)
       (body_bytes (r_body r) parts request_len backend) backend"

definition spec_route :: "router \<Rightarrow> bytes \<Rightarrow> bytes \<Rightarrow> bytes" where
  "spec_route rt request backend =
     (case parse_request request of
        Get parts \<Rightarrow>
          response_bytes (case map_of (rt_routes rt) (q_path parts) of Some r \<Rightarrow> r | None \<Rightarrow> rt_fallback rt)
            parts (length request) backend
      | ParsedBadRequest \<Rightarrow> response_bytes (rt_bad_request rt) empty_parts (length request) backend
      | ParsedMethodNotAllowed \<Rightarrow> response_bytes (rt_method_not_allowed rt) empty_parts (length request) backend)"

text \<open>The answer to a parsed request; the shader has a parser of its own.\<close>

definition answer_parsed :: "router \<Rightarrow> request_parse \<Rightarrow> nat \<Rightarrow> bytes \<Rightarrow> bytes" where
  "answer_parsed rt parsed n backend = (case parsed of
       Get parts \<Rightarrow> response_bytes (case map_of (rt_routes rt) (q_path parts) of Some r \<Rightarrow> r | None \<Rightarrow> rt_fallback rt) parts n backend
     | ParsedBadRequest \<Rightarrow> response_bytes (rt_bad_request rt) empty_parts n backend
     | ParsedMethodNotAllowed \<Rightarrow> response_bytes (rt_method_not_allowed rt) empty_parts n backend)"

lemma spec_route_answer: "spec_route rt request backend = answer_parsed rt (parse_request request) (length request) backend"
  by (simp add: spec_route_def answer_parsed_def)

section \<open>Compiled programs represent their source\<close>

definition represents :: "string_table \<Rightarrow> body_segment \<Rightarrow> compiled_segment \<Rightarrow> bool" where
  "represents st s c \<longleftrightarrow> (case s of
       Literal v \<Rightarrow> (\<exists>i. c = CLiteral i \<and> st_get st i = Some v)
     | Path n \<Rightarrow> c = CPath n \<and> n \<le> U32_MAX
     | Query n \<Rightarrow> c = CQuery n \<and> n \<le> U32_MAX
     | Backend \<Rightarrow> c = CBackend
     | RequestBytes \<Rightarrow> c = CRequestBytes
     | PathHash \<Rightarrow> c = CPathHash
     | BackendVariant cpu gpu \<Rightarrow> (\<exists>i j. c = CBackendVariant i j \<and> st_get st i = Some cpu \<and> st_get st j = Some gpu))"

definition gpu_bound :: "body_segment \<Rightarrow> nat" where
  "gpu_bound s = (case s of Literal v \<Rightarrow> length v | Path n \<Rightarrow> n | Query n \<Rightarrow> n | Backend \<Rightarrow> 3
     | RequestBytes \<Rightarrow> 10 | PathHash \<Rightarrow> 10 | BackendVariant cpu gpu \<Rightarrow> length gpu)"

lemma represents_extends: "st.extends st st' \<Longrightarrow> represents st s c \<Longrightarrow> represents st' s c"
  by (auto simp: represents_def st.extends_def split: body_segment.splits)

lemma represents_extends_all:
  "st.extends st st' \<Longrightarrow> list_all2 (represents st) b segs \<Longrightarrow> list_all2 (represents st') b segs"
  using represents_extends by (auto elim: list_all2_mono)

lemma checked_add_ok [simp]: "checked_add a b label = ok n \<longleftrightarrow> n = a + b \<and> a + b \<le> USIZE_MAX"
  by (auto simp: checked_add_def checked_add_usize_def)

lemma validate_dynamic_limit_ok [simp]: "validate_dynamic_limit n = ok m \<longleftrightarrow> m = n \<and> n \<le> U32_MAX"
  by (auto simp: validate_dynamic_limit_def)

text \<open>One segment: what the compiler does with it, as a relation between source and result.\<close>

definition compiles_to :: "string_table \<Rightarrow> body_segment \<Rightarrow> string_table \<Rightarrow> compiled_segment \<Rightarrow> bool" where
  "compiles_to st s st' c \<longleftrightarrow> st_valid st' \<and> st.extends st st' \<and> represents st' s c"

lemma compile_segments_step:
  assumes "compile_segments st (s # rest) segs g m = ok res" "st_valid st"
  obtains st1 c m1 where "compiles_to st s st1 c"
    "compile_segments st1 rest (segs @ [c]) (g + gpu_bound s) m1 = ok res"
proof (cases s)
  case (Literal v)
  then obtain st1 i where i: "st_intern st v = Some (st1, i)"
    and rest: "compile_segments st1 rest (segs @ [CLiteral i]) (g + length v) (m + length v) = ok res"
    using assms(1) by (auto simp: and_then_ok_iff)
  show thesis using st.internE [OF assms(2) i] rest
    by (intro that [of st1 "CLiteral i" "m + length v"]) (auto simp: compiles_to_def represents_def gpu_bound_def Literal)
next
  case (Path n)
  then have "compile_segments st rest (segs @ [CPath n]) (g + n) (m + n) = ok res" "n \<le> U32_MAX"
    using assms(1) by (auto simp: and_then_ok_iff)
  then show thesis using assms(2)
    by (intro that [of st "CPath n" "m + n"]) (auto simp: compiles_to_def represents_def gpu_bound_def Path)
next
  case (Query n)
  then have "compile_segments st rest (segs @ [CQuery n]) (g + n) (m + n) = ok res" "n \<le> U32_MAX"
    using assms(1) by (auto simp: and_then_ok_iff)
  then show thesis using assms(2)
    by (intro that [of st "CQuery n" "m + n"]) (auto simp: compiles_to_def represents_def gpu_bound_def Query)
next
  case Backend
  then have "compile_segments st rest (segs @ [CBackend]) (g + 3) (m + 3) = ok res"
    using assms(1) by (auto simp: and_then_ok_iff)
  then show thesis using assms(2)
    by (intro that [of st CBackend "m + 3"]) (auto simp: compiles_to_def represents_def gpu_bound_def Backend)
next
  case RequestBytes
  then have "compile_segments st rest (segs @ [CRequestBytes]) (g + 10) (m + 20) = ok res"
    using assms(1) by (auto simp: and_then_ok_iff)
  then show thesis using assms(2)
    by (intro that [of st CRequestBytes "m + 20"]) (auto simp: compiles_to_def represents_def gpu_bound_def RequestBytes)
next
  case PathHash
  then have "compile_segments st rest (segs @ [CPathHash]) (g + 10) (m + 10) = ok res"
    using assms(1) by (auto simp: and_then_ok_iff)
  then show thesis using assms(2)
    by (intro that [of st CPathHash "m + 10"]) (auto simp: compiles_to_def represents_def gpu_bound_def PathHash)
next
  case (BackendVariant cpu gpu)
  then obtain st1 i st2 j where i: "st_intern st cpu = Some (st1, i)" and j: "st_intern st1 gpu = Some (st2, j)"
    and rest: "compile_segments st2 rest (segs @ [CBackendVariant i j]) (g + length gpu) (m + max (length cpu) (length gpu)) = ok res"
    using assms(1) by (auto simp: and_then_ok_iff)
  note li = st.internE [OF assms(2) i]
  note lj = st.internE [OF li(1) j]
  show thesis using li lj rest st.extends_trans [OF li(3) lj(3)] st.extendsD [OF lj(3) li(2)]
    by (intro that [of st2 "CBackendVariant i j" "m + max (length cpu) (length gpu)"])
      (auto simp: compiles_to_def represents_def gpu_bound_def BackendVariant)
qed

lemma compile_segments_sound:
  assumes "compile_segments st b segs g m = ok (st', segs', g', m')" "st_valid st"
  shows "st_valid st' \<and> st.extends st st' \<and> g' = g + sum_list (map gpu_bound b)
    \<and> (\<exists>new. segs' = segs @ new \<and> list_all2 (represents st') b new)"
  using assms
proof (induction b arbitrary: st segs g m)
  case Nil
  then show ?case by simp
next
  case (Cons s b)
  from Cons.prems obtain st1 c m1 where c: "compiles_to st s st1 c"
    and rest: "compile_segments st1 b (segs @ [c]) (g + gpu_bound s) m1 = ok (st', segs', g', m')"
    by (rule compile_segments_step)
  from c have v1: "st_valid st1" and e1: "st.extends st st1" and r1: "represents st1 s c" by (auto simp: compiles_to_def)
  from Cons.IH [OF rest v1] obtain new where v: "st_valid st'" and e: "st.extends st1 st'"
    and g: "g' = g + gpu_bound s + sum_list (map gpu_bound b)" and n: "segs' = (segs @ [c]) @ new"
    and r: "list_all2 (represents st') b new" by blast
  then show ?case using st.extends_trans [OF e1 e] represents_extends [OF e r1]
    by (auto intro!: exI [of _ "c # new"])
qed

definition represents_response :: "string_table \<Rightarrow> response \<Rightarrow> compiled_response \<Rightarrow> bool" where
  "represents_response st r c \<longleftrightarrow> c_status c = status_code (r_status r)
     \<and> st_get st (c_reason c) = Some (status_reason (r_status r))
     \<and> st_get st (c_content_type c) = Some (r_content_type r)
     \<and> list_all2 (represents st) (r_body r) (c_segments c)
     \<and> c_max_gpu_body c = sum_list (map gpu_bound (r_body r))"

lemma represents_response_extends:
  "st.extends st st' \<Longrightarrow> represents_response st r c \<Longrightarrow> represents_response st' r c"
  using represents_extends_all by (auto simp: represents_response_def st.extends_def)

lemma compile_response_sound:
  assumes "compile_response st r = ok (st', c)" "st_valid st"
  shows "st_valid st' \<and> st.extends st st' \<and> represents_response st' r c"
proof -
  obtain st1 ri st2 ti segs g m where ri: "st_intern st (status_reason (r_status r)) = Some (st1, ri)"
    and ti: "st_intern st1 (r_content_type r) = Some (st2, ti)"
    and segs: "compile_segments st2 (r_body r) [] 0 0 = ok (st', segs, g, m)"
    and c: "c = \<lparr>c_status = status_code (r_status r), c_reason = ri, c_content_type = ti, c_segments = segs,
              c_max_gpu_body = g, c_max_cpu_body = m\<rparr>"
    using assms(1) by (auto simp: compile_response_def and_then_ok_iff)
  note a = st.internE [OF assms(2) ri]
  note b = st.internE [OF a(1) ti]
  from compile_segments_sound [OF segs b(1)] have v: "st_valid st'" and e: "st.extends st2 st'"
    and g: "g = sum_list (map gpu_bound (r_body r))" and r: "list_all2 (represents st') (r_body r) segs" by auto
  have "st.extends st1 st'" using st.extends_trans [OF b(3) e] .
  moreover have "st.extends st st'" using st.extends_trans [OF a(3) calculation] .
  ultimately show ?thesis using v g r a(2) b(2) e
    by (simp add: represents_response_def c st.extendsD)
qed

definition represents_route :: "string_table \<Rightarrow> bytes \<times> response \<Rightarrow> compiled_route \<Rightarrow> bool" where
  "represents_route st pr r \<longleftrightarrow> cr_path r = fst pr \<and> cr_hash r = fnv1a (fst pr)
     \<and> represents_response st (snd pr) (cr_response r)"

lemma represents_route_extends: "st.extends st st' \<Longrightarrow> represents_route st pr r \<Longrightarrow> represents_route st' pr r"
  using represents_response_extends by (auto simp: represents_route_def)

lemma compile_routes_sound:
  assumes "compile_routes st prs seen rs = ok (st', rs')" "st_valid st"
  shows "st_valid st' \<and> st.extends st st' \<and> (\<exists>new. rs' = rs @ new \<and> list_all2 (represents_route st') prs new)
    \<and> distinct (map fst prs) \<and> set (map fst prs) \<inter> seen = {}"
  using assms
proof (induction prs arbitrary: st seen rs)
  case Nil
  then show ?case by simp
next
  case (Cons pr prs)
  obtain path response where pr: "pr = (path, response)" by force
  from Cons.prems(1) obtain st1 c where fresh: "path \<notin> seen" and c: "compile_response st response = ok (st1, c)"
    and rest: "compile_routes st1 prs (insert path seen) (rs @ [\<lparr>cr_path = path, cr_hash = fnv1a path, cr_response = c\<rparr>]) = ok (st', rs')"
    by (auto simp: pr and_then_ok_iff split: if_splits)
  from compile_response_sound [OF c Cons.prems(2)] have v1: "st_valid st1" and e1: "st.extends st st1"
    and r1: "represents_response st1 response c" by auto
  from Cons.IH [OF rest v1] obtain new where v: "st_valid st'" and e: "st.extends st1 st'"
    and n: "rs' = (rs @ [\<lparr>cr_path = path, cr_hash = fnv1a path, cr_response = c\<rparr>]) @ new"
    and l: "list_all2 (represents_route st') prs new"
    and d: "distinct (map fst prs)" "set (map fst prs) \<inter> insert path seen = {}" by blast
  have "represents_route st' pr \<lparr>cr_path = path, cr_hash = fnv1a path, cr_response = c\<rparr>"
    using represents_response_extends [OF e r1] by (simp add: represents_route_def pr)
  then show ?case using v st.extends_trans [OF e1 e] n l d fresh
    by (auto simp: pr intro!: exI [of _ "\<lparr>cr_path = path, cr_hash = fnv1a path, cr_response = c\<rparr> # new"])
qed

section \<open>Looking a path up in the sorted table\<close>

lemma takeWhile_eq_filter_sorted:
  assumes "sorted (map f xs)"
  shows "takeWhile (\<lambda>x. f x = h) (dropWhile (\<lambda>x. f x < h) xs) = filter (\<lambda>x. f x = h) xs"
  using assms
proof (induction xs)
  case Nil
  then show ?case by simp
next
  case (Cons x xs)
  consider "f x < h" | "f x = h" | "h < f x" by force
  then show ?case
  proof cases
    case 2
    have "\<forall>y\<in>set xs. h \<le> f y" using Cons.prems 2 by auto
    then have "dropWhile (\<lambda>x. f x < h) xs = xs" by (cases xs) auto
    then show ?thesis using 2 Cons by simp
  next
    case 3
    then have "\<forall>y\<in>set xs. h < f y" using Cons.prems by auto
    then have "filter (\<lambda>x. f x = h) xs = []" by (auto simp: filter_empty_conv)
    then show ?thesis using 3 by auto
  qed (use Cons in simp_all)
qed

lemma find_filter: "(\<And>x. x \<in> set xs \<Longrightarrow> P x \<Longrightarrow> Q x) \<Longrightarrow> find P (filter Q xs) = find P xs"
  by (induction xs) auto

lemma find_distinct:
  assumes "distinct (map f xs)" "x \<in> set xs"
  shows "find (\<lambda>y. f y = f x) xs = Some x"
  using assms by (induction xs) auto

lemma sorted_hashes: "sorted (map route_order rs) \<Longrightarrow> sorted (map cr_hash rs)"
proof (induction rs)
  case (Cons r rs)
  then show ?case by (force simp: route_order_def less_eq_prod_def)
qed simp

lemma route_lookup:
  assumes "sorted (map route_order rs)" "distinct (map cr_path rs)" "\<forall>r\<in>set rs. cr_hash r = fnv1a (cr_path r)"
  shows "find (\<lambda>r. cr_path r = p) (takeWhile (\<lambda>r. cr_hash r = fnv1a p)
      (drop (partition_point (\<lambda>r. cr_hash r < fnv1a p) rs) rs)) = find (\<lambda>r. cr_path r = p) rs"
proof -
  have "drop (partition_point (\<lambda>r. cr_hash r < fnv1a p) rs) rs = dropWhile (\<lambda>r. cr_hash r < fnv1a p) rs"
    by (simp add: partition_point_def dropWhile_eq_drop)
  moreover have "find (\<lambda>r. cr_path r = p) (filter (\<lambda>r. cr_hash r = fnv1a p) rs) = find (\<lambda>r. cr_path r = p) rs"
    by (rule find_filter) (use assms(3) in simp)
  ultimately show ?thesis
    using takeWhile_eq_filter_sorted [OF sorted_hashes [OF assms(1)], of "fnv1a p"] by simp
qed

lemma represented_lookup:
  assumes "list_all2 (represents_route st) prs rs" "distinct (map fst prs)"
  shows "find (\<lambda>r. cr_path r = p) rs = None \<longleftrightarrow> map_of prs p = None"
    and "find (\<lambda>r. cr_path r = p) rs = Some r \<Longrightarrow> \<exists>resp. map_of prs p = Some resp \<and> represents_response st resp (cr_response r)"
  using assms by (induction rule: list_all2_induct) (auto simp: represents_route_def split: if_splits)

lemma find_permuted:
  assumes "mset xs = mset ys" "distinct (map f ys)"
  shows "find (\<lambda>x. f x = p) xs = find (\<lambda>x. f x = p) ys"
proof (cases "p \<in> f ` set ys")
  case True
  then obtain y where y: "y \<in> set ys" "p = f y" by blast
  have "distinct (map f xs)" using assms by (metis mset_map mset_eq_imp_distinct_iff)
  moreover have "y \<in> set xs" using y assms(1) by (metis mset_eq_setD)
  ultimately show ?thesis using y assms(2) find_distinct by metis
next
  case False
  then have "find (\<lambda>x. f x = p) ys = None" "find (\<lambda>x. f x = p) xs = None"
    using mset_eq_setD [OF assms(1)] by (auto simp: find_None_iff)
  then show ?thesis by simp
qed

section \<open>The word program leaves the strings alone\<close>

lemma emit_routes_strings:
  "emit_routes words st i rs = ok (words', st') \<Longrightarrow> st_valid st \<Longrightarrow> st_valid st' \<and> st.extends st st'"
proof (induction rs arbitrary: words st i)
  case Nil
  then show ?case by simp
next
  case (Cons r rs)
  from Cons.prems(1) obtain st1 j words1 where "st_intern st (cr_path r) = Some (st1, j)"
    and rest: "emit_routes words1 st1 (i + 1) rs = ok (words', st')"
    by (auto simp: and_then_ok_iff Let_def)
  then have "st_valid st1" "st.extends st st1" using st.internE Cons.prems(2) by blast+
  then show ?case using Cons.IH [OF rest] st.extends_trans by blast
qed

section \<open>Rendering\<close>

lemma render_segments_closed:
  assumes "list_all2 (represents st) b segs" "k_strings c = st_values st"
  shows "render_segments c parts n backend segs acc = Some (acc @ body_bytes b parts n backend)"
  using assms(1)
proof (induction arbitrary: acc rule: list_all2_induct)
  case Nil
  then show ?case by (simp add: body_bytes_def)
next
  case (Cons s b cs segs)
  have "render_segment c parts n backend cs = Some (segment_bytes parts n backend s)"
    using Cons.hyps(1) assms(2)
    by (cases s) (auto simp: represents_def render_segment_def segment_bytes_def k_string_def st_get_def
        slice_def min_def)
  then show ?case using Cons.IH by (simp add: body_bytes_def)
qed

lemma render_response_closed:
  assumes "represents_response st r cr" "k_strings c = st_values st"
  shows "render_response c cr parts n backend = Some (response_bytes r parts n backend)"
proof -
  have "list_all2 (represents st) (r_body r) (c_segments cr)" using assms(1) by (simp add: represents_response_def)
  from render_segments_closed [OF this assms(2)] show ?thesis
    using assms by (simp add: render_response_def represents_response_def response_bytes_def k_string_def st_get_def)
qed

section \<open>Compilation as a whole\<close>

text \<open>What a successful compilation is: the stages in order.\<close>

lemma router_compiler_new_valid:
  assumes "router_compiler_new = Some (st, ids)"
  shows "st_valid st \<and> st_get st (id_http_version ids) = Some (ascii ''HTTP/1.1 '')
    \<and> st_get st (id_header_content_type ids) = Some (CRLF @ ascii ''Content-Type: '')
    \<and> st_get st (id_header_content_length ids) = Some (CRLF @ ascii ''Content-Length: '')
    \<and> st_get st (id_header_tail ids) = Some HEADER_TAIL \<and> st_get st (id_backend_gpu ids) = Some (ascii ''gpu'')"
proof -
  obtain s1 v s2 ct s3 cl s4 tl gp where
    1: "st_intern string_table_default (ascii ''HTTP/1.1 '') = Some (s1, v)"
    and 2: "st_intern s1 (CRLF @ ascii ''Content-Type: '') = Some (s2, ct)"
    and 3: "st_intern s2 (CRLF @ ascii ''Content-Length: '') = Some (s3, cl)"
    and 4: "st_intern s3 HEADER_TAIL = Some (s4, tl)"
    and 5: "st_intern s4 (ascii ''gpu'') = Some (st, gp)"
    and ids: "ids = \<lparr>id_http_version = v, id_header_content_type = ct, id_header_content_length = cl,
               id_header_tail = tl, id_backend_gpu = gp\<rparr>"
    using assms by (auto simp: router_compiler_new_def bind_eq_Some_conv split: prod.splits)
  note e1 = st.internE [OF st_valid_default 1]
  note e2 = st.internE [OF e1(1) 2]
  note e3 = st.internE [OF e2(1) 3]
  note e4 = st.internE [OF e3(1) 4]
  note e5 = st.internE [OF e4(1) 5]
  note x4 = st.extendsD [OF e5(3)]
  note x3 = x4 [OF st.extendsD [OF e4(3)]]
  note x2 = x3 [OF st.extendsD [OF e3(3)]]
  note x1 = x2 [OF st.extendsD [OF e2(3)]]
  show ?thesis using e5(1,2) x4 [OF e4(2)] x3 [OF e3(2)] x2 [OF e2(2)] x1 [OF e1(2)] by (simp add: ids)
qed

lemma compile_stages:
  assumes "compile rt = ok c"
  obtains st0 ids st1 rs st2 st3 st4 words st w0 w1 w2 o0 o1 o2 where
    "router_compiler_new = Some (st0, ids)" "compile_routes st0 (rt_routes rt) {} [] = ok (st1, rs)"
    "compile_response st1 (rt_fallback rt) = ok (st2, k_fallback c)"
    "compile_response st2 (rt_bad_request rt) = ok (st3, k_bad_request c)"
    "compile_response st3 (rt_method_not_allowed rt) = ok (st4, k_method_not_allowed c)"
    "emit_routes (replicate (length rs * ROUTE_STRIDE_WORDS) 0) st4 0 (k_routes c) = ok (w0, st)"
    "emit_response w0 (k_fallback c) = ok (w1, o0)" "emit_response w1 (k_bad_request c) = ok (w2, o1)"
    "emit_response w2 (k_method_not_allowed c) = ok (k_words c, o2)"
    "maximum_of st ids 0 (map cr_response (k_routes c) @ [k_fallback c, k_bad_request c, k_method_not_allowed c])
       = ok (k_max_gpu_response_bytes c)"
    "k_routes c = sort_key route_order rs" "k_strings c = st_values st" "k_ids c = ids"
    "k_layout c = \<lparr>route_count = of_nat (length rs), fallback_response_offset = o0,
       bad_request_response_offset = o1, method_not_allowed_response_offset = o2\<rparr>"
    "length (k_words c) \<le> U32_MAX" "k_max_gpu_response_bytes c \<le> U32_MAX" "length rs \<le> U32_MAX"
proof -
  have mul: "(case checked_mul_usize n m of None \<Rightarrow> fail e | Some k \<Rightarrow> ok k) = ok k' \<longleftrightarrow> k' = n * m \<and> n * m \<le> USIZE_MAX"
    for n m k' :: nat and e :: router_error
    by (auto simp: checked_mul_usize_def)
  have u32: "u32_or what n = ok m \<longleftrightarrow> n \<le> U32_MAX \<and> m = of_nat n" for what n m by (auto simp: u32_or_def)
  show thesis
    using assms
    by (clarsimp simp only: compile_def Let_def and_then_ok_iff mul u32 split: if_splits prod.splits)
      (auto intro: that)
qed

definition compiled_for :: "router \<Rightarrow> compiled_router \<Rightarrow> string_table \<Rightarrow> bool" where
  "compiled_for rt c st \<longleftrightarrow> st_valid st \<and> k_strings c = st_values st
     \<and> sorted (map route_order (k_routes c)) \<and> distinct (map fst (rt_routes rt))
     \<and> (\<exists>rs. mset (k_routes c) = mset rs \<and> list_all2 (represents_route st) (rt_routes rt) rs)
     \<and> represents_response st (rt_fallback rt) (k_fallback c)
     \<and> represents_response st (rt_bad_request rt) (k_bad_request c)
     \<and> represents_response st (rt_method_not_allowed rt) (k_method_not_allowed c)"

lemma list_all2_extends:
  "st.extends st st' \<Longrightarrow> list_all2 (represents_route st) prs rs \<Longrightarrow> list_all2 (represents_route st') prs rs"
  using represents_route_extends by (auto elim: list_all2_mono)

lemma compile_compiled_for:
  assumes "compile rt = ok c"
  obtains st ids where "compiled_for rt c st" "router_compiler_new \<noteq> None" "k_ids c = ids"
    "maximum_of st ids 0 (map cr_response (k_routes c) @ [k_fallback c, k_bad_request c, k_method_not_allowed c])
       = ok (k_max_gpu_response_bytes c)"
    "st_get st (id_http_version ids) = Some (ascii ''HTTP/1.1 '')"
    "st_get st (id_header_content_type ids) = Some (CRLF @ ascii ''Content-Type: '')"
    "st_get st (id_header_content_length ids) = Some (CRLF @ ascii ''Content-Length: '')"
    "st_get st (id_header_tail ids) = Some HEADER_TAIL" "k_max_gpu_response_bytes c \<le> U32_MAX"
proof -
  from assms obtain st0 ids st1 rs st2 st3 st4 st w0 w1 w2 o0 o1 o2 where
    new: "router_compiler_new = Some (st0, ids)" and rts: "compile_routes st0 (rt_routes rt) {} [] = ok (st1, rs)"
    and fb: "compile_response st1 (rt_fallback rt) = ok (st2, k_fallback c)"
    and br: "compile_response st2 (rt_bad_request rt) = ok (st3, k_bad_request c)"
    and mna: "compile_response st3 (rt_method_not_allowed rt) = ok (st4, k_method_not_allowed c)"
    and em: "emit_routes (replicate (length rs * ROUTE_STRIDE_WORDS) 0) st4 0 (k_routes c) = ok (w0, st)"
    and mx: "maximum_of st ids 0 (map cr_response (k_routes c) @ [k_fallback c, k_bad_request c, k_method_not_allowed c])
       = ok (k_max_gpu_response_bytes c)"
    and k: "k_routes c = sort_key route_order rs" "k_strings c = st_values st" "k_ids c = ids"
    and small: "k_max_gpu_response_bytes c \<le> U32_MAX" by (rule compile_stages)
  note n = router_compiler_new_valid [OF new]
  from compile_routes_sound [OF rts] n have r: "st_valid st1" "st.extends st0 st1"
    "list_all2 (represents_route st1) (rt_routes rt) rs" "distinct (map fst (rt_routes rt))" by auto
  from compile_response_sound [OF fb r(1)] have f: "st_valid st2" "st.extends st1 st2"
    "represents_response st2 (rt_fallback rt) (k_fallback c)" by auto
  from compile_response_sound [OF br f(1)] have b: "st_valid st3" "st.extends st2 st3"
    "represents_response st3 (rt_bad_request rt) (k_bad_request c)" by auto
  from compile_response_sound [OF mna b(1)] have m: "st_valid st4" "st.extends st3 st4"
    "represents_response st4 (rt_method_not_allowed rt) (k_method_not_allowed c)" by auto
  from emit_routes_strings [OF em m(1)] have e: "st_valid st" "st.extends st4 st" by auto
  have x3: "st.extends st3 st" using st.extends_trans [OF m(2) e(2)] .
  have x2: "st.extends st2 st" using st.extends_trans [OF b(2) x3] .
  have x1: "st.extends st1 st" using st.extends_trans [OF f(2) x2] .
  have x0: "st.extends st0 st" using st.extends_trans [OF r(2) x1] .
  have "sorted (map route_order (k_routes c))" by (simp add: k)
  moreover have "mset (k_routes c) = mset rs" by (simp add: k)
  ultimately have "compiled_for rt c st"
    using e(1) k(2) r(4) list_all2_extends [OF x1 r(3)] represents_response_extends [OF x2 f(3)]
      represents_response_extends [OF x3 b(3)] represents_response_extends [OF e(2) m(3)]
    by (auto simp: compiled_for_def)
  then show thesis using that new mx k(3) small n st.extendsD [OF x0] by auto
qed

lemma compiled_route_lookup:
  assumes "compiled_for rt c st"
  shows "\<exists>r cr. (case find (\<lambda>r. cr_path r = p) (takeWhile (\<lambda>r. cr_hash r = fnv1a p)
        (drop (partition_point (\<lambda>r. cr_hash r < fnv1a p) (k_routes c)) (k_routes c))) of
          None \<Rightarrow> k_fallback c | Some r \<Rightarrow> cr_response r) = cr
    \<and> (case map_of (rt_routes rt) p of Some r \<Rightarrow> r | None \<Rightarrow> rt_fallback rt) = r
    \<and> represents_response st r cr"
proof -
  obtain rs where perm: "mset (k_routes c) = mset rs" and reps: "list_all2 (represents_route st) (rt_routes rt) rs"
    and srt: "sorted (map route_order (k_routes c))" and dist: "distinct (map fst (rt_routes rt))"
    and fb: "represents_response st (rt_fallback rt) (k_fallback c)"
    using assms by (auto simp: compiled_for_def)
  have paths: "map cr_path rs = map fst (rt_routes rt)" and "\<forall>r\<in>set rs. cr_hash r = fnv1a (cr_path r)"
    using reps by (induction rule: list_all2_induct) (auto simp: represents_route_def)
  then have hashes: "\<forall>r\<in>set (k_routes c). cr_hash r = fnv1a (cr_path r)" using mset_eq_setD [OF perm] by simp
  have drs: "distinct (map cr_path rs)" using paths dist by simp
  then have dk: "distinct (map cr_path (k_routes c))" using perm by (metis mset_map mset_eq_imp_distinct_iff)
  have look: "find (\<lambda>r. cr_path r = p) (takeWhile (\<lambda>r. cr_hash r = fnv1a p)
        (drop (partition_point (\<lambda>r. cr_hash r < fnv1a p) (k_routes c)) (k_routes c))) = find (\<lambda>r. cr_path r = p) rs"
    using route_lookup [OF srt dk hashes, of p] find_permuted [OF perm drs, of p] by simp
  show ?thesis
  proof (cases "find (\<lambda>r. cr_path r = p) rs")
    case None
    then show ?thesis using represented_lookup(1) [OF reps dist, of p] fb look by simp
  next
    case (Some r)
    then show ?thesis using represented_lookup(2) [OF reps dist Some] look by auto
  qed
qed

lemma parsed_hash: "parse_request request = Get parts \<Longrightarrow> q_path_hash parts = fnv1a (q_path parts)"
  by (auto simp: parse_request_def Let_def split: option.splits list.splits prod.splits if_splits)

lemma route_request_closed:
  assumes "compile rt = ok c"
  shows "route_request c request backend = Some (spec_route rt request backend)"
proof -
  obtain st where cf: "compiled_for rt c st" using compile_compiled_for [OF assms] by blast
  then have str: "k_strings c = st_values st" and reps: "represents_response st (rt_bad_request rt) (k_bad_request c)"
    "represents_response st (rt_method_not_allowed rt) (k_method_not_allowed c)" by (auto simp: compiled_for_def)
  show ?thesis
  proof (cases "parse_request request")
    case (Get parts)
    from compiled_route_lookup [OF cf, of "q_path parts"] render_response_closed [OF _ str] parsed_hash [OF Get]
    show ?thesis by (auto simp: route_request_def spec_route_def Get Let_def)
  next
    case ParsedBadRequest
    then show ?thesis using render_response_closed [OF reps(1) str] by (simp add: route_request_def spec_route_def)
  next
    case ParsedMethodNotAllowed
    then show ?thesis using render_response_closed [OF reps(2) str] by (simp add: route_request_def spec_route_def)
  qed
qed

section \<open>The response slot\<close>

lemma segment_bound:
  assumes "request_len < 10 ^ 10"
  shows "length (segment_bytes parts request_len (ascii ''gpu'') s) \<le> gpu_bound s"
proof (cases s)
  case RequestBytes
  then show ?thesis using decimal_digits_bound [OF assms] by (simp add: segment_bytes_def gpu_bound_def length_decimal)
next
  case PathHash
  have "unat (q_path_hash parts) < 4294967296" using unsigned_less [of "q_path_hash parts", where 'a = nat] by simp
  then have "unat (q_path_hash parts) < 10 ^ 10" by simp
  then show ?thesis using PathHash decimal_digits_bound by (simp add: segment_bytes_def gpu_bound_def length_decimal)
qed (simp_all add: segment_bytes_def gpu_bound_def)

lemma body_bound:
  "request_len < 10 ^ 10 \<Longrightarrow> length (body_bytes b parts request_len (ascii ''gpu'')) \<le> sum_list (map gpu_bound b)"
  unfolding body_bytes_def length_concat map_map by (rule sum_list_mono) (simp add: segment_bound del: length_ascii)

lemma maximum_response_bytes_ok:
  assumes "maximum_response_bytes st ids cr = ok n" "represents_response st r cr"
    "st_get st (id_http_version ids) = Some (ascii ''HTTP/1.1 '')"
    "st_get st (id_header_content_type ids) = Some (CRLF @ ascii ''Content-Type: '')"
    "st_get st (id_header_content_length ids) = Some (CRLF @ ascii ''Content-Length: '')"
    "st_get st (id_header_tail ids) = Some HEADER_TAIL"
  shows "n = 102 + decimal_digits (unat (c_status cr)) + length (status_reason (r_status r)) + length (r_content_type r)
    + decimal_digits (c_max_gpu_body cr) + c_max_gpu_body cr"
proof -
  have "st_get st (c_reason cr) = Some (status_reason (r_status r))" "st_get st (c_content_type cr) = Some (r_content_type r)"
    using assms(2) by (simp_all add: represents_response_def)
  then show ?thesis using assms(1,3-6)
    by (auto simp: maximum_response_bytes_def and_then_ok_iff string_len_def CRLF_def HEADER_TAIL_def)
qed

lemma maximum_of_bounds:
  assumes "maximum_of st ids k crs = ok n" "cr \<in> set crs"
  shows "\<exists>m. maximum_response_bytes st ids cr = ok m \<and> m \<le> n"
proof -
  have mono: "maximum_of st ids k crs = ok n \<Longrightarrow> k \<le> n" for k crs
    by (induction crs arbitrary: k) (fastforce simp: and_then_ok_iff)+
  show ?thesis using assms
  proof (induction crs arbitrary: k)
    case (Cons c crs)
    from Cons.prems(1) obtain m where m: "maximum_response_bytes st ids c = ok m" "maximum_of st ids (max k m) crs = ok n"
      by (auto simp: and_then_ok_iff)
    then show ?case using Cons mono [OF m(2)] by auto
  qed simp
qed

lemma response_fits:
  assumes "maximum_response_bytes st ids cr = ok n" "represents_response st r cr" "request_len < 10 ^ 10"
    "st_get st (id_http_version ids) = Some (ascii ''HTTP/1.1 '')"
    "st_get st (id_header_content_type ids) = Some (CRLF @ ascii ''Content-Type: '')"
    "st_get st (id_header_content_length ids) = Some (CRLF @ ascii ''Content-Length: '')"
    "st_get st (id_header_tail ids) = Some HEADER_TAIL"
  shows "length (response_bytes r parts request_len (ascii ''gpu'')) \<le> n"
proof -
  have g: "c_max_gpu_body cr = sum_list (map gpu_bound (r_body r))" "c_status cr = status_code (r_status r)"
    using assms(2) by (simp_all add: represents_response_def)
  have b: "length (body_bytes (r_body r) parts request_len (ascii ''gpu'')) \<le> c_max_gpu_body cr"
    unfolding g(1) by (rule body_bound [OF assms(3)])
  then show ?thesis using maximum_response_bytes_ok [OF assms(1,2,4-7)] decimal_digits_mono [OF b]
    by (simp add: response_bytes_def length_build_response g(2))
qed

lemma answer_fits:
  assumes "compile rt = ok c" "n < 10 ^ 10"
  shows "length (answer_parsed rt parsed n (ascii ''gpu'')) \<le> k_max_gpu_response_bytes c"
proof -
  obtain st ids where cf: "compiled_for rt c st"
    and mx: "maximum_of st ids 0 (map cr_response (k_routes c) @ [k_fallback c, k_bad_request c, k_method_not_allowed c])
       = ok (k_max_gpu_response_bytes c)"
    and ids: "st_get st (id_http_version ids) = Some (ascii ''HTTP/1.1 '')"
    "st_get st (id_header_content_type ids) = Some (CRLF @ ascii ''Content-Type: '')"
    "st_get st (id_header_content_length ids) = Some (CRLF @ ascii ''Content-Length: '')"
    "st_get st (id_header_tail ids) = Some HEADER_TAIL" by (rule compile_compiled_for [OF assms(1)])
  have fits: "length (response_bytes r parts n (ascii ''gpu'')) \<le> k_max_gpu_response_bytes c"
    if "cr \<in> set (map cr_response (k_routes c) @ [k_fallback c, k_bad_request c, k_method_not_allowed c])"
      "represents_response st r cr" for r cr parts
    using maximum_of_bounds [OF mx that(1)] response_fits [OF _ that(2) assms(2) ids] order.trans by blast
  show ?thesis
  proof (cases parsed)
    case (Get parts)
    obtain rs where perm: "mset (k_routes c) = mset rs" and reps: "list_all2 (represents_route st) (rt_routes rt) rs"
      and fb: "represents_response st (rt_fallback rt) (k_fallback c)"
      using cf by (auto simp: compiled_for_def)
    show ?thesis
    proof (cases "map_of (rt_routes rt) (q_path parts)")
      case None
      then show ?thesis using fits [OF _ fb] Get by (simp add: answer_parsed_def)
    next
      case (Some r)
      then obtain i where "i < length (rt_routes rt)" "rt_routes rt ! i = (q_path parts, r)"
        using map_of_SomeD [OF Some] by (auto simp: in_set_conv_nth)
      then have "rs ! i \<in> set rs" "represents_response st r (cr_response (rs ! i))"
        using list_all2_nthD [OF reps] list_all2_lengthD [OF reps] by (fastforce simp: represents_route_def)+
      then show ?thesis using fits [of "cr_response (rs ! i)" r] mset_eq_setD [OF perm] Get Some by (simp add: answer_parsed_def)
    qed
  next
    case ParsedBadRequest
    then show ?thesis using fits [of "k_bad_request c"] cf by (simp add: answer_parsed_def compiled_for_def)
  next
    case ParsedMethodNotAllowed
    then show ?thesis using fits [of "k_method_not_allowed c"] cf by (simp add: answer_parsed_def compiled_for_def)
  qed
qed

lemma gpu_response_fits:
  "compile rt = ok c \<Longrightarrow> length request < 10 ^ 10 \<Longrightarrow> length (spec_route rt request (ascii ''gpu'')) \<le> k_max_gpu_response_bytes c"
  by (simp add: spec_route_answer answer_fits)

end
