(* ===== verification/RouterTotal.thy ===== *)
theory RouterTotal
  imports RouterProofs
begin

text \<open>
  Which routers compile. \<open>small_router\<close> bounds the number of routes and segments and the
  length of every piece so that no \<open>u32\<close> of the compiled program and no byte count overflows;
  such a router with valid, distinct paths and valid statuses and header values compiles.
\<close>

section \<open>Small routers\<close>

definition MAX_PIECE :: nat where "MAX_PIECE = 4194304"
definition MAX_SEGMENTS :: nat where "MAX_SEGMENTS = 256"
definition MAX_ROUTES :: nat where "MAX_ROUTES = 65536"
definition MAX_HEADER :: nat where "MAX_HEADER = 65536"

definition small_segment :: "body_segment \<Rightarrow> bool" where
  "small_segment s \<longleftrightarrow> (case s of Literal v \<Rightarrow> length v \<le> MAX_PIECE | Path n \<Rightarrow> n \<le> MAX_PIECE | Query n \<Rightarrow> n \<le> MAX_PIECE
     | BackendVariant cpu gpu \<Rightarrow> length cpu \<le> MAX_PIECE \<and> length gpu \<le> MAX_PIECE | _ \<Rightarrow> True)"

definition small_response :: "response \<Rightarrow> bool" where
  "small_response r \<longleftrightarrow> validate_status (r_status r) = ok () \<and> validate_header_value (r_content_type r) = ok ()
     \<and> length (status_reason (r_status r)) \<le> MAX_HEADER \<and> length (r_content_type r) \<le> MAX_HEADER
     \<and> length (r_body r) \<le> MAX_SEGMENTS \<and> list_all small_segment (r_body r)"

definition small_router :: "router \<Rightarrow> bool" where
  "small_router rt \<longleftrightarrow> length (rt_routes rt) \<le> MAX_ROUTES \<and> distinct (map fst (rt_routes rt))
     \<and> list_all (\<lambda>(path, r). validate_route_path path = ok () \<and> small_response r) (rt_routes rt)
     \<and> small_response (rt_fallback rt) \<and> small_response (rt_bad_request rt) \<and> small_response (rt_method_not_allowed rt)"

lemmas sizes = MAX_PIECE_def MAX_SEGMENTS_def MAX_ROUTES_def MAX_HEADER_def U32_MAX_def USIZE_MAX_def

section \<open>Every stage succeeds\<close>

lemma st_intern_total:
  assumes "length (st_values t) \<le> U32_MAX"
  obtains t' i where "st_intern t s = Some (t', i)" "length (st_values t') \<le> Suc (length (st_values t))"
  using assms by (cases "hm_get (st_ids t) s") (auto simp: st_intern_def Let_def)

lemma compile_segment_total:
  assumes "small_segment s" "length (st_values st) + 2 \<le> U32_MAX" "g + MAX_PIECE \<le> USIZE_MAX" "m + MAX_PIECE \<le> USIZE_MAX"
  obtains st1 c g1 m1 where "compile_segments st (s # rest) segs g m = compile_segments st1 rest (segs @ [c]) g1 m1"
    "length (st_values st1) \<le> length (st_values st) + 2" "g1 \<le> g + MAX_PIECE" "m1 \<le> m + MAX_PIECE"
proof -
  have add: "checked_add x n label = ok (x + n)" if "n \<le> MAX_PIECE" "x + MAX_PIECE \<le> USIZE_MAX" for x n label
    using that by simp
  have lim: "validate_dynamic_limit n = ok n" if "n \<le> MAX_PIECE" for n using that by (simp add: sizes)
  have small_consts: "3 \<le> MAX_PIECE" "10 \<le> MAX_PIECE" "20 \<le> MAX_PIECE" by (simp_all add: sizes)
  note adds = add lim small_consts
  note room = assms(3,4)
  show thesis
  proof (cases s)
    case (Literal v)
    obtain t i where i: "st_intern st v = Some (t, i)" "length (st_values t) \<le> Suc (length (st_values st))"
      by (rule st_intern_total [of st]) (use assms(2) in auto)
    show thesis using assms(1) i room by (intro that [of t "CLiteral i" "g + length v" "m + length v"]) (auto simp: adds Literal small_segment_def)
  next
    case (BackendVariant cpu gpu)
    obtain t i where i: "st_intern st cpu = Some (t, i)" "length (st_values t) \<le> Suc (length (st_values st))"
      by (rule st_intern_total [of st]) (use assms(2) in auto)
    obtain u j where j: "st_intern t gpu = Some (u, j)" "length (st_values u) \<le> Suc (length (st_values t))"
      by (rule st_intern_total [of t]) (use assms(2) i(2) in auto)
    show thesis using assms(1) i j room
      by (intro that [of u "CBackendVariant i j" "g + length gpu" "m + max (length cpu) (length gpu)"])
        (auto simp: adds BackendVariant small_segment_def)
  next
    case (Path n)
    show thesis using assms(1) room by (intro that [of st "CPath n" "g + n" "m + n"]) (auto simp: adds Path small_segment_def)
  next
    case (Query n)
    show thesis using assms(1) room by (intro that [of st "CQuery n" "g + n" "m + n"]) (auto simp: adds Query small_segment_def)
  next
    case Backend
    show thesis using room by (intro that [of st CBackend "g + 3" "m + 3"]) (auto simp: adds Backend)
  next
    case RequestBytes
    show thesis using room by (intro that [of st CRequestBytes "g + 10" "m + 20"]) (auto simp: adds RequestBytes)
  next
    case PathHash
    show thesis using room by (intro that [of st CPathHash "g + 10" "m + 10"]) (auto simp: adds PathHash)
  qed
qed

lemma compile_segments_total:
  assumes "list_all small_segment b" "length (st_values st) + 2 * length b \<le> U32_MAX"
    "g + length b * MAX_PIECE \<le> USIZE_MAX" "m + length b * MAX_PIECE \<le> USIZE_MAX"
  shows "\<exists>st' segs' g' m'. compile_segments st b segs g m = ok (st', segs', g', m')
    \<and> length (st_values st') \<le> length (st_values st) + 2 * length b"
  using assms
proof (induction b arbitrary: st segs g m)
  case Nil
  then show ?case by simp
next
  case (Cons s b)
  have s: "small_segment s" and a: "length (st_values st) + 2 \<le> U32_MAX" and b: "g + MAX_PIECE \<le> USIZE_MAX"
    and c: "m + MAX_PIECE \<le> USIZE_MAX" using Cons.prems by auto
  obtain st1 k g1 m1 where 1: "compile_segments st (s # b) segs g m = compile_segments st1 b (segs @ [k]) g1 m1"
    and l: "length (st_values st1) \<le> length (st_values st) + 2" and le: "g1 \<le> g + MAX_PIECE" "m1 \<le> m + MAX_PIECE"
    by (rule compile_segment_total [OF s a b c])
  have "\<exists>st' segs' g' m'. compile_segments st1 b (segs @ [k]) g1 m1 = ok (st', segs', g', m')
      \<and> length (st_values st') \<le> length (st_values st1) + 2 * length b"
    using Cons.prems l le by (intro Cons.IH) auto
  then show ?case using l by (fastforce simp: 1)
qed

lemma compile_response_total:
  assumes "small_response r" "length (st_values st) + 514 \<le> U32_MAX"
  shows "\<exists>st' c. compile_response st r = ok (st', c) \<and> length (st_values st') \<le> length (st_values st) + 514"
proof -
  obtain t i where i: "st_intern st (status_reason (r_status r)) = Some (t, i)" "length (st_values t) \<le> Suc (length (st_values st))"
    by (rule st_intern_total [of st]) (use assms(2) in auto)
  obtain u j where j: "st_intern t (r_content_type r) = Some (u, j)" "length (st_values u) \<le> Suc (length (st_values t))"
    by (rule st_intern_total [of t]) (use assms(2) i(2) in auto)
  have b: "list_all small_segment (r_body r)" "length (r_body r) \<le> 256"
    using assms(1) by (auto simp: small_response_def MAX_SEGMENTS_def)
  have "length (r_body r) * MAX_PIECE \<le> 256 * MAX_PIECE" using b(2) by (intro mult_right_mono) auto
  then have "length (r_body r) * MAX_PIECE \<le> USIZE_MAX" by (simp add: sizes)
  then have "\<exists>st' segs g m. compile_segments u (r_body r) [] 0 0 = ok (st', segs, g, m)
      \<and> length (st_values st') \<le> length (st_values u) + 2 * length (r_body r)"
    using b i(2) j(2) assms(2) by (intro compile_segments_total) auto
  then show ?thesis using assms(1) i j b(2) by (fastforce simp: compile_response_def small_response_def)
qed

lemma compile_routes_total:
  assumes "list_all (\<lambda>(path, r). validate_route_path path = ok () \<and> small_response r) prs"
    "distinct (map fst prs)" "set (map fst prs) \<inter> seen = {}" "length (st_values st) + 514 * length prs \<le> U32_MAX"
  shows "\<exists>st' rs'. compile_routes st prs seen rs = ok (st', rs')
    \<and> length (st_values st') \<le> length (st_values st) + 514 * length prs"
  using assms
proof (induction prs arbitrary: st seen rs)
  case Nil
  then show ?case by simp
next
  case (Cons pr prs)
  obtain path r where pr: "pr = (path, r)" by force
  have r: "small_response r" "validate_route_path path = ok ()" "path \<notin> seen" using Cons.prems by (auto simp: pr)
  have "length (st_values st) + 514 \<le> U32_MAX" using Cons.prems(4) by simp
  from compile_response_total [OF r(1) this] obtain st1 c where
    c: "compile_response st r = ok (st1, c)" and l: "length (st_values st1) \<le> length (st_values st) + 514" by blast
  have "\<exists>st' rs'. compile_routes st1 prs (insert path seen) (rs @ [\<lparr>cr_path = path, cr_hash = fnv1a path, cr_response = c\<rparr>])
      = ok (st', rs') \<and> length (st_values st') \<le> length (st_values st1) + 514 * length prs"
    using Cons.prems l by (intro Cons.IH) (auto simp: pr)
  then show ?case using l r c by (fastforce simp: pr)
qed

section \<open>The word program fits\<close>

definition seg_ok :: "compiled_segment \<Rightarrow> bool" where
  "seg_ok s \<longleftrightarrow> (case s of CPath n \<Rightarrow> n \<le> U32_MAX | CQuery n \<Rightarrow> n \<le> U32_MAX | _ \<Rightarrow> True)"

lemma represents_seg_ok: "represents st s c \<Longrightarrow> seg_ok c"
  by (cases s) (auto simp: represents_def seg_ok_def)

lemma segment_words_total: "seg_ok s \<Longrightarrow> \<exists>a b c. segment_words s = ok [a, b, c]"
  by (cases s) (auto simp: segment_words_def seg_ok_def u32_or_def)

lemma emit_segments_total:
  "list_all seg_ok segs \<Longrightarrow> \<exists>words'. emit_segments words segs = ok words' \<and> length words' = length words + 3 * length segs"
proof (induction segs arbitrary: words)
  case (Cons s segs)
  then obtain a b c where "segment_words s = ok [a, b, c]" using segment_words_total [of s] by auto
  then show ?case using Cons.IH [of "words @ [a, b, c]"] Cons.prems by auto
qed simp

definition response_ok :: "compiled_response \<Rightarrow> bool" where
  "response_ok r \<longleftrightarrow> list_all seg_ok (c_segments r) \<and> length (c_segments r) \<le> 256"

lemma represents_response_ok:
  assumes "represents_response st r c" "small_response r"
  shows "response_ok c"
proof -
  have l: "list_all2 (represents st) (r_body r) (c_segments c)" using assms(1) by (simp add: represents_response_def)
  then have "list_all seg_ok (c_segments c)" by (induction rule: list_all2_induct) (auto dest: represents_seg_ok)
  then show ?thesis using list_all2_lengthD [OF l] assms(2) by (simp add: response_ok_def small_response_def MAX_SEGMENTS_def)
qed

lemma emit_response_total:
  assumes "response_ok r" "length words + 773 \<le> U32_MAX"
  shows "\<exists>words' off. emit_response words r = ok (words', off) \<and> length words \<le> length words'
    \<and> length words' \<le> length words + 773"
proof -
  have "length words + 5 \<le> USIZE_MAX" "length (c_segments r) \<le> U32_MAX"
    using assms by (simp_all add: sizes response_ok_def)
  moreover obtain words' where "emit_segments (words @ [ucast (c_status r), c_reason r, c_content_type r,
      of_nat (length words + 5), of_nat (length (c_segments r))]) (c_segments r) = ok words'"
    "length words' = length words + 5 + 3 * length (c_segments r)"
    using emit_segments_total assms(1) by (force simp: response_ok_def)
  ultimately show ?thesis using assms
    by (auto simp: emit_response_def u32_or_def RESPONSE_DESCRIPTOR_WORDS_def checked_add_def checked_add_usize_def response_ok_def)
qed

lemma emit_routes_total:
  assumes "list_all (\<lambda>r. response_ok (cr_response r) \<and> length (cr_path r) \<le> U32_MAX) rs"
    "4 * (i + length rs) \<le> length words" "length words + 773 * length rs \<le> U32_MAX"
    "length (st_values st) + length rs \<le> U32_MAX"
  shows "\<exists>words' st'. emit_routes words st i rs = ok (words', st') \<and> length words' \<le> length words + 773 * length rs"
  using assms
proof (induction rs arbitrary: words st i)
  case Nil
  then show ?case by simp
next
  case (Cons r rs)
  have r: "response_ok (cr_response r)" "length (cr_path r) \<le> U32_MAX" "length words + 773 \<le> U32_MAX"
    "length (st_values st) \<le> U32_MAX" using Cons.prems by auto
  from emit_response_total [OF r(1,3)] obtain words1 off where w1: "emit_response words (cr_response r) = ok (words1, off)"
    "length words \<le> length words1" "length words1 \<le> length words + 773" by blast
  obtain st1 p where p: "st_intern st (cr_path r) = Some (st1, p)" "length (st_values st1) \<le> Suc (length (st_values st))"
    by (rule st_intern_total [OF r(4)])
  define words2 where "words2 = words1[i * 4 := cr_hash r, i * 4 + 1 := of_nat (length (cr_path r)), i * 4 + 2 := p, i * 4 + 3 := off]"
  have room: "i * 4 + 3 < length words1" using Cons.prems(2) w1(2) by simp
  have "emit_routes words st i (r # rs) = emit_routes words2 st1 (i + 1) rs"
    using w1(1) p(1) room r(2)
    by (simp add: ROUTE_STRIDE_WORDS_def Let_def set_at_list_update u32_or_def words2_def)
  moreover have "length words2 = length words1" by (simp add: words2_def)
  moreover have "\<exists>words' st'. emit_routes words2 st1 (i + 1) rs = ok (words', st') \<and> length words' \<le> length words2 + 773 * length rs"
    using Cons.prems w1 p(2) calculation(2) by (intro Cons.IH) auto
  ultimately show ?case using w1(3) by fastforce
qed

section \<open>The response size fits\<close>

lemma gpu_bound_small: "small_segment s \<Longrightarrow> gpu_bound s \<le> MAX_PIECE"
  by (cases s) (auto simp: small_segment_def gpu_bound_def MAX_PIECE_def)

lemma gpu_bounds_small:
  assumes "list_all small_segment b" "length b \<le> 256"
  shows "sum_list (map gpu_bound b) \<le> 256 * MAX_PIECE"
proof -
  have "sum_list (map gpu_bound b) \<le> length b * MAX_PIECE"
    using assms(1) by (induction b) (auto dest: gpu_bound_small)
  also have "\<dots> \<le> 256 * MAX_PIECE" using assms(2) by (rule mult_right_mono) simp
  finally show ?thesis .
qed

definition MAX_RESPONSE :: nat where "MAX_RESPONSE = 1073873020"

lemma maximum_response_total:
  assumes "represents_response st r cr" "small_response r"
    "st_get st (id_http_version ids) = Some (ascii ''HTTP/1.1 '')"
    "st_get st (id_header_content_type ids) = Some (CRLF @ ascii ''Content-Type: '')"
    "st_get st (id_header_content_length ids) = Some (CRLF @ ascii ''Content-Length: '')"
    "st_get st (id_header_tail ids) = Some HEADER_TAIL"
  shows "\<exists>n \<le> MAX_RESPONSE. maximum_response_bytes st ids cr = ok n"
proof -
  have s: "st_get st (c_reason cr) = Some (status_reason (r_status r))" "st_get st (c_content_type cr) = Some (r_content_type r)"
    and b: "c_max_gpu_body cr = sum_list (map gpu_bound (r_body r))"
    using assms(1) by (simp_all add: represents_response_def)
  have "c_max_gpu_body cr \<le> 1073741824"
    using gpu_bounds_small [of "r_body r"] assms(2) by (simp add: b small_response_def sizes)
  moreover have "decimal_digits (c_max_gpu_body cr) \<le> 10"
    by (rule decimal_digits_bound) (use calculation in auto)
  moreover have "unat (c_status cr) < 10 ^ 5" using unsigned_less [of "c_status cr", where 'a = nat] by simp
  then have "decimal_digits (unat (c_status cr)) \<le> 5" using decimal_digits_bound by simp
  moreover have "length (status_reason (r_status r)) \<le> 65536" "length (r_content_type r) \<le> 65536"
    using assms(2) by (simp_all add: small_response_def sizes)
  moreover have "checked_add x n label = ok (x + n)" if "x + n \<le> 18446744073709551615" for x n label
    using that by (simp add: USIZE_MAX_def)
  ultimately show ?thesis using s assms(3-6)
    by (simp add: maximum_response_bytes_def string_len_def CRLF_def HEADER_TAIL_def MAX_RESPONSE_def del: checked_add_ok)
qed

lemma maximum_of_total:
  assumes "\<And>cr. cr \<in> set crs \<Longrightarrow> \<exists>n \<le> B. maximum_response_bytes st ids cr = ok n" "k \<le> B"
  shows "\<exists>n \<le> B. maximum_of st ids k crs = ok n"
  using assms
proof (induction crs arbitrary: k)
  case Nil
  then show ?case by simp
next
  case (Cons cr crs)
  obtain n where n: "n \<le> B" "maximum_response_bytes st ids cr = ok n" using Cons.prems(1) [of cr] by auto
  have "\<exists>n' \<le> B. maximum_of st ids (max k n) crs = ok n'" using Cons.prems n(1) by (intro Cons.IH) auto
  then show ?case using n(2) by simp
qed

section \<open>Compilation succeeds\<close>

lemma router_compiler_new_total:
  obtains st ids where "router_compiler_new = Some (st, ids)" "length (st_values st) \<le> 5"
proof -
  have i: "\<exists>t' i. st_intern t s = Some (t', i) \<and> length (st_values t') \<le> Suc n"
    if "length (st_values t) \<le> n" "n \<le> 4" for t s n
    by (rule st_intern_total [of t s]) (use that in \<open>auto simp: U32_MAX_def\<close>)
  obtain t1 a where 1: "st_intern string_table_default (ascii ''HTTP/1.1 '') = Some (t1, a)" "length (st_values t1) \<le> 1"
    using i [of string_table_default 0 "ascii ''HTTP/1.1 ''"] by (auto simp: string_table_default_def)
  obtain t2 b where 2: "st_intern t1 (CRLF @ ascii ''Content-Type: '') = Some (t2, b)" "length (st_values t2) \<le> 2"
    using i [OF 1(2)] by (fastforce simp: numeral_2_eq_2)
  obtain t3 c where 3: "st_intern t2 (CRLF @ ascii ''Content-Length: '') = Some (t3, c)" "length (st_values t3) \<le> 3"
    using i [OF 2(2)] by (fastforce simp: numeral_3_eq_3)
  obtain t4 d where 4: "st_intern t3 HEADER_TAIL = Some (t4, d)" "length (st_values t4) \<le> 4"
    using i [OF 3(2)] by fastforce
  obtain t5 e where 5: "st_intern t4 (ascii ''gpu'') = Some (t5, e)" "length (st_values t5) \<le> 5"
    using i [OF 4(2)] by fastforce
  show thesis using that 1(1) 2(1) 3(1) 4(1) 5 by (auto simp: router_compiler_new_def)
qed

lemma list_all2_in_right: "list_all2 P xs ys \<Longrightarrow> y \<in> set ys \<Longrightarrow> \<exists>x \<in> set xs. P x y"
  by (induction rule: list_all2_induct) auto

lemma compile_succeeds:
  assumes "small_router rt"
  shows "\<exists>c. compile rt = ok c"
proof -
  have n: "length (rt_routes rt) \<le> 65536" and small: "small_response (rt_fallback rt)" "small_response (rt_bad_request rt)"
    "small_response (rt_method_not_allowed rt)" and d: "distinct (map fst (rt_routes rt))"
    and rts: "list_all (\<lambda>(path, r). validate_route_path path = ok () \<and> small_response r) (rt_routes rt)"
    using assms by (simp_all add: small_router_def MAX_ROUTES_def)
  obtain st0 ids where new: "router_compiler_new = Some (st0, ids)" and l0: "length (st_values st0) \<le> 5"
    by (rule router_compiler_new_total)
  note nv = router_compiler_new_valid [OF new]
  have "length (st_values st0) + 514 * length (rt_routes rt) \<le> U32_MAX" using l0 n by (simp add: U32_MAX_def)
  with compile_routes_total [OF rts d, of "{}" st0 "[]"] obtain st1 rs where c1: "compile_routes st0 (rt_routes rt) {} [] = ok (st1, rs)"
    and l1: "length (st_values st1) \<le> length (st_values st0) + 514 * length (rt_routes rt)" by auto
  have s1: "length (st_values st1) \<le> 33685509" using l0 l1 n by linarith
  obtain st2 fb where c2: "compile_response st1 (rt_fallback rt) = ok (st2, fb)" and l2: "length (st_values st2) \<le> 33686023"
    using compile_response_total [OF small(1), of st1] s1 by (force simp: U32_MAX_def)
  obtain st3 br where c3: "compile_response st2 (rt_bad_request rt) = ok (st3, br)" and l3: "length (st_values st3) \<le> 33686537"
    using compile_response_total [OF small(2), of st2] l2 by (force simp: U32_MAX_def)
  obtain st4 mna where c4: "compile_response st3 (rt_method_not_allowed rt) = ok (st4, mna)" and l4: "length (st_values st4) \<le> 33687051"
    using compile_response_total [OF small(3), of st3] l3 by (force simp: U32_MAX_def)
  from compile_routes_sound [OF c1] nv have v1: "st_valid st1" and reps: "list_all2 (represents_route st1) (rt_routes rt) rs" by auto
  from compile_response_sound [OF c2 v1] have v2: "st_valid st2" "st.extends st1 st2" "represents_response st2 (rt_fallback rt) fb" by auto
  from compile_response_sound [OF c3 v2(1)] have v3: "st_valid st3" "st.extends st2 st3" "represents_response st3 (rt_bad_request rt) br" by auto
  from compile_response_sound [OF c4 v3(1)] have v4: "st_valid st4" "st.extends st3 st4" "represents_response st4 (rt_method_not_allowed rt) mna" by auto
  have len: "length rs = length (rt_routes rt)" using list_all2_lengthD [OF reps] by simp
  have each: "\<exists>resp. represents_response st1 resp (cr_response r) \<and> small_response resp \<and> length (cr_path r) \<le> U32_MAX"
    if "r \<in> set rs" for r
    using list_all2_in_right [OF reps that] rts
    by (fastforce simp: list_all_iff represents_route_def validate_route_path_def split: if_splits)
  define sorted_rs where "sorted_rs = sort_key route_order rs"
  have ok_routes: "list_all (\<lambda>r. response_ok (cr_response r) \<and> length (cr_path r) \<le> U32_MAX) sorted_rs"
    using each represents_response_ok by (auto simp: list_all_iff sorted_rs_def)
  define nw where "nw = length rs * 4"
  have nw: "nw \<le> 262144" "length sorted_rs \<le> 65536" "4 * length sorted_rs = nw" using n len by (simp_all add: nw_def sorted_rs_def)
  have "\<exists>words st. emit_routes (replicate nw 0) st4 0 sorted_rs = ok (words, st) \<and> length words \<le> length (replicate nw (0::u32)) + 773 * length sorted_rs"
    using nw l4 by (intro emit_routes_total [OF ok_routes]) (simp_all add: U32_MAX_def)
  then obtain words st where em: "emit_routes (replicate nw 0) st4 0 sorted_rs = ok (words, st)" and lw: "length words \<le> 50921472"
    using nw by auto
  from emit_response_total [OF represents_response_ok [OF v2(3) small(1)], of words] lw obtain w1 o1 where
    e1: "emit_response words fb = ok (w1, o1)" and lw1: "length w1 \<le> 50922245" by (auto simp: U32_MAX_def)
  from emit_response_total [OF represents_response_ok [OF v3(3) small(2)], of w1] lw1 obtain w2 o2 where
    e2: "emit_response w1 br = ok (w2, o2)" and lw2: "length w2 \<le> 50923018" by (auto simp: U32_MAX_def)
  from emit_response_total [OF represents_response_ok [OF v4(3) small(3)], of w2] lw2 obtain w3 o3 where
    e3: "emit_response w2 mna = ok (w3, o3)" and lw3: "length w3 \<le> 50923791" by (auto simp: U32_MAX_def)
  from emit_routes_strings [OF em v4(1)] have fin: "st.extends st4 st" by simp
  have x3: "st.extends st3 st" using st.extends_trans [OF v4(2) fin] .
  have x2: "st.extends st2 st" using st.extends_trans [OF v3(2) x3] .
  have x1: "st.extends st1 st" using st.extends_trans [OF v2(2) x2] .
  have x0: "st.extends st0 st" using compile_routes_sound [OF c1] nv st.extends_trans [OF _ x1] by blast
  note ids = st.extendsD [OF x0 nv [THEN conjunct2, THEN conjunct1]]
    st.extendsD [OF x0 nv [THEN conjunct2, THEN conjunct2, THEN conjunct1]]
    st.extendsD [OF x0 nv [THEN conjunct2, THEN conjunct2, THEN conjunct2, THEN conjunct1]]
    st.extendsD [OF x0 nv [THEN conjunct2, THEN conjunct2, THEN conjunct2, THEN conjunct2, THEN conjunct1]]
  have reprs: "\<exists>resp. represents_response st resp cr \<and> small_response resp"
    if "cr \<in> set (map cr_response sorted_rs @ [fb, br, mna])" for cr
  proof -
    have "\<exists>resp. represents_response st resp (cr_response r) \<and> small_response resp" if "r \<in> set rs" for r
      using each [OF that] represents_response_extends [OF x1] by blast
    then show ?thesis
      using that small represents_response_extends [OF x2 v2(3)] represents_response_extends [OF x3 v3(3)]
        represents_response_extends [OF fin v4(3)] by (auto simp: sorted_rs_def)
  qed
  have "\<exists>m \<le> MAX_RESPONSE. maximum_response_bytes st ids cr = ok m"
    if "cr \<in> set (map cr_response sorted_rs @ [fb, br, mna])" for cr
    using reprs [OF that] maximum_response_total ids by blast
  then have "\<exists>m \<le> MAX_RESPONSE. maximum_of st ids 0 (map cr_response sorted_rs @ [fb, br, mna]) = ok m"
    by (rule maximum_of_total) simp_all
  then obtain m where m: "maximum_of st ids 0 (map cr_response sorted_rs @ [fb, br, mna]) = ok m" "m \<le> MAX_RESPONSE" by blast
  have bounds: "\<not> U32_MAX < length (rt_routes rt)" "\<not> U32_MAX < m" "\<not> U32_MAX < length w3" "length rs \<le> U32_MAX"
    "length rs * 4 \<le> USIZE_MAX"
    using n m(2) lw3 len by (simp_all add: U32_MAX_def USIZE_MAX_def MAX_RESPONSE_def)
  show ?thesis
    using bounds
    by (simp add: compile_def Let_def checked_mul_usize_def ROUTE_STRIDE_WORDS_def u32_or_def new c1 c2 c3 c4
        em [unfolded nw_def sorted_rs_def] e1 e2 e3 m(1) [unfolded sorted_rs_def])
qed

text \<open>The router of \<open>builtin_router\<close> is small, so it compiles.\<close>

lemmas builtin_defs = builtin_router_def router_new_def router_route_def response_text_def response_json_def body_push_def
  body_literal_def body_path_def body_query_def body_request_bytes_def body_path_hash_def body_backend_def
  body_backend_variant_def STATUS_OK_def STATUS_BAD_REQUEST_def STATUS_NOT_FOUND_def STATUS_METHOD_NOT_ALLOWED_def
  status_new_def

lemma valid_route_pathI:
  assumes "hd path = 47" "path \<noteq> []" "list_all (\<lambda>b. 32 < b \<and> b < 127 \<and> b \<noteq> 63 \<and> b \<noteq> 35) path" "length path \<le> U32_MAX"
  shows "validate_route_path path = ok ()"
proof -
  have "\<not> list_ex (\<lambda>b. is_ascii_control b \<or> b = 32) path" "63 \<notin> set path" "35 \<notin> set path"
    using assms(3) by (auto simp: list_all_iff list_ex_iff is_ascii_control_def)
  then show ?thesis using assms by (simp add: validate_route_path_def)
qed

lemma paths_printable: "list_all (\<lambda>p. hd p = 47 \<and> p \<noteq> [] \<and> list_all (\<lambda>b. 32 < b \<and> b < 127 \<and> b \<noteq> 63 \<and> b \<noteq> 35) p)
    [ascii ''/'', ascii ''/health'', ascii ''/hello'', ascii ''/utf8'', ascii ''/inspect'']"
  by code_simp

lemma paths_distinct: "distinct [ascii ''/'', ascii ''/health'', ascii ''/hello'', ascii ''/utf8'', ascii ''/inspect'']"
  by code_simp

lemma paths_valid: "list_all (\<lambda>p. validate_route_path p = ok ())
    [ascii ''/'', ascii ''/health'', ascii ''/hello'', ascii ''/utf8'', ascii ''/inspect'']"
  using paths_printable by (simp add: valid_route_pathI U32_MAX_def)

lemma headers_valid: "list_all (\<lambda>v. validate_header_value v = ok ())
    [ascii ''text/plain; charset=utf-8'', ascii ''application/json'', ascii ''OK'', ascii ''Bad Request'',
     ascii ''Not Found'', ascii ''Method Not Allowed'']"
  by code_simp

lemma builtin_paths: "map fst (rt_routes builtin_router) =
   [ascii ''/'', ascii ''/health'', ascii ''/hello'', ascii ''/utf8'', ascii ''/inspect'']"
  by (simp add: builtin_router_def router_new_def router_route_def Let_def)

lemma small_statuses:
  "validate_status STATUS_OK = ok ()" "validate_status STATUS_NOT_FOUND = ok ()"
  "validate_status STATUS_BAD_REQUEST = ok ()" "validate_status STATUS_METHOD_NOT_ALLOWED = ok ()"
  using headers_valid
  by (simp_all add: validate_status_def STATUS_OK_def STATUS_BAD_REQUEST_def STATUS_NOT_FOUND_def
      STATUS_METHOD_NOT_ALLOWED_def status_new_def)

lemma small_routeI:
  assumes "rt_routes r = rs" "list_all (\<lambda>p. validate_route_path p = ok ()) (map fst rs)" "list_all (\<lambda>x. small_response (snd x)) rs"
  shows "list_all (\<lambda>(path, r). validate_route_path path = ok () \<and> small_response r) (rt_routes r)"
  using assms by (auto simp: list_all_iff)

lemmas body_defs = NOT_FOUND_BODY_def BAD_REQUEST_BODY_def METHOD_NOT_ALLOWED_BODY_def CPU_ROOT_BODY_def GPU_ROOT_BODY_def
  HEALTH_BODY_def CPU_HELLO_BODY_def GPU_HELLO_BODY_def UTF8_BODY_def newline_def

lemma small_text: "small_response (response_text b)" "small_response (response_json b)"
    "small_response ((response_text b)\<lparr>r_status := STATUS_NOT_FOUND\<rparr>)"
    "small_response ((response_text b)\<lparr>r_status := STATUS_BAD_REQUEST\<rparr>)"
    "small_response ((response_text b)\<lparr>r_status := STATUS_METHOD_NOT_ALLOWED\<rparr>)"
  if "list_all small_segment b" "length b \<le> 256"
  using that headers_valid small_statuses
  by (simp_all add: small_response_def response_text_def response_json_def sizes
      STATUS_OK_def STATUS_BAD_REQUEST_def STATUS_NOT_FOUND_def STATUS_METHOD_NOT_ALLOWED_def status_new_def)

lemma body_push_empty: "list_all small_segment (body_push [] v)" "length (body_push [] v) \<le> 256" if "length v \<le> MAX_PIECE"
  using that by (auto simp: body_push_def body_literal_def small_segment_def)

lemma body_variant_empty:
  "list_all small_segment (body_backend_variant [] a b)" "length (body_backend_variant [] a b) \<le> 256"
  if "length a \<le> MAX_PIECE" "length b \<le> MAX_PIECE"
  using that by (auto simp: body_backend_variant_def body_literal_def small_segment_def)

lemma builtin_responses: "list_all (\<lambda>x. small_response (snd x)) (rt_routes builtin_router)"
  by (simp add: builtin_router_def router_new_def router_route_def Let_def small_text body_push_empty body_variant_empty
      MAX_PIECE_def body_defs)
    (rule small_text; simp add: body_push_def body_literal_def body_path_def body_query_def body_request_bytes_def
      body_path_hash_def body_backend_def small_segment_def MAX_PIECE_def newline_def ascii_def)

lemma builtin_small: "small_router builtin_router"
proof -
  have "rt_fallback builtin_router = rt_fallback router_new" "rt_bad_request builtin_router = rt_bad_request router_new"
    "rt_method_not_allowed builtin_router = rt_method_not_allowed router_new"
    by (simp_all add: builtin_router_def router_route_def Let_def)
  moreover have "length (rt_routes builtin_router) = 5" using arg_cong [OF builtin_paths, of length] by simp
  ultimately show ?thesis
    using small_routeI [OF refl, of builtin_router] builtin_responses paths_valid paths_distinct
    by (simp add: small_router_def builtin_paths router_new_def small_text body_push_empty MAX_ROUTES_def MAX_PIECE_def body_defs)
qed

lemma builtin_compiles: "\<exists>c. compile builtin_router = ok c"
  by (rule compile_succeeds [OF builtin_small])

end
