(* ===== verification/RouterProgram.thy ===== *)
theory RouterProgram
  imports RouterTotal
begin

text \<open>
  The word program that the router compiler emits for the GPU. \<open>decode_program\<close> reads it back
  with the offsets the shader uses; \<open>program_decodes\<close> shows that it finds the compiled routes
  and responses again.
\<close>

section \<open>Reading the program\<close>

definition decode_segment :: "u32 \<Rightarrow> u32 \<Rightarrow> u32 \<Rightarrow> compiled_segment option" where
  "decode_segment opcode a b =
     (if opcode = BODY_OP_LITERAL then Some (CLiteral a)
      else if opcode = BODY_OP_PATH then Some (CPath (unat a))
      else if opcode = BODY_OP_QUERY then Some (CQuery (unat a))
      else if opcode = BODY_OP_BACKEND then Some CBackend
      else if opcode = BODY_OP_REQUEST_BYTES then Some CRequestBytes
      else if opcode = BODY_OP_PATH_HASH then Some CPathHash
      else if opcode = BODY_OP_BACKEND_VARIANT then Some (CBackendVariant a b)
      else None)"

fun decode_segments :: "u32 list \<Rightarrow> nat \<Rightarrow> nat \<Rightarrow> compiled_segment list option" where
  "decode_segments ws off 0 = Some []"
| "decode_segments ws off (Suc n) = do {
     opcode \<leftarrow> index ws off;
     a \<leftarrow> index ws (off + 1);
     b \<leftarrow> index ws (off + 2);
     s \<leftarrow> decode_segment opcode a b;
     rest \<leftarrow> decode_segments ws (off + BODY_OP_WORDS) n;
     Some (s # rest) }"

type_synonym decoded_response = "u32 \<times> u32 \<times> u32 \<times> compiled_segment list"

definition decode_response :: "u32 list \<Rightarrow> u32 \<Rightarrow> decoded_response option" where
  "decode_response ws off = do {
     status \<leftarrow> index ws (unat off);
     reason \<leftarrow> index ws (unat off + 1);
     content_type \<leftarrow> index ws (unat off + 2);
     program \<leftarrow> index ws (unat off + 3);
     count \<leftarrow> index ws (unat off + 4);
     segs \<leftarrow> decode_segments ws (unat program) (unat count);
     Some (status, reason, content_type, segs) }"

definition decode_route :: "bytes list \<Rightarrow> u32 list \<Rightarrow> nat \<Rightarrow> (u32 \<times> bytes \<times> decoded_response) option" where
  "decode_route strings ws i = do {
     h \<leftarrow> index ws (i * ROUTE_STRIDE_WORDS);
     path_len \<leftarrow> index ws (i * ROUTE_STRIDE_WORDS + 1);
     path_id \<leftarrow> index ws (i * ROUTE_STRIDE_WORDS + 2);
     off \<leftarrow> index ws (i * ROUTE_STRIDE_WORDS + 3);
     path \<leftarrow> index strings (unat path_id);
     r \<leftarrow> decode_response ws off;
     if unat path_len = length path then Some (h, path, r) else None }"

definition response_fields :: "compiled_response \<Rightarrow> decoded_response" where
  "response_fields r = (ucast (c_status r), c_reason r, c_content_type r, c_segments r)"

definition route_fields :: "compiled_route \<Rightarrow> u32 \<times> bytes \<times> decoded_response" where
  "route_fields r = (cr_hash r, cr_path r, response_fields (cr_response r))"

section \<open>The code of a response\<close>

definition seg_code :: "compiled_segment \<Rightarrow> u32 list" where
  "seg_code s = (case s of
       CLiteral i \<Rightarrow> [BODY_OP_LITERAL, i, 0]
     | CPath n \<Rightarrow> [BODY_OP_PATH, of_nat n, 0]
     | CQuery n \<Rightarrow> [BODY_OP_QUERY, of_nat n, 0]
     | CBackend \<Rightarrow> [BODY_OP_BACKEND, 0, 0]
     | CRequestBytes \<Rightarrow> [BODY_OP_REQUEST_BYTES, 0, 0]
     | CPathHash \<Rightarrow> [BODY_OP_PATH_HASH, 0, 0]
     | CBackendVariant cpu gpu \<Rightarrow> [BODY_OP_BACKEND_VARIANT, cpu, gpu])"

definition response_code :: "nat \<Rightarrow> compiled_response \<Rightarrow> u32 list" where
  "response_code n r = [ucast (c_status r), c_reason r, c_content_type r, of_nat (n + 5), of_nat (length (c_segments r))]
     @ concat (map seg_code (c_segments r))"

definition addressable :: "nat \<Rightarrow> compiled_response \<Rightarrow> bool" where
  "addressable n r \<longleftrightarrow> n + 5 \<le> U32_MAX \<and> length (c_segments r) \<le> U32_MAX \<and> list_all seg_ok (c_segments r)"

definition code_at :: "u32 list \<Rightarrow> nat \<Rightarrow> compiled_response \<Rightarrow> bool" where
  "code_at ws n r \<longleftrightarrow> addressable n r \<and> n + length (response_code n r) \<le> length ws
     \<and> (\<forall>j<length (response_code n r). ws ! (n + j) = response_code n r ! j)"

lemma u32_or_ok [simp]: "u32_or what n = ok m \<longleftrightarrow> n \<le> U32_MAX \<and> m = of_nat n"
  by (auto simp: u32_or_def)

lemma length_seg_code [simp]: "length (seg_code s) = 3"
  by (cases s) (simp_all add: seg_code_def)

lemma length_seg_codes: "length (concat (map seg_code segs)) = 3 * length segs"
  by (induction segs) auto

lemma segment_words_ok: "segment_words s = ok ws \<longleftrightarrow> seg_ok s \<and> ws = seg_code s"
  by (cases s) (auto simp: segment_words_def seg_ok_def seg_code_def and_then_ok_iff)

lemma emit_segments_ok:
  "emit_segments ws segs = ok ws' \<longleftrightarrow> list_all seg_ok segs \<and> ws' = ws @ concat (map seg_code segs)"
  by (induction segs arbitrary: ws) (auto simp: and_then_ok_iff segment_words_ok)

lemma emit_response_ok:
  assumes "emit_response ws r = ok (ws', off)"
  shows "ws' = ws @ response_code (length ws) r \<and> off = of_nat (length ws) \<and> addressable (length ws) r"
  using assms
  by (auto simp: emit_response_def and_then_ok_iff emit_segments_ok response_code_def addressable_def
      RESPONSE_DESCRIPTOR_WORDS_def)

lemma code_at_emitted: "addressable (length ws) r \<Longrightarrow> code_at (ws @ response_code (length ws) r) (length ws) r"
  by (simp add: code_at_def nth_append)

lemma code_at_agree:
  assumes "code_at ws n r" "length ws \<le> length ws'" "\<And>j. n \<le> j \<Longrightarrow> j < length ws \<Longrightarrow> ws' ! j = ws ! j"
  shows "code_at ws' n r"
  using assms by (auto simp: code_at_def)

lemma code_at_append: "code_at ws n r \<Longrightarrow> code_at (ws @ ys) n r"
  by (erule code_at_agree) (auto simp: nth_append)

section \<open>Decoding\<close>

lemma decode_seg_code:
  assumes "seg_ok s"
  shows "\<exists>opcode a b. seg_code s = [opcode, a, b] \<and> decode_segment opcode a b = Some s"
  using assms
  by (cases s) (auto simp: seg_code_def decode_segment_def seg_ok_def unat_of_nat_u32 BODY_OP_LITERAL_def BODY_OP_PATH_def
      BODY_OP_QUERY_def BODY_OP_BACKEND_def BODY_OP_REQUEST_BYTES_def BODY_OP_PATH_HASH_def BODY_OP_BACKEND_VARIANT_def)

lemma decode_segments_code:
  assumes "list_all seg_ok segs" "off + length (concat (map seg_code segs)) \<le> length ws"
    "\<And>j. j < length (concat (map seg_code segs)) \<Longrightarrow> ws ! (off + j) = concat (map seg_code segs) ! j"
  shows "decode_segments ws off (length segs) = Some segs"
  using assms
proof (induction segs arbitrary: off)
  case (Cons s segs)
  have s: "seg_ok s" using Cons.prems(1) by simp
  from decode_seg_code [OF s] obtain opcode a b where
    code: "seg_code s = [opcode, a, b]" and dec: "decode_segment opcode a b = Some s" by blast
  have read: "ws ! (off + j) = (opcode # a # b # concat (map seg_code segs)) ! j" if "j < 3 + length (concat (map seg_code segs))" for j
    using Cons.prems(3) [of j] that by (simp add: code)
  have room: "off + 3 + length (concat (map seg_code segs)) \<le> length ws" using Cons.prems(2) by (simp add: code)
  have "decode_segments ws (off + 3) (length segs) = Some segs"
    using Cons.prems(1) room by (intro Cons.IH) (auto simp: read [of "3 + j" for j, simplified] add.assoc)
  then show ?case using read [of 0] read [of 1] read [of 2] room dec
    by (simp add: index_def BODY_OP_WORDS_def)
qed simp

lemma decode_response_code:
  assumes "code_at ws n r"
  shows "decode_response ws (of_nat n) = Some (response_fields r)"
proof -
  have a: "addressable n r" and room: "n + 5 + length (concat (map seg_code (c_segments r))) \<le> length ws"
    using assms by (auto simp: code_at_def response_code_def)
  have read: "ws ! (n + j) = response_code n r ! j" if "j < 5 + length (concat (map seg_code (c_segments r)))" for j
    using assms that by (simp add: code_at_def response_code_def)
  have "decode_segments ws (n + 5) (length (c_segments r)) = Some (c_segments r)"
    using a room by (intro decode_segments_code)
      (auto simp: addressable_def add.assoc read [of "5 + j" for j, simplified] response_code_def)
  moreover have "unat (of_nat n + 5 :: u32) = n + 5" using unat_of_nat_u32 [of "n + 5"] a by (simp add: addressable_def add.commute)
  ultimately show ?thesis
    using read [of 0] read [of 1] read [of 2] read [of 3] read [of 4] a room
    by (simp add: decode_response_def index_def response_fields_def response_code_def unat_of_nat_u32 addressable_def)
qed

section \<open>The route table\<close>

definition route_at :: "u32 list \<Rightarrow> string_table \<Rightarrow> nat \<Rightarrow> nat \<Rightarrow> compiled_route \<Rightarrow> bool" where
  "route_at ws st lim i r \<longleftrightarrow> i * 4 + 3 < lim \<and> lim \<le> length ws \<and> ws ! (i * 4) = cr_hash r
     \<and> length (cr_path r) \<le> U32_MAX \<and> ws ! (i * 4 + 1) = of_nat (length (cr_path r))
     \<and> st_get st (ws ! (i * 4 + 2)) = Some (cr_path r)
     \<and> (\<exists>n\<ge>lim. ws ! (i * 4 + 3) = of_nat n \<and> code_at ws n (cr_response r))"

lemma route_at_agree:
  assumes "route_at ws st lim i r" "st.extends st st'" "length ws \<le> length ws'"
    "\<And>j. j < length ws \<Longrightarrow> j < i * 4 + 4 \<or> lim \<le> j \<Longrightarrow> ws' ! j = ws ! j"
  shows "route_at ws' st' lim i r"
proof -
  obtain n where n: "n \<ge> lim" "ws ! (i * 4 + 3) = of_nat n" "code_at ws n (cr_response r)"
    using assms(1) by (auto simp: route_at_def)
  have "code_at ws' n (cr_response r)" by (rule code_at_agree [OF n(3) assms(3)]) (use n(1) assms(4) in auto)
  then show ?thesis using assms n by (auto simp: route_at_def st.extends_def)
qed

lemma emit_routes_program:
  assumes "emit_routes ws st i rs = ok (ws', st')" "lim = (i + length rs) * 4" "lim \<le> length ws" "st_valid st"
  shows "length ws \<le> length ws' \<and> (\<forall>j<length ws. j < i * 4 \<or> lim \<le> j \<longrightarrow> ws' ! j = ws ! j)
    \<and> st.extends st st' \<and> (\<forall>k<length rs. route_at ws' st' lim (i + k) (rs ! k))"
  using assms
proof (induction rs arbitrary: ws st i)
  case Nil
  then show ?case by simp
next
  case (Cons r rs)
  obtain ws1 off where e: "emit_response ws (cr_response r) = ok (ws1, off)"
    using Cons.prems(1) by (auto simp: and_then_ok_iff)
  from emit_response_ok [OF e] have ws1: "ws1 = ws @ response_code (length ws) (cr_response r)" "off = of_nat (length ws)"
    and a: "addressable (length ws) (cr_response r)" by auto
  have base: "i * 4 + 3 < length ws" using Cons.prems(2,3) by simp
  obtain st1 pid where p: "st_intern st (cr_path r) = Some (st1, pid)" and len: "length (cr_path r) \<le> U32_MAX"
    and rest: "emit_routes (ws1[i * 4 := cr_hash r, i * 4 + 1 := of_nat (length (cr_path r)), i * 4 + 2 := pid, i * 4 + 3 := off])
      st1 (i + 1) rs = ok (ws', st')"
    using Cons.prems(1) base e
    by (auto simp: and_then_ok_iff Let_def ROUTE_STRIDE_WORDS_def set_at_list_update ws1)
  define ws2 where "ws2 = ws1[i * 4 := cr_hash r, i * 4 + 1 := of_nat (length (cr_path r)), i * 4 + 2 := pid, i * 4 + 3 := off]"
  note i1 = st.internE [OF Cons.prems(4) p]
  have l2: "length ws \<le> length ws2" "lim \<le> length ws2" using Cons.prems(3) by (simp_all add: ws2_def ws1)
  from Cons.IH [OF rest [folded ws2_def] _ l2(2) i1(1)] Cons.prems(2)
  have ih: "length ws2 \<le> length ws'" "\<forall>j<length ws2. j < (i + 1) * 4 \<or> lim \<le> j \<longrightarrow> ws' ! j = ws2 ! j" "st.extends st1 st'"
    "\<forall>k<length rs. route_at ws' st' lim (i + 1 + k) (rs ! k)" by auto
  have keep: "ws2 ! j = ws ! j" if "j < length ws" "j < i * 4 \<or> lim \<le> j" for j
    using that base Cons.prems(2) by (auto simp: ws2_def ws1 nth_append nth_list_update)
  have "code_at ws1 (length ws) (cr_response r)" using code_at_emitted [OF a] by (simp add: ws1)
  then have "code_at ws2 (length ws) (cr_response r)"
    by (rule code_at_agree) (use base in \<open>auto simp: ws2_def\<close>)
  then have "route_at ws2 st1 lim i r" using base Cons.prems(2,3) len i1(2) l2
    by (auto simp: route_at_def ws2_def ws1 nth_list_update nth_append intro!: exI [of _ "length ws"])
  then have here: "route_at ws' st' lim i r"
    by (rule route_at_agree [OF _ ih(3,1)]) (use ih(2) in auto)
  have "route_at ws' st' lim (i + k) ((r # rs) ! k)" if "k < Suc (length rs)" for k
    using that here ih(4) by (cases k) auto
  moreover have "ws' ! j = ws ! j" if "j < length ws" "j < i * 4 \<or> lim \<le> j" for j
    using that ih(2) keep [OF that] l2(1) by auto
  ultimately show ?case using ih(1) l2(1) st.extends_trans [OF i1(3) ih(3)] by auto
qed

section \<open>The compiled program\<close>

definition program_laid_out :: "compiled_router \<Rightarrow> string_table \<Rightarrow> bool" where
  "program_laid_out c st \<longleftrightarrow> k_strings c = st_values st \<and> route_count (k_layout c) = of_nat (length (k_routes c))
     \<and> length (k_routes c) \<le> U32_MAX \<and> length (k_words c) \<le> U32_MAX
     \<and> (\<forall>i<length (k_routes c). route_at (k_words c) st (length (k_routes c) * 4) i (k_routes c ! i))
     \<and> (\<exists>n. fallback_response_offset (k_layout c) = of_nat n \<and> code_at (k_words c) n (k_fallback c))
     \<and> (\<exists>n. bad_request_response_offset (k_layout c) = of_nat n \<and> code_at (k_words c) n (k_bad_request c))
     \<and> (\<exists>n. method_not_allowed_response_offset (k_layout c) = of_nat n \<and> code_at (k_words c) n (k_method_not_allowed c))"

lemma emit_response_code_at:
  "emit_response ws r = ok (ws', off) \<Longrightarrow> \<exists>n. off = of_nat n \<and> code_at ws' n r"
  using emit_response_ok code_at_emitted by blast

lemma emit_response_extends:
  "emit_response ws r = ok (ws', off) \<Longrightarrow> \<exists>ys. ws' = ws @ ys"
  using emit_response_ok by blast

lemma compile_lays_out:
  assumes "compile rt = ok c"
  obtains st where "compiled_for rt c st" "program_laid_out c st"
proof -
  from assms obtain st0 ids st1 rs st2 st3 st4 st w0 w1 w2 o0 o1 o2 where
    new: "router_compiler_new = Some (st0, ids)" and rts: "compile_routes st0 (rt_routes rt) {} [] = ok (st1, rs)"
    and fb: "compile_response st1 (rt_fallback rt) = ok (st2, k_fallback c)"
    and br: "compile_response st2 (rt_bad_request rt) = ok (st3, k_bad_request c)"
    and mna: "compile_response st3 (rt_method_not_allowed rt) = ok (st4, k_method_not_allowed c)"
    and em: "emit_routes (replicate (length rs * ROUTE_STRIDE_WORDS) 0) st4 0 (k_routes c) = ok (w0, st)"
    and e0: "emit_response w0 (k_fallback c) = ok (w1, o0)" and e1: "emit_response w1 (k_bad_request c) = ok (w2, o1)"
    and e2: "emit_response w2 (k_method_not_allowed c) = ok (k_words c, o2)"
    and k: "k_routes c = sort_key route_order rs" "k_strings c = st_values st"
      "k_layout c = \<lparr>route_count = of_nat (length rs), fallback_response_offset = o0,
       bad_request_response_offset = o1, method_not_allowed_response_offset = o2\<rparr>"
    and small: "length (k_words c) \<le> U32_MAX" "length rs \<le> U32_MAX"
    by (rule compile_stages)
  have st4: "st_valid st4"
    using compile_routes_sound [OF rts] router_compiler_new_valid [OF new] compile_response_sound [OF fb]
      compile_response_sound [OF br] compile_response_sound [OF mna] by blast
  have len: "length (k_routes c) = length rs" by (simp add: k)
  have "\<forall>i<length (k_routes c). route_at w0 st (length (k_routes c) * 4) (0 + i) (k_routes c ! i)"
    using emit_routes_program [OF em _ _ st4, of "length (k_routes c) * 4"] by (simp add: len ROUTE_STRIDE_WORDS_def)
  moreover obtain y0 y1 y2 where ys: "w1 = w0 @ y0" "w2 = w1 @ y1" "k_words c = w2 @ y2"
    using emit_response_extends [OF e0] emit_response_extends [OF e1] emit_response_extends [OF e2] by blast
  have "route_at (k_words c) st lim i r" if "route_at w0 st lim i r" for lim i r
    by (rule route_at_agree [OF that st.extends_refl]) (auto simp: ys nth_append)
  moreover have "\<exists>n. o0 = of_nat n \<and> code_at (k_words c) n (k_fallback c)"
    using emit_response_code_at [OF e0] code_at_append unfolding ys(2,3) by blast
  moreover have "\<exists>n. o1 = of_nat n \<and> code_at (k_words c) n (k_bad_request c)"
    using emit_response_code_at [OF e1] code_at_append unfolding ys(3) by blast
  moreover have "\<exists>n. o2 = of_nat n \<and> code_at (k_words c) n (k_method_not_allowed c)"
    using emit_response_code_at [OF e2] .
  ultimately have "program_laid_out c st" using k small len by (simp add: program_laid_out_def)
  moreover obtain st' where cf: "compiled_for rt c st'" using compile_compiled_for [OF assms] by blast
  ultimately have "program_laid_out c st'"
    by (simp add: program_laid_out_def route_at_def st_get_def compiled_for_def)
  then show thesis using that cf by blast
qed

lemma decode_route_at:
  assumes "route_at ws st lim i r"
  shows "decode_route (st_values st) ws i = Some (route_fields r)"
proof -
  obtain n where n: "ws ! (i * 4 + 3) = of_nat n" "code_at ws n (cr_response r)" using assms by (auto simp: route_at_def)
  have "index (st_values st) (unat (ws ! (i * 4 + 2))) = Some (cr_path r)" using assms by (simp add: route_at_def st_get_def)
  then show ?thesis using assms n decode_response_code [OF n(2)]
    by (simp add: decode_route_def route_at_def index_def [of ws] ROUTE_STRIDE_WORDS_def route_fields_def unat_of_nat_u32)
qed

section \<open>Properties\<close>

definition inspect_request :: bytes where
  "inspect_request = ascii ''GET /inspect?a=1 HTTP/1.1'' @ CRLF @ CRLF"

text \<open>C17: a router with valid, distinct paths, valid statuses and header values and pieces within
  the size limits compiles: no error, no overflow and no panic anywhere in the compiler.\<close>

theorem compile_total:
  assumes "small_router rt"
  shows "\<exists>c. compile rt = ok c"
  using assms by (rule compile_succeeds)

theorem compile_total_witness: "\<exists>c. compile builtin_router = ok c"
  by (rule compile_total [OF builtin_small])

text \<open>C1: the compiled router answers every request, on every backend name, with exactly the bytes
  the declared router specifies, and never panics: interning, hashing, sorting and the binary search
  do not change any answer.\<close>

theorem compiled_router_correct:
  assumes "compile rt = ok c"
  shows "route_request c request backend = Some (spec_route rt request backend)"
  by (rule route_request_closed [OF assms])

theorem compiled_router_correct_witness:
  "\<exists>c. compile builtin_router = ok c \<and> route_request c inspect_request (ascii ''cpu'')
     = Some (spec_route builtin_router inspect_request (ascii ''cpu''))"
  using compile_succeeds [OF builtin_small] compiled_router_correct by blast

text \<open>When the response slot is accepted for a compiled router, every answer of the router for
  the GPU backend to a request below 10^10 bytes fits into the slot.\<close>

theorem gpu_slot_suffices:
  assumes "compile rt = ok c" "validate_gpu_response_slot c slot = ok ()" "length request < 10 ^ 10"
  shows "length (spec_route rt request (ascii ''gpu'')) \<le> slot"
  using gpu_response_fits [OF assms(1,3)] assms(2) by (simp add: validate_gpu_response_slot_def split: if_splits)

theorem gpu_slot_suffices_witness:
  "\<exists>slot. length (spec_route builtin_router inspect_request (ascii ''gpu'')) \<le> slot"
proof -
  obtain c where c: "compile builtin_router = ok c" using compile_succeeds [OF builtin_small] by blast
  have "validate_gpu_response_slot c (k_max_gpu_response_bytes c) = ok ()" by (simp add: validate_gpu_response_slot_def)
  from gpu_slot_suffices [OF c this, of inspect_request] show ?thesis by (auto simp: inspect_request_def CRLF_def)
qed

text \<open>C18: reading the word program with the offsets of the shader gives back every compiled route, in
  table order, with its hash, its path and its response, and the three fixed responses.\<close>

theorem program_decodes:
  assumes "compile rt = ok c"
  shows "map (decode_route (k_strings c) (k_words c)) [0..<length (k_routes c)] = map (\<lambda>r. Some (route_fields r)) (k_routes c)
    \<and> unat (route_count (k_layout c)) = length (k_routes c)
    \<and> decode_response (k_words c) (fallback_response_offset (k_layout c)) = Some (response_fields (k_fallback c))
    \<and> decode_response (k_words c) (bad_request_response_offset (k_layout c)) = Some (response_fields (k_bad_request c))
    \<and> decode_response (k_words c) (method_not_allowed_response_offset (k_layout c)) = Some (response_fields (k_method_not_allowed c))"
proof -
  obtain st where p: "program_laid_out c st" using compile_lays_out [OF assms] by blast
  have "map (decode_route (k_strings c) (k_words c)) [0..<length (k_routes c)] = map (\<lambda>r. Some (route_fields r)) (k_routes c)"
    using p by (intro nth_equalityI) (auto simp: program_laid_out_def intro: decode_route_at)
  then show ?thesis using p decode_response_code by (auto simp: program_laid_out_def unat_of_nat_u32)
qed

theorem program_decodes_witness:
  "\<exists>c. compile builtin_router = ok c \<and> unat (route_count (k_layout c)) = length (k_routes c)"
  using compile_succeeds [OF builtin_small] program_decodes by blast

text \<open>A router that compiles has no repeated path, and its route table is a permutation of the
  declared routes in increasing order of path hash and path.\<close>

theorem compiled_paths_distinct:
  assumes "compile rt = ok c"
  shows "distinct (map fst (rt_routes rt)) \<and> distinct (map cr_path (k_routes c)) \<and> sorted (map route_order (k_routes c))
    \<and> set (map cr_path (k_routes c)) = set (map fst (rt_routes rt))"
proof -
  obtain st where cf: "compiled_for rt c st" using compile_compiled_for [OF assms] by blast
  then obtain rs where perm: "mset (k_routes c) = mset rs" and reps: "list_all2 (represents_route st) (rt_routes rt) rs"
    by (auto simp: compiled_for_def)
  have paths: "map cr_path rs = map fst (rt_routes rt)"
    using reps by (induction rule: list_all2_induct) (auto simp: represents_route_def)
  have "mset (map cr_path (k_routes c)) = mset (map fst (rt_routes rt))" using perm by (simp flip: paths)
  then show ?thesis using cf mset_eq_imp_distinct_iff mset_eq_setD unfolding compiled_for_def by blast
qed

theorem compiled_paths_distinct_witness:
  "\<exists>c. compile builtin_router = ok c \<and> distinct (map cr_path (k_routes c))"
  using compile_succeeds [OF builtin_small] compiled_paths_distinct by blast

end
