(* ===== verification/ShaderStrings.thy ===== *)
theory ShaderStrings
  imports LittleEndian RouterProgram
begin

text \<open>
  \<open>src/processor/shader_strings.rs\<close>: the byte-packed string arena of the HTTP shader, the
  metadata that locates a string in it, and the constants that are written in front of the
  shader's source. \<open>arena_roundtrip\<close> reads every string back at its metadata.
\<close>

section \<open>Building the arena\<close>

definition PERSISTENT_GPU_HEADER_TAIL :: bytes where
  "PERSISTENT_GPU_HEADER_TAIL = CRLF @ ascii ''Server: gput'' @ CRLF @ ascii ''X-Gput-Backend: gpu'' @ CRLF @ CRLF"

record string_meta =
  sm_byte_offset :: u32
  sm_byte_len :: u32
  sm_scalar_len :: u32

record shader_assets =
  sa_source :: bytes
  sa_metadata :: "string_meta list"
  sa_words :: "u32 list"
  sa_byte_len :: nat

datatype asset_error = ByteOffsetNotU32 nat | ByteLengthNotU32 nat | ScalarLengthNotU32 nat

text \<open>\<open>str::chars().count()\<close>: the bytes of the UTF-8 encoding that do not continue a character.\<close>

definition char_count :: "bytes \<Rightarrow> nat" where
  "char_count s = length (filter (\<lambda>b. b AND 0xC0 \<noteq> 0x80) s)"

definition asset_u32 :: "asset_error \<Rightarrow> nat \<Rightarrow> (asset_error, u32) outcome" where
  "asset_u32 e n = (if n \<le> U32_MAX then ok (of_nat n) else fail e)"

fun arena_loop :: "nat \<Rightarrow> nat \<Rightarrow> bytes list \<Rightarrow> bytes \<Rightarrow> string_meta list \<Rightarrow> (asset_error, bytes \<times> string_meta list) outcome" where
  "arena_loop header_tail i [] bs metadata = ok (bs, metadata)"
| "arena_loop header_tail i (v # rest) bs metadata =
     (let v = (if i = header_tail then PERSISTENT_GPU_HEADER_TAIL else v) in
      and_then (asset_u32 (ByteOffsetNotU32 i) (length bs)) (\<lambda>byte_offset.
      and_then (asset_u32 (ByteLengthNotU32 i) (length v)) (\<lambda>byte_len.
      and_then (asset_u32 (ScalarLengthNotU32 i) (char_count v)) (\<lambda>scalar_len.
      arena_loop header_tail (i + 1) rest (bs @ v)
        (metadata @ [\<lparr>sm_byte_offset = byte_offset, sm_byte_len = byte_len, sm_scalar_len = scalar_len\<rparr>])))))"

text \<open>One generated line: \<open>const NAME: u32 = VALUEu;\<close>.\<close>

definition const_line :: "string \<times> nat \<Rightarrow> bytes" where
  "const_line c = ascii ''const '' @ ascii (fst c) @ ascii '': u32 = '' @ decimal (snd c) @ ascii ''u;'' @ newline"

definition shader_constants :: "shader_string_ids \<Rightarrow> (string \<times> nat) list" where
  "shader_constants ids =
     [(''STRING_HTTP_VERSION'', unat (id_http_version ids)),
      (''STRING_HEADER_CONTENT_TYPE'', unat (id_header_content_type ids)),
      (''STRING_HEADER_CONTENT_LENGTH'', unat (id_header_content_length ids)),
      (''STRING_HEADER_TAIL'', unat (id_header_tail ids)),
      (''STRING_BACKEND_GPU'', unat (id_backend_gpu ids)),
      (''ROUTE_STRIDE_WORDS'', ROUTE_STRIDE_WORDS),
      (''RESPONSE_DESCRIPTOR_WORDS'', RESPONSE_DESCRIPTOR_WORDS),
      (''BODY_OP_WORDS'', BODY_OP_WORDS),
      (''BODY_OP_LITERAL'', unat BODY_OP_LITERAL),
      (''BODY_OP_PATH'', unat BODY_OP_PATH),
      (''BODY_OP_QUERY'', unat BODY_OP_QUERY),
      (''BODY_OP_BACKEND'', unat BODY_OP_BACKEND),
      (''BODY_OP_REQUEST_BYTES'', unat BODY_OP_REQUEST_BYTES),
      (''BODY_OP_PATH_HASH'', unat BODY_OP_PATH_HASH),
      (''BODY_OP_BACKEND_VARIANT'', unat BODY_OP_BACKEND_VARIANT)]"

definition build_shader_assets :: "bytes \<Rightarrow> compiled_router \<Rightarrow> (asset_error, shader_assets) outcome" where
  "build_shader_assets shader_body c =
     (let ids = k_ids c in
      and_then (arena_loop (unat (id_header_tail ids)) 0 (k_strings c) [] []) (\<lambda>(bs, metadata).
      let source = ascii ''// Router constants generated by Rust. Data lives in GPU storage buffers.'' @ newline
            @ concat (map const_line (shader_constants ids)) @ newline @ shader_body
      in and_then (or_panic (pack_bytes bs)) (\<lambda>words.
      ok \<lparr>sa_source = source, sa_metadata = metadata, sa_words = words, sa_byte_len = length bs\<rparr>)))"

section \<open>Reading a string back\<close>

text \<open>The strings the shader sees: the persistent header tail replaces the compiled one.\<close>

definition arena_strings :: "compiled_router \<Rightarrow> bytes list" where
  "arena_strings c = (k_strings c)[unat (id_header_tail (k_ids c)) := PERSISTENT_GPU_HEADER_TAIL]"

definition unpack_string :: "shader_assets \<Rightarrow> string_meta \<Rightarrow> bytes" where
  "unpack_string a m = take (unat (sm_byte_len m)) (drop (unat (sm_byte_offset m)) (words_to_bytes (sa_words a)))"

text \<open>\<open>string_at\<close>: the metadata locates \<open>v\<close> in the arena bytes.\<close>

definition string_at :: "bytes \<Rightarrow> string_meta \<Rightarrow> bytes \<Rightarrow> bool" where
  "string_at arena m v \<longleftrightarrow> unat (sm_byte_len m) = length v
     \<and> unat (sm_byte_offset m) + length v \<le> length arena \<and> length v \<le> U32_MAX
     \<and> take (length v) (drop (unat (sm_byte_offset m)) arena) = v"

lemma asset_u32_ok [simp]: "asset_u32 e n = ok m \<longleftrightarrow> n \<le> U32_MAX \<and> m = of_nat n"
  by (auto simp: asset_u32_def)

lemma string_at_append: "string_at arena m v \<Longrightarrow> string_at (arena @ ys) m v"
  by (auto simp: string_at_def)

lemma arena_loop_ok:
  assumes "arena_loop tail i vs bs ms = ok (bs', ms')" "list_all2 (string_at bs) ms es"
  shows "list_all2 (string_at bs') ms' (es @ map (\<lambda>j. if i + j = tail then PERSISTENT_GPU_HEADER_TAIL else vs ! j) [0..<length vs])"
  using assms
proof (induction vs arbitrary: i bs ms es)
  case Nil
  then show ?case by simp
next
  case (Cons v vs)
  define u where "u = (if i = tail then PERSISTENT_GPU_HEADER_TAIL else v)"
  obtain off len n where m: "length bs \<le> U32_MAX" "length u \<le> U32_MAX" "off = of_nat (length bs)" "len = of_nat (length u)"
    and rest: "arena_loop tail (i + 1) vs (bs @ u) (ms @ [\<lparr>sm_byte_offset = off, sm_byte_len = len, sm_scalar_len = n\<rparr>]) = ok (bs', ms')"
    using Cons.prems(1) by (auto simp: and_then_ok_iff Let_def u_def simp del: of_nat_add)
  have "list_all2 (string_at (bs @ u)) ms es" using Cons.prems(2) string_at_append by (auto elim: list_all2_mono)
  moreover have "string_at (bs @ u) \<lparr>sm_byte_offset = off, sm_byte_len = len, sm_scalar_len = n\<rparr> u"
    using m by (simp add: string_at_def)
  ultimately have "list_all2 (string_at (bs @ u)) (ms @ [\<lparr>sm_byte_offset = off, sm_byte_len = len, sm_scalar_len = n\<rparr>]) (es @ [u])"
    by (intro list_all2_appendI) simp_all
  from Cons.IH [OF rest this]
  have *: "list_all2 (string_at bs') ms' ((es @ [u]) @ map (\<lambda>j. if i + 1 + j = tail then PERSISTENT_GPU_HEADER_TAIL else vs ! j) [0..<length vs])" .
  have "map (\<lambda>j. if i + j = tail then PERSISTENT_GPU_HEADER_TAIL else (v # vs) ! j) [0..<Suc (length vs)]
      = u # map (\<lambda>j. if i + 1 + j = tail then PERSISTENT_GPU_HEADER_TAIL else vs ! j) [0..<length vs]"
    by (subst map_upt_Suc) (simp add: u_def)
  then show ?case using * by (simp del: upt_Suc)
qed

lemma arena_strings_alt:
  "arena_strings c = map (\<lambda>j. if j = unat (id_header_tail (k_ids c)) then PERSISTENT_GPU_HEADER_TAIL else k_strings c ! j) [0..<length (k_strings c)]"
  by (rule nth_equalityI) (auto simp: arena_strings_def nth_list_update)

lemma build_shader_assets_ok:
  assumes "build_shader_assets body c = ok a"
  shows "list_all2 (string_at (words_to_bytes (sa_words a))) (sa_metadata a) (arena_strings c)"
proof -
  obtain bs where arena: "arena_loop (unat (id_header_tail (k_ids c))) 0 (k_strings c) [] [] = ok (bs, sa_metadata a)"
    and words: "pack_bytes bs = Some (sa_words a)"
    using assms by (auto simp: build_shader_assets_def Let_def and_then_ok_iff)
  have "words_to_bytes (sa_words a) = pad_words bs" using pack_bytes_closed [of bs] words by auto
  then have "words_to_bytes (sa_words a) = bs @ replicate (4 * div_ceil (length bs) 4 - length bs) 0" by (simp add: pad_words_def)
  moreover have "list_all2 (string_at bs) (sa_metadata a) (arena_strings c)"
    using arena_loop_ok [OF arena, of "[]"] by (simp add: arena_strings_alt)
  ultimately show ?thesis using string_at_append by (auto elim: list_all2_mono)
qed

lemma unpack_string_at: "string_at (words_to_bytes (sa_words a)) m v \<Longrightarrow> unpack_string a m = v"
  by (simp add: string_at_def unpack_string_def)

text \<open>C31: the string arena round trip. When the assets of a compiled router are built, reading each
  string at its metadata out of the packed words gives the router's strings in order, with the
  persistent header tail in the place of the compiled one.\<close>

theorem arena_roundtrip:
  assumes "build_shader_assets body c = ok a"
  shows "map (unpack_string a) (sa_metadata a) = arena_strings c"
proof (rule nth_equalityI)
  note at = build_shader_assets_ok [OF assms]
  show len: "length (map (unpack_string a) (sa_metadata a)) = length (arena_strings c)"
    using list_all2_lengthD [OF at] by simp
  show "map (unpack_string a) (sa_metadata a) ! i = arena_strings c ! i"
    if "i < length (map (unpack_string a) (sa_metadata a))" for i
    using list_all2_nthD [OF at, of i] that by (simp add: unpack_string_at)
qed

end
