(* ===== verification/HttpShader.thy ===== *)
theory HttpShader
  imports ShaderStrings
begin

text \<open>
  The compute shader \<open>src/processor/http.wgsl\<close>: one invocation of \<open>process_requests\<close> per request.
  All integers are \<open>u32\<close> and wrap. An access outside a storage buffer, whose result WGSL leaves
  open, is \<open>None\<close>; so is a digit loop that would not end.
\<close>

section \<open>Buffers and records\<close>

record params =
  pa_request_stride_words :: u32
  pa_response_stride_words :: u32
  pa_request_count :: u32
  pa_route_count :: u32
  pa_fallback_response_offset :: u32
  pa_bad_request_response_offset :: u32
  pa_method_not_allowed_response_offset :: u32

record request_meta =
  rq_input_len :: u32
  rq_word_offset :: u32

record response_meta =
  rs_output_len :: u32
  rs_status :: u32
  rs_flags :: u32

record writer =
  wr_request_index :: u32
  wr_cursor :: u32
  wr_flags :: u32
  wr_pending :: u32

record request_target =
  tg_path_start :: u32
  tg_path_len :: u32
  tg_query_start :: u32
  tg_query_len :: u32
  tg_path_hash :: u32
  tg_input_len :: u32
  tg_valid :: u32

text \<open>The uniform and read-only bindings, with the string constants generated into the source.\<close>

record bindings =
  bi_params :: params
  bi_request_meta :: "request_meta list"
  bi_input_words :: "u32 list"
  bi_string_meta :: "string_meta list"
  bi_string_words :: "u32 list"
  bi_router_words :: "u32 list"
  bi_ids :: shader_string_ids

text \<open>The read-write bindings.\<close>

record shader_memory =
  mem_response_meta :: "response_meta list"
  mem_output_words :: "u32 list"

definition FNV_OFFSET_BASIS :: u32 where "FNV_OFFSET_BASIS = 2166136261"
definition FNV_PRIME :: u32 where "FNV_PRIME = 16777619"

abbreviation (input) ROUTE_PATH_HASH :: u32 where "ROUTE_PATH_HASH \<equiv> 0"
abbreviation (input) ROUTE_PATH_LEN :: u32 where "ROUTE_PATH_LEN \<equiv> 1"
abbreviation (input) ROUTE_PATH_STRING :: u32 where "ROUTE_PATH_STRING \<equiv> 2"
abbreviation (input) ROUTE_RESPONSE_OFFSET :: u32 where "ROUTE_RESPONSE_OFFSET \<equiv> 3"
abbreviation (input) RESPONSE_STATUS :: u32 where "RESPONSE_STATUS \<equiv> 0"
abbreviation (input) RESPONSE_REASON_STRING :: u32 where "RESPONSE_REASON_STRING \<equiv> 1"
abbreviation (input) RESPONSE_CONTENT_TYPE_STRING :: u32 where "RESPONSE_CONTENT_TYPE_STRING \<equiv> 2"
abbreviation (input) RESPONSE_PROGRAM_OFFSET :: u32 where "RESPONSE_PROGRAM_OFFSET \<equiv> 3"
abbreviation (input) RESPONSE_PROGRAM_LEN :: u32 where "RESPONSE_PROGRAM_LEN \<equiv> 4"
abbreviation (input) BODY_OP_CODE :: u32 where "BODY_OP_CODE \<equiv> 0"
abbreviation (input) BODY_OP_ARG_0 :: u32 where "BODY_OP_ARG_0 \<equiv> 1"
abbreviation (input) BODY_OP_ARG_1 :: u32 where "BODY_OP_ARG_1 \<equiv> 2"
abbreviation (input) RESPONSE_FLAG_OUTPUT_OVERFLOW :: u32 where "RESPONSE_FLAG_OUTPUT_OVERFLOW \<equiv> 1"
abbreviation (input) RESPONSE_FLAG_INVALID_PROGRAM :: u32 where "RESPONSE_FLAG_INVALID_PROGRAM \<equiv> 4"

text \<open>A loop index below its bound does not wrap; a word loop gets shorter.\<close>

lemma remaining_4: "4 \<le> n - (i :: u32) \<Longrightarrow> unat (n - (i + 4)) = unat (n - i) - 4"
  by (subst diff_diff_eq [symmetric], subst unat_sub) simp_all

lemma remaining_decreases: "4 \<le> n - (i :: u32) \<Longrightarrow> unat (n - (i + 4)) < unat (n - i)"
  by (simp add: remaining_4 word_le_nat_alt)

section \<open>Reading\<close>

definition request_byte :: "bindings \<Rightarrow> u32 \<Rightarrow> u32 \<Rightarrow> u32 option" where
  "request_byte d request_index byte_index = do {
     m \<leftarrow> fetch (bi_request_meta d) request_index;
     let word_index = rq_word_offset m + byte_index div 4;
     let shift = (byte_index AND 3) * 8;
     w \<leftarrow> fetch (bi_input_words d) word_index;
     Some (drop_bit (unat shift) w AND 255) }"

definition request_word :: "bindings \<Rightarrow> u32 \<Rightarrow> u32 \<Rightarrow> u32 option" where
  "request_word d request_index byte_index = do {
     m \<leftarrow> fetch (bi_request_meta d) request_index;
     let word_index = rq_word_offset m + byte_index div 4;
     let shift = (byte_index AND 3) * 8;
     low \<leftarrow> fetch (bi_input_words d) word_index;
     if shift = 0 then Some low
     else do {
       high \<leftarrow> fetch (bi_input_words d) (word_index + 1);
       Some (drop_bit (unat shift) low OR push_bit (unat (32 - shift)) high) } }"

definition string_byte :: "bindings \<Rightarrow> u32 \<Rightarrow> u32 \<Rightarrow> u32 option" where
  "string_byte d string_id byte_index = do {
     m \<leftarrow> fetch (bi_string_meta d) string_id;
     let absolute_index = sm_byte_offset m + byte_index;
     w \<leftarrow> fetch (bi_string_words d) (absolute_index div 4);
     let shift = (absolute_index AND 3) * 8;
     Some (drop_bit (unat shift) w AND 255) }"

definition string_word :: "bindings \<Rightarrow> u32 \<Rightarrow> u32 \<Rightarrow> u32 option" where
  "string_word d string_id byte_index = do {
     m \<leftarrow> fetch (bi_string_meta d) string_id;
     let absolute_index = sm_byte_offset m + byte_index;
     let word_index = absolute_index div 4;
     let shift = (absolute_index AND 3) * 8;
     low \<leftarrow> fetch (bi_string_words d) word_index;
     if shift = 0 then Some low
     else do {
       high \<leftarrow> fetch (bi_string_words d) (word_index + 1);
       Some (drop_bit (unat shift) low OR push_bit (unat (32 - shift)) high) } }"

definition route_word :: "bindings \<Rightarrow> u32 \<Rightarrow> u32 \<Rightarrow> u32 option" where
  "route_word d route_index field = fetch (bi_router_words d) (route_index * of_nat ROUTE_STRIDE_WORDS + field)"

definition response_word :: "bindings \<Rightarrow> u32 \<Rightarrow> u32 \<Rightarrow> u32 option" where
  "response_word d response_offset field = fetch (bi_router_words d) (response_offset + field)"

definition body_op_word :: "bindings \<Rightarrow> u32 \<Rightarrow> u32 \<Rightarrow> u32 \<Rightarrow> u32 option" where
  "body_op_word d program_offset operation_index field =
     fetch (bi_router_words d) (program_offset + operation_index * of_nat BODY_OP_WORDS + field)"

section \<open>Writing\<close>

definition writer_new :: "u32 \<Rightarrow> writer" where
  "writer_new request_index = \<lparr>wr_request_index = request_index, wr_cursor = 0, wr_flags = 0, wr_pending = 0\<rparr>"

definition writer_fail :: "u32 \<Rightarrow> writer \<Rightarrow> writer" where
  "writer_fail flag w = w\<lparr>wr_flags := wr_flags w OR flag\<rparr>"

type_synonym writing = "writer \<times> u32 list"

definition writer_push_byte :: "bindings \<Rightarrow> u32 \<Rightarrow> writing \<Rightarrow> writing option" where
  "writer_push_byte d byte st = (case st of (w, out) \<Rightarrow>
     if wr_flags w \<noteq> 0 then Some (w, out)
     else if pa_response_stride_words (bi_params d) * 4 \<le> wr_cursor w
     then Some (writer_fail RESPONSE_FLAG_OUTPUT_OVERFLOW w, out)
     else do {
       let shift = (wr_cursor w AND 3) * 8;
       let pending = wr_pending w OR push_bit (unat shift) (byte AND 255);
       let cursor = wr_cursor w + 1;
       if cursor AND 3 = 0 then do {
         out' \<leftarrow> store out (wr_request_index w * pa_response_stride_words (bi_params d) + cursor div 4 - 1) pending;
         Some (w\<lparr>wr_cursor := cursor, wr_pending := 0\<rparr>, out') }
       else Some (w\<lparr>wr_cursor := cursor, wr_pending := pending\<rparr>, out) })"

definition writer_push_word :: "bindings \<Rightarrow> u32 \<Rightarrow> writing \<Rightarrow> writing option" where
  "writer_push_word d v st = (case st of (w, out) \<Rightarrow>
     if wr_flags w \<noteq> 0 then Some (w, out)
     else if pa_response_stride_words (bi_params d) * 4 - wr_cursor w < 4
     then Some (writer_fail RESPONSE_FLAG_OUTPUT_OVERFLOW w, out)
     else do {
       let shift = (wr_cursor w AND 3) * 8;
       out' \<leftarrow> store out (wr_request_index w * pa_response_stride_words (bi_params d) + wr_cursor w div 4)
         (wr_pending w OR push_bit (unat shift) v);
       Some (w\<lparr>wr_cursor := wr_cursor w + 4,
               wr_pending := (if shift \<noteq> 0 then drop_bit (unat (32 - shift)) v else 0)\<rparr>, out') })"

text \<open>The two loops of \<open>writer_push_string\<close> and \<open>writer_push_request_range\<close>, over what they read.\<close>

function push_words :: "bindings \<Rightarrow> (u32 \<Rightarrow> u32 option) \<Rightarrow> u32 \<Rightarrow> u32 \<Rightarrow> writing \<Rightarrow> (u32 \<times> writing) option" where
  "push_words d get byte_len byte_index st =
     (if 4 \<le> byte_len - byte_index
      then do {
        v \<leftarrow> get byte_index;
        st' \<leftarrow> writer_push_word d v st;
        push_words d get byte_len (byte_index + 4) st' }
      else Some (byte_index, st))"
  by pat_completeness auto
termination
  by (relation "measure (\<lambda>(d, get, byte_len, byte_index, st). unat (byte_len - byte_index))")
    (auto simp: remaining_decreases)

function push_bytes :: "bindings \<Rightarrow> (u32 \<Rightarrow> u32 option) \<Rightarrow> u32 \<Rightarrow> u32 \<Rightarrow> writing \<Rightarrow> writing option" where
  "push_bytes d get byte_len byte_index st =
     (if byte_index < byte_len
      then do {
        v \<leftarrow> get byte_index;
        st' \<leftarrow> writer_push_byte d v st;
        push_bytes d get byte_len (byte_index + 1) st' }
      else Some st)"
  by pat_completeness auto
termination
  by (relation "measure (\<lambda>(d, get, byte_len, byte_index, st). unat byte_len - unat byte_index)")
    (auto simp: word_less_nat_alt u32_next)

definition writer_push_string :: "bindings \<Rightarrow> u32 \<Rightarrow> writing \<Rightarrow> writing option" where
  "writer_push_string d string_id st = do {
     m \<leftarrow> fetch (bi_string_meta d) string_id;
     (i, st) \<leftarrow> push_words d (string_word d string_id) (sm_byte_len m) 0 st;
     push_bytes d (string_byte d string_id) (sm_byte_len m) i st }"

definition writer_push_request_range :: "bindings \<Rightarrow> u32 \<Rightarrow> u32 \<Rightarrow> u32 \<Rightarrow> writing \<Rightarrow> writing option" where
  "writer_push_request_range d request_index byte_start byte_len st = do {
     (i, st) \<leftarrow> push_words d (\<lambda>i. request_word d request_index (byte_start + i)) byte_len 0 st;
     push_bytes d (\<lambda>i. request_byte d request_index (byte_start + i)) byte_len i st }"

function decimal_width_loop :: "u32 \<Rightarrow> u32 \<Rightarrow> u32" where
  "decimal_width_loop remaining width =
     (if 10 \<le> remaining then decimal_width_loop (remaining div 10) (width + 1) else width)"
  by pat_completeness auto
termination
  by (relation "measure (\<lambda>(remaining, width). unat remaining)") (auto simp: word_le_nat_alt unat_div)

definition decimal_width :: "u32 \<Rightarrow> u32" where
  "decimal_width v = decimal_width_loop v 1"

lemma times_10_below:
  assumes "10 \<le> v div (m :: u32)"
  shows "m \<noteq> 0" "unat (m * 10) = unat m * 10" "unat (m * 10) \<le> unat v"
proof -
  have q: "10 \<le> unat v div unat m" using assms by (simp add: word_le_nat_alt unat_div)
  then have "unat m * 10 \<le> unat v" by (metis div_times_less_eq_dividend mult.commute mult_le_mono2 order.trans)
  moreover have "unat v < 4294967296" using unsigned_less [of v, where 'a = nat] by simp
  ultimately have "unat (m * 10) = unat m * unat (10 :: u32)" by (intro iffD1 [OF unat_mult_lem]) simp
  then show "unat (m * 10) = unat m * 10" "unat (m * 10) \<le> unat v" using \<open>unat m * 10 \<le> unat v\<close> by simp_all
  show "m \<noteq> 0" using q by auto
qed

function decimal_divisor :: "u32 \<Rightarrow> u32 \<Rightarrow> u32" where
  "decimal_divisor v m = (if 10 \<le> v div m then decimal_divisor v (m * 10) else m)"
  by pat_completeness auto
termination
proof (relation "measure (\<lambda>(v, m). unat v - unat m)")
  fix v m :: u32
  assume "10 \<le> v div m"
  note t = times_10_below [OF this]
  have "0 < unat m" using t(1) by (simp add: unat_gt_0)
  then show "((v, m * 10), (v, m)) \<in> measure (\<lambda>(v, m). unat v - unat m)" using t(2,3) by auto
qed simp

partial_function (option) push_digits :: "bindings \<Rightarrow> u32 \<Rightarrow> u32 \<Rightarrow> writing \<Rightarrow> writing option" where
  "push_digits d v m st = do {
     st' \<leftarrow> writer_push_byte d (48 + (v div m) mod 10) st;
     if m = 1 then Some st' else push_digits d v (m div 10) st' }"

definition writer_push_decimal :: "bindings \<Rightarrow> u32 \<Rightarrow> writing \<Rightarrow> writing option" where
  "writer_push_decimal d v st = push_digits d v (decimal_divisor v 1) st"

definition writer_finish :: "bindings \<Rightarrow> writing \<Rightarrow> u32 \<Rightarrow> response_meta list \<Rightarrow> shader_memory option" where
  "writer_finish d st status metas = (case st of (w, out) \<Rightarrow>
     if wr_flags w \<noteq> 0 then do {
       metas' \<leftarrow> store metas (wr_request_index w) \<lparr>rs_output_len = 0, rs_status = 500, rs_flags = wr_flags w\<rparr>;
       Some \<lparr>mem_response_meta = metas', mem_output_words = out\<rparr> }
     else do {
       out' \<leftarrow> (if wr_cursor w AND 3 \<noteq> 0
         then store out (wr_request_index w * pa_response_stride_words (bi_params d) + wr_cursor w div 4) (wr_pending w)
         else Some out);
       metas' \<leftarrow> store metas (wr_request_index w) \<lparr>rs_output_len = wr_cursor w, rs_status = status, rs_flags = 0\<rparr>;
       Some \<lparr>mem_response_meta = metas', mem_output_words = out'\<rparr> })"

section \<open>Parsing\<close>

definition is_get_request :: "bindings \<Rightarrow> u32 \<Rightarrow> u32 \<Rightarrow> bool option" where
  "is_get_request d request_index input_len =
     (if input_len < 4 then Some False
      else do { w \<leftarrow> request_word d request_index 0; Some (w = 0x20544547) })"

text \<open>A conjunction of byte comparisons, evaluated from left to right until one fails.\<close>

fun request_bytes_are :: "bindings \<Rightarrow> u32 \<Rightarrow> u32 \<Rightarrow> u32 list \<Rightarrow> bool option" where
  "request_bytes_are d request_index i [] = Some True"
| "request_bytes_are d request_index i (k # ks) = do {
     b \<leftarrow> request_byte d request_index i;
     if b = k then request_bytes_are d request_index (i + 1) ks else Some False }"

definition has_supported_http_version :: "bindings \<Rightarrow> u32 \<Rightarrow> u32 \<Rightarrow> u32 \<Rightarrow> bool option" where
  "has_supported_http_version d request_index version_start input_len =
     (if input_len \<le> version_start + 8 then Some False
      else do {
        prefix \<leftarrow> request_bytes_are d request_index version_start [72, 84, 84, 80, 47, 49, 46];
        version_matches \<leftarrow> (if prefix
          then do { minor \<leftarrow> request_byte d request_index (version_start + 7); Some (minor = 48 \<or> minor = 49) }
          else Some False);
        if \<not> version_matches then Some False
        else do {
          terminator \<leftarrow> request_byte d request_index (version_start + 8);
          if terminator = 10 then Some True
          else if terminator = 13 \<and> version_start + 9 < input_len
          then do { b \<leftarrow> request_byte d request_index (version_start + 9); Some (b = 10) }
          else Some False } })"

definition invalid_target :: "u32 \<Rightarrow> request_target" where
  "invalid_target input_len = \<lparr>tg_path_start = 0, tg_path_len = 0, tg_query_start = 0, tg_query_len = 0,
     tg_path_hash = 0, tg_input_len = input_len, tg_valid = 0\<rparr>"

record target_scan =
  ts_cursor :: u32
  ts_path_hash :: u32
  ts_path_len :: u32
  ts_query_start :: u32
  ts_query_len :: u32
  ts_in_query :: bool

definition scan_byte :: "u32 \<Rightarrow> target_scan \<Rightarrow> target_scan" where
  "scan_byte byte s =
     (let s = (if \<not> ts_in_query s
        then (if byte = 63 then s\<lparr>ts_in_query := True, ts_query_start := ts_cursor s + 1\<rparr>
              else s\<lparr>ts_path_hash := (ts_path_hash s XOR byte) * FNV_PRIME, ts_path_len := ts_path_len s + 1\<rparr>)
        else s\<lparr>ts_query_len := ts_query_len s + 1\<rparr>)
      in s\<lparr>ts_cursor := ts_cursor s + 1\<rparr>)"

function scan_target :: "bindings \<Rightarrow> u32 \<Rightarrow> u32 \<Rightarrow> target_scan \<Rightarrow> (target_scan \<times> bool) option" where
  "scan_target d request_index input_len s =
     (if input_len \<le> ts_cursor s then Some (s, False)
      else do {
        byte \<leftarrow> request_byte d request_index (ts_cursor s);
        if byte = 32 then Some (s, True)
        else scan_target d request_index input_len (scan_byte byte s) })"
  by pat_completeness auto
termination
  by (relation "measure (\<lambda>(d, request_index, input_len, s). unat input_len - unat (ts_cursor s))")
    (auto simp: scan_byte_def Let_def not_le u32_next word_less_nat_alt)

definition parse_get_target :: "bindings \<Rightarrow> u32 \<Rightarrow> u32 \<Rightarrow> request_target option" where
  "parse_get_target d request_index input_len =
     (if input_len \<le> 4 then Some (invalid_target input_len)
      else do {
        b \<leftarrow> request_byte d request_index 4;
        if b \<noteq> 47 then Some (invalid_target input_len)
        else do {
          (s, found_target_end) \<leftarrow> scan_target d request_index input_len
            \<lparr>ts_cursor = 4, ts_path_hash = FNV_OFFSET_BASIS, ts_path_len = 0, ts_query_start = 0,
             ts_query_len = 0, ts_in_query = False\<rparr>;
          if \<not> found_target_end \<or> ts_path_len s = 0 then Some (invalid_target input_len)
          else do {
            supported \<leftarrow> has_supported_http_version d request_index (ts_cursor s + 1) input_len;
            if \<not> supported then Some (invalid_target input_len)
            else Some \<lparr>tg_path_start = 4, tg_path_len = ts_path_len s,
              tg_query_start = (if \<not> ts_in_query s then ts_cursor s else ts_query_start s),
              tg_query_len = ts_query_len s, tg_path_hash = ts_path_hash s,
              tg_input_len = input_len, tg_valid = 1\<rparr> } } })"

section \<open>Finding the route\<close>

text \<open>The word loop and the byte loop of \<open>route_matches\<close>; \<open>False\<close> is the early return.\<close>

function match_words :: "bindings \<Rightarrow> u32 \<Rightarrow> request_target \<Rightarrow> u32 \<Rightarrow> u32 \<Rightarrow> (bool \<times> u32) option" where
  "match_words d request_index tg string_id byte_index =
     (if 4 \<le> tg_path_len tg - byte_index
      then do {
        a \<leftarrow> request_word d request_index (tg_path_start tg + byte_index);
        b \<leftarrow> string_word d string_id byte_index;
        if a \<noteq> b then Some (False, byte_index) else match_words d request_index tg string_id (byte_index + 4) }
      else Some (True, byte_index))"
  by pat_completeness auto
termination
  by (relation "measure (\<lambda>(d, request_index, tg, string_id, byte_index). unat (tg_path_len tg - byte_index))")
    (auto simp: remaining_decreases)

function match_bytes :: "bindings \<Rightarrow> u32 \<Rightarrow> request_target \<Rightarrow> u32 \<Rightarrow> u32 \<Rightarrow> bool option" where
  "match_bytes d request_index tg string_id byte_index =
     (if byte_index < tg_path_len tg
      then do {
        a \<leftarrow> request_byte d request_index (tg_path_start tg + byte_index);
        b \<leftarrow> string_byte d string_id byte_index;
        if a \<noteq> b then Some False else match_bytes d request_index tg string_id (byte_index + 1) }
      else Some True)"
  by pat_completeness auto
termination
  by (relation "measure (\<lambda>(d, request_index, tg, string_id, byte_index). unat (tg_path_len tg) - unat byte_index)")
    (auto simp: word_less_nat_alt u32_next)

definition route_matches :: "bindings \<Rightarrow> u32 \<Rightarrow> request_target \<Rightarrow> u32 \<Rightarrow> bool option" where
  "route_matches d request_index tg route_index = do {
     h \<leftarrow> route_word d route_index ROUTE_PATH_HASH;
     if h \<noteq> tg_path_hash tg then Some False
     else do {
       len \<leftarrow> route_word d route_index ROUTE_PATH_LEN;
       if len \<noteq> tg_path_len tg then Some False
       else do {
         string_id \<leftarrow> route_word d route_index ROUTE_PATH_STRING;
         (same, i) \<leftarrow> match_words d request_index tg string_id 0;
         if \<not> same then Some False else match_bytes d request_index tg string_id i } } }"

lemma middle_between:
  assumes "lower < (upper :: u32)"
  shows "unat (lower + (upper - lower) div 2) = unat lower + (unat upper - unat lower) div 2"
    "lower + (upper - lower) div 2 < upper" "lower \<le> lower + (upper - lower) div 2"
proof -
  have l: "unat lower < unat upper" using assms by (simp add: word_less_nat_alt)
  have "unat ((upper - lower) div 2) = (unat upper - unat lower) div 2"
    using assms by (simp add: unat_div unat_sub less_imp_le)
  moreover have "unat lower + (unat upper - unat lower) div 2 < 4294967296"
    using l unsigned_less [of upper, where 'a = nat] by simp
  ultimately show m: "unat (lower + (upper - lower) div 2) = unat lower + (unat upper - unat lower) div 2"
    by (subst iffD1 [OF unat_add_lem]) simp_all
  show "lower + (upper - lower) div 2 < upper" "lower \<le> lower + (upper - lower) div 2"
    using m l by (simp_all add: word_less_nat_alt word_le_nat_alt)
qed

function lower_bound :: "bindings \<Rightarrow> u32 \<Rightarrow> u32 \<Rightarrow> u32 \<Rightarrow> u32 option" where
  "lower_bound d path_hash lower upper =
     (if lower < upper
      then do {
        let middle = lower + (upper - lower) div 2;
        route_hash \<leftarrow> route_word d middle ROUTE_PATH_HASH;
        if route_hash < path_hash then lower_bound d path_hash (middle + 1) upper
        else lower_bound d path_hash lower middle }
      else Some lower)"
  by pat_completeness auto
termination
proof (relation "measure (\<lambda>(d, path_hash, lower, upper). unat upper - unat lower)")
  fix d :: bindings and path_hash lower upper middle :: u32
  assume "lower < upper" and m: "middle = lower + (upper - lower) div 2"
  note b = middle_between [OF this(1), folded m]
  have "unat (middle + 1) = unat middle + 1" using b(2) by (rule u32_next)
  then show "((d, path_hash, middle + 1, upper), (d, path_hash, lower, upper)) \<in>
      measure (\<lambda>(d, path_hash, lower, upper). unat upper - unat lower)"
    using b(2,3) by (simp add: word_less_nat_alt word_le_nat_alt)
  show "((d, path_hash, lower, middle), (d, path_hash, lower, upper)) \<in>
      measure (\<lambda>(d, path_hash, lower, upper). unat upper - unat lower)"
    using b(2,3) by (simp add: word_less_nat_alt word_le_nat_alt)
qed simp

function scan_routes :: "bindings \<Rightarrow> u32 \<Rightarrow> request_target \<Rightarrow> u32 \<Rightarrow> u32 option" where
  "scan_routes d request_index tg route_index =
     (if pa_route_count (bi_params d) \<le> route_index then Some (pa_fallback_response_offset (bi_params d))
      else do {
        h \<leftarrow> route_word d route_index ROUTE_PATH_HASH;
        if h \<noteq> tg_path_hash tg then Some (pa_fallback_response_offset (bi_params d))
        else do {
          found \<leftarrow> route_matches d request_index tg route_index;
          if found then route_word d route_index ROUTE_RESPONSE_OFFSET
          else scan_routes d request_index tg (route_index + 1) } })"
  by pat_completeness auto
termination
  by (relation "measure (\<lambda>(d, request_index, tg, route_index). unat (pa_route_count (bi_params d)) - unat route_index)")
    (auto simp: not_le u32_next word_less_nat_alt)

definition find_response_offset :: "bindings \<Rightarrow> u32 \<Rightarrow> request_target \<Rightarrow> u32 option" where
  "find_response_offset d request_index tg = do {
     lower \<leftarrow> lower_bound d (tg_path_hash tg) 0 (pa_route_count (bi_params d));
     scan_routes d request_index tg lower }"

section \<open>Writing the response\<close>

definition body_op_len :: "bindings \<Rightarrow> request_target \<Rightarrow> u32 \<Rightarrow> u32 \<Rightarrow> u32 \<Rightarrow> u32 option" where
  "body_op_len d tg opcode arg_0 arg_1 =
     (if opcode = BODY_OP_LITERAL then map_option sm_byte_len (fetch (bi_string_meta d) arg_0)
      else if opcode = BODY_OP_PATH then Some (min (tg_path_len tg) arg_0)
      else if opcode = BODY_OP_QUERY then Some (min (tg_query_len tg) arg_0)
      else if opcode = BODY_OP_BACKEND then map_option sm_byte_len (fetch (bi_string_meta d) (id_backend_gpu (bi_ids d)))
      else if opcode = BODY_OP_REQUEST_BYTES then Some (decimal_width (tg_input_len tg))
      else if opcode = BODY_OP_PATH_HASH then Some (decimal_width (tg_path_hash tg))
      else if opcode = BODY_OP_BACKEND_VARIANT then map_option sm_byte_len (fetch (bi_string_meta d) arg_1)
      else Some 0)"

function body_len_loop :: "bindings \<Rightarrow> request_target \<Rightarrow> u32 \<Rightarrow> u32 \<Rightarrow> u32 \<Rightarrow> u32 \<Rightarrow> u32 option" where
  "body_len_loop d tg program_offset operation_count operation_index body_len =
     (if operation_index < operation_count
      then do {
        opcode \<leftarrow> body_op_word d program_offset operation_index BODY_OP_CODE;
        arg_0 \<leftarrow> body_op_word d program_offset operation_index BODY_OP_ARG_0;
        arg_1 \<leftarrow> body_op_word d program_offset operation_index BODY_OP_ARG_1;
        n \<leftarrow> body_op_len d tg opcode arg_0 arg_1;
        body_len_loop d tg program_offset operation_count (operation_index + 1) (body_len + n) }
      else Some body_len)"
  by pat_completeness auto
termination
  by (relation "measure (\<lambda>(d, tg, program_offset, operation_count, operation_index, body_len). unat operation_count - unat operation_index)")
    (auto simp: word_less_nat_alt u32_next)

definition response_body_len :: "bindings \<Rightarrow> u32 \<Rightarrow> request_target \<Rightarrow> u32 option" where
  "response_body_len d response_offset tg = do {
     program_offset \<leftarrow> response_word d response_offset RESPONSE_PROGRAM_OFFSET;
     operation_count \<leftarrow> response_word d response_offset RESPONSE_PROGRAM_LEN;
     body_len_loop d tg program_offset operation_count 0 0 }"

definition write_body_op :: "bindings \<Rightarrow> u32 \<Rightarrow> request_target \<Rightarrow> u32 \<Rightarrow> u32 \<Rightarrow> u32 \<Rightarrow> writing \<Rightarrow> writing option" where
  "write_body_op d request_index tg opcode arg_0 arg_1 st =
     (if opcode = BODY_OP_LITERAL then writer_push_string d arg_0 st
      else if opcode = BODY_OP_PATH
      then writer_push_request_range d request_index (tg_path_start tg) (min (tg_path_len tg) arg_0) st
      else if opcode = BODY_OP_QUERY
      then writer_push_request_range d request_index (tg_query_start tg) (min (tg_query_len tg) arg_0) st
      else if opcode = BODY_OP_BACKEND then writer_push_string d (id_backend_gpu (bi_ids d)) st
      else if opcode = BODY_OP_REQUEST_BYTES then writer_push_decimal d (tg_input_len tg) st
      else if opcode = BODY_OP_PATH_HASH then writer_push_decimal d (tg_path_hash tg) st
      else if opcode = BODY_OP_BACKEND_VARIANT then writer_push_string d arg_1 st
      else Some (writer_fail RESPONSE_FLAG_INVALID_PROGRAM (fst st), snd st))"

function write_body_loop :: "bindings \<Rightarrow> u32 \<Rightarrow> request_target \<Rightarrow> u32 \<Rightarrow> u32 \<Rightarrow> u32 \<Rightarrow> writing \<Rightarrow> writing option" where
  "write_body_loop d request_index tg program_offset operation_count operation_index st =
     (if operation_index < operation_count
      then do {
        opcode \<leftarrow> body_op_word d program_offset operation_index BODY_OP_CODE;
        arg_0 \<leftarrow> body_op_word d program_offset operation_index BODY_OP_ARG_0;
        arg_1 \<leftarrow> body_op_word d program_offset operation_index BODY_OP_ARG_1;
        st' \<leftarrow> write_body_op d request_index tg opcode arg_0 arg_1 st;
        write_body_loop d request_index tg program_offset operation_count (operation_index + 1) st' }
      else Some st)"
  by pat_completeness auto
termination
  by (relation "measure (\<lambda>(d, request_index, tg, program_offset, operation_count, operation_index, st).
      unat operation_count - unat operation_index)")
    (auto simp: word_less_nat_alt u32_next)

definition write_response_body :: "bindings \<Rightarrow> u32 \<Rightarrow> u32 \<Rightarrow> request_target \<Rightarrow> writing \<Rightarrow> writing option" where
  "write_response_body d request_index response_offset tg st = do {
     program_offset \<leftarrow> response_word d response_offset RESPONSE_PROGRAM_OFFSET;
     operation_count \<leftarrow> response_word d response_offset RESPONSE_PROGRAM_LEN;
     write_body_loop d request_index tg program_offset operation_count 0 st }"

definition write_response :: "bindings \<Rightarrow> u32 \<Rightarrow> u32 \<Rightarrow> request_target \<Rightarrow> shader_memory \<Rightarrow> shader_memory option" where
  "write_response d request_index response_offset tg mem = do {
     status \<leftarrow> response_word d response_offset RESPONSE_STATUS;
     reason_string_id \<leftarrow> response_word d response_offset RESPONSE_REASON_STRING;
     content_type_string_id \<leftarrow> response_word d response_offset RESPONSE_CONTENT_TYPE_STRING;
     body_len \<leftarrow> response_body_len d response_offset tg;
     let st = (writer_new request_index, mem_output_words mem);
     st \<leftarrow> writer_push_string d (id_http_version (bi_ids d)) st;
     st \<leftarrow> writer_push_decimal d status st;
     st \<leftarrow> writer_push_byte d 32 st;
     st \<leftarrow> writer_push_string d reason_string_id st;
     st \<leftarrow> writer_push_string d (id_header_content_type (bi_ids d)) st;
     st \<leftarrow> writer_push_string d content_type_string_id st;
     st \<leftarrow> writer_push_string d (id_header_content_length (bi_ids d)) st;
     st \<leftarrow> writer_push_decimal d body_len st;
     st \<leftarrow> writer_push_string d (id_header_tail (bi_ids d)) st;
     st \<leftarrow> write_response_body d request_index response_offset tg st;
     writer_finish d st status (mem_response_meta mem) }"

section \<open>The entry point\<close>

definition process_requests :: "bindings \<Rightarrow> u32 \<Rightarrow> shader_memory \<Rightarrow> shader_memory option" where
  "process_requests d request_index mem =
     (if pa_request_count (bi_params d) \<le> request_index then Some mem
      else do {
        m \<leftarrow> fetch (bi_request_meta d) request_index;
        let input_len = rq_input_len m;
        if input_len < 4
        then write_response d request_index (pa_bad_request_response_offset (bi_params d)) (invalid_target input_len) mem
        else do {
          get \<leftarrow> is_get_request d request_index input_len;
          if \<not> get
          then write_response d request_index (pa_method_not_allowed_response_offset (bi_params d)) (invalid_target input_len) mem
          else do {
            tg \<leftarrow> parse_get_target d request_index input_len;
            if tg_valid tg = 0
            then write_response d request_index (pa_bad_request_response_offset (bi_params d)) tg mem
            else do {
              response_offset \<leftarrow> find_response_offset d request_index tg;
              write_response d request_index response_offset tg mem } } } })"

text \<open>A dispatch runs one invocation for every global index, in some order.\<close>

fun dispatch_invocations :: "bindings \<Rightarrow> nat list \<Rightarrow> shader_memory \<Rightarrow> shader_memory option" where
  "dispatch_invocations d [] mem = Some mem"
| "dispatch_invocations d (i # order) mem = do { mem' \<leftarrow> process_requests d (of_nat i) mem; dispatch_invocations d order mem' }"

declare push_words.simps [simp del] push_bytes.simps [simp del] match_words.simps [simp del] match_bytes.simps [simp del]
  lower_bound.simps [simp del] scan_routes.simps [simp del] scan_target.simps [simp del] body_len_loop.simps [simp del]
  write_body_loop.simps [simp del] decimal_width_loop.simps [simp del] decimal_divisor.simps [simp del]

end
