(* ===== verification/HttpShaderIO.thy ===== *)
theory HttpShaderIO
  imports HttpShader
begin

text \<open>
  Reading and writing in the HTTP shader. \<open>reads\<close>: the word and byte readers deliver a byte
  string. \<open>wrote\<close>: the writer has put a byte string into its own slot of the output buffer, full
  words in memory and the rest pending, and has changed nothing outside. Every push appends.
\<close>

section \<open>Readers\<close>

definition reads :: "bytes \<Rightarrow> (u32 \<Rightarrow> u32 option) \<Rightarrow> (u32 \<Rightarrow> u32 option) \<Rightarrow> bool" where
  "reads bs get_word get_byte \<longleftrightarrow> length bs \<le> U32_MAX
     \<and> (\<forall>i. unat i < length bs \<longrightarrow> get_byte i = Some (ucast (bs ! unat i)))
     \<and> (\<forall>i. unat i + 4 \<le> length bs \<longrightarrow> get_word i = Some (le_val (take 4 (drop (unat i) bs))))"

lemma readsD:
  assumes "reads bs get_word get_byte"
  shows "length bs \<le> U32_MAX" "unat i < length bs \<Longrightarrow> get_byte i = Some (ucast (bs ! unat i))"
    "unat i + 4 \<le> length bs \<Longrightarrow> get_word i = Some (le_val (take 4 (drop (unat i) bs)))"
  using assms by (auto simp: reads_def)

text \<open>A byte string at an offset of a word buffer, read with the shifts of the shader.\<close>

definition byte_at :: "u32 list \<Rightarrow> u32 \<Rightarrow> u32 option" where
  "byte_at ws p = do { w \<leftarrow> fetch ws (p div 4); Some (drop_bit (unat ((p AND 3) * 8)) w AND 255) }"

definition word_at :: "u32 list \<Rightarrow> u32 \<Rightarrow> u32 option" where
  "word_at ws p = do {
     low \<leftarrow> fetch ws (p div 4);
     if (p AND 3) * 8 = 0 then Some low
     else do { high \<leftarrow> fetch ws (p div 4 + 1);
       Some (drop_bit (unat ((p AND 3) * 8)) low OR push_bit (unat (32 - (p AND 3) * 8)) high) } }"

lemma byte_at_bytes:
  assumes "unat p < 4 * length ws"
  shows "byte_at ws p = Some (ucast (words_to_bytes ws ! unat p))"
proof -
  have "unat p div 4 < length ws" using assms by linarith
  then show ?thesis using byte_from [OF assms] by (simp add: byte_at_def fetch_def index_def unat_div_4 shift_of)
qed

lemma word_at_bytes:
  assumes "unat p + 4 \<le> 4 * length ws"
  shows "word_at ws p = Some (le_val (take 4 (drop (unat p) (words_to_bytes ws))))"
proof -
  have k: "unat p div 4 < length ws" using assms by linarith
  show ?thesis
  proof (cases "unat p mod 4 = 0")
    case True
    then have "4 * (unat p div 4) = unat p" by presburger
    then show ?thesis using k word_of_bytes [OF k] True
      by (simp add: word_at_def fetch_def index_def unat_div_4 shift_zero)
  next
    case False
    have k2: "unat p div 4 + 1 < length ws" using False assms by presburger
    have "unat (p div 4 + 1) = unat p div 4 + 1"
      using unat_plus [of "p div 4" 1] unsigned_less [of p, where 'a = nat] by (simp add: unat_div_4 U32_MAX_def)
    then show ?thesis using k k2 False unaligned_word [OF False assms]
      by (simp add: word_at_def fetch_def index_def unat_div_4 shifts)
  qed
qed

lemma reads_at:
  assumes "unat off + length v \<le> 4 * length ws" "take (length v) (drop (unat off) (words_to_bytes ws)) = v"
    "unat off + length v \<le> U32_MAX"
  shows "reads v (\<lambda>i. word_at ws (off + i)) (\<lambda>i. byte_at ws (off + i))"
proof -
  have at: "unat (off + i) = unat off + unat i" if "unat i \<le> length v" for i
    using assms(3) that by (intro unat_plus) simp
  have "byte_at ws (off + i) = Some (ucast (v ! unat i))" if "unat i < length v" for i
  proof -
    have "words_to_bytes ws ! (unat off + unat i) = v ! unat i"
      using assms(1,2) that by (metis (no_types, lifting) le_add1 length_words_to_bytes nth_drop nth_take order.trans)
    then show ?thesis using that assms(1) by (simp add: byte_at_bytes at)
  qed
  moreover have "word_at ws (off + i) = Some (le_val (take 4 (drop (unat i) v)))" if "unat i + 4 \<le> length v" for i
  proof -
    have "take 4 (drop (unat i) (take (length v) (drop (unat off) (words_to_bytes ws)))) = take 4 (drop (unat off + unat i) (words_to_bytes ws))"
      using that by (simp add: drop_take min_def add.commute)
    then show ?thesis using that assms(1,2) by (simp add: word_at_bytes at)
  qed
  ultimately show ?thesis using assms(3) by (simp add: reads_def)
qed

lemma reads_sub:
  assumes "reads bs get_word get_byte" "unat start + n \<le> length bs"
  shows "reads (take n (drop (unat start) bs)) (\<lambda>i. get_word (start + i)) (\<lambda>i. get_byte (start + i))"
proof -
  have at: "unat (start + i) = unat start + unat i" if "unat i \<le> n" for i
    using assms(2) readsD(1) [OF assms(1)] that by (intro unat_plus) simp
  have len: "length (take n (drop (unat start) bs)) = n" using assms(2) by simp
  have "get_byte (start + i) = Some (ucast (take n (drop (unat start) bs) ! unat i))" if "unat i < n" for i
    using readsD(2) [OF assms(1), of "start + i"] assms(2) that by (simp add: at)
  moreover have "get_word (start + i) = Some (le_val (take 4 (drop (unat i) (take n (drop (unat start) bs)))))" if "unat i + 4 \<le> n" for i
    using readsD(3) [OF assms(1), of "start + i"] assms(2) that at [of i] by (simp add: drop_take min_def add.commute)
  ultimately show ?thesis using assms(2) readsD(1) [OF assms(1)] unfolding reads_def len by simp
qed

text \<open>A request at its word offset in the input buffer, a string at its metadata in the arena.\<close>

definition request_at :: "bindings \<Rightarrow> u32 \<Rightarrow> bytes \<Rightarrow> bool" where
  "request_at d r v \<longleftrightarrow> (\<exists>m. fetch (bi_request_meta d) r = Some m \<and> unat (rq_input_len m) = length v
     \<and> 4 * unat (rq_word_offset m) + length v \<le> 4 * length (bi_input_words d)
     \<and> length (bi_input_words d) \<le> U32_MAX \<and> length v \<le> U32_MAX
     \<and> take (length v) (drop (4 * unat (rq_word_offset m)) (words_to_bytes (bi_input_words d))) = v)"

lemma request_at_reads:
  assumes "request_at d r v"
  shows "reads v (request_word d r) (request_byte d r)"
proof -
  obtain m where m: "fetch (bi_request_meta d) r = Some m"
    and fit: "4 * unat (rq_word_offset m) + length v \<le> 4 * length (bi_input_words d)"
    and u: "length (bi_input_words d) \<le> U32_MAX" and len: "length v \<le> U32_MAX"
    and v: "take (length v) (drop (4 * unat (rq_word_offset m)) (words_to_bytes (bi_input_words d))) = v"
    using assms by (auto simp: request_at_def)
  let ?ws = "bi_input_words d" and ?o = "unat (rq_word_offset m)"
  have word: "unat (rq_word_offset m + i div 4) = ?o + unat i div 4" if "?o + unat i div 4 \<le> U32_MAX" for i
    using unat_plus [of "rq_word_offset m" "i div 4"] that by (simp add: unat_div_4)
  have pos: "(4 * ?o + k) div 4 = ?o + k div 4" "(4 * ?o + k) mod 4 = k mod 4" for k by simp_all
  have "request_byte d r i = Some (ucast (v ! unat i))" if i: "unat i < length v" for i
  proof -
    have "4 * ?o + unat i < 4 * length ?ws" using fit i by simp
    note b = byte_from [OF this, unfolded pos]
    have k: "?o + unat i div 4 < length ?ws" using fit i by linarith
    moreover have "words_to_bytes ?ws ! (4 * ?o + unat i) = v ! unat i"
      using fit v i by (metis (no_types, lifting) add.commute le_add2 length_words_to_bytes nth_drop nth_take order.trans)
    ultimately show ?thesis using b m u by (simp add: request_byte_def fetch_def [of ?ws] index_def word shift_of)
  qed
  moreover have "request_word d r i = Some (le_val (take 4 (drop (unat i) v)))" if i: "unat i + 4 \<le> length v" for i
  proof -
    have fits: "4 * ?o + unat i + 4 \<le> 4 * length ?ws" using fit i by simp
    then have k: "?o + unat i div 4 < length ?ws" by linarith
    have "take 4 (drop (unat i) (take (length v) (drop (4 * ?o) (words_to_bytes ?ws)))) = take 4 (drop (4 * ?o + unat i) (words_to_bytes ?ws))"
      using i by (simp add: drop_take min_def add.commute)
    then have bytes: "take 4 (drop (4 * ?o + unat i) (words_to_bytes ?ws)) = take 4 (drop (unat i) v)" by (simp only: v)
    show ?thesis
    proof (cases "unat i mod 4 = 0")
      case True
      then have "4 * (?o + unat i div 4) = 4 * ?o + unat i" by presburger
      then show ?thesis using k word_of_bytes [OF k] True m u bytes
        by (simp add: request_word_def fetch_def [of ?ws] index_def word shift_zero)
    next
      case False
      then have k2: "?o + unat i div 4 + 1 < length ?ws" using fits by presburger
      have "unat (rq_word_offset m + i div 4 + 1) = ?o + unat i div 4 + 1"
        using unat_plus [of "rq_word_offset m + i div 4" 1] k k2 u by (simp add: word)
      then show ?thesis using k k2 False unaligned_word [of "4 * ?o + unat i" ?ws, unfolded pos] m u bytes fits
        by (simp add: request_word_def fetch_def [of ?ws] index_def word shifts)
    qed
  qed
  ultimately show ?thesis using len by (simp add: reads_def)
qed

definition arena_string :: "bindings \<Rightarrow> u32 \<Rightarrow> bytes \<Rightarrow> bool" where
  "arena_string d i v \<longleftrightarrow> (\<exists>m. fetch (bi_string_meta d) i = Some m \<and> string_at (words_to_bytes (bi_string_words d)) m v
     \<and> unat (sm_byte_offset m) + length v \<le> U32_MAX)"

lemma arena_string_reads:
  assumes "arena_string d i v"
  shows "reads v (string_word d i) (string_byte d i)"
proof -
  obtain m where m: "fetch (bi_string_meta d) i = Some m" and at: "string_at (words_to_bytes (bi_string_words d)) m v"
    and u: "unat (sm_byte_offset m) + length v \<le> U32_MAX"
    using assms by (auto simp: arena_string_def)
  have "string_word d i = (\<lambda>j. word_at (bi_string_words d) (sm_byte_offset m + j))"
    by (rule ext) (simp add: string_word_def word_at_def m Let_def)
  moreover have "string_byte d i = (\<lambda>j. byte_at (bi_string_words d) (sm_byte_offset m + j))"
    by (rule ext) (simp add: string_byte_def byte_at_def m Let_def)
  moreover have "reads v (\<lambda>j. word_at (bi_string_words d) (sm_byte_offset m + j)) (\<lambda>j. byte_at (bi_string_words d) (sm_byte_offset m + j))"
    using at u by (intro reads_at) (simp_all add: string_at_def)
  ultimately show ?thesis by simp
qed

section \<open>The writer\<close>

abbreviation stride_of :: "bindings \<Rightarrow> nat" where
  "stride_of d \<equiv> unat (pa_response_stride_words (bi_params d))"

text \<open>Slot \<open>r\<close> lies inside the output buffer and its indices do not wrap.\<close>

definition slot_in :: "bindings \<Rightarrow> nat \<Rightarrow> u32 list \<Rightarrow> bool" where
  "slot_in d r out \<longleftrightarrow> (r + 1) * stride_of d \<le> length out \<and> length out \<le> U32_MAX \<and> stride_of d * 4 \<le> U32_MAX \<and> r \<le> U32_MAX"

definition wrote :: "bindings \<Rightarrow> nat \<Rightarrow> u32 list \<Rightarrow> bytes \<Rightarrow> writing \<Rightarrow> bool" where
  "wrote d r out0 bs st \<longleftrightarrow> (case st of (w, out) \<Rightarrow>
     wr_request_index w = of_nat r \<and> wr_flags w = 0 \<and> unat (wr_cursor w) = length bs \<and> length bs \<le> 4 * stride_of d
     \<and> wr_pending w = le_val (drop (4 * (length bs div 4)) bs) \<and> length out = length out0
     \<and> (\<forall>j<length bs div 4. out ! (r * stride_of d + j) = le_val (take 4 (drop (4 * j) bs)))
     \<and> (\<forall>j<length out0. j < r * stride_of d \<or> (r + 1) * stride_of d \<le> j \<longrightarrow> out ! j = out0 ! j))"

lemma wrote_new: "slot_in d r out \<Longrightarrow> wrote d r out [] (writer_new (of_nat r), out)"
  by (simp add: wrote_def writer_new_def)

lemma slot_index:
  assumes "slot_in d r out0" "k < stride_of d"
  shows "unat (of_nat r * pa_response_stride_words (bi_params d) + of_nat k) = r * stride_of d + k"
proof -
  have b: "r * stride_of d + k \<le> U32_MAX" "r \<le> U32_MAX" using assms by (simp_all add: slot_in_def)
  have mul: "unat (of_nat r * pa_response_stride_words (bi_params d)) = r * stride_of d"
  proof -
    have "unat (of_nat r * pa_response_stride_words (bi_params d)) = unat (of_nat r :: u32) * stride_of d"
      using b by (intro iffD1 [OF unat_mult_lem]) (simp add: unat_of_nat_u32 U32_MAX_def)
    then show ?thesis using b by (simp add: unat_of_nat_u32)
  qed
  have "k \<le> U32_MAX" using b by simp
  then have k: "unat (of_nat k :: u32) = k" by (rule unat_of_nat_u32)
  show ?thesis by (subst unat_plus) (simp_all only: mul k b)
qed

lemma capacity: "slot_in d r out0 \<Longrightarrow> unat (pa_response_stride_words (bi_params d) * 4) = 4 * stride_of d"
  by (subst iffD1 [OF unat_mult_lem]) (simp_all add: slot_in_def U32_MAX_def)

text \<open>Storing the word that completes full words of the slot.\<close>

lemma wrote_store:
  assumes s: "slot_in d r out0" and w: "wrote d r out0 bs (w, out)" and k: "length bs div 4 < stride_of d"
    and new: "4 * (length bs div 4 + 1) \<le> length (bs @ ys)" "length (bs @ ys) < 4 * (length bs div 4 + 2)"
    and v: "v = le_val (drop (4 * (length bs div 4)) (bs @ ys))"
    and room: "length (bs @ ys) \<le> 4 * stride_of d"
    and i: "unat i = r * stride_of d + length bs div 4"
    and cur: "unat c = length (bs @ ys)" and p: "p = le_val (drop (4 * (length bs div 4 + 1)) (bs @ ys))"
  shows "\<exists>out'. store out i v = Some out' \<and> wrote d r out0 (bs @ ys) (w\<lparr>wr_cursor := c, wr_pending := p\<rparr>, out')"
proof -
  let ?k = "length bs div 4"
  have div: "length (bs @ ys) div 4 = ?k + 1" using new by (intro div_nat_eqI) simp_all
  have len: "length out = length out0" using w by (simp add: wrote_def)
  have idx: "r * stride_of d + ?k < length out" using s k len by (simp add: slot_in_def)
  have old: "take 4 (drop (4 * j) (bs @ ys)) = take 4 (drop (4 * j) bs)" if "j < ?k" for j
  proof -
    have "4 * j + 4 \<le> length bs" using that by linarith
    then show ?thesis by simp
  qed
  define out1 where "out1 = out[r * stride_of d + ?k := v]"
  have st: "store out i v = Some out1" using idx by (simp add: store_def i set_at_list_update out1_def)
  have "out1 ! (r * stride_of d + j) = le_val (take 4 (drop (4 * j) (bs @ ys)))" if "j < ?k + 1" for j
  proof (cases "j = ?k")
    case True
    then show ?thesis using idx v by (simp only: le_val_take) (simp add: out1_def)
  next
    case False
    then have "j < ?k" using that by simp
    then show ?thesis using w old by (simp add: wrote_def out1_def)
  qed
  moreover have "out1 ! j = out0 ! j" if "j < length out0" "j < r * stride_of d \<or> (r + 1) * stride_of d \<le> j" for j
    using w that k by (auto simp: wrote_def nth_list_update out1_def)
  moreover have "wr_request_index w = of_nat r" "wr_flags w = 0" using w by (simp_all add: wrote_def)
  moreover have "length out1 = length out0" using len by (simp add: out1_def)
  ultimately have "wrote d r out0 (bs @ ys) (w\<lparr>wr_cursor := c, wr_pending := p\<rparr>, out1)"
    using cur p room by (simp add: wrote_def div del: length_append drop_append take_append)
  then show ?thesis using st by blast
qed

lemma writer_push_byte_wrote:
  assumes s: "slot_in d r out0" and w: "wrote d r out0 bs st" and room: "length bs < 4 * stride_of d"
  shows "\<exists>st'. writer_push_byte d (ucast (b :: u8)) st = Some st' \<and> wrote d r out0 (bs @ [b]) st'"
proof -
  obtain wr out where st: "st = (wr, out)" by force
  have f: "wr_flags wr = 0" "wr_request_index wr = of_nat r" "unat (wr_cursor wr) = length bs"
    "wr_pending wr = le_val (drop (4 * (length bs div 4)) bs)" using w by (simp_all add: wrote_def st)
  let ?k = "length bs div 4" and ?x = "drop (4 * (length bs div 4)) bs"
  have small: "length bs + 1 \<le> U32_MAX" using room s by (simp add: slot_in_def)
  have cap: "\<not> pa_response_stride_words (bi_params d) * 4 \<le> wr_cursor wr"
    using room f(3) capacity [OF s] by (simp add: word_le_nat_alt)
  have cur: "unat (wr_cursor wr + 1) = length bs + 1" using unat_plus [of "wr_cursor wr" 1] small f(3) by simp
  have low: "ucast b AND 255 = (ucast b :: u32)" using le_val_low [of "[b]"] by simp
  have xlen: "length ?x = length bs mod 4" by (simp add: minus_mult_div_eq_mod)
  have pend: "wr_pending wr OR push_bit (unat ((wr_cursor wr AND 3) * 8)) (ucast b AND 255) = le_val (drop (4 * ?k) (bs @ [b]))"
    using le_val_append [of ?x "[b]"] xlen by (simp add: f(3,4) shift_of low)
  have full: "wr_cursor wr + 1 AND 3 = 0 \<longleftrightarrow> (length bs + 1) mod 4 = 0"
    using and_3 [of "wr_cursor wr + 1"] cur by (metis unat_eq_zero)
  show ?thesis
  proof (cases "(length bs + 1) mod 4 = 0")
    case True
    have "4 * (?k + 1) = length bs + 1" using True by presburger
    then have k: "(length bs + 1) div 4 = ?k + 1" by presburger
    have below: "?k < stride_of d" using room by (simp add: less_mult_imp_div_less mult.commute)
    have "(wr_cursor wr + 1) div 4 = of_nat (?k + 1)"
      using arg_cong [OF unat_div_4 [of "wr_cursor wr + 1", unfolded cur k], of "of_nat :: nat \<Rightarrow> u32"] by simp
    then have "of_nat r * pa_response_stride_words (bi_params d) + (wr_cursor wr + 1) div 4 - 1
        = of_nat r * pa_response_stride_words (bi_params d) + of_nat ?k" by simp
    note i = slot_index [OF s below, folded this]
    from wrote_store [OF s w [unfolded st] below, of "[b]" _ _ "wr_cursor wr + 1" 0, OF _ _ refl _ i] True room \<open>4 * (?k + 1) = length bs + 1\<close>
    obtain out' where "store out (of_nat r * pa_response_stride_words (bi_params d) + (wr_cursor wr + 1) div 4 - 1)
        (le_val (drop (4 * ?k) (bs @ [b]))) = Some out'"
      "wrote d r out0 (bs @ [b]) (wr\<lparr>wr_cursor := wr_cursor wr + 1, wr_pending := 0\<rparr>, out')"
      using cur by auto
    then show ?thesis using True full cap f pend by (simp add: writer_push_byte_def st Let_def)
  next
    case False
    then have k: "(length bs + 1) div 4 = ?k" by presburger
    have "wrote d r out0 (bs @ [b]) (wr\<lparr>wr_cursor := wr_cursor wr + 1, wr_pending := le_val (drop (4 * ?k) (bs @ [b]))\<rparr>, out)"
    proof -
      have "take 4 (drop (4 * j) (bs @ [b])) = take 4 (drop (4 * j) bs)" if "j < ?k" for j
      proof -
        have "4 * j + 4 \<le> length bs" using that by linarith
        then show ?thesis by simp
      qed
      then show ?thesis using w room cur k by (simp add: wrote_def st)
    qed
    then show ?thesis using False full cap f(1) pend by (simp add: writer_push_byte_def st Let_def)
  qed
qed

lemma writer_push_word_wrote:
  assumes s: "slot_in d r out0" and w: "wrote d r out0 bs st" and len: "length xs = 4"
    and room: "length bs + 4 \<le> 4 * stride_of d"
  shows "\<exists>st'. writer_push_word d (le_val xs) st = Some st' \<and> wrote d r out0 (bs @ xs) st'"
proof -
  obtain wr out where st: "st = (wr, out)" by force
  have f: "wr_flags wr = 0" "wr_request_index wr = of_nat r" "unat (wr_cursor wr) = length bs"
    "wr_pending wr = le_val (drop (4 * (length bs div 4)) bs)" using w by (simp_all add: wrote_def st)
  let ?k = "length bs div 4" and ?m = "length bs mod 4" and ?x = "drop (4 * (length bs div 4)) bs"
  have small: "length bs + 4 \<le> U32_MAX" using room s by (simp add: slot_in_def)
  have cur: "unat (wr_cursor wr + 4) = length (bs @ xs)"
    using unat_plus [of "wr_cursor wr" 4] small f(3) len by simp
  have "wr_cursor wr \<le> pa_response_stride_words (bi_params d) * 4"
    using room f(3) capacity [OF s] by (simp add: word_le_nat_alt)
  then have "unat (pa_response_stride_words (bi_params d) * 4 - wr_cursor wr) = 4 * stride_of d - length bs"
    using capacity [OF s] f(3) by (simp add: unat_sub)
  then have cap: "\<not> pa_response_stride_words (bi_params d) * 4 - wr_cursor wr < 4"
    using room by (simp add: word_less_nat_alt)
  have xlen: "length ?x = ?m" by (simp add: minus_mult_div_eq_mod)
  have pend: "wr_pending wr OR push_bit (unat ((wr_cursor wr AND 3) * 8)) (le_val xs) = le_val (drop (4 * ?k) (bs @ xs))"
    using le_val_append [of ?x xs] xlen by (simp add: f(3,4) shift_of)
  have bound: "4 * ?k + ?m = length bs" "?m < 4" by simp_all
  have kk: "4 * (?k + 1) = length bs + (4 - ?m)" by presburger
  have rest: "drop (4 * (?k + 1)) (bs @ xs) = drop (4 - ?m) xs" unfolding kk by simp
  have below: "?k < stride_of d" using room by (simp add: less_mult_imp_div_less mult.commute)
  have p: "(if (wr_cursor wr AND 3) * 8 \<noteq> 0 then drop_bit (unat (32 - (wr_cursor wr AND 3) * 8)) (le_val xs) else 0)
      = le_val (drop (4 * (?k + 1)) (bs @ xs))"
    unfolding rest using drop_bit_le_val [of xs "4 - ?m"] len bound(2) by (auto simp: shifts f(3) diff_mult_distrib2)
  have wc: "wr_cursor wr div 4 = of_nat ?k"
    using arg_cong [OF unat_div_4 [of "wr_cursor wr", unfolded f(3)], of "of_nat :: nat \<Rightarrow> u32"] by simp
  have i: "unat (of_nat r * pa_response_stride_words (bi_params d) + wr_cursor wr div 4) = r * stride_of d + ?k"
    unfolding wc by (rule slot_index [OF s below])
  have "4 * (?k + 1) \<le> length (bs @ xs)" "length (bs @ xs) < 4 * (?k + 2)" "length (bs @ xs) \<le> 4 * stride_of d"
    using len bound room by simp_all
  from wrote_store [OF s w [unfolded st] below this(1,2) refl this(3) i cur refl]
  show ?thesis using cap f(1,2) pend p by (auto simp: writer_push_word_def st Let_def)
qed

lemma push_bytes_wrote:
  assumes s: "slot_in d r out0" and v: "reads v get_word get_byte"
  shows "wrote d r out0 (bs @ take (unat i) v) st \<Longrightarrow> unat i \<le> length v \<Longrightarrow> length bs + length v \<le> 4 * stride_of d
    \<Longrightarrow> \<exists>st'. push_bytes d get_byte (of_nat (length v)) i st = Some st' \<and> wrote d r out0 (bs @ v) st'"
proof (induction "length v - unat i" arbitrary: i st)
  case 0
  have "unat (of_nat (length v) :: u32) = length v" using readsD(1) [OF v] by (rule unat_of_nat_u32)
  then show ?case using 0 by (subst push_bytes.simps) (simp add: word_less_nat_alt)
next
  case (Suc n)
  have len: "unat (of_nat (length v) :: u32) = length v" using readsD(1) [OF v] by (rule unat_of_nat_u32)
  have i: "unat i < length v" using Suc.hyps(2) by simp
  then have lt: "i < of_nat (length v)" by (simp add: word_less_nat_alt len)
  note i' = u32_next [OF lt]
  obtain st1 where st1: "writer_push_byte d (ucast (v ! unat i)) st = Some st1"
    "wrote d r out0 ((bs @ take (unat i) v) @ [v ! unat i]) st1"
    using writer_push_byte_wrote [OF s Suc.prems(1), of "v ! unat i"] Suc.prems(3) i by auto
  have "wrote d r out0 (bs @ take (unat (i + 1)) v) st1" using st1(2) i by (simp add: i' take_Suc_conv_app_nth)
  moreover have "n = length v - unat (i + 1)" "unat (i + 1) \<le> length v" using Suc.hyps(2) i by (simp_all add: i')
  ultimately obtain st2 where "push_bytes d get_byte (of_nat (length v)) (i + 1) st1 = Some st2" "wrote d r out0 (bs @ v) st2"
    using Suc.hyps(1) [of "i + 1" st1] Suc.prems(3) by blast
  then show ?case using lt st1(1) readsD(2) [OF v i] by (subst push_bytes.simps) simp
qed

lemma push_words_wrote:
  assumes s: "slot_in d r out0" and v: "reads v get_word get_byte"
  shows "wrote d r out0 (bs @ take (unat i) v) st \<Longrightarrow> unat i \<le> length v \<Longrightarrow> length bs + length v \<le> 4 * stride_of d
    \<Longrightarrow> \<exists>i' st'. push_words d get_word (of_nat (length v)) i st = Some (i', st')
      \<and> wrote d r out0 (bs @ take (unat i') v) st' \<and> unat i' \<le> length v"
proof (induction "length v - unat i" arbitrary: i st rule: less_induct)
  case less
  have len: "unat (of_nat (length v) :: u32) = length v" using readsD(1) [OF v] by (rule unat_of_nat_u32)
  then have rem: "unat (of_nat (length v) - i) = length v - unat i"
    using less.prems(2) by (simp add: unat_sub word_le_nat_alt)
  show ?case
  proof (cases "unat i + 4 \<le> length v")
    case True
    have more: "4 \<le> of_nat (length v) - i" using True by (simp add: word_le_nat_alt rem)
    have i': "unat (i + 4) = unat i + 4" using unat_plus [of i 4] True readsD(1) [OF v] by simp
    have four: "length (take 4 (drop (unat i) v)) = 4" using True by simp
    obtain st1 where st1: "writer_push_word d (le_val (take 4 (drop (unat i) v))) st = Some st1"
      "wrote d r out0 ((bs @ take (unat i) v) @ take 4 (drop (unat i) v)) st1"
      using writer_push_word_wrote [OF s less.prems(1) four] less.prems(3) True by auto
    have "wrote d r out0 (bs @ take (unat (i + 4)) v) st1" using st1(2) by (simp add: i' take_add)
    moreover have "length v - unat (i + 4) < length v - unat i" "unat (i + 4) \<le> length v" using True by (simp_all add: i')
    ultimately obtain j st2 where "push_words d get_word (of_nat (length v)) (i + 4) st1 = Some (j, st2)"
      "wrote d r out0 (bs @ take (unat j) v) st2" "unat j \<le> length v"
      using less.hyps [of "i + 4" st1] less.prems(3) by blast
    then show ?thesis using more st1(1) readsD(3) [OF v True] by (subst push_words.simps) simp
  next
    case False
    then have "\<not> 4 \<le> of_nat (length v) - i" by (simp add: word_le_nat_alt rem)
    then show ?thesis using less.prems by (subst push_words.simps) simp
  qed
qed

lemma push_range_wrote:
  assumes "slot_in d r out0" "reads v get_word get_byte" "wrote d r out0 bs st" "length bs + length v \<le> 4 * stride_of d"
  shows "\<exists>st'. do { (i, st) \<leftarrow> push_words d get_word (of_nat (length v)) 0 st; push_bytes d get_byte (of_nat (length v)) i st } = Some st'
    \<and> wrote d r out0 (bs @ v) st'"
  using push_words_wrote [OF assms(1,2), of bs 0 st] push_bytes_wrote [OF assms(1,2), of bs] assms(3,4) by fastforce

lemma writer_push_string_wrote:
  assumes "slot_in d r out0" "arena_string d i v" "wrote d r out0 bs st" "length bs + length v \<le> 4 * stride_of d"
  shows "\<exists>st'. writer_push_string d i st = Some st' \<and> wrote d r out0 (bs @ v) st'"
proof -
  obtain m where m: "fetch (bi_string_meta d) i = Some m" "unat (sm_byte_len m) = length v"
    using assms(2) by (auto simp: arena_string_def string_at_def)
  have "of_nat (length v) = sm_byte_len m" using arg_cong [OF m(2), of "of_nat :: nat \<Rightarrow> u32"] by simp
  then show ?thesis using push_range_wrote [OF assms(1) arena_string_reads [OF assms(2)] assms(3,4)] m(1)
    by (simp add: writer_push_string_def)
qed

lemma writer_push_request_range_wrote:
  assumes "slot_in d r out0" "reads req (request_word d i) (request_byte d i)" "wrote d r out0 bs st"
    "unat start + unat n \<le> length req" "length bs + unat n \<le> 4 * stride_of d"
  shows "\<exists>st'. writer_push_request_range d i start n st = Some st'
    \<and> wrote d r out0 (bs @ take (unat n) (drop (unat start) req)) st'"
proof -
  have "length (take (unat n) (drop (unat start) req)) = unat n" using assms(4) by simp
  then show ?thesis using push_range_wrote [OF assms(1) reads_sub [OF assms(2,4)] assms(3)] assms(5)
    by (simp add: writer_push_request_range_def)
qed

section \<open>Decimal numbers\<close>

lemma ilog10_iff: "0 < k \<Longrightarrow> 10 ^ k \<le> n \<longleftrightarrow> k \<le> ilog10 n"
proof (induction n arbitrary: k rule: ilog10.induct)
  case (1 n)
  obtain j where k: "k = Suc j" using 1(2) by (cases k) auto
  show ?case
  proof (cases "n < 10")
    case True
    have "n < 10 ^ k" using True le_trans [of 10 "10 * 10 ^ j" n] by (auto simp: k not_le [symmetric])
    then show ?thesis using True 1(2) by (simp add: ilog10.simps)
  next
    case False
    have "10 ^ k \<le> n \<longleftrightarrow> 10 ^ j \<le> n div 10" by (simp add: k less_eq_div_iff_mult_less_eq mult.commute)
    also have "\<dots> \<longleftrightarrow> j \<le> ilog10 (n div 10)" using 1(1) [OF False, of j] False by (cases "j = 0") auto
    finally show ?thesis using False by (simp add: k ilog10.simps [of n])
  qed
qed

definition digits_from :: "nat \<Rightarrow> nat \<Rightarrow> bytes" where
  "digits_from k n = map (\<lambda>j. of_nat (48 + n div 10 ^ j mod 10)) (rev [0..<Suc k])"

lemma digits_from_Suc: "digits_from (Suc k) n = of_nat (48 + n div 10 ^ Suc k mod 10) # digits_from k n"
  by (simp add: digits_from_def)

lemma digits_from_last: "digits_from (Suc k) n = digits_from k (n div 10) @ [of_nat (48 + n mod 10)]"
proof (induction k)
  case 0
  then show ?case by (simp add: digits_from_def)
next
  case (Suc k)
  have "n div 10 ^ Suc (Suc k) = n div 10 div 10 ^ Suc k" by (simp only: power_Suc [of 10 "Suc k"] div_mult2_eq)
  then show ?case using Suc digits_from_Suc [of "Suc k" n] digits_from_Suc [of k "n div 10"] by simp
qed

lemma decimal_digits_from: "decimal n = digits_from (ilog10 n) n"
proof (induction n rule: decimal.induct)
  case (1 n)
  show ?case
  proof (cases "n < 10")
    case True
    then show ?thesis by (simp add: decimal.simps ilog10.simps digits_from_def)
  next
    case False
    then show ?thesis using 1 digits_from_last [of "ilog10 (n div 10)" n] decimal.simps [of n] ilog10.simps [of n] by simp
  qed
qed

lemma decimal_divisor_power:
  "unat m = 10 ^ k \<Longrightarrow> k \<le> ilog10 (unat v) \<Longrightarrow> unat (decimal_divisor v m) = 10 ^ ilog10 (unat v)"
proof (induction v m arbitrary: k rule: decimal_divisor.induct)
  case (1 v m)
  have more: "10 \<le> v div m \<longleftrightarrow> k + 1 \<le> ilog10 (unat v)"
    using ilog10_iff [of "k + 1" "unat v"] 1(2)
    by (simp add: word_le_nat_alt unat_div less_eq_div_iff_mult_less_eq mult.commute)
  show ?case
  proof (cases "10 \<le> v div m")
    case True
    then have "unat (m * 10) = 10 ^ (k + 1)" using times_10_below(2) [OF True] 1(2) by simp
    then show ?thesis using 1(1) [OF True, of "k + 1"] True more by (subst decimal_divisor.simps) simp
  next
    case False
    then have "k = ilog10 (unat v)" using more 1(3) by simp
    then show ?thesis using False 1(2) by (subst decimal_divisor.simps) simp
  qed
qed

lemma digit_word: "48 + (v div m) mod 10 = (ucast (of_nat (48 + unat v div unat m mod 10) :: u8) :: u32)"
proof -
  have a: "unat (v div m mod 10) = unat v div unat m mod 10" by (simp add: unat_div unat_mod_distrib)
  have "unat (48 + v div m mod 10) = 48 + unat v div unat m mod 10"
    using unat_plus [of 48 "v div m mod 10"] unfolding a by (simp add: U32_MAX_def)
  moreover have "48 + n mod 10 < (256 :: nat)" for n by presburger
  then have "unat (of_nat (48 + unat v div unat m mod 10) :: u8) = 48 + unat v div unat m mod 10"
    by (simp add: unsigned_of_nat take_bit_eq_mod del: of_nat_add)
  then have "unat (ucast (of_nat (48 + unat v div unat m mod 10) :: u8) :: u32) = 48 + unat v div unat m mod 10"
    by (simp add: unsigned_ucast_eq take_bit_eq_mod del: of_nat_add)
  ultimately show ?thesis by (simp only: word_unat_eq_iff)
qed

lemma push_digits_wrote:
  assumes s: "slot_in d r out0"
  shows "wrote d r out0 bs st \<Longrightarrow> unat m = 10 ^ k \<Longrightarrow> length bs + k + 1 \<le> 4 * stride_of d
    \<Longrightarrow> \<exists>st'. push_digits d v m st = Some st' \<and> wrote d r out0 (bs @ digits_from k (unat v)) st'"
proof (induction k arbitrary: bs st m)
  case 0
  then have m: "m = 1" by (simp add: word_unat_eq_iff)
  obtain st1 where "writer_push_byte d (48 + v div m mod 10) st = Some st1"
    "wrote d r out0 (bs @ digits_from 0 (unat v)) st1"
    using writer_push_byte_wrote [OF s 0(1), of "of_nat (48 + unat v div unat m mod 10)"] 0
    by (auto simp: digit_word digits_from_def simp del: of_nat_add)
  then show ?case by (subst push_digits.simps) (simp add: m)
next
  case (Suc k)
  then have m: "m \<noteq> 1" by (auto simp: word_unat_eq_iff)
  have next_m: "unat (m div 10) = 10 ^ k" using Suc.prems(2) by (simp add: unat_div)
  obtain st1 where st1: "writer_push_byte d (48 + v div m mod 10) st = Some st1"
    "wrote d r out0 (bs @ [of_nat (48 + unat v div 10 ^ Suc k mod 10)]) st1"
    using writer_push_byte_wrote [OF s Suc.prems(1), of "of_nat (48 + unat v div unat m mod 10)"] Suc.prems(2,3)
    by (auto simp: digit_word simp del: of_nat_add)
  from Suc.IH [OF this(2) next_m] Suc.prems(3) obtain st2 where "push_digits d v (m div 10) st1 = Some st2"
    "wrote d r out0 (bs @ digits_from (Suc k) (unat v)) st2" by (auto simp: digits_from_Suc)
  then show ?case using st1(1) m by (subst push_digits.simps) simp
qed

lemma ilog10_decimal: "length (decimal n) = ilog10 n + 1"
  by (simp add: decimal_digits_from digits_from_def)

lemma writer_push_decimal_wrote:
  assumes "slot_in d r out0" "wrote d r out0 bs st" "length bs + length (decimal (unat v)) \<le> 4 * stride_of d"
  shows "\<exists>st'. writer_push_decimal d v st = Some st' \<and> wrote d r out0 (bs @ decimal (unat v)) st'"
  using push_digits_wrote [OF assms(1,2) decimal_divisor_power [of 1 0 v], of v] assms(3)
  by (simp add: writer_push_decimal_def decimal_digits_from [symmetric] ilog10_decimal)

lemma decimal_width_loop_ilog: "decimal_width_loop n w = w + of_nat (ilog10 (unat n))"
proof (induction n w rule: decimal_width_loop.induct)
  case (1 n w)
  have lt: "unat n < 10 \<longleftrightarrow> \<not> 10 \<le> n" by (simp add: word_le_nat_alt not_le)
  show ?case
  proof (cases "10 \<le> n")
    case True
    then show ?thesis using 1 [OF True] ilog10.simps [of "unat n"] lt
      by (subst decimal_width_loop.simps) (simp add: unat_div)
  next
    case False
    then show ?thesis using ilog10.simps [of "unat n"] lt by (subst decimal_width_loop.simps) simp
  qed
qed

lemma decimal_width_length: "decimal_width v = of_nat (length (decimal (unat v)))"
  by (simp add: decimal_width_def decimal_width_loop_ilog ilog10_decimal)

section \<open>The finished slot\<close>

lemma u32_to_le_nth:
  assumes "length xs \<le> 4" "m < length xs"
  shows "u32_to_le (le_val xs) ! m = xs ! m"
proof -
  have z: "le_val (replicate n 0) = 0" for n by (induction n) simp_all
  have "le_val (xs @ replicate (4 - length xs) 0) = le_val xs" by (simp add: le_val_append z)
  moreover have "length (xs @ replicate (4 - length xs) 0) = 4" using assms(1) by simp
  ultimately have "u32_to_le (le_val xs) = xs @ replicate (4 - length xs) 0" using u32_to_le_le_val by metis
  then show ?thesis using assms(2) by (simp add: nth_append)
qed

lemma slot_bytes:
  assumes "\<forall>j. 4 * j < length bs \<longrightarrow> out ! (base + j) = le_val (take 4 (drop (4 * j) bs))"
    "4 * base + length bs \<le> 4 * length out"
  shows "take (length bs) (drop (4 * base) (words_to_bytes out)) = bs"
proof (rule nth_equalityI)
  show "length (take (length bs) (drop (4 * base) (words_to_bytes out))) = length bs" using assms(2) by simp
  fix p assume "p < length (take (length bs) (drop (4 * base) (words_to_bytes out)))"
  then have p: "p < length bs" by simp
  let ?j = "p div 4" and ?m = "p mod 4"
  have pos: "4 * base + p = 4 * (base + ?j) + ?m" "4 * ?j + ?m = p" by simp_all
  have j: "base + ?j < length out" using assms(2) p by linarith
  have "?m < length bs - 4 * ?j" using p pos(2) by linarith
  then have m: "?m < length (take 4 (drop (4 * ?j) bs))" by simp
  have "take (length bs) (drop (4 * base) (words_to_bytes out)) ! p = words_to_bytes out ! (4 * base + p)"
    using p assms(2) by simp
  also have "\<dots> = u32_to_le (out ! (base + ?j)) ! ?m" unfolding pos by (rule words_to_bytes_nth [OF j]) simp
  also have "out ! (base + ?j) = le_val (take 4 (drop (4 * ?j) bs))" using assms(1) p pos(2) by (metis le_add1 order.strict_trans1)
  also have "u32_to_le (le_val (take 4 (drop (4 * ?j) bs))) ! ?m = take 4 (drop (4 * ?j) bs) ! ?m"
    using m by (intro u32_to_le_nth) simp_all
  also have "\<dots> = bs ! p" using p pos(2) by simp
  finally show "take (length bs) (drop (4 * base) (words_to_bytes out)) ! p = bs ! p" .
qed

text \<open>\<open>answered\<close>: request \<open>r\<close> has its answer in the response metadata and in its slot; nothing else changed.\<close>

definition answered :: "bindings \<Rightarrow> nat \<Rightarrow> bytes \<Rightarrow> shader_memory \<Rightarrow> shader_memory \<Rightarrow> bool" where
  "answered d r bs mem mem' \<longleftrightarrow>
     (\<exists>status. mem_response_meta mem' = (mem_response_meta mem)
        [r := \<lparr>rs_output_len = of_nat (length bs), rs_status = status, rs_flags = 0\<rparr>])
     \<and> length bs \<le> 4 * stride_of d
     \<and> length (mem_output_words mem') = length (mem_output_words mem)
     \<and> take (length bs) (drop (4 * (r * stride_of d)) (words_to_bytes (mem_output_words mem'))) = bs
     \<and> (\<forall>j<length (mem_output_words mem). j < r * stride_of d \<or> (r + 1) * stride_of d \<le> j
          \<longrightarrow> mem_output_words mem' ! j = mem_output_words mem ! j)"

lemma writer_finish_answered:
  assumes s: "slot_in d r (mem_output_words mem)" and w: "wrote d r (mem_output_words mem) bs st"
    and r: "r < length (mem_response_meta mem)"
  shows "\<exists>mem'. writer_finish d st status (mem_response_meta mem) = Some mem' \<and> answered d r bs mem mem'"
proof -
  obtain wr out where st: "st = (wr, out)" by force
  let ?S = "stride_of d" and ?k = "length bs div 4" and ?out0 = "mem_output_words mem"
  have f: "wr_flags wr = 0" "wr_request_index wr = of_nat r" "unat (wr_cursor wr) = length bs" "length out = length ?out0"
    "wr_pending wr = le_val (drop (4 * ?k) bs)" "length bs \<le> 4 * ?S"
    and full: "\<forall>j<?k. out ! (r * ?S + j) = le_val (take 4 (drop (4 * j) bs))"
    and outside: "\<forall>j<length ?out0. j < r * ?S \<or> (r + 1) * ?S \<le> j \<longrightarrow> out ! j = ?out0 ! j"
    using w by (simp_all add: wrote_def st)
  have ur: "unat (of_nat r :: u32) = r" using s by (intro unat_of_nat_u32) (simp add: slot_in_def)
  define metas where "metas = (mem_response_meta mem)[r := \<lparr>rs_output_len = wr_cursor wr, rs_status = status, rs_flags = 0\<rparr>]"
  have metas: "store (mem_response_meta mem) (wr_request_index wr) \<lparr>rs_output_len = wr_cursor wr, rs_status = status, rs_flags = 0\<rparr> = Some metas"
    using r by (simp add: store_def f(2) ur set_at_list_update metas_def)
  have cur: "of_nat (length bs) = wr_cursor wr" using arg_cong [OF f(3), of "of_nat :: nat \<Rightarrow> u32"] by simp
  have part: "wr_cursor wr AND 3 \<noteq> 0 \<longleftrightarrow> length bs mod 4 \<noteq> 0"
    using and_3 [of "wr_cursor wr"] f(3) by (metis unat_eq_zero)
  have fits: "4 * (r * ?S) + length bs \<le> 4 * length out" using s f(4,6) by (simp add: slot_in_def)
  show ?thesis
  proof (cases "length bs mod 4 = 0")
    case True
    then have "4 * j < length bs \<longrightarrow> j < ?k" for j by presburger
    then have "take (length bs) (drop (4 * (r * ?S)) (words_to_bytes out)) = bs"
      using full fits by (intro slot_bytes) auto
    then have "answered d r bs mem \<lparr>mem_response_meta = metas, mem_output_words = out\<rparr>"
      using f outside by (auto simp: answered_def metas_def cur)
    then show ?thesis using part True metas f(1) by (simp add: writer_finish_def st)
  next
    case False
    then have j: "4 * j < length bs \<longrightarrow> j < ?k \<or> j = ?k" for j by presburger
    have below: "?k < ?S" using f(6) False by presburger
    have wc: "wr_cursor wr div 4 = of_nat ?k"
      using arg_cong [OF unat_div_4 [of "wr_cursor wr", unfolded f(3)], of "of_nat :: nat \<Rightarrow> u32"] by simp
    define out' where "out' = out[r * ?S + ?k := wr_pending wr]"
    have idx: "r * ?S + ?k < length out" using s below f(4) by (simp add: slot_in_def)
    have "store out (wr_request_index wr * pa_response_stride_words (bi_params d) + wr_cursor wr div 4) (wr_pending wr) = Some out'"
      using idx unfolding store_def f(2) wc slot_index [OF s below] by (simp add: set_at_list_update out'_def)
    moreover have "take (length bs) (drop (4 * (r * ?S)) (words_to_bytes out')) = bs"
    proof (rule slot_bytes)
      have "out' ! (r * ?S + i) = le_val (take 4 (drop (4 * i) bs))" if "4 * i < length bs" for i
        using j [of i] that full idx le_val_take [of "drop (4 * ?k) bs"] f(5) by (auto simp: out'_def)
      then show "\<forall>i. 4 * i < length bs \<longrightarrow> out' ! (r * ?S + i) = le_val (take 4 (drop (4 * i) bs))" by blast
      show "4 * (r * ?S) + length bs \<le> 4 * length out'" using fits by (simp add: out'_def)
    qed
    moreover have "\<forall>i<length ?out0. i < r * ?S \<or> (r + 1) * ?S \<le> i \<longrightarrow> out' ! i = ?out0 ! i"
      using outside below by (auto simp: out'_def nth_list_update)
    ultimately have "answered d r bs mem \<lparr>mem_response_meta = metas, mem_output_words = out'\<rparr>"
      using f by (auto simp: answered_def metas_def cur out'_def)
    then show ?thesis using part False metas f(1)
        \<open>store out (wr_request_index wr * pa_response_stride_words (bi_params d) + wr_cursor wr div 4) (wr_pending wr) = Some out'\<close>
      by (simp add: writer_finish_def st)
  qed
qed

end
