(* ===== verification/HttpShaderRender.thy ===== *)
theory HttpShaderRender
  imports HttpShaderIO
begin

text \<open>
  The shader renders a compiled response: on buffers that hold the compiled router and a request,
  \<open>write_response\<close> puts the bytes of the declared response for the GPU backend into the slot.
\<close>

section \<open>Header values of a compiled router\<close>

definition valid_headers :: "response \<Rightarrow> bool" where
  "valid_headers r \<longleftrightarrow> validate_header_value (status_reason (r_status r)) = ok () \<and> validate_header_value (r_content_type r) = ok ()"

lemma compile_response_valid: "compile_response st r = ok res \<Longrightarrow> valid_headers r"
  by (cases res) (auto simp: compile_response_def and_then_ok_iff valid_headers_def validate_status_def split: if_splits)

lemma compile_routes_valid: "compile_routes st prs seen rs = ok res \<Longrightarrow> (p, r) \<in> set prs \<Longrightarrow> valid_headers r"
proof (induction prs arbitrary: st seen rs)
  case (Cons pr prs)
  then show ?case by (cases pr) (auto simp: and_then_ok_iff split: if_splits dest: compile_response_valid)
qed simp

lemma compile_valid_headers:
  assumes "compile rt = ok c"
  shows "(p, r) \<in> set (rt_routes rt) \<Longrightarrow> valid_headers r" "valid_headers (rt_fallback rt)"
    "valid_headers (rt_bad_request rt)" "valid_headers (rt_method_not_allowed rt)"
proof -
  from assms obtain st0 st1 rs st2 st3 st4 where
    rts: "compile_routes st0 (rt_routes rt) {} [] = ok (st1, rs)"
    and fb: "compile_response st1 (rt_fallback rt) = ok (st2, k_fallback c)"
    and br: "compile_response st2 (rt_bad_request rt) = ok (st3, k_bad_request c)"
    and mna: "compile_response st3 (rt_method_not_allowed rt) = ok (st4, k_method_not_allowed c)"
    by (rule compile_stages)
  show "(p, r) \<in> set (rt_routes rt) \<Longrightarrow> valid_headers r" using rts by (rule compile_routes_valid)
  show "valid_headers (rt_fallback rt)" using fb by (rule compile_response_valid)
  show "valid_headers (rt_bad_request rt)" using br by (rule compile_response_valid)
  show "valid_headers (rt_method_not_allowed rt)" using mna by (rule compile_response_valid)
qed

lemma header_tail_invalid: "validate_header_value HEADER_TAIL \<noteq> ok ()"
  by (simp add: validate_header_value_def HEADER_TAIL_def CRLF_def is_ascii_control_def)

section \<open>Loaded buffers\<close>

definition tail_free_segment :: "body_segment \<Rightarrow> bool" where
  "tail_free_segment s \<longleftrightarrow> (case s of Literal v \<Rightarrow> v \<noteq> HEADER_TAIL | BackendVariant cpu gpu \<Rightarrow> gpu \<noteq> HEADER_TAIL | _ \<Rightarrow> True)"

definition tail_free :: "response \<Rightarrow> bool" where
  "tail_free r \<longleftrightarrow> list_all tail_free_segment (r_body r)"

definition loaded :: "bindings \<Rightarrow> compiled_router \<Rightarrow> bool" where
  "loaded d c \<longleftrightarrow> bi_router_words d = k_words c \<and> bi_ids d = k_ids c
     \<and> pa_route_count (bi_params d) = route_count (k_layout c)
     \<and> pa_fallback_response_offset (bi_params d) = fallback_response_offset (k_layout c)
     \<and> pa_bad_request_response_offset (bi_params d) = bad_request_response_offset (k_layout c)
     \<and> pa_method_not_allowed_response_offset (bi_params d) = method_not_allowed_response_offset (k_layout c)
     \<and> (\<forall>i v. index (arena_strings c) (unat i) = Some v \<longrightarrow> arena_string d i v)"

text \<open>\<open>strings_for\<close>: the string table of the compiler with the shader's own strings.\<close>

definition strings_for :: "compiled_router \<Rightarrow> string_table \<Rightarrow> bool" where
  "strings_for c st \<longleftrightarrow> k_strings c = st_values st
     \<and> st_get st (id_http_version (k_ids c)) = Some (ascii ''HTTP/1.1 '')
     \<and> st_get st (id_header_content_type (k_ids c)) = Some (CRLF @ ascii ''Content-Type: '')
     \<and> st_get st (id_header_content_length (k_ids c)) = Some (CRLF @ ascii ''Content-Length: '')
     \<and> st_get st (id_header_tail (k_ids c)) = Some HEADER_TAIL
     \<and> st_get st (id_backend_gpu (k_ids c)) = Some (ascii ''gpu'')"

lemma loaded_string:
  assumes "loaded d c" "strings_for c st" "st_get st i = Some v" "v \<noteq> HEADER_TAIL"
  shows "arena_string d i v"
proof -
  have "i \<noteq> id_header_tail (k_ids c)" using assms(2-4) by (auto simp: strings_for_def)
  then have "unat i \<noteq> unat (id_header_tail (k_ids c))" by (simp add: word_unat_eq_iff)
  then have "index (arena_strings c) (unat i) = Some v"
    using assms(2,3) by (auto simp: arena_strings_def strings_for_def st_get_def index_def split: if_splits)
  then show ?thesis using assms(1) by (simp add: loaded_def)
qed

lemma loaded_tail:
  assumes "loaded d c" "strings_for c st"
  shows "arena_string d (id_header_tail (k_ids c)) PERSISTENT_GPU_HEADER_TAIL"
proof -
  have "unat (id_header_tail (k_ids c)) < length (k_strings c)"
    using assms(2) by (auto simp: strings_for_def st_get_def index_def split: if_splits)
  then have "index (arena_strings c) (unat (id_header_tail (k_ids c))) = Some PERSISTENT_GPU_HEADER_TAIL"
    by (simp add: arena_strings_def index_def)
  then show ?thesis using assms(1) by (simp add: loaded_def)
qed

lemma header_strings_differ:
  "ascii ''HTTP/1.1 '' \<noteq> HEADER_TAIL" "CRLF @ ascii ''Content-Type: '' \<noteq> HEADER_TAIL"
  "CRLF @ ascii ''Content-Length: '' \<noteq> HEADER_TAIL" "ascii ''gpu'' \<noteq> HEADER_TAIL"
  by (rule notI, drule arg_cong [of _ _ length], simp add: HEADER_TAIL_def CRLF_def)+

section \<open>Body operations\<close>

text \<open>The target the shader parsed and the parts of the request agree.\<close>

definition target_for :: "bytes \<Rightarrow> request_target \<Rightarrow> request_parts \<Rightarrow> bool" where
  "target_for req tg parts \<longleftrightarrow> unat (tg_input_len tg) = length req \<and> tg_path_hash tg = q_path_hash parts
     \<and> unat (tg_path_start tg) + unat (tg_path_len tg) \<le> length req
     \<and> q_path parts = take (unat (tg_path_len tg)) (drop (unat (tg_path_start tg)) req)
     \<and> unat (tg_query_start tg) + unat (tg_query_len tg) \<le> length req
     \<and> q_query parts = take (unat (tg_query_len tg)) (drop (unat (tg_query_start tg)) req)"

lemma unat_min: "unat (min a b :: u32) = min (unat a) (unat b)"
  by (simp add: min_def word_le_nat_alt)

lemma seg_code_reads:
  assumes "represents st s k"
  shows "\<exists>opcode a b. seg_code k = [opcode, a, b]
    \<and> (case s of
        Literal v \<Rightarrow> opcode = BODY_OP_LITERAL \<and> st_get st a = Some v
      | Path n \<Rightarrow> opcode = BODY_OP_PATH \<and> unat a = n
      | Query n \<Rightarrow> opcode = BODY_OP_QUERY \<and> unat a = n
      | Backend \<Rightarrow> opcode = BODY_OP_BACKEND
      | RequestBytes \<Rightarrow> opcode = BODY_OP_REQUEST_BYTES
      | PathHash \<Rightarrow> opcode = BODY_OP_PATH_HASH
      | BackendVariant cpu gpu \<Rightarrow> opcode = BODY_OP_BACKEND_VARIANT \<and> st_get st b = Some gpu)"
  using assms by (cases s) (auto simp: represents_def seg_code_def unat_of_nat_u32)

lemmas opcodes = BODY_OP_LITERAL_def BODY_OP_PATH_def BODY_OP_QUERY_def BODY_OP_BACKEND_def BODY_OP_REQUEST_BYTES_def
  BODY_OP_PATH_HASH_def BODY_OP_BACKEND_VARIANT_def

lemma arena_string_len: "arena_string d i v \<Longrightarrow> map_option sm_byte_len (fetch (bi_string_meta d) i) = Some (of_nat (length v))"
proof -
  assume "arena_string d i v"
  then obtain m where m: "fetch (bi_string_meta d) i = Some m" "unat (sm_byte_len m) = length v"
    by (auto simp: arena_string_def string_at_def)
  have "of_nat (length v) = sm_byte_len m" using arg_cong [OF m(2), of "of_nat :: nat \<Rightarrow> u32"] by simp
  then show ?thesis using m(1) by simp
qed

lemma body_op_len_segment:
  assumes "loaded d c" "strings_for c st" "represents st s k" "tail_free_segment s" "target_for req tg parts"
    "seg_code k = [opcode, a, b]"
  shows "body_op_len d tg opcode a b = Some (of_nat (length (segment_bytes parts (length req) (ascii ''gpu'') s)))"
proof -
  note str = arena_string_len [OF loaded_string [OF assms(1,2)]]
  have len: "unat z = n \<Longrightarrow> z = of_nat n" for z :: u32 and n
    by (drule sym) simp
  have gpu: "fetch (bi_string_meta d) (id_backend_gpu (bi_ids d)) \<noteq> None
    \<and> map_option sm_byte_len (fetch (bi_string_meta d) (id_backend_gpu (bi_ids d))) = Some (of_nat (length (ascii ''gpu'')))"
    using str [of "id_backend_gpu (k_ids c)" "ascii ''gpu''"] assms(1,2) header_strings_differ(4)
    by (auto simp: loaded_def strings_for_def)
  show ?thesis
  proof (cases s)
    case (Literal v)
    then show ?thesis using seg_code_reads [OF assms(3)] assms(4,6) str [of a v]
      by (auto simp: body_op_len_def opcodes segment_bytes_def tail_free_segment_def)
  next
    case (Path n)
    have "unat (min (tg_path_len tg) a) = length (take n (q_path parts))"
      using seg_code_reads [OF assms(3)] assms(5,6) Path by (auto simp: target_for_def unat_min)
    from len [OF this] show ?thesis using seg_code_reads [OF assms(3)] assms(6) Path
      by (auto simp: body_op_len_def opcodes segment_bytes_def)
  next
    case (Query n)
    have "unat (min (tg_query_len tg) a) = length (take n (q_query parts))"
      using seg_code_reads [OF assms(3)] assms(5,6) Query by (auto simp: target_for_def unat_min)
    from len [OF this] show ?thesis using seg_code_reads [OF assms(3)] assms(6) Query
      by (auto simp: body_op_len_def opcodes segment_bytes_def)
  next
    case Backend
    then show ?thesis using seg_code_reads [OF assms(3)] assms(6) gpu
      by (auto simp: body_op_len_def opcodes segment_bytes_def)
  next
    case RequestBytes
    then show ?thesis using seg_code_reads [OF assms(3)] assms(5,6)
      by (auto simp: body_op_len_def opcodes segment_bytes_def decimal_width_length target_for_def)
  next
    case PathHash
    then show ?thesis using seg_code_reads [OF assms(3)] assms(5,6)
      by (auto simp: body_op_len_def opcodes segment_bytes_def decimal_width_length target_for_def)
  next
    case (BackendVariant cpu gpu)
    then show ?thesis using seg_code_reads [OF assms(3)] assms(4,6) str [of b gpu]
      by (auto simp: body_op_len_def opcodes segment_bytes_def tail_free_segment_def)
  qed
qed

lemma write_body_op_segment:
  assumes "loaded d c" "strings_for c st" "represents st s k" "tail_free_segment s" "target_for req tg parts"
    "seg_code k = [opcode, a, b]" "slot_in d r out0" "reads req (request_word d i) (request_byte d i)"
    "wrote d r out0 bs w" "length bs + length (segment_bytes parts (length req) (ascii ''gpu'') s) \<le> 4 * stride_of d"
  shows "\<exists>w'. write_body_op d i tg opcode a b w = Some w'
    \<and> wrote d r out0 (bs @ segment_bytes parts (length req) (ascii ''gpu'') s) w'"
proof -
  note str = writer_push_string_wrote [OF assms(7) loaded_string [OF assms(1,2)] assms(9)]
  note dec = writer_push_decimal_wrote [OF assms(7,9)]
  show ?thesis
  proof (cases s)
    case (Literal v)
    then show ?thesis using seg_code_reads [OF assms(3)] assms(4,6,10) str [of a v]
      by (auto simp: write_body_op_def opcodes segment_bytes_def tail_free_segment_def)
  next
    case (Path n)
    have n: "unat a = n" "opcode = BODY_OP_PATH" using seg_code_reads [OF assms(3)] assms(6) Path by auto
    have "take (unat (min (tg_path_len tg) a)) (drop (unat (tg_path_start tg)) req) = take n (q_path parts)"
      using assms(5) by (simp add: target_for_def unat_min n min.commute)
    then show ?thesis using writer_push_request_range_wrote [OF assms(7-9), of "tg_path_start tg" "min (tg_path_len tg) a"] assms(5,10)
      by (auto simp: write_body_op_def opcodes segment_bytes_def Path n unat_min target_for_def)
  next
    case (Query n)
    have n: "unat a = n" "opcode = BODY_OP_QUERY" using seg_code_reads [OF assms(3)] assms(6) Query by auto
    have "take (unat (min (tg_query_len tg) a)) (drop (unat (tg_query_start tg)) req) = take n (q_query parts)"
      using assms(5) by (simp add: target_for_def unat_min n min.commute)
    then show ?thesis using writer_push_request_range_wrote [OF assms(7-9), of "tg_query_start tg" "min (tg_query_len tg) a"] assms(5,10)
      by (auto simp: write_body_op_def opcodes segment_bytes_def Query n unat_min target_for_def)
  next
    case Backend
    then show ?thesis using seg_code_reads [OF assms(3)] assms(1,2,6,10) str [of "id_backend_gpu (k_ids c)" "ascii ''gpu''"]
        header_strings_differ(4)
      by (auto simp: write_body_op_def opcodes segment_bytes_def loaded_def strings_for_def)
  next
    case RequestBytes
    then show ?thesis using seg_code_reads [OF assms(3)] assms(5,6,10) dec [of "tg_input_len tg"]
      by (auto simp: write_body_op_def opcodes segment_bytes_def target_for_def)
  next
    case PathHash
    then show ?thesis using seg_code_reads [OF assms(3)] assms(5,6,10) dec [of "tg_path_hash tg"]
      by (auto simp: write_body_op_def opcodes segment_bytes_def target_for_def)
  next
    case (BackendVariant cpu gpu)
    then show ?thesis using seg_code_reads [OF assms(3)] assms(4,6,10) str [of b gpu]
      by (auto simp: write_body_op_def opcodes segment_bytes_def tail_free_segment_def)
  qed
qed

section \<open>The program of a response\<close>

lemma seg_codes_nth:
  "j < length segs \<Longrightarrow> f < 3 \<Longrightarrow> concat (map seg_code segs) ! (3 * j + f) = seg_code (segs ! j) ! f"
proof (induction segs arbitrary: j)
  case (Cons s segs)
  then show ?case by (cases j) (simp_all add: nth_append)
qed simp

lemma response_field:
  assumes "code_at (bi_router_words d) n r" "length (bi_router_words d) \<le> U32_MAX" "f < 5"
  shows "response_word d (of_nat n) (of_nat f) = Some ([ucast (c_status r), c_reason r, c_content_type r, of_nat (n + 5), of_nat (length (c_segments r))] ! f)"
proof -
  have "n + f < length (bi_router_words d)" "bi_router_words d ! (n + f) = response_code n r ! f"
    using assms(1,3) by (auto simp: code_at_def response_code_def)
  moreover have "response_code n r ! f = [ucast (c_status r), c_reason r, c_content_type r, of_nat (n + 5), of_nat (length (c_segments r))] ! f"
    using assms(3) by (simp add: response_code_def nth_append del: append_Cons append_Nil of_nat_add)
  ultimately show ?thesis using fetch_nat [of "n + f" "bi_router_words d"] assms(2)
    by (simp add: response_word_def del: of_nat_add) (simp add: of_nat_add)
qed

lemma body_op_field:
  assumes "code_at (bi_router_words d) n r" "length (bi_router_words d) \<le> U32_MAX" "j < length (c_segments r)" "f < 3"
  shows "body_op_word d (of_nat (n + 5)) (of_nat j) (of_nat f) = Some (seg_code (c_segments r ! j) ! f)"
proof -
  let ?codes = "concat (map seg_code (c_segments r))"
  have k: "3 * j + f < length ?codes" using assms(3,4) by (simp add: length_seg_codes)
  then have lt: "5 + (3 * j + f) < length (response_code n r)" by (simp add: response_code_def)
  have "n + (5 + (3 * j + f)) < length (bi_router_words d)" using k assms(1) by (simp add: code_at_def response_code_def)
  moreover have "bi_router_words d ! (n + (5 + (3 * j + f))) = response_code n r ! (5 + (3 * j + f))"
    using assms(1) lt unfolding code_at_def by blast
  moreover have "response_code n r ! (5 + (3 * j + f)) = seg_code (c_segments r ! j) ! f"
    using seg_codes_nth [OF assms(3,4)] by (simp add: response_code_def nth_append)
  moreover have "(of_nat (n + 5) + of_nat j * of_nat BODY_OP_WORDS + of_nat f :: u32) = of_nat (n + (5 + (3 * j + f)))"
    by (simp add: BODY_OP_WORDS_def)
  ultimately show ?thesis using fetch_nat [of "n + (5 + (3 * j + f))" "bi_router_words d"] assms(2)
    by (simp only: body_op_word_def)
qed

definition gpu_body :: "bytes \<Rightarrow> request_parts \<Rightarrow> body \<Rightarrow> bytes" where
  "gpu_body req parts b = concat (map (segment_bytes parts (length req) (ascii ''gpu'')) b)"

text \<open>What \<open>write_response\<close> relies on: the response \<open>rp\<close> is compiled to \<open>cr\<close> at word \<open>n\<close>.\<close>

definition response_loaded :: "bindings \<Rightarrow> compiled_router \<Rightarrow> string_table \<Rightarrow> nat \<Rightarrow> response \<Rightarrow> compiled_response \<Rightarrow> bool" where
  "response_loaded d c st n rp cr \<longleftrightarrow> loaded d c \<and> strings_for c st \<and> length (k_words c) \<le> U32_MAX
     \<and> code_at (k_words c) n cr \<and> represents_response st rp cr \<and> tail_free rp \<and> valid_headers rp"

lemma loaded_ops:
  assumes "response_loaded d c st n rp cr" "j < length (c_segments cr)"
  shows "\<exists>opcode a b. seg_code (c_segments cr ! j) = [opcode, a, b]
    \<and> body_op_word d (of_nat (n + 5)) (of_nat j) BODY_OP_CODE = Some opcode
    \<and> body_op_word d (of_nat (n + 5)) (of_nat j) BODY_OP_ARG_0 = Some a
    \<and> body_op_word d (of_nat (n + 5)) (of_nat j) BODY_OP_ARG_1 = Some b
    \<and> represents st (r_body rp ! j) (c_segments cr ! j) \<and> tail_free_segment (r_body rp ! j) \<and> j < length (r_body rp)"
proof -
  have rep: "list_all2 (represents st) (r_body rp) (c_segments cr)" and w: "bi_router_words d = k_words c"
    using assms(1) by (simp_all add: response_loaded_def represents_response_def loaded_def)
  have len: "length (r_body rp) = length (c_segments cr)" using rep by (rule list_all2_lengthD)
  have seg: "represents st (r_body rp ! j) (c_segments cr ! j)" using rep assms(2) len by (simp add: list_all2_nthD)
  obtain opcode a b where code: "seg_code (c_segments cr ! j) = [opcode, a, b]" using seg_code_reads [OF seg] by blast
  note field = body_op_field [of d n cr j, unfolded w, OF _ _ assms(2)]
  have "body_op_word d (of_nat (n + 5)) (of_nat j) (of_nat f) = Some ([opcode, a, b] ! f)" if "f < 3" for f
    using field [OF _ _ that] assms(1) by (simp add: response_loaded_def code)
  from this [of 0] this [of 1] this [of 2] show ?thesis using seg code assms len
    by (auto simp: response_loaded_def tail_free_def list_all_length)
qed

lemma body_len_loop_closed:
  assumes l: "response_loaded d c st n rp cr" and t: "target_for req tg parts"
  shows "j \<le> length (c_segments cr) \<Longrightarrow> body_len_loop d tg (of_nat (n + 5)) (of_nat (length (c_segments cr))) (of_nat j) acc
    = Some (acc + of_nat (length (gpu_body req parts (drop j (r_body rp)))))"
proof (induction "length (c_segments cr) - j" arbitrary: j acc)
  case 0
  have "length (r_body rp) = length (c_segments cr)"
    using l list_all2_lengthD by (auto simp: response_loaded_def represents_response_def)
  then show ?case using 0 by (subst body_len_loop.simps) (simp add: gpu_body_def)
next
  case (Suc m)
  then have j: "j < length (c_segments cr)" by simp
  have ld: "loaded d c" "strings_for c st" using l by (simp_all add: response_loaded_def)
  have small: "length (c_segments cr) \<le> U32_MAX" using l by (simp add: response_loaded_def code_at_def addressable_def)
  then have lt: "(of_nat j :: u32) < of_nat (length (c_segments cr))"
    using j by (simp add: word_less_nat_alt unat_of_nat_u32)
  obtain opcode a b where ops: "seg_code (c_segments cr ! j) = [opcode, a, b]"
    "body_op_word d (of_nat (n + 5)) (of_nat j) BODY_OP_CODE = Some opcode"
    "body_op_word d (of_nat (n + 5)) (of_nat j) BODY_OP_ARG_0 = Some a"
    "body_op_word d (of_nat (n + 5)) (of_nat j) BODY_OP_ARG_1 = Some b"
    and seg: "represents st (r_body rp ! j) (c_segments cr ! j)" "tail_free_segment (r_body rp ! j)" "j < length (r_body rp)"
    using loaded_ops [OF l j] by blast
  let ?s = "segment_bytes parts (length req) (ascii ''gpu'') (r_body rp ! j)"
  have "body_op_len d tg opcode a b = Some (of_nat (length ?s))"
    by (rule body_op_len_segment [OF ld seg(1,2) t ops(1)])
  moreover have "gpu_body req parts (drop j (r_body rp)) = ?s @ gpu_body req parts (drop (Suc j) (r_body rp))"
    using seg(3) by (simp add: gpu_body_def flip: Cons_nth_drop_Suc)
  moreover have "body_len_loop d tg (of_nat (n + 5)) (of_nat (length (c_segments cr))) (of_nat (Suc j)) (acc + of_nat (length ?s))
      = Some (acc + of_nat (length ?s) + of_nat (length (gpu_body req parts (drop (Suc j) (r_body rp)))))"
    using Suc.hyps(2) j by (intro Suc.hyps(1)) simp_all
  ultimately show ?case using lt ops by (subst body_len_loop.simps) (simp add: ac_simps)
qed

lemma write_body_loop_closed:
  assumes l: "response_loaded d c st n rp cr" and t: "target_for req tg parts"
    and s: "slot_in d r out0" and req: "reads req (request_word d i) (request_byte d i)"
  shows "j \<le> length (c_segments cr) \<Longrightarrow> wrote d r out0 bs w
    \<Longrightarrow> length bs + length (gpu_body req parts (drop j (r_body rp))) \<le> 4 * stride_of d
    \<Longrightarrow> \<exists>w'. write_body_loop d i tg (of_nat (n + 5)) (of_nat (length (c_segments cr))) (of_nat j) w = Some w'
      \<and> wrote d r out0 (bs @ gpu_body req parts (drop j (r_body rp))) w'"
proof (induction "length (c_segments cr) - j" arbitrary: j bs w)
  case 0
  have "length (r_body rp) = length (c_segments cr)"
    using l list_all2_lengthD by (auto simp: response_loaded_def represents_response_def)
  then show ?case using 0 by (subst write_body_loop.simps) (simp add: gpu_body_def)
next
  case (Suc m)
  then have j: "j < length (c_segments cr)" by simp
  have ld: "loaded d c" "strings_for c st" using l by (simp_all add: response_loaded_def)
  have small: "length (c_segments cr) \<le> U32_MAX" using l by (simp add: response_loaded_def code_at_def addressable_def)
  then have lt: "(of_nat j :: u32) < of_nat (length (c_segments cr))"
    using j by (simp add: word_less_nat_alt unat_of_nat_u32)
  obtain opcode a b where ops: "seg_code (c_segments cr ! j) = [opcode, a, b]"
    "body_op_word d (of_nat (n + 5)) (of_nat j) BODY_OP_CODE = Some opcode"
    "body_op_word d (of_nat (n + 5)) (of_nat j) BODY_OP_ARG_0 = Some a"
    "body_op_word d (of_nat (n + 5)) (of_nat j) BODY_OP_ARG_1 = Some b"
    and seg: "represents st (r_body rp ! j) (c_segments cr ! j)" "tail_free_segment (r_body rp ! j)" "j < length (r_body rp)"
    using loaded_ops [OF l j] by blast
  let ?s = "segment_bytes parts (length req) (ascii ''gpu'') (r_body rp ! j)"
  have body: "gpu_body req parts (drop j (r_body rp)) = ?s @ gpu_body req parts (drop (Suc j) (r_body rp))"
    using seg(3) by (simp add: gpu_body_def flip: Cons_nth_drop_Suc)
  obtain w1 where w1: "write_body_op d i tg opcode a b w = Some w1" "wrote d r out0 (bs @ ?s) w1"
    using write_body_op_segment [OF ld seg(1,2) t ops(1) s req Suc.prems(2)] Suc.prems(3)
    by (auto simp: body)
  have "\<exists>w'. write_body_loop d i tg (of_nat (n + 5)) (of_nat (length (c_segments cr))) (of_nat (Suc j)) w1 = Some w'
      \<and> wrote d r out0 ((bs @ ?s) @ gpu_body req parts (drop (Suc j) (r_body rp))) w'"
    using Suc.hyps(2) j w1(2) Suc.prems(3) by (intro Suc.hyps(1)) (simp_all add: body)
  then show ?case using lt ops w1(1) unfolding body by (subst write_body_loop.simps) (simp add: add.commute)
qed

section \<open>A whole response\<close>

lemma gpu_response_bytes:
  "response_bytes rp parts (length req) (ascii ''gpu'') =
     ascii ''HTTP/1.1 '' @ decimal (unat (status_code (r_status rp))) @ [32] @ status_reason (r_status rp)
     @ (CRLF @ ascii ''Content-Type: '') @ r_content_type rp @ (CRLF @ ascii ''Content-Length: '')
     @ decimal (length (gpu_body req parts (r_body rp))) @ PERSISTENT_GPU_HEADER_TAIL @ gpu_body req parts (r_body rp)"
  by (simp add: response_bytes_def build_response_def body_bytes_def gpu_body_def PERSISTENT_GPU_HEADER_TAIL_def CRLF_def Let_def ascii_def)

lemma unat_ucast_status: "unat (ucast (s :: u16) :: u32) = unat s"
  using unsigned_less [of s, where 'a = nat] by (simp add: unsigned_ucast_eq take_bit_nat_eq_self)

lemma write_response_answered:
  assumes l: "response_loaded d c st n rp cr" and t: "target_for req tg parts"
    and s: "slot_in d r (mem_output_words mem)" and req: "reads req (request_word d (of_nat r)) (request_byte d (of_nat r))"
    and fits: "length (response_bytes rp parts (length req) (ascii ''gpu'')) \<le> 4 * stride_of d"
    and m: "r < length (mem_response_meta mem)"
  shows "\<exists>mem'. write_response d (of_nat r) (of_nat n) tg mem = Some mem'
    \<and> answered d r (response_bytes rp parts (length req) (ascii ''gpu'')) mem mem'"
proof -
  let ?body = "gpu_body req parts (r_body rp)"
  have ld: "loaded d c" "strings_for c st" and w: "bi_router_words d = k_words c" and ids: "bi_ids d = k_ids c"
    and rep: "represents_response st rp cr" and code: "code_at (bi_router_words d) n cr" "length (bi_router_words d) \<le> U32_MAX"
    using l by (simp_all add: response_loaded_def loaded_def)
  note field = response_field [OF code]
  have fields: "response_word d (of_nat n) RESPONSE_STATUS = Some (ucast (c_status cr))"
    "response_word d (of_nat n) RESPONSE_REASON_STRING = Some (c_reason cr)"
    "response_word d (of_nat n) RESPONSE_CONTENT_TYPE_STRING = Some (c_content_type cr)"
    "response_word d (of_nat n) RESPONSE_PROGRAM_OFFSET = Some (of_nat (n + 5))"
    "response_word d (of_nat n) RESPONSE_PROGRAM_LEN = Some (of_nat (length (c_segments cr)))"
    using field [of 0] field [of 1] field [of 2] field [of 3] field [of 4] by simp_all
  have "length ?body \<le> U32_MAX" using fits s by (simp add: gpu_response_bytes slot_in_def)
  then have blen: "unat (of_nat (length ?body) :: u32) = length ?body" by (rule unat_of_nat_u32)
  have body_len: "response_body_len d (of_nat n) tg = Some (of_nat (length ?body))"
    using body_len_loop_closed [OF l t, of 0 0] by (simp add: response_body_len_def fields)
  have hv: "status_reason (r_status rp) \<noteq> HEADER_TAIL" "r_content_type rp \<noteq> HEADER_TAIL"
    using l header_tail_invalid by (auto simp: response_loaded_def valid_headers_def)
  note str = loaded_string [OF ld]
  have strs: "arena_string d (id_http_version (k_ids c)) (ascii ''HTTP/1.1 '')"
    "arena_string d (c_reason cr) (status_reason (r_status rp))"
    "arena_string d (id_header_content_type (k_ids c)) (CRLF @ ascii ''Content-Type: '')"
    "arena_string d (c_content_type cr) (r_content_type rp)"
    "arena_string d (id_header_content_length (k_ids c)) (CRLF @ ascii ''Content-Length: '')"
    using str ld(2) rep hv header_strings_differ by (simp_all add: strings_for_def represents_response_def)
  have room: "length (ascii ''HTTP/1.1 '' @ decimal (unat (status_code (r_status rp))) @ [32] @ status_reason (r_status rp)
     @ (CRLF @ ascii ''Content-Type: '') @ r_content_type rp @ (CRLF @ ascii ''Content-Length: '')
     @ decimal (length ?body) @ PERSISTENT_GPU_HEADER_TAIL @ ?body) \<le> 4 * stride_of d"
    using fits by (simp only: gpu_response_bytes)
  let ?p1 = "[] @ ascii ''HTTP/1.1 ''"
  let ?p2 = "?p1 @ decimal (unat (status_code (r_status rp)))"
  let ?p3 = "?p2 @ [32]"
  let ?p4 = "?p3 @ status_reason (r_status rp)"
  let ?p5 = "?p4 @ (CRLF @ ascii ''Content-Type: '')"
  let ?p6 = "?p5 @ r_content_type rp"
  let ?p7 = "?p6 @ (CRLF @ ascii ''Content-Length: '')"
  let ?p8 = "?p7 @ decimal (length ?body)"
  let ?p9 = "?p8 @ PERSISTENT_GPU_HEADER_TAIL"
  note push = writer_push_string_wrote [OF s]
  have status: "unat (ucast (c_status cr) :: u32) = unat (status_code (r_status rp))"
    using rep by (simp add: unat_ucast_status represents_response_def)
  note dec = writer_push_decimal_wrote [OF s] and byte = writer_push_byte_wrote [OF s]
  obtain w1 where w1: "writer_push_string d (id_http_version (k_ids c)) (writer_new (of_nat r), mem_output_words mem) = Some w1"
    "wrote d r (mem_output_words mem) ?p1 w1"
    using push [OF strs(1) wrote_new [OF s]] room by (auto simp: status blen)
  obtain w2 where w2: "writer_push_decimal d (ucast (c_status cr)) w1 = Some w2"
    "wrote d r (mem_output_words mem) ?p2 w2"
    using dec [OF w1(2), of "ucast (c_status cr)"] room by (auto simp: status blen)
  obtain w3 where w3: "writer_push_byte d 32 w2 = Some w3"
    "wrote d r (mem_output_words mem) ?p3 w3"
    using byte [OF w2(2), of 32] room by (auto simp: status blen)
  obtain w4 where w4: "writer_push_string d (c_reason cr) w3 = Some w4"
    "wrote d r (mem_output_words mem) ?p4 w4"
    using push [OF strs(2) w3(2)] room by (auto simp: status blen)
  obtain w5 where w5: "writer_push_string d (id_header_content_type (k_ids c)) w4 = Some w5"
    "wrote d r (mem_output_words mem) ?p5 w5"
    using push [OF strs(3) w4(2)] room by (auto simp: status blen)
  obtain w6 where w6: "writer_push_string d (c_content_type cr) w5 = Some w6"
    "wrote d r (mem_output_words mem) ?p6 w6"
    using push [OF strs(4) w5(2)] room by (auto simp: status blen)
  obtain w7 where w7: "writer_push_string d (id_header_content_length (k_ids c)) w6 = Some w7"
    "wrote d r (mem_output_words mem) ?p7 w7"
    using push [OF strs(5) w6(2)] room by (auto simp: status blen)
  obtain w8 where w8: "writer_push_decimal d (of_nat (length ?body)) w7 = Some w8"
    "wrote d r (mem_output_words mem) ?p8 w8"
    using dec [OF w7(2), of "of_nat (length ?body)"] room by (auto simp: status blen)
  obtain w9 where w9: "writer_push_string d (id_header_tail (k_ids c)) w8 = Some w9"
    "wrote d r (mem_output_words mem) ?p9 w9"
    using push [OF loaded_tail [OF ld] w8(2)] room by (auto simp: status blen)
  obtain w10 where w10: "write_body_loop d (of_nat r) tg (of_nat (n + 5)) (of_nat (length (c_segments cr))) (of_nat 0) w9 = Some w10"
    "wrote d r (mem_output_words mem) (?p9 @ ?body) w10"
    using write_body_loop_closed [OF l t s req le0 w9(2)] room by auto
  obtain mem' where m': "writer_finish d w10 (ucast (c_status cr)) (mem_response_meta mem) = Some mem'"
    "answered d r (?p9 @ ?body) mem mem'"
    using writer_finish_answered [OF s w10(2) m] by blast
  have "write_response d (of_nat r) (of_nat n) tg mem = Some mem'"
    using w1(1) w2(1) w3(1) w4(1) w5(1) w6(1) w7(1) w8(1) w9(1) w10(1) m'(1)
    by (simp add: write_response_def write_response_body_def fields body_len ids)
  then show ?thesis using m'(2) by (simp add: gpu_response_bytes)
qed

end
