(* ===== verification/HttpShaderParse.thy ===== *)
theory HttpShaderParse
  imports HttpShaderIO
begin

text \<open>
  Request parsing in the shader: \<open>gpu_parse_request\<close> is what it computes on every request, and it
  agrees with \<open>parse_request\<close> of the router on requests whose first line has three parts.
\<close>

section \<open>Bytes as words\<close>

lemma ucast_u8_eq: "(ucast (b :: u8) :: u32) = w \<longleftrightarrow> unat w < 256 \<and> b = ucast w"
proof -
  have "unat (ucast b :: u32) < 256" using unsigned_less [of b, where 'a = nat] by (simp add: unsigned_ucast_eq take_bit_nat_eq_self)
  moreover have "ucast (ucast b :: u32) = b" by (rule bit_word_eqI) (simp add: bit_simps)
  moreover have "ucast (ucast w :: u8) = w" if "unat w < 256"
    using that by (simp add: word_unat_eq_iff unsigned_ucast_eq unsigned_take_bit_eq take_bit_nat_eq_self)
  ultimately show ?thesis by auto
qed

lemma ucast_u8_inject [simp]: "(ucast (a :: u8) :: u32) = ucast b \<longleftrightarrow> a = b"
  using ucast_u8_eq [of a "ucast b"] ucast_u8_eq [of b "ucast b"] by auto

lemma reads_nth: "reads req get_word get_byte \<Longrightarrow> n < length req \<Longrightarrow> get_byte (of_nat n) = Some (ucast (req ! n))"
  using readsD(2) [of req get_word get_byte "of_nat n"] readsD(1) [of req get_word get_byte]
  by (simp add: unat_of_nat_u32)

lemma request_bytes_are_closed:
  assumes "reads req (request_word d r) (request_byte d r)"
  shows "p + length ks \<le> length req \<Longrightarrow>
    request_bytes_are d r (of_nat p) (map ucast (ks :: bytes)) = Some (take (length ks) (drop p req) = ks)"
proof (induction ks arbitrary: p)
  case (Cons k ks)
  have p: "p < length req" using Cons.prems by simp
  have "drop p req = req ! p # drop (Suc p) req" using p by (simp add: Cons_nth_drop_Suc)
  moreover have "of_nat p + 1 = (of_nat (Suc p) :: u32)" by simp
  ultimately show ?case using Cons.IH [of "Suc p"] Cons.prems reads_nth [OF assms p] by (simp add: add.commute)
qed simp

lemma le_val_eq: "length xs = 4 \<Longrightarrow> length ys = 4 \<Longrightarrow> le_val xs = le_val ys \<longleftrightarrow> xs = ys"
  by (metis u32_to_le_le_val)

lemma is_get_request_closed:
  assumes "reads req (request_word d r) (request_byte d r)" "4 \<le> length req"
  shows "is_get_request d r (of_nat (length req)) = Some (take 4 req = ascii ''GET '')"
proof -
  have len: "unat (of_nat (length req) :: u32) = length req" using readsD(1) [OF assms(1)] by (rule unat_of_nat_u32)
  have "le_val (ascii ''GET '') = 0x20544547" by (simp add: ascii_def)
  then have "le_val (take 4 req) = 0x20544547 \<longleftrightarrow> take 4 req = ascii ''GET ''"
    using le_val_eq [of "take 4 req" "ascii ''GET ''"] assms(2) by simp
  then show ?thesis using readsD(3) [OF assms(1), of 0] assms(2) len by (simp add: is_get_request_def word_less_nat_alt)
qed

section \<open>The version\<close>

definition version_ends :: "bytes \<Rightarrow> bool" where
  "version_ends B \<longleftrightarrow> (\<exists>m\<in>{48, 49}. take 9 B = ascii ''HTTP/1.'' @ [m, 10] \<or> take 10 B = ascii ''HTTP/1.'' @ [m, 13, 10])"

lemma take_append_nth: "n + k \<le> length B \<Longrightarrow> take (n + k) B = take n B @ take k (drop n B)"
  by (rule take_add)

lemma has_supported_http_version_closed:
  assumes "reads req (request_word d r) (request_byte d r)" "p \<le> length req" "length req + 10 \<le> U32_MAX"
  shows "has_supported_http_version d r (of_nat p) (of_nat (length req)) = Some (version_ends (drop p req))"
proof -
  let ?B = "drop p req"
  have u: "unat (of_nat (p + k) :: u32) = p + k" if "k \<le> 10" for k
    using assms(2,3) that by (intro unat_of_nat_u32) simp
  have len: "unat (of_nat (length req) :: u32) = length req" using assms(3) by (intro unat_of_nat_u32) simp
  have short: "(of_nat (length req) :: u32) \<le> of_nat p + 8 \<longleftrightarrow> length req \<le> p + 8"
    using u [of 8] len by (simp add: word_le_nat_alt)
  have longer: "(of_nat p + 9 :: u32) < of_nat (length req) \<longleftrightarrow> p + 9 < length req"
    using u [of 9] len by (simp add: word_less_nat_alt)
  show ?thesis
  proof (cases "length req \<le> p + 8")
    case True
    then have "length ?B \<le> 8" by simp
    then have "\<not> version_ends ?B" by (auto simp: version_ends_def dest!: arg_cong [of _ _ length])
    then show ?thesis using True short by (simp add: has_supported_http_version_def)
  next
    case False
    then have l: "9 \<le> length ?B" by simp
    have byte: "request_byte d r (of_nat p + of_nat k) = Some (ucast (?B ! k))" if "k < length ?B" for k
      using reads_nth [OF assms(1), of "p + k"] that by simp
    have seven: "length (ascii ''HTTP/1.'') = 7" and codes: "map ucast (ascii ''HTTP/1.'') = ([72, 84, 84, 80, 47, 49, 46] :: u32 list)"
      by (simp_all add: ascii_def)
    have prefix: "request_bytes_are d r (of_nat p) [72, 84, 84, 80, 47, 49, 46] = Some (take 7 ?B = ascii ''HTTP/1.'')"
      using request_bytes_are_closed [OF assms(1), of p "ascii ''HTTP/1.''"] False unfolding seven codes by simp
    have nine: "take 9 ?B = take 7 ?B @ [?B ! 7, ?B ! 8]"
      using take_Suc_conv_app_nth [of 7 ?B] take_Suc_conv_app_nth [of 8 ?B] l by (simp add: eval_nat_numeral)
    have ten: "take 10 ?B = take 7 ?B @ [?B ! 7, ?B ! 8, ?B ! 9]" if "9 < length ?B"
      using take_Suc_conv_app_nth [of 9 ?B] that nine by (simp add: eval_nat_numeral)
    have "take 10 ?B = take 9 ?B" if "\<not> 9 < length ?B" using that l by simp
    then have "version_ends ?B \<longleftrightarrow> take 7 ?B = ascii ''HTTP/1.'' \<and> (?B ! 7 = 48 \<or> ?B ! 7 = 49)
        \<and> (?B ! 8 = 10 \<or> (?B ! 8 = 13 \<and> 9 < length ?B \<and> ?B ! 9 = 10))"
      using nine ten by (cases "9 < length ?B") (auto simp: version_ends_def ascii_def)
    then show ?thesis
      using False short longer prefix byte [of 7] byte [of 8] byte [of 9] l
      by (auto simp: has_supported_http_version_def ucast_u8_eq)
  qed
qed

lemma version_ends_line:
  assumes "10 \<notin> set V"
  shows "version_ends (V @ 10 # ys) \<longleftrightarrow> strip_suffix 13 V = ascii ''HTTP/1.1'' \<or> strip_suffix 13 V = ascii ''HTTP/1.0''"
proof
  assume "version_ends (V @ 10 # ys)"
  then obtain m where m: "m = 48 \<or> m = 49" and e: "take 9 (V @ 10 # ys) = ascii ''HTTP/1.'' @ [m, 10]
      \<or> take 10 (V @ 10 # ys) = ascii ''HTTP/1.'' @ [m, 13, 10]" by (auto simp: version_ends_def)
  have first: "V = W" if "take (Suc (length W)) (V @ 10 # ys) = W @ [10]" "10 \<notin> set W" for W
  proof -
    have "V @ 10 # ys = W @ 10 # drop (Suc (length W)) (V @ 10 # ys)"
      by (metis append_take_drop_id append.assoc append_Cons append_Nil that(1))
    then have "takeWhile (\<lambda>b. b \<noteq> 10) (V @ 10 # ys) = takeWhile (\<lambda>b. b \<noteq> 10) (W @ 10 # drop (Suc (length W)) (V @ 10 # ys))"
      by simp
    moreover have "takeWhile (\<lambda>b. b \<noteq> 10) V = V" "takeWhile (\<lambda>b. b \<noteq> 10) W = W"
      using assms that(2) by (auto simp: takeWhile_eq_all_conv)
    ultimately show ?thesis by (simp add: takeWhile_tail)
  qed
  have n: "Suc (length (ascii ''HTTP/1.'' @ [m])) = 9" "Suc (length (ascii ''HTTP/1.'' @ [m, 13])) = 10" by simp_all
  have no: "10 \<notin> set (ascii ''HTTP/1.'' @ [m])" "10 \<notin> set (ascii ''HTTP/1.'' @ [m, 13])" using m by (auto simp: ascii_def)
  from e have "V = ascii ''HTTP/1.'' @ [m] \<or> V = ascii ''HTTP/1.'' @ [m, 13]"
    using first [of "ascii ''HTTP/1.'' @ [m]", unfolded n] first [of "ascii ''HTTP/1.'' @ [m, 13]", unfolded n] no
    by (simp only: append.assoc append_Cons append_Nil) blast
  then show "strip_suffix 13 V = ascii ''HTTP/1.1'' \<or> strip_suffix 13 V = ascii ''HTTP/1.0''"
    using m by (auto simp: ascii_def)
next
  assume a: "strip_suffix 13 V = ascii ''HTTP/1.1'' \<or> strip_suffix 13 V = ascii ''HTTP/1.0''"
  have "V = strip_suffix 13 V \<or> V = strip_suffix 13 V @ [13]"
    using append_butlast_last_id [of V] by (cases "V = []") (auto simp del: append_butlast_last_id)
  moreover obtain m where m: "m = 48 \<or> m = 49" "strip_suffix 13 V = ascii ''HTTP/1.'' @ [m]"
    using a by (auto simp: ascii_def simp del: strip_suffix.simps)
  ultimately have "V = ascii ''HTTP/1.'' @ [m] \<or> V = ascii ''HTTP/1.'' @ [m, 13]" by (simp del: strip_suffix.simps)
  then show "version_ends (V @ 10 # ys)" using m(1) by (auto simp: version_ends_def ascii_def)
qed

section \<open>The target\<close>

definition scan_all :: "bytes \<Rightarrow> target_scan \<Rightarrow> target_scan" where
  "scan_all T s = foldl (\<lambda>s b. scan_byte (ucast b) s) s T"

lemma scan_all_simps [simp]: "scan_all [] s = s" "scan_all (b # T) s = scan_all T (scan_byte (ucast b) s)"
  by (simp_all add: scan_all_def)

lemma scan_all_append: "scan_all (T @ U) s = scan_all U (scan_all T s)"
  by (simp add: scan_all_def)

lemma ts_cursor_scan_byte [simp]: "ts_cursor (scan_byte b s) = ts_cursor s + 1"
  by (simp add: scan_byte_def Let_def)

lemma scan_target_closed:
  assumes "reads req (request_word d r) (request_byte d r)"
  shows "req = pre @ T @ 32 # ys \<Longrightarrow> 32 \<notin> set T \<Longrightarrow> ts_cursor s = of_nat (length pre) \<Longrightarrow>
    scan_target d r (of_nat (length req)) s = Some (scan_all T s, True)"
proof (induction T arbitrary: pre s)
  case Nil
  have len: "unat (of_nat n :: u32) = n" if "n \<le> length req" for n
    using readsD(1) [OF assms] that by (intro unat_of_nat_u32) simp
  have "request_byte d r (ts_cursor s) = Some 32" using reads_nth [OF assms, of "length pre"] Nil by simp
  moreover have "\<not> of_nat (length req) \<le> ts_cursor s" using len [of "length req"] len [of "length pre"] Nil by (simp add: word_le_nat_alt)
  ultimately show ?case by (subst scan_target.simps) simp
next
  case (Cons b T)
  have len: "unat (of_nat n :: u32) = n" if "n \<le> length req" for n
    using readsD(1) [OF assms] that by (intro unat_of_nat_u32) simp
  have "request_byte d r (ts_cursor s) = Some (ucast b)"
    using reads_nth [OF assms, of "length pre"] Cons.prems(1,3) by simp
  moreover have "\<not> of_nat (length req) \<le> ts_cursor s"
    using len [of "length req"] len [of "length pre"] Cons.prems(1,3) by (simp add: word_le_nat_alt)
  moreover have "b \<noteq> 32" using Cons.prems(2) by auto
  moreover have "scan_target d r (of_nat (length req)) (scan_byte (ucast b) s) = Some (scan_all T (scan_byte (ucast b) s), True)"
    using Cons.prems by (intro Cons.IH [of "pre @ [b]"]) simp_all
  ultimately show ?case by (subst scan_target.simps) (simp add: ucast_u8_eq)
qed

lemma scan_target_open:
  assumes "reads req (request_word d r) (request_byte d r)"
  shows "req = pre @ T \<Longrightarrow> 32 \<notin> set T \<Longrightarrow> ts_cursor s = of_nat (length pre) \<Longrightarrow>
    scan_target d r (of_nat (length req)) s = Some (scan_all T s, False)"
proof (induction T arbitrary: pre s)
  case Nil
  then show ?case by (subst scan_target.simps) simp
next
  case (Cons b T)
  have len: "unat (of_nat n :: u32) = n" if "n \<le> length req" for n
    using readsD(1) [OF assms] that by (intro unat_of_nat_u32) simp
  have "request_byte d r (ts_cursor s) = Some (ucast b)"
    using reads_nth [OF assms, of "length pre"] Cons.prems(1,3) by simp
  moreover have "\<not> of_nat (length req) \<le> ts_cursor s"
    using len [of "length req"] len [of "length pre"] Cons.prems(1,3) by (simp add: word_le_nat_alt)
  moreover have "b \<noteq> 32" using Cons.prems(2) by auto
  moreover have "scan_target d r (of_nat (length req)) (scan_byte (ucast b) s) = Some (scan_all T (scan_byte (ucast b) s), False)"
    using Cons.prems by (intro Cons.IH [of "pre @ [b]"]) simp_all
  ultimately show ?case by (subst scan_target.simps) (simp add: ucast_u8_eq)
qed

lemma scan_path:
  "63 \<notin> set T \<Longrightarrow> \<not> ts_in_query s \<Longrightarrow> scan_all T s = s\<lparr>ts_cursor := ts_cursor s + of_nat (length T),
    ts_path_hash := foldl (\<lambda>hash b. (hash XOR ucast b) * FNV_PRIME) (ts_path_hash s) T, ts_path_len := ts_path_len s + of_nat (length T)\<rparr>"
proof (induction T arbitrary: s)
  case (Cons b T)
  have "b \<noteq> 63" using Cons.prems(1) by auto
  then have step: "scan_byte (ucast b) s = s\<lparr>ts_cursor := ts_cursor s + 1, ts_path_hash := (ts_path_hash s XOR ucast b) * FNV_PRIME,
      ts_path_len := ts_path_len s + 1\<rparr>" using Cons.prems(2) by (simp add: scan_byte_def ucast_u8_eq)
  show ?case using Cons by (simp add: step add.assoc)
qed simp

lemma scan_query:
  "ts_in_query s \<Longrightarrow> scan_all T s = s\<lparr>ts_cursor := ts_cursor s + of_nat (length T), ts_query_len := ts_query_len s + of_nat (length T)\<rparr>"
proof (induction T arbitrary: s)
  case (Cons b T)
  have step: "scan_byte (ucast b) s = s\<lparr>ts_cursor := ts_cursor s + 1, ts_query_len := ts_query_len s + 1\<rparr>"
    using Cons.prems by (simp add: scan_byte_def)
  show ?case using Cons by (simp add: step add.assoc)
qed simp

text \<open>The path and the query of a target.\<close>

definition target_path :: "bytes \<Rightarrow> bytes" where
  "target_path T = (case position (\<lambda>b. b = 63) T of None \<Rightarrow> T | Some q \<Rightarrow> take q T)"

definition target_query :: "bytes \<Rightarrow> bytes" where
  "target_query T = (case position (\<lambda>b. b = 63) T of None \<Rightarrow> [] | Some q \<Rightarrow> drop (q + 1) T)"

definition target_scanned :: "bytes \<Rightarrow> target_scan" where
  "target_scanned T = \<lparr>ts_cursor = of_nat (4 + length T), ts_path_hash = fnv1a (target_path T), ts_path_len = of_nat (length (target_path T)),
     ts_query_start = (if 63 \<in> set T then of_nat (4 + length (target_path T) + 1) else 0),
     ts_query_len = of_nat (length (target_query T)), ts_in_query = (63 \<in> set T)\<rparr>"

lemma scan_all_target:
  "scan_all T \<lparr>ts_cursor = 4, ts_path_hash = FNV_OFFSET_BASIS, ts_path_len = 0, ts_query_start = 0,
     ts_query_len = 0, ts_in_query = False\<rparr> = target_scanned T"
proof (cases "position (\<lambda>b. b = 63) T")
  case None
  then have "63 \<notin> set T" by (auto simp: position_None_iff)
  then show ?thesis using None
    by (simp add: scan_path target_scanned_def target_path_def target_query_def fnv1a_def FNV_OFFSET_BASIS_def FNV_PRIME_def)
next
  case (Some q)
  then have q: "q < length T" "T ! q = 63" "\<forall>j<q. T ! j \<noteq> 63" by (simp_all add: position_Some_iff)
  have len: "length T = q + (1 + (length T - Suc q))" using q(1) by simp
  have T: "T = take q T @ 63 # drop (q + 1) T" using q(1,2) id_take_nth_drop [of q T] by simp
  have "63 \<notin> set (take q T)" using q(1,3) by (auto simp: in_set_conv_nth)
  moreover have "63 \<in> set T" using q(1,2) by (auto simp: in_set_conv_nth)
  moreover have "scan_byte 63 s = s\<lparr>ts_in_query := True, ts_query_start := ts_cursor s + 1, ts_cursor := ts_cursor s + 1\<rparr>"
    if "\<not> ts_in_query s" for s using that by (simp add: scan_byte_def)
  moreover have "of_nat (length T) = of_nat q + (1 + of_nat (length T - Suc q) :: u32)"
    using arg_cong [OF len, of "of_nat :: nat \<Rightarrow> u32"] by (simp only: of_nat_add of_nat_1)
  ultimately show ?thesis using q(1) Some
    by (subst T) (simp add: scan_all_append scan_path scan_query target_scanned_def target_path_def target_query_def
        fnv1a_def FNV_OFFSET_BASIS_def FNV_PRIME_def min_def add.assoc)
qed

section \<open>Agreement with the router's parser\<close>

text \<open>The first line has exactly three parts and the request at least four bytes.\<close>

definition first_line :: "bytes \<Rightarrow> bytes option" where
  "first_line req = map_option (\<lambda>line_end. strip_suffix 13 (take line_end req)) (position (\<lambda>b. b = 10) req)"

definition three_part_line :: "bytes \<Rightarrow> bool" where
  "three_part_line req \<longleftrightarrow> 4 \<le> length req
     \<and> (case first_line req of None \<Rightarrow> False | Some line \<Rightarrow> length (split_on 32 line) = 3)"

lemma split_on_join: "split_on sep xs = p # ps \<Longrightarrow> (ps = [] \<longrightarrow> xs = p) \<and> (ps \<noteq> [] \<longrightarrow> (\<exists>ys. xs = p @ sep # ys \<and> split_on sep ys = ps))"
proof (induction xs arbitrary: p ps)
  case (Cons x xs)
  show ?case
  proof (cases "x = sep")
    case False
    obtain q qs where q: "split_on sep xs = q # qs" using split_on_not_Nil [of sep xs] by (cases "split_on sep xs") auto
    then have "p = x # q" "ps = qs" using Cons.prems False by simp_all
    then show ?thesis using Cons.IH [OF q] by auto
  qed (use Cons.prems in auto)
qed simp

lemma split_three:
  assumes "split_on sep xs = [a, b, c]"
  shows "xs = a @ sep # b @ sep # c" "sep \<notin> set a" "sep \<notin> set b"
proof -
  obtain ys where ys: "xs = a @ sep # ys" "split_on sep ys = [b, c]" using split_on_join [OF assms] by auto
  moreover obtain zs where zs: "ys = b @ sep # zs" "split_on sep zs = [c]" using split_on_join [OF ys(2)] by auto
  moreover have "zs = c" using split_on_join [OF zs(2)] by auto
  ultimately show "xs = a @ sep # b @ sep # c" by simp
  show "sep \<notin> set a" "sep \<notin> set b" using split_on_parts [of _ sep xs] assms by auto
qed

lemma three_parts:
  assumes "three_part_line req"
  obtains m T v V ys where "req = m @ 32 # T @ 32 # V @ 10 # ys" "32 \<notin> set m" "32 \<notin> set T" "10 \<notin> set V"
    "strip_suffix 13 V = v" "first_line req = Some (m @ 32 # T @ 32 # v)" "split_on 32 (m @ 32 # T @ 32 # v) = [m, T, v]"
proof -
  obtain e where e: "position (\<lambda>b. b = 10) req = Some e" and three: "length (split_on 32 (strip_suffix 13 (take e req))) = 3"
    using assms by (auto simp: three_part_line_def first_line_def split: option.splits)
  obtain m T v where parts: "split_on 32 (strip_suffix 13 (take e req)) = [m, T, v]"
    using three by (auto simp: length_Suc_conv eval_nat_numeral simp del: strip_suffix.simps)
  note s = split_three [OF parts]
  have e': "e < length req" "req ! e = 10" "\<forall>j<e. req ! j \<noteq> 10" using e by (simp_all add: position_Some_iff)
  have req: "req = take e req @ 10 # drop (Suc e) req" using id_take_nth_drop [OF e'(1)] e'(2) by simp
  have no: "10 \<notin> set (take e req)" using e'(1,3) by (auto simp: in_set_conv_nth)
  define V where "V = (if take e req = m @ 32 # T @ 32 # v then v else v @ [13])"
  have "take e req = strip_suffix 13 (take e req) \<or> take e req = strip_suffix 13 (take e req) @ [13]"
    using append_butlast_last_id [of "take e req"] by (cases "take e req = []") (auto simp del: append_butlast_last_id)
  then have line: "take e req = m @ 32 # T @ 32 # V" by (auto simp: V_def s(1) simp del: strip_suffix.simps)
  have "strip_suffix 13 V = v"
  proof (cases "V = v")
    case True
    then have "strip_suffix 13 (m @ 32 # T @ 32 # v) = m @ 32 # T @ 32 # v" using line s(1) by simp
    then show ?thesis using True by (cases "v = []") (auto split: if_splits dest!: arg_cong [of _ _ length])
  qed (simp add: V_def split: if_splits)
  moreover have "req = m @ 32 # T @ 32 # V @ 10 # drop (Suc e) req" using req line by simp
  moreover have "10 \<notin> set V" using no line by simp
  moreover have "first_line req = Some (m @ 32 # T @ 32 # v)" by (simp only: first_line_def e option.map s(1))
  ultimately show thesis using that s(2,3) parts [unfolded s(1)] by blast
qed

lemma parse_request_three:
  assumes "split_on 32 line = [m, T, v]" "first_line req = Some line"
  shows "parse_request req =
    (if m \<noteq> ascii ''GET'' then ParsedMethodNotAllowed
     else if v \<noteq> ascii ''HTTP/1.1'' \<and> v \<noteq> ascii ''HTTP/1.0'' then ParsedBadRequest
     else if T = [] \<or> hd T \<noteq> 47 then ParsedBadRequest
     else Get \<lparr>q_path = target_path T, q_query = target_query T, q_path_hash = fnv1a (target_path T)\<rparr>)"
proof -
  obtain e where e: "position (\<lambda>b. b = 10) req = Some e" "strip_suffix 13 (take e req) = line"
    using assms(2) by (auto simp: first_line_def simp del: strip_suffix.simps)
  have "target_path T \<noteq> []" if "T \<noteq> []" "hd T = 47"
    using that by (cases T) (auto simp: target_path_def split: option.splits)
  then show ?thesis using assms(1)
    by (auto simp: parse_request_def e Let_def target_path_def target_query_def simp del: strip_suffix.simps split: option.splits)
qed

lemma take_4_get:
  assumes "req = m @ 32 # ys" "32 \<notin> set m" "4 \<le> length req"
  shows "take 4 req = ascii ''GET '' \<longleftrightarrow> m = ascii ''GET''"
proof
  assume "take 4 req = ascii ''GET ''"
  then have "req = ascii ''GET'' @ 32 # drop 4 req"
    using append_take_drop_id [of 4 req] by (simp add: ascii_def)
  then have "takeWhile (\<lambda>b. b \<noteq> 32) (m @ 32 # ys) = takeWhile (\<lambda>b. b \<noteq> 32) (ascii ''GET'' @ 32 # drop 4 req)"
    using assms(1) by simp
  moreover have "takeWhile (\<lambda>b. b \<noteq> 32) m = m" "takeWhile (\<lambda>b. b \<noteq> 32) (ascii ''GET'') = ascii ''GET''"
    using assms(2) by (auto simp: takeWhile_eq_all_conv ascii_def)
  ultimately show "m = ascii ''GET''" by (simp add: takeWhile_tail)
qed (simp add: assms(1) ascii_def)

definition get_target :: "bytes \<Rightarrow> bytes \<Rightarrow> request_target" where
  "get_target req T = \<lparr>tg_path_start = 4, tg_path_len = of_nat (length (target_path T)),
     tg_query_start = (if 63 \<in> set T then of_nat (4 + length (target_path T) + 1) else of_nat (4 + length T)),
     tg_query_len = of_nat (length (target_query T)), tg_path_hash = fnv1a (target_path T),
     tg_input_len = of_nat (length req), tg_valid = 1\<rparr>"

lemma parse_get_target_closed:
  assumes rd: "reads req (request_word d r) (request_byte d r)" and small: "length req + 10 \<le> U32_MAX"
    and req: "req = ascii ''GET '' @ T @ 32 # ys" and T: "32 \<notin> set T"
  shows "parse_get_target d r (of_nat (length req)) = Some
    (if T \<noteq> [] \<and> hd T = 47 \<and> version_ends ys
     then get_target req T else invalid_target (of_nat (length req)))"
proof -
  have len: "unat (of_nat n :: u32) = n" if "n \<le> length req" for n
    using small that by (intro unat_of_nat_u32) simp
  have four: "length (ascii ''GET '') = 4" by simp
  have "length req = 4 + length T + 1 + length ys" unfolding req by simp
  then have l: "4 < length req" "4 + length T + 1 \<le> length req" by simp_all
  have long: "\<not> of_nat (length req) \<le> (4 :: u32)" using len [of "length req"] l(1) by (simp add: word_le_nat_alt)
  have nth4: "req ! 4 = (T @ 32 # ys) ! 0"
    using nth_append_length_plus [of "ascii ''GET ''" "T @ 32 # ys" 0] unfolding req four by simp
  have b4: "request_byte d r 4 = Some (ucast (req ! 4))" using reads_nth [OF rd, of 4] l(1) by simp
  show ?thesis
  proof (cases "T \<noteq> [] \<and> hd T = 47")
    case False
    then have "req ! 4 \<noteq> 47" unfolding nth4 by (cases T) auto
    then show ?thesis using False b4 long by (auto simp: parse_get_target_def ucast_u8_eq)
  next
    case True
    then have "req ! 4 = 47" unfolding nth4 by (cases T) auto
    then have slash: "request_byte d r 4 = Some 47" using b4 by simp
    have scan: "scan_target d r (of_nat (length req)) \<lparr>ts_cursor = 4, ts_path_hash = FNV_OFFSET_BASIS, ts_path_len = 0,
        ts_query_start = 0, ts_query_len = 0, ts_in_query = False\<rparr> = Some (target_scanned T, True)"
      using scan_target_closed [OF rd req T] by (simp add: scan_all_target four)
    have "0 < length (target_path T)" "length (target_path T) \<le> length T"
      using True by (cases T; auto simp: target_path_def split: option.splits)+
    then have path: "ts_path_len (target_scanned T) \<noteq> 0"
      using len [of "length (target_path T)"] l(2) by (auto simp: target_scanned_def dest: arg_cong [of _ _ unat])
    have "drop (4 + length T + 1) req = ys" unfolding req using four by (simp add: drop_append)
    then have "has_supported_http_version d r (of_nat (4 + length T + 1)) (of_nat (length req)) = Some (version_ends ys)"
      using has_supported_http_version_closed [OF rd l(2) small] by (simp only:)
    then have version: "has_supported_http_version d r (ts_cursor (target_scanned T) + 1) (of_nat (length req)) = Some (version_ends ys)"
      by (simp add: target_scanned_def add.assoc)
    show ?thesis using long slash scan path version True
      by (simp add: parse_get_target_def get_target_def del: strip_suffix.simps) (simp add: target_scanned_def)
  qed
qed

lemma parse_get_target_open:
  assumes rd: "reads req (request_word d r) (request_byte d r)" and small: "length req + 10 \<le> U32_MAX"
    and req: "req = ascii ''GET '' @ T" and T: "32 \<notin> set T"
  shows "parse_get_target d r (of_nat (length req)) = Some (invalid_target (of_nat (length req)))"
proof -
  have four: "length (ascii ''GET '') = 4" by simp
  have len: "unat (of_nat (length req) :: u32) = length req" using small by (intro unat_of_nat_u32) simp
  have scan: "scan_target d r (of_nat (length req)) s = Some (scan_all T s, False)" if "ts_cursor s = 4" for s
    using scan_target_open [OF rd req T] that by (simp add: four)
  show ?thesis
  proof (cases "T = []")
    case True
    then have "length req = 4" unfolding req by simp
    then show ?thesis by (simp add: parse_get_target_def)
  next
    case False
    then have l: "4 < length req" unfolding req using four by simp
    then have "\<not> of_nat (length req) \<le> (4 :: u32)" using len by (simp add: word_le_nat_alt)
    moreover have "request_byte d r 4 = Some (ucast (req ! 4))" using reads_nth [OF rd, of 4] l by simp
    ultimately show ?thesis by (simp add: parse_get_target_def scan)
  qed
qed

section \<open>What the shader makes of a request\<close>

definition gpu_parse_request :: "bytes \<Rightarrow> request_parse" where
  "gpu_parse_request req =
     (if length req < 4 then ParsedBadRequest
      else if take 4 req \<noteq> ascii ''GET '' then ParsedMethodNotAllowed
      else (case position (\<lambda>b. b = 32) (drop 4 req) of
          None \<Rightarrow> ParsedBadRequest
        | Some k \<Rightarrow>
            let T = take k (drop 4 req)
            in if T \<noteq> [] \<and> hd T = 47 \<and> version_ends (drop (k + 1) (drop 4 req))
               then Get \<lparr>q_path = target_path T, q_query = target_query T, q_path_hash = fnv1a (target_path T)\<rparr>
               else ParsedBadRequest))"

lemma parse_get_target_any:
  assumes rd: "reads req (request_word d r) (request_byte d r)" and small: "length req + 10 \<le> U32_MAX"
    and get: "4 \<le> length req" "take 4 req = ascii ''GET ''"
  obtains T ys where "gpu_parse_request req = Get \<lparr>q_path = target_path T, q_query = target_query T, q_path_hash = fnv1a (target_path T)\<rparr>"
      "parse_get_target d r (of_nat (length req)) = Some (get_target req T)" "req = ascii ''GET '' @ T @ 32 # ys"
    | "gpu_parse_request req = ParsedBadRequest" "parse_get_target d r (of_nat (length req)) = Some (invalid_target (of_nat (length req)))"
proof (cases "position (\<lambda>b. b = 32) (drop 4 req)")
  case None
  then have "32 \<notin> set (drop 4 req)" by (auto simp: position_None_iff)
  moreover have "req = ascii ''GET '' @ drop 4 req" using append_take_drop_id [of 4 req] get(2) by simp
  ultimately have "parse_get_target d r (of_nat (length req)) = Some (invalid_target (of_nat (length req)))"
    using parse_get_target_open [OF rd small] by blast
  moreover have "gpu_parse_request req = ParsedBadRequest" using get None by (simp add: gpu_parse_request_def)
  ultimately show thesis using that(2) by blast
next
  case (Some k)
  let ?T = "take k (drop 4 req)" and ?ys = "drop (k + 1) (drop 4 req)"
  have k: "k < length (drop 4 req)" "drop 4 req ! k = 32" "\<forall>j<k. drop 4 req ! j \<noteq> 32" using Some by (simp_all add: position_Some_iff)
  have T: "32 \<notin> set ?T" using k(1,3) by (auto simp: in_set_conv_nth)
  have "drop 4 req = ?T @ 32 # ?ys" using id_take_nth_drop [OF k(1)] k(2) by simp
  then have req: "req = ascii ''GET '' @ ?T @ 32 # ?ys" using append_take_drop_id [of 4 req] get(2) by metis
  note pg = parse_get_target_closed [OF rd small req T]
  have parsed: "gpu_parse_request req = (if ?T \<noteq> [] \<and> hd ?T = 47 \<and> version_ends ?ys
      then Get \<lparr>q_path = target_path ?T, q_query = target_query ?T, q_path_hash = fnv1a (target_path ?T)\<rparr> else ParsedBadRequest)"
    unfolding gpu_parse_request_def Some using get by (simp add: Let_def del: drop_drop)
  show thesis
  proof (cases "?T \<noteq> [] \<and> hd ?T = 47 \<and> version_ends ?ys")
    case True
    show thesis by (rule that(1) [OF parsed [unfolded if_P [OF True]] pg [unfolded if_P [OF True]] req])
  next
    case False
    show thesis by (rule that(2) [OF parsed [unfolded if_not_P [OF False]] pg [unfolded if_not_P [OF False]]])
  qed
qed

lemma gpu_parse_three:
  assumes "three_part_line req"
  shows "gpu_parse_request req = parse_request req"
proof -
  obtain T m v V ys where req: "req = m @ 32 # T @ 32 # V @ 10 # ys" "32 \<notin> set m" "32 \<notin> set T" "10 \<notin> set V"
    "strip_suffix 13 V = v" "first_line req = Some (m @ 32 # T @ 32 # v)" "split_on 32 (m @ 32 # T @ 32 # v) = [m, T, v]"
    by (rule three_parts [OF assms])
  have four: "4 \<le> length req" using assms by (simp add: three_part_line_def)
  note get = take_4_get [OF req(1,2) four] and parsed = parse_request_three [OF req(7,6)]
  show ?thesis
  proof (cases "m = ascii ''GET''")
    case True
    then have d: "drop 4 req = T @ 32 # V @ 10 # ys" using req(1) by (simp add: ascii_def)
    have "position (\<lambda>b. b = 32) (T @ 32 # V @ 10 # ys) = Some (length T)"
      using req(3) by (simp add: position_Some_iff nth_append) (metis nth_mem)
    then show ?thesis using True get four version_ends_line [OF req(4), of ys] req(5)
      by (auto simp: gpu_parse_request_def d parsed Let_def simp del: drop_drop)
  qed (use get four parsed in \<open>simp add: gpu_parse_request_def\<close>)
qed

definition gpu_route :: "router \<Rightarrow> bytes \<Rightarrow> bytes" where
  "gpu_route rt req = answer_parsed rt (gpu_parse_request req) (length req) (ascii ''gpu'')"

lemma gpu_route_three: "three_part_line req \<Longrightarrow> gpu_route rt req = spec_route rt req (ascii ''gpu'')"
  by (simp add: gpu_route_def gpu_parse_three spec_route_answer)

end
