(* ===== verification/HttpShaderProofs.thy ===== *)
theory HttpShaderProofs
  imports HttpShaderRender HttpShaderParse
begin

text \<open>
  One invocation of the shader, and a dispatch of all of them in any order: every request gets the
  bytes the declared router specifies for the GPU backend, in its own slot.
\<close>

section \<open>The target of a request\<close>

lemma target_for_get:
  assumes "req = ascii ''GET '' @ T @ ys" "length req + 10 \<le> U32_MAX"
  shows "target_for req (get_target req T)
    \<lparr>q_path = target_path T, q_query = target_query T, q_path_hash = fnv1a (target_path T)\<rparr>"
proof -
  have len: "unat (of_nat n :: u32) = n" if "n \<le> length req" for n
    using assms(2) that by (intro unat_of_nat_u32) simp
  have l: "length req = 4 + length T + length ys" using assms(1) by simp
  have d: "drop (4 + k) req = drop k (T @ ys)" for k using assms(1) by (simp add: drop_append)
  show ?thesis
  proof (cases "position (\<lambda>b. b = 63) T")
    case None
    then have "63 \<notin> set T" by (auto simp: position_None_iff)
    then show ?thesis using None len [of "length T"] len [of "4 + length T"] len [of "length req"] l d [of 0]
      by (simp add: target_for_def get_target_def target_path_def target_query_def len [of 0, simplified])
  next
    case (Some q)
    then have q: "q < length T" "T ! q = 63" by (simp_all add: position_Some_iff)
    then have "63 \<in> set T" by (auto simp: in_set_conv_nth)
    moreover have "drop (4 + (q + 1)) req = drop (q + 1) T @ ys" using q(1) unfolding d by simp
    moreover have "unat (of_nat (4 + q + 1) :: u32) = 4 + (q + 1)" using q(1) l len [of "4 + q + 1"] by simp
    ultimately show ?thesis using Some q(1) len [of q] len [of "length T - (q + 1)"] len [of "length req"] l d [of 0]
      by (simp add: target_for_def get_target_def target_path_def target_query_def min_def)
  qed
qed

lemma target_for_invalid:
  assumes "length req \<le> U32_MAX"
  shows "target_for req (invalid_target (of_nat (length req))) empty_parts"
  using assms by (simp add: target_for_def invalid_target_def empty_parts_def unat_of_nat_u32)

section \<open>Comparing paths\<close>

lemma match_words_closed:
  assumes p: "reads p (\<lambda>i. request_word d r (tg_path_start tg + i)) (\<lambda>i. request_byte d r (tg_path_start tg + i))"
    and v: "reads v (string_word d sid) (string_byte d sid)"
    and len: "length v = length p" "unat (tg_path_len tg) = length p"
  shows "unat i \<le> length p \<Longrightarrow> take (unat i) p = take (unat i) v \<Longrightarrow>
    \<exists>b i'. match_words d r tg sid i = Some (b, i') \<and> (b \<longrightarrow> unat i' \<le> length p \<and> take (unat i') p = take (unat i') v)
      \<and> (\<not> b \<longrightarrow> p \<noteq> v)"
proof (induction "length p - unat i" arbitrary: i rule: less_induct)
  case less
  have rem: "unat (tg_path_len tg - i) = length p - unat i" using less.prems(1) len(2) by (simp add: unat_sub word_le_nat_alt)
  show ?case
  proof (cases "unat i + 4 \<le> length p")
    case True
    have more: "4 \<le> tg_path_len tg - i" using True by (simp add: word_le_nat_alt rem)
    have i': "unat (i + 4) = unat i + 4" using unat_plus [of i 4] True readsD(1) [OF p] by simp
    have rp: "request_word d r (tg_path_start tg + i) = Some (le_val (take 4 (drop (unat i) p)))" using readsD(3) [OF p True] .
    have rv: "string_word d sid i = Some (le_val (take 4 (drop (unat i) v)))" using readsD(3) [OF v] True len(1) by simp
    have eq: "le_val (take 4 (drop (unat i) p)) = le_val (take 4 (drop (unat i) v)) \<longleftrightarrow> take 4 (drop (unat i) p) = take 4 (drop (unat i) v)"
      using True len(1) by (intro le_val_eq) simp_all
    show ?thesis
    proof (cases "take 4 (drop (unat i) p) = take 4 (drop (unat i) v)")
      case same: True
      have "take (unat (i + 4)) p = take (unat (i + 4)) v" using less.prems(2) same by (simp add: i' take_add)
      moreover have "length p - unat (i + 4) < length p - unat i" "unat (i + 4) \<le> length p" using True by (simp_all add: i')
      ultimately have "\<exists>b j. match_words d r tg sid (i + 4) = Some (b, j) \<and> (b \<longrightarrow> unat j \<le> length p \<and> take (unat j) p = take (unat j) v)
          \<and> (\<not> b \<longrightarrow> p \<noteq> v)" using less.hyps [of "i + 4"] by blast
      then show ?thesis using more rp rv eq same by (subst match_words.simps) simp
    next
      case False
      then show ?thesis using more rp rv eq by (subst match_words.simps) auto
    qed
  next
    case False
    then have "\<not> 4 \<le> tg_path_len tg - i" by (simp add: word_le_nat_alt rem)
    then show ?thesis using less.prems by (subst match_words.simps) auto
  qed
qed

lemma match_bytes_closed:
  assumes p: "reads p (\<lambda>i. request_word d r (tg_path_start tg + i)) (\<lambda>i. request_byte d r (tg_path_start tg + i))"
    and v: "reads v (string_word d sid) (string_byte d sid)"
    and len: "length v = length p" "unat (tg_path_len tg) = length p"
  shows "unat i \<le> length p \<Longrightarrow> take (unat i) p = take (unat i) v \<Longrightarrow> match_bytes d r tg sid i = Some (p = v)"
proof (induction "length p - unat i" arbitrary: i)
  case 0
  then have "\<not> i < tg_path_len tg" "p = v" using len by (simp_all add: word_less_nat_alt)
  then show ?case by (subst match_bytes.simps) simp
next
  case (Suc n)
  then have i: "unat i < length p" by simp
  have lt: "i < tg_path_len tg" using i len(2) by (simp add: word_less_nat_alt)
  note i' = u32_next [OF lt]
  have rp: "request_byte d r (tg_path_start tg + i) = Some (ucast (p ! unat i))" using readsD(2) [OF p i] .
  have rv: "string_byte d sid i = Some (ucast (v ! unat i))" using readsD(2) [OF v] i len(1) by simp
  show ?case
  proof (cases "p ! unat i = v ! unat i")
    case True
    have "take (unat (i + 1)) p = take (unat (i + 1)) v"
      using Suc.prems(2) i len(1) True by (simp add: i' take_Suc_conv_app_nth)
    moreover have "n = length p - unat (i + 1)" "unat (i + 1) \<le> length p" using Suc.hyps(2) i by (simp_all add: i')
    ultimately have "match_bytes d r tg sid (i + 1) = Some (p = v)" using Suc.hyps(1) [of "i + 1"] by blast
    then show ?thesis using lt rp rv True by (subst match_bytes.simps) simp
  next
    case False
    then have "p \<noteq> v" by auto
    then show ?thesis using lt rp rv False by (subst match_bytes.simps) simp
  qed
qed

section \<open>Finding the route\<close>

lemma compile_routes_paths: "compile_routes st prs seen rs = ok res \<Longrightarrow> (p, r) \<in> set prs \<Longrightarrow> validate_route_path p = ok ()"
proof (induction prs arbitrary: st seen rs)
  case (Cons pr prs)
  then show ?case by (cases pr) (auto simp: and_then_ok_iff split: if_splits)
qed simp

lemma compiled_paths:
  assumes "compile rt = ok c"
  shows "cr_path ` set (k_routes c) = fst ` set (rt_routes rt)"
proof -
  obtain st where cf: "compiled_for rt c st" using compile_compiled_for [OF assms] by blast
  then obtain rs where perm: "mset (k_routes c) = mset rs" and reps: "list_all2 (represents_route st) (rt_routes rt) rs"
    by (auto simp: compiled_for_def)
  have "map cr_path rs = map fst (rt_routes rt)"
    using reps by (induction rule: list_all2_induct) (auto simp: represents_route_def)
  then have "set (map cr_path rs) = set (map fst (rt_routes rt))" by (simp only:)
  then show ?thesis using mset_eq_setD [OF perm] by simp
qed

lemma compiled_path_slash:
  assumes "compile rt = ok c" "k \<in> set (k_routes c)"
  shows "cr_path k \<noteq> HEADER_TAIL"
proof -
  from assms(1) obtain st0 st1 rs where
    rts: "compile_routes st0 (rt_routes rt) {} [] = ok (st1, rs)" by (rule compile_stages)
  have "cr_path k \<in> fst ` set (rt_routes rt)"
    using compiled_paths [OF assms(1)] assms(2) by force
  then obtain r where "(cr_path k, r) \<in> set (rt_routes rt)" by force
  then have "validate_route_path (cr_path k) = ok ()" using compile_routes_paths [OF rts] by blast
  then have "hd (cr_path k) = 47" by (auto simp: validate_route_path_def split: if_splits)
  then show ?thesis by (auto simp: HEADER_TAIL_def CRLF_def)
qed

text \<open>The buffers hold a compiled router: everything the shader relies on.\<close>

definition router_loaded :: "router \<Rightarrow> compiled_router \<Rightarrow> string_table \<Rightarrow> bindings \<Rightarrow> bool" where
  "router_loaded rt c st d \<longleftrightarrow> compile rt = ok c \<and> compiled_for rt c st \<and> program_laid_out c st \<and> strings_for c st \<and> loaded d c"

lemma route_field:
  assumes "router_loaded rt c st d" "i < length (k_routes c)" "f < 4"
  shows "route_word d (of_nat i) (of_nat f) = Some (k_words c ! (i * 4 + f))"
proof -
  have "route_at (k_words c) st (length (k_routes c) * 4) i (k_routes c ! i)" "length (k_words c) \<le> U32_MAX"
    and w: "bi_router_words d = k_words c"
    using assms by (auto simp: router_loaded_def program_laid_out_def loaded_def)
  then have "i * 4 + f < length (k_words c)" using assms(3) by (auto simp: route_at_def)
  moreover have "(of_nat i * of_nat ROUTE_STRIDE_WORDS + of_nat f :: u32) = of_nat (i * 4 + f)" by (simp add: ROUTE_STRIDE_WORDS_def)
  ultimately show ?thesis using fetch_nat \<open>length (k_words c) \<le> U32_MAX\<close> by (simp only: route_word_def w)
qed

lemma route_matches_closed:
  assumes l: "router_loaded rt c st d" and i: "i < length (k_routes c)"
    and req: "reads req (request_word d r) (request_byte d r)" and t: "target_for req tg parts"
  shows "route_matches d r tg (of_nat i)
    = Some (cr_hash (k_routes c ! i) = q_path_hash parts \<and> cr_path (k_routes c ! i) = q_path parts)"
proof -
  let ?k = "k_routes c ! i"
  have at: "route_at (k_words c) st (length (k_routes c) * 4) i ?k" using l i by (simp add: router_loaded_def program_laid_out_def)
  note f = route_field [OF l i]
  have h: "route_word d (of_nat i) ROUTE_PATH_HASH = Some (cr_hash ?k)" using f [of 0] at by (simp add: route_at_def)
  have plen: "length (cr_path ?k) \<le> U32_MAX" using at by (simp add: route_at_def)
  have n: "route_word d (of_nat i) ROUTE_PATH_LEN = Some (of_nat (length (cr_path ?k)))"
    using f [of 1] at by (simp add: route_at_def)
  define sid where "sid = k_words c ! (i * 4 + 2)"
  have sid: "route_word d (of_nat i) ROUTE_PATH_STRING = Some sid" using f [of 2] by (simp add: sid_def)
  have "cr_path ?k \<noteq> HEADER_TAIL" using compiled_path_slash [of rt c ?k] l i by (simp add: router_loaded_def)
  then have str: "reads (cr_path ?k) (string_word d sid) (string_byte d sid)"
    using loaded_string [of d c st sid "cr_path ?k"] l at
    by (intro arena_string_reads) (simp add: router_loaded_def route_at_def sid_def)
  have path: "q_path parts = take (unat (tg_path_len tg)) (drop (unat (tg_path_start tg)) req)"
    "unat (tg_path_start tg) + unat (tg_path_len tg) \<le> length req" "tg_path_hash tg = q_path_hash parts"
    using t by (simp_all add: target_for_def)
  have tlen: "unat (tg_path_len tg) = length (q_path parts)" using path(1,2) by simp
  have p: "reads (q_path parts) (\<lambda>i. request_word d r (tg_path_start tg + i)) (\<lambda>i. request_byte d r (tg_path_start tg + i))"
    unfolding path(1) by (rule reads_sub [OF req path(2)])
  have eq: "of_nat (length (cr_path ?k)) = tg_path_len tg \<longleftrightarrow> length (cr_path ?k) = length (q_path parts)"
    using unat_of_nat_u32 [OF plen] tlen by (auto simp: word_unat_eq_iff)
  show ?thesis
  proof (cases "cr_hash ?k = q_path_hash parts \<and> length (cr_path ?k) = length (q_path parts)")
    case True
    then have same: "length (cr_path ?k) = length (q_path parts)" by simp
    have "unat 0 \<le> length (q_path parts)" "take (unat 0) (q_path parts) = take (unat 0) (cr_path ?k)" by simp_all
    from match_words_closed [OF p str same tlen this]
    obtain b i' where mw: "match_words d r tg sid 0 = Some (b, i')"
      "b \<longrightarrow> unat i' \<le> length (q_path parts) \<and> take (unat i') (q_path parts) = take (unat i') (cr_path ?k)"
      "\<not> b \<longrightarrow> q_path parts \<noteq> cr_path ?k" by blast
    have start: "route_matches d r tg (of_nat i) = (if b then match_bytes d r tg sid i' else Some False)"
      using True eq path(3) by (simp add: route_matches_def h n sid mw(1))
    show ?thesis
    proof (cases b)
      case b: True
      then have "match_bytes d r tg sid i' = Some (q_path parts = cr_path ?k)"
        using mw(2) by (intro match_bytes_closed [OF p str same tlen]) simp_all
      then show ?thesis unfolding start using b True by auto
    next
      case False
      then show ?thesis unfolding start using mw(3) by auto
    qed
  next
    case False
    then have "cr_hash ?k = q_path_hash parts \<Longrightarrow> cr_path ?k \<noteq> q_path parts" by auto
    then show ?thesis using h n False eq path(3) by (auto simp: route_matches_def)
  qed
qed

lemma table_size:
  assumes "router_loaded rt c st d" "n \<le> length (k_routes c)"
  shows "unat (of_nat n :: u32) = n" "pa_route_count (bi_params d) = of_nat (length (k_routes c))"
  using assms by (auto simp: router_loaded_def program_laid_out_def loaded_def intro: unat_of_nat_u32)

lemma partition_point_iff:
  assumes "sorted (map f xs)" "i < length xs"
  shows "f (xs ! i) < h \<longleftrightarrow> i < partition_point (\<lambda>x. f x < h) xs"
proof
  assume less: "f (xs ! i) < h"
  have "f (xs ! j) < h" if "j \<le> i" for j
    using sorted_nth_mono [OF assms(1) that] assms(2) that less by simp
  then show "i < partition_point (\<lambda>x. f x < h) xs" unfolding partition_point_def
    using nth_length_takeWhile [of "\<lambda>x. f x < h" xs] assms(2) by (metis le_less_trans not_le)
next
  assume "i < partition_point (\<lambda>x. f x < h) xs"
  then show "f (xs ! i) < h" unfolding partition_point_def using nth_mem set_takeWhileD takeWhile_nth by metis
qed

lemma lower_bound_closed:
  assumes l: "router_loaded rt c st d" and P: "P = partition_point (\<lambda>k. cr_hash k < h) (k_routes c)"
  shows "lo \<le> P \<Longrightarrow> P \<le> hi \<Longrightarrow> hi \<le> length (k_routes c) \<Longrightarrow> lower_bound d h (of_nat lo) (of_nat hi) = Some (of_nat P)"
proof (induction "hi - lo" arbitrary: lo hi rule: less_induct)
  case less
  have srt: "sorted (map cr_hash (k_routes c))"
    using l sorted_hashes by (auto simp: router_loaded_def compiled_for_def)
  have u: "unat (of_nat n :: u32) = n" if "n \<le> hi" for n using table_size(1) [OF l, of n] less.prems(3) that by simp
  show ?case
  proof (cases "lo < hi")
    case True
    let ?m = "lo + (hi - lo) div 2"
    have lt: "(of_nat lo :: u32) < of_nat hi" using True by (simp add: word_less_nat_alt u)
    have m_val: "unat (of_nat lo + (of_nat hi - of_nat lo) div 2 :: u32) = ?m" using middle_between(1) [OF lt] True by (simp add: u)
    have m: "of_nat lo + (of_nat hi - of_nat lo) div 2 = (of_nat ?m :: u32)"
      using arg_cong [OF m_val, of "of_nat :: nat \<Rightarrow> u32"] by (simp del: of_nat_add)
    have at: "?m < hi" using True by simp
    have h: "route_word d (of_nat ?m) ROUTE_PATH_HASH = Some (cr_hash (k_routes c ! ?m))"
    proof -
      have "route_at (k_words c) st (length (k_routes c) * 4) ?m (k_routes c ! ?m)"
        using l at less.prems(3) by (simp add: router_loaded_def program_laid_out_def)
      then show ?thesis using route_field [OF l, of ?m 0] at less.prems(3) by (simp add: route_at_def)
    qed
    have side: "cr_hash (k_routes c ! ?m) < h \<longleftrightarrow> ?m < P"
      using partition_point_iff [OF srt, of ?m h] at less.prems(3) by (simp add: P)
    have step: "lower_bound d h (of_nat lo) (of_nat hi) =
        (if ?m < P then lower_bound d h (of_nat (?m + 1)) (of_nat hi) else lower_bound d h (of_nat lo) (of_nat ?m))"
      using lt by (subst lower_bound.simps) (simp add: m h side add.commute del: of_nat_add)
    show ?thesis
    proof (cases "?m < P")
      case True
      then show ?thesis unfolding step using less.prems at \<open>lo < hi\<close> by (simp only: if_True) (intro less.hyps; linarith)
    next
      case False
      then show ?thesis unfolding step using less.prems at \<open>lo < hi\<close> by (simp only: if_False) (intro less.hyps; linarith)
    qed
  next
    case False
    then have "lo = P" "\<not> (of_nat lo :: u32) < of_nat hi" using less.prems by (simp_all add: word_less_nat_alt u)
    then show ?thesis by (subst lower_bound.simps) simp
  qed
qed

lemma scan_routes_closed:
  assumes l: "router_loaded rt c st d" and req: "reads req (request_word d r) (request_byte d r)" and t: "target_for req tg parts"
  shows "i \<le> length (k_routes c) \<Longrightarrow> \<exists>n. scan_routes d r tg (of_nat i) = Some (of_nat n)
    \<and> code_at (k_words c) n (case find (\<lambda>k. cr_path k = q_path parts)
        (takeWhile (\<lambda>k. cr_hash k = q_path_hash parts) (drop i (k_routes c))) of None \<Rightarrow> k_fallback c | Some k \<Rightarrow> cr_response k)"
proof (induction "length (k_routes c) - i" arbitrary: i)
  case 0
  then have "i = length (k_routes c)" by simp
  moreover obtain n where "pa_fallback_response_offset (bi_params d) = of_nat n" "code_at (k_words c) n (k_fallback c)"
    using l by (auto simp: router_loaded_def program_laid_out_def loaded_def)
  ultimately show ?case using table_size(2) [OF l le_refl] by (subst scan_routes.simps) auto
next
  case (Suc m)
  then have i: "i < length (k_routes c)" by simp
  let ?k = "k_routes c ! i"
  have more: "\<not> pa_route_count (bi_params d) \<le> of_nat i"
    using table_size [OF l, of i] table_size [OF l, of "length (k_routes c)"] i by (simp add: word_le_nat_alt)
  have at: "route_at (k_words c) st (length (k_routes c) * 4) i ?k" using l i by (simp add: router_loaded_def program_laid_out_def)
  have h: "route_word d (of_nat i) ROUTE_PATH_HASH = Some (cr_hash ?k)" using route_field [OF l i, of 0] at by (simp add: route_at_def)
  have tl: "drop i (k_routes c) = ?k # drop (Suc i) (k_routes c)" using i by (simp add: Cons_nth_drop_Suc)
  have hash: "tg_path_hash tg = q_path_hash parts" using t by (simp add: target_for_def)
  obtain nf where nf: "pa_fallback_response_offset (bi_params d) = of_nat nf" "code_at (k_words c) nf (k_fallback c)"
    using l by (auto simp: router_loaded_def program_laid_out_def loaded_def)
  obtain n where n: "k_words c ! (i * 4 + 3) = of_nat n" "code_at (k_words c) n (cr_response ?k)"
    using at by (auto simp: route_at_def)
  have off: "route_word d (of_nat i) ROUTE_RESPONSE_OFFSET = Some (of_nat n)" using route_field [OF l i, of 3] n(1) by simp
  have "\<exists>n. scan_routes d r tg (of_nat (Suc i)) = Some (of_nat n)
    \<and> code_at (k_words c) n (case find (\<lambda>k. cr_path k = q_path parts)
        (takeWhile (\<lambda>k. cr_hash k = q_path_hash parts) (drop (Suc i) (k_routes c))) of None \<Rightarrow> k_fallback c | Some k \<Rightarrow> cr_response k)"
    using Suc.hyps(2) i by (intro Suc.hyps(1)) simp_all
  then show ?case using more h nf n(2) off route_matches_closed [OF l i req t] hash
    by (subst scan_routes.simps) (auto simp: tl add.commute)
qed

lemma find_response_offset_closed:
  assumes l: "router_loaded rt c st d" and req: "reads req (request_word d r) (request_byte d r)" and t: "target_for req tg parts"
    and h: "q_path_hash parts = fnv1a (q_path parts)"
  shows "\<exists>n cr rp. find_response_offset d r tg = Some (of_nat n) \<and> code_at (k_words c) n cr \<and> represents_response st rp cr
    \<and> (case map_of (rt_routes rt) (q_path parts) of Some r \<Rightarrow> r | None \<Rightarrow> rt_fallback rt) = rp"
proof -
  let ?P = "partition_point (\<lambda>k. cr_hash k < q_path_hash parts) (k_routes c)"
  have P: "?P \<le> length (k_routes c)" by (simp add: partition_point_def length_takeWhile_le)
  have "lower_bound d (tg_path_hash tg) 0 (pa_route_count (bi_params d)) = Some (of_nat ?P)"
    using lower_bound_closed [OF l refl, of 0 "q_path_hash parts" "length (k_routes c)"] P table_size(2) [OF l le_refl] t
    by (simp add: target_for_def)
  moreover obtain n where "scan_routes d r tg (of_nat ?P) = Some (of_nat n)"
    "code_at (k_words c) n (case find (\<lambda>k. cr_path k = q_path parts)
        (takeWhile (\<lambda>k. cr_hash k = q_path_hash parts) (drop ?P (k_routes c))) of None \<Rightarrow> k_fallback c | Some k \<Rightarrow> cr_response k)"
    using scan_routes_closed [OF l req t P] by blast
  moreover have "compiled_for rt c st" using l by (simp add: router_loaded_def)
  from compiled_route_lookup [OF this, of "q_path parts"] obtain rp cr where
    "(case find (\<lambda>r. cr_path r = q_path parts) (takeWhile (\<lambda>r. cr_hash r = fnv1a (q_path parts))
        (drop (partition_point (\<lambda>r. cr_hash r < fnv1a (q_path parts)) (k_routes c)) (k_routes c))) of
          None \<Rightarrow> k_fallback c | Some r \<Rightarrow> cr_response r) = cr"
    "(case map_of (rt_routes rt) (q_path parts) of Some r \<Rightarrow> r | None \<Rightarrow> rt_fallback rt) = rp" "represents_response st rp cr" by blast
  ultimately show ?thesis by (auto simp: find_response_offset_def h)
qed

section \<open>One invocation\<close>

definition tail_free_router :: "router \<Rightarrow> bool" where
  "tail_free_router rt \<longleftrightarrow> list_all (\<lambda>(path, r). tail_free r) (rt_routes rt)
     \<and> tail_free (rt_fallback rt) \<and> tail_free (rt_bad_request rt) \<and> tail_free (rt_method_not_allowed rt)"

text \<open>Buffers that are large enough for \<open>n\<close> requests.\<close>

definition memory_for :: "bindings \<Rightarrow> nat \<Rightarrow> shader_memory \<Rightarrow> bool" where
  "memory_for d n mem \<longleftrightarrow> n \<le> length (mem_response_meta mem) \<and> n * stride_of d \<le> length (mem_output_words mem)
     \<and> length (mem_output_words mem) \<le> U32_MAX \<and> stride_of d * 4 \<le> U32_MAX \<and> n \<le> U32_MAX"

lemma memory_slot: "memory_for d n mem \<Longrightarrow> r < n \<Longrightarrow> slot_in d r (mem_output_words mem)"
  using mult_le_mono1 [of "r + 1" n "stride_of d"] by (simp add: memory_for_def slot_in_def)

lemma write_fixed_response:
  assumes l: "router_loaded rt c st d" and n: "code_at (k_words c) n cr" "represents_response st rp cr" "tail_free rp" "valid_headers rp"
    and req: "reads req (request_word d (of_nat r)) (request_byte d (of_nat r))" and t: "target_for req tg parts"
    and m: "memory_for d k mem" "r < k"
    and fits: "length (response_bytes rp parts (length req) (ascii ''gpu'')) \<le> 4 * stride_of d"
  shows "\<exists>mem'. write_response d (of_nat r) (of_nat n) tg mem = Some mem'
    \<and> answered d r (response_bytes rp parts (length req) (ascii ''gpu'')) mem mem'"
proof -
  have "response_loaded d c st n rp cr"
    using l n by (simp add: router_loaded_def response_loaded_def program_laid_out_def)
  then show ?thesis using m by (intro write_response_answered [OF _ t memory_slot [OF m] req fits]) (auto simp: memory_for_def)
qed

lemma process_requests_fixed:
  assumes l: "router_loaded rt c st d" and rp: "tail_free rp" "valid_headers rp" "represents_response st rp cr" "code_at (k_words c) n cr"
    and ra: "request_at d (of_nat r) req" and small: "length req + 10 \<le> U32_MAX" and m: "memory_for d k mem" "r < k"
    and fits: "length (response_bytes rp empty_parts (length req) (ascii ''gpu'')) \<le> 4 * stride_of d"
  shows "\<exists>mem'. write_response d (of_nat r) (of_nat n) (invalid_target (of_nat (length req))) mem = Some mem'
    \<and> answered d r (response_bytes rp empty_parts (length req) (ascii ''gpu'')) mem mem'"
  by (rule write_fixed_response [OF l rp(4,3,1,2) request_at_reads [OF ra] target_for_invalid m fits]) (use small in simp)

lemma fixed_responses:
  assumes l: "router_loaded rt c st d" and tf: "tail_free_router rt"
  obtains nb nm where
    "pa_bad_request_response_offset (bi_params d) = of_nat nb" "code_at (k_words c) nb (k_bad_request c)"
    "represents_response st (rt_bad_request rt) (k_bad_request c)" "tail_free (rt_bad_request rt)" "valid_headers (rt_bad_request rt)"
    "pa_method_not_allowed_response_offset (bi_params d) = of_nat nm" "code_at (k_words c) nm (k_method_not_allowed c)"
    "represents_response st (rt_method_not_allowed rt) (k_method_not_allowed c)" "tail_free (rt_method_not_allowed rt)"
    "valid_headers (rt_method_not_allowed rt)"
proof -
  have "compile rt = ok c" "compiled_for rt c st" "program_laid_out c st" "loaded d c" using l by (simp_all add: router_loaded_def)
  then show thesis using that tf compile_valid_headers [of rt c]
    by (auto simp: program_laid_out_def loaded_def compiled_for_def tail_free_router_def)
qed

text \<open>The first steps of an invocation.\<close>

lemma process_requests_start:
  assumes ra: "request_at d (of_nat r) req" and small: "length req + 10 \<le> U32_MAX" and count: "(of_nat r :: u32) < pa_request_count (bi_params d)"
  shows "length req < 4 \<Longrightarrow> process_requests d (of_nat r) mem
      = write_response d (of_nat r) (pa_bad_request_response_offset (bi_params d)) (invalid_target (of_nat (length req))) mem"
    and "4 \<le> length req \<Longrightarrow> take 4 req \<noteq> ascii ''GET '' \<Longrightarrow> process_requests d (of_nat r) mem
      = write_response d (of_nat r) (pa_method_not_allowed_response_offset (bi_params d)) (invalid_target (of_nat (length req))) mem"
    and "4 \<le> length req \<Longrightarrow> take 4 req = ascii ''GET '' \<Longrightarrow> parse_get_target d (of_nat r) (of_nat (length req)) = Some tg \<Longrightarrow>
      process_requests d (of_nat r) mem = (if tg_valid tg = 0
        then write_response d (of_nat r) (pa_bad_request_response_offset (bi_params d)) tg mem
        else Option.bind (find_response_offset d (of_nat r) tg) (\<lambda>offset. write_response d (of_nat r) offset tg mem))"
proof -
  obtain meta where meta: "fetch (bi_request_meta d) (of_nat r) = Some meta" "unat (rq_input_len meta) = length req"
    using ra by (auto simp: request_at_def)
  have input_len: "rq_input_len meta = of_nat (length req)"
    using arg_cong [OF meta(2), of "of_nat :: nat \<Rightarrow> u32"] by simp
  have "unat (of_nat (length req) :: u32) = length req" using small by (intro unat_of_nat_u32) simp
  then have short: "of_nat (length req) < (4 :: u32) \<longleftrightarrow> length req < 4" by (simp add: word_less_nat_alt)
  have count': "\<not> pa_request_count (bi_params d) \<le> of_nat r" using count by simp
  note get = is_get_request_closed [OF request_at_reads [OF ra]]
  note start = process_requests_def [of d "of_nat r" mem, unfolded if_not_P [OF count'] meta(1) Option.bind.bind_lunit Let_def input_len]
  show "length req < 4 \<Longrightarrow> process_requests d (of_nat r) mem
      = write_response d (of_nat r) (pa_bad_request_response_offset (bi_params d)) (invalid_target (of_nat (length req))) mem"
    "4 \<le> length req \<Longrightarrow> take 4 req \<noteq> ascii ''GET '' \<Longrightarrow> process_requests d (of_nat r) mem
      = write_response d (of_nat r) (pa_method_not_allowed_response_offset (bi_params d)) (invalid_target (of_nat (length req))) mem"
    "4 \<le> length req \<Longrightarrow> take 4 req = ascii ''GET '' \<Longrightarrow> parse_get_target d (of_nat r) (of_nat (length req)) = Some tg \<Longrightarrow>
      process_requests d (of_nat r) mem = (if tg_valid tg = 0
        then write_response d (of_nat r) (pa_bad_request_response_offset (bi_params d)) tg mem
        else Option.bind (find_response_offset d (of_nat r) tg) (\<lambda>offset. write_response d (of_nat r) offset tg mem))"
    using short by (simp_all add: start get)
qed

text \<open>One invocation answers its request, whatever the request is.\<close>

lemma process_requests_answered:
  assumes l: "router_loaded rt c st d" and tf: "tail_free_router rt"
    and ra: "request_at d (of_nat r) req" and small: "length req + 10 \<le> U32_MAX"
    and m: "memory_for d k mem" "r < k" and count: "(of_nat r :: u32) < pa_request_count (bi_params d)"
    and slot: "k_max_gpu_response_bytes c \<le> 4 * stride_of d"
  shows "\<exists>mem'. process_requests d (of_nat r) mem = Some mem' \<and> answered d r (gpu_route rt req) mem mem'"
proof -
  have comp: "compile rt = ok c" using l by (simp add: router_loaded_def)
  note rd = request_at_reads [OF ra] and start = process_requests_start [OF ra small count, where mem = mem]
  have fits: "length (answer_parsed rt q (length req) (ascii ''gpu'')) \<le> 4 * stride_of d" for q
    using answer_fits [OF comp, of "length req" q] slot small by (simp add: U32_MAX_def)
  obtain nb nm where nb: "pa_bad_request_response_offset (bi_params d) = of_nat nb" "code_at (k_words c) nb (k_bad_request c)"
    "represents_response st (rt_bad_request rt) (k_bad_request c)" "tail_free (rt_bad_request rt)" "valid_headers (rt_bad_request rt)"
    and nm: "pa_method_not_allowed_response_offset (bi_params d) = of_nat nm" "code_at (k_words c) nm (k_method_not_allowed c)"
    "represents_response st (rt_method_not_allowed rt) (k_method_not_allowed c)" "tail_free (rt_method_not_allowed rt)"
    "valid_headers (rt_method_not_allowed rt)" by (rule fixed_responses [OF l tf])
  have bad: "\<exists>mem'. write_response d (of_nat r) (pa_bad_request_response_offset (bi_params d)) (invalid_target (of_nat (length req))) mem = Some mem'
      \<and> answered d r (gpu_route rt req) mem mem'" if "gpu_parse_request req = ParsedBadRequest"
    using process_requests_fixed [OF l nb(4,5,3,2) ra small m] fits [of ParsedBadRequest] that
    by (simp add: nb(1) gpu_route_def answer_parsed_def)
  show ?thesis
  proof (cases "4 \<le> length req")
    case four: True
    show ?thesis
    proof (cases "take 4 req = ascii ''GET ''")
      case False
      then have "gpu_parse_request req = ParsedMethodNotAllowed" using four by (simp add: gpu_parse_request_def)
      then show ?thesis using process_requests_fixed [OF l nm(4,5,3,2) ra small m] fits [of ParsedMethodNotAllowed] start(2) [OF four False]
        by (simp add: nm(1) gpu_route_def answer_parsed_def)
    next
      case get: True
      show ?thesis
      proof (rule parse_get_target_any [OF rd small four get])
        assume a: "gpu_parse_request req = ParsedBadRequest"
          "parse_get_target d (of_nat r) (of_nat (length req)) = Some (invalid_target (of_nat (length req)))"
        have "tg_valid (invalid_target (of_nat (length req))) = 0" by (simp add: invalid_target_def)
        then show ?thesis using bad [OF a(1)] start(3) [OF four get a(2)] by simp
      next
        fix T ys
        let ?parts = "\<lparr>q_path = target_path T, q_query = target_query T, q_path_hash = fnv1a (target_path T)\<rparr>"
        assume a: "gpu_parse_request req = Get ?parts" "parse_get_target d (of_nat r) (of_nat (length req)) = Some (get_target req T)"
          "req = ascii ''GET '' @ T @ 32 # ys"
        note t = target_for_get [OF a(3) small]
        obtain n cr rp where n: "find_response_offset d (of_nat r) (get_target req T) = Some (of_nat n)" "code_at (k_words c) n cr"
          "represents_response st rp cr" "(case map_of (rt_routes rt) (target_path T) of Some r \<Rightarrow> r | None \<Rightarrow> rt_fallback rt) = rp"
          using find_response_offset_closed [OF l rd t] by auto
        have spec: "gpu_route rt req = response_bytes rp ?parts (length req) (ascii ''gpu'')"
          using a(1) n(4) by (simp add: gpu_route_def answer_parsed_def)
        have good: "tail_free rp" "valid_headers rp"
          using n(4) tf compile_valid_headers [OF comp]
          by (auto simp: tail_free_router_def list_all_iff split: option.splits dest: map_of_SomeD)
        have "tg_valid (get_target req T) \<noteq> 0" by (simp add: get_target_def)
        then show ?thesis using write_fixed_response [OF l n(2,3) good rd t m] fits [of "gpu_parse_request req"] n(1) start(3) [OF four get a(2)]
          by (simp add: spec [symmetric] gpu_route_def [symmetric])
      qed
    qed
  next
    case False
    then show ?thesis using bad start(1) by (simp add: gpu_parse_request_def)
  qed
qed

section \<open>A dispatch\<close>

definition holds_answer :: "bindings \<Rightarrow> nat \<Rightarrow> bytes \<Rightarrow> shader_memory \<Rightarrow> bool" where
  "holds_answer d r bs mem \<longleftrightarrow> r < length (mem_response_meta mem)
     \<and> (\<exists>status. mem_response_meta mem ! r = \<lparr>rs_output_len = of_nat (length bs), rs_status = status, rs_flags = 0\<rparr>)
     \<and> length bs \<le> 4 * stride_of d
     \<and> take (length bs) (drop (4 * (r * stride_of d)) (words_to_bytes (mem_output_words mem))) = bs"

lemma slot_bytes_cong:
  assumes "\<forall>j<length out. q * S \<le> j \<and> j < (q + 1) * S \<longrightarrow> out' ! j = out ! j" "length out' = length out" "n \<le> 4 * S"
  shows "take n (drop (4 * (q * S)) (words_to_bytes out')) = take n (drop (4 * (q * S)) (words_to_bytes out))"
proof -
  have slot: "take S (drop (q * S) out') = take S (drop (q * S) out)"
    using assms(1,2) by (intro nth_equalityI) auto
  have cut: "take n (drop (4 * (q * S)) (words_to_bytes ws)) = take n (words_to_bytes (take S (drop (q * S) ws)))" for ws
    using assms(3) by (simp add: words_to_bytes_drop words_to_bytes_take min_def)
  show ?thesis unfolding cut slot ..
qed

lemma answered_holds:
  assumes "answered d r bs mem mem'" "r < length (mem_response_meta mem)"
  shows "holds_answer d r bs mem'"
  using assms by (auto simp: answered_def holds_answer_def)

lemma answered_keeps:
  assumes a: "answered d r bs mem mem'" and q: "q \<noteq> r" and h: "holds_answer d q bs' mem"
  shows "holds_answer d q bs' mem'"
proof -
  let ?S = "stride_of d"
  have "j < r * ?S \<or> (r + 1) * ?S \<le> j" if "q * ?S \<le> j" "j < (q + 1) * ?S" for j
  proof (cases "q < r")
    case True
    then have "(q + 1) * ?S \<le> r * ?S" by (intro mult_le_mono1) simp
    then show ?thesis using that by simp
  next
    case False
    then have "(r + 1) * ?S \<le> q * ?S" using q by (intro mult_le_mono1) simp
    then show ?thesis using that by simp
  qed
  then have "take (length bs') (drop (4 * (q * ?S)) (words_to_bytes (mem_output_words mem'))) =
      take (length bs') (drop (4 * (q * ?S)) (words_to_bytes (mem_output_words mem)))"
    using a h by (intro slot_bytes_cong) (auto simp: answered_def holds_answer_def)
  then show ?thesis using a h q by (auto simp: answered_def holds_answer_def)
qed

lemma answered_memory:
  assumes "answered d r bs mem mem'"
  shows "memory_for d n mem' \<longleftrightarrow> memory_for d n mem" "length (mem_response_meta mem') = length (mem_response_meta mem)"
    "length (mem_output_words mem') = length (mem_output_words mem)"
  using assms by (auto simp: answered_def memory_for_def)

text \<open>The requests of a batch in the buffers, and the number of them in the parameters.\<close>

definition batch_loaded :: "bindings \<Rightarrow> bytes list \<Rightarrow> bool" where
  "batch_loaded d reqs \<longleftrightarrow> length reqs \<le> U32_MAX \<and> pa_request_count (bi_params d) = of_nat (length reqs)
     \<and> (\<forall>r<length reqs. request_at d (of_nat r) (reqs ! r) \<and> length (reqs ! r) + 10 \<le> U32_MAX)"

lemma dispatch_answers:
  assumes l: "router_loaded rt c st d" and tf: "tail_free_router rt" and b: "batch_loaded d reqs"
    and slot: "k_max_gpu_response_bytes c \<le> 4 * stride_of d"
  shows "distinct order \<Longrightarrow> \<forall>r\<in>set order. r \<le> U32_MAX \<Longrightarrow> memory_for d (length reqs) mem
    \<Longrightarrow> \<exists>mem'. dispatch_invocations d order mem = Some mem' \<and> length (mem_response_meta mem') = length (mem_response_meta mem)
      \<and> length (mem_output_words mem') = length (mem_output_words mem)
      \<and> (\<forall>r<length reqs. r \<in> set order \<longrightarrow> holds_answer d r (gpu_route rt (reqs ! r)) mem')
      \<and> (\<forall>r bs. r \<notin> set order \<longrightarrow> holds_answer d r bs mem \<longrightarrow> holds_answer d r bs mem')"
proof (induction order arbitrary: mem)
  case Nil
  then show ?case by simp
next
  case (Cons i order)
  have i: "unat (of_nat i :: u32) = i" using Cons.prems(2) by (intro unat_of_nat_u32) simp
  have count: "pa_request_count (bi_params d) = of_nat (length reqs)" "unat (of_nat (length reqs) :: u32) = length reqs"
    using b by (auto simp: batch_loaded_def intro: unat_of_nat_u32)
  show ?case
  proof (cases "i < length reqs")
    case True
    let ?a = "gpu_route rt (reqs ! i)"
    have at: "request_at d (of_nat i) (reqs ! i)" "length (reqs ! i) + 10 \<le> U32_MAX"
      using b True by (simp_all add: batch_loaded_def)
    have lt: "(of_nat i :: u32) < pa_request_count (bi_params d)" using True count i by (simp add: word_less_nat_alt)
    obtain mem1 where mem1: "process_requests d (of_nat i) mem = Some mem1" "answered d i ?a mem mem1"
      using process_requests_answered [OF l tf at(1,2) Cons.prems(3) True lt slot] by blast
    note keep = answered_memory [OF mem1(2)]
    have "distinct order" "\<forall>r\<in>set order. r \<le> U32_MAX" "memory_for d (length reqs) mem1" "i \<notin> set order"
      using Cons.prems keep(1) by simp_all
    from Cons.IH [OF this(1-3)] obtain mem2 where mem2: "dispatch_invocations d order mem1 = Some mem2"
      "length (mem_response_meta mem2) = length (mem_response_meta mem1)" "length (mem_output_words mem2) = length (mem_output_words mem1)"
      "\<forall>r<length reqs. r \<in> set order \<longrightarrow> holds_answer d r (gpu_route rt (reqs ! r)) mem2"
      "\<forall>r bs. r \<notin> set order \<longrightarrow> holds_answer d r bs mem1 \<longrightarrow> holds_answer d r bs mem2" by blast
    have "i < length (mem_response_meta mem)" using Cons.prems(3) True by (simp add: memory_for_def)
    from answered_holds [OF mem1(2) this] have "holds_answer d i ?a mem2" using mem2(5) \<open>i \<notin> set order\<close> by blast
    then show ?thesis using mem1(1) mem2 keep answered_keeps [OF mem1(2)] by auto
  next
    case False
    then have "pa_request_count (bi_params d) \<le> of_nat i" using count i by (simp add: word_le_nat_alt)
    then have "process_requests d (of_nat i) mem = Some mem" by (simp add: process_requests_def)
    then show ?thesis using Cons.IH [of mem] Cons.prems False by auto
  qed
qed

end
