(* ===== verification/HttpGpu.thy ===== *)
theory HttpGpu
  imports HttpShaderProofs Wgpu
begin

text \<open>
  \<open>GpuProcessor\<close> of \<open>src/processor/gpu.rs\<close>: buffer sizes and creation, packing of a batch, the
  dispatch of the shader of \<open>HttpShader\<close>, the two ways to read the answers back, decoding.
  The \<open>wgpu\<close> device is a parameter: \<open>wgpu_adapter\<close> says what it offers, \<open>gpu_events\<close> what
  happens during one batch. A \<open>wgpu\<close> validation error is a panic.
\<close>

section \<open>Parameters of the environment\<close>

record processor_limits =
  pl_max_batch_size :: nat
  pl_max_request_bytes :: nat
  pl_response_slot_bytes :: nat

text \<open>One batch: the order of the invocations, the result of \<open>poll\<close>, the callbacks of the mapping
  requests and whether the mapped ranges can be read.\<close>

record gpu_events =
  ev_order :: "nat list"
  ev_poll_ok :: bool
  ev_first :: map_callback
  ev_second :: map_callback
  ev_first_range :: bool
  ev_second_range :: bool

datatype http_gpu_error =
    RouterError router_error
  | AssetError asset_error
  | WordStrideOverflow
  | BufferSizeOverflow string
  | ReadbackSizeOverflow
  | NoAdapter
  | NoComputeShaders
  | DeviceRequestFailed
  | BatchTooLarge nat nat
  | RequestTooLarge nat nat nat
  | FieldNotU32 string
  | PollFailed
  | CallbackDisappeared
  | MappingFailed
  | MappedRangeFailed
  | ShaderFailed nat u32 u32
  | BadResponseLength nat nat

section \<open>The processor\<close>

definition WORKGROUP_SIZE :: nat where "WORKGROUP_SIZE = 128"

record http_gpu =
  hg_request_meta_buffer :: "request_meta list"
  hg_input_buffer :: "u32 list"
  hg_memory :: shader_memory
  hg_string_meta_buffer :: "string_meta list"
  hg_string_words_buffer :: "u32 list"
  hg_router_words_buffer :: "u32 list"
  hg_ids :: shader_string_ids
  hg_readback_bytes :: nat
  hg_direct_output_mapping :: bool
  hg_router_layout :: gpu_router_layout
  hg_max_batch_size :: nat
  hg_max_request_bytes :: nat
  hg_request_stride_words :: nat
  hg_response_stride_words :: nat
  hg_request_meta_scratch :: "request_meta list"
  hg_input_words_scratch :: "u32 list"
  hg_meta_mapped :: bool
  hg_output_mapped :: bool
  hg_readback_mapped :: bool

definition words_for_bytes :: "nat \<Rightarrow> (http_gpu_error, nat) outcome" where
  "words_for_bytes n = (case checked_add_usize n 3 of None \<Rightarrow> fail WordStrideOverflow | Some v \<Rightarrow> ok (v div 4))"

definition checked_buffer_bytes :: "string \<Rightarrow> nat \<Rightarrow> nat \<Rightarrow> (http_gpu_error, nat) outcome" where
  "checked_buffer_bytes label item_count stride =
     (case checked_mul_usize item_count stride of None \<Rightarrow> fail (BufferSizeOverflow label) | Some n \<Rightarrow> ok n)"

definition lift_error :: "('e \<Rightarrow> 'f) \<Rightarrow> ('e, 'a) outcome \<Rightarrow> ('f, 'a) outcome" where
  "lift_error f m = map_option (\<lambda>r. case r of Inl e \<Rightarrow> Inl (f e) | Inr x \<Rightarrow> Inr x) m"

text \<open>\<open>create_buffer\<close> and the layout entry: within the limits, and not below the size the binding needs.\<close>

definition create_buffer :: "wgpu_adapter \<Rightarrow> nat \<Rightarrow> nat \<Rightarrow> (http_gpu_error, unit) outcome" where
  "create_buffer ad minimum_size n =
     or_panic (if minimum_size \<le> n \<and> n \<le> ad_max_binding ad \<and> n \<le> ad_max_buffer ad then Some () else None)"

definition REQUEST_META_BYTES :: nat where "REQUEST_META_BYTES = 16"
definition RESPONSE_META_BYTES :: nat where "RESPONSE_META_BYTES = 16"
definition STRING_META_BYTES :: nat where "STRING_META_BYTES = 16"

definition zero_memory :: "nat \<Rightarrow> nat \<Rightarrow> shader_memory" where
  "zero_memory metas words = \<lparr>mem_response_meta = replicate metas \<lparr>rs_output_len = 0, rs_status = 0, rs_flags = 0\<rparr>,
     mem_output_words = replicate words 0\<rparr>"

definition from_compiled :: "bytes \<Rightarrow> wgpu_adapter option \<Rightarrow> processor_limits \<Rightarrow> compiled_router \<Rightarrow> (http_gpu_error, http_gpu) outcome" where
  "from_compiled shader_body adapter limits router =
     and_then (lift_error RouterError (validate_gpu_response_slot router (pl_response_slot_bytes limits))) (\<lambda>_.
     and_then (lift_error AssetError (build_shader_assets shader_body router)) (\<lambda>assets.
     and_then (words_for_bytes (pl_max_request_bytes limits)) (\<lambda>request_stride_words.
     and_then (words_for_bytes (pl_response_slot_bytes limits)) (\<lambda>configured_response_stride_words.
     and_then (words_for_bytes (k_max_gpu_response_bytes router)) (\<lambda>response_stride_words.
     and_then (checked_buffer_bytes ''request metadata'' (pl_max_batch_size limits) REQUEST_META_BYTES) (\<lambda>request_meta_bytes.
     and_then (checked_buffer_bytes ''request input'' (pl_max_batch_size limits) (request_stride_words * 4)) (\<lambda>input_bytes.
     and_then (checked_buffer_bytes ''response metadata'' (pl_max_batch_size limits) RESPONSE_META_BYTES) (\<lambda>response_meta_bytes.
     and_then (checked_buffer_bytes ''response output'' (pl_max_batch_size limits) (response_stride_words * 4)) (\<lambda>output_bytes.
     and_then (case checked_add_usize response_meta_bytes output_bytes of None \<Rightarrow> fail ReadbackSizeOverflow | Some n \<Rightarrow> ok n) (\<lambda>readback_bytes.
     and_then (checked_buffer_bytes ''shader string metadata'' (length (sa_metadata assets)) STRING_META_BYTES) (\<lambda>string_meta_bytes.
     and_then (checked_buffer_bytes ''shader string arena'' (length (sa_words assets)) 4) (\<lambda>string_words_bytes.
     and_then (checked_buffer_bytes ''GPU router program'' (length (k_words router)) 4) (\<lambda>router_words_bytes.
     case adapter of None \<Rightarrow> fail NoAdapter
     | Some ad \<Rightarrow>
         let direct_output_mapping = (ad_integrated ad \<and> ad_mappable_primary_buffers ad) in
         if \<not> ad_compute_shaders ad then fail NoComputeShaders
         else if \<not> ad_device_granted ad then fail DeviceRequestFailed
         else
           and_then (create_buffer ad REQUEST_META_BYTES request_meta_bytes) (\<lambda>_.
           and_then (create_buffer ad 4 input_bytes) (\<lambda>_.
           and_then (create_buffer ad RESPONSE_META_BYTES response_meta_bytes) (\<lambda>_.
           and_then (create_buffer ad 4 output_bytes) (\<lambda>_.
           and_then (create_buffer ad STRING_META_BYTES string_meta_bytes) (\<lambda>_.
           and_then (create_buffer ad 4 string_words_bytes) (\<lambda>_.
           and_then (create_buffer ad 4 router_words_bytes) (\<lambda>_.
           and_then (or_panic (if direct_output_mapping \<or> readback_bytes \<le> ad_max_buffer ad then Some () else None)) (\<lambda>_.
           ok \<lparr>hg_request_meta_buffer = replicate (pl_max_batch_size limits) \<lparr>rq_input_len = 0, rq_word_offset = 0\<rparr>,
               hg_input_buffer = replicate (pl_max_batch_size limits * request_stride_words) 0,
               hg_memory = zero_memory (pl_max_batch_size limits) (pl_max_batch_size limits * response_stride_words),
               hg_string_meta_buffer = sa_metadata assets, hg_string_words_buffer = sa_words assets,
               hg_router_words_buffer = k_words router, hg_ids = k_ids router,
               hg_readback_bytes = readback_bytes, hg_direct_output_mapping = direct_output_mapping,
               hg_router_layout = k_layout router, hg_max_batch_size = pl_max_batch_size limits,
               hg_max_request_bytes = pl_max_request_bytes limits, hg_request_stride_words = request_stride_words,
               hg_response_stride_words = response_stride_words, hg_request_meta_scratch = [], hg_input_words_scratch = [],
               hg_meta_mapped = False, hg_output_mapped = False, hg_readback_mapped = False\<rparr>)))))))))))))))))))))"

definition with_router :: "bytes \<Rightarrow> wgpu_adapter option \<Rightarrow> processor_limits \<Rightarrow> router \<Rightarrow> (http_gpu_error, http_gpu) outcome" where
  "with_router shader_body adapter limits rt =
     and_then (lift_error RouterError (compile rt)) (\<lambda>router.
     and_then (lift_error RouterError (validate_gpu_response_slot router (pl_response_slot_bytes limits))) (\<lambda>_.
     from_compiled shader_body adapter limits router))"

section \<open>Packing a batch\<close>

definition pack_request_words :: "bytes \<Rightarrow> u32 list \<Rightarrow> u32 list option" where
  "pack_request_words request destination = map_option bytes_to_words (copy_into (words_to_bytes destination) 0 request)"

definition field_u32 :: "string \<Rightarrow> nat \<Rightarrow> http_gpu_error + u32" where
  "field_u32 what n = (if n \<le> U32_MAX then Inr (of_nat n) else Inl (FieldNotU32 what))"

fun pack_loop :: "nat \<Rightarrow> nat \<Rightarrow> bytes list \<Rightarrow> request_meta list \<Rightarrow> u32 list
    \<Rightarrow> (request_meta list \<times> u32 list \<times> (http_gpu_error + unit)) option" where
  "pack_loop max_request_bytes i [] metadata words = Some (metadata, words, Inr ())"
| "pack_loop max_request_bytes i (request # rest) metadata words =
     (if length request > max_request_bytes
      then Some (metadata, words, Inl (RequestTooLarge i (length request) max_request_bytes))
      else
        let word_offset = length words in
        (case words_for_bytes (length request) of
           None \<Rightarrow> None
         | Some (Inl e) \<Rightarrow> Some (metadata, words, Inl e)
         | Some (Inr request_words) \<Rightarrow> do {
             slot \<leftarrow> pack_request_words request (replicate request_words 0);
             let words = take word_offset words @ slot;
             case field_u32 ''request length'' (length request) of
               Inl e \<Rightarrow> Some (metadata, words, Inl e)
             | Inr input_len \<Rightarrow>
                 (case field_u32 ''request word offset'' word_offset of
                    Inl e \<Rightarrow> Some (metadata, words, Inl e)
                  | Inr offset \<Rightarrow>
                      pack_loop max_request_bytes (i + 1) rest
                        (metadata @ [\<lparr>rq_input_len = input_len, rq_word_offset = offset\<rparr>]) words) }))"

definition pack_request_batch :: "bytes list \<Rightarrow> nat \<Rightarrow> (request_meta list \<times> u32 list \<times> (http_gpu_error + unit)) option" where
  "pack_request_batch requests max_request_bytes = pack_loop max_request_bytes 0 requests [] []"

section \<open>Decoding the answers\<close>

text \<open>\<open>bytemuck::pod_read_unaligned\<close> of a \<open>ResponseMeta\<close>.\<close>

definition read_response_meta :: "bytes \<Rightarrow> response_meta" where
  "read_response_meta bs = \<lparr>rs_output_len = le_val (take 4 bs), rs_status = le_val (take 4 (drop 4 bs)),
     rs_flags = le_val (take 4 (drop 8 bs))\<rparr>"

fun decode_loop :: "nat \<Rightarrow> bytes \<Rightarrow> bytes \<Rightarrow> nat \<Rightarrow> nat \<Rightarrow> bytes list \<Rightarrow> (http_gpu_error, bytes list) outcome" where
  "decode_loop stride_bytes meta_data output_data i 0 responses = ok responses"
| "decode_loop stride_bytes meta_data output_data i (Suc n) responses =
     and_then (or_panic (slice meta_data (i * RESPONSE_META_BYTES) (i * RESPONSE_META_BYTES + RESPONSE_META_BYTES))) (\<lambda>bs.
     let meta = read_response_meta bs; output_len = unat (rs_output_len meta) in
     if rs_flags meta \<noteq> 0 then fail (ShaderFailed i (rs_status meta) (rs_flags meta))
     else if output_len = 0 \<or> output_len > stride_bytes then fail (BadResponseLength output_len i)
     else and_then (or_panic (slice output_data (i * stride_bytes) (i * stride_bytes + output_len))) (\<lambda>r.
       decode_loop stride_bytes meta_data output_data (i + 1) n (responses @ [r])))"

definition decode_responses :: "http_gpu \<Rightarrow> nat \<Rightarrow> bytes \<Rightarrow> bytes \<Rightarrow> (http_gpu_error, bytes list) outcome" where
  "decode_responses g request_count meta_data output_data =
     decode_loop (hg_response_stride_words g * 4) meta_data output_data 0 request_count []"

section \<open>Reading back\<close>

definition response_meta_bytes :: "response_meta \<Rightarrow> bytes" where
  "response_meta_bytes m = u32_to_le (rs_output_len m) @ u32_to_le (rs_status m) @ u32_to_le (rs_flags m) @ u32_to_le 0"

definition meta_buffer_bytes :: "http_gpu \<Rightarrow> bytes" where
  "meta_buffer_bytes g = concat (map response_meta_bytes (mem_response_meta (hg_memory g)))"

definition output_buffer_bytes :: "http_gpu \<Rightarrow> bytes" where
  "output_buffer_bytes g = words_to_bytes (mem_output_words (hg_memory g))"

definition read_direct_responses :: "gpu_events \<Rightarrow> http_gpu \<Rightarrow> nat \<Rightarrow> nat \<Rightarrow> nat \<Rightarrow> (http_gpu \<times> (http_gpu_error + bytes list)) option" where
  "read_direct_responses ev g request_count meta_bytes output_bytes = do {
     meta_slice \<leftarrow> slice (meta_buffer_bytes g) 0 meta_bytes;
     output_slice \<leftarrow> slice (output_buffer_bytes g) 0 output_bytes;
     if hg_meta_mapped g \<or> hg_output_mapped g then None
     else
       let g = g\<lparr>hg_meta_mapped := ev_first ev = Mapped, hg_output_mapped := ev_second ev = Mapped\<rparr> in
       if \<not> ev_poll_ok ev then Some (g, Inl PollFailed)
       else if ev_first ev = CallbackLost then Some (g, Inl CallbackDisappeared)
       else if ev_second ev = CallbackLost then Some (g, Inl CallbackDisappeared)
       else if ev_first ev = MapFailed
       then Some (if ev_second ev = Mapped then g\<lparr>hg_output_mapped := False\<rparr> else g, Inl MappingFailed)
       else if ev_second ev = MapFailed then Some (g\<lparr>hg_meta_mapped := False\<rparr>, Inl MappingFailed)
       else if \<not> ev_first_range ev then Some (g\<lparr>hg_output_mapped := False, hg_meta_mapped := False\<rparr>, Inl MappedRangeFailed)
       else if \<not> ev_second_range ev then Some (g\<lparr>hg_output_mapped := False, hg_meta_mapped := False\<rparr>, Inl MappedRangeFailed)
       else do {
         result \<leftarrow> decode_responses g request_count meta_slice output_slice;
         Some (g\<lparr>hg_output_mapped := False, hg_meta_mapped := False\<rparr>, result) } }"

text \<open>The combined path reads the copies of both buffers, one after the other, in the readback buffer.\<close>

definition read_responses :: "gpu_events \<Rightarrow> http_gpu \<Rightarrow> nat \<Rightarrow> nat \<Rightarrow> nat \<Rightarrow> (http_gpu \<times> (http_gpu_error + bytes list)) option" where
  "read_responses ev g request_count meta_bytes output_bytes =
     (if hg_direct_output_mapping g then read_direct_responses ev g request_count meta_bytes output_bytes
      else
        (case checked_add_usize meta_bytes output_bytes of
           None \<Rightarrow> Some (g, Inl ReadbackSizeOverflow)
         | Some readback_bytes \<Rightarrow> do {
             meta_copy \<leftarrow> slice (meta_buffer_bytes g) 0 meta_bytes;
             output_copy \<leftarrow> slice (output_buffer_bytes g) 0 output_bytes;
             if hg_readback_mapped g \<or> \<not> readback_bytes \<le> hg_readback_bytes g then None
             else
               let g = g\<lparr>hg_readback_mapped := ev_first ev = Mapped\<rparr> in
               if \<not> ev_poll_ok ev then Some (g, Inl PollFailed)
               else if ev_first ev = CallbackLost then Some (g, Inl CallbackDisappeared)
               else if ev_first ev = MapFailed then Some (g, Inl MappingFailed)
               else if \<not> ev_first_range ev then Some (g, Inl MappedRangeFailed)
               else
                 let data = meta_copy @ output_copy in do {
                   result \<leftarrow> decode_responses g request_count (take meta_bytes data) (drop meta_bytes data);
                   Some (g\<lparr>hg_readback_mapped := False\<rparr>, result) } }))"

section \<open>A batch\<close>

definition batch_params :: "http_gpu \<Rightarrow> u32 \<Rightarrow> u32 \<Rightarrow> u32 \<Rightarrow> params" where
  "batch_params g request_stride response_stride request_count = \<lparr>pa_request_stride_words = request_stride,
     pa_response_stride_words = response_stride, pa_request_count = request_count,
     pa_route_count = route_count (hg_router_layout g),
     pa_fallback_response_offset = fallback_response_offset (hg_router_layout g),
     pa_bad_request_response_offset = bad_request_response_offset (hg_router_layout g),
     pa_method_not_allowed_response_offset = method_not_allowed_response_offset (hg_router_layout g)\<rparr>"

definition gpu_bindings :: "http_gpu \<Rightarrow> params \<Rightarrow> bindings" where
  "gpu_bindings g p = \<lparr>bi_params = p, bi_request_meta = hg_request_meta_buffer g, bi_input_words = hg_input_buffer g,
     bi_string_meta = hg_string_meta_buffer g, bi_string_words = hg_string_words_buffer g,
     bi_router_words = hg_router_words_buffer g, bi_ids = hg_ids g\<rparr>"

text \<open>Parameters, uploads, dispatch and readback. A mapped buffer must not be used by a submission.\<close>

definition run_batch :: "gpu_events \<Rightarrow> http_gpu \<Rightarrow> nat \<Rightarrow> params \<Rightarrow> (http_gpu \<times> (http_gpu_error + bytes list)) option" where
  "run_batch ev g request_count p = do {
     metas \<leftarrow> write_buffer (hg_request_meta_buffer g) (hg_request_meta_scratch g);
     words \<leftarrow> write_buffer (hg_input_buffer g) (hg_input_words_scratch g);
     let g = g\<lparr>hg_request_meta_buffer := metas, hg_input_buffer := words\<rparr>;
     if hg_meta_mapped g \<or> hg_output_mapped g \<or> hg_readback_mapped g then None
     else do {
       memory \<leftarrow> dispatch_invocations (gpu_bindings g p) (ev_order ev) (hg_memory g);
       read_responses ev (g\<lparr>hg_memory := memory\<rparr>) request_count
         (request_count * RESPONSE_META_BYTES) (request_count * hg_response_stride_words g * 4) } }"

definition process_gpu_batch :: "gpu_events \<Rightarrow> http_gpu \<Rightarrow> bytes list \<Rightarrow> (http_gpu \<times> (http_gpu_error + bytes list)) option" where
  "process_gpu_batch ev g requests =
     (if requests = [] then Some (g, Inr [])
      else if length requests > hg_max_batch_size g
      then Some (g, Inl (BatchTooLarge (length requests) (hg_max_batch_size g)))
      else do {
        (metadata, words, packed) \<leftarrow> pack_request_batch requests (hg_max_request_bytes g);
        let g = g\<lparr>hg_request_meta_scratch := metadata, hg_input_words_scratch := words\<rparr>;
        case packed of Inl e \<Rightarrow> Some (g, Inl e)
        | Inr _ \<Rightarrow>
            (case field_u32 ''request stride'' (hg_request_stride_words g) of
               Inl e \<Rightarrow> Some (g, Inl e)
             | Inr request_stride \<Rightarrow>
                 (case field_u32 ''response stride'' (hg_response_stride_words g) of
                    Inl e \<Rightarrow> Some (g, Inl e)
                  | Inr response_stride \<Rightarrow>
                      (case field_u32 ''request count'' (length requests) of
                         Inl e \<Rightarrow> Some (g, Inl e)
                       | Inr request_count \<Rightarrow> run_batch ev g (length requests) (batch_params g request_stride response_stride request_count)))) })"

text \<open>The invocations of a dispatch: \<open>ceil(count / 128)\<close> workgroups.\<close>

definition dispatched :: "nat \<Rightarrow> nat list" where
  "dispatched request_count = [0..<div_ceil request_count WORKGROUP_SIZE * WORKGROUP_SIZE]"

end
