(* ===== verification/HttpGpuProofs.thy ===== *)
theory HttpGpuProofs
  imports HttpGpu
begin

text \<open>
  The HTTP GPU processor answers as declared. \<open>packed_requests\<close>: packing and reading at the
  metadata gives the requests back; \<open>decoded\<close>: decoding gives the answers the shader left in the
  slots; \<open>http_gpu_ready\<close> is the invariant of a processor between batches.
\<close>

section \<open>Sizes\<close>

lemma words_for_bytes_ok: "words_for_bytes n = ok w \<longleftrightarrow> n + 3 \<le> USIZE_MAX \<and> w = div_ceil n 4"
proof -
  have "(n + 3) div 4 = div_ceil n 4" unfolding div_ceil_def by presburger
  then show ?thesis by (auto simp: words_for_bytes_def checked_add_usize_def)
qed

lemma checked_buffer_bytes_ok: "checked_buffer_bytes l n k = ok b \<longleftrightarrow> n * k \<le> USIZE_MAX \<and> b = n * k"
  by (auto simp: checked_buffer_bytes_def checked_mul_usize_def)

lemma lift_error_ok [simp]: "lift_error f m = ok x \<longleftrightarrow> m = ok x"
proof (cases m)
  case (Some r)
  then show ?thesis by (cases r) (simp_all add: lift_error_def ok_def)
qed (simp add: lift_error_def ok_def)

lemma create_buffer_ok: "create_buffer ad k n = ok u \<longleftrightarrow> k \<le> n \<and> n \<le> ad_max_binding ad \<and> n \<le> ad_max_buffer ad"
  by (auto simp: create_buffer_def)

section \<open>Packing\<close>

definition request_words :: "bytes \<Rightarrow> u32 list" where
  "request_words r = bytes_to_words (pad_words r)"

lemma length_request_words: "length (request_words r) = div_ceil (length r) 4"
  by (simp add: request_words_def length_bytes_to_words)

lemma request_words_bytes: "words_to_bytes (request_words r) = pad_words r"
  by (simp add: request_words_def words_to_bytes_to_words)

fun request_metas :: "nat \<Rightarrow> bytes list \<Rightarrow> request_meta list" where
  "request_metas off [] = []"
| "request_metas off (r # rs) = \<lparr>rq_input_len = of_nat (length r), rq_word_offset = of_nat off\<rparr> # request_metas (off + div_ceil (length r) 4) rs"

lemma length_request_metas [simp]: "length (request_metas off rs) = length rs"
  by (induction off rs rule: request_metas.induct) simp_all

definition batch_words :: "bytes list \<Rightarrow> u32 list" where
  "batch_words rs = concat (map request_words rs)"

lemma batch_words_simps [simp]: "batch_words [] = []" "batch_words (r # rs) = request_words r @ batch_words rs"
  by (simp_all add: batch_words_def)

lemma pack_request_words_closed: "pack_request_words r (replicate (div_ceil (length r) 4) 0) = Some (request_words r)"
proof -
  have "words_to_bytes (replicate n 0) = replicate (4 * n) 0" for n
    by (induction n) (simp_all add: words_to_bytes_def u32_to_le_def eval_nat_numeral)
  then show ?thesis using div_ceil_4_bound [of r]
    by (simp add: pack_request_words_def copy_into_def request_words_def pad_words_def)
qed

lemma pack_loop_closed:
  assumes "\<forall>r\<in>set rs. length r \<le> max_bytes" "max_bytes \<le> U32_MAX" "length ws + length (batch_words rs) \<le> U32_MAX"
  shows "pack_loop max_bytes i rs metas ws = Some (metas @ request_metas (length ws) rs, ws @ batch_words rs, Inr ())"
  using assms
proof (induction rs arbitrary: i metas ws)
  case (Cons r rs)
  have r: "length r \<le> max_bytes" "length r \<le> U32_MAX" using Cons.prems by auto
  have w: "words_for_bytes (length r) = Some (Inr (div_ceil (length r) 4))"
    using r(2) words_for_bytes_ok [of "length r" "div_ceil (length r) 4"] by (simp add: ok_def U32_MAX_def USIZE_MAX_def)
  have "pack_loop max_bytes (i + 1) rs (metas @ [\<lparr>rq_input_len = of_nat (length r), rq_word_offset = of_nat (length ws)\<rparr>]) (ws @ request_words r)
      = Some ((metas @ [\<lparr>rq_input_len = of_nat (length r), rq_word_offset = of_nat (length ws)\<rparr>])
          @ request_metas (length (ws @ request_words r)) rs, (ws @ request_words r) @ batch_words rs, Inr ())"
    using Cons.prems by (intro Cons.IH) simp_all
  then show ?case using r w Cons.prems(3)
    by (simp add: pack_request_words_closed field_u32_def Let_def length_request_words)
qed simp

text \<open>Reading a request back at its metadata, whatever follows in the buffer.\<close>

lemma packed_requests:
  assumes "length ws + length (batch_words rs) \<le> U32_MAX" "\<forall>r\<in>set rs. length r \<le> U32_MAX" "i < length rs"
  shows "unat (rq_input_len (request_metas (length ws) rs ! i)) = length (rs ! i)
    \<and> 4 * unat (rq_word_offset (request_metas (length ws) rs ! i)) + length (rs ! i) \<le> 4 * length (ws @ batch_words rs)
    \<and> take (length (rs ! i)) (drop (4 * unat (rq_word_offset (request_metas (length ws) rs ! i))) (words_to_bytes (ws @ batch_words rs @ ys))) = rs ! i"
  using assms
proof (induction rs arbitrary: ws i)
  case (Cons r rs)
  show ?case
  proof (cases i)
    case 0
    have u: "unat (of_nat (length ws) :: u32) = length ws" "unat (of_nat (length r) :: u32) = length r"
      using Cons.prems(1,2) by (auto intro!: unat_of_nat_u32)
    have bytes: "words_to_bytes (ws @ batch_words (r # rs) @ ys) = words_to_bytes ws @ pad_words r @ words_to_bytes (batch_words rs @ ys)"
      by (simp add: words_to_bytes_def flip: request_words_bytes)
    show ?thesis using 0 div_ceil_4_bound [of r]
      by (simp only: bytes) (simp add: u length_request_words pad_words_def)
  next
    case (Suc j)
    then show ?thesis using Cons.IH [of "ws @ request_words r" j] Cons.prems by (simp add: length_request_words)
  qed
qed simp

lemma batch_words_length:
  assumes "\<forall>r\<in>set rs. length r \<le> max_bytes"
  shows "length (batch_words rs) \<le> length rs * div_ceil max_bytes 4"
  using assms
proof (induction rs)
  case (Cons r rs)
  have "div_ceil (length r) 4 \<le> div_ceil max_bytes 4"
  proof -
    have "(a + 3) div 4 = div_ceil a 4" for a unfolding div_ceil_def by presburger
    then show ?thesis using Cons.prems div_le_mono [of "length r + 3" "max_bytes + 3" 4] by simp
  qed
  then show ?case using Cons by (simp add: length_request_words)
qed simp

section \<open>Decoding\<close>

lemma response_meta_roundtrip: "read_response_meta (response_meta_bytes m) = m"
  by (simp add: read_response_meta_def response_meta_bytes_def)

lemma length_response_meta_bytes [simp]: "length (response_meta_bytes m) = 16"
  by (simp add: response_meta_bytes_def)

lemma meta_slice:
  assumes "i < n" "n \<le> length metas"
  shows "slice (take (n * 16) (concat (map response_meta_bytes metas))) (i * 16) (i * 16 + 16) = Some (response_meta_bytes (metas ! i))"
proof -
  have len: "length (concat (map response_meta_bytes ms)) = 16 * length ms" for ms by (induction ms) simp_all
  have "take 16 (drop (i * 16) (concat (map response_meta_bytes ms))) = response_meta_bytes (ms ! i)" if "i < length ms" for ms
    using that
  proof (induction ms arbitrary: i)
    case (Cons m ms)
    then show ?case by (cases i) (simp_all add: add.commute)
  qed simp
  moreover have "16 \<le> n * 16 - i * 16" using assms(1) by simp
  ultimately show ?thesis using assms len [of metas] by (simp add: slice_def drop_take min_def)
qed

lemma decode_loop_closed:
  assumes "\<forall>r<n. holds_answer d r (ans r) mem" "n \<le> length (mem_response_meta mem)" "S = 4 * stride_of d" "S \<le> U32_MAX"
    "n * S \<le> 4 * length (mem_output_words mem)" "\<forall>r<n. ans r \<noteq> []"
  shows "i + m = n \<Longrightarrow> decode_loop S (take (n * 16) (concat (map response_meta_bytes (mem_response_meta mem))))
      (take (n * S) (words_to_bytes (mem_output_words mem))) i m acc = ok (acc @ map ans [i..<n])"
proof (induction m arbitrary: i acc)
  case (Suc m)
  then have i: "i < n" by simp
  obtain status where meta: "mem_response_meta mem ! i = \<lparr>rs_output_len = of_nat (length (ans i)), rs_status = status, rs_flags = 0\<rparr>"
    and len: "length (ans i) \<le> S" and bytes: "take (length (ans i)) (drop (4 * (i * stride_of d)) (words_to_bytes (mem_output_words mem))) = ans i"
    using assms(1,3) i by (auto simp: holds_answer_def)
  have u: "unat (of_nat (length (ans i)) :: u32) = length (ans i)" using len assms(4) by (intro unat_of_nat_u32) simp
  have "i * S + S \<le> n * S" using i mult_le_mono1 [of "i + 1" n S] by simp
  then have fit: "i * S + length (ans i) \<le> n * S" using len by simp
  have cut: "length (ans i) \<le> n * S - i * S" using fit by simp
  have pos: "4 * (i * stride_of d) = i * S" by (simp add: assms(3))
  have "take (length (ans i)) (drop (i * S) (take (n * S) (words_to_bytes (mem_output_words mem)))) = ans i"
    using bytes cut pos by (simp add: drop_take min_def)
  then have slot: "slice (take (n * S) (words_to_bytes (mem_output_words mem))) (i * S) (i * S + length (ans i)) = Some (ans i)"
    using fit assms(5) by (simp add: slice_def)
  have "decode_loop S (take (n * 16) (concat (map response_meta_bytes (mem_response_meta mem))))
      (take (n * S) (words_to_bytes (mem_output_words mem))) (i + 1) m (acc @ [ans i]) = ok ((acc @ [ans i]) @ map ans [i + 1..<n])"
    using Suc.prems by (intro Suc.IH) simp
  then show ?case using meta_slice [OF i assms(2)] slot u len assms(6) i
    by (simp add: RESPONSE_META_BYTES_def response_meta_roundtrip meta Let_def upt_conv_Cons)
qed simp

section \<open>The invariant of a processor\<close>

definition unmapped :: "http_gpu \<Rightarrow> bool" where
  "unmapped g \<longleftrightarrow> \<not> hg_meta_mapped g \<and> \<not> hg_output_mapped g \<and> \<not> hg_readback_mapped g"

definition buffers_sized :: "http_gpu \<Rightarrow> bool" where
  "buffers_sized g \<longleftrightarrow> 0 < hg_max_batch_size g
     \<and> length (hg_request_meta_buffer g) = hg_max_batch_size g
     \<and> length (hg_input_buffer g) = hg_max_batch_size g * hg_request_stride_words g
     \<and> length (mem_response_meta (hg_memory g)) = hg_max_batch_size g
     \<and> length (mem_output_words (hg_memory g)) = hg_max_batch_size g * hg_response_stride_words g
     \<and> hg_request_stride_words g = div_ceil (hg_max_request_bytes g) 4
     \<and> hg_max_batch_size g * 16 \<le> MAX_STORAGE_BINDING
     \<and> hg_max_batch_size g * (hg_request_stride_words g * 4) \<le> MAX_STORAGE_BINDING
     \<and> hg_max_batch_size g * (hg_response_stride_words g * 4) \<le> MAX_STORAGE_BINDING
     \<and> length (hg_string_words_buffer g) * 4 \<le> MAX_STORAGE_BINDING
     \<and> (\<not> hg_direct_output_mapping g \<longrightarrow>
          hg_readback_bytes g = hg_max_batch_size g * 16 + hg_max_batch_size g * (hg_response_stride_words g * 4))"

definition router_uploaded :: "router \<Rightarrow> compiled_router \<Rightarrow> string_table \<Rightarrow> http_gpu \<Rightarrow> bool" where
  "router_uploaded rt c st g \<longleftrightarrow> compile rt = ok c \<and> compiled_for rt c st \<and> program_laid_out c st \<and> strings_for c st
     \<and> hg_router_words_buffer g = k_words c \<and> hg_ids g = k_ids c \<and> hg_router_layout g = k_layout c
     \<and> hg_response_stride_words g = div_ceil (k_max_gpu_response_bytes c) 4
     \<and> list_all2 (string_at (words_to_bytes (hg_string_words_buffer g))) (hg_string_meta_buffer g) (arena_strings c)"

definition http_gpu_ready :: "router \<Rightarrow> http_gpu \<Rightarrow> bool" where
  "http_gpu_ready rt g \<longleftrightarrow> unmapped g \<and> buffers_sized g \<and> (\<exists>c st. router_uploaded rt c st g)"

lemma compile_strings_for:
  assumes "compile rt = ok c"
  obtains st where "compiled_for rt c st" "program_laid_out c st" "strings_for c st"
proof -
  obtain st where st: "compiled_for rt c st" "program_laid_out c st" by (rule compile_lays_out [OF assms])
  from assms obtain st0 ids st1 rs st2 st3 st4 st' w0 where
    new: "router_compiler_new = Some (st0, ids)" and rts: "compile_routes st0 (rt_routes rt) {} [] = ok (st1, rs)"
    and fb: "compile_response st1 (rt_fallback rt) = ok (st2, k_fallback c)"
    and br: "compile_response st2 (rt_bad_request rt) = ok (st3, k_bad_request c)"
    and mna: "compile_response st3 (rt_method_not_allowed rt) = ok (st4, k_method_not_allowed c)"
    and em: "emit_routes (replicate (length rs * ROUTE_STRIDE_WORDS) 0) st4 0 (k_routes c) = ok (w0, st')"
    and k: "k_strings c = st_values st'" "k_ids c = ids" by (rule compile_stages)
  note n = router_compiler_new_valid [OF new]
  from compile_routes_sound [OF rts] n have r: "st_valid st1" "st.extends st0 st1" by auto
  from compile_response_sound [OF fb r(1)] have f: "st_valid st2" "st.extends st1 st2" by auto
  from compile_response_sound [OF br f(1)] have b: "st_valid st3" "st.extends st2 st3" by auto
  from compile_response_sound [OF mna b(1)] have m: "st_valid st4" "st.extends st3 st4" by auto
  from emit_routes_strings [OF em m(1)] have e: "st.extends st4 st'" by auto
  have x: "st.extends st0 st'" using r(2) f(2) b(2) m(2) e st.extends_trans by metis
  have "st_get st' = st_get st" using st(1) k(1) by (auto simp: fun_eq_iff st_get_def compiled_for_def)
  then have "strings_for c st" using n st.extendsD [OF x] k(2) st(1) by (auto simp: strings_for_def compiled_for_def)
  then show thesis using that st by blast
qed

lemma from_compiled_ready:
  assumes c: "compile rt = ok c" and g: "from_compiled body (Some ad) limits c = ok g" and lim: "ad_max_binding ad \<le> MAX_STORAGE_BINDING"
  shows "http_gpu_ready rt g \<and> hg_max_batch_size g = pl_max_batch_size limits \<and> hg_max_request_bytes g = pl_max_request_bytes limits"
proof -
  obtain st where st: "compiled_for rt c st" "program_laid_out c st" "strings_for c st" by (rule compile_strings_for [OF c])
  let ?B = "pl_max_batch_size limits" and ?q = "div_ceil (pl_max_request_bytes limits) 4" and ?s = "div_ceil (k_max_gpu_response_bytes c) 4"
  let ?direct = "ad_integrated ad \<and> ad_mappable_primary_buffers ad"
  obtain assets where assets: "build_shader_assets body c = ok assets"
    and sizes: "16 \<le> ?B * 16" "?B * 16 \<le> ad_max_binding ad" "?B * (?q * 4) \<le> ad_max_binding ad" "?B * (?s * 4) \<le> ad_max_binding ad"
      "length (sa_words assets) * 4 \<le> ad_max_binding ad"
    and geq: "g = \<lparr>hg_request_meta_buffer = replicate ?B \<lparr>rq_input_len = 0, rq_word_offset = 0\<rparr>,
               hg_input_buffer = replicate (?B * ?q) 0, hg_memory = zero_memory ?B (?B * ?s),
               hg_string_meta_buffer = sa_metadata assets, hg_string_words_buffer = sa_words assets,
               hg_router_words_buffer = k_words c, hg_ids = k_ids c,
               hg_readback_bytes = ?B * 16 + ?B * (?s * 4), hg_direct_output_mapping = ?direct,
               hg_router_layout = k_layout c, hg_max_batch_size = ?B,
               hg_max_request_bytes = pl_max_request_bytes limits, hg_request_stride_words = ?q,
               hg_response_stride_words = ?s, hg_request_meta_scratch = [], hg_input_words_scratch = [],
               hg_meta_mapped = False, hg_output_mapped = False, hg_readback_mapped = False\<rparr>"
    using g by (auto simp: from_compiled_def and_then_ok_iff words_for_bytes_ok checked_buffer_bytes_ok create_buffer_ok Let_def
        REQUEST_META_BYTES_def RESPONSE_META_BYTES_def STRING_META_BYTES_def checked_add_usize_def split: if_splits)
  have "buffers_sized g" using sizes lim by (simp add: geq buffers_sized_def zero_memory_def)
  moreover have "router_uploaded rt c st g"
    using c st build_shader_assets_ok [OF assets] by (simp add: geq router_uploaded_def)
  moreover have "unmapped g" by (simp add: geq unmapped_def)
  ultimately show ?thesis by (auto simp: http_gpu_ready_def geq)
qed

section \<open>One batch\<close>

text \<open>The device runs every invocation once, in any order; the mappings succeed, or at least every
  callback arrives and the mapped range of the combined buffer can be read.\<close>

definition device_runs :: "gpu_events \<Rightarrow> nat \<Rightarrow> bool" where
  "device_runs ev n \<longleftrightarrow> distinct (ev_order ev) \<and> set (ev_order ev) = set (dispatched n)"

definition maps_succeed :: "gpu_events \<Rightarrow> bool \<Rightarrow> bool" where
  "maps_succeed ev direct \<longleftrightarrow> ev_poll_ok ev \<and> ev_first ev = Mapped \<and> ev_first_range ev
     \<and> (direct \<longrightarrow> ev_second ev = Mapped \<and> ev_second_range ev)"

definition maps_settle :: "gpu_events \<Rightarrow> bool \<Rightarrow> bool" where
  "maps_settle ev direct \<longleftrightarrow> ev_poll_ok ev \<and> ev_first ev \<noteq> CallbackLost
     \<and> (if direct then ev_second ev \<noteq> CallbackLost else ev_first ev = Mapped \<longrightarrow> ev_first_range ev)"

definition device_completes :: "gpu_events \<Rightarrow> bool \<Rightarrow> nat \<Rightarrow> bool" where
  "device_completes ev direct n \<longleftrightarrow> device_runs ev n \<and> maps_succeed ev direct"

definition acceptable :: "http_gpu \<Rightarrow> bytes \<Rightarrow> bool" where
  "acceptable g req \<longleftrightarrow> length req \<le> hg_max_request_bytes g"

lemma div_ceil_128: "n \<le> div_ceil n 128 * 128" "div_ceil n 128 * 128 \<le> n + 128"
proof -
  obtain q m where n: "n = 128 * q + m" "m < 128" using mult_div_mod_eq mod_less_divisor zero_less_numeral by metis
  then have "div_ceil n 128 = (if m = 0 then q else q + 1)" by (simp add: div_ceil_def)
  then show "n \<le> div_ceil n 128 * 128" "div_ceil n 128 * 128 \<le> n + 128" using n by auto
qed

lemma dispatched_covers: "r < n \<Longrightarrow> r \<in> set (dispatched n)"
  using div_ceil_128(1) [of n] by (simp add: dispatched_def WORKGROUP_SIZE_def)

lemma dispatched_small: "r \<in> set (dispatched n) \<Longrightarrow> n + 128 \<le> U32_MAX \<Longrightarrow> r \<le> U32_MAX"
  using div_ceil_128(2) [of n] by (simp add: dispatched_def WORKGROUP_SIZE_def)

lemma ready_numbers:
  assumes "buffers_sized g"
  shows "hg_max_batch_size g + 128 \<le> U32_MAX" "hg_request_stride_words g \<le> U32_MAX" "hg_response_stride_words g * 4 \<le> U32_MAX"
    "length (hg_input_buffer g) \<le> U32_MAX" "length (mem_output_words (hg_memory g)) \<le> U32_MAX"
    "hg_max_request_bytes g + 10 \<le> U32_MAX" "length (hg_string_words_buffer g) * 4 \<le> U32_MAX"
proof -
  note b = assms [unfolded buffers_sized_def MAX_STORAGE_BINDING_def]
  have mono: "x \<le> hg_max_batch_size g * x" for x using b by simp
  show "hg_max_batch_size g + 128 \<le> U32_MAX" "length (hg_string_words_buffer g) * 4 \<le> U32_MAX" using b by (simp_all add: U32_MAX_def)
  have "hg_max_batch_size g * (hg_request_stride_words g * 4) \<le> MAX_STORAGE_BINDING"
    "hg_max_batch_size g * (hg_response_stride_words g * 4) \<le> MAX_STORAGE_BINDING" using assms unfolding buffers_sized_def by blast+
  moreover have "MAX_STORAGE_BINDING = 134217728" by (simp add: MAX_STORAGE_BINDING_def)
  ultimately have bound: "hg_max_batch_size g * (hg_request_stride_words g * 4) \<le> 134217728"
    "hg_max_batch_size g * (hg_response_stride_words g * 4) \<le> 134217728" by simp_all
  then have q: "hg_request_stride_words g * 4 \<le> 134217728" and s: "hg_response_stride_words g * 4 \<le> 134217728"
    using mono order.trans by blast+
  show "hg_request_stride_words g \<le> U32_MAX" "hg_response_stride_words g * 4 \<le> U32_MAX" using q s by (simp_all add: U32_MAX_def)
  have lens: "length (hg_input_buffer g) = hg_max_batch_size g * hg_request_stride_words g"
    "length (mem_output_words (hg_memory g)) = hg_max_batch_size g * hg_response_stride_words g"
    using assms unfolding buffers_sized_def by blast+
  show "length (hg_input_buffer g) \<le> U32_MAX" "length (mem_output_words (hg_memory g)) \<le> U32_MAX"
    using bound unfolding lens by (simp_all add: U32_MAX_def)
  have "n \<le> div_ceil n 4 * 4" for n unfolding div_ceil_def by presburger
  from this [of "hg_max_request_bytes g"] have "hg_max_request_bytes g \<le> hg_request_stride_words g * 4" using b by simp
  then show "hg_max_request_bytes g + 10 \<le> U32_MAX" using q by (simp add: U32_MAX_def)
qed

text \<open>The buffers after the uploads of a batch.\<close>

definition uploaded :: "http_gpu \<Rightarrow> bytes list \<Rightarrow> http_gpu" where
  "uploaded g reqs = g\<lparr>hg_request_meta_scratch := request_metas 0 reqs, hg_input_words_scratch := batch_words reqs,
     hg_request_meta_buffer := request_metas 0 reqs @ drop (length reqs) (hg_request_meta_buffer g),
     hg_input_buffer := batch_words reqs @ drop (length (batch_words reqs)) (hg_input_buffer g)\<rparr>"

definition params_for :: "http_gpu \<Rightarrow> nat \<Rightarrow> params" where
  "params_for g n = batch_params g (of_nat (hg_request_stride_words g)) (of_nat (hg_response_stride_words g)) (of_nat n)"

definition batch_bindings :: "http_gpu \<Rightarrow> bytes list \<Rightarrow> bindings" where
  "batch_bindings g reqs = gpu_bindings (uploaded g reqs) (params_for g (length reqs))"

lemma batch_fits:
  assumes "buffers_sized g" "length reqs \<le> hg_max_batch_size g" "\<forall>r\<in>set reqs. acceptable g r"
  shows "length (batch_words reqs) \<le> length (hg_input_buffer g)" "length reqs \<le> length (hg_request_meta_buffer g)"
proof -
  have "length (batch_words reqs) \<le> length reqs * hg_request_stride_words g"
    using batch_words_length [of reqs "hg_max_request_bytes g"] assms(1,3) by (simp add: acceptable_def buffers_sized_def)
  also have "\<dots> \<le> length (hg_input_buffer g)" using assms(1,2) mult_le_mono1 by (simp add: buffers_sized_def)
  finally show "length (batch_words reqs) \<le> length (hg_input_buffer g)" .
  show "length reqs \<le> length (hg_request_meta_buffer g)" using assms by (simp add: buffers_sized_def)
qed

lemma buffers_sized_uploaded:
  assumes "buffers_sized g" "length reqs \<le> hg_max_batch_size g" "\<forall>r\<in>set reqs. acceptable g r"
  shows "buffers_sized (uploaded g reqs)"
  using assms(1) batch_fits [OF assms] by (auto simp: buffers_sized_def uploaded_def)

lemma stride_batch_bindings: "buffers_sized g \<Longrightarrow> stride_of (batch_bindings g reqs) = hg_response_stride_words g"
  using ready_numbers(3) [of g]
  by (simp add: batch_bindings_def gpu_bindings_def params_for_def batch_params_def unat_of_nat_u32)

lemma batch_is_loaded:
  assumes "buffers_sized g" "length reqs \<le> hg_max_batch_size g" "\<forall>r\<in>set reqs. acceptable g r"
  shows "batch_loaded (batch_bindings g reqs) reqs"
proof -
  note num = ready_numbers [OF assms(1)] and fits = batch_fits [OF assms]
  have total: "length ([] :: u32 list) + length (batch_words reqs) \<le> U32_MAX" using fits(1) num(4) by simp
  have small: "\<forall>r\<in>set reqs. length r + 10 \<le> U32_MAX" using assms(3) num(6) by (auto simp: acceptable_def)
  then have u32: "\<forall>r\<in>set reqs. length r \<le> U32_MAX" by auto
  let ?metas = "request_metas 0 reqs @ drop (length reqs) (hg_request_meta_buffer g)"
  let ?words = "batch_words reqs @ drop (length (batch_words reqs)) (hg_input_buffer g)"
  have at: "request_at (batch_bindings g reqs) (of_nat i) (reqs ! i)" if i: "i < length reqs" for i
  proof -
    have "unat (of_nat i :: u32) = i" using i assms(2) num(1) by (intro unat_of_nat_u32) simp
    then have "fetch ?metas (of_nat i) = Some (request_metas 0 reqs ! i)" using i by (simp add: fetch_def index_def nth_append)
    moreover have "length ?words = length (hg_input_buffer g)" using fits(1) by simp
    moreover have "length (reqs ! i) \<le> U32_MAX" using u32 i by simp
    ultimately show ?thesis using packed_requests [OF total u32 i, of "drop (length (batch_words reqs)) (hg_input_buffer g)"] num(4) fits(1)
      by (auto simp: request_at_def batch_bindings_def gpu_bindings_def uploaded_def)
  qed
  then show ?thesis using small assms(2) num(1)
    by (simp add: batch_loaded_def batch_bindings_def gpu_bindings_def params_for_def batch_params_def)
qed

lemma router_is_loaded:
  assumes "router_uploaded rt c st g" "buffers_sized g"
  shows "router_loaded rt c st (batch_bindings g reqs)"
proof -
  have at: "list_all2 (string_at (words_to_bytes (hg_string_words_buffer g))) (hg_string_meta_buffer g) (arena_strings c)"
    using assms(1) by (simp add: router_uploaded_def)
  have "arena_string (batch_bindings g reqs) i v" if "index (arena_strings c) (unat i) = Some v" for i v
  proof -
    have i: "unat i < length (hg_string_meta_buffer g)" "v = arena_strings c ! unat i"
      using that list_all2_lengthD [OF at] by (auto simp: index_def split: if_splits)
    from list_all2_nthD [OF at i(1)] have "string_at (words_to_bytes (hg_string_words_buffer g)) (hg_string_meta_buffer g ! unat i) v"
      by (simp add: i(2))
    then show ?thesis using i(1) ready_numbers(7) [OF assms(2)]
      by (auto simp: arena_string_def batch_bindings_def gpu_bindings_def uploaded_def fetch_def index_def string_at_def)
  qed
  then show ?thesis using assms(1)
    by (simp add: router_loaded_def router_uploaded_def loaded_def batch_bindings_def gpu_bindings_def uploaded_def params_for_def batch_params_def)
qed

lemma response_bytes_nonempty: "response_bytes rp parts n backend \<noteq> []"
  by (simp add: response_bytes_def build_response_def Let_def ascii_def)

lemma answer_parsed_nonempty: "answer_parsed rt q n backend \<noteq> []"
  by (simp add: answer_parsed_def response_bytes_nonempty split: request_parse.split)

lemma spec_route_nonempty: "spec_route rt req backend \<noteq> []"
  by (simp add: spec_route_def response_bytes_nonempty split: request_parse.split)

lemma pack_request_batch_closed:
  assumes "buffers_sized g" "length reqs \<le> hg_max_batch_size g" "\<forall>r\<in>set reqs. acceptable g r"
  shows "pack_request_batch reqs (hg_max_request_bytes g) = Some (request_metas 0 reqs, batch_words reqs, Inr ())"
  using pack_loop_closed [of reqs "hg_max_request_bytes g" "[]" 0 "[]"] batch_fits(1) [OF assms] ready_numbers(4,6) [OF assms(1)] assms(3)
  by (auto simp: pack_request_batch_def acceptable_def)

text \<open>The slices of the two buffers that a batch reads back, and the room for their copies.\<close>

lemma readback_slices:
  assumes "buffers_sized g" "n \<le> hg_max_batch_size g"
  shows "slice (meta_buffer_bytes g) 0 (n * RESPONSE_META_BYTES) = Some (take (n * 16) (meta_buffer_bytes g))"
    "slice (output_buffer_bytes g) 0 (n * hg_response_stride_words g * 4) = Some (take (n * hg_response_stride_words g * 4) (output_buffer_bytes g))"
    "checked_add_usize (n * RESPONSE_META_BYTES) (n * hg_response_stride_words g * 4) = Some (n * 16 + n * hg_response_stride_words g * 4)"
    "\<not> hg_direct_output_mapping g \<Longrightarrow> n * 16 + n * hg_response_stride_words g * 4 \<le> hg_readback_bytes g"
    "n * 16 \<le> length (meta_buffer_bytes g)"
proof -
  have len: "length (concat (map response_meta_bytes ms)) = 16 * length ms" for ms by (induction ms) simp_all
  have "n * hg_response_stride_words g \<le> hg_max_batch_size g * hg_response_stride_words g" using assms(2) by (rule mult_le_mono1)
  then have m: "n * 16 \<le> length (meta_buffer_bytes g)" and o: "n * hg_response_stride_words g * 4 \<le> length (output_buffer_bytes g)"
    using assms(1,2) by (auto simp: buffers_sized_def meta_buffer_bytes_def output_buffer_bytes_def len)
  have "n * 16 + n * hg_response_stride_words g * 4 \<le> hg_max_batch_size g * 16 + hg_max_batch_size g * (hg_response_stride_words g * 4)"
    using assms(2) by (intro add_mono) (simp_all add: mult.assoc mult_le_mono1)
  then show "\<not> hg_direct_output_mapping g \<Longrightarrow> n * 16 + n * hg_response_stride_words g * 4 \<le> hg_readback_bytes g"
    using assms(1) unfolding buffers_sized_def by metis
  have b: "hg_max_batch_size g * 16 \<le> MAX_STORAGE_BINDING" "hg_max_batch_size g * (hg_response_stride_words g * 4) \<le> MAX_STORAGE_BINDING"
    using assms(1) unfolding buffers_sized_def by blast+
  have "n * (hg_response_stride_words g * 4) \<le> MAX_STORAGE_BINDING" using mult_le_mono1 [OF assms(2)] b(2) by (rule order.trans)
  then have sum: "n * 16 + n * hg_response_stride_words g * 4 \<le> USIZE_MAX"
    using assms(2) b(1) by (simp add: MAX_STORAGE_BINDING_def USIZE_MAX_def)
  show "slice (meta_buffer_bytes g) 0 (n * RESPONSE_META_BYTES) = Some (take (n * 16) (meta_buffer_bytes g))"
    "slice (output_buffer_bytes g) 0 (n * hg_response_stride_words g * 4) = Some (take (n * hg_response_stride_words g * 4) (output_buffer_bytes g))"
    using m o by (simp_all add: slice_def RESPONSE_META_BYTES_def)
  show "checked_add_usize (n * RESPONSE_META_BYTES) (n * hg_response_stride_words g * 4) = Some (n * 16 + n * hg_response_stride_words g * 4)"
    using sum by (simp add: checked_add_usize_def RESPONSE_META_BYTES_def)
  show "n * 16 \<le> length (meta_buffer_bytes g)" by (rule m)
qed

text \<open>Reading back decodes the memory the dispatch left and unmaps the buffers.\<close>

lemma read_responses_settles:
  assumes "buffers_sized g" "unmapped g" "n \<le> hg_max_batch_size g" "maps_settle ev (hg_direct_output_mapping g)"
    "decode_responses g n (take (n * 16) (meta_buffer_bytes g)) (take (n * hg_response_stride_words g * 4) (output_buffer_bytes g)) = ok rs"
  shows "\<exists>res. read_responses ev g n (n * RESPONSE_META_BYTES) (n * hg_response_stride_words g * 4) = Some (g, res)
    \<and> (res = Inr rs \<or> \<not> maps_succeed ev (hg_direct_output_mapping g) \<and> (res = Inl MappingFailed \<or> res = Inl MappedRangeFailed))"
proof -
  note slices = readback_slices [OF assms(1,3)]
  have um: "\<not> hg_meta_mapped g" "\<not> hg_output_mapped g" "\<not> hg_readback_mapped g" using assms(2) by (simp_all add: unmapped_def)
  have same: "decode_responses (g\<lparr>hg_meta_mapped := a, hg_output_mapped := b\<rparr>) = decode_responses g"
    "decode_responses (g\<lparr>hg_readback_mapped := a\<rparr>) = decode_responses g" for a b
    by (simp_all add: decode_responses_def fun_eq_iff)
  have upd: "g\<lparr>hg_meta_mapped := a, hg_output_mapped := b, hg_output_mapped := False, hg_meta_mapped := False\<rparr> = g"
    "g\<lparr>hg_meta_mapped := a, hg_output_mapped := False, hg_meta_mapped := False\<rparr> = g"
    "g\<lparr>hg_meta_mapped := False, hg_output_mapped := b, hg_output_mapped := False\<rparr> = g"
    "g\<lparr>hg_meta_mapped := False, hg_output_mapped := False\<rparr> = g" "g\<lparr>hg_readback_mapped := a, hg_readback_mapped := False\<rparr> = g"
    "g\<lparr>hg_readback_mapped := False\<rparr> = g" for a b using um by (cases g; simp)+
  show ?thesis
  proof (cases "hg_direct_output_mapping g")
    case True
    then have ev: "ev_poll_ok ev" "ev_first ev \<noteq> CallbackLost" "ev_second ev \<noteq> CallbackLost" using assms(4) by (simp_all add: maps_settle_def)
    have decoded: "decode_responses (g\<lparr>hg_meta_mapped := a, hg_output_mapped := b\<rparr>) n (take (n * 16) (meta_buffer_bytes g))
      (take (n * hg_response_stride_words g * 4) (output_buffer_bytes g)) = Some (Inr rs)" for a b
      unfolding same using assms(5) by (simp add: ok_def)
    have "read_direct_responses ev g n (n * RESPONSE_META_BYTES) (n * hg_response_stride_words g * 4) = Some (g,
        if ev_first ev = MapFailed \<or> ev_second ev = MapFailed then Inl MappingFailed
        else if \<not> ev_first_range ev \<or> \<not> ev_second_range ev then Inl MappedRangeFailed else Inr rs)"
      unfolding read_direct_responses_def slices(1,2) Let_def Option.bind.bind_lunit using ev um
      by (cases "ev_first ev"; cases "ev_second ev")
        (simp_all only: decoded upd map_callback.distinct simp_thms if_True if_False Option.bind.bind_lunit split: if_split, blast?)
    then show ?thesis using True ev by (cases "ev_first ev"; cases "ev_second ev") (simp_all add: read_responses_def maps_succeed_def)
  next
    case False
    then have ev: "ev_poll_ok ev" "ev_first ev \<noteq> CallbackLost" "ev_first ev = Mapped \<Longrightarrow> ev_first_range ev"
      using assms(4) by (simp_all add: maps_settle_def)
    have decoded: "decode_responses (g\<lparr>hg_readback_mapped := a\<rparr>) n (take (n * 16) (meta_buffer_bytes g))
      (take (n * hg_response_stride_words g * 4) (output_buffer_bytes g)) = Some (Inr rs)" for a
      unfolding same using assms(5) by (simp add: ok_def)
    have whole: "take (n * RESPONSE_META_BYTES) (take (n * 16) (meta_buffer_bytes g) @ xs) = take (n * 16) (meta_buffer_bytes g)"
      "drop (n * RESPONSE_META_BYTES) (take (n * 16) (meta_buffer_bytes g) @ xs) = xs" for xs
      using slices(5) by (simp_all add: RESPONSE_META_BYTES_def)
    have "read_responses ev g n (n * RESPONSE_META_BYTES) (n * hg_response_stride_words g * 4) = Some (g,
        if ev_first ev = MapFailed then Inl MappingFailed else Inr rs)"
      unfolding read_responses_def if_not_P [OF False] slices(1-3) option.case Let_def Option.bind.bind_lunit whole using ev um slices(4) [OF False]
      by (cases "ev_first ev") (simp_all only: decoded upd map_callback.distinct simp_thms if_True if_False Option.bind.bind_lunit RESPONSE_META_BYTES_def)
    then show ?thesis using ev False by (cases "ev_first ev") (simp_all add: maps_succeed_def)
  qed
qed

text \<open>A batch within the limits: a mapped buffer panics at the submission.\<close>

lemma process_gpu_batch_uploads:
  assumes "buffers_sized g" "length reqs \<le> hg_max_batch_size g" "\<forall>r\<in>set reqs. acceptable g r" "reqs \<noteq> []"
  shows "process_gpu_batch ev g reqs = (if hg_meta_mapped g \<or> hg_output_mapped g \<or> hg_readback_mapped g then None
    else Option.bind (dispatch_invocations (batch_bindings g reqs) (ev_order ev) (hg_memory g))
    (\<lambda>memory. read_responses ev ((uploaded g reqs)\<lparr>hg_memory := memory\<rparr>) (length reqs)
       (length reqs * RESPONSE_META_BYTES) (length reqs * hg_response_stride_words g * 4)))"
proof -
  note fits = batch_fits [OF assms(1-3)] and num = ready_numbers [OF assms(1)]
  have w: "write_buffer (hg_request_meta_buffer g) (request_metas 0 reqs) = Some (request_metas 0 reqs @ drop (length reqs) (hg_request_meta_buffer g))"
    "write_buffer (hg_input_buffer g) (batch_words reqs) = Some (batch_words reqs @ drop (length (batch_words reqs)) (hg_input_buffer g))"
    using fits by (simp_all add: write_buffer_closed)
  have fields: "field_u32 s (hg_request_stride_words g) = Inr (of_nat (hg_request_stride_words g))"
    "field_u32 s (hg_response_stride_words g) = Inr (of_nat (hg_response_stride_words g))"
    "field_u32 s (length reqs) = Inr (of_nat (length reqs))" for s
    using num assms(2) by (simp_all add: field_u32_def)
  have big: "\<not> length reqs > hg_max_batch_size g" using assms(2) by simp
  have bind: "gpu_bindings (g\<lparr>hg_request_meta_scratch := request_metas 0 reqs, hg_input_words_scratch := batch_words reqs,
      hg_request_meta_buffer := request_metas 0 reqs @ drop (length reqs) (hg_request_meta_buffer g),
      hg_input_buffer := batch_words reqs @ drop (length (batch_words reqs)) (hg_input_buffer g)\<rparr>)
      (batch_params (g\<lparr>hg_request_meta_scratch := request_metas 0 reqs, hg_input_words_scratch := batch_words reqs\<rparr>)
        (of_nat (hg_request_stride_words g)) (of_nat (hg_response_stride_words g)) (of_nat (length reqs))) = batch_bindings g reqs"
    by (simp add: batch_bindings_def uploaded_def params_for_def batch_params_def)
  show ?thesis using assms(4) big
    by (simp add: process_gpu_batch_def pack_request_batch_closed [OF assms(1-3)] fields run_batch_def w Let_def bind)
      (simp add: uploaded_def)
qed

lemma process_gpu_batch_runs:
  assumes "buffers_sized g" "length reqs \<le> hg_max_batch_size g" "\<forall>r\<in>set reqs. acceptable g r" "reqs \<noteq> []" "unmapped g"
  shows "process_gpu_batch ev g reqs = Option.bind (dispatch_invocations (batch_bindings g reqs) (ev_order ev) (hg_memory g))
    (\<lambda>memory. read_responses ev ((uploaded g reqs)\<lparr>hg_memory := memory\<rparr>) (length reqs)
       (length reqs * RESPONSE_META_BYTES) (length reqs * hg_response_stride_words g * 4))"
  using process_gpu_batch_uploads [OF assms(1-4)] assms(5) by (simp add: unmapped_def)

text \<open>A batch up to the readback: the dispatch leaves every answer in its slot.\<close>

lemma process_gpu_batch_dispatched:
  assumes ready: "http_gpu_ready rt g" and tf: "tail_free_router rt" and n: "length reqs \<le> hg_max_batch_size g"
    and acc: "\<forall>r\<in>set reqs. acceptable g r" and ne: "reqs \<noteq> []" and ev: "device_runs ev (length reqs)"
  obtains g' where "process_gpu_batch ev g reqs = read_responses ev g' (length reqs) (length reqs * RESPONSE_META_BYTES)
      (length reqs * hg_response_stride_words g' * 4)" "http_gpu_ready rt g'"
    "hg_max_batch_size g' = hg_max_batch_size g" "hg_max_request_bytes g' = hg_max_request_bytes g"
    "hg_direct_output_mapping g' = hg_direct_output_mapping g"
    "decode_responses g' (length reqs) (take (length reqs * 16) (meta_buffer_bytes g'))
      (take (length reqs * hg_response_stride_words g' * 4) (output_buffer_bytes g')) = ok (map (gpu_route rt) reqs)"
proof -
  obtain c st where b: "buffers_sized g" and um: "unmapped g" and up: "router_uploaded rt c st g"
    using ready by (auto simp: http_gpu_ready_def)
  let ?d = "batch_bindings g reqs" and ?n = "length reqs"
  note num = ready_numbers [OF b] and S = stride_batch_bindings [OF b]
  have "k \<le> 4 * div_ceil k 4" for k unfolding div_ceil_def by presburger
  then have slot: "k_max_gpu_response_bytes c \<le> 4 * stride_of ?d" using up by (simp only: S router_uploaded_def)
  have "length (mem_output_words (hg_memory g)) = hg_max_batch_size g * hg_response_stride_words g"
    "length (mem_response_meta (hg_memory g)) = hg_max_batch_size g" using b unfolding buffers_sized_def by blast+
  moreover have "?n * hg_response_stride_words g \<le> hg_max_batch_size g * hg_response_stride_words g" using n by (rule mult_le_mono1)
  ultimately have mem: "memory_for ?d ?n (hg_memory g)" using n num(1,3,5) unfolding memory_for_def S by simp
  have order: "distinct (ev_order ev)" "\<forall>r\<in>set (ev_order ev). r \<le> U32_MAX" "\<forall>r<?n. r \<in> set (ev_order ev)"
    using ev dispatched_covers dispatched_small [of _ ?n] num(1) n by (auto simp: device_runs_def)
  from dispatch_answers [OF router_is_loaded [OF up b] tf batch_is_loaded [OF b n acc] slot order(1,2) mem]
  obtain mem' where run: "dispatch_invocations ?d (ev_order ev) (hg_memory g) = Some mem'"
    and len: "length (mem_response_meta mem') = length (mem_response_meta (hg_memory g))"
      "length (mem_output_words mem') = length (mem_output_words (hg_memory g))"
    and holds: "\<forall>r<?n. holds_answer ?d r (gpu_route rt (reqs ! r)) mem'" using order(3) by blast
  let ?g = "(uploaded g reqs)\<lparr>hg_memory := mem'\<rparr>"
  have bg: "buffers_sized ?g" using buffers_sized_uploaded [OF b n acc] len by (auto simp: buffers_sized_def uploaded_def)
  have ready': "http_gpu_ready rt ?g" using bg um up by (auto simp: http_gpu_ready_def unmapped_def router_uploaded_def uploaded_def)
  have "decode_loop (hg_response_stride_words g * 4) (take (?n * 16) (concat (map response_meta_bytes (mem_response_meta mem'))))
      (take (?n * (hg_response_stride_words g * 4)) (words_to_bytes (mem_output_words mem'))) 0 ?n []
    = ok ([] @ map (\<lambda>r. gpu_route rt (reqs ! r)) [0..<?n])"
    using holds mem len S num(3) by (intro decode_loop_closed [where d = ?d]) (auto simp: memory_for_def gpu_route_def answer_parsed_nonempty)
  moreover have "map (\<lambda>r. gpu_route rt (reqs ! r)) [0..<?n] = map (gpu_route rt) reqs" by (rule nth_equalityI) simp_all
  ultimately have "decode_responses ?g ?n (take (?n * 16) (meta_buffer_bytes ?g))
      (take (?n * hg_response_stride_words ?g * 4) (output_buffer_bytes ?g)) = ok (map (gpu_route rt) reqs)"
    by (simp add: decode_responses_def meta_buffer_bytes_def output_buffer_bytes_def uploaded_def mult.assoc)
  moreover have "process_gpu_batch ev g reqs = read_responses ev ?g ?n (?n * RESPONSE_META_BYTES) (?n * hg_response_stride_words ?g * 4)"
    using process_gpu_batch_runs [OF b n acc ne um] run by (simp add: uploaded_def)
  ultimately show thesis using ready' that [of ?g] by (simp add: uploaded_def)
qed

text \<open>Every event of the device that settles leaves the processor ready and either gives all answers or fails.\<close>

lemma process_gpu_batch_settles:
  assumes ready: "http_gpu_ready rt g" and tf: "tail_free_router rt" and n: "length reqs \<le> hg_max_batch_size g"
    and acc: "\<forall>r\<in>set reqs. acceptable g r" and ev: "device_runs ev (length reqs)" "maps_settle ev (hg_direct_output_mapping g)"
  shows "\<exists>g' res. process_gpu_batch ev g reqs = Some (g', res) \<and> http_gpu_ready rt g'
    \<and> (res = Inr (map (gpu_route rt) reqs)
       \<or> \<not> maps_succeed ev (hg_direct_output_mapping g) \<and> (res = Inl MappingFailed \<or> res = Inl MappedRangeFailed))
    \<and> hg_max_batch_size g' = hg_max_batch_size g \<and> hg_max_request_bytes g' = hg_max_request_bytes g
    \<and> hg_direct_output_mapping g' = hg_direct_output_mapping g"
proof (cases "reqs = []")
  case True
  then show ?thesis using ready by (auto simp: process_gpu_batch_def)
next
  case False
  from process_gpu_batch_dispatched [OF ready tf n acc False ev(1)] obtain g' where
    run: "process_gpu_batch ev g reqs = read_responses ev g' (length reqs) (length reqs * RESPONSE_META_BYTES)
      (length reqs * hg_response_stride_words g' * 4)" and ready': "http_gpu_ready rt g'"
    and keep: "hg_max_batch_size g' = hg_max_batch_size g" "hg_max_request_bytes g' = hg_max_request_bytes g"
    "hg_direct_output_mapping g' = hg_direct_output_mapping g"
    and decode: "decode_responses g' (length reqs) (take (length reqs * 16) (meta_buffer_bytes g'))
      (take (length reqs * hg_response_stride_words g' * 4) (output_buffer_bytes g')) = ok (map (gpu_route rt) reqs)" by blast
  have "buffers_sized g'" "unmapped g'" using ready' by (simp_all add: http_gpu_ready_def)
  from read_responses_settles [OF this _ _ decode] n ev(2) run ready' keep show ?thesis by fastforce
qed

lemma process_gpu_batch_answers:
  assumes "http_gpu_ready rt g" "tail_free_router rt" "length reqs \<le> hg_max_batch_size g"
    "\<forall>r\<in>set reqs. acceptable g r" "device_completes ev (hg_direct_output_mapping g) (length reqs)"
  shows "\<exists>g'. process_gpu_batch ev g reqs = Some (g', Inr (map (gpu_route rt) reqs)) \<and> http_gpu_ready rt g'
    \<and> hg_max_batch_size g' = hg_max_batch_size g \<and> hg_max_request_bytes g' = hg_max_request_bytes g
    \<and> hg_direct_output_mapping g' = hg_direct_output_mapping g"
proof -
  have ev: "device_runs ev (length reqs)" "maps_succeed ev (hg_direct_output_mapping g)" using assms(5) by (simp_all add: device_completes_def)
  then have "maps_settle ev (hg_direct_output_mapping g)" by (auto simp: maps_succeed_def maps_settle_def)
  from process_gpu_batch_settles [OF assms(1-4) ev(1) this] ev(2) show ?thesis by blast
qed

end
