(* ===== verification/ServerConfig.thy ===== *)
theory ServerConfig
  imports Prelude
begin

text \<open>
  \<open>src/config.rs\<close>: the command line record, the server configuration and its validation.
  A socket address is a value of a type parameter; a \<open>Duration\<close> is its length in nanoseconds.
\<close>

section \<open>Records\<close>

datatype backend_choice = AutoBackend | CpuBackend | GpuBackend

definition default_backend_choice :: backend_choice where "default_backend_choice = AutoBackend"

definition MAX_TOTAL_BUFFER_BYTES :: nat where "MAX_TOTAL_BUFFER_BYTES = 64 * 1024 * 1024"
definition DEFAULT_BATCH_SIZE :: nat where "DEFAULT_BATCH_SIZE = 256"
definition DEFAULT_BATCH_WAIT_MICROS :: nat where "DEFAULT_BATCH_WAIT_MICROS = 50"
definition DEFAULT_QUEUE_DEPTH :: nat where "DEFAULT_QUEUE_DEPTH = 8192"
definition DEFAULT_MAX_REQUEST_BYTES :: nat where "DEFAULT_MAX_REQUEST_BYTES = 4096"
definition DEFAULT_RESPONSE_SLOT_BYTES :: nat where "DEFAULT_RESPONSE_SLOT_BYTES = 512"
definition DEFAULT_MAX_CONNECTIONS :: nat where "DEFAULT_MAX_CONNECTIONS = 4096"
definition DEFAULT_READ_TIMEOUT_SECS :: nat where "DEFAULT_READ_TIMEOUT_SECS = 5"
definition MIN_GPU_RESPONSE_SLOT_BYTES :: nat where "MIN_GPU_RESPONSE_SLOT_BYTES = 256"

definition duration_from_micros :: "nat \<Rightarrow> nat" where "duration_from_micros n = n * 1000"
definition duration_from_secs :: "nat \<Rightarrow> nat" where "duration_from_secs n = n * 1000000000"

record 'addr cli =
  cli_bind :: 'addr
  cli_backend :: backend_choice
  cli_batch_size :: nat
  cli_batch_wait_micros :: nat
  cli_queue_depth :: nat
  cli_max_request_bytes :: nat
  cli_response_slot_bytes :: nat
  cli_max_connections :: nat
  cli_read_timeout_secs :: nat

record 'addr server_config =
  sc_bind :: 'addr
  sc_backend :: backend_choice
  sc_batch_size :: nat
  sc_batch_wait :: nat
  sc_queue_depth :: nat
  sc_max_request_bytes :: nat
  sc_response_slot_bytes :: nat
  sc_max_connections :: nat
  sc_read_timeout :: nat

text \<open>The defaults of the command line: the address is the parsed \<open>default_value\<close>.\<close>

definition cli_default :: "'addr \<Rightarrow> 'addr cli" where
  "cli_default addr = \<lparr>cli_bind = addr, cli_backend = default_backend_choice, cli_batch_size = DEFAULT_BATCH_SIZE,
     cli_batch_wait_micros = DEFAULT_BATCH_WAIT_MICROS, cli_queue_depth = DEFAULT_QUEUE_DEPTH,
     cli_max_request_bytes = DEFAULT_MAX_REQUEST_BYTES, cli_response_slot_bytes = DEFAULT_RESPONSE_SLOT_BYTES,
     cli_max_connections = DEFAULT_MAX_CONNECTIONS, cli_read_timeout_secs = DEFAULT_READ_TIMEOUT_SECS\<rparr>"

definition default_server_config :: "'addr \<Rightarrow> 'addr server_config" where
  "default_server_config addr = \<lparr>sc_bind = addr, sc_backend = AutoBackend, sc_batch_size = DEFAULT_BATCH_SIZE,
     sc_batch_wait = duration_from_micros DEFAULT_BATCH_WAIT_MICROS, sc_queue_depth = DEFAULT_QUEUE_DEPTH,
     sc_max_request_bytes = DEFAULT_MAX_REQUEST_BYTES, sc_response_slot_bytes = DEFAULT_RESPONSE_SLOT_BYTES,
     sc_max_connections = DEFAULT_MAX_CONNECTIONS, sc_read_timeout = duration_from_secs DEFAULT_READ_TIMEOUT_SECS\<rparr>"

section \<open>Validation\<close>

datatype config_error =
    BatchSizeZero | BatchSizeNotU32 | BatchWaitZero | QueueBelowBatch | RequestLimitTooSmall
  | SlotBelowMinimum | NoConnections | ReadTimeoutZero | StrideOverflow
  | RequestBufferOverflow | ResponseBufferOverflow | RequestBufferTooBig nat | ResponseBufferTooBig nat

text \<open>\<open>rounded & !3\<close> clears the two low bits.\<close>

definition round_up_to_word :: "nat \<Rightarrow> config_error + nat" where
  "round_up_to_word v =
     (case checked_add_usize v 3 of
        Some rounded \<Rightarrow> Inr (4 * (rounded div 4))
      | None \<Rightarrow> Inl StrideOverflow)"

definition server_config_validate :: "'addr server_config \<Rightarrow> config_error + unit" where
  "server_config_validate c =
     (if sc_batch_size c = 0 then Inl BatchSizeZero
      else if sc_batch_size c > U32_MAX then Inl BatchSizeNotU32
      else if sc_batch_wait c = 0 then Inl BatchWaitZero
      else if sc_queue_depth c < sc_batch_size c then Inl QueueBelowBatch
      else if sc_max_request_bytes c < 16 then Inl RequestLimitTooSmall
      else if sc_response_slot_bytes c < MIN_GPU_RESPONSE_SLOT_BYTES then Inl SlotBelowMinimum
      else if sc_max_connections c = 0 then Inl NoConnections
      else if sc_read_timeout c = 0 then Inl ReadTimeoutZero
      else (case round_up_to_word (sc_max_request_bytes c) of
          Inl e \<Rightarrow> Inl e
        | Inr request_stride \<Rightarrow>
        (case round_up_to_word (sc_response_slot_bytes c) of
          Inl e \<Rightarrow> Inl e
        | Inr response_stride \<Rightarrow>
        (case checked_mul_usize (sc_batch_size c) request_stride of
          None \<Rightarrow> Inl RequestBufferOverflow
        | Some request_buffer_bytes \<Rightarrow>
        (case checked_mul_usize (sc_batch_size c) response_stride of
          None \<Rightarrow> Inl ResponseBufferOverflow
        | Some response_buffer_bytes \<Rightarrow>
          if request_buffer_bytes > MAX_TOTAL_BUFFER_BYTES then Inl (RequestBufferTooBig request_buffer_bytes)
          else if response_buffer_bytes > MAX_TOTAL_BUFFER_BYTES then Inl (ResponseBufferTooBig response_buffer_bytes)
          else Inr ())))))"

definition server_config_try_from :: "'addr cli \<Rightarrow> config_error + 'addr server_config" where
  "server_config_try_from cli =
     (let config = \<lparr>sc_bind = cli_bind cli, sc_backend = cli_backend cli, sc_batch_size = cli_batch_size cli,
            sc_batch_wait = duration_from_micros (cli_batch_wait_micros cli), sc_queue_depth = cli_queue_depth cli,
            sc_max_request_bytes = cli_max_request_bytes cli, sc_response_slot_bytes = cli_response_slot_bytes cli,
            sc_max_connections = cli_max_connections cli, sc_read_timeout = duration_from_secs (cli_read_timeout_secs cli)\<rparr>
      in (case server_config_validate config of Inl e \<Rightarrow> Inl e | Inr _ \<Rightarrow> Inr config))"

section \<open>Properties\<close>

lemma round_up_to_word_ok: "round_up_to_word v = Inr n \<longleftrightarrow> n = 4 * ((v + 3) div 4) \<and> v + 3 \<le> USIZE_MAX"
  by (auto simp: round_up_to_word_def checked_add_usize_def)

lemmas config_limits = MIN_GPU_RESPONSE_SLOT_BYTES_def MAX_TOTAL_BUFFER_BYTES_def U32_MAX_def USIZE_MAX_def

lemma validated_config:
  assumes "server_config_validate c = Inr u"
  shows "0 < sc_batch_size c" "sc_batch_size c \<le> U32_MAX" "sc_batch_size c \<le> sc_queue_depth c"
    "16 \<le> sc_max_request_bytes c" "256 \<le> sc_response_slot_bytes c" "0 < sc_max_connections c"
    "0 < sc_batch_wait c" "0 < sc_read_timeout c"
    "sc_batch_size c * (4 * ((sc_max_request_bytes c + 3) div 4)) \<le> MAX_TOTAL_BUFFER_BYTES"
    "sc_batch_size c * (4 * ((sc_response_slot_bytes c + 3) div 4)) \<le> MAX_TOTAL_BUFFER_BYTES"
  using assms
  by (auto simp: server_config_validate_def checked_mul_usize_def MIN_GPU_RESPONSE_SLOT_BYTES_def
      round_up_to_word_def checked_add_usize_def split: if_splits sum.splits option.splits)

text \<open>A validated configuration has a batch of at least one request that fits \<open>u32\<close>, a queue that
  holds a batch, and request and response buffers whose size, slots rounded up to words, is at most
  64 MiB; so every byte and word offset into them fits \<open>u32\<close>.\<close>

theorem validated_config_bounds:
  assumes "server_config_validate c = Inr u"
  shows "0 < sc_batch_size c \<and> sc_batch_size c \<le> U32_MAX \<and> sc_batch_size c \<le> sc_queue_depth c
    \<and> sc_batch_size c * sc_max_request_bytes c \<le> MAX_TOTAL_BUFFER_BYTES
    \<and> sc_batch_size c * sc_response_slot_bytes c \<le> MAX_TOTAL_BUFFER_BYTES
    \<and> sc_max_request_bytes c \<le> U32_MAX \<and> sc_response_slot_bytes c \<le> U32_MAX"
proof -
  note v = validated_config [OF assms]
  have up: "n \<le> 4 * ((n + 3) div 4)" for n :: nat by presburger
  have prods: "sc_batch_size c * sc_max_request_bytes c \<le> MAX_TOTAL_BUFFER_BYTES"
    "sc_batch_size c * sc_response_slot_bytes c \<le> MAX_TOTAL_BUFFER_BYTES"
    using v(9,10) mult_le_mono2 [OF up, of "sc_batch_size c"] order.trans by blast+
  have "n \<le> sc_batch_size c * n" for n using v(1) by simp
  then have "sc_max_request_bytes c \<le> MAX_TOTAL_BUFFER_BYTES" "sc_response_slot_bytes c \<le> MAX_TOTAL_BUFFER_BYTES"
    using prods order.trans by blast+
  then show ?thesis using v prods
    by (simp add: config_limits)
qed

lemma default_config_validates: "server_config_validate (default_server_config addr) = Inr ()"
  by (simp add: server_config_validate_def default_server_config_def round_up_to_word_def checked_add_usize_def
      checked_mul_usize_def config_limits duration_from_micros_def duration_from_secs_def DEFAULT_BATCH_SIZE_def
      DEFAULT_BATCH_WAIT_MICROS_def DEFAULT_QUEUE_DEPTH_def DEFAULT_MAX_REQUEST_BYTES_def
      DEFAULT_RESPONSE_SLOT_BYTES_def DEFAULT_MAX_CONNECTIONS_def DEFAULT_READ_TIMEOUT_SECS_def)

text \<open>The default configuration and the default command line are accepted, and give the same
  configuration.\<close>

theorem defaults_accepted:
  "server_config_validate (default_server_config addr) = Inr ()
   \<and> server_config_try_from (cli_default addr) = Inr (default_server_config addr)"
  using default_config_validates [of addr]
  by (simp add: server_config_try_from_def cli_default_def default_backend_choice_def flip: default_server_config_def)

theorem validated_config_bounds_witness:
  "sc_batch_size (default_server_config (0 :: nat)) * sc_max_request_bytes (default_server_config (0 :: nat)) \<le> 67108864"
  using validated_config_bounds [OF default_config_validates, of "0 :: nat"] by (simp add: MAX_TOTAL_BUFFER_BYTES_def)

end
