(* ===== verification/HttpGpuTotal.thy ===== *)
theory HttpGpuTotal
  imports HttpGpuProofs ServerConfig
begin

text \<open>
  When the HTTP GPU processor can be created: the string arena, its metadata and the word program
  of a compiled router are bounded by sizes of the declared router, the batch buffers by the
  validated server configuration.
\<close>

section \<open>Strings and words of a compiled router\<close>

definition string_weight :: "bytes \<Rightarrow> nat" where
  "string_weight v = length v + 16"

definition table_weight :: "string_table \<Rightarrow> nat" where
  "table_weight st = sum_list (map string_weight (st_values st))"

definition segment_weight :: "body_segment \<Rightarrow> nat" where
  "segment_weight s = (case s of Literal v \<Rightarrow> string_weight v | BackendVariant cpu gpu \<Rightarrow> string_weight cpu + string_weight gpu | _ \<Rightarrow> 0)"

definition response_weight :: "response \<Rightarrow> nat" where
  "response_weight r = string_weight (status_reason (r_status r)) + string_weight (r_content_type r)
     + sum_list (map segment_weight (r_body r))"

definition route_weight :: "bytes \<times> response \<Rightarrow> nat" where
  "route_weight pr = string_weight (fst pr) + response_weight (snd pr)"

definition router_weight :: "router \<Rightarrow> nat" where
  "router_weight rt = sum_list (map route_weight (rt_routes rt)) + response_weight (rt_fallback rt)
     + response_weight (rt_bad_request rt) + response_weight (rt_method_not_allowed rt)"

definition response_words :: "response \<Rightarrow> nat" where
  "response_words r = 5 + 3 * length (r_body r)"

definition router_code_words :: "router \<Rightarrow> nat" where
  "router_code_words rt = sum_list (map (\<lambda>pr. 4 + response_words (snd pr)) (rt_routes rt)) + response_words (rt_fallback rt)
     + response_words (rt_bad_request rt) + response_words (rt_method_not_allowed rt)"

lemma st_intern_weight: "st_intern st v = Some (st', i) \<Longrightarrow> table_weight st' \<le> table_weight st + string_weight v"
  by (auto simp: st_intern_def table_weight_def Let_def split: option.splits if_splits)

lemma compile_segments_weight:
  "compile_segments st b segs g m = ok (st', segs', g', m') \<Longrightarrow> table_weight st' \<le> table_weight st + sum_list (map segment_weight b)"
proof (induction b arbitrary: st segs g m)
  case (Cons s b)
  obtain st1 segs1 g1 m1 where rest: "compile_segments st1 b segs1 g1 m1 = ok (st', segs', g', m')"
    and step: "table_weight st1 \<le> table_weight st + segment_weight s"
  proof (cases s)
    case (BackendVariant cpu gpu)
    then obtain sta i stb j segs1 g1 m1 where i: "st_intern st cpu = Some (sta, i)" "st_intern sta gpu = Some (stb, j)"
      and rest: "compile_segments stb b segs1 g1 m1 = ok (st', segs', g', m')"
      using Cons.prems unfolding BackendVariant by (clarsimp simp: and_then_ok_iff)
    have "table_weight stb \<le> table_weight st + segment_weight s"
      using st_intern_weight [OF i(1)] st_intern_weight [OF i(2)] by (simp add: BackendVariant segment_weight_def)
    then show thesis using that rest by blast
  next
    case (Literal v)
    then obtain sta i segs1 g1 m1 where i: "st_intern st v = Some (sta, i)"
      and rest: "compile_segments sta b segs1 g1 m1 = ok (st', segs', g', m')"
      using Cons.prems unfolding Literal by (clarsimp simp: and_then_ok_iff)
    have "table_weight sta \<le> table_weight st + segment_weight s"
      using st_intern_weight [OF i] by (simp add: Literal segment_weight_def)
    then show thesis using that rest by blast
  qed (use Cons.prems that in \<open>clarsimp simp: and_then_ok_iff segment_weight_def; blast\<close>)+
  show ?case using Cons.IH [OF rest] step by simp
qed simp

lemma compile_response_weight: "compile_response st r = ok (st', c) \<Longrightarrow> table_weight st' \<le> table_weight st + response_weight r"
proof -
  assume "compile_response st r = ok (st', c)"
  then obtain st1 ri st2 ti segs g m where i: "st_intern st (status_reason (r_status r)) = Some (st1, ri)"
    "st_intern st1 (r_content_type r) = Some (st2, ti)" and segs: "compile_segments st2 (r_body r) [] 0 0 = ok (st', segs, g, m)"
    by (auto simp: compile_response_def and_then_ok_iff)
  show ?thesis using st_intern_weight [OF i(1)] st_intern_weight [OF i(2)] compile_segments_weight [OF segs]
    by (simp add: response_weight_def)
qed

lemma compile_routes_weight:
  "compile_routes st prs seen rs = ok (st', rs') \<Longrightarrow> table_weight st' \<le> table_weight st + sum_list (map (response_weight \<circ> snd) prs)"
proof (induction prs arbitrary: st seen rs)
  case (Cons pr prs)
  obtain path r where pr: "pr = (path, r)" by force
  from Cons.prems obtain st1 c seen1 rs1 where c: "compile_response st r = ok (st1, c)" and rest: "compile_routes st1 prs seen1 rs1 = ok (st', rs')"
    by (auto simp: pr and_then_ok_iff split: if_splits)
  show ?case using Cons.IH [OF rest] compile_response_weight [OF c] by (simp add: pr)
qed simp

lemma emit_routes_weight:
  "emit_routes words st i rs = ok (words', st') \<Longrightarrow> table_weight st' \<le> table_weight st + sum_list (map (string_weight \<circ> cr_path) rs)
    \<and> length words' = length words + sum_list (map (\<lambda>k. 5 + 3 * length (c_segments (cr_response k))) rs)"
proof (induction rs arbitrary: words st i)
  case (Cons r rs)
  obtain ws1 off where e: "emit_response words (cr_response r) = ok (ws1, off)" using Cons.prems by (auto simp: and_then_ok_iff)
  from Cons.prems e obtain st1 j ws2 where j: "st_intern st (cr_path r) = Some (st1, j)" and ws2: "length ws2 = length ws1"
    and rest: "emit_routes ws2 st1 (i + 1) rs = ok (words', st')"
    by (auto simp: and_then_ok_iff Let_def dest!: set_at_length)
  have "length ws1 = length words + 5 + 3 * length (c_segments (cr_response r))"
    using emit_response_ok [OF e] by (simp add: response_code_def length_seg_codes)
  then show ?case using Cons.IH [OF rest] st_intern_weight [OF j] ws2 by simp
qed simp

lemma router_compiler_new_weight:
  assumes "router_compiler_new = Some (st, ids)"
  shows "table_weight st \<le> 200"
proof -
  obtain s1 v s2 ct s3 cl s4 tl gp where
    i: "st_intern string_table_default (ascii ''HTTP/1.1 '') = Some (s1, v)"
    "st_intern s1 (CRLF @ ascii ''Content-Type: '') = Some (s2, ct)"
    "st_intern s2 (CRLF @ ascii ''Content-Length: '') = Some (s3, cl)"
    "st_intern s3 HEADER_TAIL = Some (s4, tl)" "st_intern s4 (ascii ''gpu'') = Some (st, gp)"
    using assms by (auto simp: router_compiler_new_def split: option.splits bind_splits)
  have "table_weight string_table_default = 0" by (simp add: table_weight_def string_table_default_def)
  then show ?thesis using i [THEN st_intern_weight]
    by (simp add: string_weight_def CRLF_def HEADER_TAIL_def)
qed

lemma sum_list_permuted: "mset xs = mset ys \<Longrightarrow> sum_list (map f xs) = sum_list (map (f :: 'a \<Rightarrow> nat) ys)"
  by (metis mset_map sum_mset_sum_list)

lemma compiled_sizes:
  assumes "compile rt = ok c"
  shows "sum_list (map string_weight (k_strings c)) \<le> 200 + router_weight rt" "length (k_words c) = router_code_words rt"
proof -
  from assms obtain st0 ids st1 rs st2 st3 st4 st w0 w1 w2 o0 o1 o2 where
    new: "router_compiler_new = Some (st0, ids)" and rts: "compile_routes st0 (rt_routes rt) {} [] = ok (st1, rs)"
    and fb: "compile_response st1 (rt_fallback rt) = ok (st2, k_fallback c)"
    and br: "compile_response st2 (rt_bad_request rt) = ok (st3, k_bad_request c)"
    and mna: "compile_response st3 (rt_method_not_allowed rt) = ok (st4, k_method_not_allowed c)"
    and em: "emit_routes (replicate (length rs * ROUTE_STRIDE_WORDS) 0) st4 0 (k_routes c) = ok (w0, st)"
    and e0: "emit_response w0 (k_fallback c) = ok (w1, o0)" and e1: "emit_response w1 (k_bad_request c) = ok (w2, o1)"
    and e2: "emit_response w2 (k_method_not_allowed c) = ok (k_words c, o2)"
    and k: "k_routes c = sort_key route_order rs" "k_strings c = st_values st" by (rule compile_stages)
  have perm: "mset (k_routes c) = mset rs" by (simp add: k)
  have v0: "st_valid st0" using router_compiler_new_valid [OF new] by simp
  from compile_routes_sound [OF rts v0] have v1: "st_valid st1" and reps: "list_all2 (represents_route st1) (rt_routes rt) rs" by auto
  from compile_response_sound [OF fb v1] have v2: "st_valid st2" and rf: "represents_response st2 (rt_fallback rt) (k_fallback c)" by auto
  from compile_response_sound [OF br v2] have v3: "st_valid st3" and rb: "represents_response st3 (rt_bad_request rt) (k_bad_request c)" by auto
  from compile_response_sound [OF mna v3] have rm: "represents_response st4 (rt_method_not_allowed rt) (k_method_not_allowed c)" by auto
  have segs: "represents_response s r cr \<Longrightarrow> length (c_segments cr) = length (r_body r)" for s r cr
    by (auto simp: represents_response_def dest: list_all2_lengthD)
  have paths: "map cr_path rs = map fst (rt_routes rt)" "map (\<lambda>k. length (c_segments (cr_response k))) rs = map (\<lambda>pr. length (r_body (snd pr))) (rt_routes rt)"
    using reps by (induction rule: list_all2_induct) (auto simp: represents_route_def segs)
  have "sum_list (map (string_weight \<circ> cr_path) (k_routes c)) = sum_list (map string_weight (map fst (rt_routes rt)))"
    unfolding sum_list_permuted [OF perm] paths(1) [symmetric] by simp
  moreover have "sum_list (map route_weight (rt_routes rt))
      = sum_list (map string_weight (map fst (rt_routes rt))) + sum_list (map (response_weight \<circ> snd) (rt_routes rt))"
    by (induction "rt_routes rt") (simp_all add: route_weight_def sum_list_addf comp_def)
  ultimately show "sum_list (map string_weight (k_strings c)) \<le> 200 + router_weight rt"
    using router_compiler_new_weight [OF new] compile_routes_weight [OF rts] compile_response_weight [OF fb]
      compile_response_weight [OF br] compile_response_weight [OF mna] emit_routes_weight [OF em]
    unfolding k(2) table_weight_def [symmetric] router_weight_def by linarith
  have "sum_list (map (\<lambda>k. 5 + 3 * length (c_segments (cr_response k))) (k_routes c))
      = sum_list (map (\<lambda>n. 5 + 3 * n) (map (\<lambda>k. length (c_segments (cr_response k))) rs))"
    unfolding sum_list_permuted [OF perm] by (simp add: comp_def)
  also have "\<dots> = sum_list (map (\<lambda>pr. response_words (snd pr)) (rt_routes rt))"
    unfolding paths(2) by (simp add: comp_def response_words_def)
  finally have codes: "sum_list (map (\<lambda>k. 5 + 3 * length (c_segments (cr_response k))) (k_routes c))
      = sum_list (map (\<lambda>pr. response_words (snd pr)) (rt_routes rt))" .
  have routes: "sum_list (map (\<lambda>pr. 4 + response_words (snd pr)) (rt_routes rt))
      = length rs * 4 + sum_list (map (\<lambda>pr. response_words (snd pr)) (rt_routes rt))"
    using list_all2_lengthD [OF reps] by (simp add: sum_list_addf sum_list_triv)
  have len: "length ws' = length ws + 5 + 3 * length (c_segments cr)" if "emit_response ws cr = ok (ws', off)" for ws cr ws' off
    using emit_response_ok [OF that] by (simp add: response_code_def length_seg_codes)
  show "length (k_words c) = router_code_words rt"
    using emit_routes_weight [OF em] len [OF e0] len [OF e1] len [OF e2] codes routes segs [OF rf] segs [OF rb] segs [OF rm]
    by (simp add: router_code_words_def response_words_def ROUTE_STRIDE_WORDS_def)
qed

section \<open>The response slot\<close>

definition response_maximum :: "response \<Rightarrow> nat" where
  "response_maximum r = 102 + decimal_digits (unat (status_code (r_status r))) + length (status_reason (r_status r))
     + length (r_content_type r) + decimal_digits (sum_list (map gpu_bound (r_body r))) + sum_list (map gpu_bound (r_body r))"

definition fits_slot :: "router \<Rightarrow> nat \<Rightarrow> bool" where
  "fits_slot rt n \<longleftrightarrow> list_all (\<lambda>pr. response_maximum (snd pr) \<le> n) (rt_routes rt) \<and> response_maximum (rt_fallback rt) \<le> n
     \<and> response_maximum (rt_bad_request rt) \<le> n \<and> response_maximum (rt_method_not_allowed rt) \<le> n"

lemma maximum_of_below:
  "maximum_of st ids k crs = ok n \<Longrightarrow> k \<le> b \<Longrightarrow> \<forall>cr\<in>set crs. \<forall>m. maximum_response_bytes st ids cr = ok m \<longrightarrow> m \<le> b \<Longrightarrow> n \<le> b"
  by (induction crs arbitrary: k) (auto simp: and_then_ok_iff)

lemma compiled_maximum:
  assumes "compile rt = ok c" "fits_slot rt n"
  shows "k_max_gpu_response_bytes c \<le> n"
proof -
  obtain st ids where cf: "compiled_for rt c st"
    and mx: "maximum_of st ids 0 (map cr_response (k_routes c) @ [k_fallback c, k_bad_request c, k_method_not_allowed c])
       = ok (k_max_gpu_response_bytes c)"
    and ids: "st_get st (id_http_version ids) = Some (ascii ''HTTP/1.1 '')"
    "st_get st (id_header_content_type ids) = Some (CRLF @ ascii ''Content-Type: '')"
    "st_get st (id_header_content_length ids) = Some (CRLF @ ascii ''Content-Length: '')"
    "st_get st (id_header_tail ids) = Some HEADER_TAIL" by (rule compile_compiled_for [OF assms(1)])
  have one: "m \<le> n" if "maximum_response_bytes st ids cr = ok m" "represents_response st r cr" "response_maximum r \<le> n" for cr m r
    using maximum_response_bytes_ok [OF that(1,2) ids] that(2,3) by (simp add: represents_response_def response_maximum_def)
  obtain rs where perm: "mset (k_routes c) = mset rs" and reps: "list_all2 (represents_route st) (rt_routes rt) rs"
    using cf by (auto simp: compiled_for_def)
  have below: "\<exists>r. represents_response st r cr \<and> response_maximum r \<le> n"
    if "cr \<in> set (map cr_response (k_routes c) @ [k_fallback c, k_bad_request c, k_method_not_allowed c])" for cr
  proof (cases "cr \<in> cr_response ` set (k_routes c)")
    case True
    then obtain i where i: "i < length rs" "cr = cr_response (rs ! i)"
      using mset_eq_setD [OF perm] by (auto simp: in_set_conv_nth)
    then have "represents_response st (snd (rt_routes rt ! i)) cr" "i < length (rt_routes rt)"
      using list_all2_nthD2 [OF reps i(1)] list_all2_lengthD [OF reps] by (simp_all add: represents_route_def)
    then show ?thesis using assms(2) by (auto simp: fits_slot_def list_all_length)
  next
    case False
    then have "cr = k_fallback c \<or> cr = k_bad_request c \<or> cr = k_method_not_allowed c" using that by simp
    then show ?thesis using cf assms(2) unfolding compiled_for_def fits_slot_def by metis
  qed
  show ?thesis
  proof (rule maximum_of_below [OF mx le0], intro ballI allI impI)
    fix cr m
    assume "cr \<in> set (map cr_response (k_routes c) @ [k_fallback c, k_bad_request c, k_method_not_allowed c])"
      and m: "maximum_response_bytes st ids cr = ok m"
    from below [OF this(1)] obtain r where "represents_response st r cr" "response_maximum r \<le> n" by blast
    then show "m \<le> n" by (rule one [OF m])
  qed
qed

lemma compiled_maximum_positive:
  assumes "compile rt = ok c"
  shows "0 < k_max_gpu_response_bytes c"
proof -
  have "0 < length (spec_route rt [] (ascii ''gpu''))" by (simp add: spec_route_nonempty)
  also have "\<dots> \<le> k_max_gpu_response_bytes c" using gpu_response_fits [OF assms, of "[]"] by simp
  finally show ?thesis .
qed

section \<open>The arena is built\<close>

lemma char_count_le: "char_count v \<le> length v"
  by (simp add: char_count_def)

lemma length_persistent_tail [simp]: "length PERSISTENT_GPU_HEADER_TAIL = 39"
  by (simp add: PERSISTENT_GPU_HEADER_TAIL_def CRLF_def)

lemma persistent_tail_nonempty [simp]: "PERSISTENT_GPU_HEADER_TAIL \<noteq> []"
  by (simp add: PERSISTENT_GPU_HEADER_TAIL_def CRLF_def)

lemma arena_loop_total:
  "length bs + sum_list (map length vs) + (if i \<le> ti then 39 else 0) \<le> U32_MAX \<Longrightarrow>
    \<exists>bs' ms'. arena_loop ti i vs bs ms = ok (bs', ms') \<and> length ms' = length ms + length vs
      \<and> length bs' \<le> length bs + sum_list (map length vs) + (if i \<le> ti then 39 else 0)
      \<and> (bs \<noteq> [] \<or> i \<le> ti \<and> ti < i + length vs \<longrightarrow> bs' \<noteq> [])"
proof (induction vs arbitrary: i bs ms)
  case (Cons v vs)
  let ?u = "if i = ti then PERSISTENT_GPU_HEADER_TAIL else v"
  let ?ms = "ms @ [\<lparr>sm_byte_offset = of_nat (length bs), sm_byte_len = of_nat (length ?u), sm_scalar_len = of_nat (char_count ?u)\<rparr>]"
  have u: "length bs \<le> U32_MAX" "length ?u \<le> U32_MAX" "char_count ?u \<le> U32_MAX"
    using Cons.prems char_count_le [of ?u] by (auto split: if_splits)
  have step: "arena_loop ti i (v # vs) bs ms = arena_loop ti (i + 1) vs (bs @ ?u) ?ms"
    using u by (simp add: asset_u32_def Let_def del: of_nat_add)
  have "length (bs @ ?u) + sum_list (map length vs) + (if i + 1 \<le> ti then 39 else 0) \<le> U32_MAX"
    using Cons.prems by (auto split: if_splits)
  from Cons.IH [OF this, of ?ms] obtain bs' ms' where "arena_loop ti (i + 1) vs (bs @ ?u) ?ms = ok (bs', ms')"
    "length ms' = length ?ms + length vs"
    "length bs' \<le> length (bs @ ?u) + sum_list (map length vs) + (if i + 1 \<le> ti then 39 else 0)"
    "bs @ ?u \<noteq> [] \<or> i + 1 \<le> ti \<and> ti < i + 1 + length vs \<longrightarrow> bs' \<noteq> []" by blast
  then show ?case unfolding step using length_persistent_tail by (auto split: if_splits)
qed auto

lemma build_shader_assets_total:
  assumes "compile rt = ok c" "300 + router_weight rt \<le> U32_MAX"
  shows "\<exists>a. build_shader_assets body c = ok a \<and> 0 < length (sa_metadata a) \<and> 0 < length (sa_words a)
    \<and> length (sa_metadata a) * 16 \<le> 300 + router_weight rt \<and> length (sa_words a) * 4 \<le> 300 + router_weight rt"
proof -
  let ?tl = "unat (id_header_tail (k_ids c))"
  obtain st where "strings_for c st" by (rule compile_strings_for [OF assms(1)])
  then have tl: "?tl < length (k_strings c)" by (auto simp: strings_for_def st_get_def index_def split: if_splits)
  have "sum_list (map string_weight (k_strings c)) = sum_list (map length (k_strings c)) + 16 * length (k_strings c)"
    by (induction "k_strings c") (simp_all add: string_weight_def sum_list_addf sum_list_triv)
  then have w: "sum_list (map length (k_strings c)) + 16 * length (k_strings c) \<le> 200 + router_weight rt"
    using compiled_sizes(1) [OF assms(1)] by simp
  then have "length ([] :: bytes) + sum_list (map length (k_strings c)) + (if 0 \<le> ?tl then 39 else 0) \<le> U32_MAX" using assms(2) by simp
  from arena_loop_total [OF this, of "[]"] tl obtain bs ms where arena: "arena_loop ?tl 0 (k_strings c) [] [] = ok (bs, ms)"
    and ms: "length ms = length (k_strings c)" and bs: "length bs \<le> sum_list (map length (k_strings c)) + 39" "bs \<noteq> []" by auto
  obtain ws where ws: "pack_bytes bs = Some ws" "length ws = div_ceil (length bs) 4" using pack_bytes_closed by blast
  have "div_ceil n 4 * 4 \<le> n + 3" for n unfolding div_ceil_def by presburger
  from this [of "length bs"] have "div_ceil (length bs) 4 * 4 \<le> 300 + router_weight rt" using bs(1) w by linarith
  moreover have "0 < div_ceil (length bs) 4" using div_ceil_4_pos bs(2) by simp
  ultimately show ?thesis using arena ws ms bs w tl by (auto simp: build_shader_assets_def Let_def)
qed

section \<open>Creating the processor\<close>

text \<open>What the batch buffers and the uploads need, against a bound on every binding.\<close>

definition gpu_sized :: "router \<Rightarrow> processor_limits \<Rightarrow> nat \<Rightarrow> bool" where
  "gpu_sized rt limits n \<longleftrightarrow> 0 < pl_max_batch_size limits \<and> 0 < pl_max_request_bytes limits
     \<and> pl_max_request_bytes limits + 3 \<le> USIZE_MAX \<and> pl_response_slot_bytes limits + 3 \<le> USIZE_MAX
     \<and> pl_max_batch_size limits * 16 \<le> n
     \<and> pl_max_batch_size limits * (4 * ((pl_max_request_bytes limits + 3) div 4)) \<le> n
     \<and> pl_max_batch_size limits * (4 * ((pl_response_slot_bytes limits + 3) div 4)) \<le> n
     \<and> fits_slot rt (pl_response_slot_bytes limits) \<and> 300 + router_weight rt \<le> n \<and> router_code_words rt * 4 \<le> n"

definition adapter_grants :: "wgpu_adapter \<Rightarrow> nat \<Rightarrow> bool" where
  "adapter_grants ad n \<longleftrightarrow> ad_compute_shaders ad \<and> ad_device_granted ad \<and> n \<le> ad_max_binding ad \<and> 2 * n \<le> ad_max_buffer ad"

lemma div_ceil_4_alt: "div_ceil n 4 = (n + 3) div 4"
  unfolding div_ceil_def by presburger

lemmas record_bytes = REQUEST_META_BYTES_def RESPONSE_META_BYTES_def STRING_META_BYTES_def

lemma lift_error_simps: "lift_error f (ok x) = ok x"
  by (simp add: lift_error_def ok_def)

text \<open>The sizes of the buffers, and what the host computes before it asks for an adapter.\<close>

lemma checked_sizes:
  "x * y \<le> n \<Longrightarrow> n \<le> U32_MAX \<Longrightarrow> checked_buffer_bytes l x y = ok (x * y)"
  by (simp add: checked_buffer_bytes_ok U32_MAX_def USIZE_MAX_def)

lemma sized_buffers:
  assumes c: "compile rt = ok c" and sized: "gpu_sized rt limits n"
  defines "B \<equiv> pl_max_batch_size limits" and "M \<equiv> pl_max_request_bytes limits" and "K \<equiv> k_max_gpu_response_bytes c"
  shows "16 \<le> B * 16 \<and> B * 16 \<le> n" "4 \<le> B * (div_ceil M 4 * 4) \<and> B * (div_ceil M 4 * 4) \<le> n"
    "4 \<le> B * (div_ceil K 4 * 4) \<and> B * (div_ceil K 4 * 4) \<le> n" "M + 3 \<le> USIZE_MAX" "K + 3 \<le> USIZE_MAX"
    "K \<le> pl_response_slot_bytes limits" "pl_response_slot_bytes limits + 3 \<le> USIZE_MAX"
    "4 \<le> length (k_words c) * 4 \<and> length (k_words c) * 4 \<le> n"
proof -
  let ?R = "pl_response_slot_bytes limits"
  have K: "K \<le> ?R" "0 < K" using compiled_maximum [OF c] compiled_maximum_positive [OF c] sized by (simp_all add: gpu_sized_def K_def)
  have B: "1 \<le> B" "B * 16 \<le> n" and M: "B * (div_ceil M 4 * 4) \<le> n" "M + 3 \<le> USIZE_MAX"
    and R: "B * (div_ceil ?R 4 * 4) \<le> n" "?R + 3 \<le> USIZE_MAX"
    using sized by (simp_all add: gpu_sized_def div_ceil_4_alt mult.commute [of 4] B_def M_def)
  have M1: "1 \<le> div_ceil M 4" using sized div_ceil_4_pos [of M] by (simp add: gpu_sized_def M_def)
  have K1: "1 \<le> div_ceil K 4" using div_ceil_4_pos [OF K(2)] by simp
  have "div_ceil K 4 \<le> div_ceil ?R 4" using K(1) by (simp add: div_ceil_4_alt div_le_mono)
  then have "B * (div_ceil K 4 * 4) \<le> B * (div_ceil ?R 4 * 4)" by simp
  from le_trans [OF this R(1)] have S: "B * (div_ceil K 4 * 4) \<le> n" .
  have least: "4 \<le> B * (k * 4)" if "1 \<le> k" for k
  proof -
    have "1 \<le> B * k" using B(1) that mult_le_mono [of 1 B 1 k] by simp
    then show ?thesis by simp
  qed
  show "16 \<le> B * 16 \<and> B * 16 \<le> n" "4 \<le> B * (div_ceil M 4 * 4) \<and> B * (div_ceil M 4 * 4) \<le> n"
    "4 \<le> B * (div_ceil K 4 * 4) \<and> B * (div_ceil K 4 * 4) \<le> n" "M + 3 \<le> USIZE_MAX" "K + 3 \<le> USIZE_MAX"
    "K \<le> ?R" "?R + 3 \<le> USIZE_MAX"
    using B M K R S least [OF M1] least [OF K1] by linarith+
  show "4 \<le> length (k_words c) * 4 \<and> length (k_words c) * 4 \<le> n"
    using compiled_sizes(2) [OF c] sized by (simp add: gpu_sized_def router_code_words_def response_words_def)
qed

lemma host_sizes:
  assumes c: "compile rt = ok c" and sized: "gpu_sized rt limits n" and n: "n \<le> U32_MAX"
  defines "B \<equiv> pl_max_batch_size limits" and "M \<equiv> pl_max_request_bytes limits" and "K \<equiv> k_max_gpu_response_bytes c"
  obtains a where "build_shader_assets body c = ok a"
    "validate_gpu_response_slot c (pl_response_slot_bytes limits) = ok ()"
    "words_for_bytes M = ok (div_ceil M 4)" "words_for_bytes (pl_response_slot_bytes limits) = ok (div_ceil (pl_response_slot_bytes limits) 4)"
    "words_for_bytes K = ok (div_ceil K 4)"
    "checked_buffer_bytes ''request metadata'' B 16 = ok (B * 16)"
    "checked_buffer_bytes ''request input'' B (div_ceil M 4 * 4) = ok (B * (div_ceil M 4 * 4))"
    "checked_buffer_bytes ''response metadata'' B 16 = ok (B * 16)"
    "checked_buffer_bytes ''response output'' B (div_ceil K 4 * 4) = ok (B * (div_ceil K 4 * 4))"
    "checked_add_usize (B * 16) (B * (div_ceil K 4 * 4)) = Some (B * 16 + B * (div_ceil K 4 * 4))"
    "checked_buffer_bytes ''shader string metadata'' (length (sa_metadata a)) 16 = ok (length (sa_metadata a) * 16)"
    "checked_buffer_bytes ''shader string arena'' (length (sa_words a)) 4 = ok (length (sa_words a) * 4)"
    "checked_buffer_bytes ''GPU router program'' (length (k_words c)) 4 = ok (length (k_words c) * 4)"
    "16 \<le> length (sa_metadata a) * 16 \<and> length (sa_metadata a) * 16 \<le> n" "4 \<le> length (sa_words a) * 4 \<and> length (sa_words a) * 4 \<le> n"
proof -
  note z = sized_buffers [OF c sized, folded B_def M_def K_def]
  obtain a where a: "build_shader_assets body c = ok a" "0 < length (sa_metadata a)" "0 < length (sa_words a)"
    "length (sa_metadata a) * 16 \<le> n" "length (sa_words a) * 4 \<le> n"
    using build_shader_assets_total [OF c, of body] sized n by (auto simp: gpu_sized_def)
  have "B * 16 + B * (div_ceil K 4 * 4) \<le> USIZE_MAX" using z(1,3) n by (simp add: U32_MAX_def USIZE_MAX_def)
  moreover have "validate_gpu_response_slot c (pl_response_slot_bytes limits) = ok ()"
    using z(6) by (simp add: validate_gpu_response_slot_def K_def)
  moreover have lens: "1 \<le> length (sa_metadata a)" "1 \<le> length (sa_words a)" using a(2,3) by linarith+
  ultimately show thesis
    by (intro that [OF a(1)])
      (use z n a(4,5) in \<open>simp_all add: words_for_bytes_ok checked_sizes [OF _ n] checked_add_usize_def\<close>)
qed

lemma from_compiled_total:
  assumes c: "compile rt = ok c" and sized: "gpu_sized rt limits n" and n: "n \<le> U32_MAX" and ad: "adapter_grants ad n"
  shows "\<exists>g. from_compiled body (Some ad) limits c = ok g"
proof (cases rule: host_sizes [OF c sized n, where body = body])
  case (1 a)
  note z = sized_buffers [OF c sized]
  have ad': "ad_compute_shaders ad" "ad_device_granted ad" "n \<le> ad_max_binding ad" "2 * n \<le> ad_max_buffer ad"
    using ad by (simp_all add: adapter_grants_def)
  have make: "create_buffer ad k x = ok ()" if "k \<le> x \<and> x \<le> n" for k x using that ad'(3,4) by (simp add: create_buffer_ok)
  have room: "pl_max_batch_size limits * 16 + pl_max_batch_size limits * (div_ceil (k_max_gpu_response_bytes c) 4 * 4) \<le> ad_max_buffer ad"
    using z(1,3) ad'(4) by linarith
  show ?thesis using ad'(1,2) room
    by (simp add: from_compiled_def 1(1-13) make [OF z(1)] make [OF z(2)] make [OF z(3)] make [OF z(8)] make [OF 1(14)] make [OF 1(15)]
        record_bytes Let_def lift_error_simps)
qed

lemma from_compiled_unusable:
  assumes c: "compile rt = ok c" and sized: "gpu_sized rt limits n" and n: "n \<le> U32_MAX"
    and ad: "\<forall>ad. adapter = Some ad \<longrightarrow> \<not> (ad_compute_shaders ad \<and> ad_device_granted ad)"
  shows "\<exists>e. from_compiled body adapter limits c = fail e"
proof (cases rule: host_sizes [OF c sized n, where body = body])
  case (1 a)
  show ?thesis using ad by (cases adapter) (auto simp: from_compiled_def 1(1-13) record_bytes Let_def lift_error_simps)
qed

lemma with_router_total:
  assumes "small_router rt" "gpu_sized rt limits n" "n \<le> U32_MAX" "adapter_grants ad n"
  shows "\<exists>g. with_router body (Some ad) limits rt = ok g"
proof -
  obtain c where c: "compile rt = ok c" using compile_succeeds [OF assms(1)] by blast
  have "validate_gpu_response_slot c (pl_response_slot_bytes limits) = ok ()"
    using sized_buffers(6) [OF c assms(2)] by (simp add: validate_gpu_response_slot_def)
  then show ?thesis using from_compiled_total [OF c assms(2-4), of body] by (simp add: with_router_def c lift_error_simps)
qed

end
