(* ===== verification/Batcher.thy ===== *)
theory Batcher
  imports Protocol
begin

text \<open>
  \<open>src/batcher.rs\<close>: the request queue, the worker that collects jobs into batches and hands them to
  the processor, and the metrics. The threads interleave as steps: \<open>submit_job\<close> is a client,
  \<open>worker_step\<close> one action of the worker at the point where it is. A reply channel is a number; the
  replies sent are kept in order. The processor is a state-passing function \<open>process\<close> whose
  \<open>None\<close> is a panic, which ends the worker and drops every queued job.
\<close>

section \<open>State\<close>

record job =
  j_request :: bytes
  j_reply :: nat

record batcher_config =
  bc_max_batch_size :: nat
  bc_max_batch_wait :: nat
  bc_queue_depth :: nat

record batcher_metrics =
  accepted_requests :: u64
  rejected_requests :: u64
  completed_requests :: u64
  failed_requests :: u64
  batches :: u64
  max_batch_seen :: nat
  total_processing_nanos :: u64

definition default_batcher_metrics :: batcher_metrics where
  "default_batcher_metrics = \<lparr>accepted_requests = 0, rejected_requests = 0, completed_requests = 0,
     failed_requests = 0, batches = 0, max_batch_seen = 0, total_processing_nanos = 0\<rparr>"

datatype submit_error = Overloaded | Stopped | Processing string

text \<open>\<open>BatcherMetrics::snapshot\<close> loads the counters one by one; without a step in between it is the
  record itself.\<close>

definition snapshot :: "batcher_metrics \<Rightarrow> batcher_metrics" where
  "snapshot m = \<lparr>accepted_requests = accepted_requests m, rejected_requests = rejected_requests m,
     completed_requests = completed_requests m, failed_requests = failed_requests m, batches = batches m,
     max_batch_seen = max_batch_seen m, total_processing_nanos = total_processing_nanos m\<rparr>"

text \<open>Where the worker is: waiting in \<open>recv\<close>, at the head of the loop of \<open>collect_jobs\<close>, after an
  empty \<open>try_recv\<close> in it, with a collected batch, or gone (returned or panicked; either way the
  receiver is dropped).\<close>

datatype worker = Receiving | Collecting "job list" | Waiting "job list" | Ready "job list" | Exited | Panicked

record 'p batcher =
  b_queue :: "job list"
  b_open :: bool
  b_worker :: worker
  b_processor :: 'p
  b_metrics :: batcher_metrics
  b_replies :: "(nat \<times> (string + bytes)) list"
  b_next :: nat

type_synonym 'p process = "'p \<Rightarrow> bytes list \<Rightarrow> ((string + bytes list) \<times> 'p) option"

definition batcher_start :: "'p \<Rightarrow> 'p batcher" where
  "batcher_start p = \<lparr>b_queue = [], b_open = True, b_worker = Receiving, b_processor = p,
     b_metrics = default_batcher_metrics, b_replies = [], b_next = 0\<rparr>"

datatype spawn_error = BatchSizeNotPositive | QueueDepthNotPositive | ThreadNotSpawned

text \<open>\<open>spawn_batcher\<close>. What the process it runs in grants is a parameter: \<open>queue_fits\<close> tells for which
  depths \<open>bounded\<close> can allocate the channel (it panics for a capacity that overflows), \<open>thread_spawns\<close>
  whether the operating system starts the thread.\<close>

definition spawn_batcher :: "(nat \<Rightarrow> bool) \<Rightarrow> bool \<Rightarrow> batcher_config \<Rightarrow> 'p \<Rightarrow> (spawn_error, 'p batcher) outcome" where
  "spawn_batcher queue_fits thread_spawns cfg p =
     (if \<not> bc_max_batch_size cfg > 0 then fail BatchSizeNotPositive
      else if \<not> bc_queue_depth cfg > 0 then fail QueueDepthNotPositive
      else if \<not> queue_fits (bc_queue_depth cfg) then None
      else if \<not> thread_spawns then fail ThreadNotSpawned
      else ok (batcher_start p))"

lemma spawn_batcher_ok:
  "spawn_batcher queue_fits thread_spawns cfg p = ok b \<longleftrightarrow> 0 < bc_max_batch_size cfg \<and> 0 < bc_queue_depth cfg
     \<and> queue_fits (bc_queue_depth cfg) \<and> thread_spawns \<and> b = batcher_start p"
  by (auto simp: spawn_batcher_def ok_def fail_def)

section \<open>Clients\<close>

definition worker_gone :: "worker \<Rightarrow> bool" where
  "worker_gone w \<longleftrightarrow> w = Exited \<or> w = Panicked"

declare worker_gone_def [simp]

text \<open>\<open>submit\<close> up to the await: the job is queued with a fresh reply channel, or refused.\<close>

definition submit_job :: "batcher_config \<Rightarrow> bytes \<Rightarrow> 'p batcher \<Rightarrow> (submit_error + nat) \<times> 'p batcher" where
  "submit_job cfg request b =
     (if worker_gone (b_worker b) then (Inl Stopped, b)
      else if length (b_queue b) < bc_queue_depth cfg
      then (Inr (b_next b),
        b\<lparr>b_queue := b_queue b @ [\<lparr>j_request = request, j_reply = b_next b\<rparr>], b_next := b_next b + 1,
          b_metrics := (b_metrics b)\<lparr>accepted_requests := accepted_requests (b_metrics b) + 1\<rparr>\<rparr>)
      else (Inl Overloaded,
        b\<lparr>b_metrics := (b_metrics b)\<lparr>rejected_requests := rejected_requests (b_metrics b) + 1\<rparr>\<rparr>))"

text \<open>The await: \<open>None\<close> while the job is still on its way; a dropped channel is \<open>Stopped\<close>.\<close>

definition await_reply :: "'p batcher \<Rightarrow> nat \<Rightarrow> (submit_error + bytes) option" where
  "await_reply b i =
     (case map_of (b_replies b) i of
        Some (Inr response) \<Rightarrow> Some (Inr response)
      | Some (Inl message) \<Rightarrow> Some (Inl (Processing message))
      | None \<Rightarrow> if worker_gone (b_worker b) then Some (Inl Stopped) else None)"

section \<open>The worker\<close>

definition fail_batch :: "job list \<Rightarrow> string \<Rightarrow> 'p batcher \<Rightarrow> 'p batcher" where
  "fail_batch jobs message b =
     b\<lparr>b_metrics := (b_metrics b)\<lparr>failed_requests := failed_requests (b_metrics b) + of_nat (length jobs)\<rparr>,
       b_replies := b_replies b @ map (\<lambda>job. (j_reply job, Inl message)) jobs\<rparr>"

definition decimal_string :: "nat \<Rightarrow> string" where
  "decimal_string n = map (\<lambda>b. char_of (unat b)) (decimal n)"

definition response_count_message :: "nat \<Rightarrow> nat \<Rightarrow> string" where
  "response_count_message responses batch_size =
     ''processor returned '' @ decimal_string responses @ '' responses for '' @ decimal_string batch_size @ '' requests''"

definition duration_as_u64_nanos :: "nat \<Rightarrow> u64" where
  "duration_as_u64_nanos nanos = of_nat (min nanos 18446744073709551615)"

definition process_jobs :: "'p process \<Rightarrow> nat \<Rightarrow> job list \<Rightarrow> 'p batcher \<Rightarrow> 'p batcher" where
  "process_jobs process nanos jobs b =
     (let batch_size = length jobs;
          b = b\<lparr>b_metrics := (b_metrics b)\<lparr>batches := batches (b_metrics b) + 1,
                max_batch_seen := max (max_batch_seen (b_metrics b)) batch_size\<rparr>\<rparr>
      in (case process (b_processor b) (map j_request jobs) of
            None \<Rightarrow> b\<lparr>b_worker := Panicked, b_queue := []\<rparr>
          | Some (result, p) \<Rightarrow>
              let b = b\<lparr>b_processor := p, b_worker := Receiving,
                    b_metrics := (b_metrics b)\<lparr>total_processing_nanos := total_processing_nanos (b_metrics b) + duration_as_u64_nanos nanos\<rparr>\<rparr>
              in (case result of
                    Inr responses \<Rightarrow>
                      if length responses = batch_size
                      then b\<lparr>b_metrics := (b_metrics b)\<lparr>completed_requests := completed_requests (b_metrics b) + of_nat batch_size\<rparr>,
                             b_replies := b_replies b @ map (\<lambda>(job, response). (j_reply job, Inr response)) (zip jobs responses)\<rparr>
                      else fail_batch jobs (response_count_message (length responses) batch_size) b
                  | Inl message \<Rightarrow> fail_batch jobs message b)))"

text \<open>One iteration of \<open>collect_jobs\<close>; \<open>waited\<close> says that the remaining wait is zero or runs out.\<close>

definition collect_step :: "batcher_config \<Rightarrow> job list \<Rightarrow> 'p batcher \<Rightarrow> 'p batcher" where
  "collect_step cfg jobs b =
     (if length jobs < bc_max_batch_size cfg
      then (case b_queue b of
              job # queue \<Rightarrow> b\<lparr>b_queue := queue, b_worker := Collecting (jobs @ [job])\<rparr>
            | [] \<Rightarrow> if b_open b then b\<lparr>b_worker := Waiting jobs\<rparr> else b\<lparr>b_worker := Ready jobs\<rparr>)
      else b\<lparr>b_worker := Ready jobs\<rparr>)"

definition wait_step :: "bool \<Rightarrow> job list \<Rightarrow> 'p batcher \<Rightarrow> 'p batcher option" where
  "wait_step waited jobs b =
     (if waited then Some (b\<lparr>b_worker := Ready jobs\<rparr>)
      else (case b_queue b of
              job # queue \<Rightarrow> Some (b\<lparr>b_queue := queue, b_worker := Collecting (jobs @ [job])\<rparr>)
            | [] \<Rightarrow> if b_open b then None else Some (b\<lparr>b_worker := Ready jobs\<rparr>)))"

definition receive_step :: "'p batcher \<Rightarrow> 'p batcher option" where
  "receive_step b =
     (case b_queue b of
        first # queue \<Rightarrow> Some (b\<lparr>b_queue := queue, b_worker := Collecting [first]\<rparr>)
      | [] \<Rightarrow> if b_open b then None else Some (b\<lparr>b_worker := Exited\<rparr>))"

definition worker_step :: "batcher_config \<Rightarrow> 'p process \<Rightarrow> bool \<Rightarrow> nat \<Rightarrow> 'p batcher \<Rightarrow> 'p batcher option" where
  "worker_step cfg process waited nanos b =
     (case b_worker b of
        Receiving \<Rightarrow> receive_step b
      | Collecting jobs \<Rightarrow> Some (collect_step cfg jobs b)
      | Waiting jobs \<Rightarrow> wait_step waited jobs b
      | Ready jobs \<Rightarrow> Some (process_jobs process nanos jobs b)
      | _ \<Rightarrow> None)"

section \<open>Reachable states\<close>

text \<open>\<open>batcher_run cfg process p jobs b\<close>: the batcher can be in state \<open>b\<close> after accepting exactly
  \<open>jobs\<close>, in this order, under any interleaving of clients and worker.\<close>

inductive batcher_run :: "batcher_config \<Rightarrow> 'p process \<Rightarrow> 'p \<Rightarrow> job list \<Rightarrow> 'p batcher \<Rightarrow> bool"
  for cfg process p where
  spawned: "spawn_batcher queue_fits thread_spawns cfg p = ok b \<Longrightarrow> batcher_run cfg process p [] b"
| accepted: "batcher_run cfg process p jobs b \<Longrightarrow> b_open b \<Longrightarrow> submit_job cfg request b = (Inr i, b')
    \<Longrightarrow> batcher_run cfg process p (jobs @ [\<lparr>j_request = request, j_reply = i\<rparr>]) b'"
| refused: "batcher_run cfg process p jobs b \<Longrightarrow> b_open b \<Longrightarrow> submit_job cfg request b = (Inl e, b')
    \<Longrightarrow> batcher_run cfg process p jobs b'"
| dropped: "batcher_run cfg process p jobs b \<Longrightarrow> batcher_run cfg process p jobs (b\<lparr>b_open := False\<rparr>)"
| worked: "batcher_run cfg process p jobs b \<Longrightarrow> worker_step cfg process waited nanos b = Some b'
    \<Longrightarrow> batcher_run cfg process p jobs b'"

inductive_cases batcher_runE: "batcher_run cfg process p jobs b"

section \<open>The invariant\<close>

definition in_hand :: "worker \<Rightarrow> job list" where
  "in_hand w = (case w of Collecting jobs \<Rightarrow> jobs | Waiting jobs \<Rightarrow> jobs | Ready jobs \<Rightarrow> jobs | _ \<Rightarrow> [])"

lemma in_hand_simps [simp]:
  "in_hand Receiving = []" "in_hand (Collecting js) = js" "in_hand (Waiting js) = js" "in_hand (Ready js) = js" "in_hand Exited = []" "in_hand Panicked = []"
  by (simp_all add: in_hand_def)

text \<open>The jobs accepted are the answered ones, the batch in hand and the queue, in this order; a worker
  that panicked has answered a prefix.\<close>

definition order_inv :: "job list \<Rightarrow> 'p batcher \<Rightarrow> bool" where
  "order_inv jobs b \<longleftrightarrow> map j_reply jobs = [0..<b_next b]
     \<and> (if b_worker b = Panicked
        then b_queue b = [] \<and> (\<exists>answered lost. jobs = answered @ lost \<and> map fst (b_replies b) = map j_reply answered)
        else \<exists>answered. jobs = answered @ in_hand (b_worker b) @ b_queue b \<and> map fst (b_replies b) = map j_reply answered)"

definition size_inv :: "batcher_config \<Rightarrow> 'p batcher \<Rightarrow> bool" where
  "size_inv cfg b \<longleftrightarrow> 0 < bc_max_batch_size cfg \<and> length (b_queue b) \<le> bc_queue_depth cfg
     \<and> length (in_hand (b_worker b)) \<le> bc_max_batch_size cfg \<and> max_batch_seen (b_metrics b) \<le> bc_max_batch_size cfg
     \<and> (case b_worker b of Collecting js \<Rightarrow> js \<noteq> [] | Waiting js \<Rightarrow> js \<noteq> [] \<and> length js < bc_max_batch_size cfg
        | Ready js \<Rightarrow> js \<noteq> [] | Exited \<Rightarrow> b_queue b = [] | _ \<Rightarrow> True)"

definition metrics_inv :: "job list \<Rightarrow> 'p batcher \<Rightarrow> bool" where
  "metrics_inv jobs b \<longleftrightarrow> accepted_requests (b_metrics b) = of_nat (length jobs)
     \<and> completed_requests (b_metrics b) + failed_requests (b_metrics b) = of_nat (length (b_replies b))"

lemma order_inv_length: "order_inv jobs b \<Longrightarrow> b_next b = length jobs"
  unfolding order_inv_def by (metis length_map length_upt diff_zero)

lemma fst_zip_replies:
  "length jobs = length rs \<Longrightarrow> map fst (map (\<lambda>(job, response). (j_reply job, f response)) (zip jobs rs)) = map j_reply jobs"
  by (induction jobs rs rule: list_induct2) auto

lemmas worker_steps = worker_step_def receive_step_def collect_step_def wait_step_def

lemma process_jobs_panic:
  "process (b_processor b) (map j_request jobs) = None \<Longrightarrow>
     process_jobs process nanos jobs b = b\<lparr>b_metrics := (b_metrics b)\<lparr>batches := batches (b_metrics b) + 1,
       max_batch_seen := max (max_batch_seen (b_metrics b)) (length jobs)\<rparr>, b_worker := Panicked, b_queue := []\<rparr>"
  by (simp add: process_jobs_def Let_def)

lemma process_jobs_returns:
  assumes "process (b_processor b) (map j_request jobs) = Some (result, p)" "b' = process_jobs process nanos jobs b"
  shows "b_queue b' = b_queue b \<and> b_open b' = b_open b \<and> b_next b' = b_next b \<and> b_worker b' = Receiving
    \<and> b_processor b' = p \<and> (\<exists>replies. b_replies b' = b_replies b @ replies \<and> map fst replies = map j_reply jobs)
    \<and> accepted_requests (b_metrics b') = accepted_requests (b_metrics b)
    \<and> completed_requests (b_metrics b') + failed_requests (b_metrics b')
        = completed_requests (b_metrics b) + failed_requests (b_metrics b) + of_nat (length jobs)
    \<and> max_batch_seen (b_metrics b') = max (max_batch_seen (b_metrics b)) (length jobs)"
proof (cases "\<exists>rs. result = Inr rs \<and> length rs = length jobs")
  case True
  then show ?thesis using assms fst_zip_replies [of jobs "case result of Inr rs \<Rightarrow> rs" Inr]
    by (auto simp: process_jobs_def Let_def)
next
  case False
  then have "\<exists>m. b' = fail_batch jobs m (b\<lparr>b_processor := p, b_worker := Receiving,
      b_metrics := (b_metrics b)\<lparr>batches := batches (b_metrics b) + 1,
        max_batch_seen := max (max_batch_seen (b_metrics b)) (length jobs),
        total_processing_nanos := total_processing_nanos (b_metrics b) + duration_as_u64_nanos nanos\<rparr>\<rparr>)"
    using assms by (cases result) (auto simp: process_jobs_def Let_def)
  then show ?thesis by (auto simp: fail_batch_def comp_def)
qed

section \<open>Every step keeps the invariant\<close>

lemma submit_order: "order_inv jobs b \<Longrightarrow> submit_job cfg request b = (Inr i, b') \<Longrightarrow>
    order_inv (jobs @ [\<lparr>j_request = request, j_reply = i\<rparr>]) b'"
  by (auto simp: order_inv_def submit_job_def split: if_splits)

lemma submit_keeps:
  "size_inv cfg b \<Longrightarrow> submit_job cfg request b = (res, b') \<Longrightarrow> size_inv cfg b'"
  "order_inv jobs b \<Longrightarrow> submit_job cfg request b = (Inl e, b') \<Longrightarrow> order_inv jobs b'"
  by (auto simp: size_inv_def order_inv_def submit_job_def split: if_splits worker.splits)

lemma worker_order:
  assumes "order_inv jobs b" "worker_step cfg process waited nanos b = Some b'"
  shows "order_inv jobs b'"
proof (cases "b_worker b")
  case (Ready js)
  with assms(2) have b': "b' = process_jobs process nanos js b" by (simp add: worker_step_def)
  obtain answered where d: "jobs = answered @ js @ b_queue b" "map fst (b_replies b) = map j_reply answered"
    "map j_reply jobs = [0..<b_next b]" using assms(1) Ready by (auto simp: order_inv_def)
  show ?thesis
  proof (cases "process (b_processor b) (map j_request js)")
    case None
    then show ?thesis using d by (auto simp: b' process_jobs_panic order_inv_def)
  next
    case (Some rp)
    then obtain result p where "process (b_processor b) (map j_request js) = Some (result, p)" by (metis prod.exhaust)
    from process_jobs_returns [OF this b'] d show ?thesis
      by (auto simp: order_inv_def intro!: exI [of _ "answered @ js"])
  qed
qed (use assms in \<open>auto simp: worker_steps order_inv_def split: if_splits list.splits\<close>)

lemma worker_size:
  assumes "size_inv cfg b" "worker_step cfg process waited nanos b = Some b'"
  shows "size_inv cfg b'"
proof (cases "b_worker b")
  case (Ready js)
  with assms(2) have b': "b' = process_jobs process nanos js b" by (simp add: worker_step_def)
  show ?thesis
  proof (cases "process (b_processor b) (map j_request js)")
    case None
    then show ?thesis using assms(1) Ready by (auto simp: b' process_jobs_panic size_inv_def)
  next
    case (Some rp)
    then obtain result p where "process (b_processor b) (map j_request js) = Some (result, p)" by (metis prod.exhaust)
    from process_jobs_returns [OF this b'] assms(1) Ready show ?thesis by (auto simp: size_inv_def)
  qed
qed (use assms in \<open>auto simp: worker_steps size_inv_def split: if_splits list.splits\<close>)

lemma worker_metrics:
  assumes "metrics_inv jobs b" "worker_step cfg process waited nanos b = Some b'"
  shows "metrics_inv jobs b'"
proof (cases "b_worker b")
  case (Ready js)
  with assms(2) have b': "b' = process_jobs process nanos js b" by (simp add: worker_step_def)
  show ?thesis
  proof (cases "process (b_processor b) (map j_request js)")
    case None
    then show ?thesis using assms(1) Ready by (auto simp: b' process_jobs_panic metrics_inv_def)
  next
    case (Some rp)
    then obtain result p where "process (b_processor b) (map j_request js) = Some (result, p)" by (metis prod.exhaust)
    from process_jobs_returns [OF this b'] obtain replies where
      "b_replies b' = b_replies b @ replies" "map fst replies = map j_reply js"
      "accepted_requests (b_metrics b') = accepted_requests (b_metrics b)"
      "completed_requests (b_metrics b') + failed_requests (b_metrics b')
        = completed_requests (b_metrics b) + failed_requests (b_metrics b) + of_nat (length js)" by blast
    moreover have "length replies = length js" using calculation(2) by (metis length_map)
    ultimately show ?thesis using assms(1) by (simp add: metrics_inv_def)
  qed
qed (use assms in \<open>auto simp: worker_steps metrics_inv_def split: if_splits list.splits\<close>)

lemma submit_metrics:
  "metrics_inv jobs b \<Longrightarrow> submit_job cfg request b = (Inr i, b') \<Longrightarrow> metrics_inv (jobs @ [j]) b'"
  "metrics_inv jobs b \<Longrightarrow> submit_job cfg request b = (Inl e, b') \<Longrightarrow> metrics_inv jobs b'"
  by (auto simp: metrics_inv_def submit_job_def split: if_splits)

lemma batcher_run_inv:
  assumes "batcher_run cfg process p jobs b"
  shows "order_inv jobs b \<and> size_inv cfg b \<and> metrics_inv jobs b"
  using assms
proof (induction rule: batcher_run.induct)
  case (spawned b)
  then show ?case
    by (auto simp: spawn_batcher_ok batcher_start_def order_inv_def size_inv_def metrics_inv_def
        default_batcher_metrics_def split: if_splits)
next
  case (accepted jobs b request i b')
  then show ?case using submit_order submit_keeps(1) submit_metrics(1) by blast
next
  case (refused jobs b request e b')
  then show ?case using submit_keeps submit_metrics(2) by blast
next
  case (dropped jobs b)
  have "order_inv jobs (b\<lparr>b_open := False\<rparr>) = order_inv jobs b" by (simp add: order_inv_def)
  moreover have "size_inv cfg (b\<lparr>b_open := False\<rparr>)" using dropped by (cases "b_worker b") (simp_all add: size_inv_def)
  ultimately show ?case using dropped.IH by (simp add: metrics_inv_def)
next
  case (worked jobs b waited nanos b')
  then show ?case using worker_order worker_size worker_metrics by blast
qed

end
