(* ===== verification/BatcherProofs.thy ===== *)
theory BatcherProofs
  imports Batcher RouterProgram
begin

text \<open>
  What the batcher promises to its clients: first in first out, exactly one reply per accepted
  request, bounded batches and queue (\<open>batcher_fifo\<close>, \<open>batcher_bounded\<close>), no job left behind
  (\<open>every_job_answered\<close>), and, on a processor that answers request by request, the answer to the
  request that was submitted. The locale \<open>answering_processor\<close> states that last contract; the CPU
  processor of \<open>src/processor/cpu.rs\<close> provides it.
\<close>

section \<open>Order and bounds\<close>

text \<open>C16: under every interleaving, the replies sent so far are to the first accepted requests, in
  order and one each, the batch in hand and the queue are the next ones, in order, and nothing else
  is accepted; only a panic of the processor loses requests.\<close>

theorem batcher_fifo:
  assumes "batcher_run cfg process p jobs b"
  shows "map j_reply jobs = [0..<length jobs] \<and> map fst (b_replies b) = [0..<length (b_replies b)]
    \<and> (if b_worker b = Panicked then b_queue b = [] \<and> length (b_replies b) \<le> length jobs
       else drop (length (b_replies b)) jobs = in_hand (b_worker b) @ b_queue b
         \<and> length (b_replies b) + length (in_hand (b_worker b)) + length (b_queue b) = length jobs)"
proof -
  have o: "order_inv jobs b" using batcher_run_inv [OF assms] by simp
  then have ids: "map j_reply jobs = [0..<length jobs]"
    using order_inv_length by (fastforce simp: order_inv_def)
  obtain answered rest where a: "jobs = answered @ rest" "map fst (b_replies b) = map j_reply answered"
    using o by (auto simp: order_inv_def split: if_splits)
  have len: "length (b_replies b) = length answered" using a(2) by (metis length_map)
  have "map j_reply answered = take (length answered) (map j_reply jobs)" by (simp add: a(1))
  then have fsts: "map fst (b_replies b) = [0..<length (b_replies b)]"
    unfolding a(2) ids using len by (simp add: a(1))
  have lost: "b_queue b = [] \<and> length (b_replies b) \<le> length jobs" if "b_worker b = Panicked"
    using o that a(1) len by (simp add: order_inv_def)
  have kept: "drop (length (b_replies b)) jobs = in_hand (b_worker b) @ b_queue b
      \<and> length (b_replies b) + length (in_hand (b_worker b)) + length (b_queue b) = length jobs" if "b_worker b \<noteq> Panicked"
  proof -
    obtain ans where "jobs = ans @ in_hand (b_worker b) @ b_queue b" "map fst (b_replies b) = map j_reply ans"
      using o \<open>b_worker b \<noteq> Panicked\<close> by (auto simp: order_inv_def)
    moreover have "length (b_replies b) = length ans" using calculation(2) by (metis length_map)
    ultimately show ?thesis by simp
  qed
  show ?thesis using ids fsts lost kept by (cases "b_worker b = Panicked") auto
qed

text \<open>The queue never exceeds its depth, a batch holds at least one and at most the configured
  number of requests, and the recorded maximum is such a size; a submission to a full queue is
  refused as overloaded and changes nothing but its counter.\<close>

theorem batcher_bounded:
  assumes "batcher_run cfg process p jobs b"
  shows "length (b_queue b) \<le> bc_queue_depth cfg \<and> length (in_hand (b_worker b)) \<le> bc_max_batch_size cfg
    \<and> max_batch_seen (b_metrics b) \<le> bc_max_batch_size cfg \<and> b_worker b \<noteq> Ready []
    \<and> (case submit_job cfg request b of
         (Inl Overloaded, b') \<Rightarrow> length (b_queue b) = bc_queue_depth cfg \<and> b_queue b' = b_queue b \<and> b_worker b' = b_worker b
       | (Inl _, b') \<Rightarrow> worker_gone (b_worker b) \<and> b' = b
       | (Inr i, b') \<Rightarrow> length (b_queue b) < bc_queue_depth cfg \<and> i = length jobs)"
proof -
  have inv: "order_inv jobs b" "size_inv cfg b" using batcher_run_inv [OF assms] by auto
  have "length jobs = b_next b" using order_inv_length [OF inv(1)] by simp
  then show ?thesis using inv(2) by (auto simp: size_inv_def submit_job_def)
qed

text \<open>The counters agree with what happened, modulo 2^64: accepted counts the accepted requests,
  and completed and failed together count the replies.\<close>

theorem metrics_count:
  assumes "batcher_run cfg process p jobs b"
  shows "accepted_requests (b_metrics b) = of_nat (length jobs)
    \<and> completed_requests (b_metrics b) + failed_requests (b_metrics b) = of_nat (length (b_replies b))"
  using batcher_run_inv [OF assms] by (simp add: metrics_inv_def)

section \<open>No job is left behind\<close>

definition worker_weight :: "worker \<Rightarrow> nat" where
  "worker_weight w = (case w of Receiving \<Rightarrow> 1 | Ready _ \<Rightarrow> 2 | Waiting _ \<Rightarrow> 3 | Collecting _ \<Rightarrow> 4 | _ \<Rightarrow> 0)"

definition work :: "'p batcher \<Rightarrow> nat" where
  "work b = worker_weight (b_worker b) + 5 * length (b_queue b)"

lemma worker_step_work: "worker_step cfg process waited nanos b = Some b' \<Longrightarrow> work b' < work b"
proof (cases "b_worker b")
  case (Ready js)
  assume "worker_step cfg process waited nanos b = Some b'"
  with Ready have b': "b' = process_jobs process nanos js b" by (simp add: worker_step_def)
  show ?thesis
  proof (cases "process (b_processor b) (map j_request js)")
    case None
    then show ?thesis using Ready by (simp add: b' process_jobs_panic work_def worker_weight_def)
  next
    case (Some rp)
    then obtain result p where "process (b_processor b) (map j_request js) = Some (result, p)" by (metis prod.exhaust)
    from process_jobs_returns [OF this b'] Ready show ?thesis by (simp add: work_def worker_weight_def)
  qed
qed (auto simp: worker_steps work_def worker_weight_def split: if_splits list.splits)

text \<open>The worker running alone, with every wait over, for at most \<open>n\<close> steps.\<close>

fun drain :: "batcher_config \<Rightarrow> 'p process \<Rightarrow> nat \<Rightarrow> 'p batcher \<Rightarrow> 'p batcher" where
  "drain cfg process 0 b = b"
| "drain cfg process (Suc n) b =
     (case worker_step cfg process True 0 b of None \<Rightarrow> b | Some b' \<Rightarrow> drain cfg process n b')"

definition never_panics :: "'p process \<Rightarrow> bool" where
  "never_panics process \<longleftrightarrow> (\<forall>p reqs. process p reqs \<noteq> None)"

lemma not_panicked:
  assumes "batcher_run cfg process p jobs b" "never_panics process"
  shows "b_worker b \<noteq> Panicked"
  using assms
proof (induction rule: batcher_run.induct)
  case (worked jobs b waited nanos b')
  show ?case
  proof (cases "b_worker b")
    case (Ready js)
    obtain result p where r: "process (b_processor b) (map j_request js) = Some (result, p)"
      using assms(2) by (metis never_panics_def not_None_eq prod.exhaust)
    have "b' = process_jobs process nanos js b" using worked.hyps Ready by (simp add: worker_step_def)
    from process_jobs_returns [OF r this] show ?thesis by simp
  qed (use worked in \<open>auto simp: worker_steps split: if_splits list.splits\<close>)
qed (auto simp: spawn_batcher_ok batcher_start_def submit_job_def split: if_splits)

lemma drain_runs:
  assumes "batcher_run cfg process p jobs b"
  shows "batcher_run cfg process p jobs (drain cfg process n b)"
  using assms by (induction n arbitrary: b) (auto split: option.splits intro: batcher_run.worked)

lemma drain_stops:
  "work b \<le> n \<Longrightarrow> worker_step cfg process True 0 (drain cfg process n b) = None"
proof (induction n arbitrary: b)
  case 0
  then show ?case using worker_step_work [of cfg process True 0 b] by (cases "worker_step cfg process True 0 b") auto
next
  case (Suc n)
  show ?case
  proof (cases "worker_step cfg process True 0 b")
    case (Some b')
    then show ?thesis using Suc worker_step_work [OF Some] by simp
  qed simp
qed

lemma stopped_worker:
  "worker_step cfg process True 0 b = None \<Longrightarrow> b_worker b = Panicked \<or> b_worker b = Exited \<or> b_worker b = Receiving \<and> b_queue b = []"
  by (auto simp: worker_step_def receive_step_def wait_step_def split: worker.splits list.splits if_splits)

lemma drained_state:
  assumes "batcher_run cfg process p jobs b" "work b \<le> n" "b_worker (drain cfg process n b) \<noteq> Panicked"
  shows "map fst (b_replies (drain cfg process n b)) = map j_reply jobs
    \<and> b_queue (drain cfg process n b) = [] \<and> in_hand (b_worker (drain cfg process n b)) = []"
proof -
  let ?b = "drain cfg process n b"
  have r: "batcher_run cfg process p jobs ?b" by (rule drain_runs [OF assms(1)])
  from assms(3) stopped_worker [OF drain_stops [OF assms(2), of cfg process]]
  have w: "b_worker ?b = Exited \<or> b_worker ?b = Receiving \<and> b_queue ?b = []" by blast
  have o: "order_inv jobs ?b" using batcher_run_inv [OF r] by simp
  have "b_queue ?b = []" using w batcher_run_inv [OF r] by (auto simp: size_inv_def)
  then show ?thesis using o w by (auto simp: order_inv_def)
qed

lemmas drained = drained_state [THEN conjunct1]

text \<open>C25: whatever the clients did so far, the worker alone answers every accepted request within a
  number of steps given by its state: nothing accepted is left in the queue or in hand, as long as
  the processor does not panic.\<close>

theorem every_job_answered:
  assumes "batcher_run cfg process p jobs b" "never_panics process" "work b \<le> n"
  shows "map fst (b_replies (drain cfg process n b)) = map j_reply jobs
    \<and> b_queue (drain cfg process n b) = [] \<and> in_hand (b_worker (drain cfg process n b)) = []"
  by (rule drained_state [OF assms(1,3) not_panicked [OF drain_runs [OF assms(1)] assms(2)]])

section \<open>The answers\<close>

text \<open>A processor that answers each request by itself: \<open>good\<close> is its invariant, \<open>accepts\<close> the requests
  and \<open>capacity\<close> the batch size it takes.\<close>

locale answering_processor =
  fixes process :: "'p process"
    and good :: "'p \<Rightarrow> bool"
    and accepts :: "bytes \<Rightarrow> bool"
    and capacity :: nat
    and answer :: "bytes \<Rightarrow> bytes"
  assumes process_answers: "good p \<Longrightarrow> length requests \<le> capacity \<Longrightarrow> \<forall>r\<in>set requests. accepts r
    \<Longrightarrow> \<exists>p'. process p requests = Some (Inr (map answer requests), p') \<and> good p'"
begin

definition answered_by :: "job list \<Rightarrow> 'p batcher \<Rightarrow> bool" where
  "answered_by jobs b \<longleftrightarrow> good (b_processor b) \<and> b_worker b \<noteq> Panicked
     \<and> b_replies b = map (\<lambda>job. (j_reply job, Inr (answer (j_request job)))) (take (length (b_replies b)) jobs)"

lemma process_jobs_answers:
  assumes "good (b_processor b)" "length js \<le> capacity" "\<forall>job\<in>set js. accepts (j_request job)"
  shows "b_replies (process_jobs process nanos js b) = b_replies b @ map (\<lambda>job. (j_reply job, Inr (answer (j_request job)))) js"
    and "good (b_processor (process_jobs process nanos js b))" "b_worker (process_jobs process nanos js b) = Receiving"
proof -
  obtain p' where p': "process (b_processor b) (map j_request js) = Some (Inr (map answer (map j_request js)), p')" "good p'"
    using process_answers [OF assms(1), of "map j_request js"] assms(2,3) by auto
  then show "b_replies (process_jobs process nanos js b) = b_replies b @ map (\<lambda>job. (j_reply job, Inr (answer (j_request job)))) js"
    by (auto simp: process_jobs_def Let_def zip_map2 intro: nth_equalityI)
  show "good (b_processor (process_jobs process nanos js b))" "b_worker (process_jobs process nanos js b) = Receiving"
    using p' by (simp_all add: process_jobs_def Let_def)
qed

lemma run_answered:
  assumes "batcher_run cfg process p jobs b" "good p" "bc_max_batch_size cfg \<le> capacity" "\<forall>job\<in>set jobs. accepts (j_request job)"
  shows "answered_by jobs b"
  using assms(1,4)
proof (induction rule: batcher_run.induct)
  case (accepted jobs b request i b')
  have "length (b_replies b) \<le> length jobs"
    using batcher_run_inv [OF accepted.hyps(1)] by (auto simp: order_inv_def split: if_splits dest: map_eq_imp_length_eq)
  then show ?case using accepted by (auto simp: answered_by_def submit_job_def split: if_splits)
next
  case (worked jobs b waited nanos b')
  show ?case
  proof (cases "b_worker b")
    case (Ready js)
    have b': "b' = process_jobs process nanos js b" using worked.hyps Ready by (simp add: worker_step_def)
    obtain ans where jobs: "jobs = ans @ js @ b_queue b" and "map fst (b_replies b) = map j_reply ans"
      using batcher_run_inv [OF worked.hyps(1)] Ready by (auto simp: order_inv_def)
    then have len: "length (b_replies b) = length ans" by (metis length_map)
    have ih: "answered_by jobs b" using worked.IH worked.prems by blast
    then have "good (b_processor b)" by (simp add: answered_by_def)
    moreover have "length js \<le> capacity" using batcher_run_inv [OF worked.hyps(1)] Ready assms(3) by (simp add: size_inv_def)
    ultimately show ?thesis using process_jobs_answers [of b js] ih worked.prems
      by (simp add: answered_by_def b' jobs len)
  qed (use worked in \<open>auto simp: answered_by_def worker_steps split: if_splits list.splits\<close>)
qed (use assms(2) in \<open>auto simp: answered_by_def spawn_batcher_ok batcher_start_def submit_job_def split: if_splits\<close>)

end

section \<open>The CPU processor\<close>

text \<open>\<open>CpuProcessor\<close>: \<open>process_batch\<close> never fails and does not change the router.\<close>

definition cpu_process :: "compiled_router process" where
  "cpu_process c requests = map_option (\<lambda>rs. (Inr rs, c)) (cpu_process_batch c requests)"

lemma cpu_process_batch_answers:
  "compile rt = ok c \<Longrightarrow> cpu_process_batch c requests = Some (map (\<lambda>req. spec_route rt req (ascii ''cpu'')) requests)"
  by (induction requests) (auto simp: route_request_closed)

interpretation cpu: answering_processor cpu_process "\<lambda>c. compile rt = ok c" "\<lambda>req. True" n "\<lambda>req. spec_route rt req (ascii ''cpu'')" for rt n
  by unfold_locales (simp add: cpu_process_def cpu_process_batch_answers)

text \<open>On the CPU processor, under every interleaving of clients and worker, the replies sent are the
  responses the declared router specifies, each to the request that was submitted with that reply
  channel, in the order of submission; the worker never panics and no batch fails.\<close>

theorem cpu_replies_correct:
  assumes "compile rt = ok c" "batcher_run cfg cpu_process c jobs b"
  shows "b_replies b = map (\<lambda>job. (j_reply job, Inr (spec_route rt (j_request job) (ascii ''cpu''))))
      (take (length (b_replies b)) jobs) \<and> b_worker b \<noteq> Panicked"
  using cpu.run_answered [OF assms(2,1) order_refl] by (simp add: cpu.answered_by_def)

section \<open>A run\<close>

text \<open>One client submits two requests to a batcher of batch size 8, the worker collects both and answers
  them: the run on which the properties above are checked.\<close>

definition small_batches :: batcher_config where
  "small_batches = \<lparr>bc_max_batch_size = 8, bc_max_batch_wait = 0, bc_queue_depth = 8\<rparr>"

definition two_jobs :: "job list" where
  "two_jobs = [\<lparr>j_request = inspect_request, j_reply = 0\<rparr>, \<lparr>j_request = [], j_reply = 1\<rparr>]"

definition two_queued :: "'p \<Rightarrow> 'p batcher" where
  "two_queued c = (batcher_start c)\<lparr>b_queue := two_jobs, b_next := Suc 1,
     b_metrics := default_batcher_metrics\<lparr>accepted_requests := 2\<rparr>\<rparr>"

lemma two_queued_run: "batcher_run small_batches process c two_jobs (two_queued c)"
proof -
  have "batcher_run small_batches process c [] (batcher_start c)"
    by (rule batcher_run.spawned [of "\<lambda>_. True" True]) (simp add: spawn_batcher_ok small_batches_def)
  from batcher_run.accepted [OF this, of inspect_request 0]
  have "batcher_run small_batches process c [\<lparr>j_request = inspect_request, j_reply = 0\<rparr>]
      (snd (submit_job small_batches inspect_request (batcher_start c)))"
    by (simp add: submit_job_def batcher_start_def small_batches_def)
  from batcher_run.accepted [OF this, of "[]" 1] show ?thesis
    by (simp add: submit_job_def batcher_start_def small_batches_def two_queued_def two_jobs_def default_batcher_metrics_def)
qed

theorem batcher_fifo_witness: "drop (length (b_replies (two_queued ()))) two_jobs = b_queue (two_queued ())"
  using batcher_fifo [OF two_queued_run, of "()"] by (simp add: two_queued_def batcher_start_def)

theorem batcher_bounded_witness: "length (b_queue (two_queued ())) \<le> bc_queue_depth small_batches"
  by (rule batcher_bounded [OF two_queued_run, THEN conjunct1])

theorem metrics_count_witness: "accepted_requests (b_metrics (two_queued ())) = of_nat (length two_jobs)"
  by (rule metrics_count [OF two_queued_run, THEN conjunct1])

theorem every_job_answered_witness:
  "map fst (b_replies (drain small_batches (\<lambda>p reqs. Some (Inr reqs, p)) 11 (two_queued ()))) = [0, 1]"
proof -
  have "never_panics (\<lambda>p reqs. Some (Inr reqs, p))" by (simp add: never_panics_def)
  moreover have "work (two_queued ()) \<le> 11" by (simp add: work_def worker_weight_def two_queued_def batcher_start_def two_jobs_def)
  ultimately show ?thesis using every_job_answered [OF two_queued_run] by (fastforce simp: two_jobs_def)
qed

theorem cpu_replies_correct_witness:
  "\<exists>c. compile builtin_router = ok c \<and> b_replies (drain small_batches cpu_process 11 (two_queued c))
     = [(0, Inr (spec_route builtin_router inspect_request (ascii ''cpu''))), (1, Inr (spec_route builtin_router [] (ascii ''cpu'')))]"
proof -
  obtain c where c: "compile builtin_router = ok c" using compile_succeeds [OF builtin_small] by blast
  note run = two_queued_run [of cpu_process c, THEN drain_runs, of 11]
  let ?b = "drain small_batches cpu_process 11 (two_queued c)"
  have w: "work (two_queued c) \<le> 11" by (simp add: work_def worker_weight_def two_queued_def batcher_start_def two_jobs_def)
  from cpu_replies_correct [OF c run] have np: "b_worker ?b \<noteq> Panicked"
    and rs: "b_replies ?b = map (\<lambda>job. (j_reply job, Inr (spec_route builtin_router (j_request job) (ascii ''cpu''))))
      (take (length (b_replies ?b)) two_jobs)" by auto
  have "map fst (b_replies ?b) = map j_reply two_jobs" by (rule drained [OF two_queued_run w np])
  then have "length (b_replies ?b) = 2" by (metis length_map two_jobs_def length_Cons list.size(3) numeral_2_eq_2)
  then show ?thesis using rs c by (auto simp: two_jobs_def)
qed

end
