(* ===== verification/Framing.thy ===== *)
theory Framing
  imports Batcher
begin

text \<open>
  \<open>src/network.rs\<close>: framing requests out of a byte stream, the keep-alive decision and the
  connection loop. A stream is the list of results its reads will give; when it is used up, the
  peer has closed. \<open>Stall\<close> is a read that gives nothing before the read timeout. The batcher is a
  state-passing function \<open>submit\<close>, and \<open>writable k\<close> says whether the write number \<open>k\<close> succeeds.
\<close>

section \<open>Headers\<close>

definition HEADER_TERMINATOR :: bytes where
  "HEADER_TERMINATOR = [13, 10, 13, 10]"

definition complete_header_len :: "bytes \<Rightarrow> nat option" where
  "complete_header_len request =
     map_option (\<lambda>position. position + length HEADER_TERMINATOR) (find_window HEADER_TERMINATOR request)"

definition is_ascii_whitespace :: "u8 \<Rightarrow> bool" where
  "is_ascii_whitespace b \<longleftrightarrow> b = 32 \<or> b = 9 \<or> b = 10 \<or> b = 12 \<or> b = 13"

definition to_ascii_lowercase :: "u8 \<Rightarrow> u8" where
  "to_ascii_lowercase b = (if 65 \<le> b \<and> b \<le> 90 then b + 32 else b)"

definition eq_ignore_ascii_case :: "bytes \<Rightarrow> bytes \<Rightarrow> bool" where
  "eq_ignore_ascii_case a b \<longleftrightarrow> map to_ascii_lowercase a = map to_ascii_lowercase b"

fun trim_front :: "bytes \<Rightarrow> bytes" where
  "trim_front [] = []"
| "trim_front (b # bs) = (if is_ascii_whitespace b then trim_front bs else b # bs)"

function trim_back :: "bytes \<Rightarrow> bytes" where
  "trim_back bs = (if bs \<noteq> [] \<and> is_ascii_whitespace (last bs) then trim_back (butlast bs) else bs)"
  by pat_completeness auto
termination by (relation "measure length") auto

declare trim_back.simps [simp del]

definition trim_ascii :: "bytes \<Rightarrow> bytes" where
  "trim_ascii bs = trim_back (trim_front bs)"

definition has_token :: "bytes \<Rightarrow> bytes \<Rightarrow> bool" where
  "has_token value token =
     list_ex (\<lambda>v. eq_ignore_ascii_case v token) (map trim_ascii (split_on 44 value))"

fun header_lines_have_token :: "bytes list \<Rightarrow> bytes \<Rightarrow> bool" where
  "header_lines_have_token [] token = False"
| "header_lines_have_token (raw_line # rest) token =
     (let line = strip_suffix 13 raw_line in
      if line = [] then False
      else (case position (\<lambda>b. b = 58) line of
              None \<Rightarrow> header_lines_have_token rest token
            | Some colon \<Rightarrow>
                if \<not> eq_ignore_ascii_case (trim_ascii (take colon line)) (ascii ''connection'')
                then header_lines_have_token rest token
                else has_token (drop (colon + 1) line) token))"

definition connection_header_has_token :: "bytes \<Rightarrow> bytes \<Rightarrow> bool" where
  "connection_header_has_token request token = header_lines_have_token (drop 1 (split_on 10 request)) token"

definition ends_with :: "'a list \<Rightarrow> 'a list \<Rightarrow> bool" where
  "ends_with xs ys \<longleftrightarrow> length ys \<le> length xs \<and> drop (length xs - length ys) xs = ys"

definition connection_should_close :: "bytes \<Rightarrow> bool" where
  "connection_should_close request =
     (case find_window CRLF request of
        None \<Rightarrow> True
      | Some request_line_end \<Rightarrow>
          if \<not> ends_with (take request_line_end request) (ascii '' HTTP/1.1'') then True
          else connection_header_has_token request (ascii ''close''))"

section \<open>Reading one request\<close>

datatype read_event = Data bytes | Stall | ReadError

datatype read_request_error = Io | TooLarge | Incomplete

datatype read_outcome = Request bytes | EndOfStream | ReadFailed read_request_error | TimedOut

fun read_raw_request :: "read_event list \<Rightarrow> bytes \<Rightarrow> nat \<Rightarrow> read_outcome \<times> bytes \<times> read_event list" where
  "read_raw_request stream pending max_request_bytes =
     (case complete_header_len pending of
        Some header_len \<Rightarrow>
          if header_len > max_request_bytes then (ReadFailed TooLarge, pending, stream)
          else (Request (take header_len pending), drop header_len pending, stream)
      | None \<Rightarrow>
          if length pending \<ge> max_request_bytes then (ReadFailed TooLarge, pending, stream)
          else (case stream of
              [] \<Rightarrow> (if pending = [] then EndOfStream else ReadFailed Incomplete, pending, [])
            | Stall # stream \<Rightarrow> (TimedOut, pending, stream)
            | ReadError # stream \<Rightarrow> (ReadFailed Io, pending, stream)
            | Data chunk # stream \<Rightarrow>
                if chunk = [] then (if pending = [] then EndOfStream else ReadFailed Incomplete, pending, stream)
                else read_raw_request stream (pending @ chunk) max_request_bytes))"

declare read_raw_request.simps [simp del]

section \<open>The connection\<close>

datatype connection_end = ShutDown | Broken

type_synonym 'b submit = "bytes \<Rightarrow> 'b \<Rightarrow> (submit_error + bytes) \<times> 'b"

definition write_and_close :: "(nat \<Rightarrow> bool) \<Rightarrow> bytes list \<Rightarrow> bytes \<Rightarrow> connection_end \<times> bytes list" where
  "write_and_close writable sent response =
     (if writable (length sent) then (ShutDown, sent @ [response]) else (Broken, sent))"

definition response_of :: "submit_error + bytes \<Rightarrow> bytes" where
  "response_of result = (case result of
       Inr response \<Rightarrow> response
     | Inl Overloaded \<Rightarrow> service_unavailable_response
     | Inl _ \<Rightarrow> internal_server_error_response)"

definition stream_bytes :: "read_event list \<Rightarrow> nat" where
  "stream_bytes stream = sum_list (map (\<lambda>e. case e of Data chunk \<Rightarrow> length chunk | _ \<Rightarrow> 0) stream)"

lemma stream_bytes_simps [simp]:
  "stream_bytes [] = 0" "stream_bytes (Data c # s) = length c + stream_bytes s"
  "stream_bytes (Stall # s) = stream_bytes s" "stream_bytes (ReadError # s) = stream_bytes s"
  by (simp_all add: stream_bytes_def)

lemma complete_header_len_bounds:
  "complete_header_len bs = Some h \<Longrightarrow> 4 \<le> h \<and> h \<le> length bs"
  using find_window_less by (fastforce simp: complete_header_len_def HEADER_TERMINATOR_def)

text \<open>A framed request takes at least four bytes out of what the connection has and will get.\<close>

lemma read_raw_request_consumes:
  "read_raw_request stream pending m = (Request r, pending', stream') \<Longrightarrow>
     length pending' + stream_bytes stream' + 4 \<le> length pending + stream_bytes stream"
proof (induction stream arbitrary: pending)
  case Nil
  then show ?case using complete_header_len_bounds [of pending]
    by (subst (asm) read_raw_request.simps) (auto split: option.splits if_splits)
next
  case (Cons e stream)
  show ?case
  proof (cases "complete_header_len pending")
    case (Some h)
    then show ?thesis using Cons.prems complete_header_len_bounds [of pending h]
      by (subst (asm) read_raw_request.simps) (auto split: if_splits)
  next
    case None
    then obtain chunk where "e = Data chunk" and rest: "read_raw_request stream (pending @ chunk) m = (Request r, pending', stream')"
      using Cons.prems by (subst (asm) read_raw_request.simps) (auto split: if_splits read_event.splits)
    then show ?thesis using Cons.IH [OF rest] by simp
  qed
qed

function connection_loop :: "'b submit \<Rightarrow> (nat \<Rightarrow> bool) \<Rightarrow> nat \<Rightarrow> read_event list \<Rightarrow> bytes \<Rightarrow> 'b \<Rightarrow> bytes list
    \<Rightarrow> (connection_end \<times> bytes list) \<times> 'b" where
  "connection_loop submit writable max_request_bytes stream pending b sent =
     (case read_raw_request stream pending max_request_bytes of
        (TimedOut, pending, _) \<Rightarrow>
          (if pending = [] then (ShutDown, sent) else write_and_close writable sent request_timeout_response, b)
      | (ReadFailed TooLarge, _, _) \<Rightarrow> (write_and_close writable sent payload_too_large_response, b)
      | (ReadFailed Incomplete, _, _) \<Rightarrow> (write_and_close writable sent incomplete_request_response, b)
      | (ReadFailed Io, _, _) \<Rightarrow> ((Broken, sent), b)
      | (EndOfStream, _, _) \<Rightarrow> ((ShutDown, sent), b)
      | (Request request, pending, stream) \<Rightarrow>
          let close_after_response = connection_should_close request;
              (result, b) = submit request b;
              response = response_of result
          in if \<not> writable (length sent) then ((Broken, sent), b)
             else if close_after_response then ((ShutDown, sent @ [response]), b)
             else connection_loop submit writable max_request_bytes stream pending b (sent @ [response]))"
  by pat_completeness auto
termination
proof (relation "measure (\<lambda>(submit, writable, m, stream, pending, b, sent). length pending + stream_bytes stream)", goal_cases)
  case (2 submit writable m stream pending b sent x pending_stream r pending' stream' close result_b result b' response)
  then have "read_raw_request stream pending m = (Request r, pending', stream')" by simp
  from read_raw_request_consumes [OF this] show ?case by simp
qed simp

declare connection_loop.simps [simp del]

definition handle_connection :: "'b submit \<Rightarrow> (nat \<Rightarrow> bool) \<Rightarrow> nat \<Rightarrow> read_event list \<Rightarrow> 'b \<Rightarrow> (connection_end \<times> bytes list) \<times> 'b" where
  "handle_connection submit writable max_request_bytes stream b =
     connection_loop submit writable max_request_bytes stream [] b []"

section \<open>The accept loop\<close>

text \<open>
  \<open>serve\<close>: a connection takes a permit of the semaphore when one is free and gives it back when
  it ends; without a permit it is answered with the 503 response and closed. The events are the
  order in which the runtime wakes the loop and the connections.
\<close>

datatype serve_event = Accepted | AcceptFailed | ConnectionEnded | ShutdownSignal

datatype serve_action = Serve | Reject bytes

record listener =
  permits :: nat
  serving :: nat

datatype serve_state = Listening listener | ServeOk | ServeFailed

text \<open>\<open>Semaphore::MAX_PERMITS\<close> of \<open>tokio\<close>, \<open>usize::MAX >> 3\<close>; \<open>Semaphore::new\<close> panics above it.\<close>

definition MAX_PERMITS :: nat where "MAX_PERMITS = USIZE_MAX div 8"

definition serve_start :: "nat \<Rightarrow> serve_state option" where
  "serve_start max_connections =
     (if max_connections \<le> MAX_PERMITS then Some (Listening \<lparr>permits = max_connections, serving = 0\<rparr>) else None)"

text \<open>What comes before the loop: \<open>listens\<close> tells which addresses can be bound and read back.\<close>

datatype network_error = ListenFailed

definition network_start :: "('addr \<Rightarrow> bool) \<Rightarrow> 'addr \<Rightarrow> nat \<Rightarrow> (network_error, serve_state) outcome" where
  "network_start listens addr max_connections =
     (if listens addr then or_panic (serve_start max_connections) else fail ListenFailed)"

fun serve_step :: "listener \<Rightarrow> serve_event \<Rightarrow> serve_state \<times> serve_action list" where
  "serve_step l Accepted =
     (if permits l > 0 then (Listening (l\<lparr>permits := permits l - 1, serving := serving l + 1\<rparr>), [Serve])
      else (Listening l, [Reject service_unavailable_response]))"
| "serve_step l AcceptFailed = (ServeFailed, [])"
| "serve_step l ConnectionEnded =
     (if serving l > 0 then (Listening (l\<lparr>permits := permits l + 1, serving := serving l - 1\<rparr>), []) else (Listening l, []))"
| "serve_step l ShutdownSignal = (ServeOk, [])"

fun serve_run :: "serve_state \<Rightarrow> serve_event list \<Rightarrow> serve_state \<times> serve_action list" where
  "serve_run (Listening l) (e # es) =
     (let (s, acts) = serve_step l e; (s', acts') = serve_run s es in (s', acts @ acts'))"
| "serve_run s es = (s, [])"

end
