(* ===== verification/FramingProofs.thy ===== *)
theory FramingProofs
  imports Framing
begin

text \<open>
  The framing does not depend on how the bytes arrive: a connection is a function of its byte
  string (\<open>connection_chunking\<close>), pipelined requests are answered in order
  (\<open>pipelined_requests_served\<close>), and the keep-alive decision reads the first
  \<open>Connection\<close> header (\<open>keep_alive_decision\<close>).
\<close>

section \<open>The header terminator in a growing buffer\<close>

lemma find_window_append:
  assumes "find_window pat xs = Some i" "pat \<noteq> []"
  shows "find_window pat (xs @ ys) = Some i"
proof (rule find_window_first_occurrence)
  from find_window_less [OF assms(1)] have i: "i + length pat \<le> length xs" "take (length pat) (drop i xs) = pat" by auto
  then show "take (length pat) (drop i (xs @ ys)) = pat" "i \<le> length (xs @ ys)" by auto
  fix j
  assume "j < i"
  moreover have "drop j (xs @ ys) = drop j xs @ ys" "length pat \<le> length (drop j xs)" using i(1) \<open>j < i\<close> by auto
  ultimately show "take (length pat) (drop j (xs @ ys)) \<noteq> pat" using find_window_first [OF assms(1)] by simp
qed

lemma complete_header_append:
  "complete_header_len xs = Some h \<Longrightarrow> complete_header_len (xs @ ys) = Some h"
  using find_window_append [of HEADER_TERMINATOR xs] by (auto simp: complete_header_len_def HEADER_TERMINATOR_def)

lemma complete_header_beyond:
  assumes "complete_header_len xs = None" "complete_header_len (xs @ ys) = Some h"
  shows "length xs < h"
proof (rule ccontr)
  assume "\<not> length xs < h"
  moreover obtain i where i: "find_window HEADER_TERMINATOR (xs @ ys) = Some i" "h = i + 4"
    using assms(2) by (auto simp: complete_header_len_def HEADER_TERMINATOR_def)
  moreover have l: "length HEADER_TERMINATOR = 4" by (simp add: HEADER_TERMINATOR_def)
  ultimately have "drop i (xs @ ys) = drop i xs @ ys" "length HEADER_TERMINATOR \<le> length (drop i xs)" by auto
  then have "take (length HEADER_TERMINATOR) (drop i xs) = HEADER_TERMINATOR"
    using find_window_less [OF i(1)] by simp
  moreover have "find_window HEADER_TERMINATOR xs = None" using assms(1) by (simp add: complete_header_len_def)
  ultimately show False using find_window_None by blast
qed

lemma header_len_take:
  assumes "complete_header_len bs = Some h"
  shows "complete_header_len (take h bs) = Some h"
proof (cases "complete_header_len (take h bs)")
  case None
  then show ?thesis using complete_header_beyond [of "take h bs" "drop h bs" h] assms complete_header_len_bounds [OF assms] by simp
next
  case (Some k)
  then show ?thesis using complete_header_append [OF Some, of "drop h bs"] assms by simp
qed

section \<open>One request\<close>

definition frame :: "bytes \<Rightarrow> nat \<Rightarrow> read_outcome" where
  "frame bs m =
     (case complete_header_len bs of
        Some h \<Rightarrow> if h > m then ReadFailed TooLarge else Request (take h bs)
      | None \<Rightarrow> if length bs \<ge> m then ReadFailed TooLarge
                else if bs = [] then EndOfStream else ReadFailed Incomplete)"

lemma frame_prefix:
  assumes "complete_header_len pending = None" "length pending \<ge> m"
  shows "frame (pending @ bs) m = ReadFailed TooLarge"
  using assms complete_header_beyond [OF assms(1), of bs] by (fastforce simp: frame_def split: option.splits)

lemma read_raw_request_frame:
  assumes "read_raw_request (map Data chunks) pending m = (out, pending', stream')" "[] \<notin> set chunks"
  shows "out = frame (pending @ concat chunks) m
    \<and> (\<forall>r. out = Request r \<longrightarrow> (\<exists>chunks'. stream' = map Data chunks' \<and> [] \<notin> set chunks'
        \<and> pending @ concat chunks = r @ pending' @ concat chunks'))"
  using assms
proof (induction chunks arbitrary: pending)
  case Nil
  then show ?case
    by (subst (asm) read_raw_request.simps)
      (auto simp: frame_def split: option.splits if_splits intro!: exI [of _ "[]"])
next
  case (Cons c chunks)
  show ?case
  proof (cases "complete_header_len pending")
    case (Some h)
    note full = complete_header_append [OF Some, of "c @ concat chunks"] complete_header_len_bounds [OF Some]
    show ?thesis
    proof (cases "h > m")
      case True
      then show ?thesis using Cons.prems(1) Some full
        by (subst (asm) read_raw_request.simps) (auto simp: frame_def)
    next
      case False
      then have "out = Request (take h pending)" "pending' = drop h pending" "stream' = map Data (c # chunks)"
        using Cons.prems(1) Some by (subst (asm) read_raw_request.simps; simp)+
      then show ?thesis using False full Cons.prems(2)
        by (auto simp: frame_def intro!: exI [of _ "c # chunks"])
    qed
  next
    case None
    show ?thesis
    proof (cases "length pending \<ge> m")
      case True
      then have "out = ReadFailed TooLarge" using Cons.prems(1) None by (subst (asm) read_raw_request.simps) simp
      then show ?thesis using frame_prefix [OF None True] by simp
    next
      case False
      then have "read_raw_request (map Data chunks) (pending @ c) m = (out, pending', stream')"
        using Cons.prems None by (subst (asm) read_raw_request.simps) auto
      from Cons.IH [OF this] Cons.prems(2) show ?thesis by simp
    qed
  qed
qed

lemma frame_Request: "frame bs m = Request r \<Longrightarrow> \<exists>h. complete_header_len bs = Some h \<and> h \<le> m \<and> r = take h bs"
  by (auto simp: frame_def split: option.splits if_splits)

section \<open>A connection as a function of its bytes\<close>

function serve_bytes :: "'b submit \<Rightarrow> (nat \<Rightarrow> bool) \<Rightarrow> nat \<Rightarrow> bytes \<Rightarrow> 'b \<Rightarrow> bytes list \<Rightarrow> (connection_end \<times> bytes list) \<times> 'b" where
  "serve_bytes submit writable m bs b sent =
     (case frame bs m of
        Request r \<Rightarrow>
          let (result, b) = submit r b in
          if \<not> writable (length sent) then ((Broken, sent), b)
          else if connection_should_close r then ((ShutDown, sent @ [response_of result]), b)
          else serve_bytes submit writable m (drop (length r) bs) b (sent @ [response_of result])
      | ReadFailed TooLarge \<Rightarrow> (write_and_close writable sent payload_too_large_response, b)
      | ReadFailed Incomplete \<Rightarrow> (write_and_close writable sent incomplete_request_response, b)
      | _ \<Rightarrow> ((ShutDown, sent), b))"
  by pat_completeness auto
termination
proof (relation "measure (\<lambda>(submit, writable, m, bs, b, sent). length bs)", goal_cases)
  case (2 submit writable m bs b sent r)
  then obtain h where "complete_header_len bs = Some h" "r = take h bs"
    by (auto simp: frame_def split: option.splits if_splits)
  then show ?case using complete_header_len_bounds [of bs h] by auto
qed simp

declare serve_bytes.simps [simp del]

lemma frame_not_io: "frame bs m \<noteq> ReadFailed Io" "frame bs m \<noteq> TimedOut"
  by (auto simp: frame_def split: option.splits)

lemma connection_loop_request:
  assumes "read_raw_request stream pending m = (Request r, pending', stream')"
  shows "connection_loop submit writable m stream pending b sent =
    (let (result, b) = submit r b in
     if \<not> writable (length sent) then ((Broken, sent), b)
     else if connection_should_close r then ((ShutDown, sent @ [response_of result]), b)
     else connection_loop submit writable m stream' pending' b (sent @ [response_of result]))"
  by (subst connection_loop.simps) (simp add: assms Let_def)

lemma connection_loop_end:
  assumes "read_raw_request stream pending m = (out, pending', stream')" "frame bs m = out" "\<And>r. out \<noteq> Request r"
  shows "connection_loop submit writable m stream pending b sent = serve_bytes submit writable m bs b sent"
proof (cases out)
  case (ReadFailed e)
  then show ?thesis using assms frame_not_io [of bs m]
    by (cases e) (simp_all add: connection_loop.simps [of submit writable m stream] serve_bytes.simps [of submit writable m bs])
qed (use assms frame_not_io [of bs m] in
    \<open>simp_all add: connection_loop.simps [of submit writable m stream] serve_bytes.simps [of submit writable m bs]\<close>)

lemma connection_loop_bytes:
  assumes "[] \<notin> set chunks"
  shows "connection_loop submit writable m (map Data chunks) pending b sent
    = serve_bytes submit writable m (pending @ concat chunks) b sent"
  using assms
proof (induction "length (pending @ concat chunks)" arbitrary: chunks pending b sent rule: less_induct)
  case less
  obtain out pending' stream' where rr: "read_raw_request (map Data chunks) pending m = (out, pending', stream')"
    by (metis prod.exhaust)
  from read_raw_request_frame [OF rr less.prems] have f: "frame (pending @ concat chunks) m = out"
    and next_chunks: "\<And>r. out = Request r \<Longrightarrow> \<exists>chunks'. stream' = map Data chunks' \<and> [] \<notin> set chunks'
        \<and> pending @ concat chunks = r @ pending' @ concat chunks'" by auto
  show ?case
  proof (cases "\<exists>r. out = Request r")
    case True
    then obtain r where r: "out = Request r" by blast
    from next_chunks [OF this] obtain chunks' where s: "stream' = map Data chunks'" and ne: "[] \<notin> set chunks'"
      and bs: "pending @ concat chunks = r @ pending' @ concat chunks'" by blast
    obtain h where "complete_header_len (pending @ concat chunks) = Some h" "r = take h (pending @ concat chunks)"
      using frame_Request f r by blast
    then have "r \<noteq> []" using complete_header_len_bounds [of "pending @ concat chunks" h] by (cases "pending @ concat chunks") auto
    then have short: "length (pending' @ concat chunks') < length (pending @ concat chunks)"
      using arg_cong [OF bs, of length] by simp
    have rest: "drop (length r) (pending @ concat chunks) = pending' @ concat chunks'" unfolding bs by simp
    note hyp = less.hyps [OF short ne]
    show ?thesis
      unfolding connection_loop_request [OF rr [unfolded r s]] serve_bytes.simps [of submit writable m "pending @ concat chunks"]
        f r read_outcome.case rest hyp by (rule refl)
  next
    case False
    then show ?thesis by (intro connection_loop_end [OF rr f]) simp
  qed
qed

text \<open>C14: what a connection is answered, and how it ends, depends only on the bytes the peer sends,
  not on how they are cut into nonempty reads, for every batcher, every write failure and every size limit.\<close>

theorem connection_chunking:
  assumes "[] \<notin> set chunks" "[] \<notin> set chunks'" "concat chunks = concat chunks'"
  shows "handle_connection submit writable m (map Data chunks) b = handle_connection submit writable m (map Data chunks') b"
  using assms by (simp add: handle_connection_def connection_loop_bytes)

definition echo :: "nat submit" where
  "echo request n = (Inr request, Suc n)"

theorem connection_chunking_witness:
  "handle_connection echo (\<lambda>_. True) 64 (map Data [[71], [13, 10, 13], [10, 72]]) 0
     = handle_connection echo (\<lambda>_. True) 64 (map Data [[71, 13, 10, 13, 10, 72]]) 0"
  by (rule connection_chunking) simp_all

section \<open>Pipelined requests\<close>

text \<open>The responses of the batcher to a list of requests, one after the other.\<close>

fun submit_all :: "'b submit \<Rightarrow> bytes list \<Rightarrow> 'b \<Rightarrow> bytes list \<times> 'b" where
  "submit_all submit [] b = ([], b)"
| "submit_all submit (r # rs) b =
     (let (result, b) = submit r b; (responses, b) = submit_all submit rs b in (response_of result # responses, b))"

definition complete_request :: "nat \<Rightarrow> bytes \<Rightarrow> bool" where
  "complete_request m r \<longleftrightarrow> complete_header_len r = Some (length r) \<and> length r \<le> m"

lemma frame_complete: "complete_request m r \<Longrightarrow> frame (r @ bs) m = Request r"
  using complete_header_append [of r "length r" bs] by (simp add: complete_request_def frame_def)

lemma serve_bytes_pipeline:
  assumes "list_all (\<lambda>r. complete_request m r \<and> \<not> connection_should_close r) rs" "0 < m"
  shows "serve_bytes submit (\<lambda>_. True) m (concat rs) b sent =
    ((ShutDown, sent @ fst (submit_all submit rs b)), snd (submit_all submit rs b))"
  using assms
proof (induction rs arbitrary: b sent)
  case Nil
  then show ?case
    by (simp add: serve_bytes.simps [of submit _ m "[]"] frame_def complete_header_len_def HEADER_TERMINATOR_def)
next
  case (Cons r rs)
  then have f: "frame (r @ concat rs) m = Request r" by (simp add: frame_complete)
  obtain result b' where s: "submit r b = (result, b')" by force
  show ?case using Cons
    by (simp add: serve_bytes.simps [of submit _ m "r @ concat rs"] f s split: prod.splits)
qed

text \<open>C23: complete keep-alive requests within the request limit, sent back to back on one connection, in
  any chunking, are submitted in order, each is answered with its own response, in order, and the
  connection then ends cleanly, if every write succeeds.\<close>

theorem pipelined_requests_served:
  assumes "list_all (\<lambda>r. complete_request m r \<and> \<not> connection_should_close r) rs" "0 < m"
    "[] \<notin> set chunks" "concat chunks = concat rs"
  shows "handle_connection submit (\<lambda>_. True) m (map Data chunks) b =
    ((ShutDown, fst (submit_all submit rs b)), snd (submit_all submit rs b))"
  using connection_loop_bytes [OF assms(3), of submit "\<lambda>_. True" m "[]" b "[]"]
    serve_bytes_pipeline [OF assms(1,2), where submit = submit and b = b and sent = "[]"]
  by (simp add: handle_connection_def assms(4))

definition keep_alive_request :: bytes where
  "keep_alive_request = ascii ''GET / HTTP/1.1'' @ CRLF @ CRLF"

lemma keep_alive_request_complete:
  "complete_request 64 keep_alive_request \<and> \<not> connection_should_close keep_alive_request"
proof -
  have bytes: "keep_alive_request = [71, 69, 84, 32, 47, 32, 72, 84, 84, 80, 47, 49, 46, 49, 13, 10, 13, 10]"
    by code_simp
  have "complete_header_len keep_alive_request = Some 18"
    by (simp add: complete_header_len_def HEADER_TERMINATOR_def bytes)
  moreover have "\<not> connection_should_close keep_alive_request" by code_simp
  ultimately show ?thesis by (simp add: complete_request_def) (simp add: bytes)
qed

lemma keep_alive_request_nonempty: "keep_alive_request \<noteq> []" "[] \<noteq> keep_alive_request"
  by (auto simp: keep_alive_request_def CRLF_def)

theorem pipelined_requests_served_witness:
  "handle_connection echo (\<lambda>_. True) 64 (map Data [keep_alive_request, keep_alive_request]) 0
     = ((ShutDown, [keep_alive_request, keep_alive_request]), 2)"
  using pipelined_requests_served [of 64 "[keep_alive_request, keep_alive_request]" "[keep_alive_request, keep_alive_request]" echo 0]
    keep_alive_request_complete
  by (simp add: echo_def response_of_def keep_alive_request_def [symmetric] keep_alive_request_nonempty)

section \<open>The size limit\<close>

text \<open>A request is never handed to the batcher beyond the size limit, and the reader never keeps
  more than one chunk beyond it: what is pending when more is read is below the limit.\<close>

theorem framed_within_limit:
  assumes "read_raw_request stream pending m = (out, pending', stream')"
    "list_all (\<lambda>e. case e of Data c \<Rightarrow> length c \<le> 1024 | _ \<Rightarrow> True) stream" "length pending \<le> m + 1024"
  shows "(case out of Request r \<Rightarrow> length r \<le> m \<and> complete_header_len r = Some (length r) | _ \<Rightarrow> True)
    \<and> length pending' \<le> m + 1024"
  using assms
proof (induction stream arbitrary: pending)
  case Nil
  show ?case
  proof (cases "complete_header_len pending")
    case (Some h)
    then show ?thesis using Nil header_len_take [OF Some] complete_header_len_bounds [OF Some]
      by (subst (asm) read_raw_request.simps) (auto split: if_splits)
  next
    case None
    then show ?thesis using Nil by (subst (asm) read_raw_request.simps) (auto split: if_splits)
  qed
next
  case (Cons e stream)
  show ?case
  proof (cases "complete_header_len pending")
    case (Some h)
    then show ?thesis using Cons.prems header_len_take [OF Some] complete_header_len_bounds [OF Some]
      by (subst (asm) read_raw_request.simps) (auto split: if_splits)
  next
    case None
    show ?thesis
    proof (cases "length pending < m \<and> (\<exists>c. e = Data c \<and> c \<noteq> [])")
      case True
      then obtain c where c: "e = Data c" "c \<noteq> []" by blast
      then have "read_raw_request stream (pending @ c) m = (out, pending', stream')"
        using Cons.prems(1) None True by (subst (asm) read_raw_request.simps) auto
      then show ?thesis using Cons.IH [of "pending @ c"] Cons.prems(2) True c by auto
    next
      case False
      then show ?thesis using Cons.prems(1,3) None
        by (subst (asm) read_raw_request.simps) (auto split: if_splits read_event.splits)
    qed
  qed
qed

theorem framed_within_limit_witness:
  "\<exists>out p s. read_raw_request [Data keep_alive_request] [] 64 = (out, p, s) \<and> length p \<le> 1088"
proof -
  obtain out p s where r: "read_raw_request [Data keep_alive_request] [] 64 = (out, p, s)" by (metis prod.exhaust)
  have "length keep_alive_request \<le> 1024" by (simp add: keep_alive_request_def CRLF_def)
  then show ?thesis using r framed_within_limit [OF r] by simp
qed

section \<open>Keep-alive\<close>

definition header_line :: "bytes \<times> bytes \<Rightarrow> bytes" where
  "header_line = (\<lambda>(name, value). name @ [58] @ value)"

definition request_head :: "bytes \<Rightarrow> (bytes \<times> bytes) list \<Rightarrow> bytes" where
  "request_head line headers = line @ CRLF @ concat (map (\<lambda>h. header_line h @ CRLF) headers) @ CRLF"

definition plain_header :: "bytes \<times> bytes \<Rightarrow> bool" where
  "plain_header = (\<lambda>(name, value). 58 \<notin> set name \<and> 10 \<notin> set name \<and> 10 \<notin> set value)"

definition find_connection :: "(bytes \<times> bytes) list \<Rightarrow> bytes option" where
  "find_connection headers =
     map_option snd (find (\<lambda>(name, _). eq_ignore_ascii_case (trim_ascii name) (ascii ''connection'')) headers)"

lemma position_append_first: "\<forall>x\<in>set xs. \<not> p x \<Longrightarrow> p y \<Longrightarrow> position p (xs @ y # ys) = Some (length xs)"
  by (induction xs) auto

lemma header_lines_scan:
  assumes "list_all plain_header headers"
  shows "header_lines_have_token (split_on 10 (concat (map (\<lambda>h. header_line h @ CRLF) headers) @ CRLF)) token
    = (case find_connection headers of None \<Rightarrow> False | Some v \<Rightarrow> has_token v token)"
  using assms
proof (induction headers)
  case Nil
  then show ?case by (simp add: CRLF_def find_connection_def)
next
  case (Cons h headers)
  obtain name v where h: "h = (name, v)" by force
  have nl: "10 \<notin> set (header_line h @ [13])" and colon: "\<forall>x\<in>set name. \<not> x = 58"
    using Cons.prems by (auto simp: h plain_header_def header_line_def)
  have "split_on 10 (concat (map (\<lambda>h. header_line h @ CRLF) (h # headers)) @ CRLF)
    = (header_line h @ [13]) # split_on 10 (concat (map (\<lambda>h. header_line h @ CRLF) headers) @ CRLF)"
    using split_on_append [OF nl] by (simp add: CRLF_def)
  moreover have "position (\<lambda>b. b = 58) (header_line h) = Some (length name)"
    using position_append_first [of name "\<lambda>b. b = 58" 58 v] colon by (simp add: h header_line_def)
  ultimately show ?case using Cons
    by (auto simp: h Let_def find_connection_def header_line_def butlast_append split: option.splits)
qed

lemma find_crlf: "13 \<notin> set line \<Longrightarrow> find_window CRLF (line @ CRLF @ rest) = Some (length line)"
  by (induction line) (auto simp: CRLF_def)

text \<open>C29: the connection is kept open after a request exactly when its request line ends in
  \<open> HTTP/1.1\<close> and the first \<open>Connection\<close> header, if there is one, has no \<open>close\<close> token;
  names and tokens compare without case and without surrounding white space.\<close>

theorem keep_alive_decision:
  assumes "13 \<notin> set line" "10 \<notin> set line" "list_all plain_header headers"
  shows "connection_should_close (request_head line headers) \<longleftrightarrow>
    \<not> ends_with line (ascii '' HTTP/1.1'')
    \<or> (case find_connection headers of None \<Rightarrow> False | Some v \<Rightarrow> has_token v (ascii ''close''))"
proof -
  let ?rest = "concat (map (\<lambda>h. header_line h @ CRLF) headers) @ CRLF"
  have "10 \<notin> set (line @ [13])" using assms(2) by simp
  from split_on_append [OF this, of ?rest] have "drop 1 (split_on 10 (request_head line headers)) = split_on 10 ?rest"
    by (simp add: request_head_def CRLF_def)
  then show ?thesis using find_crlf [OF assms(1), of ?rest] header_lines_scan [OF assms(3)]
    by (simp add: connection_should_close_def connection_header_has_token_def request_head_def)
qed

theorem keep_alive_decision_witness:
  "connection_should_close (request_head (ascii ''GET / HTTP/1.1'') [(ascii ''coNNection'', ascii '' keep-alive , Close '')])"
proof -
  have "has_token (ascii '' keep-alive , Close '') (ascii ''close'')" by code_simp
  moreover have "find_connection [(ascii ''coNNection'', ascii '' keep-alive , Close '')] = Some (ascii '' keep-alive , Close '')"
    by code_simp
  moreover have "list_all plain_header [(ascii ''coNNection'', ascii '' keep-alive , Close '')]"
    "(13 :: u8) \<notin> set (ascii ''GET / HTTP/1.1'')" "(10 :: u8) \<notin> set (ascii ''GET / HTTP/1.1'')" by code_simp+
  ultimately show ?thesis by (subst keep_alive_decision) simp_all
qed

section \<open>The accept loop\<close>

definition listener_inv :: "nat \<Rightarrow> listener \<Rightarrow> bool" where
  "listener_inv m l \<longleftrightarrow> permits l + serving l = m"

lemma serve_step_inv: "listener_inv m l \<Longrightarrow> fst (serve_step l e) = Listening l' \<Longrightarrow> listener_inv m l'"
  by (cases e) (auto simp: listener_inv_def split: if_splits)

lemma serve_run_inv: "listener_inv m l \<Longrightarrow> fst (serve_run (Listening l) es) = Listening l' \<Longrightarrow> listener_inv m l'"
proof (induction es arbitrary: l)
  case (Cons e es)
  obtain s acts where s: "serve_step l e = (s, acts)" by force
  show ?case
  proof (cases s)
    case (Listening k)
    then have "listener_inv m k" using serve_step_inv [OF Cons.prems(1), of e k] s by simp
    then show ?thesis using Cons.IH [of k] Cons.prems(2) s Listening by (auto split: prod.splits)
  qed (use Cons.prems(2) s in auto)
qed simp

text \<open>C39: at every moment after the start the connections being served and the free permits add up to
  the configured maximum, so at most that many are served and giving a permit back never exceeds the
  maximum of the semaphore; a new connection is served when fewer are, and otherwise it gets the 503
  response and nothing else.\<close>

theorem connections_bounded:
  assumes "serve_start m = Some s" "fst (serve_run s es) = Listening l"
  shows "serving l \<le> m \<and> permits l + serving l = m \<and> m \<le> MAX_PERMITS
    \<and> (if serving l < m then \<exists>l'. serve_step l Accepted = (Listening l', [Serve]) \<and> serving l' = serving l + 1
       else serve_step l Accepted = (Listening l, [Reject service_unavailable_response]))"
proof -
  have "listener_inv m \<lparr>permits = m, serving = 0\<rparr>" by (simp add: listener_inv_def)
  moreover have s: "s = Listening \<lparr>permits = m, serving = 0\<rparr>" "m \<le> MAX_PERMITS"
    using assms(1) by (simp_all add: serve_start_def split: if_splits)
  ultimately have "listener_inv m l" using serve_run_inv assms(2) by blast
  then show ?thesis using s(2) by (auto simp: listener_inv_def)
qed

theorem connections_bounded_witness:
  "\<exists>s l. serve_start 1 = Some s \<and> fst (serve_run s [Accepted, Accepted]) = Listening l \<and> serving l \<le> 1"
proof -
  let ?s = "Listening \<lparr>permits = 1, serving = 0\<rparr>"
  have s: "serve_start 1 = Some ?s" by (simp add: serve_start_def MAX_PERMITS_def USIZE_MAX_def)
  have r: "fst (serve_run ?s [Accepted, Accepted]) = Listening \<lparr>permits = 0, serving = 1\<rparr>" by simp
  from connections_bounded [OF s r] s r show ?thesis by blast
qed

end
