(* ===== verification/BatcherClients.thy ===== *)
theory BatcherClients
  imports BatcherProofs FramingProofs
begin

text \<open>
  The connections of \<open>src/network.rs\<close> as clients of the batcher: what \<open>batcher.submit(request).await\<close>
  may do, whatever other clients and the worker do meanwhile, and what a connection then answers.
\<close>

section \<open>Awaited answers\<close>

text \<open>A submission that is not refused: between its start and its end the batcher makes any steps that
  accept requests of any clients, this one among them, and the reply to it has arrived.\<close>

definition schedules :: "batcher_config \<Rightarrow> 'p process \<Rightarrow> 'p \<Rightarrow> (bytes \<Rightarrow> bool) \<Rightarrow> 'p batcher submit \<Rightarrow> bool" where
  "schedules cfg process p accepts submit \<longleftrightarrow> (\<forall>jobs b request result b'.
     batcher_run cfg process p jobs b \<and> b_open b \<and> (\<forall>job\<in>set jobs. accepts (j_request job)) \<and> accepts request
       \<and> submit request b = (result, b')
     \<longrightarrow> (\<exists>jobs' i. batcher_run cfg process p jobs' b' \<and> b_open b' \<and> (\<forall>job\<in>set jobs'. accepts (j_request job))
          \<and> \<lparr>j_request = request, j_reply = i\<rparr> \<in> set jobs' \<and> await_reply b' i = Some result))"

lemma open_worker: "batcher_run cfg process p jobs b \<Longrightarrow> b_open b \<Longrightarrow> b_worker b \<noteq> Exited"
proof (induction rule: batcher_run.induct)
  case (worked jobs b waited nanos b')
  show ?case
  proof (cases "b_worker b")
    case (Ready js)
    then have b': "b' = process_jobs process nanos js b" using worked.hyps by (simp add: worker_step_def)
    show ?thesis
    proof (cases "process (b_processor b) (map j_request js)")
      case (Some rp)
      then obtain result p where "process (b_processor b) (map j_request js) = Some (result, p)" by (metis prod.exhaust)
      from process_jobs_returns [OF this b'] show ?thesis by simp
    qed (simp add: b' process_jobs_panic)
  qed (use worked in \<open>auto simp: worker_steps split: if_splits list.splits\<close>)
qed (auto simp: spawn_batcher_ok batcher_start_def submit_job_def split: if_splits)

lemma reply_ids:
  assumes "batcher_run cfg process p jobs b"
  shows "map j_reply jobs = [0..<length jobs]" "inj_on j_reply (set jobs)"
proof -
  have "order_inv jobs b" using batcher_run_inv [OF assms] by simp
  then show ids: "map j_reply jobs = [0..<length jobs]" using order_inv_length by (fastforce simp: order_inv_def)
  show "inj_on j_reply (set jobs)" using ids by (metis distinct_map distinct_upt)
qed

context answering_processor
begin

lemma awaited_answer:
  assumes run: "batcher_run cfg process p jobs b" and "answered_by jobs b" "b_open b" "job \<in> set jobs"
    "await_reply b (j_reply job) = Some result"
  shows "result = Inr (answer (j_request job))"
proof -
  from assms(2) obtain k where good: "b_worker b \<noteq> Panicked"
    and replies: "b_replies b = map (\<lambda>job. (j_reply job, Inr (answer (j_request job)))) (take k jobs)"
    unfolding answered_by_def by blast
  have "\<not> worker_gone (b_worker b)" using good open_worker [OF run assms(3)] by simp
  then obtain v where v: "map_of (b_replies b) (j_reply job) = Some v"
    and result: "result = (case v of Inr r \<Rightarrow> Inr r | Inl m \<Rightarrow> Inl (Processing m))"
    using assms(5) by (auto simp: await_reply_def split: option.splits sum.splits)
  from map_of_SomeD [OF v] obtain job' where job': "job' \<in> set jobs" "j_reply job' = j_reply job"
    "v = Inr (answer (j_request job'))"
    unfolding replies by (auto dest: in_set_takeD)
  have "job' = job" using inj_onD [OF reply_ids(2) [OF run] job'(2,1) assms(4)] .
  then show ?thesis using job'(3) result by simp
qed

lemma scheduled_answer:
  assumes submit: "schedules cfg process p accepts submit" and p: "good p" "bc_max_batch_size cfg \<le> capacity"
    and b: "batcher_run cfg process p jobs b" "b_open b" "\<forall>job\<in>set jobs. accepts (j_request job)"
    and r: "accepts request" "submit request b = (result, b')"
  shows "result = Inr (answer request) \<and> (\<exists>jobs'. batcher_run cfg process p jobs' b' \<and> b_open b' \<and> (\<forall>job\<in>set jobs'. accepts (j_request job)))"
proof -
  from submit [unfolded schedules_def, rule_format] b r
  obtain jobs' i where s: "batcher_run cfg process p jobs' b'" "b_open b'" "\<forall>job\<in>set jobs'. accepts (j_request job)"
    "\<lparr>j_request = request, j_reply = i\<rparr> \<in> set jobs'" "await_reply b' i = Some result" by blast
  have "result = Inr (answer request)"
    using awaited_answer [OF s(1) run_answered [OF s(1) p s(3)] s(2,4)] s(5) by simp
  then show ?thesis using s(1-3) by blast
qed

lemma submit_all_answers:
  assumes "schedules cfg process p accepts submit" "good p" "bc_max_batch_size cfg \<le> capacity"
    "batcher_run cfg process p jobs b" "b_open b" "\<forall>job\<in>set jobs. accepts (j_request job)" "\<forall>r\<in>set rs. accepts r"
  shows "fst (submit_all submit rs b) = map answer rs"
  using assms(4-7)
proof (induction rs arbitrary: jobs b)
  case (Cons r rs)
  obtain result b' where s: "submit r b = (result, b')" by force
  from scheduled_answer [OF assms(1-3) Cons.prems(1-3) _ s] Cons.prems(4) obtain jobs' where
    "result = Inr (answer r)" "batcher_run cfg process p jobs' b'" "b_open b'" "\<forall>job\<in>set jobs'. accepts (j_request job)" by auto
  with Cons.IH [OF this(2-4)] Cons.prems(4) show ?case by (auto simp: s response_of_def split: prod.splits)
qed simp

lemma connection_answers:
  assumes "schedules cfg process p accepts submit" "good p" "bc_max_batch_size cfg \<le> capacity"
    "batcher_run cfg process p jobs b" "b_open b" "\<forall>job\<in>set jobs. accepts (j_request job)"
    and rs: "\<forall>r\<in>set rs. complete_request m r \<and> \<not> connection_should_close r \<and> accepts r" "0 < m"
    and chunks: "[] \<notin> set chunks" "concat chunks = concat rs"
  shows "fst (handle_connection submit (\<lambda>_. True) m (map Data chunks) b) = (ShutDown, map answer rs)"
proof -
  have all: "list_all (\<lambda>r. complete_request m r \<and> \<not> connection_should_close r) rs" using rs(1) by (simp add: list_all_iff)
  have "handle_connection submit (\<lambda>_. True) m (map Data chunks) b
      = ((ShutDown, fst (submit_all submit rs b)), snd (submit_all submit rs b))"
    using connection_loop_bytes [OF chunks(1), of submit "\<lambda>_. True" m "[]" b "[]"]
      serve_bytes_pipeline [OF all rs(2), where submit = submit and b = b and sent = "[]"]
    by (simp add: handle_connection_def chunks(2))
  then show ?thesis using submit_all_answers [OF assms(1-6), of rs] rs(1) by simp
qed

end

section \<open>One client\<close>

text \<open>The schedule of a single client: the worker runs to its end before the submission and after it.\<close>

definition submit_alone :: "batcher_config \<Rightarrow> 'p process \<Rightarrow> 'p batcher submit" where
  "submit_alone cfg process request b =
     (let b = drain cfg process (work b) b in
      (case submit_job cfg request b of
         (Inl e, b) \<Rightarrow> (Inl e, b)
       | (Inr i, b) \<Rightarrow> let b = drain cfg process (work b) b
           in (case await_reply b i of Some result \<Rightarrow> result | None \<Rightarrow> Inl Stopped, b)))"

lemma worker_step_open: "worker_step cfg process waited nanos b = Some b' \<Longrightarrow> b_open b' = b_open b"
proof (cases "b_worker b")
  case (Ready js)
  assume "worker_step cfg process waited nanos b = Some b'"
  with Ready have b': "b' = process_jobs process nanos js b" by (simp add: worker_step_def)
  show ?thesis
  proof (cases "process (b_processor b) (map j_request js)")
    case (Some rp)
    then obtain result p where "process (b_processor b) (map j_request js) = Some (result, p)" by (metis prod.exhaust)
    from process_jobs_returns [OF this b'] show ?thesis by simp
  qed (simp add: b' process_jobs_panic)
qed (auto simp: worker_steps split: if_splits list.splits)

lemma drain_open: "b_open (drain cfg process n b) = b_open b"
  by (induction n arbitrary: b) (auto simp: worker_step_open split: option.splits)

context answering_processor
begin

lemma submit_alone_schedules:
  assumes cfg: "0 < bc_queue_depth cfg" and p: "good p" "bc_max_batch_size cfg \<le> capacity"
  shows "schedules cfg process p accepts (submit_alone cfg process)"
  unfolding schedules_def
proof (intro allI impI, elim conjE)
  fix jobs b request result b'
  assume b: "batcher_run cfg process p jobs b" "b_open b" "\<forall>job\<in>set jobs. accepts (j_request job)" and r: "accepts request"
    and s: "submit_alone cfg process request b = (result, b')"
  define c where "c = drain cfg process (work b) b"
  define jobs' where "jobs' = jobs @ [\<lparr>j_request = request, j_reply = b_next c\<rparr>]"
  define d where "d = snd (submit_job cfg request c)"
  have c: "batcher_run cfg process p jobs c" "b_open c" unfolding c_def using drain_runs [OF b(1)] b(2) by (simp_all add: drain_open)
  have np: "b_worker x \<noteq> Panicked" if "batcher_run cfg process p js x" "\<forall>job\<in>set js. accepts (j_request job)" for js x
    using run_answered [OF that(1) p that(2)] by (simp add: answered_by_def)
  have "b_queue c = []" using drained_state [OF b(1) order_refl] np [OF c(1) b(3)] by (simp add: c_def)
  then have sub: "submit_job cfg request c = (Inr (b_next c), d)"
    using cfg np [OF c(1) b(3)] open_worker [OF c] by (simp add: submit_job_def d_def)
  have ok: "\<forall>job\<in>set jobs'. accepts (j_request job)" using b(3) r by (simp add: jobs'_def)
  have d: "batcher_run cfg process p jobs' d" unfolding jobs'_def by (rule batcher_run.accepted [OF c sub])
  let ?e = "drain cfg process (work d) d"
  have e: "batcher_run cfg process p jobs' ?e" by (rule drain_runs [OF d])
  have "b_open d" using sub c(2) by (auto simp: submit_job_def split: if_splits)
  then have o: "b_open ?e" by (simp add: drain_open)
  have "map fst (b_replies ?e) = map j_reply jobs'" using drained_state [OF d order_refl] np [OF e ok] by simp
  then have "b_next c \<in> set (map fst (b_replies ?e))" by (simp add: jobs'_def)
  then have "map_of (b_replies ?e) (b_next c) \<noteq> None" by (simp add: map_of_eq_None_iff)
  then have "await_reply ?e (b_next c) \<noteq> None" by (auto simp: await_reply_def split: sum.splits)
  then obtain v where "await_reply ?e (b_next c) = Some v" by blast
  then have "result = v" "b' = ?e" "await_reply ?e (b_next c) = Some v"
    using s by (simp_all add: submit_alone_def sub flip: c_def)
  then show "\<exists>jobs' i. batcher_run cfg process p jobs' b' \<and> b_open b' \<and> (\<forall>job\<in>set jobs'. accepts (j_request job))
      \<and> \<lparr>j_request = request, j_reply = i\<rparr> \<in> set jobs' \<and> await_reply b' i = Some result"
    using e o ok by (intro exI [of _ jobs'] exI [of _ "b_next c"]) (simp add: jobs'_def)
qed

end

end
