(* ===== verification/Processors.thy ===== *)
theory Processors
  imports HttpGpuTotal BatcherClients
begin

text \<open>
  \<open>src/processor/mod.rs\<close> and \<open>src/processor/cpu.rs\<close>: the two processors behind one interface, their
  creation from the configured choice, and the processor as the batcher uses it. What a created
  processor answers does not depend on the choice, except for its name.
\<close>

section \<open>Creation\<close>

datatype processor = CpuProcessor compiled_router | GpuProcessor http_gpu

definition create_compiled_processor ::
    "bytes \<Rightarrow> wgpu_adapter option \<Rightarrow> backend_choice \<Rightarrow> processor_limits \<Rightarrow> compiled_router \<Rightarrow> (http_gpu_error, processor) outcome" where
  "create_compiled_processor shader_body adapter choice limits router =
     (case choice of
        CpuBackend \<Rightarrow> ok (CpuProcessor router)
      | GpuBackend \<Rightarrow>
          and_then (lift_error RouterError (validate_gpu_response_slot router (pl_response_slot_bytes limits))) (\<lambda>_.
          and_then (from_compiled shader_body adapter limits router) (\<lambda>g. ok (GpuProcessor g)))
      | AutoBackend \<Rightarrow>
          and_then (lift_error RouterError (validate_gpu_response_slot router (pl_response_slot_bytes limits))) (\<lambda>_.
          (case from_compiled shader_body adapter limits router of
             None \<Rightarrow> None
           | Some (Inr g) \<Rightarrow> ok (GpuProcessor g)
           | Some (Inl e) \<Rightarrow> ok (CpuProcessor router))))"

definition create_processor_with_router ::
    "bytes \<Rightarrow> wgpu_adapter option \<Rightarrow> backend_choice \<Rightarrow> processor_limits \<Rightarrow> router \<Rightarrow> (http_gpu_error, processor) outcome" where
  "create_processor_with_router shader_body adapter choice limits rt =
     and_then (lift_error RouterError (compile rt)) (create_compiled_processor shader_body adapter choice limits)"

definition create_processor ::
    "bytes \<Rightarrow> wgpu_adapter option \<Rightarrow> backend_choice \<Rightarrow> processor_limits \<Rightarrow> (http_gpu_error, processor) outcome" where
  "create_processor shader_body adapter choice limits =
     create_processor_with_router shader_body adapter choice limits builtin_router"

text \<open>\<open>GpuProcessor::new\<close>, \<open>CpuProcessor::with_router\<close> and its default, which panics if the built-in
  router does not compile.\<close>

definition gpu_processor_new :: "bytes \<Rightarrow> wgpu_adapter option \<Rightarrow> processor_limits \<Rightarrow> (http_gpu_error, http_gpu) outcome" where
  "gpu_processor_new shader_body adapter limits = with_router shader_body adapter limits builtin_router"

definition cpu_with_router :: "router \<Rightarrow> (router_error, processor) outcome" where
  "cpu_with_router rt = and_then (compile rt) (\<lambda>c. ok (CpuProcessor c))"

definition cpu_default :: "processor option" where
  "cpu_default = (case cpu_with_router builtin_router of Some (Inr p) \<Rightarrow> Some p | _ \<Rightarrow> None)"

section \<open>The interface\<close>

definition processor_name :: "processor \<Rightarrow> string" where
  "processor_name p = (case p of CpuProcessor _ \<Rightarrow> ''cpu'' | GpuProcessor _ \<Rightarrow> ''gpu'')"

definition processor_process_batch :: "gpu_events \<Rightarrow> processor \<Rightarrow> bytes list \<Rightarrow> (processor \<times> (http_gpu_error + bytes list)) option" where
  "processor_process_batch ev p requests =
     (case p of
        CpuProcessor c \<Rightarrow> map_option (\<lambda>rs. (p, Inr rs)) (cpu_process_batch c requests)
      | GpuProcessor g \<Rightarrow> map_option (\<lambda>(g, result). (GpuProcessor g, result)) (process_gpu_batch ev g requests))"

text \<open>The processor in the worker of the batcher: the events of each batch come from the device, given
  by the number of the batch and its size; \<open>describe\<close> prints an error.\<close>

record worker_device =
  wd_processor :: processor
  wd_events :: "nat \<Rightarrow> nat \<Rightarrow> gpu_events"
  wd_batch :: nat

definition device_process :: "(http_gpu_error \<Rightarrow> string) \<Rightarrow> worker_device process" where
  "device_process describe w requests =
     map_option (\<lambda>(p, result). (case result of Inl e \<Rightarrow> Inl (describe e) | Inr rs \<Rightarrow> Inr rs,
         w\<lparr>wd_processor := p, wd_batch := wd_batch w + 1\<rparr>))
       (processor_process_batch (wd_events w (wd_batch w) (length requests)) (wd_processor w) requests)"

section \<open>What creation gives\<close>

definition adapter_limited :: "wgpu_adapter option \<Rightarrow> bool" where
  "adapter_limited adapter \<longleftrightarrow> (case adapter of None \<Rightarrow> True | Some ad \<Rightarrow> ad_max_binding ad \<le> MAX_STORAGE_BINDING)"

text \<open>A processor that serves the router: batches of at most \<open>n\<close> requests of at most \<open>m\<close> bytes.\<close>

definition processor_ready :: "router \<Rightarrow> nat \<Rightarrow> nat \<Rightarrow> processor \<Rightarrow> bool" where
  "processor_ready rt n m p \<longleftrightarrow> (case p of
     CpuProcessor c \<Rightarrow> compile rt = ok c
   | GpuProcessor g \<Rightarrow> http_gpu_ready rt g \<and> hg_max_batch_size g = n \<and> hg_max_request_bytes g = m)"

lemma from_compiled_adapter: "from_compiled body adapter limits c = ok g \<Longrightarrow> \<exists>ad. adapter = Some ad"
  by (cases adapter) (auto simp: from_compiled_def and_then_ok_iff)

lemma from_compiled_processor_ready:
  assumes "compile rt = ok c" "from_compiled body adapter limits c = ok g" "adapter_limited adapter"
  shows "processor_ready rt (pl_max_batch_size limits) (pl_max_request_bytes limits) (GpuProcessor g)"
proof -
  obtain ad where ad: "adapter = Some ad" using from_compiled_adapter [OF assms(2)] by blast
  with assms(3) have "ad_max_binding ad \<le> MAX_STORAGE_BINDING" by (simp add: adapter_limited_def)
  from from_compiled_ready [OF assms(1) assms(2) [unfolded ad] this] show ?thesis by (simp add: processor_ready_def)
qed

lemma created_ok:
  "create_compiled_processor body adapter choice limits c = ok p \<longleftrightarrow> (case choice of
     CpuBackend \<Rightarrow> p = CpuProcessor c
   | _ \<Rightarrow> lift_error RouterError (validate_gpu_response_slot c (pl_response_slot_bytes limits)) = ok ()
       \<and> ((\<exists>g. from_compiled body adapter limits c = ok g \<and> p = GpuProcessor g)
          \<or> choice = AutoBackend \<and> p = CpuProcessor c \<and> (\<exists>e. from_compiled body adapter limits c = fail e)))"
proof (cases choice)
  case AutoBackend
  have "(case m of None \<Rightarrow> None | Some (Inr g) \<Rightarrow> ok (GpuProcessor g) | Some (Inl e) \<Rightarrow> ok (CpuProcessor c)) = (ok p :: (http_gpu_error, processor) outcome)
      \<longleftrightarrow> (\<exists>g. m = ok g \<and> p = GpuProcessor g) \<or> p = CpuProcessor c \<and> (\<exists>e. m = fail e)" for m :: "(http_gpu_error, http_gpu) outcome"
    by (auto simp: ok_def fail_def split: option.splits sum.splits)
  then show ?thesis by (simp add: AutoBackend create_compiled_processor_def and_then_ok_iff del: lift_error_ok)
qed (auto simp: create_compiled_processor_def and_then_ok_iff simp del: lift_error_ok)

lemma created_processor_ready:
  assumes "create_processor_with_router body adapter choice limits rt = ok p" "adapter_limited adapter"
  shows "processor_ready rt (pl_max_batch_size limits) (pl_max_request_bytes limits) p"
proof -
  obtain c where c: "compile rt = ok c" and p: "create_compiled_processor body adapter choice limits c = ok p"
    using assms(1) by (auto simp: create_processor_with_router_def and_then_ok_iff)
  have cpu: "processor_ready rt n m (CpuProcessor c)" for n m using c by (simp add: processor_ready_def)
  from p consider (cpu) "p = CpuProcessor c" | (gpu) g where "p = GpuProcessor g" "from_compiled body adapter limits c = ok g"
    unfolding created_ok by (auto split: backend_choice.splits)
  then show ?thesis
  proof cases
    case gpu
    then show ?thesis using from_compiled_processor_ready [OF c _ assms(2)] by simp
  qed (simp add: cpu)
qed

section \<open>What it answers\<close>

definition accepted_by :: "processor \<Rightarrow> nat \<Rightarrow> bytes \<Rightarrow> bool" where
  "accepted_by p m req \<longleftrightarrow> (case p of CpuProcessor _ \<Rightarrow> True | GpuProcessor _ \<Rightarrow> length req \<le> m)"

text \<open>The answers: the declared response, except that the shader parses a first line that does not have
  three parts in its own way.\<close>

definition processor_answer :: "processor \<Rightarrow> router \<Rightarrow> bytes \<Rightarrow> bytes" where
  "processor_answer p rt req = (case p of CpuProcessor _ \<Rightarrow> spec_route rt req (ascii ''cpu'') | GpuProcessor _ \<Rightarrow> gpu_route rt req)"

lemma processor_answer_three: "three_part_line req \<Longrightarrow> processor_answer p rt req = spec_route rt req (ascii (processor_name p))"
  by (cases p) (simp_all add: processor_answer_def processor_name_def gpu_route_three)

definition device_serves :: "processor \<Rightarrow> nat \<Rightarrow> gpu_events \<Rightarrow> bool" where
  "device_serves p n ev \<longleftrightarrow> (case p of CpuProcessor _ \<Rightarrow> True | GpuProcessor g \<Rightarrow> device_completes ev (hg_direct_output_mapping g) n)"

definition router_for :: "processor \<Rightarrow> router \<Rightarrow> bool" where
  "router_for p rt \<longleftrightarrow> (case p of CpuProcessor _ \<Rightarrow> True | GpuProcessor _ \<Rightarrow> tail_free_router rt)"

text \<open>The part of a processor that no batch changes.\<close>

definition same_backend :: "processor \<Rightarrow> processor \<Rightarrow> bool" where
  "same_backend p q \<longleftrightarrow> (case p of CpuProcessor c \<Rightarrow> q = p
   | GpuProcessor g \<Rightarrow> (\<exists>g'. q = GpuProcessor g' \<and> hg_direct_output_mapping g' = hg_direct_output_mapping g))"

lemma same_backend_refl: "same_backend p p"
  by (cases p) (simp_all add: same_backend_def)

lemma same_backend_trans: "same_backend p q \<Longrightarrow> same_backend q r \<Longrightarrow> same_backend p r"
  by (auto simp: same_backend_def split: processor.splits)

lemma same_backend_facts:
  assumes "same_backend p q"
  shows "processor_name q = processor_name p" "accepted_by q m req = accepted_by p m req"
    "device_serves q n ev = device_serves p n ev" "router_for q rt = router_for p rt"
    "processor_answer q rt req = processor_answer p rt req"
  using assms by (auto simp: same_backend_def processor_answer_def processor_name_def accepted_by_def device_serves_def router_for_def split: processor.splits)

lemma processor_batch_answers:
  assumes ready: "processor_ready rt n m p" and rt: "router_for p rt" and size: "length reqs \<le> n"
    and acc: "\<forall>r\<in>set reqs. accepted_by p m r" and ev: "device_serves p (length reqs) ev"
  shows "\<exists>p'. processor_process_batch ev p reqs = Some (p', Inr (map (processor_answer p rt) reqs))
    \<and> processor_ready rt n m p' \<and> same_backend p p'"
proof (cases p)
  case (CpuProcessor c)
  then show ?thesis using ready
    by (simp add: processor_ready_def processor_process_batch_def cpu_process_batch_answers processor_answer_def same_backend_def)
next
  case (GpuProcessor g)
  note simps = processor_ready_def router_for_def accepted_by_def device_serves_def GpuProcessor
  have g: "http_gpu_ready rt g" "hg_max_batch_size g = n" "hg_max_request_bytes g = m" using ready by (simp_all add: simps)
  have tf: "tail_free_router rt" using rt by (simp add: simps)
  have "\<forall>r\<in>set reqs. acceptable g r" using acc by (simp add: simps acceptable_def g(3))
  moreover have "device_completes ev (hg_direct_output_mapping g) (length reqs)" using ev by (simp add: simps)
  ultimately obtain g' where "process_gpu_batch ev g reqs = Some (g', Inr (map (gpu_route rt) reqs))"
    "http_gpu_ready rt g'" "hg_max_batch_size g' = hg_max_batch_size g" "hg_max_request_bytes g' = hg_max_request_bytes g"
    "hg_direct_output_mapping g' = hg_direct_output_mapping g"
    using process_gpu_batch_answers [OF g(1) tf] size g(2) by blast
  then show ?thesis using g
    by (intro exI [of _ "GpuProcessor g'"]) (simp add: GpuProcessor processor_process_batch_def processor_answer_def processor_ready_def same_backend_def)
qed

section \<open>Under the batcher\<close>

definition device_good :: "router \<Rightarrow> nat \<Rightarrow> nat \<Rightarrow> processor \<Rightarrow> worker_device \<Rightarrow> bool" where
  "device_good rt n m p w \<longleftrightarrow> processor_ready rt n m (wd_processor w) \<and> same_backend p (wd_processor w) \<and> router_for p rt
     \<and> (\<forall>k i. i \<le> n \<longrightarrow> device_serves p i (wd_events w k i))"

lemma device_process_answers:
  assumes good: "device_good rt n m p w" and reqs: "length reqs \<le> n" "\<forall>r\<in>set reqs. accepted_by p m r"
  shows "\<exists>w'. device_process describe w reqs = Some (Inr (map (processor_answer p rt) reqs), w')
    \<and> device_good rt n m p w'"
proof -
  let ?q = "wd_processor w"
  note same = same_backend_facts [of p ?q]
  have g: "processor_ready rt n m ?q" "same_backend p ?q" "router_for p rt" using good by (simp_all add: device_good_def)
  have ev: "device_serves p (length reqs) (wd_events w (wd_batch w) (length reqs))" using good reqs(1) by (simp add: device_good_def)
  have q: "router_for ?q rt" "\<forall>r\<in>set reqs. accepted_by ?q m r" "device_serves ?q (length reqs) (wd_events w (wd_batch w) (length reqs))"
    "processor_answer ?q rt = processor_answer p rt"
    using g(3) reqs(2) ev same [OF g(2)] by (simp_all add: fun_eq_iff)
  from processor_batch_answers [OF g(1) q(1) reqs(1) q(2,3), unfolded q(4)] obtain q' where
    "processor_process_batch (wd_events w (wd_batch w) (length reqs)) ?q reqs = Some (q', Inr (map (processor_answer p rt) reqs))"
    "processor_ready rt n m q'" "same_backend ?q q'" by blast
  moreover have "same_backend p q'" using g(2) calculation(3) by (rule same_backend_trans)
  ultimately show ?thesis using good by (simp add: device_process_def device_good_def)
qed

interpretation device: answering_processor "device_process describe" "device_good rt n m p" "accepted_by p m" n
    "processor_answer p rt" for describe rt n m p
  by unfold_locales (rule device_process_answers)

definition worker_device_start :: "processor \<Rightarrow> (nat \<Rightarrow> nat \<Rightarrow> gpu_events) \<Rightarrow> worker_device" where
  "worker_device_start p events = \<lparr>wd_processor = p, wd_events = events, wd_batch = 0\<rparr>"

lemma start_good:
  assumes "processor_ready rt n m p" "router_for p rt" "\<forall>k i. i \<le> n \<longrightarrow> device_serves p i (events k i)"
  shows "device_good rt n m p (worker_device_start p events)"
  using assms same_backend_refl by (simp add: device_good_def worker_device_start_def)

end
