(* ===== verification/Server.thy ===== *)
theory Server
  imports Processors
begin

text \<open>
  \<open>src/server.rs\<close> and \<open>src/main.rs\<close>: configuration, router, processor, batcher and network put
  together. The adapter, the device and the printing of errors are parameters.
\<close>

section \<open>Starting the server\<close>

datatype serve_error = ConfigError config_error | ProcessorError http_gpu_error | SpawnError spawn_error | NetworkError network_error

text \<open>What the process that runs the server grants: the depths for which the request channel can be
  allocated, a thread for the worker, and the addresses it can listen on.\<close>

record 'addr host =
  ho_queue_fits :: "nat \<Rightarrow> bool"
  ho_thread_spawns :: bool
  ho_listens :: "'addr \<Rightarrow> bool"

record server =
  sv_backend :: string
  sv_batcher :: "worker_device batcher"
  sv_listener :: serve_state

definition processor_limits_of :: "'addr server_config \<Rightarrow> processor_limits" where
  "processor_limits_of config = \<lparr>pl_max_batch_size = sc_batch_size config,
     pl_max_request_bytes = sc_max_request_bytes config, pl_response_slot_bytes = sc_response_slot_bytes config\<rparr>"

definition batcher_config_of :: "'addr server_config \<Rightarrow> batcher_config" where
  "batcher_config_of config = \<lparr>bc_max_batch_size = sc_batch_size config, bc_max_batch_wait = sc_batch_wait config,
     bc_queue_depth = sc_queue_depth config\<rparr>"

text \<open>\<open>serve\<close> up to the loop of \<open>network::serve\<close>, whose first state is the listener.\<close>

definition serve ::
    "'addr host \<Rightarrow> bytes \<Rightarrow> wgpu_adapter option \<Rightarrow> (nat \<Rightarrow> nat \<Rightarrow> gpu_events) \<Rightarrow> 'addr server_config \<Rightarrow> router \<Rightarrow> (serve_error, server) outcome" where
  "serve host shader_body adapter events config rt =
     and_then (lift_error ConfigError (Some (server_config_validate config))) (\<lambda>_.
     and_then (lift_error ProcessorError
       (create_processor_with_router shader_body adapter (sc_backend config) (processor_limits_of config) rt)) (\<lambda>processor.
     let backend = processor_name processor in
     and_then (lift_error SpawnError (spawn_batcher (ho_queue_fits host) (ho_thread_spawns host) (batcher_config_of config)
       (worker_device_start processor events))) (\<lambda>batcher.
     and_then (lift_error NetworkError (network_start (ho_listens host) (sc_bind config) (sc_max_connections config))) (\<lambda>listener.
     ok \<lparr>sv_backend = backend, sv_batcher = batcher, sv_listener = listener\<rparr>))))"

definition main_app :: router where
  "main_app = router_route builtin_router (ascii ''/plaintext'') (response_text (body_push [] (ascii ''Hello, World!'')))"

definition main_server ::
    "'addr host \<Rightarrow> bytes \<Rightarrow> wgpu_adapter option \<Rightarrow> (nat \<Rightarrow> nat \<Rightarrow> gpu_events) \<Rightarrow> 'addr cli \<Rightarrow> (serve_error, server) outcome" where
  "main_server host shader_body adapter events cli =
     and_then (lift_error ConfigError (Some (server_config_try_from cli))) (\<lambda>config.
     serve host shader_body adapter events config main_app)"

section \<open>The configured sizes are enough\<close>

lemma validated_gpu_sized:
  assumes valid: "server_config_validate config = Inr u" and rt: "fits_slot rt (sc_response_slot_bytes config)"
    "300 + router_weight rt \<le> MAX_TOTAL_BUFFER_BYTES" "router_code_words rt * 4 \<le> MAX_TOTAL_BUFFER_BYTES"
  shows "gpu_sized rt (processor_limits_of config) MAX_TOTAL_BUFFER_BYTES"
proof -
  note v = validated_config [OF valid]
  let ?B = "sc_batch_size config" and ?M = "sc_max_request_bytes config" and ?R = "sc_response_slot_bytes config"
  have one: "4 * ((k + 3) div 4) \<le> ?B * (4 * ((k + 3) div 4))" for k using v(1) by simp
  have "4 * ((?M + 3) div 4) \<le> MAX_TOTAL_BUFFER_BYTES" "4 * ((?R + 3) div 4) \<le> MAX_TOTAL_BUFFER_BYTES"
    using order.trans [OF one v(9)] order.trans [OF one v(10)] by simp_all
  then have small: "?M + 3 \<le> USIZE_MAX" "?R + 3 \<le> USIZE_MAX" by (simp_all add: MAX_TOTAL_BUFFER_BYTES_def USIZE_MAX_def)
  have "16 \<le> 4 * ((?M + 3) div 4)" using v(4) by linarith
  then have "?B * 16 \<le> ?B * (4 * ((?M + 3) div 4))" by (rule mult_le_mono2)
  with v(9) have "?B * 16 \<le> MAX_TOTAL_BUFFER_BYTES" by (rule order.trans [rotated])
  then show ?thesis using v small rt by (simp add: gpu_sized_def processor_limits_of_def)
qed

text \<open>An adapter the GPU processor can use; a usable one offers the default limits of \<open>wgpu\<close>.\<close>

definition usable :: "wgpu_adapter option \<Rightarrow> bool" where
  "usable adapter \<longleftrightarrow> (case adapter of None \<Rightarrow> False | Some ad \<Rightarrow> ad_compute_shaders ad \<and> ad_device_granted ad)"

definition default_limits :: "wgpu_adapter option \<Rightarrow> bool" where
  "default_limits adapter \<longleftrightarrow> (case adapter of None \<Rightarrow> True
     | Some ad \<Rightarrow> ad_max_binding ad = MAX_STORAGE_BINDING \<and> ad_max_buffer ad = 2 * MAX_STORAGE_BINDING)"

definition gpu_servable :: "router \<Rightarrow> nat \<Rightarrow> bool" where
  "gpu_servable rt slot \<longleftrightarrow> fits_slot rt slot \<and> 300 + router_weight rt \<le> MAX_TOTAL_BUFFER_BYTES
     \<and> router_code_words rt * 4 \<le> MAX_TOTAL_BUFFER_BYTES"

definition backend_for :: "backend_choice \<Rightarrow> wgpu_adapter option \<Rightarrow> string" where
  "backend_for choice adapter = (if choice = CpuBackend \<or> \<not> usable adapter then ''cpu'' else ''gpu'')"

lemma server_processor_created:
  assumes valid: "server_config_validate config = Inr u" and small: "small_router rt"
    and fits: "sc_backend config = CpuBackend \<or> gpu_servable rt (sc_response_slot_bytes config)"
    and gpu: "sc_backend config = GpuBackend \<longrightarrow> usable adapter" and lim: "default_limits adapter"
  shows "\<exists>p. create_processor_with_router body adapter (sc_backend config) (processor_limits_of config) rt = ok p
    \<and> processor_name p = backend_for (sc_backend config) adapter"
proof -
  let ?n = MAX_TOTAL_BUFFER_BYTES and ?l = "processor_limits_of config"
  obtain c where c: "compile rt = ok c" using compile_succeeds [OF small] by blast
  show ?thesis
  proof (cases "sc_backend config = CpuBackend")
    case True
    then show ?thesis by (simp add: create_processor_with_router_def c lift_error_simps created_ok processor_name_def backend_for_def)
  next
    case False
    with fits have g: "gpu_sized rt ?l ?n" by (intro validated_gpu_sized [OF valid]) (simp_all add: gpu_servable_def)
    have n: "?n \<le> U32_MAX" by (simp add: MAX_TOTAL_BUFFER_BYTES_def U32_MAX_def)
    have slot: "lift_error RouterError (validate_gpu_response_slot c (pl_response_slot_bytes ?l)) = ok ()"
      using sized_buffers(6) [OF c g] by (simp add: validate_gpu_response_slot_def)
    note made = create_processor_with_router_def c lift_error_simps created_ok slot processor_name_def backend_for_def False
    show ?thesis
    proof (cases "usable adapter")
      case True
      then obtain ad where ad: "adapter = Some ad" "adapter_grants ad ?n"
        using lim by (auto simp: usable_def adapter_grants_def default_limits_def MAX_TOTAL_BUFFER_BYTES_def MAX_STORAGE_BINDING_def
          split: option.splits)
      obtain gp where "from_compiled body adapter ?l c = ok gp" using from_compiled_total [OF c g n ad(2), of body] ad(1) by blast
      then show ?thesis using True False
        by (intro exI [of _ "GpuProcessor gp"]) (simp add: made split: backend_choice.split)
    next
      case unusable: False
      then have auto: "sc_backend config = AutoBackend" using gpu False by (cases "sc_backend config") simp_all
      have "\<exists>e. from_compiled body adapter ?l c = fail e"
        using unusable by (intro from_compiled_unusable [OF c g n]) (auto simp: usable_def)
      then show ?thesis using auto unusable by (intro exI [of _ "CpuProcessor c"]) (simp add: made)
    qed
  qed
qed

text \<open>C2: whichever processor is created for a router, under every interleaving of clients and worker
  and any order in which the device runs the invocations of a dispatch, each reply sent is
  \<open>processor_answer\<close> of the request that was submitted with that reply channel, in the order of
  submission, and the worker does not panic; no request, however malformed, affects the answer to
  another. \<open>processor_answer\<close> is the response the declared router specifies for every request on the
  CPU; on the GPU it is that response for requests whose first line has three parts, and what the
  shader's own parser leads to (\<open>gpu_route\<close>) for the others, where it may differ. Conditions: the batch
  limit of the batcher is within that of the processor, the adapter, if any, has at most the default
  binding limit, and on the GPU the router is tail-free (no body literal equal to the header end), every
  accepted request is within the request limit, and the device completes every batch.\<close>

theorem processor_replies_correct:
  assumes "create_processor_with_router body adapter choice limits rt = ok p" "adapter_limited adapter" "router_for p rt"
    "bc_max_batch_size cfg \<le> pl_max_batch_size limits"
    "\<forall>k i. i \<le> pl_max_batch_size limits \<longrightarrow> device_serves p i (events k i)"
    "\<forall>job\<in>set jobs. accepted_by p (pl_max_request_bytes limits) (j_request job)"
    "batcher_run cfg (device_process describe) (worker_device_start p events) jobs b"
  shows "b_replies b = map (\<lambda>job. (j_reply job, Inr (processor_answer p rt (j_request job)))) (take (length (b_replies b)) jobs)
    \<and> b_worker b \<noteq> Panicked
    \<and> (three_part_line req \<longrightarrow> processor_answer p rt req = spec_route rt req (ascii (processor_name p)))"
  using processor_answer_three device.run_answered [OF assms(7) start_good [OF created_processor_ready [OF assms(1,2)] assms(3,5)] assms(4,6)]
  by (simp add: device.answered_by_def)

lemma server_processor_refused:
  assumes valid: "server_config_validate config = Inr u" and small: "small_router rt"
    and fits: "gpu_servable rt (sc_response_slot_bytes config)"
    and gpu: "sc_backend config = GpuBackend" "\<not> usable adapter"
  shows "\<exists>e. create_processor_with_router body adapter (sc_backend config) (processor_limits_of config) rt = fail e"
proof -
  let ?n = MAX_TOTAL_BUFFER_BYTES and ?l = "processor_limits_of config"
  obtain c where c: "compile rt = ok c" using compile_succeeds [OF small] by blast
  have g: "gpu_sized rt ?l ?n" using fits by (intro validated_gpu_sized [OF valid]) (simp_all add: gpu_servable_def)
  have n: "?n \<le> U32_MAX" by (simp add: MAX_TOTAL_BUFFER_BYTES_def U32_MAX_def)
  have slot: "lift_error RouterError (validate_gpu_response_slot c (pl_response_slot_bytes ?l)) = ok ()"
    using sized_buffers(6) [OF c g] by (simp add: validate_gpu_response_slot_def lift_error_simps)
  have "\<exists>e. from_compiled body adapter ?l c = fail e"
    using gpu(2) by (intro from_compiled_unusable [OF c g n]) (auto simp: usable_def)
  then obtain e where "from_compiled body adapter ?l c = fail e" by blast
  then show ?thesis
    by (simp add: create_processor_with_router_def create_compiled_processor_def c lift_error_simps slot gpu(1)) (simp add: fail_def)
qed

lemma outcome_steps: "lift_error f (fail e) = fail (f e)" "lift_error f None = None" "and_then None k = None"
  by (simp_all add: lift_error_def fail_def and_then_def)

text \<open>The host can allocate the channel of the configured depth, start the worker, and listen on the
  configured address.\<close>

definition able_host :: "'addr host \<Rightarrow> 'addr server_config \<Rightarrow> bool" where
  "able_host host config \<longleftrightarrow> ho_queue_fits host (sc_queue_depth config) \<and> ho_thread_spawns host \<and> ho_listens host (sc_bind config)"

text \<open>C7: what \<open>serve\<close> does at its start with a validated configuration, a router within the sizes the
  compiler and, unless the backend is the CPU, the GPU buffers take, an adapter, if there is one, with
  the default limits of \<open>wgpu\<close>, and a host that can allocate the request channel, start the worker thread
  and listen on the address. When the GPU is asked for and no adapter is usable it fails with the error
  of the processor. Otherwise, when the maximum of connections is above \<open>Semaphore::MAX_PERMITS\<close>, which
  \<open>validate\<close> does not exclude, it panics. In every other case it starts, without error or panic: on the
  GPU when the choice is not the CPU and an adapter is usable, else on the CPU, with an empty queue, a
  waiting worker, and a listener with all permits free.\<close>

theorem server_starts:
  assumes "server_config_validate config = Inr u" "small_router rt"
    "sc_backend config = CpuBackend \<or> gpu_servable rt (sc_response_slot_bytes config)"
    "default_limits adapter" "able_host host config"
  shows "if sc_backend config = GpuBackend \<and> \<not> usable adapter
    then \<exists>e. serve host body adapter events config rt = fail (ProcessorError e)
    else if MAX_PERMITS < sc_max_connections config then serve host body adapter events config rt = None
    else \<exists>srv. serve host body adapter events config rt = ok srv \<and> sv_backend srv = backend_for (sc_backend config) adapter
      \<and> b_queue (sv_batcher srv) = [] \<and> b_worker (sv_batcher srv) = Receiving
      \<and> sv_listener srv = Listening \<lparr>permits = sc_max_connections config, serving = 0\<rparr>"
proof -
  note v = validated_config [OF assms(1)]
  have valid: "Some (server_config_validate config) = ok u" using assms(1) by (simp add: ok_def)
  show ?thesis
  proof (cases "sc_backend config = GpuBackend \<and> \<not> usable adapter")
    case True
    then obtain e where "create_processor_with_router body adapter (sc_backend config) (processor_limits_of config) rt = fail e"
      using server_processor_refused [OF assms(1,2)] assms(3) by auto
    then show ?thesis using True by (auto simp: serve_def valid lift_error_simps outcome_steps)
  next
    case False
    then obtain p where p: "create_processor_with_router body adapter (sc_backend config) (processor_limits_of config) rt = ok p"
      "processor_name p = backend_for (sc_backend config) adapter"
      using server_processor_created [OF assms(1-3) _ assms(4)] by blast
    have spawn: "spawn_batcher (ho_queue_fits host) (ho_thread_spawns host) (batcher_config_of config) w = ok (batcher_start w)"
      for w :: worker_device using v(1,3) assms(5) by (simp add: spawn_batcher_ok batcher_config_of_def able_host_def)
    have start: "network_start (ho_listens host) (sc_bind config) n
      = (if MAX_PERMITS < n then None else ok (Listening \<lparr>permits = n, serving = 0\<rparr>))" for n
      using assms(5) by (simp add: network_start_def able_host_def serve_start_def or_panic_def ok_def)
    show ?thesis unfolding if_not_P [OF False] by (simp add: serve_def valid p spawn start lift_error_simps outcome_steps batcher_start_def)
  qed
qed

section \<open>The application of the binary\<close>

lemma main_app_small: "small_router main_app"
proof -
  let ?r = "response_text (body_push [] (ascii ''Hello, World!''))"
  have "small_response ?r" by (intro small_text body_push_empty) (simp_all add: MAX_PIECE_def)
  moreover have "validate_route_path (ascii ''/plaintext'') = ok ()"
  proof (rule valid_route_pathI)
    show "hd (ascii ''/plaintext'') = 47" "ascii ''/plaintext'' \<noteq> []"
      "list_all (\<lambda>b. 32 < b \<and> b < 127 \<and> b \<noteq> 63 \<and> b \<noteq> 35) (ascii ''/plaintext'')" by code_simp+
  qed (simp add: U32_MAX_def)
  moreover have "ascii ''/plaintext'' \<notin> set (map fst (rt_routes builtin_router))" unfolding builtin_paths by code_simp
  moreover have "length (rt_routes builtin_router) = 5" using arg_cong [OF builtin_paths, of length] by simp
  ultimately show ?thesis using builtin_small by (simp add: small_router_def main_app_def router_route_def MAX_ROUTES_def)
qed

lemma small_digits: "n < 1000 \<Longrightarrow> 3 \<le> k \<Longrightarrow> decimal_digits n \<le> k"
  using decimal_digits_bound [of n 3] by simp

lemma status_digits: "decimal_digits 200 = 3" "decimal_digits 404 = 3" "decimal_digits 400 = 3" "decimal_digits 405 = 3"
  by code_simp+

lemmas app_parts = main_app_def builtin_router_def router_new_def router_route_def Let_def response_text_def response_json_def body_push_def
  body_literal_def body_path_def body_query_def body_request_bytes_def body_path_hash_def body_backend_def
  body_backend_variant_def body_defs status_new_def STATUS_OK_def STATUS_BAD_REQUEST_def STATUS_NOT_FOUND_def STATUS_METHOD_NOT_ALLOWED_def

lemma main_app_tail_free: "tail_free_router main_app"
  by (simp add: tail_free_router_def tail_free_def tail_free_segment_def app_parts HEADER_TAIL_def CRLF_def ascii_def)

lemma main_app_weight: "router_weight main_app \<le> 5000"
  by (simp add: router_weight_def route_weight_def response_weight_def string_weight_def segment_weight_def app_parts)

lemma main_app_words: "router_code_words main_app \<le> 1000"
  by (simp add: router_code_words_def response_words_def app_parts)

lemma main_app_fits: "fits_slot main_app 512"
  by (simp add: fits_slot_def response_maximum_def gpu_bound_def app_parts status_digits small_digits)

lemma main_app_servable: "gpu_servable main_app 512"
  using main_app_fits main_app_weight main_app_words by (simp add: gpu_servable_def MAX_TOTAL_BUFFER_BYTES_def)

section \<open>From connection to response\<close>

definition server_processor :: "server \<Rightarrow> processor" where
  "server_processor srv = wd_processor (b_processor (sv_batcher srv))"

lemma default_limits_limited: "default_limits adapter \<Longrightarrow> adapter_limited adapter"
  by (simp add: default_limits_def adapter_limited_def split: option.splits)

lemma serve_parts:
  assumes "serve host body adapter events config rt = ok srv"
  shows "create_processor_with_router body adapter (sc_backend config) (processor_limits_of config) rt = ok (server_processor srv)"
    "sv_backend srv = processor_name (server_processor srv)"
    "b_processor (sv_batcher srv) = worker_device_start (server_processor srv) events"
    "spawn_batcher (ho_queue_fits host) (ho_thread_spawns host) (batcher_config_of config) (b_processor (sv_batcher srv)) = ok (sv_batcher srv)"
    "server_config_validate config = Inr ()"
proof -
  obtain p b l where p: "create_processor_with_router body adapter (sc_backend config) (processor_limits_of config) rt = ok p"
    and b: "spawn_batcher (ho_queue_fits host) (ho_thread_spawns host) (batcher_config_of config) (worker_device_start p events) = ok b"
    and v: "server_config_validate config = Inr ()"
    and srv: "srv = \<lparr>sv_backend = processor_name p, sv_batcher = b, sv_listener = l\<rparr>"
    using assms by (auto simp: serve_def and_then_ok_iff Let_def) (auto simp: ok_def)
  have "b = batcher_start (worker_device_start p events)" using b by (simp add: spawn_batcher_ok)
  then show "create_processor_with_router body adapter (sc_backend config) (processor_limits_of config) rt = ok (server_processor srv)"
    "sv_backend srv = processor_name (server_processor srv)"
    "b_processor (sv_batcher srv) = worker_device_start (server_processor srv) events"
    "spawn_batcher (ho_queue_fits host) (ho_thread_spawns host) (batcher_config_of config) (b_processor (sv_batcher srv)) = ok (sv_batcher srv)"
    "server_config_validate config = Inr ()"
    using p b v by (simp_all add: srv server_processor_def batcher_start_def worker_device_start_def)
qed

lemma served_good:
  assumes srv: "serve host body adapter events config rt = ok srv" and lim: "default_limits adapter"
    and ev: "router_for (server_processor srv) rt" "\<forall>k i. i \<le> sc_batch_size config \<longrightarrow> device_serves (server_processor srv) i (events k i)"
  shows "device_good rt (sc_batch_size config) (sc_max_request_bytes config) (server_processor srv) (b_processor (sv_batcher srv))"
  using start_good [OF created_processor_ready [OF serve_parts(1) [OF srv] default_limits_limited [OF lim]] ev(1)] ev(2)
  by (simp add: serve_parts(3) [OF srv] processor_limits_of_def)

text \<open>C6: a connection of a started server that sends complete keep-alive requests within the request
  limit, pipelined and cut into nonempty reads in any way, and whose writes succeed, is answered with
  exactly \<open>processor_answer\<close> of its requests, in order, and closed cleanly. Other connections may submit
  accepted requests meanwhile, in any interleaving with it and the worker, as long as no submission of
  this connection is refused (\<open>schedules\<close>; a full queue would give the 503 response) and the batcher is
  open. \<open>processor_answer\<close> is the response of the declared router on the CPU, and on the GPU for requests
  whose first line has three parts. On the GPU the router is tail-free, every request submitted is within
  the limit, and the device completes every batch.\<close>

theorem server_answers_connection:
  assumes "serve host body adapter events config rt = ok srv" "default_limits adapter" "router_for (server_processor srv) rt"
    "\<forall>k i. i \<le> sc_batch_size config \<longrightarrow> device_serves (server_processor srv) i (events k i)"
    "schedules (batcher_config_of config) (device_process describe) (b_processor (sv_batcher srv))
       (accepted_by (server_processor srv) (sc_max_request_bytes config)) submit"
    "batcher_run (batcher_config_of config) (device_process describe) (b_processor (sv_batcher srv)) jobs b" "b_open b"
    "\<forall>job\<in>set jobs. accepted_by (server_processor srv) (sc_max_request_bytes config) (j_request job)"
    "\<forall>r\<in>set rs. complete_request (sc_max_request_bytes config) r \<and> \<not> connection_should_close r
       \<and> accepted_by (server_processor srv) (sc_max_request_bytes config) r"
    "[] \<notin> set chunks" "concat chunks = concat rs"
  shows "fst (handle_connection submit (\<lambda>_. True) (sc_max_request_bytes config) (map Data chunks) b)
    = (ShutDown, map (processor_answer (server_processor srv) rt) rs)
    \<and> (three_part_line req \<longrightarrow> processor_answer (server_processor srv) rt req = spec_route rt req (ascii (sv_backend srv)))"
proof -
  note good = served_good [OF assms(1-4)]
  have "0 < sc_max_request_bytes config" using validated_config(4) [OF serve_parts(5) [OF assms(1)]] by linarith
  with device.connection_answers [OF assms(5) good _ assms(6-9) _ assms(10,11)] show ?thesis
    using processor_answer_three by (simp add: serve_parts(2) [OF assms(1)] batcher_config_of_def)
qed

section \<open>A run of the binary\<close>

definition sample_adapter :: wgpu_adapter where
  "sample_adapter = \<lparr>ad_integrated = False, ad_mappable_primary_buffers = False, ad_compute_shaders = True, ad_device_granted = True,
     ad_max_binding = MAX_STORAGE_BINDING, ad_max_buffer = 2 * MAX_STORAGE_BINDING\<rparr>"

definition completing_events :: "nat \<Rightarrow> nat \<Rightarrow> gpu_events" where
  "completing_events k n = \<lparr>ev_order = dispatched n, ev_poll_ok = True, ev_first = Mapped, ev_second = Mapped,
     ev_first_range = True, ev_second_range = True\<rparr>"

lemma completing_serves: "device_serves p i (completing_events k i)"
  by (cases p) (simp_all add: device_serves_def device_completes_def device_runs_def maps_succeed_def completing_events_def dispatched_def)

lemma sample_default: "default_limits (Some sample_adapter)" "usable (Some sample_adapter)"
  by (simp_all add: default_limits_def usable_def sample_adapter_def)

text \<open>A host whose memory holds a channel of up to a million jobs and that listens on every address.\<close>

definition sample_host :: "nat host" where
  "sample_host = \<lparr>ho_queue_fits = (\<lambda>depth. depth \<le> 1000000), ho_thread_spawns = True, ho_listens = (\<lambda>addr. True)\<rparr>"

lemma sample_able: "able_host sample_host (default_server_config addr)"
  by (simp add: able_host_def sample_host_def default_server_config_def DEFAULT_QUEUE_DEPTH_def)

lemma default_connections: "sc_max_connections (default_server_config addr) \<le> MAX_PERMITS"
  by (simp add: default_server_config_def DEFAULT_MAX_CONNECTIONS_def MAX_PERMITS_def USIZE_MAX_def)

theorem server_starts_witness:
  "\<exists>srv. serve sample_host [] (Some sample_adapter) completing_events (default_server_config (0 :: nat)) main_app = ok srv
    \<and> sv_backend srv = ''gpu''"
proof -
  have "sc_response_slot_bytes (default_server_config (0 :: nat)) = 512" "sc_backend (default_server_config (0 :: nat)) = AutoBackend"
    by (simp_all add: default_server_config_def DEFAULT_RESPONSE_SLOT_BYTES_def)
  with server_starts [OF default_config_validates main_app_small _ sample_default(1) sample_able, of "0 :: nat" "[]" completing_events]
    main_app_servable default_connections [of "0 :: nat"]
  show ?thesis by (auto simp: backend_for_def sample_default(2))
qed

lemma main_server_runs:
  "\<exists>srv. serve sample_host [] (Some sample_adapter) completing_events (default_server_config (0 :: nat)) main_app = ok srv
    \<and> processor_name (server_processor srv) = ''gpu''"
proof -
  let ?c = "default_server_config (0 :: nat)"
  have "sc_backend ?c = CpuBackend \<or> gpu_servable main_app (sc_response_slot_bytes ?c)"
    using main_app_servable by (simp add: default_server_config_def DEFAULT_RESPONSE_SLOT_BYTES_def)
  from server_processor_created [OF default_config_validates main_app_small this _ sample_default(1), of "[]"]
  obtain p where p: "create_processor_with_router [] (Some sample_adapter) (sc_backend ?c) (processor_limits_of ?c) main_app = ok p"
    "processor_name p = ''gpu''" by (auto simp: backend_for_def sample_default(2) default_server_config_def)
  have "spawn_batcher (ho_queue_fits sample_host) (ho_thread_spawns sample_host) (batcher_config_of ?c) w = ok (batcher_start w)" for w :: worker_device
    by (simp add: spawn_batcher_ok batcher_config_of_def sample_host_def default_server_config_def DEFAULT_BATCH_SIZE_def DEFAULT_QUEUE_DEPTH_def)
  moreover have "network_start (ho_listens sample_host) (sc_bind ?c) (sc_max_connections ?c) = ok (Listening \<lparr>permits = sc_max_connections ?c, serving = 0\<rparr>)"
    using default_connections [of "0 :: nat"] by (simp add: network_start_def serve_start_def sample_host_def)
  moreover have "Some (server_config_validate ?c) = ok ()" using default_config_validates by (simp add: ok_def)
  ultimately show ?thesis
    by (simp add: serve_def p lift_error_simps server_processor_def batcher_start_def worker_device_start_def)
qed

lemma inspect_request_nonempty: "inspect_request \<noteq> []"
  by (simp add: inspect_request_def CRLF_def)

lemma inspect_three: "three_part_line inspect_request"
  by code_simp

lemma inspect_accepted:
  "complete_request 4096 inspect_request \<and> \<not> connection_should_close inspect_request \<and> accepted_by p 4096 inspect_request"
proof -
  have "complete_header_len inspect_request = Some (length inspect_request)" "\<not> connection_should_close inspect_request" by code_simp+
  moreover have "length inspect_request \<le> 4096" by (simp add: inspect_request_def CRLF_def)
  ultimately show ?thesis by (cases p) (simp_all add: complete_request_def accepted_by_def)
qed

text \<open>One client submits one request.\<close>

definition one_queued :: "'p \<Rightarrow> 'p batcher" where
  "one_queued p = snd (submit_job small_batches inspect_request (batcher_start p))"

lemma one_queued_run:
  "batcher_run small_batches process p [\<lparr>j_request = inspect_request, j_reply = 0\<rparr>] (one_queued p)"
proof -
  have "batcher_run small_batches process p [] (batcher_start p)"
    by (rule batcher_run.spawned [of "\<lambda>_. True" True]) (simp add: spawn_batcher_ok small_batches_def)
  from batcher_run.accepted [OF this, of inspect_request 0 "one_queued p"] show ?thesis
    by (simp add: submit_job_def batcher_start_def small_batches_def one_queued_def)
qed

theorem processor_replies_correct_witness:
  "\<exists>p. create_processor_with_router [] (Some sample_adapter) AutoBackend (processor_limits_of (default_server_config (0 :: nat))) main_app = ok p
    \<and> processor_name p = ''gpu''
    \<and> b_replies (drain small_batches (device_process (\<lambda>e. ''error'')) 20 (one_queued (worker_device_start p completing_events)))
      = [(0, Inr (spec_route main_app inspect_request (ascii ''gpu'')))]"
proof -
  let ?l = "processor_limits_of (default_server_config (0 :: nat))" and ?d = "device_process (\<lambda>e. ''error'')"
  obtain srv where srv: "serve sample_host [] (Some sample_adapter) completing_events (default_server_config (0 :: nat)) main_app = ok srv"
    and name: "processor_name (server_processor srv) = ''gpu''" using main_server_runs by blast
  let ?p = "server_processor srv"
  let ?w = "worker_device_start ?p completing_events"
  let ?b = "drain small_batches ?d 20 (one_queued ?w)"
  have p: "create_processor_with_router [] (Some sample_adapter) AutoBackend ?l main_app = ok ?p"
    using serve_parts(1) [OF srv] by (simp add: default_server_config_def)
  have rt: "router_for ?p main_app" by (cases ?p) (simp_all add: router_for_def main_app_tail_free)
  have l: "bc_max_batch_size small_batches \<le> pl_max_batch_size ?l" "pl_max_request_bytes ?l = 4096"
    by (simp_all add: small_batches_def processor_limits_of_def default_server_config_def DEFAULT_BATCH_SIZE_def DEFAULT_MAX_REQUEST_BYTES_def)
  note run = one_queued_run [of ?d ?w, THEN drain_runs, of 20]
  have serves: "\<forall>k i. i \<le> pl_max_batch_size ?l \<longrightarrow> device_serves ?p i (completing_events k i)"
    "\<forall>job\<in>set [\<lparr>j_request = inspect_request, j_reply = 0\<rparr>]. accepted_by ?p (pl_max_request_bytes ?l) (j_request job)"
    using inspect_accepted by (simp_all add: completing_serves l(2))
  from processor_replies_correct [OF p default_limits_limited [OF sample_default(1)] rt l(1) serves run, of inspect_request]
  have replies: "b_replies ?b = map (\<lambda>job. (j_reply job, Inr (processor_answer ?p main_app (j_request job))))
      (take (length (b_replies ?b)) [\<lparr>j_request = inspect_request, j_reply = 0\<rparr>])" and np: "b_worker ?b \<noteq> Panicked"
    and answer: "processor_answer ?p main_app inspect_request = spec_route main_app inspect_request (ascii ''gpu'')"
    using inspect_three unfolding name by blast+
  have "work (one_queued ?w) \<le> 20"
    by (simp add: work_def worker_weight_def one_queued_def submit_job_def batcher_start_def small_batches_def)
  from drained [OF one_queued_run this np] have "map fst (b_replies ?b) = [0]" by simp
  then have "length (b_replies ?b) = 1" by (metis length_map length_Cons list.size(3) One_nat_def)
  with replies have "b_replies ?b = [(0, Inr (spec_route main_app inspect_request (ascii ''gpu'')))]"
    using answer by simp
  with p name show ?thesis by blast
qed

theorem server_answers_connection_witness:
  "\<exists>srv. serve sample_host [] (Some sample_adapter) completing_events (default_server_config (0 :: nat)) main_app = ok srv
    \<and> fst (handle_connection (submit_alone (batcher_config_of (default_server_config (0 :: nat))) (device_process (\<lambda>e. ''error'')))
        (\<lambda>_. True) 4096 [Data (inspect_request @ inspect_request)] (sv_batcher srv))
      = (ShutDown, [spec_route main_app inspect_request (ascii ''gpu''), spec_route main_app inspect_request (ascii ''gpu'')])"
proof -
  let ?c = "default_server_config (0 :: nat)"
  obtain srv where srv: "serve sample_host [] (Some sample_adapter) completing_events ?c main_app = ok srv"
    and gpu: "processor_name (server_processor srv) = ''gpu''" using main_server_runs by blast
  have rt: "router_for (server_processor srv) main_app"
    by (cases "server_processor srv") (simp_all add: router_for_def main_app_tail_free)
  have ev: "\<forall>k i. i \<le> sc_batch_size ?c \<longrightarrow> device_serves (server_processor srv) i (completing_events k i)"
    by (simp add: completing_serves)
  have m: "sc_max_request_bytes ?c = 4096" by (simp add: default_server_config_def DEFAULT_MAX_REQUEST_BYTES_def)
  have "0 < bc_queue_depth (batcher_config_of ?c)" "bc_max_batch_size (batcher_config_of ?c) \<le> sc_batch_size ?c"
    by (simp_all add: batcher_config_of_def default_server_config_def DEFAULT_QUEUE_DEPTH_def)
  note alone = device.submit_alone_schedules [OF this(1) served_good [OF srv sample_default(1) rt ev] this(2)]
  have run: "batcher_run (batcher_config_of ?c) (device_process (\<lambda>e. ''error'')) (b_processor (sv_batcher srv)) [] (sv_batcher srv)"
    by (rule batcher_run.spawned [OF serve_parts(4) [OF srv]])
  have "sv_batcher srv = batcher_start (b_processor (sv_batcher srv))"
    using serve_parts(4) [OF srv] by (simp add: spawn_batcher_ok)
  from arg_cong [OF this, of b_open] have "b_open (sv_batcher srv)" by (simp add: batcher_start_def)
  from server_answers_connection [OF srv sample_default(1) rt ev alone run this, of "[inspect_request, inspect_request]" "[inspect_request @ inspect_request]" inspect_request]
  show ?thesis using srv gpu serve_parts(2) [OF srv] inspect_accepted inspect_request_nonempty inspect_three
    by (auto simp: m)
qed

end
