(* ===== verification/HttpGpuFailures.thy ===== *)
theory HttpGpuFailures
  imports Server
begin

text \<open>
  The GPU processor over many batches: batches that are refused, mappings that fail, and where the
  shader's request parser and the router's differ.
\<close>

section \<open>Refused batches\<close>





section \<open>Many batches\<close>






lemma with_router_ready:
  assumes "with_router body (Some ad) limits rt = ok g" "ad_max_binding ad \<le> MAX_STORAGE_BINDING"
  shows "http_gpu_ready rt g" "hg_max_batch_size g = pl_max_batch_size limits" "hg_max_request_bytes g = pl_max_request_bytes limits"
proof -
  obtain c where "compile rt = ok c" "from_compiled body (Some ad) limits c = ok g"
    using assms(1) by (auto simp: with_router_def and_then_ok_iff)
  from from_compiled_ready [OF this assms(2)]
  show "http_gpu_ready rt g" "hg_max_batch_size g = pl_max_batch_size limits" "hg_max_request_bytes g = pl_max_request_bytes limits" by auto
qed


text \<open>The combined path does not unmap the buffer when the mapped range cannot be read.\<close>

lemma readback_stays_mapped:
  assumes ready: "http_gpu_ready rt g" and n: "n \<le> hg_max_batch_size g" and path: "\<not> hg_direct_output_mapping g"
    and ev: "ev_first ev = Mapped" "\<not> ev_poll_ok ev \<or> \<not> ev_first_range ev"
  shows "read_responses ev g n (n * RESPONSE_META_BYTES) (n * hg_response_stride_words g * 4)
    = Some (g\<lparr>hg_readback_mapped := True\<rparr>, Inl (if ev_poll_ok ev then MappedRangeFailed else PollFailed))"
proof -
  have g: "buffers_sized g" "unmapped g" using ready by (simp_all add: http_gpu_ready_def)
  note r = readback_slices [OF g(1) n]
  show ?thesis using g(2) ev path r(4) [OF path]
    by (simp add: read_responses_def r(1-3) unmapped_def Let_def)
qed

lemma left_mapped:
  assumes ready: "http_gpu_ready rt g" and tail: "tail_free_router rt" and path: "\<not> hg_direct_output_mapping g"
    and reqs: "reqs \<noteq> []" "length reqs \<le> hg_max_batch_size g" "\<forall>r\<in>set reqs. acceptable g r"
    and ev: "device_runs ev (length reqs)" "ev_first ev = Mapped" "\<not> ev_poll_ok ev \<or> \<not> ev_first_range ev"
    and reqs': "reqs' \<noteq> []" "length reqs' \<le> hg_max_batch_size g" "\<forall>r\<in>set reqs'. acceptable g r"
  shows "\<exists>g'. process_gpu_batch ev g reqs = Some (g', Inl (if ev_poll_ok ev then MappedRangeFailed else PollFailed))
    \<and> process_gpu_batch ev' g' reqs' = None"
proof -
  from process_gpu_batch_dispatched [OF ready tail reqs(2,3,1) ev(1)] obtain g1 where
    run: "process_gpu_batch ev g reqs = read_responses ev g1 (length reqs) (length reqs * RESPONSE_META_BYTES)
      (length reqs * hg_response_stride_words g1 * 4)" and g1: "http_gpu_ready rt g1"
    and keep: "hg_max_batch_size g1 = hg_max_batch_size g" "hg_max_request_bytes g1 = hg_max_request_bytes g"
    "hg_direct_output_mapping g1 = hg_direct_output_mapping g" by blast
  let ?g = "g1\<lparr>hg_readback_mapped := True\<rparr>"
  have "process_gpu_batch ev g reqs = Some (?g, Inl (if ev_poll_ok ev then MappedRangeFailed else PollFailed))"
    unfolding run by (rule readback_stays_mapped [OF g1]) (use reqs(2) path ev(2,3) keep in simp_all)
  moreover have "process_gpu_batch ev' ?g reqs' = None"
  proof -
    have "buffers_sized ?g \<longleftrightarrow> buffers_sized g1" by (simp add: buffers_sized_def)
    then have "buffers_sized ?g" using g1 by (simp add: http_gpu_ready_def)
    moreover have "length reqs' \<le> hg_max_batch_size ?g" "\<forall>r\<in>set reqs'. acceptable ?g r"
      using reqs'(2,3) keep by (simp_all add: acceptable_def)
    ultimately show ?thesis using process_gpu_batch_uploads [of ?g reqs' ev'] reqs'(1) by simp
  qed
  ultimately show ?thesis by blast
qed

text \<open>C34: on the combined readback path, a mapped range that cannot be read is reported as an error but
  leaves the readback buffer mapped: the next nonempty batch within the limits panics when it is submitted.
  (Stated for the first batch of a processor created for a tail-free router.)\<close>

theorem readback_range_failure:
  assumes "with_router body (Some ad) limits rt = ok g" "ad_max_binding ad \<le> MAX_STORAGE_BINDING" "tail_free_router rt"
    "\<not> hg_direct_output_mapping g" "reqs \<noteq> []" "length reqs \<le> pl_max_batch_size limits"
    "\<forall>r\<in>set reqs. length r \<le> pl_max_request_bytes limits" "device_runs ev (length reqs)"
    "ev_poll_ok ev" "ev_first ev = Mapped" "\<not> ev_first_range ev"
    "reqs' \<noteq> []" "length reqs' \<le> pl_max_batch_size limits" "\<forall>r\<in>set reqs'. length r \<le> pl_max_request_bytes limits"
  shows "\<exists>g'. process_gpu_batch ev g reqs = Some (g', Inl MappedRangeFailed) \<and> process_gpu_batch ev' g' reqs' = None"
proof -
  note g = with_router_ready [OF assms(1,2)]
  have fit: "length reqs \<le> hg_max_batch_size g" "\<forall>r\<in>set reqs. acceptable g r"
    "length reqs' \<le> hg_max_batch_size g" "\<forall>r\<in>set reqs'. acceptable g r"
    using assms(6,7,13,14) g(2,3) by (simp_all add: acceptable_def)
  from left_mapped [OF g(1) assms(3,4,5) fit(1,2) assms(8,10) _ assms(12) fit(3,4)] assms(9,11) show ?thesis by simp
qed

text \<open>A poll that fails after the buffer was mapped has the same effect: its error is reported, and the
  next batch panics. This is the case the recovery of the processor excludes.\<close>

theorem poll_failure_panics:
  assumes "with_router body (Some ad) limits rt = ok g" "ad_max_binding ad \<le> MAX_STORAGE_BINDING" "tail_free_router rt"
    "\<not> hg_direct_output_mapping g" "reqs \<noteq> []" "length reqs \<le> pl_max_batch_size limits"
    "\<forall>r\<in>set reqs. length r \<le> pl_max_request_bytes limits" "device_runs ev (length reqs)"
    "\<not> ev_poll_ok ev" "ev_first ev = Mapped"
    "reqs' \<noteq> []" "length reqs' \<le> pl_max_batch_size limits" "\<forall>r\<in>set reqs'. length r \<le> pl_max_request_bytes limits"
  shows "\<exists>g'. process_gpu_batch ev g reqs = Some (g', Inl PollFailed) \<and> process_gpu_batch ev' g' reqs' = None"
proof -
  note g = with_router_ready [OF assms(1,2)]
  have fit: "length reqs \<le> hg_max_batch_size g" "\<forall>r\<in>set reqs. acceptable g r"
    "length reqs' \<le> hg_max_batch_size g" "\<forall>r\<in>set reqs'. acceptable g r"
    using assms(6,7,12,13) g(2,3) by (simp_all add: acceptable_def)
  from left_mapped [OF g(1) assms(3,4,5) fit(1,2) assms(8,10) _ assms(11) fit(3,4)] assms(9) show ?thesis by simp
qed

section \<open>Runs on the application of the binary\<close>

lemma main_gpu:
  obtains g where "with_router [] (Some sample_adapter) (processor_limits_of (default_server_config (0 :: nat))) main_app = ok g"
    "\<not> hg_direct_output_mapping g"
proof -
  let ?l = "processor_limits_of (default_server_config (0 :: nat))"
  have sized: "gpu_sized main_app ?l MAX_TOTAL_BUFFER_BYTES"
    using main_app_servable
    by (intro validated_gpu_sized [OF default_config_validates]) (simp_all add: gpu_servable_def default_server_config_def DEFAULT_RESPONSE_SLOT_BYTES_def)
  have "adapter_grants sample_adapter MAX_TOTAL_BUFFER_BYTES" "MAX_TOTAL_BUFFER_BYTES \<le> U32_MAX"
    by (simp_all add: adapter_grants_def sample_adapter_def MAX_TOTAL_BUFFER_BYTES_def MAX_STORAGE_BINDING_def U32_MAX_def)
  from with_router_total [OF main_app_small sized this(2,1), of "[]"] obtain g where g: "with_router [] (Some sample_adapter) ?l main_app = ok g" by blast
  have "\<not> hg_direct_output_mapping g"
    using g by (auto simp: with_router_def from_compiled_def and_then_ok_iff Let_def sample_adapter_def split: if_splits)
  with g that show thesis by blast
qed

lemma sample_limit: "ad_max_binding sample_adapter \<le> MAX_STORAGE_BINDING"
  by (simp add: sample_adapter_def)

definition events_with :: "nat \<Rightarrow> map_callback \<Rightarrow> bool \<Rightarrow> gpu_events" where
  "events_with n callback readable = \<lparr>ev_order = dispatched n, ev_poll_ok = True, ev_first = callback, ev_second = callback,
     ev_first_range = readable, ev_second_range = readable\<rparr>"

lemma events_with_run: "device_runs (events_with n c r) n"
  by (simp add: device_runs_def events_with_def dispatched_def)


theorem readback_range_failure_witness:
  "\<exists>g g'. process_gpu_batch (events_with 1 Mapped False) g [inspect_request] = Some (g', Inl MappedRangeFailed)
    \<and> process_gpu_batch (events_with 1 Mapped True) g' [inspect_request] = None"
proof -
  obtain g where g: "with_router [] (Some sample_adapter) (processor_limits_of (default_server_config (0 :: nat))) main_app = ok g"
    and path: "\<not> hg_direct_output_mapping g" by (rule main_gpu)
  let ?l = "processor_limits_of (default_server_config (0 :: nat))"
  have fit: "length [inspect_request] \<le> pl_max_batch_size ?l" "\<forall>r\<in>set [inspect_request]. length r \<le> pl_max_request_bytes ?l"
    using inspect_accepted [THEN conjunct1] by (simp_all add: processor_limits_of_def default_server_config_def DEFAULT_BATCH_SIZE_def DEFAULT_MAX_REQUEST_BYTES_def complete_request_def)
  have ev: "device_runs (events_with 1 Mapped False) (length [inspect_request])" "ev_poll_ok (events_with 1 Mapped False)"
    "ev_first (events_with 1 Mapped False) = Mapped" "\<not> ev_first_range (events_with 1 Mapped False)" and ne: "[inspect_request] \<noteq> []"
    using events_with_run [of 1] by (simp_all add: events_with_def)
  show ?thesis using readback_range_failure [OF g sample_limit main_app_tail_free path ne fit ev ne fit] by blast
qed

section \<open>The shader and the router's own parser\<close>

text \<open>C3: the compute shader implements the compiled router for every tail-free router, that is one with
  no body literal equal to the header end \<open>CRLF CRLF\<close> (the arena bug changes the answers of the others).
  For a processor created on an adapter whose binding limit is at most the default one, a batch within
  the batch limit, of requests within the request limit whose first line has three parts, on a device
  that completes its work (every invocation of the dispatch runs once, in any order, polling and mapping
  succeed), the GPU processor returns, byte for byte, what \<open>CompiledRouter::route_request\<close> returns for
  the backend name gpu.\<close>

theorem gpu_equals_compiled_router:
  assumes "compile rt = ok c" "from_compiled body (Some ad) limits c = ok g" "ad_max_binding ad \<le> MAX_STORAGE_BINDING" "tail_free_router rt"
    "length reqs \<le> pl_max_batch_size limits" "\<forall>r\<in>set reqs. length r \<le> pl_max_request_bytes limits \<and> three_part_line r"
    "device_completes ev (hg_direct_output_mapping g) (length reqs)"
  shows "\<exists>g' rs. process_gpu_batch ev g reqs = Some (g', Inr rs) \<and> map (\<lambda>req. route_request c req (ascii ''gpu'')) reqs = map Some rs"
proof -
  from from_compiled_ready [OF assms(1-3)] have g: "http_gpu_ready rt g" "hg_max_batch_size g = pl_max_batch_size limits"
    "hg_max_request_bytes g = pl_max_request_bytes limits" by auto
  have "length reqs \<le> hg_max_batch_size g" "\<forall>r\<in>set reqs. acceptable g r" using assms(5,6) g by (simp_all add: acceptable_def)
  from process_gpu_batch_answers [OF g(1) assms(4) this assms(7)] obtain g' where
    "process_gpu_batch ev g reqs = Some (g', Inr (map (gpu_route rt) reqs))" by blast
  moreover have "map (\<lambda>req. route_request c req (ascii ''gpu'')) reqs = map Some (map (gpu_route rt) reqs)"
    using assms(6) by (simp add: route_request_closed [OF assms(1)] gpu_route_three)
  ultimately show ?thesis by blast
qed

definition post_request :: bytes where
  "post_request = ascii ''POST /'' @ CRLF @ CRLF"

definition folded_request :: bytes where
  "folded_request = ascii ''GET /hello'' @ CRLF @ ascii ''X: HTTP/1.1'' @ CRLF @ CRLF"

text \<open>The path the shader reads in \<open>folded_request\<close>: it ends at the second space of the request.\<close>

definition folded_path :: bytes where
  "folded_path = ascii ''/hello'' @ CRLF @ ascii ''X:''"

definition folded_parts :: request_parts where
  "folded_parts = \<lparr>q_path = folded_path, q_query = [], q_path_hash = fnv1a folded_path\<rparr>"

lemma divergent_parses:
  "gpu_parse_request post_request = ParsedMethodNotAllowed" "parse_request post_request = ParsedBadRequest"
  "parse_request folded_request = ParsedBadRequest"
  by code_simp+

lemma folded_parse: "gpu_parse_request folded_request = Get folded_parts"
proof -
  have "case gpu_parse_request folded_request of
      Get p \<Rightarrow> q_path p = folded_path \<and> q_query p = [] \<and> q_path_hash p = fnv1a folded_path | _ \<Rightarrow> False"
    by code_simp
  then show ?thesis by (auto simp: folded_parts_def split: request_parse.splits)
qed

lemma divergent_statuses:
  "take 12 (answer_parsed main_app ParsedMethodNotAllowed (length post_request) (ascii ''gpu'')) = ascii ''HTTP/1.1 405''"
  "take 12 (answer_parsed main_app (Get folded_parts) (length folded_request) (ascii ''gpu'')) = ascii ''HTTP/1.1 404''"
  "take 12 (answer_parsed main_app ParsedBadRequest (length post_request) (ascii ''gpu'')) = ascii ''HTTP/1.1 400''"
  "take 12 (answer_parsed main_app ParsedBadRequest (length folded_request) (ascii ''gpu'')) = ascii ''HTTP/1.1 400''"
  by code_simp+

lemma main_compiled_gpu:
  obtains c g where "compile main_app = ok c"
    "from_compiled [] (Some sample_adapter) (processor_limits_of (default_server_config (0 :: nat))) c = ok g" "\<not> hg_direct_output_mapping g"
proof -
  obtain g where g: "with_router [] (Some sample_adapter) (processor_limits_of (default_server_config (0 :: nat))) main_app = ok g"
    and path: "\<not> hg_direct_output_mapping g" by (rule main_gpu)
  from g obtain c where "compile main_app = ok c"
    "from_compiled [] (Some sample_adapter) (processor_limits_of (default_server_config (0 :: nat))) c = ok g"
    by (auto simp: with_router_def and_then_ok_iff)
  then show thesis using path that by blast
qed

lemma default_batch_limits:
  "pl_max_batch_size (processor_limits_of (default_server_config (0 :: nat))) = 256"
  "pl_max_request_bytes (processor_limits_of (default_server_config (0 :: nat))) = 4096"
  by (simp_all add: processor_limits_of_def default_server_config_def DEFAULT_BATCH_SIZE_def DEFAULT_MAX_REQUEST_BYTES_def)

lemma events_with_complete: "\<not> direct \<Longrightarrow> device_completes (events_with n Mapped True) direct n"
  using events_with_run [of n] by (simp add: device_completes_def maps_succeed_def) (simp add: events_with_def)

theorem gpu_equals_compiled_router_witness:
  "\<exists>c g g' r. compile main_app = ok c \<and> process_gpu_batch (events_with 1 Mapped True) g [inspect_request] = Some (g', Inr [r])
    \<and> route_request c inspect_request (ascii ''gpu'') = Some r"
proof -
  let ?l = "processor_limits_of (default_server_config (0 :: nat))"
  obtain c g where c: "compile main_app = ok c" and g: "from_compiled [] (Some sample_adapter) ?l c = ok g"
    and path: "\<not> hg_direct_output_mapping g" by (rule main_compiled_gpu)
  have fit: "length [inspect_request] \<le> pl_max_batch_size ?l"
    "\<forall>r\<in>set [inspect_request]. length r \<le> pl_max_request_bytes ?l \<and> three_part_line r"
    using inspect_accepted [THEN conjunct1] inspect_three by (simp_all add: default_batch_limits complete_request_def)
  have "device_completes (events_with 1 Mapped True) (hg_direct_output_mapping g) (length [inspect_request])"
    using events_with_complete [OF path, of 1] by simp
  from gpu_equals_compiled_router [OF c g sample_limit main_app_tail_free fit this] obtain g' rs where
    rs: "process_gpu_batch (events_with 1 Mapped True) g [inspect_request] = Some (g', Inr rs)"
    "map (\<lambda>req. route_request c req (ascii ''gpu'')) [inspect_request] = map Some rs" by blast
  then obtain r where "rs = [r]" "route_request c inspect_request (ascii ''gpu'') = Some r" by (cases rs) auto
  then show ?thesis using c rs(1) by blast
qed

text \<open>C35: where the parsers differ, shown for the router of the binary on a GPU that completes its
  work. \<open>POST /\<close>, a request line of two parts with another method, is a bad request (400) for the
  compiled router and a method that is not allowed (405) for the shader. In a request whose first line is
  \<open>GET /hello\<close> and whose next line is \<open>X: HTTP/1.1\<close> the shader takes everything up to the second space,
  \<open>/hello\<close>, the line break and \<open>X:\<close>, as the path, finds no route for it and answers 404, while the
  compiled router answers 400.\<close>

theorem parsers_diverge:
  "\<exists>c g g' a b a' b'. compile main_app = ok c
    \<and> from_compiled [] (Some sample_adapter) (processor_limits_of (default_server_config (0 :: nat))) c = ok g
    \<and> process_gpu_batch (events_with 2 Mapped True) g [post_request, folded_request] = Some (g', Inr [a, b])
    \<and> a = answer_parsed main_app ParsedMethodNotAllowed (length post_request) (ascii ''gpu'')
    \<and> b = answer_parsed main_app (Get \<lparr>q_path = ascii ''/hello'' @ CRLF @ ascii ''X:'', q_query = [],
        q_path_hash = fnv1a (ascii ''/hello'' @ CRLF @ ascii ''X:'')\<rparr>) (length folded_request) (ascii ''gpu'')
    \<and> route_request c post_request (ascii ''gpu'') = Some a'
    \<and> route_request c folded_request (ascii ''gpu'') = Some b'
    \<and> a' = answer_parsed main_app ParsedBadRequest (length post_request) (ascii ''gpu'')
    \<and> b' = answer_parsed main_app ParsedBadRequest (length folded_request) (ascii ''gpu'')
    \<and> take 12 a = ascii ''HTTP/1.1 405'' \<and> take 12 b = ascii ''HTTP/1.1 404''
    \<and> take 12 a' = ascii ''HTTP/1.1 400'' \<and> take 12 b' = ascii ''HTTP/1.1 400''"
proof -
  let ?l = "processor_limits_of (default_server_config (0 :: nat))" and ?reqs = "[post_request, folded_request]"
  obtain c g where c: "compile main_app = ok c" and g: "from_compiled [] (Some sample_adapter) ?l c = ok g"
    and path: "\<not> hg_direct_output_mapping g" by (rule main_compiled_gpu)
  from from_compiled_ready [OF c g sample_limit] have ready: "http_gpu_ready main_app g" "hg_max_batch_size g = 256"
    "hg_max_request_bytes g = 4096" by (simp_all add: default_batch_limits)
  have fit: "length ?reqs \<le> hg_max_batch_size g" "\<forall>r\<in>set ?reqs. acceptable g r"
    by (simp_all add: ready acceptable_def post_request_def folded_request_def CRLF_def)
  have "device_completes (events_with 2 Mapped True) (hg_direct_output_mapping g) (length ?reqs)"
    using events_with_complete [OF path, of 2] by (simp flip: numeral_2_eq_2)
  from process_gpu_batch_answers [OF ready(1) main_app_tail_free fit this] obtain g' where
    g': "process_gpu_batch (events_with 2 Mapped True) g ?reqs = Some (g', Inr (map (gpu_route main_app) ?reqs))" by blast
  have "gpu_route main_app post_request = answer_parsed main_app ParsedMethodNotAllowed (length post_request) (ascii ''gpu'')"
    "gpu_route main_app folded_request = answer_parsed main_app (Get folded_parts) (length folded_request) (ascii ''gpu'')"
    by (simp_all only: gpu_route_def divergent_parses(1) folded_parse)
  moreover have "route_request c post_request (ascii ''gpu'') = Some (answer_parsed main_app ParsedBadRequest (length post_request) (ascii ''gpu''))"
    "route_request c folded_request (ascii ''gpu'') = Some (answer_parsed main_app ParsedBadRequest (length folded_request) (ascii ''gpu''))"
    by (simp_all add: route_request_closed [OF c] spec_route_answer divergent_parses(2,3))
  ultimately show ?thesis using c g g' divergent_statuses unfolding folded_parts_def folded_path_def by auto
qed

text \<open>The string arena of the application.\<close>

theorem arena_roundtrip_witness:
  "\<exists>c a. compile main_app = ok c \<and> build_shader_assets [] c = ok a \<and> map (unpack_string a) (sa_metadata a) = arena_strings c"
proof -
  obtain c where c: "compile main_app = ok c" using compile_succeeds [OF main_app_small] by blast
  have "300 + router_weight main_app \<le> U32_MAX" using main_app_weight by (simp add: U32_MAX_def)
  from build_shader_assets_total [OF c this, of "[]"] obtain a where a: "build_shader_assets [] c = ok a" by blast
  from arena_roundtrip [OF a] c a show ?thesis by blast
qed

end
