(* ===== verification/Doctor.thy ===== *)
theory Doctor
  imports PacketDemo HttpGpuFailures
begin

text \<open>
  \<open>src/bin/gput-doctor.rs\<close>: the two checks of a machine and the verdict. \<open>doctor_verdict\<close>: on a working adapter both
  checks pass, so that the doctor fails exactly when it was told to want a hardware adapter and has a software one.
\<close>

section \<open>Failed checks\<close>

datatype doctor_error = HttpCheckGpu http_gpu_error | PacketCheckEngine client_run_error | DoctorCheck client_error

definition doctor_limits :: processor_limits where
  "doctor_limits = \<lparr>pl_max_batch_size = 4, pl_max_request_bytes = 1024, pl_response_slot_bytes = 512\<rparr>"

definition doctor_http_request :: bytes where
  "doctor_http_request = ascii ''GET /health HTTP/1.1'' @ crlf @ ascii ''Host: doctor'' @ crlf @ ascii ''Connection: close'' @ crlf @ crlf"

text \<open>\<open>contains_bytes\<close>.\<close>

definition contains_bytes :: "bytes \<Rightarrow> bytes \<Rightarrow> bool" where
  "contains_bytes haystack needle = has_window needle haystack"

section \<open>The HTTP shader\<close>

definition http_reply_checked :: "bytes list \<Rightarrow> (client_error, unit) outcome" where
  "http_reply_checked responses =
     and_then (ensure (length responses = 1) ''GPU returned the wrong response count'') (\<lambda>_.
     and_then (or_panic (if responses = [] then None else Some (last responses))) (\<lambda>response.
     and_then (ensure (has_prefix (ascii ''HTTP/1.1 200 OK'' @ crlf) response) ''GPU HTTP response did not return 200'') (\<lambda>_.
     and_then (ensure (contains_bytes response (ascii ''X-Gput-Backend: gpu'' @ crlf)) ''GPU HTTP response did not identify the real backend'') (\<lambda>_.
     ensure (has_suffix (crlf @ crlf @ ascii ''ok'' @ [10]) response) ''GPU HTTP response body was not health output''))))"

definition check_http_shader :: "bytes \<Rightarrow> wgpu_adapter option \<Rightarrow> gpu_events \<Rightarrow> (doctor_error, unit) outcome" where
  "check_http_shader shader_body adapter ev =
     and_then (lift_error HttpCheckGpu (gpu_processor_new shader_body adapter doctor_limits)) (\<lambda>processor.
     and_then (lift_error HttpCheckGpu (map_option snd (process_gpu_batch ev processor [doctor_http_request]))) (\<lambda>responses.
     lift_error DoctorCheck (http_reply_checked responses)))"

section \<open>The packet shader\<close>

definition DOCTOR_PORT :: u16 where "DOCTOR_PORT = 18089"
definition CLIENT_ISN_DOCTOR :: u32 where "CLIENT_ISN_DOCTOR = 0x12345678"

definition doctor_config :: packet_engine_config where
  "doctor_config = \<lparr>max_batch_size = 8, flow_capacity = 64, flow_probe_limit = 32, listen_port = DOCTOR_PORT\<rparr>"

definition doctor_key :: flow_key where
  "doctor_key = \<lparr>src_ip = 0x0a4d0002, dst_ip = 0x0a4d0001, src_port = 50001, dst_port = DOCTOR_PORT\<rparr>"

definition doctor_packet_request :: bytes where
  "doctor_packet_request = ascii ''GET /health HTTP/1.1'' @ crlf @ ascii ''Host: doctor'' @ crlf @ crlf"

definition doctor_session :: "unit session" where
  "doctor_session =
     andthen (lift (built_packet doctor_key CLIENT_ISN_DOCTOR 0 TCP_SYN [])) (\<lambda>syn.
     andthen (one_output syn ''SYN'') (\<lambda>syn_ack.
     andthen (lift (checksums_valid syn_ack)) (\<lambda>_.
     andthen (lift (parsed syn_ack ''SYN-ACK did not parse'')) (\<lambda>syn_tcp.
     andthen (lift (ensure (v_flags syn_tcp = TCP_SYN OR TCP_ACK) ''packet shader did not produce SYN-ACK'')) (\<lambda>_.
     andthen (lift (ensure (v_ack syn_tcp = CLIENT_ISN_DOCTOR + 1) ''packet shader acknowledged the wrong SYN sequence'')) (\<lambda>_.
     let first_byte = CLIENT_ISN_DOCTOR + 1; server_byte = v_seq syn_tcp + 1 in
     andthen (lift (built_packet doctor_key first_byte server_byte TCP_ACK [])) (\<lambda>ack.
     andthen (batch [ack]) (\<lambda>outs.
     andthen (lift (ensure (outs = [None]) ''pure handshake ACK unexpectedly emitted a packet'')) (\<lambda>_.
     let request = doctor_packet_request in
     andthen (lift (built_packet doctor_key first_byte server_byte (TCP_ACK OR TCP_PSH) request)) (\<lambda>get.
     andthen (one_output get ''GET /health'') (\<lambda>response.
     andthen (lift (checksums_valid response)) (\<lambda>_.
     andthen (lift (parsed response ''packet response did not parse'')) (\<lambda>tcp.
     andthen (lift (ensure (v_ack tcp = first_byte + of_nat (length request)) ''packet response acknowledged the wrong request sequence'')) (\<lambda>_.
     andthen (lift (ensure (has_prefix (ascii ''HTTP/1.1 200 OK'' @ crlf) (v_payload tcp)) ''packet response did not return 200'')) (\<lambda>_.
     andthen (lift (ensure (has_suffix (crlf @ crlf @ ascii ''ok'' @ [10]) (v_payload tcp)) ''packet response body was not health output'')) (\<lambda>_.
     lift (ensure (contains_bytes (v_payload tcp) (ascii ''X-Gput-Backend: gpu-packet'' @ crlf)) ''packet response did not identify the GPU packet backend'')
     ))))))))))))))))"

definition check_packet_shader :: "bytes \<Rightarrow> wgpu_adapter option \<Rightarrow> (nat \<Rightarrow> wave_events) \<Rightarrow> (doctor_error, unit) outcome" where
  "check_packet_shader shader_body adapter events =
     lift_error PacketCheckEngine (session_on (new_gpu_engine shader_body adapter events doctor_config) doctor_session)"

section \<open>The verdict\<close>

definition organ :: "string \<Rightarrow> (doctor_error, unit) outcome \<Rightarrow> string list option" where
  "organ name m = map_option (\<lambda>r. case r of Inl _ \<Rightarrow> [name] | Inr _ \<Rightarrow> []) m"

text \<open>\<open>software\<close>: the adapter calls itself a CPU. The names of the failed checks are the error.\<close>

definition doctor_main :: "bytes \<Rightarrow> bytes \<Rightarrow> wgpu_adapter option \<Rightarrow> bool \<Rightarrow> gpu_events \<Rightarrow> (nat \<Rightarrow> wave_events) \<Rightarrow> bool
    \<Rightarrow> (string list, unit) outcome" where
  "doctor_main http_body packet_body adapter software ev events require_hardware_gpu = do {
     http \<leftarrow> organ ''HTTP compute'' (check_http_shader http_body adapter ev);
     packet \<leftarrow> organ ''packet compute'' (check_packet_shader packet_body adapter events);
     let failures = (if adapter = None then [''adapter discovery''] else []) @ http @ packet
       @ (if require_hardware_gpu \<and> adapter \<noteq> None \<and> software then [''hardware GPU requirement''] else []);
     if failures \<noteq> [] then fail failures else ok () }"

section \<open>The HTTP check passes\<close>

lemma lift_error_values: "lift_error f (ok x) = ok x" "lift_error f (Some (Inr x)) = ok x" "lift_error f (fail e) = fail (f e)"
  by (simp_all add: lift_error_def ok_def fail_def)

lemma builtin_tail_free: "tail_free_router builtin_router"
  by (simp add: tail_free_router_def tail_free_def tail_free_segment_def app_parts HEADER_TAIL_def CRLF_def ascii_def)

lemma builtin_sizes: "router_weight builtin_router \<le> 5000" "router_code_words builtin_router \<le> 1000" "fits_slot builtin_router 512"
  by (simp_all add: router_weight_def route_weight_def response_weight_def string_weight_def segment_weight_def router_code_words_def
      response_words_def fits_slot_def response_maximum_def gpu_bound_def app_parts status_digits small_digits)

lemma doctor_sized: "gpu_sized builtin_router doctor_limits MAX_STORAGE_BINDING"
  using builtin_sizes by (simp add: gpu_sized_def doctor_limits_def MAX_STORAGE_BINDING_def USIZE_MAX_def)

lemma doctor_request_three: "three_part_line doctor_http_request"
  by code_simp

lemma doctor_request_parsed: "case parse_request doctor_http_request of Get parts \<Rightarrow> q_path parts = ascii ''/health'' | _ \<Rightarrow> False"
  by code_simp

lemma health_route: "map_of (rt_routes builtin_router) (ascii ''/health'') = Some (response_text (body_push [] HEALTH_BODY))"
  by (simp add: builtin_router_def router_new_def router_route_def Let_def ascii_def)

lemma has_prefix_append [simp]: "has_prefix p (p @ xs)"
  by (simp add: has_prefix_def)

lemma health_answer_checked: "http_reply_checked [gpu_route builtin_router doctor_http_request] = ok ()"
proof -
  obtain parts where parts: "parse_request doctor_http_request = Get parts" "q_path parts = ascii ''/health''"
    using doctor_request_parsed by (auto split: request_parse.splits)
  have "gpu_route builtin_router doctor_http_request
      = response_bytes (response_text (body_push [] HEALTH_BODY)) parts (length doctor_http_request) (ascii ''gpu'')"
    by (simp add: gpu_route_three [OF doctor_request_three] spec_route_def parts health_route)
  moreover have "body_bytes (body_push [] HEALTH_BODY) parts n backend = HEALTH_BODY" for n backend
    by (simp add: body_push_def body_literal_def body_bytes_def segment_bytes_def HEALTH_BODY_def newline_def ascii_def)
  moreover have "decimal 200 = ascii ''200''" by code_simp
  ultimately obtain mid where answer: "gpu_route builtin_router doctor_http_request
      = (ascii ''HTTP/1.1 200 OK'' @ crlf) @ mid @ (ascii ''X-Gput-Backend: gpu'' @ crlf) @ (crlf @ ascii ''ok'' @ [10])"
    by (simp add: response_bytes_def build_response_def response_text_def STATUS_OK_def status_new_def Let_def HEALTH_BODY_def newline_def CRLF_def crlf_def ascii_def)
  let ?r = "gpu_route builtin_router doctor_http_request"
  have "has_prefix (ascii ''HTTP/1.1 200 OK'' @ crlf) ?r" unfolding answer by (rule has_prefix_append)
  moreover have "contains_bytes ?r (ascii ''X-Gput-Backend: gpu'' @ crlf)"
    unfolding contains_bytes_def answer append_assoc [symmetric, of "ascii ''HTTP/1.1 200 OK'' @ crlf" mid] by (rule has_windowI)
  moreover have "has_suffix (crlf @ crlf @ ascii ''ok'' @ [10]) ?r" unfolding has_suffix_iff answer by (metis append_assoc)
  ultimately show ?thesis by (simp add: http_reply_checked_def)
qed

lemma http_check_passes:
  assumes "capable ad" "default_limits (Some ad)" "\<forall>direct. device_completes ev direct 1"
  shows "check_http_shader shader_body (Some ad) ev = ok ()"
proof -
  have grants: "adapter_grants ad MAX_STORAGE_BINDING" and binding: "ad_max_binding ad \<le> MAX_STORAGE_BINDING"
    using assms(1,2) by (simp_all add: adapter_grants_def capable_def default_limits_def)
  have "MAX_STORAGE_BINDING \<le> U32_MAX" by (simp add: MAX_STORAGE_BINDING_def U32_MAX_def)
  then obtain g where g: "with_router shader_body (Some ad) doctor_limits builtin_router = ok g"
    using with_router_total [OF builtin_small doctor_sized _ grants] by blast
  note ready = with_router_ready [OF g binding]
  have fit: "length [doctor_http_request] \<le> hg_max_batch_size g" "\<forall>r\<in>set [doctor_http_request]. acceptable g r"
    by (simp_all add: acceptable_def ready(2,3) doctor_limits_def doctor_http_request_def crlf_def)
  have "device_completes ev (hg_direct_output_mapping g) (length [doctor_http_request])" using assms(3) by simp
  from process_gpu_batch_answers [OF ready(1) builtin_tail_free fit this] obtain g' where
    "process_gpu_batch ev g [doctor_http_request] = Some (g', Inr [gpu_route builtin_router doctor_http_request])" by auto
  then show ?thesis using health_answer_checked
    by (simp add: check_http_shader_def gpu_processor_new_def g lift_error_values)
qed

section \<open>The packet check passes\<close>

lemma doctor_packet_class: "doctor_packet_request \<noteq> []" "length doctor_packet_request \<le> 1496" "classify_http_request doctor_packet_request = RESPONSE_HEALTH"
proof -
  show "doctor_packet_request \<noteq> []" "length doctor_packet_request \<le> 1496" by (simp_all add: doctor_packet_request_def ascii_def crlf_def)
  show "classify_http_request doctor_packet_request = RESPONSE_HEALTH" unfolding doctor_packet_request_def by (rule literal_classes(2))
qed

lemma gpu_health_text:
  "has_prefix (ascii ''HTTP/1.1 200 OK'' @ crlf) (packet_response RESPONSE_HEALTH)"
  "has_suffix (crlf @ crlf @ ascii ''ok'' @ [10]) (packet_response RESPONSE_HEALTH)"
  "contains_bytes (packet_response RESPONSE_HEALTH) (ascii ''X-Gput-Backend: gpu-packet'' @ crlf)"
proof -
  have one: "(1 :: nat) < 5" by simp
  have "unat RESPONSE_HEALTH = 1" by (simp add: response_id_defs)
  then have entry: "packet_response RESPONSE_HEALTH = PACKET_RESPONSES ! 1" by (simp add: packet_response_def)
  have parts: "packet_response RESPONSE_HEALTH = (ascii ''HTTP/1.1 200 OK'' @ crlf)
      @ (ascii ''Content-Type: text/plain'' @ crlf @ ascii ''Content-Length: 3'' @ crlf @ ascii ''Connection: keep-alive'' @ crlf)
      @ (ascii ''X-Gput-Backend: gpu-packet'' @ crlf) @ (crlf @ ascii ''ok'' @ [10])"
    unfolding entry packet_response_parts [OF one] by (simp add: response_head_def response_texts_def content_lengths_def backend_header)
  show "has_prefix (ascii ''HTTP/1.1 200 OK'' @ crlf) (packet_response RESPONSE_HEALTH)" unfolding parts by (rule has_prefix_append)
  show "has_suffix (crlf @ crlf @ ascii ''ok'' @ [10]) (packet_response RESPONSE_HEALTH)" unfolding has_suffix_iff parts by (metis append_assoc)
  show "contains_bytes (packet_response RESPONSE_HEALTH) (ascii ''X-Gput-Backend: gpu-packet'' @ crlf)"
    unfolding contains_bytes_def parts by (metis has_windowI append_assoc)
qed

context packet_service begin

lemma doctor_session_ok:
  assumes "ready eng" "doctor_key \<in> K" "engine_connections eng doctor_key = None" "respond RESPONSE_HEALTH = packet_response RESPONSE_HEALTH"
  obtains eng' where "doctor_session eng = Some (eng', Inr ())"
proof -
  let ?isn = "CLIENT_ISN_DOCTOR" and ?s = "isn doctor_key + 1" and ?req = "doctor_packet_request"
  let ?q = "reply doctor_key ?s (?isn + 1 + of_nat (length ?req)) (TCP_ACK OR TCP_PSH) (respond RESPONSE_HEALTH)"
  have nil: "length ([] :: bytes) \<le> 1496" by simp
  obtain e1 where e1: "one_output (client_packet doctor_key ?isn 0 TCP_SYN []) ''SYN'' eng
      = Some (e1, Inr (reply doctor_key (isn doctor_key) (?isn + 1) (TCP_SYN OR TCP_ACK) []))" "ready e1"
    "engine_connections e1 = (engine_connections eng)(doctor_key := Some (new_flow (?isn + 1) (isn doctor_key)))"
    by (rule one_output_one [OF assms(1,2) nil opens [OF assms(2)]]) (use assms(3) in auto)
  have at: "engine_connections e1 doctor_key = Some (new_flow (?isn + 1) (isn doctor_key))" using e1(3) by simp
  obtain fo where fo: "step doctor_key (engine_connections e1 doctor_key) (client_packet doctor_key (?isn + 1) ?s TCP_ACK []) = (fo, None)"
    "live_at_seq fo (?isn + 1) ?s" using establishes [OF assms(2), of "?isn + 1"] unfolding at by blast
  obtain e2 where e2: "batch [client_packet doctor_key (?isn + 1) ?s TCP_ACK []] e1 = Some (e2, Inr [None])" "ready e2"
    "engine_connections e2 = (engine_connections e1)(doctor_key := fo)" by (rule batch_one [OF e1(2) assms(2) nil fo(1)])
  have live: "live_at_seq (engine_connections e2 doctor_key) (?isn + 1) ?s" using e2(3) fo(2) by simp
  obtain f2 where f2: "step doctor_key (engine_connections e2 doctor_key) (client_packet doctor_key (?isn + 1) ?s (TCP_ACK OR TCP_PSH) ?req) = (f2, Some ?q)"
    using responds [OF assms(2) live doctor_packet_class(1,2), of ?s] unfolding doctor_packet_class(3) by blast
  obtain e3 where e3: "one_output (client_packet doctor_key (?isn + 1) ?s (TCP_ACK OR TCP_PSH) ?req) ''GET /health'' e2 = Some (e3, Inr ?q)"
    by (rule one_output_one [OF e2(2) assms(2) doctor_packet_class(2) f2])
  have "length (respond RESPONSE_HEALTH) \<le> 1496" using short [of RESPONSE_HEALTH] by simp
  then have "doctor_session eng = Some (e3, Inr ())"
    using gpu_health_text doctor_packet_class(2) unfolding assms(4) [symmetric]
    by (simp add: doctor_session_def andthen_one [OF e1(1)] andthen_batch [OF e2(1)] Let_def andthen_one [OF e3])
  then show thesis by (rule that)
qed

end

lemma packet_check_passes:
  assumes "capable ad" "\<forall>w. wave_completes (events w)"
  shows "check_packet_shader shader_body (Some ad) events = ok ()"
proof -
  have "(64 :: nat) = 2 ^ 6" by simp
  then have valid: "valid_config doctor_config" unfolding valid_config_def doctor_config_def by (auto simp: U32_MAX_def simp del: power_numeral)
  have "probe_room 64 32 {doctor_key}" by (rule probe_room_few) simp_all
  then have "room_for doctor_config {doctor_key}" using valid by (simp add: room_for_def MAX_STORAGE_BINDING_def) (simp add: doctor_config_def)
  from creation_ready [OF this assms, of shader_body] obtain gpu where gpu: "gpu_packet_engine_new shader_body (Some ad) events doctor_config = ok gpu"
    "packet_engine_ready doctor_config {doctor_key} gpu" "connections_of (ge_device_state gpu) = Map.empty" by blast
  have keys: "doctor_key \<in> listening_keys doctor_config {doctor_key}" by (simp add: listening_keys_def doctor_key_def doctor_config_def)
  have "gpu_ready doctor_config {doctor_key} (GpuPacketEngine gpu)" using gpu(2) by (simp add: gpu_ready_def)
  then obtain eng' where run: "doctor_session (GpuPacketEngine gpu) = Some (eng', Inr ())"
    by (rule gpu_client.doctor_session_ok [OF _ keys]) (simp_all add: gpu(3))
  have "session_on (ok (GpuPacketEngine gpu)) doctor_session = ok ()" by (rule session_on_ok) (rule run)
  then show ?thesis by (simp add: check_packet_shader_def new_gpu_engine_def gpu(1) lift_error_values)
qed

text \<open>The verdict of the doctor. It never reports a failed check on a capable adapter with the default limits whose device completes its
  work: the HTTP shader answers the health request, the packet shader a whole handshake and request; then it fails exactly if a hardware
  GPU is required and the adapter calls itself a CPU. Without an adapter all three organs are reported.\<close>

theorem doctor_verdict:
  assumes "\<forall>direct. device_completes ev direct 1" "\<forall>w. wave_completes (events w)"
  shows "(\<forall>ad. adapter = Some ad \<and> capable ad \<and> default_limits adapter \<longrightarrow> doctor_main http_body packet_body adapter software ev events require =
        (if require \<and> software then fail [''hardware GPU requirement''] else ok ()))
    \<and> (adapter = None \<longrightarrow> doctor_main http_body packet_body adapter software ev events require
        = fail [''adapter discovery'', ''HTTP compute'', ''packet compute''])"
proof -
  have "doctor_main http_body packet_body (Some ad) software ev events require = (if require \<and> software then fail [''hardware GPU requirement''] else ok ())"
    if "capable ad" "default_limits (Some ad)" for ad
    using http_check_passes [OF that assms(1), of http_body] packet_check_passes [OF that(1) assms(2), of packet_body]
    by (simp add: doctor_main_def organ_def) (simp add: ok_def)
  moreover have "doctor_main http_body packet_body None software ev events require = fail [''adapter discovery'', ''HTTP compute'', ''packet compute'']"
  proof -
    obtain c where c: "compile builtin_router = ok c" using builtin_compiles by blast
    have n: "MAX_STORAGE_BINDING \<le> U32_MAX" by (simp add: MAX_STORAGE_BINDING_def U32_MAX_def)
    obtain e where "from_compiled http_body None doctor_limits c = fail e" using from_compiled_unusable [OF c doctor_sized n, of None http_body] by auto
    moreover have "validate_gpu_response_slot c (pl_response_slot_bytes doctor_limits) = ok ()"
      using sized_buffers(6) [OF c doctor_sized] by (simp add: validate_gpu_response_slot_def)
    ultimately have http: "check_http_shader http_body None ev = fail (HttpCheckGpu e)"
      by (simp add: check_http_shader_def gpu_processor_new_def with_router_def c lift_error_values)
    have "(64 :: nat) = 2 ^ 6" by simp
    then have "valid_config doctor_config" unfolding valid_config_def doctor_config_def by (auto simp: U32_MAX_def simp del: power_numeral)
    then have "gpu_packet_engine_new packet_body None events doctor_config = fail NoPacketAdapter"
      using validate_config_iff [of doctor_config] by (simp add: gpu_packet_engine_new_def)
    then have "check_packet_shader packet_body None events = fail (PacketCheckEngine (EngineNotCreated NoPacketAdapter))"
      by (simp add: check_packet_shader_def new_gpu_engine_def lift_error_values)
    with http show ?thesis by (simp add: doctor_main_def organ_def) (simp add: fail_def)
  qed
  ultimately show ?thesis by auto
qed

theorem doctor_verdict_witness:
  "doctor_main [] [] (Some sample_adapter) True (completing_events 0 1) (\<lambda>w. sample_wave) True = fail [''hardware GPU requirement'']
    \<and> doctor_main [] [] (Some sample_adapter) True (completing_events 0 1) (\<lambda>w. sample_wave) False = ok ()"
proof -
  have "\<forall>direct. device_completes (completing_events 0 1) direct 1"
    by (simp add: device_completes_def device_runs_def maps_succeed_def completing_events_def dispatched_def)
  from doctor_verdict [OF this, of "\<lambda>w. sample_wave" "Some sample_adapter"] show ?thesis using sample_default by (simp add: usable_def capable_def)
qed

end
