(* ===== verification/PacketBench.thy ===== *)
theory PacketBench
  imports PacketDemo
begin

text \<open>
  \<open>src/bin/gput-packet-bench.rs\<close>: the synthetic connections, the measured rounds with the checks of every
  response, and the figures reported. The clock is a parameter (\<open>bench_times\<close>). \<open>bench_reports\<close>: on both engines the run
  succeeds and its figures are the numbers of requests made and bytes received.
\<close>

section \<open>Settings and results\<close>

definition SERVER_IP_BENCH :: u32 where "SERVER_IP_BENCH = 0x0a4d0001"

definition DEFAULT_REQUEST :: bytes where
  "DEFAULT_REQUEST = ascii ''GET /plaintext HTTP/1.1'' @ crlf @ ascii ''Host: packet-bench'' @ crlf @ ascii ''Connection: keep-alive'' @ crlf @ crlf"

datatype bench_backend = BenchCpu | BenchGpu | BenchBoth

record bench_cli =
  bc_backend :: bench_backend
  bc_flows :: nat
  bc_requests_per_flow :: nat
  bc_warmup :: nat
  bc_batch_size :: nat
  bc_flow_capacity :: nat
  bc_flow_probe_limit :: nat
  bc_listen_port :: u16

definition default_bench_cli :: bench_cli where
  "default_bench_cli = \<lparr>bc_backend = BenchBoth, bc_flows = 65536, bc_requests_per_flow = 1000, bc_warmup = 20, bc_batch_size = 65536,
     bc_flow_capacity = 131072, bc_flow_probe_limit = 64, bc_listen_port = 8080\<rparr>"

record bench_settings =
  be_flows :: nat
  be_rounds :: nat
  be_warmup :: nat
  be_port :: u16

record bench_result =
  br_backend :: string
  br_adapter :: "string option"
  br_flows :: nat
  br_requests :: u64
  br_handshake :: nat
  br_engine_elapsed :: nat
  br_wall_elapsed :: nat
  br_latencies :: "u64 list"
  br_response_bytes :: u64
  br_metrics :: packet_engine_metrics

text \<open>What the clock shows, in nanoseconds: the handshake, each measured round, all of them; and the time counters of the GPU engine.\<close>

record bench_times =
  bt_handshake :: nat
  bt_round :: "nat \<Rightarrow> nat"
  bt_wall :: nat
  bt_before :: packet_engine_metrics
  bt_after :: packet_engine_metrics

definition DURATION_MAX :: nat where
  "DURATION_MAX = (2 ^ 64 - 1) * 1000000000 + 999999999"

definition duration_add :: "nat \<Rightarrow> nat \<Rightarrow> nat option" where
  "duration_add a b = (if a + b \<le> DURATION_MAX then Some (a + b) else None)"

definition duration_nanos :: "nat \<Rightarrow> u64" where
  "duration_nanos d = of_nat (min d (2 ^ 64 - 1))"

fun engine_metrics :: "packet_engine_metrics \<Rightarrow> packet_engine \<Rightarrow> packet_engine_metrics" where
  "engine_metrics nanos (CpuPacketEngine eng) = cpu_metrics eng"
| "engine_metrics nanos (GpuPacketEngine eng) = nanos\<lparr>dispatches := ge_dispatches eng, packets := ge_packets eng\<rparr>"

lemma metrics_packets [simp]: "packets (engine_metrics nanos eng) = engine_packets eng"
  by (cases eng) (simp_all add: cpu_metrics_def)

section \<open>Connections\<close>

definition synthetic_flow :: "u16 \<Rightarrow> nat \<Rightarrow> (client_error, flow_cursor) outcome" where
  "synthetic_flow port i =
     and_then (or_missing (if i div 60000 < 2 ^ 32 then Some (of_nat (i div 60000)) else None) ''flow address overflow'') (\<lambda>address_offset.
     and_then (or_missing (if i mod 60000 < 2 ^ 16 then Some (of_nat (i mod 60000)) else None) ''flow port overflow'') (\<lambda>port_offset :: u16.
     ok \<lparr>cu_key = \<lparr>src_ip = 0x0a4d0002 + address_offset, dst_ip = SERVER_IP_BENCH,
           src_port = (if unat port_offset + 1024 < 2 ^ 16 then 1024 + port_offset else - 1), dst_port = port\<rparr>,
         client_next = 1000000 + of_nat i * 4096, server_next = 0\<rparr>))"

definition synthetic_flows :: "nat \<Rightarrow> u16 \<Rightarrow> (client_error, flow_cursor list) outcome" where
  "synthetic_flows n port = collect (map (synthetic_flow port) [0..<n])"

definition established :: "flow_cursor \<times> raw_packet option \<Rightarrow> (client_error, flow_cursor) outcome" where
  "established = (\<lambda>(flow, response).
     and_then (or_missing response ''SYN did not produce SYN-ACK'') (\<lambda>response.
     and_then (checksums_valid response) (\<lambda>_.
     and_then (parsed response ''SYN-ACK did not parse'') (\<lambda>tcp.
     and_then (ensure (v_flags tcp = TCP_SYN OR TCP_ACK) ''handshake response was not SYN-ACK'') (\<lambda>_.
     and_then (ensure (v_ack tcp = client_next flow + 1) ''SYN-ACK acknowledged the wrong sequence'') (\<lambda>_.
     ok (flow\<lparr>client_next := client_next flow + 1, server_next := v_seq tcp + 1\<rparr>)))))))"

definition establish_flows :: "flow_cursor list \<Rightarrow> flow_cursor list session" where
  "establish_flows flows =
     andthen (lift (collect (map (\<lambda>flow. built_packet (cu_key flow) (client_next flow) 0 TCP_SYN []) flows))) (\<lambda>syns.
     andthen (batch syns) (\<lambda>syn_acks.
     andthen (lift (ensure (length syn_acks = length flows) ''SYN output count mismatch'')) (\<lambda>_.
     andthen (lift (collect (map established (zip flows syn_acks)))) (\<lambda>flows.
     andthen (lift (collect (map (\<lambda>flow. cursor_packet flow TCP_ACK []) flows))) (\<lambda>acknowledgements.
     andthen (batch acknowledgements) (\<lambda>outs.
     andthen (lift (ensure (list_all (\<lambda>out. out = None) outs) ''handshake ACK emitted unexpected packets'')) (\<lambda>_.
     return flows)))))))"

section \<open>Rounds\<close>

definition check_response :: "string \<Rightarrow> flow_cursor \<Rightarrow> raw_packet option \<Rightarrow> (client_error, flow_cursor \<times> nat) outcome" where
  "check_response name flow response =
     and_then (or_missing response ''HTTP request produced no packet'') (\<lambda>response.
     and_then (checksums_valid response) (\<lambda>_.
     and_then (parsed response ''HTTP response did not parse'') (\<lambda>tcp.
     and_then (ensure (v_seq tcp = server_next flow) ''HTTP response sequence drifted'') (\<lambda>_.
     and_then (ensure (v_ack tcp = client_next flow + of_nat (length DEFAULT_REQUEST)) ''HTTP response acknowledgement drifted'') (\<lambda>_.
     and_then (ensure (has_prefix (ascii ''HTTP/1.1 200 OK'' @ crlf) (v_payload tcp)) ''HTTP response status was not 200'') (\<lambda>_.
     and_then (ensure (has_suffix (crlf @ crlf @ ascii ''Hello, World!'' @ [10]) (v_payload tcp)) ''HTTP response body was not the plaintext benchmark body'') (\<lambda>_.
     and_then (ensure (has_window (ascii name) (v_payload tcp)) ''HTTP response lied about packet backend'') (\<lambda>_.
     ok (flow\<lparr>client_next := client_next flow + of_nat (length DEFAULT_REQUEST), server_next := server_next flow + of_nat (length (v_payload tcp))\<rparr>,
         length (v_payload tcp))))))))))"

fun check_responses :: "string \<Rightarrow> (flow_cursor \<times> raw_packet option) list \<Rightarrow> u64 \<Rightarrow> (client_error, flow_cursor list \<times> u64) outcome" where
  "check_responses name [] response_bytes = ok ([], response_bytes)"
| "check_responses name ((flow, response) # rest) response_bytes =
     and_then (check_response name flow response) (\<lambda>(flow, n).
     and_then (check_responses name rest (saturating_add_u64 response_bytes (of_nat n))) (\<lambda>(flows, response_bytes).
     ok (flow # flows, response_bytes)))"

definition run_http_round :: "flow_cursor list \<Rightarrow> raw_packet option list \<Rightarrow> (flow_cursor list \<times> raw_packet option list \<times> u64) session" where
  "run_http_round flows responses =
     andthen (lift (collect (map (\<lambda>flow. cursor_packet flow (TCP_ACK OR TCP_PSH) DEFAULT_REQUEST) flows))) (\<lambda>requests.
     andthen (batch_into requests responses) (\<lambda>responses.
     andthen (lift (ensure (length responses = length flows) ''HTTP output count mismatch'')) (\<lambda>_.
     andthen engine_label (\<lambda>name.
     andthen (lift (check_responses name (zip flows responses) 0)) (\<lambda>(flows, response_bytes).
     return (flows, responses, response_bytes))))))"

record bench_tally =
  ta_flows :: "flow_cursor list"
  ta_responses :: "raw_packet option list"
  ta_elapsed :: nat
  ta_latencies :: "u64 list"
  ta_bytes :: u64

fun warmup_rounds :: "nat \<Rightarrow> flow_cursor list \<Rightarrow> raw_packet option list \<Rightarrow> (flow_cursor list \<times> raw_packet option list) session" where
  "warmup_rounds 0 flows responses = return (flows, responses)"
| "warmup_rounds (Suc n) flows responses =
     andthen (run_http_round flows responses) (\<lambda>(flows, responses, _). warmup_rounds n flows responses)"

fun measured_rounds :: "(nat \<Rightarrow> nat) \<Rightarrow> nat \<Rightarrow> nat \<Rightarrow> bench_tally \<Rightarrow> bench_tally session" where
  "measured_rounds time i 0 ta = return ta"
| "measured_rounds time i (Suc n) ta =
     andthen (run_http_round (ta_flows ta) (ta_responses ta)) (\<lambda>(flows, responses, round_bytes).
     andthen (lift (or_panic (duration_add (ta_elapsed ta) (time i)))) (\<lambda>elapsed.
     measured_rounds time (Suc i) n \<lparr>ta_flows = flows, ta_responses = responses, ta_elapsed = elapsed,
       ta_latencies = ta_latencies ta @ [duration_nanos (time i)], ta_bytes = saturating_add_u64 (ta_bytes ta) round_bytes\<rparr>))"

definition closed :: "flow_cursor \<times> raw_packet option \<Rightarrow> (client_error, unit) outcome" where
  "closed = (\<lambda>(flow, response).
     and_then (or_missing response ''FIN produced no ACK'') (\<lambda>response.
     and_then (parsed response ''FIN ACK did not parse'') (\<lambda>tcp.
     and_then (ensure (v_flags tcp = TCP_ACK) ''FIN response was not an ACK'') (\<lambda>_.
     ensure (v_ack tcp = client_next flow + 1) ''FIN ACK used the wrong acknowledgement''))))"

definition close_flows :: "flow_cursor list \<Rightarrow> unit session" where
  "close_flows flows =
     andthen (lift (collect (map (\<lambda>flow. cursor_packet flow (TCP_ACK OR TCP_FIN) []) flows))) (\<lambda>fins.
     andthen (batch fins) (\<lambda>responses.
     andthen (lift (ensure (length responses = length flows) ''FIN output count mismatch'')) (\<lambda>_.
     andthen (lift (collect (map closed (zip flows responses)))) (\<lambda>_.
     return ()))))"

section \<open>A run\<close>

definition request_count :: "bench_settings \<Rightarrow> u64 option" where
  "request_count settings = (if be_flows settings * be_rounds settings < 2 ^ 64 then Some (of_nat (be_flows settings * be_rounds settings)) else None)"

definition metrics_now :: "packet_engine_metrics \<Rightarrow> packet_engine_metrics session" where
  "metrics_now nanos eng = Some (eng, Inr (engine_metrics nanos eng))"

definition run_benchmark :: "bench_times \<Rightarrow> bench_settings \<Rightarrow> string option \<Rightarrow> bench_result session" where
  "run_benchmark timing settings adapter =
     andthen (lift (synthetic_flows (be_flows settings) (be_port settings))) (\<lambda>flows.
     andthen (establish_flows flows) (\<lambda>flows.
     andthen (warmup_rounds (be_warmup settings) flows []) (\<lambda>(flows, responses).
     andthen (metrics_now (bt_before timing)) (\<lambda>metrics_before.
     andthen (measured_rounds (bt_round timing) 0 (be_rounds settings)
       \<lparr>ta_flows = flows, ta_responses = responses, ta_elapsed = 0, ta_latencies = [], ta_bytes = 0\<rparr>) (\<lambda>ta.
     andthen (metrics_now (bt_after timing)) (\<lambda>now.
     andthen (close_flows (ta_flows ta)) (\<lambda>_.
     andthen (lift (or_missing (request_count settings) ''benchmark request count overflow'')) (\<lambda>requests.
     andthen engine_label (\<lambda>name.
     return \<lparr>br_backend = name, br_adapter = adapter, br_flows = be_flows settings, br_requests = requests,
       br_handshake = bt_handshake timing, br_engine_elapsed = ta_elapsed ta, br_wall_elapsed = bt_wall timing,
       br_latencies = sort (ta_latencies ta), br_response_bytes = ta_bytes ta,
       br_metrics = metrics_saturating_sub now metrics_before\<rparr>)))))))))"

definition percentile_nearest_rank :: "u64 list \<Rightarrow> nat \<Rightarrow> u64 option" where
  "percentile_nearest_rank sorted_nanos percentile =
     (if sorted_nanos = [] \<or> 100 < percentile then None
      else do {
        scaled \<leftarrow> checked_mul_usize (length sorted_nanos - 1) percentile;
        scaled \<leftarrow> checked_add_usize scaled 50;
        index sorted_nanos (scaled div 100) })"

datatype bench_error = BadBenchSettings string | BenchRun client_run_error

definition bench_settings_of :: "bench_cli \<Rightarrow> bench_settings" where
  "bench_settings_of cli = \<lparr>be_flows = bc_flows cli, be_rounds = bc_requests_per_flow cli, be_warmup = bc_warmup cli, be_port = bc_listen_port cli\<rparr>"

definition bench_config :: "bench_cli \<Rightarrow> packet_engine_config" where
  "bench_config cli = \<lparr>max_batch_size = bc_batch_size cli, flow_capacity = bc_flow_capacity cli,
     flow_probe_limit = bc_flow_probe_limit cli, listen_port = bc_listen_port cli\<rparr>"

definition bench_run_result :: "(client_run_error, 'a) outcome \<Rightarrow> (bench_error, 'a) outcome" where
  "bench_run_result m = map_option (\<lambda>r. case r of Inl e \<Rightarrow> Inl (BenchRun e) | Inr x \<Rightarrow> Inr x) m"

definition bench_check :: "bool \<Rightarrow> string \<Rightarrow> (bench_error, unit) outcome" where
  "bench_check b message = (if b then ok () else fail (BadBenchSettings message))"

definition bench_main :: "bytes \<Rightarrow> string \<Rightarrow> wgpu_adapter option \<Rightarrow> (nat \<Rightarrow> wave_events) \<Rightarrow> bench_times \<Rightarrow> bench_times
    \<Rightarrow> bench_cli \<Rightarrow> (bench_error, bench_result list) outcome" where
  "bench_main shader_body adapter_name adapter events cpu_times gpu_times cli =
     and_then (bench_check (0 < bc_flows cli) ''--flows must be positive'') (\<lambda>_.
     and_then (bench_check (0 < bc_requests_per_flow cli) ''--requests-per-flow must be positive'') (\<lambda>_.
     and_then (bench_check (0 < bc_batch_size cli) ''--batch-size must be positive'') (\<lambda>_.
     and_then (bench_check (bc_flows cli \<le> bc_flow_capacity cli) ''--flow-capacity must be at least --flows'') (\<lambda>_.
     and_then (bench_check (bc_flows cli \<le> 1000000) ''--flows is capped at one million to keep the synthetic address space sane'') (\<lambda>_.
     and_then (if bc_backend cli \<in> {BenchCpu, BenchBoth}
               then and_then (bench_run_result (session_on (new_cpu_engine (bench_config cli)) (run_benchmark cpu_times (bench_settings_of cli) None))) (\<lambda>r. ok [r])
               else ok []) (\<lambda>cpu.
     and_then (if bc_backend cli \<in> {BenchGpu, BenchBoth}
               then and_then (bench_run_result (session_on (new_gpu_engine shader_body adapter events (bench_config cli))
                   (run_benchmark gpu_times (bench_settings_of cli) (Some adapter_name)))) (\<lambda>r. ok [r])
               else ok []) (\<lambda>gpu.
     ok (cpu @ gpu))))))))"

section \<open>The synthetic connections\<close>

definition synthetic_cursor :: "u16 \<Rightarrow> nat \<Rightarrow> flow_cursor" where
  "synthetic_cursor port i = \<lparr>cu_key = \<lparr>src_ip = 0x0a4d0002 + of_nat (i div 60000), dst_ip = SERVER_IP_BENCH,
      src_port = 1024 + of_nat (i mod 60000), dst_port = port\<rparr>, client_next = 1000000 + of_nat i * 4096, server_next = 0\<rparr>"

lemma synthetic_flow_ok: "i < 1000000 \<Longrightarrow> synthetic_flow port i = ok (synthetic_cursor port i)"
proof -
  assume "i < 1000000"
  have "i mod 60000 < 60000" by simp
  then have "i mod 60000 < 65536" by linarith
  moreover from this have "unat (of_nat (i mod 60000) :: u16) = i mod 60000" by (simp add: unat_of_nat)
  moreover have "i div 60000 < 4294967296" using \<open>i < 1000000\<close> by linarith
  ultimately show ?thesis using \<open>i mod 60000 < 60000\<close> by (simp add: synthetic_flow_def synthetic_cursor_def)
qed

lemma synthetic_flows_ok: "n \<le> 1000000 \<Longrightarrow> synthetic_flows n port = ok (map (synthetic_cursor port) [0..<n])"
  unfolding synthetic_flows_def by (rule collect_ok) (simp add: synthetic_flow_ok)

lemma synthetic_key_inj:
  assumes "cu_key (synthetic_cursor port i) = cu_key (synthetic_cursor port j)" "i < 1000000" "j < 1000000"
  shows "i = j"
proof -
  have small: "x div 60000 < 2 ^ 32" "x mod 60000 < 2 ^ 16" if "x < 1000000" for x :: nat
    using that less_trans [OF mod_less_divisor [of 60000 x], of 65536] by (simp_all add: div_less_iff_less_mult)
  have "(of_nat (i div 60000) :: u32) = of_nat (j div 60000)" "(of_nat (i mod 60000) :: u16) = of_nat (j mod 60000)"
    using assms(1) by (simp_all add: synthetic_cursor_def)
  then have "unat (of_nat (i div 60000) :: u32) = unat (of_nat (j div 60000) :: u32)" "unat (of_nat (i mod 60000) :: u16) = unat (of_nat (j mod 60000) :: u16)"
    by simp_all
  then have "i div 60000 = j div 60000" "i mod 60000 = j mod 60000"
    using small [OF assms(2)] small [OF assms(3)] by (simp_all add: unat_of_nat)
  then show ?thesis by (metis div_mult_mod_eq)
qed

lemma synthetic_distinct: "n \<le> 1000000 \<Longrightarrow> distinct (map cu_key (map (synthetic_cursor port) [0..<n]))"
  unfolding map_map distinct_map by (auto intro!: inj_onI elim!: synthetic_key_inj)

definition bench_keys :: "bench_cli \<Rightarrow> flow_key set" where
  "bench_keys cli = (\<lambda>i. cu_key (synthetic_cursor (bc_listen_port cli) i)) ` {..<bc_flows cli}"

lemma bench_keys_listening: "listening_keys (bench_config cli) (bench_keys cli) = bench_keys cli"
  by (auto simp: listening_keys_def bench_keys_def bench_config_def synthetic_cursor_def)

lemma bench_keys_few: "finite (bench_keys cli) \<and> card (bench_keys cli) \<le> bc_flows cli"
  unfolding bench_keys_def using card_image_le [of "{..<bc_flows cli}"] by simp

lemma unat_of_nat_u64: "n < 2 ^ 64 \<Longrightarrow> unat (of_nat n :: u64) = n"
  by (simp add: unat_of_nat)

lemma of_nat_mono_u64: "a \<le> b \<Longrightarrow> b < 2 ^ 64 \<Longrightarrow> (of_nat a :: u64) \<le> of_nat b"
  by (simp add: word_le_nat_alt unat_of_nat)

section \<open>The checks pass\<close>

definition PLAINTEXT_BYTES :: nat where
  "PLAINTEXT_BYTES = length (packet_response RESPONSE_PLAINTEXT)"

lemma DEFAULT_REQUEST_fits: "DEFAULT_REQUEST \<noteq> []" "length DEFAULT_REQUEST \<le> 1496"
  by (simp_all add: DEFAULT_REQUEST_def ascii_def crlf_def)

lemma DEFAULT_REQUEST_class: "classify_http_request DEFAULT_REQUEST = RESPONSE_PLAINTEXT"
  unfolding DEFAULT_REQUEST_def by (rule literal_classes(1))

lemma established_ok:
  "established (flow, Some (reply (cu_key flow) (isn (cu_key flow)) (client_next flow + 1) (TCP_SYN OR TCP_ACK) []))
    = ok (flow\<lparr>client_next := client_next flow + 1, server_next := isn (cu_key flow) + 1\<rparr>)"
  by (simp add: established_def)

lemma closed_ok: "closed (flow, Some (reply (cu_key flow) s (client_next flow + 1) TCP_ACK [])) = ok ()"
  by (simp add: closed_def)

lemma collect_zip_ok:
  assumes "\<And>x. x \<in> set xs \<Longrightarrow> f (x, g x) = ok (h x)"
  shows "collect (map f (zip xs (map g xs))) = ok (map h xs)"
  using assms by (induction xs) simp_all

text \<open>A client's connections, each in step with the engine.\<close>

definition all_in_step :: "flow_key set \<Rightarrow> flow_cursor list \<Rightarrow> table \<Rightarrow> bool" where
  "all_in_step K flows tbl \<longleftrightarrow> distinct (map cu_key flows) \<and> length flows \<le> FS_LIMIT \<and> (\<forall>x\<in>set flows. cu_key x \<in> K \<and> in_step x tbl)"

context packet_service begin

lemma plaintext_fits: "length (respond RESPONSE_PLAINTEXT) \<le> 1496"
  using short [of RESPONSE_PLAINTEXT] by simp

lemma check_response_ok:
  "check_response backend flow (Some (reply (cu_key flow) (server_next flow) (client_next flow + of_nat (length DEFAULT_REQUEST)) (TCP_ACK OR TCP_PSH) (respond RESPONSE_PLAINTEXT)))
    = ok (after_exchange flow DEFAULT_REQUEST (respond RESPONSE_PLAINTEXT), length (respond RESPONSE_PLAINTEXT))"
proof -
  have "(RESPONSE_PLAINTEXT, ascii ''HTTP/1.1 200 OK'' @ crlf, crlf @ crlf @ ascii ''Hello, World!'' @ [10]) \<in> set response_texts"
    by (simp add: response_texts_def)
  from texts [OF this] have "has_prefix (ascii ''HTTP/1.1 200 OK'' @ crlf) (respond RESPONSE_PLAINTEXT)"
    "has_suffix (crlf @ crlf @ ascii ''Hello, World!'' @ [10]) (respond RESPONSE_PLAINTEXT)" "has_window (ascii backend) (respond RESPONSE_PLAINTEXT)"
    by (auto simp: response_holds_def intro: has_window_prefix)
  then show ?thesis using plaintext_fits by (simp add: check_response_def after_exchange_def)
qed

lemma check_responses_ok:
  "\<exists>n. check_responses backend (zip flows (map (\<lambda>x. Some (reply (cu_key x) (server_next x) (client_next x + of_nat (length DEFAULT_REQUEST))
      (TCP_ACK OR TCP_PSH) (respond RESPONSE_PLAINTEXT))) flows)) acc
    = ok (map (\<lambda>x. after_exchange x DEFAULT_REQUEST (respond RESPONSE_PLAINTEXT)) flows, n)
    \<and> unat n = min (unat acc + length flows * length (respond RESPONSE_PLAINTEXT)) (2 ^ 64 - 1)"
proof (induction flows arbitrary: acc)
  case Nil
  have "unat acc < 2 ^ 64" using unsigned_less [of acc] by simp
  then show ?case by simp
next
  case (Cons x flows)
  let ?L = "length (respond RESPONSE_PLAINTEXT)"
  have "unat (of_nat ?L :: u64) = ?L" using plaintext_fits by (simp add: unat_of_nat)
  then have acc: "unat (saturating_add_u64 acc (of_nat ?L)) = min (unat acc + ?L) (2 ^ 64 - 1)" by (simp add: saturating_add_u64_unat)
  obtain n where n: "check_responses backend (zip flows (map (\<lambda>x. Some (reply (cu_key x) (server_next x) (client_next x + of_nat (length DEFAULT_REQUEST))
      (TCP_ACK OR TCP_PSH) (respond RESPONSE_PLAINTEXT))) flows)) (saturating_add_u64 acc (of_nat ?L))
    = ok (map (\<lambda>x. after_exchange x DEFAULT_REQUEST (respond RESPONSE_PLAINTEXT)) flows, n)"
    "unat n = min (min (unat acc + ?L) (2 ^ 64 - 1) + length flows * ?L) (2 ^ 64 - 1)"
    using Cons.IH [of "saturating_add_u64 acc (of_nat ?L)"] unfolding acc by blast
  have "unat n = min (unat acc + length (x # flows) * ?L) (2 ^ 64 - 1)" unfolding n(2) by simp
  then show ?case using n(1) by (simp add: check_response_ok)
qed

lemma round_ok:
  assumes "ready eng" "all_in_step K flows (engine_connections eng)"
  obtains eng' flows' responses' n where "run_http_round flows responses eng = Some (eng', Inr (flows', responses', n))" "ready eng'"
    "all_in_step K flows' (engine_connections eng')" "length flows' = length flows"
    "unat n = min (length flows * length (respond RESPONSE_PLAINTEXT)) (2 ^ 64 - 1)"
    "engine_packets eng' = engine_packets eng + of_nat (length flows)"
proof -
  let ?next = "\<lambda>x. after_exchange x DEFAULT_REQUEST (respond RESPONSE_PLAINTEXT)"
  have flows: "distinct (map cu_key flows)" "length flows \<le> FS_LIMIT" "\<forall>x\<in>set flows. cu_key x \<in> K \<and> in_step x (engine_connections eng)"
    using assms(2) by (simp_all add: all_in_step_def)
  obtain eng' where e: "batch_into (map (\<lambda>x. client_packet (cu_key x) (client_next x) (server_next x) (TCP_ACK OR TCP_PSH) DEFAULT_REQUEST) flows) responses eng
      = Some (eng', Inr (map (\<lambda>x. Some (reply (cu_key x) (server_next x) (client_next x + of_nat (length DEFAULT_REQUEST)) (TCP_ACK OR TCP_PSH)
          (respond (classify_http_request DEFAULT_REQUEST)))) flows))" "ready eng'"
    "\<forall>x\<in>set flows. in_step (after_exchange x DEFAULT_REQUEST (respond (classify_http_request DEFAULT_REQUEST))) (engine_connections eng')"
    "engine_packets eng' = engine_packets eng + of_nat (length flows)"
    by (rule several_answered [OF assms(1) flows(1,2) DEFAULT_REQUEST_fits flows(3)])
  note e = e [unfolded DEFAULT_REQUEST_class]
  have packets: "collect (map (\<lambda>flow. cursor_packet flow (TCP_ACK OR TCP_PSH) DEFAULT_REQUEST) flows)
      = ok (map (\<lambda>x. client_packet (cu_key x) (client_next x) (server_next x) (TCP_ACK OR TCP_PSH) DEFAULT_REQUEST) flows)"
    by (rule collect_ok) (use DEFAULT_REQUEST_fits in simp)
  obtain n where n: "check_responses backend (zip flows (map (\<lambda>x. Some (reply (cu_key x) (server_next x) (client_next x + of_nat (length DEFAULT_REQUEST))
      (TCP_ACK OR TCP_PSH) (respond RESPONSE_PLAINTEXT))) flows)) 0 = ok (map ?next flows, n)"
    "unat n = min (length flows * length (respond RESPONSE_PLAINTEXT)) (2 ^ 64 - 1)" using check_responses_ok [of flows 0] by auto
  have next_step: "all_in_step K (map ?next flows) (engine_connections eng')"
    using flows e(3) by (simp add: all_in_step_def comp_def)
  have run: "run_http_round flows responses eng = Some (eng', Inr (map ?next flows, map (\<lambda>x. Some (reply (cu_key x) (server_next x) (client_next x + of_nat (length DEFAULT_REQUEST))
      (TCP_ACK OR TCP_PSH) (respond RESPONSE_PLAINTEXT))) flows, n))"
    by (simp add: run_http_round_def packets andthen_run [where m = "batch_into x y" for x y, OF e(1)] andthen_label [OF named [OF e(2)]] n(1))
  show thesis by (rule that [OF run e(2) next_step _ n(2) e(4)]) simp
qed

lemma warmup_ok:
  assumes "ready eng" "all_in_step K flows (engine_connections eng)"
  shows "\<exists>eng' flows' responses'. warmup_rounds m flows responses eng = Some (eng', Inr (flows', responses')) \<and> ready eng'
    \<and> all_in_step K flows' (engine_connections eng') \<and> length flows' = length flows \<and> engine_packets eng' = engine_packets eng + of_nat (m * length flows)"
  using assms
proof (induction m arbitrary: eng flows responses)
  case (Suc m)
  obtain e1 f1 r1 n where e1: "run_http_round flows responses eng = Some (e1, Inr (f1, r1, n))" "ready e1" "all_in_step K f1 (engine_connections e1)"
    "length f1 = length flows" "engine_packets e1 = engine_packets eng + of_nat (length flows)" by (rule round_ok [OF Suc.prems])
  obtain e2 f2 r2 where e2: "warmup_rounds m f1 r1 e1 = Some (e2, Inr (f2, r2))" "ready e2" "all_in_step K f2 (engine_connections e2)"
    "length f2 = length f1" "engine_packets e2 = engine_packets e1 + of_nat (m * length f1)" using Suc.IH [OF e1(2,3), of r1] by blast
  have "warmup_rounds (Suc m) flows responses eng = Some (e2, Inr (f2, r2))"
    by (simp add: andthen_run [where m = "run_http_round x y" for x y, OF e1(1)] e2(1))
  then show ?case using e1(4,5) e2 by (auto simp: algebra_simps)
qed simp

lemma measured_ok:
  assumes "ready eng" "all_in_step K (ta_flows ta) (engine_connections eng)" "ta_elapsed ta + (\<Sum>j<m. time (i + j)) \<le> DURATION_MAX"
  shows "\<exists>eng' ta'. measured_rounds time i m ta eng = Some (eng', Inr ta') \<and> ready eng' \<and> all_in_step K (ta_flows ta') (engine_connections eng')
    \<and> length (ta_flows ta') = length (ta_flows ta) \<and> ta_elapsed ta' = ta_elapsed ta + (\<Sum>j<m. time (i + j))
    \<and> ta_latencies ta' = ta_latencies ta @ map (\<lambda>j. duration_nanos (time (i + j))) [0..<m]
    \<and> unat (ta_bytes ta') = min (unat (ta_bytes ta) + m * (length (ta_flows ta) * length (respond RESPONSE_PLAINTEXT))) (2 ^ 64 - 1)
    \<and> engine_packets eng' = engine_packets eng + of_nat (m * length (ta_flows ta))"
  using assms
proof (induction m arbitrary: i eng ta)
  case 0
  have "unat (ta_bytes ta) < 2 ^ 64" using unsigned_less [of "ta_bytes ta"] by simp
  then show ?case using 0 by simp
next
  case (Suc m)
  let ?L = "length (ta_flows ta) * length (respond RESPONSE_PLAINTEXT)"
  obtain e1 f1 r1 n where e1: "run_http_round (ta_flows ta) (ta_responses ta) eng = Some (e1, Inr (f1, r1, n))" "ready e1"
    "all_in_step K f1 (engine_connections e1)" "length f1 = length (ta_flows ta)" "unat n = min ?L (2 ^ 64 - 1)"
    "engine_packets e1 = engine_packets eng + of_nat (length (ta_flows ta))" by (rule round_ok [OF Suc.prems(1,2)])
  define ta1 where "ta1 = \<lparr>ta_flows = f1, ta_responses = r1, ta_elapsed = ta_elapsed ta + time i,
    ta_latencies = ta_latencies ta @ [duration_nanos (time i)], ta_bytes = saturating_add_u64 (ta_bytes ta) n\<rparr>"
  have sums: "(\<Sum>j<Suc m. time (i + j)) = time i + (\<Sum>j<m. time (Suc i + j))" by (subst sum.lessThan_Suc_shift) simp
  have fits: "ta_elapsed ta1 + (\<Sum>j<m. time (Suc i + j)) \<le> DURATION_MAX" "ta_elapsed ta + time i \<le> DURATION_MAX"
    using Suc.prems(3) unfolding sums by (simp_all add: ta1_def)
  have bytes: "unat (ta_bytes ta1) = min (unat (ta_bytes ta) + min ?L (2 ^ 64 - 1)) (2 ^ 64 - 1)" unfolding e1(5) [symmetric] by (simp add: ta1_def saturating_add_u64_unat)
  obtain e2 ta2 where e2: "measured_rounds time (Suc i) m ta1 e1 = Some (e2, Inr ta2)" "ready e2" "all_in_step K (ta_flows ta2) (engine_connections e2)"
    "length (ta_flows ta2) = length (ta_flows ta1)" "ta_elapsed ta2 = ta_elapsed ta1 + (\<Sum>j<m. time (Suc i + j))"
    "ta_latencies ta2 = ta_latencies ta1 @ map (\<lambda>j. duration_nanos (time (Suc i + j))) [0..<m]"
    "unat (ta_bytes ta2) = min (unat (ta_bytes ta1) + m * (length (ta_flows ta1) * length (respond RESPONSE_PLAINTEXT))) (2 ^ 64 - 1)"
    "engine_packets e2 = engine_packets e1 + of_nat (m * length (ta_flows ta1))"
    using Suc.IH [OF e1(2), of ta1 "Suc i"] e1(3) fits(1) unfolding ta1_def by auto
  have f1: "ta_flows ta1 = f1" by (simp add: ta1_def)
  have total: "unat (ta_bytes ta2) = min (unat (ta_bytes ta) + Suc m * ?L) (2 ^ 64 - 1)" unfolding e2(7) f1 e1(4) bytes by simp
  have run: "measured_rounds time i (Suc m) ta eng = Some (e2, Inr ta2)"
    using fits(2) e2(1) by (simp add: andthen_run [where m = "run_http_round x y" for x y, OF e1(1)] duration_add_def or_panic_def flip: ok_def) (simp add: ta1_def)
  have "map (\<lambda>j. duration_nanos (time (i + j))) [0..<Suc m] = duration_nanos (time i) # map (\<lambda>j. duration_nanos (time (Suc i + j))) [0..<m]"
    by (simp add: upt_conv_Cons map_Suc_upt [symmetric] del: upt_Suc)
  then have lat: "ta_latencies ta2 = ta_latencies ta @ map (\<lambda>j. duration_nanos (time (i + j))) [0..<Suc m]" unfolding e2(6) by (simp add: ta1_def)
  have packets: "engine_packets e2 = engine_packets eng + of_nat (Suc m * length (ta_flows ta))"
    unfolding e2(8) f1 e1(4,6) by (simp add: algebra_simps)
  show ?case using run e2(2,3) e2(4) [unfolded f1 e1(4)] e2(5) sums lat total packets by (intro exI [of _ e2] exI [of _ ta2]) (simp add: ta1_def)
qed

lemma establish_ok:
  assumes "ready eng" "distinct (map cu_key flows)" "length flows \<le> FS_LIMIT" "\<forall>x\<in>set flows. cu_key x \<in> K \<and> engine_connections eng (cu_key x) = None"
  obtains eng' flows' where "establish_flows flows eng = Some (eng', Inr flows')" "ready eng'" "all_in_step K flows' (engine_connections eng')"
    "length flows' = length flows" "engine_packets eng' = engine_packets eng + of_nat (2 * length flows)"
proof -
  let ?next = "\<lambda>x. x\<lparr>client_next := client_next x + 1, server_next := isn (cu_key x) + 1\<rparr>"
  let ?ids = "map (\<lambda>x. (cu_key x, client_next x)) flows"
  have ids: "distinct (map fst ?ids)" "length ?ids \<le> FS_LIMIT" "\<forall>x\<in>set ?ids. fst x \<in> K \<and> engine_connections eng (fst x) = None"
    using assms(2-4) by (auto simp: comp_def)
  obtain e1 where e1: "batch (map (\<lambda>x. client_packet (cu_key x) (client_next x) 0 TCP_SYN []) flows) eng
      = Some (e1, Inr (map (\<lambda>x. Some (reply (cu_key x) (isn (cu_key x)) (client_next x + 1) (TCP_SYN OR TCP_ACK) [])) flows))"
    "ready e1" "\<forall>x\<in>set flows. engine_connections e1 (cu_key x) = Some (new_flow (client_next x + 1) (isn (cu_key x)))"
    "engine_packets e1 = engine_packets eng + of_nat (length flows)"
    by (rule several_open [OF assms(1) ids]) (simp add: comp_def)
  have next_flows: "distinct (map cu_key (map ?next flows))" "length (map ?next flows) \<le> FS_LIMIT" using assms(2,3) by (simp_all add: comp_def)
  obtain e2 where e2: "batch (map (\<lambda>x. client_packet (cu_key x) (client_next x) (server_next x) TCP_ACK []) (map ?next flows)) e1
      = Some (e2, Inr (map (\<lambda>x. None) (map ?next flows)))" "ready e2" "\<forall>x\<in>set (map ?next flows). in_step x (engine_connections e2)"
    "engine_packets e2 = engine_packets e1 + of_nat (length (map ?next flows))"
    by (rule several_established [OF e1(2) next_flows]) (use e1(3) assms(4) in auto)
  have syns: "collect (map (\<lambda>flow. built_packet (cu_key flow) (client_next flow) 0 TCP_SYN []) flows)
      = ok (map (\<lambda>x. client_packet (cu_key x) (client_next x) 0 TCP_SYN []) flows)" by (rule collect_ok) simp
  have acks: "collect (map (\<lambda>flow. cursor_packet flow TCP_ACK []) (map ?next flows))
      = ok (map (\<lambda>x. client_packet (cu_key x) (client_next x) (server_next x) TCP_ACK []) (map ?next flows))" by (rule collect_ok) simp
  have opened: "collect (map established (zip flows (map (\<lambda>x. Some (reply (cu_key x) (isn (cu_key x)) (client_next x + 1) (TCP_SYN OR TCP_ACK) [])) flows)))
      = ok (map ?next flows)" by (rule collect_zip_ok) (rule established_ok)
  have quiet: "list_all (\<lambda>out. out = None) (map (\<lambda>x. None :: raw_packet option) (map ?next flows)) = True" by (simp add: list_all_iff)
  have run: "establish_flows flows eng = Some (e2, Inr (map ?next flows))"
    unfolding establish_flows_def syns by (simp only: andthen_lift andthen_batch [OF e1(1)] opened acks andthen_batch [OF e2(1)] quiet session_simps lift_simps length_map simp_thms)
  have "all_in_step K (map ?next flows) (engine_connections e2)" using next_flows e2(3) assms(4) by (simp add: all_in_step_def)
  then show thesis by (rule that [OF run e2(2)]) (simp_all add: e1(4) e2(4))
qed

lemma close_ok:
  assumes "ready eng" "all_in_step K flows (engine_connections eng)"
  obtains eng' where "close_flows flows eng = Some (eng', Inr ())" "ready eng'"
proof -
  have flows: "distinct (map cu_key flows)" "length flows \<le> FS_LIMIT" "\<forall>x\<in>set flows. cu_key x \<in> K \<and> in_step x (engine_connections eng)"
    using assms(2) by (simp_all add: all_in_step_def)
  obtain eng' where e: "batch (map (\<lambda>x. client_packet (cu_key x) (client_next x) (server_next x) (TCP_ACK OR TCP_FIN) []) flows) eng
      = Some (eng', Inr (map (\<lambda>x. Some (reply (cu_key x) (server_next x) (client_next x + 1) TCP_ACK [])) flows))" "ready eng'"
    by (rule several_closed [OF assms(1) flows])
  have fins: "collect (map (\<lambda>flow. cursor_packet flow (TCP_ACK OR TCP_FIN) []) flows)
      = ok (map (\<lambda>x. client_packet (cu_key x) (client_next x) (server_next x) (TCP_ACK OR TCP_FIN) []) flows)" by (rule collect_ok) simp
  have answers: "collect (map closed (zip flows (map (\<lambda>x. Some (reply (cu_key x) (server_next x) (client_next x + 1) TCP_ACK [])) flows))) = ok (map (\<lambda>_. ()) flows)"
    by (rule collect_zip_ok) (rule closed_ok)
  have "close_flows flows eng = Some (eng', Inr ())"
    by (simp only: close_flows_def fins andthen_lift andthen_batch [OF e(1)] length_map simp_thms session_simps answers lift_simps)
  then show thesis using e(2) by (rule that)
qed

text \<open>The figures of a run.\<close>

lemma run_benchmark_ok:
  assumes "ready eng" "engine_connections eng = Map.empty" "engine_packets eng = 0"
    "be_flows settings \<le> 1000000" "\<forall>i<be_flows settings. cu_key (synthetic_cursor (be_port settings) i) \<in> K"
    "(\<Sum>i<be_rounds settings. bt_round timing i) \<le> DURATION_MAX" "be_flows settings * (2 + be_warmup settings + be_rounds settings) < 2 ^ 64"
  obtains eng' result where "run_benchmark timing settings adapter eng = Some (eng', Inr result)"
    "br_backend result = backend" "unat (br_requests result) = be_flows settings * be_rounds settings"
    "packets (br_metrics result) = br_requests result"
    "unat (br_response_bytes result) = min (be_flows settings * be_rounds settings * length (respond RESPONSE_PLAINTEXT)) (2 ^ 64 - 1)"
    "br_engine_elapsed result = (\<Sum>i<be_rounds settings. bt_round timing i)"
    "br_latencies result = sort (map (\<lambda>i. duration_nanos (bt_round timing i)) [0..<be_rounds settings])"
proof -
  let ?F = "be_flows settings" and ?R = "be_rounds settings" and ?W = "be_warmup settings"
  let ?flows = "map (synthetic_cursor (be_port settings)) [0..<?F]"
  have limit: "length ?flows \<le> FS_LIMIT" using assms(4) by (simp add: FS_LIMIT_def)
  obtain e1 f1 where e1: "establish_flows ?flows eng = Some (e1, Inr f1)" "ready e1" "all_in_step K f1 (engine_connections e1)" "length f1 = length ?flows"
    "engine_packets e1 = engine_packets eng + of_nat (2 * length ?flows)"
    by (rule establish_ok [OF assms(1) synthetic_distinct [OF assms(4)] limit]) (use assms(2,5) in auto)
  obtain e2 f2 r2 where e2: "warmup_rounds ?W f1 [] e1 = Some (e2, Inr (f2, r2))" "ready e2" "all_in_step K f2 (engine_connections e2)" "length f2 = length f1"
    "engine_packets e2 = engine_packets e1 + of_nat (?W * length f1)" using warmup_ok [OF e1(2,3)] by blast
  let ?ta = "\<lparr>ta_flows = f2, ta_responses = r2, ta_elapsed = 0, ta_latencies = [], ta_bytes = 0\<rparr>"
  have "\<exists>eng' ta'. measured_rounds (bt_round timing) 0 ?R ?ta e2 = Some (eng', Inr ta') \<and> ready eng' \<and> all_in_step K (ta_flows ta') (engine_connections eng')
    \<and> length (ta_flows ta') = length (ta_flows ?ta) \<and> ta_elapsed ta' = ta_elapsed ?ta + (\<Sum>j<?R. bt_round timing (0 + j))
    \<and> ta_latencies ta' = ta_latencies ?ta @ map (\<lambda>j. duration_nanos (bt_round timing (0 + j))) [0..<?R]
    \<and> unat (ta_bytes ta') = min (unat (ta_bytes ?ta) + ?R * (length (ta_flows ?ta) * length (respond RESPONSE_PLAINTEXT))) (2 ^ 64 - 1)
    \<and> engine_packets eng' = engine_packets e2 + of_nat (?R * length (ta_flows ?ta))"
    by (rule measured_ok [OF e2(2)]) (use e2(3) assms(6) in simp_all)
  then obtain e3 ta where e3: "measured_rounds (bt_round timing) 0 ?R ?ta e2 = Some (e3, Inr ta)" "ready e3" "all_in_step K (ta_flows ta) (engine_connections e3)"
    "ta_elapsed ta = (\<Sum>j<?R. bt_round timing j)" "ta_latencies ta = map (\<lambda>j. duration_nanos (bt_round timing j)) [0..<?R]"
    "unat (ta_bytes ta) = min (?R * (length f2 * length (respond RESPONSE_PLAINTEXT))) (2 ^ 64 - 1)"
    "engine_packets e3 = engine_packets e2 + of_nat (?R * length f2)" by auto
  obtain e4 where e4: "close_flows (ta_flows ta) e3 = Some (e4, Inr ())" "ready e4" by (rule close_ok [OF e3(2,3)])
  have lengths: "length f2 = ?F" "length f1 = ?F" using e1(4) e2(4) by simp_all
  let ?before = "?F * 2 + ?F * ?W"
  have fits: "?before + ?F * ?R < 2 ^ 64" using assms(7) by (simp add: algebra_simps)
  then have request: "?F * ?R < 2 ^ 64" by linarith
  have before: "engine_packets e2 = of_nat ?before" using e1(5) e2(5) lengths assms(3) by (simp add: algebra_simps)
  have after: "engine_packets e3 = of_nat (?before + ?F * ?R)" using e3(7) lengths by (simp add: before algebra_simps)
  have "(of_nat ?before :: u64) \<le> of_nat (?before + ?F * ?R)"
    by (rule of_nat_mono_u64) (use fits in simp_all)
  then have counted: "packets (metrics_saturating_sub (engine_metrics (bt_after timing) e3) (engine_metrics (bt_before timing) e2)) = of_nat (?F * ?R)"
    unfolding metrics_saturating_sub_def by (simp only: packet_engine_metrics.simps metrics_packets before after saturating_sub_u64_def if_True of_nat_add add_diff_cancel_left')
  let ?result = "\<lparr>br_backend = backend, br_adapter = adapter, br_flows = ?F, br_requests = of_nat (?F * ?R),
       br_handshake = bt_handshake timing, br_engine_elapsed = ta_elapsed ta, br_wall_elapsed = bt_wall timing,
       br_latencies = sort (ta_latencies ta), br_response_bytes = ta_bytes ta,
       br_metrics = metrics_saturating_sub (engine_metrics (bt_after timing) e3) (engine_metrics (bt_before timing) e2)\<rparr>"
  have now: "andthen (metrics_now nanos) k e = k (engine_metrics nanos e) e" for nanos k e by (simp add: andthen_def metrics_now_def)
  have "request_count settings = Some (of_nat (?F * ?R))" using request by (simp only: request_count_def if_True)
  then have "run_benchmark timing settings adapter eng = Some (e4, Inr ?result)"
    unfolding run_benchmark_def synthetic_flows_ok [OF assms(4)]
    by (simp only: andthen_lift andthen_run [where m = "establish_flows x" for x, OF e1(1)] andthen_run [where m = "warmup_rounds x y z" for x y z, OF e2(1)] now prod.case
      andthen_run [where m = "measured_rounds w x y z" for w x y z, OF e3(1)] andthen_run [where m = "close_flows x" for x, OF e4(1)] session_simps
      andthen_label [OF named [OF e4(2)]] lift_simps)
  then show thesis
  proof (rule that)
    show "unat (br_requests ?result) = ?F * ?R" unfolding bench_result.simps by (rule unat_of_nat_u64 [OF request])
    show "packets (br_metrics ?result) = br_requests ?result" using counted by simp
    show "unat (br_response_bytes ?result) = min (?F * ?R * length (respond RESPONSE_PLAINTEXT)) (2 ^ 64 - 1)"
      using e3(6) by (simp add: lengths algebra_simps)
  qed (simp_all add: e3(4,5))
qed

end

section \<open>The benchmark\<close>

definition bench_cli_ok :: "bench_cli \<Rightarrow> bool" where
  "bench_cli_ok cli \<longleftrightarrow> 0 < bc_flows cli \<and> 0 < bc_requests_per_flow cli \<and> bc_flows cli \<le> bc_flow_capacity cli \<and> bc_flows cli \<le> 1000000
     \<and> valid_config (bench_config cli) \<and> bc_flows cli * (2 + bc_warmup cli + bc_requests_per_flow cli) < 2 ^ 64"

text \<open>What a result reports of \<open>n\<close> requests.\<close>

definition reports :: "bench_cli \<Rightarrow> bench_times \<Rightarrow> bench_result \<Rightarrow> bool" where
  "reports cli timing r \<longleftrightarrow> unat (br_requests r) = bc_flows cli * bc_requests_per_flow cli \<and> packets (br_metrics r) = br_requests r
     \<and> unat (br_response_bytes r) = min (bc_flows cli * bc_requests_per_flow cli * PLAINTEXT_BYTES) (2 ^ 64 - 1)
     \<and> br_engine_elapsed r = (\<Sum>i<bc_requests_per_flow cli. bt_round timing i)
     \<and> br_latencies r = sort (map (\<lambda>i. duration_nanos (bt_round timing i)) [0..<bc_requests_per_flow cli])"

lemma plaintext_lengths: "length (packet_response RESPONSE_PLAINTEXT) = PLAINTEXT_BYTES" "length (cpu_response RESPONSE_PLAINTEXT) = PLAINTEXT_BYTES"
  by (simp_all add: PLAINTEXT_BYTES_def length_cpu_response)

lemma bench_settings_simps [simp]:
  "be_flows (bench_settings_of cli) = bc_flows cli" "be_rounds (bench_settings_of cli) = bc_requests_per_flow cli"
  "be_warmup (bench_settings_of cli) = bc_warmup cli" "be_port (bench_settings_of cli) = bc_listen_port cli"
  by (simp_all add: bench_settings_of_def)

lemma bench_keys_member: "\<forall>i<bc_flows cli. cu_key (synthetic_cursor (bc_listen_port cli) i) \<in> bench_keys cli"
  by (simp add: bench_keys_def)

lemma cpu_bench:
  assumes "bench_cli_ok cli" "(\<Sum>i<bc_requests_per_flow cli. bt_round timing i) \<le> DURATION_MAX"
  obtains r where "session_on (new_cpu_engine (bench_config cli)) (run_benchmark timing (bench_settings_of cli) adapter) = ok r"
    "br_backend r = ''cpu-packet''" "reports cli timing r"
proof -
  have few: "finite (bench_keys cli)" "card (bench_keys cli) \<le> flow_capacity (bench_config cli)"
    using bench_keys_few [of cli] assms(1) by (simp_all add: bench_config_def bench_cli_ok_def)
  obtain eng where eng: "new_cpu_engine (bench_config cli) = ok eng" "cpu_client_ready (bench_config cli) (bench_keys cli) eng"
    "engine_connections eng = Map.empty" "engine_packets eng = 0"
    by (rule new_cpu_client [OF _ few]) (use assms(1) in \<open>simp add: bench_cli_ok_def\<close>)
  note run = cpu_client.run_benchmark_ok [OF eng(2-4), of "bench_settings_of cli" timing adapter, simplified bench_settings_simps bench_keys_listening]
  obtain eng' r where r: "run_benchmark timing (bench_settings_of cli) adapter eng = Some (eng', Inr r)" "br_backend r = ''cpu-packet''" "reports cli timing r"
    by (rule run) (use assms bench_keys_member in \<open>simp_all add: bench_cli_ok_def reports_def plaintext_lengths\<close>)
  have "session_on (new_cpu_engine (bench_config cli)) (run_benchmark timing (bench_settings_of cli) adapter) = ok r"
    unfolding eng(1) by (rule session_on_ok) (rule r(1))
  then show thesis using r(2,3) by (rule that)
qed

lemma gpu_bench:
  assumes "bench_cli_ok cli" "(\<Sum>i<bc_requests_per_flow cli. bt_round timing i) \<le> DURATION_MAX"
    "room_for (bench_config cli) (bench_keys cli)" "capable ad" "\<forall>w. wave_completes (events w)"
  obtains r where "session_on (new_gpu_engine shader_body (Some ad) events (bench_config cli)) (run_benchmark timing (bench_settings_of cli) adapter) = ok r"
    "br_backend r = ''gpu-packet''" "reports cli timing r"
proof -
  obtain gpu where gpu: "gpu_packet_engine_new shader_body (Some ad) events (bench_config cli) = ok gpu"
    "packet_engine_ready (bench_config cli) (bench_keys cli) gpu" "connections_of (ge_device_state gpu) = Map.empty" "ge_packets gpu = 0"
    using creation_ready [OF assms(3-5)] by blast
  have eng: "gpu_ready (bench_config cli) (bench_keys cli) (GpuPacketEngine gpu)" "engine_connections (GpuPacketEngine gpu) = Map.empty"
    "engine_packets (GpuPacketEngine gpu) = 0" using gpu(2-4) by (simp_all add: gpu_ready_def)
  note run = gpu_client.run_benchmark_ok [OF eng, of "bench_settings_of cli" timing adapter, simplified bench_settings_simps bench_keys_listening]
  obtain eng' r where r: "run_benchmark timing (bench_settings_of cli) adapter (GpuPacketEngine gpu) = Some (eng', Inr r)" "br_backend r = ''gpu-packet''" "reports cli timing r"
    by (rule run) (use assms(1,2) bench_keys_member in \<open>simp_all add: bench_cli_ok_def reports_def plaintext_lengths\<close>)
  have new: "new_gpu_engine shader_body (Some ad) events (bench_config cli) = ok (GpuPacketEngine gpu)" by (simp add: new_gpu_engine_def gpu(1))
  have "session_on (new_gpu_engine shader_body (Some ad) events (bench_config cli)) (run_benchmark timing (bench_settings_of cli) adapter) = ok r"
    unfolding new by (rule session_on_ok) (rule r(1))
  then show thesis using r(2,3) by (rule that)
qed

lemma bench_main_checked:
  assumes "bench_cli_ok cli"
  shows "bench_main shader_body adapter_name adapter events cpu_times gpu_times cli =
     and_then (if bc_backend cli \<in> {BenchCpu, BenchBoth}
               then and_then (bench_run_result (session_on (new_cpu_engine (bench_config cli)) (run_benchmark cpu_times (bench_settings_of cli) None))) (\<lambda>r. ok [r])
               else ok []) (\<lambda>cpu.
     and_then (if bc_backend cli \<in> {BenchGpu, BenchBoth}
               then and_then (bench_run_result (session_on (new_gpu_engine shader_body adapter events (bench_config cli))
                   (run_benchmark gpu_times (bench_settings_of cli) (Some adapter_name)))) (\<lambda>r. ok [r])
               else ok []) (\<lambda>gpu. ok (cpu @ gpu)))"
  using assms by (simp add: bench_main_def bench_cli_ok_def bench_check_def bench_config_def valid_config_def)

lemma bench_run_result_ok [simp]: "bench_run_result (ok r) = ok r"
  by (simp add: bench_run_result_def ok_def)

text \<open>The results a choice of backends gives.\<close>

definition bench_names :: "bench_backend \<Rightarrow> string list" where
  "bench_names b = (case b of BenchCpu \<Rightarrow> [''cpu-packet''] | BenchGpu \<Rightarrow> [''gpu-packet''] | BenchBoth \<Rightarrow> [''cpu-packet'', ''gpu-packet''])"

text \<open>The packet benchmark reports what it did. For settings the program accepts (\<open>bench_cli_ok\<close>), on the CPU and, if it is wanted, on
  a capable adapter whose waves complete and whose flow table has room, no check of any round fails, and each result, one per
  backend and in their order, reports as requests exactly the responses checked, as packets of the engine exactly these, as
  bytes exactly what the responses held (up to saturation), as engine time the sum of the rounds and the sorted latencies.\<close>

theorem bench_reports:
  assumes "bench_cli_ok cli" "(\<Sum>i<bc_requests_per_flow cli. bt_round cpu_times i) \<le> DURATION_MAX"
    "(\<Sum>i<bc_requests_per_flow cli. bt_round gpu_times i) \<le> DURATION_MAX"
    "bc_backend cli = BenchCpu \<or> (\<exists>ad. adapter = Some ad \<and> capable ad) \<and> room_for (bench_config cli) (bench_keys cli) \<and> (\<forall>w. wave_completes (events w))"
  shows "\<exists>results. bench_main shader_body adapter_name adapter events cpu_times gpu_times cli = ok results
    \<and> map br_backend results = bench_names (bc_backend cli)
    \<and> (\<forall>r\<in>set results. reports cli (if br_backend r = ''cpu-packet'' then cpu_times else gpu_times) r)"
proof -
  obtain c where c: "session_on (new_cpu_engine (bench_config cli)) (run_benchmark cpu_times (bench_settings_of cli) None) = ok c"
    "br_backend c = ''cpu-packet''" "reports cli cpu_times c" by (rule cpu_bench [OF assms(1,2)])
  show ?thesis
  proof (cases "bc_backend cli = BenchCpu")
    case True
    then show ?thesis using c by (simp add: bench_main_checked [OF assms(1)] bench_names_def)
  next
    case False
    then obtain ad where ad: "adapter = Some ad" "capable ad" "room_for (bench_config cli) (bench_keys cli)" "\<forall>w. wave_completes (events w)" using assms(4) by auto
    obtain g where g: "session_on (new_gpu_engine shader_body (Some ad) events (bench_config cli)) (run_benchmark gpu_times (bench_settings_of cli) (Some adapter_name)) = ok g"
      "br_backend g = ''gpu-packet''" "reports cli gpu_times g" by (rule gpu_bench [OF assms(1,3) ad(3,2,4)])
    show ?thesis using c g ad(1) False by (cases "bc_backend cli") (simp_all add: bench_main_checked [OF assms(1)] bench_names_def)
  qed
qed

definition small_bench :: bench_cli where
  "small_bench = default_bench_cli\<lparr>bc_flows := 2, bc_requests_per_flow := 3\<rparr>"

definition sample_times :: bench_times where
  "sample_times = \<lparr>bt_handshake = 5, bt_round = (\<lambda>i. 7 * i), bt_wall = 40, bt_before = default_metrics, bt_after = default_metrics\<rparr>"

lemma small_bench_ok: "bench_cli_ok small_bench \<and> room_for (bench_config small_bench) (bench_keys small_bench)"
proof -
  have config: "bench_config small_bench = \<lparr>max_batch_size = 65536, flow_capacity = 131072, flow_probe_limit = 64, listen_port = 8080\<rparr>"
    by (simp add: bench_config_def small_bench_def default_bench_cli_def)
  have "(131072 :: nat) = 2 ^ 17" by simp
  then have valid: "valid_config (bench_config small_bench)" unfolding valid_config_def config by (auto simp: U32_MAX_def simp del: power_numeral)
  have "card (bench_keys small_bench) \<le> 2" "finite (bench_keys small_bench)" using bench_keys_few [of small_bench] by (simp_all add: small_bench_def)
  then have "probe_room 131072 64 (bench_keys small_bench)" by (intro probe_room_few) simp_all
  then show ?thesis using valid by (simp add: bench_cli_ok_def room_for_def config MAX_STORAGE_BINDING_def) (simp add: small_bench_def default_bench_cli_def)
qed

theorem bench_reports_witness:
  "\<exists>results. bench_main [] ''sample'' (Some sample_adapter) (\<lambda>w. sample_wave) sample_times sample_times small_bench = ok results
    \<and> map br_backend results = [''cpu-packet'', ''gpu-packet''] \<and> (\<forall>r\<in>set results. unat (br_requests r) = 6)"
proof -
  have both: "bc_backend small_bench = BenchBoth" "bc_flows small_bench = 2" "bc_requests_per_flow small_bench = 3" by (simp_all add: small_bench_def default_bench_cli_def)
  have sum: "(\<Sum>i<bc_requests_per_flow small_bench. bt_round sample_times i) \<le> DURATION_MAX"
  proof -
    have "{..<3 :: nat} = {0, 1, 2}" by auto
    then show ?thesis by (simp add: both sample_times_def DURATION_MAX_def)
  qed
  from bench_reports [of small_bench sample_times sample_times "Some sample_adapter" "\<lambda>w. sample_wave" "[]" "''sample''"] small_bench_ok sum
  show ?thesis by (auto simp: both bench_names_def reports_def)
qed

section \<open>Percentiles\<close>

definition percentile_rank :: "nat \<Rightarrow> nat \<Rightarrow> nat" where
  "percentile_rank n p = ((n - 1) * p + 50) div 100"

lemma percentile_rank_below: "0 < n \<Longrightarrow> p \<le> 100 \<Longrightarrow> percentile_rank n p < n"
proof -
  assume "0 < n" "p \<le> 100"
  then have "(n - 1) * p \<le> (n - 1) * 100" by simp
  then have "percentile_rank n p \<le> ((n - 1) * 100 + 50) div 100" unfolding percentile_rank_def by (intro div_le_mono) simp
  then show "percentile_rank n p < n" using \<open>0 < n\<close> by simp
qed

lemma percentile_nth:
  assumes "xs \<noteq> []" "p \<le> 100" "length xs \<le> 2 ^ 57"
  shows "percentile_nearest_rank xs p = Some (xs ! percentile_rank (length xs) p)"
proof -
  have "(length xs - 1) * p \<le> (length xs - 1) * 100" using assms(2) by simp
  also have "\<dots> \<le> 2 ^ 57 * 100" using assms(3) by (intro mult_right_mono) simp_all
  finally have bound: "(length xs - 1) * p + 50 \<le> USIZE_MAX" by (simp add: USIZE_MAX_def)
  have "percentile_rank (length xs) p < length xs" using assms by (intro percentile_rank_below) simp_all
  then show ?thesis using assms bound
    by (simp add: percentile_nearest_rank_def checked_mul_usize_def checked_add_usize_def index_def percentile_rank_def)
qed

text \<open>Percentiles of a report. On the sorted latencies of at least one and at most \<open>2 ^ 57\<close> rounds, no percentile up to 100
  overflows or indexes outside the list; each is one of the latencies, 0 and 100 give the least and the greatest, and a
  higher percentile is never smaller.\<close>

theorem percentiles_ordered:
  assumes "sorted xs" "xs \<noteq> []" "length xs \<le> 2 ^ 57" "p \<le> q" "q \<le> 100"
  shows "\<exists>a b. percentile_nearest_rank xs p = Some a \<and> percentile_nearest_rank xs q = Some b \<and> a \<in> set xs \<and> b \<in> set xs \<and> a \<le> b
    \<and> percentile_nearest_rank xs 0 = Some (hd xs) \<and> percentile_nearest_rank xs 100 = Some (last xs)"
proof -
  let ?n = "length xs"
  have below: "percentile_rank ?n p < ?n" "percentile_rank ?n q < ?n" using assms(2,4,5) by (auto intro!: percentile_rank_below)
  have "percentile_rank ?n p \<le> percentile_rank ?n q" unfolding percentile_rank_def using assms(4) by (intro div_le_mono add_mono mult_left_mono) simp_all
  then have "xs ! percentile_rank ?n p \<le> xs ! percentile_rank ?n q" using below(2) by (intro sorted_nth_mono [OF assms(1)])
  moreover have "percentile_rank ?n 0 = 0" "percentile_rank ?n 100 = ?n - 1" using assms(2) by (simp_all add: percentile_rank_def)
  ultimately show ?thesis using below assms by (simp add: percentile_nth hd_conv_nth last_conv_nth)
qed

theorem percentiles_ordered_witness:
  "\<exists>a b. percentile_nearest_rank [10, 20, 30, 40, 50] 50 = Some a \<and> percentile_nearest_rank [10, 20, 30, 40, 50] 95 = Some b \<and> a \<le> b"
  using percentiles_ordered [of "[10, 20, 30, 40, 50]" 50 95] by auto

end
