(* ===== verification/HttpBench.thy ===== *)
theory HttpBench
  imports Server PacketBench
begin

text \<open>
  \<open>src/bin/gput-bench.rs\<close>: the HTTP load generator. Settings, the parsing and checking of responses, a connection
  with pipelined requests (\<open>round_trip\<close>), the workers of a phase that claim requests from a shared counter, and the figures.
  \<open>client_accepts_server\<close>: the client accepts what the server renders; \<open>phase_exact\<close>: every request is made once.
\<close>

section \<open>Settings\<close>

definition DEFAULT_MAX_RESPONSE_BYTES :: nat where "DEFAULT_MAX_RESPONSE_BYTES = 64 * 1024"

definition HEADER_TERMINATOR_BENCH :: bytes where "HEADER_TERMINATOR_BENCH = [13, 10, 13, 10]"

definition require :: "bool \<Rightarrow> string \<Rightarrow> (string, unit) outcome" where
  "require b message = (if b then ok () else fail message)"

lemma require_simps [simp]: "require True message = ok ()" "require b message = ok () \<longleftrightarrow> b"
  by (simp_all add: require_def)

datatype bench_mode = RunMode | SuiteMode

datatype expected_backend = ExpectCpu | ExpectGpu

fun expected_backend_name :: "expected_backend \<Rightarrow> bytes" where
  "expected_backend_name ExpectCpu = ascii ''cpu''"
| "expected_backend_name ExpectGpu = ascii ''gpu''"

record http_cli =
  hc_mode :: bench_mode
  hc_address :: bytes
  hc_path :: bytes
  hc_requests :: u64
  hc_concurrency :: nat
  hc_warmup :: u64
  hc_pipeline :: nat
  hc_suite_concurrency :: "nat list"
  hc_repeats :: nat
  hc_label :: string
  hc_timeout_millis :: u64
  hc_max_response_bytes :: nat
  hc_expected_backend :: "expected_backend option"
  hc_json :: bool

text \<open>Addresses are kept as the text they are displayed as; time-outs in milliseconds.\<close>

record http_target =
  ht_address :: bytes
  ht_request :: bytes
  ht_expected_backend :: "bytes option"
  ht_timeout :: u64
  ht_max_response_bytes :: nat

record http_bench_config =
  hb_mode :: bench_mode
  hb_target :: http_target
  hb_requests :: u64
  hb_concurrency :: nat
  hb_warmup :: u64
  hb_pipeline :: nat
  hb_suite_concurrency :: "nat list"
  hb_repeats :: nat
  hb_label :: string
  hb_path :: bytes
  hb_json :: bool

definition visible_ascii :: "u8 \<Rightarrow> bool" where
  "visible_ascii b \<longleftrightarrow> 33 \<le> b \<and> b \<le> 126"

definition validate_path :: "bytes \<Rightarrow> (string, unit) outcome" where
  "validate_path path =
     and_then (require (path \<noteq> [] \<and> hd path = 47) ''--path must start with a slash'') (\<lambda>_.
     require (path \<noteq> [] \<and> list_all (\<lambda>b. visible_ascii b \<and> b \<noteq> 127) path) ''--path must contain only visible ASCII without spaces'')"

text \<open>\<open>version\<close>: the version of the package, put in at compile time.\<close>

definition bench_request :: "bytes \<Rightarrow> bytes \<Rightarrow> bytes \<Rightarrow> bytes" where
  "bench_request path addr version =
     ascii ''GET '' @ path @ ascii '' HTTP/1.1'' @ CRLF @ ascii ''Host: '' @ addr @ CRLF @ ascii ''Connection: keep-alive'' @ CRLF
     @ ascii ''User-Agent: gput-bench/'' @ version @ CRLF @ CRLF"

definition bench_config_of :: "bytes \<Rightarrow> http_cli \<Rightarrow> (string, http_bench_config) outcome" where
  "bench_config_of version cli =
     and_then (require (0 < hc_requests cli) ''--requests must be greater than zero'') (\<lambda>_.
     and_then (require (0 < hc_concurrency cli) ''--concurrency must be greater than zero'') (\<lambda>_.
     and_then (require (0 < hc_pipeline cli) ''--pipeline must be greater than zero'') (\<lambda>_.
     and_then (require (0 < hc_repeats cli) ''--repeats must be greater than zero'') (\<lambda>_.
     and_then (require (hc_suite_concurrency cli \<noteq> [] \<and> list_all (\<lambda>n. 0 < n) (hc_suite_concurrency cli)) ''--suite-concurrency must contain positive values'') (\<lambda>_.
     and_then (require (0 < hc_timeout_millis cli) ''--timeout-millis must be greater than zero'') (\<lambda>_.
     and_then (require (128 \<le> hc_max_response_bytes cli) ''--max-response-bytes must be at least 128'') (\<lambda>_.
     and_then (validate_path (hc_path cli)) (\<lambda>_.
     ok \<lparr>hb_mode = hc_mode cli,
         hb_target = \<lparr>ht_address = hc_address cli, ht_request = bench_request (hc_path cli) (hc_address cli) version,
           ht_expected_backend = map_option expected_backend_name (hc_expected_backend cli),
           ht_timeout = hc_timeout_millis cli, ht_max_response_bytes = hc_max_response_bytes cli\<rparr>,
         hb_requests = hc_requests cli, hb_concurrency = hc_concurrency cli, hb_warmup = hc_warmup cli, hb_pipeline = hc_pipeline cli,
         hb_suite_concurrency = hc_suite_concurrency cli, hb_repeats = hc_repeats cli, hb_label = hc_label cli,
         hb_path = hc_path cli, hb_json = hc_json cli\<rparr>))))))))"

section \<open>Responses\<close>

text \<open>\<open>str::from_utf8\<close> and \<open>parse::<usize>\<close> of the standard library.\<close>

definition continuation :: "u8 \<Rightarrow> bool" where
  "continuation b \<longleftrightarrow> 128 \<le> b \<and> b \<le> 191"

fun utf8_valid :: "bytes \<Rightarrow> bool" where
  "utf8_valid [] = True"
| "utf8_valid (a # bs) =
     (if a < 128 then utf8_valid bs
      else (case bs of
          [] \<Rightarrow> False
        | b # cs \<Rightarrow>
            if 194 \<le> a \<and> a \<le> 223 then continuation b \<and> utf8_valid cs
            else (case cs of
                [] \<Rightarrow> False
              | c # ds \<Rightarrow>
                  if 224 \<le> a \<and> a \<le> 239
                  then continuation b \<and> (a = 224 \<longrightarrow> 160 \<le> b) \<and> (a = 237 \<longrightarrow> b \<le> 159) \<and> continuation c \<and> utf8_valid ds
                  else (case ds of
                      [] \<Rightarrow> False
                    | d # es \<Rightarrow> 240 \<le> a \<and> a \<le> 244 \<and> continuation b \<and> (a = 240 \<longrightarrow> 144 \<le> b) \<and> (a = 244 \<longrightarrow> b \<le> 143)
                        \<and> continuation c \<and> continuation d \<and> utf8_valid es))))"

fun parse_digits :: "nat \<Rightarrow> bytes \<Rightarrow> nat option" where
  "parse_digits n [] = Some n"
| "parse_digits n (b # bs) =
     (if 48 \<le> b \<and> b \<le> 57 \<and> n * 10 + (unat b - 48) \<le> USIZE_MAX then parse_digits (n * 10 + (unat b - 48)) bs else None)"

definition parse_usize :: "bytes \<Rightarrow> nat option" where
  "parse_usize bs = (let digits = (if bs \<noteq> [] \<and> hd bs = 43 then tl bs else bs) in if digits = [] then None else parse_digits 0 digits)"

definition trim_ascii_bench :: "bytes \<Rightarrow> bytes" where
  "trim_ascii_bench bs = trim_back (trim_front bs)"

fun content_length_of :: "bytes list \<Rightarrow> (string, nat) outcome" where
  "content_length_of [] = fail ''response has no Content-Length header''"
| "content_length_of (raw_line # rest) =
     (let line = strip_suffix 13 raw_line in
      case position (\<lambda>b. b = 58) line of
        None \<Rightarrow> content_length_of rest
      | Some colon \<Rightarrow>
          if eq_ignore_ascii_case (take colon line) (ascii ''content-length'')
          then let value = trim_ascii_bench (drop (colon + 1) line) in
            and_then (require (utf8_valid value) ''Content-Length is not ASCII'') (\<lambda>_.
            case parse_usize value of None \<Rightarrow> fail ''invalid Content-Length response header'' | Some n \<Rightarrow> ok n)
          else content_length_of rest)"

definition response_content_length :: "bytes \<Rightarrow> (string, nat) outcome" where
  "response_content_length headers = content_length_of (drop 1 (split_on 10 headers))"

fun header_value :: "bytes list \<Rightarrow> bytes \<Rightarrow> bytes option" where
  "header_value [] name = None"
| "header_value (raw_line # rest) name =
     (let line = strip_suffix 13 raw_line in do {
        colon \<leftarrow> position (\<lambda>b. b = 58) line;
        if eq_ignore_ascii_case (take colon line) name then Some (trim_ascii_bench (drop (colon + 1) line)) else header_value rest name })"

definition response_header :: "bytes \<Rightarrow> bytes \<Rightarrow> bytes option" where
  "response_header headers name = header_value (drop 1 (split_on 10 headers)) name"

definition response_frame_len :: "bytes \<Rightarrow> nat \<Rightarrow> (string, nat option) outcome" where
  "response_frame_len buffer max_response_bytes =
     (case map_option (\<lambda>i. i + length HEADER_TERMINATOR_BENCH) (find_window HEADER_TERMINATOR_BENCH buffer) of
        None \<Rightarrow> and_then (require (length buffer \<le> max_response_bytes) ''response headers exceeded the limit'') (\<lambda>_. ok None)
      | Some header_end \<Rightarrow>
          and_then (response_content_length (take (header_end - length HEADER_TERMINATOR_BENCH) buffer)) (\<lambda>content_length.
          case checked_add_usize header_end content_length of
            None \<Rightarrow> fail ''response length overflowed''
          | Some response_len \<Rightarrow>
              and_then (require (response_len \<le> max_response_bytes) ''response exceeded the limit'') (\<lambda>_.
              ok (if response_len \<le> length buffer then Some response_len else None))))"

definition validate_http_response :: "bytes \<Rightarrow> bytes option \<Rightarrow> (string, unit) outcome" where
  "validate_http_response response expected_backend =
     (case map_option (\<lambda>i. i + length HEADER_TERMINATOR_BENCH) (find_window HEADER_TERMINATOR_BENCH response) of
        None \<Rightarrow> fail ''response has no complete HTTP headers''
      | Some header_end \<Rightarrow>
          let header_bytes = take (header_end - length HEADER_TERMINATOR_BENCH) response in
          and_then (require (utf8_valid header_bytes) ''response headers are not UTF-8'') (\<lambda>_.
          let status_line = (case find_window CRLF header_bytes of None \<Rightarrow> header_bytes | Some i \<Rightarrow> take i header_bytes) in
          and_then (require (status_line = ascii ''HTTP/1.1 200 OK'') ''unexpected response status'') (\<lambda>_.
          and_then (response_content_length header_bytes) (\<lambda>content_length.
          let body_len = length response - header_end in
          and_then (require (content_length = body_len) ''Content-Length does not match the response body'') (\<lambda>_.
          case expected_backend of
            None \<Rightarrow> ok ()
          | Some expected \<Rightarrow>
              require (Option.bind (response_header header_bytes (ascii ''x-gput-backend'')) (\<lambda>v. if utf8_valid v then Some v else None) = Some expected)
                ''unexpected backend'')))))"

section \<open>A connection\<close>

text \<open>
  The events are the reads from the server: \<open>Data []\<close>, and the end of the list, is a connection closed, \<open>Stall\<close> a read that outlasts
  the time-out of the batch. Reads of any length are allowed for.
\<close>

fun read_response :: "http_target \<Rightarrow> read_event list \<Rightarrow> bytes \<Rightarrow> (string, nat) outcome \<times> bytes \<times> read_event list" where
  "read_response target stream buffer =
     (case response_frame_len buffer (ht_max_response_bytes target) of
        Some (Inr (Some response_len)) \<Rightarrow>
          (case validate_http_response (take response_len buffer) (ht_expected_backend target) of
             Some (Inr _) \<Rightarrow> (ok response_len, drop response_len buffer, stream)
           | Some (Inl e) \<Rightarrow> (fail e, buffer, stream)
           | None \<Rightarrow> (None, buffer, stream))
      | Some (Inr None) \<Rightarrow>
          (case stream of
             [] \<Rightarrow> (fail ''server closed a persistent benchmark connection mid-response'', buffer, [])
           | Stall # stream \<Rightarrow> (fail ''request batch timed out'', buffer, stream)
           | ReadError # stream \<Rightarrow> (fail ''read failed'', buffer, stream)
           | Data chunk # stream \<Rightarrow>
               if chunk = [] then (fail ''server closed a persistent benchmark connection mid-response'', buffer, stream)
               else read_response target stream (buffer @ chunk))
      | Some (Inl e) \<Rightarrow> (fail e, buffer, stream)
      | None \<Rightarrow> (None, buffer, stream))"

declare read_response.simps [simp del]

record worker_result =
  wr_latencies :: "u64 list"
  wr_response_bytes :: u64

definition checked_add_u64 :: "u64 \<Rightarrow> u64 \<Rightarrow> u64 option" where
  "checked_add_u64 a b = (if unat a + unat b < 2 ^ 64 then Some (a + b) else None)"

text \<open>\<open>time i\<close>: the nanoseconds since the start of the batch when the \<open>i\<close>-th response is there.\<close>

fun read_responses_loop :: "http_target \<Rightarrow> (nat \<Rightarrow> nat) \<Rightarrow> nat \<Rightarrow> nat \<Rightarrow> worker_result \<Rightarrow> read_event list \<Rightarrow> bytes
    \<Rightarrow> (string, worker_result) outcome \<times> bytes \<times> read_event list" where
  "read_responses_loop target time i 0 result stream buffer = (ok result, buffer, stream)"
| "read_responses_loop target time i (Suc n) result stream buffer =
     (case read_response target stream buffer of
        (Some (Inr n_bytes), buffer, stream) \<Rightarrow>
          (case checked_add_u64 (wr_response_bytes result) (of_nat n_bytes) of
             None \<Rightarrow> (fail ''response byte counter overflowed'', buffer, stream)
           | Some byte_count \<Rightarrow> read_responses_loop target time (Suc i) n
               \<lparr>wr_latencies = wr_latencies result @ [duration_nanos (time i)], wr_response_bytes = byte_count\<rparr> stream buffer)
      | (Some (Inl e), buffer, stream) \<Rightarrow> (fail e, buffer, stream)
      | (None, buffer, stream) \<Rightarrow> (None, buffer, stream))"

text \<open>\<open>written\<close>: the requests were sent.\<close>

definition round_trip :: "http_target \<Rightarrow> bool \<Rightarrow> (nat \<Rightarrow> nat) \<Rightarrow> nat \<Rightarrow> read_event list \<Rightarrow> bytes
    \<Rightarrow> (string, worker_result) outcome \<times> bytes \<times> read_event list" where
  "round_trip target written time n stream buffer =
     (if \<not> written then (fail ''write failed'', buffer, stream)
      else read_responses_loop target time 0 n \<lparr>wr_latencies = [], wr_response_bytes = 0\<rparr> stream buffer)"

section \<open>A phase\<close>

text \<open>
  The workers of a phase take turns in any order; in a turn a running worker claims the next requests and makes them.
  The environment tells which workers connect, what a batch of a worker gives (\<open>round_trip\<close>, or the time-out), and in which order the
  finished workers are joined.
\<close>

datatype bench_worker = Running worker_result | Finished worker_result | Broken string | Crashed

record phase_env =
  pe_connects :: "nat \<Rightarrow> bool"
  pe_exchange :: "nat \<Rightarrow> u64 \<Rightarrow> nat \<Rightarrow> (string, worker_result) outcome"
  pe_turns :: "nat list"
  pe_joins :: "nat list"

record bench_phase =
  ph_next :: u64
  ph_workers :: "bench_worker list"

definition empty_result :: worker_result where
  "empty_result = \<lparr>wr_latencies = [], wr_response_bytes = 0\<rparr>"

definition add_batch :: "worker_result \<Rightarrow> worker_result \<Rightarrow> (string, worker_result) outcome" where
  "add_batch result b =
     (case checked_add_u64 (wr_response_bytes result) (wr_response_bytes b) of
        None \<Rightarrow> fail ''response byte counter overflowed''
      | Some byte_count \<Rightarrow> ok \<lparr>wr_latencies = wr_latencies result @ wr_latencies b, wr_response_bytes = byte_count\<rparr>)"

definition phase_start :: "phase_env \<Rightarrow> nat \<Rightarrow> bench_phase" where
  "phase_start env concurrency = \<lparr>ph_next = 0,
     ph_workers = map (\<lambda>w. if pe_connects env w then Running empty_result else Broken ''connection failed'') [0..<concurrency]\<rparr>"

text \<open>\<open>fetch_add\<close> wraps around.\<close>

definition worker_turn :: "phase_env \<Rightarrow> u64 \<Rightarrow> u64 \<Rightarrow> nat \<Rightarrow> bench_phase \<Rightarrow> bench_phase" where
  "worker_turn env requests claim w ph =
     (if w < length (ph_workers ph) then
       (case ph_workers ph ! w of
          Running result \<Rightarrow>
            let first_request = ph_next ph; ph = ph\<lparr>ph_next := ph_next ph + claim\<rparr> in
            if first_request \<ge> requests then ph\<lparr>ph_workers := (ph_workers ph)[w := Finished result]\<rparr>
            else
              let n = unat (min (requests - first_request) claim) in
              ph\<lparr>ph_workers := (ph_workers ph)[w :=
                (case and_then (pe_exchange env w first_request n) (add_batch result) of
                   None \<Rightarrow> Crashed | Some (Inl e) \<Rightarrow> Broken e | Some (Inr r) \<Rightarrow> Running r)]\<rparr>
        | _ \<Rightarrow> ph)
      else ph)"

definition phase_turns :: "phase_env \<Rightarrow> u64 \<Rightarrow> u64 \<Rightarrow> nat \<Rightarrow> bench_phase" where
  "phase_turns env requests claim concurrency = fold (worker_turn env requests claim) (pe_turns env) (phase_start env concurrency)"

fun join_workers :: "bench_worker list \<Rightarrow> nat list \<Rightarrow> worker_result \<Rightarrow> (string, worker_result) outcome" where
  "join_workers ws [] joined = ok joined"
| "join_workers ws (w # order) joined =
     (case ws ! w of
        Finished r \<Rightarrow> and_then (add_batch joined r) (join_workers ws order)
      | Broken e \<Rightarrow> fail e
      | _ \<Rightarrow> fail ''benchmark worker panicked'')"

record phase_result =
  pr_requests :: u64
  pr_concurrency :: nat
  pr_pipeline :: nat
  pr_elapsed :: nat
  pr_latencies :: "u64 list"
  pr_response_bytes :: u64

definition run_phase :: "phase_env \<Rightarrow> nat \<Rightarrow> u64 \<Rightarrow> nat \<Rightarrow> nat \<Rightarrow> (string, phase_result) outcome" where
  "run_phase env elapsed requests requested_concurrency pipeline =
     (let concurrency = max (min requested_concurrency (unat requests)) 1; claim = of_nat pipeline;
          ph = phase_turns env requests claim concurrency in
      and_then (join_workers (ph_workers ph) (pe_joins env) empty_result) (\<lambda>joined.
      and_then (require (of_nat (length (wr_latencies joined)) = requests) ''completed fewer or more requests'') (\<lambda>_.
      ok \<lparr>pr_requests = requests, pr_concurrency = concurrency, pr_pipeline = pipeline, pr_elapsed = elapsed,
          pr_latencies = sort (wr_latencies joined), pr_response_bytes = wr_response_bytes joined\<rparr>)))"

definition run_once :: "phase_env \<Rightarrow> nat \<Rightarrow> phase_env \<Rightarrow> nat \<Rightarrow> http_bench_config \<Rightarrow> (string, phase_result) outcome" where
  "run_once warm warm_elapsed env elapsed config =
     and_then (if hb_warmup config > 0
               then and_then (run_phase warm warm_elapsed (hb_warmup config) (hb_concurrency config) (hb_pipeline config)) (\<lambda>_. ok ())
               else ok ()) (\<lambda>_.
     run_phase env elapsed (hb_requests config) (hb_concurrency config) (hb_pipeline config))"

definition median_u64 :: "u64 list \<Rightarrow> u64 option" where
  "median_u64 ordered =
     (let middle = length ordered div 2 in
      if even (length ordered)
      then do {
        below \<leftarrow> (if middle = 0 then None else index ordered (middle - 1));
        above \<leftarrow> index ordered middle;
        Some (saturating_add_u64 below above div 2) }
      else index ordered middle)"

section \<open>Numbers and white space\<close>

lemma parse_digits_append: "parse_digits k (xs @ ys) = Option.bind (parse_digits k xs) (\<lambda>n. parse_digits n ys)"
  by (induction xs arbitrary: k) simp_all

lemma digit_byte:
  assumes "n < 10"
  shows "unat (of_nat (48 + n) :: u8) = 48 + n" "48 \<le> (of_nat (48 + n) :: u8)" "(of_nat (48 + n) :: u8) \<le> 57"
proof -
  show u: "unat (of_nat (48 + n) :: u8) = 48 + n" using assms by (simp only: unat_of_nat) simp
  show "48 \<le> (of_nat (48 + n) :: u8)" unfolding word_le_nat_alt u by simp
  show "(of_nat (48 + n) :: u8) \<le> 57" unfolding word_le_nat_alt u using assms by simp
qed

lemma decimal_bytes: "list_all (\<lambda>b. 48 \<le> b \<and> b \<le> 57) (decimal n)" "decimal n \<noteq> []"
proof -
  show "list_all (\<lambda>b. 48 \<le> b \<and> b \<le> 57) (decimal n)"
  proof (induction n rule: decimal.induct)
    case (1 n)
    then show ?case using digit_byte [of n] digit_byte [of "n mod 10"] by (subst decimal.simps) simp
  qed
  show "decimal n \<noteq> []" by (subst decimal.simps) simp
qed

lemma parse_digits_decimal: "k * 10 ^ length (decimal n) + n \<le> USIZE_MAX \<Longrightarrow> parse_digits k (decimal n) = Some (k * 10 ^ length (decimal n) + n)"
proof (induction n arbitrary: k rule: decimal.induct)
  case (1 n)
  show ?case
  proof (cases "n < 10")
    case True
    then show ?thesis using "1.prems" digit_byte [OF True] by (simp add: decimal.simps [of n])
  next
    case False
    let ?m = "n div 10" and ?d = "n mod 10"
    have d: "?d < 10" by simp
    have split: "decimal n = decimal ?m @ [of_nat (48 + ?d)]" using False by (subst decimal.simps) simp
    have all: "(k * 10 ^ length (decimal ?m) + ?m) * 10 + ?d = k * 10 ^ length (decimal n) + n" unfolding split by (simp add: algebra_simps)
    have less: "q \<le> q * 10 + ?d" for q :: nat by simp
    have "k * 10 ^ length (decimal ?m) + ?m \<le> USIZE_MAX" by (rule order.trans [OF less]) (unfold all, rule "1.prems")
    from "1.IH" [OF False this] show ?thesis
      using "1.prems" digit_byte [OF d] all unfolding split by (simp add: parse_digits_append)
  qed
qed

lemma parse_decimal: "n \<le> USIZE_MAX \<Longrightarrow> parse_usize (decimal n) = Some n"
proof -
  assume n: "n \<le> USIZE_MAX"
  obtain b bs where d: "decimal n = b # bs" "48 \<le> b" using decimal_bytes [of n] by (cases "decimal n") auto
  then have "b \<noteq> 43" by auto
  then show "parse_usize (decimal n) = Some n" using parse_digits_decimal [of 0 n] n d(1) by (simp add: parse_usize_def Let_def)
qed

lemma trim_solid: "list_all (\<lambda>b. \<not> is_ascii_whitespace b) xs \<Longrightarrow> trim_ascii_bench (32 # xs) = xs"
proof -
  assume solid: "list_all (\<lambda>b. \<not> is_ascii_whitespace b) xs"
  have "trim_front (32 # xs) = xs" using solid by (cases xs) (simp_all add: is_ascii_whitespace_def)
  moreover have "trim_back xs = xs" using solid by (subst trim_back.simps) (auto simp: list_all_iff)
  ultimately show ?thesis by (simp add: trim_ascii_bench_def)
qed

lemma utf8_ascii: "list_all (\<lambda>b. b < 128) xs \<Longrightarrow> utf8_valid xs"
  by (induction xs) simp_all

section \<open>What the server renders\<close>

definition plain_text :: "bytes \<Rightarrow> bool" where
  "plain_text xs \<longleftrightarrow> list_all (\<lambda>b. 32 \<le> b \<and> b < 127) xs"

lemma validated_plain: "validate_header_value v = ok () \<Longrightarrow> plain_text v"
proof -
  assume "validate_header_value v = ok ()"
  then have "b < 128 \<and> 32 \<le> b \<and> b \<noteq> 127" if "b \<in> set v" for b
    using that by (auto simp: validate_header_value_def is_ascii_control_def list_all_iff list_ex_iff not_less split: if_splits)
  moreover have "b < 127" if "b < 128" "b \<noteq> 127" for b :: u8 using that by unat_arith
  ultimately show ?thesis by (auto simp: plain_text_def list_all_iff)
qed

lemma plain_text_append [simp]: "plain_text (xs @ ys) \<longleftrightarrow> plain_text xs \<and> plain_text ys"
  by (simp add: plain_text_def)

lemma plain_bytes:
  assumes "plain_text xs"
  shows "13 \<notin> set xs" "10 \<notin> set xs" "list_all (\<lambda>b. b < 128) xs"
  using assms by (auto simp: plain_text_def list_all_iff intro: less_trans)

lemma skip_line: "13 \<notin> set line \<Longrightarrow> find_window HEADER_TERMINATOR_BENCH (line @ xs) = map_option (\<lambda>i. i + length line) (find_window HEADER_TERMINATOR_BENCH xs)"
  by (induction line) (auto simp: HEADER_TERMINATOR_BENCH_def option.map_comp comp_def option.map_ident)

lemma skip_crlf: "xs \<noteq> [] \<Longrightarrow> hd xs \<noteq> 13 \<Longrightarrow> find_window HEADER_TERMINATOR_BENCH (CRLF @ xs) = map_option (\<lambda>i. i + 2) (find_window HEADER_TERMINATOR_BENCH xs)"
  by (cases xs) (auto simp: HEADER_TERMINATOR_BENCH_def CRLF_def option.map_comp comp_def)

lemma at_terminator: "find_window HEADER_TERMINATOR_BENCH (CRLF @ CRLF @ xs) = Some 0"
  by (simp add: HEADER_TERMINATOR_BENCH_def CRLF_def)

fun join_lines :: "bytes list \<Rightarrow> bytes" where
  "join_lines [] = []"
| "join_lines [l] = l"
| "join_lines (l # ls) = l @ CRLF @ join_lines ls"

definition head_line :: "bytes \<Rightarrow> bool" where
  "head_line l \<longleftrightarrow> l \<noteq> [] \<and> 13 \<notin> set l \<and> 10 \<notin> set l"

lemma join_lines_start: "ls \<noteq> [] \<Longrightarrow> head_line (hd ls) \<Longrightarrow> join_lines ls @ xs \<noteq> [] \<and> hd (join_lines ls @ xs) \<noteq> 13"
  by (cases ls rule: join_lines.cases) (auto simp: head_line_def dest: hd_in_set)

lemma header_found:
  "ls \<noteq> [] \<Longrightarrow> list_all head_line ls \<Longrightarrow>
     find_window HEADER_TERMINATOR_BENCH (join_lines ls @ CRLF @ CRLF @ body) = Some (length (join_lines ls))"
proof (induction ls rule: join_lines.induct)
  case (2 l)
  then show ?case by (simp add: skip_line head_line_def at_terminator)
next
  case (3 l l' ls)
  have "join_lines (l' # ls) @ CRLF @ CRLF @ body \<noteq> [] \<and> hd (join_lines (l' # ls) @ CRLF @ CRLF @ body) \<noteq> 13"
    by (rule join_lines_start) (use 3 in simp_all)
  with 3 skip_crlf [of "join_lines (l' # ls) @ CRLF @ CRLF @ body"] show ?case
    by (simp add: skip_line head_line_def) (simp add: CRLF_def)
qed simp

lemma header_lines:
  "ls \<noteq> [] \<Longrightarrow> list_all head_line ls \<Longrightarrow> split_on 10 (join_lines ls) = map (\<lambda>l. l @ [13]) (butlast ls) @ [last ls]"
proof (induction ls rule: join_lines.induct)
  case (2 l)
  then show ?case by (simp add: split_on_no_sep head_line_def)
next
  case (3 l l' ls)
  have "split_on 10 ((l @ [13]) @ 10 # join_lines (l' # ls)) = (l @ [13]) # split_on 10 (join_lines (l' # ls))"
    by (rule split_on_append) (use 3 in \<open>simp add: head_line_def\<close>)
  with 3 show ?case by (simp add: CRLF_def)
qed simp

lemma strip_line: "strip_suffix 13 (l @ [13]) = l" "head_line l \<Longrightarrow> strip_suffix 13 l = l"
  by (auto simp: head_line_def dest: last_in_set)

lemma colon_at: "58 \<notin> set name \<Longrightarrow> position (\<lambda>b. b = 58) (name @ 58 # value) = Some (length name)"
  by (induction name) auto

definition response_lines :: "u16 \<Rightarrow> bytes \<Rightarrow> bytes \<Rightarrow> nat \<Rightarrow> bytes \<Rightarrow> bytes list" where
  "response_lines status reason content_type n backend =
     [ascii ''HTTP/1.1 '' @ decimal (unat status) @ ascii '' '' @ reason, ascii ''Content-Type'' @ 58 # 32 # content_type,
      ascii ''Content-Length'' @ 58 # 32 # decimal n, ascii ''Server'' @ 58 # ascii '' gput'', ascii ''X-Gput-Backend'' @ 58 # 32 # backend]"

lemma build_response_lines: "build_response status reason content_type body backend =
    join_lines (response_lines status reason content_type (length body) backend) @ CRLF @ CRLF @ body"
  by (simp add: build_response_def response_lines_def Let_def ascii_def)

lemma plain_decimal: "plain_text (decimal n)"
proof -
  have "32 \<le> b \<and> b < 127" if "48 \<le> b" "b \<le> 57" for b :: u8 using that by unat_arith
  then show ?thesis using decimal_bytes(1) [of n] by (auto simp: plain_text_def list_all_iff)
qed

lemma head_line_plain: "plain_text l \<Longrightarrow> l \<noteq> [] \<Longrightarrow> head_line l"
  using plain_bytes by (simp add: head_line_def)

lemma response_lines_plain:
  assumes "plain_text reason" "plain_text content_type" "plain_text backend"
  shows "list_all plain_text (response_lines status reason content_type n backend)"
    "list_all head_line (response_lines status reason content_type n backend)"
proof -
  have names: "plain_text (ascii ''HTTP/1.1 '')" "plain_text (ascii '' '')" "plain_text (ascii ''Content-Type'')" "plain_text (ascii ''Content-Length'')"
    "plain_text (ascii ''Server'')" "plain_text (ascii ''X-Gput-Backend'')" "plain_text (ascii '' gput'')" "plain_text [58, 32]" "plain_text [58]"
    by code_simp+
  have cons: "plain_text (58 # xs) \<longleftrightarrow> plain_text xs" "plain_text (32 # xs) \<longleftrightarrow> plain_text xs" for xs by (simp_all add: plain_text_def)
  show all: "list_all plain_text (response_lines status reason content_type n backend)"
    using assms names plain_decimal by (simp add: response_lines_def cons)
  show "list_all head_line (response_lines status reason content_type n backend)"
    using all by (auto simp: response_lines_def list_all_iff ascii_def intro!: head_line_plain)
qed

lemma response_line_parts:
  assumes "plain_text reason" "plain_text content_type" "plain_text backend"
  shows "drop 1 (split_on 10 (join_lines (response_lines status reason content_type n backend))) =
    [(ascii ''Content-Type'' @ 58 # 32 # content_type) @ [13], (ascii ''Content-Length'' @ 58 # 32 # decimal n) @ [13],
     (ascii ''Server'' @ 58 # ascii '' gput'') @ [13], ascii ''X-Gput-Backend'' @ 58 # 32 # backend]"
  using header_lines [OF _ response_lines_plain(2) [OF assms], of status n] by (simp add: response_lines_def)

lemma line_names:
  "58 \<notin> set (ascii ''Content-Type'')" "58 \<notin> set (ascii ''Content-Length'')" "58 \<notin> set (ascii ''Server'')" "58 \<notin> set (ascii ''X-Gput-Backend'')"
  "\<not> eq_ignore_ascii_case (ascii ''Content-Type'') (ascii ''content-length'')" "eq_ignore_ascii_case (ascii ''Content-Length'') (ascii ''content-length'')"
  "\<not> eq_ignore_ascii_case (ascii ''Content-Type'') (ascii ''x-gput-backend'')" "\<not> eq_ignore_ascii_case (ascii ''Content-Length'') (ascii ''x-gput-backend'')"
  "\<not> eq_ignore_ascii_case (ascii ''Server'') (ascii ''x-gput-backend'')" "eq_ignore_ascii_case (ascii ''X-Gput-Backend'') (ascii ''x-gput-backend'')"
  by code_simp+

lemma content_length_line:
  "58 \<notin> set name \<Longrightarrow> content_length_of (((name @ 58 # value) @ [13]) # rest) =
     (if eq_ignore_ascii_case name (ascii ''content-length'')
      then and_then (require (utf8_valid (trim_ascii_bench value)) ''Content-Length is not ASCII'') (\<lambda>_.
        case parse_usize (trim_ascii_bench value) of None \<Rightarrow> fail ''invalid Content-Length response header'' | Some n \<Rightarrow> ok n)
      else content_length_of rest)"
  by (simp add: colon_at strip_line Let_def del: strip_suffix.simps append_assoc)

lemma header_value_line:
  "58 \<notin> set name \<Longrightarrow> strip_suffix 13 line = name @ 58 # value \<Longrightarrow> header_value (line # rest) wanted =
     (if eq_ignore_ascii_case name wanted then Some (trim_ascii_bench value) else header_value rest wanted)"
  by (simp add: colon_at Let_def del: strip_suffix.simps)

definition solid :: "bytes \<Rightarrow> bool" where
  "solid xs \<longleftrightarrow> list_all (\<lambda>b. 32 < b \<and> b < 127) xs"

lemma solid_plain: "solid xs \<Longrightarrow> plain_text xs" "solid xs \<Longrightarrow> trim_ascii_bench (32 # xs) = xs"
proof -
  have b: "32 \<le> b" "\<not> is_ascii_whitespace b" if "32 < b" for b using that by (auto simp: is_ascii_whitespace_def)
  show "solid xs \<Longrightarrow> plain_text xs" using b(1) by (auto simp: solid_def plain_text_def list_all_iff)
  show "solid xs \<Longrightarrow> trim_ascii_bench (32 # xs) = xs" by (rule trim_solid) (use b(2) in \<open>auto simp: solid_def list_all_iff\<close>)
qed

lemma solid_decimal: "solid (decimal n)"
proof -
  have "32 < b \<and> b < 127" if "48 \<le> b" "b \<le> 57" for b :: u8 using that by unat_arith
  then show ?thesis using decimal_bytes(1) [of n] by (auto simp: solid_def list_all_iff)
qed

lemma rendered_content_length:
  assumes "plain_text reason" "plain_text content_type" "plain_text backend" "n \<le> USIZE_MAX"
  shows "response_content_length (join_lines (response_lines status reason content_type n backend)) = ok n"
  unfolding response_content_length_def response_line_parts [OF assms(1-3)]
  using utf8_ascii [OF plain_bytes(3) [OF plain_decimal]]
  by (simp only: content_length_line line_names if_True if_False not_False_eq_True solid_plain(2) [OF solid_decimal]
      require_simps and_then_simps parse_decimal [OF assms(4)] option.case simp_thms)

lemma rendered_backend:
  assumes "plain_text reason" "plain_text content_type" "solid backend"
  shows "response_header (join_lines (response_lines status reason content_type n backend)) (ascii ''x-gput-backend'') = Some backend"
proof -
  have last: "strip_suffix 13 (ascii ''X-Gput-Backend'' @ 58 # 32 # backend) = ascii ''X-Gput-Backend'' @ 58 # 32 # backend"
    by (rule strip_line(2)) (use response_lines_plain(2) [OF assms(1,2) solid_plain(1) [OF assms(3)]] in \<open>simp add: response_lines_def\<close>)
  show ?thesis
    unfolding response_header_def response_line_parts [OF assms(1,2) solid_plain(1) [OF assms(3)]]
    by (simp only: header_value_line [OF line_names(1) strip_line(1)] header_value_line [OF line_names(2) strip_line(1)]
        header_value_line [OF line_names(3) strip_line(1)] header_value_line [OF line_names(4) last] line_names if_True if_False
        solid_plain(2) [OF assms(3)])
qed

section \<open>The client accepts what the server renders\<close>

definition rendered :: "bytes \<Rightarrow> bytes \<Rightarrow> bytes \<Rightarrow> bytes" where
  "rendered content_type body backend = build_response 200 (ascii ''OK'') content_type body backend"

definition acceptable_response :: "nat \<Rightarrow> bytes \<Rightarrow> bytes \<Rightarrow> bytes \<Rightarrow> bool" where
  "acceptable_response m content_type body backend \<longleftrightarrow> plain_text content_type \<and> solid backend
     \<and> length (rendered content_type body backend) \<le> m \<and> m \<le> USIZE_MAX"

definition rendered_head :: "bytes \<Rightarrow> bytes \<Rightarrow> bytes \<Rightarrow> bytes" where
  "rendered_head content_type body backend = join_lines (response_lines 200 (ascii ''OK'') content_type (length body) backend)"

lemma rendered_split: "rendered content_type body backend = rendered_head content_type body backend @ CRLF @ CRLF @ body"
  by (simp add: rendered_def rendered_head_def build_response_lines)

lemma plain_ok: "plain_text (ascii ''OK'')"
  by code_simp

lemma terminator_length: "length HEADER_TERMINATOR_BENCH = 4"
  by (simp add: HEADER_TERMINATOR_BENCH_def)

lemma rendered_header_end:
  assumes "acceptable_response m content_type body backend"
  shows "find_window HEADER_TERMINATOR_BENCH (rendered_head content_type body backend @ CRLF @ CRLF @ xs)
    = Some (length (rendered_head content_type body backend))"
  unfolding rendered_head_def using assms
  by (intro header_found response_lines_plain(2)) (simp_all add: acceptable_response_def response_lines_def plain_ok solid_plain)

lemma rendered_length:
  assumes "acceptable_response m content_type body backend"
  shows "response_content_length (rendered_head content_type body backend) = ok (length body)"
  unfolding rendered_head_def using assms
  by (intro rendered_content_length) (auto simp: acceptable_response_def rendered_split plain_ok solid_plain)

lemma frame_of_rendered:
  assumes "acceptable_response m content_type body backend"
  shows "response_frame_len (rendered content_type body backend @ rest) m = ok (Some (length (rendered content_type body backend)))"
proof -
  let ?h = "rendered_head content_type body backend"
  have len: "length ?h + 4 + length body \<le> m" "m \<le> USIZE_MAX" using assms by (simp_all add: acceptable_response_def rendered_split CRLF_def)
  have "find_window HEADER_TERMINATOR_BENCH (rendered content_type body backend @ rest) = Some (length ?h)"
    using rendered_header_end [OF assms, of "body @ rest"] by (simp add: rendered_split)
  then show ?thesis using len rendered_length [OF assms]
    by (simp add: response_frame_len_def HEADER_TERMINATOR_BENCH_def checked_add_usize_def rendered_split CRLF_def)
qed

lemma rendered_incomplete:
  assumes ok: "acceptable_response m content_type body backend" and pre: "xs @ ys = rendered content_type body backend" "ys \<noteq> []"
  shows "response_frame_len xs m = ok None"
proof -
  let ?h = "rendered_head content_type body backend" and ?r = "rendered content_type body backend"
  have len: "length ?h + 4 + length body \<le> m" "m \<le> USIZE_MAX" "length ?r = length ?h + 4 + length body"
    using ok by (simp_all add: acceptable_response_def rendered_split CRLF_def)
  have short: "length xs < length ?r" using arg_cong [OF pre(1), of length] pre(2) by (cases ys) simp_all
  show ?thesis
  proof (cases "find_window HEADER_TERMINATOR_BENCH xs")
    case None
    then show ?thesis using short len by (simp add: response_frame_len_def)
  next
    case (Some i)
    then have i: "i + 4 \<le> length xs" "take 4 (drop i xs) = HEADER_TERMINATOR_BENCH"
      using find_window_less [OF Some] unfolding terminator_length by simp_all
    have at: "take 4 (drop i ?r) = HEADER_TERMINATOR_BENCH" using i by (simp flip: pre(1))
    have found: "find_window HEADER_TERMINATOR_BENCH ?r = Some (length ?h)" using rendered_header_end [OF ok] by (simp add: rendered_split)
    have "\<not> i < length ?h" using find_window_first [OF found, of i] at unfolding terminator_length by blast
    then have "length ?h + 4 \<le> length xs" using i(1) by simp
    then have long: "length ?h + 4 \<le> length xs" .
    obtain head where head: "head = ?h @ CRLF @ CRLF" by blast
    have split: "?r = head @ body" "length head = length ?h + 4" by (simp_all add: rendered_split head CRLF_def)
    have "take (length xs) ?r = head @ take (length xs - (length ?h + 4)) body" using long split(2) unfolding split(1) by simp
    then have "take (length xs) ?r = ?h @ CRLF @ CRLF @ take (length xs - (length ?h + 4)) body" unfolding head by simp
    moreover have "take (length xs) ?r = xs" by (simp flip: pre(1))
    ultimately have xs: "xs = ?h @ CRLF @ CRLF @ take (length xs - (length ?h + 4)) body" by simp
    have "find_window HEADER_TERMINATOR_BENCH xs = Some (length ?h)" by (subst xs) (rule rendered_header_end [OF ok])
    moreover have "take (length ?h) xs = ?h" by (subst xs) simp
    ultimately show ?thesis using short len rendered_length [OF ok]
      by (simp add: response_frame_len_def HEADER_TERMINATOR_BENCH_def checked_add_usize_def)
  qed
qed

lemma join_ascii: "list_all plain_text ls \<Longrightarrow> list_all (\<lambda>b. b < 128) (join_lines ls)"
  by (induction ls rule: join_lines.induct) (simp_all add: plain_bytes(3) CRLF_def)

lemma rendered_validates:
  assumes "acceptable_response m content_type body backend"
  shows "validate_http_response (rendered content_type body backend) expected =
    (if expected = None \<or> expected = Some backend then ok () else fail ''unexpected backend'')"
proof -
  let ?h = "rendered_head content_type body backend" and ?r = "rendered content_type body backend"
  let ?ls = "response_lines 200 (ascii ''OK'') content_type (length body) backend"
  have parts: "plain_text content_type" "solid backend" using assms by (simp_all add: acceptable_response_def)
  have found: "find_window HEADER_TERMINATOR_BENCH ?r = Some (length ?h)" using rendered_header_end [OF assms] by (simp add: rendered_split)
  have plain: "list_all plain_text ?ls" "list_all head_line ?ls"
    by (rule response_lines_plain; simp add: plain_ok parts solid_plain)+
  have utf8: "utf8_valid ?h" unfolding rendered_head_def by (rule utf8_ascii [OF join_ascii [OF plain(1)]])
  define s where "s = ascii ''HTTP/1.1 200 OK''"
  have "ascii ''HTTP/1.1 '' @ decimal (unat (200 :: u16)) @ ascii '' '' @ ascii ''OK'' = s" unfolding s_def by code_simp
  then have "\<exists>ls. ?h = s @ CRLF @ ls" by (simp add: rendered_head_def response_lines_def)
  then obtain ls where h: "?h = s @ CRLF @ ls" by blast
  have "13 \<notin> set s" unfolding s_def by code_simp
  then have first: "find_window CRLF ?h = Some (length s)" "take (length s) ?h = s" unfolding h by (simp_all add: find_crlf)
  have take: "take (length ?h) ?r = ?h" and body: "length ?r - (length ?h + 4) = length body" by (simp_all add: rendered_split CRLF_def)
  have named: "response_header ?h (ascii ''x-gput-backend'') = Some backend"
    unfolding rendered_head_def by (rule rendered_backend) (simp_all add: plain_ok parts)
  have "utf8_valid backend" by (rule utf8_ascii [OF plain_bytes(3) [OF solid_plain(1) [OF parts(2)]]])
  then show ?thesis
    by (cases expected) (simp_all add: validate_http_response_def s_def [symmetric] found terminator_length take body utf8 first named rendered_length [OF assms] require_def)
qed

text \<open>The client frames and accepts a response of status 200 as the server renders it: it waits for all of it, takes none of what
  follows, and reports another backend than the expected one.\<close>

theorem client_accepts_server:
  assumes "acceptable_response m content_type body backend"
  shows "response_frame_len (rendered content_type body backend @ rest) m = ok (Some (length (rendered content_type body backend)))
    \<and> (\<forall>xs ys. xs @ ys = rendered content_type body backend \<and> ys \<noteq> [] \<longrightarrow> response_frame_len xs m = ok None)
    \<and> validate_http_response (rendered content_type body backend) expected =
        (if expected = None \<or> expected = Some backend then ok () else fail ''unexpected backend'')"
  using frame_of_rendered [OF assms] rendered_incomplete [OF assms] rendered_validates [OF assms] by blast

section \<open>A batch of requests\<close>

text \<open>A response of a target: it is acceptable and names the expected backend, if one is expected.\<close>

definition target_response :: "http_target \<Rightarrow> bytes \<Rightarrow> bool" where
  "target_response target r \<longleftrightarrow> (\<exists>content_type body backend. r = rendered content_type body backend
     \<and> acceptable_response (ht_max_response_bytes target) content_type body backend
     \<and> (ht_expected_backend target = None \<or> ht_expected_backend target = Some backend))"

lemma target_response_framed:
  assumes "target_response target r"
  shows "response_frame_len (r @ rest) (ht_max_response_bytes target) = ok (Some (length r))"
    "xs @ ys = r \<Longrightarrow> ys \<noteq> [] \<Longrightarrow> response_frame_len xs (ht_max_response_bytes target) = ok None"
    "validate_http_response r (ht_expected_backend target) = ok ()" "r \<noteq> []"
proof -
  from assms obtain content_type body backend where r: "r = rendered content_type body backend"
    and ok: "acceptable_response (ht_max_response_bytes target) content_type body backend"
    and expected: "ht_expected_backend target = None \<or> ht_expected_backend target = Some backend"
    unfolding target_response_def by blast
  show "response_frame_len (r @ rest) (ht_max_response_bytes target) = ok (Some (length r))" unfolding r by (rule frame_of_rendered [OF ok])
  show "xs @ ys = r \<Longrightarrow> ys \<noteq> [] \<Longrightarrow> response_frame_len xs (ht_max_response_bytes target) = ok None"
    unfolding r by (rule rendered_incomplete [OF ok])
  show "validate_http_response r (ht_expected_backend target) = ok ()" unfolding r rendered_validates [OF ok] using expected by simp
  show "r \<noteq> []" unfolding r rendered_split CRLF_def by simp
qed

lemma split_buffer:
  assumes "buffer @ more_bytes = r @ tail"
  obtains xs where "buffer = r @ xs" "xs @ more_bytes = tail" | ys where "buffer @ ys = r" "ys \<noteq> []" "more_bytes = ys @ tail"
  using assms by (auto simp: append_eq_append_conv2) blast

lemma read_response_there:
  assumes "target_response target r"
  shows "read_response target stream (r @ xs) = (ok (length r), xs, stream)"
  using target_response_framed(1,3) [OF assms] by (subst read_response.simps) (simp add: ok_def)

lemma read_response_waits:
  assumes "target_response target r" "buffer @ ys = r" "ys \<noteq> []" "chunk \<noteq> []"
  shows "read_response target (Data chunk # stream) buffer = read_response target stream (buffer @ chunk)"
  using target_response_framed(2) [OF assms(1-3)] assms(4) by (subst read_response.simps) (simp add: ok_def)

lemma read_response_ok:
  assumes "target_response target r" "buffer @ concat chunks = r @ tail" "[] \<notin> set chunks"
  shows "\<exists>buffer' chunks'. read_response target (map Data chunks) buffer = (ok (length r), buffer', map Data chunks')
    \<and> buffer' @ concat chunks' = tail \<and> [] \<notin> set chunks'"
  using assms(2,3)
proof (induction chunks arbitrary: buffer)
  case Nil
  then obtain xs where "buffer = r @ xs" "xs = tail" by (cases rule: split_buffer) auto
  then show ?case using read_response_there [OF assms(1)] by (intro exI [of _ tail] exI [of _ "[]"]) simp
next
  case (Cons chunk chunks)
  from Cons.prems(1) show ?case
  proof (cases rule: split_buffer)
    case (1 xs)
    then show ?thesis using read_response_there [OF assms(1)] Cons.prems(2)
      by (intro exI [of _ xs] exI [of _ "chunk # chunks"]) simp
  next
    case (2 ys)
    from Cons.IH [of "buffer @ chunk"] Cons.prems obtain buffer' chunks' where
      "read_response target (map Data chunks) (buffer @ chunk) = (ok (length r), buffer', map Data chunks')"
      "buffer' @ concat chunks' = tail" "[] \<notin> set chunks'" by auto
    moreover have "chunk \<noteq> []" using Cons.prems(2) by auto
    ultimately show ?thesis using read_response_waits [OF assms(1) 2(1,2)] by (intro exI [of _ buffer'] exI [of _ chunks']) simp
  qed
qed

lemma read_responses_ok:
  assumes "\<forall>r\<in>set rs. target_response target r" "buffer @ concat chunks = concat rs @ tail" "[] \<notin> set chunks"
    "unat (wr_response_bytes result) + length (concat rs) < 2 ^ 64"
  shows "\<exists>buffer' chunks'. read_responses_loop target time i (length rs) result (map Data chunks) buffer =
      (ok \<lparr>wr_latencies = wr_latencies result @ map (\<lambda>j. duration_nanos (time j)) [i..<i + length rs],
           wr_response_bytes = wr_response_bytes result + of_nat (length (concat rs))\<rparr>, buffer', map Data chunks')
    \<and> buffer' @ concat chunks' = tail \<and> [] \<notin> set chunks'"
  using assms
proof (induction rs arbitrary: i result buffer chunks)
  case Nil
  then show ?case by auto
next
  case (Cons r rs)
  have tail: "buffer @ concat chunks = r @ (concat rs @ tail)" using Cons.prems(2) by simp
  have r: "target_response target r" using Cons.prems(1) by simp
  from read_response_ok [OF r tail Cons.prems(3)] obtain buffer1 chunks1 where
    one: "read_response target (map Data chunks) buffer = (ok (length r), buffer1, map Data chunks1)"
    "buffer1 @ concat chunks1 = concat rs @ tail" "[] \<notin> set chunks1" by blast
  let ?n = "wr_response_bytes result + of_nat (length r)"
  have u: "unat (of_nat (length r) :: u64) = length r" using Cons.prems(4) by (simp add: unat_of_nat take_bit_nat_eq_self)
  have n: "checked_add_u64 (wr_response_bytes result) (of_nat (length r)) = Some ?n" "unat ?n = unat (wr_response_bytes result) + length r"
    using Cons.prems(4) u by (simp_all add: checked_add_u64_def unat_word_ariths)
  let ?res = "\<lparr>wr_latencies = wr_latencies result @ [duration_nanos (time i)], wr_response_bytes = ?n\<rparr>"
  have "unat (wr_response_bytes ?res) + length (concat rs) < 2 ^ 64" using Cons.prems(4) n(2) by simp
  from Cons.IH [OF _ one(2,3) this, of "Suc i"] Cons.prems(1) obtain buffer' chunks' where
    "read_responses_loop target time (Suc i) (length rs) ?res (map Data chunks1) buffer1 =
      (ok \<lparr>wr_latencies = wr_latencies ?res @ map (\<lambda>j. duration_nanos (time j)) [Suc i..<Suc i + length rs],
           wr_response_bytes = wr_response_bytes ?res + of_nat (length (concat rs))\<rparr>, buffer', map Data chunks')"
    "buffer' @ concat chunks' = tail" "[] \<notin> set chunks'" by auto
  moreover have "[i..<i + length (r # rs)] = i # [Suc i..<Suc i + length rs]" by (simp add: upt_rec [of i] Suc_le_eq)
  ultimately show ?case using one(1) n(1) by (auto simp: ok_def add.assoc)
qed

text \<open>A batch of requests on a connection: when the server sends a response of the target to each, in order and cut into nonempty reads
  in any way, the client counts them all, one latency each and exactly their bytes, and keeps nothing of them.\<close>

theorem round_trip_exact:
  assumes "\<forall>r\<in>set rs. target_response target r" "concat chunks = concat rs" "[] \<notin> set chunks" "length (concat rs) < 2 ^ 64"
  shows "round_trip target True time (length rs) (map Data chunks) [] =
    (ok \<lparr>wr_latencies = map (\<lambda>i. duration_nanos (time i)) [0..<length rs], wr_response_bytes = of_nat (length (concat rs))\<rparr>, [], [])"
proof -
  have "[] @ concat chunks = concat rs @ []" using assms(2) by simp
  from read_responses_ok [OF assms(1) this assms(3), of "\<lparr>wr_latencies = [], wr_response_bytes = 0\<rparr>" time 0] assms(4)
  obtain buffer' chunks' where r: "read_responses_loop target time 0 (length rs) \<lparr>wr_latencies = [], wr_response_bytes = 0\<rparr> (map Data chunks) [] =
      (ok \<lparr>wr_latencies = map (\<lambda>i. duration_nanos (time i)) [0..<length rs], wr_response_bytes = of_nat (length (concat rs))\<rparr>, buffer', map Data chunks')"
    "buffer' = []" "concat chunks' = []" "[] \<notin> set chunks'" by auto
  then have "chunks' = []" by (cases chunks') auto
  then show ?thesis using r by (simp add: round_trip_def)
qed

section \<open>A phase makes every request once\<close>

fun latencies_of :: "bench_worker \<Rightarrow> nat" where
  "latencies_of (Running r) = length (wr_latencies r)"
| "latencies_of (Finished r) = length (wr_latencies r)"
| "latencies_of _ = 0"

fun bytes_of_worker :: "bench_worker \<Rightarrow> nat" where
  "bytes_of_worker (Running r) = unat (wr_response_bytes r)"
| "bytes_of_worker (Finished r) = unat (wr_response_bytes r)"
| "bytes_of_worker _ = 0"

fun is_finished :: "bench_worker \<Rightarrow> bool" where
  "is_finished (Finished _) \<longleftrightarrow> True"
| "is_finished _ \<longleftrightarrow> False"

fun at_work :: "bench_worker \<Rightarrow> bool" where
  "at_work (Running _) \<longleftrightarrow> True"
| "at_work (Finished _) \<longleftrightarrow> True"
| "at_work _ \<longleftrightarrow> False"

definition finished_count :: "bench_worker list \<Rightarrow> nat" where
  "finished_count ws = (\<Sum>w\<leftarrow>ws. of_bool (is_finished w))"

text \<open>Every worker connects and every batch of \<open>n\<close> requests gives \<open>n\<close> latencies and \<open>n\<close> responses of \<open>len\<close> bytes.\<close>

definition phase_served :: "phase_env \<Rightarrow> nat \<Rightarrow> bool" where
  "phase_served env len \<longleftrightarrow> (\<forall>w. pe_connects env w) \<and> (\<forall>w first_request n. n * len < 2 ^ 64 \<longrightarrow>
     (\<exists>r. pe_exchange env w first_request n = ok r \<and> length (wr_latencies r) = n \<and> unat (wr_response_bytes r) = n * len))"

definition phase_inv :: "u64 \<Rightarrow> u64 \<Rightarrow> nat \<Rightarrow> nat \<Rightarrow> bench_phase \<Rightarrow> bool" where
  "phase_inv requests claim concurrency len ph \<longleftrightarrow> length (ph_workers ph) = concurrency \<and> list_all at_work (ph_workers ph)
     \<and> (\<Sum>w\<leftarrow>ph_workers ph. latencies_of w) = min (unat (ph_next ph)) (unat requests)
     \<and> (\<Sum>w\<leftarrow>ph_workers ph. bytes_of_worker w) = min (unat (ph_next ph)) (unat requests) * len
     \<and> unat (ph_next ph) < unat requests + (finished_count (ph_workers ph) + 1) * unat claim
     \<and> (0 < finished_count (ph_workers ph) \<longrightarrow> requests \<le> ph_next ph)"

lemma sum_changed:
  fixes f :: "'a \<Rightarrow> nat"
  assumes "w < length xs"
  shows "(\<Sum>x\<leftarrow>xs[w := y]. f x) + f (xs ! w) = (\<Sum>x\<leftarrow>xs. f x) + f y"
proof -
  have "f (xs ! w) \<le> (\<Sum>x\<leftarrow>xs. f x)" using elem_le_sum_list [of w "map f xs"] assms by simp
  then show ?thesis using assms by (simp add: map_update sum_list_update)
qed

lemma finished_bound: "w < length ws \<Longrightarrow> \<not> is_finished (ws ! w) \<Longrightarrow> finished_count ws < length ws"
proof -
  assume w: "w < length ws" "\<not> is_finished (ws ! w)"
  have "finished_count vs \<le> length vs" for vs by (induction vs) (simp_all add: finished_count_def)
  from this [of "ws[w := Finished empty_result]"] sum_changed [OF w(1), of "\<lambda>v. of_bool (is_finished v)" "Finished empty_result"] w(2)
  show ?thesis by (simp add: finished_count_def)
qed

lemma start_inv: "phase_served env len \<Longrightarrow> 0 < requests \<Longrightarrow> 0 < claim \<Longrightarrow> phase_inv requests claim concurrency len (phase_start env concurrency)"
  by (simp add: phase_served_def phase_inv_def phase_start_def empty_result_def finished_count_def list_all_iff comp_def map_replicate_const sum_list_replicate word_less_nat_alt)

lemma turn_inv:
  assumes env: "phase_served env len" and inv: "phase_inv requests claim concurrency len ph" and pos: "0 < claim"
    and room: "unat requests + (concurrency + 1) * unat claim \<le> 2 ^ 64" "unat requests * len < 2 ^ 64"
  shows "phase_inv requests claim concurrency len (worker_turn env requests claim w ph)"
proof (cases "w < length (ph_workers ph) \<and> (\<exists>r. ph_workers ph ! w = Running r)")
  case False
  then have "worker_turn env requests claim w ph = ph" by (auto simp: worker_turn_def split: bench_worker.split)
  then show ?thesis using inv by simp
next
  case True
  then obtain result where w: "w < length (ph_workers ph)" and run: "ph_workers ph ! w = Running result" by blast
  note i = inv [unfolded phase_inv_def]
  let ?next = "ph_next ph" and ?ws = "ph_workers ph"
  have "finished_count ?ws < concurrency" using finished_bound [OF w] run i by simp
  then have "(finished_count ?ws + 2) * unat claim \<le> (concurrency + 1) * unat claim" by (intro mult_le_mono1) simp
  then have "unat ?next + unat claim < 2 ^ 64" using i room(1) by (simp add: algebra_simps)
  then have nxt: "unat (?next + claim) = unat ?next + unat claim" by (simp add: unat_word_ariths)
  show ?thesis
  proof (cases "requests \<le> ?next")
    case True
    let ?ws' = "?ws[w := Finished result]"
    have turn: "worker_turn env requests claim w ph = ph\<lparr>ph_next := ?next + claim, ph_workers := ?ws'\<rparr>"
      using w run True by (simp add: worker_turn_def)
    have sums: "(\<Sum>v\<leftarrow>?ws'. latencies_of v) = (\<Sum>v\<leftarrow>?ws. latencies_of v)" "(\<Sum>v\<leftarrow>?ws'. bytes_of_worker v) = (\<Sum>v\<leftarrow>?ws. bytes_of_worker v)"
      "finished_count ?ws' = finished_count ?ws + 1"
      using sum_changed [OF w, of latencies_of "Finished result"] sum_changed [OF w, of bytes_of_worker "Finished result"]
        sum_changed [OF w, of "\<lambda>v. of_bool (is_finished v)" "Finished result"] run by (simp_all add: finished_count_def)
    have "list_all at_work ?ws'" using i w by (auto simp: list_all_iff dest!: set_update_subset_insert [THEN subsetD])
    moreover have "unat requests \<le> unat ?next" "requests \<le> ?next + claim" using True nxt by (simp_all add: word_le_nat_alt)
    ultimately show ?thesis using i nxt sums unfolding turn phase_inv_def by (simp add: algebra_simps)
  next
    case False
    let ?n = "unat (min (requests - ?next) claim)"
    have less: "unat ?next < unat requests" using False by (simp add: word_le_nat_alt)
    have n: "?n = min (unat requests - unat ?next) (unat claim)" using less by (simp add: min_def word_le_nat_alt unat_sub word_less_nat_alt)
    have fits: "(unat ?next + ?n) * len < 2 ^ 64" "?n * len < 2 ^ 64"
    proof -
      have "unat ?next + ?n \<le> unat requests" unfolding n using less by simp
      then have "(unat ?next + ?n) * len \<le> unat requests * len" by (rule mult_le_mono1)
      then show "(unat ?next + ?n) * len < 2 ^ 64" using room(2) by linarith
      then show "?n * len < 2 ^ 64" by (simp add: algebra_simps)
    qed
    obtain b where b: "pe_exchange env w ?next ?n = ok b" "length (wr_latencies b) = ?n" "unat (wr_response_bytes b) = ?n * len"
      using env fits(2) unfolding phase_served_def by blast
    have le: "unat (wr_response_bytes result) \<le> unat ?next * len"
    proof -
      have "bytes_of_worker (?ws ! w) \<le> (\<Sum>v\<leftarrow>?ws. bytes_of_worker v)" using elem_le_sum_list [of w "map bytes_of_worker ?ws"] w by simp
      then show ?thesis using i run less by (simp add: min_def)
    qed
    define r where "r = \<lparr>wr_latencies = wr_latencies result @ wr_latencies b, wr_response_bytes = wr_response_bytes result + wr_response_bytes b\<rparr>"
    have sum: "unat (wr_response_bytes result) + unat (wr_response_bytes b) < 2 ^ 64" using le fits(1) b(3) by (simp add: algebra_simps)
    then have added: "add_batch result b = ok r" "unat (wr_response_bytes r) = unat (wr_response_bytes result) + ?n * len"
      using b(3) by (simp_all add: add_batch_def checked_add_u64_def r_def unat_word_ariths)
    let ?ws' = "?ws[w := Running r]"
    have turn: "worker_turn env requests claim w ph = ph\<lparr>ph_next := ?next + claim, ph_workers := ?ws'\<rparr>"
      using w run False b(1) added(1) by (simp add: worker_turn_def Let_def) (simp add: ok_def)
    have sums: "(\<Sum>v\<leftarrow>?ws'. latencies_of v) = (\<Sum>v\<leftarrow>?ws. latencies_of v) + ?n"
      "(\<Sum>v\<leftarrow>?ws'. bytes_of_worker v) = (\<Sum>v\<leftarrow>?ws. bytes_of_worker v) + ?n * len" "finished_count ?ws' = finished_count ?ws"
      using sum_changed [OF w, of latencies_of "Running r"] sum_changed [OF w, of bytes_of_worker "Running r"]
        sum_changed [OF w, of "\<lambda>v. of_bool (is_finished v)" "Running r"] run b(2) added(2) by (simp_all add: finished_count_def r_def)
    have none: "finished_count ?ws = 0" using i False by auto
    have "list_all at_work ?ws'" using i w by (auto simp: list_all_iff dest!: set_update_subset_insert [THEN subsetD])
    moreover have "min (unat ?next) (unat requests) + ?n = min (unat ?next + unat claim) (unat requests)" unfolding n using less by simp
    moreover have "(min (unat ?next) (unat requests) + ?n) * len = min (unat ?next) (unat requests) * len + ?n * len" by (simp add: algebra_simps)
    ultimately show ?thesis using i nxt sums none less unfolding turn phase_inv_def by simp
  qed
qed

lemma turns_inv:
  assumes "phase_served env len" "0 < requests" "0 < claim" "unat requests + (concurrency + 1) * unat claim \<le> 2 ^ 64" "unat requests * len < 2 ^ 64"
  shows "phase_inv requests claim concurrency len (phase_turns env requests claim concurrency)"
proof -
  have "phase_inv requests claim concurrency len (fold (worker_turn env requests claim) turns ph)"
    if "phase_inv requests claim concurrency len ph" for turns ph
    using that by (induction turns arbitrary: ph) (simp_all add: turn_inv [OF assms(1) _ assms(3-5)])
  then show ?thesis using start_inv [OF assms(1-3)] by (simp add: phase_turns_def)
qed

lemma join_finished:
  assumes "\<forall>w\<in>set order. is_finished (ws ! w)"
    "unat (wr_response_bytes joined) + (\<Sum>w\<leftarrow>order. bytes_of_worker (ws ! w)) < 2 ^ 64"
  shows "\<exists>r. join_workers ws order joined = ok r \<and> length (wr_latencies r) = length (wr_latencies joined) + (\<Sum>w\<leftarrow>order. latencies_of (ws ! w))
    \<and> unat (wr_response_bytes r) = unat (wr_response_bytes joined) + (\<Sum>w\<leftarrow>order. bytes_of_worker (ws ! w))"
  using assms
proof (induction order arbitrary: joined)
  case (Cons w order)
  then obtain b where b: "ws ! w = Finished b" by (cases "ws ! w") auto
  have sum: "unat (wr_response_bytes joined) + unat (wr_response_bytes b) < 2 ^ 64" using Cons.prems(2) b by simp
  let ?j = "\<lparr>wr_latencies = wr_latencies joined @ wr_latencies b, wr_response_bytes = wr_response_bytes joined + wr_response_bytes b\<rparr>"
  have u: "unat (wr_response_bytes joined + wr_response_bytes b) = unat (wr_response_bytes joined) + unat (wr_response_bytes b)"
    using sum by (simp add: unat_word_ariths)
  have "add_batch joined b = ok ?j" using sum by (simp add: add_batch_def checked_add_u64_def)
  moreover have "\<exists>r. join_workers ws order ?j = ok r \<and> length (wr_latencies r) = length (wr_latencies ?j) + (\<Sum>w\<leftarrow>order. latencies_of (ws ! w))
      \<and> unat (wr_response_bytes r) = unat (wr_response_bytes ?j) + (\<Sum>w\<leftarrow>order. bytes_of_worker (ws ! w))"
    by (rule Cons.IH) (use Cons.prems b u in simp_all)
  ultimately show ?case using b u by auto
qed simp

lemma sum_list_joined:
  fixes f :: "bench_worker \<Rightarrow> nat"
  assumes "mset order = mset [0..<length ws]"
  shows "(\<Sum>w\<leftarrow>order. f (ws ! w)) = (\<Sum>v\<leftarrow>ws. f v)"
proof -
  have "(\<Sum>w\<leftarrow>order. f (ws ! w)) = sum_mset (image_mset (\<lambda>w. f (ws ! w)) (mset order))" by (simp flip: sum_mset_sum_list)
  also have "\<dots> = (\<Sum>w\<leftarrow>[0..<length ws]. f (ws ! w))" unfolding assms by (simp flip: sum_mset_sum_list)
  also have "map (\<lambda>w. f (ws ! w)) [0..<length ws] = map f ws" by (rule nth_equalityI) simp_all
  finally show ?thesis .
qed

text \<open>A phase makes every request once, whatever the order in which its workers take turns: when every worker connects and every batch is
  answered with responses of one length, and no worker is left in the middle, the phase succeeds with one latency for each request and the
  bytes of all responses. The counter the workers claim from must not wrap around.\<close>

theorem phase_exact:
  assumes "phase_served env len" "0 < requests" "0 < pipeline" "concurrency = max (min asked (unat requests)) 1"
    "unat requests + (concurrency + 1) * pipeline \<le> 2 ^ 64" "unat requests * len < 2 ^ 64"
    "mset (pe_joins env) = mset [0..<concurrency]"
    "list_all is_finished (ph_workers (phase_turns env requests (of_nat pipeline) concurrency))"
  shows "\<exists>result. run_phase env elapsed requests asked pipeline = ok result \<and> length (pr_latencies result) = unat requests
    \<and> unat (pr_response_bytes result) = unat requests * len \<and> pr_concurrency result = concurrency"
proof -
  let ?ph = "phase_turns env requests (of_nat pipeline) concurrency"
  have "2 * pipeline \<le> (concurrency + 1) * pipeline" unfolding assms(4) by (intro mult_le_mono1) simp
  then have "pipeline < 2 ^ 64" using assms(3,5) by linarith
  then have claim: "unat (of_nat pipeline :: u64) = pipeline" by (simp add: unat_of_nat take_bit_nat_eq_self)
  then have pos: "0 < (of_nat pipeline :: u64)" using assms(3) by (simp add: word_less_nat_alt)
  have inv: "phase_inv requests (of_nat pipeline) concurrency len ?ph"
    by (rule turns_inv [OF assms(1,2) pos]) (use assms(5,6) claim in simp_all)
  note i = inv [unfolded phase_inv_def]
  have "1 \<le> concurrency" unfolding assms(4) by simp
  then obtain v vs where ws: "ph_workers ?ph = v # vs" using i by (cases "ph_workers ?ph") auto
  then have "0 < finished_count (ph_workers ?ph)" using assms(8) by (simp add: finished_count_def)
  then have next_request: "min (unat (ph_next ?ph)) (unat requests) = unat requests" using i by (simp add: word_le_nat_alt)
  have order: "mset (pe_joins env) = mset [0..<length (ph_workers ?ph)]" using assms(7) i by simp
  then have members: "set (pe_joins env) = {0..<length (ph_workers ?ph)}" by (metis set_mset_mset set_upt)
  have ended: "\<forall>w\<in>set (pe_joins env). is_finished (ph_workers ?ph ! w)" unfolding members using assms(8) by (simp add: list_all_length)
  have sums: "(\<Sum>w\<leftarrow>pe_joins env. latencies_of (ph_workers ?ph ! w)) = unat requests"
    "(\<Sum>w\<leftarrow>pe_joins env. bytes_of_worker (ph_workers ?ph ! w)) = unat requests * len"
    using i next_request by (simp_all add: sum_list_joined [OF order])
  have "unat (wr_response_bytes empty_result) + (\<Sum>w\<leftarrow>pe_joins env. bytes_of_worker (ph_workers ?ph ! w)) < 2 ^ 64"
    unfolding sums empty_result_def using assms(6) by simp
  from join_finished [OF ended this] obtain joined where joined: "join_workers (ph_workers ?ph) (pe_joins env) empty_result = ok joined"
    "length (wr_latencies joined) = unat requests" "unat (wr_response_bytes joined) = unat requests * len"
    unfolding sums by (auto simp: empty_result_def)
  show ?thesis unfolding run_phase_def Let_def assms(4) [symmetric] by (simp add: joined)
qed

end
