(* ===== verification/PacketShaderCorrect.thy ===== *)
theory PacketShaderCorrect
  imports GpuCpu
begin

text \<open>
  The packet shader by itself: its classifier is the CPU's, one dispatch answers a wave, and the creation
  of the engine around it.
\<close>

section \<open>The classifier\<close>

text \<open>C19: the shader classifies a request like the CPU. The payload may begin at any byte of the packet and of
  an input word; \<open>classify\<close> of the shader, which reads it byte by byte out of the input words, never reads
  outside of them and gives the response that \<open>classify_http_request\<close> gives.\<close>

theorem shader_classifies:
  assumes "input_at d base bs" "off \<le> length bs"
  shows "shader_classify d base (of_nat off) (of_nat (length bs - off)) = Some (classify_http_request (drop off bs))"
proof -
  have small: "length bs \<le> MAX_RAW_PACKET_BYTES" using assms(1) by (simp add: input_at_def)
  have "read_byte d base (of_nat off + k) = Some (ucast (drop off bs ! unat k))" if k: "unat k < length (drop off bs)" for k
  proof -
    have "unat (of_nat off :: u32) = off" using assms(2) small by (intro unat_of_nat_u32) (simp add: MAX_RAW_PACKET_BYTES_def U32_MAX_def)
    then have u: "unat (of_nat off + k) = off + unat k"
      using small k by (subst unat_plus) (simp_all add: MAX_RAW_PACKET_BYTES_def U32_MAX_def)
    have "unat (of_nat off + k) < length bs" using u k by simp
    from read_byte_input [OF assms(1) this] show ?thesis using u assms(2) by simp
  qed
  then have "readable d base (of_nat off) (drop off bs)" using small by (simp add: readable_def)
  from shader_classify_input [OF this] show ?thesis by simp
qed

definition sample_words :: "bytes \<Rightarrow> packet_bindings" where
  "sample_words bs = \<lparr>pb_input_meta = [], pb_input_words = 0 # the (pack_bytes bs),
     pb_params = wave_params default_packet_engine_config 48 0,
     pb_arrays = \<lparr>ra_word_offsets = [], ra_word_counts = [], ra_lengths = [], ra_checksum_sums = [], ra_words = []\<rparr>\<rparr>"

lemma sample_words_input: "length bs \<le> MAX_RAW_PACKET_BYTES \<Longrightarrow> input_at (sample_words bs) 1 bs"
proof -
  assume small: "length bs \<le> MAX_RAW_PACKET_BYTES"
  obtain ws where ws: "pack_bytes bs = Some ws" "length ws = div_ceil (length bs) 4" "words_to_bytes ws = pad_words bs"
    using pack_bytes_closed by blast
  have drop4: "drop 4 (words_to_bytes (0 # ws)) = words_to_bytes ws" using words_to_bytes_drop [of 1 "0 # ws"] by simp
  have "div_ceil (length bs) 4 \<le> 384" using small by (intro div_ceil_4_mono) (simp add: MAX_RAW_PACKET_BYTES_def)
  then show "input_at (sample_words bs) 1 bs"
    using small ws div_ceil_4_bound [of bs] drop4 by (simp add: input_at_def sample_words_def U32_MAX_def pad_words_def)
qed

theorem shader_classifies_witness:
  "shader_classify (sample_words (ascii ''POST /health HTTP/1.1'' @ crlf)) 1 (of_nat 0) (of_nat (length (ascii ''POST /health HTTP/1.1'' @ crlf) - 0))
    = Some (classify_http_request (drop 0 (ascii ''POST /health HTTP/1.1'' @ crlf)))"
  by (rule shader_classifies [OF sample_words_input]) (simp_all add: MAX_RAW_PACKET_BYTES_def crlf_def)

section \<open>One dispatch\<close>

text \<open>C12: one dispatch answers a wave. On an engine state that is ready for a set \<open>K\<close> of connections and whose
  waves complete (\<open>packet_gpu_ok\<close>: buffers of the right sizes, nothing mapped, a sound flow table with open
  connections in \<open>K\<close>, and probe room for all of \<open>K\<close>, so that no SYN finds its probe window full), on at most a
  batch of well-formed packets of distinct connections, all in \<open>K\<close>, laid out as the engine lays them out, the
  shader (parsing, open-addressing flow table, TCP state machine, HTTP response, packet with both checksums, one
  invocation per packet in any order) neither reads nor writes outside its buffers; it leaves the flow table with
  the connections of the sequential run, with every connection within the probe limit and none twice, and
  what is read back are the answers of that run.\<close>

theorem shader_wave_serves:
  assumes "packet_gpu_ok config K g" "\<forall>p\<in>set ps. wf_packet p \<and> served config K p" "length ps \<le> max_batch_size config"
    "distinct (List.map_filter packet_key ps)"
  shows "\<exists>g' metas words. packet_kernel g (wave_params config 48 (length ps)) (layout_metas 0 ps) (layout_bytes ps) = Some (g', Inr (metas, words))
    \<and> slots_ok (flow_capacity config) (flow_probe_limit config) (me_flows (pg_memory g'))
    \<and> flow_table (me_flows (pg_memory g')) = fst (run_seq (gpu_flow_step config) (flow_table (me_flows (pg_memory g))) ps)
    \<and> output_holds metas words 48 (snd (run_seq (gpu_flow_step config) (flow_table (me_flows (pg_memory g))) ps))"
proof -
  have "total_words ps \<le> 384 * length ps" using assms(2)
    by (induction ps) (auto simp: total_words_def packet_words_def wf_packet_def MAX_RAW_PACKET_BYTES_def
        dest: div_ceil_4_le)
  then have "total_words ps \<le> 384 * max_batch_size config" using assms(3) by linarith
  from kernel_serves [OF assms(1-3) this assms(4)] show ?thesis by (auto simp: packet_gpu_ok_def packet_gpu_shape_def)
qed

theorem shader_wave_serves_witness:
  "\<exists>eng g' metas words. gpu_packet_engine_new [] (Some sample_adapter) (\<lambda>w. sample_wave) default_packet_engine_config = ok eng
    \<and> packet_kernel (ge_device_state eng) (wave_params default_packet_engine_config 48 (length [sample_syn]))
        (layout_metas 0 [sample_syn]) (layout_bytes [sample_syn]) = Some (g', Inr (metas, words))
    \<and> slots_ok (flow_capacity default_packet_engine_config) (flow_probe_limit default_packet_engine_config) (me_flows (pg_memory g'))
    \<and> flow_table (me_flows (pg_memory g')) = fst (run_seq (gpu_flow_step default_packet_engine_config)
        (flow_table (me_flows (pg_memory (ge_device_state eng)))) [sample_syn])
    \<and> output_holds metas words 48 (snd (run_seq (gpu_flow_step default_packet_engine_config)
        (flow_table (me_flows (pg_memory (ge_device_state eng)))) [sample_syn]))"
proof -
  obtain eng where eng: "gpu_packet_engine_new [] (Some sample_adapter) (\<lambda>w. sample_wave) default_packet_engine_config = ok eng"
    "packet_gpu_ok default_packet_engine_config {sample_key} (ge_device_state eng)"
    using creation_ready [OF default_room sample_capable, of "{sample_key}" "\<lambda>w. sample_wave" "[]"] by (auto simp: engine_ready_def)
  have "\<forall>p\<in>set [sample_syn]. wf_packet p \<and> served default_packet_engine_config {sample_key} p"
    using sample_syn_servable by (simp add: servable_def)
  moreover have "length [sample_syn] \<le> max_batch_size default_packet_engine_config" "distinct (List.map_filter packet_key [sample_syn])"
    by (simp_all add: List.map_filter_def)
  ultimately show ?thesis using shader_wave_serves [OF eng(2)] eng(1) by blast
qed

section \<open>The engine is created\<close>

text \<open>C20: \<open>GpuPacketEngine::new\<close> never panics: no size overflows, the response table and the shader source
  are built, no buffer is above the limits of the device or below what its binding needs. It succeeds exactly for a
  valid configuration on an adapter that can compute and grants a device, if the output buffer (196 bytes for each
  packet of a batch) and the flow table (64 bytes for each connection) fit the binding limit.\<close>

theorem packet_engine_created:
  "gpu_packet_engine_new shader_body adapter events config \<noteq> None
    \<and> ((\<exists>eng. gpu_packet_engine_new shader_body adapter events config = ok eng) \<longleftrightarrow>
        valid_config config \<and> (\<exists>ad. adapter = Some ad \<and> capable ad)
        \<and> 196 * max_batch_size config \<le> MAX_STORAGE_BINDING \<and> 64 * flow_capacity config \<le> MAX_STORAGE_BINDING)"
proof (cases "valid_config config \<and> (\<exists>ad. adapter = Some ad \<and> capable ad)")
  case True
  then obtain ad where ad: "adapter = Some ad" "capable ad" and v: "valid_config config" by blast
  obtain ra where new: "\<And>sizes. packet_buffer_sizes config MAX_STORAGE_BINDING MAX_BUFFER = Inr sizes \<Longrightarrow>
       gpu_packet_engine_new shader_body (Some ad) events config =
         ok \<lparr>ge_config = config, ge_word_capacity = input_word_capacity sizes, ge_stride_words = output_stride_words sizes,
             ge_device_state = new_packet_gpu config sizes ra (ad_integrated ad \<and> ad_mappable_primary_buffers ad)
               (if ad_integrated ad \<and> ad_mappable_primary_buffers ad then None else Some (output_bytes sizes)) events,
             ge_seen = flow_set_default, ge_dispatches = 0, ge_packets = 0\<rparr>"
    "\<And>e. packet_buffer_sizes config MAX_STORAGE_BINDING MAX_BUFFER = Inl e \<Longrightarrow>
       gpu_packet_engine_new shader_body (Some ad) events config = fail (PacketSizing e)"
    by (rule creation_of_valid [OF v ad(2), of shader_body events]) blast
  have fits: "(\<exists>sizes. packet_buffer_sizes config MAX_STORAGE_BINDING MAX_BUFFER = Inr sizes) \<longleftrightarrow>
      196 * max_batch_size config \<le> MAX_STORAGE_BINDING \<and> 64 * flow_capacity config \<le> MAX_STORAGE_BINDING"
    by (simp add: sizes_of_valid [OF v] MAX_STORAGE_BINDING_def MAX_BUFFER_def)
  show ?thesis using creation_total [of shader_body adapter events config] fits new v ad
    by (cases "packet_buffer_sizes config MAX_STORAGE_BINDING MAX_BUFFER") (auto simp: ok_def fail_def)
next
  case False
  then have "\<not> (\<exists>eng. gpu_packet_engine_new shader_body adapter events config = ok eng)"
    by (auto simp: gpu_packet_engine_new_def capable_def validate_config_iff [symmetric] ok_def fail_def Let_def split: sum.splits option.splits if_splits)
  then show ?thesis using False creation_total [of shader_body adapter events config] by blast
qed

end
