(* ===== verification/RouterBuild.thy ===== *)
theory RouterBuild
  imports RouterProgram
begin

text \<open>
  The builders of \<open>Body\<close> and \<open>Router\<close>: what a built body renders to, and the canonical form
  (no empty literal, no two adjacent literals) that the literal folding keeps.
\<close>

section \<open>What the builders render\<close>

lemma body_bytes_append: "body_bytes (b @ c) parts n backend = body_bytes b parts n backend @ body_bytes c parts n backend"
  by (simp add: body_bytes_def)

lemma body_bytes_literal: "body_bytes (body_literal b v) parts n backend = body_bytes b parts n backend @ v"
proof (cases "b = [] \<or> v = []")
  case True
  then show ?thesis by (auto simp: body_literal_def body_bytes_def segment_bytes_def)
next
  case False
  then obtain c s where b: "b = c @ [s]" by (metis append_butlast_last_id)
  show ?thesis using False by (cases s) (auto simp: b body_literal_def body_bytes_append body_bytes_def segment_bytes_def)
qed

text \<open>Every builder appends to the rendered body exactly the piece it names; the folding of
  literals and the skipping of zero limits and of equal backend variants are invisible.\<close>

theorem builders_append:
  "body_bytes (body_push b v) parts n backend = body_bytes b parts n backend @ v
   \<and> body_bytes (body_path b k) parts n backend = body_bytes b parts n backend @ take k (q_path parts)
   \<and> body_bytes (body_query b k) parts n backend = body_bytes b parts n backend @ take k (q_query parts)
   \<and> body_bytes (body_backend b) parts n backend = body_bytes b parts n backend @ backend
   \<and> body_bytes (body_request_bytes b) parts n backend = body_bytes b parts n backend @ decimal n
   \<and> body_bytes (body_path_hash b) parts n backend = body_bytes b parts n backend @ decimal (unat (q_path_hash parts))
   \<and> body_bytes (body_backend_variant b cpu gpu) parts n backend
       = body_bytes b parts n backend @ (if backend = ascii ''gpu'' then gpu else cpu)"
  by (auto simp: body_push_def body_bytes_literal body_path_def body_query_def body_backend_def body_request_bytes_def
      body_path_hash_def body_backend_variant_def body_bytes_append)
    (auto simp: body_bytes_def segment_bytes_def)

section \<open>Canonical bodies\<close>

fun canonical :: "body \<Rightarrow> bool" where
  "canonical [] = True"
| "canonical (Literal v # b) = (v \<noteq> [] \<and> canonical b \<and> (case b of Literal _ # _ \<Rightarrow> False | _ \<Rightarrow> True))"
| "canonical (BackendVariant cpu gpu # b) = (cpu \<noteq> gpu \<and> canonical b)"
| "canonical (Path k # b) = (k \<noteq> 0 \<and> canonical b)"
| "canonical (Query k # b) = (k \<noteq> 0 \<and> canonical b)"
| "canonical (_ # b) = canonical b"

lemma canonical_snoc:
  "canonical (b @ [s]) \<longleftrightarrow> canonical b \<and> canonical [s]
     \<and> \<not> (\<exists>u v. s = Literal v \<and> b \<noteq> [] \<and> last b = Literal u)"
proof (induction b rule: canonical.induct)
  case (2 v b)
  then show ?case by (cases b) (auto split: list.splits body_segment.splits)
qed auto

text \<open>Every builder keeps a body canonical: no empty literal, no two adjacent literals, no zero
  limit and no backend variant with equal sides.\<close>

theorem builders_canonical:
  assumes "canonical b"
  shows "canonical (body_push b v) \<and> canonical (body_path b k) \<and> canonical (body_query b k) \<and> canonical (body_backend b)
    \<and> canonical (body_request_bytes b) \<and> canonical (body_path_hash b) \<and> canonical (body_backend_variant b cpu gpu)"
proof -
  have lit: "canonical (body_literal b v)" for v
  proof (cases "b = []")
    case False
    then obtain c s where b: "b = c @ [s]" by (metis append_butlast_last_id)
    show ?thesis using assms canonical_snoc [of "c @ [s]" "Literal v"]
      by (cases s) (auto simp: b body_literal_def canonical_snoc)
  qed (simp add: body_literal_def)
  then show ?thesis using assms
    by (simp add: body_push_def body_path_def body_query_def body_backend_def body_request_bytes_def
        body_path_hash_def body_backend_variant_def canonical_snoc)
qed

theorem builders_canonical_witness: "canonical (body_push [Literal [1]] [2])"
  using builders_canonical [of "[Literal [1]]" "[2]"] by simp

end
